(* ===== verification/Prelude.thy ===== *)
theory Prelude
  imports Main "HOL-Library.Word" "HOL-Library.Multiset"
begin

text \<open>
  Shared vocabulary of the runeOS development: the machine-integer names of
  \<^verbatim>\<open>Kernel/Include/Ember/Ember.h\<close> (\<open>U8\<close> \<dots> \<open>U64\<close>), the collections that the component
  theories fill and use, and generic facts on words, lists and maps.
\<close>

unbundle bit_operations_syntax

type_synonym u8 = "8 word"
type_synonym u16 = "16 word"
type_synonym u32 = "32 word"
type_synonym u64 = "64 word"

type_synonym memory_addr = u64
type_synonym physical_addr = u64
type_synonym virtual_addr = u64
type_synonym memory_size = u64

named_theorems no_wrap "word arithmetic read as natural-number arithmetic when it does not wrap"
named_theorems unfold_ops "the definitions of the operations of a component"

section \<open>Words\<close>

lemma unat_plus_no_wrap [no_wrap]:
  fixes a b :: "'a::len word"
  assumes "unat a + unat b < 2 ^ LENGTH('a)"
  shows "unat (a + b) = unat a + unat b"
  using assms by (simp add: unat_word_ariths)

lemma unat_minus_no_wrap [no_wrap]:
  fixes a b :: "'a::len word"
  assumes "unat b \<le> unat a"
  shows "unat (a - b) = unat a - unat b"
  using assms by (simp add: unat_sub word_le_nat_alt)

lemma unat_mult_no_wrap [no_wrap]:
  fixes a b :: "'a::len word"
  assumes "unat a * unat b < 2 ^ LENGTH('a)"
  shows "unat (a * b) = unat a * unat b"
  using assms by (simp add: unat_word_ariths)

lemma unat_plus_u64 [no_wrap]: "unat a + unat b < 2 ^ 64 \<Longrightarrow> unat (a + b :: u64) = unat a + unat b"
  by (rule unat_plus_no_wrap) simp

lemma word_unat_eqI: "unat a = unat b \<Longrightarrow> a = b"
  by (rule unsigned_word_eqI)

lemma unat_div_word: "unat ((a::'a::len word) div b) = unat a div unat b"
  by (simp add: unat_div)

lemma unat_mod_word: "unat ((a::'a::len word) mod b) = unat a mod unat b"
  by (simp add: unat_mod)

lemma unat_lt_2p64 [simp]: "unat (a::u64) < 18446744073709551616"
  using unsigned_less [of a] by simp

lemma unat_lt_2p32 [simp]: "unat (a::u32) < 4294967296"
  using unsigned_less [of a] by simp

lemma unat_minus_one_u64 [simp]: "unat (- 1 :: u64) = 18446744073709551615"
  by (simp add: unsigned_minus_1_eq_mask mask_eq_exp_minus_1)

lemma unat_of_nat_u64: "n < 2 ^ 64 \<Longrightarrow> unat (of_nat n :: u64) = n"
  by (simp add: unat_of_nat)

lemma below_word_size: "x \<le> unat (n::'a::len word) \<Longrightarrow> x < 2 ^ LENGTH('a)"
  by (rule le_less_trans [OF _ unsigned_less])

lemma below_u32: "x \<le> unat (n::u32) \<Longrightarrow> x < 2 ^ 32"
  using below_word_size [of x n] by simp

lemma unat_Suc_below: "(i::'a::len word) < n \<Longrightarrow> unat (i + 1) = Suc (unat i)"
proof -
  assume "i < n"
  then have "unat i + unat (1 :: 'a word) \<le> unat n" by (simp add: word_less_nat_alt)
  from unat_plus_no_wrap [OF below_word_size [OF this]] show ?thesis by simp
qed

lemma unat_ucast_up:
  fixes x :: "'a::len word"
  assumes "LENGTH('a) \<le> LENGTH('b::len)"
  shows "unat (ucast x :: 'b word) = unat x"
proof -
  have "unat x < 2 ^ LENGTH('a)" by (rule unsigned_less)
  also have "(2::nat) ^ LENGTH('a) \<le> 2 ^ LENGTH('b)" using assms by (intro power_increasing) simp_all
  finally show ?thesis by (simp add: unsigned_ucast_eq take_bit_nat_eq_self)
qed

lemma unat_ucast_32_64: "unat (ucast (w::u32) :: u64) = unat w"
proof -
  have "unat w < 2 ^ 64" using unat_lt_2p32 [of w] by (rule less_trans) simp
  then show ?thesis by (simp add: unsigned_ucast_eq take_bit_nat_eq_self)
qed

lemma unat_ucast_64_32: "unat (w::u64) < 2 ^ 32 \<Longrightarrow> unat (ucast w :: u32) = unat w"
  by (simp add: unsigned_ucast_eq take_bit_nat_eq_self)

lemma exchange_sum:
  fixes a r m r' n x c :: "'a::ab_group_add"
  assumes "a + r = m + r'" and "r' + n + x = r + c"
  shows "a + n + x = m + c"
proof -
  have "(a + n + x) + r = (a + r) + (n + x)" by (simp add: ac_simps)
  also have "\<dots> = m + (r' + n + x)" by (simp add: assms(1) add.assoc)
  also have "\<dots> = (m + c) + r" by (simp only: assms(2)) (simp add: ac_simps)
  finally show ?thesis by simp
qed

section \<open>Bounded quantifiers\<close>

lemma all_from_Suc:
  assumes "i < n"
  shows "(\<forall>f. i \<le> f \<and> f < n \<longrightarrow> P f) \<longleftrightarrow> P i \<and> (\<forall>f. Suc i \<le> f \<and> f < n \<longrightarrow> P f)"
proof (intro iffI conjI allI impI)
  fix f assume "P i \<and> (\<forall>f. Suc i \<le> f \<and> f < n \<longrightarrow> P f)" and "i \<le> f \<and> f < n"
  then show "P f" by (cases "f = i") auto
qed (use assms in auto)

section \<open>Lists\<close>

definition swap_at :: "'a list \<Rightarrow> nat \<Rightarrow> nat \<Rightarrow> 'a list" where
  "swap_at xs i j = xs[i := xs ! j, j := xs ! i]"

lemma length_swap_at [simp]: "length (swap_at xs i j) = length xs"
  by (simp add: swap_at_def)

lemma mset_swap_at [simp]:
  "i < length xs \<Longrightarrow> j < length xs \<Longrightarrow> mset (swap_at xs i j) = mset xs"
  unfolding swap_at_def by (rule mset_swap)

lemma nth_swap_at:
  "i < length xs \<Longrightarrow> j < length xs \<Longrightarrow> k < length xs \<Longrightarrow>
   swap_at xs i j ! k = (if k = j then xs ! i else if k = i then xs ! j else xs ! k)"
  by (auto simp: swap_at_def nth_list_update)

lemma nth_mem_list_all: "list_all P xs \<Longrightarrow> i < length xs \<Longrightarrow> P (xs ! i)"
  by (simp add: list_all_length)


lemma sum_mset_update:
  fixes f :: "'a \<Rightarrow> 'b::comm_monoid_add"
  assumes "i < length xs"
  shows "\<Sum>\<^sub># (image_mset f (mset (xs[i := x]))) + f (xs ! i) = \<Sum>\<^sub># (image_mset f (mset xs)) + f x"
proof -
  define rest where "rest = mset xs - {#xs ! i#}"
  have "mset xs = add_mset (xs ! i) rest" and "mset (xs[i := x]) = add_mset x rest"
    using assms by (simp_all add: rest_def mset_update)
  then show ?thesis by (simp add: ac_simps)
qed


lemma mset_le_one_eq:
  assumes "{#x#} \<subseteq># M" and "size M \<le> 1"
  shows "M = {#x#}"
proof -
  obtain N where "M = {#x#} + N" using assms(1) by (auto simp: mset_subset_eq_exists_conv)
  with assms(2) show ?thesis by simp
qed

end
