(* ===== verification/Sorting_Arrays.thy ===== *)
theory Sorting_Arrays
  imports Prelude
begin

text \<open>
  The array operations of \<^verbatim>\<open>Kernel/Include/KRE/Utility.h\<close>: \<open>partition\<close>, \<open>quick_sort\<close>, \<open>sort\<close>
  and \<open>array_delete\<close>. An array is a list, an index an \<open>int\<close> as in the source (\<open>idx = left - 1\<close>
  may be \<open>-1\<close>); the element type's \<open>operator<=\<close> is the parameter \<open>le\<close>. The theory proves that
  \<open>sort\<close> ends, permutes its prefix and leaves it ordered, for every total preorder \<open>le\<close>.
\<close>

section \<open>Definitions\<close>

text \<open>The loop of \<open>partition\<close>: \<open>for (int j = left; j <= high - 1; j++)\<close>.\<close>

function partition_loop ::
  "('a \<Rightarrow> 'a \<Rightarrow> bool) \<Rightarrow> 'a \<Rightarrow> int \<Rightarrow> int \<Rightarrow> int \<Rightarrow> 'a list \<Rightarrow> int \<times> 'a list" where
  "partition_loop le pivot j high idx xs =
     (if j \<le> high - 1 then
        (if le (xs ! nat j) pivot
         then partition_loop le pivot (j + 1) high (idx + 1) (swap_at xs (nat (idx + 1)) (nat j))
         else partition_loop le pivot (j + 1) high idx xs)
      else (idx, xs))"
  by pat_completeness auto
termination
  by (relation "measure (\<lambda>(le, pivot, j, high, idx, xs). nat (high - j))") auto

declare partition_loop.simps [simp del]

definition partition_array :: "('a \<Rightarrow> 'a \<Rightarrow> bool) \<Rightarrow> 'a list \<Rightarrow> int \<Rightarrow> int \<Rightarrow> int \<times> 'a list" where
  "partition_array le xs left high =
     (let (idx, ys) = partition_loop le (xs ! nat high) left high (left - 1) xs
      in (idx + 1, swap_at ys (nat (idx + 1)) (nat high)))"

lemma partition_loop_idx:
  assumes "partition_loop le pivot j high idx xs = (idx', ys)"
  shows "idx \<le> idx' \<and> (j \<le> high \<longrightarrow> idx' - idx \<le> high - j)"
  using assms
proof (induction le pivot j high idx xs arbitrary: idx' ys rule: partition_loop.induct)
  case (1 le pivot j high idx xs)
  show ?case
  proof (cases "j \<le> high - 1")
    case True
    note IH = "1.IH" [OF True]
    from "1.prems" True show ?thesis
      by (cases "le (xs ! nat j) pivot")
        (use IH in \<open>force simp: partition_loop.simps [of le pivot j high idx xs]\<close>)+
  next
    case False
    with "1.prems" show ?thesis
      by (simp add: partition_loop.simps [of le pivot j high idx xs])
  qed
qed

lemma partition_array_bounds:
  assumes "partition_array le xs low high = (p, ys)" and "low < high"
  shows "low \<le> p \<and> p \<le> high"
  using assms partition_loop_idx
  by (fastforce simp: partition_array_def Let_def split: prod.splits)

text \<open>
  \<open>quick_sort\<close> first sorts left of the pivot, then right of it, in the array the left call
  returned.
\<close>

function quick_sort :: "('a \<Rightarrow> 'a \<Rightarrow> bool) \<Rightarrow> 'a list \<Rightarrow> int \<Rightarrow> int \<Rightarrow> 'a list" where
  "quick_sort le xs low high =
     (if low < high then
        quick_sort le
          (quick_sort le (snd (partition_array le xs low high))
             low (fst (partition_array le xs low high) - 1))
          (fst (partition_array le xs low high) + 1) high
      else xs)"
  by pat_completeness auto
termination
proof (relation "measure (\<lambda>(le, xs, low, high). nat (high - low))", goal_cases)
  case 1
  then show ?case by simp
next
  case (2 le xs low high)
  obtain p ys where "partition_array le xs low high = (p, ys)" by force
  with 2 partition_array_bounds [of le xs low high p ys] show ?case by simp
next
  case (3 le xs low high)
  obtain p ys where "partition_array le xs low high = (p, ys)" by force
  with 3 partition_array_bounds [of le xs low high p ys] show ?case by simp
qed

declare quick_sort.simps [simp del]

text \<open>
  \<open>sort(array, arr_size)\<close> calls \<open>quick_sort(array, 0, arr_size - 1)\<close>; an empty array gives the
  \<open>int\<close> \<open>-1\<close>, for which \<open>low < high\<close> fails.
\<close>

definition sort_array :: "('a \<Rightarrow> 'a \<Rightarrow> bool) \<Rightarrow> 'a list \<Rightarrow> nat \<Rightarrow> 'a list" where
  "sort_array le xs n = quick_sort le xs 0 (int n - 1)"

text \<open>
  \<open>array_delete(arr, idx, count)\<close>: the elements after \<open>idx\<close> move one place down
  (\<open>memmove\<close>), the last one of the counted prefix stays where it was, and \<open>count\<close> shrinks.
\<close>

definition array_delete :: "'a list \<Rightarrow> nat \<Rightarrow> nat \<Rightarrow> 'a list \<times> nat" where
  "array_delete arr idx n =
     (take idx arr @ take (n - idx - 1) (drop (idx + 1) arr) @ drop (n - 1) arr, n - 1)"

section \<open>What a segment of the array looks like afterwards\<close>

text \<open>
  \<open>shuffled lo hi xs ys\<close>: \<open>ys\<close> is a permutation of \<open>xs\<close> that keeps everything outside
  \<open>lo..hi\<close> in place and holds in \<open>lo..hi\<close> only elements that were there before.
\<close>

definition shuffled :: "int \<Rightarrow> int \<Rightarrow> 'a list \<Rightarrow> 'a list \<Rightarrow> bool" where
  "shuffled lo hi xs ys \<longleftrightarrow>
     length ys = length xs \<and> mset ys = mset xs \<and>
     (\<forall>k < length xs. int k < lo \<or> hi < int k \<longrightarrow> ys ! k = xs ! k) \<and>
     (\<forall>k. lo \<le> k \<and> k \<le> hi \<longrightarrow> (\<exists>k'. lo \<le> k' \<and> k' \<le> hi \<and> ys ! nat k = xs ! nat k'))"

lemma shuffled_refl [simp]: "shuffled lo hi xs xs"
  by (auto simp: shuffled_def)

lemma shuffledD:
  assumes "shuffled lo hi xs ys"
  shows "length ys = length xs" and "mset ys = mset xs"
    and "\<And>k. k < length xs \<Longrightarrow> int k < lo \<or> hi < int k \<Longrightarrow> ys ! k = xs ! k"
    and "\<And>k. lo \<le> k \<Longrightarrow> k \<le> hi \<Longrightarrow> \<exists>k'. lo \<le> k' \<and> k' \<le> hi \<and> ys ! nat k = xs ! nat k'"
  using assms unfolding shuffled_def by blast+

lemma shuffled_trans:
  assumes "shuffled lo hi xs ys" and "shuffled lo hi ys zs"
  shows "shuffled lo hi xs zs"
  unfolding shuffled_def
proof (intro conjI allI impI)
  show "length zs = length xs" "mset zs = mset xs"
    using assms shuffledD(1,2) by metis+
next
  fix k assume "k < length xs" "int k < lo \<or> hi < int k"
  then show "zs ! k = xs ! k"
    using shuffledD(3) [OF assms(1), of k] shuffledD(3) [OF assms(2), of k]
      shuffledD(1) [OF assms(1)] by simp
next
  fix k assume "lo \<le> k \<and> k \<le> hi"
  then obtain k1 where "lo \<le> k1" "k1 \<le> hi" "zs ! nat k = ys ! nat k1"
    using shuffledD(4) [OF assms(2)] by blast
  then show "\<exists>k'. lo \<le> k' \<and> k' \<le> hi \<and> zs ! nat k = xs ! nat k'"
    using shuffledD(4) [OF assms(1), of k1] by auto
qed

lemma shuffled_widen:
  assumes "shuffled a b xs ys" and "lo \<le> a" and "b \<le> hi" and "0 \<le> lo" and "hi < int (length xs)"
  shows "shuffled lo hi xs ys"
  unfolding shuffled_def
proof (intro conjI allI impI)
  show "length ys = length xs" "mset ys = mset xs"
    using assms(1) shuffledD(1,2) by metis+
next
  fix k assume "k < length xs" "int k < lo \<or> hi < int k"
  then show "ys ! k = xs ! k"
    using assms by (intro shuffledD(3) [OF assms(1)]) auto
next
  fix k assume k: "lo \<le> k \<and> k \<le> hi"
  show "\<exists>k'. lo \<le> k' \<and> k' \<le> hi \<and> ys ! nat k = xs ! nat k'"
  proof (cases "a \<le> k \<and> k \<le> b")
    case True
    then obtain k' where "a \<le> k'" "k' \<le> b" "ys ! nat k = xs ! nat k'"
      using shuffledD(4) [OF assms(1), of k] by blast
    then show ?thesis using assms(2,3) by (intro exI [of _ k']) simp
  next
    case False
    with k assms(4,5) have "ys ! nat k = xs ! nat k"
      by (intro shuffledD(3) [OF assms(1)]) auto
    with k show ?thesis by blast
  qed
qed

lemma shuffled_swap:
  assumes "lo \<le> int i" "int i \<le> hi" "lo \<le> int j" "int j \<le> hi" "hi < int (length xs)" "0 \<le> lo"
  shows "shuffled lo hi xs (swap_at xs i j)"
proof -
  have ij: "i < length xs" "j < length xs" using assms by linarith+
  show ?thesis
    unfolding shuffled_def
  proof (intro conjI allI impI)
    fix k assume "k < length xs" "int k < lo \<or> hi < int k"
    then show "swap_at xs i j ! k = xs ! k"
      using ij assms by (auto simp: nth_swap_at)
  next
    fix k assume k: "lo \<le> k \<and> k \<le> hi"
    then have "nat k < length xs" using assms by linarith
    then have "swap_at xs i j ! nat k = xs ! nat (if nat k = j then int i else if nat k = i then int j else k)"
      using ij by (simp add: nth_swap_at)
    then show "\<exists>k'. lo \<le> k' \<and> k' \<le> hi \<and> swap_at xs i j ! nat k = xs ! nat k'"
      using k assms by (metis)
  qed (use ij in simp_all)
qed

section \<open>Correctness of \<open>partition\<close> and \<open>quick_sort\<close>\<close>

lemma partition_loop_correct:
  assumes "partition_loop le pivot j high idx xs = (idx', ys)"
    and "0 \<le> low" "low \<le> idx + 1" "idx < j" "j \<le> high" "high < int (length xs)"
    and "\<And>k. low \<le> k \<Longrightarrow> k \<le> idx \<Longrightarrow> le (xs ! nat k) pivot"
    and "\<And>k. idx < k \<Longrightarrow> k < j \<Longrightarrow> \<not> le (xs ! nat k) pivot"
  shows "shuffled low (high - 1) xs ys \<and>
    (\<forall>k. low \<le> k \<and> k \<le> idx' \<longrightarrow> le (ys ! nat k) pivot) \<and>
    (\<forall>k. idx' < k \<and> k < high \<longrightarrow> \<not> le (ys ! nat k) pivot)"
  using assms
proof (induction le pivot j high idx xs arbitrary: idx' ys rule: partition_loop.induct)
  case (1 le pivot j high idx xs)
  show ?case
  proof (cases "j \<le> high - 1")
    case False
    with "1.prems" have j: "j = high" by linarith
    from "1.prems"(1) False have "idx' = idx" "ys = xs"
      by (simp_all add: partition_loop.simps [of le pivot j high idx xs])
    with "1.prems"(7,8) j show ?thesis by simp
  next
    case j: True
    show ?thesis
    proof (cases "le (xs ! nat j) pivot")
      case True
      let ?zs = "swap_at xs (nat (idx + 1)) (nat j)"
      have step: "partition_loop le pivot (j + 1) high (idx + 1) ?zs = (idx', ys)"
        using "1.prems"(1) j True by (simp add: partition_loop.simps [of le pivot j high idx xs])
      have b: "nat (idx + 1) < length xs" "nat j < length xs"
        using "1.prems"(2-6) by linarith+
      have sw: "shuffled low (high - 1) xs ?zs"
        using "1.prems"(2-6) j by (intro shuffled_swap) auto
      have zs: "?zs ! nat k = (if k = j then xs ! nat (idx + 1) else if k = idx + 1 then xs ! nat j
          else xs ! nat k)" if "low \<le> k" "k < high" for k
        using that b "1.prems"(2-6) by (subst nth_swap_at) auto
      have lo: "le (?zs ! nat k) pivot" if k: "low \<le> k" "k \<le> idx + 1" for k
      proof -
        have "k < high" using k "1.prems"(4) j by linarith
        then show ?thesis
          using zs [of k] k True "1.prems"(4) "1.prems"(7) [of k] by (auto split: if_splits)
      qed
      have hi: "\<not> le (?zs ! nat k) pivot" if k: "idx + 1 < k" "k < j + 1" for k
      proof -
        have "low \<le> k" "k < high" using k "1.prems"(3) j by linarith+
        then show ?thesis
          using zs [of k] k "1.prems"(8) [of k] "1.prems"(8) [of "idx + 1"] by (auto split: if_splits)
      qed
      have "shuffled low (high - 1) ?zs ys \<and>
          (\<forall>k. low \<le> k \<and> k \<le> idx' \<longrightarrow> le (ys ! nat k) pivot) \<and>
          (\<forall>k. idx' < k \<and> k < high \<longrightarrow> \<not> le (ys ! nat k) pivot)"
        using "1.prems"(2-6) j lo hi by (intro "1.IH"(1) [OF j True step]) auto
      with sw shuffled_trans show ?thesis by blast
    next
      case False
      have step: "partition_loop le pivot (j + 1) high idx xs = (idx', ys)"
        using "1.prems"(1) j False by (simp add: partition_loop.simps [of le pivot j high idx xs])
      have hi: "\<not> le (xs ! nat k) pivot" if "idx < k" "k < j + 1" for k
        using that False "1.prems"(8) [of k] by (cases "k = j") auto
      show ?thesis
        using "1.prems"(2-7) j hi by (intro "1.IH"(2) [OF j False step]) auto
    qed
  qed
qed

lemma partition_array_correct:
  assumes "partition_array le xs low high = (p, ys)"
    and "0 \<le> low" "low < high" "high < int (length xs)"
    and refl: "\<And>x. le x x"
  shows "shuffled low high xs ys" and "low \<le> p" and "p \<le> high"
    and "\<forall>k. low \<le> k \<and> k \<le> p \<longrightarrow> le (ys ! nat k) (ys ! nat p)"
    and "\<forall>k. p < k \<and> k \<le> high \<longrightarrow> \<not> le (ys ! nat k) (ys ! nat p)"
proof -
  define pivot where "pivot = xs ! nat high"
  obtain idx zs where loop: "partition_loop le pivot low high (low - 1) xs = (idx, zs)" by force
  have p: "p = idx + 1" and ys: "ys = swap_at zs (nat (idx + 1)) (nat high)"
    using assms(1) loop by (auto simp: partition_array_def Let_def pivot_def)
  have "shuffled low (high - 1) xs zs \<and>
      (\<forall>k. low \<le> k \<and> k \<le> idx \<longrightarrow> le (zs ! nat k) pivot) \<and>
      (\<forall>k. idx < k \<and> k < high \<longrightarrow> \<not> le (zs ! nat k) pivot)"
    using assms(2-4) by (intro partition_loop_correct [OF loop]) auto
  then have sh: "shuffled low (high - 1) xs zs"
    and le: "\<And>k. low \<le> k \<Longrightarrow> k \<le> idx \<Longrightarrow> le (zs ! nat k) pivot"
    and gt: "\<And>k. idx < k \<Longrightarrow> k < high \<Longrightarrow> \<not> le (zs ! nat k) pivot" by blast+
  show pb: "low \<le> p" "p \<le> high"
    using partition_loop_idx [OF loop] assms(3) p by auto
  have len: "length zs = length xs" using sh by (rule shuffledD)
  have zh: "zs ! nat high = pivot"
    using shuffledD(3) [OF sh, of "nat high"] assms(2-4) pivot_def by simp
  have "shuffled low high zs ys"
    unfolding ys using pb p assms(2-4) len by (intro shuffled_swap) auto
  moreover have "shuffled low high xs zs"
    by (rule shuffled_widen [OF sh]) (use assms(2-4) in auto)
  ultimately show "shuffled low high xs ys" using shuffled_trans by blast
  have nth: "ys ! nat k = (if k = high then zs ! nat p else if k = p then pivot else zs ! nat k)"
    if "low \<le> k" "k \<le> high" for k
    unfolding ys using that pb p assms(2-4) len zh by (subst nth_swap_at) auto
  have yp: "ys ! nat p = pivot"
    using nth [of p] pb zh by (auto split: if_splits)
  show "\<forall>k. low \<le> k \<and> k \<le> p \<longrightarrow> le (ys ! nat k) (ys ! nat p)"
    using nth le refl pb p zh unfolding yp by (smt (verit, best))
  show "\<forall>k. p < k \<and> k \<le> high \<longrightarrow> \<not> le (ys ! nat k) (ys ! nat p)"
    using nth gt pb p unfolding yp by (smt (verit, best))
qed

text \<open>
  \<open>quick_sort\<close> orders the segment \<open>low..high\<close> and shuffles only that segment. The right call
  starts from the array the left call returned, so the proof carries what each call leaves in
  place (\<open>shuffled\<close>) past the other.
\<close>

definition sorted_segment :: "('a \<Rightarrow> 'a \<Rightarrow> bool) \<Rightarrow> int \<Rightarrow> int \<Rightarrow> 'a list \<Rightarrow> bool" where
  "sorted_segment le lo hi xs \<longleftrightarrow>
     (\<forall>a b. lo \<le> a \<and> a \<le> b \<and> b \<le> hi \<longrightarrow> le (xs ! nat a) (xs ! nat b))"

text \<open>What \<open>sort\<close> asks of an element type: its \<open>operator<=\<close> is a total preorder.\<close>

locale array_order =
  fixes le :: "'a \<Rightarrow> 'a \<Rightarrow> bool"
  assumes le_refl: "le x x"
    and le_trans: "le x y \<Longrightarrow> le y z \<Longrightarrow> le x z"
    and le_total: "le x y \<or> le y x"
begin

lemma sorted_segment_join:
  assumes "sorted_segment le low (p - 1) ys" and "sorted_segment le (p + 1) high ys"
    and "low \<le> p" "p \<le> high"
    and "\<And>k. low \<le> k \<Longrightarrow> k \<le> p \<Longrightarrow> le (ys ! nat k) (ys ! nat p)"
    and "\<And>k. p \<le> k \<Longrightarrow> k \<le> high \<Longrightarrow> le (ys ! nat p) (ys ! nat k)"
  shows "sorted_segment le low high ys"
  unfolding sorted_segment_def
proof (intro allI impI)
  fix a b assume ab: "low \<le> a \<and> a \<le> b \<and> b \<le> high"
  consider "b < p" | "p < a" | "a \<le> p" "p \<le> b" by linarith
  then show "le (ys ! nat a) (ys ! nat b)"
  proof cases
    case 1 with ab assms(1) show ?thesis by (auto simp: sorted_segment_def)
  next
    case 2 with ab assms(2) show ?thesis by (auto simp: sorted_segment_def)
  next
    case 3 with ab assms(5) [of a] assms(6) [of b] le_trans show ?thesis by blast
  qed
qed

lemma quick_sort_correct:
  "0 \<le> low \<Longrightarrow> high < int (length xs) \<Longrightarrow>
    shuffled low high xs (quick_sort le xs low high) \<and>
    sorted_segment le low high (quick_sort le xs low high)"
proof (induction "nat (high - low)" arbitrary: xs low high rule: less_induct)
  case less
  show ?case
  proof (cases "low < high")
    case False
    have "sorted_segment le low high xs"
      using False le_refl by (auto simp: sorted_segment_def dest: antisym)
    with False show ?thesis by (simp add: quick_sort.simps [of le xs low high])
  next
    case True
    obtain p ys where p: "partition_array le xs low high = (p, ys)" by force
    note part = partition_array_correct [OF p less.prems(1) True less.prems(2) le_refl]
    define zs where "zs = quick_sort le ys low (p - 1)"
    define rs where "rs = quick_sort le zs (p + 1) high"
    have qs: "quick_sort le xs low high = rs"
      using True p by (simp add: quick_sort.simps [of le xs low high] zs_def rs_def)
    have len: "length ys = length xs" using part(1) by (rule shuffledD)
    have Z: "shuffled low (p - 1) ys zs \<and> sorted_segment le low (p - 1) zs"
      unfolding zs_def using part(2,3) less.prems len True by (intro less.hyps) auto
    then have lenz: "length zs = length xs" using len shuffledD(1) by metis
    have R: "shuffled (p + 1) high zs rs \<and> sorted_segment le (p + 1) high rs"
      unfolding rs_def using part(2,3) less.prems lenz True by (intro less.hyps) auto
    have keep_r: "rs ! nat k = zs ! nat k" if "0 \<le> k" "k \<le> p" for k
      using R that part(3) less.prems(2) lenz by (intro shuffledD(3)) auto
    have keep_z: "zs ! nat k = ys ! nat k" if "p \<le> k" "k \<le> high" for k
      using Z that part(2,3) less.prems lenz len by (intro shuffledD(3) [of low "p - 1"]) auto
    have rp: "rs ! nat p = ys ! nat p"
      using keep_r [of p] keep_z [of p] part(2,3) less.prems(1) by simp
    have below: "le (rs ! nat k) (rs ! nat p)" if k: "low \<le> k" "k \<le> p" for k
    proof (cases "k = p")
      case False
      then obtain k' where "low \<le> k'" "k' \<le> p - 1" "zs ! nat k = ys ! nat k'"
        using Z k shuffledD(4) [of low "p - 1" ys zs k] by auto
      then show ?thesis using keep_r [of k] part(4) k rp less.prems(1) by auto
    qed (simp add: le_refl)
    have above: "le (rs ! nat p) (rs ! nat k)" if k: "p \<le> k" "k \<le> high" for k
    proof (cases "k = p")
      case False
      then obtain k' where "p + 1 \<le> k'" "k' \<le> high" "rs ! nat k = zs ! nat k'"
        using R k shuffledD(4) [of "p + 1" high zs rs k] by auto
      then show ?thesis using keep_z [of k'] part(5) rp le_total by fastforce
    qed (simp add: le_refl)
    have low_sorted: "sorted_segment le low (p - 1) rs"
      using Z keep_r less.prems(1) by (auto simp: sorted_segment_def)
    have "sorted_segment le low high rs"
      by (rule sorted_segment_join [OF low_sorted _ part(2,3) below above]) (use R in blast)+
    moreover have "shuffled low high xs rs"
    proof -
      have "shuffled low high ys zs"
        by (rule shuffled_widen [of low "p - 1"]) (use Z part(3) less.prems len in auto)
      moreover have "shuffled low high zs rs"
        by (rule shuffled_widen [of "p + 1" high]) (use R part(2) less.prems lenz in auto)
      ultimately show ?thesis using part(1) shuffled_trans by blast
    qed
    ultimately show ?thesis unfolding qs by blast
  qed
qed

text \<open>The same for the caller's view: the sorted prefix of an array with \<open>n\<close> used entries.\<close>

lemma sort_array_spec:
  assumes n: "n \<le> length xs"
  shows "length (sort_array le xs n) = length xs"
    and "mset (sort_array le xs n) = mset xs"
    and "drop n (sort_array le xs n) = drop n xs"
    and "sorted_wrt le (take n (sort_array le xs n))"
proof -
  have qc: "shuffled 0 (int n - 1) xs (sort_array le xs n) \<and>
      sorted_segment le 0 (int n - 1) (sort_array le xs n)"
    unfolding sort_array_def by (rule quick_sort_correct) (use n in simp_all)
  note sh = shuffledD [OF conjunct1 [OF qc]]
  show "length (sort_array le xs n) = length xs" and "mset (sort_array le xs n) = mset xs"
    by (rule sh)+
  show "drop n (sort_array le xs n) = drop n xs"
  proof (rule nth_equalityI)
    fix i assume "i < length (drop n (sort_array le xs n))"
    then show "drop n (sort_array le xs n) ! i = drop n xs ! i"
      using sh(3) [of "n + i"] sh(1) by simp
  qed (simp add: sh(1))
  show "sorted_wrt le (take n (sort_array le xs n))"
    unfolding sorted_wrt_iff_nth_less
  proof (intro allI impI)
    fix i j assume "i < j" "j < length (take n (sort_array le xs n))"
    then have "0 \<le> int i \<and> int i \<le> int j \<and> int j \<le> int n - 1" "i < n" "j < n" by auto
    then show "le (take n (sort_array le xs n) ! i) (take n (sort_array le xs n) ! j)"
      using conjunct2 [OF qc] unfolding sorted_segment_def by (metis nat_int nth_take)
  qed
qed

lemma sort_array_prefix_mset:
  assumes "n \<le> length xs"
  shows "mset (take n (sort_array le xs n)) = mset (take n xs)"
proof -
  have split: "mset (take n ys) + mset (drop n ys) = mset ys" for ys :: "'a list"
    by (metis append_take_drop_id mset_append)
  show ?thesis
    using split [of xs] split [of "sort_array le xs n"] sort_array_spec(2,3) [OF assms]
    by (metis add_right_cancel)
qed

end

end
