(* ===== verification/Memory_Regions.thy ===== *)
theory Memory_Regions
  imports Sorting_Arrays
begin

text \<open>
  \<^verbatim>\<open>Kernel/Include/KRE/Math.h\<close>, \<^verbatim>\<open>Kernel/Include/KRE/Memory.h\<close> and \<^verbatim>\<open>Kernel/Src/KRE/Memory.cpp\<close>:
  alignment arithmetic, \<open>MemoryRegion\<close> and the \<open>MemoryMap\<close> with its operations \<open>claim\<close> and
  \<open>merge\<close>. Addresses and sizes are 64-bit words, as in the 64-bit kernel. The abstract view of a
  map is, for every address, the multiset of types of the regions that hold it (\<open>owners\<close>).
\<close>

section \<open>Arithmetic helpers\<close>

definition div_round_up :: "'a::len word \<Rightarrow> 'a word \<Rightarrow> 'a word" where
  "div_round_up num divisor = (num + divisor - 1) div divisor"

definition min_of :: "'a::len word \<Rightarrow> 'a word \<Rightarrow> 'a word" where
  "min_of a b = (if a < b then a else b)"

definition max_of :: "'a::len word \<Rightarrow> 'a word \<Rightarrow> 'a word" where
  "max_of a b = (if a > b then a else b)"

definition memory_is_aligned :: "memory_addr \<Rightarrow> memory_addr \<Rightarrow> bool" where
  "memory_is_aligned mem_addr boundary \<longleftrightarrow> mem_addr mod boundary = 0"

definition memory_align :: "memory_addr \<Rightarrow> memory_addr \<Rightarrow> bool \<Rightarrow> memory_addr" where
  "memory_align mem_addr page_boundary round_up =
     (let pages = mem_addr div page_boundary;
          pages = (if round_up then pages + 1 else pages)
      in pages * page_boundary)"

section \<open>Memory regions\<close>

datatype memory_region_type =
  NONE | USABLE | USED | RESERVED | USERSPACE | HHDM | PMM_RESERVED | KERNEL_HEAP | KERNEL_CODE
| ACPI | BOOTLOADER_RECLAIMABLE

record memory_region =
  rstart :: memory_addr
  rsize :: memory_size
  rtype :: memory_region_type

definition region_none :: memory_region where
  "region_none = \<lparr>rstart = 0, rsize = 0, rtype = NONE\<rparr>"

definition region_end :: "memory_region \<Rightarrow> memory_addr" where
  "region_end r = (if rstart r > (- 1) - rsize r then - 1 else rstart r + rsize r)"

definition region_contains :: "memory_region \<Rightarrow> memory_region \<Rightarrow> bool" where
  "region_contains r other \<longleftrightarrow> rstart r < region_end other \<and> rstart other < region_end r"

definition region_le :: "memory_region \<Rightarrow> memory_region \<Rightarrow> bool" where
  "region_le r other \<longleftrightarrow>
     (if rstart r = rstart other then rsize r \<le> rsize other else rstart r < rstart other)"

section \<open>The memory map\<close>

definition LIMIT :: nat where
  "LIMIT = 64"

record memory_map =
  mm_map :: "memory_region list"
  mm_free :: u64
  mm_reserved :: u64
  mm_num :: nat

text \<open>The constructor over a full array: it stops at the first region of type \<open>NONE\<close>.\<close>

fun memory_map_init_loop :: "memory_region list \<Rightarrow> nat \<Rightarrow> memory_map \<Rightarrow> memory_map" where
  "memory_map_init_loop [] i m = m"
| "memory_map_init_loop (r # rs) i m =
     (if rtype r \<noteq> NONE then
        memory_map_init_loop rs (Suc i)
          (if rtype r = USABLE
           then m\<lparr>mm_map := (mm_map m)[i := r], mm_num := mm_num m + 1, mm_free := mm_free m + rsize r\<rparr>
           else m\<lparr>mm_map := (mm_map m)[i := r], mm_num := mm_num m + 1,
                  mm_reserved := mm_reserved m + rsize r\<rparr>)
      else m\<lparr>mm_num := i\<rparr>)"

definition memory_map_init :: "memory_region list \<Rightarrow> memory_map" where
  "memory_map_init regions =
     memory_map_init_loop regions 0
       \<lparr>mm_map = replicate LIMIT region_none, mm_free = 0, mm_reserved = 0, mm_num = 0\<rparr>"

text \<open>\<open>_map[_num_regions++] = r\<close>\<close>

definition map_push :: "memory_map \<Rightarrow> memory_region \<Rightarrow> memory_map" where
  "map_push m r = m\<lparr>mm_map := (mm_map m)[mm_num m := r], mm_num := mm_num m + 1\<rparr>"

text \<open>
  The body of \<open>claim\<close>'s loop for the region at index \<open>i\<close> that encloses the claimant. It returns
  the map, the claimant (a reference parameter, so its alignment is visible to the caller) and
  whether the claim went through.
\<close>

definition claim_region ::
  "memory_map \<Rightarrow> nat \<Rightarrow> memory_region \<Rightarrow> u32 \<Rightarrow> memory_map \<times> memory_region \<times> bool" where
  "claim_region m i c boundary =
     (let r = mm_map m ! i; b = ucast boundary in
      if rstart r = rstart c \<and> rsize r = rsize c
      then (m\<lparr>mm_map := (mm_map m)[i := r\<lparr>rtype := rtype c\<rparr>]\<rparr>, c, True)
      else if mm_num m + 1 \<ge> LIMIT then (m, c, False)
      else let c = (if \<not> memory_is_aligned (rsize c) b
                    then c\<lparr>rsize := memory_align (rsize c) b True\<rparr> else c) in
        if rstart r = rstart c then
          (let r' = r\<lparr>rstart := rstart r + rsize c, rsize := rsize r - rsize c\<rparr>
           in (map_push (m\<lparr>mm_map := (mm_map m)[i := r']\<rparr>) c, c, True))
        else if region_end r = region_end c then
          (let r' = r\<lparr>rsize := rsize r - rsize c\<rparr>
           in (map_push (m\<lparr>mm_map := (mm_map m)[i := r']\<rparr>) c, c, True))
        else if mm_num m + 2 \<ge> LIMIT then (m, c, False)
        else
          (let c = (if \<not> memory_is_aligned (rstart c) b
                    then c\<lparr>rstart := memory_align (rstart c) b False\<rparr> else c);
               right_part_size = rsize r - rsize c - (rstart c - rstart r);
               r' = r\<lparr>rsize := rsize r - (rsize c + right_part_size)\<rparr>;
               m = m\<lparr>mm_map := (mm_map m)[i := r']\<rparr>;
               m = map_push m \<lparr>rstart = region_end c, rsize = right_part_size, rtype = USABLE\<rparr>
           in (map_push m c, c, True)))"

definition encloses :: "memory_region \<Rightarrow> memory_region \<Rightarrow> bool" where
  "encloses r c \<longleftrightarrow> rstart r \<le> rstart c \<and> region_end c \<le> region_end r"

text \<open>\<open>for (auto& r : _map)\<close> visits all \<open>LIMIT\<close> entries and stops at the first that encloses.\<close>

fun find_index :: "('a \<Rightarrow> bool) \<Rightarrow> 'a list \<Rightarrow> nat \<Rightarrow> nat option" where
  "find_index P [] i = None"
| "find_index P (x # xs) i = (if P x then Some i else find_index P xs (Suc i))"

definition claim_account :: "memory_map \<Rightarrow> memory_region \<Rightarrow> memory_map" where
  "claim_account m c =
     (if rtype c = USABLE
      then m\<lparr>mm_free := mm_free m + rsize c, mm_reserved := mm_reserved m - rsize c\<rparr>
      else m\<lparr>mm_free := mm_free m - rsize c, mm_reserved := mm_reserved m + rsize c\<rparr>)"

definition claim ::
  "memory_map \<Rightarrow> memory_region \<Rightarrow> u32 \<Rightarrow> memory_map \<times> memory_region \<times> bool" where
  "claim m c boundary =
     (case find_index (\<lambda>r. encloses r c) (mm_map m) 0 of
        None \<Rightarrow> (m, c, False)
      | Some i \<Rightarrow>
          (case claim_region m i c boundary of (m', c', claimed) \<Rightarrow>
             if \<not> claimed then (m', c', False)
             else
               (let m'' = claim_account m' c'
                in (if mm_num m'' \<noteq> mm_num m
                    then m''\<lparr>mm_map := sort_array region_le (mm_map m'') (mm_num m'')\<rparr>
                    else m'', c', True))))"

text \<open>
  \<open>merge\<close>: the loop index stays where it is after two entries were joined (\<open>i--\<close> followed by the
  loop's \<open>i++\<close>). With no region at all \<open>_num_regions - 1\<close> wraps around and the loop runs past the
  array, which is \<open>None\<close> here.
\<close>

definition can_merge :: "memory_region \<Rightarrow> memory_region \<Rightarrow> bool" where
  "can_merge cur nxt \<longleftrightarrow> rtype cur = rtype nxt \<and> region_end cur = rstart nxt"

function merge_loop :: "nat \<Rightarrow> memory_region list \<Rightarrow> nat \<Rightarrow> memory_region list \<times> nat" where
  "merge_loop i rs n =
     (if i < n - 1 then
        (if can_merge (rs ! i) (rs ! Suc i)
         then (let rs' = rs[i := (rs ! i)\<lparr>rsize := rsize (rs ! i) + rsize (rs ! Suc i)\<rparr>]
               in merge_loop i (fst (array_delete rs' (Suc i) n)) (n - 1))
         else merge_loop (Suc i) rs n)
      else (rs, n))"
  by pat_completeness auto
termination
  by (relation "measure (\<lambda>(i, rs, n). n - i)") auto

declare merge_loop.simps [simp del]

definition merge :: "memory_map \<Rightarrow> memory_map option" where
  "merge m =
     (if mm_num m = 0 then None
      else case merge_loop 0 (mm_map m) (mm_num m) of (rs, n) \<Rightarrow>
        Some (m\<lparr>mm_map := take n rs @ replicate (LIMIT - n) region_none, mm_num := n\<rparr>))"

text \<open>\<open>find_type_of\<close> as written: the loop asks whether each region contains \<^emph>\<open>itself\<close>.\<close>

fun find_type_of_loop :: "memory_region list \<Rightarrow> memory_region \<Rightarrow> memory_region_type" where
  "find_type_of_loop [] region = NONE"
| "find_type_of_loop (reg # rs) region =
     (if region_contains reg reg then rtype reg else find_type_of_loop rs region)"

definition find_type_of :: "memory_map \<Rightarrow> memory_region \<Rightarrow> memory_region_type" where
  "find_type_of m region = find_type_of_loop (mm_map m) region"


section \<open>The regions a map holds and the types an address has\<close>

definition region_ok :: "memory_region \<Rightarrow> bool" where
  "region_ok r \<longleftrightarrow> unat (rstart r) + unat (rsize r) < 2 ^ 64"

definition covers :: "memory_region \<Rightarrow> nat \<Rightarrow> bool" where
  "covers r a \<longleftrightarrow> unat (rstart r) \<le> a \<and> a < unat (rstart r) + unat (rsize r)"

definition owner :: "memory_region \<Rightarrow> nat \<Rightarrow> memory_region_type multiset" where
  "owner r a = (if covers r a then {#rtype r#} else {#})"

definition regions :: "memory_map \<Rightarrow> memory_region list" where
  "regions m = take (mm_num m) (mm_map m)"

definition owners :: "memory_region list \<Rightarrow> nat \<Rightarrow> memory_region_type multiset" where
  "owners rs a = \<Sum>\<^sub># (image_mset (\<lambda>r. owner r a) (mset rs))"

lemma owners_Nil [simp]: "owners [] a = {#}"
  by (simp add: owners_def)

lemma owners_append [simp]: "owners (xs @ ys) a = owners xs a + owners ys a"
  by (simp add: owners_def)

lemma owners_Cons [simp]: "owners (r # rs) a = owner r a + owners rs a"
  by (simp add: owners_def)

lemma owners_cong_mset: "mset xs = mset ys \<Longrightarrow> owners xs a = owners ys a"
  by (simp add: owners_def)

lemma region_end_ok: "region_ok r \<Longrightarrow> unat (region_end r) = unat (rstart r) + unat (rsize r)"
  unfolding region_ok_def region_end_def
  by (subst word_less_nat_alt) (auto simp: no_wrap)

lemma region_none_simps [simp]:
  "rstart region_none = 0" "rsize region_none = 0" "rtype region_none = NONE"
  "region_end region_none = 0"
  by (simp_all add: region_none_def region_end_def)

text \<open>
  A well-formed map: \<open>LIMIT\<close> slots, the used ones hold regions that do not wrap and are aligned to
  \<open>b\<close>, the unused ones are zeroed, and no address is in two regions.
\<close>

definition map_ok :: "memory_addr \<Rightarrow> memory_map \<Rightarrow> bool" where
  "map_ok b m \<longleftrightarrow>
     length (mm_map m) = LIMIT \<and> mm_num m \<le> LIMIT \<and>
     (\<forall>r \<in> set (regions m). region_ok r \<and> unat b dvd unat (rstart r) \<and> unat b dvd unat (rsize r)) \<and>
     (\<forall>r \<in> set (drop (mm_num m) (mm_map m)). r = region_none) \<and>
     (\<forall>a. size (owners (regions m) a) \<le> 1)"

lemma find_index_Some:
  "find_index P xs k = Some i \<Longrightarrow> k \<le> i \<and> i - k < length xs \<and> P (xs ! (i - k))"
proof (induction xs arbitrary: k)
  case (Cons x xs)
  then show ?case by (fastforce split: if_splits simp: nth_Cons' Suc_diff_le)
qed simp

lemma find_index_0: "find_index P xs 0 = Some i \<Longrightarrow> i < length xs \<and> P (xs ! i)"
  using find_index_Some [of P xs 0 i] by simp

lemma find_index_None: "find_index P xs k = None \<longleftrightarrow> (\<forall>x \<in> set xs. \<not> P x)"
  by (induction xs arbitrary: k) auto

text \<open>A zeroed slot encloses no claimant of positive size, so the loop stops at a used one.\<close>

lemma encloses_used:
  assumes "map_ok b m" and "region_ok c" and "rsize c \<noteq> 0"
    and "i < length (mm_map m)" and "encloses (mm_map m ! i) c"
  shows "i < mm_num m"
proof (rule ccontr)
  assume "\<not> i < mm_num m"
  then have "mm_map m ! i \<in> set (drop (mm_num m) (mm_map m))"
    using assms(4) nth_mem [of "i - mm_num m" "drop (mm_num m) (mm_map m)"] by simp
  then have "mm_map m ! i = region_none" using assms(1) by (auto simp: map_ok_def)
  then have "unat (region_end c) = 0"
    using assms(5) by (simp add: encloses_def)
  then show False
    using region_end_ok [OF assms(2)] assms(3) by (simp add: unat_eq_0)
qed

lemma aligned_id:
  assumes "unat b dvd unat x" shows "memory_is_aligned x b"
  using assms by (simp add: memory_is_aligned_def word_unat_eq_iff unat_mod_word)


section \<open>\<open>claim\<close>\<close>

lemma regions_push:
  assumes "mm_num m < length (mm_map m)"
  shows "regions (map_push m r) = regions m @ [r]"
    and "set (drop (mm_num (map_push m r)) (mm_map (map_push m r))) \<subseteq> set (drop (mm_num m) (mm_map m))"
    and "length (mm_map (map_push m r)) = length (mm_map m)"
    and "mm_num (map_push m r) = mm_num m + 1"
  using assms
  by (auto simp: regions_def map_push_def take_Suc_conv_app_nth drop_update_cancel
      intro: set_drop_subset_set_drop [THEN subsetD, rotated])

lemma regions_set:
  assumes "i < mm_num m"
  shows "regions (m\<lparr>mm_map := (mm_map m)[i := r]\<rparr>) = (regions m)[i := r]"
  using assms by (simp add: regions_def take_update_swap)

lemma owners_update:
  assumes "i < length rs"
  shows "owners (rs[i := r]) a + owner (rs ! i) a = owners rs a + owner r a"
  using sum_mset_update [OF assms, of "\<lambda>r. owner r a" r] by (simp add: owners_def)

text \<open>
  \<open>replaced m i r' news m'\<close>: \<open>m'\<close> holds \<open>r'\<close> where \<open>m\<close> held its \<open>i\<close>-th region and the regions
  \<open>news\<close> after the old ones. The four outcomes of a claim are instances of it.
\<close>

definition replaced ::
  "memory_map \<Rightarrow> nat \<Rightarrow> memory_region \<Rightarrow> memory_region list \<Rightarrow> memory_map \<Rightarrow> bool" where
  "replaced m i r' news m' \<longleftrightarrow>
     regions m' = (regions m)[i := r'] @ news \<and> mm_num m' = mm_num m + length news \<and>
     length (mm_map m') = length (mm_map m) \<and>
     set (drop (mm_num m') (mm_map m')) \<subseteq> set (drop (mm_num m) (mm_map m))"

lemma replaced_set: "i < mm_num m \<Longrightarrow> replaced m i r' [] (m\<lparr>mm_map := (mm_map m)[i := r']\<rparr>)"
  by (auto simp: replaced_def regions_set drop_update_cancel)

lemma replaced_push:
  assumes "replaced m i r' news m'" and "mm_num m' < length (mm_map m')"
  shows "replaced m i r' (news @ [c]) (map_push m' c)"
  unfolding replaced_def
proof (intro conjI)
  show "set (drop (mm_num (map_push m' c)) (mm_map (map_push m' c))) \<subseteq> set (drop (mm_num m) (mm_map m))"
    using regions_push(2) [OF assms(2), of c] assms(1) unfolding replaced_def by blast
qed (use assms(1) regions_push(1,3,4) [OF assms(2), of c] in \<open>simp_all add: replaced_def\<close>)

lemma replaced_num: "replaced m i r' news m' \<Longrightarrow> mm_num m' = mm_num m + length news"
  by (simp add: replaced_def)

lemma replaced_length: "replaced m i r' news m' \<Longrightarrow> length (mm_map m') = length (mm_map m)"
  by (simp add: replaced_def)

text \<open>The bytes that the regions whose type satisfies \<open>P\<close> make up, in machine arithmetic.\<close>

definition weight :: "(memory_region_type \<Rightarrow> bool) \<Rightarrow> memory_region list \<Rightarrow> u64" where
  "weight P rs = \<Sum>\<^sub># (image_mset (\<lambda>r. if P (rtype r) then rsize r else 0) (mset rs))"

lemma weight_simps [simp]:
  "weight P [] = 0" "weight P (r # rs) = (if P (rtype r) then rsize r else 0) + weight P rs"
  "weight P (xs @ ys) = weight P xs + weight P ys"
  by (simp_all add: weight_def)

lemma weight_update:
  assumes "i < length rs"
  shows "weight P (rs[i := r]) + weight P [rs ! i] = weight P rs + weight P [r]"
  using sum_mset_update [OF assms, of "\<lambda>r. if P (rtype r) then rsize r else 0" r]
  by (simp add: weight_def)

text \<open>The type an address of the enclosing region \<open>r\<close> has once \<open>c\<close> is claimed in it.\<close>

definition retyped :: "memory_region \<Rightarrow> memory_region \<Rightarrow> nat \<Rightarrow> memory_region_type" where
  "retyped r c a =
     (if covers c a then rtype c
      else if rstart r \<noteq> rstart c \<and> unat (region_end c) \<le> a then USABLE
      else rtype r)"

lemma claim_region_outcome:
  assumes ok: "map_ok b m" and c: "region_ok c" "rsize c \<noteq> 0"
    and al: "unat b dvd unat (rstart c)" "unat b dvd unat (rsize c)" and b: "b = ucast bd"
    and i: "i < mm_num m" and enc: "encloses (mm_map m ! i) c"
    and res: "claim_region m i c bd = (m', c', True)"
  shows "c' = c \<and> (\<exists>r' news. replaced m i r' news m' \<and> mm_num m' \<le> LIMIT \<and>
    (\<forall>x \<in> insert r' (set news). region_ok x \<and> unat b dvd unat (rstart x) \<and> unat b dvd unat (rsize x)) \<and>
    (\<forall>a. owner r' a + owners news a =
       (if covers (mm_map m ! i) a then {#retyped (mm_map m ! i) c a#} else {#})) \<and>
    (\<forall>P. rstart (mm_map m ! i) = rstart c \<or> region_end (mm_map m ! i) = region_end c \<or>
         P (rtype (mm_map m ! i)) = P USABLE \<longrightarrow>
       weight P (r' # news) + weight P [(mm_map m ! i)\<lparr>rsize := rsize c\<rparr>] =
       weight P [mm_map m ! i] + weight P [c]))"
proof -
  define r where "r = mm_map m ! i"
  have len: "length (mm_map m) = LIMIT" and num: "mm_num m \<le> LIMIT"
    using ok by (auto simp: map_ok_def)
  have "r \<in> set (regions m)"
    unfolding r_def regions_def using i len num by (auto simp: in_set_conv_nth intro!: exI [of _ i])
  then have r: "region_ok r" "unat b dvd unat (rstart r)" "unat b dvd unat (rsize r)"
    using ok by (auto simp: map_ok_def)
  have n: "unat (rstart r) \<le> unat (rstart c)"
    "unat (rstart c) + unat (rsize c) \<le> unat (rstart r) + unat (rsize r)"
    using enc region_end_ok [OF c(1)] region_end_ok [OF r(1)]
    by (simp_all add: encloses_def word_le_nat_alt r_def)
  note ac = aligned_id [OF al(1)] aligned_id [OF al(2)]
  note ends = region_end_ok [OF c(1)] region_end_ok [OF r(1)]
  note rok = c(1) [unfolded region_ok_def] r(1) [unfolded region_ok_def]
  have zpos: "0 < unat (rsize c)" using c(2) by (simp add: unat_gt_0)
  consider (same) "rstart r = rstart c" "rsize r = rsize c"
    | (left) "rstart r = rstart c" "rsize r \<noteq> rsize c" "mm_num m + 1 < LIMIT"
    | (right) "rstart r \<noteq> rstart c" "region_end r = region_end c" "mm_num m + 1 < LIMIT"
    | (mid) "rstart r \<noteq> rstart c" "region_end r \<noteq> region_end c" "mm_num m + 2 < LIMIT"
    using res ac b by (fastforce simp: claim_region_def Let_def r_def split: if_splits)
  then show ?thesis
  proof cases
    case same
    then have m': "m' = m\<lparr>mm_map := (mm_map m)[i := r\<lparr>rtype := rtype c\<rparr>]\<rparr>" "c' = c"
      using res by (auto simp: claim_region_def Let_def r_def)
    have "replaced m i (r\<lparr>rtype := rtype c\<rparr>) [] m'"
      unfolding m' by (rule replaced_set [OF i])
    then show ?thesis
      using m' r num same i
      by (intro conjI exI [of _ "r\<lparr>rtype := rtype c\<rparr>"] exI [of _ "[]"])
        (auto simp: region_ok_def owner_def covers_def retyped_def replaced_def r_def)
  next
    case left
    define r' where "r' = r\<lparr>rstart := rstart r + rsize c, rsize := rsize r - rsize c\<rparr>"
    have m': "m' = map_push (m\<lparr>mm_map := (mm_map m)[i := r']\<rparr>) c" "c' = c"
      using res left ac b by (auto simp: claim_region_def Let_def r_def r'_def)
    have rep: "replaced m i r' [c] m'"
      unfolding m' using replaced_push [OF replaced_set [OF i], of r' c] i len left by simp
    have u: "unat (rstart r') = unat (rstart r) + unat (rsize c)"
      "unat (rsize r') = unat (rsize r) - unat (rsize c)"
      using n rok left by (auto simp: r'_def no_wrap)
    show ?thesis
      using rep m'(2) left n c al r rok u zpos replaced_num [OF rep]
      by (intro conjI exI [of _ r'] exI [of _ "[c]"])
        (auto simp: region_ok_def owner_def covers_def retyped_def r_def [symmetric] r'_def)
  next
    case right
    define r' where "r' = r\<lparr>rsize := rsize r - rsize c\<rparr>"
    have m': "m' = map_push (m\<lparr>mm_map := (mm_map m)[i := r']\<rparr>) c" "c' = c"
      using res right ac b by (auto simp: claim_region_def Let_def r_def r'_def)
    have rep: "replaced m i r' [c] m'"
      unfolding m' using replaced_push [OF replaced_set [OF i], of r' c] i len right by simp
    have e: "unat (rstart r) + unat (rsize r) = unat (rstart c) + unat (rsize c)"
      using ends right by simp
    have u: "rstart r' = rstart r" "unat (rsize r') = unat (rsize r) - unat (rsize c)"
      using n e by (auto simp: r'_def no_wrap)
    show ?thesis
      using rep m'(2) right n c al r rok u e zpos ends replaced_num [OF rep]
      by (intro conjI exI [of _ r'] exI [of _ "[c]"])
        (auto simp: region_ok_def owner_def covers_def retyped_def r_def [symmetric] r'_def)
  next
    case mid
    define rs where "rs = rsize r - rsize c - (rstart c - rstart r)"
    define r' where "r' = r\<lparr>rsize := rsize r - (rsize c + rs)\<rparr>"
    define q where "q = \<lparr>rstart = region_end c, rsize = rs, rtype = USABLE\<rparr>"
    have m': "m' = map_push (map_push (m\<lparr>mm_map := (mm_map m)[i := r']\<rparr>) q) c" "c' = c"
      using res mid ac b by (auto simp: claim_region_def Let_def r_def r'_def rs_def q_def)
    have "replaced m i r' [q] (map_push (m\<lparr>mm_map := (mm_map m)[i := r']\<rparr>) q)"
      using replaced_push [OF replaced_set [OF i], of r' q] i len mid by simp
    then have rep: "replaced m i r' [q, c] m'"
      unfolding m' using replaced_push [of m i r' "[q]" _ c] mid len
      by (simp add: replaced_num replaced_length)
    have u1: "unat (rstart c - rstart r) = unat (rstart c) - unat (rstart r)"
      "unat (rsize r - rsize c) = unat (rsize r) - unat (rsize c)"
      using n by (auto simp: no_wrap)
    then have urs: "unat rs = unat (rsize r) - unat (rsize c) - (unat (rstart c) - unat (rstart r))"
      using n unfolding rs_def by (subst unat_minus_no_wrap) auto
    have "rsize r - (rsize c + rs) = rstart c - rstart r"
      by (simp add: rs_def)
    then have ur: "rstart r' = rstart r" "unat (rsize r') = unat (rstart c) - unat (rstart r)"
      using u1 by (simp_all add: r'_def)
    have lt: "unat (rstart c) + unat (rsize c) < unat (rstart r) + unat (rsize r)"
      using n(2) mid(2) ends by (metis le_neq_implies_less word_unat_eq_iff)
    have news: "\<forall>x \<in> insert r' (set [q, c]).
        region_ok x \<and> unat b dvd unat (rstart x) \<and> unat b dvd unat (rsize x)"
      using n lt c(1) r al rok ur urs ends
      by (auto simp: q_def region_ok_def)
    have "owner r' a + owners [q, c] a = (if covers r a then {#retyped r c a#} else {#})" for a
      using n lt mid(1) ur urs ends zpos
      by (auto simp: owner_def covers_def retyped_def q_def r'_def)
    moreover have "weight P (r' # [q, c]) + weight P [r\<lparr>rsize := rsize c\<rparr>] = weight P [r] + weight P [c]"
      if "rstart r = rstart c \<or> region_end r = region_end c \<or> P (rtype r) = P USABLE" for P
      using that mid(1,2) by (simp add: r'_def q_def rs_def)
    ultimately show ?thesis
      using rep m'(2) news mid(3) replaced_num [OF rep] unfolding r_def [symmetric]
      by (intro conjI exI [of _ r'] exI [of _ "[q, c]"]) auto
  qed
qed


lemma owner_subset: "r \<in> set rs \<Longrightarrow> owner r a \<subseteq># owners rs a"
  by (induction rs) (auto intro: subset_mset.order_trans [OF _ mset_subset_eq_add_right])

lemma region_le_iff:
  "region_le x y \<longleftrightarrow> rstart x < rstart y \<or> rstart x = rstart y \<and> rsize x \<le> rsize y"
  by (auto simp: region_le_def)

interpretation region_order: array_order region_le
proof unfold_locales
  fix x y z :: memory_region
  show "region_le x x"
    by (simp add: region_le_iff)
  show "region_le x y \<Longrightarrow> region_le y z \<Longrightarrow> region_le x z"
    unfolding region_le_iff by (elim disjE conjE) (auto intro: order.strict_trans order.trans)
  show "region_le x y \<or> region_le y x"
    using linear [of "rsize x" "rsize y"] less_linear [of "rstart x" "rstart y"]
    unfolding region_le_iff by argo
qed

lemmas sort_regions =
  region_order.sort_array_spec region_order.sort_array_prefix_mset

lemma claim_result:
  assumes "claim m c bd = (m', c', True)"
  obtains i m1 where "i < length (mm_map m)" and "encloses (mm_map m ! i) c"
    and "claim_region m i c bd = (m1, c', True)"
    and "mm_num m' = mm_num m1"
    and "mm_num m1 \<le> length (mm_map m1) \<Longrightarrow> length (mm_map m') = length (mm_map m1)"
    and "mm_num m1 \<le> length (mm_map m1) \<Longrightarrow> mset (regions m') = mset (regions m1)"
    and "mm_num m1 \<le> length (mm_map m1) \<Longrightarrow>
      drop (mm_num m') (mm_map m') = drop (mm_num m1) (mm_map m1)"
    and "mm_free m' = mm_free (claim_account m1 c')"
    and "mm_reserved m' = mm_reserved (claim_account m1 c')"
proof -
  obtain i where i: "find_index (\<lambda>r. encloses r c) (mm_map m) 0 = Some i"
    using assms by (auto simp: claim_def split: option.splits)
  obtain m1 where m1: "claim_region m i c bd = (m1, c', True)"
    using assms i by (auto simp: claim_def Let_def split: prod.splits if_splits)
  define m2 where "m2 = claim_account m1 c'"
  have m2: "mm_map m2 = mm_map m1" "mm_num m2 = mm_num m1"
    by (simp_all add: m2_def claim_account_def)
  have m': "m' = (if mm_num m2 \<noteq> mm_num m
      then m2\<lparr>mm_map := sort_array region_le (mm_map m2) (mm_num m2)\<rparr> else m2)"
    using assms i m1 by (auto simp: claim_def Let_def m2_def)
  show thesis
    by (rule that [of i m1])
      (use find_index_0 [OF i] m1 in
        \<open>simp_all add: m' m2 regions_def m2_def [symmetric] sort_regions\<close>)
qed

text \<open>
  Everything a successful aligned claim does, in one lemma: the properties below are its parts.
\<close>

lemma claim_outcome:
  assumes ok: "map_ok b m" and c: "region_ok c" "rsize c \<noteq> 0"
    and al: "unat b dvd unat (rstart c)" "unat b dvd unat (rsize c)" and b: "b = ucast bd"
    and res: "claim m c bd = (m', c', True)"
  obtains i where "i < mm_num m" and "c' = c" and "encloses (mm_map m ! i) c" and "map_ok b m'"
    and "\<forall>a. owners (regions m') a =
      (if covers (mm_map m ! i) a then {#retyped (mm_map m ! i) c a#} else owners (regions m) a)"
    and "\<forall>P. rstart (mm_map m ! i) = rstart c \<or> region_end (mm_map m ! i) = region_end c \<or>
         P (rtype (mm_map m ! i)) = P USABLE \<longrightarrow>
       weight P (regions m') + weight P [(mm_map m ! i)\<lparr>rsize := rsize c\<rparr>] =
       weight P (regions m) + weight P [c]"
    and "mm_free m' = mm_free (claim_account m c)"
    and "mm_reserved m' = mm_reserved (claim_account m c)"
proof -
  obtain i m1 where i: "i < length (mm_map m)" and enc: "encloses (mm_map m ! i) c"
    and m1: "claim_region m i c bd = (m1, c', True)"
    and num: "mm_num m' = mm_num m1"
    and len: "mm_num m1 \<le> length (mm_map m1) \<Longrightarrow> length (mm_map m') = length (mm_map m1)"
    and mset: "mm_num m1 \<le> length (mm_map m1) \<Longrightarrow> mset (regions m') = mset (regions m1)"
    and drop: "mm_num m1 \<le> length (mm_map m1) \<Longrightarrow>
      drop (mm_num m') (mm_map m') = drop (mm_num m1) (mm_map m1)"
    and acc: "mm_free m' = mm_free (claim_account m1 c')"
      "mm_reserved m' = mm_reserved (claim_account m1 c')"
    using claim_result [OF res] by blast
  have iu: "i < mm_num m" by (rule encloses_used [OF ok c i enc])
  define r where "r = mm_map m ! i"
  obtain r' news where c': "c' = c" and rep: "replaced m i r' news m1" and lim: "mm_num m1 \<le> LIMIT"
    and news: "\<forall>x \<in> insert r' (set news). region_ok x \<and> unat b dvd unat (rstart x) \<and> unat b dvd unat (rsize x)"
    and own: "\<And>a. owner r' a + owners news a = (if covers r a then {#retyped r c a#} else {#})"
    and wei: "\<And>P. rstart r = rstart c \<or> region_end r = region_end c \<or> P (rtype r) = P USABLE \<Longrightarrow>
       weight P (r' # news) + weight P [r\<lparr>rsize := rsize c\<rparr>] = weight P [r] + weight P [c]"
    using claim_region_outcome [OF ok c al b iu enc m1] unfolding r_def by blast
  have lenm: "length (mm_map m) = LIMIT" using ok by (simp add: map_ok_def)
  have lim': "mm_num m1 \<le> length (mm_map m1)"
    using lim rep lenm by (simp add: replaced_length)
  note mset = mset [OF lim'] and drop = drop [OF lim'] and len = len [OF lim']
  have regs: "regions m1 = (regions m)[i := r'] @ news"
    using rep by (simp add: replaced_def)
  have il: "i < length (regions m)" and ir: "regions m ! i = r"
    using iu i by (simp_all add: regions_def r_def)
  have own_eq: "owners (regions m') a + owner r a =
      owners (regions m) a + (if covers r a then {#retyped r c a#} else {#})" for a
  proof -
    have "owners (regions m') a + owner r a
        = (owners ((regions m)[i := r']) a + owner (regions m ! i) a) + owners news a"
      using owners_cong_mset [OF mset, of a] by (simp add: regs ir ac_simps)
    also have "\<dots> = owners (regions m) a + (owner r' a + owners news a)"
      by (simp only: owners_update [OF il] add.assoc)
    finally show ?thesis by (simp only: own)
  qed
  have owners': "owners (regions m') a =
      (if covers r a then {#retyped r c a#} else owners (regions m) a)" for a
  proof (cases "covers r a")
    case True
    have "owner r a \<subseteq># owners (regions m) a"
      using owner_subset [OF nth_mem [OF il], of a] ir by simp
    moreover have "size (owners (regions m) a) \<le> 1" using ok by (simp add: map_ok_def)
    ultimately have "owners (regions m) a = {#rtype r#}"
      using True by (intro mset_le_one_eq) (simp_all add: owner_def)
    with own_eq [of a] True show ?thesis by (simp add: owner_def)
  qed (use own_eq [of a] in \<open>simp add: owner_def\<close>)
  have "map_ok b m'"
    unfolding map_ok_def
  proof (intro conjI allI ballI)
    show "length (mm_map m') = LIMIT" "mm_num m' \<le> LIMIT"
      using len num lim rep lenm by (simp_all add: replaced_length)
    fix x assume "x \<in> set (regions m')"
    then have "x \<in> set (regions m) \<or> x \<in> insert r' (set news)"
      using mset_eq_setD [OF mset] set_update_subset_insert [of "regions m" i r'] regs by auto
    then show "region_ok x" "unat b dvd unat (rstart x)" "unat b dvd unat (rsize x)"
      using news ok by (auto simp: map_ok_def)
  next
    fix x assume "x \<in> set (List.drop (mm_num m') (mm_map m'))"
    then show "x = region_none"
      using drop rep ok by (auto simp: replaced_def map_ok_def)
  next
    fix a show "size (owners (regions m') a) \<le> 1"
      using owners' [of a] ok by (simp add: map_ok_def)
  qed
  moreover have "weight P (regions m') + weight P [r\<lparr>rsize := rsize c\<rparr>] = weight P (regions m) + weight P [c]"
    if "rstart r = rstart c \<or> region_end r = region_end c \<or> P (rtype r) = P USABLE" for P
  proof -
    have "weight P (regions m') = weight P (regions m1)"
      using mset by (simp add: weight_def)
    moreover have "weight P (regions m1) = weight P ((regions m)[i := r']) + weight P news"
      by (simp add: regs)
    moreover have "weight P [r'] + weight P news + weight P [r\<lparr>rsize := rsize c\<rparr>] = weight P [r] + weight P [c]"
      using wei [OF that] by (simp add: add.assoc)
    ultimately show ?thesis
      using exchange_sum [OF weight_update [OF il, of P r', unfolded ir]] by metis
  qed
  moreover have "mm_free m1 = mm_free m" "mm_reserved m1 = mm_reserved m"
    using m1 by (auto simp: claim_region_def Let_def map_push_def split: if_splits)
  ultimately show thesis
    using iu c' enc owners' acc
    by (intro that [of i]) (auto simp: r_def claim_account_def)
qed

text \<open>A claim that is turned down leaves the map as it was.\<close>

lemma claim_region_failed: "claim_region m i c bd = (m', c', False) \<Longrightarrow> m' = m"
  by (auto simp: claim_region_def Let_def split: if_splits)

section \<open>\<open>merge\<close>\<close>

lemma array_delete_simps:
  assumes "k < n" and "n \<le> length xs"
  shows "take (n - 1) (fst (array_delete xs k n)) = take k xs @ drop (Suc k) (take n xs)"
    and "length (fst (array_delete xs k n)) = length xs"
proof -
  show "take (n - 1) (fst (array_delete xs k n)) = take k xs @ drop (Suc k) (take n xs)"
    using assms by (cases "k = n - 1") (auto simp: array_delete_def drop_take)
  show "length (fst (array_delete xs k n)) = length xs"
    using assms by (auto simp: array_delete_def)
qed

lemma take_delete_next:
  assumes "Suc i < n" and "n \<le> length rs"
  obtains rest where "take n rs = take i rs @ rs ! i # rs ! Suc i # rest"
    and "\<And>r. take (n - 1) (fst (array_delete (rs[i := r]) (Suc i) n)) = take i rs @ r # rest"
    and "\<And>r. length (fst (array_delete (rs[i := r]) (Suc i) n)) = length rs"
proof -
  have "take n rs = take i (take n rs) @ drop i (take n rs)" by (simp only: append_take_drop_id)
  also have "drop i (take n rs) = rs ! i # rs ! Suc i # drop (Suc (Suc i)) (take n rs)"
    using assms by (simp add: Cons_nth_drop_Suc [symmetric])
  finally have split: "take n rs = take i rs @ rs ! i # rs ! Suc i # drop (Suc (Suc i)) (take n rs)"
    using assms by (simp add: min_def)
  show thesis
  proof (rule that [OF split])
    fix r
    show "take (n - 1) (fst (array_delete (rs[i := r]) (Suc i) n))
        = take i rs @ r # drop (Suc (Suc i)) (take n rs)"
      using array_delete_simps(1) [of "Suc i" n "rs[i := r]"] assms
      by (simp add: take_Suc_conv_app_nth drop_take)
    show "length (fst (array_delete (rs[i := r]) (Suc i) n)) = length rs"
      using array_delete_simps(2) [of "Suc i" n "rs[i := r]"] assms by simp
  qed
qed

lemma merged_region:
  assumes "region_ok x" and "region_ok y" and "can_merge x y"
  defines "z \<equiv> x\<lparr>rsize := rsize x + rsize y\<rparr>"
  shows "region_ok z" and "owner z a = owner x a + owner y a"
    and "unat b dvd unat (rsize x) \<Longrightarrow> unat b dvd unat (rsize y) \<Longrightarrow> unat b dvd unat (rsize z)"
proof -
  have e: "unat (rstart y) = unat (rstart x) + unat (rsize x)"
    using region_end_ok [OF assms(1)] assms(3) by (simp add: can_merge_def)
  have u: "unat (rsize z) = unat (rsize x) + unat (rsize y)"
    using e assms(2) unfolding z_def region_ok_def by (simp add: no_wrap)
  show "region_ok z" "owner z a = owner x a + owner y a"
    using e u assms(2,3)
    by (auto simp: region_ok_def owner_def covers_def can_merge_def z_def)
  show "unat b dvd unat (rsize x) \<Longrightarrow> unat b dvd unat (rsize y) \<Longrightarrow> unat b dvd unat (rsize z)"
    using u by simp
qed

definition no_adjacent :: "nat \<Rightarrow> memory_region list \<Rightarrow> bool" where
  "no_adjacent i rs \<longleftrightarrow> (\<forall>k. i \<le> k \<and> Suc k < length rs \<longrightarrow> \<not> can_merge (rs ! k) (rs ! Suc k))"

lemma no_adjacent_Suc:
  assumes "no_adjacent (Suc i) xs" and "Suc i < length xs \<Longrightarrow> \<not> can_merge (xs ! i) (xs ! Suc i)"
  shows "no_adjacent i xs"
  unfolding no_adjacent_def
proof (intro allI impI)
  fix k assume k: "i \<le> k \<and> Suc k < length xs"
  show "\<not> can_merge (xs ! k) (xs ! Suc k)"
  proof (cases "k = i")
    case False
    with k have "Suc i \<le> k" by simp
    with k assms(1) show ?thesis by (auto simp: no_adjacent_def)
  qed (use assms(2) k in simp)
qed

lemma merge_loop_correct:
  assumes "merge_loop i rs n = (rs', n')" and "n \<le> length rs" and "0 < n"
    and "\<forall>r \<in> set (take n rs). region_ok r \<and> unat b dvd unat (rstart r) \<and> unat b dvd unat (rsize r)"
  shows "n' \<le> n \<and> 0 < n' \<and> length rs' = length rs \<and> take i rs' = take i rs \<and>
    (i < n \<longrightarrow> rtype (rs' ! i) = rtype (rs ! i) \<and> rstart (rs' ! i) = rstart (rs ! i)) \<and>
    (\<forall>r \<in> set (take n' rs'). region_ok r \<and> unat b dvd unat (rstart r) \<and> unat b dvd unat (rsize r)) \<and>
    (\<forall>a. owners (take n' rs') a = owners (take n rs) a) \<and> no_adjacent i (take n' rs')"
  using assms
proof (induction i rs n arbitrary: rs' n' rule: merge_loop.induct)
  case (1 i rs n)
  show ?case
  proof (cases "i < n - 1")
    case False
    then have "rs' = rs" "n' = n"
      using "1.prems"(1) by (simp_all add: merge_loop.simps [of i rs n])
    then show ?thesis using False "1.prems"(2-4) by (auto simp: no_adjacent_def)
  next
    case i: True
    then have i2: "Suc i < n" "n \<le> length rs" using "1.prems"(2) by auto
    have mem: "rs ! i \<in> set (take n rs)" "rs ! Suc i \<in> set (take n rs)"
      using i2 nth_mem [of i "take n rs"] nth_mem [of "Suc i" "take n rs"] by simp_all
    note ok = "1.prems"(4)
    show ?thesis
    proof (cases "can_merge (rs ! i) (rs ! Suc i)")
      case True
      let ?z = "(rs ! i)\<lparr>rsize := rsize (rs ! i) + rsize (rs ! Suc i)\<rparr>"
      let ?ds = "fst (array_delete (rs[i := ?z]) (Suc i) n)"
      have step: "merge_loop i ?ds (n - 1) = (rs', n')"
        using "1.prems"(1) i True by (simp add: merge_loop.simps [of i rs n] Let_def)
      note mr = merged_region [of "rs ! i" "rs ! Suc i", OF _ _ True]
      obtain rest where tp: "take n rs = take i rs @ rs ! i # rs ! Suc i # rest"
        and td: "take (n - 1) ?ds = take i rs @ ?z # rest" and tl: "length ?ds = length rs"
        using take_delete_next [OF i2] by metis
      have own: "owners (take (n - 1) ?ds) a = owners (take n rs) a" for a
        unfolding td tp using mr(2) ok mem by (simp add: add.assoc)
      have oks: "\<forall>r \<in> set (take (n - 1) ?ds). region_ok r \<and> unat b dvd unat (rstart r) \<and> unat b dvd unat (rsize r)"
        using ok mr(1) mr(3) [of b] unfolding td tp by simp
      have pre: "take i ?ds = take i rs" "?ds ! i = ?z"
      proof -
        have "take i (take (n - 1) ?ds) = take i rs" "take (n - 1) ?ds ! i = ?z"
          unfolding td using i2 by (simp_all add: nth_append)
        then show "take i ?ds = take i rs" "?ds ! i = ?z" using i by simp_all
      qed
      have "n' \<le> n - 1 \<and> 0 < n' \<and> length rs' = length ?ds \<and> take i rs' = take i ?ds \<and>
          (i < n - 1 \<longrightarrow> rtype (rs' ! i) = rtype (?ds ! i) \<and> rstart (rs' ! i) = rstart (?ds ! i)) \<and>
          (\<forall>r \<in> set (take n' rs'). region_ok r \<and> unat b dvd unat (rstart r) \<and> unat b dvd unat (rsize r)) \<and>
          (\<forall>a. owners (take n' rs') a = owners (take (n - 1) ?ds) a) \<and> no_adjacent i (take n' rs')"
        by (rule "1.IH"(1) [OF i True _ step]) (use tl i2 oks in simp_all)
      then show ?thesis
        using pre own tl i by auto
    next
      case False
      have step: "merge_loop (Suc i) rs n = (rs', n')"
        using "1.prems"(1) i False by (simp add: merge_loop.simps [of i rs n])
      note IH = "1.IH"(2) [OF i False step "1.prems"(2-4)]
      have pre: "take i rs' = take i rs" "rs' ! i = rs ! i"
      proof -
        have "take (Suc i) rs' = take (Suc i) rs" using IH by blast
        then show "take i rs' = take i rs" "rs' ! i = rs ! i"
          by (metis min.absorb1 take_take lessI less_imp_le_nat, metis nth_take lessI)
      qed
      have nm: "\<not> can_merge (rs' ! i) (rs' ! Suc i)"
        using False IH i2 pre by (simp add: can_merge_def)
      have "no_adjacent i (take n' rs')"
      proof (rule no_adjacent_Suc)
        show "no_adjacent (Suc i) (take n' rs')" using IH by blast
        assume "Suc i < length (take n' rs')"
        then show "\<not> can_merge (take n' rs' ! i) (take n' rs' ! Suc i)" using nm by simp
      qed
      with IH pre show ?thesis by simp
    qed
  qed
qed

section \<open>Properties\<close>

text \<open>A map for the witnesses: 16 KiB of usable memory, then 4 KiB reserved.\<close>

definition sample_map :: memory_map where
  "sample_map = memory_map_init
     [\<lparr>rstart = 0, rsize = 0x4000, rtype = USABLE\<rparr>, \<lparr>rstart = 0x4000, rsize = 0x1000, rtype = RESERVED\<rparr>]"

definition sample_claim :: memory_region where
  "sample_claim = \<lparr>rstart = 0x1000, rsize = 0x1000, rtype = KERNEL_CODE\<rparr>"

lemma sample_map_eq: "sample_map =
   \<lparr>mm_map = \<lparr>rstart = 0, rsize = 0x4000, rtype = USABLE\<rparr> #
       \<lparr>rstart = 0x4000, rsize = 0x1000, rtype = RESERVED\<rparr> # replicate 62 region_none,
    mm_free = 0x4000, mm_reserved = 0x1000, mm_num = 2\<rparr>"
  by (simp add: sample_map_def memory_map_init_def LIMIT_def numeral_eq_Suc)


lemma sample_map_ok: "map_ok 0x1000 sample_map"
proof -
  have "regions sample_map = [\<lparr>rstart = 0, rsize = 0x4000, rtype = USABLE\<rparr>,
      \<lparr>rstart = 0x4000, rsize = 0x1000, rtype = RESERVED\<rparr>]"
    by (simp add: regions_def sample_map_eq numeral_eq_Suc)
  then show ?thesis
    by (simp add: map_ok_def sample_map_eq LIMIT_def region_ok_def) (simp add: owner_def covers_def)
qed

lemma sample_claims: "snd (claim sample_map sample_claim 0x1000) = (sample_claim, True)"
  by code_simp

text \<open>
  \<open>memory_align\<close> with a non-zero boundary: rounding down gives the greatest multiple of the
  boundary that is at most the address; rounding up gives the least multiple above the address
  (an aligned address moves one boundary further) as long as that multiple fits in 64 bits.
\<close>

theorem memory_align_correct:
  assumes "b \<noteq> 0"
  shows "memory_is_aligned (memory_align x b False) b \<and> memory_align x b False \<le> x \<and>
      unat x < unat (memory_align x b False) + unat b \<and>
      (unat (memory_align x b False) + unat b < 2 ^ 64 \<longrightarrow>
        memory_is_aligned (memory_align x b True) b \<and> x < memory_align x b True \<and>
        unat (memory_align x b True) = unat (memory_align x b False) + unat b)"
proof -
  have b: "0 < unat b" using assms by (simp add: unat_gt_0)
  have le: "unat x div unat b * unat b \<le> unat x" by simp
  have "unat (x div b) * unat b < 2 ^ LENGTH(64)"
    unfolding unat_div_word using le_less_trans [OF le unsigned_less [of x]] .
  then have dn: "unat (memory_align x b False) = unat x div unat b * unat b"
    by (simp add: memory_align_def unat_mult_no_wrap unat_div_word)
  have near: "unat x < unat x div unat b * unat b + unat b"
    using b by (metis div_mult_mod_eq add_strict_left_mono mod_less_divisor)
  have up: "unat (memory_align x b True) = unat x div unat b * unat b + unat b"
    if fits: "unat x div unat b * unat b + unat b < 2 ^ 64"
  proof -
    have "memory_align x b True = memory_align x b False + b"
      by (simp add: memory_align_def algebra_simps)
    then show ?thesis using fits dn by (simp add: unat_plus_no_wrap)
  qed
  show ?thesis
    using dn near up le
    by (auto simp: memory_is_aligned_def word_le_nat_alt word_less_nat_alt word_unat_eq_iff unat_mod_word)
qed

lemma memory_align_correct_witness:
  "(0x1000 :: u64) \<noteq> 0 \<and> memory_align 0x1800 0x1000 False = 0x1000 \<and>
   memory_is_aligned (memory_align 0x1800 0x1000 False) 0x1000"
  using memory_align_correct [of "0x1000" "0x1800"] by (simp add: memory_align_def)

text \<open>
  \<open>sort\<close> as \<open>claim\<close> uses it: the first \<open>n\<close> slots of the array are permuted into the order of
  \<open>MemoryRegion::operator<=\<close> and the remaining slots are left alone.
\<close>

theorem sort_array_sorts_regions:
  assumes "n \<le> length xs"
  shows "sorted_wrt region_le (take n (sort_array region_le xs n)) \<and>
    mset (take n (sort_array region_le xs n)) = mset (take n xs) \<and>
    drop n (sort_array region_le xs n) = drop n xs"
  using sort_regions [OF assms] by blast

lemma sort_array_sorts_regions_witness:
  "2 \<le> length [sample_claim, region_none, sample_claim] \<and>
   sorted_wrt region_le (take 2 (sort_array region_le [sample_claim, region_none, sample_claim] 2))"
  using sort_array_sorts_regions [of 2 "[sample_claim, region_none, sample_claim]"] by simp

text \<open>
  C15. What \<open>MemoryMap::claim\<close> does to the type of every address: for a claimant that is not empty, starts at a multiple
  of the boundary, has a multiple of it as its size and does
  not wrap, a successful claim keeps the map well formed (in particular no address is in two
  regions) and changes types only inside the enclosing region \<open>r\<close>, where the claimant's addresses
  get the claimant's type, the addresses before it keep \<open>r\<close>'s type, and the addresses after a
  claimant that starts strictly inside \<open>r\<close> become \<open>USABLE\<close>, whatever the type of \<open>r\<close> was. A claimant that is not
  aligned is moved (\<open>misaligned_claim_moves\<close>).
\<close>

theorem claim_retypes:
  assumes "map_ok b m" and "region_ok c" and "rsize c \<noteq> 0"
    and "unat b dvd unat (rstart c)" and "unat b dvd unat (rsize c)" and "b = ucast bd"
    and "claim m c bd = (m', c', True)"
  shows "map_ok b m' \<and> c' = c \<and> (\<exists>r \<in> set (regions m). encloses r c \<and>
    (\<forall>a. owners (regions m') a = (if covers r a then {#retyped r c a#} else owners (regions m) a)))"
proof -
  obtain i where "i < mm_num m" "c' = c" "encloses (mm_map m ! i) c" "map_ok b m'"
    "\<forall>a. owners (regions m') a =
      (if covers (mm_map m ! i) a then {#retyped (mm_map m ! i) c a#} else owners (regions m) a)"
    using claim_outcome [OF assms] by blast
  moreover have "mm_map m ! i \<in> set (regions m)"
    using \<open>i < mm_num m\<close> assms(1) nth_mem [of i "regions m"] by (simp add: regions_def map_ok_def)
  ultimately show ?thesis by blast
qed

lemma claim_retypes_witness:
  "\<exists>m'. claim sample_map sample_claim 0x1000 = (m', sample_claim, True) \<and> map_ok 0x1000 m'"
proof -
  obtain m' where m': "claim sample_map sample_claim 0x1000 = (m', sample_claim, True)"
    using sample_claims by (metis prod.collapse)
  have "map_ok 0x1000 m'"
    by (rule conjunct1 [OF claim_retypes [OF sample_map_ok _ _ _ _ _ m']])
      (simp_all add: region_ok_def sample_claim_def)
  with m' show ?thesis by blast
qed

text \<open>
  C33. The free and reserved byte counters stay exact: if they equal the sums of the sizes of the
  usable and of the other regions, they do so after a claim that turns usable memory into
  reserved memory or reserved memory into usable memory. Reserved memory has to be claimed from
  the start or the end of its region, because a right part is always filed as usable.
\<close>

definition accounted :: "memory_map \<Rightarrow> bool" where
  "accounted m \<longleftrightarrow> mm_free m = weight (\<lambda>t. t = USABLE) (regions m) \<and>
     mm_reserved m = weight (\<lambda>t. t \<noteq> USABLE) (regions m)"

theorem claim_keeps_accounts:
  assumes "map_ok b m" and "region_ok c" and "rsize c \<noteq> 0"
    and "unat b dvd unat (rstart c)" and "unat b dvd unat (rsize c)" and "b = ucast bd"
    and "claim m c bd = (m', c', True)" and "accounted m"
    and "\<forall>r \<in> set (regions m). encloses r c \<longrightarrow> (rtype r = USABLE) \<noteq> (rtype c = USABLE) \<and>
      (rtype r = USABLE \<or> rstart r = rstart c \<or> region_end r = region_end c)"
  shows "accounted m'"
proof -
  obtain i where i: "i < mm_num m" "encloses (mm_map m ! i) c"
    and w: "\<forall>P. rstart (mm_map m ! i) = rstart c \<or> region_end (mm_map m ! i) = region_end c \<or>
         P (rtype (mm_map m ! i)) = P USABLE \<longrightarrow>
       weight P (regions m') + weight P [(mm_map m ! i)\<lparr>rsize := rsize c\<rparr>] =
       weight P (regions m) + weight P [c]"
    and acc: "mm_free m' = mm_free (claim_account m c)" "mm_reserved m' = mm_reserved (claim_account m c)"
    using claim_outcome [OF assms(1-7)] by blast
  have "mm_map m ! i \<in> set (regions m)"
    using i(1) assms(1) nth_mem [of i "regions m"] by (simp add: regions_def map_ok_def)
  with assms(9) i(2) have kind: "(rtype (mm_map m ! i) = USABLE) \<noteq> (rtype c = USABLE)"
    and part: "rtype (mm_map m ! i) = USABLE \<or> rstart (mm_map m ! i) = rstart c \<or>
      region_end (mm_map m ! i) = region_end c" by blast+
  have free: "weight (\<lambda>t. t = USABLE) (regions m') + weight (\<lambda>t. t = USABLE) [(mm_map m ! i)\<lparr>rsize := rsize c\<rparr>] =
       weight (\<lambda>t. t = USABLE) (regions m) + weight (\<lambda>t. t = USABLE) [c]"
    and res: "weight (\<lambda>t. t \<noteq> USABLE) (regions m') + weight (\<lambda>t. t \<noteq> USABLE) [(mm_map m ! i)\<lparr>rsize := rsize c\<rparr>] =
       weight (\<lambda>t. t \<noteq> USABLE) (regions m) + weight (\<lambda>t. t \<noteq> USABLE) [c]"
    using w part by metis+
  show ?thesis
    using free res kind assms(8) acc by (auto simp: accounted_def claim_account_def diff_eq_eq)
qed

lemma claim_keeps_accounts_witness:
  "\<exists>m'. claim sample_map sample_claim 0x1000 = (m', sample_claim, True) \<and> accounted m'"
proof -
  obtain m' where m': "claim sample_map sample_claim 0x1000 = (m', sample_claim, True)"
    using sample_claims by (metis prod.collapse)
  have regs: "regions sample_map = [\<lparr>rstart = 0, rsize = 0x4000, rtype = USABLE\<rparr>,
      \<lparr>rstart = 0x4000, rsize = 0x1000, rtype = RESERVED\<rparr>]"
    by (simp add: regions_def sample_map_eq numeral_eq_Suc)
  have acc: "accounted sample_map"
    unfolding accounted_def regs by (simp add: sample_map_eq)
  have "accounted m'"
    by (rule claim_keeps_accounts [OF sample_map_ok _ _ _ _ _ m' acc])
      (simp_all add: region_ok_def sample_claim_def regs encloses_def region_end_def)
  with m' show ?thesis by blast
qed

text \<open>A claim that is refused leaves the memory map exactly as it was.\<close>

theorem claim_refused_unchanged: "claim m c bd = (m', c', False) \<Longrightarrow> m' = m"
  by (auto simp: claim_def Let_def split: option.splits prod.splits if_splits dest: claim_region_failed)

lemma claim_refused_unchanged_witness:
  "claim sample_map (sample_claim\<lparr>rsize := 0x10000\<rparr>) 0x1000 =
     (sample_map, sample_claim\<lparr>rsize := 0x10000\<rparr>, False)"
proof -
  have refused: "snd (claim sample_map (sample_claim\<lparr>rsize := 0x10000\<rparr>) 0x1000) =
      (sample_claim\<lparr>rsize := 0x10000\<rparr>, False)" by code_simp
  obtain m' where m': "claim sample_map (sample_claim\<lparr>rsize := 0x10000\<rparr>) 0x1000 =
      (m', sample_claim\<lparr>rsize := 0x10000\<rparr>, False)"
    using refused by (metis prod.collapse)
  with claim_refused_unchanged [OF m'] show ?thesis by simp
qed

text \<open>
  \<open>MemoryMap::merge\<close> ends on every non-empty map and leaves the type of every address as it
  was, the map well formed, and no two neighbouring regions of the same type that touch.
\<close>

theorem merge_correct:
  assumes "map_ok b m" and "mm_num m \<noteq> 0"
  shows "\<exists>m'. merge m = Some m' \<and> map_ok b m' \<and> mm_num m' \<le> mm_num m \<and>
    (\<forall>a. owners (regions m') a = owners (regions m) a) \<and> no_adjacent 0 (regions m')"
proof -
  obtain rs n where ml: "merge_loop 0 (mm_map m) (mm_num m) = (rs, n)" by force
  define m' where "m' = m\<lparr>mm_map := take n rs @ replicate (LIMIT - n) region_none, mm_num := n\<rparr>"
  have mg: "merge m = Some m'" using assms(2) ml by (simp add: merge_def m'_def)
  have okm: "mm_num m \<le> length (mm_map m)" "length (mm_map m) = LIMIT"
    "\<forall>r \<in> set (take (mm_num m) (mm_map m)). region_ok r \<and> unat b dvd unat (rstart r) \<and> unat b dvd unat (rsize r)"
    using assms(1) by (auto simp: map_ok_def regions_def)
  have M: "n \<le> mm_num m \<and> 0 < n \<and> length rs = length (mm_map m) \<and> take 0 rs = take 0 (mm_map m) \<and>
    (0 < mm_num m \<longrightarrow> rtype (rs ! 0) = rtype (mm_map m ! 0) \<and> rstart (rs ! 0) = rstart (mm_map m ! 0)) \<and>
    (\<forall>r \<in> set (take n rs). region_ok r \<and> unat b dvd unat (rstart r) \<and> unat b dvd unat (rsize r)) \<and>
    (\<forall>a. owners (take n rs) a = owners (take (mm_num m) (mm_map m)) a) \<and> no_adjacent 0 (take n rs)"
    by (rule merge_loop_correct [OF ml okm(1) _ okm(3)]) (use assms(2) in simp)
  have regs: "regions m' = take n rs"
    using M okm by (simp add: regions_def m'_def)
  have "map_ok b m'"
    using M okm assms(1) unfolding map_ok_def regs by (auto simp: m'_def regions_def)
  with M mg regs show ?thesis by (auto simp: m'_def regions_def)
qed

lemma merge_correct_witness:
  "\<exists>m'. merge sample_map = Some m' \<and> map_ok 0x1000 m'"
  using merge_correct [OF sample_map_ok] by (auto simp: sample_map_eq)

text \<open>
  \<open>find_type_of\<close> does not depend on the region it is asked about: it tests every entry of the
  map against itself, and answers the type of the first non-empty entry.
\<close>

theorem find_type_of_ignores_region: "find_type_of m region = find_type_of m region'"
proof -
  have "find_type_of_loop rs region = find_type_of_loop rs region'" for rs
    by (induction rs) auto
  then show ?thesis by (simp add: find_type_of_def)
qed

text \<open>
  A claimant that is not aligned is moved down, and its end with it: here \<open>0x1800 - 0x2800\<close> is
  asked for, \<open>0x1000 - 0x2000\<close> is reserved, and \<open>0x2000\<close> stays usable.
\<close>

lemma misaligned_claim_moves:
  "(case claim sample_map (sample_claim\<lparr>rstart := 0x1800\<rparr>) 0x1000 of
      (m', c', ok) \<Rightarrow> ok \<and> rstart c' = 0x1000 \<and> region_end c' = 0x2000 \<and>
        rtype (mm_map m' ! 2) = USABLE \<and> rstart (mm_map m' ! 2) = 0x2000)"
  by code_simp

end
