(* ===== verification/Linked_List.thy ===== *)
theory Linked_List
  imports Prelude "HOL-Library.Monad_Syntax"
begin

text \<open>
  \<^verbatim>\<open>Kernel/Include/KRE/Collections/LinkedList.h\<close>: the doubly linked list of the kernel runtime, over
  an explicit store. An address is a \<open>nat\<close>, a pointer an optional address (\<open>None\<close> is
  \<open>nullptr\<close>), the heap a map from addresses to nodes. Reading or writing through a null or a
  dangling pointer is \<open>None\<close>. \<open>operator new\<close> is not part of the model: an operation that
  allocates takes the address of the new node as an argument, and its lemmas ask that it is free.

  The abstraction \<open>dll h l ps xs\<close> says that the list object \<open>l\<close> represents \<open>xs\<close> with the nodes at
  \<open>ps\<close>. Every operation is shown to succeed on such a list, to do to \<open>xs\<close> what the operation
  promises, and to touch no other node.
\<close>

section \<open>Nodes, heap and list object\<close>

type_synonym ptr = "nat option"

record 'a lnode =
  m_element :: 'a
  m_previous :: ptr
  m_next :: ptr

type_synonym 'a lheap = "nat \<Rightarrow> 'a lnode option"

record llist =
  m_first :: ptr
  m_last :: ptr
  m_size :: u64

definition load :: "'a lheap \<Rightarrow> ptr \<Rightarrow> 'a lnode option" where
  "load h p = Option.bind p h"

definition store :: "'a lheap \<Rightarrow> ptr \<Rightarrow> ('a lnode \<Rightarrow> 'a lnode) \<Rightarrow> 'a lheap option" where
  "store h p f = do { a \<leftarrow> p; n \<leftarrow> h a; Some (h(a \<mapsto> f n)) }"

lemma load_simps [simp]: "load h None = None" "load h (Some a) = h a"
  by (simp_all add: load_def)

lemma store_simps [simp]:
  "store h None f = None" "h a = Some n \<Longrightarrow> store h (Some a) f = Some (h(a \<mapsto> f n))"
  by (simp_all add: store_def)

definition new_node :: "'a \<Rightarrow> 'a lnode" where
  "new_node x = \<lparr>m_element = x, m_previous = None, m_next = None\<rparr>"

definition empty_list :: llist where
  "empty_list = \<lparr>m_first = None, m_last = None, m_size = 0\<rparr>"

section \<open>Operations\<close>

definition add0 :: "'a lheap \<Rightarrow> llist \<Rightarrow> ptr \<Rightarrow> bool \<Rightarrow> ('a lheap \<times> llist) option" where
  "add0 h l node front =
     (if m_first l = None then do {
        h \<leftarrow> store h node (\<lambda>n. n\<lparr>m_next := None\<rparr>);
        h \<leftarrow> store h node (\<lambda>n. n\<lparr>m_previous := None\<rparr>);
        Some (h, l\<lparr>m_first := node, m_last := node, m_size := m_size l + 1\<rparr>) }
      else if front then do {
        h \<leftarrow> store h node (\<lambda>n. n\<lparr>m_next := m_first l\<rparr>);
        h \<leftarrow> store h (m_first l) (\<lambda>n. n\<lparr>m_previous := node\<rparr>);
        Some (h, l\<lparr>m_first := node, m_size := m_size l + 1\<rparr>) }
      else do {
        h \<leftarrow> store h node (\<lambda>n. n\<lparr>m_previous := m_last l\<rparr>);
        h \<leftarrow> store h (m_last l) (\<lambda>n. n\<lparr>m_next := node\<rparr>);
        Some (h, l\<lparr>m_last := node, m_size := m_size l + 1\<rparr>) })"

definition remove0 :: "'a lheap \<Rightarrow> llist \<Rightarrow> ptr \<Rightarrow> ('a lheap \<times> llist \<times> 'a option) option" where
  "remove0 h l node =
     (case node of
        None \<Rightarrow> Some (h, l, None)
      | Some a \<Rightarrow> do {
          n \<leftarrow> load h node;
          (h, l) \<leftarrow> (if m_previous n \<noteq> None
                    then do { h \<leftarrow> store h (m_previous n) (\<lambda>p. p\<lparr>m_next := m_next n\<rparr>); Some (h, l) }
                    else Some (h, l\<lparr>m_first := m_next n\<rparr>));
          n \<leftarrow> load h node;
          (h, l) \<leftarrow> (if m_next n \<noteq> None
                    then do { h \<leftarrow> store h (m_next n) (\<lambda>p. p\<lparr>m_previous := m_previous n\<rparr>); Some (h, l) }
                    else Some (h, l\<lparr>m_last := m_previous n\<rparr>));
          n \<leftarrow> load h node;
          let l = (if m_next n = None \<and> m_previous n = None
                   then l\<lparr>m_first := None, m_last := None\<rparr> else l);
          Some (h(a := None), l\<lparr>m_size := m_size l - 1\<rparr>, Some (m_element n)) })"

partial_function (option) index_of0_loop :: "'a lheap \<Rightarrow> ptr \<Rightarrow> 'a \<Rightarrow> int \<Rightarrow> int option" where
  "index_of0_loop h cur element idx =
     (if cur = None then Some (- 1)
      else do {
        n \<leftarrow> load h cur;
        if m_element n = element then Some idx
        else index_of0_loop h (m_next n) element (idx + 1) })"

definition index_of0 :: "'a lheap \<Rightarrow> llist \<Rightarrow> 'a \<Rightarrow> int option" where
  "index_of0 h l element = index_of0_loop h (m_first l) element 0"

definition list_contains :: "'a lheap \<Rightarrow> llist \<Rightarrow> 'a \<Rightarrow> bool option" where
  "list_contains h l element = do { i \<leftarrow> index_of0 h l element; Some (i \<ge> 0) }"

partial_function (option) free_nodes_loop :: "'a lheap \<Rightarrow> ptr \<Rightarrow> 'a lheap option" where
  "free_nodes_loop h cur =
     (case cur of
        None \<Rightarrow> Some h
      | Some a \<Rightarrow> do { n \<leftarrow> load h cur; free_nodes_loop (h(a := None)) (m_next n) })"

definition free_nodes :: "'a lheap \<Rightarrow> llist \<Rightarrow> 'a lheap option" where
  "free_nodes h l = free_nodes_loop h (m_first l)"

definition clear :: "'a lheap \<Rightarrow> llist \<Rightarrow> ('a lheap \<times> llist) option" where
  "clear h l = do { h \<leftarrow> free_nodes h l; Some (h, l\<lparr>m_first := None, m_last := None, m_size := 0\<rparr>) }"

definition first :: "'a lheap \<Rightarrow> llist \<Rightarrow> 'a option" where
  "first h l = do { n \<leftarrow> load h (m_first l); Some (m_element n) }"

definition list_last :: "'a lheap \<Rightarrow> llist \<Rightarrow> 'a option" where
  "list_last h l = do { n \<leftarrow> load h (m_last l); Some (m_element n) }"

definition list_empty :: "llist \<Rightarrow> bool" where
  "list_empty l \<longleftrightarrow> m_first l = None"

definition add_back :: "'a lheap \<Rightarrow> llist \<Rightarrow> nat \<Rightarrow> 'a \<Rightarrow> ('a lheap \<times> llist) option" where
  "add_back h l a element = add0 (h(a \<mapsto> new_node element)) l (Some a) False"

definition add_front :: "'a lheap \<Rightarrow> llist \<Rightarrow> nat \<Rightarrow> 'a \<Rightarrow> ('a lheap \<times> llist) option" where
  "add_front h l a element = add0 (h(a \<mapsto> new_node element)) l (Some a) True"

definition remove_front :: "'a lheap \<Rightarrow> llist \<Rightarrow> ('a lheap \<times> llist \<times> 'a option) option" where
  "remove_front h l = remove0 h l (m_first l)"

definition remove_back :: "'a lheap \<Rightarrow> llist \<Rightarrow> ('a lheap \<times> llist \<times> 'a option) option" where
  "remove_back h l = remove0 h l (m_last l)"

partial_function (option) find_node :: "'a lheap \<Rightarrow> ptr \<Rightarrow> 'a \<Rightarrow> ptr option" where
  "find_node h to_remove element =
     (if to_remove = None then Some None
      else do {
        n \<leftarrow> load h to_remove;
        if m_element n \<noteq> element then find_node h (m_next n) element else Some to_remove })"

definition remove_element :: "'a lheap \<Rightarrow> llist \<Rightarrow> 'a \<Rightarrow> ('a lheap \<times> llist \<times> 'a option) option" where
  "remove_element h l element = do {
     to_remove \<leftarrow> find_node h (m_first l) element;
     remove0 h l to_remove }"

text \<open>The walk of \<open>remove_at\<close> and \<open>operator[]\<close>: \<open>index\<close> steps along \<open>m_next\<close>.\<close>

fun walk :: "'a lheap \<Rightarrow> ptr \<Rightarrow> nat \<Rightarrow> ptr option" where
  "walk h p 0 = Some p"
| "walk h p (Suc k) = do { n \<leftarrow> load h p; walk h (m_next n) k }"

text \<open>\<open>remove_at\<close> carries the contract \<open>0 < index && index < m_size\<close>; breaking it is \<open>None\<close>.\<close>

definition remove_at :: "'a lheap \<Rightarrow> llist \<Rightarrow> nat \<Rightarrow> ('a lheap \<times> llist \<times> 'a option) option" where
  "remove_at h l index =
     (if 0 < index \<and> index < unat (m_size l)
      then do { to_remove \<leftarrow> walk h (m_first l) index; remove0 h l to_remove }
      else None)"

definition list_at :: "'a lheap \<Rightarrow> llist \<Rightarrow> nat \<Rightarrow> 'a option" where
  "list_at h l idx =
     (if idx < unat (m_size l)
      then do { p \<leftarrow> walk h (m_first l) idx; n \<leftarrow> load h p; Some (m_element n) }
      else None)"

text \<open>
  \<open>copy\<close> clones the nodes from the front. \<open>as\<close> lists the addresses \<open>operator new\<close> hands out; the
  loop state is the source node, the previously cloned node and the list under construction. The
  links of a clone start out null (the \<open>Node\<close> constructor).
\<close>

fun copy_loop :: "'a lheap \<Rightarrow> llist \<Rightarrow> ptr \<Rightarrow> ptr \<Rightarrow> nat list \<Rightarrow> llist \<Rightarrow> ('a lheap \<times> llist) option" where
  "copy_loop h other None t_prev as l = Some (h, l)"
| "copy_loop h other (Some o_curr) t_prev [] l = None"
| "copy_loop h other (Some o_curr) t_prev (t_curr # as) l = do {
     n \<leftarrow> load h (Some o_curr);
     let h = h(t_curr \<mapsto> new_node (m_element n));
     h \<leftarrow> (if m_previous n \<noteq> None then do {
              h \<leftarrow> store h (Some t_curr) (\<lambda>t. t\<lparr>m_previous := t_prev\<rparr>);
              if t_prev \<noteq> None then store h t_prev (\<lambda>t. t\<lparr>m_next := Some t_curr\<rparr>) else Some h }
            else Some h);
     let l = (if Some o_curr = m_first other then l\<lparr>m_first := Some t_curr\<rparr> else l);
     let l = (if Some o_curr = m_last other then l\<lparr>m_last := Some t_curr\<rparr> else l);
     n \<leftarrow> load h (Some o_curr);
     copy_loop h other (m_next n) (Some t_curr) as l }"

definition copy :: "'a lheap \<Rightarrow> llist \<Rightarrow> nat list \<Rightarrow> llist \<Rightarrow> ('a lheap \<times> llist) option" where
  "copy h other as l =
     (if m_size other = 0 then Some (h, l\<lparr>m_first := None, m_last := None, m_size := 0\<rparr>)
      else do {
        (h, l) \<leftarrow> copy_loop h other (m_first other) None as l;
        Some (h, l\<lparr>m_size := m_size other\<rparr>) })"

text \<open>Copy assignment \<open>operator=\<close>: nothing on self-assignment, else \<open>free_nodes\<close> and \<open>copy\<close>.\<close>

definition copy_assign :: "'a lheap \<Rightarrow> llist \<Rightarrow> llist \<Rightarrow> bool \<Rightarrow> nat list \<Rightarrow> ('a lheap \<times> llist) option" where
  "copy_assign h l other same as =
     (if same then Some (h, l) else do { h \<leftarrow> free_nodes h l; copy h other as l })"

text \<open>Move assignment swaps the nodes but sets the other list's size to 0. Result: (this, other).\<close>

definition move_assign :: "llist \<Rightarrow> llist \<Rightarrow> llist \<times> llist" where
  "move_assign l other =
     (l\<lparr>m_first := m_first other, m_last := m_last other, m_size := m_size other\<rparr>,
      other\<lparr>m_first := m_first l, m_last := m_last l, m_size := 0\<rparr>)"

text \<open>The move constructor takes the nodes and leaves the other list empty. Result: (this, other).\<close>

definition move_construct :: "llist \<Rightarrow> llist \<times> llist" where
  "move_construct other =
     (\<lparr>m_first = m_first other, m_last = m_last other, m_size = m_size other\<rparr>,
      \<lparr>m_first = None, m_last = None, m_size = 0\<rparr>)"

text \<open>\<open>add_all\<close> and the initializer-list constructor: \<open>add_back\<close> for each element.\<close>

fun add_all :: "'a lheap \<Rightarrow> llist \<Rightarrow> nat list \<Rightarrow> 'a list \<Rightarrow> ('a lheap \<times> llist) option" where
  "add_all h l as [] = Some (h, l)"
| "add_all h l [] (x # xs) = None"
| "add_all h l (a # as) (x # xs) = do { (h, l) \<leftarrow> add_back h l a x; add_all h l as xs }"

section \<open>The list a heap represents\<close>

text \<open>The pointer a segment is entered by, and the pointer its last node is reached by.\<close>

definition entry :: "nat list \<Rightarrow> ptr \<Rightarrow> ptr" where
  "entry ps q = (case ps of [] \<Rightarrow> q | a # _ \<Rightarrow> Some a)"

definition exit_ptr :: "ptr \<Rightarrow> nat list \<Rightarrow> ptr" where
  "exit_ptr p ps = (if ps = [] then p else Some (List.last ps))"

lemma entry_simps [simp]:
  "entry [] q = q" "entry (a # as) q = Some a" "entry (as @ bs) q = entry as (entry bs q)"
  by (auto simp: entry_def split: list.splits)

lemma exit_ptr_simps [simp]:
  "exit_ptr p [] = p" "exit_ptr p (a # as) = exit_ptr (Some a) as"
  "exit_ptr p (as @ bs) = exit_ptr (exit_ptr p as) bs"
  by (auto simp: exit_ptr_def)

lemma entry_None [simp]: "entry ps None = None \<longleftrightarrow> ps = []"
  by (simp add: entry_def split: list.splits)

lemma exit_ptr_None [simp]: "exit_ptr None ps = None \<longleftrightarrow> ps = []"
  by (simp add: exit_ptr_def)

fun dseg :: "'a lheap \<Rightarrow> ptr \<Rightarrow> nat list \<Rightarrow> 'a list \<Rightarrow> ptr \<Rightarrow> bool" where
  "dseg h p [] [] q \<longleftrightarrow> True"
| "dseg h p (a # as) (x # xs) q \<longleftrightarrow>
     h a = Some \<lparr>m_element = x, m_previous = p, m_next = entry as q\<rparr> \<and> dseg h (Some a) as xs q"
| "dseg h p _ _ q \<longleftrightarrow> False"

lemma dseg_length: "dseg h p as xs q \<Longrightarrow> length as = length xs"
  by (induction h p as xs q rule: dseg.induct) auto

lemma dseg_append:
  assumes "length as = length xs"
  shows "dseg h p (as @ bs) (xs @ ys) q \<longleftrightarrow>
    dseg h p as xs (entry bs q) \<and> dseg h (exit_ptr p as) bs ys q"
  using assms by (induction as xs arbitrary: p rule: list_induct2) auto

lemma dseg_frame:
  assumes "\<And>a. a \<in> set as \<Longrightarrow> h' a = h a"
  shows "dseg h' p as xs q = dseg h p as xs q"
  using assms by (induction h p as xs q rule: dseg.induct) auto

lemma dseg_upd_other [simp]:
  "a \<notin> set as \<Longrightarrow> dseg (h(a := v)) p as xs q = dseg h p as xs q"
  by (rule dseg_frame) auto

lemma dseg_dom: "dseg h p as xs q \<Longrightarrow> a \<in> set as \<Longrightarrow> h a \<noteq> None"
  by (induction h p as xs q rule: dseg.induct) auto

lemma dseg_snoc_exit:
  "length as = length xs \<Longrightarrow> dseg h p (as @ [a]) (xs @ [x]) q \<longleftrightarrow>
   dseg h p as xs (Some a) \<and> h a = Some \<lparr>m_element = x, m_previous = exit_ptr p as, m_next = q\<rparr>"
  by (simp add: dseg_append)

definition dll :: "'a lheap \<Rightarrow> llist \<Rightarrow> nat list \<Rightarrow> 'a list \<Rightarrow> bool" where
  "dll h l ps xs \<longleftrightarrow> distinct ps \<and> dseg h None ps xs None \<and>
     m_first l = entry ps None \<and> m_last l = exit_ptr None ps \<and> m_size l = of_nat (length xs)"

lemma dll_empty [simp]: "dll h empty_list [] []"
  by (simp add: dll_def empty_list_def)

lemma dllD:
  assumes "dll h l ps xs"
  shows "distinct ps" "dseg h None ps xs None" "length ps = length xs"
    "m_first l = entry ps None" "m_last l = exit_ptr None ps" "m_size l = of_nat (length xs)"
  using assms dseg_length by (auto simp: dll_def)

lemma list_empty_iff: "dll h l ps xs \<Longrightarrow> list_empty l \<longleftrightarrow> xs = []"
  using dllD [of h l ps xs] by (auto simp: list_empty_def)

section \<open>Every operation implements its list operation\<close>

text \<open>\<open>outside A h h'\<close>: \<open>h'\<close> differs from \<open>h\<close> at most at the addresses \<open>A\<close>.\<close>

definition outside :: "nat set \<Rightarrow> 'a lheap \<Rightarrow> 'a lheap \<Rightarrow> bool" where
  "outside A h h' \<longleftrightarrow> (\<forall>a. a \<notin> A \<longrightarrow> h' a = h a)"

lemma outside_simps [simp]: "outside A h h" "a \<in> A \<Longrightarrow> outside A h (h'(a := v)) = outside A h h'"
  by (auto simp: outside_def)

lemma dseg_exit_upd:
  assumes "dseg h p ps xs q" and "distinct ps" and "ps \<noteq> []" and "List.last ps = b"
    and "h b = Some n"
  shows "dseg (h(b \<mapsto> n\<lparr>m_next := q'\<rparr>)) p ps xs q'"
proof -
  obtain as where as: "ps = as @ [b]" using assms(3,4) by (metis append_butlast_last_id)
  obtain ys y where ys: "xs = ys @ [y]" "length as = length ys"
    using dseg_length [OF assms(1)] assms(3) as by (cases xs rule: rev_cases) auto
  show ?thesis using assms(1,2,5) unfolding as ys(1) by (simp add: dseg_snoc_exit ys(2))
qed

lemma dseg_entry_upd:
  assumes "dseg h p (b # bs) xs q" and "distinct (b # bs)" and "h b = Some n"
  shows "dseg (h(b \<mapsto> n\<lparr>m_previous := p'\<rparr>)) p' (b # bs) xs q"
  using assms by (cases xs) auto

lemma add_back_refines:
  assumes "dll h l ps xs" and "a \<notin> set ps"
  shows "\<exists>h' l'. add_back h l a x = Some (h', l') \<and> dll h' l' (ps @ [a]) (xs @ [x]) \<and>
    outside (insert a (set ps)) h h'"
proof (cases "ps = []")
  case True
  then show ?thesis
    using assms dllD [OF assms(1)]
    by (auto simp: add_back_def add0_def new_node_def dll_def)
next
  case False
  define b where "b = List.last ps"
  have b: "b \<in> set ps" using False by (simp add: b_def)
  note d = dllD [OF assms(1)]
  obtain n where n: "h b = Some n" using dseg_dom [OF d(2) b] by blast
  have ab: "a \<noteq> b" using assms(2) b by blast
  have ml: "m_last l = Some b" using d(5) False by (simp add: exit_ptr_def b_def)
  let ?h = "h(a \<mapsto> \<lparr>m_element = x, m_previous = Some b, m_next = None\<rparr>)"
  have run: "add_back h l a x =
      Some (?h(b \<mapsto> n\<lparr>m_next := Some a\<rparr>), l\<lparr>m_last := Some a, m_size := m_size l + 1\<rparr>)"
    using n ab ml d(4) False by (simp add: add_back_def add0_def new_node_def)
  have "dseg (h(b \<mapsto> n\<lparr>m_next := Some a\<rparr>)) None ps xs (Some a)"
    by (rule dseg_exit_upd [OF d(2,1) False _ n]) (simp add: b_def)
  then have "dseg (?h(b \<mapsto> n\<lparr>m_next := Some a\<rparr>)) None (ps @ [a]) (xs @ [x]) None"
    using assms(2) ab d(3) False
    by (simp add: dseg_snoc_exit fun_upd_twist exit_ptr_def b_def)
  then show ?thesis
    unfolding run using d assms(2) b
    by (auto simp: dll_def entry_def split: list.splits)
qed

lemma add_front_refines:
  assumes "dll h l ps xs" and "a \<notin> set ps"
  shows "\<exists>h' l'. add_front h l a x = Some (h', l') \<and> dll h' l' (a # ps) (x # xs) \<and>
    outside (insert a (set ps)) h h'"
proof (cases ps)
  case Nil
  then show ?thesis
    using assms dllD [OF assms(1)]
    by (auto simp: add_front_def add0_def new_node_def dll_def)
next
  case (Cons b bs)
  note d = dllD [OF assms(1)]
  obtain n where n: "h b = Some n" using dseg_dom [OF d(2), of b] Cons by auto
  have ab: "a \<noteq> b" using assms(2) Cons by auto
  let ?h = "h(a \<mapsto> \<lparr>m_element = x, m_previous = None, m_next = Some b\<rparr>)"
  have run: "add_front h l a x =
      Some (?h(b \<mapsto> n\<lparr>m_previous := Some a\<rparr>), l\<lparr>m_first := Some a, m_size := m_size l + 1\<rparr>)"
    using n ab d(4) Cons by (simp add: add_front_def add0_def new_node_def)
  have "dseg (h(b \<mapsto> n\<lparr>m_previous := Some a\<rparr>)) (Some a) ps xs None"
    using dseg_entry_upd [of h None b bs xs None n] d(1,2) n Cons by simp
  then have "dseg (?h(b \<mapsto> n\<lparr>m_previous := Some a\<rparr>)) None (a # ps) (x # xs) None"
    using assms(2) ab Cons by (simp add: fun_upd_twist)
  then show ?thesis
    unfolding run using d assms(2) Cons by (auto simp: dll_def)
qed


text \<open>The two writes of \<open>remove0\<close>: the predecessor is linked past the node, the successor back past it.\<close>

definition unlink :: "'a lheap \<Rightarrow> nat list \<Rightarrow> nat \<Rightarrow> nat list \<Rightarrow> 'a lheap" where
  "unlink h as a bs =
     (let q = entry bs None; p = exit_ptr None as;
          h1 = (case p of None \<Rightarrow> h | Some b \<Rightarrow> h(b \<mapsto> (the (h b))\<lparr>m_next := q\<rparr>));
          h2 = (case q of None \<Rightarrow> h1 | Some c \<Rightarrow> h1(c \<mapsto> (the (h1 c))\<lparr>m_previous := p\<rparr>))
      in h2(a := None))"

lemma unlink_dseg:
  assumes "dseg h None (as @ a # bs) (xs @ x # ys) None" and "distinct (as @ a # bs)"
    and "length as = length xs"
  shows "dseg (unlink h as a bs) None (as @ bs) (xs @ ys) None"
proof -
  have seg: "dseg h None as xs (Some a)" "dseg h (Some a) bs ys None"
    using assms(1) by (simp_all add: dseg_append assms(3))
  define q where "q = entry bs None"
  define p where "p = exit_ptr None as"
  define h1 where "h1 = (case p of None \<Rightarrow> h | Some b \<Rightarrow> h(b \<mapsto> (the (h b))\<lparr>m_next := q\<rparr>))"
  define h2 where "h2 = (case q of None \<Rightarrow> h1 | Some c \<Rightarrow> h1(c \<mapsto> (the (h1 c))\<lparr>m_previous := p\<rparr>))"
  have p_in: "b \<in> set as" if "p = Some b" for b
    using that by (auto simp: p_def exit_ptr_def split: if_splits)
  have q_in: "c \<in> set bs" if "q = Some c" for c
    using that by (auto simp: q_def entry_def split: list.splits)
  have s1: "dseg h1 None as xs q"
  proof (cases "as = []")
    case True
    then show ?thesis using seg(1) by (cases xs) auto
  next
    case False
    then have pb: "p = Some (List.last as)" by (simp add: p_def exit_ptr_def)
    obtain n where n: "h (List.last as) = Some n"
      using dseg_dom [OF seg(1), of "List.last as"] False by auto
    have "dseg (h(List.last as \<mapsto> n\<lparr>m_next := q\<rparr>)) None as xs q"
      using assms(2) by (intro dseg_exit_upd [OF seg(1) _ False refl n]) simp
    then show ?thesis by (simp add: h1_def pb n)
  qed
  have t1: "dseg h1 (Some a) bs ys None"
    using seg(2) assms(2) p_in by (subst dseg_frame [of bs h1 h]) (auto simp: h1_def split: option.splits)
  have t2: "dseg h2 p bs ys None"
  proof (cases bs)
    case Nil
    then show ?thesis using t1 by (cases ys) auto
  next
    case (Cons c cs)
    obtain n where n: "h1 c = Some n" using dseg_dom [OF t1, of c] Cons by auto
    show ?thesis
      using dseg_entry_upd [of h1 "Some a" c cs ys None n p] t1 n assms(2) Cons
      by (simp add: h2_def q_def)
  qed
  have s2: "dseg h2 None as xs q"
    using s1 assms(2) q_in by (subst dseg_frame [of as h2 h1]) (auto simp: h2_def split: option.splits)
  have "dseg (h2(a := None)) None (as @ bs) (xs @ ys) None"
    using s2 t2 assms(2) by (simp add: dseg_append assms(3) q_def p_def)
  then show ?thesis by (simp only: unlink_def Let_def h2_def h1_def q_def p_def)
qed

lemma remove0_refines:
  assumes "dll h l (as @ a # bs) (xs @ x # ys)" and "length as = length xs"
  shows "\<exists>h' l'. remove0 h l (Some a) = Some (h', l', Some x) \<and> dll h' l' (as @ bs) (xs @ ys) \<and>
    h' a = None \<and> outside (set (as @ a # bs)) h h'"
proof -
  note d = dllD [OF assms(1)]
  have na: "h a = Some \<lparr>m_element = x, m_previous = exit_ptr None as, m_next = entry bs None\<rparr>"
    using d(2) by (simp add: dseg_append assms(2))
  have pdom: "\<exists>n. h b = Some n" if "b \<in> set (as @ bs)" for b
    using dseg_dom [OF d(2), of b] that by auto
  have plast: "exit_ptr None as = Some b \<Longrightarrow> b \<in> set as" for b
    by (auto simp: exit_ptr_def split: if_splits)
  have pfirst: "entry bs None = Some c \<Longrightarrow> c \<in> set bs" for c
    by (auto simp: entry_def split: list.splits)
  define l1 where "l1 = (if as = [] then l\<lparr>m_first := entry bs None\<rparr> else l)"
  define l2 where "l2 = (if bs = [] then l1\<lparr>m_last := exit_ptr None as\<rparr> else l1)"
  have run: "remove0 h l (Some a) = Some (unlink h as a bs, l2\<lparr>m_size := m_size l - 1\<rparr>, Some x)"
  proof (cases "exit_ptr None as")
    case None
    then have as: "as = []" by simp
    show ?thesis
    proof (cases "entry bs None")
      case None
      then have "bs = []" by simp
      then show ?thesis using na as
        by (simp add: remove0_def unlink_def l1_def l2_def)
    next
      case (Some c)
      then obtain n where "h c = Some n" "c \<noteq> a" "bs \<noteq> []"
        using pdom [of c] pfirst [of c] d(1) by fastforce
      then show ?thesis using na as Some
        by (simp add: remove0_def unlink_def l1_def l2_def)
    qed
  next
    case (Some b)
    then obtain n where b: "h b = Some n" "b \<noteq> a" "as \<noteq> []"
      using pdom [of b] plast [of b] d(1) by fastforce
    show ?thesis
    proof (cases "entry bs None")
      case None
      then have "bs = []" by simp
      then show ?thesis using na b Some
        by (simp add: remove0_def unlink_def l1_def l2_def)
    next
      case (Some c)
      then obtain m where "h c = Some m" "c \<noteq> a" "bs \<noteq> []" "c \<noteq> b"
        using pdom [of c] pfirst [of c] plast [OF \<open>exit_ptr None as = Some b\<close>] d(1)
        by (fastforce simp: disjoint_iff)
      then show ?thesis using na b Some \<open>exit_ptr None as = Some b\<close>
        by (simp add: remove0_def unlink_def l1_def l2_def)
    qed
  qed
  have seg: "dseg (unlink h as a bs) None (as @ bs) (xs @ ys) None"
    by (rule unlink_dseg [OF d(2,1) assms(2)])
  have ends: "m_first l2 = entry (as @ bs) None" "m_last l2 = exit_ptr None (as @ bs)"
    using d(4,5) by (auto simp: l1_def l2_def exit_ptr_def entry_def split: list.splits)
  have sz: "m_size l - 1 = of_nat (length (xs @ ys))" using d(6) by simp
  have out: "outside (set (as @ a # bs)) h (unlink h as a bs)" "unlink h as a bs a = None"
    using plast pfirst by (auto simp: unlink_def Let_def outside_def split: option.splits)
  show ?thesis
    unfolding run using seg ends sz out d(1) by (auto simp: dll_def)
qed

lemma remove0_null [simp]: "remove0 h l None = Some (h, l, None)"
  by (simp add: remove0_def)

lemma remove_front_refines:
  assumes "dll h l (a # ps) (x # xs)"
  shows "\<exists>h' l'. remove_front h l = Some (h', l', Some x) \<and> dll h' l' ps xs \<and> h' a = None \<and>
    outside (set (a # ps)) h h'"
  using remove0_refines [of h l "[]" a ps "[]" x xs] assms dllD(4) [OF assms]
  by (simp add: remove_front_def)

lemma remove_front_empty:
  assumes "dll h l [] []"
  shows "remove_front h l = Some (h, l, None)"
  using dllD(4) [OF assms] by (simp add: remove_front_def)

lemma remove_back_refines:
  assumes "dll h l (ps @ [a]) (xs @ [x])"
  shows "\<exists>h' l'. remove_back h l = Some (h', l', Some x) \<and> dll h' l' ps xs \<and> h' a = None \<and>
    outside (set (ps @ [a])) h h'"
  using remove0_refines [of h l ps a "[]" xs x "[]"] assms dllD(5) [OF assms] dllD(3) [OF assms]
  by (simp add: remove_back_def)

lemma find_node_dseg:
  assumes "dseg h p ps xs None"
  shows "find_node h (entry ps None) x =
    Some (if x \<in> set xs then Some (ps ! length (takeWhile (\<lambda>y. y \<noteq> x) xs)) else None)"
  using assms
proof (induction ps arbitrary: p xs)
  case Nil
  then show ?case by (cases xs) (auto simp: find_node.simps)
next
  case (Cons a ps)
  then obtain y ys where xs: "xs = y # ys" by (cases xs) auto
  show ?case using Cons.prems Cons.IH [of "Some a" ys] unfolding xs
    by (subst find_node.simps) auto
qed

lemma split_at_first:
  assumes "x \<in> set xs" and "length ps = length xs"
  obtains as a bs ys zs where "ps = as @ a # bs" "xs = ys @ x # zs" "length as = length ys"
    "x \<notin> set ys" "a = ps ! length (takeWhile (\<lambda>y. y \<noteq> x) xs)" "remove1 x xs = ys @ zs"
proof -
  obtain ys zs where xs: "xs = ys @ x # zs" "x \<notin> set ys" using split_list_first [OF assms(1)] by blast
  have "takeWhile (\<lambda>y. y \<noteq> x) (ys @ x # zs) = ys" using xs(2) by (induction ys) auto
  then have tw: "length (takeWhile (\<lambda>y. y \<noteq> x) xs) = length ys" by (simp add: xs(1))
  have len: "length ys < length ps" using assms(2) xs by simp
  show ?thesis
    by (rule that [of "take (length ys) ps" "ps ! length ys" "drop (Suc (length ys)) ps" ys zs])
       (use len xs tw in \<open>simp_all add: id_take_nth_drop remove1_append\<close>)
qed

lemma remove_element_refines:
  assumes "dll h l ps xs"
  shows "\<exists>h' l' qs. remove_element h l x = Some (h', l', if x \<in> set xs then Some x else None) \<and>
    dll h' l' qs (remove1 x xs) \<and> set qs \<subseteq> set ps \<and> outside (set ps) h h'"
proof (cases "x \<in> set xs")
  case True
  note d = dllD [OF assms]
  obtain as a bs ys zs where s: "ps = as @ a # bs" "xs = ys @ x # zs" "length as = length ys"
    "a = ps ! length (takeWhile (\<lambda>y. y \<noteq> x) xs)" "remove1 x xs = ys @ zs"
    using split_at_first [OF True d(3)] by metis
  have f: "find_node h (m_first l) x = Some (Some a)"
    using find_node_dseg [OF d(2), of x] True d(4) s(4) by simp
  obtain h' l' where r: "remove0 h l (Some a) = Some (h', l', Some x)" "dll h' l' (as @ bs) (ys @ zs)"
    "outside (set ps) h h'"
    using remove0_refines [of h l as a bs ys x zs] assms s(1-3) by auto
  have "set (as @ bs) \<subseteq> set ps" using s(1) by auto
  with r f True s(5) show ?thesis by (auto simp: remove_element_def intro!: exI [of _ "as @ bs"])
next
  case False
  then show ?thesis
    using find_node_dseg [OF dllD(2) [OF assms], of x] dllD(4) [OF assms] assms
    by (auto simp: remove_element_def remove1_idem)
qed


section \<open>Search, access and the walks\<close>

lemma index_of0_loop_dseg:
  assumes "dseg h p ps xs None"
  shows "index_of0_loop h (entry ps None) x i =
    Some (if x \<in> set xs then i + int (length (takeWhile (\<lambda>y. y \<noteq> x) xs)) else - 1)"
  using assms
proof (induction ps arbitrary: p xs i)
  case Nil
  then show ?case by (cases xs) (auto simp: index_of0_loop.simps)
next
  case (Cons a ps)
  then obtain y ys where xs: "xs = y # ys" by (cases xs) auto
  show ?case using Cons.prems Cons.IH [of "Some a" ys "i + 1"] unfolding xs
    by (subst index_of0_loop.simps) auto
qed

lemma contains_refines:
  assumes "dll h l ps xs"
  shows "list_contains h l x = Some (x \<in> set xs)"
  using index_of0_loop_dseg [OF dllD(2) [OF assms], of x 0] dllD(4) [OF assms]
  by (simp add: list_contains_def index_of0_def)

lemma index_of_refines:
  assumes "dll h l ps xs"
  shows "index_of0 h l x = Some (if x \<in> set xs then int (length (takeWhile (\<lambda>y. y \<noteq> x) xs)) else - 1)"
  using index_of0_loop_dseg [OF dllD(2) [OF assms], of x 0] dllD(4) [OF assms]
  by (simp add: index_of0_def)

lemma walk_dseg:
  assumes "dseg h p ps xs None" and "k \<le> length ps"
  shows "walk h (entry ps None) k = Some (entry (drop k ps) None)"
  using assms
proof (induction ps arbitrary: p xs k)
  case Nil
  then show ?case by simp
next
  case (Cons a ps)
  then obtain y ys where xs: "xs = y # ys" by (cases xs) auto
  show ?case using Cons.prems Cons.IH [of "Some a" ys "k - 1"] unfolding xs by (cases k) auto
qed

lemma dseg_nth:
  assumes "dseg h p ps xs q" and "k < length ps"
  shows "\<exists>n. h (ps ! k) = Some n \<and> m_element n = xs ! k"
  using assms
proof (induction ps arbitrary: p xs k)
  case Nil
  then show ?case by simp
next
  case (Cons a ps)
  then obtain y ys where xs: "xs = y # ys" by (cases xs) auto
  show ?case using Cons.prems Cons.IH [of "Some a" ys "k - 1"] unfolding xs by (cases k) auto
qed

lemma list_at_refines:
  assumes "dll h l ps xs" and "length xs < 2 ^ 64"
  shows "list_at h l k = (if k < length xs then Some (xs ! k) else None)"
proof -
  note d = dllD [OF assms(1)]
  have sz: "unat (m_size l) = length xs" using d(6) assms(2) by (simp add: unat_of_nat_u64)
  show ?thesis
    using walk_dseg [OF d(2), of k] dseg_nth [OF d(2), of k] d(3,4) sz
    by (auto simp: list_at_def entry_def Cons_nth_drop_Suc [symmetric])
qed

lemma remove_at_refines:
  assumes "dll h l ps xs" and "length xs < 2 ^ 64" and "0 < k" and "k < length xs"
  shows "\<exists>h' l'. remove_at h l k = Some (h', l', Some (xs ! k)) \<and>
    dll h' l' (take k ps @ drop (Suc k) ps) (take k xs @ drop (Suc k) xs)"
proof -
  note d = dllD [OF assms(1)]
  have sz: "unat (m_size l) = length xs" using d(6) assms(2) by (simp add: unat_of_nat_u64)
  have w: "walk h (m_first l) k = Some (Some (ps ! k))"
    using walk_dseg [OF d(2), of k] d(3,4) assms(4) by (simp add: entry_def Cons_nth_drop_Suc [symmetric])
  have "dll h l (take k ps @ ps ! k # drop (Suc k) ps) (take k xs @ xs ! k # drop (Suc k) xs)"
    using assms(1,4) d(3) by (simp add: id_take_nth_drop [symmetric])
  from remove0_refines [OF this] d(3) obtain h' l' where
    "remove0 h l (Some (ps ! k)) = Some (h', l', Some (xs ! k))"
    "dll h' l' (take k ps @ drop (Suc k) ps) (take k xs @ drop (Suc k) xs)" by auto
  then show ?thesis using w sz assms(3,4) by (auto simp: remove_at_def)
qed

section \<open>Freeing and copying\<close>

lemma free_nodes_loop_dseg:
  assumes "dseg h p ps xs None" and "distinct ps"
  shows "free_nodes_loop h (entry ps None) = Some (h |` (- set ps))"
  using assms
proof (induction ps arbitrary: h p xs)
  case Nil
  then show ?case by (simp add: free_nodes_loop.simps)
next
  case (Cons a ps)
  then obtain y ys where xs: "xs = y # ys" by (cases xs) auto
  have "(h(a := None)) |` (- set ps) = h |` (- set (a # ps))"
    by (auto simp: restrict_map_def fun_eq_iff)
  moreover have "free_nodes_loop (h(a := None)) (entry ps None) = Some ((h(a := None)) |` (- set ps))"
  proof (rule Cons.IH [of _ "Some a" ys])
    have "a \<notin> set ps" "dseg h (Some a) ps ys None" using Cons.prems xs by simp_all
    then show "dseg (h(a := None)) (Some a) ps ys None" using dseg_frame [of ps "h(a := None)" h "Some a" ys None] by auto
  qed (use Cons.prems in simp)
  ultimately show ?case using Cons.prems unfolding xs
    by (subst free_nodes_loop.simps) (simp del: restrict_fun_upd)
qed

lemma clear_refines:
  assumes "dll h l ps xs"
  shows "clear h l = Some (h |` (- set ps), empty_list)"
  using free_nodes_loop_dseg [OF dllD(2,1) [OF assms]] dllD(4) [OF assms]
  by (simp add: clear_def free_nodes_def empty_list_def)

lemma copy_loop_dseg:
  assumes "dseg h None (ps1 @ ps2) (xs1 @ xs2) None" and "length ps1 = length xs1"
    and "dseg h None as1 xs1 None" and "length as2 = length ps2"
    and "distinct (ps1 @ ps2 @ as1 @ as2)"
    and "m_first src = entry (ps1 @ ps2) None" and "m_last src = exit_ptr None (ps1 @ ps2)"
  shows "\<exists>h'. copy_loop h src (entry ps2 None) (exit_ptr None as1) as2 l =
      Some (h', l\<lparr>m_first := if ps1 = [] \<and> ps2 \<noteq> [] then entry as2 None else m_first l,
                 m_last := if ps2 \<noteq> [] then exit_ptr None as2 else m_last l\<rparr>) \<and>
      dseg h' None (as1 @ as2) (xs1 @ xs2) None \<and> outside (set (as1 @ as2)) h h'"
  using assms
proof (induction ps2 arbitrary: h ps1 xs1 xs2 as1 as2 l)
  case Nil
  then have "xs2 = []" using dseg_length by fastforce
  with Nil show ?case by (cases l) auto
next
  case (Cons o_curr ps2)
  obtain x xs2' where xs2: "xs2 = x # xs2'"
    using Cons.prems(1,2) dseg_length by (cases xs2) force+
  obtain t as2' where as2: "as2 = t # as2'" using Cons.prems(4) by (cases as2) auto
  have len1: "length as1 = length xs1" using Cons.prems(3) dseg_length by blast
  have no: "h o_curr = Some \<lparr>m_element = x, m_previous = exit_ptr None ps1, m_next = entry ps2 None\<rparr>"
    using Cons.prems(1,2) by (simp add: dseg_append xs2)
  have fresh: "t \<notin> set (ps1 @ o_curr # ps2)" "t \<notin> set as1" "o_curr \<notin> set as1"
    using Cons.prems(5) as2 by auto
  define h1 where "h1 = h(t \<mapsto> \<lparr>m_element = x, m_previous = exit_ptr None as1, m_next = None\<rparr>)"
  define h2 where "h2 = (case exit_ptr None as1 of None \<Rightarrow> h1
      | Some b \<Rightarrow> h1(b \<mapsto> (the (h1 b))\<lparr>m_next := Some t\<rparr>))"
  have eb: "\<exists>n. h1 b = Some n \<and> h b = Some n \<and> b \<noteq> t \<and> b \<in> set as1"
    if "exit_ptr None as1 = Some b" for b
  proof -
    have b: "b \<in> set as1" using that by (auto simp: exit_ptr_def split: if_splits)
    with dseg_dom [OF Cons.prems(3) b] fresh(2) show ?thesis by (auto simp: h1_def)
  qed
  have nil1: "as1 = [] \<longleftrightarrow> ps1 = []" using len1 Cons.prems(2) by auto
  define l1 where "l1 = l\<lparr>m_first := if Some o_curr = m_first src then Some t else m_first l,
                          m_last := if Some o_curr = m_last src then Some t else m_last l\<rparr>"
  have first: "Some o_curr = m_first src \<longleftrightarrow> ps1 = []"
    using Cons.prems(5,6) by (cases ps1) auto
  have last: "Some o_curr = m_last src \<longleftrightarrow> ps2 = []"
    using Cons.prems(5,7) by (auto simp: exit_ptr_def)
  have o2: "h2 o_curr = h o_curr"
    using fresh eb by (auto simp: h2_def h1_def split: option.splits)
  have step: "copy_loop h src (Some o_curr) (exit_ptr None as1) as2 l =
      copy_loop h2 src (entry ps2 None) (Some t) as2' l1"
  proof (cases "ps1 = []")
    case True
    then have "as1 = []" using nil1 by simp
    then show ?thesis
      using no o2 True fresh
      by (simp add: as2 new_node_def h2_def h1_def l1_def Let_def)
  next
    case False
    then obtain b where b: "exit_ptr None as1 = Some b" using nil1 by (cases "exit_ptr None as1") auto
    obtain n where n: "h b = Some n" "b \<noteq> t" using eb [OF b] by auto
    have ob: "o_curr \<noteq> b" using eb [OF b] fresh(3) by auto
    have pp: "exit_ptr None ps1 \<noteq> None" using False by simp
    show ?thesis
      using no o2 fresh n ob pp b
      by (simp add: as2 new_node_def h2_def h1_def l1_def Let_def)
  qed
  have seg2: "dseg h2 None (as1 @ [t]) (xs1 @ [x]) None"
  proof (cases "as1 = []")
    case True
    then show ?thesis using len1 by (simp add: h2_def h1_def)
  next
    case False
    then have b: "exit_ptr None as1 = Some (List.last as1)" by (simp add: exit_ptr_def)
    obtain n where n: "h (List.last as1) = Some n" "List.last as1 \<noteq> t" using eb [OF b] by auto
    have d1: "distinct as1" using Cons.prems(5) by simp
    have "dseg (h(List.last as1 \<mapsto> n\<lparr>m_next := Some t\<rparr>)) None as1 xs1 (Some t)"
      by (rule dseg_exit_upd [OF Cons.prems(3) d1 False refl n(1)])
    then show ?thesis
      using n fresh(2) b len1 by (simp add: h2_def h1_def dseg_append fun_upd_twist)
  qed
  have src2: "dseg h2 None ((ps1 @ [o_curr]) @ ps2) ((xs1 @ [x]) @ xs2') None"
  proof -
    have "h2 a = h a" if "a \<in> set (ps1 @ o_curr # ps2)" for a
      using that fresh(1) eb Cons.prems(5) by (force simp: h2_def h1_def split: option.splits)
    then have "dseg h2 None (ps1 @ o_curr # ps2) (xs1 @ xs2) None"
      using dseg_frame [of "ps1 @ o_curr # ps2" h2 h] Cons.prems(1) by blast
    then show ?thesis by (simp add: xs2)
  qed
  have out2: "outside (set (as1 @ as2)) h h2"
    using eb by (auto simp: h2_def h1_def as2 outside_def split: option.splits)
  obtain h' where h': "copy_loop h2 src (entry ps2 None) (exit_ptr None (as1 @ [t])) as2' l1 =
      Some (h', l1\<lparr>m_first := m_first l1,
                 m_last := if ps2 \<noteq> [] then exit_ptr None as2' else m_last l1\<rparr>)"
      "dseg h' None ((as1 @ [t]) @ as2') ((xs1 @ [x]) @ xs2') None"
      "outside (set ((as1 @ [t]) @ as2')) h2 h'"
    using Cons.IH [OF src2 _ seg2, of as2' l1] Cons.prems(2,4,5,6,7) as2 by auto
  have "outside (set (as1 @ as2)) h h'" using out2 h'(3) by (auto simp: outside_def as2)
  moreover have "l1\<lparr>m_first := m_first l1, m_last := if ps2 \<noteq> [] then exit_ptr None as2' else m_last l1\<rparr> =
      l\<lparr>m_first := if ps1 = [] then entry as2 None else m_first l, m_last := exit_ptr None as2\<rparr>"
    using Cons.prems(4) by (auto simp: l1_def first last as2 exit_ptr_def)
  ultimately show ?case using step h' by (auto simp: as2 xs2)
qed

lemma copy_refines:
  assumes "dll h src ps xs" and "length as = length xs" and "distinct (ps @ as)"
    and "length xs < 2 ^ 64"
  shows "\<exists>h' l'. copy h src as l = Some (h', l') \<and> dll h' l' as xs \<and> dll h' src ps xs \<and>
    outside (set as) h h'"
proof -
  note d = dllD [OF assms(1)]
  show ?thesis
  proof (cases "xs = []")
    case True
    then show ?thesis using d assms(1,2) by (auto simp: copy_def dll_def)
  next
    case False
    have sz: "m_size src \<noteq> 0"
      using unat_of_nat_u64 [OF assms(4)] False d(6) by auto
    obtain h' where h': "copy_loop h src (entry ps None) None as l =
        Some (h', l\<lparr>m_first := entry as None, m_last := exit_ptr None as\<rparr>)"
        "dseg h' None as xs None" "outside (set as) h h'"
      using copy_loop_dseg [of h "[]" ps "[]" xs "[]" as src l] d assms(2,3) False
      by (cases ps) auto
    have "dseg h' None ps xs None"
      using dseg_frame [of ps h' h None xs None] d(2) h'(3) assms(3) by (auto simp: outside_def)
    with h' d assms(3) sz show ?thesis by (auto simp: copy_def dll_def)
  qed
qed


section \<open>The queue interface\<close>

text \<open>
  What the schedulers rely on: elements leave a list in the order in which \<open>add_back\<close> put them in.
  \<open>rel s xs\<close> says that \<open>s\<close> holds \<open>xs\<close>, \<open>fresh s a\<close> that the address \<open>a\<close> may be allocated.
\<close>

locale fifo_queue =
  fixes rel :: "'s \<Rightarrow> 'a list \<Rightarrow> bool"
    and fresh :: "'s \<Rightarrow> nat \<Rightarrow> bool"
    and enq :: "'s \<Rightarrow> nat \<Rightarrow> 'a \<Rightarrow> 's option"
    and deq :: "'s \<Rightarrow> ('s \<times> 'a option) option"
  assumes enq_rel: "rel s xs \<Longrightarrow> fresh s a \<Longrightarrow> \<exists>s'. enq s a x = Some s' \<and> rel s' (xs @ [x]) \<and>
      (\<forall>b. b \<noteq> a \<longrightarrow> fresh s b \<longrightarrow> fresh s' b)"
    and deq_rel: "rel s (x # xs) \<Longrightarrow> \<exists>s'. deq s = Some (s', Some x) \<and> rel s' xs"
    and deq_empty: "rel s [] \<Longrightarrow> deq s = Some (s, None)"
begin

fun enq_all :: "'s \<Rightarrow> nat list \<Rightarrow> 'a list \<Rightarrow> 's option" where
  "enq_all s as [] = Some s"
| "enq_all s [] (x # xs) = None"
| "enq_all s (a # as) (x # xs) = do { s \<leftarrow> enq s a x; enq_all s as xs }"

fun deq_all :: "'s \<Rightarrow> nat \<Rightarrow> ('s \<times> 'a option list) option" where
  "deq_all s 0 = Some (s, [])"
| "deq_all s (Suc n) = do { (s, x) \<leftarrow> deq s; (s, xs) \<leftarrow> deq_all s n; Some (s, x # xs) }"

lemma enq_all_rel:
  assumes "rel s xs" and "length as = length ys" and "distinct as" and "\<forall>a\<in>set as. fresh s a"
  shows "\<exists>s'. enq_all s as ys = Some s' \<and> rel s' (xs @ ys)"
  using assms
proof (induction as ys arbitrary: s xs rule: list_induct2')
  case (4 a as y ys)
  obtain s' where s': "enq s a y = Some s'" "rel s' (xs @ [y])" "\<forall>b. b \<noteq> a \<longrightarrow> fresh s b \<longrightarrow> fresh s' b"
    using enq_rel [OF 4(2), of a y] 4(5) by auto
  have "\<exists>s''. enq_all s' as ys = Some s'' \<and> rel s'' ((xs @ [y]) @ ys)"
    by (rule 4(1) [OF s'(2)]) (use 4(3-5) s'(3) in auto)
  with s' show ?case by auto
qed simp_all

lemma deq_all_rel:
  assumes "rel s (xs @ ys)"
  shows "\<exists>s'. deq_all s (length xs) = Some (s', map Some xs) \<and> rel s' ys"
  using assms
proof (induction xs arbitrary: s)
  case (Cons x xs)
  obtain s' where "deq s = Some (s', Some x)" "rel s' (xs @ ys)"
    using deq_rel Cons.prems by fastforce
  with Cons.IH [of s'] show ?case by auto
qed simp

lemma deq_all_empty: "rel s [] \<Longrightarrow> deq_all s n = Some (s, replicate n None)"
  by (induction n) (simp_all add: deq_empty)

lemma fifo:
  assumes "rel s xs" and "length as = length ys" and "distinct as" and "\<forall>a\<in>set as. fresh s a"
  shows "\<exists>s1 s2. enq_all s as ys = Some s1 \<and> rel s2 [] \<and>
    deq_all s1 (length xs + length ys) = Some (s2, map Some (xs @ ys))"
  using enq_all_rel [OF assms] deq_all_rel [of _ "xs @ ys" "[]"] by fastforce

end

text \<open>The list as that queue: \<open>add_back\<close> enqueues, \<open>remove_front\<close> dequeues.\<close>

definition ll_rel :: "'a lheap \<times> llist \<Rightarrow> 'a list \<Rightarrow> bool" where
  "ll_rel s xs \<longleftrightarrow> (\<exists>ps. dll (fst s) (snd s) ps xs)"

definition ll_enq :: "'a lheap \<times> llist \<Rightarrow> nat \<Rightarrow> 'a \<Rightarrow> ('a lheap \<times> llist) option" where
  "ll_enq s a x = add_back (fst s) (snd s) a x"

definition ll_deq :: "'a lheap \<times> llist \<Rightarrow> (('a lheap \<times> llist) \<times> 'a option) option" where
  "ll_deq s = do { (h, l, x) \<leftarrow> remove_front (fst s) (snd s); Some ((h, l), x) }"

definition ll_fresh :: "'a lheap \<times> llist \<Rightarrow> nat \<Rightarrow> bool" where
  "ll_fresh s a \<longleftrightarrow> fst s a = None"

interpretation llq: fifo_queue ll_rel ll_fresh ll_enq ll_deq
proof
  fix s :: "'a lheap \<times> llist" and xs a x
  assume "ll_rel s xs" and fr: "ll_fresh s a"
  then obtain ps where d: "dll (fst s) (snd s) ps xs" by (auto simp: ll_rel_def)
  have dom: "\<And>b. b \<in> set ps \<Longrightarrow> fst s b \<noteq> None" using dseg_dom dllD(2) [OF d] by blast
  then have "a \<notin> set ps" using fr unfolding ll_fresh_def by blast
  from add_back_refines [OF d this] show "\<exists>s'. ll_enq s a x = Some s' \<and> ll_rel s' (xs @ [x]) \<and>
      (\<forall>b. b \<noteq> a \<longrightarrow> ll_fresh s b \<longrightarrow> ll_fresh s' b)"
    using dom by (fastforce simp: ll_enq_def ll_rel_def ll_fresh_def outside_def)
next
  fix s :: "'a lheap \<times> llist" and x xs
  assume "ll_rel s (x # xs)"
  then obtain ps where d: "dll (fst s) (snd s) ps (x # xs)" by (auto simp: ll_rel_def)
  then obtain a qs where "ps = a # qs" using dllD(3) [OF d] by (cases ps) auto
  then show "\<exists>s'. ll_deq s = Some (s', Some x) \<and> ll_rel s' xs"
    using remove_front_refines [of "fst s" "snd s" a qs x xs] d
    by (fastforce simp: ll_deq_def ll_rel_def)
next
  fix s :: "'a lheap \<times> llist"
  assume "ll_rel s []"
  then obtain ps where d: "dll (fst s) (snd s) ps []" by (auto simp: ll_rel_def)
  then show "ll_deq s = Some (s, None)"
    using remove_front_empty [of "fst s" "snd s"] dllD(3) [OF d] by (auto simp: ll_deq_def)
qed


text \<open>\<open>n\<close> calls of \<open>remove_front\<close>, as the dequeuing loops of the kernel make them.\<close>

fun drain :: "'a lheap \<Rightarrow> llist \<Rightarrow> nat \<Rightarrow> ('a lheap \<times> llist \<times> 'a option list) option" where
  "drain h l 0 = Some (h, l, [])"
| "drain h l (Suc n) = do {
     (h, l, x) \<leftarrow> remove_front h l;
     (h, l, xs) \<leftarrow> drain h l n;
     Some (h, l, x # xs) }"

lemma ll_enq_pair: "ll_enq (h, l) a x = add_back h l a x"
  by (simp add: ll_enq_def)

lemma ll_deq_pair: "ll_deq (h, l) = do { (h, l, x) \<leftarrow> remove_front h l; Some ((h, l), x) }"
  by (simp add: ll_deq_def)

lemma add_all_enq_all: "add_all h l as xs = llq.enq_all (h, l) as xs"
  by (induction h l as xs rule: add_all.induct)
     (auto simp: ll_enq_pair intro!: Option.bind_cong)

lemma drain_deq_all: "drain h l n = map_option (\<lambda>(s, xs). (fst s, snd s, xs)) (llq.deq_all (h, l) n)"
proof (induction n arbitrary: h l)
  case (Suc n)
  then show ?case
    by (auto simp: ll_deq_pair split: option.splits prod.splits bind_splits)
qed simp

lemma move_assign_wrong_size:
  assumes "dll h l ps xs" and "dll h other qs ys" and "xs \<noteq> []" and "length xs < 2 ^ 64"
    and "move_assign l other = (l', other')"
  shows "dll h l' qs ys \<and> m_first other' = entry ps None \<and> m_size other' = 0 \<and> \<not> dll h other' ps xs"
proof -
  have "unat (m_size l) \<noteq> 0" using unat_of_nat_u64 [OF assms(4)] dllD(6) [OF assms(1)] assms(3) by simp
  then show ?thesis using assms(1,2,5) by (auto simp: move_assign_def dll_def)
qed

lemma move_construct_correct:
  assumes "dll h other ps xs"
  shows "dll h (fst (move_construct other)) ps xs \<and> dll h (snd (move_construct other)) [] []"
  using assms by (auto simp: move_construct_def dll_def)

text \<open>Self-assignment leaves the list alone, any other copy assignment frees the old nodes first.\<close>

lemma copy_assign_refines:
  assumes "dll h l qs ys" and "dll h src ps xs" and "length as = length xs" and "distinct (ps @ as)"
    and "set qs \<inter> set (ps @ as) = {}" and "length xs < 2 ^ 64"
  shows "\<exists>h' l'. copy_assign h l src False as = Some (h', l') \<and> dll h' l' as xs \<and> dll h' src ps xs \<and>
    (\<forall>q\<in>set qs. h' q = None)"
proof -
  have f: "free_nodes h l = Some (h |` (- set qs))"
    using free_nodes_loop_dseg [OF dllD(2,1) [OF assms(1)]] dllD(4) [OF assms(1)]
    by (simp add: free_nodes_def)
  have "dseg (h |` (- set qs)) None ps xs None"
  proof -
    have "(h |` (- set qs)) a = h a" if "a \<in> set ps" for a
      using that assms(5) by (auto simp: restrict_map_def)
    from dseg_frame [of ps "h |` (- set qs)", OF this] dllD(2) [OF assms(2)] show ?thesis by blast
  qed
  then have "dll (h |` (- set qs)) src ps xs" using assms(2) by (simp add: dll_def)
  from copy_refines [OF this assms(3,4,6), of l] f assms(5) show ?thesis
    by (fastforce simp: copy_assign_def outside_def)
qed

section \<open>Properties\<close>

text \<open>
  First in, first out: \<open>add_all\<close> at free addresses succeeds on every well-formed list, and
  taking the front as often as there are elements returns the old and the new elements in the
  order in which they were added and leaves the list empty.
\<close>

theorem linked_list_fifo:
  assumes "dll h l ps xs" and "length as = length ys" and "distinct as" and "\<forall>a\<in>set as. h a = None"
  shows "\<exists>h1 l1 h2 l2. add_all h l as ys = Some (h1, l1) \<and>
    drain h1 l1 (length xs + length ys) = Some (h2, l2, map Some (xs @ ys)) \<and> list_empty l2"
proof -
  have "ll_rel (h, l) xs" using assms(1) by (auto simp: ll_rel_def)
  moreover have "\<forall>a\<in>set as. ll_fresh (h, l) a" using assms(4) by (simp add: ll_fresh_def)
  ultimately obtain s1 s2 where "llq.enq_all (h, l) as ys = Some s1" "ll_rel s2 []"
    "llq.deq_all s1 (length xs + length ys) = Some (s2, map Some (xs @ ys))"
    using llq.fifo [of "(h, l)" xs as ys] assms(2,3) by blast
  moreover from \<open>ll_rel s2 []\<close> have "list_empty (snd s2)"
    using list_empty_iff by (fastforce simp: ll_rel_def)
  ultimately show ?thesis by (cases s1; cases s2) (auto simp: add_all_enq_all drain_deq_all)
qed

theorem linked_list_fifo_witness:
  "\<exists>h1 l1 h2 l2. add_all Map.empty empty_list [7, 3] [10, 20 :: int] = Some (h1, l1) \<and>
    drain h1 l1 2 = Some (h2, l2, [Some 10, Some 20]) \<and> list_empty l2"
  using linked_list_fifo [OF dll_empty, of "[7, 3]" "[10, 20 :: int]" Map.empty] by (simp add: numeral_2_eq_2)

text \<open>
  C39. \<open>remove\<close> on a well-formed list returns the element when the list contains it and nothing
  otherwise, takes out its first occurrence only, relinks the neighbours so that the list stays
  well formed in both directions, and touches no node of another list.
\<close>

theorem remove_element_correct:
  assumes "dll h l ps xs"
  shows "\<exists>h' l' qs. remove_element h l x = Some (h', l', if x \<in> set xs then Some x else None) \<and>
    dll h' l' qs (remove1 x xs) \<and> set qs \<subseteq> set ps \<and> outside (set ps) h h' \<and>
    list_contains h' l' x = Some (x \<in> set (remove1 x xs))"
  using remove_element_refines [OF assms, of x] contains_refines by metis

definition two_nodes :: "nat \<Rightarrow> int lnode option" where
  "two_nodes = [1 \<mapsto> \<lparr>m_element = 10, m_previous = None, m_next = Some 2\<rparr>,
                2 \<mapsto> \<lparr>m_element = 20, m_previous = Some 1, m_next = None\<rparr>]"

definition two_list :: llist where
  "two_list = \<lparr>m_first = Some 1, m_last = Some 2, m_size = 2\<rparr>"

lemma dll_two: "dll two_nodes two_list [1, 2] [10, 20]"
  by (simp add: dll_def two_nodes_def two_list_def)

theorem remove_element_correct_witness:
  "\<exists>h' l' qs. remove_element two_nodes two_list 10 = Some (h', l', Some 10) \<and>
    dll h' l' qs [20] \<and> set qs \<subseteq> {1, 2} \<and> outside {1, 2} two_nodes h' \<and>
    list_contains h' l' 10 = Some False"
  using remove_element_correct [OF dll_two, of 10] by simp

text \<open>
  Copying a well-formed list at free addresses gives a well-formed list of the same elements
  on the new nodes only; the source and every other node of the heap stay as they were.
\<close>

theorem copy_correct:
  assumes "dll h src ps xs" and "length as = length xs" and "distinct (ps @ as)"
    and "length xs < 2 ^ 64"
  shows "\<exists>h' l'. copy h src as l = Some (h', l') \<and> dll h' l' as xs \<and> dll h' src ps xs \<and>
    outside (set as) h h'"
  using copy_refines [OF assms] .

theorem copy_correct_witness:
  "\<exists>h' l'. copy two_nodes two_list [5, 4] empty_list = Some (h', l') \<and> dll h' l' [5, 4] [10, 20] \<and>
    dll h' two_list [1, 2] [10, 20] \<and> outside {5, 4} two_nodes h'"
  using copy_correct [OF dll_two, of "[5, 4]" empty_list] by simp

end
