(* ===== verification/Hash_Map.thy ===== *)
theory Hash_Map
  imports Prelude "HOL-Library.Monad_Syntax" "HOL-Library.AList"
begin

text \<open>
  \<^verbatim>\<open>Kernel/Include/KRE/Collections/HashMap.h\<close>: the chained hash map of the kernel runtime and the FNV
  hash of \<^verbatim>\<open>Utility.h\<close>. A bucket's chain of \<open>HashNode\<close>s is the list of its entries, head first. The
  bucket pointer is null before the lazy allocation and dangling after \<open>free_nodes\<close>; using it in
  either state is \<open>None\<close>, as is a bucket index outside the array. The hash function is an argument,
  as it is a template parameter in the code.

  The invariant \<open>hm_inv\<close> says that every entry sits in the bucket of its key and that no key occurs
  twice; a map that satisfies it is a finite map, which the interpretation of \<open>key_value\<close> shows.
\<close>

section \<open>FNV-1a\<close>

definition OFFSET_BASIS :: u64 where "OFFSET_BASIS = 14695981039346656037"
definition PRIME :: u64 where "PRIME = 1099511628211"

definition fnv_hash :: "u64 \<Rightarrow> u64" where
  "fnv_hash value = (OFFSET_BASIS XOR value) * PRIME"

definition fnv_hash_array :: "u64 list \<Rightarrow> u64" where
  "fnv_hash_array values = foldl (\<lambda>hash v. (hash XOR v) * PRIME) OFFSET_BASIS values"

section \<open>State\<close>

type_synonym ('k, 'v) chain = "('k \<times> 'v) list"

datatype ('k, 'v) bucket_ptr = Null | Dangling | Buckets "('k, 'v) chain list"

text \<open>The load factor is counted in quarters: 3 is the default 0.75, 0 the 0.0 of a map that was moved from.\<close>

record ('k, 'v) hash_map =
  hm_load_factor :: nat
  hm_bucket_count :: u64
  hm_bucket :: "('k, 'v) bucket_ptr"
  hm_size :: u64

definition DEFAULT_LOAD_FACTOR :: nat where "DEFAULT_LOAD_FACTOR = 3"

definition hm_new :: "u64 \<Rightarrow> ('k, 'v) hash_map" where
  "hm_new bucket_count = \<lparr>hm_load_factor = DEFAULT_LOAD_FACTOR, hm_bucket_count = bucket_count, hm_bucket = Null, hm_size = 0\<rparr>"

text \<open>The bucket index: \<open>hash % count\<close> as \<open>size_t\<close>, then stored in an \<open>int\<close>.\<close>

definition hm_index :: "('k \<Rightarrow> u64) \<Rightarrow> u64 \<Rightarrow> 'k \<Rightarrow> nat option" where
  "hm_index hash bc key =
     (if bc = 0 then None
      else let i = sint (ucast (hash key mod bc) :: 32 word)
           in if 0 \<le> i \<and> i < uint bc then Some (nat i) else None)"

section \<open>Operations\<close>

text \<open>\<open>node->next = head; bucket[i] = node\<close>.\<close>

definition push_node :: "('k \<Rightarrow> u64) \<Rightarrow> u64 \<Rightarrow> 'k \<times> 'v \<Rightarrow> ('k, 'v) chain list \<Rightarrow> ('k, 'v) chain list option" where
  "push_node hash bc node bs = do {
     i \<leftarrow> hm_index hash bc (fst node);
     Some (bs[i := node # bs ! i]) }"

fun rehash_nodes :: "('k \<Rightarrow> u64) \<Rightarrow> u64 \<Rightarrow> ('k, 'v) chain \<Rightarrow> ('k, 'v) chain list \<Rightarrow> ('k, 'v) chain list option" where
  "rehash_nodes hash bc [] new_bucket = Some new_bucket"
| "rehash_nodes hash bc (node # chain) new_bucket = do {
     new_bucket \<leftarrow> push_node hash bc node new_bucket;
     rehash_nodes hash bc chain new_bucket }"

fun rehash_buckets :: "('k \<Rightarrow> u64) \<Rightarrow> u64 \<Rightarrow> ('k, 'v) chain list \<Rightarrow> ('k, 'v) chain list \<Rightarrow> ('k, 'v) chain list option" where
  "rehash_buckets hash bc [] new_bucket = Some new_bucket"
| "rehash_buckets hash bc (chain # bs) new_bucket = do {
     new_bucket \<leftarrow> rehash_nodes hash bc chain new_bucket;
     rehash_buckets hash bc bs new_bucket }"

definition hm_rehash :: "('k \<Rightarrow> u64) \<Rightarrow> u64 \<Rightarrow> ('k, 'v) hash_map \<Rightarrow> ('k, 'v) hash_map option" where
  "hm_rehash hash new_count m =
     (case hm_bucket m of
        Buckets bs \<Rightarrow> do {
          bs' \<leftarrow> rehash_buckets hash new_count bs (replicate (unat new_count) []);
          Some (m\<lparr>hm_bucket_count := new_count, hm_bucket := Buckets bs'\<rparr>) }
      | _ \<Rightarrow> None)"

text \<open>\<open>(double) (_size + 1) / _bucket_count > _load_factor\<close>, cross-multiplied.\<close>

definition over_load :: "('k, 'v) hash_map \<Rightarrow> bool" where
  "over_load m \<longleftrightarrow> 4 * unat (hm_size m + 1) > hm_load_factor m * unat (hm_bucket_count m)"

definition hm_put0 :: "('k \<Rightarrow> u64) \<Rightarrow> ('k, 'v) hash_map \<Rightarrow> 'k \<times> 'v \<Rightarrow> ('k, 'v) hash_map option" where
  "hm_put0 hash m node = do {
     m \<leftarrow> (if over_load m then hm_rehash hash (2 * hm_bucket_count m) m else Some m);
     case hm_bucket m of
       Buckets bs \<Rightarrow> do {
         bs' \<leftarrow> push_node hash (hm_bucket_count m) node bs;
         Some (m\<lparr>hm_bucket := Buckets bs', hm_size := hm_size m + 1\<rparr>) }
     | _ \<Rightarrow> None }"

text \<open>The chain walk of \<open>remove0\<close>: the first node of the key is unlinked.\<close>

fun unlink_key :: "'k \<Rightarrow> ('k, 'v) chain \<Rightarrow> ('k, 'v) chain \<times> bool" where
  "unlink_key key [] = ([], False)"
| "unlink_key key (node # chain) =
     (if fst node = key then (chain, True)
      else let (chain', removed) = unlink_key key chain in (node # chain', removed))"

definition hm_remove :: "('k \<Rightarrow> u64) \<Rightarrow> ('k, 'v) hash_map \<Rightarrow> 'k \<Rightarrow> (('k, 'v) hash_map \<times> bool) option" where
  "hm_remove hash m key =
     (case hm_bucket m of
        Null \<Rightarrow> Some (m, False)
      | Dangling \<Rightarrow> None
      | Buckets bs \<Rightarrow> do {
          i \<leftarrow> hm_index hash (hm_bucket_count m) key;
          let (chain, removed) = unlink_key key (bs ! i);
          if removed
          then Some (m\<lparr>hm_bucket := Buckets (bs[i := chain]), hm_size := hm_size m - 1\<rparr>, True)
          else Some (m, False) })"

definition hm_lazy_init :: "('k, 'v) hash_map \<Rightarrow> ('k, 'v) hash_map" where
  "hm_lazy_init m =
     (case hm_bucket m of
        Null \<Rightarrow> m\<lparr>hm_bucket := Buckets (replicate (unat (hm_bucket_count m)) [])\<rparr>
      | _ \<Rightarrow> m)"

definition hm_put :: "('k \<Rightarrow> u64) \<Rightarrow> ('k, 'v) hash_map \<Rightarrow> 'k \<Rightarrow> 'v \<Rightarrow> ('k, 'v) hash_map option" where
  "hm_put hash m key value = hm_put0 hash (hm_lazy_init m) (key, value)"

text \<open>An iterator: the bucket it stands in and the chain from its node on; \<open>[]\<close> is a null node.\<close>

record ('k, 'v) hm_iterator =
  it_pos :: nat
  it_chain :: "('k, 'v) chain"

definition hm_end :: "('k, 'v) hash_map \<Rightarrow> ('k, 'v) hm_iterator" where
  "hm_end m = \<lparr>it_pos = unat (hm_bucket_count m), it_chain = []\<rparr>"

text \<open>The chain walk of \<open>find0\<close>: the chain from the first node of the key on.\<close>

fun find_chain :: "'k \<Rightarrow> ('k, 'v) chain \<Rightarrow> ('k, 'v) chain" where
  "find_chain key [] = []"
| "find_chain key (node # chain) = (if fst node = key then node # chain else find_chain key chain)"

definition hm_find :: "('k \<Rightarrow> u64) \<Rightarrow> ('k, 'v) hash_map \<Rightarrow> 'k \<Rightarrow> ('k, 'v) hm_iterator option" where
  "hm_find hash m key =
     (case hm_bucket m of
        Null \<Rightarrow> Some (hm_end m)
      | Dangling \<Rightarrow> None
      | Buckets bs \<Rightarrow> do {
          i \<leftarrow> hm_index hash (hm_bucket_count m) key;
          case find_chain key (bs ! i) of
            [] \<Rightarrow> Some (hm_end m)
          | node # chain \<Rightarrow> Some \<lparr>it_pos = i, it_chain = node # chain\<rparr> })"

definition hm_at :: "('k \<Rightarrow> u64) \<Rightarrow> ('k, 'v) hash_map \<Rightarrow> 'k \<Rightarrow> 'v \<Rightarrow> (('k, 'v) hash_map \<times> 'v) option" where
  "hm_at hash m key def = do {
     let m = hm_lazy_init m;
     it \<leftarrow> hm_find hash m key;
     case it_chain it of
       node # _ \<Rightarrow> Some (m, snd node)
     | [] \<Rightarrow> do { m \<leftarrow> hm_put0 hash m (key, def); Some (m, def) } }"

text \<open>\<open>free_nodes\<close> indexes the bucket array before it asks whether there is one.\<close>

definition hm_free_nodes :: "('k, 'v) hash_map \<Rightarrow> ('k, 'v) hash_map option" where
  "hm_free_nodes m =
     (case hm_bucket m of
        Null \<Rightarrow> if hm_bucket_count m = 0 then Some m else None
      | Dangling \<Rightarrow> None
      | Buckets bs \<Rightarrow> Some (m\<lparr>hm_bucket := Dangling\<rparr>))"

definition hm_clear :: "('k, 'v) hash_map \<Rightarrow> ('k, 'v) hash_map option" where
  "hm_clear m = hm_free_nodes m"

definition hm_is_empty :: "('k, 'v) hash_map \<Rightarrow> bool" where
  "hm_is_empty m \<longleftrightarrow> hm_size m = 0"

text \<open>The move constructor. Result: (this, other).\<close>

definition hm_moved_from :: "('k, 'v) hash_map \<Rightarrow> ('k, 'v) hash_map" where
  "hm_moved_from other = other\<lparr>hm_load_factor := 0, hm_bucket_count := 0, hm_bucket := Null, hm_size := 0\<rparr>"

definition hm_move :: "('k, 'v) hash_map \<Rightarrow> ('k, 'v) hash_map \<times> ('k, 'v) hash_map" where
  "hm_move other = (other, hm_moved_from other)"

definition hm_swap :: "('k, 'v) hash_map \<Rightarrow> ('k, 'v) hash_map \<Rightarrow> ('k, 'v) hash_map \<times> ('k, 'v) hash_map" where
  "hm_swap a b = (b, a)"

text \<open>
  The move assignment to another map: the content goes to a temporary and, by \<open>swap(tmp, other)\<close>, back to \<open>other\<close>, which
  is then emptied. \<open>this\<close> takes no part in it; the destructor of the temporary has no bucket to free. Result: (this, other).
\<close>

definition hm_move_assign :: "('k, 'v) hash_map \<Rightarrow> ('k, 'v) hash_map \<Rightarrow> ('k, 'v) hash_map \<times> ('k, 'v) hash_map" where
  "hm_move_assign this other =
     (let (tmp, other) = hm_move other; (tmp, other) = hm_swap tmp other in (this, hm_moved_from other))"

section \<open>Iteration\<close>

text \<open>The search for the next non-empty bucket, from bucket \<open>i\<close> on.\<close>

fun next_bucket :: "nat \<Rightarrow> ('k, 'v) chain list \<Rightarrow> (nat \<times> ('k, 'v) chain) option" where
  "next_bucket i [] = None"
| "next_bucket i (chain # bs) = (if chain \<noteq> [] then Some (i, chain) else next_bucket (Suc i) bs)"

definition hm_begin :: "('k, 'v) hash_map \<Rightarrow> ('k, 'v) hm_iterator option" where
  "hm_begin m =
     (case hm_bucket m of
        Null \<Rightarrow> Some (hm_end m)
      | Dangling \<Rightarrow> None
      | Buckets bs \<Rightarrow>
          (case next_bucket 0 bs of
             None \<Rightarrow> Some (hm_end m)
           | Some (i, chain) \<Rightarrow> Some \<lparr>it_pos = i, it_chain = chain\<rparr>))"

text \<open>The pre-increment; on a null node it dereferences null.\<close>

definition it_next :: "('k, 'v) chain list \<Rightarrow> ('k, 'v) hm_iterator \<Rightarrow> ('k, 'v) hm_iterator option" where
  "it_next bs it =
     (case it_chain it of
        [] \<Rightarrow> None
      | node # chain \<Rightarrow>
          (if chain \<noteq> [] then Some (it\<lparr>it_chain := chain\<rparr>)
           else case next_bucket (Suc (it_pos it)) (drop (Suc (it_pos it)) bs) of
                  None \<Rightarrow> Some \<lparr>it_pos = length bs, it_chain = []\<rparr>
                | Some (i, chain') \<Rightarrow> Some \<lparr>it_pos = i, it_chain = chain'\<rparr>))"

text \<open>A range-based for loop: the entries it visits, with a bound on the steps.\<close>

fun it_collect :: "nat \<Rightarrow> ('k, 'v) chain list \<Rightarrow> ('k, 'v) hm_iterator \<Rightarrow> ('k \<times> 'v) list option" where
  "it_collect 0 bs it = (if it_chain it = [] then Some [] else None)"
| "it_collect (Suc n) bs it =
     (case it_chain it of
        [] \<Rightarrow> Some []
      | node # _ \<Rightarrow> do { it \<leftarrow> it_next bs it; nodes \<leftarrow> it_collect n bs it; Some (node # nodes) })"


section \<open>Representation\<close>

definition slot :: "('k \<Rightarrow> u64) \<Rightarrow> nat \<Rightarrow> 'k \<Rightarrow> nat" where
  "slot hash n key = unat (hash key) mod n"

lemma hm_index_small:
  assumes "0 < unat bc" and "unat bc \<le> 2 ^ 31"
  shows "hm_index hash bc key = Some (slot hash (unat bc) key)"
proof -
  define w where "w = hash key mod bc"
  have w: "unat w = slot hash (unat bc) key" by (simp add: w_def slot_def unat_mod_word)
  have wl: "unat w < unat bc" using assms(1) by (simp add: w slot_def)
  have "unat w < 2 ^ 31" using wl assms(2) by linarith
  then have "int (unat w) < int (2 ^ 31)" by (simp only: of_nat_less_iff)
  then have u: "uint w < 2 ^ 31" unfolding uint_nat by (simp only: of_nat_power of_nat_numeral)
  have "uint (ucast w :: 32 word) = uint w mod 2 ^ 32" by (simp add: unsigned_ucast_eq take_bit_eq_mod)
  also have "\<dots> = uint w" by (rule mod_pos_pos_trivial) (use u in simp_all)
  finally have "sint (ucast w :: 32 word) = signed_take_bit 31 (uint w)" by (simp add: sint_uint)
  also have "\<dots> = uint w"
  proof (rule signed_take_bit_int_eq_self)
    show "- (2 ^ 31) \<le> uint w" by (rule order_trans [OF _ uint_ge_0]) simp
  qed (rule u)
  finally have s: "sint (ucast (hash key mod bc) :: 32 word) = int (slot hash (unat bc) key)"
    by (simp only: w_def [symmetric] uint_nat w)
  have "bc \<noteq> 0" using assms(1) by auto
  moreover have "int (slot hash (unat bc) key) < uint bc" using wl unfolding uint_nat w by (simp only: of_nat_less_iff)
  ultimately show ?thesis unfolding hm_index_def s Let_def by simp
qed

definition placed :: "('k \<Rightarrow> u64) \<Rightarrow> ('k, 'v) chain list \<Rightarrow> bool" where
  "placed hash bs \<longleftrightarrow> (\<forall>i<length bs. \<forall>n\<in>set (bs ! i). slot hash (length bs) (fst n) = i)"

lemma placedD: "placed hash bs \<Longrightarrow> i < length bs \<Longrightarrow> n \<in> set (bs ! i) \<Longrightarrow> slot hash (length bs) (fst n) = i"
  by (simp add: placed_def)

lemma concat_split: "i < length bs \<Longrightarrow> concat bs = concat (take i bs) @ bs ! i @ concat (drop (Suc i) bs)"
  by (subst (1) id_take_nth_drop [of i bs]) simp_all

lemma distinct_middle:
  "distinct (as @ b @ cs) \<Longrightarrow> set b' \<subseteq> set b \<Longrightarrow> distinct b' \<Longrightarrow> distinct (as @ b' @ cs)"
  by auto

lemma concat_upd: "i < length bs \<Longrightarrow> concat (bs[i := c]) = concat (take i bs) @ c @ concat (drop (Suc i) bs)"
  by (simp add: upd_conv_take_nth_drop)

lemma map_of_concat:
  assumes "\<And>i n. i < length bs \<Longrightarrow> n \<in> set (bs ! i) \<Longrightarrow> fst n = k \<Longrightarrow> i = i0" and "i0 < length bs"
  shows "map_of (concat bs) k = map_of (bs ! i0) k"
proof -
  have none: "map_of (concat cs) k = None" if "\<And>n. n \<in> set (concat cs) \<Longrightarrow> fst n \<noteq> k" for cs
    using that by (fastforce simp: map_of_eq_None_iff)
  have "map_of (concat (take i0 bs)) k = None"
  proof (rule none)
    fix n assume "n \<in> set (concat (take i0 bs))"
    then obtain i where "i < i0" "n \<in> set (bs ! i)" by (auto simp: set_conv_nth [of "take i0 bs"])
    then show "fst n \<noteq> k" using assms(1) [of i n] assms(2) by auto
  qed
  moreover have "map_of (concat (drop (Suc i0) bs)) k = None"
  proof (rule none)
    fix n assume "n \<in> set (concat (drop (Suc i0) bs))"
    then obtain i where "i < length bs - Suc i0" "n \<in> set (bs ! (Suc i0 + i))"
      by (auto simp: set_conv_nth [of "drop (Suc i0) bs"])
    then show "fst n \<noteq> k" using assms(1) [of "Suc i0 + i" n] by fastforce
  qed
  ultimately show ?thesis
    by (simp add: concat_split [OF assms(2)] map_add_def split: option.splits)
qed

lemma placed_map_of:
  assumes "placed hash bs" and "bs \<noteq> []"
  shows "map_of (concat bs) k = map_of (bs ! slot hash (length bs) k) k"
  by (rule map_of_concat) (use assms in \<open>auto simp: placed_def slot_def\<close>)

lemma placed_update:
  assumes "placed hash bs" and "\<forall>n\<in>set ch. slot hash (length bs) (fst n) = j"
  shows "placed hash (bs[j := ch])"
  unfolding placed_def
proof (intro allI impI ballI)
  fix i n assume "i < length (bs[j := ch])" "n \<in> set (bs[j := ch] ! i)"
  then show "slot hash (length (bs[j := ch])) (fst n) = i"
    using assms by (cases "i = j") (auto simp: placed_def)
qed

text \<open>Rehashing distributes the entries; within a bucket their order is reversed.\<close>

lemma rehash_nodes_spec:
  assumes "0 < unat bc" and "unat bc \<le> 2 ^ 31" and "length nb = unat bc"
  shows "\<exists>nb'. rehash_nodes hash bc ns nb = Some nb' \<and> length nb' = unat bc \<and>
    (\<forall>j<unat bc. nb' ! j = rev (filter (\<lambda>n. slot hash (unat bc) (fst n) = j) ns) @ nb ! j)"
  using assms(3)
proof (induction ns arbitrary: nb)
  case (Cons n ns)
  let ?i = "slot hash (unat bc) (fst n)"
  have "?i < unat bc" using assms(1) by (simp add: slot_def)
  with Cons.IH [of "nb[?i := n # nb ! ?i]"] Cons.prems show ?case
    by (auto simp: push_node_def hm_index_small [OF assms(1,2)] nth_list_update)
qed simp

lemma rehash_buckets_spec:
  assumes "0 < unat bc" and "unat bc \<le> 2 ^ 31" and "length nb = unat bc"
  shows "\<exists>nb'. rehash_buckets hash bc bs nb = Some nb' \<and> length nb' = unat bc \<and>
    (\<forall>j<unat bc. nb' ! j = rev (filter (\<lambda>n. slot hash (unat bc) (fst n) = j) (concat bs)) @ nb ! j)"
  using assms(3)
proof (induction bs arbitrary: nb)
  case (Cons ch bs)
  obtain nb1 where 1: "rehash_nodes hash bc ch nb = Some nb1" "length nb1 = unat bc"
    "\<forall>j<unat bc. nb1 ! j = rev (filter (\<lambda>n. slot hash (unat bc) (fst n) = j) ch) @ nb ! j"
    using rehash_nodes_spec [OF assms(1,2) Cons.prems] by blast
  then show ?case using Cons.IH [OF 1(2)] by auto
qed simp

lemma hm_rehash_spec:
  assumes "0 < unat bc" and "unat bc \<le> 2 ^ 31" and "hm_bucket m = Buckets bs"
  shows "\<exists>bs'. hm_rehash hash bc m = Some (m\<lparr>hm_bucket_count := bc, hm_bucket := Buckets bs'\<rparr>) \<and>
    length bs' = unat bc \<and>
    (\<forall>j<unat bc. bs' ! j = rev (filter (\<lambda>n. slot hash (unat bc) (fst n) = j) (concat bs)))"
  using rehash_buckets_spec [OF assms(1,2), of "replicate (unat bc) []" hash bs]
  by (auto simp: hm_rehash_def assms(3))

lemma placed_rehash:
  assumes "length bs' = n" and "\<forall>j<n. bs' ! j = rev (filter (\<lambda>x. slot hash n (fst x) = j) xs)"
  shows "placed hash bs'"
  using assms by (auto simp: placed_def)

lemma sum_filter_slots:
  fixes f :: "'a \<Rightarrow> nat"
  assumes "\<And>x. x \<in> set xs \<Longrightarrow> f x < n"
  shows "(\<Sum>j<n. filter_mset (\<lambda>x. f x = j) (mset xs)) = mset xs"
  using assms
proof (induction xs)
  case (Cons x xs)
  have "(\<Sum>j<n. filter_mset (\<lambda>y. f y = j) (mset (x # xs))) =
      (\<Sum>j<n. (if f x = j then {#x#} else {#}) + filter_mset (\<lambda>y. f y = j) (mset xs))"
    by (intro sum.cong) auto
  also have "\<dots> = (\<Sum>j<n. (if f x = j then {#x#} else {#})) + mset xs"
    using Cons by (simp add: sum.distrib)
  also have "(\<Sum>j<n. (if f x = j then {#x#} else {#})) = {#x#}"
    using Cons.prems [of x] by (subst sum.delta') auto
  finally show ?case by simp
qed simp

lemma mset_concat_sum: "mset (concat bs) = (\<Sum>j<length bs. mset (bs ! j))"
  by (induction bs) (simp_all add: sum.lessThan_Suc_shift del: sum.lessThan_Suc)

lemma mset_rehash:
  assumes "0 < n" and "length bs' = n" and "\<forall>j<n. bs' ! j = rev (filter (\<lambda>x. slot hash n (fst x) = j) xs)"
  shows "mset (concat bs') = mset xs"
proof -
  have "mset (concat bs') = (\<Sum>j<n. filter_mset (\<lambda>x. slot hash n (fst x) = j) (mset xs))"
    unfolding mset_concat_sum assms(2) by (rule sum.cong) (simp_all add: assms(3) mset_filter)
  also have "\<dots> = mset xs" by (rule sum_filter_slots) (use assms(1) in \<open>simp add: slot_def\<close>)
  finally show ?thesis .
qed

lemma map_of_eq_mset:
  assumes "mset xs = mset ys" and "distinct (map fst ys)"
  shows "distinct (map fst xs) \<and> map_of xs = map_of ys"
proof -
  have "mset (map fst xs) = mset (map fst ys)" using assms(1) by simp
  then have "distinct (map fst xs)" using assms(2) mset_eq_imp_distinct_iff by blast
  moreover have "set xs = set ys" using assms(1) mset_eq_setD by blast
  ultimately show ?thesis using assms(2) map_of_inject_set by blast
qed

section \<open>The map contract\<close>

definition hm_inv :: "('k \<Rightarrow> u64) \<Rightarrow> ('k, 'v) hash_map \<Rightarrow> bool" where
  "hm_inv hash m \<longleftrightarrow> hm_load_factor m = DEFAULT_LOAD_FACTOR \<and> 0 < unat (hm_bucket_count m) \<and> unat (hm_bucket_count m) \<le> 2 ^ 30 \<and>
     (case hm_bucket m of
        Null \<Rightarrow> hm_size m = 0
      | Dangling \<Rightarrow> False
      | Buckets bs \<Rightarrow> length bs = unat (hm_bucket_count m) \<and> placed hash bs \<and>
          distinct (map fst (concat bs)) \<and> unat (hm_size m) = length (concat bs))"

definition hm_room :: "('k, 'v) hash_map \<Rightarrow> nat \<Rightarrow> bool" where
  "hm_room m n \<longleftrightarrow> unat (hm_size m) + n \<le> 2 ^ 28"

definition hm_entries :: "('k, 'v) hash_map \<Rightarrow> ('k \<times> 'v) list" where
  "hm_entries m = (case hm_bucket m of Buckets bs \<Rightarrow> concat bs | _ \<Rightarrow> [])"

definition hm_lookup :: "('k, 'v) hash_map \<Rightarrow> 'k \<Rightarrow> 'v option" where
  "hm_lookup m = map_of (hm_entries m)"

lemma hm_lazy_init_inv:
  assumes "hm_inv hash m"
  obtains bs where "hm_bucket (hm_lazy_init m) = Buckets bs" "hm_inv hash (hm_lazy_init m)"
    "hm_entries (hm_lazy_init m) = hm_entries m" "hm_size (hm_lazy_init m) = hm_size m"
proof (cases "hm_bucket m")
  case Null
  have "concat (replicate n []) = []" for n by (induction n) simp_all
  with Null assms that show ?thesis
    by (auto simp: hm_lazy_init_def hm_inv_def hm_entries_def placed_def)
next
  case Dangling
  with assms show ?thesis by (simp add: hm_inv_def)
next
  case (Buckets bs)
  with assms that show ?thesis by (simp add: hm_lazy_init_def)
qed

text \<open>The state in which \<open>put0\<close> inserts: after the rehash, when the load asks for one.\<close>

lemma hm_grow:
  assumes "hm_inv hash m" and "hm_bucket m = Buckets bs" and "hm_room m 1"
  shows "\<exists>m' bs'. (if over_load m then hm_rehash hash (2 * hm_bucket_count m) m else Some m) = Some m' \<and>
    hm_inv hash m' \<and> hm_bucket m' = Buckets bs' \<and> hm_size m' = hm_size m \<and> hm_lookup m' = hm_lookup m"
proof (cases "over_load m")
  case False
  with assms show ?thesis by simp
next
  case True
  let ?bc = "2 * hm_bucket_count m"
  note i = assms(1) [unfolded hm_inv_def assms(2), simplified]
  have "unat (hm_size m + 1) = unat (hm_size m) + 1"
    using assms(3) by (intro unat_plus_no_wrap [THEN trans]) (auto simp: hm_room_def)
  then have lim: "3 * unat (hm_bucket_count m) < 2 ^ 30 + 4"
    using True assms(3) i by (simp add: over_load_def hm_room_def DEFAULT_LOAD_FACTOR_def)
  have bc: "unat ?bc = 2 * unat (hm_bucket_count m)"
    using lim by (subst unat_mult_no_wrap) simp_all
  obtain bs' where r: "hm_rehash hash ?bc m = Some (m\<lparr>hm_bucket_count := ?bc, hm_bucket := Buckets bs'\<rparr>)"
    "length bs' = unat ?bc"
    "\<forall>j<unat ?bc. bs' ! j = rev (filter (\<lambda>n. slot hash (unat ?bc) (fst n) = j) (concat bs))"
    using hm_rehash_spec [of ?bc m bs hash] i lim bc assms(2) by auto
  have ms: "mset (concat bs') = mset (concat bs)"
    by (rule mset_rehash [OF _ r(2,3)]) (use i bc in simp)
  from map_of_eq_mset [OF this] i have "distinct (map fst (concat bs'))" "map_of (concat bs') = map_of (concat bs)"
    by blast+
  moreover have "length (concat bs') = length (concat bs)" using ms mset_eq_length by blast
  ultimately show ?thesis
    using True r i bc lim placed_rehash [OF r(2,3)] assms(2)
    by (auto simp: hm_inv_def hm_lookup_def hm_entries_def)
qed

lemma hm_put_absent:
  assumes "hm_inv hash m" and "hm_room m (Suc n)" and "hm_lookup m k = None"
  shows "\<exists>m'. hm_put hash m k v = Some m' \<and> hm_inv hash m' \<and> hm_room m' n \<and>
    hm_lookup m' = (hm_lookup m)(k \<mapsto> v)"
proof -
  obtain bs0 where l: "hm_bucket (hm_lazy_init m) = Buckets bs0" "hm_inv hash (hm_lazy_init m)"
    "hm_entries (hm_lazy_init m) = hm_entries m" "hm_size (hm_lazy_init m) = hm_size m"
    using hm_lazy_init_inv [OF assms(1)] by blast
  obtain m1 bs where g: "(if over_load (hm_lazy_init m)
      then hm_rehash hash (2 * hm_bucket_count (hm_lazy_init m)) (hm_lazy_init m)
      else Some (hm_lazy_init m)) = Some m1"
    "hm_inv hash m1" "hm_bucket m1 = Buckets bs" "hm_size m1 = hm_size m" "hm_lookup m1 = hm_lookup m"
    using hm_grow [OF l(2,1)] assms(2) l(3,4) by (auto simp: hm_room_def hm_lookup_def)
  note i = g(2) [unfolded hm_inv_def g(3), simplified]
  define j where "j = slot hash (length bs) k"
  have j: "j < length bs" using i by (auto simp: j_def slot_def)
  have idx: "hm_index hash (hm_bucket_count m1) k = Some j"
    using hm_index_small [of "hm_bucket_count m1" hash k] i by (simp add: j_def)
  let ?bs = "bs[j := (k, v) # bs ! j]"
  have sz: "unat (hm_size m1 + 1) = unat (hm_size m1) + 1"
    using assms(2) g(4) by (subst unat_plus_no_wrap) (auto simp: hm_room_def)
  have ms: "mset (concat ?bs) = mset ((k, v) # concat bs)"
    by (simp add: concat_upd [OF j] concat_split [OF j])
  have new: "k \<notin> fst ` set (concat bs)"
  proof -
    have "hm_lookup m1 k = None" by (simp only: g(5) assms(3))
    then show ?thesis by (simp add: hm_lookup_def hm_entries_def g(3) map_of_eq_None_iff)
  qed
  have d: "distinct (map fst ((k, v) # concat bs))" using i new by simp
  have pl: "placed hash ?bs" 
  proof (rule placed_update)
    show "placed hash bs" using i by simp
    then show "\<forall>n\<in>set ((k, v) # bs ! j). slot hash (length bs) (fst n) = j"
      using j by (auto simp: placed_def j_def)
  qed
  define m' where "m' = m1\<lparr>hm_bucket := Buckets ?bs, hm_size := hm_size m1 + 1\<rparr>"
  have run: "hm_put hash m k v = Some m'"
    using g(1,3) idx by (simp add: hm_put_def hm_put0_def push_node_def m'_def)
  have len: "length (concat ?bs) = Suc (length (concat bs))"
    using ms [THEN mset_eq_length] by simp
  have "hm_inv hash m'"
    using i pl sz len map_of_eq_mset [OF ms d] by (simp add: hm_inv_def m'_def)
  moreover have "hm_lookup m' = (hm_lookup m1)(k \<mapsto> v)"
    using map_of_eq_mset [OF ms d] by (simp add: hm_lookup_def hm_entries_def m'_def g(3))
  moreover have "hm_room m' n" using assms(2) sz g(4) by (simp add: hm_room_def m'_def)
  ultimately show ?thesis using run g(5) by auto
qed


lemma unlink_key_spec:
  assumes "distinct (map fst ch)" and "unlink_key k ch = (ch', r)"
  shows "r = (k \<in> fst ` set ch)" "set ch' = {n \<in> set ch. fst n \<noteq> k}" "distinct (map fst ch')"
    "length ch = length ch' + of_bool r"
proof -
  have "r = (k \<in> fst ` set ch) \<and> set ch' = {n \<in> set ch. fst n \<noteq> k} \<and> distinct (map fst ch') \<and>
      length ch = length ch' + of_bool r"
    using assms
  proof (induction ch arbitrary: ch' r)
    case (Cons n ch)
    show ?case
    proof (cases "fst n = k")
      case True
      have "\<forall>x\<in>set ch. fst x \<noteq> k"
        using Cons.prems(1) True by (auto simp: image_iff)
      then show ?thesis using Cons.prems True by auto
    next
      case False
      obtain ch1 where u: "unlink_key k ch = (ch1, r)" "ch' = n # ch1"
        using Cons.prems(2) False by (auto split: prod.splits)
      show ?thesis using Cons.IH [OF _ u(1)] Cons.prems(1) False u(2) by auto
    qed
  qed simp
  then show "r = (k \<in> fst ` set ch)" "set ch' = {n \<in> set ch. fst n \<noteq> k}" "distinct (map fst ch')"
    "length ch = length ch' + of_bool r" by blast+
qed

lemma unlink_key_map_of: "unlink_key k ch = (ch', r) \<Longrightarrow> x \<noteq> k \<Longrightarrow> map_of ch' x = map_of ch x"
  by (induction ch arbitrary: ch' r) (auto split: if_splits prod.splits)

lemma find_chain_key:
  "(case find_chain k ch of
      [] \<Rightarrow> map_of ch k = None
    | n # _ \<Rightarrow> fst n = k \<and> map_of ch k = Some (snd n))"
  by (induction ch) (auto split: list.splits)

lemma hm_remove_spec:
  assumes "hm_inv hash m"
  shows "\<exists>m'. hm_remove hash m k = Some (m', hm_lookup m k \<noteq> None) \<and> hm_inv hash m' \<and>
    hm_lookup m' = (hm_lookup m)(k := None) \<and> unat (hm_size m') \<le> unat (hm_size m)"
proof (cases "hm_bucket m")
  case Null
  then show ?thesis using assms by (auto simp: hm_remove_def hm_lookup_def hm_entries_def)
next
  case Dangling
  with assms show ?thesis by (simp add: hm_inv_def)
next
  case (Buckets bs)
  note i = assms [unfolded hm_inv_def Buckets, simplified]
  define j where "j = slot hash (length bs) k"
  have j: "j < length bs" using i by (auto simp: j_def slot_def)
  have idx: "hm_index hash (hm_bucket_count m) k = Some j"
    using hm_index_small [of "hm_bucket_count m" hash k] i by (simp add: j_def)
  obtain ch r where u: "unlink_key k (bs ! j) = (ch, r)" by fastforce
  note cs = concat_split [OF j]
  have dj: "distinct (map fst (bs ! j))" using i cs by simp
  note us = unlink_key_spec [OF dj u]
  have lk: "hm_lookup m k = map_of (bs ! j) k"
    using placed_map_of [of hash bs k] i j by (cases "bs = []") (auto simp: hm_lookup_def hm_entries_def Buckets j_def)
  have r: "r \<longleftrightarrow> hm_lookup m k \<noteq> None" by (simp add: us(1) lk map_of_eq_None_iff)
  show ?thesis
  proof (cases r)
    case False
    then show ?thesis using Buckets idx u r assms by (auto simp: hm_remove_def fun_upd_idem)
  next
    case True
    define m' where "m' = m\<lparr>hm_bucket := Buckets (bs[j := ch]), hm_size := hm_size m - 1\<rparr>"
    have run: "hm_remove hash m k = Some (m', True)"
      using Buckets idx u True by (simp add: hm_remove_def m'_def)
    have len: "length (concat bs) = Suc (length (concat (bs[j := ch])))"
      using us(4) True by (simp add: concat_upd [OF j] cs)
    have sz: "unat (hm_size m - 1) = length (concat (bs[j := ch]))"
      using len i by (subst unat_minus_no_wrap) simp_all
    have pl: "placed hash (bs[j := ch])"
    proof (rule placed_update)
      show "placed hash bs" using i by simp
      then show "\<forall>n\<in>set ch. slot hash (length bs) (fst n) = j" using placedD j us(2) by blast
    qed
    have d: "distinct (map fst (concat (bs[j := ch])))"
    proof -
      have sub: "set (map fst ch) \<subseteq> set (map fst (bs ! j))" using us(2) by auto
      have "distinct (map fst (concat bs))" using i by blast
      then have "distinct (map fst (concat (take j bs)) @ map fst (bs ! j) @ map fst (concat (drop (Suc j) bs)))"
        unfolding cs map_append .
      from distinct_middle [OF this sub us(3)] show ?thesis unfolding concat_upd [OF j] map_append .
    qed
    have inv: "hm_inv hash m'" using i pl d sz by (simp add: hm_inv_def m'_def)
    have "hm_lookup m' x = ((hm_lookup m)(k := None)) x" for x
    proof (cases "x = k")
      case True
      have "map_of (concat (bs[j := ch])) k = map_of (bs[j := ch] ! j) k"
        using placed_map_of [OF pl, of k] j by (cases "bs = []") (auto simp: j_def)
      then show ?thesis using True j us(2)
        by (auto simp: hm_lookup_def hm_entries_def m'_def map_of_eq_None_iff)
    next
      case False
      have "map_of ch x = map_of (bs ! j) x"
        using False by (rule unlink_key_map_of [OF u])
      then show ?thesis using False
        by (auto simp: hm_lookup_def hm_entries_def m'_def Buckets concat_upd [OF j] cs map_add_def
            split: option.splits)
    qed
    then have "hm_lookup m' = (hm_lookup m)(k := None)" by blast
    moreover have "unat (hm_size m') \<le> unat (hm_size m)" using sz len i by (simp add: m'_def)
    ultimately show ?thesis using run inv True r by auto
  qed
qed

lemma hm_find_spec:
  assumes "hm_inv hash m"
  shows "\<exists>it. hm_find hash m k = Some it \<and>
    (case hm_lookup m k of
       None \<Rightarrow> it = hm_end m
     | Some v \<Rightarrow> \<exists>rest. it_chain it = (k, v) # rest)"
proof (cases "hm_bucket m")
  case Null
  then show ?thesis by (auto simp: hm_find_def hm_lookup_def hm_entries_def)
next
  case Dangling
  with assms show ?thesis by (simp add: hm_inv_def)
next
  case (Buckets bs)
  note i = assms [unfolded hm_inv_def Buckets, simplified]
  define j where "j = slot hash (length bs) k"
  have idx: "hm_index hash (hm_bucket_count m) k = Some j"
    using hm_index_small [of "hm_bucket_count m" hash k] i by (simp add: j_def)
  have "bs \<noteq> []" using i by auto
  then have lk: "hm_lookup m k = map_of (bs ! j) k"
    using placed_map_of [of hash bs k] i by (auto simp: hm_lookup_def hm_entries_def Buckets j_def)
  show ?thesis
    using find_chain_key [where k = k and ch = "bs ! j"]
    by (auto simp: hm_find_def Buckets idx lk split: list.splits)
qed

text \<open>What the registries of the kernel (mount points, devices, handles) rely on.\<close>

definition map_op :: "('k \<Rightarrow> 'v option) \<Rightarrow> 'k \<times> 'v option \<Rightarrow> 'k \<Rightarrow> 'v option" where
  "map_op m x = m(fst x := snd x)"

locale key_value =
  fixes inv :: "'s \<Rightarrow> bool" and room :: "'s \<Rightarrow> nat \<Rightarrow> bool"
    and lookup :: "'s \<Rightarrow> 'k \<Rightarrow> 'v option"
    and put :: "'s \<Rightarrow> 'k \<Rightarrow> 'v \<Rightarrow> 's option"
    and remove :: "'s \<Rightarrow> 'k \<Rightarrow> ('s \<times> bool) option"
  assumes put_absent: "inv s \<Longrightarrow> room s (Suc n) \<Longrightarrow> lookup s k = None \<Longrightarrow>
      \<exists>s'. put s k v = Some s' \<and> inv s' \<and> room s' n \<and> lookup s' = (lookup s)(k \<mapsto> v)"
    and remove_law: "inv s \<Longrightarrow> \<exists>s'. remove s k = Some (s', lookup s k \<noteq> None) \<and> inv s' \<and>
      lookup s' = (lookup s)(k := None) \<and> (\<forall>n. room s n \<longrightarrow> room s' n)"
    and room_Suc: "room s (Suc n) \<Longrightarrow> room s n"
begin

text \<open>A script of insertions (\<open>Some value\<close>) and removals (\<open>None\<close>).\<close>

fun run :: "'s \<Rightarrow> ('k \<times> 'v option) list \<Rightarrow> 's option" where
  "run s [] = Some s"
| "run s ((k, Some v) # ops) = do { s \<leftarrow> put s k v; run s ops }"
| "run s ((k, None) # ops) = do { (s, b) \<leftarrow> remove s k; run s ops }"

lemma run_refines:
  assumes "inv s" and "room s (length ops)"
    and "\<forall>i<length ops. \<forall>v. snd (ops ! i) = Some v \<longrightarrow>
      foldl map_op (lookup s) (take i ops) (fst (ops ! i)) = None"
  shows "\<exists>s'. run s ops = Some s' \<and> inv s' \<and>
    lookup s' = foldl map_op (lookup s) ops"
  using assms
proof (induction ops arbitrary: s)
  case (Cons x ops)
  obtain k r where op: "x = (k, r)" by fastforce
  have later: "\<forall>i<length ops. \<forall>v. snd (ops ! i) = Some v \<longrightarrow>
      foldl map_op (map_op (lookup s) x) (take i ops) (fst (ops ! i)) = None"
    using Cons.prems(3) by fastforce
  show ?case
  proof (cases r)
    case None
    obtain s' where "remove s k = Some (s', lookup s k \<noteq> None)" "inv s'"
      "lookup s' = map_op (lookup s) x" "\<forall>n. room s n \<longrightarrow> room s' n"
      using remove_law [OF Cons.prems(1), of k] op None by (auto simp: map_op_def)
    moreover have "room s' (length ops)" using calculation(4) Cons.prems(2) room_Suc by auto
    ultimately show ?thesis using Cons.IH [of s'] later op None by simp
  next
    case (Some v)
    have "lookup s k = None" using Cons.prems(3) op Some by force
    then obtain s' where "put s k v = Some s'" "inv s'" "room s' (length ops)"
      "lookup s' = map_op (lookup s) x"
      using put_absent [of s "length ops" k v] Cons.prems(1,2) op Some by (auto simp: map_op_def)
    then show ?thesis using Cons.IH [of s'] later op Some by simp
  qed
qed simp

text \<open>Removing a key first makes \<open>put\<close> an update, whether the key is there or not.\<close>

lemma replace:
  assumes "inv s" and "room s (Suc n)"
  shows "\<exists>s1 b s2. remove s k = Some (s1, b) \<and> put s1 k v = Some s2 \<and> inv s2 \<and> room s2 n \<and>
    lookup s2 = (lookup s)(k \<mapsto> v)"
  using remove_law [OF assms(1), of k] put_absent [of _ n k v] assms(2) by fastforce

end

interpretation hmap: key_value "hm_inv hash" hm_room hm_lookup "hm_put hash" "hm_remove hash"
  for hash :: "'k \<Rightarrow> u64"
proof
  fix s :: "('k, 'v) hash_map" and n k v
  assume "hm_inv hash s" "hm_room s (Suc n)" "hm_lookup s k = None"
  then show "\<exists>s'. hm_put hash s k v = Some s' \<and> hm_inv hash s' \<and> hm_room s' n \<and>
      hm_lookup s' = (hm_lookup s)(k \<mapsto> v)" by (rule hm_put_absent)
next
  fix s :: "('k, 'v) hash_map" and k
  assume "hm_inv hash s"
  from hm_remove_spec [OF this, of k]
  show "\<exists>s'. hm_remove hash s k = Some (s', hm_lookup s k \<noteq> None) \<and> hm_inv hash s' \<and>
      hm_lookup s' = (hm_lookup s)(k := None) \<and> (\<forall>n. hm_room s n \<longrightarrow> hm_room s' n)"
    by (fastforce simp: hm_room_def)
qed (simp add: hm_room_def)


section \<open>Iteration\<close>

lemma next_bucket_spec:
  "(case next_bucket i cs of
      None \<Rightarrow> concat cs = []
    | Some (j, ch) \<Rightarrow> i \<le> j \<and> j < i + length cs \<and> ch \<noteq> [] \<and> concat cs = ch @ concat (drop (Suc (j - i)) cs))"
proof (induction cs arbitrary: i)
  case (Cons c cs)
  show ?case
  proof (cases "c = []")
    case False
    then show ?thesis by simp
  next
    case True
    then show ?thesis using Cons [of "Suc i"]
      by (auto split: option.splits simp: Suc_diff_le Suc_diff_Suc)
  qed
qed simp

lemma it_collect_spec:
  assumes "it_chain it @ concat (drop (Suc (it_pos it)) bs) = ns" and "it_chain it = [] \<longrightarrow> ns = []"
  shows "it_collect (length ns) bs it = Some ns"
  using assms
proof (induction ns arbitrary: it)
  case Nil
  then show ?case by simp
next
  case (Cons n ns)
  then obtain ch where ch: "it_chain it = n # ch" by (cases "it_chain it") auto
  show ?case
  proof (cases "ch = []")
    case False
    then show ?thesis using Cons.prems ch Cons.IH [of "it\<lparr>it_chain := ch\<rparr>"] by (simp add: it_next_def)
  next
    case True
    let ?p = "Suc (it_pos it)"
    have ns: "concat (drop ?p bs) = ns" using Cons.prems ch True by simp
    show ?thesis
    proof (cases "next_bucket ?p (drop ?p bs)")
      case None
      then have "ns = []" using next_bucket_spec [where i = ?p and cs = "drop ?p bs"] ns by simp
      then show ?thesis using None True ch by (simp add: it_next_def)
    next
      case (Some r)
      then obtain j c where r: "next_bucket ?p (drop ?p bs) = Some (j, c)" by (cases r) simp
      then have c: "?p \<le> j" "c \<noteq> []" "ns = c @ concat (drop (Suc (j - ?p)) (drop ?p bs))"
        using next_bucket_spec [where i = ?p and cs = "drop ?p bs"] ns by simp_all
      have "it_collect (length ns) bs \<lparr>it_pos = j, it_chain = c\<rparr> = Some ns"
        by (rule Cons.IH) (use c in simp_all)
      then show ?thesis using r True ch by (simp add: it_next_def)
    qed
  qed
qed

lemma hm_begin_collect:
  assumes "hm_bucket m = Buckets bs"
  shows "\<exists>it. hm_begin m = Some it \<and> it_collect (length (concat bs)) bs it = Some (concat bs)"
proof (cases "next_bucket 0 bs")
  case None
  then have "concat bs = []" using next_bucket_spec [where i = 0 and cs = bs] by simp
  then show ?thesis using None assms by (simp only: hm_begin_def hm_end_def) simp
next
  case (Some r)
  then obtain j c where r: "next_bucket 0 bs = Some (j, c)" by (cases r) simp
  then show ?thesis using next_bucket_spec [where i = 0 and cs = bs] assms it_collect_spec [of "\<lparr>it_pos = j, it_chain = c\<rparr>" bs "concat bs"]
    by (simp add: hm_begin_def)
qed

section \<open>Properties\<close>

text \<open>A script over the code's own operations: \<open>Some value\<close> puts, \<open>None\<close> removes.\<close>

fun hm_run :: "('k \<Rightarrow> u64) \<Rightarrow> ('k, 'v) hash_map \<Rightarrow> ('k \<times> 'v option) list \<Rightarrow> ('k, 'v) hash_map option" where
  "hm_run hash m [] = Some m"
| "hm_run hash m ((k, Some v) # ops) = do { m \<leftarrow> hm_put hash m k v; hm_run hash m ops }"
| "hm_run hash m ((k, None) # ops) = do { (m, b) \<leftarrow> hm_remove hash m k; hm_run hash m ops }"

lemma hm_run_run: "hm_run hash m ops = hmap.run hash m ops"
  by (induction hash m ops rule: hm_run.induct) (auto intro!: Option.bind_cong)

text \<open>The value a find leads to, as the callers of the map read it.\<close>

definition hm_get :: "('k \<Rightarrow> u64) \<Rightarrow> ('k, 'v) hash_map \<Rightarrow> 'k \<Rightarrow> 'v option option" where
  "hm_get hash m k = do {
     it \<leftarrow> hm_find hash m k;
     Some (if it = hm_end m then None else Some (snd (hd (it_chain it)))) }"

lemma hm_get_spec: "hm_inv hash m \<Longrightarrow> hm_get hash m k = Some (hm_lookup m k)"
  using hm_find_spec [of hash m k]
  by (auto simp: hm_get_def hm_end_def split: option.splits)

lemma hm_new_inv: "0 < unat bc \<Longrightarrow> unat bc \<le> 2 ^ 30 \<Longrightarrow> hm_inv hash (hm_new bc)"
  by (simp add: hm_inv_def hm_new_def)

text \<open>
  C40. A new map driven by any script that puts only keys the map does not hold at that moment, with
  removals at will, never fails and answers every \<open>find\<close> as the mathematical map does, through
  all lazy allocations and rehashes, whatever the hash function is.
\<close>

theorem hash_map_implements_map:
  assumes "0 < unat bc" and "unat bc \<le> 2 ^ 30" and "length ops \<le> 2 ^ 28"
    and "\<forall>i<length ops. \<forall>v. snd (ops ! i) = Some v \<longrightarrow>
      foldl map_op Map.empty (take i ops) (fst (ops ! i)) = None"
  shows "\<exists>m. hm_run hash (hm_new bc) ops = Some m \<and>
    (\<forall>k. hm_get hash m k = Some (foldl map_op Map.empty ops k))"
proof -
  have l: "hm_lookup (hm_new bc) = Map.empty" by (simp add: hm_lookup_def hm_entries_def hm_new_def)
  have "hm_room (hm_new bc) (length ops)" using assms(3) by (simp add: hm_room_def hm_new_def)
  from hmap.run_refines [OF hm_new_inv [OF assms(1,2)] this] assms(4) show ?thesis
    unfolding hm_run_run l using hm_get_spec by metis
qed

theorem hash_map_implements_map_witness:
  "\<exists>m. hm_run id (hm_new 1) [(5, Some True), (9, Some False), (5, None), (5, Some False)] = Some m \<and>
    (\<forall>k. hm_get id m k = Some (foldl map_op Map.empty [(5, Some True), (9, Some False), (5, None), (5, Some False)] k))"
  by (rule hash_map_implements_map) (simp_all add: All_less_Suc map_op_def)

text \<open>
  A range-based loop over a map visits every entry exactly once: the entries it collects have
  distinct keys and are the map itself.
\<close>

theorem iteration_visits_every_entry:
  assumes "hm_inv hash m" and "hm_bucket m = Buckets bs"
  shows "\<exists>it ns. hm_begin m = Some it \<and> it_collect (unat (hm_size m)) bs it = Some ns \<and>
    distinct (map fst ns) \<and> (\<forall>k. hm_get hash m k = Some (map_of ns k))"
proof -
  have "unat (hm_size m) = length (concat bs)" "distinct (map fst (concat bs))"
    using assms by (simp_all add: hm_inv_def)
  moreover have "hm_get hash m k = Some (map_of (concat bs) k)" for k
    using hm_get_spec [OF assms(1), of k] assms(2) by (simp add: hm_lookup_def hm_entries_def)
  ultimately show ?thesis using hm_begin_collect [OF assms(2)] by metis
qed

definition two_entries :: "(u64, bool) hash_map" where
  "two_entries = \<lparr>hm_load_factor = DEFAULT_LOAD_FACTOR, hm_bucket_count = 4, hm_bucket = Buckets [[], [(5, True), (9, False)], [], []], hm_size = 2\<rparr>"

theorem iteration_visits_every_entry_witness:
  "\<exists>it ns. hm_begin two_entries = Some it \<and>
    it_collect (unat (hm_size two_entries)) [[], [(5, True), (9, False)], [], []] it = Some ns \<and>
    distinct (map fst ns) \<and> (\<forall>k. hm_get id two_entries k = Some (map_of ns k))"
proof (rule iteration_visits_every_entry)
  have "placed id [[], [(5 :: u64, True), (9, False)], [], []]" by code_simp
  then show "hm_inv id two_entries" by (simp add: hm_inv_def two_entries_def)
qed (simp add: two_entries_def)

lemma find_chain_filter:
  "(case filter (\<lambda>n. fst n = k) ch of
      [] \<Rightarrow> find_chain k ch = []
    | n # _ \<Rightarrow> \<exists>rest. find_chain k ch = n # rest)"
  by (induction ch) (auto split: list.splits)

lemma placed_filter:
  assumes "placed hash bs" and "bs \<noteq> []"
  shows "filter (\<lambda>n. fst n = k) (concat bs) = filter (\<lambda>n. fst n = k) (bs ! slot hash (length bs) k)"
proof -
  let ?j = "slot hash (length bs) k"
  have j: "?j < length bs" using assms(2) by (simp add: slot_def)
  have none: "filter (\<lambda>n. fst n = k) (concat cs) = []"
    if others: "\<And>c. c \<in> set cs \<Longrightarrow> \<exists>i<length bs. i \<noteq> ?j \<and> c = bs ! i" for cs
  proof -
    have "fst n \<noteq> k" if c: "c \<in> set cs" and n: "n \<in> set c" for c n
      using others [OF c] placedD [OF assms(1)] n by blast
    then show ?thesis by (auto simp: filter_empty_conv)
  qed
  have "filter (\<lambda>n. fst n = k) (concat (take ?j bs)) = []"
  proof (rule none)
    fix c assume "c \<in> set (take ?j bs)"
    then obtain i where "i < ?j" "c = bs ! i" by (auto simp: in_set_conv_nth)
    then show "\<exists>i<length bs. i \<noteq> ?j \<and> c = bs ! i" using j by (intro exI [of _ i]) auto
  qed
  moreover have "filter (\<lambda>n. fst n = k) (concat (drop (Suc ?j) bs)) = []"
  proof (rule none)
    fix c assume "c \<in> set (drop (Suc ?j) bs)"
    then obtain i where "i < length bs - Suc ?j" "c = bs ! (Suc ?j + i)" by (auto simp: in_set_conv_nth)
    then show "\<exists>i<length bs. i \<noteq> ?j \<and> c = bs ! i" by (intro exI [of _ "Suc ?j + i"]) auto
  qed
  ultimately show ?thesis by (subst concat_split [OF j]) simp
qed

text \<open>
  Putting a key a second time does not replace its value: both entries stay, \<open>find\<close> returns
  the newer one, and the next rehash turns the order around so that \<open>find\<close> returns the older
  value again.
\<close>

theorem rehash_resurrects_old_value:
  assumes "hm_bucket m = Buckets bs" and "placed hash bs" and "length bs = unat (hm_bucket_count m)"
    and "0 < length bs" and "length bs \<le> 2 ^ 31" and "0 < unat bc" and "unat bc \<le> 2 ^ 31"
    and "filter (\<lambda>n. fst n = k) (concat bs) = [(k, new), (k, old)]"
  shows "\<exists>m'. hm_get hash m k = Some (Some new) \<and> hm_rehash hash bc m = Some m' \<and>
    hm_get hash m' k = Some (Some old)"
proof -
  have get: "hm_get hash n k = Some (Some v)"
    if "hm_bucket n = Buckets cs" "placed hash cs" "length cs = unat (hm_bucket_count n)" "0 < length cs"
      "length cs \<le> 2 ^ 31" "filter (\<lambda>n. fst n = k) (concat cs) = (k, v) # ns" for n :: "('a, 'b) hash_map" and cs v ns
  proof -
    have "cs \<noteq> []" using that(4) by auto
    then have f: "filter (\<lambda>n. fst n = k) (cs ! slot hash (length cs) k) = (k, v) # ns"
      using placed_filter [OF that(2), of k] that(6) by simp
    obtain rest where "find_chain k (cs ! slot hash (length cs) k) = (k, v) # rest"
      using find_chain_filter [where k = k and ch = "cs ! slot hash (length cs) k"] unfolding f by auto
    then show ?thesis
      using hm_index_small [of "hm_bucket_count n" hash k] that(1,3,4,5)
      by (simp add: hm_get_def hm_find_def hm_end_def)
  qed
  obtain bs' where r: "hm_rehash hash bc m = Some (m\<lparr>hm_bucket_count := bc, hm_bucket := Buckets bs'\<rparr>)"
    "length bs' = unat bc"
    "\<forall>j<unat bc. bs' ! j = rev (filter (\<lambda>n. slot hash (unat bc) (fst n) = j) (concat bs))"
    using hm_rehash_spec [OF assms(6,7,1), of hash] by blast
  let ?j = "slot hash (unat bc) k"
  have j: "?j < unat bc" using assms(6) by (simp add: slot_def)
  have pl: "placed hash bs'" by (rule placed_rehash [OF r(2,3)])
  have "filter (\<lambda>n. fst n = k) (concat bs') = filter (\<lambda>n. fst n = k) (bs' ! ?j)"
    using placed_filter [OF pl, of k] r(2) assms(6) by (cases "bs' = []") auto
  also have "\<dots> = rev (filter (\<lambda>n. fst n = k \<and> slot hash (unat bc) (fst n) = ?j) (concat bs))"
    using r(3) j by (simp add: rev_filter [symmetric] conj_commute)
  also have "(\<lambda>n. fst n = k \<and> slot hash (unat bc) (fst n) = ?j) = (\<lambda>n. fst n = k)" by auto
  finally have "filter (\<lambda>n. fst n = k) (concat bs') = [(k, old), (k, new)]" using assms(8) by simp
  then have "hm_get hash (m\<lparr>hm_bucket_count := bc, hm_bucket := Buckets bs'\<rparr>) k = Some (Some old)"
    using pl r(2) assms(6,7) by (intro get [of _ bs']) simp_all
  moreover have "hm_get hash m k = Some (Some new)"
    by (rule get [OF assms(1,2,3,4,5,8)])
  ultimately show ?thesis using r(1) by blast
qed

theorem rehash_resurrects_old_value_witness:
  "\<exists>m'. hm_get id \<lparr>hm_load_factor = DEFAULT_LOAD_FACTOR, hm_bucket_count = 2, hm_bucket = Buckets [[], [(5, True), (5, False)]], hm_size = 2\<rparr> (5 :: u64) =
      Some (Some True) \<and>
    hm_rehash id 4 \<lparr>hm_load_factor = DEFAULT_LOAD_FACTOR, hm_bucket_count = 2, hm_bucket = Buckets [[], [(5, True), (5, False)]], hm_size = 2\<rparr> = Some m' \<and>
    hm_get id m' 5 = Some (Some False)"
proof (rule rehash_resurrects_old_value)
  show "placed id [[], [(5, True), (5 :: u64, False)]]" by code_simp
qed simp_all

text \<open>The move assignment loses the content: \<open>this\<close> keeps its own and the other map is empty.\<close>

lemma hm_move_assign_drops_content: "hm_move_assign this other = (this, hm_moved_from other)"
  by (simp add: hm_move_assign_def hm_move_def hm_swap_def hm_moved_from_def)

end
