(* ===== verification/Page_Frames.thy ===== *)
theory Page_Frames
  imports Memory_Regions "HOL-Library.Monad_Syntax"
begin

text \<open>
  The physical memory manager: \<^verbatim>\<open>Kernel/Src/Memory/PhysicalMemoryManager.cpp\<close> and its only
  implementation, \<^verbatim>\<open>Kernel/Src/Memory/BitMapAllocator.cpp\<close>. One bit per page frame says whether the
  frame is in use. The bitmap is a list of bytes; reading or writing past its end is \<open>None\<close>.

  \<open>frame_used\<close> reads the bitmap as a set of frames; \<open>pmm_ok\<close> is what \<open>start\<close> establishes. The
  lemmas say which frames each operation takes, gives back and leaves alone.
\<close>

section \<open>State\<close>

record pmm =
  page_size :: u64
  mem_base :: physical_addr
  mem_size :: u32
  mem_map :: memory_map
  pmm_init :: bool
  largest_free_block :: memory_size
  bitmap_addr :: virtual_addr
  bitmap :: "u8 list"
  p_bitmap :: physical_addr
  bitmap_size :: u32

datatype pmm_start_failure =
  PMM_NONE | MEMORY_RANGE_DETECTION_FAILED | OUT_OF_MEMORY | MEMORY_INDEX_INIT_FAILED

definition pmm_new :: pmm where
  "pmm_new = \<lparr>page_size = 0, mem_base = 0, mem_size = 0,
     mem_map = \<lparr>mm_map = [], mm_free = 0, mm_reserved = 0, mm_num = 0\<rparr>, pmm_init = False,
     largest_free_block = 0, bitmap_addr = 0, bitmap = [], p_bitmap = 0, bitmap_size = 0\<rparr>"

definition INVALID_PAGE :: u32 where
  "INVALID_PAGE = - 1"

text \<open>The regions a range-based loop over the memory map visits.\<close>

definition regions_of :: "pmm \<Rightarrow> memory_region list" where
  "regions_of s = take (mm_num (mem_map s)) (mm_map (mem_map s))"

section \<open>Addresses and frames\<close>

definition to_page_frame :: "pmm \<Rightarrow> physical_addr \<Rightarrow> u32" where
  "to_page_frame s addr = ucast ((addr - mem_base s) div page_size s)"

definition to_page_frame_round_up :: "pmm \<Rightarrow> physical_addr \<Rightarrow> u32" where
  "to_page_frame_round_up s addr = ucast (div_round_up (addr - mem_base s) (page_size s))"

definition to_address :: "pmm \<Rightarrow> u32 \<Rightarrow> physical_addr" where
  "to_address s page_frame = mem_base s + ucast page_frame * page_size s"

fun memory_range :: "memory_region list \<Rightarrow> physical_addr \<times> physical_addr \<Rightarrow> physical_addr \<times> physical_addr" where
  "memory_range [] (base, mem_end) = (base, mem_end)"
| "memory_range (reg # regs) (base, mem_end) =
     (if rtype reg = NONE then memory_range regs (base, mem_end)
      else memory_range regs (min_of base (rstart reg), max_of mem_end (region_end reg)))"

definition detect_memory_range :: "pmm \<Rightarrow> pmm \<times> bool" where
  "detect_memory_range s =
     (let (base, mem_end) = memory_range (regions_of s) (- 1, 0)
      in if mem_end = 0 then (s\<lparr>mem_base := base\<rparr>, False)
         else (s\<lparr>mem_base := base, mem_size := ucast ((mem_end - base) div page_size s)\<rparr>, True))"

section \<open>The bitmap\<close>

text \<open>\<open>is_free\<close> takes every frame above \<open>mem_size\<close> for free.\<close>

definition is_free :: "pmm \<Rightarrow> u32 \<Rightarrow> bool option" where
  "is_free s page_frame =
     (if page_frame > mem_size s then Some True
      else let byte = unat (page_frame div 8); bit = unat (page_frame mod 8)
           in if byte < length (bitmap s)
              then Some (bitmap s ! byte AND push_bit bit 1 = 0)
              else None)"

definition mark :: "pmm \<Rightarrow> u32 \<Rightarrow> bool \<Rightarrow> pmm option" where
  "mark s page_frame in_use =
     (let byte = unat (page_frame div 8); bit = unat (page_frame mod 8); b = bitmap s ! byte
      in if byte < length (bitmap s)
         then Some (s\<lparr>bitmap := (bitmap s)[byte :=
                (if in_use then b OR push_bit bit 1 else b AND NOT (push_bit bit 1))]\<rparr>)
         else None)"

function mark_loop :: "u32 \<Rightarrow> u32 \<Rightarrow> bool \<Rightarrow> pmm \<Rightarrow> pmm option" where
  "mark_loop i stop in_use s =
     (if i < stop then do { s \<leftarrow> mark s i in_use; mark_loop (i + 1) stop in_use s } else Some s)"
  by pat_completeness auto

termination mark_loop
  by (relation "measure (\<lambda>(i, stop, _). unat stop - unat i)")
     (auto simp: unat_Suc_below word_less_nat_alt)

definition mark_memory_block :: "pmm \<Rightarrow> u32 \<Rightarrow> u32 \<Rightarrow> bool \<Rightarrow> (pmm \<times> bool) option" where
  "mark_memory_block s base sz in_use =
     (if base < to_page_frame s (mem_base s) \<or>
         base + sz > to_page_frame s (mem_base s) + mem_size s
      then Some (s, False)
      else do { s \<leftarrow> mark_loop base (base + sz) in_use s; Some (s, True) })"

definition mark_memory_region :: "pmm \<Rightarrow> physical_addr \<Rightarrow> u64 \<Rightarrow> bool \<Rightarrow> (pmm \<times> bool) option" where
  "mark_memory_region s base_bytes size_bytes in_use =
     (let (base, sz) =
        (if in_use
         then (to_page_frame s base_bytes, ucast (div_round_up size_bytes (page_size s)))
         else (to_page_frame_round_up s base_bytes, ucast (size_bytes div page_size s)))
      in mark_memory_block s base sz in_use)"

text \<open>The first-fit search: the start and the length of the current run of free frames.\<close>

function find_free_loop :: "pmm \<Rightarrow> u64 \<Rightarrow> u64 \<Rightarrow> u64 \<Rightarrow> u64 \<Rightarrow> u32 option" where
  "find_free_loop s frames i region_start region_size =
     (if i < ucast (mem_size s) then do {
        free \<leftarrow> is_free s (ucast i);
        if free
        then if region_size + 1 \<ge> frames then Some (ucast region_start)
             else find_free_loop s frames (i + 1) region_start (region_size + 1)
        else find_free_loop s frames (i + 1) (i + 1) 0 }
      else Some INVALID_PAGE)"
  by pat_completeness auto

termination find_free_loop
  by (relation "measure (\<lambda>(s, _, i, _). unat (ucast (mem_size s) :: u64) - unat i)")
     (auto simp: unat_Suc_below word_less_nat_alt)

definition find_free_region :: "pmm \<Rightarrow> u64 \<Rightarrow> u32 option" where
  "find_free_region s frames = find_free_loop s frames 0 0 0"

text \<open>0 for an unprotected range, -1 for the bitmap, -2 for reserved memory.\<close>

definition is_reserved_or_bit_map_address :: "pmm \<Rightarrow> physical_addr \<Rightarrow> u64 \<Rightarrow> int" where
  "is_reserved_or_bit_map_address s p_addr frames =
     (let end_addr = p_addr + frames * page_size s
      in if pmm_init s \<and> p_bitmap s < end_addr \<and>
            p_addr < memory_align (p_bitmap s + ucast (bitmap_size s)) (page_size s) False
         then - 1
         else if list_ex (\<lambda>region. rtype region \<noteq> USABLE \<and>
                region_contains region
                  \<lparr>rstart = p_addr, rsize = ucast (ucast frames :: u32) * page_size s, rtype = NONE\<rparr>)
              (regions_of s)
         then - 2 else 0)"

section \<open>Start-up\<close>

definition compute_memory_index_size :: "pmm \<Rightarrow> pmm \<times> memory_size" where
  "compute_memory_index_size s =
     (let n = div_round_up (mem_size s) 8 in (s\<lparr>bitmap_size := n\<rparr>, ucast n))"

fun mark_usable :: "memory_region list \<Rightarrow> pmm \<Rightarrow> (pmm \<times> bool) option" where
  "mark_usable [] s = Some (s, True)"
| "mark_usable (r # regs) s =
     (if rtype r = USABLE then do {
        (s, ok) \<leftarrow> mark_memory_region s (rstart r) (rsize r) False;
        if ok then mark_usable regs s else Some (s, False) }
      else mark_usable regs s)"

definition init0 :: "pmm \<Rightarrow> virtual_addr \<Rightarrow> physical_addr \<Rightarrow> (pmm \<times> bool) option" where
  "init0 s memory_index p_memory_index = do {
     let s = s\<lparr>bitmap_addr := memory_index, p_bitmap := p_memory_index,
              bitmap := replicate (unat (bitmap_size s)) 0xFF\<rparr>;
     (s, ok) \<leftarrow> mark_usable (regions_of s) s;
     if \<not> ok then Some (s, False)
     else do {
       (s, good) \<leftarrow> mark_memory_region s p_memory_index (ucast (bitmap_size s)) True;
       let mi_reg = \<lparr>rstart = p_memory_index, rsize = ucast (bitmap_size s), rtype = RESERVED\<rparr>;
       let (s, good) = (if good
          then let (mm, _, claimed) = claim (mem_map s) mi_reg (ucast (page_size s))
               in (s\<lparr>mem_map := mm\<rparr>, claimed)
          else (s, False));
       Some (if good then s\<lparr>pmm_init := True\<rparr> else s, good) } }"

text \<open>The first usable region that can hold the bitmap; the others only enter the statistics.\<close>

fun find_index_home :: "memory_region list \<Rightarrow> memory_size \<Rightarrow> memory_size \<Rightarrow> physical_addr \<times> memory_size" where
  "find_index_home [] need largest = (- 1, largest)"
| "find_index_home (reg # regs) need largest =
     (if rtype reg = USABLE \<and> rsize reg \<ge> need then (rstart reg, largest)
      else find_index_home regs need (max_of largest (rsize reg)))"

definition pmm_start :: "pmm \<Rightarrow> memory_map \<Rightarrow> u64 \<Rightarrow> virtual_addr \<Rightarrow> (pmm \<times> pmm_start_failure) option" where
  "pmm_start s mm page_sz memory_index_offset =
     (let (s, found) = detect_memory_range (s\<lparr>page_size := page_sz, mem_map := mm\<rparr>)
      in if \<not> found then Some (s, MEMORY_RANGE_DETECTION_FAILED)
         else let (s, need) = compute_memory_index_size s;
                  (p, largest) = find_index_home (regions_of s) need (largest_free_block s);
                  s = s\<lparr>largest_free_block := largest\<rparr>
              in if p = - 1 then Some (s, OUT_OF_MEMORY)
                 else do {
                   (s, ok) \<leftarrow> init0 s (p + memory_index_offset) p;
                   Some (s, if ok then PMM_NONE else MEMORY_INDEX_INIT_FAILED) })"

definition get_memory_index_region :: "pmm \<Rightarrow> memory_region" where
  "get_memory_index_region s = \<lparr>rstart = p_bitmap s, rsize = ucast (bitmap_size s), rtype = RESERVED\<rparr>"

definition get_managed_memory :: "pmm \<Rightarrow> memory_region" where
  "get_managed_memory s =
     \<lparr>rstart = mem_base s, rsize = mem_base s - 1 + ucast (mem_size s) * page_size s, rtype = RESERVED\<rparr>"

definition relocate_memory_index :: "pmm \<Rightarrow> virtual_addr \<Rightarrow> pmm" where
  "relocate_memory_index s memory_index = s\<lparr>bitmap_addr := memory_index\<rparr>"

text \<open>
  Claiming the boot loader's memory: the loop fixes its last index when it starts but reads each
  region from the map as the earlier claims left it.
\<close>

fun claim_reclaimable :: "nat \<Rightarrow> nat \<Rightarrow> pmm \<Rightarrow> bool \<Rightarrow> (pmm \<times> bool) option" where
  "claim_reclaimable 0 i s success = Some (s, success)"
| "claim_reclaimable (Suc n) i s success =
     (let r = mm_map (mem_map s) ! i
      in if rtype r = BOOTLOADER_RECLAIMABLE
         then let (mm, _, claimed) = claim (mem_map s) (r\<lparr>rtype := USABLE\<rparr>) (ucast (page_size s));
                  s = s\<lparr>mem_map := mm\<rparr>; r = mm_map mm ! i
              in do { (s, marked) \<leftarrow> mark_memory_region s (rstart r) (rsize r) False;
                      claim_reclaimable n (Suc i) s (success \<and> claimed \<and> marked) }
         else claim_reclaimable n (Suc i) s success)"

definition claim_boot_loader_reclaimable_memory :: "pmm \<Rightarrow> (pmm \<times> bool) option" where
  "claim_boot_loader_reclaimable_memory s = claim_reclaimable (mm_num (mem_map s)) 0 s True"

section \<open>Allocation\<close>

text \<open>\<open>allocate\<close> ignores whether \<open>mark_memory_block\<close> accepted the range. \<open>Some address\<close> is \<open>true\<close>.\<close>

definition allocate :: "pmm \<Rightarrow> u64 \<Rightarrow> (pmm \<times> physical_addr option) option" where
  "allocate s frames = do {
     base \<leftarrow> find_free_region s frames;
     if base = INVALID_PAGE then Some (s, None)
     else do {
       (s, _) \<leftarrow> mark_memory_block s base (ucast frames) True;
       Some (s, Some (to_address s base)) } }"

text \<open>The check of \<open>allocate_explicit\<close>: \<open>i\<close> counts in 64 bits, \<open>is_free\<close> sees 32 of them.\<close>

function all_free_loop :: "pmm \<Rightarrow> u64 \<Rightarrow> u64 \<Rightarrow> bool option" where
  "all_free_loop s i stop =
     (if i < stop then do {
        free \<leftarrow> is_free s (ucast i);
        if free then all_free_loop s (i + 1) stop else Some False }
      else Some True)"
  by pat_completeness auto

termination all_free_loop
  by (relation "measure (\<lambda>(s, i, stop). unat stop - unat i)")
     (auto simp: unat_Suc_below word_less_nat_alt)

definition allocate_explicit :: "pmm \<Rightarrow> physical_addr \<Rightarrow> u64 \<Rightarrow> (pmm \<times> bool) option" where
  "allocate_explicit s p_addr frames =
     (if is_reserved_or_bit_map_address s p_addr frames < 0 then Some (s, False)
      else let base = to_page_frame s p_addr
           in do {
             ok \<leftarrow> all_free_loop s (ucast base) (ucast base + frames);
             if \<not> ok then Some (s, False)
             else mark_memory_block s base (ucast frames) True })"

definition pmm_free :: "pmm \<Rightarrow> physical_addr \<Rightarrow> u64 \<Rightarrow> (pmm \<times> bool) option" where
  "pmm_free s p_addr frames =
     (if is_reserved_or_bit_map_address s p_addr frames < 0 then Some (s, False)
      else mark_memory_region s p_addr (frames * page_size s) False)"

section \<open>Reading the frame states\<close>

definition frame_type :: "bool \<Rightarrow> memory_region_type" where
  "frame_type free = (if free then USABLE else USED)"

function read_states_loop ::
  "pmm \<Rightarrow> nat \<Rightarrow> u64 \<Rightarrow> u64 \<Rightarrow> memory_region \<Rightarrow> memory_region list \<Rightarrow> (memory_region \<times> memory_region list) option" where
  "read_states_loop s buf_size i e r buf =
     (if i < e \<and> length buf < buf_size then do {
        free \<leftarrow> is_free s (ucast i);
        if rtype r \<noteq> frame_type free
        then read_states_loop s buf_size (i + 1) e
               \<lparr>rstart = to_address s (ucast i), rsize = page_size s, rtype = frame_type free\<rparr> (buf @ [r])
        else read_states_loop s buf_size (i + 1) e (r\<lparr>rsize := rsize r + page_size s\<rparr>) buf }
      else Some (r, buf))"
  by pat_completeness auto

termination read_states_loop
  by (relation "measure (\<lambda>(s, _, i, e, _). unat e - unat i)")
     (auto simp: unat_Suc_below word_less_nat_alt)

text \<open>The filled prefix of the caller's buffer; its length is the returned count.\<close>

definition read_page_frame_states :: "pmm \<Rightarrow> nat \<Rightarrow> physical_addr \<Rightarrow> physical_addr \<Rightarrow> memory_region list option" where
  "read_page_frame_states s buf_size start end_addr =
     (let limit = mem_base s + ucast (mem_size s) * page_size s
      in if start < mem_base s \<or> end_addr > limit then Some []
         else let start = (if memory_is_aligned start (page_size s) then start
                           else memory_align start (page_size s) False);
                  end_addr = (if memory_is_aligned end_addr (page_size s) then end_addr
                              else min_of (memory_align end_addr (page_size s) True) limit);
                  f = to_page_frame s start; e = to_page_frame s end_addr
              in do {
                free \<leftarrow> is_free s f;
                (r, buf) \<leftarrow> read_states_loop s buf_size (ucast (f + 1)) (ucast e)
                  \<lparr>rstart = start, rsize = page_size s, rtype = frame_type free\<rparr> [];
                Some (if length buf < buf_size then buf @ [r] else buf) })"


declare mark_loop.simps [simp del] find_free_loop.simps [simp del] all_free_loop.simps [simp del]
  read_states_loop.simps [simp del]

section \<open>The bitmap as a set of frames\<close>

definition frame_used :: "pmm \<Rightarrow> nat \<Rightarrow> bool" where
  "frame_used s f = bit (bitmap s ! (f div 8)) (f mod 8)"

definition pmm_ok :: "pmm \<Rightarrow> bool" where
  "pmm_ok s \<longleftrightarrow> unat (mem_size s) \<le> 8 * length (bitmap s) \<and> 0 < unat (page_size s) \<and>
     unat (mem_base s) + unat (mem_size s) * unat (page_size s) < 2 ^ 64"

text \<open>\<open>s'\<close> is \<open>s\<close> with the frames of \<open>A\<close> in the state \<open>used\<close> and every other frame as it was.\<close>

definition frames_set :: "pmm \<Rightarrow> nat set \<Rightarrow> bool \<Rightarrow> pmm \<Rightarrow> bool" where
  "frames_set s A used s' \<longleftrightarrow> s' = s\<lparr>bitmap := bitmap s'\<rparr> \<and> length (bitmap s') = length (bitmap s) \<and>
     (\<forall>f < 8 * length (bitmap s). frame_used s' f = (if f \<in> A then used else frame_used s f))"

lemma frames_set_fields:
  assumes "frames_set s A used s'"
  shows "page_size s' = page_size s" "mem_base s' = mem_base s" "mem_size s' = mem_size s"
    "mem_map s' = mem_map s" "pmm_init s' = pmm_init s" "p_bitmap s' = p_bitmap s"
    "bitmap_size s' = bitmap_size s" "length (bitmap s') = length (bitmap s)"
    "pmm_ok s' = pmm_ok s" "regions_of s' = regions_of s"
proof -
  obtain b where b: "s' = s\<lparr>bitmap := b\<rparr>" "length b = length (bitmap s)"
    using assms by (metis frames_set_def)
  show "page_size s' = page_size s" "mem_base s' = mem_base s" "mem_size s' = mem_size s"
    "mem_map s' = mem_map s" "pmm_init s' = pmm_init s" "p_bitmap s' = p_bitmap s"
    "bitmap_size s' = bitmap_size s" "length (bitmap s') = length (bitmap s)"
    "pmm_ok s' = pmm_ok s" "regions_of s' = regions_of s"
    by (simp_all add: b pmm_ok_def regions_of_def)
qed

lemma frames_set_refl: "frames_set s {} used s"
  by (simp add: frames_set_def)

lemma frames_set_trans:
  assumes "frames_set s A used s'" and "frames_set s' B used s''"
  shows "frames_set s (A \<union> B) used s''"
proof -
  obtain b where "s' = s\<lparr>bitmap := b\<rparr>" using assms(1) by (metis frames_set_def)
  with assms show ?thesis unfolding frames_set_def by auto
qed

lemma div8_bound: "f < 8 * n \<Longrightarrow> f div 8 < (n::nat)"
  by (simp add: less_mult_imp_div_less mult.commute)

lemma div_mod_8: "unat (f div 8 :: u32) = unat f div 8" "unat (f mod 8 :: u32) = unat f mod 8"
  by (simp_all add: unat_div_word unat_mod_word)

lemma is_free_spec:
  assumes "unat f < unat (mem_size s)" and "unat (mem_size s) \<le> 8 * length (bitmap s)"
  shows "is_free s f = Some (\<not> frame_used s (unat f))"
proof -
  have "unat f div 8 < length (bitmap s)" using assms by (intro div8_bound) simp
  moreover have "\<not> f > mem_size s" using assms(1) by (simp add: word_less_nat_alt)
  ultimately show ?thesis
    by (simp add: is_free_def Let_def div_mod_8 frame_used_def bit_iff_and_push_bit_not_eq_0)
qed

lemma mark_spec:
  assumes "unat f < 8 * length (bitmap s)"
  shows "\<exists>s'. mark s f in_use = Some s' \<and> frames_set s {unat f} in_use s'"
proof -
  have b: "unat f div 8 < length (bitmap s)" by (rule div8_bound [OF assms])
  let ?w = "bitmap s ! (unat f div 8)"
  let ?v = "if in_use then ?w OR push_bit (unat f mod 8) 1 else ?w AND NOT (push_bit (unat f mod 8) 1)"
  have bits: "bit ?v n = (if n = unat f mod 8 then in_use else bit ?w n)" if "n < 8" for n
    using that by (auto simp: bit_or_iff bit_and_iff bit_not_iff bit_exp_iff)
  have "frame_used (s\<lparr>bitmap := (bitmap s)[unat f div 8 := ?v]\<rparr>) g =
      (if g = unat f then in_use else frame_used s g)" if "g < 8 * length (bitmap s)" for g
  proof (cases "g div 8 = unat f div 8")
    case True
    then have "g = unat f \<longleftrightarrow> g mod 8 = unat f mod 8" by (metis mult_div_mod_eq)
    then show ?thesis using True b bits [of "g mod 8"] by (simp add: frame_used_def)
  next
    case False
    then show ?thesis by (auto simp: frame_used_def)
  qed
  then show ?thesis using b by (simp add: mark_def Let_def div_mod_8 frames_set_def)
qed

lemma mark_loop_spec:
  assumes "unat i \<le> unat stop" and "unat stop \<le> 8 * length (bitmap s)"
  shows "\<exists>s'. mark_loop i stop in_use s = Some s' \<and> frames_set s {unat i..<unat stop} in_use s'"
  using assms
proof (induction i stop in_use s rule: mark_loop.induct)
  case (1 i stop in_use s)
  show ?case
  proof (cases "i < stop")
    case False
    then show ?thesis using 1(2) frames_set_refl [of s in_use]
      by (simp add: word_less_nat_alt mark_loop.simps [of i])
  next
    case True
    have lt: "unat i < unat stop" using True by (simp add: word_less_nat_alt)
    obtain s1 where s1: "mark s i in_use = Some s1" "frames_set s {unat i} in_use s1"
      using mark_spec [of i s in_use] lt 1(3) by auto
    have "\<exists>s'. mark_loop (i + 1) stop in_use s1 = Some s' \<and> frames_set s1 {unat (i + 1)..<unat stop} in_use s'"
      by (rule 1(1) [OF True s1(1)])
         (use lt 1(3) frames_set_fields(8) [OF s1(2)] in \<open>simp_all add: unat_Suc_below [OF True]\<close>)
    then obtain s2 where s2: "mark_loop (i + 1) stop in_use s1 = Some s2"
      "frames_set s1 {unat (i + 1)..<unat stop} in_use s2" by blast
    have "{unat i} \<union> {unat (i + 1)..<unat stop} = {unat i..<unat stop}"
      using lt by (auto simp: unat_Suc_below [OF True])
    with frames_set_trans [OF s1(2) s2(2)] s1(1) s2(1) True show ?thesis
      by (simp add: mark_loop.simps [of i])
  qed
qed

lemma mark_memory_block_spec:
  assumes "pmm_ok s" and "unat base + unat sz \<le> unat (mem_size s)"
  shows "\<exists>s'. mark_memory_block s base sz in_use = Some (s', True) \<and>
    frames_set s {unat base..<unat base + unat sz} in_use s'"
proof -
  have u: "unat (base + sz) = unat base + unat sz"
    by (rule unat_plus_no_wrap [OF below_word_size [OF assms(2)]])
  have "\<not> base + sz > mem_size s" using assms(2) u by (simp add: word_less_nat_alt)
  moreover have "unat (base + sz) \<le> 8 * length (bitmap s)" using assms u by (simp add: pmm_ok_def)
  ultimately show ?thesis
    using mark_loop_spec [of base "base + sz" s in_use] u
    by (auto simp: mark_memory_block_def to_page_frame_def)
qed

section \<open>First fit\<close>

definition run_free :: "pmm \<Rightarrow> nat \<Rightarrow> nat \<Rightarrow> bool" where
  "run_free s b n \<longleftrightarrow> (\<forall>f. b \<le> f \<and> f < b + n \<longrightarrow> \<not> frame_used s f)"

lemma find_free_loop_spec:
  assumes "pmm_ok s" and "unat i \<le> unat (mem_size s)" and "unat st + unat sz = unat i"
    and "unat sz < unat n" and "run_free s (unat st) (unat sz)"
    and "\<forall>b < unat st. \<exists>f. b \<le> f \<and> f < b + unat n \<and> f < unat st \<and> frame_used s f"
  shows "\<exists>r. find_free_loop s n i st sz = Some r \<and>
    (if r = INVALID_PAGE
     then \<forall>b. b + unat n \<le> unat (mem_size s) \<longrightarrow> \<not> run_free s b (unat n)
     else unat r + unat n \<le> unat (mem_size s) \<and> run_free s (unat r) (unat n) \<and>
       (\<forall>b < unat r. \<not> run_free s b (unat n)))"
  using assms
proof (induction s n i st sz rule: find_free_loop.induct)
  case (1 s n i st sz)
  note ok = 1(3)
  have ms: "unat (ucast (mem_size s) :: u64) = unat (mem_size s)" by (rule unat_ucast_32_64)
  show ?case
  proof (cases "i < ucast (mem_size s)")
    case False
    then have i: "unat i = unat (mem_size s)" using 1(4) by (simp add: word_less_nat_alt ms)
    have "\<not> run_free s b (unat n)" if "b + unat n \<le> unat (mem_size s)" for b
    proof -
      have "b < unat st" using that i 1(5,6) by linarith
      with 1(8) show ?thesis by (auto simp: run_free_def)
    qed
    then show ?thesis using False by (simp add: find_free_loop.simps [of s n i])
  next
    case True
    have lt: "unat i < unat (mem_size s)" using True by (simp add: word_less_nat_alt ms)
    have ui: "unat (i + 1) = Suc (unat i)" by (rule unat_Suc_below [OF True])
    have u32: "unat (ucast i :: u32) = unat i"
      by (rule unat_ucast_64_32 [OF below_u32 [of _ "mem_size s"]]) (use lt in simp)
    have fr: "is_free s (ucast i) = Some (\<not> frame_used s (unat i))"
      using is_free_spec [of "ucast i" s] lt ok by (simp add: u32 pmm_ok_def)
    show ?thesis
    proof (cases "frame_used s (unat i)")
      case used: True
      have "\<exists>f. b \<le> f \<and> f < b + unat n \<and> f < unat (i + 1) \<and> frame_used s f" if "b < unat (i + 1)" for b
      proof (cases "b < unat st")
        case True
        with 1(8) 1(5) ui show ?thesis by fastforce
      next
        case False
        with used that ui 1(5,6) show ?thesis by (intro exI [of _ "unat i"]) auto
      qed
      then have "\<exists>r. find_free_loop s n (i + 1) (i + 1) 0 = Some r \<and>
          (if r = INVALID_PAGE
           then \<forall>b. b + unat n \<le> unat (mem_size s) \<longrightarrow> \<not> run_free s b (unat n)
           else unat r + unat n \<le> unat (mem_size s) \<and> run_free s (unat r) (unat n) \<and>
             (\<forall>b < unat r. \<not> run_free s b (unat n)))"
        using True fr used lt ui 1(6) by (intro 1(2)) (auto simp: ok run_free_def)
      then show ?thesis using True fr used by (simp add: find_free_loop.simps [of s n i])
    next
      case free: False
      have usz: "unat (sz + 1) = Suc (unat sz)" using 1(6) by (intro unat_Suc_below) (simp add: word_less_nat_alt)
      have run: "run_free s (unat st) (Suc (unat sz))"
        using 1(5,7) free by (auto simp: run_free_def less_Suc_eq)
      show ?thesis
      proof (cases "sz + 1 \<ge> n")
        case True2: True
        have n: "unat n = Suc (unat sz)" using True2 1(6) usz by (simp add: word_le_nat_alt)
        have ust: "unat (ucast st :: u32) = unat st"
          by (rule unat_ucast_64_32 [OF below_u32 [of _ "mem_size s"]]) (use lt 1(5) in simp)
        have "Suc (unat st) < 2 ^ 32"
          by (rule below_u32 [of _ "mem_size s"]) (use lt 1(5) in simp)
        then have inv: "(ucast st :: u32) \<noteq> INVALID_PAGE"
          using ust by (auto simp: INVALID_PAGE_def unsigned_minus_1_eq_mask mask_eq_exp_minus_1)
        have "\<not> run_free s b (unat n)" if "b < unat st" for b
          using 1(8) that by (auto simp: run_free_def)
        then show ?thesis using True fr free True2 inv run n lt 1(5) ust
          by (simp add: find_free_loop.simps [of s n i])
      next
        case False
        have "\<exists>r. find_free_loop s n (i + 1) st (sz + 1) = Some r \<and>
          (if r = INVALID_PAGE
           then \<forall>b. b + unat n \<le> unat (mem_size s) \<longrightarrow> \<not> run_free s b (unat n)
           else unat r + unat n \<le> unat (mem_size s) \<and> run_free s (unat r) (unat n) \<and>
             (\<forall>b < unat r. \<not> run_free s b (unat n)))"
          by (rule 1(1)) (use True fr free lt ui usz run False 1(5,6,8) in \<open>auto simp: ok word_le_nat_alt\<close>)
        then show ?thesis using True fr free False by (simp add: find_free_loop.simps [of s n i])
      qed
    qed
  qed
qed

lemma find_free_region_spec:
  assumes "pmm_ok s" and "0 < unat n"
  shows "\<exists>r. find_free_region s n = Some r \<and>
    (if r = INVALID_PAGE
     then \<forall>b. b + unat n \<le> unat (mem_size s) \<longrightarrow> \<not> run_free s b (unat n)
     else unat r + unat n \<le> unat (mem_size s) \<and> run_free s (unat r) (unat n) \<and>
       (\<forall>b < unat r. \<not> run_free s b (unat n)))"
  unfolding find_free_region_def
  by (rule find_free_loop_spec) (use assms in \<open>simp_all add: run_free_def\<close>)


section \<open>What the operations do\<close>

definition frame_lo :: "pmm \<Rightarrow> nat \<Rightarrow> nat" where
  "frame_lo s f = unat (mem_base s) + f * unat (page_size s)"

lemma frame_lo_bound:
  assumes "pmm_ok s" and "f \<le> unat (mem_size s)"
  shows "frame_lo s f < 2 ^ 64"
proof -
  have "f * unat (page_size s) \<le> unat (mem_size s) * unat (page_size s)" using assms(2) by (rule mult_le_mono1)
  moreover have "unat (mem_base s) + unat (mem_size s) * unat (page_size s) < 2 ^ 64"
    using assms(1) by (simp add: pmm_ok_def)
  ultimately show ?thesis unfolding frame_lo_def by linarith
qed

lemma unat_to_address:
  assumes "pmm_ok s" and "unat f \<le> unat (mem_size s)"
  shows "unat (to_address s f) = frame_lo s (unat f)"
proof -
  have "frame_lo s (unat f) < 2 ^ 64" by (rule frame_lo_bound [OF assms])
  then have m: "unat (ucast f * page_size s) = unat f * unat (page_size s)"
    by (subst unat_mult_no_wrap) (simp_all add: frame_lo_def unat_ucast_32_64)
  with \<open>frame_lo s (unat f) < 2 ^ 64\<close> show ?thesis
    unfolding to_address_def by (subst unat_plus_no_wrap) (simp_all add: frame_lo_def)
qed

lemma allocate_spec:
  assumes "pmm_ok s" and "0 < unat n"
  shows "(\<exists>s' f. allocate s n = Some (s', Some (to_address s f)) \<and>
      unat f + unat n \<le> unat (mem_size s) \<and> run_free s (unat f) (unat n) \<and>
      (\<forall>b < unat f. \<not> run_free s b (unat n)) \<and>
      frames_set s {unat f..<unat f + unat n} True s') \<or>
    (allocate s n = Some (s, None) \<and>
      (\<forall>b. b + unat n \<le> unat (mem_size s) \<longrightarrow> \<not> run_free s b (unat n)))"
proof -
  obtain r where r: "find_free_region s n = Some r"
    "if r = INVALID_PAGE
     then \<forall>b. b + unat n \<le> unat (mem_size s) \<longrightarrow> \<not> run_free s b (unat n)
     else unat r + unat n \<le> unat (mem_size s) \<and> run_free s (unat r) (unat n) \<and>
       (\<forall>b < unat r. \<not> run_free s b (unat n))"
    using find_free_region_spec [OF assms] by blast
  show ?thesis
  proof (cases "r = INVALID_PAGE")
    case True
    then show ?thesis using r by (simp add: allocate_def)
  next
    case False
    with r(2) have fit: "unat r + unat n \<le> unat (mem_size s)" by simp
    have n32: "unat (ucast n :: u32) = unat n"
      by (rule unat_ucast_64_32 [OF below_u32 [of _ "mem_size s"]]) (use fit in simp)
    obtain s' where "mark_memory_block s r (ucast n) True = Some (s', True)"
      "frames_set s {unat r..<unat r + unat n} True s'"
      using mark_memory_block_spec [OF assms(1), of r "ucast n" True] fit n32 by auto
    then show ?thesis
      using r False frames_set_fields(1,2) [of s _ True s']
      by (intro disjI1 exI [of _ s'] exI [of _ r]) (simp add: allocate_def to_address_def)
  qed
qed

lemma all_free_loop_spec:
  assumes "pmm_ok s" and "unat stop \<le> unat (mem_size s)"
  shows "all_free_loop s i stop = Some (\<forall>f. unat i \<le> f \<and> f < unat stop \<longrightarrow> \<not> frame_used s f)"
  using assms
proof (induction s i stop rule: all_free_loop.induct)
  case (1 s i stop)
  show ?case
  proof (cases "i < stop")
    case False
    then show ?thesis by (auto simp: all_free_loop.simps [of s i] word_less_nat_alt)
  next
    case True
    have lt: "unat i < unat stop" using True by (simp add: word_less_nat_alt)
    have u32: "unat (ucast i :: u32) = unat i"
      by (rule unat_ucast_64_32 [OF below_u32 [of _ "mem_size s"]]) (use lt 1(3) in simp)
    have fr: "is_free s (ucast i) = Some (\<not> frame_used s (unat i))"
      using is_free_spec [of "ucast i" s] lt 1(2,3) by (simp add: u32 pmm_ok_def)
    have split: "(\<forall>f. unat i \<le> f \<and> f < unat stop \<longrightarrow> \<not> frame_used s f) \<longleftrightarrow>
        \<not> frame_used s (unat i) \<and> (\<forall>f. unat (i + 1) \<le> f \<and> f < unat stop \<longrightarrow> \<not> frame_used s f)"
      unfolding unat_Suc_below [OF True] by (rule all_from_Suc [OF lt])
    show ?thesis
    proof (cases "frame_used s (unat i)")
      case True
      then show ?thesis using fr \<open>i < stop\<close> split by (simp add: all_free_loop.simps [of s i])
    next
      case False
      then have "all_free_loop s (i + 1) stop =
          Some (\<forall>f. unat (i + 1) \<le> f \<and> f < unat stop \<longrightarrow> \<not> frame_used s f)"
        using 1(1) [OF True fr _ 1(2,3)] by simp
      then show ?thesis using fr True False split by (simp add: all_free_loop.simps [of s i])
    qed
  qed
qed

text \<open>A request that lies in the managed memory and starts at a frame.\<close>

definition managed :: "pmm \<Rightarrow> physical_addr \<Rightarrow> u64 \<Rightarrow> nat \<Rightarrow> bool" where
  "managed s p n b \<longleftrightarrow> unat p = frame_lo s b \<and> 0 < unat n \<and> b + unat n \<le> unat (mem_size s)"

lemma managed_frame:
  assumes "pmm_ok s" and "managed s p n b"
  shows "unat (to_page_frame s p) = b" "unat (to_page_frame_round_up s p) = b"
    "unat (ucast n :: u32) = unat n" "unat (n * page_size s) = unat n * unat (page_size s)"
    "unat (p + n * page_size s) = frame_lo s (b + unat n)"
proof -
  let ?ps = "unat (page_size s)"
  have bn: "frame_lo s (b + unat n) < 2 ^ 64"
    using frame_lo_bound [OF assms(1)] assms(2) by (simp add: managed_def)
  have ps: "0 < ?ps" using assms(1) by (simp add: pmm_ok_def)
  have b32: "b < 2 ^ 32" by (rule below_u32 [of _ "mem_size s"]) (use assms(2) in \<open>simp add: managed_def\<close>)
  show "unat (ucast n :: u32) = unat n"
    by (rule unat_ucast_64_32 [OF below_u32 [of _ "mem_size s"]]) (use assms(2) in \<open>simp add: managed_def\<close>)
  have sub: "unat (p - mem_base s) = b * ?ps"
    using assms(2) by (subst unat_minus_no_wrap) (simp_all add: managed_def frame_lo_def)
  have q: "unat ((p - mem_base s) div page_size s) = b" using ps by (simp add: unat_div_word sub)
  then show "unat (to_page_frame s p) = b"
    unfolding to_page_frame_def using b32 by (subst unat_ucast_64_32) simp_all
  have bn': "unat (mem_base s) + (b + unat n) * ?ps < 2 ^ 64" using bn by (simp add: frame_lo_def)
  have split: "(b + unat n) * ?ps = b * ?ps + unat n * ?ps" by (rule distrib_right)
  have n: "unat (n * page_size s) = unat n * ?ps"
    by (rule unat_mult_no_wrap) (use bn' split in simp)
  then show "unat (n * page_size s) = unat n * ?ps" .
  have up: "unat p = unat (mem_base s) + b * ?ps" using assms(2) by (simp add: managed_def frame_lo_def)
  show "unat (p + n * page_size s) = frame_lo s (b + unat n)"
    using bn' n by (subst unat_plus_u64) (simp_all only: up frame_lo_def split add.assoc)
  have "?ps \<le> unat n * ?ps" using assms(2) by (simp add: managed_def)
  then have small: "b * ?ps + (?ps - 1) < 2 ^ 64" using bn' split ps by linarith
  have one: "unat (page_size s - 1) = ?ps - 1" using ps by (subst unat_minus_no_wrap) simp_all
  have "p - mem_base s + page_size s - 1 = (p - mem_base s) + (page_size s - 1)" by simp
  then have num: "unat (p - mem_base s + page_size s - 1) = b * ?ps + (?ps - 1)"
    using small by (simp only: unat_plus_u64 sub one)
  have "(b * ?ps + (?ps - 1)) div ?ps = b" using ps by (subst div_mult_self3) simp_all
  then have "unat ((p - mem_base s + page_size s - 1) div page_size s) = b"
    by (simp only: unat_div_word num)
  then show "unat (to_page_frame_round_up s p) = b"
    unfolding to_page_frame_round_up_def div_round_up_def using b32 by (subst unat_ucast_64_32) simp_all
qed


section \<open>Protected memory\<close>

definition overlaps :: "pmm \<Rightarrow> nat \<Rightarrow> nat \<Rightarrow> nat \<Rightarrow> bool" where
  "overlaps s lo hi f \<longleftrightarrow> lo < frame_lo s (Suc f) \<and> frame_lo s f < hi"

definition bitmap_hi :: "pmm \<Rightarrow> nat" where
  "bitmap_hi s = unat (memory_align (p_bitmap s + ucast (bitmap_size s)) (page_size s) False)"

text \<open>
  Nothing but usable memory is ever free: a free frame overlaps neither a region of the memory map
  that is not \<open>USABLE\<close> nor the bitmap itself.
\<close>

definition guard :: "pmm \<Rightarrow> bool" where
  "guard s \<longleftrightarrow> (\<forall>f < unat (mem_size s). \<not> frame_used s f \<longrightarrow>
     (\<forall>r \<in> set (regions_of s). rtype r \<noteq> USABLE \<longrightarrow> \<not> overlaps s (unat (rstart r)) (unat (region_end r)) f) \<and>
     (pmm_init s \<longrightarrow> \<not> overlaps s (unat (p_bitmap s)) (bitmap_hi s) f))"

text \<open>Protected regions are not empty, and one of them holds the first byte of the bitmap.\<close>

definition regions_ok :: "pmm \<Rightarrow> bool" where
  "regions_ok s \<longleftrightarrow> (\<forall>r \<in> set (regions_of s). rtype r \<noteq> USABLE \<longrightarrow> unat (rstart r) < unat (region_end r)) \<and>
     (pmm_init s \<longrightarrow> (\<exists>r \<in> set (regions_of s). rtype r \<noteq> USABLE \<and> rstart r \<le> p_bitmap s \<and> p_bitmap s < region_end r))"

lemma run_overlap:
  assumes "\<And>f. b \<le> f \<Longrightarrow> f < b + n \<Longrightarrow> \<not> overlaps s lo hi f" and "lo < hi" and "0 < n"
  shows "\<not> (lo < frame_lo s (b + n) \<and> frame_lo s b < hi)"
  using assms
proof (induction n)
  case (Suc n)
  show ?case
  proof (cases "n > 0 \<and> lo < frame_lo s (b + n)")
    case True
    then show ?thesis using Suc by simp
  next
    case False
    have "\<not> overlaps s lo hi (b + n)" by (rule Suc.prems(1)) simp_all
    then show ?thesis using False Suc.prems(2) by (cases n) (auto simp: overlaps_def)
  qed
qed simp

lemma frame_lo_mono: "f \<le> g \<Longrightarrow> frame_lo s f \<le> frame_lo s g"
  by (simp add: frame_lo_def)

lemma overlaps_run:
  assumes "overlaps s lo hi f" and "b \<le> f" and "f < b + n"
  shows "lo < frame_lo s (b + n) \<and> frame_lo s b < hi"
  using assms frame_lo_mono [of b f s] frame_lo_mono [of "Suc f" "b + n" s]
  by (auto simp: overlaps_def)

text \<open>The protection check reads exactly whether the requested frames meet protected memory.\<close>

definition meets :: "pmm \<Rightarrow> nat \<Rightarrow> nat \<Rightarrow> nat \<Rightarrow> nat \<Rightarrow> bool" where
  "meets s b n lo hi \<longleftrightarrow> lo < frame_lo s (b + n) \<and> frame_lo s b < hi"

lemma request_end:
  assumes "pmm_ok s" and "managed s p n b"
  shows "unat (region_end \<lparr>rstart = p, rsize = ucast (ucast n :: u32) * page_size s, rtype = NONE\<rparr>) =
    frame_lo s (b + unat n)"
proof -
  note mf = managed_frame [OF assms]
  have "(ucast (ucast n :: u32) :: u64) = n"
    by (rule word_unat_eqI) (simp only: unat_ucast_32_64 mf(3))
  then have sz: "unat (ucast (ucast n :: u32) * page_size s) = unat n * unat (page_size s)" by (simp only: mf(4))
  have "unat p + unat n * unat (page_size s) = frame_lo s (b + unat n)"
    using assms(2) by (simp add: managed_def frame_lo_def algebra_simps)
  moreover have "frame_lo s (b + unat n) < 2 ^ 64"
    using frame_lo_bound [OF assms(1)] assms(2) by (simp add: managed_def)
  ultimately show ?thesis
    by (subst region_end_ok) (simp_all only: region_ok_def memory_region.simps sz)
qed

lemma protected_check:
  assumes "pmm_ok s" and "managed s p n b"
  shows "is_reserved_or_bit_map_address s p n =
    (if pmm_init s \<and> meets s b (unat n) (unat (p_bitmap s)) (bitmap_hi s) then - 1
     else if \<exists>r \<in> set (regions_of s). rtype r \<noteq> USABLE \<and>
       meets s b (unat n) (unat (rstart r)) (unat (region_end r)) then - 2 else 0)"
proof -
  have p: "unat p = frame_lo s b" using assms(2) by (simp add: managed_def)
  show ?thesis
    unfolding is_reserved_or_bit_map_address_def Let_def region_contains_def list_ex_iff meets_def
    by (simp only: word_less_nat_alt request_end [OF assms] managed_frame(5) [OF assms] bitmap_hi_def
        memory_region.simps p)
qed

lemma free_run_unprotected:
  assumes "pmm_ok s" and "guard s" and "regions_ok s" and "managed s p n b" and "run_free s b (unat n)"
  shows "is_reserved_or_bit_map_address s p n = 0"
proof -
  have n0: "0 < unat n" and le: "b + unat n \<le> unat (mem_size s)" using assms(4) by (simp_all add: managed_def)
  have fr: "\<not> frame_used s f" "f < unat (mem_size s)" if "b \<le> f" "f < b + unat n" for f
    using assms(5) that le by (auto simp: run_free_def)
  have reg: "\<not> meets s b (unat n) (unat (rstart r)) (unat (region_end r))"
    if "r \<in> set (regions_of s)" "rtype r \<noteq> USABLE" for r
    unfolding meets_def
    by (rule run_overlap) (use that fr assms(2,3) n0 in \<open>auto simp: guard_def regions_ok_def\<close>)
  have "\<not> meets s b (unat n) (unat (p_bitmap s)) (bitmap_hi s)" if i: "pmm_init s"
  proof
    assume m: "meets s b (unat n) (unat (p_bitmap s)) (bitmap_hi s)"
    show False
    proof (cases "unat (p_bitmap s) < bitmap_hi s")
      case True
      have "\<not> (unat (p_bitmap s) < frame_lo s (b + unat n) \<and> frame_lo s b < bitmap_hi s)"
        by (rule run_overlap) (use fr assms(2) n0 True i in \<open>auto simp: guard_def\<close>)
      with m show False by (simp add: meets_def)
    next
      case False
      obtain r where r: "r \<in> set (regions_of s)" "rtype r \<noteq> USABLE" "rstart r \<le> p_bitmap s"
        "p_bitmap s < region_end r" using assms(3) i by (auto simp: regions_ok_def)
      have "meets s b (unat n) (unat (rstart r)) (unat (region_end r))"
        using m r(3,4) False by (simp add: meets_def word_le_nat_alt word_less_nat_alt)
      with reg [OF r(1,2)] show False by blast
    qed
  qed
  with reg show ?thesis unfolding protected_check [OF assms(1,4)] by auto
qed

lemma guard_frames_used:
  assumes "guard s" and "frames_set s A True s'" and "pmm_ok s"
  shows "guard s'"
proof -
  note f = frames_set_fields [OF assms(2)]
  have "\<not> frame_used s f" if "\<not> frame_used s' f" "f < unat (mem_size s)" for f
    using that assms(2,3) by (auto simp: frames_set_def pmm_ok_def split: if_splits)
  then show ?thesis
    using assms(1) by (simp add: guard_def f overlaps_def frame_lo_def bitmap_hi_def)
qed

lemma pmm_free_spec:
  assumes "pmm_ok s" and "managed s p n b"
  shows "\<exists>s'. pmm_free s p n = Some (s', is_reserved_or_bit_map_address s p n = 0) \<and>
    frames_set s (if is_reserved_or_bit_map_address s p n = 0 then {b..<b + unat n} else {}) False s'"
proof (cases "is_reserved_or_bit_map_address s p n = 0")
  case False
  then have "is_reserved_or_bit_map_address s p n < 0"
    by (auto simp: protected_check [OF assms] split: if_splits)
  with False show ?thesis using frames_set_refl [of s False] by (simp add: pmm_free_def)
next
  case True
  note mf = managed_frame [OF assms]
  have "(n * page_size s) div page_size s = n"
  proof (rule word_unat_eqI)
    show "unat ((n * page_size s) div page_size s) = unat n"
      using assms(1) by (simp add: unat_div_word mf(4) pmm_ok_def)
  qed
  then have "mark_memory_region s p (n * page_size s) False =
      mark_memory_block s (to_page_frame_round_up s p) (ucast n) False"
    by (simp add: mark_memory_region_def)
  with mark_memory_block_spec [OF assms(1), of "to_page_frame_round_up s p" "ucast n" False] mf True assms(2)
  show ?thesis by (auto simp: pmm_free_def managed_def)
qed

lemma guard_frames_freed:
  assumes "guard s" and "pmm_ok s" and "managed s p n b" and "is_reserved_or_bit_map_address s p n = 0"
    and "frames_set s {b..<b + unat n} False s'"
  shows "guard s'"
proof -
  note fs = frames_set_fields [OF assms(5)]
  have ov: "overlaps s' lo hi f = overlaps s lo hi f" "bitmap_hi s' = bitmap_hi s" for lo hi f
    by (simp_all add: overlaps_def frame_lo_def bitmap_hi_def fs)
  have un: "\<not> (pmm_init s \<and> meets s b (unat n) (unat (p_bitmap s)) (bitmap_hi s))"
    "\<And>r. r \<in> set (regions_of s) \<Longrightarrow> rtype r \<noteq> USABLE \<Longrightarrow>
      \<not> meets s b (unat n) (unat (rstart r)) (unat (region_end r))"
    using assms(4) unfolding protected_check [OF assms(2,3)] by (auto split: if_splits)
  show ?thesis
    unfolding guard_def fs ov
  proof (intro allI impI)
    fix f assume f: "f < unat (mem_size s)" "\<not> frame_used s' f"
    show "(\<forall>r \<in> set (regions_of s). rtype r \<noteq> USABLE \<longrightarrow> \<not> overlaps s (unat (rstart r)) (unat (region_end r)) f) \<and>
        (pmm_init s \<longrightarrow> \<not> overlaps s (unat (p_bitmap s)) (bitmap_hi s) f)"
    proof (cases "f \<in> {b..<b + unat n}")
      case True
      then show ?thesis using un overlaps_run [of s _ _ f b "unat n"] by (auto simp: meets_def)
    next
      case False
      then have "\<not> frame_used s f" using f assms(2,5) by (auto simp: frames_set_def pmm_ok_def)
      then show ?thesis using assms(1) f(1) by (simp add: guard_def)
    qed
  qed
qed


lemma allocate_explicit_spec:
  assumes "pmm_ok s" and "managed s p n b"
  shows "\<exists>s'. allocate_explicit s p n =
      Some (s', is_reserved_or_bit_map_address s p n = 0 \<and> run_free s b (unat n)) \<and>
    frames_set s (if is_reserved_or_bit_map_address s p n = 0 \<and> run_free s b (unat n)
      then {b..<b + unat n} else {}) True s'"
proof (cases "is_reserved_or_bit_map_address s p n = 0")
  case False
  then have "is_reserved_or_bit_map_address s p n < 0"
    by (auto simp: protected_check [OF assms] split: if_splits)
  with False show ?thesis using frames_set_refl [of s True] by (simp add: allocate_explicit_def)
next
  case True
  note mf = managed_frame [OF assms]
  have b: "unat (ucast (to_page_frame s p) :: u64) = b" by (simp only: unat_ucast_32_64 mf(1))
  have le: "b + unat n \<le> unat (mem_size s)" using assms(2) by (simp add: managed_def)
  have "b + unat n < 2 ^ 64" using below_u32 [OF le] by simp
  then have stop: "unat (ucast (to_page_frame s p) + n) = b + unat n"
    by (subst unat_plus_u64) (simp_all only: b)
  have all: "all_free_loop s (ucast (to_page_frame s p)) (ucast (to_page_frame s p) + n) =
      Some (run_free s b (unat n))"
    using all_free_loop_spec [OF assms(1), of "ucast (to_page_frame s p) + n" "ucast (to_page_frame s p)"] le
    by (simp add: stop b run_free_def)
  show ?thesis
  proof (cases "run_free s b (unat n)")
    case False
    then show ?thesis using True all frames_set_refl [of s True] by (simp add: allocate_explicit_def)
  next
    case free: True
    obtain s' where "mark_memory_block s (to_page_frame s p) (ucast n) True = Some (s', True)"
      "frames_set s {b..<b + unat n} True s'"
      using mark_memory_block_spec [OF assms(1), of "to_page_frame s p" "ucast n" True] mf le by auto
    then show ?thesis using True free all by (simp add: allocate_explicit_def)
  qed
qed

text \<open>One call of the allocator on a well-formed request, successful or not.\<close>

inductive pmm_step :: "pmm \<Rightarrow> pmm \<Rightarrow> bool" where
  step_allocate: "0 < unat n \<Longrightarrow> allocate s n = Some (s', r) \<Longrightarrow> pmm_step s s'"
| step_explicit: "managed s p n b \<Longrightarrow> allocate_explicit s p n = Some (s', ok) \<Longrightarrow> pmm_step s s'"
| step_free: "managed s p n b \<Longrightarrow> pmm_free s p n = Some (s', ok) \<Longrightarrow> pmm_step s s'"

inductive_cases pmm_stepE: "pmm_step s s'"

definition pmm_inv :: "pmm \<Rightarrow> bool" where
  "pmm_inv s \<longleftrightarrow> pmm_ok s \<and> guard s \<and> regions_ok s"

lemma pmm_inv_frames:
  assumes "frames_set s A u s'" and "pmm_inv s" and "guard s'"
  shows "pmm_inv s'"
  using assms frames_set_fields [OF assms(1)] by (simp add: pmm_inv_def regions_ok_def)

lemma pmm_step_inv:
  assumes "pmm_step s s'" and "pmm_inv s"
  shows "pmm_inv s' \<and> mem_map s' = mem_map s"
proof -
  have ok: "pmm_ok s" "guard s" using assms(2) by (simp_all add: pmm_inv_def)
  obtain A u where "frames_set s A u s'" "guard s'"
    using assms(1)
  proof (cases rule: pmm_step.cases)
    case (step_allocate n r)
    then obtain A where "frames_set s A True s'"
      using allocate_spec [OF ok(1) step_allocate(1)] frames_set_refl by auto
    with guard_frames_used [OF ok(2) _ ok(1)] that show ?thesis by blast
  next
    case (step_explicit p n b r)
    then obtain A where "frames_set s A True s'"
      using allocate_explicit_spec [OF ok(1) step_explicit(1)] by auto
    with guard_frames_used [OF ok(2) _ ok(1)] that show ?thesis by blast
  next
    case (step_free p n b r)
    show ?thesis
    proof (cases "is_reserved_or_bit_map_address s p n = 0")
      case True
      then have f: "frames_set s {b..<b + unat n} False s'"
        using pmm_free_spec [OF ok(1) step_free(1)] step_free(2) by auto
      show ?thesis by (rule that [OF f guard_frames_freed [OF ok(2,1) step_free(1) True f]])
    next
      case False
      then have f: "frames_set s {} True s'" "s' = s"
        using pmm_free_spec [OF ok(1) step_free(1)] step_free(2)
        by (auto simp: pmm_free_def protected_check [OF ok(1) step_free(1)] frames_set_refl split: if_splits)
      with ok(2) that show ?thesis by blast
    qed
  qed
  then show ?thesis using pmm_inv_frames assms(2) frames_set_fields(4) by blast
qed

section \<open>Properties\<close>

text \<open>A machine with four usable frames after one reserved frame; the bitmap sits in frame 1.\<close>

definition sample_pmm :: pmm where
  "sample_pmm = \<lparr>page_size = 0x1000, mem_base = 0, mem_size = 5,
     mem_map = \<lparr>mm_map = [\<lparr>rstart = 0, rsize = 0x1000, rtype = RESERVED\<rparr>,
                         \<lparr>rstart = 0x1000, rsize = 0x1000, rtype = RESERVED\<rparr>,
                         \<lparr>rstart = 0x2000, rsize = 0x3000, rtype = USABLE\<rparr>],
                mm_free = 0x3000, mm_reserved = 0x2000, mm_num = 3\<rparr>,
     pmm_init = True, largest_free_block = 0, bitmap_addr = 0xFFFF800000001000,
     bitmap = [0xE3], p_bitmap = 0x1000, bitmap_size = 1\<rparr>"

lemma sample_pmm_ok: "pmm_ok sample_pmm"
  by (simp add: pmm_ok_def sample_pmm_def)

lemma sample_used: "frame_used sample_pmm 0" "frame_used sample_pmm 1"
  by (simp_all add: frame_used_def sample_pmm_def)

lemma sample_inv: "pmm_inv sample_pmm"
proof -
  have f: "f < unat (mem_size sample_pmm) \<Longrightarrow> \<not> frame_used sample_pmm f \<Longrightarrow> f \<ge> 2" for f
    using sample_used by (cases "f = 0 \<or> f = 1") auto
  have "guard sample_pmm"
    unfolding guard_def
  proof (intro allI impI)
    fix f assume "f < unat (mem_size sample_pmm)" "\<not> frame_used sample_pmm f"
    then have "f \<ge> 2" by (rule f)
    then show "(\<forall>r\<in>set (regions_of sample_pmm). rtype r \<noteq> USABLE \<longrightarrow>
        \<not> overlaps sample_pmm (unat (rstart r)) (unat (region_end r)) f) \<and>
      (pmm_init sample_pmm \<longrightarrow> \<not> overlaps sample_pmm (unat (p_bitmap sample_pmm)) (bitmap_hi sample_pmm) f)"
      by (auto simp: sample_pmm_def regions_of_def overlaps_def frame_lo_def region_end_def
          bitmap_hi_def memory_align_def)
  qed
  moreover have "regions_ok sample_pmm"
    by (simp add: regions_ok_def sample_pmm_def regions_of_def region_end_def)
  ultimately show ?thesis using sample_pmm_ok by (simp add: pmm_inv_def)
qed

text \<open>
  The request is not checked against 32 bits: to free an address \<open>2 ^ 44\<close> above the managed memory
  passes the test for protected memory, and the frame number is cut down to that of a reserved frame.
\<close>

theorem free_wraps_to_protected_frame:
  "pmm_free sample_pmm 0x100000000000 1 = Some (sample_pmm\<lparr>bitmap := [0xE2]\<rparr>, True)"
  "frame_used sample_pmm 0" "\<not> frame_used (sample_pmm\<lparr>bitmap := [0xE2]\<rparr>) 0"
  by code_simp (simp_all add: frame_used_def sample_pmm_def)

text \<open>
  C1. Whatever sequence of allocations of at least one frame, explicit allocations and frees runs,
  failed ones included, no managed frame that overlaps a protected region of the memory map ever
  becomes free, so no allocation can hand it out, and the memory map stays as it is. Explicit
  allocations and frees are those of managed requests: at least one frame, starting at a frame, all
  within the managed memory. The guard \<open>pmm_inv\<close> also keeps the whole pages of the bitmap; its last,
  partial page is protected by its region in the memory map only.
\<close>

theorem protected_memory_never_free:
  assumes "pmm_step\<^sup>*\<^sup>* s s'" and "pmm_inv s"
  shows "pmm_inv s' \<and> mem_map s' = mem_map s \<and>
    (\<forall>f r. f < unat (mem_size s') \<and> r \<in> set (regions_of s) \<and> rtype r \<noteq> USABLE \<and>
       overlaps s' (unat (rstart r)) (unat (region_end r)) f \<longrightarrow> frame_used s' f)"
proof -
  have "pmm_inv s' \<and> mem_map s' = mem_map s"
    using assms
  proof (induction rule: rtranclp_induct)
    case (step y z)
    then show ?case using pmm_step_inv [of y z] by auto
  qed simp
  then show ?thesis by (auto simp: pmm_inv_def guard_def regions_of_def)
qed

theorem protected_memory_never_free_witness:
  "\<exists>s' s''. allocate sample_pmm 2 = Some (s', Some 0x2000) \<and> pmm_free s' 0x2000 1 = Some (s'', True) \<and>
    pmm_inv s'' \<and> mem_map s'' = mem_map sample_pmm"
proof -
  define s' where "s' = sample_pmm\<lparr>bitmap := [0xEF]\<rparr>"
  define s'' where "s'' = sample_pmm\<lparr>bitmap := [0xEB]\<rparr>"
  have a: "allocate sample_pmm 2 = Some (s', Some 0x2000)" unfolding s'_def by code_simp
  have f: "pmm_free s' 0x2000 1 = Some (s'', True)" unfolding s'_def s''_def by code_simp
  have "pmm_step sample_pmm s'" by (rule step_allocate [OF _ a]) simp
  moreover have "pmm_step s' s''"
    by (rule step_free [OF _ f, of 2]) (simp add: managed_def frame_lo_def s'_def sample_pmm_def)
  ultimately have "pmm_step\<^sup>*\<^sup>* sample_pmm s''" by auto
  from protected_memory_never_free [OF this sample_inv] a f show ?thesis by blast
qed

text \<open>
  C2. \<open>allocate\<close> is first fit and complete: it takes the lowest run of \<open>n\<close> free frames, marks exactly
  these frames used and returns their address, and it fails, without changing anything, only when
  the managed memory holds no such run.
\<close>

theorem allocate_first_fit:
  assumes "pmm_ok s" and "0 < unat n"
  shows "(\<exists>s' f. allocate s n = Some (s', Some (to_address s f)) \<and>
      unat (to_address s f) = frame_lo s (unat f) \<and>
      unat f + unat n \<le> unat (mem_size s) \<and> run_free s (unat f) (unat n) \<and>
      (\<forall>b < unat f. \<not> run_free s b (unat n)) \<and>
      frames_set s {unat f..<unat f + unat n} True s') \<or>
    (allocate s n = Some (s, None) \<and>
      (\<forall>b. b + unat n \<le> unat (mem_size s) \<longrightarrow> \<not> run_free s b (unat n)))"
  using allocate_spec [OF assms] unat_to_address [OF assms(1)] by fastforce

theorem allocate_first_fit_witness:
  "(\<exists>s' f. allocate sample_pmm 3 = Some (s', Some (to_address sample_pmm f)) \<and>
      unat (to_address sample_pmm f) = frame_lo sample_pmm (unat f) \<and>
      unat f + unat (3::u64) \<le> unat (mem_size sample_pmm) \<and> run_free sample_pmm (unat f) (unat (3::u64)) \<and>
      (\<forall>b < unat f. \<not> run_free sample_pmm b (unat (3::u64))) \<and>
      frames_set sample_pmm {unat f..<unat f + unat (3::u64)} True s') \<or>
    (allocate sample_pmm 3 = Some (sample_pmm, None) \<and>
      (\<forall>b. b + unat (3::u64) \<le> unat (mem_size sample_pmm) \<longrightarrow> \<not> run_free sample_pmm b (unat (3::u64))))"
  by (rule allocate_first_fit [OF sample_pmm_ok]) simp

text \<open>
  C3. Freeing what \<open>allocate\<close> just returned succeeds and restores the allocator to exactly the state
  before the allocation.
\<close>

theorem free_undoes_allocate:
  assumes "pmm_inv s" and "0 < unat n" and "allocate s n = Some (s', Some p)"
  shows "pmm_free s' p n = Some (s, True)"
proof -
  have ok: "pmm_ok s" "guard s" "regions_ok s" using assms(1) by (simp_all add: pmm_inv_def)
  obtain f where f: "p = to_address s f" "unat f + unat n \<le> unat (mem_size s)"
    "run_free s (unat f) (unat n)" "frames_set s {unat f..<unat f + unat n} True s'"
    using allocate_spec [OF ok(1) assms(2)] assms(3) by auto
  let ?b = "unat f"
  note fs = frames_set_fields [OF f(4)]
  have man: "managed s p n ?b"
    using unat_to_address [OF ok(1), of f] f(1,2) assms(2) by (simp add: managed_def)
  have man': "managed s' p n ?b" using man by (simp add: managed_def frame_lo_def fs)
  have "is_reserved_or_bit_map_address s p n = 0"
    by (rule free_run_unprotected [OF ok(1,2,3) man f(3)])
  moreover have "is_reserved_or_bit_map_address s' p n = is_reserved_or_bit_map_address s p n"
    by (simp only: is_reserved_or_bit_map_address_def fs)
  ultimately have r: "is_reserved_or_bit_map_address s' p n = 0" by simp
  obtain s'' where s'': "pmm_free s' p n = Some (s'', True)" "frames_set s' {?b..<?b + unat n} False s''"
    using pmm_free_spec [OF _ man'] ok(1) r fs(9) by auto
  obtain b' b'' where b: "s' = s\<lparr>bitmap := b'\<rparr>" "s'' = s'\<lparr>bitmap := b''\<rparr>" "length b' = length (bitmap s)"
    "length b'' = length b'"
    using f(4) s''(2) unfolding frames_set_def by metis
  have "frame_used s'' g = frame_used s g" if g: "g < 8 * length (bitmap s)" for g
    using f(3,4) s''(2) g b by (auto simp: frames_set_def run_free_def split: if_splits)
  then have bits: "bit (b'' ! (g div 8)) (g mod 8) = bit (bitmap s ! (g div 8)) (g mod 8)"
    if "g < 8 * length (bitmap s)" for g
    using that b by (simp add: frame_used_def)
  have "b'' = bitmap s"
  proof (rule nth_equalityI)
    show "length b'' = length (bitmap s)" using b by simp
    fix i assume i: "i < length b''"
    show "b'' ! i = bitmap s ! i"
    proof (rule bit_word_eqI)
      fix k :: nat assume "k < LENGTH(8)"
      then show "bit (b'' ! i) k = bit (bitmap s ! i) k" using bits [of "8 * i + k"] i b by simp
    qed
  qed
  with b have "s'' = s" by simp
  with s''(1) show ?thesis by simp
qed

theorem free_undoes_allocate_witness:
  "\<exists>s'. allocate sample_pmm 3 = Some (s', Some 0x2000) \<and> pmm_free s' 0x2000 3 = Some (sample_pmm, True)"
proof -
  have a: "allocate sample_pmm 3 = Some (sample_pmm\<lparr>bitmap := [0xFF]\<rparr>, Some 0x2000)" by code_simp
  from free_undoes_allocate [OF sample_inv _ a] a show ?thesis by auto
qed

end
