(* ===== verification/Scheduler.thy ===== *)
theory Scheduler
  imports Linked_List
begin

text \<open>
  Threads and the scheduler: \<^verbatim>\<open>Kernel/Src/CPU/Threading/MultiLevelQueue.cpp\<close> and
  \<^verbatim>\<open>Kernel/Src/CPU/Threading/Scheduler.cpp\<close>. A thread object is named by its handle. The linked
  lists of threads are lists of handles, which the refinement lemmas of the linked list justify:
  \<open>add_back\<close> appends, \<open>remove_front\<close> takes the head, \<open>remove\<close> is \<open>remove1\<close>. The hardware switch
  \<open>switch_to_thread\<close> is not modelled; a context switch returns the pair of threads it is given.
  Kernel stacks and logging are left out.

  \<open>sched_inv\<close> says which threads are in the ready queue; every operation keeps it.
\<close>

section \<open>Threads\<close>

type_synonym handle = u16

datatype thread_state = TS_NONE | CREATED | READY | RUNNING | BLOCK_PENDING | BLOCKED | STOPPED

datatype policy = POLICY_NONE | LOW_LATENCY | NORMAL | BACKGROUND

section \<open>The multi-level queue\<close>

text \<open>The levels from the highest policy on, as \<open>_lower_policy_queue\<close> links them.\<close>

type_synonym mlq = "(policy \<times> handle list) list"

fun mlq_queued :: "mlq \<Rightarrow> handle list" where
  "mlq_queued [] = []"
| "mlq_queued ((p, ts) # q) = ts @ mlq_queued q"

fun mlq_peek :: "mlq \<Rightarrow> handle option" where
  "mlq_peek [] = None"
| "mlq_peek ((p, ts) # q) = (case ts of t # _ \<Rightarrow> Some t | [] \<Rightarrow> mlq_peek q)"

fun mlq_enqueue :: "(handle \<Rightarrow> policy) \<Rightarrow> handle \<Rightarrow> mlq \<Rightarrow> mlq \<times> bool" where
  "mlq_enqueue pol t [] = ([], False)"
| "mlq_enqueue pol t ((p, ts) # q) =
     (if p = pol t then ((p, if t \<in> set ts then ts else ts @ [t]) # q, True)
      else let (q', ok) = mlq_enqueue pol t q in ((p, ts) # q', ok))"

fun mlq_dequeue :: "mlq \<Rightarrow> mlq \<times> handle option" where
  "mlq_dequeue [] = ([], None)"
| "mlq_dequeue ((p, ts) # q) =
     (case ts of
        t # ts' \<Rightarrow> ((p, ts') # q, Some t)
      | [] \<Rightarrow> let (q', r) = mlq_dequeue q in ((p, ts) # q', r))"

fun mlq_remove :: "handle \<Rightarrow> mlq \<Rightarrow> mlq \<times> handle option" where
  "mlq_remove t [] = ([], None)"
| "mlq_remove t ((p, ts) # q) =
     (if t \<in> set ts then ((p, remove1 t ts) # q, Some t)
      else let (q', r) = mlq_remove t q in ((p, ts) # q', r))"

section \<open>The scheduler\<close>

record scheduler =
  ready_queue :: mlq
  garbage_bin :: "handle list"
  running :: handle
  idle :: handle
  gct :: handle
  t_state :: "handle \<Rightarrow> thread_state"
  t_policy :: "handle \<Rightarrow> policy"

definition set_state :: "handle \<Rightarrow> thread_state \<Rightarrow> scheduler \<Rightarrow> scheduler" where
  "set_state t st s = s\<lparr>t_state := (t_state s)(t := st)\<rparr>"

definition sched_init ::
  "handle \<Rightarrow> handle \<Rightarrow> handle \<Rightarrow> (handle \<Rightarrow> thread_state) \<Rightarrow> (handle \<Rightarrow> policy) \<Rightarrow> scheduler" where
  "sched_init bootstrap idle_thread terminator states policies =
     set_state idle_thread BLOCKED (set_state terminator BLOCKED
       \<lparr>ready_queue = [(LOW_LATENCY, []), (NORMAL, []), (BACKGROUND, [])], garbage_bin = [],
        running = bootstrap, idle = idle_thread, gct = terminator,
        t_state = states, t_policy = policies\<rparr>)"

definition next_scheduled_thread :: "scheduler \<Rightarrow> scheduler \<times> handle" where
  "next_scheduled_thread s =
     (if garbage_bin s \<noteq> [] then (s, gct s)
      else let (q, t) = mlq_dequeue (ready_queue s)
           in (s\<lparr>ready_queue := q\<rparr>, case t of None \<Rightarrow> idle s | Some t \<Rightarrow> t))"

text \<open>What happens to the running thread before it is left: the \<open>switch\<close> over its state.\<close>

definition reschedule_running :: "scheduler \<Rightarrow> scheduler" where
  "reschedule_running s =
     (if running s = idle s then set_state (idle s) BLOCKED s
      else if running s = gct s then set_state (gct s) BLOCKED s
      else case t_state s (running s) of
             RUNNING \<Rightarrow>
               (let (q, ok) = mlq_enqueue (t_policy s) (running s) (ready_queue s)
                in if ok then set_state (running s) READY (s\<lparr>ready_queue := q\<rparr>) else s)
           | BLOCK_PENDING \<Rightarrow>
               s\<lparr>ready_queue := fst (mlq_enqueue (t_policy s) (running s) (ready_queue s))\<rparr>
           | _ \<Rightarrow> s)"

text \<open>Result: the new state and the arguments of \<open>switch_to_thread\<close>, when it is called.\<close>

definition perform_context_switch :: "scheduler \<Rightarrow> scheduler \<times> (handle \<times> handle) option" where
  "perform_context_switch s =
     (let old = running s; (s, nxt) = next_scheduled_thread s
      in if nxt = idle s \<and> (old = idle s \<or> t_state s old = RUNNING) then (s, None)
         else if old = gct s \<and> nxt = gct s then (s, None)
         else let s = (reschedule_running s)\<lparr>running := nxt\<rparr>
              in (set_state nxt (if t_state s nxt = BLOCK_PENDING then BLOCK_PENDING else RUNNING) s,
                  Some (old, nxt)))"

text \<open>A null thread pointer is \<open>None\<close>.\<close>

definition schedule :: "scheduler \<Rightarrow> handle option \<Rightarrow> scheduler \<times> bool" where
  "schedule s thread =
     (case thread of
        None \<Rightarrow> (s, False)
      | Some t \<Rightarrow>
          (if t_state s t \<noteq> CREATED then (s, False)
           else if t_policy s t = POLICY_NONE then (s, False)
           else let (q, ok) = mlq_enqueue (t_policy s) t (ready_queue s)
                in if ok then (s\<lparr>ready_queue := q\<rparr>, True) else (s, False)))"

definition preempt_running_thread :: "scheduler \<Rightarrow> scheduler \<times> (handle \<times> handle) option" where
  "preempt_running_thread s = perform_context_switch s"

definition mark_as_block_pending :: "scheduler \<Rightarrow> scheduler" where
  "mark_as_block_pending s = set_state (running s) BLOCK_PENDING s"

definition block :: "scheduler \<Rightarrow> handle option \<Rightarrow> scheduler \<times> (handle \<times> handle) option" where
  "block s thread =
     (case thread of
        None \<Rightarrow> (s, None)
      | Some t \<Rightarrow>
          (if t_state s t \<noteq> BLOCK_PENDING then (s, None)
           else let s = set_state t BLOCKED s
                in if t \<noteq> running s
                   then (s\<lparr>ready_queue := fst (mlq_remove t (ready_queue s))\<rparr>, None)
                   else perform_context_switch s))"

definition unblock :: "scheduler \<Rightarrow> handle option \<Rightarrow> scheduler" where
  "unblock s thread =
     (case thread of
        None \<Rightarrow> s
      | Some t \<Rightarrow>
          (if t_state s t \<noteq> BLOCKED \<and> t_state s t \<noteq> BLOCK_PENDING then s
           else if t = running s then set_state t RUNNING s
           else let (q, ok) = mlq_enqueue (t_policy s) t (ready_queue s)
                in if ok then set_state t READY (s\<lparr>ready_queue := q\<rparr>) else s))"

definition stop :: "scheduler \<Rightarrow> handle option \<Rightarrow> scheduler \<times> (handle \<times> handle) option" where
  "stop s thread =
     (case thread of
        None \<Rightarrow> (s, None)
      | Some t \<Rightarrow>
          let s = (set_state t STOPPED s)\<lparr>garbage_bin := garbage_bin s @ [t]\<rparr>
          in if t \<noteq> running s
             then (s\<lparr>ready_queue := fst (mlq_remove t (ready_queue s))\<rparr>, None)
             else perform_context_switch s)"

text \<open>The garbage collector thread takes one stopped thread out of the bin.\<close>

definition collect_one :: "scheduler \<Rightarrow> scheduler" where
  "collect_one s = s\<lparr>garbage_bin := tl (garbage_bin s)\<rparr>"

section \<open>Queue lemmas\<close>

definition mlq_ok :: "(handle \<Rightarrow> policy) \<Rightarrow> mlq \<Rightarrow> bool" where
  "mlq_ok pol q \<longleftrightarrow> distinct (map fst q) \<and> (\<forall>(p, ts) \<in> set q. distinct ts \<and> (\<forall>t \<in> set ts. pol t = p))"

lemma set_mlq_queued: "set (mlq_queued q) = (\<Union>(p, ts) \<in> set q. set ts)"
  by (induction q rule: mlq_queued.induct) auto

lemma mlq_ok_Cons:
  "mlq_ok pol ((p, ts) # q) \<longleftrightarrow>
    p \<notin> fst ` set q \<and> distinct ts \<and> (\<forall>t \<in> set ts. pol t = p) \<and> mlq_ok pol q"
  by (auto simp: mlq_ok_def)

lemma mlq_queued_policy: "mlq_ok pol q \<Longrightarrow> t \<in> set (mlq_queued q) \<Longrightarrow> pol t \<in> fst ` set q"
  by (induction q rule: mlq_queued.induct) (auto simp: mlq_ok_Cons)

lemma mlq_ok_distinct: "mlq_ok pol q \<Longrightarrow> distinct (mlq_queued q)"
  by (induction q rule: mlq_queued.induct) (auto simp: mlq_ok_Cons dest: mlq_queued_policy)

lemma mlq_enqueue_spec:
  assumes "mlq_ok pol q" and "mlq_enqueue pol t q = (q', ok)"
  shows "mlq_ok pol q' \<and> map fst q' = map fst q \<and> (ok \<longleftrightarrow> pol t \<in> fst ` set q) \<and>
    set (mlq_queued q') = (if ok then insert t (set (mlq_queued q)) else set (mlq_queued q))"
  using assms
proof (induction q arbitrary: q' ok)
  case (Cons x q)
  obtain p ts where x: "x = (p, ts)" by fastforce
  show ?case
  proof (cases "p = pol t")
    case True
    then have q': "q' = (p, if t \<in> set ts then ts else ts @ [t]) # q" "ok"
      using Cons.prems(2) x by simp_all
    show ?thesis unfolding q'(1) using q'(2) Cons.prems(1) True [symmetric] unfolding x
      by (auto simp: mlq_ok_Cons)
  next
    case False
    obtain q1 where q1: "mlq_enqueue pol t q = (q1, ok)" "q' = (p, ts) # q1"
      using Cons.prems(2) x False by (auto split: prod.splits)
    have "mlq_ok pol q" using Cons.prems(1) x by (simp add: mlq_ok_Cons)
    from Cons.IH [OF this q1(1)] have ih: "mlq_ok pol q1" "map fst q1 = map fst q"
      "ok \<longleftrightarrow> pol t \<in> fst ` set q"
      "set (mlq_queued q1) = (if ok then insert t (set (mlq_queued q)) else set (mlq_queued q))" by auto
    have "fst ` set q1 = fst ` set q" using ih(2) by (metis set_map)
    then show ?thesis using ih Cons.prems(1) False by (auto simp: x q1(2) mlq_ok_Cons)
  qed
qed (simp add: mlq_ok_def)

lemma mlq_dequeue_spec:
  assumes "mlq_ok pol q" and "mlq_dequeue q = (q', r)"
  shows "mlq_ok pol q' \<and> map fst q' = map fst q \<and>
    (case r of None \<Rightarrow> mlq_queued q = [] \<and> q' = q | Some t \<Rightarrow> mlq_queued q = t # mlq_queued q')"
  using assms
proof (induction q arbitrary: q' r)
  case (Cons x q)
  obtain p ts where x: "x = (p, ts)" by fastforce
  show ?case
  proof (cases ts)
    case (Cons t ts')
    then show ?thesis using Cons.prems x by (auto simp: mlq_ok_Cons)
  next
    case Nil
    obtain q1 where q1: "mlq_dequeue q = (q1, r)" "q' = (p, ts) # q1"
      using Cons.prems(2) x Nil by (auto split: prod.splits)
    have "mlq_ok pol q" using Cons.prems(1) x by (simp add: mlq_ok_Cons)
    from Cons.IH [OF this q1(1)] have ih: "mlq_ok pol q1" "map fst q1 = map fst q"
      "case r of None \<Rightarrow> mlq_queued q = [] \<and> q1 = q | Some t \<Rightarrow> mlq_queued q = t # mlq_queued q1" by auto
    have "fst ` set q1 = fst ` set q" using ih(2) by (metis set_map)
    then show ?thesis using ih Cons.prems(1) Nil by (auto simp: x q1(2) mlq_ok_Cons split: option.splits)
  qed
qed simp

lemma mlq_remove_spec:
  assumes "mlq_ok pol q" and "mlq_remove t q = (q', r)"
  shows "mlq_ok pol q' \<and> map fst q' = map fst q \<and> mlq_queued q' = remove1 t (mlq_queued q) \<and>
    r = (if t \<in> set (mlq_queued q) then Some t else None)"
  using assms
proof (induction q arbitrary: q' r)
  case (Cons x q)
  obtain p ts where x: "x = (p, ts)" by fastforce
  show ?case
  proof (cases "t \<in> set ts")
    case True
    then show ?thesis using Cons.prems x by (auto simp: mlq_ok_Cons remove1_append set_remove1_eq)
  next
    case False
    obtain q1 where q1: "mlq_remove t q = (q1, r)" "q' = (p, ts) # q1"
      using Cons.prems(2) x False by (auto split: prod.splits)
    have "mlq_ok pol q" using Cons.prems(1) x by (simp add: mlq_ok_Cons)
    from Cons.IH [OF this q1(1)] have ih: "mlq_ok pol q1" "map fst q1 = map fst q"
      "mlq_queued q1 = remove1 t (mlq_queued q)"
      "r = (if t \<in> set (mlq_queued q) then Some t else None)" by auto
    have "fst ` set q1 = fst ` set q" using ih(2) by (metis set_map)
    then show ?thesis using ih Cons.prems(1) False by (auto simp: x q1(2) mlq_ok_Cons remove1_append)
  qed
qed simp


section \<open>The invariant\<close>

definition queued :: "scheduler \<Rightarrow> handle set" where
  "queued s = set (mlq_queued (ready_queue s))"

definition special :: "scheduler \<Rightarrow> handle \<Rightarrow> bool" where
  "special s t \<longleftrightarrow> t = idle s \<or> t = gct s"

text \<open>
  The two special threads have no policy and are never queued. Every other thread that is ready, or
  was preempted while it prepared to block, is queued, and nothing else is: no running, blocked or
  stopped thread. Only the running thread is in the state \<open>RUNNING\<close>.
\<close>

definition sched_inv :: "scheduler \<Rightarrow> bool" where
  "sched_inv s \<longleftrightarrow>
     mlq_ok (t_policy s) (ready_queue s) \<and>
     map fst (ready_queue s) = [LOW_LATENCY, NORMAL, BACKGROUND] \<and>
     idle s \<noteq> gct s \<and> t_policy s (idle s) = POLICY_NONE \<and> t_policy s (gct s) = POLICY_NONE \<and>
     running s \<notin> queued s \<and>
     (\<forall>t. t \<in> queued s \<longrightarrow> t_state s t \<in> {CREATED, READY, BLOCK_PENDING}) \<and>
     (\<forall>t. t \<noteq> running s \<longrightarrow> \<not> special s t \<longrightarrow> t_state s t \<in> {READY, BLOCK_PENDING} \<longrightarrow> t \<in> queued s) \<and>
     (\<forall>t. t \<noteq> running s \<longrightarrow> t_state s t \<noteq> RUNNING) \<and>
     (\<not> special s (running s) \<longrightarrow> t_policy s (running s) \<noteq> POLICY_NONE \<and>
        t_state s (running s) \<in> {RUNNING, BLOCK_PENDING})"

lemma level_policies: "map fst q = [LOW_LATENCY, NORMAL, BACKGROUND] \<Longrightarrow> p \<in> fst ` set q \<longleftrightarrow> p \<noteq> POLICY_NONE"
proof -
  assume "map fst q = [LOW_LATENCY, NORMAL, BACKGROUND]"
  then have "fst ` set q = {LOW_LATENCY, NORMAL, BACKGROUND}" by (metis list.set(1,2) set_map)
  then show ?thesis by (cases p) auto
qed

lemma enqueue_inv:
  assumes "sched_inv s" and "mlq_enqueue (t_policy s) t (ready_queue s) = (q, ok)"
  shows "mlq_ok (t_policy s) q" "map fst q = [LOW_LATENCY, NORMAL, BACKGROUND]"
    "ok \<longleftrightarrow> t_policy s t \<noteq> POLICY_NONE"
    "set (mlq_queued q) = (if ok then insert t (queued s) else queued s)"
  using mlq_enqueue_spec [OF _ assms(2)] assms(1) level_policies [of "ready_queue s" "t_policy s t"]
  by (auto simp: sched_inv_def queued_def)

lemma remove_inv:
  assumes "sched_inv s" and "mlq_remove t (ready_queue s) = (q, r)"
  shows "mlq_ok (t_policy s) q" "map fst q = [LOW_LATENCY, NORMAL, BACKGROUND]"
    "set (mlq_queued q) = queued s - {t}"
proof -
  have ok: "mlq_ok (t_policy s) (ready_queue s)" using assms(1) by (simp add: sched_inv_def)
  show "mlq_ok (t_policy s) q" "map fst q = [LOW_LATENCY, NORMAL, BACKGROUND]"
    "set (mlq_queued q) = queued s - {t}"
    using mlq_remove_spec [OF ok assms(2)] mlq_ok_distinct [OF ok] assms(1)
    by (auto simp: sched_inv_def queued_def)
qed

lemma sched_inv_special: "sched_inv s \<Longrightarrow> special s t \<Longrightarrow> t \<notin> queued s"
  using mlq_queued_policy [of "t_policy s" "ready_queue s" t] level_policies [of "ready_queue s" "t_policy s t"]
  by (auto simp: sched_inv_def queued_def special_def)

text \<open>
  The context switch needs the invariant only up to the state of the running thread, which
  \<open>block\<close> and \<open>stop\<close> have already changed.
\<close>

definition switchable :: "scheduler \<Rightarrow> bool" where
  "switchable s \<longleftrightarrow>
     mlq_ok (t_policy s) (ready_queue s) \<and>
     map fst (ready_queue s) = [LOW_LATENCY, NORMAL, BACKGROUND] \<and>
     idle s \<noteq> gct s \<and> t_policy s (idle s) = POLICY_NONE \<and> t_policy s (gct s) = POLICY_NONE \<and>
     running s \<notin> queued s \<and>
     (\<forall>t. t \<in> queued s \<longrightarrow> t_state s t \<in> {CREATED, READY, BLOCK_PENDING}) \<and>
     (\<forall>t. t \<noteq> running s \<longrightarrow> t_state s t \<noteq> RUNNING) \<and>
     (\<not> special s (running s) \<longrightarrow> t_policy s (running s) \<noteq> POLICY_NONE \<and>
        t_state s (running s) \<in> {RUNNING, BLOCK_PENDING, BLOCKED, STOPPED})"

text \<open>Every ready or pending thread outside \<open>X\<close> is queued.\<close>

definition covered :: "handle set \<Rightarrow> scheduler \<Rightarrow> bool" where
  "covered X s \<longleftrightarrow> (\<forall>t. t \<notin> X \<longrightarrow> \<not> special s t \<longrightarrow> t_state s t \<in> {READY, BLOCK_PENDING} \<longrightarrow> t \<in> queued s)"

lemma sched_inv_switchable: "sched_inv s \<Longrightarrow> switchable s \<and> covered {running s} s"
  by (auto simp: sched_inv_def switchable_def covered_def)

lemma switchable_inv:
  "switchable s \<Longrightarrow> covered {running s} s \<Longrightarrow>
   (special s (running s) \<or> t_state s (running s) \<in> {RUNNING, BLOCK_PENDING}) \<Longrightarrow> sched_inv s"
  by (auto simp: sched_inv_def switchable_def covered_def)

lemma set_state_simps [simp]:
  "ready_queue (set_state t st s) = ready_queue s" "garbage_bin (set_state t st s) = garbage_bin s"
  "running (set_state t st s) = running s" "idle (set_state t st s) = idle s" "gct (set_state t st s) = gct s"
  "t_policy (set_state t st s) = t_policy s"
  "t_state (set_state t st s) u = (if u = t then st else t_state s u)"
  "queued (set_state t st s) = queued s" "special (set_state t st s) = special s"
  by (simp_all add: set_state_def queued_def special_def fun_eq_iff)

text \<open>The running thread after it was taken care of: queued exactly when it was running or pending.\<close>

lemma reschedule_spec:
  assumes "switchable s"
  defines "s' \<equiv> reschedule_running s"
  shows "mlq_ok (t_policy s) (ready_queue s') \<and> map fst (ready_queue s') = [LOW_LATENCY, NORMAL, BACKGROUND] \<and>
    running s' = running s \<and> idle s' = idle s \<and> gct s' = gct s \<and> t_policy s' = t_policy s \<and>
    garbage_bin s' = garbage_bin s \<and>
    (\<forall>u. u \<noteq> running s \<longrightarrow> t_state s' u = t_state s u) \<and>
    t_state s' (running s) \<noteq> RUNNING \<and>
    (t_state s' (running s) \<in> {READY, BLOCK_PENDING} \<longrightarrow> running s \<in> queued s') \<and>
    (running s \<in> queued s' \<longrightarrow> t_state s' (running s) \<in> {READY, BLOCK_PENDING}) \<and>
    (special s (running s) \<longrightarrow> running s \<notin> queued s') \<and>
    queued s' - {running s} = queued s"
proof (cases "special s (running s)")
  case True
  then show ?thesis using assms by (auto simp: reschedule_running_def special_def switchable_def)
next
  case False
  obtain q ok where e: "mlq_enqueue (t_policy s) (running s) (ready_queue s) = (q, ok)" by fastforce
  have w: "mlq_ok (t_policy s) (ready_queue s)" "map fst (ready_queue s) = [LOW_LATENCY, NORMAL, BACKGROUND]"
    "t_policy s (running s) \<noteq> POLICY_NONE" "running s \<notin> queued s"
    "t_state s (running s) \<in> {RUNNING, BLOCK_PENDING, BLOCKED, STOPPED}"
    using assms(1) False by (simp_all add: switchable_def)
  have m: "mlq_ok (t_policy s) q" "map fst q = [LOW_LATENCY, NORMAL, BACKGROUND]" "ok"
    "set (mlq_queued q) = insert (running s) (queued s)"
    using mlq_enqueue_spec [OF w(1) e] w(2,3) level_policies [OF w(2), of "t_policy s (running s)"]
    by (auto simp: queued_def)
  have ns: "running s \<noteq> idle s" "running s \<noteq> gct s" using False by (auto simp: special_def)
  consider "t_state s (running s) = RUNNING" | "t_state s (running s) = BLOCK_PENDING"
    | "t_state s (running s) = BLOCKED" | "t_state s (running s) = STOPPED" using w(5) by auto
  then show ?thesis
  proof cases
    case 1
    then have "s' = set_state (running s) READY (s\<lparr>ready_queue := q\<rparr>)"
      using ns m(3) e by (simp add: s'_def reschedule_running_def)
    then show ?thesis using m w(4) False by (simp add: queued_def special_def)
  next
    case 2
    then have "s' = s\<lparr>ready_queue := q\<rparr>" using ns e by (simp add: s'_def reschedule_running_def)
    then show ?thesis using m w(4) False 2 by (simp add: queued_def special_def)
  next
    case 3
    then have "s' = s" using ns by (simp add: s'_def reschedule_running_def)
    then show ?thesis using w 3 False by (simp add: queued_def special_def)
  next
    case 4
    then have "s' = s" using ns by (simp add: s'_def reschedule_running_def)
    then show ?thesis using w 4 False by (simp add: queued_def special_def)
  qed
qed


lemma next_thread_spec:
  assumes "switchable s" and "next_scheduled_thread s = (s1, nxt)"
  obtains q where "s1 = s\<lparr>ready_queue := q\<rparr>" "switchable s1" "queued s1 = queued s - {nxt}"
    "nxt \<in> queued s \<or> nxt = idle s \<and> garbage_bin s = [] \<and> queued s = {} \<or> nxt = gct s \<and> garbage_bin s \<noteq> []"
    "nxt = idle s \<longrightarrow> s1 = s" "nxt = gct s \<longrightarrow> s1 = s"
proof -
  have ok: "mlq_ok (t_policy s) (ready_queue s)"
    "map fst (ready_queue s) = [LOW_LATENCY, NORMAL, BACKGROUND]" using assms(1) by (simp_all add: switchable_def)
  have sp: "t \<notin> queued s" if "special s t" for t
    using that assms(1) mlq_queued_policy [OF ok(1), of t] level_policies [OF ok(2), of "t_policy s t"]
    by (auto simp: switchable_def queued_def special_def)
  show ?thesis
  proof (cases "garbage_bin s = []")
    case False
    then have e: "s1 = s" "nxt = gct s" using assms(2) by (auto simp: next_scheduled_thread_def)
    show ?thesis
      by (rule that [of "ready_queue s"]; unfold e) (use assms(1) sp [of "gct s"] False in \<open>simp_all add: special_def\<close>)
  next
    case True
    obtain q r where d: "mlq_dequeue (ready_queue s) = (q, r)" by fastforce
    have s1: "s1 = s\<lparr>ready_queue := q\<rparr>" and nxt: "nxt = (case r of None \<Rightarrow> idle s | Some t \<Rightarrow> t)"
      using assms(2) True d by (simp_all add: next_scheduled_thread_def)
    note m = mlq_dequeue_spec [OF ok(1) d]
    show ?thesis
    proof (cases r)
      case None
      then have "q = ready_queue s" "queued s = {}" using m by (simp_all add: queued_def)
      then show ?thesis using that [of q] s1 nxt None True assms(1) by simp
    next
      case (Some t)
      then have qs: "mlq_queued (ready_queue s) = t # mlq_queued q" using m by simp
      then have t: "t \<in> queued s" and sub: "queued s1 = queued s - {t}"
        using mlq_ok_distinct [OF ok(1)] by (auto simp: queued_def s1)
      have "switchable s1"
        using assms(1) m ok sub by (auto simp: switchable_def s1 special_def queued_def)
      moreover have "t \<noteq> idle s" "t \<noteq> gct s" using t sp by (auto simp: special_def)
      ultimately show ?thesis using that [of q] s1 nxt Some t sub by simp
    qed
  qed
qed

lemma context_switch_inv:
  assumes "switchable s" and "covered {running s} s" and "perform_context_switch s = (s', sw)"
  shows "sched_inv s' \<and> garbage_bin s' = garbage_bin s"
proof -
  obtain s1 nxt where n: "next_scheduled_thread s = (s1, nxt)" by fastforce
  obtain q where s1: "s1 = s\<lparr>ready_queue := q\<rparr>" and sw1: "switchable s1" and q1: "queued s1 = queued s - {nxt}"
    and nxt: "nxt \<in> queued s \<or> nxt = idle s \<and> garbage_bin s = [] \<and> queued s = {} \<or> nxt = gct s \<and> garbage_bin s \<noteq> []"
    and same: "nxt = idle s \<longrightarrow> s1 = s" "nxt = gct s \<longrightarrow> s1 = s"
    by (rule next_thread_spec [OF assms(1) n])
  have f1: "running s1 = running s" "idle s1 = idle s" "gct s1 = gct s" "t_policy s1 = t_policy s"
    "t_state s1 = t_state s" "garbage_bin s1 = garbage_bin s" "special s1 = special s"
    by (simp_all add: s1 special_def fun_eq_iff)
  consider (keep) "nxt = idle s" "running s = idle s \<or> t_state s (running s) = RUNNING" "s' = s"
    | (gct) "running s = gct s" "nxt = gct s" "s' = s"
    | (switch) "\<not> (nxt = idle s \<and> (running s = idle s \<or> t_state s (running s) = RUNNING))"
        "\<not> (running s = gct s \<and> nxt = gct s)"
        "s' = set_state nxt (if t_state ((reschedule_running s1)\<lparr>running := nxt\<rparr>) nxt = BLOCK_PENDING
           then BLOCK_PENDING else RUNNING) ((reschedule_running s1)\<lparr>running := nxt\<rparr>)"
  proof -
    have pc: "perform_context_switch s =
        (if nxt = idle s \<and> (running s = idle s \<or> t_state s (running s) = RUNNING) then (s1, None)
         else if running s = gct s \<and> nxt = gct s then (s1, None)
         else (set_state nxt (if t_state ((reschedule_running s1)\<lparr>running := nxt\<rparr>) nxt = BLOCK_PENDING
             then BLOCK_PENDING else RUNNING) ((reschedule_running s1)\<lparr>running := nxt\<rparr>), Some (running s, nxt)))"
      by (simp add: perform_context_switch_def Let_def n f1)
    show ?thesis
    proof (cases "nxt = idle s \<and> (running s = idle s \<or> t_state s (running s) = RUNNING)")
      case True
      then have "s' = s1" using assms(3) unfolding pc by simp
      then show ?thesis using that(1) True same(1) by blast
    next
      case f: False
      show ?thesis
      proof (cases "running s = gct s \<and> nxt = gct s")
        case True
        then have "s' = s1" using assms(3) f unfolding pc by simp
        then show ?thesis using that(2) True same(2) by blast
      next
        case False
        have "s' = set_state nxt (if t_state ((reschedule_running s1)\<lparr>running := nxt\<rparr>) nxt = BLOCK_PENDING
             then BLOCK_PENDING else RUNNING) ((reschedule_running s1)\<lparr>running := nxt\<rparr>)"
          using assms(3) unfolding pc if_not_P [OF f] if_not_P [OF False] by simp
        with f False show ?thesis by (rule that(3))
      qed
    qed
  qed
  then show ?thesis
  proof cases
    case keep
    then show ?thesis using switchable_inv [OF assms(1,2)] by (auto simp: special_def)
  next
    case gct
    then show ?thesis using switchable_inv [OF assms(1,2)] by (auto simp: special_def)
  next
    case switch
    define s2 where "s2 = reschedule_running s1"
    note r = reschedule_spec [OF sw1, folded s2_def, unfolded f1]
    have nr: "nxt \<noteq> running s"
      using nxt switch(1,2) assms(1) by (auto simp: switchable_def)
    have q2: "queued s2 - {running s} = queued s - {nxt}" using r q1 by blast
    have sp2: "special s2 = special s" using r by (auto simp: special_def fun_eq_iff)
    have n2: "nxt \<notin> queued s2" using q2 nr by blast
    have other: "t_state s2 u = t_state s u" if "u \<noteq> running s" for u using r that by blast
    have f': "ready_queue s' = ready_queue s2" "running s' = nxt" "idle s' = idle s" "gct s' = gct s"
      "t_policy s' = t_policy s" "queued s' = queued s2" "special s' = special s" "garbage_bin s' = garbage_bin s"
      "\<And>u. u \<noteq> nxt \<Longrightarrow> t_state s' u = t_state s2 u" "t_state s' nxt \<in> {RUNNING, BLOCK_PENDING}"
      using r sp2 by (simp_all add: switch(3) s2_def [symmetric] queued_def special_def fun_eq_iff)
    have st: "t_state s' u \<in> {CREATED, READY, BLOCK_PENDING}" if "u \<in> queued s'" for u
    proof (cases "u = running s")
      case True
      then show ?thesis using that r f' nr by auto
    next
      case False
      then have "u \<in> queued s" "u \<noteq> nxt" using that f' q2 n2 by auto
      then show ?thesis using f' other [OF False] assms(1) by (simp add: switchable_def)
    qed
    have cov: "u \<in> queued s'" if "u \<noteq> nxt" "\<not> special s u" "t_state s' u \<in> {READY, BLOCK_PENDING}" for u
    proof (cases "u = running s")
      case True
      then show ?thesis using that r f' by auto
    next
      case False
      then have "u \<in> queued s" using that f' other [OF False] assms(2) by (auto simp: covered_def)
      then show ?thesis using that False f' q2 by blast
    qed
    have run: "t_state s' u \<noteq> RUNNING" if "u \<noteq> nxt" for u
      using that f' r other assms(1) by (cases "u = running s") (auto simp: switchable_def)
    have pol: "t_policy s nxt \<noteq> POLICY_NONE" if "\<not> special s nxt"
      using that nxt assms(1) mlq_queued_policy [of "t_policy s" "ready_queue s" nxt]
        level_policies [of "ready_queue s" "t_policy s nxt"]
      by (auto simp: switchable_def queued_def special_def)
    have "sched_inv s'"
      using r f' n2 st cov run pol assms(1) unfolding sched_inv_def f' switchable_def by auto
    then show ?thesis using f'(8) by simp
  qed
qed


section \<open>Every operation keeps the invariant\<close>

lemma schedule_inv:
  assumes "sched_inv s" and "schedule s th = (s', ok)"
  shows "sched_inv s'"
proof (cases "s' = s")
  case True
  then show ?thesis using assms(1) by simp
next
  case False
  then obtain t q where t: "th = Some t" "t_state s t = CREATED" "t_policy s t \<noteq> POLICY_NONE"
    "mlq_enqueue (t_policy s) t (ready_queue s) = (q, True)" "s' = s\<lparr>ready_queue := q\<rparr>"
    using assms(2) by (auto simp: schedule_def split: option.splits if_splits prod.splits)
  note e = enqueue_inv [OF assms(1) t(4)]
  have "t \<noteq> running s" using t(2,3) assms(1) by (auto simp: sched_inv_def special_def)
  then show ?thesis using e t assms(1) by (auto simp: sched_inv_def special_def queued_def)
qed

lemma mark_inv: "sched_inv s \<Longrightarrow> sched_inv (mark_as_block_pending s)"
  by (auto simp: sched_inv_def mark_as_block_pending_def)

text \<open>The state change and the queue removal that \<open>block\<close> and \<open>stop\<close> make for a thread that does not run.\<close>

lemma dequeue_inv:
  assumes "sched_inv s" and "t \<noteq> running s" and "st \<in> {BLOCKED, STOPPED}"
  shows "sched_inv ((set_state t st s)\<lparr>ready_queue := fst (mlq_remove t (ready_queue s)), garbage_bin := b\<rparr>)"
proof -
  obtain q r where m: "mlq_remove t (ready_queue s) = (q, r)" by fastforce
  show ?thesis using remove_inv [OF assms(1) m] assms m
    by (auto simp: sched_inv_def special_def queued_def)
qed

lemma leave_running:
  assumes "sched_inv s" and "st \<in> {BLOCKED, STOPPED}"
  shows "switchable ((set_state (running s) st s)\<lparr>garbage_bin := b\<rparr>)"
    "covered {running s} ((set_state (running s) st s)\<lparr>garbage_bin := b\<rparr>)"
  using assms by (auto simp: sched_inv_def switchable_def covered_def special_def queued_def)

lemma block_inv:
  assumes "sched_inv s" and "block s th = (s', sw)"
  shows "sched_inv s'"
proof -
  show ?thesis
  proof (cases "\<exists>t. th = Some t \<and> t_state s t = BLOCK_PENDING")
    case False
    then have "s' = s" using assms(2) by (auto simp: block_def split: option.splits)
    then show ?thesis using assms(1) by simp
  next
    case True
    then obtain t where t: "th = Some t" "t_state s t = BLOCK_PENDING" by blast
    show ?thesis
    proof (cases "t = running s")
      case False
      then have "s' = (set_state t BLOCKED s)\<lparr>ready_queue := fst (mlq_remove t (ready_queue s))\<rparr>"
        using assms(2) t by (simp add: block_def Let_def)
      then show ?thesis using dequeue_inv [OF assms(1) False, of BLOCKED "garbage_bin s"]
        by (simp add: set_state_def)
    next
      case True
      then have "perform_context_switch (set_state (running s) BLOCKED s) = (s', sw)"
        using assms(2) t by (simp add: block_def Let_def)
      moreover have "switchable (set_state (running s) BLOCKED s)" "covered {running s} (set_state (running s) BLOCKED s)"
        using leave_running [OF assms(1), of BLOCKED "garbage_bin s"] by (simp_all add: set_state_def)
      ultimately show ?thesis using context_switch_inv [of "set_state (running s) BLOCKED s" s' sw] by simp
    qed
  qed
qed

lemma unblock_inv:
  assumes "sched_inv s"
  shows "sched_inv (unblock s th)"
proof (cases th)
  case None
  then show ?thesis using assms by (simp add: unblock_def)
next
  case (Some t)
  obtain q ok where e: "mlq_enqueue (t_policy s) t (ready_queue s) = (q, ok)" by fastforce
  show ?thesis
  proof (cases "t_state s t = BLOCKED \<or> t_state s t = BLOCK_PENDING")
    case False
    then show ?thesis using assms by (simp add: unblock_def Some)
  next
    case wait: True
    show ?thesis
    proof (cases "t = running s")
      case True
      then have "unblock s th = set_state t RUNNING s" using wait by (auto simp: unblock_def Some)
      then show ?thesis using assms True by (auto simp: sched_inv_def)
    next
      case False
      then have u: "unblock s th = (if ok then set_state t READY (s\<lparr>ready_queue := q\<rparr>) else s)"
        using wait e by (auto simp: unblock_def Some)
      show ?thesis
      proof (cases ok)
        case True
        then show ?thesis using enqueue_inv [OF assms e] assms False unfolding u
          by (auto simp: sched_inv_def special_def queued_def)
      next
        case False
        then show ?thesis using assms by (simp add: u)
      qed
    qed
  qed
qed

lemma stop_inv:
  assumes "sched_inv s" and "stop s th = (s', sw)"
  shows "sched_inv s'"
proof -
  show ?thesis
  proof (cases th)
    case None
    then show ?thesis using assms by (simp add: stop_def)
  next
    case (Some t)
    show ?thesis
    proof (cases "t = running s")
      case False
      then have "s' = (set_state t STOPPED s)\<lparr>ready_queue := fst (mlq_remove t (ready_queue s)),
          garbage_bin := garbage_bin s @ [t]\<rparr>"
        using assms(2) Some by (auto simp: stop_def Let_def)
      then show ?thesis using dequeue_inv [OF assms(1) False, of STOPPED "garbage_bin s @ [t]"] by simp
    next
      case True
      let ?s = "(set_state (running s) STOPPED s)\<lparr>garbage_bin := garbage_bin s @ [running s]\<rparr>"
      have "perform_context_switch ?s = (s', sw)" using assms(2) Some True by (auto simp: stop_def Let_def)
      moreover have "switchable ?s" "covered {running s} ?s" using leave_running [OF assms(1)] by simp_all
      ultimately show ?thesis using context_switch_inv [of ?s s' sw] by simp
    qed
  qed
qed

lemma preempt_inv: "sched_inv s \<Longrightarrow> preempt_running_thread s = (s', sw) \<Longrightarrow> sched_inv s'"
  using context_switch_inv sched_inv_switchable unfolding preempt_running_thread_def by blast

inductive sched_step :: "scheduler \<Rightarrow> scheduler \<Rightarrow> bool" where
  "schedule s th = (s', ok) \<Longrightarrow> sched_step s s'"
| "preempt_running_thread s = (s', sw) \<Longrightarrow> sched_step s s'"
| "sched_step s (mark_as_block_pending s)"
| "block s th = (s', sw) \<Longrightarrow> sched_step s s'"
| "sched_step s (unblock s th)"
| "stop s th = (s', sw) \<Longrightarrow> sched_step s s'"
| "sched_step s (collect_one s)"

lemma sched_step_inv: "sched_step s s' \<Longrightarrow> sched_inv s \<Longrightarrow> sched_inv s'"
proof (induction rule: sched_step.induct)
  case (7 s)
  then show ?case by (simp add: collect_one_def sched_inv_def special_def queued_def)
qed (auto intro: schedule_inv preempt_inv mark_inv block_inv unblock_inv stop_inv)


section \<open>Round robin\<close>

fun preempts :: "nat \<Rightarrow> scheduler \<Rightarrow> scheduler" where
  "preempts 0 s = s"
| "preempts (Suc n) s = preempts n (fst (preempt_running_thread s))"

lemma mlq_dequeue_level:
  "\<forall>(p, ts) \<in> set hs. ts = [] \<Longrightarrow> mlq_dequeue (hs @ (p, t # ts) # ls) = (hs @ (p, ts) # ls, Some t)"
  by (induction hs) auto

lemma mlq_enqueue_level:
  "pol t \<notin> fst ` set hs \<Longrightarrow> t \<notin> set ts \<Longrightarrow> pol t = p \<Longrightarrow>
   mlq_enqueue pol t (hs @ (p, ts) # ls) = (hs @ (p, ts @ [t]) # ls, True)"
  by (induction hs) auto

lemma preempt_rotates:
  assumes "sched_inv s" and "garbage_bin s = []" and "\<not> special s (running s)"
    and "ready_queue s = hs @ (p, t # ts) # ls" and "\<forall>(p, ts) \<in> set hs. ts = []"
    and "t_policy s (running s) = p"
  defines "s' \<equiv> fst (preempt_running_thread s)"
  shows "running s' = t \<and> ready_queue s' = hs @ (p, ts @ [running s]) # ls \<and> garbage_bin s' = [] \<and>
    idle s' = idle s \<and> gct s' = gct s \<and> t_policy s' = t_policy s"
proof -
  let ?s1 = "s\<lparr>ready_queue := hs @ (p, ts) # ls\<rparr>"
  have n: "next_scheduled_thread s = (?s1, t)"
    using assms(2,4) mlq_dequeue_level [OF assms(5), of p t ts ls] by (simp add: next_scheduled_thread_def)
  have tq: "t \<in> queued s" by (simp add: queued_def set_mlq_queued assms(4))
  have ns: "t \<noteq> idle s" "t \<noteq> gct s" using sched_inv_special [OF assms(1)] tq by (auto simp: special_def)
  have rq: "running s \<notin> queued s" using assms(1) by (simp add: sched_inv_def)
  then have r: "running s \<notin> set ts" by (simp add: queued_def set_mlq_queued assms(4))
  have p: "p \<notin> fst ` set hs"
    using assms(1) by (auto simp: sched_inv_def mlq_ok_def assms(4))
  have e: "mlq_enqueue (t_policy s) (running s) (hs @ (p, ts) # ls) = (hs @ (p, ts @ [running s]) # ls, True)"
    by (rule mlq_enqueue_level) (use p r assms(6) in auto)
  have st: "t_state s (running s) = RUNNING \<or> t_state s (running s) = BLOCK_PENDING"
    using assms(1,3) by (auto simp: sched_inv_def)
  have ri: "running s \<noteq> idle s" "running s \<noteq> gct s" using assms(3) by (auto simp: special_def)
  define s2 where "s2 = reschedule_running ?s1"
  have s2: "ready_queue s2 = hs @ (p, ts @ [running s]) # ls" "idle s2 = idle s" "gct s2 = gct s"
    "t_policy s2 = t_policy s" "garbage_bin s2 = []"
    using st ri e assms(2) by (auto simp: s2_def reschedule_running_def)
  have "s' = set_state t (if t_state s2 t = BLOCK_PENDING then BLOCK_PENDING else RUNNING) (s2\<lparr>running := t\<rparr>)"
    using ns by (simp add: s'_def preempt_running_thread_def perform_context_switch_def n s2_def)
  then show ?thesis using s2 by simp
qed

section \<open>Properties\<close>

definition sample_sched :: scheduler where
  "sample_sched = (sched_init 1 2 3 (\<lambda>t. if t = 1 then RUNNING else CREATED)
     (\<lambda>t. if t = 2 \<or> t = 3 then POLICY_NONE else NORMAL))
       \<lparr>ready_queue := [(LOW_LATENCY, []), (NORMAL, [4, 5]), (BACKGROUND, [])]\<rparr>"

lemma sample_sched_inv: "sched_inv sample_sched"
  by (auto simp: sample_sched_def sched_init_def sched_inv_def mlq_ok_def queued_def special_def set_state_def)

text \<open>
  C8. In every reachable state at most the running thread is \<open>RUNNING\<close>, no blocked or stopped thread
  and neither special thread is in the ready queue, so none is ever dispatched from it, no thread
  is queued twice, and every ready thread is queued, so no wake-up and no preempted thread is lost.
\<close>

theorem scheduler_keeps_invariant:
  assumes "sched_step\<^sup>*\<^sup>* s s'" and "sched_inv s"
  shows "distinct (mlq_queued (ready_queue s')) \<and> running s' \<notin> queued s' \<and>
    idle s' \<notin> queued s' \<and> gct s' \<notin> queued s' \<and>
    (\<forall>t. (t_state s' t = RUNNING \<longrightarrow> t = running s') \<and>
      (t_state s' t \<in> {BLOCKED, STOPPED} \<longrightarrow> t \<notin> queued s') \<and>
      (t_state s' t = READY \<and> t \<noteq> running s' \<and> \<not> special s' t \<longrightarrow> t \<in> queued s'))"
proof -
  have inv: "sched_inv s'"
    using assms by (induction rule: rtranclp_induct) (auto intro: sched_step_inv)
  have "distinct (mlq_queued (ready_queue s'))" using inv mlq_ok_distinct by (auto simp: sched_inv_def)
  moreover have "idle s' \<notin> queued s'" "gct s' \<notin> queued s'"
    using sched_inv_special [OF inv] by (auto simp: special_def)
  ultimately show ?thesis using inv unfolding sched_inv_def by fastforce
qed

theorem scheduler_keeps_invariant_witness:
  "\<exists>s'. sched_step\<^sup>*\<^sup>* sample_sched s' \<and> t_state s' 1 = BLOCKED \<and> 1 \<notin> queued s'"
proof -
  define s' where "s' = fst (block (mark_as_block_pending sample_sched) (Some 1))"
  have "sched_step sample_sched (mark_as_block_pending sample_sched)" by (rule sched_step.intros)
  moreover have "sched_step (mark_as_block_pending sample_sched) s'"
    unfolding s'_def by (rule sched_step.intros(4) [OF prod.collapse [symmetric]])
  ultimately have st: "sched_step\<^sup>*\<^sup>* sample_sched s'" by auto
  have "t_state s' 1 = BLOCKED"
    by (simp add: s'_def block_def mark_as_block_pending_def sample_sched_def sched_init_def set_state_def
        perform_context_switch_def next_scheduled_thread_def reschedule_running_def)
  then show ?thesis using scheduler_keeps_invariant [OF st sample_sched_inv] st by auto
qed

text \<open>
  C9. Round robin: as long as only the timer acts, the running thread and the threads waiting at its
  policy, with every higher level empty, rotate with each preemption; after \<open>n\<close> preemptions the
  sequence \<open>running # queue\<close> is the \<open>n\<close>-fold rotation, so each of them runs in turn.
\<close>

theorem preemption_is_round_robin:
  assumes "sched_inv s" and "garbage_bin s = []" and "\<not> special s (running s)"
    and "ready_queue s = hs @ (p, ts) # ls" and "\<forall>(p, ts) \<in> set hs. ts = []" and "ts \<noteq> []"
    and "t_policy s (running s) = p"
  shows "\<exists>ts'. ready_queue (preempts n s) = hs @ (p, ts') # ls \<and>
    running (preempts n s) # ts' = rotate n (running s # ts)"
  using assms
proof (induction n arbitrary: s ts)
  case (Suc n)
  obtain t us where ts: "ts = t # us" using Suc.prems(6) by (cases ts) auto
  let ?s = "fst (preempt_running_thread s)"
  have inv: "sched_inv ?s" using preempt_inv [OF Suc.prems(1) prod.collapse [symmetric]] .
  note r = preempt_rotates [OF Suc.prems(1-3) Suc.prems(4) [unfolded ts] Suc.prems(5,7)]
  have tq: "t \<in> queued s" by (simp add: queued_def set_mlq_queued Suc.prems(4) ts)
  have ns: "\<not> special s t" using sched_inv_special [OF Suc.prems(1)] tq by blast
  have pt: "t_policy s t = p" using Suc.prems(1) by (auto simp: sched_inv_def mlq_ok_def Suc.prems(4) ts)
  have "\<exists>ts'. ready_queue (preempts n ?s) = hs @ (p, ts') # ls \<and>
      running (preempts n ?s) # ts' = rotate n (running ?s # us @ [running s])"
    by (rule Suc.IH) (use inv r ns pt Suc.prems(5) in \<open>auto simp: special_def\<close>)
  moreover have "rotate n (t # us @ [running s]) = rotate (Suc n) (running s # ts)"
    by (simp add: rotate1_rotate_swap ts)
  ultimately show ?case using r by simp
qed simp

theorem preemption_is_round_robin_witness:
  "\<exists>ts'. ready_queue (preempts 2 sample_sched) = [(LOW_LATENCY, [])] @ (NORMAL, ts') # [(BACKGROUND, [])] \<and>
    running (preempts 2 sample_sched) # ts' = rotate 2 (running sample_sched # [4, 5])"
  by (rule preemption_is_round_robin [OF sample_sched_inv])
     (simp_all add: sample_sched_def sched_init_def special_def set_state_def)

text \<open>
  A wake-up that arrives between \<open>mark_as_block_pending\<close> and \<open>block\<close> is not lost: the thread
  becomes ready and queued (or keeps running), and its later \<open>block\<close> returns at once.
\<close>

theorem wakeup_before_block_is_kept:
  assumes "sched_inv s" and "t_state s t = BLOCK_PENDING" and "t_policy s t \<noteq> POLICY_NONE"
  shows "(t = running s \<and> t_state (unblock s (Some t)) t = RUNNING \<or>
      t \<in> queued (unblock s (Some t)) \<and> t_state (unblock s (Some t)) t = READY) \<and>
    block (unblock s (Some t)) (Some t) = (unblock s (Some t), None)"
proof (cases "t = running s")
  case True
  then show ?thesis using assms(2) by (simp add: unblock_def block_def)
next
  case False
  obtain q ok where e: "mlq_enqueue (t_policy s) t (ready_queue s) = (q, ok)" by fastforce
  then show ?thesis using enqueue_inv [OF assms(1) e] assms(2,3) False
    by (simp add: unblock_def block_def queued_def)
qed

theorem wakeup_before_block_is_kept_witness:
  "\<exists>s. t_state s 1 = BLOCK_PENDING \<and> (1 = running s \<and> t_state (unblock s (Some 1)) 1 = RUNNING \<or>
      1 \<in> queued (unblock s (Some 1)) \<and> t_state (unblock s (Some 1)) 1 = READY) \<and>
    block (unblock s (Some 1)) (Some 1) = (unblock s (Some 1), None)"
proof -
  let ?s = "mark_as_block_pending sample_sched"
  have "t_state ?s 1 = BLOCK_PENDING" "t_policy ?s 1 \<noteq> POLICY_NONE"
    by (simp_all add: mark_as_block_pending_def sample_sched_def sched_init_def set_state_def)
  with wakeup_before_block_is_kept [OF mark_inv [OF sample_sched_inv], of 1] show ?thesis by blast
qed

end
