(* ===== verification/Timer.thy ===== *)
theory Timer
  imports Scheduler
begin

text \<open>
  The timer: \<^verbatim>\<open>Kernel/Src/CPU/Time/DeltaQueue.cpp\<close>, \<^verbatim>\<open>Timer.cpp\<close> and \<^verbatim>\<open>PIT.cpp\<close>. The delta queue
  is the list of its nodes from \<open>m_first\<close> on: a sleeping thread and the nanoseconds between the
  wake-up of its predecessor and its own. The interrupt handler is a function on the timer and the
  scheduler; port writes are returned as a list, acknowledging the interrupt is left out.

  \<open>deadlines\<close> reads the queue as absolute wake times.
\<close>

section \<open>The delta queue\<close>

type_synonym delta_queue = "(handle \<times> u64) list"

definition update_wake_time :: "u64 \<Rightarrow> delta_queue \<Rightarrow> delta_queue" where
  "update_wake_time time_decrement q =
     (case q of [] \<Rightarrow> [] | (t, w) # q' \<Rightarrow> (t, w - time_decrement) # q')"

text \<open>The walk of \<open>enqueue\<close>: the new wake time shrinks by each node passed; the next node by it.\<close>

fun dq_enqueue :: "handle \<Rightarrow> u64 \<Rightarrow> delta_queue \<Rightarrow> delta_queue" where
  "dq_enqueue thread wake_time [] = [(thread, wake_time)]"
| "dq_enqueue thread wake_time ((t, w) # q) =
     (if wake_time \<ge> w then (t, w) # dq_enqueue thread (wake_time - w) q
      else (thread, wake_time) # (t, w - wake_time) # q)"

text \<open>\<open>remove\<close> of the node at the head of a suffix.\<close>

fun dq_remove :: "delta_queue \<Rightarrow> delta_queue" where
  "dq_remove ((t, w) # (t', w') # q) = (t', if w > 0 then w' + w else w') # q"
| "dq_remove [(t, w)] = []"
| "dq_remove [] = []"

definition dq_dequeue :: "delta_queue \<Rightarrow> delta_queue \<times> handle option" where
  "dq_dequeue q =
     (case q of
        [] \<Rightarrow> (q, None)
      | (t, w) # _ \<Rightarrow> if w = 0 then (dq_remove q, Some t) else (q, None))"

fun remove_waiting_thread :: "handle \<Rightarrow> delta_queue \<Rightarrow> delta_queue \<times> bool" where
  "remove_waiting_thread h [] = ([], False)"
| "remove_waiting_thread h ((t, w) # q) =
     (if t = h then (dq_remove ((t, w) # q), True)
      else let (q', removed) = remove_waiting_thread h q in ((t, w) # q', removed))"

section \<open>The programmable interval timer\<close>

definition QUARTZ_FREQUENCY_HZ :: u64 where "QUARTZ_FREQUENCY_HZ = 1193182"
definition NANO_SECOND :: u64 where "NANO_SECOND = 1000000000"

record pit =
  p_sched :: scheduler
  sleeping_threads :: delta_queue
  tick_count :: u64
  freq_hz :: u64
  quantum :: u64
  quantum_remaining :: u32
  time_between_irq :: u64

definition get_time_since_start :: "pit \<Rightarrow> u64" where
  "get_time_since_start p = tick_count p * time_between_irq p"

text \<open>
  \<open>start\<close>: the frequency is limited by the quartz. The writes are the command byte to port 0x43
  and the divider to port 0x40, low byte first. A frequency of 0 divides by zero.
\<close>

definition pit_start :: "pit \<Rightarrow> u64 \<Rightarrow> u64 \<Rightarrow> (pit \<times> (u16 \<times> u8) list) option" where
  "pit_start p frequency q =
     (let freq = (if frequency > QUARTZ_FREQUENCY_HZ then QUARTZ_FREQUENCY_HZ else frequency);
          divider = QUARTZ_FREQUENCY_HZ div freq
      in if freq = 0 then None
         else Some (p\<lparr>freq_hz := freq, quantum := q, quantum_remaining := ucast q,
                      time_between_irq := NANO_SECOND div freq\<rparr>,
                    [(0x43, 0x36), (0x40, ucast (divider AND 0xFF)), (0x40, ucast (drop_bit 8 divider AND 0xFF))]))"

text \<open>The wake-up loop of the interrupt handler.\<close>

fun wake_loop :: "delta_queue \<Rightarrow> scheduler \<Rightarrow> bool \<Rightarrow> delta_queue \<times> scheduler \<times> bool" where
  "wake_loop [] s do_preempt = ([], s, do_preempt)"
| "wake_loop ((t, w) # q) s do_preempt =
     (if w = 0
      then let s = unblock s (Some t)
           in wake_loop q s (do_preempt \<or> mlq_peek (ready_queue s) = Some t)
      else ((t, w) # q, s, do_preempt))"

definition irq_handler :: "pit \<Rightarrow> pit" where
  "irq_handler p =
     (let p = p\<lparr>tick_count := tick_count p + 1,
                sleeping_threads := update_wake_time (time_between_irq p) (sleeping_threads p)\<rparr>;
          (q, s, do_preempt) = wake_loop (sleeping_threads p) (p_sched p) False;
          p = p\<lparr>sleeping_threads := q, p_sched := s\<rparr>;
          (p, do_preempt) =
            (if quantum_remaining p = 0
             then (p\<lparr>quantum_remaining := ucast (quantum p)\<rparr>, True)
             else (p\<lparr>quantum_remaining := ucast (ucast (quantum_remaining p) - time_between_irq p)\<rparr>, do_preempt))
      in if do_preempt then p\<lparr>p_sched := fst (preempt_running_thread (p_sched p))\<rparr> else p)"

definition sleep_until :: "pit \<Rightarrow> u64 \<Rightarrow> pit" where
  "sleep_until p wake_time_nanos =
     (let tsb = get_time_since_start p
      in if wake_time_nanos \<le> tsb then p
         else let sleep_time = wake_time_nanos - tsb;
                  t = running (p_sched p);
                  s = mark_as_block_pending (p_sched p);
                  p = p\<lparr>sleeping_threads := dq_enqueue t sleep_time (sleeping_threads p),
                        quantum_remaining := ucast (quantum p)\<rparr>
              in p\<lparr>p_sched := fst (block s (Some t))\<rparr>)"

definition sleep_nano :: "pit \<Rightarrow> u64 \<Rightarrow> pit" where
  "sleep_nano p time_nanos = sleep_until p (get_time_since_start p + time_nanos)"

definition sleep_micro :: "pit \<Rightarrow> u64 \<Rightarrow> pit" where
  "sleep_micro p time_micros = sleep_until p (get_time_since_start p + time_micros * 1000)"

definition sleep_milli :: "pit \<Rightarrow> u64 \<Rightarrow> pit" where
  "sleep_milli p time_millis = sleep_until p (get_time_since_start p + time_millis * 1000000)"

definition sleep_second :: "pit \<Rightarrow> u64 \<Rightarrow> pit" where
  "sleep_second p time_seconds = sleep_until p (get_time_since_start p + time_seconds * 1000000000)"

section \<open>Absolute wake times\<close>

fun deadlines :: "nat \<Rightarrow> delta_queue \<Rightarrow> (handle \<times> nat) list" where
  "deadlines b [] = []"
| "deadlines b ((t, w) # q) = (t, b + unat w) # deadlines (b + unat w) q"

definition dq_ok :: "delta_queue \<Rightarrow> bool" where
  "dq_ok q \<longleftrightarrow> (\<forall>x \<in> set (deadlines 0 q). snd x < 2 ^ 64)"

lemma deadlines_ge: "x \<in> set (deadlines b q) \<Longrightarrow> b \<le> snd x"
  by (induction b q rule: deadlines.induct) force+

lemma deadlines_sorted: "sorted (map snd (deadlines b q))"
  by (induction b q rule: deadlines.induct) (auto dest: deadlines_ge)

text \<open>The queue of the deadlines: after every deadline that is not later.\<close>

definition place :: "'a \<times> nat \<Rightarrow> ('a \<times> nat) list \<Rightarrow> ('a \<times> nat) list" where
  "place x xs = takeWhile (\<lambda>y. snd y \<le> snd x) xs @ x # dropWhile (\<lambda>y. snd y \<le> snd x) xs"

lemma deadlines_enqueue:
  "deadlines b (dq_enqueue t w q) = place (t, b + unat w) (deadlines b q)"
proof (induction t w q arbitrary: b rule: dq_enqueue.induct)
  case (2 thread wake t w q)
  show ?case
  proof (cases "wake \<ge> w")
    case True
    then have e: "b + unat w + unat (wake - w) = b + unat wake"
      by (subst unat_minus_no_wrap) (simp_all add: word_le_nat_alt)
    show ?thesis using True 2 [OF True, of "b + unat w", unfolded e] by (simp add: place_def word_le_nat_alt)
  next
    case False
    then have lt: "unat wake < unat w" by (simp add: word_le_nat_alt)
    then have "unat (w - wake) = unat w - unat wake" by (subst unat_minus_no_wrap) simp_all
    then show ?thesis using False lt by (simp add: place_def word_le_nat_alt)
  qed
qed (simp add: place_def)

lemma deadlines_dq_remove:
  assumes "\<forall>x \<in> set (deadlines b q). snd x < 2 ^ 64"
  shows "deadlines b (dq_remove q) = tl (deadlines b q)"
  using assms
proof (induction q rule: dq_remove.induct)
  case (1 t w t' w' q)
  have "unat (w' + w) = unat w' + unat w" using 1 by (intro unat_plus_u64) simp
  moreover have "w = 0" if "\<not> w > 0" using that by (simp add: word_less_nat_alt unat_eq_zero)
  ultimately show ?case by (auto simp: add.assoc add.commute [of "unat w"])
qed simp_all

fun drop_first :: "'a \<Rightarrow> ('a \<times> 'b) list \<Rightarrow> ('a \<times> 'b) list" where
  "drop_first h [] = []"
| "drop_first h (x # xs) = (if fst x = h then xs else x # drop_first h xs)"

lemma deadlines_remove_waiting:
  assumes "\<forall>x \<in> set (deadlines b q). snd x < 2 ^ 64" and "remove_waiting_thread h q = (q', r)"
  shows "deadlines b q' = drop_first h (deadlines b q) \<and> r = (h \<in> fst ` set q)"
  using assms
proof (induction q arbitrary: b q' r)
  case (Cons x q)
  obtain t w where x: "x = (t, w)" by fastforce
  show ?case
  proof (cases "t = h")
    case True
    then show ?thesis using Cons.prems deadlines_dq_remove [of b "x # q"] by (auto simp: x)
  next
    case False
    obtain q1 where q1: "remove_waiting_thread h q = (q1, r)" "q' = x # q1"
      using Cons.prems(2) False by (auto simp: x split: prod.splits)
    then show ?thesis using Cons.IH [of "b + unat w" q1 r] Cons.prems(1) False by (auto simp: x)
  qed
qed simp


section \<open>The tick\<close>

definition earlier :: "nat \<Rightarrow> handle \<times> nat \<Rightarrow> handle \<times> nat" where
  "earlier n x = (fst x, snd x - n)"

lemma deadlines_shift: "n \<le> b \<Longrightarrow> deadlines (b - n) q = map (earlier n) (deadlines b q)"
proof (induction b q rule: deadlines.induct)
  case (2 b t w q)
  then show ?case by (simp add: earlier_def)
qed simp

lemma deadlines_update:
  assumes "\<forall>x \<in> set (deadlines 0 q). unat d \<le> snd x"
  shows "deadlines 0 (update_wake_time d q) = map (earlier (unat d)) (deadlines 0 q)"
proof (cases q)
  case Nil
  then show ?thesis by (simp add: update_wake_time_def)
next
  case (Cons x q')
  obtain t w where x: "x = (t, w)" by fastforce
  have "unat d \<le> unat w" using assms Cons x by simp
  then have "unat (w - d) = unat w - unat d" by (rule unat_minus_no_wrap)
  then show ?thesis
    using deadlines_shift [OF \<open>unat d \<le> unat w\<close>, of q'] by (simp add: update_wake_time_def Cons x earlier_def)
qed

abbreviation unblock_all :: "scheduler \<Rightarrow> handle list \<Rightarrow> scheduler" where
  "unblock_all \<equiv> foldl (\<lambda>s t. unblock s (Some t))"

lemma wake_loop_spec:
  assumes "wake_loop q s pr = (q', s', pr')"
  shows "deadlines 0 q' = dropWhile (\<lambda>x. snd x = 0) (deadlines 0 q)"
    "s' = unblock_all s (map fst (takeWhile (\<lambda>x. snd x = 0) (deadlines 0 q)))"
  using assms
  by (induction q s pr rule: wake_loop.induct) (auto simp: Let_def unat_eq_zero split: if_splits)

lemma sorted_split:
  assumes "sorted (map snd xs)"
  shows "takeWhile (\<lambda>x. snd x \<le> n) xs = filter (\<lambda>x. snd x \<le> n) xs"
    "dropWhile (\<lambda>x. snd x \<le> n) xs = filter (\<lambda>x. n < snd x) xs"
proof -
  have "takeWhile (\<lambda>x. snd x \<le> n) xs = filter (\<lambda>x. snd x \<le> n) xs \<and>
      dropWhile (\<lambda>x. snd x \<le> n) xs = filter (\<lambda>x. n < snd x) xs"
    using assms
  proof (induction xs)
    case (Cons x xs)
    show ?case
    proof (cases "snd x \<le> n")
      case True
      then show ?thesis using Cons by simp
    next
      case False
      then have "\<forall>y \<in> set xs. n < snd y" using Cons.prems by force
      then have "filter (\<lambda>y. snd y \<le> n) xs = []" "filter (\<lambda>y. n < snd y) xs = xs"
        by (force simp: filter_empty_conv filter_id_conv)+
      then show ?thesis using False by simp
    qed
  qed simp
  then show "takeWhile (\<lambda>x. snd x \<le> n) xs = filter (\<lambda>x. snd x \<le> n) xs"
    "dropWhile (\<lambda>x. snd x \<le> n) xs = filter (\<lambda>x. n < snd x) xs" by blast+
qed

lemma irq_sleepers:
  "sleeping_threads (irq_handler p) =
    fst (wake_loop (update_wake_time (time_between_irq p) (sleeping_threads p)) (p_sched p) False)"
  "time_between_irq (irq_handler p) = time_between_irq p"
  by (simp_all add: irq_handler_def Let_def split: prod.splits)

section \<open>Properties\<close>

text \<open>
  \<open>enqueue\<close> sorts the new sleeper in by its absolute wake time, behind those that wake no later,
  and changes the wake time of nobody else; the queue stays sorted.
\<close>

theorem delta_queue_sorts_by_deadline:
  "deadlines 0 (dq_enqueue t w q) = place (t, unat w) (deadlines 0 q) \<and>
   sorted (map snd (deadlines 0 (dq_enqueue t w q)))"
  using deadlines_enqueue [of 0 t w q] deadlines_sorted [of 0 "dq_enqueue t w q"] by simp

text \<open>
  Removing a waiting thread takes out its first entry and keeps the absolute wake time of every
  other sleeper, provided the wake times fit in 64 bits.
\<close>

theorem delta_queue_remove_keeps_deadlines:
  assumes "dq_ok q" and "remove_waiting_thread h q = (q', removed)"
  shows "deadlines 0 q' = drop_first h (deadlines 0 q) \<and> removed = (h \<in> fst ` set q)"
  using deadlines_remove_waiting [OF _ assms(2)] assms(1) by (simp add: dq_ok_def)

theorem delta_queue_remove_keeps_deadlines_witness:
  "deadlines 0 [(2, 7)] = drop_first 1 (deadlines 0 [(1, 5), (2, 2)]) \<and> True = (1 \<in> fst ` set [(1 :: handle, 5 :: u64), (2, 2)])"
  by (rule delta_queue_remove_keeps_deadlines) (simp_all add: dq_ok_def)

text \<open>
  C10. The tick of the timer: when every wake time is a positive multiple of the time between two
  interrupts, as sleeps in milliseconds make them at 1000 Hz, an interrupt unblocks in order exactly
  the threads whose time has come and moves every other wake time one tick closer.
\<close>

theorem tick_wakes_the_due_threads:
  assumes "\<forall>x \<in> set (deadlines 0 (sleeping_threads p)). \<exists>k > 0. snd x = k * unat (time_between_irq p)"
  defines "d \<equiv> unat (time_between_irq p)"
    and "due \<equiv> filter (\<lambda>x. snd x \<le> unat (time_between_irq p)) (deadlines 0 (sleeping_threads p))"
  shows "deadlines 0 (sleeping_threads (irq_handler p)) =
      map (earlier d) (filter (\<lambda>x. d < snd x) (deadlines 0 (sleeping_threads p))) \<and>
    (\<exists>preempt. p_sched (irq_handler p) =
      (let s = unblock_all (p_sched p) (map fst due) in if preempt then fst (preempt_running_thread s) else s))"
proof -
  let ?q = "update_wake_time (time_between_irq p) (sleeping_threads p)"
  obtain q s pr where w: "wake_loop ?q (p_sched p) False = (q, s, pr)" by (metis prod_cases3)
  have le: "\<forall>x \<in> set (deadlines 0 (sleeping_threads p)). d \<le> snd x"
    using assms(1) unfolding d_def by fastforce
  have up: "deadlines 0 ?q = map (earlier d) (deadlines 0 (sleeping_threads p))"
    using deadlines_update le unfolding d_def by blast
  have z: "(\<lambda>x. snd x = 0) \<circ> earlier d = (\<lambda>x. snd x \<le> d)" by (auto simp: earlier_def)
  have q: "deadlines 0 q = map (earlier d) (filter (\<lambda>x. d < snd x) (deadlines 0 (sleeping_threads p)))"
    using wake_loop_spec(1) [OF w] sorted_split(2) [OF deadlines_sorted] by (simp add: up dropWhile_map z)
  have "map fst (takeWhile (\<lambda>x. snd x = 0) (deadlines 0 ?q)) = map fst due"
    using sorted_split(1) [OF deadlines_sorted]
    by (simp add: up takeWhile_map z due_def d_def [symmetric] earlier_def)
  then have s: "s = unblock_all (p_sched p) (map fst due)" using wake_loop_spec(2) [OF w] by simp
  have "\<exists>preempt. p_sched (irq_handler p) = (if preempt then fst (preempt_running_thread s) else s)"
    using w by (auto simp: irq_handler_def Let_def)
  then show ?thesis using q w irq_sleepers(1) [of p] unfolding Let_def s [symmetric] by simp
qed

definition sample_pit :: pit where
  "sample_pit = \<lparr>p_sched = sample_sched, sleeping_threads = [(7, 1000000), (8, 1000000)], tick_count = 5,
     freq_hz = 1000, quantum = 50000000, quantum_remaining = 3000000, time_between_irq = 1000000\<rparr>"

theorem tick_wakes_the_due_threads_witness:
  "deadlines 0 (sleeping_threads (irq_handler sample_pit)) = [(8, 1000000)]"
proof -
  have "\<forall>x \<in> set (deadlines 0 (sleeping_threads sample_pit)). \<exists>k > 0. snd x = k * unat (time_between_irq sample_pit)"
    by (auto simp: sample_pit_def intro: exI [of _ 1] exI [of _ 2])
  from conjunct1 [OF tick_wakes_the_due_threads [OF this]] show ?thesis
    by (simp add: sample_pit_def earlier_def)
qed

text \<open>
  A first sleeper whose wake time is not a multiple of the time between two interrupts is never
  woken: its 64-bit counter steps over 0, and it still sleeps after any number of ticks that stays
  below \<open>2 ^ 64\<close> nanoseconds (584 years).
\<close>

theorem unaligned_sleeper_never_wakes:
  assumes "sleeping_threads p = (t, w) # q" and "\<not> unat (time_between_irq p) dvd unat w"
    and "n * unat (time_between_irq p) < 2 ^ 64"
  shows "sleeping_threads ((irq_handler ^^ n) p) = (t, w - of_nat n * time_between_irq p) # q"
proof -
  let ?d = "time_between_irq p"
  have "sleeping_threads ((irq_handler ^^ k) p) = (t, w - of_nat k * ?d) # q \<and>
      time_between_irq ((irq_handler ^^ k) p) = ?d" if "k \<le> n" for k
    using that
  proof (induction k)
    case 0
    then show ?case using assms(1) by simp
  next
    case (Suc k)
    have step: "w - of_nat k * ?d - ?d = w - of_nat (Suc k) * ?d" by (simp add: algebra_simps)
    have "w - of_nat (Suc k) * ?d \<noteq> 0"
    proof
      assume "w - of_nat (Suc k) * ?d = 0"
      then have "w = of_nat (Suc k) * ?d" by simp
      also have "\<dots> = of_nat (Suc k * unat ?d)" by (simp add: distrib_right)
      finally have w: "w = of_nat (Suc k * unat ?d)" .
      have "Suc k * unat ?d \<le> n * unat ?d" using Suc.prems by (rule mult_le_mono1)
      then have "Suc k * unat ?d < 2 ^ 64" using assms(3) by (rule le_less_trans)
      from unat_of_nat_u64 [OF this] w have "unat w = Suc k * unat ?d" by (simp only:)
      then show False using assms(2) by simp
    qed
    then show ?case using Suc irq_sleepers [of "(irq_handler ^^ k) p"]
      by (simp add: update_wake_time_def step)
  qed
  then show ?thesis by simp
qed

theorem unaligned_sleeper_never_wakes_witness:
  "sleeping_threads ((irq_handler ^^ 3) (sample_pit\<lparr>sleeping_threads := [(7, 1500000)]\<rparr>)) =
    [(7, 1500000 - of_nat 3 * 1000000)]"
proof -
  have "\<not> unat (time_between_irq (sample_pit\<lparr>sleeping_threads := [(7, 1500000)]\<rparr>)) dvd unat (1500000 :: u64)"
    by (simp add: sample_pit_def)
  from unaligned_sleeper_never_wakes [OF _ this, of 7 "[]" 3] show ?thesis by (simp add: sample_pit_def)
qed

end
