(* ===== verification/Mutex.thy ===== *)
theory Mutex
  imports Scheduler
begin

text \<open>
  \<^verbatim>\<open>Kernel/Src/CPU/Threading/Mutex.cpp\<close> as a system of interleaved threads. Each thread has a place
  in the code (\<open>mutex_pc\<close>) and a step runs one piece of it that is atomic in the source: the
  compare-and-exchange, a critical section of \<open>_wait_queue_lock\<close>, a call of the scheduler (which
  runs under the scheduler's lock) or one read or write of \<open>_owner\<close> or \<open>_lock\<close> outside of these. In
  particular the null test of \<open>_owner\<close> and the dereference behind it, in \<open>unlock\<close> and in
  \<open>trace_state\<close>, are two steps. Of the scheduler's thread states only the part the mutex acts on is
  kept: runnable, about to block, blocked.

  Mutual exclusion is an invariant of every interleaving. The lemmas behind it show an interleaving
  that leaves a thread asleep although the mutex is free, and two in which a thread dereferences a
  null owner. The walk over the wait queue in \<open>trace_state\<close> and \<open>remove_thread\<close> are not modelled.
\<close>

section \<open>States\<close>

datatype mutex_pc =
  Outside
| Trying                          \<comment> \<open>at the compare-and-exchange of \<open>lock\<close>\<close>
| Claimed                         \<comment> \<open>it succeeded, \<open>_owner\<close> not yet written\<close>
| MustWait                        \<comment> \<open>it failed, not yet in the wait queue\<close>
| Enqueued                        \<comment> \<open>in the wait queue and marked, before \<open>block\<close>\<close>
| Parked                          \<comment> \<open>blocked in the scheduler\<close>
| Woken                           \<comment> \<open>\<open>block\<close> returned, before the owner check\<close>
| Holding
| Checking bool                   \<comment> \<open>\<open>unlock\<close> before the null test; whether the caller holds the mutex\<close>
| Checked bool                    \<comment> \<open>\<open>_owner\<close> was not null, before its handle is read\<close>
| Entering                        \<comment> \<open>the handle was the caller's, before the critical section\<close>
| Released "handle option"        \<comment> \<open>after the critical section\<close>
| Freeing "handle option"         \<comment> \<open>\<open>_owner\<close> was null again, before the store to \<open>_lock\<close>\<close>
| Waking "handle option"          \<comment> \<open>before \<open>unblock\<close>\<close>
| Crashed                         \<comment> \<open>null dereference\<close>

datatype run_state = Runnable | Pending | Asleep

text \<open>Where a thread is in \<open>trace_state\<close>: before the null test of \<open>_owner\<close>, or behind it.\<close>

datatype trace_pc = Silent | Testing | Naming

record mutex_sys =
  m_lock :: bool
  m_owner :: "handle option"
  m_queue :: "handle list"
  pc_of :: "handle \<Rightarrow> mutex_pc"
  run_of :: "handle \<Rightarrow> run_state"
  trace_of :: "handle \<Rightarrow> trace_pc"

definition mutex_init :: mutex_sys where
  "mutex_init = \<lparr>m_lock = False, m_owner = None, m_queue = [], pc_of = (\<lambda>_. Outside), run_of = (\<lambda>_. Runnable),
     trace_of = (\<lambda>_. Silent)\<rparr>"

definition goto :: "handle \<Rightarrow> mutex_pc \<Rightarrow> mutex_sys \<Rightarrow> mutex_sys" where
  "goto t l s = s\<lparr>pc_of := (pc_of s)(t := l)\<rparr>"

definition set_run :: "handle \<Rightarrow> run_state \<Rightarrow> mutex_sys \<Rightarrow> mutex_sys" where
  "set_run t r s = s\<lparr>run_of := (run_of s)(t := r)\<rparr>"

definition set_trace :: "handle \<Rightarrow> trace_pc \<Rightarrow> mutex_sys \<Rightarrow> mutex_sys" where
  "set_trace t r s = s\<lparr>trace_of := (trace_of s)(t := r)\<rparr>"

section \<open>The pieces of lock, try_lock and unlock\<close>

text \<open>
  \<open>trace_state\<close> evaluates \<open>_owner ? _owner->get_unique_name() : ""\<close>, whatever the log level is, and
  without a lock.
\<close>

definition trace_state :: "handle \<Rightarrow> mutex_sys \<Rightarrow> mutex_sys" where
  "trace_state t s = set_trace t Testing s"

definition trace_step :: "handle \<Rightarrow> mutex_sys \<Rightarrow> mutex_sys" where
  "trace_step t s =
     (case trace_of s t of
        Silent \<Rightarrow> s
      | Testing \<Rightarrow> set_trace t (if m_owner s = None then Silent else Naming) s
      | Naming \<Rightarrow> (case m_owner s of
                     None \<Rightarrow> goto t Crashed (set_trace t Silent s)
                   | Some _ \<Rightarrow> set_trace t Silent s))"

text \<open>\<open>atomic_compare_exchange_acquire(&_lock, 0, 1)\<close>.\<close>

definition cas_lock :: "mutex_sys \<Rightarrow> mutex_sys \<times> bool" where
  "cas_lock s = (if m_lock s then (s, False) else (s\<lparr>m_lock := True\<rparr>, True))"

definition lock_step :: "handle \<Rightarrow> mutex_sys \<Rightarrow> mutex_sys" where
  "lock_step t s =
     (case pc_of s t of
        Trying \<Rightarrow> (let (s, ok) = cas_lock s in goto t (if ok then Claimed else MustWait) s)
      | Claimed \<Rightarrow> trace_state t (goto t Holding (s\<lparr>m_owner := Some t\<rparr>))
      | MustWait \<Rightarrow> trace_state t (goto t Enqueued (set_run t Pending (s\<lparr>m_queue := m_queue s @ [t]\<rparr>)))
      | Enqueued \<Rightarrow> (if run_of s t = Pending then goto t Parked (set_run t Asleep s) else goto t Woken s)
      | Parked \<Rightarrow> (if run_of s t = Runnable then goto t Woken s else s)
      | Woken \<Rightarrow> (case m_owner s of
                    None \<Rightarrow> goto t Crashed s
                  | Some o' \<Rightarrow> if o' = t then trace_state t (goto t Holding s) else goto t Trying s)
      | _ \<Rightarrow> s)"

definition try_lock :: "handle \<Rightarrow> mutex_sys \<Rightarrow> mutex_sys" where
  "try_lock t s = (let (s, ok) = cas_lock s in if ok then goto t Claimed s else trace_state t s)"

text \<open>The critical section of \<open>unlock\<close>.\<close>

definition unlock_enter :: "handle \<Rightarrow> mutex_sys \<Rightarrow> mutex_sys" where
  "unlock_enter t s =
     (case m_queue s of
        [] \<Rightarrow> goto t (Released None) (s\<lparr>m_owner := None\<rparr>)
      | u # q \<Rightarrow> goto t (Released (Some u)) (s\<lparr>m_queue := q, m_owner := Some u\<rparr>))"

text \<open>
  Before it \<open>_owner\<close> is read twice, for the null test and for its handle, and behind it once more;
  only the owner gets past the checks.
\<close>

definition unlock_step :: "handle \<Rightarrow> mutex_sys \<Rightarrow> mutex_sys" where
  "unlock_step t s =
     (case pc_of s t of
        Checking h \<Rightarrow> goto t (if m_owner s = None then Outside else Checked h) s
      | Checked h \<Rightarrow> (case m_owner s of
                        None \<Rightarrow> goto t Crashed s
                      | Some o' \<Rightarrow> goto t (if o' = t then Entering else Outside) s)
      | Entering \<Rightarrow> unlock_enter t s
      | Released w \<Rightarrow> (if m_owner s = None then goto t (Freeing w) s else trace_state t (goto t (Waking w) s))
      | Freeing w \<Rightarrow> trace_state t (goto t (Waking w) (s\<lparr>m_lock := False\<rparr>))
      | Waking w \<Rightarrow> goto t Outside
          (case w of None \<Rightarrow> s | Some u \<Rightarrow> if run_of s u = Runnable then s else set_run u Runnable s)
      | _ \<Rightarrow> s)"

text \<open>What a thread does next: enter one of the three operations, or go on with the one it is in.\<close>

datatype mutex_action = Lock | TryLock | Unlock | Continue

fun operation_step :: "mutex_sys \<Rightarrow> handle \<Rightarrow> mutex_action \<Rightarrow> mutex_sys" where
  "operation_step s t Lock = (if pc_of s t = Outside then goto t Trying s else s)"
| "operation_step s t TryLock = (if pc_of s t = Outside then try_lock t s else s)"
| "operation_step s t Unlock =
     (if pc_of s t = Outside \<or> pc_of s t = Holding then goto t (Checking (pc_of s t = Holding)) s else s)"
| "operation_step s t Continue =
     (if pc_of s t \<in> {Trying, Claimed, MustWait, Enqueued, Parked, Woken} then lock_step t s else unlock_step t s)"

fun mutex_step :: "mutex_sys \<Rightarrow> handle \<times> mutex_action \<Rightarrow> mutex_sys" where
  "mutex_step s (t, a) =
     (if trace_of s t = Silent then operation_step s t a else if a = Continue then trace_step t s else s)"

definition mutex_run :: "mutex_sys \<Rightarrow> (handle \<times> mutex_action) list \<Rightarrow> mutex_sys" where
  "mutex_run = foldl mutex_step"

section \<open>The invariant\<close>

definition wakes :: "mutex_pc \<Rightarrow> handle option" where
  "wakes l = (case l of Released w \<Rightarrow> w | Freeing w \<Rightarrow> w | Waking w \<Rightarrow> w | _ \<Rightarrow> None)"

text \<open>The moments at which the mutex is locked without an owner.\<close>

definition between :: "mutex_pc \<Rightarrow> bool" where
  "between l \<longleftrightarrow> l = Claimed \<or> l = Released None \<or> l = Freeing None"

text \<open>The places of a thread that holds the mutex, up to the critical section of its \<open>unlock\<close>.\<close>

definition holds :: "mutex_pc \<Rightarrow> bool" where
  "holds l \<longleftrightarrow> l \<in> {Holding, Checking True, Checked True, Entering}"

text \<open>What holds of a thread at its place; a waker hands over to an owner that has not run yet.\<close>

fun place_ok :: "mutex_pc \<Rightarrow> bool \<Rightarrow> handle option \<Rightarrow> run_state \<Rightarrow> handle \<Rightarrow> bool" where
  "place_ok Claimed q owner r t \<longleftrightarrow> \<not> q \<and> owner = None"
| "place_ok Enqueued q owner r t \<longleftrightarrow>
     (if q then owner \<noteq> Some t \<and> r = Pending else owner = Some t \<and> r \<noteq> Asleep)"
| "place_ok Parked q owner r t \<longleftrightarrow> (if q then owner \<noteq> Some t \<and> r = Asleep else owner = Some t)"
| "place_ok Woken q owner r t \<longleftrightarrow> \<not> q \<and> owner = Some t"
| "place_ok (Released w) q owner r t \<longleftrightarrow> \<not> q \<and> owner \<noteq> Some t \<and> owner = w"
| "place_ok (Freeing w) q owner r t \<longleftrightarrow> \<not> q \<and> owner = None \<and> w = None"
| "place_ok l q owner r t \<longleftrightarrow> \<not> q \<and> (owner = Some t \<longleftrightarrow> holds l)"

definition thread_ok :: "mutex_sys \<Rightarrow> handle \<Rightarrow> bool" where
  "thread_ok s t \<longleftrightarrow> place_ok (pc_of s t) (t \<in> set (m_queue s)) (m_owner s) (run_of s t) t"

definition mutex_inv :: "mutex_sys \<Rightarrow> bool" where
  "mutex_inv s \<longleftrightarrow>
     (\<forall>t. thread_ok s t) \<and> distinct (m_queue s) \<and>
     (\<forall>t u. between (pc_of s t) \<longrightarrow> between (pc_of s u) \<longrightarrow> t = u) \<and>
     (\<not> m_lock s \<longrightarrow> m_owner s = None \<and> (\<forall>t. \<not> between (pc_of s t))) \<and>
     (\<forall>t u. wakes (pc_of s t) = Some u \<longrightarrow>
        m_owner s = Some u \<and> pc_of s u \<in> {Enqueued, Parked} \<and> run_of s u \<noteq> Runnable) \<and>
     (\<forall>t t'. wakes (pc_of s t) \<noteq> None \<longrightarrow> wakes (pc_of s t') \<noteq> None \<longrightarrow> t = t')"

text \<open>
  A thread traces outside, inside, before it wakes another, or in the wait queue; there the owner it
  has seen stays, since an owner that leaves hands over to the queue.
\<close>

definition trace_ok :: "mutex_sys \<Rightarrow> handle \<Rightarrow> bool" where
  "trace_ok s t \<longleftrightarrow> trace_of s t = Silent \<or> pc_of s t = Outside \<or> pc_of s t = Holding \<or> (\<exists>w. pc_of s t = Waking w) \<or>
     pc_of s t = Enqueued \<and> (trace_of s t = Naming \<longrightarrow> m_owner s \<noteq> None)"

lemma trace_sys [simp]:
  "m_lock (set_trace t r s) = m_lock s" "m_owner (set_trace t r s) = m_owner s" "m_queue (set_trace t r s) = m_queue s"
  "run_of (set_trace t r s) = run_of s" "pc_of (set_trace t r s) = pc_of s"
  "trace_of (set_trace t r s) u = (if u = t then r else trace_of s u)"
  "trace_of (goto t l s) = trace_of s" "trace_of (set_run t x s) = trace_of s"
  by (simp_all add: set_trace_def goto_def set_run_def)

lemma thread_ok_trace [simp]: "thread_ok (set_trace t r s) = thread_ok s"
  by (simp add: thread_ok_def fun_eq_iff)

lemma mutex_inv_trace [simp]: "mutex_inv (set_trace t r s) = mutex_inv s"
  by (simp add: mutex_inv_def)

lemma goto_simps [simp]:
  "m_lock (goto t l s) = m_lock s" "m_owner (goto t l s) = m_owner s" "m_queue (goto t l s) = m_queue s"
  "run_of (goto t l s) = run_of s" "pc_of (goto t l s) u = (if u = t then l else pc_of s u)"
  "m_lock (set_run t r s) = m_lock s" "m_owner (set_run t r s) = m_owner s" "m_queue (set_run t r s) = m_queue s"
  "run_of (set_run t r s) u = (if u = t then r else run_of s u)" "pc_of (set_run t r s) = pc_of s"
  by (simp_all add: goto_def set_run_def)

lemma goto_trace: "goto t l (set_trace u r s) = set_trace u r (goto t l s)"
  by (simp add: goto_def set_trace_def)

lemma place_simps [simp]:
  "wakes Outside = None" "wakes Trying = None" "wakes Claimed = None" "wakes MustWait = None"
  "wakes Enqueued = None" "wakes Parked = None" "wakes Woken = None" "wakes Holding = None" "wakes Crashed = None"
  "wakes (Checking h) = None" "wakes (Checked h) = None" "wakes Entering = None"
  "wakes (Released w) = w" "wakes (Freeing w) = w" "wakes (Waking w) = w"
  "\<not> between Outside" "\<not> between Trying" "between Claimed" "\<not> between MustWait" "\<not> between Enqueued"
  "\<not> between Parked" "\<not> between Woken" "\<not> between Holding" "\<not> between Crashed" "\<not> between (Waking w)"
  "\<not> between (Checking h)" "\<not> between (Checked h)" "\<not> between Entering"
  "between (Released w) \<longleftrightarrow> w = None" "between (Freeing w) \<longleftrightarrow> w = None"
  by (simp_all add: wakes_def between_def)

lemma holds_simps [simp]:
  "holds Holding" "holds (Checking h) = h" "holds (Checked h) = h" "holds Entering" "\<not> holds Outside" "\<not> holds Trying"
  "\<not> holds Claimed" "\<not> holds MustWait" "\<not> holds Enqueued" "\<not> holds Parked" "\<not> holds Woken" "\<not> holds Crashed"
  "\<not> holds (Released w)" "\<not> holds (Freeing w)" "\<not> holds (Waking w)"
  by (simp_all add: holds_def)

text \<open>Every step, by the place it starts from; what it traces does not matter for the invariant.\<close>

lemma operation_step_cases:
  obtains "operation_step s t a = s"
  | (enter) "pc_of s t = Outside" "operation_step s t a = goto t Trying s"
  | (cas) "pc_of s t = Outside \<or> pc_of s t = Trying" "\<not> m_lock s" "operation_step s t a = goto t Claimed (s\<lparr>m_lock := True\<rparr>)"
  | (busy) "pc_of s t = Outside" "operation_step s t a = trace_state t s"
  | (fail) "pc_of s t = Trying" "operation_step s t a = goto t MustWait s"
  | (claim) "pc_of s t = Claimed" "operation_step s t a = trace_state t (goto t Holding (s\<lparr>m_owner := Some t\<rparr>))"
  | (queue) "pc_of s t = MustWait"
      "operation_step s t a = trace_state t (goto t Enqueued (set_run t Pending (s\<lparr>m_queue := m_queue s @ [t]\<rparr>)))"
  | (park) "pc_of s t = Enqueued" "run_of s t = Pending" "operation_step s t a = goto t Parked (set_run t Asleep s)"
  | (wake) "pc_of s t = Enqueued \<and> run_of s t \<noteq> Pending \<or> pc_of s t = Parked \<and> run_of s t = Runnable"
      "operation_step s t a = goto t Woken s"
  | (check) "pc_of s t = Woken" "operation_step s t a = (case m_owner s of None \<Rightarrow> goto t Crashed s
      | Some o' \<Rightarrow> if o' = t then trace_state t (goto t Holding s) else goto t Trying s)"
  | (call) "pc_of s t = Outside \<or> pc_of s t = Holding" "operation_step s t a = goto t (Checking (pc_of s t = Holding)) s"
  | (test) h where "pc_of s t = Checking h" "operation_step s t a = goto t (if m_owner s = None then Outside else Checked h) s"
  | (compare) h where "pc_of s t = Checked h" "operation_step s t a = (case m_owner s of None \<Rightarrow> goto t Crashed s
      | Some o' \<Rightarrow> goto t (if o' = t then Entering else Outside) s)"
  | (release) "pc_of s t = Entering" "operation_step s t a = unlock_enter t s"
  | (again) w where "pc_of s t = Released w" "operation_step s t a =
      (if m_owner s = None then goto t (Freeing w) s else trace_state t (goto t (Waking w) s))"
  | (store) w where "pc_of s t = Freeing w" "operation_step s t a = trace_state t (goto t (Waking w) (s\<lparr>m_lock := False\<rparr>))"
  | (wakeup) w where "pc_of s t = Waking w" "operation_step s t a = goto t Outside
      (case w of None \<Rightarrow> s | Some u \<Rightarrow> if run_of s u = Runnable then s else set_run u Runnable s)"
proof (cases a)
  case Lock
  then show ?thesis using that(1,2) by (cases "pc_of s t = Outside") simp_all
next
  case TryLock
  then show ?thesis using that(1,3,4)
    by (cases "pc_of s t = Outside"; cases "m_lock s") (simp_all add: try_lock_def cas_lock_def)
next
  case Unlock
  then show ?thesis using that(1,11) by (cases "pc_of s t = Outside \<or> pc_of s t = Holding") auto
next
  case Continue
  show ?thesis
  proof (cases "pc_of s t")
    case Trying
    then show ?thesis using that(3,5) Continue by (cases "m_lock s") (simp_all add: lock_step_def cas_lock_def)
  next
    case Enqueued
    then show ?thesis using that(8,9) Continue by (cases "run_of s t = Pending") (simp_all add: lock_step_def)
  next
    case Parked
    then show ?thesis using that(1,9) Continue by (cases "run_of s t = Runnable") (simp_all add: lock_step_def)
  next
    case Claimed
    then show ?thesis using that(6) Continue by (simp add: lock_step_def unlock_step_def)
  next
    case MustWait
    then show ?thesis using that(7) Continue by (simp add: lock_step_def unlock_step_def)
  next
    case Woken
    then show ?thesis using that(10) Continue by (simp add: lock_step_def unlock_step_def)
  next
    case (Checking h)
    then show ?thesis using that(12) Continue by (simp add: lock_step_def unlock_step_def)
  next
    case (Checked h)
    then show ?thesis using that(13) Continue by (simp add: lock_step_def unlock_step_def)
  next
    case Entering
    then show ?thesis using that(14) Continue by (simp add: lock_step_def unlock_step_def)
  next
    case (Released w)
    then show ?thesis using that(15) Continue by (simp add: lock_step_def unlock_step_def)
  next
    case (Freeing w)
    then show ?thesis using that(16) Continue by (simp add: lock_step_def unlock_step_def)
  next
    case (Waking w)
    then show ?thesis using that(17) Continue by (simp add: lock_step_def unlock_step_def)
  qed (use that(1) Continue in \<open>simp_all add: lock_step_def unlock_step_def\<close>)
qed

lemma mutex_invI:
  assumes "\<And>u. thread_ok s u" and "distinct (m_queue s)"
    and "\<And>t u. between (pc_of s t) \<Longrightarrow> between (pc_of s u) \<Longrightarrow> t = u"
    and "\<not> m_lock s \<Longrightarrow> m_owner s = None" and "\<And>t. \<not> m_lock s \<Longrightarrow> \<not> between (pc_of s t)"
    and "\<And>t u. wakes (pc_of s t) = Some u \<Longrightarrow>
        m_owner s = Some u \<and> pc_of s u \<in> {Enqueued, Parked} \<and> run_of s u \<noteq> Runnable"
    and "\<And>t t' u v. wakes (pc_of s t) = Some u \<Longrightarrow> wakes (pc_of s t') = Some v \<Longrightarrow> t = t'"
  shows "mutex_inv s"
  using assms unfolding mutex_inv_def by blast

lemma mutex_invD:
  assumes "mutex_inv s"
  shows "thread_ok s u" "distinct (m_queue s)"
    "between (pc_of s t) \<Longrightarrow> between (pc_of s u) \<Longrightarrow> t = u"
    "\<not> m_lock s \<Longrightarrow> m_owner s = None" "\<not> m_lock s \<Longrightarrow> \<not> between (pc_of s t)"
    "wakes (pc_of s t) = Some u \<Longrightarrow>
        m_owner s = Some u \<and> pc_of s u \<in> {Enqueued, Parked} \<and> run_of s u \<noteq> Runnable"
    "wakes (pc_of s t) = Some u \<Longrightarrow> wakes (pc_of s t') = Some v \<Longrightarrow> t = t'"
  using assms unfolding mutex_inv_def by blast+

text \<open>A step that moves one thread between places where it neither locks nor wakes anybody.\<close>

lemma inv_place:
  assumes "mutex_inv s" and "\<not> between (pc_of s t)" and "wakes (pc_of s t) = None"
    and "\<not> between l" and "wakes l = None" and "thread_ok (goto t l s) t"
    and "m_owner s \<noteq> Some t \<or> l \<in> {Enqueued, Parked} \<or> (\<forall>u. wakes (pc_of s u) \<noteq> Some t)"
  shows "mutex_inv (goto t l s)"
proof -
  note d = mutex_invD [OF assms(1)]
  show ?thesis
  proof (rule mutex_invI)
    fix u show "thread_ok (goto t l s) u" using d(1) [of u] assms(6) by (cases "u = t") (simp_all add: thread_ok_def)
  next
    fix v u assume w: "wakes (pc_of (goto t l s) v) = Some u"
    then have "wakes (pc_of s v) = Some u" using assms(3,5) by (auto split: if_splits)
    from d(6) [OF this] show "m_owner (goto t l s) = Some u \<and> pc_of (goto t l s) u \<in> {Enqueued, Parked} \<and>
        run_of (goto t l s) u \<noteq> Runnable"
      using assms(7) \<open>wakes (pc_of s v) = Some u\<close> by auto
  next
    fix u v x y assume "wakes (pc_of (goto t l s) u) = Some x" "wakes (pc_of (goto t l s) v) = Some y"
    then show "u = v" using d(7) [of u x v y] assms(5) by (auto split: if_splits)
  next
    fix u v assume "between (pc_of (goto t l s) u)" "between (pc_of (goto t l s) v)"
    then show "u = v" using d(3) [of u v] assms(4) by (auto split: if_splits)
  qed (use d assms(4) in auto)
qed


text \<open>A thread that neither waits, wakes nor is between lock word and owner moves to a place of that kind.\<close>

lemma inv_move:
  assumes "mutex_inv s" and "\<not> between (pc_of s t)" and "wakes (pc_of s t) = None" and "pc_of s t \<notin> {Enqueued, Parked}"
    and "\<not> between l" and "wakes l = None" and "place_ok l (t \<in> set (m_queue s)) (m_owner s) (run_of s t) t"
  shows "mutex_inv (goto t l s)"
proof (rule inv_place [OF assms(1-3,5,6)])
  show "thread_ok (goto t l s) t" using assms(7) by (simp add: thread_ok_def)
  show "m_owner s \<noteq> Some t \<or> l \<in> {Enqueued, Parked} \<or> (\<forall>u. wakes (pc_of s u) \<noteq> Some t)"
    using mutex_invD(6) [OF assms(1), of _ t] assms(4) by blast
qed

lemma inv_simple:
  assumes "mutex_inv s" and "pc_of s t \<in> {Outside, Trying}" and "l \<in> {Outside, Trying, MustWait}"
  shows "mutex_inv (goto t l s)"
  using mutex_invD(1) [OF assms(1), of t] assms(2,3) by (intro inv_move [OF assms(1)]) (auto simp: thread_ok_def)

text \<open>The checks at the entry of \<open>unlock\<close>: whoever holds the mutex stays its owner and gets past them.\<close>

lemma inv_call:
  assumes "mutex_inv s" and "pc_of s t = Outside \<or> pc_of s t = Holding"
  shows "mutex_inv (goto t (Checking (pc_of s t = Holding)) s)"
  using mutex_invD(1) [OF assms(1), of t] assms(2) by (intro inv_move [OF assms(1)]) (auto simp: thread_ok_def)

lemma inv_test:
  assumes "mutex_inv s" and "pc_of s t = Checking h"
  shows "mutex_inv (goto t (if m_owner s = None then Outside else Checked h) s)"
  using mutex_invD(1) [OF assms(1), of t] assms(2) by (intro inv_move [OF assms(1)]) (auto simp: thread_ok_def)

lemma inv_compare:
  assumes "mutex_inv s" and "pc_of s t = Checked h"
  shows "mutex_inv (case m_owner s of None \<Rightarrow> goto t Crashed s | Some o' \<Rightarrow> goto t (if o' = t then Entering else Outside) s)"
proof -
  note ok = mutex_invD(1) [OF assms(1), of t]
  show ?thesis
  proof (cases "m_owner s")
    case None
    then show ?thesis using ok assms(2) inv_move [OF assms(1), of t Crashed] by (simp add: thread_ok_def)
  next
    case (Some o')
    then show ?thesis using ok assms(2) inv_move [OF assms(1), of t "if o' = t then Entering else Outside"]
      by (auto simp: thread_ok_def)
  qed
qed

lemma inv_cas:
  assumes "mutex_inv s" and "pc_of s t = Outside \<or> pc_of s t = Trying" and "\<not> m_lock s"
  shows "mutex_inv (goto t Claimed (s\<lparr>m_lock := True\<rparr>))"
proof -
  note d = mutex_invD [OF assms(1)]
  have none: "m_owner s = None" "\<And>u. \<not> between (pc_of s u)" "\<And>u. wakes (pc_of s u) = None"
    using d(4,5,6) assms(3) by (auto, metis not_None_eq option.distinct(1))
  show ?thesis
  proof (rule mutex_invI)
    fix u show "thread_ok (goto t Claimed (s\<lparr>m_lock := True\<rparr>)) u"
      using d(1) [of u] assms(2) none(1) by (cases "u = t") (auto simp: thread_ok_def)
  qed (use d(2) none in \<open>auto split: if_splits\<close>)
qed

lemma inv_claim:
  assumes "mutex_inv s" and "pc_of s t = Claimed"
  shows "mutex_inv (goto t Holding (s\<lparr>m_owner := Some t\<rparr>))"
proof -
  note d = mutex_invD [OF assms(1)]
  have own: "m_owner s = None" "t \<notin> set (m_queue s)" "m_lock s"
    using d(1) [of t] d(5) [of t] assms(2) by (auto simp: thread_ok_def)
  have only: "between (pc_of s u) \<Longrightarrow> u = t" for u using d(3) [of u t] assms(2) by simp
  have now: "wakes (pc_of s u) = None" for u using d(6) [of u] own(1) by (cases "wakes (pc_of s u)") auto
  show ?thesis
  proof (rule mutex_invI)
    fix u show "thread_ok (goto t Holding (s\<lparr>m_owner := Some t\<rparr>)) u"
    proof (cases "u = t")
      case False
      then have "\<not> between (pc_of s u)" using only by blast
      then show ?thesis using d(1) [of u] False own(1) now [of u]
        by (cases "pc_of s u") (auto simp: thread_ok_def split: if_splits)
    qed (use own in \<open>simp add: thread_ok_def\<close>)
  qed (use d(2) own now only in \<open>auto split: if_splits\<close>)
qed

lemma inv_queue:
  assumes "mutex_inv s" and "pc_of s t = MustWait"
  shows "mutex_inv (goto t Enqueued (set_run t Pending (s\<lparr>m_queue := m_queue s @ [t]\<rparr>)))"
proof -
  note d = mutex_invD [OF assms(1)]
  have own: "m_owner s \<noteq> Some t" "t \<notin> set (m_queue s)" using d(1) [of t] assms(2) by (auto simp: thread_ok_def)
  have now: "wakes (pc_of s u) \<noteq> Some t" for u using d(6) [of u t] assms(2) by auto
  show ?thesis
  proof (rule mutex_invI)
    fix u show "thread_ok (goto t Enqueued (set_run t Pending (s\<lparr>m_queue := m_queue s @ [t]\<rparr>))) u"
      using d(1) [of u] own by (cases "u = t") (simp_all add: thread_ok_def)
  qed (use d own now assms(2) in \<open>auto split: if_splits\<close>)
qed

lemma inv_park:
  assumes "mutex_inv s" and "pc_of s t = Enqueued" and "run_of s t = Pending"
  shows "mutex_inv (goto t Parked (set_run t Asleep s))"
proof -
  note d = mutex_invD [OF assms(1)]
  show ?thesis
  proof (rule mutex_invI)
    fix u show "thread_ok (goto t Parked (set_run t Asleep s)) u"
      using d(1) [of u] assms(2) by (cases "u = t") (simp_all add: thread_ok_def)
  next
    fix v u assume "wakes (pc_of (goto t Parked (set_run t Asleep s)) v) = Some u"
    then have "wakes (pc_of s v) = Some u" by (auto split: if_splits)
    from d(6) [OF this] show "m_owner (goto t Parked (set_run t Asleep s)) = Some u \<and>
        pc_of (goto t Parked (set_run t Asleep s)) u \<in> {Enqueued, Parked} \<and>
        run_of (goto t Parked (set_run t Asleep s)) u \<noteq> Runnable" by auto
  qed (use d assms(2) in \<open>auto split: if_splits\<close>)
qed

lemma inv_wake:
  assumes "mutex_inv s" and "pc_of s t = Enqueued \<and> run_of s t \<noteq> Pending \<or> pc_of s t = Parked \<and> run_of s t = Runnable"
  shows "mutex_inv (goto t Woken s)"
proof (rule inv_place [OF assms(1)])
  note d = mutex_invD [OF assms(1)]
  have own: "m_owner s = Some t" "t \<notin> set (m_queue s)" "run_of s t = Runnable"
    using d(1) [of t] assms(2) by (cases "run_of s t"; auto simp: thread_ok_def split: if_splits)+
  show "thread_ok (goto t Woken s) t" using own by (simp add: thread_ok_def)
  show "m_owner s \<noteq> Some t \<or> Woken \<in> {Enqueued, Parked} \<or> (\<forall>u. wakes (pc_of s u) \<noteq> Some t)"
    using d(6) [of _ t] own(3) by blast
qed (use assms(2) in auto)

lemma inv_check:
  assumes "mutex_inv s" and "pc_of s t = Woken"
  shows "m_owner s = Some t" "mutex_inv (goto t Holding s)"
proof -
  note d = mutex_invD [OF assms(1)]
  show own: "m_owner s = Some t" using d(1) [of t] assms(2) by (simp add: thread_ok_def)
  show "mutex_inv (goto t Holding s)"
  proof (rule inv_place [OF assms(1)])
    show "thread_ok (goto t Holding s) t" using d(1) [of t] assms(2) by (simp add: thread_ok_def)
    show "m_owner s \<noteq> Some t \<or> Holding \<in> {Enqueued, Parked} \<or> (\<forall>u. wakes (pc_of s u) \<noteq> Some t)"
      using d(6) [of _ t] assms(2) by auto
  qed (use assms(2) in auto)
qed

text \<open>While a thread holds the mutex, nobody is between the lock word and the owner, nobody wakes.\<close>

lemma holder_alone:
  assumes "mutex_inv s" and "m_owner s = Some t" and "pc_of s t \<notin> {Enqueued, Parked}"
  shows "\<not> between (pc_of s u)" "wakes (pc_of s u) = None"
proof -
  note d = mutex_invD [OF assms(1)]
  show "wakes (pc_of s u) = None"
    using d(6) [of u] assms(2,3) by (cases "wakes (pc_of s u)") auto
  show "\<not> between (pc_of s u)" using d(1) [of u] assms(2) by (auto simp: between_def thread_ok_def)
qed

lemma inv_free:
  assumes "mutex_inv s" and "m_owner s = Some t" and "pc_of s t = Entering" and "m_queue s = []"
  shows "mutex_inv (goto t (Released None) (s\<lparr>m_owner := None\<rparr>))"
proof -
  note d = mutex_invD [OF assms(1)]
  note h = holder_alone [OF assms(1,2)]
  have h': "\<not> between (pc_of s u)" "wakes (pc_of s u) = None" for u using h assms(3) by simp_all
  show ?thesis
  proof (rule mutex_invI)
    fix u show "thread_ok (goto t (Released None) (s\<lparr>m_owner := None\<rparr>)) u"
    proof (cases "u = t")
      case False
      then show ?thesis using d(1) [of u] assms(2,4) h' [of u]
        by (cases "pc_of s u") (auto simp: thread_ok_def split: if_splits)
    qed (use assms in \<open>simp add: thread_ok_def\<close>)
  qed (use d assms(2) h' in \<open>auto split: if_splits\<close>)
qed

lemma inv_hand:
  assumes "mutex_inv s" and "m_owner s = Some t" and "pc_of s t = Entering" and "m_queue s = v # q"
  shows "mutex_inv (goto t (Released (Some v)) (s\<lparr>m_queue := q, m_owner := Some v\<rparr>))"
proof -
  note d = mutex_invD [OF assms(1)]
  have h: "\<not> between (pc_of s u)" "wakes (pc_of s u) = None" for u
    using holder_alone [OF assms(1,2)] assms(3) by simp_all
  have v: "v \<notin> set q" "pc_of s v = Enqueued \<and> run_of s v = Pending \<or> pc_of s v = Parked \<and> run_of s v = Asleep"
    using d(2) d(1) [of v] assms(4) by (cases "pc_of s v"; auto simp: thread_ok_def)+
  have tv: "t \<noteq> v" using v(2) assms(3) by auto
  show ?thesis
  proof (rule mutex_invI)
    fix u show "thread_ok (goto t (Released (Some v)) (s\<lparr>m_queue := q, m_owner := Some v\<rparr>)) u"
    proof (cases "u = t")
      case True
      then show ?thesis using d(1) [of t] assms tv by (auto simp: thread_ok_def)
    next
      case False
      then show ?thesis using d(1) [of u] assms(2,4) h [of u] v
        by (cases "pc_of s u"; cases "u = v") (auto simp: thread_ok_def split: if_splits)
    qed
  qed (use d assms(2,4) h v tv in \<open>auto split: if_splits\<close>)
qed

lemma inv_waking:
  assumes "mutex_inv s" and "wakes (pc_of s t) = w" and "m_owner s = w" and "pc_of s t = Released w" and "w \<noteq> None"
  shows "mutex_inv (goto t (Waking w) s)"
proof -
  note d = mutex_invD [OF assms(1)]
  have t: "t \<notin> set (m_queue s)" "m_owner s \<noteq> Some t" using d(1) [of t] assms(4) by (auto simp: thread_ok_def)
  have e: "wakes (pc_of (goto t (Waking w) s) u) = wakes (pc_of s u)" for u using assms(2) by simp
  show ?thesis
  proof (rule mutex_invI)
    fix u show "thread_ok (goto t (Waking w) s) u" using d(1) [of u] t by (cases "u = t") (simp_all add: thread_ok_def)
  next
    fix u v assume "wakes (pc_of (goto t (Waking w) s) u) = Some v"
    then show "m_owner (goto t (Waking w) s) = Some v \<and> pc_of (goto t (Waking w) s) v \<in> {Enqueued, Parked} \<and>
        run_of (goto t (Waking w) s) v \<noteq> Runnable"
      using d(6) [of u v] assms(4) unfolding e by auto
  next
    fix u v x y assume "wakes (pc_of (goto t (Waking w) s) u) = Some x" "wakes (pc_of (goto t (Waking w) s) v) = Some y"
    then show "u = v" unfolding e by (rule d(7))
  qed (use d in \<open>auto split: if_splits\<close>)
qed

lemma inv_again:
  assumes "mutex_inv s" and "pc_of s t = Released w"
  shows "mutex_inv (if m_owner s = None then goto t (Freeing w) s else goto t (Waking w) s)"
proof -
  note d = mutex_invD [OF assms(1)]
  have w: "m_owner s = w" "t \<notin> set (m_queue s)" using d(1) [of t] assms(2) by (auto simp: thread_ok_def)
  have "mutex_inv (goto t (Freeing None) s)" if none: "w = None"
  proof (rule mutex_invI)
    fix u show "thread_ok (goto t (Freeing None) s) u" using d(1) [of u] w none by (cases "u = t") (simp_all add: thread_ok_def)
  next
    fix u v assume b: "between (pc_of (goto t (Freeing None) s) u)" "between (pc_of (goto t (Freeing None) s) v)"
    have "between (pc_of s t)" using assms(2) none by simp
    moreover from this have "between (pc_of s u)" "between (pc_of s v)" using b by (simp_all split: if_splits)
    ultimately show "u = v" using d(3) by blast
  next
    fix u assume "\<not> m_lock (goto t (Freeing None) s)"
    then show "\<not> between (pc_of (goto t (Freeing None) s) u)" using d(5) [of t] assms(2) none by simp
  next
    fix u v assume "wakes (pc_of (goto t (Freeing None) s) u) = Some v"
    then show "m_owner (goto t (Freeing None) s) = Some v \<and> pc_of (goto t (Freeing None) s) v \<in> {Enqueued, Parked} \<and>
        run_of (goto t (Freeing None) s) v \<noteq> Runnable"
      using d(6) [of u v] w(1) none by (auto split: if_splits)
  next
    fix u v x y assume "wakes (pc_of (goto t (Freeing None) s) u) = Some x" "wakes (pc_of (goto t (Freeing None) s) v) = Some y"
    then show "u = v" using d(7) [of u x v y] by (auto split: if_splits)
  qed (use d in auto)
  then show ?thesis using inv_waking [OF assms(1) _ w(1) assms(2)] w(1) assms(2) by auto
qed

lemma inv_store:
  assumes "mutex_inv s" and "pc_of s t = Freeing w"
  shows "mutex_inv (goto t (Waking w) (s\<lparr>m_lock := False\<rparr>))"
proof -
  note d = mutex_invD [OF assms(1)]
  have w: "m_owner s = None" "t \<notin> set (m_queue s)" "w = None" using d(1) [of t] assms(2) by (auto simp: thread_ok_def)
  have only: "between (pc_of s u) \<Longrightarrow> u = t" for u using d(3) [of u t] assms(2) w(3) by simp
  have none: "wakes (pc_of s u) = None" for u using d(6) [of u] w(1) by (cases "wakes (pc_of s u)") auto
  show ?thesis
  proof (rule mutex_invI)
    fix u show "thread_ok (goto t (Waking w) (s\<lparr>m_lock := False\<rparr>)) u"
      using d(1) [of u] w by (cases "u = t") (simp_all add: thread_ok_def)
  next
    fix u v assume "between (pc_of (goto t (Waking w) (s\<lparr>m_lock := False\<rparr>)) u)"
      "between (pc_of (goto t (Waking w) (s\<lparr>m_lock := False\<rparr>)) v)"
    then show "u = v" using only [of u] by (auto split: if_splits)
  next
    fix u show "\<not> between (pc_of (goto t (Waking w) (s\<lparr>m_lock := False\<rparr>)) u)" using only [of u] by auto
  qed (use d(2) w(1,3) none in \<open>simp_all split: if_splits\<close>)
qed

lemma inv_wakeup:
  assumes "mutex_inv s" and "pc_of s t = Waking w"
  shows "mutex_inv (goto t Outside
      (case w of None \<Rightarrow> s | Some u \<Rightarrow> if run_of s u = Runnable then s else set_run u Runnable s))"
proof -
  note d = mutex_invD [OF assms(1)]
  have t: "m_owner s \<noteq> Some t" "t \<notin> set (m_queue s)" using d(1) [of t] assms(2) by (auto simp: thread_ok_def)
  show ?thesis
  proof (cases w)
    case None
    have "mutex_inv (goto t Outside s)"
      by (rule inv_place [OF assms(1)]) (use assms(2) None t in \<open>auto simp: thread_ok_def\<close>)
    then show ?thesis by (simp add: None)
  next
    case (Some v)
    have v: "m_owner s = Some v" "pc_of s v \<in> {Enqueued, Parked}" "run_of s v \<noteq> Runnable"
      using d(6) [of t v] assms(2) Some by auto
    have vq: "v \<notin> set (m_queue s)" using d(1) [of v] v by (auto simp: thread_ok_def split: if_splits)
    have alone: "wakes (pc_of s u) = None" if "u \<noteq> t" for u
      using d(7) [of u _ t v] that assms(2) Some by (cases "wakes (pc_of s u)") auto
    have "mutex_inv (goto t Outside (set_run v Runnable s))"
    proof (rule mutex_invI)
      fix u show "thread_ok (goto t Outside (set_run v Runnable s)) u"
        using d(1) [of u] d(1) [of v] t v vq by (cases "u = t"; cases "u = v") (auto simp: thread_ok_def)
    qed (use d alone in \<open>auto split: if_splits\<close>)
    then show ?thesis using v(3) by (simp add: Some)
  qed
qed

lemma inv_release:
  assumes "mutex_inv s" and "pc_of s t = Entering"
  shows "mutex_inv (unlock_enter t s)"
proof -
  have own: "m_owner s = Some t" using mutex_invD(1) [OF assms(1), of t] assms(2) by (simp add: thread_ok_def)
  show ?thesis using inv_free [OF assms(1) own assms(2)] inv_hand [OF assms(1) own assms(2)]
    by (cases "m_queue s") (simp_all add: unlock_enter_def)
qed

lemma operation_step_inv:
  assumes "mutex_inv s"
  shows "mutex_inv (operation_step s t a)"
proof (cases rule: operation_step_cases [of s t a])
  case 1 then show ?thesis using assms by simp
next
  case enter then show ?thesis using inv_simple [OF assms, of t Trying] by simp
next
  case cas then show ?thesis using inv_cas [OF assms, of t] by simp
next
  case busy then show ?thesis using assms by (simp add: trace_state_def)
next
  case fail then show ?thesis using inv_simple [OF assms, of t MustWait] by simp
next
  case claim then show ?thesis using inv_claim [OF assms] by (simp add: trace_state_def)
next
  case queue then show ?thesis using inv_queue [OF assms] by (simp add: trace_state_def)
next
  case park then show ?thesis using inv_park [OF assms] by simp
next
  case wake then show ?thesis using inv_wake [OF assms] by simp
next
  case check then show ?thesis using inv_check [OF assms] by (simp add: trace_state_def)
next
  case call then show ?thesis using inv_call [OF assms] by simp
next
  case (test h) then show ?thesis using inv_test [OF assms] by simp
next
  case (compare h) then show ?thesis using inv_compare [OF assms] by simp
next
  case release then show ?thesis using inv_release [OF assms] by simp
next
  case (again w) then show ?thesis using inv_again [OF assms] by (auto simp: trace_state_def split: if_splits)
next
  case (store w) then show ?thesis using inv_store [OF assms] by (simp add: trace_state_def)
next
  case (wakeup w) then show ?thesis using inv_wakeup [OF assms] by simp
qed

text \<open>A thread in the wait queue keeps seeing an owner: the owner is not dereferenced as null there.\<close>

lemma trace_okI:
  assumes "trace_ok s u" and "trace_of s' u = trace_of s u" and "pc_of s' u = pc_of s u" and "m_owner s \<noteq> None \<Longrightarrow> m_owner s' \<noteq> None"
  shows "trace_ok s' u"
  using assms by (auto simp: trace_ok_def)

lemma owner_leaves:
  assumes "mutex_inv s" and "pc_of s u = Enqueued" and "m_owner s \<noteq> None" and "m_owner (operation_step s t a) = None"
  shows "u = t"
proof (cases rule: operation_step_cases [of s t a])
  case release
  then have own: "m_owner s = Some t" using mutex_invD(1) [OF assms(1), of t] by (simp add: thread_ok_def)
  have "m_queue s = []" using assms(4) release(2) by (cases "m_queue s") (simp_all add: unlock_enter_def)
  then show ?thesis using mutex_invD(1) [OF assms(1), of u] assms(2) own by (simp add: thread_ok_def)
qed (use assms(3,4) in \<open>auto simp: trace_state_def split: if_splits option.splits\<close>)

lemma operation_step_trace:
  assumes "mutex_inv s" and "\<And>u. trace_ok s u" and "trace_of s t = Silent"
  shows "trace_ok (operation_step s t a) u"
proof (cases "u = t")
  case True
  show ?thesis by (cases rule: operation_step_cases [of s t a])
    (use assms(3) in \<open>auto simp: True trace_ok_def trace_state_def unlock_enter_def split: if_splits option.splits list.splits\<close>)
next
  case False
  have e: "trace_of (operation_step s t a) u = trace_of s u" "pc_of (operation_step s t a) u = pc_of s u"
    by (cases rule: operation_step_cases [of s t a];
        use False in \<open>auto simp: trace_state_def unlock_enter_def split: option.splits list.splits\<close>)+
  show ?thesis
  proof (cases "pc_of s u = Enqueued")
    case True
    then show ?thesis using trace_okI [OF assms(2) e] owner_leaves [OF assms(1) True, of t a] False by blast
  next
    case neq: False
    then show ?thesis using assms(2) [of u] e by (auto simp: trace_ok_def)
  qed
qed

lemma inv_crash:
  assumes "mutex_inv s" and "m_owner s = None" and "pc_of s t = Outside \<or> (\<exists>w. pc_of s t = Waking w)"
  shows "mutex_inv (goto t Crashed s)"
proof -
  note d = mutex_invD [OF assms(1)]
  have none: "wakes (pc_of s u) = None" for u using d(6) [of u] assms(2) by (cases "wakes (pc_of s u)") auto
  show ?thesis using d(1) [of t] assms(2,3) none [of t]
    by (intro inv_move [OF assms(1)]) (auto simp: thread_ok_def)
qed

text \<open>The places at which a thread traces and may find the owner gone.\<close>

lemma trace_step_cases:
  assumes "mutex_inv s" and "trace_ok s t" and "trace_of s t \<noteq> Silent"
  obtains r where "trace_step t s = set_trace t r s" "r = Naming \<Longrightarrow> m_owner s \<noteq> None"
  | "trace_of s t = Naming" "m_owner s = None" "pc_of s t = Outside \<or> (\<exists>w. pc_of s t = Waking w)"
    "trace_step t s = goto t Crashed (set_trace t Silent s)"
proof (cases "trace_of s t")
  case Testing
  then show ?thesis using that(1) [of Silent] that(1) [of Naming] by (cases "m_owner s = None") (simp_all add: trace_step_def)
next
  case Naming
  show ?thesis
  proof (cases "m_owner s")
    case None
    have "pc_of s t \<noteq> Holding" using mutex_invD(1) [OF assms(1), of t] None by (auto simp: thread_ok_def)
    then show ?thesis using that(2) assms(2) Naming None by (auto simp: trace_step_def trace_ok_def)
  next
    case (Some o')
    then show ?thesis using that(1) [of Silent] Naming by (simp add: trace_step_def)
  qed
qed (use assms(3) in simp)

definition system_inv :: "mutex_sys \<Rightarrow> bool" where
  "system_inv s \<longleftrightarrow> mutex_inv s \<and> (\<forall>t. trace_ok s t)"

lemma mutex_step_inv:
  assumes "system_inv s"
  shows "system_inv (mutex_step s (t, a))"
proof -
  have i: "mutex_inv s" "trace_ok s u" for u using assms by (simp_all add: system_inv_def)
  consider (operation) "trace_of s t = Silent" | (trace) "trace_of s t \<noteq> Silent" "a = Continue"
    | (none) "trace_of s t \<noteq> Silent" "a \<noteq> Continue" by blast
  then show ?thesis
  proof cases
    case operation
    then show ?thesis using operation_step_inv [OF i(1)] operation_step_trace [OF i operation] by (simp add: system_inv_def)
  next
    case trace
    show ?thesis
    proof (cases rule: trace_step_cases [OF i(1) i(2) trace(1)])
      case (1 r)
      have "trace_ok (set_trace t r s) u" for u using i(2) [of u] trace(1) 1(2) by (cases "u = t") (auto simp: trace_ok_def)
      then show ?thesis using i(1) trace 1(1) by (simp add: system_inv_def)
    next
      case 2
      have "trace_ok (goto t Crashed (set_trace t Silent s)) u" for u
        using i(2) [of u] by (cases "u = t") (auto simp: trace_ok_def)
      then show ?thesis using inv_crash [OF i(1) 2(2,3)] trace 2(4) by (simp add: system_inv_def goto_trace)
    qed
  next
    case none
    then show ?thesis using assms by simp
  qed
qed

lemma mutex_run_inv: "system_inv s \<Longrightarrow> system_inv (mutex_run s xs)"
  unfolding mutex_run_def by (induction xs arbitrary: s) (auto simp: mutex_step_inv simp del: mutex_step.simps)

lemma mutex_init_inv: "system_inv mutex_init"
  unfolding system_inv_def by (auto intro!: mutex_invI simp: mutex_init_def thread_ok_def trace_ok_def)

text \<open>A thread crashes where it reads an owner that somebody else has taken away.\<close>

lemma crash_cases:
  assumes "system_inv s" and "pc_of (mutex_step s (t, a)) t = Crashed" and "pc_of s t \<noteq> Crashed"
  shows "pc_of s t = Checked False \<or> trace_of s t = Naming \<and> (pc_of s t = Outside \<or> (\<exists>w. pc_of s t = Waking w))"
proof -
  have i: "mutex_inv s" "trace_ok s t" "thread_ok s t" using assms(1) mutex_invD(1) by (simp_all add: system_inv_def)
  show ?thesis
  proof (cases "trace_of s t = Silent")
    case True
    then have c: "pc_of (operation_step s t a) t = Crashed" using assms(2) by simp
    show ?thesis
      by (cases rule: operation_step_cases [of s t a])
        (use c assms(3) i(3) in \<open>auto simp: thread_ok_def trace_state_def unlock_enter_def split: if_splits option.splits list.splits\<close>)
  next
    case False
    then have "a = Continue" "pc_of (trace_step t s) t = Crashed" using assms(2,3) by (auto split: if_splits)
    then show ?thesis by (cases rule: trace_step_cases [OF i(1,2) False]) (use assms(3) in auto)
  qed
qed

section \<open>Properties\<close>


lemmas mutex_eval = mutex_run_def mutex_init_def lock_step_def cas_lock_def try_lock_def trace_state_def trace_step_def
  unlock_step_def unlock_enter_def


text \<open>
  A thread that does not hold the mutex calls \<open>unlock\<close>, which is to return without effect. It sees
  an owner, the owner releases the mutex, and the thread dereferences the null owner.
\<close>

theorem unlock_can_crash:
  "pc_of (mutex_run mutex_init
     ([(1, Lock), (1, Continue), (1, Continue), (1, Continue), (1, Continue), (2, Unlock), (2, Continue)] @
      [(1, Unlock), (1, Continue), (1, Continue), (1, Continue), (2, Continue)])) 2 = Crashed"
  by (simp add: mutex_eval)

text \<open>The trace output of a failed \<open>try_lock\<close> does the same, with a caller that makes no mistake.\<close>

theorem try_lock_can_crash:
  "pc_of (mutex_run mutex_init
     ([(1, Lock), (1, Continue), (1, Continue), (1, Continue), (1, Continue), (2, TryLock), (2, Continue)] @
      [(1, Unlock), (1, Continue), (1, Continue), (1, Continue), (2, Continue)])) 2 = Crashed"
  by (simp add: mutex_eval)

text \<open>
  Fast handoff: when the owner unlocks while threads wait, the mutex stays locked, the longest
  waiting thread is the new owner, and that thread is inside after it was woken, whatever the
  scheduling state it was caught in.
\<close>

theorem unlock_hands_over:
  assumes "mutex_inv s" and "pc_of s t = Holding" and "m_queue s = u # q" and "trace_of s t = Silent" and "trace_of s u = Silent"
  defines "s1 \<equiv> mutex_run s ((t, Unlock) # replicate 7 (t, Continue))"
  shows "m_owner s1 = Some u \<and> m_lock s1 \<and> m_queue s1 = q \<and> pc_of s1 t = Outside \<and>
    pc_of (mutex_run s1 [(u, Continue), (u, Continue)]) u = Holding"
proof -
  note d = mutex_invD [OF assms(1)]
  have own: "m_owner s = Some t" using d(1) [of t] assms(2) by (simp add: thread_ok_def)
  then have lock: "m_lock s" using d(4) by (cases "m_lock s") auto
  have u: "pc_of s u = Enqueued \<and> run_of s u = Pending \<or> pc_of s u = Parked \<and> run_of s u = Asleep"
    using d(1) [of u] assms(3) by (cases "pc_of s u") (auto simp: thread_ok_def)
  then have tu: "t \<noteq> u" using assms(2) by auto
  have s1: "m_owner s1 = Some u" "m_lock s1" "m_queue s1 = q" "pc_of s1 t = Outside" "trace_of s1 u = Silent"
    "run_of s1 u = Runnable" "pc_of s1 u = pc_of s u"
    using own lock assms(2-5) u tu
    by (auto simp: s1_def mutex_run_def unlock_enter_def unlock_step_def trace_step_def trace_state_def numeral_eq_Suc)
  have "pc_of (mutex_run s1 [(u, Continue), (u, Continue)]) u = Holding"
    using s1 u by (auto simp: mutex_run_def lock_step_def trace_state_def)
  then show ?thesis using s1 by simp
qed

theorem unlock_hands_over_witness:
  "\<exists>s. m_queue s = [2] \<and> m_owner (mutex_run s ((1, Unlock) # replicate 7 (1, Continue))) = Some 2"
proof -
  let ?s = "mutex_run mutex_init ([(1, Lock), (1, Continue), (1, Continue), (1, Continue), (1, Continue)] @
    [(2, Lock), (2, Continue), (2, Continue), (2, Continue), (2, Continue)])"
  have "pc_of ?s 1 = Holding" "m_queue ?s = [2]" "trace_of ?s 1 = Silent" "trace_of ?s 2 = Silent"
    by (simp_all add: mutex_eval)
  moreover have "mutex_inv ?s" using mutex_run_inv [OF mutex_init_inv] by (simp add: system_inv_def)
  ultimately show ?thesis using unlock_hands_over [of ?s 1 2 "[]"] by blast
qed

text \<open>
  Lost wake-up: between the failed compare-and-exchange and the entry into the wait queue the
  owner can release the mutex. The waiting thread then sleeps in the queue of a free mutex, with no
  thread left to wake it.
\<close>

theorem mutex_wakeup_can_be_lost:
  defines "s \<equiv> mutex_run mutex_init
    ([(1, Lock), (1, Continue), (1, Continue), (1, Continue), (1, Continue), (2, Lock), (2, Continue)] @
     (1, Unlock) # replicate 7 (1, Continue) @ replicate 3 (2, Continue))"
  shows "\<not> m_lock s \<and> m_owner s = None \<and> m_queue s = [2] \<and> pc_of s 2 = Parked \<and> run_of s 2 = Asleep \<and>
    pc_of s = (\<lambda>_. Outside)(2 := Parked) \<and> (\<forall>n. mutex_run s (replicate n (2, Continue)) = s)"
proof -
  have s: "\<not> m_lock s" "m_owner s = None" "m_queue s = [2]" "pc_of s 2 = Parked" "run_of s 2 = Asleep" "trace_of s 2 = Silent"
    "pc_of s = (\<lambda>_. Outside)(2 := Parked)"
    unfolding s_def by (simp_all add: mutex_eval numeral_eq_Suc fun_eq_iff)
  have "mutex_step s (2, Continue) = s" using s by (simp add: lock_step_def)
  then have "mutex_run s (replicate n (2, Continue)) = s" for n
    by (induction n) (simp_all add: mutex_run_def del: mutex_step.simps)
  with s show ?thesis by simp
qed

end
