(* ===== verification/Paging.thy ===== *)
theory Paging
  imports Page_Frames "HOL-Library.Sublist" "HOL-Library.Monad_Syntax"
begin

text \<open>
  Four-level paging (\<^verbatim>\<open>Src/Arch/x86_64/Memory/Paging.cpp\<close>, \<^verbatim>\<open>VirtualMemory.cpp\<close>): page table
  entries, the walk of the page table hierarchy, and the operations that map and unmap a page. The
  tables live in memory that the kernel reaches through the higher half direct map, so the model's
  memory is read by the virtual address of a table and the index of an entry. The physical memory
  manager is an abstract class in the code; here it is a record of its two single-frame operations.
  \<open>None\<close> is a behaviour that the C++ standard leaves undefined (inside the memory manager).
\<close>

section \<open>Layout of the kernel space\<close>

definition USER_SPACE_END :: virtual_addr where "USER_SPACE_END = 0x0000800000000000"
definition HHDM_BEGIN :: virtual_addr where "HHDM_BEGIN = 0xFFFF800000000000"
definition PMM_MEM_BEGIN :: virtual_addr where "PMM_MEM_BEGIN = 0xFFFF900000000000"
definition HEAP_BEGIN :: virtual_addr where "HEAP_BEGIN = 0xFFFFA00000000000"
definition ACPI_BEGIN :: virtual_addr where "ACPI_BEGIN = 0xFFFFB00000000000"
definition KERNEL_CODE_BEGIN :: virtual_addr where "KERNEL_CODE_BEGIN = 0xFFFFFFFF80000000"
definition VIRTUAL_ADDR_MAX :: virtual_addr where "VIRTUAL_ADDR_MAX = 0xFFFFFFFFFFFFFFFF"

definition create_virtual_memory_map :: "memory_region list" where
  "create_virtual_memory_map =
     [\<lparr>rstart = 0, rsize = USER_SPACE_END, rtype = USERSPACE\<rparr>,
      \<lparr>rstart = HHDM_BEGIN, rsize = VIRTUAL_ADDR_MAX - HHDM_BEGIN, rtype = USABLE\<rparr>]"

section \<open>Addresses\<close>

definition MASK_ADDR_PREFIX :: u64 where "MASK_ADDR_PREFIX = 0xFFFFF00000000000"
definition MASK_ADDRESS :: u64 where "MASK_ADDRESS = 0x0000FFFFFFFFFFFF"
definition PAGE_FRAME_OFFSET_MASK :: u64 where "PAGE_FRAME_OFFSET_MASK = 0xFFF"
definition PAGE_SIZE :: u64 where "PAGE_SIZE = 4096"

definition addr_prefix :: "virtual_addr \<Rightarrow> virtual_addr" where
  "addr_prefix v = v AND MASK_ADDR_PREFIX"

definition to_canonical_form :: "virtual_addr \<Rightarrow> virtual_addr" where
  "to_canonical_form v =
     (if drop_bit 47 v AND 1 = 1 then push_bit 48 (drop_bit 48 (- 1)) OR v else v AND MASK_ADDRESS)"

definition physical_to_virtual_address :: "physical_addr \<Rightarrow> virtual_addr" where
  "physical_to_virtual_address p = to_canonical_form (p + HHDM_BEGIN)"

definition get_page_offset :: "virtual_addr \<Rightarrow> u16" where
  "get_page_offset v = ucast (v AND PAGE_FRAME_OFFSET_MASK)"

section \<open>Page table entries\<close>

definition BAD_LEVEL :: u8 where "BAD_LEVEL = 0xFF"

record page_table_entry =
  native_entry :: u64
  pte_level :: u8

definition bad_entry :: page_table_entry where
  "bad_entry = \<lparr>native_entry = 0, pte_level = BAD_LEVEL\<rparr>"

definition bit_check :: "u64 \<Rightarrow> nat \<Rightarrow> bool" where
  "bit_check n i = (drop_bit i n AND 1 \<noteq> 0)"

definition is_present :: "page_table_entry \<Rightarrow> bool" where "is_present e = bit_check (native_entry e) 0"
definition is_write_allowed :: "page_table_entry \<Rightarrow> bool" where "is_write_allowed e = bit_check (native_entry e) 1"
definition is_user_mode_access_allowed :: "page_table_entry \<Rightarrow> bool" where
  "is_user_mode_access_allowed e = bit_check (native_entry e) 2"
definition is_accessed :: "page_table_entry \<Rightarrow> bool" where "is_accessed e = bit_check (native_entry e) 5"
definition is_dirty :: "page_table_entry \<Rightarrow> bool" where "is_dirty e = bit_check (native_entry e) 6"
definition is_pointing_to_page_frame :: "page_table_entry \<Rightarrow> bool" where
  "is_pointing_to_page_frame e = (pte_level e = 1)"

text \<open>\<open>w\<close> is the global \<open>PHYSICAL_ADDRESS_WIDTH\<close> that \<open>init_paging\<close> sets.\<close>

definition entry_address :: "u8 \<Rightarrow> u64 \<Rightarrow> physical_addr" where
  "entry_address w e =
     push_bit 12 (drop_bit 12 e AND drop_bit (64 - unat w + 12) (- 1))"

abbreviation get_address :: "u8 \<Rightarrow> page_table_entry \<Rightarrow> physical_addr" where
  "get_address w e \<equiv> entry_address w (native_entry e)"

definition get_flags :: "page_table_entry \<Rightarrow> u16" where
  "get_flags e = ucast (native_entry e AND PAGE_FRAME_OFFSET_MASK)"

definition PRESENT :: u16 where "PRESENT = 0x01"
definition WRITE_ALLOWED :: u16 where "WRITE_ALLOWED = 0x02"
definition USER_MODE_ACCESS :: u16 where "USER_MODE_ACCESS = 0x04"

definition to_x86_64_flags :: "u16 \<Rightarrow> u16" where "to_x86_64_flags fl = fl"

section \<open>Page tables\<close>

text \<open>The operations of \<open>PhysicalMemoryManager\<close> that paging calls.\<close>

record 's pmm_ops =
  op_allocate :: "'s \<Rightarrow> ('s \<times> physical_addr option) option"
  op_free :: "'s \<Rightarrow> physical_addr \<Rightarrow> ('s \<times> bool) option"

record 's paging =
  width :: u8
  tables :: "virtual_addr \<Rightarrow> u16 \<Rightarrow> u64"
  frames :: 's

record page_table =
  pt_npte :: u64
  pt_ptr :: virtual_addr
  pt_level :: u8

definition PT_MAX_SIZE :: u16 where "PT_MAX_SIZE = 512"

definition is_base_page_table :: "page_table \<Rightarrow> bool" where
  "is_base_page_table pt = (pt_level pt = 4)"

definition to_page_table_entry :: "page_table \<Rightarrow> page_table_entry" where
  "to_page_table_entry pt = \<lparr>native_entry = pt_npte pt, pte_level = pt_level pt\<rparr>"

definition pt_get :: "'s paging \<Rightarrow> page_table \<Rightarrow> u16 \<Rightarrow> page_table_entry" where
  "pt_get s pt idx =
     (if PT_MAX_SIZE \<le> idx then bad_entry
      else \<lparr>native_entry = tables s (pt_ptr pt) idx, pte_level = pt_level pt - 1\<rparr>)"

definition entry_as_page_table :: "'s paging \<Rightarrow> page_table \<Rightarrow> u16 \<Rightarrow> page_table" where
  "entry_as_page_table s pt idx =
     (if PT_MAX_SIZE \<le> idx then \<lparr>pt_npte = 0, pt_ptr = 0, pt_level = BAD_LEVEL\<rparr>
      else let pte = pt_get s pt idx
           in \<lparr>pt_npte = native_entry pte,
               pt_ptr = physical_to_virtual_address (get_address (width s) pte), pt_level = pt_level pt - 1\<rparr>)"

definition pt_update :: "'s paging \<Rightarrow> page_table \<Rightarrow> u16 \<Rightarrow> u64 \<Rightarrow> 's paging" where
  "pt_update s pt idx e = s\<lparr>tables := (tables s)(pt_ptr pt := (tables s (pt_ptr pt))(idx := e))\<rparr>"

definition init_paging :: "'s paging \<Rightarrow> u8 \<Rightarrow> 's paging" where
  "init_paging s w = s\<lparr>width := w\<rparr>"

definition interp_as_base_page_table :: "physical_addr \<Rightarrow> page_table" where
  "interp_as_base_page_table p = \<lparr>pt_npte = p, pt_ptr = physical_to_virtual_address p, pt_level = 4\<rparr>"

section \<open>Walking the hierarchy\<close>

datatype access_status = NO_STATUS | OKAY | ALLOC_ERROR | FREE_ERROR | PAGE_TABLE_ENTRY_MISSING

record page_table_access =
  status :: access_status
  path :: "page_table_entry list"
  level :: u8
  pt_leak_map :: "bool list"
  physical_address :: physical_addr
  pte_after :: page_table_entry

definition new_access :: page_table_access where
  "new_access = \<lparr>status = NO_STATUS, path = replicate 5 bad_entry, level = 0,
     pt_leak_map = replicate 5 False, physical_address = 0, pte_after = bad_entry\<rparr>"

text \<open>The index of \<open>v\<close> in the table that the shift amount selects.\<close>

definition pt_index :: "virtual_addr \<Rightarrow> nat \<Rightarrow> u16" where
  "pt_index v shift = ucast (drop_bit shift v AND 0x1FF)"

function walk_loop ::
  "'s paging \<Rightarrow> virtual_addr \<Rightarrow> u8 \<Rightarrow> page_table \<Rightarrow> page_table_entry \<Rightarrow> page_table_access \<Rightarrow> page_table_access" where
  "walk_loop s v shift pt pte pta =
     (if 12 \<le> shift then
        let idx = pt_index v (unat shift);
            pte = pt_get s pt idx;
            pta = pta\<lparr>path := (path pta)[unat (pte_level pte) := pte]\<rparr>
        in if \<not> is_present pte
           then pta\<lparr>status := PAGE_TABLE_ENTRY_MISSING, level := pte_level pte\<rparr>
           else walk_loop s v (shift - 9) (entry_as_page_table s pt idx) pte pta
      else pta\<lparr>status := OKAY, level := pt_level pt, path := (path pta)[0 := pte],
             physical_address := get_address (width s) pte + (v AND PAGE_FRAME_OFFSET_MASK)\<rparr>)"
  by pat_completeness auto

termination walk_loop
  by (relation "measure (\<lambda>(s, v, shift, pt, pte, pta). unat shift)")
     (auto simp: word_le_nat_alt unat_minus_no_wrap)

definition access_page_hierarchy :: "'s paging \<Rightarrow> page_table \<Rightarrow> virtual_addr \<Rightarrow> page_table_access" where
  "access_page_hierarchy s base v =
     walk_loop s v 39 base bad_entry
       (new_access\<lparr>path := (path new_access)[4 := to_page_table_entry base]\<rparr>)"

definition find_page :: "'s paging \<Rightarrow> page_table \<Rightarrow> virtual_addr \<Rightarrow> page_table_access" where
  "find_page s base v = access_page_hierarchy s base v"

definition virtual_to_physical_address :: "'s paging \<Rightarrow> page_table \<Rightarrow> virtual_addr \<Rightarrow> physical_addr option" where
  "virtual_to_physical_address s loaded v =
     (if addr_prefix v = HHDM_BEGIN then Some (v - HHDM_BEGIN)
      else let pta = access_page_hierarchy s loaded v
           in if status pta = OKAY then Some (physical_address pta) else None)"

section \<open>Mapping and unmapping a page\<close>

text \<open>The page table object that the operations build for the entry of level \<open>n\<close> on the path.\<close>

definition path_table :: "'s paging \<Rightarrow> page_table_access \<Rightarrow> nat \<Rightarrow> page_table" where
  "path_table s pta n =
     (let a = get_address (width s) (path pta ! n)
      in \<lparr>pt_npte = a, pt_ptr = physical_to_virtual_address a, pt_level = of_nat n\<rparr>)"

definition level_index :: "virtual_addr \<Rightarrow> nat \<Rightarrow> u16" where
  "level_index v i = pt_index v (12 + 9 * i)"

text \<open>\<open>roll_back\<close> frees the new tables from level \<open>j\<close> up to the level at which the walk ended.\<close>

function roll_back ::
  "'s pmm_ops \<Rightarrow> virtual_addr \<Rightarrow> nat \<Rightarrow> 's paging \<Rightarrow> page_table_access \<Rightarrow> ('s paging \<times> page_table_access) option" where
  "roll_back ops v j s pta =
     (if j \<le> unat (level pta) then
        let parent = path_table s pta (j + 1);
            idx = level_index v j;
            plz_free = pt_get s parent idx
        in do {
          (fr, ok) \<leftarrow> op_free ops (frames s) (get_address (width s) plz_free);
          let pta' = (if ok then pta else pta\<lparr>pt_leak_map := (pt_leak_map pta)[j := True]\<rparr>);
          roll_back ops v (j + 1) (pt_update (s\<lparr>frames := fr\<rparr>) parent idx 0) pta' }
      else Some (s, pta))"
  by pat_completeness auto

termination roll_back
  by (relation "measure (\<lambda>(ops, v, j, s, pta). Suc (unat (level pta)) - j)") auto

definition set_zero :: "'s paging \<Rightarrow> physical_addr \<Rightarrow> 's paging" where
  "set_zero s p = s\<lparr>tables := (tables s)(physical_to_virtual_address p := (\<lambda>_. 0))\<rparr>"

text \<open>The \<open>for\<close> loop of \<open>allocate_page\<close> from level \<open>i\<close> down to the page itself.\<close>

fun allocate_loop ::
  "'s pmm_ops \<Rightarrow> virtual_addr \<Rightarrow> physical_addr \<Rightarrow> u16 \<Rightarrow> nat \<Rightarrow> 's paging \<Rightarrow> page_table_access \<Rightarrow>
   ('s paging \<times> page_table_access) option" where
  "allocate_loop ops v page_frame flags 0 s pta =
     (let n_pte = page_frame OR ucast (to_x86_64_flags flags);
          entry = \<lparr>native_entry = n_pte, pte_level = 0\<rparr>
      in Some (pt_update s (path_table s pta 1) (level_index v 0) n_pte,
               pta\<lparr>path := (path pta)[0 := entry], pte_after := entry\<rparr>))"
| "allocate_loop ops v page_frame flags (Suc i) s pta = do {
     (fr, r) \<leftarrow> op_allocate ops (frames s);
     let s = s\<lparr>frames := fr\<rparr>;
     case r of
       None \<Rightarrow> do {
         (s, pta) \<leftarrow> roll_back ops v (Suc i + 1) s pta;
         Some (s, pta\<lparr>status := ALLOC_ERROR, level := of_nat (Suc i)\<rparr>) }
     | Some p \<Rightarrow>
         let n_pte = p OR ucast (to_x86_64_flags flags);
             entry = \<lparr>native_entry = n_pte, pte_level = of_nat (Suc i)\<rparr>;
             s = pt_update (set_zero s p) (path_table s pta (Suc i + 1)) (level_index v (Suc i)) n_pte
         in allocate_loop ops v page_frame flags i s (pta\<lparr>path := (path pta)[Suc i := entry]\<rparr>) }"

definition allocate_page ::
  "'s pmm_ops \<Rightarrow> 's paging \<Rightarrow> page_table \<Rightarrow> virtual_addr \<Rightarrow> physical_addr \<Rightarrow> u16 \<Rightarrow>
   ('s paging \<times> page_table_access) option" where
  "allocate_page ops s base v page_frame flags =
     (let pta = access_page_hierarchy s base v
      in if status pta = OKAY then Some (s, pta\<lparr>status := ALLOC_ERROR, level := 0\<rparr>)
         else do {
           (s, pta) \<leftarrow> allocate_loop ops v page_frame flags (unat (level pta)) s pta;
           Some (s, if status pta = PAGE_TABLE_ENTRY_MISSING then pta\<lparr>status := OKAY\<rparr> else pta) })"

text \<open>The number of present entries of a table, as the inner loop of \<open>free_page\<close> counts them.\<close>

fun pte_count :: "'s paging \<Rightarrow> page_table \<Rightarrow> nat \<Rightarrow> nat" where
  "pte_count s pt 0 = 0"
| "pte_count s pt (Suc n) = pte_count s pt n + (if is_present (pt_get s pt (of_nat n)) then 1 else 0)"

function free_loop ::
  "'s pmm_ops \<Rightarrow> virtual_addr \<Rightarrow> nat \<Rightarrow> 's paging \<Rightarrow> page_table_access \<Rightarrow> ('s paging \<times> page_table_access) option" where
  "free_loop ops v i s pta =
     (if i < 4 then
        let parent = path_table s pta (i + 1); pte = path pta ! i; idx = level_index v i
        in if i = 0 then
             let s = pt_update s parent idx 0
             in free_loop ops v 1 s (pta\<lparr>pte_after := pt_get s parent idx\<rparr>)
           else if pte_count s (path_table s pta i) (unat PT_MAX_SIZE) = 0 then do {
             (fr, ok) \<leftarrow> op_free ops (frames s) (get_address (width s) pte);
             let s = s\<lparr>frames := fr\<rparr>;
             if \<not> ok then Some (s, pta\<lparr>status := FREE_ERROR, level := of_nat i\<rparr>)
             else free_loop ops v (i + 1) (pt_update s parent idx 0) pta }
           else free_loop ops v (i + 1) s pta
      else Some (s, pta))"
  by pat_completeness auto

termination free_loop
  by (relation "measure (\<lambda>(ops, v, i, s, pta). 4 - i)") auto

definition free_page ::
  "'s pmm_ops \<Rightarrow> 's paging \<Rightarrow> page_table \<Rightarrow> virtual_addr \<Rightarrow> ('s paging \<times> page_table_access) option" where
  "free_page ops s base v =
     (let pta = access_page_hierarchy s base v
      in if status pta \<noteq> OKAY then Some (s, pta) else free_loop ops v 0 s pta)"

definition modify_page_flags ::
  "'s paging \<Rightarrow> page_table \<Rightarrow> virtual_addr \<Rightarrow> u16 \<Rightarrow> bool \<Rightarrow> 's paging \<times> page_table_access" where
  "modify_page_flags s base v flags set_them =
     (let pta = access_page_hierarchy s base v
      in if status pta \<noteq> OKAY then (s, pta)
         else let e = native_entry (path pta ! 0);
                  fl = to_x86_64_flags flags;
                  e' = (if set_them then e OR ucast fl else e AND scast (NOT (ucast fl :: 32 word)));
                  pt = path_table s pta 1;
                  idx = pt_index v 12;
                  s' = pt_update s pt idx e'
              in (s', pta\<lparr>pte_after := pt_get s' pt idx\<rparr>))"

declare walk_loop.simps [simp del] roll_back.simps [simp del] free_loop.simps [simp del]

end
