(* ===== verification/Bytes.thy ===== *)
theory Bytes
  imports Paging
begin

text \<open>
  Bytes and bits: the C runtime's block operations on memory (\<^verbatim>\<open>Src/KRE/CRL/CRL.cpp\<close>), bit and byte
  access to integers (\<^verbatim>\<open>Include/KRE/BitsAndBytes.h\<close>) and the conversion between integers and byte
  buffers in either byte order (\<^verbatim>\<open>Src/KRE/Utility.cpp\<close>).
\<close>

section \<open>Blocks of memory\<close>

type_synonym memory = "u64 \<Rightarrow> u8"

definition memset :: "memory \<Rightarrow> u64 \<Rightarrow> u8 \<Rightarrow> u64 \<Rightarrow> memory" where
  "memset m dest chr cnt = foldl (\<lambda>m i. m(dest + of_nat i := chr)) m [0..<unat cnt]"

definition copy_byte :: "u64 \<Rightarrow> u64 \<Rightarrow> memory \<Rightarrow> nat \<Rightarrow> memory" where
  "copy_byte dest src m i = m(dest + of_nat i := m (src + of_nat i))"

definition memcpy :: "memory \<Rightarrow> u64 \<Rightarrow> u64 \<Rightarrow> u64 \<Rightarrow> memory" where
  "memcpy m dest src cnt = foldl (copy_byte dest src) m [0..<unat cnt]"

definition memmove :: "memory \<Rightarrow> u64 \<Rightarrow> u64 \<Rightarrow> u64 \<Rightarrow> memory" where
  "memmove m dest src cnt =
     (let source_end = src + cnt
      in if dest \<le> source_end \<and> source_end \<le> dest + cnt
         then foldl (copy_byte dest src) m (rev [0..<unat cnt])
         else foldl (copy_byte dest src) m [0..<unat cnt])"

fun memcmp_loop :: "memory \<Rightarrow> u64 \<Rightarrow> u64 \<Rightarrow> nat list \<Rightarrow> int" where
  "memcmp_loop m lhs rhs [] = 0"
| "memcmp_loop m lhs rhs (i # is) =
     (if m (lhs + of_nat i) < m (rhs + of_nat i) then - 1
      else if m (rhs + of_nat i) < m (lhs + of_nat i) then 1
      else memcmp_loop m lhs rhs is)"

definition memcmp :: "memory \<Rightarrow> u64 \<Rightarrow> u64 \<Rightarrow> u64 \<Rightarrow> int" where
  "memcmp m lhs rhs cnt = memcmp_loop m lhs rhs [0..<unat cnt]"

section \<open>Bits and parts of an integer\<close>

text \<open>
  The literal 1 is an \<open>int\<close>: shifting it by 32 and more is undefined (\<open>None\<close>), and the shifted value is
  sign extended before it meets a wider number.
\<close>

definition bit_set :: "'a::len word \<Rightarrow> nat \<Rightarrow> 'a word option" where
  "bit_set num off = (if off < 32 then Some (num OR scast (push_bit off 1 :: 32 word)) else None)"

definition bit_clear :: "'a::len word \<Rightarrow> nat \<Rightarrow> 'a word option" where
  "bit_clear num off = (if off < 32 then Some (num AND scast (NOT (push_bit off 1 :: 32 word))) else None)"

text \<open>A shift by the width of the promoted type and more is undefined.\<close>

definition shift_right :: "'a::len word \<Rightarrow> nat \<Rightarrow> 'a word option" where
  "shift_right v n = (if max 32 LENGTH('a) \<le> n then None else Some (drop_bit n v))"

definition nibble_get :: "'a::len word \<Rightarrow> nat \<Rightarrow> 'a word option" where
  "nibble_get v off = (if 15 < off then Some 0 else do { x \<leftarrow> shift_right v (4 * off); Some (x AND 0xF) })"

definition byte_get :: "'a::len word \<Rightarrow> nat \<Rightarrow> 'a word option" where
  "byte_get v off = (if 7 < off then Some 0 else do { x \<leftarrow> shift_right v (8 * off); Some (x AND 0xFF) })"

definition word_get :: "'a::len word \<Rightarrow> nat \<Rightarrow> 'a word option" where
  "word_get v off = (if 3 < off then Some 0 else do { x \<leftarrow> shift_right v (16 * off); Some (x AND 0xFFFF) })"

definition dword_get :: "'a::len word \<Rightarrow> nat \<Rightarrow> 'a word option" where
  "dword_get v off = (if 1 < off then Some 0 else do { x \<leftarrow> shift_right v (32 * off); Some (x AND 0xFFFFFFFF) })"

section \<open>Byte order\<close>

definition le_to_u16 :: "u8 list \<Rightarrow> u16" where
  "le_to_u16 buf = push_bit 8 (ucast (buf ! 1)) OR ucast (buf ! 0)"

definition le_to_u32 :: "u8 list \<Rightarrow> u32" where
  "le_to_u32 buf = push_bit 24 (ucast (buf ! 3)) OR push_bit 16 (ucast (buf ! 2)) OR
     push_bit 8 (ucast (buf ! 1)) OR ucast (buf ! 0)"

definition le_to_u64 :: "u8 list \<Rightarrow> u64" where
  "le_to_u64 buf = push_bit 56 (ucast (buf ! 7)) OR push_bit 48 (ucast (buf ! 6)) OR push_bit 40 (ucast (buf ! 5)) OR
     push_bit 32 (ucast (buf ! 4)) OR push_bit 24 (ucast (buf ! 3)) OR push_bit 16 (ucast (buf ! 2)) OR
     push_bit 8 (ucast (buf ! 1)) OR ucast (buf ! 0)"

definition byte_at :: "'a::len word \<Rightarrow> nat \<Rightarrow> u8" where "byte_at n off = ucast (drop_bit off n AND 0xFF)"

definition le_bytes16 :: "u16 \<Rightarrow> u8 list \<Rightarrow> u8 list" where
  "le_bytes16 n buf = buf[0 := byte_at n 0, 1 := byte_at n 8]"

definition le_bytes32 :: "u32 \<Rightarrow> u8 list \<Rightarrow> u8 list" where
  "le_bytes32 n buf = buf[0 := byte_at n 0, 1 := byte_at n 8, 2 := byte_at n 16, 3 := byte_at n 24]"

definition le_bytes64 :: "u64 \<Rightarrow> u8 list \<Rightarrow> u8 list" where
  "le_bytes64 n buf = buf[0 := byte_at n 0, 1 := byte_at n 8, 2 := byte_at n 16, 3 := byte_at n 24,
     4 := byte_at n 32, 5 := byte_at n 40, 6 := byte_at n 48, 7 := byte_at n 56]"

definition be_to_u16 :: "u8 list \<Rightarrow> u16" where
  "be_to_u16 buf = push_bit 8 (ucast (buf ! 0)) OR ucast (buf ! 1)"

definition be_to_u32 :: "u8 list \<Rightarrow> u32" where
  "be_to_u32 buf = push_bit 24 (ucast (buf ! 0)) OR push_bit 16 (ucast (buf ! 1)) OR
     push_bit 8 (ucast (buf ! 2)) OR ucast (buf ! 3)"

definition be_to_u64 :: "u8 list \<Rightarrow> u64" where
  "be_to_u64 buf = push_bit 56 (ucast (buf ! 0)) OR push_bit 48 (ucast (buf ! 1)) OR push_bit 40 (ucast (buf ! 2)) OR
     push_bit 32 (ucast (buf ! 3)) OR push_bit 24 (ucast (buf ! 4)) OR push_bit 16 (ucast (buf ! 5)) OR
     push_bit 8 (ucast (buf ! 6)) OR ucast (buf ! 7)"

definition be_bytes16 :: "u16 \<Rightarrow> u8 list \<Rightarrow> u8 list" where
  "be_bytes16 n buf = buf[0 := byte_at n 8, 1 := byte_at n 0]"

definition be_bytes32 :: "u32 \<Rightarrow> u8 list \<Rightarrow> u8 list" where
  "be_bytes32 n buf = buf[0 := byte_at n 24, 1 := byte_at n 16, 2 := byte_at n 8, 3 := byte_at n 0]"

definition be_bytes64 :: "u64 \<Rightarrow> u8 list \<Rightarrow> u8 list" where
  "be_bytes64 n buf = buf[0 := byte_at n 56, 1 := byte_at n 48, 2 := byte_at n 40, 3 := byte_at n 32,
     4 := byte_at n 24, 5 := byte_at n 16, 6 := byte_at n 8, 7 := byte_at n 0]"

section \<open>Moving memory\<close>


text \<open>What a copy writes: the byte at distance \<open>a - dest\<close> comes from the same distance behind \<open>src\<close>.\<close>

lemma offset_eq:
  assumes "n < 2 ^ 64"
  shows "a = dest + of_nat n \<longleftrightarrow> unat (a - dest :: u64) = n"
proof
  assume "a = dest + of_nat n"
  then show "unat (a - dest) = n" using assms by (simp add: unat_of_nat_u64)
next
  assume "unat (a - dest) = n"
  moreover have "of_nat (unat (a - dest)) = a - dest" by simp
  ultimately have "of_nat n = a - dest" by simp
  then show "a = dest + of_nat n" by simp
qed

lemma copy_snoc:
  "foldl (copy_byte dest src) m (is @ [i]) a =
    (if a = dest + of_nat i then foldl (copy_byte dest src) m is (src + of_nat i) else foldl (copy_byte dest src) m is a)"
  by (simp add: copy_byte_def)

lemma copy_upwards:
  assumes "n \<le> 2 ^ 64" and "\<And>i. i < n \<Longrightarrow> \<not> unat (src + of_nat i - dest) < i"
  shows "foldl (copy_byte dest src) m [0..<n] a = (if unat (a - dest) < n then m (src + (a - dest)) else m a)"
  using assms
proof (induction n arbitrary: a)
  case (Suc n)
  have IH: "foldl (copy_byte dest src) m [0..<n] a = (if unat (a - dest) < n then m (src + (a - dest)) else m a)" for a
    using Suc.prems by (intro Suc.IH) simp_all
  have "\<not> unat (src + of_nat n - dest) < n" using Suc.prems(2) by simp
  moreover have "a = dest + of_nat n \<longleftrightarrow> unat (a - dest) = n" using Suc.prems(1) by (intro offset_eq) simp
  ultimately show ?case unfolding upt_Suc_append [OF le0] copy_snoc IH by (auto simp: less_Suc_eq)
qed simp

lemma copy_downwards:
  assumes "n \<le> 2 ^ 64" and "k \<le> n" and "\<And>i. k \<le> i \<Longrightarrow> i < n \<Longrightarrow> \<not> (i < unat (src + of_nat i - dest) \<and> unat (src + of_nat i - dest) < n)"
  shows "foldl (copy_byte dest src) m (rev [k..<n]) a =
    (if k \<le> unat (a - dest) \<and> unat (a - dest) < n then m (src + (a - dest)) else m a)"
  using assms(2,3)
proof (induction "n - k" arbitrary: k a)
  case (Suc d)
  then have k: "k < n" by simp
  have IH: "foldl (copy_byte dest src) m (rev [Suc k..<n]) a =
      (if Suc k \<le> unat (a - dest) \<and> unat (a - dest) < n then m (src + (a - dest)) else m a)" for a
    using Suc.prems Suc.hyps(2) by (intro Suc.hyps(1)) simp_all
  have "\<not> (k < unat (src + of_nat k - dest) \<and> unat (src + of_nat k - dest) < n)" using Suc.prems(2) k by simp
  moreover have "a = dest + of_nat k \<longleftrightarrow> unat (a - dest) = k" using assms(1) k by (intro offset_eq) simp
  ultimately show ?case using k unfolding upt_conv_Cons [OF k] rev.simps copy_snoc IH by (auto simp: Suc_le_eq)
qed auto

lemma diff_offset:
  fixes src dest :: u64
  assumes "unat src + i < 2 ^ 64"
  shows "unat (src + of_nat i - dest) = (if unat dest \<le> unat src + i then unat src + i - unat dest
    else 2 ^ 64 + unat src + i - unat dest)"
proof -
  have i: "unat (src + of_nat i) = unat src + i"
    using assms by (subst unat_plus_no_wrap) (simp_all add: unat_of_nat_u64)
  show ?thesis
  proof (cases "unat dest \<le> unat src + i")
    case True
    then show ?thesis using unat_minus_no_wrap [of dest "src + of_nat i"] i by simp
  next
    case False
    have "unat (src + of_nat i - dest) = unat (src + of_nat i) + 2 ^ 64 - unat dest"
      using False i unat_sub_if_size [of "src + of_nat i" dest] by (simp add: word_size)
    then show ?thesis using False i by simp
  qed
qed

text \<open>
  Correctness of memmove: whatever the overlap of source and destination is, the destination
  receives the bytes that the source held before the call and no other byte changes.
\<close>

theorem memmove_moves_bytes:
  assumes "unat src + unat cnt < 2 ^ 64" and "unat dest + unat cnt < 2 ^ 64"
  shows "memmove m dest src cnt a =
    (if unat dest \<le> unat a \<and> unat a < unat dest + unat cnt then m (src + (a - dest)) else m a)"
proof -
  have e: "unat (src + cnt) = unat src + unat cnt" "unat (dest + cnt) = unat dest + unat cnt"
    using assms by (simp_all add: unat_plus_no_wrap)
  have rng: "unat (a - dest) < unat cnt \<longleftrightarrow> unat dest \<le> unat a \<and> unat a < unat dest + unat cnt"
    using diff_offset [of a 0 dest] assms(2) by (auto split: if_splits)
  have off: "unat (src + of_nat i - dest) = (if unat dest \<le> unat src + i then unat src + i - unat dest
    else 2 ^ 64 + unat src + i - unat dest)" if "i < unat cnt" for i
    using that assms(1) by (intro diff_offset) simp
  have cnt: "unat cnt \<le> 2 ^ 64" by (simp add: less_imp_le)
  show ?thesis
  proof (cases "dest \<le> src + cnt \<and> src + cnt \<le> dest + cnt")
    case True
    then have "unat src \<le> unat dest" using e by (simp add: word_le_nat_alt)
    then have "\<not> (i < unat (src + of_nat i - dest) \<and> unat (src + of_nat i - dest) < unat cnt)" if "i < unat cnt" for i
      using that off [OF that] assms(2) by auto
    from copy_downwards [OF cnt le0 this] show ?thesis using True rng by (simp add: memmove_def Let_def)
  next
    case False
    then have "unat src + unat cnt < unat dest \<or> unat dest < unat src" using e by (auto simp: word_le_nat_alt)
    then have "\<not> unat (src + of_nat i - dest) < i" if "i < unat cnt" for i
      using that off [OF that] unat_lt_2p64 [of dest] by (auto simp del: unat_lt_2p64)
    from copy_upwards [OF cnt this] show ?thesis
      unfolding memmove_def Let_def if_not_P [OF False] by (simp add: rng)
  qed
qed

lemma memmove_moves_bytes_witness:
  "memmove (\<lambda>a. ucast a) 6 4 8 (9 :: u64) = 7 \<and> memmove (\<lambda>a. ucast a) 4 6 8 (9 :: u64) = 11"
  using memmove_moves_bytes [of 4 8 6 "\<lambda>a. ucast a" 9] memmove_moves_bytes [of 6 8 4 "\<lambda>a. ucast a" 9]
  by simp

text \<open>\<open>memcpy\<close> copies upwards only: for disjoint blocks it agrees with \<open>memmove\<close>.\<close>

lemma memcpy_copies_bytes:
  assumes "unat src + unat cnt < 2 ^ 64" and "unat dest + unat cnt < 2 ^ 64"
    and "unat src + unat cnt \<le> unat dest \<or> unat dest \<le> unat src"
  shows "memcpy m dest src cnt a =
    (if unat dest \<le> unat a \<and> unat a < unat dest + unat cnt then m (src + (a - dest)) else m a)"
proof -
  have rng: "unat (a - dest) < unat cnt \<longleftrightarrow> unat dest \<le> unat a \<and> unat a < unat dest + unat cnt"
    using diff_offset [of a 0 dest] assms(2) by (auto split: if_splits)
  have "\<not> unat (src + of_nat i - dest) < i" if "i < unat cnt" for i
    using that assms diff_offset [of src i dest] unat_lt_2p64 [of dest] by auto
  from copy_upwards [OF _ this] show ?thesis using rng by (simp add: memcpy_def less_imp_le)
qed

section \<open>Byte order round trip\<close>

lemma byte_at_part: "push_bit k (ucast (byte_at n k)) = (n :: 'a::len word) AND push_bit k 0xFF"
proof (rule bit_word_eqI)
  have m: "(0xFF :: 'b::len word) = mask 8" by (simp add: mask_eq_exp_minus_1)
  fix j assume "j < LENGTH('a)"
  then show "bit (push_bit k (ucast (byte_at n k) :: 'a word)) j \<longleftrightarrow> bit (n AND push_bit k 0xFF) j"
    unfolding byte_at_def m by (auto simp: bit_simps)
qed

lemma byte_at_part_0: "ucast (byte_at n 0) = (n :: 'a::len word) AND 0xFF"
  using byte_at_part [of 0 n] by simp

lemma length_8: "length xs = 8 \<Longrightarrow> \<exists>a b c d e f g h. xs = [a, b, c, d, e, f, g, h]"
  by (auto simp: numeral_eq_Suc length_Suc_conv)

lemma length_4: "length xs = 4 \<Longrightarrow> \<exists>a b c d. xs = [a, b, c, d]"
  by (auto simp: numeral_eq_Suc length_Suc_conv)

lemma length_2: "length xs = 2 \<Longrightarrow> \<exists>a b. xs = [a, b]"
  by (auto simp: numeral_eq_Suc length_Suc_conv)

lemma le_bytes64_8:
  "length buf = 8 \<Longrightarrow> le_bytes64 n buf = map (byte_at n) [0, 8, 16, 24, 32, 40, 48, 56]"
  by (auto dest!: length_8 simp: le_bytes64_def)

lemma be_bytes64_8:
  "length buf = 8 \<Longrightarrow> be_bytes64 n buf = map (byte_at n) [56, 48, 40, 32, 24, 16, 8, 0]"
  by (auto dest!: length_8 simp: be_bytes64_def)

lemma be_to_u64_rev: "length buf = 8 \<Longrightarrow> be_to_u64 buf = le_to_u64 (rev buf)"
  by (auto dest!: length_8 simp: be_to_u64_def le_to_u64_def)

lemma all_bits_64: "n AND 18446744073709551615 = (n :: u64)"
  and all_bits_32: "k AND 4294967295 = (k :: u32)" and all_bits_16: "j AND 65535 = (j :: u16)"
proof -
  have m: "(18446744073709551615 :: u64) = - 1" "(4294967295 :: u32) = - 1" "(65535 :: u16) = - 1" by simp_all
  show "n AND 18446744073709551615 = n" "k AND 4294967295 = k" "j AND 65535 = j" unfolding m by simp_all
qed

lemmas bytes_join = byte_at_part byte_at_part_0 bit.conj_disj_distrib [symmetric] all_bits_64 all_bits_32 all_bits_16

lemma le_to_u64_bytes: "le_to_u64 (map (byte_at n) [0, 8, 16, 24, 32, 40, 48, 56]) = n"
  by (simp add: le_to_u64_def bytes_join)

text \<open>
  Round trip of the byte order conversions: the bytes of a 64-bit number give the number back in
  either byte order, and the big endian bytes are the little endian bytes in reverse.
\<close>

theorem byte_order_roundtrip:
  assumes "length buf = 8"
  shows "le_to_u64 (le_bytes64 n buf) = n \<and> be_to_u64 (be_bytes64 n buf) = n \<and>
    be_bytes64 n buf = rev (le_bytes64 n buf) \<and> be_to_u64 buf = le_to_u64 (rev buf)"
  using assms by (simp add: le_bytes64_8 be_bytes64_8 be_to_u64_rev le_to_u64_bytes [simplified])

lemma byte_order_roundtrip_witness:
  "le_to_u64 (le_bytes64 0x1122334455667788 (replicate 8 0)) = 0x1122334455667788 \<and>
   be_bytes64 0x1122334455667788 (replicate 8 0) = [0x11, 0x22, 0x33, 0x44, 0x55, 0x66, 0x77, 0x88]"
proof -
  have "be_bytes64 0x1122334455667788 (replicate 8 0) = [0x11, 0x22, 0x33, 0x44, 0x55, 0x66, 0x77, 0x88]" by code_simp
  then show ?thesis using byte_order_roundtrip [of "replicate 8 0" "0x1122334455667788"] by simp
qed

lemma byte_order_roundtrip_32:
  assumes "length buf = 4"
  shows "le_to_u32 (le_bytes32 n buf) = n \<and> be_to_u32 (be_bytes32 n buf) = n \<and>
    be_bytes32 n buf = rev (le_bytes32 n buf)"
  using length_4 [OF assms]
  by (auto simp: le_bytes32_def be_bytes32_def le_to_u32_def be_to_u32_def bytes_join)

lemma byte_order_roundtrip_16:
  assumes "length buf = 2"
  shows "le_to_u16 (le_bytes16 n buf) = n \<and> be_to_u16 (be_bytes16 n buf) = n \<and>
    be_bytes16 n buf = rev (le_bytes16 n buf)"
  using length_2 [OF assms] by (auto simp: le_bytes16_def be_bytes16_def le_to_u16_def be_to_u16_def bytes_join)

section \<open>Single bits\<close>

lemma bit_set_sets:
  assumes "off < 31"
  shows "\<exists>r :: u64. bit_set n off = Some r \<and> (\<forall>k. bit r k \<longleftrightarrow> bit n k \<or> k = off)"
  using assms by (auto simp: bit_set_def bit_simps)

lemma bit_clear_clears:
  assumes "off < 31"
  shows "\<exists>r :: u64. bit_clear n off = Some r \<and> (\<forall>k. bit r k \<longleftrightarrow> bit n k \<and> k \<noteq> off)"
  using assms by (auto simp: bit_clear_def bit_simps dest: bit_imp_le_length)

text \<open>The \<open>int\<close> literal is sign extended: at offset 31 all higher bits of a 64-bit number change.\<close>

lemma bit_set_31: "bit_set (0 :: u64) 31 = Some 0xFFFFFFFF80000000 \<and> bit_clear (- 1 :: u64) 31 = Some 0x7FFFFFFF"
  by code_simp

end
