(* ===== verification/Kernel_Guardian.thy ===== *)
theory Kernel_Guardian
  imports Bytes
begin

text \<open>
  The checks at the border between user mode and the kernel (\<^verbatim>\<open>Src/SystemCall/KernelGuardian.cpp\<close>):
  buffers and strings that a system call gets from user mode must end before kernel memory starts.
  \<open>kstart\<close> is the guardian's state, the start of kernel memory.
\<close>

section \<open>Operations\<close>

definition STRING_SIZE_LIMIT :: nat where "STRING_SIZE_LIMIT = 128"

definition verify_user_buffer :: "u64 \<Rightarrow> u64 \<Rightarrow> u64 \<Rightarrow> bool" where
  "verify_user_buffer kstart user_buf user_buf_size = (user_buf \<noteq> 0 \<and> user_buf + user_buf_size < kstart)"

definition copy_byte_buffer_user_to_kernel :: "u64 \<Rightarrow> memory \<Rightarrow> u64 \<Rightarrow> u64 \<Rightarrow> u64 \<Rightarrow> bool \<times> memory" where
  "copy_byte_buffer_user_to_kernel kstart m user_buf user_buf_size kernel_buf =
     (if user_buf = 0 \<or> kernel_buf = 0 then (False, m)
      else if kstart \<le> user_buf \<or> kstart \<le> user_buf + user_buf_size then (False, m)
      else (True, memcpy m kernel_buf user_buf user_buf_size))"

definition copy_byte_buffer_kernel_to_user :: "u64 \<Rightarrow> memory \<Rightarrow> u64 \<Rightarrow> u64 \<Rightarrow> u64 \<Rightarrow> bool \<times> memory" where
  "copy_byte_buffer_kernel_to_user kstart m kernel_buf user_buf user_buf_size =
     (if user_buf = 0 \<or> kernel_buf = 0 then (False, m)
      else if kstart \<le> user_buf \<or> kstart \<le> user_buf + user_buf_size then (False, m)
      else (True, memcpy m user_buf kernel_buf user_buf_size))"

text \<open>The length of a string, counted up to the limit or to \<open>max_size\<close> if that is not negative.\<close>

function string_size :: "memory \<Rightarrow> u64 \<Rightarrow> 32 word \<Rightarrow> nat \<Rightarrow> nat" where
  "string_size m c_pos max_size sz =
     (if m c_pos \<noteq> 0 \<and> sz < STRING_SIZE_LIMIT then
        if 0 \<le> sint max_size \<and> sint max_size \<le> int (sz + 1) then sz + 1
        else string_size m (c_pos + 1) max_size (sz + 1)
      else sz)"
  by pat_completeness auto

termination string_size
  by (relation "measure (\<lambda>(m, c_pos, max_size, sz). STRING_SIZE_LIMIT - sz)") auto

definition copy_string_user_to_kernel :: "u64 \<Rightarrow> memory \<Rightarrow> u64 \<Rightarrow> 32 word \<Rightarrow> u64 \<Rightarrow> bool \<times> memory" where
  "copy_string_user_to_kernel kstart m user_str max_size kernel_str =
     (if user_str = 0 \<or> kernel_str = 0 then (False, m)
      else if kstart \<le> user_str \<or> kstart \<le> user_str + scast max_size then (False, m)
      else let sz = string_size m user_str max_size 0
           in if STRING_SIZE_LIMIT \<le> sz then (False, m)
              else if 0 \<le> sint max_size \<and> sint max_size < int sz then (False, m)
              else (True, (memcpy m kernel_str user_str (of_nat (sz + 1)))(kernel_str + of_nat sz := 0)))"

declare string_size.simps [simp del]

section \<open>Buffers\<close>

lemma foldl_copy_outside:
  "(\<And>i. i \<in> set is \<Longrightarrow> a \<noteq> dest + of_nat i) \<Longrightarrow> foldl (copy_byte dest src) m is a = m a"
  by (induction "is" arbitrary: m) (simp_all add: copy_byte_def)

lemma memcpy_outside:
  assumes "unat dest + unat cnt < 2 ^ 64" and "unat a < unat dest \<or> unat dest + unat cnt \<le> unat a"
  shows "memcpy m dest src cnt a = m a"
  unfolding memcpy_def
proof (rule foldl_copy_outside)
  fix i assume "i \<in> set [0..<unat cnt]"
  then have "i < unat cnt" by simp
  then have "unat (dest + of_nat i) = unat dest + i"
    using assms(1) by (subst unat_plus_no_wrap) (simp_all add: unat_of_nat_u64)
  then show "a \<noteq> dest + of_nat i" using assms(2) \<open>i < unat cnt\<close> by auto
qed

lemma verify_user_buffer_no_wrap:
  assumes "unat p + unat n < 2 ^ 64"
  shows "verify_user_buffer kstart p n \<longleftrightarrow> p \<noteq> 0 \<and> unat p + unat n < unat kstart"
  using assms by (simp add: verify_user_buffer_def word_less_nat_alt no_wrap)

text \<open>The sum wraps around: every address has a size with which the check passes.\<close>

lemma verify_user_buffer_accepts_any_address:
  "kstart \<noteq> 0 \<Longrightarrow> p \<noteq> 0 \<Longrightarrow> verify_user_buffer kstart p (- p)"
  by (simp add: verify_user_buffer_def word_neq_0_conv)

text \<open>
  C38. Protection of kernel memory: a copy to user mode changes no byte of kernel memory, provided
  that the end of the user buffer does not wrap around the address range.
\<close>

theorem copy_to_user_spares_kernel:
  assumes "copy_byte_buffer_kernel_to_user kstart m kernel_buf user_buf n = (ok, m')"
    and "unat user_buf + unat n < 2 ^ 64" and "kstart \<le> a"
  shows "m' a = m a"
proof (cases ok)
  case True
  then have g: "\<not> kstart \<le> user_buf + n" and m': "m' = memcpy m user_buf kernel_buf n"
    using assms(1) by (auto simp: copy_byte_buffer_kernel_to_user_def split: if_splits)
  then have "unat user_buf + unat n \<le> unat a"
    using assms(2,3) by (simp add: word_le_nat_alt no_wrap)
  then show ?thesis unfolding m' using assms(2) by (intro memcpy_outside) simp_all
qed (use assms(1) in \<open>auto simp: copy_byte_buffer_kernel_to_user_def split: if_splits\<close>)

lemma copy_to_user_spares_kernel_witness:
  "snd (copy_byte_buffer_kernel_to_user 0x8000 (\<lambda>a. ucast a) 0x9000 0x100 16) 0x9004 = (4 :: u8)"
proof -
  have s: "copy_byte_buffer_kernel_to_user 0x8000 (\<lambda>a. ucast a) 0x9000 0x100 16 =
      (True, memcpy (\<lambda>a. ucast a) 0x100 0x9000 16)"
    by (simp add: copy_byte_buffer_kernel_to_user_def)
  show ?thesis using copy_to_user_spares_kernel [OF s, of "0x9004"] s by simp
qed

text \<open>A size of more than \<open>2 ^ 47\<close> wraps around, passes the checks and overwrites kernel memory.\<close>

lemma copy_to_user_wraps:
  "fst (copy_byte_buffer_kernel_to_user 0x800000000000 m 0xFFFF800000000000 0x1000 0xFFFFFFFFFFFFF800)"
  by (simp add: copy_byte_buffer_kernel_to_user_def)

section \<open>Strings\<close>

lemma string_size_zero:
  assumes "\<And>i. i < n \<Longrightarrow> m (p + of_nat i) \<noteq> 0" and "m (p + of_nat n) = 0" and "sz + n < STRING_SIZE_LIMIT"
    and "sint max_size < 0 \<or> int (sz + n) \<le> sint max_size"
  shows "string_size m p max_size sz = sz + n"
  using assms
proof (induction n arbitrary: p sz)
  case 0
  then show ?case by (subst string_size.simps) simp
next
  case (Suc n)
  show ?case
  proof (cases "0 \<le> sint max_size \<and> sint max_size \<le> int (sz + 1)")
    case True
    then have "n = 0" using Suc.prems(4) by auto
    then show ?thesis using True Suc.prems(1) [of 0] Suc.prems(3) by (subst string_size.simps) simp
  next
    case False
    have "string_size m (p + 1) max_size (sz + 1) = sz + 1 + n"
      using Suc.prems Suc.prems(1) [of "Suc i" for i] by (intro Suc.IH) (simp_all add: add.assoc)
    then show ?thesis using False Suc.prems(1) [of 0] Suc.prems(3) by (subst string_size.simps) auto
  qed
qed

text \<open>
  Correctness of the string copy: a terminated string of fewer than 128 characters that respects
  \<open>max_size\<close> and lies in user memory is copied with its terminator, and nothing else changes.
\<close>

theorem copy_string_copies:
  assumes str: "\<And>i. i < n \<Longrightarrow> m (user_str + of_nat i) \<noteq> 0" "m (user_str + of_nat n) = 0"
    and n: "n < 128" "sint max_size < 0 \<or> int n \<le> sint max_size"
    and ptr: "user_str \<noteq> 0" "kernel_str \<noteq> 0" "user_str < kstart" "user_str + scast max_size < kstart"
    and room: "unat user_str + n < unat kernel_str" "unat kernel_str + n + 1 < 2 ^ 64"
  shows "\<exists>m'. copy_string_user_to_kernel kstart m user_str max_size kernel_str = (True, m') \<and>
    (\<forall>a. m' a = (if unat kernel_str \<le> unat a \<and> unat a \<le> unat kernel_str + n then m (user_str + (a - kernel_str)) else m a))"
proof -
  have sz: "string_size m user_str max_size 0 = n"
    using string_size_zero [of n m user_str 0 max_size] str n by (simp add: STRING_SIZE_LIMIT_def)
  have cnt: "unat (of_nat (n + 1) :: u64) = n + 1" using n(1) by (intro unat_of_nat_u64) simp
  let ?m = "(memcpy m kernel_str user_str (of_nat (n + 1)))(kernel_str + of_nat n := 0)"
  have run: "copy_string_user_to_kernel kstart m user_str max_size kernel_str = (True, ?m)"
    using ptr n sz by (simp add: copy_string_user_to_kernel_def STRING_SIZE_LIMIT_def linorder_not_le) linarith
  have "?m a = (if unat kernel_str \<le> unat a \<and> unat a \<le> unat kernel_str + n
      then m (user_str + (a - kernel_str)) else m a)" for a
  proof -
    have "memcpy m kernel_str user_str (of_nat (n + 1)) a =
        (if unat kernel_str \<le> unat a \<and> unat a < unat kernel_str + (n + 1) then m (user_str + (a - kernel_str)) else m a)"
      using memcpy_copies_bytes [of user_str "of_nat (n + 1)" kernel_str m a] room unfolding cnt by simp
    moreover have "unat (kernel_str + of_nat n) = unat kernel_str + n"
      using room(2) n(1) by (subst unat_plus_no_wrap) (simp_all add: unat_of_nat_u64)
    ultimately show ?thesis using str(2) by (simp add: less_Suc_eq_le)
  qed
  then show ?thesis using run by blast
qed

text \<open>The bytes \<open>''abc''\<close> at address 16.\<close>

definition sample_text :: memory where
  "sample_text = (\<lambda>_. 0)(16 := 97, 17 := 98, 18 := 99)"

lemma copy_string_copies_witness:
  "\<exists>m'. copy_string_user_to_kernel 0x8000 sample_text 16 (- 1) 0x9000 = (True, m') \<and> m' 0x9002 = 99 \<and> m' 0x9003 = 0"
proof -
  have "sample_text (16 + of_nat i) \<noteq> 0" if "i < 3" for i
  proof -
    have "i = 0 \<or> i = 1 \<or> i = 2" using that by auto
    then show ?thesis by (auto simp: sample_text_def)
  qed
  from copy_string_copies [of 3 sample_text 16 "- 1" "0x9000" "0x8000", OF this] show ?thesis
    by (auto simp: sample_text_def)
qed

text \<open>A string longer than \<open>max_size\<close> is cut and accepted, it is not refused.\<close>

lemma long_string_is_cut:
  "fst (copy_string_user_to_kernel 0x8000 sample_text 16 2 0x9000) \<and>
   map (snd (copy_string_user_to_kernel 0x8000 sample_text 16 2 0x9000)) [0x9000, 0x9001, 0x9002] = [97, 98, 0]"
  by code_simp

text \<open>With \<open>max_size = - 1\<close> the end of the string is not checked: it is read from kernel memory.\<close>

lemma string_crosses_border:
  "fst (copy_string_user_to_kernel 17 sample_text 16 (- 1) 0x9000) \<and>
   map (snd (copy_string_user_to_kernel 17 sample_text 16 (- 1) 0x9000)) [0x9000, 0x9001, 0x9002] = [97, 98, 99]"
  by code_simp

end
