(* ===== verification/Address_Spaces.thy ===== *)
theory Address_Spaces
  imports Paging
begin

text \<open>
  The abstract view of a page table hierarchy: a tree of frames, read as a partial function from
  index lists to physical addresses. The operations of \<^verbatim>\<open>Paging.cpp\<close> are shown to change this
  function at exactly one page, against any frame allocator that keeps the contract of the locale
  \<open>frame_allocator\<close>, which the bitmap allocator of \<open>Page_Frames\<close> keeps.
\<close>

section \<open>Bits of entries and addresses\<close>

lemma bit_entry_address:
  assumes "12 \<le> unat w" and "unat w \<le> 64"
  shows "bit (entry_address w e) n \<longleftrightarrow> 12 \<le> n \<and> n < unat w \<and> bit e n"
  using assms unfolding entry_address_def
  by (auto simp: bit_simps)

definition width_ok :: "u8 \<Rightarrow> bool" where "width_ok w \<longleftrightarrow> 12 \<le> unat w \<and> unat w \<le> 48"

text \<open>An address that an entry can hold: aligned to a page and within the physical address width.\<close>

definition frame_addr :: "u8 \<Rightarrow> physical_addr \<Rightarrow> bool" where
  "frame_addr w p \<longleftrightarrow> entry_address w p = p"

lemma frame_addr_iff:
  assumes "width_ok w"
  shows "frame_addr w p \<longleftrightarrow> (\<forall>n. bit p n \<longrightarrow> 12 \<le> n \<and> n < unat w)"
proof
  assume "frame_addr w p"
  then have e: "entry_address w p = p" by (simp add: frame_addr_def)
  show "\<forall>n. bit p n \<longrightarrow> 12 \<le> n \<and> n < unat w"
  proof (intro allI impI)
    fix n assume "bit p n"
    then have "bit (entry_address w p) n" by (simp only: e)
    then show "12 \<le> n \<and> n < unat w" using assms by (simp add: width_ok_def bit_entry_address)
  qed
next
  assume "\<forall>n. bit p n \<longrightarrow> 12 \<le> n \<and> n < unat w"
  then show "frame_addr w p"
    using assms unfolding frame_addr_def width_ok_def by (auto simp: bit_eq_iff bit_entry_address)
qed

lemma frame_addr_entry_address: "width_ok w \<Longrightarrow> frame_addr w (entry_address w e)"
  by (simp add: frame_addr_iff width_ok_def bit_entry_address)

definition flags_ok :: "u16 \<Rightarrow> bool" where
  "flags_ok fl \<longleftrightarrow> fl AND 1 = 1 \<and> drop_bit 12 fl = 0"

lemma flags_bits:
  assumes "flags_ok fl"
  shows "bit fl 0" "n \<ge> 12 \<Longrightarrow> \<not> bit fl n"
proof -
  show "bit fl 0" using assms by (simp add: flags_ok_def and_one_eq bit_0 odd_iff_mod_2_eq_one)
  show "\<not> bit fl n" if "n \<ge> 12"
  proof -
    have "bit (drop_bit 12 fl) (n - 12) = bit fl n" using that by (simp add: bit_drop_bit_eq)
    then show ?thesis using assms by (simp add: flags_ok_def)
  qed
qed

lemma entry_address_flags:
  assumes "width_ok w" and "frame_addr w p" and "flags_ok fl"
  shows "entry_address w (p OR ucast fl) = p"
proof (rule bit_word_eqI)
  fix n :: nat assume "n < LENGTH(64)"
  then show "bit (entry_address w (p OR ucast fl)) n = bit p n"
    using assms flags_bits [OF assms(3)] unfolding frame_addr_iff [OF assms(1)]
    by (auto simp: bit_entry_address width_ok_def bit_or_iff bit_ucast_iff)
qed

lemma present_iff: "is_present e \<longleftrightarrow> bit (native_entry e) 0"
  by (simp add: is_present_def bit_check_def and_one_eq bit_0 odd_iff_mod_2_eq_one)

lemma present_flags: "flags_ok fl \<Longrightarrow> bit (p OR ucast fl :: u64) 0"
  using flags_bits(1) [of fl] by (simp add: bit_or_iff bit_ucast_iff)

lemma bit_to_canonical_form:
  assumes "n < 48"
  shows "bit (to_canonical_form v) n = bit v n"
proof -
  have m: "bit MASK_ADDRESS n"
  proof -
    have "bit (mask 48 :: u64) n" using assms by (simp add: bit_mask_iff del: mask_numeral)
    moreover have "MASK_ADDRESS = mask 48" by (simp add: MASK_ADDRESS_def mask_eq_exp_minus_1)
    ultimately show ?thesis by (simp only:)
  qed
  show ?thesis using assms m by (simp add: to_canonical_form_def bit_simps)
qed

lemma physical_to_virtual_inj:
  assumes "width_ok w" and "frame_addr w p" and "frame_addr w q"
    and "physical_to_virtual_address p = physical_to_virtual_address q"
  shows "p = q"
proof -
  have low: "bit (p + HHDM_BEGIN) n = bit (q + HHDM_BEGIN) n" if "n < 48" for n
    using assms(4) bit_to_canonical_form [OF that, of "p + HHDM_BEGIN"]
      bit_to_canonical_form [OF that, of "q + HHDM_BEGIN"]
    by (simp add: physical_to_virtual_address_def)
  have "push_bit 16 (p + HHDM_BEGIN) = push_bit 16 (q + HHDM_BEGIN)"
    by (rule bit_word_eqI) (auto simp: bit_push_bit_iff low)
  then have shifted: "push_bit 16 p = push_bit 16 q" by (simp add: push_bit_eq_mult distrib_right)
  show ?thesis
  proof (rule bit_word_eqI)
    fix n :: nat assume "n < LENGTH(64)"
    have "bit (push_bit 16 p) (n + 16) = bit (push_bit 16 q) (n + 16)" by (simp only: shifted)
    then show "bit p n = bit q n"
      using assms(1-3) by (cases "n < 48") (auto simp: bit_push_bit_iff frame_addr_iff width_ok_def)
  qed
qed

section \<open>The tree of tables\<close>

type_synonym table_memory = "virtual_addr \<Rightarrow> u16 \<Rightarrow> u64"

definition lookup_entry :: "u8 \<Rightarrow> table_memory \<Rightarrow> physical_addr \<Rightarrow> u16 \<Rightarrow> physical_addr option" where
  "lookup_entry w M a i =
     (let e = M (physical_to_virtual_address a) i
      in if i < PT_MAX_SIZE \<and> bit e 0 then Some (entry_address w e) else None)"

fun descend :: "u8 \<Rightarrow> table_memory \<Rightarrow> physical_addr \<Rightarrow> u16 list \<Rightarrow> physical_addr option" where
  "descend w M a [] = Some a"
| "descend w M a (i # is) = Option.bind (lookup_entry w M a i) (\<lambda>b. descend w M b is)"

lemma descend_append:
  "descend w M a (is @ js) = Option.bind (descend w M a is) (\<lambda>b. descend w M b js)"
  by (induction "is" arbitrary: a) (auto split: bind_split)

lemma descend_snoc:
  "descend w M a (is @ [i]) = Option.bind (descend w M a is) (\<lambda>b. lookup_entry w M b i)"
  by (simp add: descend_append)

lemma descend_frame_addr:
  assumes "width_ok w" and "frame_addr w r" and "descend w M r is = Some a"
  shows "frame_addr w a"
  using assms(2,3)
proof (induction "is" arbitrary: r)
  case (Cons i "is")
  then obtain b where b: "lookup_entry w M r i = Some b" "descend w M b is = Some a"
    by (auto split: bind_splits)
  then have "frame_addr w b"
    using frame_addr_entry_address [OF assms(1)] by (auto simp: lookup_entry_def Let_def split: if_splits)
  with b(2) show ?case using Cons.IH by blast
qed simp

definition table_frames :: "u8 \<Rightarrow> table_memory \<Rightarrow> physical_addr \<Rightarrow> physical_addr set" where
  "table_frames w M r = {a. \<exists>is. length is < 4 \<and> descend w M r is = Some a}"

text \<open>No table is reached on two paths.\<close>

definition tree :: "u8 \<Rightarrow> table_memory \<Rightarrow> physical_addr \<Rightarrow> bool" where
  "tree w M r \<longleftrightarrow> (\<forall>is js a. length is < 4 \<longrightarrow> length js < 4 \<longrightarrow>
     descend w M r is = Some a \<longrightarrow> descend w M r js = Some a \<longrightarrow> is = js)"

lemma treeD:
  "tree w M r \<Longrightarrow> descend w M r is = Some a \<Longrightarrow> descend w M r js = Some a \<Longrightarrow>
   length is < 4 \<Longrightarrow> length js < 4 \<Longrightarrow> is = js"
  by (simp add: tree_def)

definition set_entry :: "table_memory \<Rightarrow> physical_addr \<Rightarrow> u16 \<Rightarrow> u64 \<Rightarrow> table_memory" where
  "set_entry M a i e = M(physical_to_virtual_address a := (M (physical_to_virtual_address a))(i := e))"

lemma lookup_set_entry:
  assumes "width_ok w" and "frame_addr w a" and "frame_addr w b"
  shows "lookup_entry w (set_entry M a i e) b j =
    (if b = a \<and> j = i then (if i < PT_MAX_SIZE \<and> bit e 0 then Some (entry_address w e) else None)
     else lookup_entry w M b j)"
  using physical_to_virtual_inj [OF assms(1), of b a] assms
  by (auto simp: lookup_entry_def set_entry_def Let_def)

text \<open>Writing one entry changes the tree below this entry and nothing else.\<close>

lemma descend_set_entry:
  assumes "width_ok w" and "frame_addr w r" and "tree w M r" and "descend w M r pre = Some a"
    and "length pre < 4" and "length is \<le> 4" and "\<not> prefix (pre @ [i]) is"
  shows "descend w (set_entry M a i e) r is = descend w M r is"
  using assms(6,7)
proof (induction "is" rule: rev_induct)
  case (snoc j js)
  have np: "\<not> prefix (pre @ [i]) js" using snoc.prems(2) by (simp add: prefix_snoc)
  have IH: "descend w (set_entry M a i e) r js = descend w M r js"
    using snoc.IH snoc.prems(1) np by simp
  show ?case
  proof (cases "descend w M r js")
    case (Some b)
    have fa: "frame_addr w a" "frame_addr w b"
      using descend_frame_addr [OF assms(1,2)] assms(4) Some by auto
    have "\<not> (b = a \<and> j = i)"
    proof
      assume "b = a \<and> j = i"
      moreover then have "js = pre"
        using treeD [OF assms(3), of js a pre] Some assms(4,5) snoc.prems(1) by simp
      ultimately show False using snoc.prems(2) by simp
    qed
    then have "lookup_entry w (set_entry M a i e) b j = lookup_entry w M b j"
      by (subst lookup_set_entry [OF assms(1) fa]) auto
    then show ?thesis by (simp add: descend_snoc IH Some)
  qed (simp add: descend_snoc IH)
qed simp

lemma descend_at_entry:
  assumes "width_ok w" and "frame_addr w r" and "tree w M r" and "descend w M r pre = Some a"
    and "length pre < 4" and "i < PT_MAX_SIZE"
  shows "descend w (set_entry M a i e) r (pre @ i # rest) =
    (if bit e 0 then descend w (set_entry M a i e) (entry_address w e) rest else None)"
proof -
  have "descend w (set_entry M a i e) r pre = Some a"
    using descend_set_entry [OF assms(1-5), of pre i e] assms(4,5)
    by (metis length_append_singleton not_less_eq_eq order_refl prefix_length_le less_imp_le)
  moreover have "frame_addr w a" by (rule descend_frame_addr [OF assms(1,2,4)])
  ultimately show ?thesis using assms(6) by (simp add: descend_append lookup_set_entry [OF assms(1)])
qed

definition set_table :: "table_memory \<Rightarrow> physical_addr \<Rightarrow> (u16 \<Rightarrow> u64) \<Rightarrow> table_memory" where
  "set_table M p z = M(physical_to_virtual_address p := z)"

lemma lookup_set_table:
  assumes "width_ok w" and "frame_addr w b" and "frame_addr w p" and "b \<noteq> p"
  shows "lookup_entry w (set_table M p z) b j = lookup_entry w M b j"
  using physical_to_virtual_inj [OF assms(1-3)] assms(4)
  by (auto simp: lookup_entry_def set_table_def)

lemma descend_set_table:
  assumes "width_ok w" and "frame_addr w r" and "frame_addr w p" and "p \<notin> table_frames w M r"
    and "length is \<le> 4"
  shows "descend w (set_table M p z) r is = descend w M r is"
  using assms(5)
proof (induction "is" rule: rev_induct)
  case (snoc j js)
  have IH: "descend w (set_table M p z) r js = descend w M r js"
    using snoc by simp
  show ?case
  proof (cases "descend w M r js")
    case (Some b)
    have "length js < 4" using snoc.prems by simp
    with Some have "b \<in> table_frames w M r" unfolding table_frames_def by blast
    then have "b \<noteq> p" using assms(4) by auto
    then show ?thesis
      by (simp add: descend_snoc IH Some
          lookup_set_table [OF assms(1) descend_frame_addr [OF assms(1,2) Some] assms(3)])
  qed (simp add: descend_snoc IH)
qed simp

section \<open>What the walk of the code sees\<close>

abbreviation root_of :: "'s paging \<Rightarrow> page_table \<Rightarrow> physical_addr" where
  "root_of s base \<equiv> entry_address (width s) (pt_npte base)"

definition base_ok :: "'s paging \<Rightarrow> page_table \<Rightarrow> bool" where
  "base_ok s base \<longleftrightarrow> width_ok (width s) \<and> pt_level base = 4 \<and>
     pt_ptr base = physical_to_virtual_address (root_of s base)"

definition page_path :: "virtual_addr \<Rightarrow> u16 list" where
  "page_path v = [level_index v 3, level_index v 2, level_index v 1, level_index v 0]"

text \<open>The address that the page of \<open>v\<close> is mapped to.\<close>

definition mapped :: "'s paging \<Rightarrow> page_table \<Rightarrow> virtual_addr \<Rightarrow> physical_addr option" where
  "mapped s base v = descend (width s) (tables s) (root_of s base) (page_path v)"

lemma pt_index_less: "pt_index v n < PT_MAX_SIZE"
proof -
  have "(drop_bit n v AND 0x1FF :: u64) \<le> 0x1FF" by (rule word_and_le1)
  then have "unat (drop_bit n v AND 0x1FF :: u64) < 512" by (simp add: word_le_nat_alt)
  then show ?thesis
    by (simp add: pt_index_def PT_MAX_SIZE_def word_less_nat_alt unsigned_ucast_eq take_bit_nat_eq_self)
qed

lemma level_index_less [simp]: "level_index v i < PT_MAX_SIZE" "\<not> PT_MAX_SIZE \<le> level_index v i"
  using pt_index_less [of v "12 + 9 * i"] by (auto simp: level_index_def not_le)

lemma level_index_eqs:
  "pt_index v 39 = level_index v 3" "pt_index v 30 = level_index v 2"
  "pt_index v 21 = level_index v 1" "pt_index v 12 = level_index v 0"
  by (simp_all add: level_index_def)

lemma length_page_path [simp]: "length (page_path v) = 4"
  by (simp add: page_path_def)

lemma path_step:
  assumes "i \<le> 3"
  shows "take (4 - i) (page_path v) = take (3 - i) (page_path v) @ [level_index v i]"
proof -
  consider "i = 0" | "i = 1" | "i = 2" | "i = 3" using assms by linarith
  then show ?thesis by cases (simp_all add: page_path_def take_Cons' numeral_eq_Suc)
qed

text \<open>The table of level \<open>i\<close> on the path of \<open>v\<close>; level 4 is the base table, level 0 the page.\<close>

definition table_on_path :: "u8 \<Rightarrow> table_memory \<Rightarrow> physical_addr \<Rightarrow> virtual_addr \<Rightarrow> nat \<Rightarrow> physical_addr option" where
  "table_on_path w M r v i = descend w M r (take (4 - i) (page_path v))"

lemma table_on_path_4 [simp]: "table_on_path w M r v 4 = Some r"
  by (simp add: table_on_path_def)

lemma table_on_path_0: "table_on_path w M r v 0 = descend w M r (page_path v)"
  by (simp add: table_on_path_def)

lemma table_on_path_step:
  "i \<le> 3 \<Longrightarrow> table_on_path w M r v i =
    Option.bind (table_on_path w M r v (Suc i)) (\<lambda>a. lookup_entry w M a (level_index v i))"
  by (simp add: table_on_path_def path_step descend_snoc)

lemma table_on_path_up:
  assumes "table_on_path w M r v i = Some a" and "i \<le> j" and "j \<le> 4"
  shows "\<exists>b. table_on_path w M r v j = Some b"
  using assms(2,3)
proof (induction j rule: dec_induct)
  case (step n)
  then show ?case using table_on_path_step [of n w M r v] by (auto split: bind_splits)
qed (use assms(1) in blast)

text \<open>The path that the code records agrees with the tree from level \<open>i\<close> upwards.\<close>

definition path_agrees :: "'s paging \<Rightarrow> physical_addr \<Rightarrow> virtual_addr \<Rightarrow> page_table_access \<Rightarrow> nat \<Rightarrow> bool" where
  "path_agrees s r v pta i \<longleftrightarrow> length (path pta) = 5 \<and>
     (\<forall>j. i \<le> j \<and> j \<le> 4 \<longrightarrow>
       table_on_path (width s) (tables s) r v j = Some (get_address (width s) (path pta ! j)))"

lemma path_agreesD:
  "path_agrees s r v pta i \<Longrightarrow> i \<le> j \<Longrightarrow> j \<le> 4 \<Longrightarrow>
   table_on_path (width s) (tables s) r v j = Some (get_address (width s) (path pta ! j))"
  by (simp add: path_agrees_def)

definition walk_result :: "'s paging \<Rightarrow> physical_addr \<Rightarrow> virtual_addr \<Rightarrow> page_table_access \<Rightarrow> bool" where
  "walk_result s r v pta \<longleftrightarrow>
     (case table_on_path (width s) (tables s) r v 0 of
        Some f \<Rightarrow> status pta = OKAY \<and> level pta = 0 \<and> path_agrees s r v pta 0 \<and>
          physical_address pta = f + (v AND PAGE_FRAME_OFFSET_MASK)
      | None \<Rightarrow> \<exists>l \<le> 3. status pta = PAGE_TABLE_ENTRY_MISSING \<and> level pta = of_nat l \<and>
          path_agrees s r v pta (Suc l) \<and> table_on_path (width s) (tables s) r v l = None)"

lemma walk_loop_finish:
  "walk_loop s v 3 pt pte pta =
     pta\<lparr>status := OKAY, level := pt_level pt, path := (path pta)[0 := pte],
         physical_address := get_address (width s) pte + (v AND PAGE_FRAME_OFFSET_MASK)\<rparr>"
  by (simp add: walk_loop.simps [of s v 3])

lemma path_agrees_extend:
  assumes "path_agrees s r v pta (Suc i)" and "i \<le> 3"
    and "table_on_path (width s) (tables s) r v i = Some (get_address (width s) e)"
  shows "path_agrees s r v (pta\<lparr>path := (path pta)[i := e]\<rparr>) i"
  unfolding path_agrees_def
proof (intro conjI allI impI)
  show "length (path (pta\<lparr>path := (path pta)[i := e]\<rparr>)) = 5"
    using assms(1) by (simp add: path_agrees_def)
  fix j assume j: "i \<le> j \<and> j \<le> 4"
  then show "table_on_path (width s) (tables s) r v j =
      Some (get_address (width s) (path (pta\<lparr>path := (path pta)[i := e]\<rparr>) ! j))"
    using assms path_agreesD [OF assms(1), of j]
    by (cases "j = i") (simp_all add: path_agrees_def nth_list_update)
qed

lemma path_agrees_cong:
  "path pta = path pta' \<Longrightarrow> path_agrees s r v pta i = path_agrees s r v pta' i"
  by (simp add: path_agrees_def)

lemma walk_loop_spec:
  assumes "i \<le> 3" and "table_on_path (width s) (tables s) r v (Suc i) = Some a"
    and "pt_ptr pt = physical_to_virtual_address a" and "pt_level pt = of_nat (Suc i)"
    and "path_agrees s r v pta (Suc i)"
  shows "walk_result s r v (walk_loop s v (of_nat (12 + 9 * i)) pt pte pta)"
  using assms
proof (induction i arbitrary: a pt pte pta)
  case (0 a pt pte pta)
  define e where "e = \<lparr>native_entry = tables s (pt_ptr pt) (level_index v 0), pte_level = (0::u8)\<rparr>"
  have get: "pt_get s pt (level_index v 0) = e" by (simp add: pt_get_def e_def 0)
  have tab: "table_on_path (width s) (tables s) r v 0 = (if is_present e then Some (get_address (width s) e) else None)"
    using 0 by (simp add: table_on_path_step lookup_entry_def e_def present_iff)
  let ?pta = "pta\<lparr>path := (path pta)[0 := e]\<rparr>"
  have run: "walk_loop s v 12 pt pte pta =
      (if is_present e then walk_loop s v 3 (entry_as_page_table s pt (level_index v 0)) e ?pta
       else ?pta\<lparr>status := PAGE_TABLE_ENTRY_MISSING, level := 0\<rparr>)"
    by (simp add: walk_loop.simps [of s v 12] level_index_eqs get) (simp add: e_def)
  show ?case
  proof (cases "is_present e")
    case True
    have "path_agrees s r v ?pta 0"
      by (rule path_agrees_extend) (use 0 tab True in simp_all)
    then have "path_agrees s r v (?pta\<lparr>status := OKAY, level := 0, path := (path ?pta)[0 := e],
        physical_address := get_address (width s) e + (v AND PAGE_FRAME_OFFSET_MASK)\<rparr>) 0"
      by (simp add: path_agrees_def)
    then show ?thesis
      using True 0 by (simp add: walk_result_def run tab walk_loop_finish entry_as_page_table_def Let_def)
  next
    case False
    have "path_agrees s r v (?pta\<lparr>status := PAGE_TABLE_ENTRY_MISSING, level := 0\<rparr>) (Suc 0)"
      using 0(5) by (auto simp: path_agrees_def nth_list_update)
    with False show ?thesis by (simp add: walk_result_def run tab exI [of _ 0])
  qed
next
  case (Suc i a pt pte pta)
  define e where "e = \<lparr>native_entry = tables s (pt_ptr pt) (level_index v (Suc i)), pte_level = (of_nat (Suc i)::u8)\<rparr>"
  have get: "pt_get s pt (level_index v (Suc i)) = e" by (simp add: pt_get_def e_def Suc.prems)
  have tab: "table_on_path (width s) (tables s) r v (Suc i) = (if is_present e then Some (get_address (width s) e) else None)"
    using Suc.prems by (simp add: table_on_path_step [of "Suc i"] lookup_entry_def e_def present_iff)
  let ?pta = "pta\<lparr>path := (path pta)[Suc i := e]\<rparr>"
  have iv: "i = 0 \<or> i = 1 \<or> i = 2" using Suc.prems by linarith
  then have sh: "(12::u8) \<le> of_nat (12 + 9 * Suc i)" "(of_nat (12 + 9 * Suc i) :: u8) - 9 = of_nat (12 + 9 * i)"
    "unat (of_nat (12 + 9 * Suc i) :: u8) = 12 + 9 * Suc i" "unat (of_nat (Suc i) :: u8) = Suc i" by auto
  have run: "walk_loop s v (of_nat (12 + 9 * Suc i)) pt pte pta =
      (if is_present e then walk_loop s v (of_nat (12 + 9 * i)) (entry_as_page_table s pt (level_index v (Suc i))) e ?pta
       else ?pta\<lparr>status := PAGE_TABLE_ENTRY_MISSING, level := of_nat (Suc i)\<rparr>)"
  proof -
    have "pt_index v (unat (of_nat (12 + 9 * Suc i) :: u8)) = level_index v (Suc i)"
      by (simp only: sh(3) level_index_def)
    moreover have "unat (pte_level e) = Suc i" "pte_level e = of_nat (Suc i)" using sh(4) by (simp_all add: e_def)
    ultimately show ?thesis
      by (subst walk_loop.simps, cases "is_present e") (simp_all only: sh(1,2) get Let_def if_True if_False simp_thms)
  qed
  show ?case
  proof (cases "is_present e")
    case True
    have "path_agrees s r v ?pta (Suc i)"
      by (rule path_agrees_extend) (use Suc.prems tab True in simp_all)
    then have "walk_result s r v (walk_loop s v (of_nat (12 + 9 * i)) (entry_as_page_table s pt (level_index v (Suc i))) e ?pta)"
      using Suc.prems tab True by (intro Suc.IH) (simp_all add: entry_as_page_table_def get)
    then show ?thesis using True run by simp
  next
    case False
    have "path_agrees s r v (?pta\<lparr>status := PAGE_TABLE_ENTRY_MISSING, level := of_nat (Suc i)\<rparr>) (Suc (Suc i))"
      using Suc.prems(5) by (auto simp: path_agrees_def nth_list_update)
    moreover have "table_on_path (width s) (tables s) r v 0 = None"
      using table_on_path_up [of "width s" "tables s" r v 0 _ "Suc i"] Suc.prems(1) tab False
      by (cases "table_on_path (width s) (tables s) r v 0") auto
    ultimately have "walk_result s r v (?pta\<lparr>status := PAGE_TABLE_ENTRY_MISSING, level := of_nat (Suc i)\<rparr>)"
      using False Suc.prems(1) tab unfolding walk_result_def by (simp del: of_nat_Suc) (rule exI [of _ "Suc i"], simp)
    with False show ?thesis by (simp only: run if_False)
  qed
qed

lemma access_spec:
  assumes "base_ok s base"
  shows "walk_result s (root_of s base) v (access_page_hierarchy s base v)"
proof -
  have "walk_result s (root_of s base) v (walk_loop s v (of_nat (12 + 9 * 3)) base bad_entry
       (new_access\<lparr>path := (path new_access)[4 := to_page_table_entry base]\<rparr>))"
  proof (rule walk_loop_spec)
    have "j = 4" if "Suc 3 \<le> j \<and> j \<le> 4" for j :: nat using that by simp
    then show "path_agrees s (root_of s base) v (new_access\<lparr>path := (path new_access)[4 := to_page_table_entry base]\<rparr>) (Suc 3)"
      unfolding path_agrees_def by (fastforce simp: new_access_def to_page_table_entry_def)
    show "table_on_path (width s) (tables s) (root_of s base) v (Suc 3) = Some (root_of s base)"
      by (simp add: table_on_path_def)
    show "pt_ptr base = physical_to_virtual_address (root_of s base)" "pt_level base = of_nat (Suc 3)"
      using assms by (simp_all add: base_ok_def)
  qed simp
  moreover have "(of_nat (12 + 9 * 3) :: u8) = 39" by simp
  ultimately show ?thesis by (simp only: access_page_hierarchy_def)
qed

section \<open>Address spaces as partial maps\<close>

text \<open>
  \<open>space_map\<close> is the abstract value of an address space: index paths of length below four lead to
  tables, paths of length four to pages. Writing an entry prunes or extends this map.
\<close>

type_synonym space_map = "u16 list \<Rightarrow> physical_addr option"

definition space_map :: "u8 \<Rightarrow> table_memory \<Rightarrow> physical_addr \<Rightarrow> space_map" where
  "space_map w M r is = (if length is \<le> 4 then descend w M r is else None)"

definition prune :: "u16 list \<Rightarrow> space_map \<Rightarrow> space_map" where
  "prune q D is = (if prefix q is then None else D is)"

abbreviation level_path :: "virtual_addr \<Rightarrow> nat \<Rightarrow> u16 list" where
  "level_path v i \<equiv> take (4 - i) (page_path v)"

definition map_tables :: "space_map \<Rightarrow> physical_addr set" where
  "map_tables D = {a. \<exists>is. length is < 4 \<and> D is = Some a}"

definition map_tree :: "space_map \<Rightarrow> bool" where
  "map_tree D \<longleftrightarrow> (\<forall>is js a. length is < 4 \<longrightarrow> length js < 4 \<longrightarrow> D is = Some a \<longrightarrow> D js = Some a \<longrightarrow> is = js)"

lemma space_map_short: "length is < 4 \<Longrightarrow> space_map w M r is = descend w M r is"
  by (simp add: space_map_def)

lemma map_tree_iff: "tree w M r \<longleftrightarrow> map_tree (space_map w M r)"
  unfolding tree_def map_tree_def by (simp add: space_map_short cong: imp_cong)

lemma map_tables_iff: "table_frames w M r = map_tables (space_map w M r)"
  unfolding table_frames_def map_tables_def by (simp add: space_map_short cong: conj_cong)

lemma map_treeD:
  "map_tree D \<Longrightarrow> D is = Some a \<Longrightarrow> D js = Some a \<Longrightarrow> length is < 4 \<Longrightarrow> length js < 4 \<Longrightarrow> is = js"
  by (simp add: map_tree_def)

lemma map_tree_prune: "map_tree D \<Longrightarrow> map_tree (prune q D)"
  unfolding map_tree_def prune_def by (metis option.distinct(1))

lemma map_tree_update:
  assumes "map_tree D" and "p \<notin> map_tables D"
  shows "map_tree (D(q \<mapsto> p))"
  unfolding map_tree_def
proof (intro allI impI)
  fix "is" js a
  assume h: "length is < 4" "length js < 4" "(D(q \<mapsto> p)) is = Some a" "(D(q \<mapsto> p)) js = Some a"
  have new: "D ks \<noteq> Some p" if "length ks < 4" for ks using assms(2) that by (auto simp: map_tables_def)
  show "is = js"
    using map_treeD [OF assms(1), of "is" a js] new [OF h(1)] new [OF h(2)] h
    by (cases "is = q"; cases "js = q") auto
qed

lemma map_tables_update:
  assumes "length q < 4" and "D q = None"
  shows "map_tables (D(q \<mapsto> p)) = insert p (map_tables D)"
proof (intro equalityI subsetI)
  fix a assume "a \<in> insert p (map_tables D)"
  then consider "a = p" | "is" where "length is < 4" "D is = Some a" by (auto simp: map_tables_def)
  then show "a \<in> map_tables (D(q \<mapsto> p))"
  proof cases
    case (2 "is")
    then have "(D(q \<mapsto> p)) is = Some a" using assms(2) by (cases "is = q") auto
    with 2 show ?thesis unfolding map_tables_def by blast
  qed (use assms(1) in \<open>auto simp: map_tables_def\<close>)
qed (auto simp: map_tables_def split: if_splits)

lemma map_update_leaf:
  assumes "length q = 4"
  shows "map_tables (D(q \<mapsto> f)) = map_tables D" "map_tree (D(q \<mapsto> f)) = map_tree D"
proof -
  have "(D(q \<mapsto> f)) is = D is" if "length is < 4" for "is" using assms that by auto
  then show "map_tables (D(q \<mapsto> f)) = map_tables D" "map_tree (D(q \<mapsto> f)) = map_tree D"
    unfolding map_tables_def map_tree_def by (simp_all cong: conj_cong imp_cong del: fun_upd_apply)
qed

lemma map_tables_prune:
  assumes "map_tree D" and "D q = Some p" and "length q < 4"
  shows "map_tables (prune q D) \<subseteq> map_tables D - {p}"
  using map_treeD [OF assms(1) _ assms(2) _ assms(3)] unfolding map_tables_def prune_def
  by (auto split: if_splits)

lemma map_tables_mono: "D' \<subseteq>\<^sub>m D \<Longrightarrow> map_tables D' \<subseteq> map_tables D"
  unfolding map_tables_def map_le_def by (force simp: dom_def)

lemma map_tables_prune_leaf: "map_tables (prune q D) \<subseteq> map_tables D"
  unfolding map_tables_def prune_def by (auto split: if_splits)

lemma table_on_path_map: "table_on_path w M r v i = space_map w M r (level_path v i)"
  by (simp add: table_on_path_def space_map_def)

lemma length_level_path [simp]: "length (level_path v i) = 4 - i"
  by simp

lemma level_path_inj: "level_path v i = level_path v j \<Longrightarrow> i \<le> 4 \<Longrightarrow> j \<le> 4 \<Longrightarrow> i = j"
  by (drule arg_cong [of _ _ length]) simp

lemma prefix_level_path: "j \<le> i \<Longrightarrow> prefix (level_path v i) (level_path v j)"
  by (metis diff_le_mono2 min.absorb1 take_is_prefix take_take)

lemma prefix_level_path_iff: "i \<le> 4 \<Longrightarrow> j \<le> 4 \<Longrightarrow> prefix (level_path v i) (level_path v j) \<longleftrightarrow> j \<le> i"
proof
  assume "i \<le> 4" "j \<le> 4" "prefix (level_path v i) (level_path v j)"
  then show "j \<le> i" using prefix_length_le by fastforce
qed (rule prefix_level_path)

lemma space_map_below:
  assumes "space_map w M r q = None" and "prefix q is"
  shows "space_map w M r is = None"
proof -
  obtain rest where "is = q @ rest" using assms(2) by (auto simp: prefix_def)
  then show ?thesis using assms(1) by (auto simp: space_map_def descend_append split: if_splits)
qed

text \<open>Clearing an entry prunes the map at the entry.\<close>

lemma space_map_clear:
  assumes "width_ok w" and "frame_addr w r" and "tree w M r" and "i \<le> 3"
    and "table_on_path w M r v (Suc i) = Some a"
  shows "space_map w (set_entry M a (level_index v i) 0) r = prune (level_path v i) (space_map w M r)"
proof
  fix "is"
  have q: "level_path v i = take (3 - i) (page_path v) @ [level_index v i]" by (rule path_step [OF assms(4)])
  have pre: "descend w M r (take (3 - i) (page_path v)) = Some a"
    using assms(5) by (simp add: table_on_path_def)
  have len: "length (take (3 - i) (page_path v)) < 4" by simp
  note at = descend_at_entry [OF assms(1-3) pre len level_index_less(1) [of v i]]
  note off = descend_set_entry [OF assms(1-3) pre len]
  show "space_map w (set_entry M a (level_index v i) 0) r is = prune (level_path v i) (space_map w M r) is"
  proof (cases "prefix (level_path v i) is")
    case True
    then obtain rest where "is = take (3 - i) (page_path v) @ level_index v i # rest"
      by (auto simp: q prefix_def)
    then show ?thesis using at [of 0 rest] True by (simp add: space_map_def prune_def)
  next
    case False
    then show ?thesis using off [of "is"] by (simp add: space_map_def prune_def q)
  qed
qed

text \<open>Linking a zeroed fresh frame adds exactly this table to the map; the page entry adds the page.\<close>

lemma space_map_leaf:
  assumes "width_ok w" and "frame_addr w r" and "tree w M r"
    and "table_on_path w M r v 1 = Some a" and "bit e 0"
  shows "space_map w (set_entry M a (level_index v 0) e) r = (space_map w M r)(page_path v \<mapsto> entry_address w e)"
proof
  fix "is"
  have q: "page_path v = take 3 (page_path v) @ [level_index v 0]" using path_step [of 0 v] by simp
  have pre: "descend w M r (take 3 (page_path v)) = Some a"
    using assms(4) by (simp add: table_on_path_def)
  have len: "length (take 3 (page_path v)) < 4" by simp
  note at = descend_at_entry [OF assms(1-3) pre len level_index_less(1) [of v 0]]
  note off = descend_set_entry [OF assms(1-3) pre len]
  show "space_map w (set_entry M a (level_index v 0) e) r is = ((space_map w M r)(page_path v \<mapsto> entry_address w e)) is"
  proof (cases "prefix (page_path v) is \<and> length is \<le> 4")
    case True
    then have "is = page_path v" by (auto simp: prefix_def)
    moreover have "descend w (set_entry M a (level_index v 0) e) r (page_path v) = Some (entry_address w e)"
      by (subst q) (simp add: at assms(5))
    ultimately show ?thesis by (simp add: space_map_def)
  next
    case False
    then show ?thesis using off [of "is" "level_index v 0" e] q by (auto simp: space_map_def)
  qed
qed

lemma space_map_set_table:
  assumes "width_ok w" and "frame_addr w r" and "frame_addr w p" and "p \<notin> table_frames w M r"
  shows "space_map w (set_table M p z) r = space_map w M r"
  by (rule ext) (simp add: space_map_def descend_set_table [OF assms])

lemma space_map_link:
  assumes "width_ok w" and "frame_addr w r" and "tree w M r" and "i \<le> 3"
    and "table_on_path w M r v (Suc i) = Some a" and "table_on_path w M r v i = None"
    and "frame_addr w p" and "p \<notin> table_frames w M r" and "bit e 0" and "entry_address w e = p"
  shows "space_map w (set_entry (set_table M p (\<lambda>_. 0)) a (level_index v i) e) r =
    (space_map w M r)(level_path v i \<mapsto> p)"
proof
  fix "is"
  let ?M = "set_table M p (\<lambda>_. 0)" and ?pre = "take (3 - i) (page_path v)"
  let ?M' = "set_entry ?M a (level_index v i) e"
  have q: "level_path v i = ?pre @ [level_index v i]" by (rule path_step [OF assms(4)])
  note D = space_map_set_table [OF assms(1,2,7,8), of "\<lambda>_. 0"]
  have tr: "tree w ?M r" using assms(3) by (simp only: map_tree_iff D)
  have "descend w M r ?pre = Some a" using assms(5) by (simp add: table_on_path_def)
  then have pre: "descend w ?M r ?pre = Some a" "descend w M r ?pre = Some a"
    by (simp_all add: descend_set_table [OF assms(1,2,7,8)])
  have len: "length ?pre < 4" by simp
  note at = descend_at_entry [OF assms(1,2) tr pre(1) len level_index_less(1) [of v i]]
  note off = descend_set_entry [OF assms(1,2) tr pre(1) len]
  have ap: "a \<noteq> p" using assms(8) pre(2) len by (auto simp: table_frames_def)
  have fa: "frame_addr w a" by (rule descend_frame_addr [OF assms(1,2) pre(1)])
  have none: "lookup_entry w ?M' p j = None" for j
    using ap by (subst lookup_set_entry [OF assms(1) fa assms(7)]) (simp add: lookup_entry_def set_table_def)
  show "space_map w ?M' r is = ((space_map w M r)(level_path v i \<mapsto> p)) is"
  proof (cases "prefix (level_path v i) is")
    case True
    then obtain rest where rest: "is = ?pre @ level_index v i # rest" by (auto simp: q prefix_def)
    have below: "space_map w M r is = None"
      by (rule space_map_below [OF _ True]) (use assms(6) in \<open>simp add: table_on_path_map\<close>)
    have "descend w ?M' r is = descend w ?M' p rest" using at [of e rest] rest assms(9,10) by simp
    then show ?thesis using rest q below none by (cases rest) (auto simp: space_map_def)
  next
    case False
    then have "is \<noteq> level_path v i" by auto
    with False show ?thesis using off [of "is" "level_index v i" e]
      by (simp add: space_map_def q descend_set_table [OF assms(1,2,7,8)])
  qed
qed

section \<open>The contract of the frame allocator\<close>

text \<open>
  What paging relies on: \<open>avail\<close> are the frames that the allocator may hand out, \<open>owned\<close> those that it
  handed out and takes back.
\<close>

locale frame_allocator =
  fixes w :: u8 and ops :: "'s pmm_ops" and fok :: "'s \<Rightarrow> bool"
    and avail :: "'s \<Rightarrow> physical_addr set" and owned :: "'s \<Rightarrow> physical_addr set"
  assumes width: "fok s \<Longrightarrow> width_ok w"
    and alloc: "fok s \<Longrightarrow>
      (\<exists>s' p. op_allocate ops s = Some (s', Some p) \<and> fok s' \<and> p \<in> avail s \<and>
         avail s' = avail s - {p} \<and> owned s' = insert p (owned s)) \<or>
      (op_allocate ops s = Some (s, None) \<and> avail s = {})"
    and release: "fok s \<Longrightarrow> p \<in> owned s \<Longrightarrow>
      \<exists>s'. op_free ops s p = Some (s', True) \<and> fok s' \<and>
         avail s' = insert p (avail s) \<and> owned s' = owned s - {p}"
    and disjoint: "fok s \<Longrightarrow> avail s \<inter> owned s = {}"
    and frame: "fok s \<Longrightarrow> p \<in> avail s \<Longrightarrow> frame_addr w p"

text \<open>
  A sound address space: its tables form a tree of frames that the allocator handed out.
\<close>

definition space_ok ::
  "u8 \<Rightarrow> ('s \<Rightarrow> bool) \<Rightarrow> ('s \<Rightarrow> physical_addr set) \<Rightarrow> physical_addr \<Rightarrow> 's paging \<Rightarrow> bool" where
  "space_ok w fok owned r s \<longleftrightarrow> width s = w \<and> frame_addr w r \<and> map_tree (space_map w (tables s) r) \<and>
     fok (frames s) \<and> map_tables (space_map w (tables s) r) \<subseteq> owned (frames s)"

lemma space_okD:
  assumes "space_ok w fok owned r s"
  shows "width s = w" "frame_addr w r" "map_tree (space_map w (tables s) r)" "tree w (tables s) r"
    "fok (frames s)" "map_tables (space_map w (tables s) r) \<subseteq> owned (frames s)"
  using assms by (simp_all add: space_ok_def map_tree_iff)

abbreviation smap :: "physical_addr \<Rightarrow> 's paging \<Rightarrow> space_map" where
  "smap r s \<equiv> space_map (width s) (tables s) r"

lemma update_path_table:
  assumes "path_agrees s r v pta (Suc i)" and "i \<le> 3"
    and "table_on_path (width s) (tables s) r v (Suc i) = Some a"
  shows "pt_update s (path_table s pta (Suc i)) (level_index v i) e =
    s\<lparr>tables := set_entry (tables s) a (level_index v i) e\<rparr>"
  using path_agreesD [OF assms(1), of "Suc i"] assms(2,3)
  by (simp add: pt_update_def path_table_def set_entry_def Let_def)

lemma path_agrees_map:
  "path_agrees s r v pta i \<longleftrightarrow> length (path pta) = 5 \<and>
     (\<forall>j. i \<le> j \<and> j \<le> 4 \<longrightarrow> smap r s (level_path v j) = Some (get_address (width s) (path pta ! j)))"
  by (simp add: path_agrees_def table_on_path_map)

text \<open>Clearing the entry of level \<open>i\<close> on the path.\<close>

lemma clear_entry:
  assumes ok: "space_ok w fok owned r s" and w: "width_ok w" and pa: "path_agrees s r v pta (Suc i)" and i: "i \<le> 3"
  defines "s' \<equiv> pt_update s (path_table s pta (Suc i)) (level_index v i) 0"
  shows "smap r s' = prune (level_path v i) (smap r s)" "frames s' = frames s" "width s' = width s"
    "space_ok w fok owned r s'" "path_agrees s' r v pta (Suc i)"
proof -
  note k = space_okD [OF ok]
  have a: "table_on_path (width s) (tables s) r v (Suc i) = Some (get_address (width s) (path pta ! Suc i))"
    by (rule path_agreesD [OF pa]) (use i in simp_all)
  have s': "s' = s\<lparr>tables := set_entry (tables s) (get_address (width s) (path pta ! Suc i)) (level_index v i) 0\<rparr>"
    unfolding s'_def by (rule update_path_table [OF pa i a])
  show f: "frames s' = frames s" "width s' = width s" by (simp_all add: s')
  show m: "smap r s' = prune (level_path v i) (smap r s)"
    using space_map_clear [OF w k(2,4) i a [unfolded k(1)]] by (simp add: s' k(1))
  show "space_ok w fok owned r s'"
    using k m f map_tree_prune map_tables_prune_leaf [of "level_path v i" "smap r s"]
    by (auto simp: space_ok_def)
  have "\<not> prefix (level_path v i) (level_path v j)" if "Suc i \<le> j \<and> j \<le> 4" for j
    using prefix_level_path_iff [of i j v] that by simp
  then show "path_agrees s' r v pta (Suc i)"
    using pa unfolding path_agrees_map f m [unfolded f] by (simp add: prune_def)
qed

text \<open>Linking a fresh frame at level \<open>i\<close> on the path.\<close>

lemma link_table:
  assumes ok: "space_ok w fok owned r s" and w: "width_ok w" and pa: "path_agrees s r v pta (Suc i)" and i: "1 \<le> i" "i \<le> 3"
    and none: "smap r s (level_path v i) = None"
    and p: "frame_addr w p" "p \<notin> owned (frames s)" and fr: "fok fr" "owned fr = insert p (owned (frames s))"
    and fl: "flags_ok flags"
  defines "e \<equiv> p OR ucast (to_x86_64_flags flags)"
  defines "s' \<equiv> pt_update (set_zero (s\<lparr>frames := fr\<rparr>) p) (path_table (s\<lparr>frames := fr\<rparr>) pta (Suc i)) (level_index v i) e"
  shows "smap r s' = (smap r s)(level_path v i \<mapsto> p)" "frames s' = fr" "width s' = width s"
    "space_ok w fok owned r s'"
    "path_agrees s' r v (pta\<lparr>path := (path pta)[i := \<lparr>native_entry = e, pte_level = of_nat i\<rparr>]\<rparr>) i"
proof -
  note k = space_okD [OF ok]
  let ?a = "get_address (width s) (path pta ! Suc i)"
  have a: "table_on_path w (tables s) r v (Suc i) = Some ?a"
    using path_agreesD [OF pa, of "Suc i"] i k(1) by simp
  have n: "table_on_path w (tables s) r v i = None" using none k(1) by (simp add: table_on_path_map)
  have e: "bit e 0" "entry_address w e = p"
    unfolding e_def to_x86_64_flags_def by (rule present_flags [OF fl], rule entry_address_flags [OF w p(1) fl])
  have s': "s' = s\<lparr>frames := fr, tables := set_entry (set_table (tables s) p (\<lambda>_. 0)) ?a (level_index v i) e\<rparr>"
    by (simp add: s'_def set_zero_def set_table_def pt_update_def path_table_def set_entry_def Let_def)
  show f: "frames s' = fr" "width s' = width s" by (simp_all add: s')
  have notin: "p \<notin> table_frames w (tables s) r" using k(1,6) p(2) by (auto simp: map_tables_iff)
  show m: "smap r s' = (smap r s)(level_path v i \<mapsto> p)"
    using space_map_link [OF w k(2,4) i(2) a n p(1) notin e] by (simp add: s' k(1))
  have mt: "map_tree (smap r s')"
    unfolding m using map_tree_update [of "smap r s" p] k(1,3) notin by (simp add: map_tables_iff)
  have ts: "map_tables (smap r s') = insert p (map_tables (smap r s))"
    unfolding m by (rule map_tables_update) (use i none in simp_all)
  show "space_ok w fok owned r s'"
    using k mt ts f fr by (auto simp: space_ok_def)
  show "path_agrees s' r v (pta\<lparr>path := (path pta)[i := \<lparr>native_entry = e, pte_level = of_nat i\<rparr>]\<rparr>) i"
    unfolding path_agrees_map f m [unfolded f]
  proof (intro conjI allI impI)
    fix j assume j: "i \<le> j \<and> j \<le> 4"
    show "((smap r s)(level_path v i \<mapsto> p)) (level_path v j) =
        Some (get_address (width s) (path (pta\<lparr>path := (path pta)[i := \<lparr>native_entry = e, pte_level = of_nat i\<rparr>]\<rparr>) ! j))"
    proof (cases "j = i")
      case True
      then show ?thesis using pa i e k(1) by (simp add: path_agrees_def)
    next
      case False
      then have "level_path v j \<noteq> level_path v i" using level_path_inj [of j v i] j by auto
      then show ?thesis using pa j False by (simp add: path_agrees_map)
    qed
  qed (use pa in \<open>simp add: path_agrees_def\<close>)
qed

text \<open>The tables on the path of \<open>v\<close> from level \<open>i\<close> up to level \<open>l\<close>.\<close>

definition path_frames :: "space_map \<Rightarrow> virtual_addr \<Rightarrow> nat \<Rightarrow> nat \<Rightarrow> physical_addr set" where
  "path_frames D v i l = {p. \<exists>j. i \<le> j \<and> j \<le> l \<and> D (level_path v j) = Some p}"

lemma path_frames_Suc:
  assumes "i \<le> l" and "D (level_path v i) = Some p"
  shows "path_frames D v i l = insert p (path_frames D v (Suc i) l)"
proof (intro equalityI subsetI)
  fix x assume "x \<in> path_frames D v i l"
  then obtain j where "i \<le> j" "j \<le> l" "D (level_path v j) = Some x" by (auto simp: path_frames_def)
  then show "x \<in> insert p (path_frames D v (Suc i) l)"
    using assms(2) by (cases "j = i") (auto simp: path_frames_def intro: exI [of _ j])
next
  fix x assume "x \<in> insert p (path_frames D v (Suc i) l)"
  then show "x \<in> path_frames D v i l" using assms by (auto simp: path_frames_def dest: Suc_leD)
qed

lemma path_frames_empty: "l < i \<Longrightarrow> path_frames D v i l = {}"
  by (auto simp: path_frames_def)

lemma path_frames_cong:
  assumes "\<And>j. i \<le> j \<Longrightarrow> j \<le> l \<Longrightarrow> D (level_path v j) = D' (level_path v j)"
  shows "path_frames D v i l = path_frames D' v i l"
  using assms by (auto simp: path_frames_def)

lemma prune_prune: "prefix q' q \<Longrightarrow> prune q' (prune q D) = prune q' D"
  using prefix_order.trans by (fastforce simp: prune_def)

text \<open>What the allocation loop promises from level \<open>i\<close> on; \<open>l\<close> is the level where the walk ended.\<close>

definition alloc_result ::
  "('s \<Rightarrow> physical_addr set) \<Rightarrow> ('s \<Rightarrow> physical_addr set) \<Rightarrow> physical_addr \<Rightarrow> virtual_addr \<Rightarrow> physical_addr \<Rightarrow> nat \<Rightarrow> nat \<Rightarrow> 's paging \<Rightarrow> 's paging \<Rightarrow> page_table_access \<Rightarrow> bool" where
  "alloc_result avail owned r v f i l s s' pta' \<longleftrightarrow>
     (status pta' = PAGE_TABLE_ENTRY_MISSING \<and>
      (\<forall>is. length is = 4 \<longrightarrow> smap r s' is = ((smap r s)(page_path v \<mapsto> f)) is) \<and>
      map_tables (smap r s') = map_tables (smap r s) \<union> (avail (frames s) - avail (frames s')) \<and>
      avail (frames s') \<subseteq> avail (frames s) \<and> owned (frames s) \<subseteq> owned (frames s')) \<or>
     (status pta' = ALLOC_ERROR \<and> smap r s' = prune (level_path v l) (smap r s) \<and>
      avail (frames s') = avail (frames s) \<union> path_frames (smap r s) v (Suc i) l \<and>
      owned (frames s') = owned (frames s) - path_frames (smap r s) v (Suc i) l)"

lemma alloc_result_step:
  assumes "alloc_result avail owned r v f i l s1 s' pta'" and m: "smap r s1 = (smap r s)(q \<mapsto> p)" and "length q < 4"
    and ts: "map_tables (smap r s1) = insert p (map_tables (smap r s))"
    and p: "p \<in> avail (frames s)" and av: "avail (frames s1) = avail (frames s) - {p}"
    and ow: "owned (frames s1) = insert p (owned (frames s))" "p \<notin> owned (frames s)"
    and pf: "insert p (path_frames (smap r s) v (Suc (Suc i)) l) = path_frames (smap r s1) v (Suc i) l"
    and pr: "prune (level_path v l) (smap r s1) = prune (level_path v l) (smap r s)"
  shows "alloc_result avail owned r v f (Suc i) l s s' pta'"
proof -
  have same: "smap r s1 is = smap r s is" if "length is = 4" for "is" using m that assms(3) by auto
  from assms(1) show ?thesis
    unfolding alloc_result_def
  proof (elim disjE conjE, goal_cases)
    case 1
    have "((smap r s)(page_path v \<mapsto> f)) is = ((smap r s1)(page_path v \<mapsto> f)) is" if "length is = 4" for "is"
      using same [OF that] by simp
    moreover have "p \<notin> avail (frames s')" using 1(4) av by auto
    then have "map_tables (smap r s') = map_tables (smap r s) \<union> (avail (frames s) - avail (frames s'))"
      unfolding 1(3) ts av using p by auto
    ultimately show ?case using 1(1,2,4,5) av ow(1) by (intro disjI1 conjI allI impI) auto
  next
    case 2
    have "avail (frames s') = avail (frames s) \<union> path_frames (smap r s) v (Suc (Suc i)) l"
      unfolding 2(3) av pf [symmetric] using p by auto
    moreover have "owned (frames s') = owned (frames s) - path_frames (smap r s) v (Suc (Suc i)) l"
      unfolding 2(4) ow(1) pf [symmetric] using ow(2) by auto
    ultimately show ?case using 2(1,2) pr by simp
  qed
qed

section \<open>Unmapping\<close>

lemma pte_count_zero: "pte_count s pt n = 0 \<longleftrightarrow> (\<forall>k < n. \<not> is_present (pt_get s pt (of_nat k)))"
  by (induction n) (auto simp: less_Suc_eq)

lemma pte_count_empty:
  assumes "path_agrees s r v pta i" and "1 \<le> i" and "i \<le> 3"
  shows "pte_count s (path_table s pta i) (unat PT_MAX_SIZE) = 0 \<longleftrightarrow> (\<forall>x. smap r s (level_path v i @ [x]) = None)"
proof -
  let ?a = "get_address (width s) (path pta ! i)"
  have a: "descend (width s) (tables s) r (level_path v i) = Some ?a"
    using path_agreesD [OF assms(1), of i] assms(3) by (simp add: table_on_path_def)
  then have l: "smap r s (level_path v i @ [x]) = lookup_entry (width s) (tables s) ?a x" for x
  proof -
    have "4 - i \<le> 3" using assms(2) by arith
    with a show ?thesis by (simp add: space_map_def descend_snoc)
  qed
  have e: "lookup_entry (width s) (tables s) ?a x = None \<longleftrightarrow> \<not> (x < PT_MAX_SIZE \<and> is_present (pt_get s (path_table s pta i) x))" for x
    by (auto simp: lookup_entry_def pt_get_def path_table_def present_iff Let_def)
  have "(\<forall>k < unat PT_MAX_SIZE. \<not> is_present (pt_get s (path_table s pta i) (of_nat k))) \<longleftrightarrow>
      (\<forall>x. \<not> (x < PT_MAX_SIZE \<and> is_present (pt_get s (path_table s pta i) x)))"
  proof (intro iffI allI impI notI)
    fix x assume h: "\<forall>k < unat PT_MAX_SIZE. \<not> is_present (pt_get s (path_table s pta i) (of_nat k))"
      and x: "x < PT_MAX_SIZE \<and> is_present (pt_get s (path_table s pta i) x)"
    then show False using h [rule_format, of "unat x"] by (simp add: word_less_nat_alt)
  next
    fix k assume h: "\<forall>x. \<not> (x < PT_MAX_SIZE \<and> is_present (pt_get s (path_table s pta i) x))"
      and k: "k < unat PT_MAX_SIZE" and p: "is_present (pt_get s (path_table s pta i) (of_nat k))"
    have "(of_nat k :: u16) < PT_MAX_SIZE"
      using k by (simp add: word_less_nat_alt unat_of_nat PT_MAX_SIZE_def)
    with h p show False by blast
  qed
  then show ?thesis by (simp add: pte_count_zero l e)
qed

lemma free_loop_done: "free_loop ops v 4 s pta = Some (s, pta)"
  by (simp add: free_loop.simps [of _ _ 4])

text \<open>A table with a present entry stays, and so do all tables above it.\<close>

lemma free_loop_stops:
  assumes "path_agrees s r v pta i" and "1 \<le> i" and "i \<le> 4"
    and "i \<le> 3 \<Longrightarrow> \<exists>x. smap r s (level_path v i @ [x]) \<noteq> None"
  shows "free_loop ops v i s pta = Some (s, pta)"
  using assms
proof (induction "4 - i" arbitrary: i)
  case 0
  then have "i = 4" by simp
  then show ?case by (simp add: free_loop_done)
next
  case (Suc n)
  then have i: "i \<le> 3" by simp
  have up: "level_path v i = level_path v (Suc i) @ [level_index v i]" using path_step [OF i, of v] by simp
  have "smap r s (level_path v i) \<noteq> None" using Suc.prems(1) i by (simp add: path_agrees_map)
  then have ex: "\<exists>x. smap r s (level_path v (Suc i) @ [x]) \<noteq> None" using up by metis
  have "pte_count s (path_table s pta i) (unat PT_MAX_SIZE) \<noteq> 0"
    using pte_count_empty [OF Suc.prems(1,2) i] Suc.prems(4) [OF i] by (simp del: not_None_eq)
  then have "free_loop ops v i s pta = free_loop ops v (Suc i) s pta"
    using Suc.prems(2) i by (simp add: free_loop.simps [of _ _ i] Let_def)
  also have "\<dots> = Some (s, pta)"
    by (rule Suc.hyps(1)) (use Suc.hyps(2) Suc.prems(1) i ex in \<open>auto simp: path_agrees_def\<close>)
  finally show ?case .
qed

lemma prune_empty_table:
  assumes "\<And>x. space_map w M r (q @ [x]) = None" and "prefix q is" and "is \<noteq> q"
  shows "space_map w M r is = None"
proof -
  obtain zs where "is = q @ zs" "zs \<noteq> []" using assms(2,3) by (auto simp: prefix_def)
  then obtain y ys where "is = (q @ [y]) @ ys" by (cases zs) auto
  then show ?thesis using space_map_below [OF assms(1) [of y], of "is"] by (auto simp: prefix_def)
qed

context frame_allocator begin

text \<open>Giving a table on the path back to the allocator and clearing the entry that led to it.\<close>

lemma release_table:
  assumes "space_ok w fok owned r s" and pa: "path_agrees s r v pta j" and j: "1 \<le> j" "j \<le> 3"
  shows "\<exists>fr s'. op_free ops (frames s) (get_address (width s) (path pta ! j)) = Some (fr, True) \<and>
    s' = pt_update (s\<lparr>frames := fr\<rparr>) (path_table s pta (Suc j)) (level_index v j) 0 \<and>
    space_ok w fok owned r s' \<and> path_agrees s' r v pta (Suc j) \<and> width s' = width s \<and>
    smap r s' = prune (level_path v j) (smap r s) \<and>
    avail (frames s') = insert (get_address (width s) (path pta ! j)) (avail (frames s)) \<and>
    owned (frames s') = owned (frames s) - {get_address (width s) (path pta ! j)}"
proof -
  note k = space_okD [OF assms(1)]
  let ?p = "get_address (width s) (path pta ! j)" and ?D = "smap r s"
  have pa1: "path_agrees s r v pta (Suc j)" using pa by (simp add: path_agrees_def)
  have Dj: "?D (level_path v j) = Some ?p" using pa j by (simp add: path_agrees_map)
  have "?p \<in> map_tables ?D" using Dj j by (auto simp: map_tables_def intro!: exI [of _ "level_path v j"])
  then have pown: "?p \<in> owned (frames s)" using k(1,6) by auto
  obtain fr where fr: "op_free ops (frames s) ?p = Some (fr, True)" "fok fr"
    "avail fr = insert ?p (avail (frames s))" "owned fr = owned (frames s) - {?p}"
    using release [OF k(5) pown] by blast
  define s1 where "s1 = pt_update s (path_table s pta (Suc j)) (level_index v j) 0"
  note c = clear_entry [OF assms(1) width [OF k(5)] pa1 j(2), folded s1_def]
  define s2 where "s2 = pt_update (s\<lparr>frames := fr\<rparr>) (path_table s pta (Suc j)) (level_index v j) 0"
  have s2: "s2 = s1\<lparr>frames := fr\<rparr>" by (simp add: s2_def s1_def pt_update_def)
  have m2: "smap r s2 = prune (level_path v j) ?D" using c(1) by (simp add: s2)
  have "map_tables (smap r s2) \<subseteq> map_tables ?D - {?p}"
    unfolding m2 by (rule map_tables_prune) (use k(1,3) j Dj in simp_all)
  then have "space_ok w fok owned r s2" using c k fr by (auto simp: space_ok_def s2)
  moreover have "path_agrees s2 r v pta (Suc j)" using c(5) by (simp add: s2 path_agrees_def)
  moreover have "frames s2 = fr" "width s2 = width s" using c(3) by (simp_all add: s2)
  ultimately show ?thesis using fr m2 s2_def by (intro exI [of _ fr] exI [of _ s2]) simp
qed

lemma roll_back_spec:
  assumes "space_ok w fok owned r s" and "path_agrees s r v pta j" and "1 \<le> j" and "j \<le> Suc l" and "l \<le> 3"
    and "level pta = of_nat l"
  shows "\<exists>s'. roll_back ops v j s pta = Some (s', pta) \<and> space_ok w fok owned r s' \<and>
    smap r s' = (if j \<le> l then prune (level_path v l) (smap r s) else smap r s) \<and>
    avail (frames s') = avail (frames s) \<union> path_frames (smap r s) v j l \<and>
    owned (frames s') = owned (frames s) - path_frames (smap r s) v j l"
  using assms
proof (induction "Suc l - j" arbitrary: j s)
  case 0
  then have "l < j" by simp
  moreover have "unat (level pta) = l" using 0 by (simp add: unat_of_nat)
  ultimately show ?case using 0 by (simp add: roll_back.simps [of _ _ j] path_frames_empty)
next
  case (Suc n)
  have jl: "j \<le> l" "j \<le> 3" and n: "n = Suc l - Suc j" using Suc.hyps(2) Suc.prems(5) by simp_all
  have ul: "unat (level pta) = l" using Suc.prems by (simp add: unat_of_nat)
  let ?p = "get_address (width s) (path pta ! j)" and ?D = "smap r s"
  have Dj: "?D (level_path v j) = Some ?p" using Suc.prems(2) jl by (simp add: path_agrees_map)
  have lu: "table_on_path (width s) (tables s) r v (Suc j) = Some (get_address (width s) (path pta ! Suc j))"
    by (rule path_agreesD [OF Suc.prems(2)]) (use jl in simp_all)
  have "lookup_entry (width s) (tables s) (get_address (width s) (path pta ! Suc j)) (level_index v j) = Some ?p"
    using Dj table_on_path_step [OF jl(2), of "width s" "tables s" r v] lu by (simp add: table_on_path_map)
  then have get: "get_address (width s) (pt_get s (path_table s pta (Suc j)) (level_index v j)) = ?p"
    by (simp add: lookup_entry_def pt_get_def path_table_def Let_def split: if_splits)
  obtain fr s2 where fr: "op_free ops (frames s) ?p = Some (fr, True)"
    and s2: "s2 = pt_update (s\<lparr>frames := fr\<rparr>) (path_table s pta (Suc j)) (level_index v j) 0"
      "space_ok w fok owned r s2" "path_agrees s2 r v pta (Suc j)" "width s2 = width s"
      "smap r s2 = prune (level_path v j) ?D" "avail (frames s2) = insert ?p (avail (frames s))"
      "owned (frames s2) = owned (frames s) - {?p}"
    using release_table [OF Suc.prems(1,2,3) jl(2)] by blast
  have step: "roll_back ops v j s pta = roll_back ops v (Suc j) s2 pta"
    using jl get fr by (simp add: roll_back.simps [of _ _ j] ul Let_def s2(1))
  obtain s' where s': "roll_back ops v (Suc j) s2 pta = Some (s', pta)" "space_ok w fok owned r s'"
    "smap r s' = (if Suc j \<le> l then prune (level_path v l) (smap r s2) else smap r s2)"
    "avail (frames s') = avail (frames s2) \<union> path_frames (smap r s2) v (Suc j) l"
    "owned (frames s') = owned (frames s2) - path_frames (smap r s2) v (Suc j) l"
    using Suc.hyps(1) [OF n s2(2,3)] Suc.prems(3,5,6) jl by auto
  have pf: "path_frames (smap r s2) v (Suc j) l = path_frames ?D v (Suc j) l"
  proof (rule path_frames_cong)
    fix i assume "Suc j \<le> i" "i \<le> l"
    then show "smap r s2 (level_path v i) = ?D (level_path v i)"
      using prefix_level_path_iff [of j i v] jl Suc.prems(5) by (simp add: s2(5) prune_def)
  qed
  have "smap r s' = prune (level_path v l) ?D"
  proof (cases "Suc j \<le> l")
    case True
    then show ?thesis using prune_prune [OF prefix_level_path [of j l v]] jl s'(3) by (simp add: s2(5))
  next
    case False
    then have "j = l" using jl by simp
    then show ?thesis using False s'(3) s2(5) by simp
  qed
  moreover have "path_frames ?D v j l = insert ?p (path_frames ?D v (Suc j) l)"
    using path_frames_Suc [of j l ?D v ?p] jl(1) Dj by simp
  ultimately show ?case
    using s' step pf s2(6,7) jl by auto
qed

lemma allocate_loop_spec:
  assumes "space_ok w fok owned r s" and "path_agrees s r v pta (Suc i)" and "smap r s (level_path v i) = None"
    and "i \<le> l" and "l \<le> 3" and "level pta = of_nat l" and "status pta = PAGE_TABLE_ENTRY_MISSING"
    and "flags_ok flags" and "frame_addr w f"
  shows "\<exists>s' pta'. allocate_loop ops v f flags i s pta = Some (s', pta') \<and> space_ok w fok owned r s' \<and>
    alloc_result avail owned r v f i l s s' pta'"
  using assms
proof (induction i arbitrary: s pta)
  case 0
  note k = space_okD [OF 0(1)]
  let ?e = "f OR ucast (to_x86_64_flags flags)" and ?a = "get_address (width s) (path pta ! 1)"
  have a: "table_on_path (width s) (tables s) r v (Suc 0) = Some ?a"
    using path_agreesD [OF 0(2), of 1] by simp
  have e: "bit ?e 0" "entry_address w ?e = f"
    unfolding to_x86_64_flags_def by (rule present_flags [OF 0(8)], rule entry_address_flags [OF width [OF k(5)] 0(9,8)])
  define s' where "s' = pt_update s (path_table s pta 1) (level_index v 0) ?e"
  have s': "s' = s\<lparr>tables := set_entry (tables s) ?a (level_index v 0) ?e\<rparr>"
    unfolding s'_def using update_path_table [OF 0(2) _ a] by simp
  have m: "smap r s' = (smap r s)(page_path v \<mapsto> f)"
    using space_map_leaf [OF width [OF k(5)] k(2,4), of v ?a ?e] a e k(1) by (simp add: s')
  have mt: "map_tables (smap r s') = map_tables (smap r s)" "map_tree (smap r s')"
    using k(3) unfolding m k(1) by (simp_all add: map_update_leaf)
  have "space_ok w fok owned r s'" using k mt by (simp add: space_ok_def s')
  moreover obtain pta' where "allocate_loop ops v f flags 0 s pta = Some (s', pta')" "status pta' = status pta"
    by (simp add: Let_def s'_def)
  moreover have "frames s' = frames s" by (simp add: s')
  ultimately show ?case using 0(7) mt(1) by (auto simp: alloc_result_def m simp del: allocate_loop.simps)
next
  case (Suc i)
  note k = space_okD [OF Suc.prems(1)]
  have i: "1 \<le> Suc i" "Suc i \<le> 3" using Suc.prems by simp_all
  show ?case
  proof (cases "avail (frames s) = {}")
    case True
    then have none: "op_allocate ops (frames s) = Some (frames s, None)"
      using alloc [OF k(5)] by auto
    obtain s' where s': "roll_back ops v (Suc (Suc i)) s pta = Some (s', pta)" "space_ok w fok owned r s'"
      "smap r s' = (if Suc (Suc i) \<le> l then prune (level_path v l) (smap r s) else smap r s)"
      "avail (frames s') = avail (frames s) \<union> path_frames (smap r s) v (Suc (Suc i)) l"
      "owned (frames s') = owned (frames s) - path_frames (smap r s) v (Suc (Suc i)) l"
      using roll_back_spec [OF Suc.prems(1,2) _ _ Suc.prems(5,6)] Suc.prems(4) by auto
    have "smap r s' = prune (level_path v l) (smap r s)"
    proof (cases "Suc (Suc i) \<le> l")
      case False
      then have "l = Suc i" using Suc.prems(4) by simp
      then have "prune (level_path v l) (smap r s) = smap r s"
        using space_map_below [OF Suc.prems(3)] by (auto simp: prune_def)
      then show ?thesis using False s'(3) by simp
    qed (simp add: s'(3))
    then show ?thesis using s' none by (auto simp: alloc_result_def Let_def)
  next
    case False
    then obtain fr p where fr: "op_allocate ops (frames s) = Some (fr, Some p)" "fok fr" "p \<in> avail (frames s)"
      "avail fr = avail (frames s) - {p}" "owned fr = insert p (owned (frames s))"
      using alloc [OF k(5)] by auto
    have p: "frame_addr w p" "p \<notin> owned (frames s)" using frame [OF k(5) fr(3)] disjoint [OF k(5)] fr(3) by auto
    note ln = link_table [OF Suc.prems(1) width [OF k(5)] Suc.prems(2) i Suc.prems(3) p fr(2,5) Suc.prems(8)]
    define s1 where "s1 = pt_update (set_zero (s\<lparr>frames := fr\<rparr>) p) (path_table (s\<lparr>frames := fr\<rparr>) pta (Suc (Suc i)))
      (level_index v (Suc i)) (p OR ucast (to_x86_64_flags flags))"
    define pta1 where "pta1 = pta\<lparr>path := (path pta)[Suc i := \<lparr>native_entry = p OR ucast (to_x86_64_flags flags), pte_level = of_nat (Suc i)\<rparr>]\<rparr>"
    note ln = ln [folded s1_def pta1_def]
    have nv: "path_table (set_zero (s\<lparr>frames := fr\<rparr>) p) = path_table (s\<lparr>frames := fr\<rparr>)"
      by (intro ext) (simp add: path_table_def set_zero_def)
    have step: "allocate_loop ops v f flags (Suc i) s pta = allocate_loop ops v f flags i s1 pta1"
      by (simp add: fr(1) s1_def pta1_def nv Let_def)
    have n1: "smap r s1 (level_path v i) = None"
    proof -
      have "smap r s (level_path v i) = None"
        by (rule space_map_below [OF Suc.prems(3)]) (rule prefix_level_path, simp)
      moreover have "level_path v i \<noteq> level_path v (Suc i)" using level_path_inj [of i v "Suc i"] i by auto
      ultimately show ?thesis by (simp add: ln(1))
    qed
    obtain s' pta' where s': "allocate_loop ops v f flags i s1 pta1 = Some (s', pta')" "space_ok w fok owned r s'"
      "alloc_result avail owned r v f i l s1 s' pta'"
      using Suc.IH [OF ln(4,5) n1] Suc.prems(4-9) by (auto simp: pta1_def)
    have ts: "map_tables (smap r s1) = insert p (map_tables (smap r s))"
      unfolding ln(1) by (rule map_tables_update) (use i Suc.prems(3) in simp_all)
    have pf: "insert p (path_frames (smap r s) v (Suc (Suc i)) l) = path_frames (smap r s1) v (Suc i) l"
    proof -
      have "path_frames (smap r s1) v (Suc (Suc i)) l = path_frames (smap r s) v (Suc (Suc i)) l"
      proof (rule path_frames_cong)
        fix j assume "Suc (Suc i) \<le> j" "j \<le> l"
        then have "level_path v j \<noteq> level_path v (Suc i)" using level_path_inj [of j v "Suc i"] Suc.prems(5) by auto
        then show "smap r s1 (level_path v j) = smap r s (level_path v j)" by (simp add: ln(1))
      qed
      moreover have "path_frames (smap r s1) v (Suc i) l = insert p (path_frames (smap r s1) v (Suc (Suc i)) l)"
        by (rule path_frames_Suc) (use Suc.prems(4) ln(1) in simp_all)
      ultimately show ?thesis by simp
    qed
    have pr: "prune (level_path v l) (smap r s1) = prune (level_path v l) (smap r s)"
      using prefix_level_path [OF Suc.prems(4)] by (auto simp: ln(1) prune_def)
    have "alloc_result avail owned r v f (Suc i) l s s' pta'"
      by (rule alloc_result_step [OF s'(3) ln(1) _ ts fr(3) _ _ p(2) pf pr]) (use i fr(4,5) ln(2) in simp_all)
    then show ?thesis using s' step by auto
  qed
qed

lemma allocate_page_spec:
  assumes ok: "space_ok w fok owned (root_of s base) s" and "base_ok s base" and "flags_ok flags" and "frame_addr w f"
  shows "\<exists>s' pta. allocate_page ops s base v f flags = Some (s', pta) \<and>
    space_ok w fok owned (root_of s base) s' \<and> base_ok s' base \<and>
    (if mapped s base v = None \<and> status pta = OKAY
     then (\<forall>u. mapped s' base u = (if page_path u = page_path v then Some f else mapped s base u)) \<and>
       map_tables (smap (root_of s base) s') = map_tables (smap (root_of s base) s) \<union> (avail (frames s) - avail (frames s')) \<and>
       avail (frames s') \<subseteq> avail (frames s) \<and> owned (frames s) \<subseteq> owned (frames s')
     else status pta = ALLOC_ERROR \<and> smap (root_of s base) s' = smap (root_of s base) s \<and>
       avail (frames s') = avail (frames s) \<and> owned (frames s') = owned (frames s))"
proof -
  let ?r = "root_of s base" and ?pta = "access_page_hierarchy s base v"
  note k = space_okD [OF ok]
  have W: "walk_result s ?r v ?pta" by (rule access_spec [OF assms(2)])
  have m: "table_on_path (width s) (tables s) ?r v 0 = mapped s base v"
    by (simp add: mapped_def table_on_path_0)
  show ?thesis
  proof (cases "mapped s base v")
    case (Some g)
    then show ?thesis using W ok assms(2) by (simp add: walk_result_def m allocate_page_def Let_def)
  next
    case None
    then obtain l where l: "l \<le> 3" "status ?pta = PAGE_TABLE_ENTRY_MISSING" "level ?pta = of_nat l"
      "path_agrees s ?r v ?pta (Suc l)" "table_on_path (width s) (tables s) ?r v l = None"
      using W by (auto simp: walk_result_def m)
    have ul: "unat (level ?pta) = l" using l(1,3) by (simp add: unat_of_nat)
    have q: "smap ?r s (level_path v l) = None" using l(5) by (simp add: table_on_path_map)
    obtain s' pta' where s': "allocate_loop ops v f flags l s ?pta = Some (s', pta')" "space_ok w fok owned ?r s'"
      "alloc_result avail owned ?r v f l l s s' pta'"
      using allocate_loop_spec [OF ok l(4) q _ l(1,3,2) assms(3,4)] by auto
    have w: "width s' = width s" using space_okD(1) [OF s'(2)] k(1) by simp
    have map: "mapped s' base u = smap ?r s' (page_path u)" "mapped s base u = smap ?r s (page_path u)" for u
      by (simp_all add: mapped_def space_map_def w)
    have pr: "prune (level_path v l) (smap ?r s) = smap ?r s"
      using space_map_below [OF q] by (auto simp: prune_def)
    have bo: "base_ok s' base" using assms(2) w by (simp add: base_ok_def)
    have run: "allocate_page ops s base v f flags =
        Some (s', if status pta' = PAGE_TABLE_ENTRY_MISSING then pta'\<lparr>status := OKAY\<rparr> else pta')"
      using s'(1) l(2) by (simp add: allocate_page_def Let_def ul)
    from s'(3) show ?thesis
      unfolding alloc_result_def pr
    proof (elim disjE conjE, goal_cases)
      case 1
      have "mapped s' base u = (if page_path u = page_path v then Some f else mapped s base u)" for u
        using 1(2) [rule_format, of "page_path u"] by (simp add: map)
      with run bo s'(2) 1(1,3,4,5) None show ?case by (intro exI [of _ s'] exI [of _ "pta'\<lparr>status := OKAY\<rparr>"]) simp
    next
      case 2
      with run bo s'(2) show ?case
        by (intro exI [of _ s'] exI [of _ pta']) (simp add: path_frames_empty)
    qed
  qed
qed

lemma free_loop_spec:
  assumes "space_ok w fok owned r s" and "path_agrees s r v pta i" and "1 \<le> i" and "i \<le> 4"
  shows "\<exists>s'. free_loop ops v i s pta = Some (s', pta) \<and> space_ok w fok owned r s' \<and>
    (\<forall>is. length is = 4 \<longrightarrow> smap r s' is = smap r s is) \<and>
    smap r s' \<subseteq>\<^sub>m smap r s \<and>
    avail (frames s') = avail (frames s) \<union> (map_tables (smap r s) - map_tables (smap r s')) \<and>
    owned (frames s') = owned (frames s) - (map_tables (smap r s) - map_tables (smap r s')) \<and>
    (\<forall>j. i \<le> j \<and> j \<le> 3 \<and> smap r s' (level_path v j) \<noteq> None \<longrightarrow> (\<exists>x. smap r s' (level_path v j @ [x]) \<noteq> None))"
  using assms
proof (induction "4 - i" arbitrary: i s)
  case 0
  then have "free_loop ops v i s pta = Some (s, pta)" "\<not> i \<le> 3" by (simp_all add: free_loop_done)
  with 0(2) show ?case by auto
next
  case (Suc n)
  then have i: "i \<le> 3" and n: "n = 4 - Suc i" by simp_all
  let ?D = "smap r s" and ?q = "level_path v i" and ?p = "get_address (width s) (path pta ! i)"
  have Di: "?D ?q = Some ?p" using Suc.prems(2) i by (simp add: path_agrees_map)
  show ?case
  proof (cases "\<forall>x. ?D (?q @ [x]) = None")
    case False
    then have full: "\<exists>x. ?D (?q @ [x]) \<noteq> None" by blast
    have "free_loop ops v i s pta = Some (s, pta)"
      by (rule free_loop_stops [OF Suc.prems(2-4)]) (rule full)
    moreover have "\<exists>x. ?D (level_path v j @ [x]) \<noteq> None" if j: "i \<le> j" "j \<le> 3" for j
    proof (cases "j = i")
      case False
      then obtain m where m: "j = Suc m" "i \<le> m" "m \<le> 3" using j by (cases j) auto
      then have "level_path v m = level_path v j @ [level_index v m]" using path_step [of m v] by simp
      moreover have "?D (level_path v m) \<noteq> None"
        using Suc.prems(2) m by (simp add: path_agrees_map)
      ultimately show ?thesis by metis
    qed (use full in simp)
    ultimately show ?thesis using Suc.prems(1) by auto
  next
    case True
    obtain fr s2 where fr: "op_free ops (frames s) ?p = Some (fr, True)"
      and s2: "s2 = pt_update (s\<lparr>frames := fr\<rparr>) (path_table s pta (Suc i)) (level_index v i) 0"
        "space_ok w fok owned r s2" "path_agrees s2 r v pta (Suc i)" "width s2 = width s"
        "smap r s2 = prune ?q ?D" "avail (frames s2) = insert ?p (avail (frames s))"
        "owned (frames s2) = owned (frames s) - {?p}"
      using release_table [OF Suc.prems(1,2,3) i] by blast
    have step: "free_loop ops v i s pta = free_loop ops v (Suc i) s2 pta"
      using Suc.prems(3) i True fr pte_count_empty [OF Suc.prems(2,3) i]
      by (simp add: free_loop.simps [of _ _ i] Let_def s2(1))
    obtain s' where s': "free_loop ops v (Suc i) s2 pta = Some (s', pta)" "space_ok w fok owned r s'"
      "\<forall>is. length is = 4 \<longrightarrow> smap r s' is = smap r s2 is"
      "smap r s' \<subseteq>\<^sub>m smap r s2"
      "avail (frames s') = avail (frames s2) \<union> (map_tables (smap r s2) - map_tables (smap r s'))"
      "owned (frames s') = owned (frames s2) - (map_tables (smap r s2) - map_tables (smap r s'))"
      "\<forall>j. Suc i \<le> j \<and> j \<le> 3 \<and> smap r s' (level_path v j) \<noteq> None \<longrightarrow> (\<exists>x. smap r s' (level_path v j @ [x]) \<noteq> None)"
      using Suc.hyps(1) [OF n s2(2,3)] i by auto
    have leaf: "smap r s2 is = ?D is" if "length is = 4" for "is"
    proof -
      have "4 - i \<noteq> 4" using i Suc.prems(3) by arith
      then have "is \<noteq> ?q" using that by auto
      then show ?thesis
        using prune_empty_table [of "width s" "tables s" r ?q "is"] True by (auto simp: s2(5) prune_def)
    qed
    have only: "map_tables (smap r s2) = map_tables ?D - {?p}"
    proof
      show "map_tables (smap r s2) \<subseteq> map_tables ?D - {?p}"
        unfolding s2(5) by (rule map_tables_prune) (use Di Suc.prems(3) i space_okD [OF Suc.prems(1)] in simp_all)
      show "map_tables ?D - {?p} \<subseteq> map_tables (smap r s2)"
      proof
        fix x assume "x \<in> map_tables ?D - {?p}"
        then obtain ks where ks: "length ks < 4" "?D ks = Some x" "x \<noteq> ?p" by (auto simp: map_tables_def)
        then have "\<not> prefix ?q ks"
          using prune_empty_table [of "width s" "tables s" r ?q ks] True Di by (cases "ks = ?q") auto
        then show "x \<in> map_tables (smap r s2)" using ks by (auto simp: map_tables_def s2(5) prune_def)
      qed
    qed
    have pin: "?p \<in> map_tables ?D" using Di Suc.prems(3) i by (auto simp: map_tables_def intro!: exI [of _ ?q])
    have gone: "smap r s' ?q = None"
    proof -
      have "smap r s2 ?q = None" by (simp add: s2(5) prune_def)
      then show ?thesis using s'(4) by (metis domIff map_le_def)
    qed
    have le: "smap r s' \<subseteq>\<^sub>m ?D"
      by (rule map_le_trans [OF s'(4)]) (auto simp: s2(5) prune_def map_le_def)
    have le': "map_tables (smap r s') \<subseteq> map_tables (smap r s2)" by (rule map_tables_mono [OF s'(4)])
    then have av: "avail (frames s') = avail (frames s) \<union> (map_tables ?D - map_tables (smap r s'))"
      unfolding s'(5) s2(6) only using pin by auto
    have ow: "owned (frames s') = owned (frames s) - (map_tables ?D - map_tables (smap r s'))"
    proof -
      have "?p \<notin> map_tables (smap r s')" using le' only by auto
      then show ?thesis unfolding s'(6) s2(7) only using pin by auto
    qed
    have live: "\<exists>x. smap r s' (level_path v j @ [x]) \<noteq> None"
      if "i \<le> j \<and> j \<le> 3 \<and> smap r s' (level_path v j) \<noteq> None" for j
      using s'(7) that gone by (cases "j = i") auto
    show ?thesis
      using s'(1,2,3) le av ow live step leaf by (intro exI [of _ s']) simp
  qed
qed

lemma free_page_spec:
  assumes ok: "space_ok w fok owned (root_of s base) s" and "base_ok s base"
  shows "\<exists>s' pta. free_page ops s base v = Some (s', pta) \<and>
    space_ok w fok owned (root_of s base) s' \<and> base_ok s' base \<and>
    (if mapped s base v = None then status pta = PAGE_TABLE_ENTRY_MISSING \<and> s' = s
     else status pta = OKAY \<and>
       (\<forall>u. mapped s' base u = (if page_path u = page_path v then None else mapped s base u)) \<and>
       map_tables (smap (root_of s base) s') \<subseteq> map_tables (smap (root_of s base) s) \<and>
       avail (frames s') = avail (frames s) \<union>
         (map_tables (smap (root_of s base) s) - map_tables (smap (root_of s base) s')) \<and>
       owned (frames s') = owned (frames s) -
         (map_tables (smap (root_of s base) s) - map_tables (smap (root_of s base) s')) \<and>
       (\<forall>j. 1 \<le> j \<and> j \<le> 3 \<and> smap (root_of s base) s' (level_path v j) \<noteq> None \<longrightarrow>
         (\<exists>x. smap (root_of s base) s' (level_path v j @ [x]) \<noteq> None)))"
proof -
  let ?r = "root_of s base" and ?pta = "access_page_hierarchy s base v"
  note k = space_okD [OF ok]
  have W: "walk_result s ?r v ?pta" by (rule access_spec [OF assms(2)])
  have m: "table_on_path (width s) (tables s) ?r v 0 = mapped s base v"
    by (simp add: mapped_def table_on_path_0)
  show ?thesis
  proof (cases "mapped s base v")
    case None
    then obtain l where "status ?pta = PAGE_TABLE_ENTRY_MISSING" using W by (auto simp: walk_result_def m)
    with None ok assms(2) show ?thesis by (simp add: free_page_def Let_def)
  next
    case (Some g)
    then have st: "status ?pta = OKAY" and pa: "path_agrees s ?r v ?pta (Suc 0)"
      using W by (simp_all add: walk_result_def m path_agrees_def)
    define s1 where "s1 = pt_update s (path_table s ?pta (Suc 0)) (level_index v 0) 0"
    define pta1 where "pta1 = ?pta\<lparr>pte_after := pt_get s1 (path_table s ?pta (Suc 0)) (level_index v 0)\<rparr>"
    note c = clear_entry [OF ok width [OF k(5)] pa, folded s1_def, simplified]
    have pa1: "path_agrees s1 ?r v pta1 1" using c(5) by (simp add: path_agrees_def pta1_def)
    have step: "free_page ops s base v = free_loop ops v 1 s1 pta1"
      using st by (simp add: free_page_def Let_def free_loop.simps [of _ _ 0] s1_def pta1_def)
    obtain s' where s': "free_loop ops v 1 s1 pta1 = Some (s', pta1)" "space_ok w fok owned ?r s'"
      "\<forall>is. length is = 4 \<longrightarrow> smap ?r s' is = smap ?r s1 is"
      "map_tables (smap ?r s') \<subseteq> map_tables (smap ?r s1)"
      "avail (frames s') = avail (frames s1) \<union> (map_tables (smap ?r s1) - map_tables (smap ?r s'))"
      "owned (frames s') = owned (frames s1) - (map_tables (smap ?r s1) - map_tables (smap ?r s'))"
      "\<forall>j. 1 \<le> j \<and> j \<le> 3 \<and> smap ?r s' (level_path v j) \<noteq> None \<longrightarrow> (\<exists>x. smap ?r s' (level_path v j @ [x]) \<noteq> None)"
      using free_loop_spec [OF c(4) pa1] map_tables_mono by auto
    have w: "width s' = width s" using space_okD(1) [OF s'(2)] k(1) by simp
    have map: "mapped s' base u = smap ?r s' (page_path u)" "mapped s base u = smap ?r s (page_path u)" for u
      by (simp_all add: mapped_def space_map_def w)
    have eq: "page_path u = page_path v" if pre: "prefix (page_path v) (page_path u)" for u
    proof -
      obtain zs where z: "page_path u = page_path v @ zs" using pre by (auto simp: prefix_def)
      then have "length (page_path v @ zs) = 4" by (simp only: z [symmetric] length_page_path)
      with z show ?thesis by simp
    qed
    have un: "mapped s' base u = (if page_path u = page_path v then None else mapped s base u)" for u
      using s'(3) eq [of u] by (auto simp: map c(1) prune_def)
    have "map_tables (smap ?r s1) = map_tables (smap ?r s)"
    proof -
      have "smap ?r s1 is = smap ?r s is" if "length is < 4" for "is"
      proof -
        have "\<not> prefix (page_path v) is" using that prefix_length_le by fastforce
        then show ?thesis by (simp add: c(1) prune_def)
      qed
      then show ?thesis by (simp add: map_tables_def cong: conj_cong)
    qed
    moreover have "base_ok s' base" using assms(2) w by (simp add: base_ok_def)
    moreover have "status pta1 = OKAY" using st by (simp add: pta1_def)
    ultimately show ?thesis
      using s' step un Some c(2) by (intro exI [of _ s'] exI [of _ pta1]) simp
  qed
qed

end

section \<open>The bitmap allocator keeps the contract\<close>

definition bitmap_ops :: "pmm pmm_ops" where
  "bitmap_ops = \<lparr>op_allocate = (\<lambda>s. allocate s 1), op_free = (\<lambda>s p. pmm_free s p 1)\<rparr>"

definition bitmap_inv :: "u8 \<Rightarrow> pmm \<Rightarrow> bool" where
  "bitmap_inv w s \<longleftrightarrow> pmm_inv s \<and> width_ok w \<and> page_size s = PAGE_SIZE \<and> mem_base s AND PAGE_FRAME_OFFSET_MASK = 0 \<and>
     frame_lo s (unat (mem_size s)) \<le> 2 ^ unat w"

definition frames_avail :: "pmm \<Rightarrow> physical_addr set" where
  "frames_avail s = {p. \<exists>f. managed s p 1 f \<and> \<not> frame_used s f}"

definition frames_owned :: "pmm \<Rightarrow> physical_addr set" where
  "frames_owned s = {p. \<exists>f. managed s p 1 f \<and> frame_used s f \<and> is_reserved_or_bit_map_address s p 1 = 0}"

lemma managed_unique:
  assumes "pmm_ok s" and "managed s p n f" and "managed s p m g"
  shows "f = g"
proof -
  have "0 < unat (page_size s)" using assms(1) by (simp add: pmm_ok_def)
  then show ?thesis using assms(2,3) by (auto simp: managed_def frame_lo_def)
qed

lemma managed_one: "managed s p 1 f \<longleftrightarrow> unat p = frame_lo s f \<and> f < unat (mem_size s)"
  by (auto simp: managed_def)

lemma managed_frames_set: "frames_set s A u s' \<Longrightarrow> managed s' p n f = managed s p n f"
  by (simp add: managed_def frame_lo_def frames_set_fields)

lemma reserved_frames_set:
  "frames_set s A u s' \<Longrightarrow> is_reserved_or_bit_map_address s' p n = is_reserved_or_bit_map_address s p n"
  by (simp only: is_reserved_or_bit_map_address_def frames_set_fields)

lemma frame_used_frames_set:
  assumes "frames_set s A u s'" and "pmm_ok s" and "f < unat (mem_size s)"
  shows "frame_used s' f = (if f \<in> A then u else frame_used s f)"
  using assms by (auto simp: frames_set_def pmm_ok_def)

lemma frames_avail_frame:
  assumes "bitmap_inv w s" and "p \<in> frames_avail s"
  shows "frame_addr w p"
proof -
  from assms(2) obtain f where f: "unat p = frame_lo s f" "f < unat (mem_size s)"
    by (auto simp: frames_avail_def managed_one)
  have w: "width_ok w" "unat (page_size s) = 4096" using assms(1) by (simp_all add: bitmap_inv_def PAGE_SIZE_def)
  have "Suc f * 4096 \<le> unat (mem_size s) * 4096" using f(2) by (intro mult_le_mono1) simp
  then have "unat p + 4096 \<le> 2 ^ unat w"
    using assms(1) f(1) w(2) unfolding bitmap_inv_def frame_lo_def by simp
  then have lt: "unat p < 2 ^ unat w" by simp
  have "take_bit 12 (mem_base s) = 0"
  proof -
    have "PAGE_FRAME_OFFSET_MASK = mask 12" by (simp add: PAGE_FRAME_OFFSET_MASK_def mask_eq_exp_minus_1)
    then show ?thesis using assms(1) by (simp add: bitmap_inv_def take_bit_eq_mask)
  qed
  then have "take_bit 12 (unat (mem_base s)) = 0"
    by (metis unsigned_0 unsigned_take_bit_eq)
  then have al: "take_bit 12 (unat p) = 0"
    by (simp add: f(1) frame_lo_def w(2) take_bit_eq_mod mod_add_eq [symmetric] mod_mult_right_eq)
  show ?thesis
    unfolding frame_addr_iff [OF w(1)]
  proof (intro allI impI)
    fix n assume b: "bit p n"
    then have bn: "bit (unat p) n" by (simp add: bit_unsigned_iff)
    have "\<not> n < 12"
    proof
      assume "n < 12"
      then have "bit (take_bit 12 (unat p)) n" using bn by (simp add: bit_take_bit_iff)
      then show False by (simp add: al)
    qed
    moreover have "take_bit (unat w) (unat p) = unat p" using lt by (simp add: take_bit_nat_eq_self_iff)
    then have "n < unat w" using bn by (metis bit_take_bit_iff)
    ultimately show "12 \<le> n \<and> n < unat w" by simp
  qed
qed

lemma bitmap_inv_frames_set:
  assumes "frames_set s A u s'" and "bitmap_inv w s" and "pmm_inv s'"
  shows "bitmap_inv w s'"
proof -
  have "frame_lo s' n = frame_lo s n" for n by (simp add: frame_lo_def frames_set_fields [OF assms(1)])
  then show ?thesis using assms(2,3) by (simp add: bitmap_inv_def frames_set_fields [OF assms(1)])
qed

lemma bitmap_alloc:
  assumes "bitmap_inv w s"
  shows "(\<exists>s' p. allocate s 1 = Some (s', Some p) \<and> bitmap_inv w s' \<and> p \<in> frames_avail s \<and>
       frames_avail s' = frames_avail s - {p} \<and> frames_owned s' = insert p (frames_owned s)) \<or>
    (allocate s 1 = Some (s, None) \<and> frames_avail s = {})"
proof -
  have inv: "pmm_inv s" "pmm_ok s" "guard s" "regions_ok s" using assms by (simp_all add: bitmap_inv_def pmm_inv_def)
  have one: "0 < unat (1::u64)" by simp
  show ?thesis
  proof (cases "frames_avail s = {}")
    case True
    have no: "\<not> run_free s b 1" if "b < unat (mem_size s)" for b
    proof
      assume run: "run_free s b 1"
      have "frame_lo s b < 2 ^ 64" by (rule frame_lo_bound [OF inv(2)]) (use that in simp)
      then have "managed s (of_nat (frame_lo s b)) 1 b" using that by (simp add: managed_one unat_of_nat_u64)
      then have "of_nat (frame_lo s b) \<in> frames_avail s" using run by (auto simp: frames_avail_def run_free_def)
      then show False using True by simp
    qed
    then show ?thesis using True allocate_spec [OF inv(2) one] by fastforce
  next
    case False
    then obtain g where g: "g < unat (mem_size s)" "\<not> frame_used s g"
      by (auto simp: frames_avail_def managed_one)
    then have "run_free s g 1" by (auto simp: run_free_def less_Suc_eq_le dest: le_antisym)
    then obtain s' f where f: "allocate s 1 = Some (s', Some (to_address s f))" "unat f + 1 \<le> unat (mem_size s)"
      "run_free s (unat f) 1" "frames_set s {unat f..<unat f + 1} True s'"
      using allocate_spec [OF inv(2) one] g(1) by fastforce
    let ?p = "to_address s f"
    have man: "managed s ?p 1 (unat f)" using unat_to_address [OF inv(2), of f] f(2) by (simp add: managed_one)
    have fs: "frames_set s {unat f} True s'" using f(4) by simp
    note ms = managed_frames_set [OF fs] and rs = reserved_frames_set [OF fs]
    have used: "frame_used s' h = (h = unat f \<or> frame_used s h)" if "managed s q 1 h" for q h
      using frame_used_frames_set [OF fs inv(2), of h] that by (simp add: managed_one)
    have free: "\<not> frame_used s (unat f)" using f(3) by (simp add: run_free_def)
    have un: "is_reserved_or_bit_map_address s ?p 1 = 0"
      by (rule free_run_unprotected [OF inv(2,3,4) man]) (use f(3) in simp)
    have u: "q = ?p \<longleftrightarrow> h = unat f" if "managed s q 1 h" for q h
      using that man managed_unique [OF inv(2), of q 1 h 1 "unat f"] by (auto simp: managed_one word_unat_eqI)
    have "frames_avail s' = frames_avail s - {?p}"
      using used u man by (auto simp: frames_avail_def ms)
    moreover have "frames_owned s' = insert ?p (frames_owned s)"
      using used u man un by (auto simp: frames_owned_def ms rs)
    moreover have "?p \<in> frames_avail s" using man free by (auto simp: frames_avail_def)
    moreover have "pmm_inv s'" using pmm_step_inv [OF step_allocate [OF one f(1)] inv(1)] by simp
    then have "bitmap_inv w s'"
      using bitmap_inv_frames_set [OF fs] assms by simp
    ultimately show ?thesis using f(1) by blast
  qed
qed

lemma bitmap_release:
  assumes "bitmap_inv w s" and "p \<in> frames_owned s"
  shows "\<exists>s'. pmm_free s p 1 = Some (s', True) \<and> bitmap_inv w s' \<and>
    frames_avail s' = insert p (frames_avail s) \<and> frames_owned s' = frames_owned s - {p}"
proof -
  have inv: "pmm_inv s" "pmm_ok s" using assms by (simp_all add: bitmap_inv_def pmm_inv_def)
  obtain f where f: "managed s p 1 f" "frame_used s f" "is_reserved_or_bit_map_address s p 1 = 0"
    using assms(2) by (auto simp: frames_owned_def)
  obtain s' where s': "pmm_free s p 1 = Some (s', True)" "frames_set s {f..<f + 1} False s'"
    using pmm_free_spec [OF inv(2) f(1)] f(3) by auto
  have fs: "frames_set s {f} False s'" using s'(2) by simp
  note ms = managed_frames_set [OF fs] and rs = reserved_frames_set [OF fs]
  have used: "frame_used s' h = (h \<noteq> f \<and> frame_used s h)" if "managed s q 1 h" for q h
    using frame_used_frames_set [OF fs inv(2), of h] that by (simp add: managed_one)
  have u: "q = p \<longleftrightarrow> h = f" if "managed s q 1 h" for q h
    using that f(1) managed_unique [OF inv(2), of q 1 h 1 f] by (auto simp: managed_one word_unat_eqI)
  have "frames_avail s' = insert p (frames_avail s)"
    using used u f(1) by (auto simp: frames_avail_def ms)
  moreover have "frames_owned s' = frames_owned s - {p}"
    using used u f by (auto simp: frames_owned_def ms rs)
  moreover have "pmm_inv s'" using pmm_step_inv [OF step_free [OF f(1) s'(1)] inv(1)] by simp
  then have "bitmap_inv w s'"
    using bitmap_inv_frames_set [OF fs] assms by simp
  ultimately show ?thesis using s'(1) by blast
qed

lemma bitmap_disjoint: "bitmap_inv w s \<Longrightarrow> frames_avail s \<inter> frames_owned s = {}"
  using managed_unique [of s] by (fastforce simp: frames_avail_def frames_owned_def bitmap_inv_def pmm_inv_def)

interpretation bm: frame_allocator w bitmap_ops "bitmap_inv w" frames_avail frames_owned for w
  by unfold_locales
    (use bitmap_alloc bitmap_release bitmap_disjoint frames_avail_frame in
      \<open>simp_all add: bitmap_ops_def, simp add: bitmap_inv_def\<close>)

section \<open>Properties\<close>

text \<open>Eight frames of which five are free; the base page table is in frame 2 and maps nothing.\<close>

definition sample_space :: "pmm paging" where
  "sample_space = \<lparr>width = 48, tables = (\<lambda>_ _. 0),
     frames = sample_pmm\<lparr>mem_size := 8, bitmap := [0x07],
       mem_map := \<lparr>mm_map = [\<lparr>rstart = 0, rsize = 0x2000, rtype = RESERVED\<rparr>,
                            \<lparr>rstart = 0x2000, rsize = 0x6000, rtype = USABLE\<rparr>],
                   mm_free = 0x6000, mm_reserved = 0x2000, mm_num = 2\<rparr>\<rparr>\<rparr>"

definition sample_base :: page_table where
  "sample_base = interp_as_base_page_table 0x2000"

lemma sample_pmm8_inv: "bitmap_inv 48 (frames sample_space)"
proof -
  let ?s = "frames sample_space"
  have u: "frame_used ?s 0" "frame_used ?s 1" "frame_used ?s 2"
    by (simp_all add: frame_used_def sample_space_def bit_numeral_rec)
  have f: "f \<ge> 3" if "\<not> frame_used ?s f" for f
  proof (rule ccontr)
    assume "\<not> 3 \<le> f"
    then have "f = 0 \<or> f = 1 \<or> f = 2" by auto
    then show False using u that by auto
  qed
  have "guard ?s"
    unfolding guard_def
  proof (intro allI impI)
    fix g assume "g < unat (mem_size ?s)" "\<not> frame_used ?s g"
    then have "g \<ge> 3" by (intro f)
    then show "(\<forall>r\<in>set (regions_of ?s). rtype r \<noteq> USABLE \<longrightarrow> \<not> overlaps ?s (unat (rstart r)) (unat (region_end r)) g) \<and>
      (pmm_init ?s \<longrightarrow> \<not> overlaps ?s (unat (p_bitmap ?s)) (bitmap_hi ?s) g)"
      by (auto simp: sample_space_def sample_pmm_def regions_of_def overlaps_def frame_lo_def region_end_def
          bitmap_hi_def memory_align_def)
  qed
  moreover have "regions_ok ?s" "pmm_ok ?s"
    by (simp_all add: regions_ok_def pmm_ok_def sample_space_def sample_pmm_def regions_of_def region_end_def)
  ultimately show ?thesis
    by (simp add: bitmap_inv_def pmm_inv_def width_ok_def)
       (simp add: sample_space_def sample_pmm_def PAGE_SIZE_def PAGE_FRAME_OFFSET_MASK_def frame_lo_def)
qed

lemma sample_base_ok: "base_ok sample_space sample_base" "root_of sample_space sample_base = 0x2000"
proof -
  show "root_of sample_space sample_base = 0x2000" by code_simp
  then show "base_ok sample_space sample_base"
    by (simp add: base_ok_def sample_base_def interp_as_base_page_table_def width_ok_def) (simp add: sample_space_def)
qed

lemma sample_space_ok: "space_ok 48 (bitmap_inv 48) frames_owned (root_of sample_space sample_base) sample_space"
proof -
  have m: "space_map 48 (tables sample_space) 0x2000 is = (if is = [] then Some 0x2000 else None)" for "is"
    by (cases "is") (simp_all add: space_map_def lookup_entry_def sample_space_def)
  have "managed (frames sample_space) 0x2000 1 2"
    by (simp add: managed_one frame_lo_def sample_space_def sample_pmm_def)
  moreover have "frame_used (frames sample_space) 2" by code_simp
  moreover have "is_reserved_or_bit_map_address (frames sample_space) 0x2000 1 = 0" by code_simp
  ultimately have "0x2000 \<in> frames_owned (frames sample_space)" unfolding frames_owned_def by blast
  moreover have "frame_addr 48 0x2000" unfolding frame_addr_def by code_simp
  moreover have "width sample_space = 48" by (simp add: sample_space_def)
  ultimately show ?thesis
    unfolding sample_base_ok space_ok_def
    by (auto simp: map_tree_def map_tables_def m sample_pmm8_inv split: if_splits)
qed

text \<open>
  \<open>find_page\<close> reads the page table hierarchy as the partial map from pages to page frames that it
  stands for: it succeeds exactly on the mapped pages, with the frame of the page plus the offset of
  the address, and otherwise reports the level at which the entry is missing.
\<close>

theorem find_page_reads_the_map:
  assumes "base_ok s base"
  shows "(case mapped s base v of
      Some f \<Rightarrow> status (find_page s base v) = OKAY \<and>
        physical_address (find_page s base v) = f + (v AND PAGE_FRAME_OFFSET_MASK)
    | None \<Rightarrow> \<exists>l \<le> 3. status (find_page s base v) = PAGE_TABLE_ENTRY_MISSING \<and>
        level (find_page s base v) = of_nat l \<and> table_on_path (width s) (tables s) (root_of s base) v l = None)"
  using access_spec [OF assms, of v]
  by (auto simp: walk_result_def find_page_def mapped_def table_on_path_0 split: option.splits)

theorem find_page_reads_the_map_witness:
  "case mapped sample_space sample_base 0x400000 of
      Some f \<Rightarrow> status (find_page sample_space sample_base 0x400000) = OKAY \<and>
        physical_address (find_page sample_space sample_base 0x400000) = f + (0x400000 AND PAGE_FRAME_OFFSET_MASK)
    | None \<Rightarrow> \<exists>l \<le> 3. status (find_page sample_space sample_base 0x400000) = PAGE_TABLE_ENTRY_MISSING \<and>
        level (find_page sample_space sample_base 0x400000) = of_nat l \<and>
        table_on_path (width sample_space) (tables sample_space) (root_of sample_space sample_base) 0x400000 l = None"
  by (rule find_page_reads_the_map [OF sample_base_ok(1)])

text \<open>
  C12. Mapping a page through the bitmap allocator either maps exactly this page to the given frame,
  leaves every other page as it was and takes its new tables from the free frames, or reports
  \<open>ALLOC_ERROR\<close> and leaves the address space and the free frames as they were, every intermediate
  table it had already taken being given back. The address space stays sound in both cases.
\<close>

theorem allocate_page_maps_one_page:
  assumes "space_ok w (bitmap_inv w) frames_owned (root_of s base) s" and "base_ok s base"
    and "flags_ok flags" and "frame_addr w f"
  shows "\<exists>s' pta. allocate_page bitmap_ops s base v f flags = Some (s', pta) \<and>
    space_ok w (bitmap_inv w) frames_owned (root_of s base) s' \<and> base_ok s' base \<and>
    (if mapped s base v = None \<and> status pta = OKAY
     then (\<forall>u. mapped s' base u = (if page_path u = page_path v then Some f else mapped s base u)) \<and>
       map_tables (smap (root_of s base) s') = map_tables (smap (root_of s base) s) \<union>
         (frames_avail (frames s) - frames_avail (frames s')) \<and>
       frames_avail (frames s') \<subseteq> frames_avail (frames s) \<and> frames_owned (frames s) \<subseteq> frames_owned (frames s')
     else status pta = ALLOC_ERROR \<and> smap (root_of s base) s' = smap (root_of s base) s \<and>
       frames_avail (frames s') = frames_avail (frames s) \<and> frames_owned (frames s') = frames_owned (frames s))"
  by (rule bm.allocate_page_spec [OF assms])

theorem allocate_page_maps_one_page_witness:
  "\<exists>s' pta. allocate_page bitmap_ops sample_space sample_base 0x400000 0x200000 3 = Some (s', pta) \<and>
    mapped s' sample_base 0x400000 = Some 0x200000 \<and> mapped s' sample_base 0x401000 = None"
proof -
  have st: "map_option (\<lambda>(s', pta). status pta) (allocate_page bitmap_ops sample_space sample_base 0x400000 0x200000 3) =
      Some OKAY" by code_simp
  have n: "mapped sample_space sample_base 0x400000 = None" "mapped sample_space sample_base 0x401000 = None" by code_simp+
  have p: "page_path 0x401000 \<noteq> page_path 0x400000" by code_simp
  have fl: "flags_ok 3" by code_simp
  have fr: "frame_addr 48 0x200000" unfolding frame_addr_def by code_simp
  from allocate_page_maps_one_page [OF sample_space_ok sample_base_ok(1) fl fr, where v = "0x400000"] st
  obtain s' pta where s': "allocate_page bitmap_ops sample_space sample_base 0x400000 0x200000 3 = Some (s', pta)"
    "status pta = OKAY"
    "\<forall>u. mapped s' sample_base u = (if page_path u = page_path 0x400000 then Some 0x200000 else mapped sample_space sample_base u)"
    using n by auto
  then show ?thesis using n p by simp
qed

text \<open>
  C13. Unmapping a mapped page always succeeds: exactly this page disappears from the map, the
  intermediate tables that became empty go back to the free frames and no others do, and no table
  left on the path of the page is empty. Unmapping a page that is not mapped reports the missing
  entry and changes nothing.
\<close>

theorem free_page_unmaps_one_page:
  assumes "space_ok w (bitmap_inv w) frames_owned (root_of s base) s" and "base_ok s base"
  shows "\<exists>s' pta. free_page bitmap_ops s base v = Some (s', pta) \<and>
    space_ok w (bitmap_inv w) frames_owned (root_of s base) s' \<and> base_ok s' base \<and>
    (if mapped s base v = None then status pta = PAGE_TABLE_ENTRY_MISSING \<and> s' = s
     else status pta = OKAY \<and>
       (\<forall>u. mapped s' base u = (if page_path u = page_path v then None else mapped s base u)) \<and>
       map_tables (smap (root_of s base) s') \<subseteq> map_tables (smap (root_of s base) s) \<and>
       frames_avail (frames s') = frames_avail (frames s) \<union>
         (map_tables (smap (root_of s base) s) - map_tables (smap (root_of s base) s')) \<and>
       frames_owned (frames s') = frames_owned (frames s) -
         (map_tables (smap (root_of s base) s) - map_tables (smap (root_of s base) s')) \<and>
       (\<forall>j. 1 \<le> j \<and> j \<le> 3 \<and> smap (root_of s base) s' (level_path v j) \<noteq> None \<longrightarrow>
         (\<exists>x. smap (root_of s base) s' (level_path v j @ [x]) \<noteq> None)))"
  by (rule bm.free_page_spec [OF assms])

theorem free_page_unmaps_one_page_witness:
  "\<exists>s1 pta1 s2 pta2. allocate_page bitmap_ops sample_space sample_base 0x400000 0x200000 3 = Some (s1, pta1) \<and>
    mapped s1 sample_base 0x400000 = Some 0x200000 \<and>
    free_page bitmap_ops s1 sample_base 0x400000 = Some (s2, pta2) \<and> status pta2 = OKAY \<and>
    mapped s2 sample_base 0x400000 = None"
proof -
  have st: "map_option (\<lambda>(s', pta). status pta) (allocate_page bitmap_ops sample_space sample_base 0x400000 0x200000 3) =
      Some OKAY" by code_simp
  have n: "mapped sample_space sample_base 0x400000 = None" by code_simp
  have fl: "flags_ok 3" by code_simp
  have fr: "frame_addr 48 0x200000" unfolding frame_addr_def by code_simp
  from bm.allocate_page_spec [OF sample_space_ok sample_base_ok(1) fl fr, where v = "0x400000"] st
  obtain s1 pta1 where s1: "allocate_page bitmap_ops sample_space sample_base 0x400000 0x200000 3 = Some (s1, pta1)"
    "status pta1 = OKAY" "mapped s1 sample_base 0x400000 = Some 0x200000" "base_ok s1 sample_base"
    "space_ok 48 (bitmap_inv 48) frames_owned (root_of sample_space sample_base) s1"
    using n by auto
  have "width s1 = width sample_space" using space_okD(1) [OF s1(5)] by (simp add: sample_space_def)
  then have "root_of sample_space sample_base = root_of s1 sample_base" by simp
  with free_page_unmaps_one_page [OF _ s1(4), where w = 48 and v = "0x400000"] s1 show ?thesis by auto
qed

end
