(* ===== verification/Virtual_Memory.thy ===== *)
theory Virtual_Memory
  imports Address_Spaces
begin

text \<open>
  The virtual memory manager (\<^verbatim>\<open>Src/Memory/VirtualMemoryManager.cpp\<close>): start-up of the kernel address
  space, allocation and freeing of pages together with their page frames, and creation and removal
  of whole address spaces. It composes paging with the physical memory manager. Log messages are
  left out.
\<close>

section \<open>State\<close>

datatype vmm_start_failure = VMM_NONE | BASE_PT_ALLOC_FAIL | HHDM_MAPPING_FAIL | KERNEL_CODE_MAPPING_FAIL
  | PMM_MAPPING_FAIL | KERNEL_HEAP_MAPPING_FAIL

record alloc_entries_result =
  region_name :: string
  has_error :: bool
  alloc_pta :: page_table_access
  free_pta :: page_table_access
  claim_error :: bool

definition no_result :: alloc_entries_result where
  "no_result = \<lparr>region_name = '''', has_error = False, alloc_pta = new_access, free_pta = new_access, claim_error = False\<rparr>"

text \<open>\<open>base_addr\<close> is the address in the CPU's base page table register.\<close>

record 's vmm =
  space :: "'s paging"
  base_addr :: physical_addr
  user_space_end :: virtual_addr
  start_fail :: vmm_start_failure
  ksear :: alloc_entries_result

definition loaded_base :: "'s vmm \<Rightarrow> page_table" where
  "loaded_base m = interp_as_base_page_table (base_addr m)"

section \<open>Pages with their page frames\<close>

definition vmm_allocate ::
  "'s pmm_ops \<Rightarrow> 's paging \<Rightarrow> page_table \<Rightarrow> virtual_addr \<Rightarrow> u16 \<Rightarrow> ('s paging \<times> bool) option" where
  "vmm_allocate ops s base v flags = do {
     (fr, r) \<leftarrow> op_allocate ops (frames s);
     let s = s\<lparr>frames := fr\<rparr>;
     case r of
       None \<Rightarrow> Some (s, False)
     | Some p \<Rightarrow> do {
         (s, pta) \<leftarrow> allocate_page ops s base v p flags;
         if status pta \<noteq> OKAY then do {
           (fr, _) \<leftarrow> op_free ops (frames s) p;
           Some (s\<lparr>frames := fr\<rparr>, False) }
         else Some (s, True) } }"

text \<open>The frame to free is looked up in the loaded address space, whatever \<open>base\<close> is.\<close>

definition vmm_free ::
  "'s pmm_ops \<Rightarrow> 's paging \<Rightarrow> page_table \<Rightarrow> page_table \<Rightarrow> virtual_addr \<Rightarrow> ('s paging \<times> bool) option" where
  "vmm_free ops s loaded base v =
     (case virtual_to_physical_address s loaded v of
        None \<Rightarrow> Some (s, False)
      | Some p \<Rightarrow> do {
          (s, pta) \<leftarrow> free_page ops s base v;
          if status pta = FREE_ERROR then Some (s, False)
          else do {
            (fr, ok) \<leftarrow> op_free ops (frames s) p;
            Some (s\<lparr>frames := fr\<rparr>, ok) } })"

text \<open>\<open>allocate_some\<close> is the loop over the pages; \<open>Some i\<close> is the index of the page that failed.\<close>

fun allocate_some ::
  "'s pmm_ops \<Rightarrow> page_table \<Rightarrow> virtual_addr \<Rightarrow> u16 \<Rightarrow> nat \<Rightarrow> nat \<Rightarrow> 's paging \<Rightarrow> ('s paging \<times> nat option) option" where
  "allocate_some ops base v flags i 0 s = Some (s, None)"
| "allocate_some ops base v flags i (Suc n) s = do {
     (s, ok) \<leftarrow> vmm_allocate ops s base (v + of_nat i * PAGE_SIZE) flags;
     if ok then allocate_some ops base v flags (Suc i) n s else Some (s, Some i) }"

fun free_some ::
  "'s pmm_ops \<Rightarrow> page_table \<Rightarrow> page_table \<Rightarrow> virtual_addr \<Rightarrow> nat \<Rightarrow> nat \<Rightarrow> bool \<Rightarrow> 's paging \<Rightarrow> ('s paging \<times> bool) option" where
  "free_some ops loaded base v i 0 all_free s = Some (s, all_free)"
| "free_some ops loaded base v i (Suc n) all_free s = do {
     (s, ok) \<leftarrow> vmm_free ops s loaded base (v + of_nat i * PAGE_SIZE);
     free_some ops loaded base v (Suc i) n (all_free \<and> ok) s }"

definition vmm_free_pages ::
  "'s pmm_ops \<Rightarrow> 's paging \<Rightarrow> page_table \<Rightarrow> page_table \<Rightarrow> virtual_addr \<Rightarrow> u64 \<Rightarrow> ('s paging \<times> bool) option" where
  "vmm_free_pages ops s loaded base v pages = free_some ops loaded base v 0 (unat pages) True s"

definition vmm_allocate_pages ::
  "'s pmm_ops \<Rightarrow> 's paging \<Rightarrow> page_table \<Rightarrow> page_table \<Rightarrow> virtual_addr \<Rightarrow> u16 \<Rightarrow> u64 \<Rightarrow> ('s paging \<times> bool) option" where
  "vmm_allocate_pages ops s loaded base v flags pages = do {
     (s, failed) \<leftarrow> allocate_some ops base v flags 0 (unat pages) s;
     case failed of
       None \<Rightarrow> Some (s, True)
     | Some i \<Rightarrow> do {
         (s, _) \<leftarrow> free_some ops loaded base v 0 (i + 1) True s;
         Some (s, False) } }"

section \<open>Kernel space entries\<close>

text \<open>
  The loop that maps a region; it counts in 64 bits and stops at the size, so a size in the last page
  of the address range would never stop (\<open>None\<close>). The second component is \<open>alloc_limit\<close>.
\<close>

partial_function (option) map_region ::
  "'s pmm_ops \<Rightarrow> page_table \<Rightarrow> virtual_addr \<Rightarrow> memory_region \<Rightarrow> u16 \<Rightarrow> u64 \<Rightarrow> 's paging \<Rightarrow> page_table_access \<Rightarrow>
   ('s paging \<times> u64 \<times> page_table_access) option" where
  "map_region ops base v_start reg flags i s pta =
     (if i < rsize reg then do {
        (s, pta) \<leftarrow> allocate_page ops s base (v_start + i) (rstart reg + i) flags;
        if status pta \<noteq> OKAY then Some (s, i, pta)
        else map_region ops base v_start reg flags (i + PAGE_SIZE) s pta }
      else Some (s, 0, pta))"

partial_function (option) unmap_region ::
  "'s pmm_ops \<Rightarrow> page_table \<Rightarrow> page_table \<Rightarrow> virtual_addr \<Rightarrow> u64 \<Rightarrow> u64 \<Rightarrow> 's paging \<Rightarrow> page_table_access \<Rightarrow>
   ('s paging \<times> page_table_access) option" where
  "unmap_region ops loaded base v_start limit i s pta =
     (if i < limit then
        (case virtual_to_physical_address s loaded (v_start + i) of
           None \<Rightarrow> unmap_region ops loaded base v_start limit (i + PAGE_SIZE) s pta
         | Some p \<Rightarrow> do {
             (s, pta) \<leftarrow> free_page ops s base (v_start + i);
             if status pta \<noteq> OKAY then unmap_region ops loaded base v_start limit (i + PAGE_SIZE) s pta
             else do {
               (fr, _) \<leftarrow> op_free ops (frames s) p;
               unmap_region ops loaded base v_start limit (i + PAGE_SIZE) (s\<lparr>frames := fr\<rparr>) pta } })
      else Some (s, pta))"

definition allocate_kernel_space_entries ::
  "'s pmm_ops \<Rightarrow> 's paging \<Rightarrow> page_table \<Rightarrow> page_table \<Rightarrow> virtual_addr \<Rightarrow> memory_region \<Rightarrow> u16 \<Rightarrow>
   memory_region_type \<Rightarrow> memory_map \<Rightarrow> string \<Rightarrow> ('s paging \<times> memory_map \<times> alloc_entries_result) option" where
  "allocate_kernel_space_entries ops s loaded base v_start p_reg flags claim_type v_map nm = do {
     (s, alloc_limit, pta) \<leftarrow> map_region ops base v_start p_reg flags 0 s new_access;
     if 0 < alloc_limit then do {
       (s, fpta) \<leftarrow> unmap_region ops loaded base v_start alloc_limit 0 s (new_access\<lparr>status := OKAY\<rparr>);
       Some (s, v_map, \<lparr>region_name = nm, has_error = True, alloc_pta = pta, free_pta = fpta, claim_error = False\<rparr>) }
     else
       let (v_map, _, claimed) = claim v_map \<lparr>rstart = v_start, rsize = rsize p_reg, rtype = claim_type\<rparr> (ucast PAGE_SIZE)
       in Some (s, v_map, \<lparr>region_name = nm, has_error = False, alloc_pta = pta,
                 free_pta = new_access\<lparr>status := OKAY\<rparr>, claim_error = claimed\<rparr>) }"

section \<open>Address spaces\<close>

text \<open>The loop over the entries of a table; \<open>rec\<close> frees what an entry leads to.\<close>

fun free_entries ::
  "(u64 \<Rightarrow> 's paging \<Rightarrow> ('s paging \<times> bool) option) \<Rightarrow> page_table \<Rightarrow> u16 list \<Rightarrow> 's paging \<Rightarrow> ('s paging \<times> bool) option" where
  "free_entries rec pt [] s = Some (s, True)"
| "free_entries rec pt (i # is) s =
     (let e = pt_get s pt i
      in if is_present e then do {
           (s, ok) \<leftarrow> rec (native_entry e) s;
           if \<not> ok then Some (s, False) else free_entries rec pt is (pt_update s pt i 0) }
         else free_entries rec pt is s)"

definition free_frame_of :: "'s pmm_ops \<Rightarrow> u64 \<Rightarrow> 's paging \<Rightarrow> ('s paging \<times> bool) option" where
  "free_frame_of ops e s = do {
     (fr, ok) \<leftarrow> op_free ops (frames s) (entry_address (width s) e);
     Some (s\<lparr>frames := fr\<rparr>, ok) }"

fun free_virtual_address_space_rec ::
  "'s pmm_ops \<Rightarrow> nat \<Rightarrow> u64 \<Rightarrow> 's paging \<Rightarrow> ('s paging \<times> bool) option" where
  "free_virtual_address_space_rec ops 0 e s = free_frame_of ops e s"
| "free_virtual_address_space_rec ops (Suc n) e s =
     (let pt = \<lparr>pt_npte = e, pt_ptr = physical_to_virtual_address (entry_address (width s) e), pt_level = of_nat (Suc n)\<rparr>;
          limit = (if is_base_page_table pt then unat PT_MAX_SIZE div 2 else unat PT_MAX_SIZE)
      in do {
        (s, ok) \<leftarrow> free_entries (free_virtual_address_space_rec ops n) pt (map of_nat [0..<limit]) s;
        if \<not> ok then Some (s, False)
        else if is_base_page_table pt then Some (s, True)
        else free_frame_of ops e s })"

definition free_virtual_address_space ::
  "'s pmm_ops \<Rightarrow> 's paging \<Rightarrow> physical_addr \<Rightarrow> ('s paging \<times> bool) option" where
  "free_virtual_address_space ops s p =
     (let e = to_page_table_entry (interp_as_base_page_table p)
      in free_virtual_address_space_rec ops (unat (pte_level e)) (native_entry e) s)"

fun copy_entries :: "page_table \<Rightarrow> page_table \<Rightarrow> u16 list \<Rightarrow> 's paging \<Rightarrow> 's paging" where
  "copy_entries new loaded [] s = s"
| "copy_entries new loaded (i # is) s =
     (let pte = pt_get s loaded i;
          b_pte = (if PT_MAX_SIZE div 2 \<le> i \<and> is_present pte then native_entry pte else 0)
      in copy_entries new loaded is (pt_update s new i b_pte))"

definition allocate_virtual_address_space ::
  "'s pmm_ops \<Rightarrow> 's paging \<Rightarrow> page_table \<Rightarrow> ('s paging \<times> physical_addr option) option" where
  "allocate_virtual_address_space ops s loaded = do {
     (fr, r) \<leftarrow> op_allocate ops (frames s);
     let s = s\<lparr>frames := fr\<rparr>;
     case r of
       None \<Rightarrow> Some (s, None)
     | Some p \<Rightarrow> Some (copy_entries (interp_as_base_page_table p) loaded
                   (map of_nat [0..<unat PT_MAX_SIZE]) s, Some p) }"

fun share_entries :: "page_table \<Rightarrow> page_table \<Rightarrow> u16 list \<Rightarrow> 's paging \<Rightarrow> 's paging" where
  "share_entries new loaded [] s = s"
| "share_entries new loaded (i # is) s =
     share_entries new loaded is (pt_update s new i (native_entry (pt_get s loaded i)))"

definition load_virtual_address_space :: "'s vmm \<Rightarrow> physical_addr \<Rightarrow> 's vmm" where
  "load_virtual_address_space m p =
     (if p \<noteq> base_addr m then
        let s = share_entries (interp_as_base_page_table p) (loaded_base m)
                  (map of_nat [unat PT_MAX_SIZE div 2..<unat PT_MAX_SIZE]) (space m)
        in m\<lparr>space := s, base_addr := p\<rparr>
      else m)"

section \<open>Start-up\<close>

fun scan_physical_map :: "memory_region list \<Rightarrow> memory_region \<Rightarrow> u64 \<Rightarrow> memory_region \<times> u64" where
  "scan_physical_map [] kcode hhdm_size = (kcode, hhdm_size)"
| "scan_physical_map (r # rs) kcode hhdm_size =
     scan_physical_map rs (if rtype r = KERNEL_CODE then r else kcode) (max (region_end r) hhdm_size)"

definition user_end :: "memory_region list \<Rightarrow> virtual_addr \<Rightarrow> virtual_addr" where
  "user_end v_map old =
     (case find (\<lambda>r. rtype r = USERSPACE) v_map of None \<Rightarrow> old | Some r \<Rightarrow> to_canonical_form (region_end r))"

text \<open>
  The end of user space after the start-up, from the map of the virtual memory; it becomes the guardian's limit. The end
  is exclusive, so the canonical form extends its bit 47 over the upper bits.
\<close>

definition kernel_memory_start :: virtual_addr where
  "kernel_memory_start = user_end create_virtual_memory_map 0"

lemma kernel_memory_start_value: "kernel_memory_start = 0xFFFF800000000000"
  by code_simp

text \<open>\<open>pmm_bk\<close> is the region of the memory index that the physical memory manager reports.\<close>

definition vmm_start ::
  "'s pmm_ops \<Rightarrow> 's vmm \<Rightarrow> memory_region list \<Rightarrow> memory_map \<Rightarrow> memory_region \<Rightarrow> u64 \<Rightarrow>
   ('s vmm \<times> memory_map \<times> vmm_start_failure) option" where
  "vmm_start ops m p_map v_map pmm_bk heap_size = do {
     let flags = PRESENT OR WRITE_ALLOWED;
     let fail = (\<lambda>m v_map f. Some (m\<lparr>start_fail := f\<rparr>, v_map, f));
     (fr, r) \<leftarrow> op_allocate ops (frames (space m));
     let m = m\<lparr>space := (space m)\<lparr>frames := fr\<rparr>\<rparr>;
     case r of
       None \<Rightarrow> fail m v_map BASE_PT_ALLOC_FAIL
     | Some p \<Rightarrow> do {
         let loaded = loaded_base m;
         let base = interp_as_base_page_table p;
         let (kernel_code, hhdm_size) = scan_physical_map p_map \<lparr>rstart = 0, rsize = 0, rtype = NONE\<rparr> 0;
         (s, v_map, k) \<leftarrow> allocate_kernel_space_entries ops (set_zero (space m) p) loaded base HHDM_BEGIN
            \<lparr>rstart = 0, rsize = hhdm_size, rtype = NONE\<rparr> flags HHDM v_map ''Higher Half Direct Map'';
         if has_error k then fail (m\<lparr>space := s, ksear := k\<rparr>) v_map HHDM_MAPPING_FAIL
         else do {
           (s, v_map, k) \<leftarrow> allocate_kernel_space_entries ops s loaded base PMM_MEM_BEGIN pmm_bk flags
              PMM_RESERVED v_map ''Physical Memory Manager'';
           if has_error k then fail (m\<lparr>space := s, ksear := k\<rparr>) v_map PMM_MAPPING_FAIL
           else do {
             let (v_map, _, claimed) = claim v_map \<lparr>rstart = HEAP_BEGIN, rsize = heap_size, rtype = KERNEL_HEAP\<rparr> (ucast PAGE_SIZE);
             if \<not> claimed then
               fail (m\<lparr>space := s, ksear := \<lparr>region_name = ''Kernel Heap'', has_error = True,
                   alloc_pta = new_access\<lparr>status := OKAY\<rparr>, free_pta = new_access\<lparr>status := OKAY\<rparr>, claim_error = True\<rparr>\<rparr>)
                 v_map KERNEL_HEAP_MAPPING_FAIL
             else do {
               (s, v_map, k) \<leftarrow> allocate_kernel_space_entries ops s loaded base KERNEL_CODE_BEGIN kernel_code flags
                  KERNEL_CODE v_map ''Kernel Code'';
               if has_error k then fail (m\<lparr>space := s, ksear := k\<rparr>) v_map KERNEL_CODE_MAPPING_FAIL
               else Some (m\<lparr>space := s, base_addr := p, user_space_end := user_end (mm_map v_map) (user_space_end m)\<rparr>,
                          v_map, VMM_NONE) } } } } }"

declare map_region.simps [code] unmap_region.simps [code]

section \<open>What the operations do\<close>

lemma mapped_frames: "mapped (s\<lparr>frames := fr\<rparr>) base v = mapped s base v"
  by (simp add: mapped_def)

lemma base_ok_frames: "base_ok (s\<lparr>frames := fr\<rparr>) base = base_ok s base"
  by (simp add: base_ok_def)

lemma mapped_of_smap:
  assumes "smap (root_of s base) s' = smap (root_of s base) s" and "width s' = width s"
  shows "mapped s' base u = mapped s base u"
  using assms by (simp add: mapped_def space_map_def fun_eq_iff) (metis length_page_path order_refl)

context frame_allocator begin

lemma vmm_allocate_spec:
  assumes ok: "space_ok w fok owned (root_of s base) s" and "base_ok s base" and "flags_ok flags"
  shows "\<exists>s' ok. vmm_allocate ops s base v flags = Some (s', ok) \<and>
    space_ok w fok owned (root_of s base) s' \<and> base_ok s' base \<and>
    (if ok then mapped s base v = None \<and>
       (\<exists>p \<in> avail (frames s). p \<in> owned (frames s') \<and> p \<notin> map_tables (smap (root_of s base) s') \<and>
         (\<forall>u. mapped s' base u = (if page_path u = page_path v then Some p else mapped s base u)))
     else (\<forall>u. mapped s' base u = mapped s base u) \<and>
       map_tables (smap (root_of s base) s') = map_tables (smap (root_of s base) s) \<and>
       avail (frames s') = avail (frames s) \<and> owned (frames s') = owned (frames s))"
proof -
  let ?r = "root_of s base"
  note k = space_okD [OF ok]
  show ?thesis
  proof (cases "avail (frames s) = {}")
    case True
    then have "op_allocate ops (frames s) = Some (frames s, None)" using alloc [OF k(5)] by auto
    then have "vmm_allocate ops s base v flags = Some (s, False)" by (simp add: vmm_allocate_def)
    then show ?thesis using ok assms(2) by auto
  next
    case False
    then obtain fr p where fr: "op_allocate ops (frames s) = Some (fr, Some p)" "fok fr" "p \<in> avail (frames s)"
      "avail fr = avail (frames s) - {p}" "owned fr = insert p (owned (frames s))"
      using alloc [OF k(5)] by auto
    have pn: "p \<notin> owned (frames s)" using disjoint [OF k(5)] fr(3) by auto
    let ?s = "s\<lparr>frames := fr\<rparr>"
    have sk: "space_ok w fok owned (root_of ?s base) ?s" "base_ok ?s base"
      using k fr assms(2) by (auto simp: space_ok_def base_ok_frames)
    obtain s1 pta where s1: "allocate_page ops ?s base v p flags = Some (s1, pta)"
      "space_ok w fok owned ?r s1" "base_ok s1 base"
      "if mapped s base v = None \<and> status pta = OKAY
       then (\<forall>u. mapped s1 base u = (if page_path u = page_path v then Some p else mapped s base u)) \<and>
         map_tables (smap ?r s1) = map_tables (smap ?r s) \<union> (avail fr - avail (frames s1)) \<and>
         avail (frames s1) \<subseteq> avail fr \<and> owned fr \<subseteq> owned (frames s1)
       else status pta = ALLOC_ERROR \<and> smap ?r s1 = smap ?r s \<and>
         avail (frames s1) = avail fr \<and> owned (frames s1) = owned fr"
      using allocate_page_spec [OF sk assms(3) frame [OF k(5) fr(3)], of v]
      by (auto simp: mapped_frames cong: if_cong)
    show ?thesis
    proof (cases "mapped s base v = None \<and> status pta = OKAY")
      case True
      have "p \<notin> map_tables (smap ?r s1)" using True s1(4) k(1,6) pn fr(4) by auto
      then show ?thesis using True s1 fr by (auto simp: vmm_allocate_def)
    next
      case False
      then have err: "status pta = ALLOC_ERROR" "smap ?r s1 = smap ?r s" "avail (frames s1) = avail fr"
        "owned (frames s1) = owned fr" using s1(4) by auto
      note k1 = space_okD [OF s1(2)]
      have "p \<in> owned (frames s1)" using err(4) fr(5) by simp
      then obtain fr2 where fr2: "op_free ops (frames s1) p = Some (fr2, True)" "fok fr2"
        "avail fr2 = insert p (avail (frames s1))" "owned fr2 = owned (frames s1) - {p}"
        using release [OF k1(5)] by blast
      let ?s2 = "s1\<lparr>frames := fr2\<rparr>"
      have run: "vmm_allocate ops s base v flags = Some (?s2, False)"
        using fr(1) s1(1) err(1) fr2(1) by (simp add: vmm_allocate_def)
      have av: "avail fr2 = avail (frames s)" "owned fr2 = owned (frames s)"
        using fr2 err fr pn by auto
      have w: "width s1 = width s" using k(1) k1(1) by simp
      have sm: "smap ?r ?s2 = smap ?r s" using err(2) by simp
      have "space_ok w fok owned ?r ?s2" using k k1 av fr2 sm w by (simp add: space_ok_def)
      moreover have "mapped ?s2 base u = mapped s base u" for u
        by (rule mapped_of_smap [OF sm]) (simp add: w)
      ultimately show ?thesis using run av s1(3) sm by (auto simp: base_ok_frames)
    qed
  qed
qed

lemma vmm_free_spec:
  assumes ok: "space_ok w fok owned (root_of s base) s" and "base_ok s base"
    and v: "addr_prefix v \<noteq> HHDM_BEGIN" "v AND PAGE_FRAME_OFFSET_MASK = 0"
    and f: "mapped s base v = Some f" "f \<in> owned (frames s)" "f \<notin> map_tables (smap (root_of s base) s)"
  shows "\<exists>s'. vmm_free ops s base base v = Some (s', True) \<and>
    space_ok w fok owned (root_of s base) s' \<and> base_ok s' base \<and>
    (\<forall>u. mapped s' base u = (if page_path u = page_path v then None else mapped s base u)) \<and>
    f \<in> avail (frames s') \<and> map_tables (smap (root_of s base) s') \<subseteq> map_tables (smap (root_of s base) s) \<and>
    owned (frames s) - map_tables (smap (root_of s base) s) - {f} \<subseteq> owned (frames s')"
proof -
  let ?r = "root_of s base"
  have W: "walk_result s ?r v (access_page_hierarchy s base v)" by (rule access_spec [OF assms(2)])
  then have vp: "virtual_to_physical_address s base v = Some f"
    using f(1) v by (simp add: virtual_to_physical_address_def walk_result_def table_on_path_0 mapped_def Let_def)
  obtain s1 pta where s1: "free_page ops s base v = Some (s1, pta)" "space_ok w fok owned ?r s1" "base_ok s1 base"
    "status pta = OKAY" "\<forall>u. mapped s1 base u = (if page_path u = page_path v then None else mapped s base u)"
    "owned (frames s1) = owned (frames s) - (map_tables (smap ?r s) - map_tables (smap ?r s1))"
    "avail (frames s1) = avail (frames s) \<union> (map_tables (smap ?r s) - map_tables (smap ?r s1))"
    "map_tables (smap ?r s1) \<subseteq> map_tables (smap ?r s)"
    using free_page_spec [OF ok assms(2), of v] f(1) by auto
  note k1 = space_okD [OF s1(2)] and k = space_okD [OF ok]
  have fo: "f \<in> owned (frames s1)" using s1(6) f(2,3) by auto
  then obtain fr where fr: "op_free ops (frames s1) f = Some (fr, True)" "fok fr"
    "avail fr = insert f (avail (frames s1))" "owned fr = owned (frames s1) - {f}"
    using release [OF k1(5)] by blast
  let ?s2 = "s1\<lparr>frames := fr\<rparr>"
  have "f \<notin> map_tables (smap ?r s1)"
  proof
    assume "f \<in> map_tables (smap ?r s1)"
    with s1(8) f(3) show False by auto
  qed
  then have "space_ok w fok owned ?r ?s2" using k1 fr by (auto simp: space_ok_def)
  then show ?thesis using vp s1(1,3,4,5,6,8) fr
    by (auto simp: vmm_free_def mapped_frames base_ok_frames)
qed

end

section \<open>A new address space\<close>

definition kernel_entry :: "'s paging \<Rightarrow> page_table \<Rightarrow> u16 \<Rightarrow> u64" where
  "kernel_entry s loaded i =
     (if PT_MAX_SIZE div 2 \<le> i \<and> is_present (pt_get s loaded i) then native_entry (pt_get s loaded i) else 0)"

lemma pt_get_update_other:
  "pt_ptr t \<noteq> pt_ptr t' \<Longrightarrow> pt_get (pt_update s t i e) t' j = pt_get s t' j"
  by (simp add: pt_get_def pt_update_def)

lemma copy_entries_spec:
  assumes "pt_ptr new \<noteq> pt_ptr loaded"
  shows "copy_entries new loaded is s = s\<lparr>tables := (tables s)(pt_ptr new :=
    (\<lambda>i. if i \<in> set is then kernel_entry s loaded i else tables s (pt_ptr new) i))\<rparr>"
proof (induction "is" arbitrary: s)
  case (Cons j js)
  let ?s = "pt_update s new j (kernel_entry s loaded j)"
  have ke: "kernel_entry ?s loaded i = kernel_entry s loaded i" for i
    by (simp add: kernel_entry_def pt_get_update_other [OF assms])
  have "copy_entries new loaded (j # js) s = copy_entries new loaded js ?s"
    by (simp add: kernel_entry_def Let_def)
  also have "\<dots> = s\<lparr>tables := (tables s)(pt_ptr new :=
      (\<lambda>i. if i \<in> set (j # js) then kernel_entry s loaded i else tables s (pt_ptr new) i))\<rparr>"
    unfolding Cons.IH ke by (rule paging.equality) (auto simp: pt_update_def fun_eq_iff)
  finally show ?case .
qed simp

lemma all_indices: "i \<in> set (map of_nat [0..<unat PT_MAX_SIZE]) \<longleftrightarrow> (i :: u16) < PT_MAX_SIZE"
proof
  assume "i < PT_MAX_SIZE"
  then have "unat i \<in> {0..<unat PT_MAX_SIZE}" by (simp add: word_less_nat_alt)
  then show "i \<in> set (map of_nat [0..<unat PT_MAX_SIZE])"
    by (auto intro!: image_eqI [of i of_nat "unat i"])
next
  assume "i \<in> set (map of_nat [0..<unat PT_MAX_SIZE])"
  then obtain n where "i = of_nat n" "n < unat PT_MAX_SIZE" by auto
  then show "i < PT_MAX_SIZE" by (simp add: word_less_nat_alt unat_of_nat PT_MAX_SIZE_def)
qed

context frame_allocator begin

lemma new_space_spec:
  assumes ok: "space_ok w fok owned (root_of s loaded) s" and base: "base_ok s loaded"
  shows "\<exists>s' r. allocate_virtual_address_space ops s loaded = Some (s', r) \<and>
    (case r of
       None \<Rightarrow> s' = s \<and> avail (frames s) = {}
     | Some p \<Rightarrow> p \<in> avail (frames s) \<and> base_ok s' (interp_as_base_page_table p) \<and>
         (\<forall>u. mapped s' loaded u = mapped s loaded u) \<and>
         (\<forall>u. mapped s' (interp_as_base_page_table p) u =
            (if level_index u 3 < PT_MAX_SIZE div 2 then None else mapped s loaded u)))"
proof (cases "avail (frames s) = {}")
  case True
  then have "op_allocate ops (frames s) = Some (frames s, None)" using alloc [OF space_okD(5) [OF ok]] by auto
  then have "allocate_virtual_address_space ops s loaded = Some (s, None)"
    by (simp add: allocate_virtual_address_space_def)
  then show ?thesis using True by auto
next
  case False
  note k = space_okD [OF ok]
  let ?r = "root_of s loaded"
  obtain fr p where fr: "op_allocate ops (frames s) = Some (fr, Some p)" "p \<in> avail (frames s)"
    using False alloc [OF k(5)] by auto
  have w: "width_ok w" by (rule width [OF k(5)])
  have fp: "frame_addr w p" by (rule frame [OF k(5) fr(2)])
  have pt: "p \<notin> table_frames w (tables s) ?r"
    using k(1,6) fr(2) disjoint [OF k(5)] by (auto simp: map_tables_iff)
  have "?r \<in> table_frames w (tables s) ?r" unfolding table_frames_def by (auto intro: exI [of _ "[]"])
  then have pr: "p \<noteq> ?r" using pt by auto
  let ?new = "interp_as_base_page_table p" and ?s = "s\<lparr>frames := fr\<rparr>"
  define z where "z = (\<lambda>i. if i < PT_MAX_SIZE then kernel_entry ?s loaded i else tables s (physical_to_virtual_address p) i)"
  define s' where "s' = ?s\<lparr>tables := set_table (tables s) p z\<rparr>"
  have ptr: "pt_ptr ?new = physical_to_virtual_address p" "pt_ptr loaded = physical_to_virtual_address ?r"
    "pt_npte ?new = p"
    using base by (simp_all add: interp_as_base_page_table_def base_ok_def)
  have "pt_ptr ?new \<noteq> pt_ptr loaded"
    using physical_to_virtual_inj [OF w fp k(2)] pr ptr by auto
  then have run: "allocate_virtual_address_space ops s loaded = Some (s', Some p)"
    using fr(1) unfolding allocate_virtual_address_space_def s'_def set_table_def z_def
    by (simp add: copy_entries_spec all_indices ptr Let_def cong: if_cong del: set_map)
  have old: "descend w (tables s') ?r is = descend w (tables s) ?r is" if "length is \<le> 4" for "is"
    unfolding s'_def using descend_set_table [OF w k(2) fp pt that] by simp
  have rt: "entry_address w (pt_npte ?new) = p" "width s' = w"
    using fp k(1) by (simp_all add: s'_def ptr(3) frame_addr_def)
  have l: "mapped s' loaded u = mapped s loaded u" for u
    using old [of "page_path u"] rt k(1) by (simp add: mapped_def)
  have first: "lookup_entry w (tables s') p i =
      (if i < PT_MAX_SIZE div 2 then None else lookup_entry w (tables s) ?r i)" for i
    using ptr(2) by (auto simp: s'_def set_table_def lookup_entry_def z_def kernel_entry_def pt_get_def present_iff Let_def not_le)
  have n: "mapped s' ?new u = (if level_index u 3 < PT_MAX_SIZE div 2 then None else mapped s loaded u)" for u
  proof -
    have path: "page_path u = level_index u 3 # [level_index u 2, level_index u 1, level_index u 0]"
      by (simp add: page_path_def)
    have same: "lookup_entry w (tables s') ?r i = lookup_entry w (tables s) ?r i" for i
      using old [of "[i]"] by (simp split: bind_splits)
    show ?thesis
    proof (cases "lookup_entry w (tables s) ?r (level_index u 3)")
      case None
      then show ?thesis unfolding mapped_def rt path using k(1) by (simp add: first)
    next
      case (Some b)
      have "descend w (tables s') ?r (page_path u) = descend w (tables s) ?r (page_path u)" by (rule old) simp
      then show ?thesis using Some k(1) unfolding mapped_def rt path by (simp add: first [unfolded k(1)] same [unfolded k(1)])
    qed
  qed
  have "base_ok s' ?new"
    unfolding base_ok_def using w rt by (simp add: interp_as_base_page_table_def)
  then show ?thesis using run fr(2) l n by auto
qed

end

section \<open>Properties\<close>

text \<open>
  C34. Allocating a page with its page frame either maps the page to a frame that was free and is no
  page table, and leaves every other page as it was, or changes neither the mappings, nor the page
  tables, nor the free frames: the frame and the intermediate tables that were taken are given back.
\<close>

theorem vmm_allocate_maps_a_free_frame:
  assumes "space_ok w (bitmap_inv w) frames_owned (root_of s base) s" and "base_ok s base" and "flags_ok flags"
  shows "\<exists>s' ok. vmm_allocate bitmap_ops s base v flags = Some (s', ok) \<and>
    space_ok w (bitmap_inv w) frames_owned (root_of s base) s' \<and> base_ok s' base \<and>
    (if ok then mapped s base v = None \<and>
       (\<exists>p \<in> frames_avail (frames s). p \<in> frames_owned (frames s') \<and> p \<notin> map_tables (smap (root_of s base) s') \<and>
         (\<forall>u. mapped s' base u = (if page_path u = page_path v then Some p else mapped s base u)))
     else (\<forall>u. mapped s' base u = mapped s base u) \<and>
       map_tables (smap (root_of s base) s') = map_tables (smap (root_of s base) s) \<and>
       frames_avail (frames s') = frames_avail (frames s) \<and> frames_owned (frames s') = frames_owned (frames s))"
  by (rule bm.vmm_allocate_spec [OF assms])

theorem vmm_allocate_maps_a_free_frame_witness:
  "\<exists>s' p. vmm_allocate bitmap_ops sample_space sample_base 0x400000 3 = Some (s', True) \<and>
    p \<in> frames_avail (frames sample_space) \<and> mapped s' sample_base 0x400000 = Some p"
proof -
  have st: "map_option snd (vmm_allocate bitmap_ops sample_space sample_base 0x400000 3) = Some True" by code_simp
  have fl: "flags_ok 3" by code_simp
  from vmm_allocate_maps_a_free_frame [OF sample_space_ok sample_base_ok(1) fl, where v = "0x400000"] st
  show ?thesis by auto
qed

text \<open>
  Freeing a page right after its allocation succeeds, restores every mapping and gives the page
  frame back.
\<close>

theorem vmm_free_undoes_allocate:
  assumes "space_ok w (bitmap_inv w) frames_owned (root_of s base) s" and "base_ok s base" and "flags_ok flags"
    and "addr_prefix v \<noteq> HHDM_BEGIN" and "v AND PAGE_FRAME_OFFSET_MASK = 0"
    and "vmm_allocate bitmap_ops s base v flags = Some (s', True)"
  shows "\<exists>s'' p. vmm_free bitmap_ops s' base base v = Some (s'', True) \<and>
    space_ok w (bitmap_inv w) frames_owned (root_of s base) s'' \<and>
    (\<forall>u. mapped s'' base u = mapped s base u) \<and> mapped s' base v = Some p \<and> p \<in> frames_avail (frames s'')"
proof -
  obtain p where s': "space_ok w (bitmap_inv w) frames_owned (root_of s base) s'" "base_ok s' base"
    "mapped s base v = None" "p \<in> frames_owned (frames s')" "p \<notin> map_tables (smap (root_of s base) s')"
    "\<forall>u. mapped s' base u = (if page_path u = page_path v then Some p else mapped s base u)"
    using bm.vmm_allocate_spec [OF assms(1-3), of v] assms(6) by auto
  have w: "width s' = width s" using space_okD(1) [OF s'(1)] space_okD(1) [OF assms(1)] by simp
  then have r: "root_of s' base = root_of s base" by simp
  have p: "mapped s' base v = Some p" using s'(6) by simp
  obtain s'' where s'': "vmm_free bitmap_ops s' base base v = Some (s'', True)"
    "space_ok w (bitmap_inv w) frames_owned (root_of s base) s''"
    "\<forall>u. mapped s'' base u = (if page_path u = page_path v then None else mapped s' base u)"
    "p \<in> frames_avail (frames s'')"
    using bm.vmm_free_spec [of w s' base v p] s' assms(4,5) p r by auto
  have "mapped s'' base u = mapped s base u" for u
    using s''(3) s'(3,6) by (auto simp: mapped_def)
  then show ?thesis using s'' p by blast
qed

theorem vmm_free_undoes_allocate_witness:
  "\<exists>s' s'' p. vmm_allocate bitmap_ops sample_space sample_base 0x400000 3 = Some (s', True) \<and>
    vmm_free bitmap_ops s' sample_base sample_base 0x400000 = Some (s'', True) \<and>
    mapped s' sample_base 0x400000 = Some p \<and> p \<in> frames_avail (frames s'')"
proof -
  have "map_option snd (vmm_allocate bitmap_ops sample_space sample_base 0x400000 3) = Some True" by code_simp
  then obtain s' where a: "vmm_allocate bitmap_ops sample_space sample_base 0x400000 3 = Some (s', True)" by auto
  have h: "flags_ok 3" "addr_prefix 0x400000 \<noteq> HHDM_BEGIN" "(0x400000 :: u64) AND PAGE_FRAME_OFFSET_MASK = 0"
    by code_simp+
  from vmm_free_undoes_allocate [OF sample_space_ok sample_base_ok(1) h a] a show ?thesis by blast
qed

text \<open>
  A new address space shares the kernel half of the loaded one and has an empty user half: every
  address of the upper half translates as before, no address of the lower half is mapped, and the
  loaded address space is not touched.
\<close>

theorem new_address_space_shares_kernel_half:
  assumes "space_ok w (bitmap_inv w) frames_owned (root_of s loaded) s" and "base_ok s loaded"
  shows "\<exists>s' r. allocate_virtual_address_space bitmap_ops s loaded = Some (s', r) \<and>
    (case r of
       None \<Rightarrow> s' = s \<and> frames_avail (frames s) = {}
     | Some p \<Rightarrow> p \<in> frames_avail (frames s) \<and> base_ok s' (interp_as_base_page_table p) \<and>
         (\<forall>u. mapped s' loaded u = mapped s loaded u) \<and>
         (\<forall>u. mapped s' (interp_as_base_page_table p) u =
            (if level_index u 3 < PT_MAX_SIZE div 2 then None else mapped s loaded u)))"
  by (rule bm.new_space_spec [OF assms])

theorem new_address_space_shares_kernel_half_witness:
  "\<exists>s' r. allocate_virtual_address_space bitmap_ops sample_space sample_base = Some (s', r) \<and>
    (case r of
       None \<Rightarrow> s' = sample_space \<and> frames_avail (frames sample_space) = {}
     | Some p \<Rightarrow> p \<in> frames_avail (frames sample_space) \<and> base_ok s' (interp_as_base_page_table p) \<and>
         (\<forall>u. mapped s' sample_base u = mapped sample_space sample_base u) \<and>
         (\<forall>u. mapped s' (interp_as_base_page_table p) u =
            (if level_index u 3 < PT_MAX_SIZE div 2 then None else mapped sample_space sample_base u)))"
  by (rule new_address_space_shares_kernel_half [OF sample_space_ok sample_base_ok(1)])

text \<open>
  Allocating a range whose first page is already mapped fails, as documented, but the clean-up
  after the failure frees the failed page too: the mapping that was there before is gone and its page
  frame is free although its owner still uses it.
\<close>

theorem failed_allocation_frees_existing_page:
  assumes "space_ok w (bitmap_inv w) frames_owned (root_of s base) s" and "base_ok s base" and "flags_ok flags"
    and "addr_prefix v \<noteq> HHDM_BEGIN" and "v AND PAGE_FRAME_OFFSET_MASK = 0" and "0 < unat n"
    and "mapped s base v = Some f" and "f \<in> frames_owned (frames s)" and "f \<notin> map_tables (smap (root_of s base) s)"
  shows "\<exists>s'. vmm_allocate_pages bitmap_ops s base base v flags n = Some (s', False) \<and>
    mapped s' base v = None \<and> f \<in> frames_avail (frames s')"
proof -
  obtain s1 where s1: "vmm_allocate bitmap_ops s base v flags = Some (s1, False)"
    "space_ok w (bitmap_inv w) frames_owned (root_of s base) s1" "base_ok s1 base"
    "mapped s1 base v = Some f" "f \<in> frames_owned (frames s1)" "f \<notin> map_tables (smap (root_of s base) s1)"
    using bm.vmm_allocate_spec [OF assms(1-3), of v] assms(7-9) by (auto split: if_splits)
  have "width s1 = width s" using space_okD(1) [OF s1(2)] space_okD(1) [OF assms(1)] by simp
  then obtain s2 where s2: "vmm_free bitmap_ops s1 base base v = Some (s2, True)"
    "\<forall>u. mapped s2 base u = (if page_path u = page_path v then None else mapped s1 base u)"
    "f \<in> frames_avail (frames s2)"
    using bm.vmm_free_spec [of w s1 base v f] s1 assms(4,5) by auto
  have "allocate_some bitmap_ops base v flags 0 (unat n) s = Some (s1, Some 0)"
    using assms(6) s1(1) by (cases "unat n") simp_all
  then show ?thesis using s2 by (auto simp: vmm_allocate_pages_def)
qed

theorem failed_allocation_frees_existing_page_witness:
  "\<exists>s1 s2 p. vmm_allocate bitmap_ops sample_space sample_base 0x400000 3 = Some (s1, True) \<and>
    mapped s1 sample_base 0x400000 = Some p \<and>
    vmm_allocate_pages bitmap_ops s1 sample_base sample_base 0x400000 3 2 = Some (s2, False) \<and>
    mapped s2 sample_base 0x400000 = None \<and> p \<in> frames_avail (frames s2)"
proof -
  have st: "map_option snd (vmm_allocate bitmap_ops sample_space sample_base 0x400000 3) = Some True" by code_simp
  have h: "flags_ok 3" "addr_prefix 0x400000 \<noteq> HHDM_BEGIN" "(0x400000 :: u64) AND PAGE_FRAME_OFFSET_MASK = 0"
    "0 < unat (2 :: u64)" by code_simp+
  obtain s1 p where s1: "vmm_allocate bitmap_ops sample_space sample_base 0x400000 3 = Some (s1, True)"
    "space_ok 48 (bitmap_inv 48) frames_owned (root_of sample_space sample_base) s1" "base_ok s1 sample_base"
    "p \<in> frames_owned (frames s1)" "p \<notin> map_tables (smap (root_of sample_space sample_base) s1)"
    "mapped s1 sample_base 0x400000 = Some p"
    using bm.vmm_allocate_spec [OF sample_space_ok sample_base_ok(1) h(1), where v = "0x400000"] st by auto
  have "width s1 = width sample_space" using space_okD(1) [OF s1(2)] by (simp add: sample_space_def)
  then have r: "root_of s1 sample_base = root_of sample_space sample_base" by simp
  from failed_allocation_frees_existing_page [where w = 48 and n = 2, OF _ s1(3) h(1-4) s1(6,4)] s1 r show ?thesis by auto
qed

text \<open>
  When the very first page of a kernel region cannot be mapped, the failure is reported as a
  success: \<open>alloc_limit\<close> is then 0, which the code takes for "no failure", and the start-up goes on
  without the region.
\<close>

theorem first_page_failure_is_reported_as_success:
  assumes "0 < rsize reg" and "allocate_page ops s base v_start (rstart reg) flags = Some (s', pta)"
    and "status pta \<noteq> OKAY"
  shows "\<exists>v_map' k. allocate_kernel_space_entries ops s loaded base v_start reg flags ty v_map nm = Some (s', v_map', k) \<and>
    \<not> has_error k \<and> alloc_pta k = pta"
proof -
  have "map_region ops base v_start reg flags 0 s new_access = Some (s', 0, pta)"
    using assms by (subst map_region.simps) simp
  then show ?thesis by (simp add: allocate_kernel_space_entries_def split: prod.splits)
qed

theorem first_page_failure_is_reported_as_success_witness:
  "\<exists>v_map' k s'. allocate_kernel_space_entries bitmap_ops (sample_space\<lparr>frames := (frames sample_space)\<lparr>bitmap := [0xFF]\<rparr>\<rparr>)
     sample_base sample_base 0x400000 \<lparr>rstart = 0, rsize = 0x1000, rtype = NONE\<rparr> 3 HHDM \<lparr>mm_map = [], mm_free = 0, mm_reserved = 0, mm_num = 0\<rparr> ''x'' = Some (s', v_map', k) \<and>
    \<not> has_error k"
proof -
  let ?s = "sample_space\<lparr>frames := (frames sample_space)\<lparr>bitmap := [0xFF]\<rparr>\<rparr>"
  have "map_option (\<lambda>(s', pta). status pta) (allocate_page bitmap_ops ?s sample_base 0x400000 0 3) = Some ALLOC_ERROR"
    by code_simp
  then obtain s' pta where "allocate_page bitmap_ops ?s sample_base 0x400000 0 3 = Some (s', pta)" "status pta \<noteq> OKAY"
    by auto
  with first_page_failure_is_reported_as_success [of "\<lparr>rstart = 0, rsize = 0x1000, rtype = NONE\<rparr>" bitmap_ops ?s sample_base "0x400000" 3 s' pta
      sample_base HHDM "\<lparr>mm_map = [], mm_free = 0, mm_reserved = 0, mm_num = 0\<rparr>" "''x''"] show ?thesis by auto
qed

end
