(* ===== verification/Memory_Calls.thy ===== *)
theory Memory_Calls
  imports Kernel_Guardian Virtual_Memory
begin

text \<open>
  The memory system calls (\<^verbatim>\<open>Src/SystemCall/MemoryBundle.cpp\<close>): an app maps and unmaps pages of its
  address space. They compose the guardian, the virtual memory manager, paging and the physical
  memory manager.
\<close>

section \<open>State\<close>

text \<open>
  \<open>ctx_base\<close> is the loaded base page table, \<open>ctx_bytes\<close> the memory as the active address space shows it;
  \<open>heap_start\<close> and \<open>heap_limit\<close> belong to the active app.
\<close>

record 's memory_ctx =
  ctx_space :: "'s paging"
  ctx_base :: page_table
  ctx_bytes :: memory
  ctx_kstart :: virtual_addr
  heap_start :: virtual_addr
  heap_limit :: virtual_addr

definition STATUS_OKAY :: u64 where "STATUS_OKAY = 0"
definition STATUS_BAD_ARG :: u64 where "STATUS_BAD_ARG = - 1"
definition STATUS_FAULT :: u64 where "STATUS_FAULT = - 2"

definition PROTECTION_READ :: u64 where "PROTECTION_READ = 1"
definition PROTECTION_WRITE :: u64 where "PROTECTION_WRITE = 2"

section \<open>System calls\<close>

definition memory_get_page_size :: u64 where "memory_get_page_size = PAGE_SIZE"

text \<open>
  The search for a gap in the heap: \<open>free\<close> counts the unmapped pages since \<open>gap\<close>. Addresses may wrap
  around below a heap limit in the last page, so the loop may not end (\<open>None\<close>).
\<close>

partial_function (option) find_gap ::
  "'s paging \<Rightarrow> page_table \<Rightarrow> virtual_addr \<Rightarrow> u64 \<Rightarrow> virtual_addr \<Rightarrow> u64 \<Rightarrow> virtual_addr \<Rightarrow> virtual_addr option" where
  "find_gap s base limit num_pages c free gap =
     (if c < limit then
        if status (find_page s base c) = PAGE_TABLE_ENTRY_MISSING then
          let gap = (if free = 0 then c else gap)
          in if free + 1 = num_pages then Some gap
             else find_gap s base limit num_pages (c + PAGE_SIZE) (free + 1) gap
        else find_gap s base limit num_pages (c + PAGE_SIZE) 0 0
      else Some gap)"

definition align_up :: "virtual_addr \<Rightarrow> virtual_addr" where
  "align_up v = (if memory_is_aligned v PAGE_SIZE then v else memory_align v PAGE_SIZE True)"

text \<open>The address that \<open>memory_allocate_page\<close> maps: chosen, or the requested one if it passes the check.\<close>

definition choose_address :: "'s memory_ctx \<Rightarrow> virtual_addr \<Rightarrow> u64 \<Rightarrow> virtual_addr option option" where
  "choose_address ctx v num_pages =
     (if v = 0 then do {
        gap \<leftarrow> find_gap (ctx_space ctx) (ctx_base ctx) (heap_limit ctx) num_pages (heap_start ctx) 0 0;
        Some (Some (if gap = 0 then heap_limit ctx else gap)) }
      else let kv = align_up v
           in if verify_user_buffer (ctx_kstart ctx) kv (num_pages * PAGE_SIZE) then Some (Some kv) else Some None)"

text \<open>The loop that takes the write permission from the pages again.\<close>

partial_function (option) protect_loop ::
  "'s paging \<Rightarrow> page_table \<Rightarrow> virtual_addr \<Rightarrow> virtual_addr \<Rightarrow> ('s paging \<times> bool) option" where
  "protect_loop s base c stop =
     (if c < stop then
        let (s, pta) = modify_page_flags s base c WRITE_ALLOWED False
        in if status pta \<noteq> OKAY then Some (s, False) else protect_loop s base (c + PAGE_SIZE) stop
      else Some (s, True))"

declare find_gap.simps [code] protect_loop.simps [code]

definition memory_allocate_page ::
  "'s pmm_ops \<Rightarrow> 's memory_ctx \<Rightarrow> u64 \<Rightarrow> u64 \<Rightarrow> u64 \<Rightarrow> ('s memory_ctx \<times> u64) option" where
  "memory_allocate_page ops ctx v num_pages page_protection = do {
     target \<leftarrow> choose_address ctx v num_pages;
     case target of
       None \<Rightarrow> Some (ctx, STATUS_BAD_ARG)
     | Some kv \<Rightarrow>
         if PROTECTION_READ + PROTECTION_WRITE < page_protection then Some (ctx, STATUS_BAD_ARG)
         else do {
           (s, ok) \<leftarrow> vmm_allocate_pages ops (ctx_space ctx) (ctx_base ctx) (ctx_base ctx) kv
                       (PRESENT OR USER_MODE_ACCESS OR WRITE_ALLOWED) num_pages;
           let ctx = ctx\<lparr>ctx_space := s\<rparr>;
           if \<not> ok then Some (ctx, STATUS_FAULT)
           else do {
             let ctx = ctx\<lparr>ctx_bytes := memset (ctx_bytes ctx) kv 0 (num_pages * PAGE_SIZE)\<rparr>;
             (s, ok) \<leftarrow> (if bit_check page_protection 1 then Some (s, True)
                        else protect_loop s (ctx_base ctx) kv (kv + num_pages * PAGE_SIZE));
             let ctx = ctx\<lparr>ctx_space := s\<rparr>;
             if \<not> ok then Some (ctx, STATUS_FAULT)
             else Some (ctx\<lparr>heap_limit := max_of (kv + num_pages * PAGE_SIZE) (heap_limit ctx)\<rparr>, kv) } } }"

definition memory_free_page :: "'s pmm_ops \<Rightarrow> 's memory_ctx \<Rightarrow> u64 \<Rightarrow> u64 \<Rightarrow> ('s memory_ctx \<times> u64) option" where
  "memory_free_page ops ctx v num_pages =
     (let kv = align_up v
      in if \<not> verify_user_buffer (ctx_kstart ctx) kv (num_pages * PAGE_SIZE) then Some (ctx, STATUS_BAD_ARG)
         else do {
           (s, ok) \<leftarrow> vmm_free_pages ops (ctx_space ctx) (ctx_base ctx) (ctx_base ctx) kv num_pages;
           let ctx = ctx\<lparr>ctx_space := s\<rparr>;
           if \<not> ok then Some (ctx, STATUS_FAULT)
           else Some ((if kv + num_pages * PAGE_SIZE = heap_limit ctx then ctx\<lparr>heap_limit := kv\<rparr> else ctx), STATUS_OKAY) })"

section \<open>Freeing a range of pages\<close>

text \<open>
  The pages of \<open>A\<close> have frames of their own: handed out by the allocator, in no page table, and not
  mapped by another page of \<open>A\<close>.
\<close>

definition private_pages ::
  "('s \<Rightarrow> physical_addr set) \<Rightarrow> 's paging \<Rightarrow> page_table \<Rightarrow> virtual_addr set \<Rightarrow> bool" where
  "private_pages owned s base A \<longleftrightarrow>
     (\<forall>u \<in> A. \<forall>f. mapped s base u = Some f \<longrightarrow>
        f \<in> owned (frames s) \<and> f \<notin> map_tables (smap (root_of s base) s) \<and>
        (\<forall>u' \<in> A. mapped s base u' = Some f \<longrightarrow> page_path u' = page_path u))"

definition page_at :: "virtual_addr \<Rightarrow> nat \<Rightarrow> virtual_addr" where "page_at v i = v + of_nat i * PAGE_SIZE"

definition freeable :: "virtual_addr set \<Rightarrow> bool" where
  "freeable A \<longleftrightarrow> (\<forall>u \<in> A. addr_prefix u \<noteq> HHDM_BEGIN \<and> u AND PAGE_FRAME_OFFSET_MASK = 0)"

lemma vmm_free_unmapped:
  assumes "base_ok s base" and "mapped s base v = None" and "addr_prefix v \<noteq> HHDM_BEGIN"
  shows "vmm_free ops s base base v = Some (s, False)"
proof -
  have "walk_result s (root_of s base) v (access_page_hierarchy s base v)" by (rule access_spec [OF assms(1)])
  then have "status (access_page_hierarchy s base v) \<noteq> OKAY"
    using assms(2) by (auto simp: walk_result_def table_on_path_0 mapped_def)
  then show ?thesis using assms(3) by (simp add: vmm_free_def virtual_to_physical_address_def Let_def)
qed

context frame_allocator begin

lemma vmm_free_private:
  assumes ok: "space_ok w fok owned (root_of s base) s" "base_ok s base"
    and A: "private_pages owned s base A" "freeable A" "v \<in> A"
  shows "\<exists>s' b. vmm_free ops s base base v = Some (s', b) \<and> space_ok w fok owned (root_of s base) s' \<and> base_ok s' base \<and>
    private_pages owned s' base A \<and>
    (\<forall>u. mapped s' base u = (if page_path u = page_path v then None else mapped s base u))"
proof (cases "mapped s base v")
  case None
  then have "vmm_free ops s base base v = Some (s, False)"
    using A by (intro vmm_free_unmapped [OF ok(2)]) (auto simp: freeable_def)
  moreover have "mapped s base u = None" if "page_path u = page_path v" for u
    using None that by (simp add: mapped_def)
  ultimately show ?thesis using ok A(1) by auto
next
  case (Some f)
  let ?r = "root_of s base"
  have f: "f \<in> owned (frames s)" "f \<notin> map_tables (smap ?r s)" "\<forall>u \<in> A. mapped s base u = Some f \<longrightarrow> page_path u = page_path v"
    using A(1,3) Some unfolding private_pages_def by blast+
  obtain s' where s': "vmm_free ops s base base v = Some (s', True)" "space_ok w fok owned ?r s'" "base_ok s' base"
    "\<forall>u. mapped s' base u = (if page_path u = page_path v then None else mapped s base u)"
    "map_tables (smap ?r s') \<subseteq> map_tables (smap ?r s)"
    "owned (frames s) - map_tables (smap ?r s) - {f} \<subseteq> owned (frames s')"
    using vmm_free_spec [OF ok _ _ Some f(1,2)] A by (auto simp: freeable_def)
  have w: "width s' = width s" using space_okD(1) [OF s'(2)] space_okD(1) [OF ok(1)] by simp
  have "private_pages owned s' base A"
    unfolding private_pages_def
  proof (intro ballI allI impI)
    fix u g assume u: "u \<in> A" "mapped s' base u = Some g"
    then have g: "mapped s base u = Some g" "page_path u \<noteq> page_path v" using s'(4) by (auto split: if_splits)
    then have "g \<noteq> f" using f(3) u(1) by auto
    moreover have old: "g \<in> owned (frames s)" "g \<notin> map_tables (smap ?r s)"
      "\<forall>u' \<in> A. mapped s base u' = Some g \<longrightarrow> page_path u' = page_path u"
      using A(1) u(1) g(1) unfolding private_pages_def by blast+
    ultimately have "g \<in> owned (frames s')" "g \<notin> map_tables (smap ?r s')" using s'(5,6) by auto
    moreover have "root_of s' base = ?r" using w by simp
    ultimately show "g \<in> owned (frames s') \<and> g \<notin> map_tables (smap (root_of s' base) s') \<and>
        (\<forall>u' \<in> A. mapped s' base u' = Some g \<longrightarrow> page_path u' = page_path u)"
      using old(3) s'(4) by (auto split: if_splits)
  qed
  then show ?thesis using s' by blast
qed

lemma free_some_private:
  assumes "space_ok w fok owned (root_of s base) s" "base_ok s base"
    and "private_pages owned s base A" "freeable A" "\<And>k. k < n \<Longrightarrow> page_at v (i + k) \<in> A"
  shows "\<exists>s' b. free_some ops base base v i n all_free s = Some (s', b) \<and> space_ok w fok owned (root_of s base) s' \<and>
    base_ok s' base \<and>
    (\<forall>u. mapped s' base u =
      (if \<exists>k < n. page_path u = page_path (page_at v (i + k)) then None else mapped s base u))"
  using assms(1-3,5)
proof (induction n arbitrary: i all_free s)
  case (Suc n)
  let ?r = "root_of s base"
  obtain s1 b where s1: "vmm_free ops s base base (page_at v i) = Some (s1, b)" "space_ok w fok owned ?r s1" "base_ok s1 base"
    "private_pages owned s1 base A"
    "\<forall>u. mapped s1 base u = (if page_path u = page_path (page_at v i) then None else mapped s base u)"
    using vmm_free_private [OF Suc.prems(1,2,3) assms(4), of "page_at v i"] Suc.prems(4) [of 0] by auto
  have "width s1 = width s" using space_okD(1) [OF s1(2)] space_okD(1) [OF Suc.prems(1)] by simp
  then have r: "root_of s1 base = ?r" by simp
  have rng: "page_at v (Suc i + k) \<in> A" if "k < n" for k using Suc.prems(4) [of "Suc k"] that by simp
  obtain s2 b2 where s2: "free_some ops base base v (Suc i) n (all_free \<and> b) s1 = Some (s2, b2)"
    "space_ok w fok owned ?r s2" "base_ok s2 base"
    "\<forall>u. mapped s2 base u =
      (if \<exists>k < n. page_path u = page_path (page_at v (Suc i + k)) then None else mapped s1 base u)"
    using Suc.IH [of s1 "Suc i" "all_free \<and> b"] s1(2-4) rng unfolding r by blast
  have "mapped s2 base u =
      (if \<exists>k < Suc n. page_path u = page_path (page_at v (i + k)) then None else mapped s base u)" for u
  proof -
    have "(\<exists>k < Suc n. page_path u = page_path (page_at v (i + k))) \<longleftrightarrow>
        page_path u = page_path (page_at v i) \<or> (\<exists>k < n. page_path u = page_path (page_at v (Suc i + k)))"
      by (auto simp: less_Suc_eq_0_disj)
    then show ?thesis using s2(4) s1(5) by auto
  qed
  moreover have "free_some ops base base v i (Suc n) all_free s = Some (s2, b2)"
    using s1(1) s2(1) by (simp add: page_at_def)
  ultimately show ?case using s2(2,3) by blast
qed (use assms(4) in simp)

end

section \<open>Pages of the user space\<close>

lemma page_offset_take_bit: "u AND PAGE_FRAME_OFFSET_MASK = take_bit 12 (u :: u64)"
  by (simp add: PAGE_FRAME_OFFSET_MASK_def take_bit_eq_mask mask_eq_exp_minus_1)

lemma take_bit_pages: "take_bit 12 (a * PAGE_SIZE) = 0"
proof -
  have "a * PAGE_SIZE = push_bit 12 a" by (simp add: PAGE_SIZE_def push_bit_eq_mult)
  then show ?thesis by (simp add: take_bit_push_bit)
qed

lemma align_up_pages: "\<exists>x. align_up v = x * PAGE_SIZE"
proof (cases "v mod PAGE_SIZE = 0")
  case True
  then have "v = (v div PAGE_SIZE) * PAGE_SIZE" using div_mult_mod_eq [of v PAGE_SIZE] by simp
  then show ?thesis using True by (auto simp: align_up_def memory_is_aligned_def)
next
  case False
  then show ?thesis by (auto simp: align_up_def memory_is_aligned_def memory_align_def Let_def)
qed

lemma page_at_aligned: "page_at (align_up v) k AND PAGE_FRAME_OFFSET_MASK = 0"
proof -
  obtain x where "align_up v = x * PAGE_SIZE" using align_up_pages by blast
  then have "page_at (align_up v) k = (x + of_nat k) * PAGE_SIZE" by (simp add: page_at_def algebra_simps)
  then show ?thesis by (simp add: page_offset_take_bit take_bit_pages)
qed

lemma page_at_less:
  assumes "unat v + unat n * 4096 \<le> unat limit" and "k < unat n"
  shows "page_at v k < limit"
proof -
  have k: "k * 4096 < unat n * 4096" using assms(2) by simp
  then have kk: "k * 4096 < 2 ^ 64" using assms(1) unat_lt_2p64 [of limit] by (simp del: unat_lt_2p64)
  have "unat (of_nat k * PAGE_SIZE) = k * 4096"
    using kk assms(2) by (subst unat_mult_no_wrap) (simp_all add: unat_of_nat_u64 PAGE_SIZE_def)
  then have "unat (page_at v k) = unat v + k * 4096"
    using k assms(1) unat_lt_2p64 [of limit] unfolding page_at_def
    by (subst unat_plus_no_wrap) (simp_all del: unat_lt_2p64)
  then show ?thesis using k assms(1) by (simp add: word_less_nat_alt)
qed

lemma user_address_no_hhdm:
  assumes "u < USER_SPACE_END"
  shows "addr_prefix u \<noteq> HHDM_BEGIN"
proof -
  have "u AND MASK_ADDR_PREFIX \<le> u" by (rule word_and_le2)
  then have "addr_prefix u < HHDM_BEGIN" using assms unfolding addr_prefix_def
    by (rule order.strict_trans1 [OF _ order.strict_trans]) (simp add: USER_SPACE_END_def HHDM_BEGIN_def)
  then show ?thesis by auto
qed

lemma user_address_bit:
  assumes "u < USER_SPACE_END"
  shows "\<not> bit u 47"
proof -
  have "unat u < 2 ^ 47" using assms by (simp add: USER_SPACE_END_def word_less_nat_alt)
  then have "\<not> bit (unat u) 47" by (simp add: bit_iff_odd div_less)
  then show ?thesis by (simp add: bit_unsigned_iff)
qed

lemma page_path_bit: "page_path u = page_path v \<Longrightarrow> bit u 47 = bit v 47"
proof -
  assume "page_path u = page_path v"
  then have "bit (level_index u 3) 8 = bit (level_index v 3) 8" by (simp add: page_path_def)
  moreover have "bit (level_index x 3) 8 = bit x 47" for x
    by (simp add: level_index_def pt_index_def bit_simps)
  ultimately show ?thesis by simp
qed

section \<open>What the free call does\<close>

abbreviation space_fine :: "u8 \<Rightarrow> pmm memory_ctx \<Rightarrow> bool" where
  "space_fine w ctx \<equiv>
     space_ok w (bitmap_inv w) frames_owned (root_of (ctx_space ctx) (ctx_base ctx)) (ctx_space ctx) \<and>
     base_ok (ctx_space ctx) (ctx_base ctx)"

abbreviation ctx_mapped :: "'s memory_ctx \<Rightarrow> virtual_addr \<Rightarrow> physical_addr option" where
  "ctx_mapped ctx u \<equiv> mapped (ctx_space ctx) (ctx_base ctx) u"

text \<open>
  C14. Correctness of the free system call on a kernel that guards memory from the limit of its start-up. A range in
  user space, which does not start at 0, is unmapped page by page; a range whose end lies in kernel memory is refused
  without effect; in both cases no kernel page is unmapped. The theorem is about ranges that end at a canonical address
  without wrapping around, and about pages with frames of their own (\<open>private_pages\<close>). Ranges that wrap around or end
  between user space and kernel memory pass the check; the theorems behind this one show what they do.
\<close>

theorem memory_free_page_unmaps_range:
  assumes "space_fine w ctx" and "ctx_kstart ctx = kernel_memory_start"
    and "unat (align_up v) + unat n * 4096 \<le> unat USER_SPACE_END \<or>
      unat kernel_memory_start \<le> unat (align_up v) + unat n * 4096 \<and> unat (align_up v) + unat n * 4096 < 2 ^ 64"
    and "private_pages frames_owned (ctx_space ctx) (ctx_base ctx) (page_at (align_up v) ` {..<unat n})"
  shows "\<exists>ctx' st. memory_free_page bitmap_ops ctx v n = Some (ctx', st) \<and>
    (if align_up v \<noteq> 0 \<and> unat (align_up v) + unat n * 4096 \<le> unat USER_SPACE_END
     then st \<in> {STATUS_OKAY, STATUS_FAULT} \<and> (\<forall>u. ctx_mapped ctx' u =
       (if \<exists>k < unat n. page_path u = page_path (page_at (align_up v) k) then None else ctx_mapped ctx u))
     else st = STATUS_BAD_ARG \<and> ctx' = ctx) \<and>
    (\<forall>u. bit u 47 \<longrightarrow> ctx_mapped ctx' u = ctx_mapped ctx u)"
proof -
  let ?v = "align_up v" and ?A = "page_at (align_up v) ` {..<unat n}" and ?k = "ctx_kstart ctx"
  have wrap: "unat ?v + unat n * 4096 < 2 ^ 64" using assms(3) by (auto simp: USER_SPACE_END_def)
  have size: "unat (n * PAGE_SIZE) = unat n * 4096"
    using wrap by (subst unat_mult_no_wrap) (simp_all add: PAGE_SIZE_def)
  have "unat ?v + unat n * 4096 < unat ?k \<longleftrightarrow> unat ?v + unat n * 4096 \<le> unat USER_SPACE_END"
    using assms(2,3) by (auto simp: USER_SPACE_END_def kernel_memory_start_value)
  then have check: "verify_user_buffer ?k ?v (n * PAGE_SIZE) \<longleftrightarrow> ?v \<noteq> 0 \<and> unat ?v + unat n * 4096 \<le> unat USER_SPACE_END"
    using verify_user_buffer_no_wrap [of ?v "n * PAGE_SIZE" ?k] wrap size by simp
  show ?thesis
  proof (cases "?v \<noteq> 0 \<and> unat ?v + unat n * 4096 \<le> unat USER_SPACE_END")
    case False
    then have "\<not> verify_user_buffer ?k ?v (n * PAGE_SIZE)" using check by blast
    then have "memory_free_page bitmap_ops ctx v n = Some (ctx, STATUS_BAD_ARG)"
      by (simp add: memory_free_page_def Let_def)
    then show ?thesis using False by (simp only: if_False) blast
  next
    case True
    then have c: "verify_user_buffer ?k ?v (n * PAGE_SIZE)" using check by blast
    have low: "u < USER_SPACE_END" if "u \<in> ?A" for u
      using that True page_at_less [of ?v n USER_SPACE_END] by auto
    have fr: "freeable ?A"
      using low user_address_no_hhdm page_at_aligned unfolding freeable_def by blast
    obtain s' b where s': "free_some bitmap_ops (ctx_base ctx) (ctx_base ctx) ?v 0 (unat n) True (ctx_space ctx) = Some (s', b)"
      "\<forall>u. mapped s' (ctx_base ctx) u =
        (if \<exists>k < unat n. page_path u = page_path (page_at ?v (0 + k)) then None else ctx_mapped ctx u)"
      using bm.free_some_private [of w "ctx_space ctx" "ctx_base ctx" ?A "unat n" ?v 0 True] assms(1,4) fr by auto
    have run: "\<exists>ctx' st. memory_free_page bitmap_ops ctx v n = Some (ctx', st) \<and>
        st \<in> {STATUS_OKAY, STATUS_FAULT} \<and> ctx_space ctx' = s' \<and> ctx_base ctx' = ctx_base ctx"
      using c s'(1) by (simp add: memory_free_page_def vmm_free_pages_def Let_def)
    have "mapped s' (ctx_base ctx) u = ctx_mapped ctx u" if "bit u 47" for u
    proof -
      have "page_path u \<noteq> page_path (page_at ?v k)" if "k < unat n" for k
        using page_path_bit [of u "page_at ?v k"] user_address_bit [OF low, of "page_at ?v k"] \<open>bit u 47\<close> that by auto
      then show ?thesis using s'(2) by auto
    qed
    then show ?thesis using run True s'(2) by auto
  qed
qed

definition sample_ctx :: "pmm memory_ctx" where
  "sample_ctx = \<lparr>ctx_space = sample_space, ctx_base = sample_base, ctx_bytes = (\<lambda>_. 0), ctx_kstart = kernel_memory_start,
     heap_start = 0x400000, heap_limit = 0x400000\<rparr>"

lemma sample_unmapped: "mapped sample_space sample_base u = None"
proof -
  have "page_path u = is \<Longrightarrow> space_map 48 (tables sample_space) 0x2000 is = None" for "is"
    by (cases "is") (auto simp: page_path_def space_map_def lookup_entry_def sample_space_def)
  moreover have w: "width sample_space = 48" by (simp add: sample_space_def)
  moreover have "entry_address 48 (pt_npte sample_base) = 0x2000" using sample_base_ok(2) w by simp
  ultimately show ?thesis
    using length_page_path [of u] by (simp add: mapped_def space_map_def del: length_page_path)
qed

lemma sample_page_mapped:
  obtains s p where "vmm_allocate bitmap_ops sample_space sample_base 0x400000 3 = Some (s, True)"
    "space_ok 48 (bitmap_inv 48) frames_owned (root_of s sample_base) s" "base_ok s sample_base"
    "p \<in> frames_owned (frames s)" "p \<notin> map_tables (smap (root_of s sample_base) s)"
    "\<And>u. mapped s sample_base u = (if page_path u = page_path 0x400000 then Some p else None)"
proof -
  have "map_option snd (vmm_allocate bitmap_ops sample_space sample_base 0x400000 3) = Some True" by code_simp
  then obtain s where s: "vmm_allocate bitmap_ops sample_space sample_base 0x400000 3 = Some (s, True)" by auto
  have fl: "flags_ok 3" by code_simp
  let ?r = "root_of sample_space sample_base"
  obtain p where p: "space_ok 48 (bitmap_inv 48) frames_owned ?r s" "base_ok s sample_base"
    "p \<in> frames_owned (frames s)" "p \<notin> map_tables (smap ?r s)"
    "\<forall>u. mapped s sample_base u = (if page_path u = page_path 0x400000 then Some p else mapped sample_space sample_base u)"
    using bm.vmm_allocate_spec [OF sample_space_ok sample_base_ok(1) fl, of "0x400000"] s by auto
  have "width s = width sample_space" using space_okD(1) [OF p(1)] space_okD(1) [OF sample_space_ok] by simp
  then have r: "root_of s sample_base = ?r" by simp
  show ?thesis using that [OF s _ p(2,3)] p(1,4,5) sample_unmapped unfolding r by simp
qed

lemma memory_free_page_unmaps_range_witness:
  "\<exists>s ctx' st. vmm_allocate bitmap_ops sample_space sample_base 0x400000 3 = Some (s, True) \<and>
     memory_free_page bitmap_ops (sample_ctx\<lparr>ctx_space := s\<rparr>) 0x400000 3 = Some (ctx', st) \<and>
     mapped s sample_base 0x400000 \<noteq> None \<and> ctx_mapped ctx' 0x400000 = None \<and>
     memory_free_page bitmap_ops (sample_ctx\<lparr>ctx_space := s\<rparr>) 0xFFFF800000000000 3 =
       Some (sample_ctx\<lparr>ctx_space := s\<rparr>, STATUS_BAD_ARG)"
proof -
  obtain s p where s: "vmm_allocate bitmap_ops sample_space sample_base 0x400000 3 = Some (s, True)"
    "space_ok 48 (bitmap_inv 48) frames_owned (root_of s sample_base) s" "base_ok s sample_base"
    "p \<in> frames_owned (frames s)" "p \<notin> map_tables (smap (root_of s sample_base) s)"
    "\<And>u. mapped s sample_base u = (if page_path u = page_path 0x400000 then Some p else None)"
    by (rule sample_page_mapped) blast
  let ?ctx = "sample_ctx\<lparr>ctx_space := s\<rparr>"
  have sel: "ctx_space ?ctx = s" "ctx_base ?ctx = sample_base" "ctx_kstart ?ctx = kernel_memory_start"
    by (simp_all add: sample_ctx_def)
  have f: "space_fine 48 ?ctx" using s(2,3) by (simp only: sel)
  have p: "private_pages frames_owned (ctx_space ?ctx) (ctx_base ?ctx) A" for A
    unfolding sel private_pages_def using s(4-6) by auto
  have a: "align_up 0x400000 = 0x400000" "align_up 0xFFFF800000000000 = 0xFFFF800000000000" "page_at 0x400000 0 = 0x400000"
    by (code_simp, code_simp, simp add: page_at_def)
  obtain ctx' st where "memory_free_page bitmap_ops ?ctx 0x400000 3 = Some (ctx', st)"
    "\<forall>u. ctx_mapped ctx' u =
       (if \<exists>k < 3. page_path u = page_path (page_at 0x400000 k) then None else ctx_mapped ?ctx u)"
    using memory_free_page_unmaps_range [OF f sel(3) _ p, of "0x400000" 3] by (auto simp: a(1) USER_SPACE_END_def)
  moreover from this(2) have "ctx_mapped ctx' 0x400000 = None" using a(3) by (metis zero_less_numeral)
  moreover have "memory_free_page bitmap_ops ?ctx 0xFFFF800000000000 3 = Some (?ctx, STATUS_BAD_ARG)"
    using memory_free_page_unmaps_range [OF f sel(3) _ p, of "0xFFFF800000000000" 3]
    by (auto simp: a(2) USER_SPACE_END_def kernel_memory_start_value)
  ultimately show ?thesis using s(1,6) by auto
qed

text \<open>
  The range may also end between user space and kernel memory, at an address that no canonical address follows: the
  check compares with the sign-extended end of user space. The page tables ignore the upper 16 bits, so the call
  unmaps the kernel page with the same lower 48 bits and frees its frame.
\<close>

theorem memory_free_page_unmaps_aliased_page:
  assumes "space_fine w ctx" and "ctx_kstart ctx = kernel_memory_start" and "ctx_mapped ctx 0xFFFFFFFF80000000 = Some f"
    and "f \<in> frames_owned (frames (ctx_space ctx))"
    and "f \<notin> map_tables (smap (root_of (ctx_space ctx) (ctx_base ctx)) (ctx_space ctx))"
  shows "\<exists>ctx'. memory_free_page bitmap_ops ctx 0x0000FFFF80000000 1 = Some (ctx', STATUS_OKAY) \<and>
    ctx_mapped ctx' 0xFFFFFFFF80000000 = None \<and> f \<in> frames_avail (frames (ctx_space ctx'))"
proof -
  let ?v = "0x0000FFFF80000000 :: u64"
  have v: "addr_prefix ?v \<noteq> HHDM_BEGIN" "?v AND PAGE_FRAME_OFFSET_MASK = 0" "align_up ?v = ?v"
    "page_path 0xFFFFFFFF80000000 = page_path ?v" "verify_user_buffer kernel_memory_start ?v (1 * PAGE_SIZE)"
    by code_simp+
  have "ctx_mapped ctx ?v = Some f" using assms(3) v(4) by (simp add: mapped_def)
  then obtain s' where s': "vmm_free bitmap_ops (ctx_space ctx) (ctx_base ctx) (ctx_base ctx) ?v = Some (s', True)"
    "\<forall>u. mapped s' (ctx_base ctx) u = (if page_path u = page_path ?v then None else ctx_mapped ctx u)"
    "f \<in> frames_avail (frames s')"
    using bm.vmm_free_spec [of w "ctx_space ctx" "ctx_base ctx" ?v f] assms(1,4,5) v(1,2) by auto
  then show ?thesis
    using assms(2) v(3-5) by (auto simp: memory_free_page_def vmm_free_pages_def numeral_eq_Suc Let_def)
qed

text \<open>
  C37. The check of the free call can be passed with a kernel address: a range that ends with the
  address space has the end 0, and the call unmaps the last page of the kernel and frees its frame.
\<close>

theorem memory_free_page_unmaps_kernel_page:
  assumes "space_fine w ctx" and "ctx_kstart ctx \<noteq> 0" and "ctx_mapped ctx (- 4096) = Some f"
    and "f \<in> frames_owned (frames (ctx_space ctx))"
    and "f \<notin> map_tables (smap (root_of (ctx_space ctx) (ctx_base ctx)) (ctx_space ctx))"
  shows "\<exists>ctx'. memory_free_page bitmap_ops ctx (- 4096) 1 = Some (ctx', STATUS_OKAY) \<and>
    ctx_mapped ctx' (- 4096) = None \<and> f \<in> frames_avail (frames (ctx_space ctx'))"
proof -
  have v: "addr_prefix (- 4096) \<noteq> HHDM_BEGIN" "(- 4096 :: u64) AND PAGE_FRAME_OFFSET_MASK = 0" "align_up (- 4096) = - 4096"
    "(- 4096 :: u64) + 1 * PAGE_SIZE = 0"
    by code_simp+
  have c: "verify_user_buffer (ctx_kstart ctx) (- 4096) (1 * PAGE_SIZE)"
    unfolding verify_user_buffer_def v(4) using assms(2) by (simp add: word_neq_0_conv)
  obtain s' where s': "vmm_free bitmap_ops (ctx_space ctx) (ctx_base ctx) (ctx_base ctx) (- 4096) = Some (s', True)"
    "\<forall>u. mapped s' (ctx_base ctx) u = (if page_path u = page_path (- 4096) then None else ctx_mapped ctx u)"
    "f \<in> frames_avail (frames s')"
    using bm.vmm_free_spec [of w "ctx_space ctx" "ctx_base ctx" "- 4096" f] assms(1,3-5) v by auto
  then show ?thesis
    using c v(3) by (auto simp: memory_free_page_def vmm_free_pages_def numeral_eq_Suc Let_def)
qed

lemma memory_free_page_unmaps_kernel_page_witness:
  "\<exists>s ctx'. vmm_allocate bitmap_ops sample_space sample_base (- 4096) 3 = Some (s, True) \<and>
    mapped s sample_base (- 4096) \<noteq> None \<and>
    memory_free_page bitmap_ops (sample_ctx\<lparr>ctx_space := s\<rparr>) (- 4096) 1 = Some (ctx', STATUS_OKAY) \<and>
    ctx_mapped ctx' (- 4096) = None"
proof -
  have "map_option snd (vmm_allocate bitmap_ops sample_space sample_base (- 4096) 3) = Some True" by code_simp
  then obtain s where s: "vmm_allocate bitmap_ops sample_space sample_base (- 4096) 3 = Some (s, True)" by auto
  have fl: "flags_ok 3" by code_simp
  let ?r = "root_of sample_space sample_base"
  obtain p where p: "space_ok 48 (bitmap_inv 48) frames_owned ?r s" "base_ok s sample_base"
    "p \<in> frames_owned (frames s)" "p \<notin> map_tables (smap ?r s)" "mapped s sample_base (- 4096) = Some p"
    using bm.vmm_allocate_spec [OF sample_space_ok sample_base_ok(1) fl, of "- 4096"] s by auto
  have "width s = width sample_space" using space_okD(1) [OF p(1)] space_okD(1) [OF sample_space_ok] by simp
  then have r: "root_of s sample_base = ?r" by simp
  let ?ctx = "sample_ctx\<lparr>ctx_space := s\<rparr>"
  have sel: "ctx_space ?ctx = s" "ctx_base ?ctx = sample_base" "ctx_kstart ?ctx = kernel_memory_start"
    by (simp_all add: sample_ctx_def)
  have "\<exists>ctx'. memory_free_page bitmap_ops ?ctx (- 4096) 1 = Some (ctx', STATUS_OKAY) \<and>
      ctx_mapped ctx' (- 4096) = None \<and> p \<in> frames_avail (frames (ctx_space ctx'))"
    using p by (intro memory_free_page_unmaps_kernel_page [of 48]) (simp_all only: sel r, simp_all add: kernel_memory_start_value)
  then show ?thesis using s p(5) by auto
qed

end
