(* ===== verification/Strings.thy ===== *)
theory Strings
  imports Prelude "HOL-Library.Monad_Syntax"
begin

text \<open>
  The kernel's string class and file paths (\<^verbatim>\<open>Src/KRE/String.cpp\<close>, \<^verbatim>\<open>Include/KRE/String.h\<close>,
  \<^verbatim>\<open>Src/VirtualFileSystem/Path.cpp\<close>). A \<open>String\<close> is the list of its characters without the null
  terminator; where the characters are stored (stack buffer or heap) is not modelled. Strings hold no
  null character. A \<open>Path\<close> is its string.
\<close>

section \<open>Characters and searching\<close>

abbreviation code :: "char \<Rightarrow> nat" where "code c \<equiv> of_char c"

fun get_cstr_size :: "string \<Rightarrow> nat" where
  "get_cstr_size [] = 0"
| "get_cstr_size (c # cs) = (if code c = 0 then 0 else Suc (get_cstr_size cs))"

definition lower_char :: "char \<Rightarrow> char" where
  "lower_char c = char_of (code c + (if 0x41 \<le> code c \<and> code c \<le> 0x5A then 32 else 0))"

definition upper_char :: "char \<Rightarrow> char" where
  "upper_char c = char_of (code c - (if 0x61 \<le> code c \<and> code c \<le> 0x7A then 32 else 0))"

definition lower :: "string \<Rightarrow> string" where "lower s = map lower_char s"
definition upper :: "string \<Rightarrow> string" where "upper s = map upper_char s"

definition substring :: "string \<Rightarrow> nat \<Rightarrow> string" where "substring s start = drop start s"
definition substring_len :: "string \<Rightarrow> nat \<Rightarrow> nat \<Rightarrow> string" where
  "substring_len s start len = take len (drop start s)"

fun split_loop :: "string \<Rightarrow> char \<Rightarrow> nat list \<Rightarrow> nat \<Rightarrow> string list \<Rightarrow> nat \<times> string list" where
  "split_loop s sep [] start parts = (start, parts)"
| "split_loop s sep (i # is) start parts =
     (if s ! i = sep then
        split_loop s sep is (i + 1) (if 0 < i - start then parts @ [substring_len s start (i - start)] else parts)
      else split_loop s sep is start parts)"

definition split :: "string \<Rightarrow> char \<Rightarrow> string list" where
  "split s sep =
     (let (start, parts) = split_loop s sep [0..<length s] 0 []
      in if start < length s then parts @ [substring_len s start (length s - start)] else parts)"

definition replace_char :: "string \<Rightarrow> char \<Rightarrow> char \<Rightarrow> string" where
  "replace_char s c r =
     (let new = map (\<lambda>x. if x = c then r else x) s
      in take (if code r = 0 then get_cstr_size new else length s) new)"

fun last_index_loop :: "string \<Rightarrow> char \<Rightarrow> nat \<Rightarrow> int" where
  "last_index_loop s ch 0 = - 1"
| "last_index_loop s ch (Suc i) = (if s ! i = ch then int i else last_index_loop s ch i)"

definition last_index_of :: "string \<Rightarrow> char \<Rightarrow> int" where
  "last_index_of s ch = last_index_loop s ch (length s)"

fun same_chars :: "string \<Rightarrow> string \<Rightarrow> nat \<Rightarrow> bool" where
  "same_chars s p 0 = True"
| "same_chars s p (Suc n) = (same_chars s p n \<and> s ! n = p ! n)"

definition starts_with :: "string \<Rightarrow> string \<Rightarrow> bool" where
  "starts_with s p = (if p = [] then True else if length s < length p then False else same_chars s p (length p))"

definition is_blank :: "char \<Rightarrow> bool" where "is_blank c = (code c \<in> {32, 9, 10, 13})"

definition trim :: "string \<Rightarrow> string" where
  "trim s =
     (let start = length (takeWhile is_blank s);
          stop = start + length (dropWhile is_blank (rev (drop start s)))
      in substring_len s start (stop - start))"

section \<open>Numbers in strings\<close>

datatype radix = DECIMAL | HEX

definition radix_value :: "radix \<Rightarrow> nat" where "radix_value r = (case r of DECIMAL \<Rightarrow> 10 | HEX \<Rightarrow> 16)"

definition hex_chars :: string where "hex_chars = ''0123456789ABCDEF''"

text \<open>The digits that the loop of \<open>int_to_string\<close> writes from the back of its buffer of 32 characters.\<close>

function digits_back :: "'a::len word \<Rightarrow> 'a word \<Rightarrow> nat \<Rightarrow> string \<Rightarrow> string" where
  "digits_back num radix pos out =
     (let out = hex_chars ! unat (num mod radix) # out; num = num div radix
      in if 0 < num \<and> pos + 1 < 32 then digits_back num radix (pos + 1) out else out)"
  by pat_completeness auto

termination digits_back
  by (relation "measure (\<lambda>(num, radix, pos, out). 32 - pos)") auto

definition int_to_string :: "'a::len word \<Rightarrow> radix \<Rightarrow> string" where
  "int_to_string num r = digits_back num (of_nat (radix_value r)) 0 []"

definition digit_value :: "char \<Rightarrow> nat option" where
  "digit_value ch =
     (if 48 \<le> code ch \<and> code ch \<le> 57 then Some (code ch - 48)
      else if 65 \<le> code ch \<and> code ch \<le> 70 then Some (code ch - 55)
      else if 97 \<le> code ch \<and> code ch \<le> 102 then Some (code ch - 87) else None)"

text \<open>
  The loop of \<open>parse_int\<close> from the last character to the first one that is not a sign. The variable
  \<open>num\<close> of the code stays 0, so its overflow test never holds; the digits are added to \<open>out\<close>, which
  the code does not set to 0 first. \<open>Inl out\<close> is the failure, with what it left in \<open>out\<close>.
\<close>

fun parse_loop :: "string \<Rightarrow> nat \<Rightarrow> 'a::len word \<Rightarrow> 'a word \<Rightarrow> 'a word \<Rightarrow> 'a word + 'a word" where
  "parse_loop [] radix num pow out = Inr out"
| "parse_loop (ch # rest) radix num pow out =
     (case digit_value ch of
        None \<Rightarrow> Inl out
      | Some d \<Rightarrow>
          let v = of_nat d
          in if of_nat radix \<le> v then Inl out
             else if num + v * pow < num then Inl out
             else parse_loop rest radix num (pow * of_nat radix) (out + v * pow))"

definition parse_int :: "string \<Rightarrow> radix \<Rightarrow> 'a::len word \<Rightarrow> 'a word + 'a word" where
  "parse_int s r out =
     (if s = [] then Inl out
      else let signed = hd s \<in> {CHR ''-'', CHR ''+''}
           in if signed \<and> length s = 1 then Inl out
              else case parse_loop (rev (if signed then tl s else s)) (radix_value r) 0 1 out of
                     Inl out \<Rightarrow> Inl out
                   | Inr out \<Rightarrow> Inr (out * (if hd s = CHR ''-'' then - 1 else 1)))"

section \<open>Paths\<close>

definition SEP :: char where "SEP = CHR ''/''"

definition get_file_name :: "string \<Rightarrow> string" where
  "get_file_name p = substring p (nat (last_index_of p SEP + 1))"

definition get_file_name_without_extension :: "string \<Rightarrow> string" where
  "get_file_name_without_extension p =
     (let parts = split (get_file_name p) (CHR ''.'') in if 0 < length parts then hd parts else '''')"

definition get_file_extension :: "string \<Rightarrow> string" where
  "get_file_extension p =
     (let parts = split (get_file_name p) (CHR ''.'') in if 1 < length parts then last parts else '''')"

definition get_parent :: "string \<Rightarrow> string" where
  "get_parent p =
     (if p = [] then ''.''
      else if p = ''/'' \<or> p = ''.'' \<or> p = ''..'' then p
      else let idx = last_index_of p SEP
           in if idx = 0 then ''/'' else if idx = - 1 then ''.'' else substring_len p 0 (nat idx))"

definition is_root :: "string \<Rightarrow> bool" where "is_root p = (p = ''/'')"
definition is_absolute :: "string \<Rightarrow> bool" where "is_absolute p = (p \<noteq> [] \<and> p ! 0 = SEP)"

definition path_append :: "string \<Rightarrow> string \<Rightarrow> string" where
  "path_append p part =
     (if p = [] \<and> part = [] then []
      else if p = [] then part
      else if part = [] then p
      else let l = p ! (length p - 1);
               p' = (if l \<noteq> SEP \<and> part ! 0 \<noteq> SEP then p @ [SEP]
                     else if l = SEP \<and> part ! 0 = SEP then substring_len p 0 (length p - 1) else p)
           in p' @ part)"

fun skip_common :: "string list \<Rightarrow> string list \<Rightarrow> string list option" where
  "skip_common ts [] = Some ts"
| "skip_common [] (x # xs) = None"
| "skip_common (t # ts) (x # xs) = (if t \<noteq> x then None else skip_common ts xs)"

definition relative_to :: "string \<Rightarrow> string \<Rightarrow> string" where
  "relative_to this path =
     (if path = [] then []
      else if is_absolute this \<noteq> is_absolute path then []
      else if this = path then []
      else let xs = split path SEP; ts = split this SEP
           in if length ts \<le> length xs then []
              else case skip_common ts xs of None \<Rightarrow> [] | Some rest \<Rightarrow> foldl path_append [] rest)"

text \<open>
  \<open>common_path\<close> walks two lists that are destroyed before the walk starts: reading an element of them is \<open>None\<close>.
\<close>

definition common_path :: "string \<Rightarrow> string \<Rightarrow> string option" where
  "common_path this path =
     (if path = [] then Some []
      else if is_absolute this \<noteq> is_absolute path then Some []
      else if this = path then Some this
      else if split this SEP \<noteq> [] \<and> split path SEP \<noteq> [] then None
      else Some (if is_absolute this then [SEP] else []))"

fun resolve_parts :: "string list \<Rightarrow> string \<Rightarrow> string" where
  "resolve_parts [] out = out"
| "resolve_parts (part # parts) out =
     (if part = ''.'' then resolve_parts parts out
      else if part = ''..'' then resolve_parts parts (get_parent out)
      else resolve_parts parts (path_append out part))"

definition resolve :: "string \<Rightarrow> string \<Rightarrow> string" where
  "resolve p working_dir = resolve_parts (split p SEP) working_dir"

section \<open>Splitting\<close>

text \<open>The specification of \<open>split\<close>: the pieces between separators, without the empty ones.\<close>

fun pieces :: "char \<Rightarrow> string \<Rightarrow> string list" where
  "pieces sep [] = [[]]"
| "pieces sep (c # cs) =
     (if c = sep then [] # pieces sep cs else (c # hd (pieces sep cs)) # tl (pieces sep cs))"

definition tokens :: "char \<Rightarrow> string \<Rightarrow> string list" where
  "tokens sep s = filter (\<lambda>t. t \<noteq> []) (pieces sep s)"

lemma pieces_not_Nil [simp]: "pieces sep s \<noteq> []"
  by (cases s) auto

lemma pieces_no_sep: "sep \<notin> set s \<Longrightarrow> pieces sep s = [s]"
  by (induction s) auto

lemma pieces_append_sep: "sep \<notin> set t \<Longrightarrow> pieces sep (t @ sep # s) = t # pieces sep s"
  by (induction t) auto

lemma tokens_no_sep: "sep \<notin> set s \<Longrightarrow> tokens sep s = (if s = [] then [] else [s])"
  by (simp add: tokens_def pieces_no_sep)

lemma tokens_append_sep:
  "sep \<notin> set t \<Longrightarrow> tokens sep (t @ sep # s) = (if t = [] then [] else [t]) @ tokens sep s"
  by (simp add: tokens_def pieces_append_sep)

lemma pieces_parts: "t \<in> set (pieces sep s) \<Longrightarrow> sep \<notin> set t"
proof (induction s arbitrary: t)
  case (Cons c cs)
  have "set (tl (pieces sep cs)) \<subseteq> set (pieces sep cs)" by (cases "pieces sep cs") auto
  then show ?case using Cons by (auto split: if_splits)
qed simp

lemma tokens_parts: "t \<in> set (tokens sep s) \<Longrightarrow> t \<noteq> [] \<and> sep \<notin> set t"
  by (auto simp: tokens_def dest: pieces_parts)

lemma split_loop_tokens:
  assumes "start \<le> i" and "i \<le> length s" and "sep \<notin> set (take (i - start) (drop start s))"
  shows "(let (start', parts') = split_loop s sep [i..<length s] start parts
     in if start' < length s then parts' @ [substring_len s start' (length s - start')] else parts') =
    parts @ tokens sep (drop start s)"
  using assms
proof (induction "length s - i" arbitrary: i start parts)
  case 0
  then have "i = length s" by simp
  with 0 have "sep \<notin> set (drop start s)" by simp
  then show ?case using 0 \<open>i = length s\<close> by (auto simp: tokens_no_sep substring_len_def)
next
  case (Suc n)
  then have i: "i < length s" by simp
  then have up: "[i..<length s] = i # [Suc i..<length s]" by (rule upt_conv_Cons)
  have part: "take (Suc i - start) (drop start s) = take (i - start) (drop start s) @ [s ! i]"
    using Suc.prems(1) i by (simp add: Suc_diff_le take_Suc_conv_app_nth)
  have whole: "drop start s = take (i - start) (drop start s) @ s ! i # drop (Suc i) s"
  proof -
    have "drop start s = take (i - start) (drop start s) @ drop (i - start) (drop start s)"
      by (rule append_take_drop_id [symmetric])
    also have "drop (i - start) (drop start s) = s ! i # drop (Suc i) s"
      using Suc.prems(1) i by (simp add: Cons_nth_drop_Suc)
    finally show ?thesis .
  qed
  show ?case
  proof (cases "s ! i = sep")
    case True
    have tok: "tokens sep (drop start s) =
        (if i - start = 0 then [] else [take (i - start) (drop start s)]) @ tokens sep (drop (Suc i) s)"
    proof -
      have "tokens sep (drop start s) = tokens sep (take (i - start) (drop start s) @ sep # drop (Suc i) s)"
        using whole True by simp
      also have "\<dots> = (if take (i - start) (drop start s) = [] then [] else [take (i - start) (drop start s)]) @
          tokens sep (drop (Suc i) s)"
        by (rule tokens_append_sep [OF Suc.prems(3)])
      finally show ?thesis using i Suc.prems(1) by (simp split: if_splits)
    qed
    have n: "n = length s - Suc i" using Suc.hyps(2) by simp
    from Suc.hyps(1) [of "Suc i" "i + 1", OF n] i show ?thesis
      unfolding up split_loop.simps by (auto simp: True tok substring_len_def)
  next
    case False
    have "sep \<notin> set (take (Suc i - start) (drop start s))"
      using Suc.prems(3) False by (simp add: part)
    moreover have n: "n = length s - Suc i" using Suc.hyps(2) by simp
    ultimately show ?thesis
      using Suc.hyps(1) [of "Suc i" start, OF n] Suc.prems(1) i unfolding up split_loop.simps by (simp add: False)
  qed
qed

lemma split_tokens: "split s sep = tokens sep s"
  using split_loop_tokens [of 0 0 s sep "[]"] by (simp add: split_def)

section \<open>Printing and parsing numbers\<close>

text \<open>The digits of a number, least significant first.\<close>

function ndigits :: "nat \<Rightarrow> nat \<Rightarrow> nat list" where
  "ndigits b n = (n mod b) # (if 0 < n div b \<and> 1 < b then ndigits b (n div b) else [])"
  by pat_completeness auto

termination ndigits
proof (relation "measure snd")
  fix b n :: nat assume "0 < n div b \<and> 1 < b"
  then show "((b, n div b), (b, n)) \<in> measure snd" by (cases "n = 0") simp_all
qed simp

declare ndigits.simps [simp del]

fun nvalue :: "nat \<Rightarrow> nat list \<Rightarrow> nat" where
  "nvalue b [] = 0"
| "nvalue b (d # ds) = d + b * nvalue b ds"

lemma nvalue_ndigits: "1 < b \<Longrightarrow> nvalue b (ndigits b n) = n"
proof (induction b n rule: ndigits.induct)
  case (1 b n)
  show ?case
  proof (cases "0 < n div b")
    case True
    then have "nvalue b (ndigits b n) = n mod b + b * (n div b)"
      using 1 by (subst ndigits.simps) simp
    then show ?thesis by simp
  next
    case False
    then have "n < b" using 1(2) by (simp add: div_eq_0_iff)
    then show ?thesis using False by (subst ndigits.simps) simp
  qed
qed

lemma ndigits_less: "1 < b \<Longrightarrow> d \<in> set (ndigits b n) \<Longrightarrow> d < b"
proof (induction b n rule: ndigits.induct)
  case (1 b n)
  then show ?case by (subst (asm) (2) ndigits.simps) (auto split: if_splits)
qed

lemma length_ndigits: "1 < b \<Longrightarrow> n < b ^ k \<Longrightarrow> 0 < k \<Longrightarrow> length (ndigits b n) \<le> k"
proof (induction b n arbitrary: k rule: ndigits.induct)
  case (1 b n)
  show ?case
  proof (cases "0 < n div b")
    case True
    obtain j where j: "k = Suc j" using 1(4) by (cases k) auto
    have d: "n div b < b ^ j" using 1(3) j by (simp add: less_mult_imp_div_less mult.commute)
    then have "0 < j" using True by (cases j) auto
    with 1(1) [OF _ 1(2) d] True 1(2) show ?thesis by (subst ndigits.simps) (simp add: j)
  next
    case False
    then show ?thesis using 1(4) by (subst ndigits.simps) simp
  qed
qed

lemma ndigits_not_Nil [simp]: "ndigits b n \<noteq> []"
  by (subst ndigits.simps) simp

declare digits_back.simps [simp del]

lemma radix_word:
  assumes "5 \<le> LENGTH('a::len)"
  shows "unat (of_nat (radix_value r) :: 'a word) = radix_value r" "1 < radix_value r" "radix_value r \<le> 16"
proof -
  have "(2::nat) ^ 5 \<le> 2 ^ LENGTH('a)" using assms by (intro power_increasing) simp_all
  then show "unat (of_nat (radix_value r) :: 'a word) = radix_value r"
    by (cases r) (simp_all add: radix_value_def unat_of_nat take_bit_nat_eq_self)
qed (cases r; simp add: radix_value_def)+

lemma digits_back_ndigits:
  fixes num :: "'a::len word"
  assumes "unat radix = b" and "1 < b" and "pos + length (ndigits b (unat num)) \<le> 32"
  shows "digits_back num radix pos out = rev (map ((!) hex_chars) (ndigits b (unat num))) @ out"
  using assms
proof (induction num radix pos out rule: digits_back.induct)
  case (1 num radix pos out)
  have m: "unat (num mod radix) = unat num mod b" "unat (num div radix) = unat num div b"
    using 1(2) by (simp_all add: unat_mod_word unat_div_word)
  show ?case
  proof (cases "0 < num div radix")
    case True
    then have p: "0 < unat num div b" using m(2) by (simp add: word_less_nat_alt)
    then have nd: "ndigits b (unat num) = (unat num mod b) # ndigits b (unat num div b)"
      using 1(3) by (subst ndigits.simps) simp
    have "1 \<le> length (ndigits b (unat num div b))" by (simp add: Suc_le_eq)
    then have "pos + 1 < 32" using 1(4) unfolding nd length_Cons by linarith
    then show ?thesis
      using True 1(1) [OF refl refl] 1(2-4) nd m by (subst digits_back.simps) (simp add: Let_def)
  next
    case False
    then have "\<not> 0 < unat num div b" using m(2) by (simp add: word_less_nat_alt)
    then have "ndigits b (unat num) = [unat num mod b]" by (subst ndigits.simps) simp
    then show ?thesis using False m by (subst digits_back.simps) (simp add: Let_def)
  qed
qed

lemma nat_less_16: "d < 16 \<longleftrightarrow> d \<in> {0, 1, 2, 3, 4, 5, 6, 7, 8, 9, 10, 11, 12, 13, 14, 15 :: nat}"
  by (simp only: insert_iff empty_iff) presburger

lemma digit_value_hex: "d < 16 \<Longrightarrow> digit_value (hex_chars ! d) = Some d"
  unfolding nat_less_16 by (auto simp: digit_value_def hex_chars_def)

lemma hex_no_sign: "d < 16 \<Longrightarrow> hex_chars ! d \<noteq> CHR ''-'' \<and> hex_chars ! d \<noteq> CHR ''+''"
  unfolding nat_less_16 by (auto simp: hex_chars_def)

lemma parse_loop_digits:
  fixes pow out :: "'a::len word"
  assumes "b \<le> 16" and "b < 2 ^ LENGTH('a)" and "\<And>d. d \<in> set ds \<Longrightarrow> d < b"
  shows "parse_loop (map ((!) hex_chars) ds) b 0 pow out = Inr (out + pow * of_nat (nvalue b ds))"
  using assms(3)
proof (induction ds arbitrary: pow out)
  case (Cons d ds)
  have d: "d < b" "d < 16" "d < 2 ^ LENGTH('a)" using Cons.prems [of d] assms(1,2) by simp_all
  then have "\<not> (of_nat b :: 'a word) \<le> of_nat d" using assms(2)
    by (simp add: word_le_nat_alt unat_of_nat)
  then show ?case using Cons d by (simp add: digit_value_hex Let_def algebra_simps)
qed simp

text \<open>
  Printing a number and parsing the text gives the number back, added to what \<open>out\<close> held before.
\<close>

lemma parse_int_to_string:
  fixes n out :: "'a::len word"
  assumes "5 \<le> LENGTH('a)" and "LENGTH('a) \<le> 64"
  shows "parse_int (int_to_string n r) r out = Inr (out + n)"
proof -
  let ?b = "radix_value r" and ?ds = "ndigits (radix_value r) (unat n)"
  note rw = radix_word [OF assms(1), of r]
  have "unat n < 2 ^ LENGTH('a)" by (rule unsigned_less)
  also have "(2::nat) ^ LENGTH('a) \<le> 2 ^ 64" using assms(2) by (intro power_increasing) simp_all
  also have "(2::nat) ^ 64 \<le> ?b ^ 32" by (cases r) (simp_all add: radix_value_def)
  finally have len: "length ?ds \<le> 32" using length_ndigits [OF rw(2), of "unat n" 32] by simp
  have s: "int_to_string n r = rev (map ((!) hex_chars) ?ds)"
    using digits_back_ndigits [of "of_nat ?b" ?b 0 n "[]"] rw len by (simp add: int_to_string_def)
  have lt: "d < ?b" if "d \<in> set ?ds" for d using ndigits_less [OF rw(2) that] .
  have "hd (int_to_string n r) = hex_chars ! last ?ds" by (simp add: s hd_rev last_map)
  moreover have "last ?ds < 16" using lt [of "last ?ds"] rw(3) by simp
  ultimately have sign: "hd (int_to_string n r) \<notin> {CHR ''-'', CHR ''+''}" using hex_no_sign by auto
  have "parse_loop (rev (int_to_string n r)) ?b 0 1 out = Inr (out + n)"
  proof -
    have "(?b :: nat) < 2 ^ LENGTH('a)" using rw(1) by (metis unsigned_less)
    then show ?thesis unfolding s rev_rev_ident
      by (subst parse_loop_digits) (use rw lt in \<open>simp_all add: nvalue_ndigits\<close>)
  qed
  then show ?thesis using sign s by (simp add: parse_int_def)
qed

section \<open>Canonical paths\<close>

text \<open>An absolute path is the list of its names; \<open>resolve\<close> runs the parts of a path on this stack.\<close>

definition name_ok :: "string \<Rightarrow> bool" where "name_ok c \<longleftrightarrow> c \<noteq> [] \<and> SEP \<notin> set c"

definition body_of :: "string list \<Rightarrow> string" where "body_of cs = concat (map ((#) SEP) cs)"

definition path_of :: "string list \<Rightarrow> string" where
  "path_of cs = (if cs = [] then ''/'' else body_of cs)"

definition resolve_step :: "string list \<Rightarrow> string \<Rightarrow> string list" where
  "resolve_step cs part = (if part = ''.'' then cs else if part = ''..'' then butlast cs else cs @ [part])"

lemma body_of_snoc: "body_of (cs @ [c]) = body_of cs @ SEP # c"
  by (simp add: body_of_def)

lemma body_of_Nil_iff: "body_of cs = [] \<longleftrightarrow> cs = []"
  by (cases cs) (simp_all add: body_of_def)

lemma last_index_loop_none:
  "(\<forall>j < n. s ! (m + j) \<noteq> ch) \<Longrightarrow> last_index_loop s ch (m + n) = last_index_loop s ch m"
  by (induction n) auto

lemma last_index_of_last:
  assumes "ch \<notin> set c"
  shows "last_index_of (a @ ch # c) ch = int (length a)"
proof -
  have "(a @ ch # c) ! (Suc (length a) + j) \<noteq> ch" if "j < length c" for j
    using assms that by (auto simp: nth_append)
  then have "last_index_loop (a @ ch # c) ch (Suc (length a) + length c) =
      last_index_loop (a @ ch # c) ch (Suc (length a))"
    by (intro last_index_loop_none) simp
  then show ?thesis by (simp add: last_index_of_def nth_append)
qed

lemma get_parent_path_of:
  assumes "\<forall>c \<in> set cs. name_ok c"
  shows "get_parent (path_of cs) = path_of (butlast cs)"
proof (cases cs rule: rev_cases)
  case Nil
  then show ?thesis by (simp add: path_of_def get_parent_def)
next
  case (snoc ds c)
  have c: "c \<noteq> []" "SEP \<notin> set c" using assms snoc by (auto simp: name_ok_def)
  have p: "path_of cs = body_of ds @ SEP # c" by (simp add: snoc path_of_def body_of_snoc)
  have "path_of cs \<noteq> ''/''" using c by (cases "body_of ds") (auto simp: p)
  moreover have "hd (path_of cs) = SEP" by (cases ds) (auto simp: p body_of_def)
  then have "path_of cs \<noteq> ''.''" "path_of cs \<noteq> ''..''" by (auto simp: SEP_def)
  moreover have "last_index_of (path_of cs) SEP = int (length (body_of ds))"
    unfolding p by (rule last_index_of_last [OF c(2)])
  ultimately show ?thesis
    using p by (auto simp: get_parent_def Let_def substring_len_def path_of_def snoc body_of_Nil_iff)
qed

lemma get_file_name_path_of:
  assumes "name_ok c"
  shows "get_file_name (path_of (ds @ [c])) = c"
  using last_index_of_last [of SEP c "body_of ds"] assms
  by (simp add: get_file_name_def substring_def path_of_def body_of_snoc name_ok_def nat_add_distrib)

lemma path_append_path_of:
  assumes "\<forall>c \<in> set cs. name_ok c" and "name_ok d"
  shows "path_append (path_of cs) d = path_of (cs @ [d])"
proof (cases cs rule: rev_cases)
  case Nil
  then show ?thesis
    using assms(2) by (cases d) (auto simp: path_of_def path_append_def name_ok_def body_of_def SEP_def)
next
  case (snoc ds c)
  have c: "c \<noteq> []" "SEP \<notin> set c" using assms snoc by (auto simp: name_ok_def)
  have d: "d \<noteq> []" "d ! 0 \<noteq> SEP" using assms(2) by (cases d; auto simp: name_ok_def)+
  have p: "path_of cs = body_of ds @ SEP # c" by (simp add: snoc path_of_def body_of_snoc)
  have "path_of cs ! (length (path_of cs) - 1) = last (path_of cs)" by (simp add: p last_conv_nth)
  also have "\<dots> = last c" using c by (simp add: p)
  also have "\<dots> \<noteq> SEP" using c last_in_set by metis
  finally have "path_append (path_of cs) d = path_of cs @ [SEP] @ d"
    using d by (simp add: path_append_def p Let_def)
  then show ?thesis by (simp add: p path_of_def body_of_def snoc)
qed

lemma resolve_parts_path_of:
  assumes "\<forall>c \<in> set cs. name_ok c" and "\<forall>c \<in> set parts. name_ok c"
  shows "resolve_parts parts (path_of cs) = path_of (foldl resolve_step cs parts)"
  using assms
proof (induction parts arbitrary: cs)
  case (Cons c parts)
  have "\<forall>c \<in> set (resolve_step cs c). name_ok c"
    using Cons.prems by (auto simp: resolve_step_def dest: in_set_butlastD)
  with Cons show ?case
    by (simp add: resolve_step_def get_parent_path_of path_append_path_of)
qed simp

section \<open>Properties\<close>

text \<open>
  C35. \<open>resolve\<close> is the stack machine of path resolution: started in an absolute directory, the parts
  of the path are run in order, where \<open>.\<close> does nothing, \<open>..\<close> drops the last name and stays at the root
  when there is none, and every other part is pushed; the result is again a canonical absolute path.
\<close>

theorem resolve_runs_the_parts:
  assumes "\<forall>c \<in> set cs. name_ok c"
  shows "resolve p (path_of cs) = path_of (foldl resolve_step cs (tokens SEP p))"
  unfolding resolve_def split_tokens
  by (rule resolve_parts_path_of [OF assms]) (use tokens_parts in \<open>auto simp: name_ok_def\<close>)

theorem resolve_runs_the_parts_witness:
  "resolve ''../x//./y/..'' (path_of [''a'', ''b'']) = ''/a/x'' \<and> path_of [''a'', ''x''] = ''/a/x''"
proof -
  have "\<forall>c \<in> set [''a'', ''b'']. name_ok c" by (simp add: name_ok_def SEP_def)
  from resolve_runs_the_parts [OF this, of "''../x//./y/..''"] show ?thesis
    by (simp add: tokens_def resolve_step_def SEP_def path_of_def body_of_def)
qed

text \<open>
  Parsing a printed number, in either radix and at any width up to 64 bits, succeeds and adds the
  number to what the output variable held before the call: it is the round trip only when the caller
  cleared the variable, which the code does not do itself.
\<close>

theorem parse_int_adds_printed_number:
  fixes n out :: "'a::len word"
  assumes "5 \<le> LENGTH('a)" and "LENGTH('a) \<le> 64"
  shows "parse_int (int_to_string n r) r out = Inr (out + n)"
  by (rule parse_int_to_string [OF assms])

theorem parse_int_adds_printed_number_witness:
  "parse_int (int_to_string (48879 :: u64) HEX) HEX 0 = Inr (48879 :: u64) \<and>
   parse_int (int_to_string (48879 :: u64) HEX) HEX 3 = Inr (48882 :: u64)"
  using parse_int_adds_printed_number [of "48879 :: u64" HEX 0] parse_int_adds_printed_number [of "48879 :: u64" HEX 3]
  by simp

end
