(* ===== verification/Text_Format.thy ===== *)
theory Text_Format
  imports Strings "HOL-Library.Signed_Division"
begin

text \<open>
  String formatting (\<^verbatim>\<open>interpolate\<close> and its helpers in \<^verbatim>\<open>Src/KRE/String.cpp\<close>): a state machine over
  the format string that writes into a buffer from its start. The model keeps what has been written;
  its length is \<open>buf_pos\<close>. \<open>None\<close> and \<open>Undefined\<close> stand for a read or write outside an array. The
  arithmetic on floating point numbers is a parameter.
\<close>

section \<open>Arguments\<close>

datatype 'f argument =
    SIGNED_CHAR "8 word" | CHARACTER char | SHORT "16 word" | INTEGER "32 word" | LONG "64 word" | LONG_LONG "64 word"
  | U_CHAR u8 | U_SHORT u16 | U_INT u32 | U_LONG u64 | U_LONG_LONG u64
  | FLOAT 'f | DOUBLE 'f | LONG_DOUBLE 'f | BOOL bool | C_STRING string

definition DEF_STRING_PRECISION :: nat where "DEF_STRING_PRECISION = 255"
definition DEF_FLOAT_PRECISION :: u8 where "DEF_FLOAT_PRECISION = 3"
definition INTERNAL_BUF_SIZE :: nat where "INTERNAL_BUF_SIZE = 32"
definition FMT_BUF_SIZE :: nat where "FMT_BUF_SIZE = 4096"

definition is_digit :: "char \<Rightarrow> bool" where "is_digit c = (48 \<le> code c \<and> code c \<le> 57)"

fun detect_number :: "string \<Rightarrow> nat" where
  "detect_number [] = 0"
| "detect_number (c # cs) = (if is_digit c then Suc (detect_number cs) else 0)"

text \<open>\<open>pow10\<close> has three entries: four digits read past it.\<close>

fun sum_digits :: "string \<Rightarrow> nat \<Rightarrow> nat" where
  "sum_digits s 0 = 0"
| "sum_digits [] (Suc n) = 0"
| "sum_digits (c # cs) (Suc n) = (code c - 48) * [1, 10, 100] ! n + sum_digits cs n"

definition parse_number :: "string \<Rightarrow> nat \<Rightarrow> u8 option" where
  "parse_number s num_end = (if 3 < num_end then None else Some (of_nat (sum_digits s num_end)))"

section \<open>Writing into the buffer\<close>

function pad_loop :: "u64 \<Rightarrow> u64 \<Rightarrow> char \<Rightarrow> nat \<Rightarrow> string \<Rightarrow> string" where
  "pad_loop i n fill buf_len out =
     (if i < n \<and> length out < buf_len then pad_loop (i + 1) n fill buf_len (out @ [fill]) else out)"
  by pat_completeness auto

termination pad_loop
  by (relation "measure (\<lambda>(i, n, fill, buf_len, out). buf_len - length out)") auto

fun write_chars :: "string \<Rightarrow> nat \<Rightarrow> string \<Rightarrow> string" where
  "write_chars [] buf_len out = out"
| "write_chars (c # cs) buf_len out = (if length out < buf_len then write_chars cs buf_len (out @ [c]) else out)"

fun write_reverse :: "string \<Rightarrow> nat \<Rightarrow> nat \<Rightarrow> nat \<Rightarrow> string \<Rightarrow> string" where
  "write_reverse msg 0 limit buf_len out = out"
| "write_reverse msg (Suc n) limit buf_len out =
     (if limit \<le> n \<and> length out < buf_len then write_reverse msg n limit buf_len (out @ [msg ! n]) else out)"

text \<open>The digits of a number in a buffer of 32 characters, least significant first.\<close>

function int_to_buf :: "int \<Rightarrow> nat \<Rightarrow> nat \<Rightarrow> string \<Rightarrow> string option" where
  "int_to_buf num radix precision out =
     (if num smod int radix < 0 \<or> INTERNAL_BUF_SIZE \<le> length out then None
      else let out = out @ [hex_chars ! nat (num smod int radix)]; num = num sdiv int radix
           in if 0 < num \<and> length out < precision then int_to_buf num radix precision out else Some out)"
  by pat_completeness auto

termination int_to_buf
  by (relation "measure (\<lambda>(num, radix, precision, out). INTERNAL_BUF_SIZE - length out)") auto

definition format_string :: "nat \<Rightarrow> string \<Rightarrow> char \<Rightarrow> char \<Rightarrow> u64 \<Rightarrow> nat \<Rightarrow> string \<Rightarrow> string" where
  "format_string buf_len msg fill align width precision out =
     (let b = take precision msg;
          pos = of_nat (length b) :: u64;
          padding = (if pos < width then width - pos else 0);
          (pad_left, pad_right) =
            (if align = CHR ''^'' then (padding div 2, padding - padding div 2)
             else if align = CHR ''<'' then (0, padding) else (padding, 0));
          out = pad_loop 0 pad_left fill buf_len out;
          out = write_chars b buf_len out
      in pad_loop 0 pad_right fill buf_len out)"

definition prefix_text :: "nat \<Rightarrow> string" where
  "prefix_text radix = (if radix = 2 then ''0b'' else if radix = 8 then ''0o'' else if radix = 16 then ''0x'' else '''')"

text \<open>\<open>bits\<close> is the width of the type: negating the least value of a signed type gives it back.\<close>

definition format_number ::
  "nat \<Rightarrow> int \<Rightarrow> nat \<Rightarrow> char \<Rightarrow> char \<Rightarrow> u64 \<Rightarrow> nat \<Rightarrow> bool \<Rightarrow> string \<Rightarrow> string option" where
  "format_number buf_len num bits fill align width radix use_prefix out =
     (let negative = num < 0;
          num = (if negative then signed_take_bit (bits - 1) (0 - num) else num)
      in do {
        b \<leftarrow> int_to_buf num radix DEF_STRING_PRECISION [];
        b \<leftarrow> (if negative then (if INTERNAL_BUF_SIZE \<le> length b then None else Some (b @ ''-'')) else Some b);
        let pos = (of_nat (length b) :: u64);
        let padding = (if pos < width then width - pos else 0);
        let (pad_left, pad_right) =
            (if align = CHR ''^'' then (padding div 2 + 1, padding - (padding div 2 + 1))
             else if align = CHR ''<'' then (0, padding) else (padding, 0));
        let out = (if use_prefix \<and> align = CHR ''='' then out @ prefix_text radix else out);
        let out = pad_loop 0 pad_left fill buf_len out;
        let out = (if use_prefix \<and> align \<noteq> CHR ''='' then out @ prefix_text radix else out);
        let out = write_reverse b (length b) 0 buf_len out;
        Some (pad_loop 0 pad_right fill buf_len out) })"

text \<open>
  The arithmetic on floating point numbers is a parameter: the tests against the number itself, the
  least and the greatest number and 0, the conversion to \<open>long\<close>, \<open>(num - whole) * pow10\<close>,
  \<open>tmp - frac\<close> and the sign of \<open>diff - 0.5\<close>. The table \<open>pow10\<close> has ten entries, the precision may be 10.
\<close>

record 'f float_ops =
  is_nan :: "'f \<Rightarrow> bool"
  below_min :: "'f \<Rightarrow> bool"
  above_max :: "'f \<Rightarrow> bool"
  is_neg :: "'f \<Rightarrow> bool"
  negated :: "'f \<Rightarrow> 'f"
  to_long :: "'f \<Rightarrow> int"
  scaled_rest :: "'f \<Rightarrow> int \<Rightarrow> int \<Rightarrow> 'f"
  minus_long :: "'f \<Rightarrow> int \<Rightarrow> 'f"
  half_sign :: "'f \<Rightarrow> int"

definition round_parts :: "'f float_ops \<Rightarrow> 'f \<Rightarrow> nat \<Rightarrow> int \<times> int" where
  "round_parts fo num precision =
     (let whole = to_long fo num;
          tmp = scaled_rest fo num whole (10 ^ precision);
          frac = to_long fo tmp;
          diff = half_sign fo (minus_long fo tmp frac);
          (whole, frac) =
            (if 0 < diff then (if 10 ^ precision \<le> frac + 1 then (whole + 1, 0) else (whole, frac + 1))
             else if diff < 0 then (whole, frac) else (whole, frac + 1))
      in if precision = 0 then (if 0 \<le> half_sign fo (minus_long fo num whole) then whole + 1 else whole, 0)
         else (whole, frac))"

definition format_floating_point_number ::
  "'f float_ops \<Rightarrow> nat \<Rightarrow> 'f \<Rightarrow> char \<Rightarrow> char \<Rightarrow> u64 \<Rightarrow> nat \<Rightarrow> string \<Rightarrow> string option" where
  "format_floating_point_number fo buf_len num fill align width precision out =
     (if is_nan fo num then Some (format_string buf_len ''nan'' (CHR '' '') (CHR ''>'') 0 3 out)
      else if below_min fo num then Some (format_string buf_len ''-inf'' (CHR '' '') (CHR ''>'') 0 4 out)
      else if above_max fo num then Some (format_string buf_len ''+inf'' (CHR '' '') (CHR ''>'') 0 4 out)
      else let precision = min precision 10;
               (num, out) = (if is_neg fo num \<and> length out < buf_len then (negated fo num, out @ ''-'') else (num, out));
               negative = is_neg fo num;
               num = (if negative then negated fo num else num)
      in if 10 \<le> precision then None
      else let (whole, frac) = round_parts fo num precision
      in do {
        whole_buf \<leftarrow> int_to_buf whole 10 32 [];
        whole_buf \<leftarrow> (if negative then (if INTERNAL_BUF_SIZE \<le> length whole_buf then None else Some (whole_buf @ ''-''))
                       else Some whole_buf);
        frac_buf \<leftarrow> int_to_buf frac 10 precision [];
        let frac_buf = frac_buf @ replicate (precision - length frac_buf) (CHR ''0'');
        let frac_limit = length (takeWhile (\<lambda>c. c = CHR ''0'') frac_buf);
        let used = (of_nat (length whole_buf + 1 + length frac_buf - frac_limit) :: u64);
        let padding = (if used < width then width - used else 0);
        let (pad_left, pad_right) =
            (if align = CHR ''^'' then (padding div 2, padding - padding div 2)
             else if align = CHR ''<'' then (0, padding) else (padding, 0));
        let out = pad_loop 0 pad_left fill buf_len out;
        let out = write_reverse whole_buf (length whole_buf) 0 buf_len out;
        let out = (if length out < buf_len then out @ ''.'' else out);
        let out = write_reverse frac_buf (length frac_buf) frac_limit buf_len out;
        Some (pad_loop 0 pad_right fill buf_len out) })"

declare pad_loop.simps [simp del] int_to_buf.simps [simp del]

section \<open>How much is written\<close>

text \<open>
  Every writer stops at the end of the buffer, except for the radix prefix of a number (two characters)
  and for a single character.
\<close>

lemma length_pad_loop: "length out \<le> k \<Longrightarrow> buf_len \<le> k \<Longrightarrow> length (pad_loop i n fill buf_len out) \<le> k"
  by (induction i n fill buf_len out rule: pad_loop.induct) (subst pad_loop.simps, simp)

lemma length_write_chars: "length out \<le> k \<Longrightarrow> buf_len \<le> k \<Longrightarrow> length (write_chars cs buf_len out) \<le> k"
  by (induction cs buf_len out rule: write_chars.induct) simp_all

lemma length_write_reverse:
  "length out \<le> k \<Longrightarrow> buf_len \<le> k \<Longrightarrow> length (write_reverse msg n limit buf_len out) \<le> k"
  by (induction msg n limit buf_len out rule: write_reverse.induct) simp_all

lemmas writers_length = length_pad_loop length_write_chars length_write_reverse

lemma length_format_string:
  "length out \<le> k \<Longrightarrow> buf_len \<le> k \<Longrightarrow> length (format_string buf_len msg fill align width prec out) \<le> k"
  unfolding format_string_def Let_def by (simp add: writers_length split: prod.split)

lemma length_prefix_text: "length (prefix_text radix) \<le> 2"
  by (simp add: prefix_text_def)

lemma length_number_text:
  assumes "length out \<le> buf_len"
  shows "length (pad_loop 0 r fill buf_len (write_reverse b n 0 buf_len
      (let o1 = pad_loop 0 l fill buf_len (if pre \<and> align = CHR ''='' then out @ prefix_text radix else out)
       in if pre \<and> align \<noteq> CHR ''='' then o1 @ prefix_text radix else o1))) \<le> buf_len + 2"
proof (intro length_pad_loop length_write_reverse)
  have pre: "length (prefix_text radix) \<le> 2" by (rule length_prefix_text)
  have "length (pad_loop 0 l fill buf_len out) \<le> buf_len" using assms by (rule length_pad_loop) simp
  moreover have "length (pad_loop 0 l fill buf_len (out @ prefix_text radix)) \<le> buf_len + 2"
    using assms pre by (intro length_pad_loop) simp_all
  ultimately show "length (let o1 = pad_loop 0 l fill buf_len
        (if pre \<and> align = CHR ''='' then out @ prefix_text radix else out)
      in if pre \<and> align \<noteq> CHR ''='' then o1 @ prefix_text radix else o1) \<le> buf_len + 2"
    using pre by (simp add: Let_def)
qed simp_all

lemma length_format_number:
  assumes "format_number buf_len num bits fill align width radix pre out = Some t" and "length out \<le> buf_len"
  shows "length t \<le> buf_len + 2"
proof -
  obtain b l r where "t = pad_loop 0 r fill buf_len (write_reverse b (length b) 0 buf_len
      (let o1 = pad_loop 0 l fill buf_len (if pre \<and> align = CHR ''='' then out @ prefix_text radix else out)
       in if pre \<and> align \<noteq> CHR ''='' then o1 @ prefix_text radix else o1))"
    using assms(1) unfolding format_number_def Let_def
    by (simp only: bind_eq_Some_conv prod.case_eq_if option.inject) blast
  then show ?thesis using length_number_text [OF assms(2)] by simp
qed

lemma length_format_floating_point_number:
  assumes "format_floating_point_number fo buf_len num fill align width prec out = Some t" and "length out \<le> buf_len"
  shows "length t \<le> buf_len"
proof (cases "is_nan fo num \<or> below_min fo num \<or> above_max fo num")
  case True
  then show ?thesis
    using assms by (auto simp: format_floating_point_number_def intro: length_format_string split: if_splits)
next
  case False
  let ?o = "snd (if is_neg fo num \<and> length out < buf_len then (negated fo num, out @ ''-'') else (num, out))"
  have prec: "\<not> 10 \<le> min prec 10"
    using assms(1) False by (simp add: format_floating_point_number_def Let_def prod.case_eq_if split: if_split_asm)
  have n: "is_nan fo num = False" "below_min fo num = False" "above_max fo num = False" using False by simp_all
  obtain f nf lf w nw l r where t: "t = pad_loop 0 r fill buf_len (write_reverse f nf lf buf_len
      (let o1 = write_reverse w nw 0 buf_len (pad_loop 0 l fill buf_len ?o)
       in if length o1 < buf_len then o1 @ ''.'' else o1))"
    using assms(1) prec unfolding format_floating_point_number_def Let_def
    by (simp only: n bind_eq_Some_conv prod.case_eq_if option.inject if_False if_True simp_thms) blast
  have "length ?o \<le> buf_len" using assms(2) by simp
  then have "length (write_reverse w nw 0 buf_len (pad_loop 0 l fill buf_len ?o)) \<le> buf_len"
    by (intro writers_length) simp_all
  then show ?thesis unfolding t by (intro writers_length) (simp_all add: Let_def)
qed

section \<open>The format state machine\<close>

datatype parser_state = START | INDEX | FILL_ALIGN | PREFIX | WIDTH | PRECISION | TYPE_STATE | END_STATE

record fmt_state =
  fmt :: string
  pstate :: parser_state
  out :: string
  auto_idx_listing :: nat
  arg_pos :: u64
  fill :: char
  align :: char
  use_prefix :: bool
  fwidth :: u8
  precision :: u8
  fradix :: nat

definition fmt_init :: "string \<Rightarrow> fmt_state" where
  "fmt_init f = \<lparr>fmt = f, pstate = START, out = [], auto_idx_listing = 0, arg_pos = - 1, fill = CHR '' '',
     align = CHR ''>'', use_prefix = False, fwidth = 0, precision = 0, fradix = 10\<rparr>"

definition fmt_reset :: "fmt_state \<Rightarrow> fmt_state" where
  "fmt_reset s = s\<lparr>fill := CHR '' '', align := CHR ''>'', use_prefix := False, fwidth := 0, precision := 0,
     fradix := 10, pstate := START, fmt := tl (fmt s)\<rparr>"

datatype step_result = Continue fmt_state | Error | Undefined

definition number_of :: "'f argument \<Rightarrow> (int \<times> nat) option" where
  "number_of a = (case a of
     SIGNED_CHAR v \<Rightarrow> Some (sint v, 8) | SHORT v \<Rightarrow> Some (sint v, 16) | INTEGER v \<Rightarrow> Some (sint v, 32)
   | LONG v \<Rightarrow> Some (sint v, 64) | LONG_LONG v \<Rightarrow> Some (sint v, 64) | U_CHAR v \<Rightarrow> Some (uint v, 8)
   | U_SHORT v \<Rightarrow> Some (uint v, 16) | U_INT v \<Rightarrow> Some (uint v, 32) | U_LONG v \<Rightarrow> Some (uint v, 64)
   | U_LONG_LONG v \<Rightarrow> Some (uint v, 64) | _ \<Rightarrow> None)"

definition is_integer_type :: "'f argument \<Rightarrow> bool" where
  "is_integer_type a = (number_of a \<noteq> None \<or> (case a of CHARACTER _ \<Rightarrow> True | _ \<Rightarrow> False))"

definition has_precision :: "'f argument \<Rightarrow> bool" where
  "has_precision a = (case a of FLOAT _ \<Rightarrow> True | DOUBLE _ \<Rightarrow> True | LONG_DOUBLE _ \<Rightarrow> True | C_STRING _ \<Rightarrow> True | _ \<Rightarrow> False)"

definition the_arg :: "'f argument list \<Rightarrow> u64 \<Rightarrow> 'f argument option" where
  "the_arg args i = (if unat i < length args then Some (args ! unat i) else None)"

definition write_argument :: "'f float_ops \<Rightarrow> nat \<Rightarrow> 'f argument \<Rightarrow> fmt_state \<Rightarrow> string option" where
  "write_argument fo buf_size a s =
     (let sprec = (if 0 < precision s then unat (precision s) else DEF_STRING_PRECISION);
          fprec = unat (if 0 < precision s then precision s else DEF_FLOAT_PRECISION)
      in case a of
        CHARACTER c \<Rightarrow> Some (out s @ [c])
      | FLOAT x \<Rightarrow> format_floating_point_number fo buf_size x (fill s) (align s) (ucast (fwidth s)) fprec (out s)
      | DOUBLE x \<Rightarrow> format_floating_point_number fo buf_size x (fill s) (align s) (ucast (fwidth s)) fprec (out s)
      | LONG_DOUBLE x \<Rightarrow> format_floating_point_number fo buf_size x (fill s) (align s) (ucast (fwidth s)) fprec (out s)
      | BOOL b \<Rightarrow> Some (format_string buf_size (if b then ''True'' else ''False'') (fill s) (align s)
                    (ucast (fwidth s)) sprec (out s))
      | C_STRING m \<Rightarrow> Some (format_string buf_size m (fill s) (align s) (ucast (fwidth s)) sprec (out s))
      | _ \<Rightarrow> (case number_of a of
               None \<Rightarrow> None
             | Some (n, bits) \<Rightarrow> format_number buf_size n bits (fill s) (align s) (ucast (fwidth s)) (fradix s)
                                  (use_prefix s) (out s)))"

definition step_index :: "'f argument list \<Rightarrow> fmt_state \<Rightarrow> step_result" where
  "step_index args s =
     (let next = (\<lambda>s. if fmt s \<noteq> [] \<and> hd (fmt s) = CHR '':''
                      then Continue (s\<lparr>pstate := FILL_ALIGN, fmt := tl (fmt s)\<rparr>)
                      else Continue (s\<lparr>pstate := END_STATE\<rparr>));
          n = detect_number (fmt s)
      in if 0 < n then
           if auto_idx_listing s = 2 then Error
           else case parse_number (fmt s) n of
                  None \<Rightarrow> Undefined
                | Some v \<Rightarrow>
                    if length args \<le> unat v then Error
                    else next (s\<lparr>auto_idx_listing := 1, arg_pos := ucast v, fmt := drop n (fmt s)\<rparr>)
         else if hd (fmt s) = CHR ''}'' \<or> hd (fmt s) = CHR '':'' then
           if auto_idx_listing s = 1 then Error
           else next (s\<lparr>auto_idx_listing := 2, arg_pos := arg_pos s + 1\<rparr>)
         else Error)"

definition is_align :: "char \<Rightarrow> bool" where "is_align c = (c \<in> set ''<^>='')"

definition step_fill_align :: "fmt_state \<Rightarrow> step_result" where
  "step_fill_align s =
     (let c = hd (fmt s)
      in if 1 < length (fmt s) \<and> is_align (fmt s ! 1) then
           if c = CHR ''{'' \<or> c = CHR ''}'' then Error
           else Continue (s\<lparr>fill := c, align := fmt s ! 1, fmt := drop 2 (fmt s), pstate := PREFIX\<rparr>)
         else if is_align c then Continue (s\<lparr>align := c, fmt := tl (fmt s), pstate := PREFIX\<rparr>)
         else Continue (s\<lparr>pstate := PREFIX\<rparr>))"

definition step_prefix :: "fmt_state \<Rightarrow> step_result" where
  "step_prefix s =
     (if hd (fmt s) = CHR ''#'' then Continue (s\<lparr>use_prefix := True, fmt := tl (fmt s), pstate := WIDTH\<rparr>)
      else Continue (s\<lparr>use_prefix := False, pstate := WIDTH\<rparr>))"

definition step_width :: "fmt_state \<Rightarrow> step_result" where
  "step_width s =
     (let n = detect_number (fmt s)
      in if 0 < n then (case parse_number (fmt s) n of
                          None \<Rightarrow> Undefined
                        | Some v \<Rightarrow> Continue (s\<lparr>fwidth := v, fmt := drop n (fmt s), pstate := PRECISION\<rparr>))
         else Continue (s\<lparr>pstate := PRECISION\<rparr>))"

definition step_precision :: "'f argument list \<Rightarrow> fmt_state \<Rightarrow> step_result" where
  "step_precision args s =
     (if hd (fmt s) = CHR ''.'' then
        (case the_arg args (arg_pos s) of
           None \<Rightarrow> Undefined
         | Some a \<Rightarrow>
             if \<not> has_precision a then Error
             else let rest = tl (fmt s); n = detect_number rest mod 256
                  in if 0 < n then (case parse_number rest n of
                                      None \<Rightarrow> Undefined
                                    | Some v \<Rightarrow> Continue (s\<lparr>precision := v, fmt := drop n rest, pstate := TYPE_STATE\<rparr>))
                     else Error)
      else Continue (s\<lparr>pstate := TYPE_STATE\<rparr>))"

definition step_type :: "'f argument list \<Rightarrow> fmt_state \<Rightarrow> step_result" where
  "step_type args s =
     (let c = hd (fmt s)
      in if c \<in> set ''box'' then
           (case the_arg args (arg_pos s) of
              None \<Rightarrow> Undefined
            | Some a \<Rightarrow>
                if \<not> is_integer_type a then Error
                else Continue (s\<lparr>fradix := (if c = CHR ''b'' then 2 else if c = CHR ''o'' then 8 else 16),
                                fmt := tl (fmt s), pstate := END_STATE\<rparr>))
         else Continue (s\<lparr>pstate := END_STATE\<rparr>))"

definition step_end :: "'f float_ops \<Rightarrow> nat \<Rightarrow> 'f argument list \<Rightarrow> fmt_state \<Rightarrow> step_result" where
  "step_end fo buf_size args s =
     (if hd (fmt s) = CHR ''}'' then
        (case the_arg args (arg_pos s) of
           None \<Rightarrow> Undefined
         | Some a \<Rightarrow> (case write_argument fo buf_size a s of
                        None \<Rightarrow> Undefined
                      | Some text \<Rightarrow> Continue (fmt_reset (s\<lparr>out := text\<rparr>))))
      else Error)"

definition fmt_step :: "'f float_ops \<Rightarrow> nat \<Rightarrow> 'f argument list \<Rightarrow> fmt_state \<Rightarrow> step_result" where
  "fmt_step fo buf_size args s =
     (case pstate s of
        START \<Rightarrow>
          if hd (fmt s) = CHR ''{'' then Continue (s\<lparr>pstate := INDEX, fmt := tl (fmt s)\<rparr>)
          else Continue (s\<lparr>out := out s @ [hd (fmt s)], fmt := tl (fmt s)\<rparr>)
      | INDEX \<Rightarrow> step_index args s
      | FILL_ALIGN \<Rightarrow> step_fill_align s
      | PREFIX \<Rightarrow> step_prefix s
      | WIDTH \<Rightarrow> step_width s
      | PRECISION \<Rightarrow> step_precision args s
      | TYPE_STATE \<Rightarrow> step_type args s
      | END_STATE \<Rightarrow> step_end fo buf_size args s)"

text \<open>Every step consumes a character or moves to a later state of the same placeholder.\<close>

fun state_rank :: "parser_state \<Rightarrow> nat" where
  "state_rank START = 0" | "state_rank INDEX = 7" | "state_rank FILL_ALIGN = 6" | "state_rank PREFIX = 5"
| "state_rank WIDTH = 4" | "state_rank PRECISION = 3" | "state_rank TYPE_STATE = 2" | "state_rank END_STATE = 1"

definition fmt_measure :: "fmt_state \<Rightarrow> nat" where
  "fmt_measure s = 8 * length (fmt s) + state_rank (pstate s)"

lemma detect_number_le: "detect_number s \<le> length s"
  by (induction s) auto

lemma fmt_step_decreases:
  assumes "fmt_step fo buf_size args s = Continue s'" and "fmt s \<noteq> []"
  shows "fmt_measure s' < fmt_measure s"
proof -
  obtain c cs where f: "fmt s = c # cs" using assms(2) by (cases "fmt s") auto
  have "length (drop (detect_number cs mod 256) cs) \<le> length cs" by simp
  then show ?thesis
    using assms(1) detect_number_le [of "fmt s"]
    by (cases "pstate s")
       (auto simp: fmt_step_def fmt_measure_def f step_index_def step_fill_align_def step_prefix_def step_width_def
          step_precision_def step_type_def step_end_def fmt_reset_def Let_def
          split: if_splits option.splits)
qed

function interpolate_loop :: "'f float_ops \<Rightarrow> nat \<Rightarrow> 'f argument list \<Rightarrow> fmt_state \<Rightarrow> string option" where
  "interpolate_loop fo buf_size args s =
     (if length (out s) < buf_size \<and> fmt s \<noteq> [] then
        (case fmt_step fo buf_size args s of
           Continue s' \<Rightarrow> interpolate_loop fo buf_size args s'
         | Error \<Rightarrow> Some []
         | Undefined \<Rightarrow> None)
      else Some (out s))"
  by pat_completeness auto

termination interpolate_loop
  by (relation "measure (\<lambda>(fo, buf_size, args, s). fmt_measure s)") (auto dest: fmt_step_decreases)

definition interpolate :: "'f float_ops \<Rightarrow> string \<Rightarrow> nat \<Rightarrow> 'f argument list \<Rightarrow> string option" where
  "interpolate fo f buf_size args = interpolate_loop fo buf_size args (fmt_init f)"

text \<open>A full buffer has no null terminator.\<close>

definition format :: "'f float_ops \<Rightarrow> string \<Rightarrow> 'f argument list \<Rightarrow> string option" where
  "format fo f args = do {
     t \<leftarrow> interpolate fo f FMT_BUF_SIZE args;
     if length t < FMT_BUF_SIZE then Some (take (get_cstr_size t) t) else None }"

declare interpolate_loop.simps [simp del]

section \<open>The output of the state machine\<close>

lemma write_argument_length:
  "write_argument fo buf_size a s = Some t \<Longrightarrow> length (out s) < buf_size \<Longrightarrow> length t \<le> buf_size + 2"
  by (cases a)
     (auto simp: write_argument_def number_of_def Let_def intro!: length_format_string
       dest!: length_format_number length_format_floating_point_number)

lemma fmt_step_length:
  assumes "fmt_step fo buf_size args s = Continue s'" and "length (out s) < buf_size"
  shows "length (out s') \<le> buf_size + 2"
proof (cases "pstate s = END_STATE")
  case True
  then show ?thesis
    using assms by (auto simp: fmt_step_def step_end_def fmt_reset_def dest: write_argument_length split: if_splits option.splits)
next
  case False
  then show ?thesis
    using assms
    by (cases "pstate s")
       (auto simp: fmt_step_def step_index_def step_fill_align_def step_prefix_def step_width_def step_precision_def
          step_type_def Let_def split: if_splits option.splits)
qed

lemma interpolate_loop_length:
  "interpolate_loop fo buf_size args s = Some t \<Longrightarrow> length (out s) \<le> buf_size + 2 \<Longrightarrow> length t \<le> buf_size + 2"
proof (induction fo buf_size args s rule: interpolate_loop.induct)
  case (1 fo buf_size args s)
  show ?case
  proof (cases "length (out s) < buf_size \<and> fmt s \<noteq> []")
    case True
    consider s' where "fmt_step fo buf_size args s = Continue s'"
        "interpolate_loop fo buf_size args s' = Some t" | "t = []"
      using 1(2) True by (subst (asm) interpolate_loop.simps) (auto split: step_result.splits)
    then show ?thesis using 1(1) [OF True] True by cases (auto dest: fmt_step_length)
  qed (use 1(2,3) in \<open>subst (asm) interpolate_loop.simps, auto\<close>)
qed

text \<open>
  Bounds of formatting: interpolate writes at most two characters more than the buffer holds,
  whatever the format and the arguments are.
\<close>

theorem interpolate_overrun:
  assumes "interpolate fo f buf_size args = Some t"
  shows "length t \<le> buf_size + 2"
  using assms interpolate_loop_length [of fo buf_size args "fmt_init f" t]
  by (simp add: interpolate_def fmt_init_def)

section \<open>Formats with empty placeholders\<close>

text \<open>What an argument looks like under \<open>{}\<close>. A C string is cut after 255 characters.\<close>

definition decimal :: "int \<Rightarrow> string" where
  "decimal n = (if n < 0 then ''-'' else []) @ rev (map ((!) hex_chars) (ndigits 10 (nat \<bar>n\<bar>)))"

definition plain_text :: "'f argument \<Rightarrow> string option" where
  "plain_text a =
     (case a of
        CHARACTER c \<Rightarrow> Some [c]
      | BOOL b \<Rightarrow> Some (if b then ''True'' else ''False'')
      | C_STRING m \<Rightarrow> Some (take 255 m)
      | FLOAT x \<Rightarrow> None | DOUBLE x \<Rightarrow> None | LONG_DOUBLE x \<Rightarrow> None
      | _ \<Rightarrow> (case number_of a of
               None \<Rightarrow> None
             | Some (n, bits) \<Rightarrow> if n = - (2 ^ (bits - 1)) then None else Some (decimal n)))"

text \<open>The reference: literal text is copied, every \<open>{}\<close> takes the next argument.\<close>

fun fill_in :: "string \<Rightarrow> 'f argument list \<Rightarrow> string option" where
  "fill_in [] args = Some []"
| "fill_in (c # cs) args =
     (if c \<noteq> CHR ''{'' then map_option ((#) c) (fill_in cs args)
      else case (cs, args) of
             (c' # rest, a # args') \<Rightarrow>
               if c' \<noteq> CHR ''}'' then None
               else (case plain_text a of
                       None \<Rightarrow> None
                     | Some t \<Rightarrow> map_option ((@) t) (fill_in rest args'))
           | _ \<Rightarrow> None)"

lemma pad_loop_none [simp]: "pad_loop 0 0 fl buf_len tx = tx"
  by (subst pad_loop.simps) simp

lemma write_chars_fits: "length tx + length cs \<le> buf_len \<Longrightarrow> write_chars cs buf_len tx = tx @ cs"
  by (induction cs arbitrary: tx) auto

lemma write_reverse_fits:
  "n \<le> length msg \<Longrightarrow> length tx + n \<le> buf_len \<Longrightarrow> write_reverse msg n 0 buf_len tx = tx @ rev (take n msg)"
  by (induction n arbitrary: tx) (auto simp: take_Suc_conv_app_nth)

lemma format_string_plain:
  "length tx + length (take prec msg) \<le> buf_len \<Longrightarrow>
   format_string buf_len msg fl (CHR ''>'') 0 prec tx = tx @ take prec msg"
  by (simp add: format_string_def Let_def write_chars_fits)

lemma int_to_buf_ndigits:
  assumes "1 < b" and "length tx + length (ndigits b n) \<le> min 32 prec"
  shows "int_to_buf (int n) b prec tx = Some (tx @ map ((!) hex_chars) (ndigits b n))"
  using assms(2)
proof (induction "length (ndigits b n)" arbitrary: n tx)
  case (Suc k)
  have m: "int n smod int b = int (n mod b)" "int n sdiv int b = int (n div b)"
    using assms(1) by (simp_all add: signed_modulo_int_def signed_divide_int_def zmod_int zdiv_int sgn_if)
  have nd: "ndigits b n = (n mod b) # (if 0 < n div b then ndigits b (n div b) else [])"
    using assms(1) by (subst ndigits.simps) simp
  have pos: "0 < length (ndigits b (n div b))" by (simp only: length_greater_0_conv) simp
  then have "length tx + 1 < min 32 prec" if "0 < n div b" using Suc.prems nd that pos unfolding length_greater_0_conv [symmetric] by (simp del: length_greater_0_conv ndigits_not_Nil)
  then show ?case
    using Suc.prems Suc.hyps(1) [of "n div b" "tx @ [hex_chars ! (n mod b)]"] Suc.hyps(2) nd
    by (subst int_to_buf.simps) (auto simp: m Let_def INTERNAL_BUF_SIZE_def split: if_splits)
qed simp

lemma signed_take_bit_fits: "0 \<le> n \<Longrightarrow> n < 2 ^ k \<Longrightarrow> signed_take_bit k n = (n :: int)"
  by (rule signed_take_bit_int_eq_self) (simp_all add: order.trans [of _ 0])

lemma format_number_plain:
  assumes "n \<noteq> - (2 ^ (bits - 1))" and "- (2 ^ (bits - 1)) \<le> n" and "n < 2 ^ bits" and "bits \<le> 64"
    and "length tx + length (decimal n) \<le> buf_len"
  shows "format_number buf_len n bits fl (CHR ''>'') 0 10 False tx = Some (tx @ decimal n)"
proof -
  let ?ds = "ndigits 10 (nat \<bar>n\<bar>)"
  have p: "(2::int) ^ (bits - 1) \<le> 2 ^ bits" by (intro power_increasing) simp_all
  have "\<bar>n\<bar> < 2 ^ bits" using assms(1-3) p by linarith
  also have "(2::int) ^ bits \<le> 2 ^ 64" using assms(4) by (intro power_increasing) simp_all
  finally have "nat \<bar>n\<bar> < 10 ^ 20" by (simp add: nat_less_iff)
  then have len: "length ?ds \<le> 20" using length_ndigits [of 10 _ 20] by simp
  have num: "(if n < 0 then signed_take_bit (bits - 1) (0 - n) else n) = int (nat \<bar>n\<bar>)"
  proof (cases "n < 0")
    case True
    then have "signed_take_bit (bits - 1) (- n) = - n"
      using assms(1,2) by (intro signed_take_bit_fits) linarith+
    then show ?thesis using True by simp
  qed simp
  have b: "int_to_buf (int (nat \<bar>n\<bar>)) 10 DEF_STRING_PRECISION [] = Some (map ((!) hex_chars) ?ds)"
    using int_to_buf_ndigits [of 10 "[]" "nat \<bar>n\<bar>" DEF_STRING_PRECISION] len by (simp add: DEF_STRING_PRECISION_def)
  have w: "write_reverse msg (length msg) 0 buf_len tx = tx @ rev msg" if "length msg = length (decimal n)" for msg
    using write_reverse_fits [of "length msg" msg tx buf_len] assms(5) that by simp
  show ?thesis
  proof (cases "n < 0")
    case True
    then show ?thesis
      using len w [of "map ((!) hex_chars) ?ds @ ''-''"] num b
      by (simp add: format_number_def INTERNAL_BUF_SIZE_def decimal_def)
  next
    case False
    then show ?thesis
      using w [of "map ((!) hex_chars) ?ds"] num b by (simp add: format_number_def decimal_def)
  qed
qed

lemma sint_range:
  fixes v :: "'b::len word"
  shows "- (2 ^ (LENGTH('b) - 1)) \<le> sint v \<and> sint v < 2 ^ LENGTH('b)"
proof -
  have "(2::int) ^ (LENGTH('b) - 1) \<le> 2 ^ LENGTH('b)" by (intro power_increasing) simp_all
  then show ?thesis using sint_ge [of v] sint_lt [of v] by linarith
qed

lemma uint_range: "- (2 ^ k) \<le> uint v \<and> uint v < 2 ^ LENGTH('b)" for v :: "'b::len word"
  by (rule conjI, rule order.trans [of _ 0]) simp_all

lemma number_of_range:
  assumes "number_of a = Some (n, bits)"
  shows "- (2 ^ (bits - 1)) \<le> n \<and> n < 2 ^ bits \<and> bits \<le> 64"
  using assms
    sint_range [where 'b = 8] sint_range [where 'b = 16] sint_range [where 'b = 32] sint_range [where 'b = 64]
    uint_range [of 7, where 'b = 8] uint_range [of 15, where 'b = 16] uint_range [of 31, where 'b = 32]
    uint_range [of 63, where 'b = 64]
  by (cases a) (auto simp: number_of_def)

lemma write_argument_plain:
  assumes "plain_text a = Some t" and "length (out s) + length t \<le> buf_size"
    and "fill s = CHR '' ''" "align s = CHR ''>''" "use_prefix s = False" "fwidth s = 0" "precision s = 0" "fradix s = 10"
  shows "write_argument fo buf_size a s = Some (out s @ t)"
proof (cases "number_of a")
  case None
  then show ?thesis
    using assms
    by (cases a) (auto simp: plain_text_def write_argument_def number_of_def DEF_STRING_PRECISION_def format_string_plain)
next
  case (Some nb)
  obtain n bits where nb: "nb = (n, bits)" by (cases nb)
  have range: "- (2 ^ (bits - 1)) \<le> n" "n < 2 ^ bits" "bits \<le> 64"
    using Some [unfolded nb] number_of_range by blast+
  have "n \<noteq> - (2 ^ (bits - 1))" "t = decimal n"
    using assms(1) Some nb by (cases a; simp add: plain_text_def number_of_def split: if_splits)+
  then show ?thesis
    using Some nb assms(2-) format_number_plain [OF _ range, of "out s" buf_size]
    by (cases a) (simp_all add: write_argument_def number_of_def)
qed

text \<open>The state between two placeholders, after \<open>n\<close> automatic arguments.\<close>

definition between :: "string \<Rightarrow> string \<Rightarrow> nat \<Rightarrow> nat \<Rightarrow> fmt_state" where
  "between f tx idx n = (fmt_init f)\<lparr>out := tx, auto_idx_listing := idx, arg_pos := of_nat n - 1\<rparr>"

lemma interpolate_loop_step:
  assumes "length (out s) < buf_size" and "fmt s \<noteq> []" and "fmt_step fo buf_size args s = Continue s'"
  shows "interpolate_loop fo buf_size args s = interpolate_loop fo buf_size args s'"
  using assms by (subst interpolate_loop.simps) simp

lemma interpolate_loop_full:
  "\<not> (length (out s) < buf_size \<and> fmt s \<noteq> []) \<Longrightarrow> interpolate_loop fo buf_size args s = Some (out s)"
  by (subst interpolate_loop.simps) auto

lemma between_literal:
  assumes "length tx < buf_size" and "c \<noteq> CHR ''{''"
  shows "interpolate_loop fo buf_size args (between (c # cs) tx idx n) =
    interpolate_loop fo buf_size args (between cs (tx @ [c]) idx n)"
  using assms
  by (intro interpolate_loop_step) (auto simp: between_def fmt_init_def fmt_step_def)

lemma between_placeholder:
  assumes "length tx < buf_size" and "idx \<noteq> 1" and "n < length args" and "length args < 2 ^ 64"
    and "plain_text (args ! n) = Some t" and "length tx + length t \<le> buf_size"
  shows "interpolate_loop fo buf_size args (between (CHR ''{'' # CHR ''}'' # cs) tx idx n) =
    interpolate_loop fo buf_size args (between cs (tx @ t) 2 (Suc n))"
proof -
  let ?s1 = "(between (CHR ''}'' # cs) tx idx n)\<lparr>pstate := INDEX\<rparr>"
  let ?s2 = "(between (CHR ''}'' # cs) tx 2 (Suc n))\<lparr>pstate := END_STATE\<rparr>"
  have pos: "unat (of_nat n :: u64) = n" using assms(3,4) by (simp add: unat_of_nat take_bit_nat_eq_self)
  have w: "write_argument fo buf_size (args ! n) ?s2 = Some (tx @ t)"
    using write_argument_plain [OF assms(5), of ?s2] assms(6) by (simp add: between_def fmt_init_def)
  have "interpolate_loop fo buf_size args (between (CHR ''{'' # CHR ''}'' # cs) tx idx n) =
      interpolate_loop fo buf_size args ?s1"
    using assms(1) by (intro interpolate_loop_step) (simp_all add: between_def fmt_init_def fmt_step_def)
  also have "\<dots> = interpolate_loop fo buf_size args ?s2"
    using assms(1,2)
    by (intro interpolate_loop_step)
       (simp_all add: between_def fmt_init_def fmt_step_def step_index_def is_digit_def of_char_def)
  also have "\<dots> = interpolate_loop fo buf_size args (between cs (tx @ t) 2 (Suc n))"
    using assms(1,3) w pos
    by (intro interpolate_loop_step)
       (simp_all add: between_def fmt_init_def fmt_step_def step_end_def the_arg_def fmt_reset_def)
  finally show ?thesis .
qed

lemma interpolate_loop_fill_in:
  assumes "fill_in f (drop n args) = Some t" and "length tx + length t \<le> buf_size" and "idx \<noteq> 1"
    and "length args < 2 ^ 64"
  shows "interpolate_loop fo buf_size args (between f tx idx n) = Some (tx @ t)"
  using assms(1-3)
proof (induction f "drop n args" arbitrary: n t tx idx rule: fill_in.induct)
  case 1
  then show ?case by (simp add: interpolate_loop_full between_def fmt_init_def)
next
  case (2 c cs)
  show ?case
  proof (cases "length tx < buf_size")
    case False
    then have "interpolate_loop fo buf_size args (between (c # cs) tx idx n) = Some tx"
      by (simp add: interpolate_loop_full between_def fmt_init_def)
    moreover have "t = []" using 2(4) False by (cases t) simp_all
    ultimately show ?thesis by simp
  next
    case room: True
    show ?thesis
    proof (cases "c = CHR ''{''")
      case False
      then obtain t' where "fill_in cs (drop n args) = Some t'" "t = c # t'" using 2(3) by auto
      then show ?thesis
        using 2(1) [OF False refl, of t' "tx @ [c]" idx] 2(4,5) room False by (simp add: between_literal)
    next
      case True
      then obtain rest a args' t1 t2 where cs: "cs = CHR ''}'' # rest" and d: "drop n args = a # args'"
        and t1: "plain_text a = Some t1" and t2: "fill_in rest args' = Some t2" and t: "t = t1 @ t2"
        using 2(3) by (auto split: list.splits if_splits option.splits)
      have n: "n < length args" using d by (cases "n < length args") auto
      then have a: "args ! n = a" "drop (Suc n) args = args'"
        using d Cons_nth_drop_Suc [OF n] by simp_all
      have "interpolate_loop fo buf_size args (between rest (tx @ t1) 2 (Suc n)) = Some ((tx @ t1) @ t2)"
        using 2(2) [of cs "drop n args" "CHR ''}''" rest a "Suc n" t1 t2 "tx @ t1" 2] True cs d t1 t2 a(2) 2(4) t
        by simp
      then show ?thesis
        using between_placeholder [OF room 2(5) n assms(4), of t1 fo rest] True cs a(1) t1 t 2(4) by simp
    qed
  qed
qed

text \<open>
  C36. Correctness of plain formatting: a format of literal text and \<open>{}\<close> placeholders becomes the text with the arguments in
  their order. There is an argument for every placeholder, none is a floating point number or the least signed value
  (\<open>plain_text\<close>), and the text fits the buffer.
\<close>

theorem interpolate_fills_in:
  assumes "fill_in f args = Some t" and "length t \<le> buf_size" and "length args < 2 ^ 64"
  shows "interpolate fo f buf_size args = Some t"
  using interpolate_loop_fill_in [of f 0 args t "[]" buf_size 0 fo] assms
  by (simp add: interpolate_def between_def fmt_init_def)

text \<open>Fixed point numbers with three decimals, an instance of the floating point parameter.\<close>

definition milli_ops :: "int float_ops" where
  "milli_ops = \<lparr>is_nan = (\<lambda>x. False), below_min = (\<lambda>x. False), above_max = (\<lambda>x. False), is_neg = (\<lambda>x. x < 0),
     negated = uminus, to_long = (\<lambda>x. x div 1000), scaled_rest = (\<lambda>x w p. (x - w * 1000) * p),
     minus_long = (\<lambda>x w. x - w * 1000), half_sign = (\<lambda>d. d - 500)\<rparr>"

lemma interpolate_overrun_witness:
  "length (the (interpolate milli_ops ''ab{:#}'' 3 [U_INT 5])) \<le> 3 + 2 \<and>
   interpolate milli_ops ''ab{:#x}'' 3 [U_INT 5] = Some ''ab0x''"
proof
  have "interpolate milli_ops ''ab{:#}'' 3 [U_INT 5] = Some ''ab5''" by code_simp
  then show "length (the (interpolate milli_ops ''ab{:#}'' 3 [U_INT 5])) \<le> 3 + 2"
    using interpolate_overrun [of milli_ops "''ab{:#}''" 3 "[U_INT 5]" "''ab5''"] by simp
qed code_simp

text \<open>The bound is reached: the prefix is written behind the end of the buffer.\<close>

lemma interpolate_overrun_attained: "interpolate milli_ops ''ab{:#4x}'' 3 [U_INT 5] = Some ''ab 0x''"
  by code_simp

lemma interpolate_fills_in_witness:
  "interpolate milli_ops ''{} has {} pages'' 64 [C_STRING ''pmm'', INTEGER (- 12)] = Some ''pmm has -12 pages''"
proof -
  have "fill_in ''{} has {} pages'' [C_STRING ''pmm'', INTEGER (- 12) :: int argument] = Some ''pmm has -12 pages''"
    by code_simp
  then show ?thesis by (rule interpolate_fills_in) simp_all
qed

text \<open>The two routines that print an unsigned number agree.\<close>

lemma format_agrees_with_int_to_string:
  fixes v :: u64
  shows "interpolate fo ''{}'' 64 [U_LONG v] = Some (int_to_string v DECIMAL)"
proof -
  have "unat v < 10 ^ 20" by (rule order.strict_trans1 [OF less_imp_le [OF unsigned_less]]) simp
  then have len: "length (ndigits 10 (unat v)) \<le> 20" using length_ndigits [of 10 "unat v" 20] by simp
  then have s: "int_to_string v DECIMAL = rev (map ((!) hex_chars) (ndigits 10 (unat v)))"
    using digits_back_ndigits [of 10 10 0 v "[]"] by (simp add: int_to_string_def radix_value_def)
  have "- (9223372036854775808 :: int) < uint v" by (rule order.strict_trans2 [of _ 0]) simp_all
  then have "plain_text (U_LONG v :: 'a argument) = Some (int_to_string v DECIMAL)"
    using s by (simp add: plain_text_def number_of_def decimal_def)
  moreover have "length (int_to_string v DECIMAL) \<le> 64" using s len by simp
  ultimately show ?thesis
    using interpolate_loop_fill_in [of "''{}''" 0 "[U_LONG v]" "int_to_string v DECIMAL" "[]" 64 0 fo]
    by (simp add: interpolate_def between_def fmt_init_def)
qed

text \<open>
  Inputs on which the code leaves its arrays: a placeholder without an argument, four digits, the least
  value of a signed type, binary digits of a number above \<open>2 ^ 32\<close> and a precision of 10.
\<close>

lemma format_undefined:
  "interpolate milli_ops ''{}'' 64 [] = None"
  "interpolate milli_ops ''{:1000}'' 64 [U_INT 5] = None"
  "interpolate milli_ops ''{}'' 64 [INTEGER (- 2147483648)] = None"
  "interpolate milli_ops ''{:b}'' 64 [U_LONG 4294967296] = None"
  "interpolate milli_ops ''{:.10}'' 64 [DOUBLE 1500] = None"
  by code_simp+

text \<open>A centred number that needs no padding is followed by fill characters up to the end of the buffer.\<close>

lemma centred_number_fills_buffer: "interpolate milli_ops ''{:^1}'' 9 [U_INT 5] = Some '' 5       ''"
  by code_simp

text \<open>0.95 with one decimal: exactly half rounds up without the carry.\<close>

lemma half_rounds_without_carry:
  "interpolate milli_ops ''{:.1}'' 64 [DOUBLE 950] = Some ''0.'' \<and>
   interpolate milli_ops ''{:.1}'' 64 [DOUBLE 960] = Some ''1.''"
  by code_simp

end
