(* ===== verification/Slab_Allocator.thy ===== *)
theory Slab_Allocator
  imports Virtual_Memory Bytes
begin

text \<open>
  The kernel heap (\<^verbatim>\<open>Src/Memory/SlabAllocator.cpp\<close>): slabs of objects of one size, object caches that own
  slabs, and the allocator with its general purpose and DMA caches.

  Memory is seen as a typed heap: one function for each kind of node and one for plain bytes, with addresses as
  \<open>u64\<close> and 0 as the null pointer. Clearing memory clears all of these views. \<open>None\<close> is a null pointer access, a
  division by zero, a loop that writes behind its array or one that does not end.
\<close>

section \<open>State\<close>

datatype cache_type = CACHE_NONE | ON_SLAB | OFF_SLAB

datatype heap_failure = HEAP_NONE | HEAP_NOT_MAPPED | BC_OBJECT_CACHE_ERROR | BC_SLAB_ERROR | BC_OBJECT_BUF_NODE_ERROR
  | BC_OBJECT_BUF_NODE_HASHMAP_ERROR | BC_HASHNODE_ERROR | BC_MEMORY_NODE_ERROR | ALLOC_GP_OR_DMA_CACHE_ERROR
  | GP_CACHE_ERROR | DMA_CACHE_ERROR

text \<open>The union of the two kinds of references to the next free object is \<open>s_free_node\<close> and \<open>s_free_object\<close>.\<close>

record slab =
  s_next :: u64
  s_prev :: u64
  s_free_node :: u64
  s_free_object :: u8
  s_object_size :: u64
  s_object_count :: u64
  s_allocated :: u64
  s_page :: u64
  s_size :: u64

record obj_node =
  on_next :: u64
  on_object :: u64
  on_owner :: u64

record mem_node =
  mn_next :: u64
  mn_addr :: u64

record hash_node =
  hn_next :: u64
  hn_key :: u64
  hn_value :: u64

text \<open>The six caches that the allocator holds itself, and the caches in memory.\<close>

datatype cache_ref = Null_Cache | Object_Cache_Cache | Slab_Cache | Object_Buf_Node_Cache | Hash_Map_Cache
  | Hash_Node_Cache | Memory_Node_Cache | Cache_At u64

record buf_map =
  map_nodes :: "u64 list"
  map_node_cache :: cache_ref

record object_cache =
  oc_node_cache :: cache_ref
  oc_managed :: memory_region
  oc_limit :: u64
  oc_flags :: u16
  oc_free_pages :: u64
  oc_obj_nodes :: cache_ref
  oc_map :: u64
  oc_size :: u64
  oc_align :: u64
  oc_slab_cache :: cache_ref
  oc_full :: u64
  oc_partial :: u64
  oc_empty :: u64
  oc_slab_count :: u64
  oc_type :: cache_type

record 'v heap_state =
  slabs :: "u64 \<Rightarrow> slab"
  obj_nodes :: "u64 \<Rightarrow> obj_node"
  mem_nodes :: "u64 \<Rightarrow> mem_node"
  hash_nodes :: "u64 \<Rightarrow> hash_node"
  hash_maps :: "u64 \<Rightarrow> buf_map"
  caches :: "cache_ref \<Rightarrow> object_cache"
  bytes :: memory
  vm :: 'v

text \<open>The two operations of the virtual memory manager that the heap uses, and their instance.\<close>

record 'v vm_ops =
  vm_allocate :: "'v \<Rightarrow> u64 \<Rightarrow> u16 \<Rightarrow> ('v \<times> bool) option"
  vm_free :: "'v \<Rightarrow> u64 \<Rightarrow> ('v \<times> bool) option"

definition kernel_vm :: "'s pmm_ops \<Rightarrow> 's vmm vm_ops" where
  "kernel_vm ops = \<lparr>
     vm_allocate = (\<lambda>m v flags. map_option (\<lambda>(s, ok). (m\<lparr>space := s\<rparr>, ok)) (vmm_allocate ops (space m) (loaded_base m) v flags)),
     vm_free = (\<lambda>m v. map_option (\<lambda>(s, ok). (m\<lparr>space := s\<rparr>, ok)) (vmm_free ops (space m) (loaded_base m) (loaded_base m) v))\<rparr>"

definition MAX_OBJECT_COUNT :: u64 where "MAX_OBJECT_COUNT = 255"
definition SLAB_SIZE :: u64 where "SLAB_SIZE = 64"
definition BUCKET_COUNT :: u64 where "BUCKET_COUNT = 37"

definition WRITE_THROUGH :: u16 where "WRITE_THROUGH = 0x08"
definition CACHE_DISABLE :: u16 where "CACHE_DISABLE = 0x10"

definition zero_slab :: slab where
  "zero_slab = \<lparr>s_next = 0, s_prev = 0, s_free_node = 0, s_free_object = 0, s_object_size = 0, s_object_count = 0,
     s_allocated = 0, s_page = 0, s_size = 0\<rparr>"

definition zero_cache :: object_cache where
  "zero_cache = \<lparr>oc_node_cache = Null_Cache, oc_managed = \<lparr>rstart = 0, rsize = 0, rtype = NONE\<rparr>, oc_limit = 0, oc_flags = 0,
     oc_free_pages = 0, oc_obj_nodes = Null_Cache, oc_map = 0, oc_size = 0, oc_align = 0, oc_slab_cache = Null_Cache,
     oc_full = 0, oc_partial = 0, oc_empty = 0, oc_slab_count = 0, oc_type = CACHE_NONE\<rparr>"

definition clear_memory :: "u64 \<Rightarrow> u64 \<Rightarrow> 'v heap_state \<Rightarrow> 'v heap_state" where
  "clear_memory p n h =
     (let inside = (\<lambda>a. a - p < n)
      in h\<lparr>bytes := memset (bytes h) p 0 n,
           slabs := (\<lambda>a. if inside a then zero_slab else slabs h a),
           obj_nodes := (\<lambda>a. if inside a then \<lparr>on_next = 0, on_object = 0, on_owner = 0\<rparr> else obj_nodes h a),
           mem_nodes := (\<lambda>a. if inside a then \<lparr>mn_next = 0, mn_addr = 0\<rparr> else mem_nodes h a),
           hash_nodes := (\<lambda>a. if inside a then \<lparr>hn_next = 0, hn_key = 0, hn_value = 0\<rparr> else hash_nodes h a),
           hash_maps := (\<lambda>a. if inside a then \<lparr>map_nodes = replicate 37 0, map_node_cache = Null_Cache\<rparr> else hash_maps h a),
           caches := (\<lambda>c. case c of Cache_At a \<Rightarrow> if inside a then zero_cache else caches h c | _ \<Rightarrow> caches h c)\<rparr>)"

definition upd_slab :: "u64 \<Rightarrow> (slab \<Rightarrow> slab) \<Rightarrow> 'v heap_state \<Rightarrow> 'v heap_state" where
  "upd_slab a f h = h\<lparr>slabs := (slabs h)(a := f (slabs h a))\<rparr>"

definition upd_obj_node :: "u64 \<Rightarrow> (obj_node \<Rightarrow> obj_node) \<Rightarrow> 'v heap_state \<Rightarrow> 'v heap_state" where
  "upd_obj_node a f h = h\<lparr>obj_nodes := (obj_nodes h)(a := f (obj_nodes h a))\<rparr>"

definition upd_cache :: "cache_ref \<Rightarrow> (object_cache \<Rightarrow> object_cache) \<Rightarrow> 'v heap_state \<Rightarrow> 'v heap_state" where
  "upd_cache c f h = h\<lparr>caches := (caches h)(c := f (caches h c))\<rparr>"

section \<open>Slabs\<close>

text \<open>The number of objects on a slab of one page, with one byte of the free list for each.\<close>

definition slab_capacity :: "u64 \<Rightarrow> u64" where
  "slab_capacity object_size =
     (let objects = min_of ((PAGE_SIZE - SLAB_SIZE) div object_size) MAX_OBJECT_COUNT;
          wastage = PAGE_SIZE - SLAB_SIZE - objects * object_size
      in if objects > wastage then (PAGE_SIZE - SLAB_SIZE - objects) div object_size else objects)"

definition init_free_list :: "memory \<Rightarrow> u64 \<Rightarrow> u64 \<Rightarrow> memory" where
  "init_free_list m free_list objects =
     (foldl (\<lambda>m i. m(free_list + of_nat i := of_nat (i + 1))) m [0..<unat objects - 1])
       (free_list + (objects - 1) := ucast MAX_OBJECT_COUNT)"

definition create_on_slab :: "u64 \<Rightarrow> u64 \<Rightarrow> 'v heap_state \<Rightarrow> ('v heap_state \<times> u64) option" where
  "create_on_slab object_size page h =
     (let objects = slab_capacity object_size; slab = page + PAGE_SIZE - SLAB_SIZE; free_list = slab - objects
      in if object_size = 0 \<or> objects = 0 then None
         else
           let h = upd_slab slab (\<lambda>s. s\<lparr>s_next := 0, s_prev := 0, s_object_size := object_size, s_object_count := objects,
                     s_allocated := 0, s_page := page, s_size := PAGE_SIZE, s_free_object := 0\<rparr>) h;
               h = h\<lparr>bytes := init_free_list (bytes h) free_list objects\<rparr>
           in Some (clear_memory page (PAGE_SIZE - SLAB_SIZE - objects) h, slab))"

definition alloc_on_slab :: "u64 \<Rightarrow> 'v heap_state \<Rightarrow> 'v heap_state \<times> u64" where
  "alloc_on_slab slab h =
     (let s = slabs h slab
      in if s_allocated s = s_object_count s then (h, 0)
         else
           let obj = s_page s + ucast (s_free_object s) * s_object_size s; free_list = slab - s_object_count s
           in (upd_slab slab (\<lambda>s. s\<lparr>s_free_object := bytes h (free_list + ucast (s_free_object s)),
                 s_allocated := s_allocated s + 1\<rparr>) h, obj))"

definition alloc_off_slab :: "u64 \<Rightarrow> 'v heap_state \<Rightarrow> ('v heap_state \<times> u64) option" where
  "alloc_off_slab slab h =
     (let s = slabs h slab; removed = s_free_node s
      in if s_allocated s = s_object_count s then Some (h, 0)
         else if removed = 0 then None
         else
           let h = upd_slab slab (\<lambda>s. s\<lparr>s_free_node := on_next (obj_nodes h removed)\<rparr>) h;
               h = upd_obj_node removed (\<lambda>n. n\<lparr>on_next := 0\<rparr>) h
           in Some (upd_slab slab (\<lambda>s. s\<lparr>s_allocated := s_allocated s + 1\<rparr>) h, on_object (obj_nodes h removed)))"

definition free_on_slab :: "u64 \<Rightarrow> u64 \<Rightarrow> 'v heap_state \<Rightarrow> 'v heap_state \<times> bool" where
  "free_on_slab slab obj h =
     (let s = slabs h slab
      in if s_allocated s = 0 then (h, False)
         else
           let obj_idx = (obj - s_page s) div s_object_size s; free_list = slab - s_object_count s
           in (upd_slab slab (\<lambda>s. s\<lparr>s_free_object := ucast obj_idx, s_allocated := s_allocated s - 1\<rparr>)
                 (h\<lparr>bytes := (bytes h)(free_list + obj_idx := s_free_object s)\<rparr>), True))"

definition free_off_slab :: "u64 \<Rightarrow> u64 \<Rightarrow> 'v heap_state \<Rightarrow> 'v heap_state \<times> bool" where
  "free_off_slab slab node h =
     (if node = 0 then (h, False)
      else (upd_slab slab (\<lambda>s. s\<lparr>s_free_node := node, s_allocated := s_allocated s - 1\<rparr>)
              (upd_obj_node node (\<lambda>n. n\<lparr>on_next := s_free_node (slabs h slab)\<rparr>) h), True))"

section \<open>Rings of slabs\<close>

text \<open>Both functions return the new head of the list.\<close>

definition insert_last :: "u64 \<Rightarrow> u64 \<Rightarrow> 'v heap_state \<Rightarrow> 'v heap_state \<times> u64" where
  "insert_last l slab h =
     (if l = 0 then (upd_slab slab (\<lambda>s. s\<lparr>s_next := slab, s_prev := slab\<rparr>) h, slab)
      else
        let tail = s_prev (slabs h l);
            h = upd_slab tail (\<lambda>s. s\<lparr>s_next := slab\<rparr>) h;
            h = upd_slab slab (\<lambda>s. s\<lparr>s_next := l, s_prev := tail\<rparr>) h
        in (upd_slab l (\<lambda>s. s\<lparr>s_prev := slab\<rparr>) h, l))"

definition remove_slab :: "u64 \<Rightarrow> u64 \<Rightarrow> 'v heap_state \<Rightarrow> 'v heap_state \<times> u64" where
  "remove_slab l element h =
     (let (h, new_head) =
        (if element \<noteq> s_next (slabs h element) then
           let new_head = (if l = element then s_next (slabs h element) else l);
               h = upd_slab (s_next (slabs h element)) (\<lambda>s. s\<lparr>s_prev := s_prev (slabs h element)\<rparr>) h;
               h = upd_slab (s_prev (slabs h element)) (\<lambda>s. s\<lparr>s_next := s_next (slabs h element)\<rparr>) h
           in (h, new_head)
         else (h, 0))
      in (upd_slab element (\<lambda>s. s\<lparr>s_next := 0, s_prev := 0\<rparr>) h, new_head))"

section \<open>Maps from objects to their nodes\<close>

partial_function (option) chain_find :: "(u64 \<Rightarrow> hash_node) \<Rightarrow> u64 \<Rightarrow> u64 \<Rightarrow> u64 option" where
  "chain_find nodes key node =
     (if node \<noteq> 0 then
        if hn_key (nodes node) = key then Some (hn_value (nodes node)) else chain_find nodes key (hn_next (nodes node))
      else Some 0)"

declare chain_find.simps [code]

definition bucket_of :: "u64 \<Rightarrow> nat" where "bucket_of key = unat (key mod BUCKET_COUNT)"

definition map_get :: "u64 \<Rightarrow> u64 \<Rightarrow> 'v heap_state \<Rightarrow> u64 option" where
  "map_get map_ptr key h =
     (if map_ptr = 0 then None else chain_find (hash_nodes h) key (map_nodes (hash_maps h map_ptr) ! bucket_of key))"

definition map_init :: "u64 \<Rightarrow> cache_ref \<Rightarrow> 'v heap_state \<Rightarrow> 'v heap_state" where
  "map_init map_ptr c h = h\<lparr>hash_maps := (hash_maps h)(map_ptr := \<lparr>map_nodes = replicate 37 0, map_node_cache = c\<rparr>)\<rparr>"

text \<open>Allocation from a cache is an argument, because caches allocate from each other.\<close>

definition map_insert ::
  "(cache_ref \<Rightarrow> 'v heap_state \<Rightarrow> ('v heap_state \<times> u64) option) \<Rightarrow> u64 \<Rightarrow> u64 \<Rightarrow> u64 \<Rightarrow> 'v heap_state \<Rightarrow> 'v heap_state option" where
  "map_insert alloc map_ptr key v h =
     (if map_ptr = 0 then None
      else case alloc (map_node_cache (hash_maps h map_ptr)) h of
        None \<Rightarrow> None
      | Some (h, node) \<Rightarrow>
          if node = 0 then None
          else
            let m = hash_maps h map_ptr; old_head = map_nodes m ! bucket_of key
            in Some (h\<lparr>hash_nodes := (hash_nodes h)(node := \<lparr>hn_next = old_head, hn_key = key, hn_value = v\<rparr>),
                       hash_maps := (hash_maps h)(map_ptr := m\<lparr>map_nodes := (map_nodes m)[bucket_of key := node]\<rparr>)\<rparr>))"

text \<open>The nodes of the objects behind the first one: \<open>prev\<close> is the node of the object before.\<close>

fun off_slab_nodes ::
  "(cache_ref \<Rightarrow> 'v heap_state \<Rightarrow> ('v heap_state \<times> u64) option) \<Rightarrow> object_cache \<Rightarrow> u64 \<Rightarrow> u64 \<Rightarrow> u64 \<Rightarrow> nat list \<Rightarrow> u64 \<Rightarrow>
   'v heap_state \<Rightarrow> 'v heap_state option" where
  "off_slab_nodes alloc oc slab object_size page [] prev h = Some h"
| "off_slab_nodes alloc oc slab object_size page (i # is) prev h =
     (case alloc (oc_obj_nodes oc) h of
        None \<Rightarrow> None
      | Some (h, n) \<Rightarrow>
          if n = 0 then None
          else
            let obj = page + of_nat i * object_size;
                h = upd_obj_node n (\<lambda>_. \<lparr>on_next = 0, on_object = obj, on_owner = slab\<rparr>) h
            in (case map_insert alloc (oc_map oc) obj n h of
                  None \<Rightarrow> None
                | Some h \<Rightarrow> off_slab_nodes alloc oc slab object_size page is n (upd_obj_node prev (\<lambda>m. m\<lparr>on_next := n\<rparr>) h)))"

definition create_off_slab ::
  "(cache_ref \<Rightarrow> 'v heap_state \<Rightarrow> ('v heap_state \<times> u64) option) \<Rightarrow> object_cache \<Rightarrow> u64 \<Rightarrow> u64 \<Rightarrow> u64 \<Rightarrow>
   'v heap_state \<Rightarrow> ('v heap_state \<times> u64) option" where
  "create_off_slab alloc oc object_size page slab_size h =
     (if object_size = 0 then None
      else case alloc (oc_slab_cache oc) h of
        None \<Rightarrow> None
      | Some (h, slab) \<Rightarrow>
          if slab = 0 then None
          else
            let count = slab_size div object_size;
                h = upd_slab slab (\<lambda>s. s\<lparr>s_next := 0, s_prev := 0, s_object_size := object_size, s_object_count := count,
                      s_allocated := 0, s_page := page, s_size := slab_size\<rparr>) h;
                h = clear_memory page slab_size h
            in (case alloc (oc_obj_nodes oc) h of
                  None \<Rightarrow> None
                | Some (h, prev) \<Rightarrow>
                    if prev = 0 then None
                    else
                      let h = upd_obj_node prev (\<lambda>_. \<lparr>on_next = 0, on_object = page, on_owner = slab\<rparr>) h;
                          h = upd_slab slab (\<lambda>s. s\<lparr>s_free_node := prev\<rparr>) h
                      in (case map_insert alloc (oc_map oc) page prev h of
                            None \<Rightarrow> None
                          | Some h \<Rightarrow> map_option (\<lambda>h. (h, slab))
                              (off_slab_nodes alloc oc slab object_size page [1..<unat count] prev h))))"

section \<open>Object caches\<close>

text \<open>The loop that maps the pages of a slab: \<open>Some i\<close> is the page that could not be allocated.\<close>

partial_function (option) map_pages ::
  "'v vm_ops \<Rightarrow> u16 \<Rightarrow> u64 \<Rightarrow> u64 \<Rightarrow> 'v \<Rightarrow> ('v \<times> u64 option) option" where
  "map_pages ops flags i limit v =
     (if i < limit then
        (case vm_allocate ops v i flags of
           None \<Rightarrow> None
         | Some (v, ok) \<Rightarrow> if ok then map_pages ops flags (i + PAGE_SIZE) limit v else Some (v, Some i))
      else Some (v, None))"

declare map_pages.simps [code]

text \<open>The loop that unmaps pages; with \<open>stop\<close> it ends at the first page that could not be freed.\<close>

partial_function (option) unmap_pages :: "'v vm_ops \<Rightarrow> bool \<Rightarrow> u64 \<Rightarrow> u64 \<Rightarrow> 'v \<Rightarrow> 'v option" where
  "unmap_pages ops stop i limit v =
     (if i < limit then
        (case vm_free ops v i of
           None \<Rightarrow> None
         | Some (v, ok) \<Rightarrow> if stop \<and> \<not> ok then Some v else unmap_pages ops stop (i + PAGE_SIZE) limit v)
      else Some v)"

declare unmap_pages.simps [code]

definition move_slab ::
  "cache_ref \<Rightarrow> (object_cache \<Rightarrow> u64) \<Rightarrow> (u64 \<Rightarrow> object_cache \<Rightarrow> object_cache) \<Rightarrow>
   (object_cache \<Rightarrow> u64) \<Rightarrow> (u64 \<Rightarrow> object_cache \<Rightarrow> object_cache) \<Rightarrow> u64 \<Rightarrow> 'v heap_state \<Rightarrow> 'v heap_state" where
  "move_slab c from set_from to set_to slab h =
     (let (h, l) = remove_slab (from (caches h c)) slab h;
          h = upd_cache c (set_from l) h;
          (h, l) = insert_last (to (caches h c)) slab h
      in upd_cache c (set_to l) h)"

abbreviation set_full :: "u64 \<Rightarrow> object_cache \<Rightarrow> object_cache" where "set_full l \<equiv> oc_full_update (\<lambda>_. l)"
abbreviation set_partial :: "u64 \<Rightarrow> object_cache \<Rightarrow> object_cache" where "set_partial l \<equiv> oc_partial_update (\<lambda>_. l)"
abbreviation set_empty :: "u64 \<Rightarrow> object_cache \<Rightarrow> object_cache" where "set_empty l \<equiv> oc_empty_update (\<lambda>_. l)"

text \<open>The part of \<open>free\<close> behind the change of the slab.\<close>

definition refile_freed :: "cache_ref \<Rightarrow> u64 \<Rightarrow> u64 \<Rightarrow> 'v heap_state \<Rightarrow> 'v heap_state" where
  "refile_freed c slab old_alloc_count h =
     (if s_allocated (slabs h slab) = 0 then
        if slab = oc_full (caches h c) then move_slab c oc_full set_full oc_empty set_empty slab h
        else move_slab c oc_partial set_partial oc_empty set_empty slab h
      else if old_alloc_count = s_object_count (slabs h slab) then
        move_slab c oc_full set_full oc_partial set_partial slab h
      else h)"

definition page_of :: "u64 \<Rightarrow> u64" where "page_of a = push_bit 12 (drop_bit 12 a)"

definition cache_free :: "cache_ref \<Rightarrow> u64 \<Rightarrow> 'v heap_state \<Rightarrow> 'v heap_state option" where
  "cache_free c obj h =
     (if c = Null_Cache then None
      else if oc_type (caches h c) = ON_SLAB then
        let page = page_of obj; slab = page + PAGE_SIZE - SLAB_SIZE
        in if s_page (slabs h slab) \<noteq> page then Some h
           else
             let (h', changed) = free_on_slab slab obj h
             in Some (if changed then refile_freed c slab (s_allocated (slabs h slab)) h' else h')
      else case map_get (oc_map (caches h c)) obj h of
        None \<Rightarrow> None
      | Some node \<Rightarrow>
          if node = 0 then Some h
          else
            let slab = on_owner (obj_nodes h node)
            in if slab = 0 then Some h
               else
                 let (h', changed) = free_off_slab slab node h
                 in Some (if changed then refile_freed c slab (s_allocated (slabs h slab)) h' else h'))"

definition grow ::
  "'v vm_ops \<Rightarrow> (cache_ref \<Rightarrow> 'v heap_state \<Rightarrow> ('v heap_state \<times> u64) option) \<Rightarrow> cache_ref \<Rightarrow> 'v heap_state \<Rightarrow>
   ('v heap_state \<times> bool) option" where
  "grow ops alloc c h =
     (let oc = caches h c;
          page = (if oc_free_pages oc \<noteq> 0 then mn_addr (mem_nodes h (oc_free_pages oc)) else oc_limit oc);
          aligned_size = (if oc_align oc = 0 then oc_size oc else oc_align oc * ((oc_size oc - 1) div oc_align oc + 1));
          slab_size = (if memory_is_aligned aligned_size PAGE_SIZE then aligned_size else memory_align aligned_size PAGE_SIZE True)
      in if region_end (oc_managed oc) \<le> page + slab_size then Some (h, False)
         else do {
           (v, failed) \<leftarrow> map_pages ops (oc_flags oc) page (page + slab_size) (vm h);
           (case failed of
              Some last_alloc \<Rightarrow> map_option (\<lambda>v. (h\<lparr>vm := v\<rparr>, False)) (unmap_pages ops True page last_alloc v)
            | None \<Rightarrow> do {
                let h = h\<lparr>vm := v\<rparr>;
                h \<leftarrow> (if page < oc_limit oc then
                       (let f = oc_free_pages oc;
                            h = upd_cache c (\<lambda>oc. oc\<lparr>oc_free_pages := mn_next (mem_nodes h f)\<rparr>) h
                        in if f = 0 then None
                           else cache_free (oc_node_cache oc) f (h\<lparr>mem_nodes := (mem_nodes h)(f := \<lparr>mn_next = 0, mn_addr = 0\<rparr>)\<rparr>))
                     else Some (upd_cache c (\<lambda>oc. oc\<lparr>oc_limit := oc_limit oc + slab_size\<rparr>) h));
                (h, slab) \<leftarrow> (if oc_type oc = ON_SLAB then create_on_slab aligned_size page h
                             else create_off_slab alloc oc aligned_size page slab_size h);
                let (h, l) = insert_last (oc_empty (caches h c)) slab h;
                Some (upd_cache c (\<lambda>oc. oc\<lparr>oc_empty := l, oc_slab_count := oc_slab_count oc + 1\<rparr>) h, True) }) })"

definition init_cache_object ::
  "cache_ref \<Rightarrow> memory_region \<Rightarrow> cache_ref \<Rightarrow> u16 \<Rightarrow> cache_ref \<Rightarrow> u64 \<Rightarrow> u64 \<Rightarrow> u64 \<Rightarrow> cache_ref \<Rightarrow> 'v heap_state \<Rightarrow>
   'v heap_state \<times> int" where
  "init_cache_object c region node_cache flags obj_cache map_ptr object_size align slab_cache h =
     (if object_size = 0 then (h, - 1)
      else if 0 < align \<and> align AND (align - 1) \<noteq> 0 then (h, - 2)
      else (upd_cache c (\<lambda>oc. oc\<lparr>oc_node_cache := node_cache, oc_managed := region, oc_limit := rstart region,
              oc_flags := flags, oc_obj_nodes := obj_cache, oc_map := map_ptr, oc_size := object_size, oc_align := align,
              oc_slab_cache := slab_cache, oc_type := (if object_size < PAGE_SIZE div 8 then ON_SLAB else OFF_SLAB)\<rparr>) h, 0))"

definition alloc_slab_of :: "cache_ref \<Rightarrow> 'v heap_state \<Rightarrow> u64" where
  "alloc_slab_of c h = (if oc_partial (caches h c) \<noteq> 0 then oc_partial (caches h c) else oc_empty (caches h c))"

text \<open>The part of \<open>allocate\<close> behind the search for a slab.\<close>

definition refile_allocated :: "cache_ref \<Rightarrow> u64 \<Rightarrow> 'v heap_state \<Rightarrow> 'v heap_state" where
  "refile_allocated c slab h =
     (if s_allocated (slabs h slab) = s_object_count (slabs h slab) then
        if slab = oc_empty (caches h c) then move_slab c oc_empty set_empty oc_full set_full slab h
        else move_slab c oc_partial set_partial oc_full set_full slab h
      else if slab = oc_empty (caches h c) then move_slab c oc_empty set_empty oc_partial set_partial slab h
      else h)"

definition take_object :: "cache_ref \<Rightarrow> 'v heap_state \<Rightarrow> ('v heap_state \<times> u64) option" where
  "take_object c h =
     (let slab = alloc_slab_of c h
      in if slab = 0 then None
         else map_option (\<lambda>(h, obj). (refile_allocated c slab h, obj))
           (if oc_type (caches h c) = ON_SLAB then Some (alloc_on_slab slab h) else alloc_off_slab slab h))"

text \<open>The fuel is the depth of the calls between caches: an off slab cache needs two levels, an on slab cache one.\<close>

fun cache_allocate :: "'v vm_ops \<Rightarrow> nat \<Rightarrow> cache_ref \<Rightarrow> 'v heap_state \<Rightarrow> ('v heap_state \<times> u64) option" where
  "cache_allocate ops 0 c h = None"
| "cache_allocate ops (Suc fuel) c h =
     (let slab = alloc_slab_of c h
      in if c = Null_Cache then None
         else if slab = 0 \<or> s_allocated (slabs h slab) = s_object_count (slabs h slab) then
           (case grow ops (cache_allocate ops fuel) c h of
              None \<Rightarrow> None
            | Some (h, ok) \<Rightarrow> if ok then take_object c h else Some (h, 0))
         else take_object c h)"

definition object_at :: "cache_ref \<Rightarrow> u8 \<Rightarrow> 'v heap_state \<Rightarrow> u64 option" where
  "object_at c idx h =
     (let oc = caches h c
      in if oc_type oc = OFF_SLAB \<or> oc_slab_count oc = 0 then Some 0
         else
           let obj_count = s_object_count (slabs h (if oc_empty oc \<noteq> 0 then oc_empty oc
                 else if oc_partial oc \<noteq> 0 then oc_partial oc else oc_full oc))
           in if obj_count = 0 then None
              else
                let page = rstart (oc_managed oc) + (ucast idx div obj_count) * PAGE_SIZE
                in Some (page + (ucast idx mod obj_count) * oc_size oc))"

text \<open>Removing a key from a map; \<open>prev\<close> is the node before, or null at the head of the bucket.\<close>

partial_function (option) map_remove_loop :: "u64 \<Rightarrow> u64 \<Rightarrow> u64 \<Rightarrow> u64 \<Rightarrow> 'v heap_state \<Rightarrow> 'v heap_state option" where
  "map_remove_loop map_ptr key prev node h =
     (if node \<noteq> 0 then
        if hn_key (hash_nodes h node) = key then
          (let m = hash_maps h map_ptr; next_node = hn_next (hash_nodes h node);
               h = (if prev \<noteq> 0 then h\<lparr>hash_nodes := (hash_nodes h)(prev := (hash_nodes h prev)\<lparr>hn_next := next_node\<rparr>)\<rparr>
                    else h\<lparr>hash_maps := (hash_maps h)(map_ptr := m\<lparr>map_nodes := (map_nodes m)[bucket_of key := next_node]\<rparr>)\<rparr>)
           in cache_free (map_node_cache m) node h)
        else map_remove_loop map_ptr key node (hn_next (hash_nodes h node)) h
      else Some h)"

declare map_remove_loop.simps [code]

definition map_remove :: "u64 \<Rightarrow> u64 \<Rightarrow> 'v heap_state \<Rightarrow> 'v heap_state option" where
  "map_remove map_ptr key h =
     (if map_ptr = 0 then None else map_remove_loop map_ptr key 0 (map_nodes (hash_maps h map_ptr) ! bucket_of key) h)"

section \<open>Destroying caches\<close>

partial_function (option) destroy_slab_list :: "cache_ref \<Rightarrow> u64 \<Rightarrow> u64 \<Rightarrow> 'v heap_state \<Rightarrow> 'v heap_state option" where
  "destroy_slab_list slab_cache list_head slab h =
     (if slab \<noteq> 0 then
        (let next_slab = s_next (slabs h slab);
             h = upd_slab slab (\<lambda>s. s\<lparr>s_next := 0, s_prev := 0, s_free_node := 0, s_object_size := 0, s_object_count := 0,
                   s_allocated := 0, s_page := 0\<rparr>) h
         in case cache_free slab_cache slab h of
              None \<Rightarrow> None
            | Some h \<Rightarrow>
                let slab = (if slab \<noteq> next_slab then next_slab else 0)
                in if slab = list_head then Some h else destroy_slab_list slab_cache list_head slab h)
      else Some h)"

declare destroy_slab_list.simps [code]

partial_function (option) purge_chain :: "cache_ref \<Rightarrow> cache_ref \<Rightarrow> u64 \<Rightarrow> 'v heap_state \<Rightarrow> 'v heap_state option" where
  "purge_chain obj_cache node_cache node h =
     (if node \<noteq> 0 then
        (let next_node = hn_next (hash_nodes h node); v = hn_value (hash_nodes h node)
         in if v = 0 then None
            else case cache_free obj_cache v (upd_obj_node v (\<lambda>_. \<lparr>on_next = 0, on_object = 0, on_owner = 0\<rparr>) h) of
              None \<Rightarrow> None
            | Some h \<Rightarrow>
                (case cache_free node_cache node
                        (h\<lparr>hash_nodes := (hash_nodes h)(node := \<lparr>hn_next = 0, hn_key = 0, hn_value = 0\<rparr>)\<rparr>) of
                   None \<Rightarrow> None
                 | Some h \<Rightarrow> purge_chain obj_cache node_cache next_node h))
      else Some h)"

declare purge_chain.simps [code]

fun purge_buckets :: "u64 \<Rightarrow> cache_ref \<Rightarrow> nat list \<Rightarrow> 'v heap_state \<Rightarrow> 'v heap_state option" where
  "purge_buckets map_ptr obj_cache [] h = Some h"
| "purge_buckets map_ptr obj_cache (i # is) h =
     (case purge_chain obj_cache (map_node_cache (hash_maps h map_ptr)) (map_nodes (hash_maps h map_ptr) ! i) h of
        None \<Rightarrow> None
      | Some h \<Rightarrow>
          let m = hash_maps h map_ptr
          in purge_buckets map_ptr obj_cache is
               (h\<lparr>hash_maps := (hash_maps h)(map_ptr := m\<lparr>map_nodes := (map_nodes m)[i := 0]\<rparr>)\<rparr>))"

definition map_purge :: "u64 \<Rightarrow> cache_ref \<Rightarrow> 'v heap_state \<Rightarrow> 'v heap_state option" where
  "map_purge map_ptr obj_cache h = (if map_ptr = 0 then None else purge_buckets map_ptr obj_cache [0..<37] h)"

definition map_destroy :: "u64 \<Rightarrow> cache_ref \<Rightarrow> 'v heap_state \<Rightarrow> 'v heap_state option" where
  "map_destroy map_ptr obj_cache h =
     map_option (\<lambda>h. h\<lparr>hash_maps := (hash_maps h)(map_ptr := (hash_maps h map_ptr)\<lparr>map_node_cache := Null_Cache\<rparr>)\<rparr>)
       (map_purge map_ptr obj_cache h)"

partial_function (option) free_mem_nodes :: "cache_ref \<Rightarrow> u64 \<Rightarrow> 'v heap_state \<Rightarrow> 'v heap_state option" where
  "free_mem_nodes node_cache node h =
     (if node \<noteq> 0 then
        (let next_node = mn_next (mem_nodes h node)
         in case cache_free node_cache node h of None \<Rightarrow> None | Some h \<Rightarrow> free_mem_nodes node_cache next_node h)
      else Some h)"

declare free_mem_nodes.simps [code]

definition cache_purge :: "cache_ref \<Rightarrow> 'v heap_state \<Rightarrow> 'v heap_state option" where
  "cache_purge c h = do {
     let oc = caches h c;
     h \<leftarrow> (if oc_type oc = OFF_SLAB then do {
            h \<leftarrow> destroy_slab_list (oc_slab_cache oc) (oc_full oc) (oc_full oc) h;
            h \<leftarrow> destroy_slab_list (oc_slab_cache oc) (oc_partial oc) (oc_partial oc) h;
            h \<leftarrow> destroy_slab_list (oc_slab_cache oc) (oc_empty oc) (oc_empty oc) h;
            map_purge (oc_map oc) (oc_obj_nodes oc) h }
          else Some h);
     h \<leftarrow> free_mem_nodes (oc_node_cache oc) (oc_free_pages oc) h;
     Some (upd_cache c (\<lambda>oc. oc\<lparr>oc_full := 0, oc_partial := 0, oc_empty := 0, oc_slab_count := 0\<rparr>) h) }"

definition cache_destroy :: "'v vm_ops \<Rightarrow> cache_ref \<Rightarrow> 'v heap_state \<Rightarrow> 'v heap_state option" where
  "cache_destroy ops c h = do {
     h \<leftarrow> cache_purge c h;
     let oc = caches h c;
     h \<leftarrow> (if oc_type oc = OFF_SLAB then map_destroy (oc_map oc) (oc_obj_nodes oc) h else Some h);
     v \<leftarrow> unmap_pages ops False (rstart (oc_managed oc)) (oc_limit oc) (vm h);
     Some (upd_cache c (\<lambda>_. zero_cache) (h\<lparr>vm := v\<rparr>)) }"

section \<open>The allocator\<close>

definition MIN_SIZE_POWER :: nat where "MIN_SIZE_POWER = 4"
definition STATIC_CACHE_COUNT :: nat where "STATIC_CACHE_COUNT = 13"
definition MIN_OBJ_SIZE :: u64 where "MIN_OBJ_SIZE = 16"
definition CACHE_SIZE :: u64 where "CACHE_SIZE = 0x200000"
definition BOOTSTRAP_CACHE_COUNT :: u64 where "BOOTSTRAP_CACHE_COUNT = 6"

text \<open>The sizes of the objects in the caches that the allocator holds itself.\<close>

definition OBJECT_CACHE_SIZE :: u64 where "OBJECT_CACHE_SIZE = 144"
definition OBJ_NODE_SIZE :: u64 where "OBJ_NODE_SIZE = 24"
definition BUF_MAP_SIZE :: u64 where "BUF_MAP_SIZE = 304"
definition HASH_NODE_SIZE :: u64 where "HASH_NODE_SIZE = 24"
definition MEM_NODE_SIZE :: u64 where "MEM_NODE_SIZE = 16"

definition ALLOC_DEPTH :: nat where "ALLOC_DEPTH = 2"

record 'v slab_allocator =
  heap :: "'v heap_state"
  gp_caches :: "cache_ref list"
  dma_caches :: "cache_ref list"
  heap_memory :: memory_region
  heap_limit_addr :: u64
  heap_free :: u64
  heap_fail :: heap_failure

definition log2_of :: "u64 \<Rightarrow> nat" where
  "log2_of n =
     (if n = 16 then 4 else if n = 32 then 5 else if n = 64 then 6 else if n = 128 then 7 else if n = 256 then 8
      else if n = 512 then 9 else if n = 1024 then 10 else if n = 2048 then 11 else if n = 4096 then 12
      else if n = 8192 then 13 else if n = 16384 then 14 else if n = 32768 then 15 else if n = 65536 then 16 else 0)"

definition power_of_two_boundaries :: "u64 \<Rightarrow> u64 \<times> u64" where
  "power_of_two_boundaries size0 =
     (let n = size0 - 1; n = n OR drop_bit 1 n; n = n OR drop_bit 2 n; n = n OR drop_bit 4 n; n = n OR drop_bit 8 n;
          n = n OR drop_bit 16 n; n = n OR drop_bit 32 n; n = n + 1
      in (drop_bit 1 n, n))"

text \<open>The result is negative if the cache could not be set up.\<close>

definition init_cache ::
  "cache_ref \<Rightarrow> u64 \<Rightarrow> u64 \<Rightarrow> u16 \<Rightarrow> bool \<Rightarrow> u64 \<Rightarrow> 'v slab_allocator \<Rightarrow> ('v slab_allocator \<times> int) option" where
  "init_cache c obj_size align flags force_off_slab map_ptr a =
     (if region_end (heap_memory a) \<le> heap_limit_addr a then Some (a, - 1)
      else if force_off_slab \<and> PAGE_SIZE div 8 \<le> obj_size then Some (a, - 2)
      else
        let h = heap a;
            region = \<lparr>rstart = (if heap_free a \<noteq> 0 then mn_addr (mem_nodes h (heap_free a)) else heap_limit_addr a),
                      rsize = CACHE_SIZE, rtype = NONE\<rparr>;
            (h, r_code) =
              (if obj_size < PAGE_SIZE div 8
               then init_cache_object c region Null_Cache flags Null_Cache 0 obj_size align Null_Cache h
               else init_cache_object c region Memory_Node_Cache flags Object_Buf_Node_Cache map_ptr obj_size align Slab_Cache h);
            a = a\<lparr>heap := h\<rparr>
        in if r_code < 0 then Some (a, r_code)
           else if rstart region = heap_limit_addr a then Some (a\<lparr>heap_limit_addr := heap_limit_addr a + CACHE_SIZE\<rparr>, 0)
           else
             let f = heap_free a
             in if f = 0 then None
                else case cache_free Memory_Node_Cache f (h\<lparr>mem_nodes := (mem_nodes h)(f := \<lparr>mn_next = 0, mn_addr = 0\<rparr>)\<rparr>) of
                  None \<Rightarrow> None
                | Some h' \<Rightarrow> Some (a\<lparr>heap := h', heap_free := mn_next (mem_nodes h f)\<rparr>, 0))"

fun start_static_caches ::
  "'v vm_ops \<Rightarrow> u16 \<Rightarrow> u16 \<Rightarrow> u64 \<Rightarrow> nat \<Rightarrow> 'v slab_allocator \<Rightarrow> ('v slab_allocator \<times> heap_failure) option" where
  "start_static_caches ops flags dma_flags size0 0 a = Some (a, HEAP_NONE)"
| "start_static_caches ops flags dma_flags size0 (Suc n) a = do {
     (h, gpc) \<leftarrow> cache_allocate ops ALLOC_DEPTH Object_Cache_Cache (heap a);
     (h, dmac) \<leftarrow> cache_allocate ops ALLOC_DEPTH Object_Cache_Cache h;
     (h, gpc_map) \<leftarrow> cache_allocate ops ALLOC_DEPTH Hash_Map_Cache h;
     (h, dma_map) \<leftarrow> cache_allocate ops ALLOC_DEPTH Hash_Map_Cache h;
     if gpc = 0 \<or> dmac = 0 \<or> gpc_map = 0 \<or> dma_map = 0 then Some (a\<lparr>heap := h\<rparr>, ALLOC_GP_OR_DMA_CACHE_ERROR)
     else do {
       let h = map_init dma_map Hash_Node_Cache (map_init gpc_map Hash_Node_Cache h);
       (a, r) \<leftarrow> init_cache (Cache_At gpc) size0 0 flags False gpc_map (a\<lparr>heap := h\<rparr>);
       if r < 0 then Some (a, GP_CACHE_ERROR)
       else do {
         (a, r) \<leftarrow> init_cache (Cache_At dmac) size0 0 dma_flags False dma_map a;
         if r < 0 then Some (a, DMA_CACHE_ERROR)
         else start_static_caches ops flags dma_flags (push_bit 1 size0) n
                (a\<lparr>gp_caches := gp_caches a @ [Cache_At gpc], dma_caches := dma_caches a @ [Cache_At dmac]\<rparr>) } } }"

fun start_bootstrap_caches ::
  "u16 \<Rightarrow> (cache_ref \<times> u64 \<times> heap_failure) list \<Rightarrow> 'v slab_allocator \<Rightarrow> ('v slab_allocator \<times> heap_failure) option" where
  "start_bootstrap_caches flags [] a = Some (a, HEAP_NONE)"
| "start_bootstrap_caches flags ((c, size0, err) # cs) a = do {
     (a, r) \<leftarrow> init_cache c size0 0 flags True 0 a;
     if r < 0 then Some (a, err) else start_bootstrap_caches flags cs a }"

definition heap_start :: "'v vm_ops \<Rightarrow> memory_region list \<Rightarrow> 'v slab_allocator \<Rightarrow> ('v slab_allocator \<times> heap_failure) option" where
  "heap_start ops v_map a =
     (let a = (case find (\<lambda>reg. rtype reg = KERNEL_HEAP) v_map of None \<Rightarrow> a | Some reg \<Rightarrow> a\<lparr>heap_memory := reg\<rparr>);
          flags = PRESENT OR WRITE_ALLOWED
      in if rtype (heap_memory a) = NONE then Some (a\<lparr>heap_fail := HEAP_NOT_MAPPED\<rparr>, HEAP_NOT_MAPPED)
         else do {
           (a, err) \<leftarrow> start_bootstrap_caches flags
              [(Object_Cache_Cache, OBJECT_CACHE_SIZE, BC_OBJECT_CACHE_ERROR), (Slab_Cache, SLAB_SIZE, BC_SLAB_ERROR),
               (Object_Buf_Node_Cache, OBJ_NODE_SIZE, BC_OBJECT_BUF_NODE_ERROR),
               (Hash_Map_Cache, BUF_MAP_SIZE, BC_OBJECT_BUF_NODE_HASHMAP_ERROR),
               (Hash_Node_Cache, HASH_NODE_SIZE, BC_HASHNODE_ERROR), (Memory_Node_Cache, MEM_NODE_SIZE, BC_MEMORY_NODE_ERROR)]
              (a\<lparr>heap_limit_addr := rstart (heap_memory a)\<rparr>);
           if err \<noteq> HEAP_NONE then Some (a\<lparr>heap_fail := err\<rparr>, err)
           else do {
             (a, err) \<leftarrow> start_static_caches ops flags (flags OR CACHE_DISABLE OR WRITE_THROUGH) MIN_OBJ_SIZE STATIC_CACHE_COUNT a;
             Some (if err = HEAP_NONE then a else a\<lparr>heap_fail := err\<rparr>, err) } })"

definition get_min_cache_size :: u32 where "get_min_cache_size = push_bit MIN_SIZE_POWER 1"

definition get_max_cache_size :: u32 where "get_max_cache_size = push_bit (STATIC_CACHE_COUNT + MIN_SIZE_POWER - 1) 1"

text \<open>A size above the largest cache gives an index outside of the table.\<close>

definition size_class :: "u64 \<Rightarrow> nat option" where
  "size_class size0 =
     (let upper = snd (power_of_two_boundaries (max_of size0 MIN_OBJ_SIZE))
      in if log2_of upper < MIN_SIZE_POWER then None else Some (log2_of upper - MIN_SIZE_POWER))"

definition allocate_from ::
  "'v vm_ops \<Rightarrow> cache_ref list \<Rightarrow> u64 \<Rightarrow> 'v slab_allocator \<Rightarrow> ('v slab_allocator \<times> u64) option" where
  "allocate_from ops cs size0 a =
     (case size_class size0 of
        None \<Rightarrow> None
      | Some i \<Rightarrow>
          if length cs \<le> i then None
          else map_option (\<lambda>(h, obj). (a\<lparr>heap := h\<rparr>, obj)) (cache_allocate ops ALLOC_DEPTH (cs ! i) (heap a)))"

definition heap_allocate :: "'v vm_ops \<Rightarrow> u64 \<Rightarrow> 'v slab_allocator \<Rightarrow> ('v slab_allocator \<times> u64) option" where
  "heap_allocate ops size0 a = allocate_from ops (gp_caches a) size0 a"

definition heap_allocate_dma :: "'v vm_ops \<Rightarrow> u64 \<Rightarrow> 'v slab_allocator \<Rightarrow> ('v slab_allocator \<times> u64) option" where
  "heap_allocate_dma ops size0 a = allocate_from ops (dma_caches a) size0 a"

definition cache_index :: "u64 \<Rightarrow> 'v slab_allocator \<Rightarrow> u64" where
  "cache_index obj a = (memory_align obj CACHE_SIZE False - rstart (heap_memory a)) div CACHE_SIZE"

definition heap_release :: "u64 \<Rightarrow> 'v slab_allocator \<Rightarrow> 'v slab_allocator option" where
  "heap_release obj a =
     (case object_at Object_Cache_Cache (ucast (cache_index obj a - BOOTSTRAP_CACHE_COUNT)) (heap a) of
        None \<Rightarrow> None
      | Some c \<Rightarrow>
          if c = 0 \<or> oc_type (caches (heap a) (Cache_At c)) = CACHE_NONE then Some a
          else map_option (\<lambda>h. a\<lparr>heap := h\<rparr>) (cache_free (Cache_At c) obj (heap a)))"

definition create_new_cache ::
  "'v vm_ops \<Rightarrow> u64 \<Rightarrow> u64 \<Rightarrow> bool \<Rightarrow> 'v slab_allocator \<Rightarrow> ('v slab_allocator \<times> u64) option" where
  "create_new_cache ops object_size align dma a = do {
     (h, c) \<leftarrow> cache_allocate ops ALLOC_DEPTH Object_Cache_Cache (heap a);
     if c = 0 then Some (a\<lparr>heap := h\<rparr>, 0)
     else do {
       (h, obnhm) \<leftarrow> cache_allocate ops ALLOC_DEPTH Hash_Map_Cache h;
       if obnhm = 0 then do {
         h \<leftarrow> cache_free Object_Cache_Cache c h;
         Some (a\<lparr>heap := h\<rparr>, 0) }
       else do {
         let flags = (if dma then PRESENT OR WRITE_ALLOWED OR CACHE_DISABLE OR WRITE_THROUGH else PRESENT OR WRITE_ALLOWED);
         (a, r) \<leftarrow> init_cache (Cache_At c) object_size align flags False obnhm (a\<lparr>heap := map_init obnhm Hash_Node_Cache h\<rparr>);
         if r < 0 then do {
           h \<leftarrow> cache_free Object_Cache_Cache c (heap a);
           h \<leftarrow> cache_free Hash_Map_Cache obnhm h;
           Some (a\<lparr>heap := h\<rparr>, 0) }
         else Some (a, c) } } }"

definition destroy_cache :: "'v vm_ops \<Rightarrow> u64 \<Rightarrow> 'v slab_allocator \<Rightarrow> 'v slab_allocator option" where
  "destroy_cache ops c a = do {
     let m_start = rstart (oc_managed (caches (heap a) (Cache_At c)));
     (h, mem_node) \<leftarrow> cache_allocate ops ALLOC_DEPTH Memory_Node_Cache (heap a);
     if mem_node = 0 then Some (a\<lparr>heap := h\<rparr>)
     else do {
       h \<leftarrow> cache_destroy ops (Cache_At c) h;
       h \<leftarrow> cache_free Object_Cache_Cache c h;
       Some (if m_start = heap_limit_addr a then a\<lparr>heap := h, heap_limit_addr := heap_limit_addr a - CACHE_SIZE\<rparr>
             else a\<lparr>heap := h\<lparr>mem_nodes := (mem_nodes h)(mem_node := \<lparr>mn_next = heap_free a, mn_addr = m_start\<rparr>)\<rparr>,
                    heap_free := mem_node\<rparr>) } }"

end
