(* ===== verification/Slab_Cache.thy ===== *)
theory Slab_Cache
  imports Slab_Allocator
begin

text \<open>
  The contract of the object caches that keep their data on the slabs: an object that is allocated is never handed
  out again before it is freed, whatever the other caches and the users of the objects do to their own memory.
\<close>

section \<open>Rings\<close>

definition cyc :: "(u64 \<Rightarrow> slab) \<Rightarrow> u64 list \<Rightarrow> bool" where
  "cyc S xs \<longleftrightarrow> (\<forall>(u, v) \<in> set (zip xs (rotate1 xs)). s_next (S u) = v \<and> s_prev (S v) = u)"

definition ring :: "(u64 \<Rightarrow> slab) \<Rightarrow> u64 \<Rightarrow> u64 list \<Rightarrow> bool" where
  "ring S l xs \<longleftrightarrow> distinct xs \<and> 0 \<notin> set xs \<and> l = (if xs = [] then 0 else hd xs) \<and> cyc S xs"

text \<open>Only the links of the slabs in \<open>X\<close> change.\<close>

definition same_data :: "slab \<Rightarrow> slab \<Rightarrow> bool" where
  "same_data s s' \<longleftrightarrow> s_free_node s' = s_free_node s \<and> s_free_object s' = s_free_object s \<and> s_object_size s' = s_object_size s \<and>
     s_object_count s' = s_object_count s \<and> s_allocated s' = s_allocated s \<and> s_page s' = s_page s \<and> s_size s' = s_size s"

definition links_only :: "u64 set \<Rightarrow> 'v heap_state \<Rightarrow> 'v heap_state \<Rightarrow> bool" where
  "links_only X h h' \<longleftrightarrow> h' = h\<lparr>slabs := slabs h'\<rparr> \<and> (\<forall>a. a \<notin> X \<longrightarrow> slabs h' a = slabs h a) \<and>
     (\<forall>a. same_data (slabs h a) (slabs h' a))"

lemma links_only_refl [simp]: "links_only X h h"
  by (simp add: links_only_def same_data_def)

lemma links_onlyI:
  assumes "\<And>a. a \<notin> X \<Longrightarrow> S a = slabs h a" and "\<And>a. a \<in> X \<Longrightarrow> same_data (slabs h a) (S a)"
  shows "links_only X h (h\<lparr>slabs := S\<rparr>)"
proof -
  have "same_data (slabs h a) (S a)" for a using assms by (cases "a \<in> X") (simp_all add: same_data_def)
  then show ?thesis unfolding links_only_def using assms(1) by simp
qed

lemma links_only_trans:
  assumes "links_only X h h1" and "links_only Y h1 h2"
  shows "links_only (X \<union> Y) h h2"
proof -
  have e: "h1 = h\<lparr>slabs := slabs h1\<rparr>" "h2 = h1\<lparr>slabs := slabs h2\<rparr>" using assms unfolding links_only_def by blast+
  have "h1\<lparr>slabs := slabs h2\<rparr> = h\<lparr>slabs := slabs h2\<rparr>" by (subst e(1)) simp
  then have "h2 = h\<lparr>slabs := slabs h2\<rparr>" using e(2) by simp
  then show ?thesis using assms unfolding links_only_def same_data_def by simp
qed

lemma links_only_fields:
  assumes "links_only X h h'"
  shows "a \<notin> X \<Longrightarrow> slabs h' a = slabs h a" "s_free_object (slabs h' a) = s_free_object (slabs h a)"
    "s_object_size (slabs h' a) = s_object_size (slabs h a)" "s_object_count (slabs h' a) = s_object_count (slabs h a)"
    "s_allocated (slabs h' a) = s_allocated (slabs h a)" "s_page (slabs h' a) = s_page (slabs h a)"
    "bytes h' = bytes h" "caches h' = caches h" "vm h' = vm h" "mem_nodes h' = mem_nodes h" "obj_nodes h' = obj_nodes h"
    "hash_nodes h' = hash_nodes h" "hash_maps h' = hash_maps h"
proof -
  have e: "h' = h\<lparr>slabs := slabs h'\<rparr>" using assms unfolding links_only_def by blast
  show "a \<notin> X \<Longrightarrow> slabs h' a = slabs h a" "s_free_object (slabs h' a) = s_free_object (slabs h a)"
    "s_object_size (slabs h' a) = s_object_size (slabs h a)" "s_object_count (slabs h' a) = s_object_count (slabs h a)"
    "s_allocated (slabs h' a) = s_allocated (slabs h a)" "s_page (slabs h' a) = s_page (slabs h a)"
    using assms by (auto simp: links_only_def same_data_def)
  show "bytes h' = bytes h" "caches h' = caches h" "vm h' = vm h" "mem_nodes h' = mem_nodes h" "obj_nodes h' = obj_nodes h"
    "hash_nodes h' = hash_nodes h" "hash_maps h' = hash_maps h" by (subst e, simp)+
qed

lemma zip_rotate1: "length xs = length ys \<Longrightarrow> zip (rotate1 xs) (rotate1 ys) = rotate1 (zip xs ys)"
  by (cases xs; cases ys) simp_all

lemma cyc_rotate1: "cyc S (rotate1 xs) = cyc S xs"
  by (simp add: cyc_def zip_rotate1)

lemma cyc_swap: "cyc S (as @ bs) = cyc S (bs @ as)"
proof -
  have "cyc S (rotate n xs) = cyc S xs" for n xs by (induction n) (simp_all add: cyc_rotate1)
  from this [of "length as" "as @ bs"] show ?thesis by (simp add: rotate_append)
qed

lemma cyc_snoc:
  assumes "length zs = length ys"
  shows "cyc S (x # ys @ [t]) \<longleftrightarrow> (\<forall>(u, v) \<in> set (zip (x # ys) (ys @ [t])). s_next (S u) = v \<and> s_prev (S v) = u) \<and>
    s_next (S t) = x \<and> s_prev (S x) = t"
proof -
  have "zip (x # ys @ [t]) (ys @ [t, x]) = zip (x # ys) (ys @ [t]) @ [(t, x)]"
    using zip_append [of "x # ys" "ys @ [t]" "[t]" "[x]"] by simp
  then show ?thesis by (auto simp: cyc_def)
qed

text \<open>The list as a path from its head to its tail, closed by the last two links.\<close>

fun path :: "(u64 \<Rightarrow> slab) \<Rightarrow> u64 \<Rightarrow> u64 list \<Rightarrow> bool" where
  "path S x [] = True"
| "path S x (y # ys) = (s_next (S x) = y \<and> s_prev (S y) = x \<and> path S y ys)"

lemma cyc_path: "cyc S (x # ys) \<longleftrightarrow> path S x ys \<and> s_next (S (last (x # ys))) = x \<and> s_prev (S x) = last (x # ys)"
proof -
  have "(\<forall>(u, v) \<in> set (zip (x # ys) (ys @ [z])). s_next (S u) = v \<and> s_prev (S v) = u) \<longleftrightarrow>
      path S x ys \<and> s_next (S (last (x # ys))) = z \<and> s_prev (S z) = last (x # ys)" for z
    by (induction ys arbitrary: x) auto
  from this [of x] show ?thesis by (simp add: cyc_def)
qed

lemma path_append: "path S x (ys @ z # zs) \<longleftrightarrow> path S x ys \<and> s_next (S (last (x # ys))) = z \<and> s_prev (S z) = last (x # ys) \<and> path S z zs"
  by (induction ys arbitrary: x) auto

lemma path_cong:
  "path S x ys \<Longrightarrow> (\<And>u. u \<in> set (butlast (x # ys)) \<Longrightarrow> s_next (S' u) = s_next (S u)) \<Longrightarrow>
    (\<And>v. v \<in> set ys \<Longrightarrow> s_prev (S' v) = s_prev (S v)) \<Longrightarrow> path S' x ys"
  by (induction ys arbitrary: x) (auto split: if_splits)

lemma not_butlast: "distinct xs \<Longrightarrow> u \<in> set (butlast xs) \<Longrightarrow> u \<noteq> last xs"
  by (induction xs) (auto split: if_splits)

lemma insert_last_ring:
  assumes r: "ring (slabs h) l xs" and s: "slab \<notin> set xs" "slab \<noteq> 0"
  shows "\<exists>h'. insert_last l slab h = (h', hd (xs @ [slab])) \<and> ring (slabs h') (hd (xs @ [slab])) (xs @ [slab]) \<and>
    links_only (insert slab (set xs)) h h'"
proof (cases xs)
  case Nil
  then have "l = 0" using r by (simp add: ring_def)
  then have "insert_last l slab h = (h\<lparr>slabs := (slabs h)(slab := (slabs h slab)\<lparr>s_next := slab, s_prev := slab\<rparr>)\<rparr>, slab)"
    by (simp add: insert_last_def upd_slab_def)
  moreover have "links_only (insert slab (set xs)) h (h\<lparr>slabs := (slabs h)(slab := (slabs h slab)\<lparr>s_next := slab, s_prev := slab\<rparr>)\<rparr>)"
    by (intro links_onlyI) (auto simp: same_data_def)
  ultimately show ?thesis using Nil s by (auto simp: ring_def cyc_def)
next
  case (Cons x ys)
  have d: "distinct (x # ys)" "0 \<notin> set (x # ys)" "l = x" "cyc (slabs h) (x # ys)" using r Cons by (simp_all add: ring_def)
  let ?t = "last (x # ys)"
  have c: "path (slabs h) x ys" "s_next (slabs h ?t) = x" "s_prev (slabs h x) = ?t" using d(4) unfolding cyc_path by blast+
  have ts: "?t \<noteq> slab" "x \<noteq> slab" "?t \<in> set (x # ys)" using s Cons by auto
  let ?S1 = "(slabs h)(?t := (slabs h ?t)\<lparr>s_next := slab\<rparr>)"
  let ?S2 = "?S1(slab := (?S1 slab)\<lparr>s_next := x, s_prev := ?t\<rparr>)"
  let ?S = "?S2(x := (?S2 x)\<lparr>s_prev := slab\<rparr>)"
  have h': "insert_last l slab h = (h\<lparr>slabs := ?S\<rparr>, x)"
    using d(2,3) c(3) by (simp add: insert_last_def upd_slab_def Let_def)
  have links: "s_next (?S ?t) = slab" "s_prev (?S slab) = ?t" "s_next (?S slab) = x" "s_prev (?S x) = slab"
    using ts by (auto simp del: last.simps)
  have "path ?S x ys"
  proof (rule path_cong [OF c(1)])
    fix u assume "u \<in> set (butlast (x # ys))"
    then have u: "u \<noteq> ?t" "u \<in> set (x # ys)" using not_butlast [OF d(1), of u] in_set_butlastD [of u "x # ys"] by simp_all
    then have "u \<noteq> slab" using s(1) Cons by blast
    then show "s_next (?S u) = s_next (slabs h u)" using u(1) by (auto simp del: last.simps)
  next
    fix v assume "v \<in> set ys"
    then have "v \<noteq> x" "v \<noteq> slab" using d(1) s Cons by auto
    then show "s_prev (?S v) = s_prev (slabs h v)" by (simp del: last.simps)
  qed
  moreover have "cyc S (x # ys @ [slab])" if "path S x ys" "s_next (S ?t) = slab" "s_prev (S slab) = ?t" "s_next (S slab) = x"
    "s_prev (S x) = slab" for S
    unfolding cyc_path path_append using that by simp
  ultimately have "cyc ?S (x # ys @ [slab])" using links by blast
  moreover have "ring S x (xs @ [slab])" if "cyc S (x # ys @ [slab])" for S using that d s Cons by (auto simp: ring_def)
  ultimately have "ring ?S x (xs @ [slab])" by blast
  moreover have "links_only (insert slab (set xs)) h (h\<lparr>slabs := ?S\<rparr>)"
    using Cons ts by (intro links_onlyI) (auto simp: same_data_def simp del: last.simps)
  ultimately show ?thesis using h' Cons by auto
qed

lemma remove_slab_ring:
  assumes r: "ring (slabs h) l xs" and xs: "xs = as @ e # bs"
  shows "\<exists>h'. remove_slab l' e h = (h', if as @ bs = [] then 0 else if l' = e then hd (bs @ as) else l') \<and>
    cyc (slabs h') (as @ bs) \<and> links_only (set xs) h h'"
proof -
  have d: "distinct xs" "0 \<notin> set xs" and "cyc (slabs h) (as @ (e # bs))" using r xs by (simp_all add: ring_def)
  then have "cyc (slabs h) (e # bs @ as)" using cyc_swap [of "slabs h" as "e # bs"] by simp
  then have c: "path (slabs h) e (bs @ as)" "s_next (slabs h (last (e # bs @ as))) = e" "s_prev (slabs h e) = last (e # bs @ as)"
    unfolding cyc_path by blast+
  let ?z = "\<lambda>h. upd_slab e (\<lambda>s. s\<lparr>s_next := 0, s_prev := 0\<rparr>) h"
  show ?thesis
  proof (cases "bs @ as")
    case Nil
    then have "s_next (slabs h e) = e" using c(2) by simp
    then have "remove_slab l' e h = (?z h, 0)" by (simp add: remove_slab_def)
    moreover have "links_only (set xs) h (?z h)" unfolding upd_slab_def using xs by (intro links_onlyI) (auto simp: same_data_def)
    ultimately show ?thesis using Nil by (simp add: cyc_def)
  next
    case (Cons y ys)
    let ?t = "last (y # ys)"
    have p: "s_next (slabs h e) = y" "s_prev (slabs h y) = e" "path (slabs h) y ys" "s_next (slabs h ?t) = e" "s_prev (slabs h e) = ?t"
      using c unfolding Cons by simp_all
    have sx: "set xs = set (e # y # ys)" using xs Cons [THEN arg_cong, of set] by auto
    have dy: "distinct (e # y # ys)" using d(1) xs Cons [THEN arg_cong, of distinct] Cons [THEN arg_cong, of set] by auto
    then have ne: "e \<noteq> y" "e \<noteq> ?t" "?t \<in> set (y # ys)" by auto
    let ?S1 = "(slabs h)(y := (slabs h y)\<lparr>s_prev := ?t\<rparr>)"
    let ?S2 = "?S1(?t := (?S1 ?t)\<lparr>s_next := y\<rparr>)"
    let ?S = "?S2(e := (?S2 e)\<lparr>s_next := 0, s_prev := 0\<rparr>)"
    have h': "remove_slab l' e h = (h\<lparr>slabs := ?S\<rparr>, if l' = e then y else l')"
      using ne(1) p(1,5) by (auto simp: remove_slab_def upd_slab_def Let_def simp del: last.simps)
    have links: "s_next (?S ?t) = y" "s_prev (?S y) = ?t" using ne by (auto simp del: last.simps)
    have "path ?S y ys"
    proof (rule path_cong [OF p(3)])
      fix u assume "u \<in> set (butlast (y # ys))"
      then have "u \<noteq> ?t" "u \<noteq> e" using not_butlast [of "y # ys" u] dy in_set_butlastD [of u "y # ys"] by auto
      then show "s_next (?S u) = s_next (slabs h u)" by (simp del: last.simps)
    next
      fix v assume "v \<in> set ys"
      then have "v \<noteq> y" "v \<noteq> e" using dy by auto
      then show "s_prev (?S v) = s_prev (slabs h v)" by (simp del: last.simps)
    qed
    then have "cyc ?S (y # ys)" unfolding cyc_path using links by blast
    then have "cyc ?S (as @ bs)" using cyc_swap [of ?S as bs] Cons by simp
    moreover have "links_only (set xs) h (h\<lparr>slabs := ?S\<rparr>)"
      unfolding sx using ne by (intro links_onlyI) (auto simp: same_data_def simp del: last.simps)
    moreover have "as @ bs \<noteq> []" "hd (bs @ as) = y" using Cons by auto
    ultimately show ?thesis using h' by auto
  qed
qed

lemma cyc_cong: "(\<And>a. a \<in> set xs \<Longrightarrow> S' a = S a) \<Longrightarrow> cyc S' xs = cyc S xs"
proof -
  assume a: "\<And>a. a \<in> set xs \<Longrightarrow> S' a = S a"
  have "S' u = S u" "S' v = S v" if "(u, v) \<in> set (zip xs (rotate1 xs))" for u v
    using a set_zip_leftD [OF that] set_zip_rightD [OF that] by simp_all
  then show ?thesis unfolding cyc_def by (metis (mono_tags, lifting) case_prodI2 case_prodD)
qed

definition same_links :: "slab \<Rightarrow> slab \<Rightarrow> bool" where
  "same_links s s' \<longleftrightarrow> s_next s' = s_next s \<and> s_prev s' = s_prev s"

lemma cyc_links: "(\<And>a. same_links (S a) (S' a)) \<Longrightarrow> cyc S' xs = cyc S xs"
  by (simp add: cyc_def same_links_def)

lemma ring_links: "(\<And>a. same_links (S a) (S' a)) \<Longrightarrow> ring S' l xs = ring S l xs"
  using cyc_links [of S S' xs] by (simp add: ring_def)

lemma ring_cong: "(\<And>a. a \<in> set xs \<Longrightarrow> S' a = S a) \<Longrightarrow> ring S' l xs = ring S l xs"
  using cyc_cong [of xs S' S] by (simp add: ring_def)

lemma ring_swap_remove:
  assumes "ring S l (as @ e # bs)"
  shows "(if as @ bs = [] then 0 else if l = e then hd (bs @ as) else l) = (if as @ bs = [] then 0 else hd (as @ bs))"
  using assms by (cases as) (auto simp: ring_def)

text \<open>A slab moves from the ring with the slabs \<open>as @ e # bs\<close> to the end of another ring; \<open>zs\<close> is any other ring.\<close>

lemma move_slab_rings:
  assumes r: "ring (slabs h) l (as @ e # bs)" and ys: "ring (slabs h) (tolist (caches h c)) ys"
    and keep: "tolist (set_from l1 (caches h c)) = tolist (caches h c)"
    and dis: "set ys \<inter> set (as @ e # bs) = {}"
    and l1: "l1 = (if as @ bs = [] then 0 else if fromlist (caches h c) = e then hd (bs @ as) else fromlist (caches h c))"
  shows "\<exists>h'. move_slab c fromlist set_from tolist set_to e h = h' \<and>
    caches h' = (caches h)(c := set_to (hd (ys @ [e])) (set_from l1 (caches h c))) \<and>
    cyc (slabs h') (as @ bs) \<and> ring (slabs h') (hd (ys @ [e])) (ys @ [e]) \<and>
    (\<forall>a. a \<notin> set (as @ e # bs) \<union> set ys \<longrightarrow> slabs h' a = slabs h a) \<and> (\<forall>a. same_data (slabs h a) (slabs h' a)) \<and>
    h' = h\<lparr>slabs := slabs h', caches := caches h'\<rparr>"
proof -
  obtain h1 where h1: "remove_slab (fromlist (caches h c)) e h = (h1, l1)" "cyc (slabs h1) (as @ bs)"
    "links_only (set (as @ e # bs)) h h1"
    using remove_slab_ring [OF r refl, of "fromlist (caches h c)"] l1 by auto
  note f1 = links_only_fields [OF h1(3)]
  let ?h2 = "upd_cache c (set_from l1) h1"
  have sl2: "slabs ?h2 = slabs h1" and c2: "caches ?h2 = (caches h)(c := set_from l1 (caches h c))"
    by (simp_all add: upd_cache_def f1)
  have ys1: "ring (slabs h1) (tolist (caches h c)) ys"
  proof (subst ring_cong [where S = "slabs h"])
    fix a assume "a \<in> set ys"
    then have "a \<notin> set (as @ e # bs)" using dis by blast
    then show "slabs h1 a = slabs h a" by (rule f1(1))
  qed (rule ys)
  have e: "e \<notin> set ys" "e \<noteq> 0" using dis r by (auto simp: ring_def)
  obtain h3 where h3: "insert_last (tolist (caches ?h2 c)) e ?h2 = (h3, hd (ys @ [e]))" "ring (slabs h3) (hd (ys @ [e])) (ys @ [e])"
    "links_only (insert e (set ys)) ?h2 h3"
    using insert_last_ring [of ?h2 "tolist (caches ?h2 c)" ys e] ys1 e keep by (auto simp: sl2 c2)
  note f3 = links_only_fields [OF h3(3)]
  let ?h' = "upd_cache c (set_to (hd (ys @ [e]))) h3"
  have sl: "slabs ?h' = slabs h3" by (simp add: upd_cache_def)
  have run: "move_slab c fromlist set_from tolist set_to e h = ?h'"
    using h1(1) h3(1) by (simp add: move_slab_def Let_def)
  have "e \<notin> set (as @ bs)" using r by (auto simp: ring_def)
  then have "a \<notin> insert e (set ys)" if "a \<in> set (as @ bs)" for a using that dis by auto
  then have "cyc (slabs h3) (as @ bs)" using h1(2) f3(1) by (subst cyc_cong [where S = "slabs h1"]) (auto simp: sl2)
  moreover have "caches ?h' = (caches h)(c := set_to (hd (ys @ [e])) (set_from l1 (caches h c)))"
    unfolding upd_cache_def using f3(8) c2 by simp
  moreover have "\<forall>a. a \<notin> set (as @ e # bs) \<union> set ys \<longrightarrow> slabs ?h' a = slabs h a" using f1(1) f3(1) by (simp add: sl sl2)
  moreover have "\<forall>a. same_data (slabs h a) (slabs ?h' a)"
    using h1(3) h3(3) unfolding links_only_def sl sl2 same_data_def by simp
  moreover have "?h' = h\<lparr>slabs := slabs ?h', caches := caches ?h'\<rparr>"
    using f1 f3 by (intro heap_state.equality) (simp_all add: upd_cache_def)
  ultimately show ?thesis using run h3(2) sl by auto
qed

section \<open>Addresses\<close>

text \<open>Byte \<open>j\<close> of page \<open>k\<close> of a region.\<close>

definition at_byte :: "u64 \<Rightarrow> nat \<Rightarrow> nat \<Rightarrow> u64" where "at_byte s k j = s + of_nat (4096 * k + j)"

definition heap_region :: "u64 \<Rightarrow> u64 \<Rightarrow> nat \<Rightarrow> bool" where
  "heap_region s z n \<longleftrightarrow> 4096 dvd unat s \<and> 0 < unat s \<and> unat s + unat z < 2 ^ 64 \<and> 4096 * n \<le> unat z"

lemma at_byte_unat:
  assumes "heap_region s z n" and "k < n" and "j < 4096"
  shows "unat (at_byte s k j) = unat s + 4096 * k + j" and "unat s + 4096 * k + j < unat s + unat z"
proof -
  have "4096 * k + j < 4096 * n" using assms(2,3) by simp
  then show b: "unat s + 4096 * k + j < unat s + unat z" using assms(1) by (simp add: heap_region_def)
  have z: "unat s + unat z < 2 ^ 64" using assms(1) by (simp add: heap_region_def)
  have u: "unat (of_nat (4096 * k + j) :: u64) = 4096 * k + j" unfolding unat_of_nat using b z by simp
  show "unat (at_byte s k j) = unat s + 4096 * k + j"
    unfolding at_byte_def using b z u by (subst unat_plus_simple [THEN iffD1]) (simp_all add: word_le_nat_alt unat_word_ariths)
qed

lemma at_byte_eq:
  assumes "heap_region s z n" and "k < n" "j < 4096" "k' < n" "j' < 4096"
  shows "at_byte s k j = at_byte s k' j' \<longleftrightarrow> k = k' \<and> j = j'"
proof
  assume "at_byte s k j = at_byte s k' j'"
  then have "4096 * k + j = 4096 * k' + j'"
    using at_byte_unat(1) [OF assms(1-3)] at_byte_unat(1) [OF assms(1,4,5)] by simp
  then have "(4096 * k + j) div 4096 = (4096 * k' + j') div 4096" "(4096 * k + j) mod 4096 = (4096 * k' + j') mod 4096" by simp_all
  then show "k = k' \<and> j = j'" using assms(3,5) by simp
qed simp

lemma at_byte_add: "at_byte s k j + of_nat i = at_byte s k (j + i)"
  by (simp add: at_byte_def)

lemma at_byte_nonzero: "heap_region s z n \<Longrightarrow> k < n \<Longrightarrow> j < 4096 \<Longrightarrow> at_byte s k j \<noteq> 0"
  using at_byte_unat(1) [of s z n k j] by (auto simp: heap_region_def)

lemma page_of_at:
  assumes "heap_region s z n" and "k < n" and "j < 4096"
  shows "page_of (at_byte s k j) = at_byte s k 0"
proof -
  obtain q where q: "unat s = 4096 * q" using assms(1) by (auto simp: heap_region_def)
  have u: "unat (at_byte s k j) = 4096 * (q + k) + j" "unat (at_byte s k 0) = 4096 * (q + k)"
    using at_byte_unat(1) [OF assms] at_byte_unat(1) [OF assms(1,2), of 0] by (simp_all add: q)
  have b: "4096 * (q + k) < 2 ^ 64" using u(2) at_byte_unat [OF assms(1,2), of 0] assms(1) by (simp add: heap_region_def)
  have "unat (drop_bit 12 (at_byte s k j)) = q + k"
    unfolding unat_drop_bit_eq u(1) using assms(3) by (simp add: drop_bit_eq_div)
  then have "unat (page_of (at_byte s k j)) = 4096 * (q + k)"
    using b unfolding page_of_def unsigned_push_bit_eq by (simp add: take_bit_eq_mod push_bit_eq_mult)
  then show ?thesis using u(2) by (metis word_unat_eq_iff)
qed

lemma slab_address: "at_byte s k 0 + PAGE_SIZE - SLAB_SIZE = at_byte s k 4032"
  by (simp add: at_byte_def PAGE_SIZE_def SLAB_SIZE_def)

section \<open>Capacity\<close>

lemma capacity_fits:
  assumes "z \<noteq> 0" and "slab_capacity z \<noteq> 0"
  shows "unat (slab_capacity z) * unat z + unat (slab_capacity z) \<le> 4032" and "unat (slab_capacity z) \<le> 255"
    and "0 < unat (slab_capacity z)"
proof -
  let ?z = "unat z" let ?o = "min (4032 div ?z) 255"
  have p: "PAGE_SIZE - SLAB_SIZE = (4032 :: u64)" by (simp add: PAGE_SIZE_def SLAB_SIZE_def)
  have d: "unat (4032 div z) = 4032 div ?z" by (simp add: unat_div)
  have o: "unat (min_of (4032 div z) MAX_OBJECT_COUNT) = ?o" using d by (auto simp: min_of_def MAX_OBJECT_COUNT_def word_less_nat_alt)
  have oz: "?o * ?z \<le> 4032" by (meson div_times_less_eq_dividend le_trans min.cobounded1 mult_le_mono1)
  define w where "w = min_of (4032 div z) MAX_OBJECT_COUNT"
  have w: "unat w = ?o" using o by (simp add: w_def)
  have wz: "unat (w * z) = ?o * ?z" using oz w by (simp add: unat_word_ariths)
  have sub: "unat (4032 - w * z) = 4032 - ?o * ?z" using wz oz by (subst unat_sub) (simp_all add: word_le_nat_alt)
  have sub2: "unat (4032 - w) = 4032 - ?o" using w by (subst unat_sub) (simp_all add: word_le_nat_alt)
  have cap: "slab_capacity z = (if w > 4032 - w * z then (4032 - w) div z else w)" by (simp add: slab_capacity_def p w_def Let_def)
  have big: "w > 4032 - w * z \<longleftrightarrow> 4032 - ?o * ?z < ?o" using w sub by (simp add: word_less_nat_alt)
  let ?c = "unat (slab_capacity z)"
  have z0: "0 < ?z" using assms(1) by (simp add: unat_gt_0)
  have "?c * ?z + ?c \<le> 4032 \<and> ?c \<le> 255"
  proof (cases "4032 - ?o * ?z < ?o")
    case True
    then have c: "?c = (4032 - ?o) div ?z" using cap big sub2 by (simp add: unat_div)
    then have cz: "?c * ?z \<le> 4032 - ?o" by simp
    also have "\<dots> < ?o * ?z" using True oz by linarith
    finally have co: "?c < ?o" by simp
    have "?o \<le> 255" by simp
    then have "4032 - ?o + ?o = 4032" by linarith
    then show ?thesis using cz co \<open>?o \<le> 255\<close> by linarith
  next
    case False
    then have "slab_capacity z = w" using cap big by argo
    then have "?c = ?o" using w by argo
    moreover have "?o * ?z + ?o \<le> 4032" "?o \<le> 255" using False oz by linarith+
    ultimately show ?thesis by metis
  qed
  then show "?c * ?z + ?c \<le> 4032" "?c \<le> 255" by blast+
  show "0 < ?c" using assms(2) by (simp add: unat_gt_0)
qed

section \<open>Free lists\<close>

text \<open>The free objects of a slab, linked through one byte each; 255 is the end.\<close>

fun byte_chain :: "(nat \<Rightarrow> u8) \<Rightarrow> u8 \<Rightarrow> nat list \<Rightarrow> bool" where
  "byte_chain m st [] \<longleftrightarrow> st = 255"
| "byte_chain m st (i # is) \<longleftrightarrow> st = of_nat i \<and> byte_chain m (m i) is"

lemma byte_chain_cong: "(\<And>i. i \<in> set is \<Longrightarrow> m' i = m i) \<Longrightarrow> byte_chain m' st is = byte_chain m st is"
  by (induction "is" arbitrary: st) auto

lemma byte_chain_upto: "(\<And>j. i \<le> j \<Longrightarrow> j < n \<Longrightarrow> m j = (if Suc j = n then 255 else of_nat (Suc j))) \<Longrightarrow> i \<le> n \<Longrightarrow>
    byte_chain m (if i = n then 255 else of_nat i) [i..<n]"
proof (induction "n - i" arbitrary: i)
  case (Suc k)
  have i: "i < n" using Suc.hyps(2) by simp
  have "byte_chain m (if Suc i = n then 255 else of_nat (Suc i)) [Suc i..<n]"
    using Suc.hyps(1) [of "Suc i"] Suc.hyps(2) Suc.prems i by simp
  moreover have "m i = (if Suc i = n then 255 else of_nat (Suc i))" using Suc.prems i by simp
  ultimately show ?case using i by (simp add: upt_conv_Cons)
qed simp

section \<open>Slabs of one page\<close>

abbreviation cap :: "u64 \<Rightarrow> nat" where "cap z \<equiv> unat (slab_capacity z)"

text \<open>The slab on page \<open>k\<close> of a region, with objects of \<open>z\<close> bytes of which \<open>fl\<close> are free.\<close>

definition slab_ok :: "'v heap_state \<Rightarrow> u64 \<Rightarrow> u64 \<Rightarrow> nat \<Rightarrow> nat list \<Rightarrow> bool" where
  "slab_ok h z s k fl \<longleftrightarrow>
     (let d = slabs h (at_byte s k 4032)
      in s_page d = at_byte s k 0 \<and> s_object_size d = z \<and> s_object_count d = slab_capacity z \<and> distinct fl \<and>
         (\<forall>i \<in> set fl. i < cap z) \<and> unat (s_allocated d) + length fl = cap z \<and>
         byte_chain (\<lambda>i. bytes h (at_byte s k (4032 - cap z + i))) (s_free_object d) fl)"

text \<open>A region and an object size that fit the pages.\<close>

definition slab_fits :: "u64 \<Rightarrow> u64 \<Rightarrow> nat \<Rightarrow> u64 \<Rightarrow> bool" where
  "slab_fits s m n z \<longleftrightarrow> heap_region s m n \<and> z \<noteq> 0 \<and> slab_capacity z \<noteq> 0"

lemma object_address:
  assumes "slab_fits s m n z"
  shows "at_byte s k 0 + of_nat i * z = at_byte s k (i * unat z)"
    and "i \<le> cap z \<Longrightarrow> at_byte s k 4032 - slab_capacity z + of_nat i = at_byte s k (4032 - cap z + i)"
    and "i < cap z \<Longrightarrow> i * unat z + unat z \<le> 4032 - cap z"
    and "i < cap z \<Longrightarrow> unat (ucast (of_nat i :: u8) :: u64) = i" and "i < cap z \<Longrightarrow> (ucast (of_nat i :: u8) :: u64) = of_nat i"
    and "i < cap z \<Longrightarrow> (of_nat i :: u8) \<noteq> 255"
proof -
  have c: "cap z * unat z + cap z \<le> 4032" "cap z \<le> 255" using assms by (simp_all add: slab_fits_def capacity_fits)
  have "of_nat i * z = (of_nat (i * unat z) :: u64)" by simp
  then show "at_byte s k 0 + of_nat i * z = at_byte s k (i * unat z)" by (simp add: at_byte_def)
  have "at_byte s k 4032 = at_byte s k (4032 - cap z) + of_nat (cap z)" using c by (simp add: at_byte_add del: of_nat_unat)
  then show "at_byte s k 4032 - slab_capacity z + of_nat i = at_byte s k (4032 - cap z + i)" by (simp add: at_byte_add)
  assume i: "i < cap z"
  have "(i + 1) * unat z \<le> cap z * unat z" using i by (intro mult_le_mono1) simp
  then show "i * unat z + unat z \<le> 4032 - cap z" using c by simp
  have u8: "unat (of_nat i :: u8) = i" unfolding unat_of_nat using i c by simp
  then show u: "unat (ucast (of_nat i :: u8) :: u64) = i" using i c by (simp add: unsigned_ucast_eq take_bit_eq_mod)
  have "unat (of_nat i :: u64) = i" unfolding unat_of_nat using i c by simp
  then show "(ucast (of_nat i :: u8) :: u64) = of_nat i" using u by (simp add: word_unat_eq_iff)
  show "(of_nat i :: u8) \<noteq> 255"
  proof
    assume "(of_nat i :: u8) = 255"
    then have "i = unat (255 :: u8)" using u8 by simp
    then show False using i c by simp
  qed
qed

lemma byte_chain_start: "slab_ok h z s k fl \<Longrightarrow> s_free_object (slabs h (at_byte s k 4032)) = (if fl = [] then 255 else of_nat (hd fl))"
  by (cases fl) (auto simp: slab_ok_def Let_def)

lemma alloc_on_slab_pops:
  assumes f: "slab_fits s m n z" and ok: "slab_ok h z s k (i # is)"
  shows "\<exists>d. alloc_on_slab (at_byte s k 4032) h = (h\<lparr>slabs := (slabs h)(at_byte s k 4032 := d)\<rparr>, at_byte s k (i * unat z)) \<and>
    slab_ok (h\<lparr>slabs := (slabs h)(at_byte s k 4032 := d)\<rparr>) z s k is \<and> same_links (slabs h (at_byte s k 4032)) d"
proof -
  let ?d = "slabs h (at_byte s k 4032)"
  have d: "s_page ?d = at_byte s k 0" "s_object_size ?d = z" "s_object_count ?d = slab_capacity z" "distinct (i # is)"
    "\<forall>j \<in> set (i # is). j < cap z" "unat (s_allocated ?d) + length (i # is) = cap z" "s_free_object ?d = of_nat i"
    "byte_chain (\<lambda>i. bytes h (at_byte s k (4032 - cap z + i))) (bytes h (at_byte s k (4032 - cap z + i))) is"
    using ok unfolding slab_ok_def Let_def by simp_all
  have i: "i < cap z" using d(5) by simp
  note oa = object_address(1,2) [OF f, where k = k and i = i] and ob = object_address(3-5) [OF f, where i = i]
  have na: "s_allocated ?d \<noteq> slab_capacity z" using d(6) by auto
  have c255: "cap z \<le> 255" using f by (simp add: slab_fits_def capacity_fits)
  have inc: "unat (s_allocated ?d + 1) = unat (s_allocated ?d) + 1"
    using d(6) c255 by (simp add: unat_word_ariths)
  let ?d' = "?d\<lparr>s_free_object := bytes h (at_byte s k (4032 - cap z + i)), s_allocated := s_allocated ?d + 1\<rparr>"
  have "alloc_on_slab (at_byte s k 4032) h = (h\<lparr>slabs := (slabs h)(at_byte s k 4032 := ?d')\<rparr>, at_byte s k (i * unat z))"
    using na d(1-3,7) oa(1) oa(2) [OF less_imp_le [OF i]] ob(3) [OF i] by (simp add: alloc_on_slab_def upd_slab_def Let_def)
  moreover have "slab_ok (h\<lparr>slabs := (slabs h)(at_byte s k 4032 := ?d')\<rparr>) z s k is"
    unfolding slab_ok_def Let_def using d inc by simp
  ultimately show ?thesis by (intro exI [of _ ?d']) (simp add: same_links_def)
qed

lemma free_on_slab_pushes:
  assumes f: "slab_fits s m n z" and k: "k < n" and ok: "slab_ok h z s k fl" and i: "i < cap z" "i \<notin> set fl"
  shows "\<exists>d v. free_on_slab (at_byte s k 4032) (at_byte s k (i * unat z)) h =
      (h\<lparr>slabs := (slabs h)(at_byte s k 4032 := d), bytes := (bytes h)(at_byte s k (4032 - cap z + i) := v)\<rparr>, True) \<and>
    slab_ok (h\<lparr>slabs := (slabs h)(at_byte s k 4032 := d), bytes := (bytes h)(at_byte s k (4032 - cap z + i) := v)\<rparr>) z s k (i # fl) \<and>
    same_links (slabs h (at_byte s k 4032)) d"
proof -
  let ?d = "slabs h (at_byte s k 4032)"
  have d: "s_page ?d = at_byte s k 0" "s_object_size ?d = z" "s_object_count ?d = slab_capacity z" "distinct fl"
    "\<forall>j \<in> set fl. j < cap z" "unat (s_allocated ?d) + length fl = cap z"
    "byte_chain (\<lambda>i. bytes h (at_byte s k (4032 - cap z + i))) (s_free_object ?d) fl"
    using ok unfolding slab_ok_def Let_def by simp_all
  have fit: "heap_region s m n" "z \<noteq> 0" "cap z \<le> 255" "cap z * unat z + cap z \<le> 4032"
    using f by (simp_all add: slab_fits_def capacity_fits)
  note oa = object_address(1,2) [OF f, where k = k and i = i] and ob = object_address(3-5) [OF f, where i = i]
  have "card (set fl) \<le> card ({..<cap z} - {i})" using d(5) i(2) by (intro card_mono) auto
  then have len: "length fl < cap z" using i(1) distinct_card [OF d(4)] by simp
  then have nz: "s_allocated ?d \<noteq> 0" using d(6) by auto
  define x where "x = (of_nat (i * unat z) :: u64)"
  have "unat x = i * unat z" unfolding x_def unat_of_nat using ob(1) [OF i(1)] by simp
  moreover have "0 < unat z" using fit(2) by (simp add: unat_gt_0)
  ultimately have "unat (x div z) = i" by (simp add: unat_div)
  moreover have "unat (of_nat i :: u64) = i" unfolding unat_of_nat using i(1) fit(3) by simp
  ultimately have "x div z = of_nat i" by (simp add: word_unat_eq_iff)
  moreover have "at_byte s k (i * unat z) - at_byte s k 0 = x" by (simp add: at_byte_def x_def)
  ultimately have idx: "(at_byte s k (i * unat z) - at_byte s k 0) div z = of_nat i" by simp
  have dec: "unat (s_allocated ?d - 1) = unat (s_allocated ?d) - 1" using nz by (simp add: unat_sub unat_gt_0 Suc_le_eq word_le_nat_alt)
  let ?d' = "?d\<lparr>s_free_object := of_nat i, s_allocated := s_allocated ?d - 1\<rparr>"
  let ?h = "h\<lparr>slabs := (slabs h)(at_byte s k 4032 := ?d'), bytes := (bytes h)(at_byte s k (4032 - cap z + i) := s_free_object ?d)\<rparr>"
  have "(ucast (of_nat i :: u64) :: u8) = of_nat i"
    using i(1) fit(3) unfolding word_unat_eq_iff unsigned_ucast_eq take_bit_eq_mod unat_of_nat by simp
  then have run: "free_on_slab (at_byte s k 4032) (at_byte s k (i * unat z)) h = (?h, True)"
    using nz d(1-3) idx oa(2) [OF less_imp_le [OF i(1)]] by (simp add: free_on_slab_def upd_slab_def Let_def)
  have "bytes ?h (at_byte s k (4032 - cap z + j)) = bytes h (at_byte s k (4032 - cap z + j))" if "j \<in> set fl" for j
  proof -
    have "j < cap z" "j \<noteq> i" using that d(5) i(2) by auto
    then have "4032 - cap z + j < 4096" "4032 - cap z + i < 4096" "4032 - cap z + j \<noteq> 4032 - cap z + i" using i(1) fit(3) by linarith+
    then have "at_byte s k (4032 - cap z + j) \<noteq> at_byte s k (4032 - cap z + i)" using at_byte_eq [OF fit(1) k _ k] by blast
    then show ?thesis by simp
  qed
  then have "byte_chain (\<lambda>i. bytes ?h (at_byte s k (4032 - cap z + i))) (s_free_object ?d) fl"
    using d(7) by (subst byte_chain_cong) auto
  then have "slab_ok ?h z s k (i # fl)" unfolding slab_ok_def Let_def using d dec i len by simp
  then show ?thesis using run by (intro exI [of _ ?d'] exI [of _ "s_free_object ?d"]) (simp add: same_links_def)
qed

text \<open>Loops that write bytes.\<close>

lemma fold_write_other: "(\<And>i. i < n \<Longrightarrow> f i \<noteq> a) \<Longrightarrow> foldl (\<lambda>m i. m(f i := g i)) m [0..<n] a = m a"
  by (induction n) (auto simp: less_Suc_eq)

lemma fold_write_at:
  assumes "inj_on f {..<n}" and "j < n"
  shows "foldl (\<lambda>m i. m(f i := g i)) m [0..<n] (f j) = g j"
  using assms
proof (induction n)
  case (Suc n)
  have inj: "inj_on f {..<n}" using Suc.prems(1) by (rule inj_on_subset) auto
  show ?case
  proof (cases "j = n")
    case False
    then have "f j \<noteq> f n" using Suc.prems by (auto simp: inj_on_def)
    then show ?thesis using Suc.IH [OF inj] Suc.prems(2) False by simp
  qed simp
qed simp

text \<open>What a clear operation and the operations of a cache leave alone.\<close>

definition same_at :: "u64 \<Rightarrow> 'v heap_state \<Rightarrow> 'v heap_state \<Rightarrow> bool" where
  "same_at a h h' \<longleftrightarrow> slabs h' a = slabs h a \<and> bytes h' a = bytes h a \<and> obj_nodes h' a = obj_nodes h a \<and>
     mem_nodes h' a = mem_nodes h a \<and> hash_nodes h' a = hash_nodes h a \<and> hash_maps h' a = hash_maps h a"

definition changes_only :: "u64 set \<Rightarrow> cache_ref set \<Rightarrow> 'v heap_state \<Rightarrow> 'v heap_state \<Rightarrow> bool" where
  "changes_only R C h h' \<longleftrightarrow> (\<forall>a. a \<notin> R \<longrightarrow> same_at a h h') \<and>
     (\<forall>c. c \<notin> C \<and> c \<notin> Cache_At ` R \<longrightarrow> caches h' c = caches h c)"

lemma changes_only_refl [simp]: "changes_only R C h h"
  by (simp add: changes_only_def same_at_def)

lemma changes_only_trans: "changes_only R C h h1 \<Longrightarrow> changes_only R C h1 h2 \<Longrightarrow> changes_only R C h h2"
  by (simp add: changes_only_def same_at_def)

lemma changes_only_mono: "changes_only R C h h' \<Longrightarrow> R \<subseteq> R' \<Longrightarrow> C \<subseteq> C' \<Longrightarrow> changes_only R' C' h h'"
  unfolding changes_only_def by blast

lemma memset_other: "(\<And>i. i < unat n \<Longrightarrow> p + of_nat i \<noteq> a) \<Longrightarrow> memset m p v n a = m a"
  unfolding memset_def by (rule fold_write_other)

lemma clear_memory_changes:
  assumes "\<not> a - p < n"
  shows "same_at a h (clear_memory p n h)" and "caches (clear_memory p n h) (Cache_At a) = caches h (Cache_At a)"
proof -
  have "p + of_nat i \<noteq> a" if "i < unat n" for i
  proof
    assume "p + of_nat i = a"
    then have "a - p = of_nat i" by auto
    moreover have "i < 2 ^ 64" using that unsigned_less [of n] by (simp add: order.strict_trans)
    then have "unat (of_nat i :: u64) = i" unfolding unat_of_nat by simp
    ultimately show False using assms that by (simp add: word_less_nat_alt)
  qed
  then have "memset (bytes h) p 0 n a = bytes h a" by (rule memset_other)
  then show "same_at a h (clear_memory p n h)" using assms by (simp add: same_at_def clear_memory_def Let_def)
  show "caches (clear_memory p n h) (Cache_At a) = caches h (Cache_At a)" using assms by (simp add: clear_memory_def Let_def)
qed

lemma clear_memory_caches: "c \<notin> range Cache_At \<Longrightarrow> caches (clear_memory p n h) c = caches h c"
  by (cases c) (simp_all add: clear_memory_def Let_def)

lemma clear_memory_vm: "vm (clear_memory p n h) = vm h"
  by (simp add: clear_memory_def Let_def)

text \<open>The bytes of page \<open>k\<close>, in its words.\<close>

definition page_bytes :: "u64 \<Rightarrow> nat \<Rightarrow> u64 set" where "page_bytes s k = at_byte s k ` {..<4096}"

lemma cleared_part:
  assumes "heap_region s m n" and "k < n" and "q \<le> 4096" and "a - at_byte s k 0 < of_nat q"
  shows "\<exists>j < q. a = at_byte s k j"
proof -
  let ?j = "unat (a - at_byte s k 0)"
  have "unat (of_nat q :: u64) = q" unfolding unat_of_nat using assms(3) by simp
  then have "?j < q" using assms(4) by (simp add: word_less_nat_alt)
  moreover have "a = at_byte s k ?j" using at_byte_add [of s k 0 ?j] by (simp del: at_byte_add)
  ultimately show ?thesis by blast
qed

lemma create_on_slab_page:
  assumes f: "slab_fits s m n z" and k: "k < n"
  shows "\<exists>h'. create_on_slab z (at_byte s k 0) h = Some (h', at_byte s k 4032) \<and> slab_ok h' z s k [0..<cap z] \<and>
    changes_only (page_bytes s k) {} h h' \<and> vm h' = vm h"
proof -
  have fit: "heap_region s m n" "z \<noteq> 0" "slab_capacity z \<noteq> 0" "cap z \<le> 255" "cap z * unat z + cap z \<le> 4032" "0 < cap z"
    using f by (simp_all add: slab_fits_def capacity_fits)
  let ?slab = "at_byte s k 4032" and ?q = "4032 - cap z"
  note o = object_address(2) [OF f, where k = k]
  have fl: "?slab - slab_capacity z + of_nat i = at_byte s k (?q + i)" if "i \<le> cap z" for i using o that by blast
  have base: "?slab - slab_capacity z = at_byte s k ?q" using fl [of 0] by simp
  define d where "d = (slabs h ?slab)\<lparr>s_next := 0, s_prev := 0, s_object_size := z, s_object_count := slab_capacity z,
    s_allocated := 0, s_page := at_byte s k 0, s_size := PAGE_SIZE, s_free_object := 0\<rparr>"
  define m1 where "m1 = init_free_list (bytes h) (at_byte s k ?q) (slab_capacity z)"
  define h1 where "h1 = h\<lparr>slabs := (slabs h)(?slab := d), bytes := m1\<rparr>"
  have q: "PAGE_SIZE - SLAB_SIZE - slab_capacity z = of_nat ?q"
  proof -
    have "of_nat ?q = (of_nat 4032 - of_nat (cap z) :: u64)" using fit(5) by (subst of_nat_diff) simp_all
    then show ?thesis by (simp add: PAGE_SIZE_def SLAB_SIZE_def)
  qed
  have le: "?q \<le> 4096" by simp
  let ?h' = "clear_memory (at_byte s k 0) (of_nat ?q) h1"
  have run: "create_on_slab z (at_byte s k 0) h = Some (?h', ?slab)"
    using fit(2,3) by (simp add: create_on_slab_def upd_slab_def Let_def slab_address base q h1_def m1_def d_def)
  have same: "same_at (at_byte s k j) h1 ?h'" if "?q \<le> j" "j < 4096" for j
  proof (rule clear_memory_changes(1))
    show "\<not> at_byte s k j - at_byte s k 0 < of_nat ?q"
    proof
      assume "at_byte s k j - at_byte s k 0 < of_nat ?q"
      then obtain j' where "j' < ?q" "at_byte s k j = at_byte s k j'" using cleared_part [OF fit(1) k le] by blast
      then show False using at_byte_eq [OF fit(1) k that(2) k, of j'] that(1) by simp
    qed
  qed
  have last: "at_byte s k ?q + (slab_capacity z - 1) = at_byte s k (?q + (cap z - 1))"
  proof -
    have "slab_capacity z - 1 = of_nat (cap z - 1)" using fit(6) by (simp add: of_nat_diff)
    then show ?thesis by (simp add: at_byte_add)
  qed
  have inj: "inj_on (\<lambda>i. at_byte s k (?q + i)) {..<cap z}"
    using at_byte_eq [OF fit(1) k _ k] fit(5) by (auto simp: inj_on_def)
  have m1: "m1 (at_byte s k (?q + i)) = (if Suc i = cap z then 255 else of_nat (Suc i))" if "i < cap z" for i
  proof (cases "Suc i = cap z")
    case True
    then have "i = cap z - 1" by simp
    then show ?thesis using True unfolding m1_def init_free_list_def last by (simp add: MAX_OBJECT_COUNT_def)
  next
    case False
    have ne: "at_byte s k (?q + i) \<noteq> at_byte s k (?q + (cap z - 1))"
      using at_byte_eq [OF fit(1) k _ k, of "?q + i" "?q + (cap z - 1)"] that False fit(5,6) by simp
    have "inj_on (\<lambda>i. at_byte s k (?q + i)) {..<cap z - 1}" using inj by (rule inj_on_subset) auto
    then have "foldl (\<lambda>m i. m(at_byte s k (?q + i) := of_nat (i + 1))) (bytes h) [0..<cap z - 1] (at_byte s k (?q + i)) = of_nat (i + 1)"
      using that False by (intro fold_write_at [where f = "\<lambda>i. at_byte s k (?q + i)"]) auto
    then show ?thesis using False ne unfolding m1_def init_free_list_def last by (simp add: at_byte_add)
  qed
  have "slabs ?h' ?slab = d" using same [of 4032] by (simp add: same_at_def h1_def)
  moreover have "byte_chain (\<lambda>i. bytes ?h' (at_byte s k (?q + i))) 0 [0..<cap z]"
  proof -
    have "bytes ?h' (at_byte s k (?q + i)) = m1 (at_byte s k (?q + i))" if "i < cap z" for i
      using same [of "?q + i"] that fit(5) by (simp add: same_at_def h1_def)
    then show ?thesis
      using byte_chain_upto [of 0 "cap z" "\<lambda>i. bytes ?h' (at_byte s k (?q + i))"] m1 fit(6) by simp
  qed
  ultimately have "slab_ok ?h' z s k [0..<cap z]" unfolding slab_ok_def Let_def by (simp add: d_def)
  moreover have "changes_only (page_bytes s k) {} h ?h'"
  proof -
    have out: "\<not> a - at_byte s k 0 < of_nat ?q" if "a \<notin> page_bytes s k" for a
      using cleared_part [OF fit(1) k le, of a] that by (force simp: page_bytes_def)
    have "same_at a h ?h'" if a: "a \<notin> page_bytes s k" for a
    proof -
      have ne: "at_byte s k j \<noteq> a" if "j < 4096" for j using a that by (auto simp: page_bytes_def)
      have "foldl (\<lambda>m i. m(at_byte s k ?q + of_nat i := of_nat (i + 1))) (bytes h) [0..<cap z - 1] a = bytes h a"
      proof (rule fold_write_other)
        fix i assume "i < cap z - 1"
        then have "?q + i < 4096" using fit(5) by linarith
        then show "at_byte s k ?q + of_nat i \<noteq> a" unfolding at_byte_add by (rule ne)
      qed
      moreover have "?q + (cap z - 1) < 4096" using fit(5,6) by linarith
      then have "a \<noteq> at_byte s k (?q + (cap z - 1))" using ne by blast
      ultimately have "m1 a = bytes h a" unfolding m1_def init_free_list_def last by (simp only: fun_upd_other not_False_eq_True)
      then have "same_at a h h1" using ne [of 4032] by (simp add: same_at_def h1_def)
      then show ?thesis using clear_memory_changes(1) [OF out [OF a], of h1] by (simp add: same_at_def)
    qed
    moreover have "caches ?h' c = caches h c" if "c \<notin> Cache_At ` page_bytes s k" for c
    proof (cases c)
      case (Cache_At a)
      then have "a \<notin> page_bytes s k" using that by blast
      then have "caches ?h' (Cache_At a) = caches h1 (Cache_At a)" by (intro clear_memory_changes(2) out)
      moreover have "caches h1 = caches h" by (simp add: h1_def)
      ultimately show ?thesis by (simp add: Cache_At)
    qed (simp_all add: clear_memory_caches image_iff h1_def)
    ultimately show ?thesis by (simp add: changes_only_def)
  qed
  moreover have "vm ?h' = vm h" by (simp add: clear_memory_vm h1_def)
  ultimately show ?thesis using run by blast
qed

lemma slab_ok_same:
  assumes "same_data (slabs h (at_byte s k 4032)) (slabs h' (at_byte s k 4032))"
    and "\<And>j. 4032 - cap z \<le> j \<Longrightarrow> j < 4032 \<Longrightarrow> bytes h' (at_byte s k j) = bytes h (at_byte s k j)" and "cap z \<le> 4032"
  shows "slab_ok h' z s k fl = slab_ok h z s k fl"
proof -
  have "byte_chain (\<lambda>i. bytes h' (at_byte s k (4032 - cap z + i))) st fl =
      byte_chain (\<lambda>i. bytes h (at_byte s k (4032 - cap z + i))) st fl" if "\<forall>i \<in> set fl. i < cap z" for st
  proof (rule byte_chain_cong)
    fix i assume "i \<in> set fl"
    then have "i < cap z" using that by blast
    then show "bytes h' (at_byte s k (4032 - cap z + i)) = bytes h (at_byte s k (4032 - cap z + i))"
      using assms(3) by (intro assms(2)) linarith+
  qed
  then show ?thesis using assms(1) unfolding slab_ok_def Let_def same_data_def by auto
qed

end
