(* ===== verification/Slab_Objects.thy ===== *)
theory Slab_Objects
  imports Slab_Cache
begin

text \<open>
  The operations of an object cache that keeps its data on the slabs, on its view: growing, taking an object from a
  slab and giving one back, with the part of memory that each of them changes.
\<close>

section \<open>The view of a cache\<close>

text \<open>
  A cache that keeps its data on the slabs: the start of its region and the pages in it, the distance between two
  objects, the pages in use, the free objects of each page and the pages in each of the three lists.
\<close>

datatype slab_list = Full_List | Partial_List | Empty_List

record cache_view =
  cv_start :: u64
  cv_room :: nat
  cv_stride :: u64
  cv_pages :: nat
  cv_free :: "nat \<Rightarrow> nat list"
  cv_lists :: "slab_list \<Rightarrow> nat list"

primrec head_of :: "slab_list \<Rightarrow> object_cache \<Rightarrow> u64" where
  "head_of Full_List = oc_full"
| "head_of Partial_List = oc_partial"
| "head_of Empty_List = oc_empty"

primrec set_head :: "slab_list \<Rightarrow> u64 \<Rightarrow> object_cache \<Rightarrow> object_cache" where
  "set_head Full_List = set_full"
| "set_head Partial_List = set_partial"
| "set_head Empty_List = set_empty"

definition stride :: "object_cache \<Rightarrow> u64" where
  "stride oc = (if oc_align oc = 0 then oc_size oc else oc_align oc * ((oc_size oc - 1) div oc_align oc + 1))"

abbreviation slab_at :: "cache_view \<Rightarrow> nat \<Rightarrow> u64" where "slab_at v k \<equiv> at_byte (cv_start v) k 4032"
abbreviation room_for :: "cache_view \<Rightarrow> u64" where "room_for v \<equiv> of_nat (4096 * cv_room v)"

definition view_fits :: "cache_view \<Rightarrow> bool" where
  "view_fits v \<longleftrightarrow> slab_fits (cv_start v) (room_for v) (cv_room v) (cv_stride v) \<and>
     unat (cv_start v) + 4096 * cv_room v < 2 ^ 64 \<and> cv_pages v < cv_room v"

text \<open>The lists are a partition of the pages by the number of their free objects.\<close>

definition filed_under :: "u64 \<Rightarrow> nat list \<Rightarrow> slab_list" where
  "filed_under z fl = (if fl = [] then Full_List else if length fl = cap z then Empty_List else Partial_List)"

definition view_lists :: "cache_view \<Rightarrow> bool" where
  "view_lists v \<longleftrightarrow> (\<forall>w. distinct (cv_lists v w) \<and>
     set (cv_lists v w) = {k. k < cv_pages v \<and> filed_under (cv_stride v) (cv_free v k) = w})"

definition view_region :: "cache_view \<Rightarrow> u64 set" where
  "view_region v = {at_byte (cv_start v) k j |k j. k < cv_room v \<and> j < 4096}"

text \<open>The slabs, their free lists and the pages that are not in use.\<close>

definition view_own :: "cache_view \<Rightarrow> u64 set" where
  "view_own v = {at_byte (cv_start v) k j |k j. k < cv_room v \<and> j < 4096 \<and> (k < cv_pages v \<longrightarrow> 4032 - cap (cv_stride v) \<le> j)}"

definition view_rings :: "(u64 \<Rightarrow> slab) \<Rightarrow> object_cache \<Rightarrow> cache_view \<Rightarrow> bool" where
  "view_rings S oc v \<longleftrightarrow> (\<forall>w. ring S (head_of w oc) (map (slab_at v) (cv_lists v w)))"

definition view_slabs :: "'v heap_state \<Rightarrow> cache_view \<Rightarrow> bool" where
  "view_slabs h v \<longleftrightarrow> (\<forall>k < cv_pages v. slab_ok h (cv_stride v) (cv_start v) k (cv_free v k))"

definition view_head :: "object_cache \<Rightarrow> cache_view \<Rightarrow> bool" where
  "view_head oc v \<longleftrightarrow> oc_type oc = ON_SLAB \<and> rstart (oc_managed oc) = cv_start v \<and> rsize (oc_managed oc) = room_for v \<and>
     oc_limit oc = at_byte (cv_start v) (cv_pages v) 0 \<and> oc_free_pages oc = 0 \<and> stride oc = cv_stride v"

definition cache_ok :: "'v heap_state \<Rightarrow> cache_ref \<Rightarrow> cache_view \<Rightarrow> bool" where
  "cache_ok h c v \<longleftrightarrow> c \<noteq> Null_Cache \<and> c \<notin> Cache_At ` view_region v \<and> view_fits v \<and> view_lists v \<and>
     view_head (caches h c) v \<and> view_slabs h v \<and> view_rings (slabs h) (caches h c) v"

text \<open>The addresses of the objects that are in use, and the bytes of an object.\<close>

definition view_live :: "cache_view \<Rightarrow> u64 set" where
  "view_live v = {at_byte (cv_start v) k (i * unat (cv_stride v)) |k i. k < cv_pages v \<and> i < cap (cv_stride v) \<and> i \<notin> set (cv_free v k)}"

definition block :: "u64 \<Rightarrow> u64 \<Rightarrow> u64 set" where "block z a = (\<lambda>j. a + of_nat j) ` {..<unat z}"

lemma view_fitsD:
  assumes "view_fits v"
  shows "slab_fits (cv_start v) (room_for v) (cv_room v) (cv_stride v)" "heap_region (cv_start v) (room_for v) (cv_room v)"
    "cv_stride v \<noteq> 0" "slab_capacity (cv_stride v) \<noteq> 0" "cap (cv_stride v) \<le> 255" "0 < cap (cv_stride v)"
    "cap (cv_stride v) * unat (cv_stride v) + cap (cv_stride v) \<le> 4032" "k < cv_pages v \<Longrightarrow> k < cv_room v" "0 < unat (cv_stride v)"
  using assms by (auto simp: view_fits_def slab_fits_def capacity_fits unat_gt_0)

lemma slab_at_eq:
  assumes "view_fits v" and "k < cv_pages v" "k' < cv_pages v"
  shows "slab_at v k = slab_at v k' \<longleftrightarrow> k = k'"
  using at_byte_eq [OF view_fitsD(2) [OF assms(1)] view_fitsD(8) [OF assms(1,2)] _ view_fitsD(8) [OF assms(1,3)], of 4032 4032] by simp

lemma distinct_slabs:
  assumes "view_fits v" and "distinct ks" and "set ks \<subseteq> {..<cv_pages v}"
  shows "distinct (map (slab_at v) ks)" and "0 \<notin> set (map (slab_at v) ks)"
proof -
  have "inj_on (slab_at v) (set ks)" using assms(3) slab_at_eq [OF assms(1)] by (auto simp: inj_on_def)
  then show "distinct (map (slab_at v) ks)" using assms(2) by (simp add: distinct_map)
  show "0 \<notin> set (map (slab_at v) ks)"
  proof
    assume "0 \<in> set (map (slab_at v) ks)"
    then obtain k where "k \<in> set ks" "slab_at v k = 0" by auto
    then show False using at_byte_nonzero [OF view_fitsD(2) [OF assms(1)], of k 4032] assms(3) view_fitsD(8) [OF assms(1), of k] by auto
  qed
qed

section \<open>Blocks\<close>

lemma block_bytes:
  assumes "view_fits v" and "i < cap (cv_stride v)"
  shows "block (cv_stride v) (at_byte (cv_start v) k (i * unat (cv_stride v))) =
    {at_byte (cv_start v) k j |j. i * unat (cv_stride v) \<le> j \<and> j < i * unat (cv_stride v) + unat (cv_stride v)}"
proof -
  let ?o = "i * unat (cv_stride v)" let ?z = "unat (cv_stride v)"
  have "(\<lambda>j. at_byte (cv_start v) k (?o + j)) ` {..<?z} = {at_byte (cv_start v) k j |j. ?o \<le> j \<and> j < ?o + ?z}"
  proof (intro equalityI subsetI)
    fix a assume "a \<in> {at_byte (cv_start v) k j |j. ?o \<le> j \<and> j < ?o + ?z}"
    then obtain j where "a = at_byte (cv_start v) k j" "?o \<le> j" "j < ?o + ?z" by blast
    then have "a = at_byte (cv_start v) k (?o + (j - ?o))" "j - ?o < ?z" by simp_all
    then show "a \<in> (\<lambda>j. at_byte (cv_start v) k (?o + j)) ` {..<?z}" by blast
  next
    fix a assume "a \<in> (\<lambda>j. at_byte (cv_start v) k (?o + j)) ` {..<?z}"
    then obtain j where "a = at_byte (cv_start v) k (?o + j)" "j < ?z" by blast
    then show "a \<in> {at_byte (cv_start v) k j |j. ?o \<le> j \<and> j < ?o + ?z}" by force
  qed
  then show ?thesis by (simp add: block_def at_byte_add)
qed

lemma live_block:
  assumes "view_fits v" and "o' \<in> view_live v"
  obtains k i where "o' = at_byte (cv_start v) k (i * unat (cv_stride v))" "k < cv_pages v" "i < cap (cv_stride v)" "i \<notin> set (cv_free v k)"
    "k < cv_room v" "i * unat (cv_stride v) + unat (cv_stride v) \<le> 4032 - cap (cv_stride v)"
proof -
  obtain k i where ki: "o' = at_byte (cv_start v) k (i * unat (cv_stride v))" "k < cv_pages v" "i < cap (cv_stride v)" "i \<notin> set (cv_free v k)"
    using assms(2) unfolding view_live_def by blast
  then show ?thesis
    using that view_fitsD(8) [OF assms(1)] object_address(3) [OF view_fitsD(1) [OF assms(1)], of i] by blast
qed

lemma live_in_region:
  assumes "view_fits v" and "o' \<in> view_live v"
  shows "block (cv_stride v) o' \<subseteq> view_region v - view_own v"
proof
  fix a assume a: "a \<in> block (cv_stride v) o'"
  obtain k i where ki: "o' = at_byte (cv_start v) k (i * unat (cv_stride v))" "k < cv_pages v" "i < cap (cv_stride v)" "k < cv_room v"
    "i * unat (cv_stride v) + unat (cv_stride v) \<le> 4032 - cap (cv_stride v)"
    using live_block [OF assms] by metis
  obtain j where j: "a = at_byte (cv_start v) k j" "j < i * unat (cv_stride v) + unat (cv_stride v)"
    using a block_bytes [OF assms(1) ki(3), of k] ki(1) by auto
  then have j': "j < 4032 - cap (cv_stride v)" using ki(5) by linarith
  have "a \<notin> view_own v"
  proof
    assume "a \<in> view_own v"
    then obtain k' j2 where o: "a = at_byte (cv_start v) k' j2" "k' < cv_room v" "j2 < 4096" "k' < cv_pages v \<longrightarrow> 4032 - cap (cv_stride v) \<le> j2"
      unfolding view_own_def by blast
    have "at_byte (cv_start v) k' j2 = at_byte (cv_start v) k j" using o(1) j(1) by (rule subst)
    moreover have "j < 4096" using j' by linarith
    ultimately have "k' = k \<and> j2 = j" using at_byte_eq [OF view_fitsD(2) [OF assms(1)] o(2,3) ki(4)] by blast
    then show False using o(4) ki(2) j' by simp
  qed
  moreover have "j < 4096" using j' by linarith
  then have "a \<in> view_region v" unfolding view_region_def using j(1) ki(4) by blast
  ultimately show "a \<in> view_region v - view_own v" by blast
qed

lemma live_disjoint:
  assumes "view_fits v" and "o1 \<in> view_live v" and "o2 \<in> view_live v" and "o1 \<noteq> o2"
  shows "block (cv_stride v) o1 \<inter> block (cv_stride v) o2 = {}"
proof -
  let ?z = "unat (cv_stride v)"
  obtain k1 i1 where 1: "o1 = at_byte (cv_start v) k1 (i1 * ?z)" "k1 < cv_room v" "i1 < cap (cv_stride v)" "i1 * ?z + ?z \<le> 4032 - cap (cv_stride v)"
    using live_block [OF assms(1,2)] by metis
  obtain k2 i2 where 2: "o2 = at_byte (cv_start v) k2 (i2 * ?z)" "k2 < cv_room v" "i2 < cap (cv_stride v)" "i2 * ?z + ?z \<le> 4032 - cap (cv_stride v)"
    using live_block [OF assms(1,3)] by metis
  have False if a: "a \<in> block (cv_stride v) o1" "a \<in> block (cv_stride v) o2" for a
  proof -
    obtain j1 where j1: "a = at_byte (cv_start v) k1 j1" "i1 * ?z \<le> j1" "j1 < i1 * ?z + ?z"
      using a(1) block_bytes [OF assms(1) 1(3), of k1] 1(1) by auto
    obtain j2 where j2: "a = at_byte (cv_start v) k2 j2" "i2 * ?z \<le> j2" "j2 < i2 * ?z + ?z"
      using a(2) block_bytes [OF assms(1) 2(3), of k2] 2(1) by auto
    have b: "j1 < 4096" "j2 < 4096" using j1(3) j2(3) 1(4) 2(4) by linarith+
    have e: "k1 = k2" "j1 = j2" using at_byte_eq [OF view_fitsD(2) [OF assms(1)] 1(2) b(1) 2(2) b(2)] j1(1) j2(1) by auto
    have "j1 div ?z = i1" using j1(2,3) by (intro div_nat_eqI) (simp_all add: mult.commute)
    moreover have "j2 div ?z = i2" using j2(2,3) by (intro div_nat_eqI) (simp_all add: mult.commute)
    ultimately show False using e assms(4) 1(1) 2(1) by simp
  qed
  then show ?thesis by blast
qed

lemma live_address_eq:
  assumes "view_fits v" and "k < cv_room v" "i < cap (cv_stride v)" and "k' < cv_room v" "i' < cap (cv_stride v)"
  shows "at_byte (cv_start v) k (i * unat (cv_stride v)) = at_byte (cv_start v) k' (i' * unat (cv_stride v)) \<longleftrightarrow> k = k' \<and> i = i'"
proof -
  have "i * unat (cv_stride v) < 4096" "i' * unat (cv_stride v) < 4096"
    using object_address(3) [OF view_fitsD(1) [OF assms(1)] assms(3)] object_address(3) [OF view_fitsD(1) [OF assms(1)] assms(5)]
    by linarith+
  then show ?thesis using at_byte_eq [OF view_fitsD(2) [OF assms(1)] assms(2) _ assms(4)] view_fitsD(9) [OF assms(1)] by auto
qed

section \<open>Moving a slab between the lists\<close>

lemma ring_apart: "ring S l xs \<Longrightarrow> (\<And>a. a \<in> set xs \<Longrightarrow> S' a = S a) \<Longrightarrow> ring S' l xs"
  using ring_cong [of xs S' S l] by simp

lemma move_between:
  assumes r: "ring (slabs h) l (map f (as @ k # bs))" and y: "ring (slabs h) (tolist (caches h c)) (map f ys)"
    and z: "ring (slabs h) zl (map f zs)" and keep: "\<And>x oc. tolist (set_from x oc) = tolist oc"
    and dis: "distinct (map f (as @ k # bs) @ map f ys @ map f zs)"
    and l1: "l1 = (if as @ bs = [] then 0 else if fromlist (caches h c) = f k then f (hd (bs @ as)) else fromlist (caches h c))"
    and h': "h' = move_slab c fromlist set_from tolist set_to (f k) h"
  shows "caches h' = (caches h)(c := set_to (f (hd (ys @ [k]))) (set_from l1 (caches h c)))"
    and "ring (slabs h') (if as @ bs = [] then 0 else if l = f k then f (hd (bs @ as)) else l) (map f (as @ bs))"
    and "ring (slabs h') (f (hd (ys @ [k]))) (map f (ys @ [k]))" and "ring (slabs h') zl (map f zs)"
    and "same_data (slabs h a) (slabs h' a)" and "h' = h\<lparr>slabs := slabs h', caches := caches h'\<rparr>"
    and "a \<notin> f ` (set (as @ k # bs) \<union> set ys) \<Longrightarrow> slabs h' a = slabs h a"
proof -
  have r': "ring (slabs h) l (map f as @ f k # map f bs)" using r by simp
  have hd1: "hd (map f ys @ [f k]) = f (hd (ys @ [k]))" by (cases ys) simp_all
  have l1': "l1 = (if map f as @ map f bs = [] then 0 else if fromlist (caches h c) = f k then hd (map f bs @ map f as)
      else fromlist (caches h c))"
    unfolding l1 by (cases bs; cases as) simp_all
  have dis': "set (map f ys) \<inter> set (map f as @ f k # map f bs) = {}" using dis by auto
  obtain g where g: "move_slab c fromlist set_from tolist set_to (f k) h = g"
    "caches g = (caches h)(c := set_to (hd (map f ys @ [f k])) (set_from l1 (caches h c)))"
    "cyc (slabs g) (map f as @ map f bs)" "ring (slabs g) (hd (map f ys @ [f k])) (map f ys @ [f k])"
    "\<forall>a. a \<notin> set (map f as @ f k # map f bs) \<union> set (map f ys) \<longrightarrow> slabs g a = slabs h a"
    "\<forall>a. same_data (slabs h a) (slabs g a)" "g = h\<lparr>slabs := slabs g, caches := caches g\<rparr>"
    using move_slab_rings [where fromlist = fromlist and tolist = tolist and set_from = set_from and set_to = set_to and h = h and c = c,
        OF r' y keep dis' l1'] by blast
  have gh: "g = h'" using g(1) h' by simp
  note g = g(2-7) [unfolded gh hd1]
  show "caches h' = (caches h)(c := set_to (f (hd (ys @ [k]))) (set_from l1 (caches h c)))" by (rule g(1))
  show "ring (slabs h') (f (hd (ys @ [k]))) (map f (ys @ [k]))" using g(3) by simp
  show "same_data (slabs h a) (slabs h' a)" using g(5) by blast
  show "h' = h\<lparr>slabs := slabs h', caches := caches h'\<rparr>" by (rule g(6))
  have out: "slabs h' a = slabs h a" if "a \<notin> f ` (set (as @ k # bs) \<union> set ys)" for a using g(4) that by auto
  then show "a \<notin> f ` (set (as @ k # bs) \<union> set ys) \<Longrightarrow> slabs h' a = slabs h a" .
  have "set (map f (as @ k # bs) @ map f ys) \<inter> set (map f zs) = {}"
    using dis distinct_append [of "map f (as @ k # bs) @ map f ys" "map f zs"] unfolding append_assoc by blast
  then have "a \<notin> f ` (set (as @ k # bs) \<union> set ys)" if "a \<in> set (map f zs)" for a
    using that unfolding set_append set_map image_Un by blast
  then show "ring (slabs h') zl (map f zs)" using out by (intro ring_apart [OF z]) blast
  have "distinct (map f (as @ bs))" "0 \<notin> set (map f (as @ bs))" using r' by (auto simp: ring_def)
  moreover have "(if as @ bs = [] then 0 else if l = f k then f (hd (bs @ as)) else l) = (if map f (as @ bs) = [] then 0 else hd (map f (as @ bs)))"
    using ring_swap_remove [OF r'] by (cases as; cases bs) (simp_all split: if_splits)
  ultimately show "ring (slabs h') (if as @ bs = [] then 0 else if l = f k then f (hd (bs @ as)) else l) (map f (as @ bs))"
    unfolding ring_def using g(2) by simp
qed

definition refiled :: "cache_view \<Rightarrow> cache_ref \<Rightarrow> 'v heap_state \<Rightarrow> 'v heap_state \<Rightarrow> bool" where
  "refiled v c h h' \<longleftrightarrow> (\<forall>a. same_data (slabs h a) (slabs h' a)) \<and> h' = h\<lparr>slabs := slabs h', caches := caches h'\<rparr> \<and>
     (\<forall>a. a \<notin> slab_at v ` {..<cv_pages v} \<longrightarrow> slabs h' a = slabs h a) \<and>
     (\<exists>f p e. caches h' = (caches h)(c := (caches h c)\<lparr>oc_full := f, oc_partial := p, oc_empty := e\<rparr>))"

lemma refiled_refl [simp]: "refiled v c h h"
proof -
  let ?oc = "caches h c"
  have "caches h = (caches h)(c := ?oc\<lparr>oc_full := oc_full ?oc, oc_partial := oc_partial ?oc, oc_empty := oc_empty ?oc\<rparr>)" by simp
  then have "\<exists>f p e. caches h = (caches h)(c := ?oc\<lparr>oc_full := f, oc_partial := p, oc_empty := e\<rparr>)" by blast
  then show ?thesis by (simp add: refiled_def same_data_def)
qed

text \<open>The pages of three lists are different pages in use.\<close>

definition apart :: "cache_view \<Rightarrow> nat list \<Rightarrow> bool" where
  "apart v ks \<longleftrightarrow> view_fits v \<and> distinct ks \<and> set ks \<subseteq> {..<cv_pages v}"

lemma apart_slabs: "apart v ks \<Longrightarrow> distinct (map (slab_at v) ks)"
  by (simp add: apart_def distinct_slabs)

lemma move_refiled:
  assumes r: "ring (slabs h) l (map (slab_at v) (as @ k # bs))" and y: "ring (slabs h) (tolist (caches h c)) (map (slab_at v) ys)"
    and z: "ring (slabs h) zl (map (slab_at v) zs)" and keep: "\<And>x oc. tolist (set_from x oc) = tolist oc"
    and dis: "apart v ((as @ k # bs) @ ys @ zs)"
    and frm: "fromlist (caches h c) = l \<or> as \<noteq> [] \<and> fromlist (caches h c) \<noteq> slab_at v k"
    and h': "h' = move_slab c fromlist set_from tolist set_to (slab_at v k) h"
  shows "\<exists>l1 l2. caches h' = (caches h)(c := set_to l2 (set_from l1 (caches h c))) \<and>
    (if fromlist (caches h c) = l then ring (slabs h') l1 (map (slab_at v) (as @ bs))
     else l1 = fromlist (caches h c) \<and> ring (slabs h') l (map (slab_at v) (as @ bs))) \<and>
    ring (slabs h') l2 (map (slab_at v) (ys @ [k])) \<and> ring (slabs h') zl (map (slab_at v) zs) \<and>
    (\<forall>a. same_data (slabs h a) (slabs h' a)) \<and> h' = h\<lparr>slabs := slabs h', caches := caches h'\<rparr> \<and>
    (\<forall>a. a \<notin> slab_at v ` {..<cv_pages v} \<longrightarrow> slabs h' a = slabs h a)"
proof -
  have d: "distinct (map (slab_at v) (as @ k # bs) @ map (slab_at v) ys @ map (slab_at v) zs)"
    using apart_slabs [OF dis] by simp
  note m = move_between [where fromlist = fromlist and tolist = tolist and set_from = set_from and set_to = set_to and h = h and c = c and
      f = "slab_at v", OF r y z keep d refl h']
  have sub: "slab_at v ` (set (as @ k # bs) \<union> set ys) \<subseteq> slab_at v ` {..<cv_pages v}" using dis by (auto simp: apart_def)
  define l1 where "l1 = (if as @ bs = [] then 0 else if fromlist (caches h c) = slab_at v k then slab_at v (hd (bs @ as)) else fromlist (caches h c))"
  note m = m [folded l1_def]
  have "ring (slabs h') l1 (map (slab_at v) (as @ bs))" if "fromlist (caches h c) = l" using m(2) unfolding l1_def by (simp only: that)
  moreover have "l1 = fromlist (caches h c) \<and> ring (slabs h') l (map (slab_at v) (as @ bs))" if ne: "fromlist (caches h c) \<noteq> l"
  proof -
    obtain a as' where as: "as = a # as'" using frm ne by (cases as) auto
    then have "l \<noteq> slab_at v k" using r by (auto simp: ring_def)
    then show ?thesis using m(2) as frm ne by (simp add: l1_def)
  qed
  ultimately have f: "if fromlist (caches h c) = l then ring (slabs h') l1 (map (slab_at v) (as @ bs))
     else l1 = fromlist (caches h c) \<and> ring (slabs h') l (map (slab_at v) (as @ bs))" by argo
  have out: "\<forall>a. a \<notin> slab_at v ` {..<cv_pages v} \<longrightarrow> slabs h' a = slabs h a" using m(7) sub by blast
  have data: "\<forall>a. same_data (slabs h a) (slabs h' a)" using m(5) by (rule allI)
  show ?thesis
    by (rule exI [of _ l1], rule exI [of _ "slab_at v (hd (ys @ [k]))"]) (intro conjI m(1,3,4,6) f out data)
qed

definition rings :: "cache_view \<Rightarrow> (u64 \<Rightarrow> slab) \<Rightarrow> object_cache \<Rightarrow> (slab_list \<Rightarrow> nat list) \<Rightarrow> bool" where
  "rings v S oc L \<longleftrightarrow> (\<forall>w. ring S (head_of w oc) (map (slab_at v) (L w)))"

definition parted :: "cache_view \<Rightarrow> (slab_list \<Rightarrow> nat list) \<Rightarrow> bool" where
  "parted v L \<longleftrightarrow> view_fits v \<and> (\<forall>w. distinct (L w) \<and> set (L w) \<subseteq> {..<cv_pages v}) \<and>
     (\<forall>w w'. w \<noteq> w' \<longrightarrow> set (L w) \<inter> set (L w') = {})"

lemma head_of_set [simp]: "head_of w (set_head w' x oc) = (if w = w' then x else head_of w oc)"
  by (cases w; cases w') simp_all

lemma set_head_lists: "\<exists>f p e. set_head w x oc = oc\<lparr>oc_full := f, oc_partial := p, oc_empty := e\<rparr>"
  by (cases w; cases oc) auto

lemma third_list: "a \<noteq> b \<Longrightarrow> \<exists>t. t \<noteq> a \<and> t \<noteq> b \<and> (\<forall>w. w = a \<or> w = b \<or> w = t)" for a b :: slab_list
  by (cases a; cases b) (auto intro: slab_list.exhaust)

lemma move_lists:
  assumes rs: "rings v (slabs h) (caches h c) L" and pt: "parted v L" and k: "k \<in> set (L a)" and ab: "a \<noteq> b"
    and a': "a' = a \<or> a' \<noteq> b \<and> hd (L a) \<noteq> k"
    and h': "h' = move_slab c (head_of a') (set_head a') (head_of b) (set_head b) (slab_at v k) h"
  shows "rings v (slabs h') (caches h' c) (L(a := remove1 k (L a), b := L b @ [k]))" and "refiled v c h h'"
proof -
  obtain t where t: "t \<noteq> a" "t \<noteq> b" "\<And>w. w = a \<or> w = b \<or> w = t" using third_list [OF ab] by blast
  obtain as bs where La: "L a = as @ k # bs" "k \<notin> set as" using split_list_first [OF k] by blast
  have p: "view_fits v" "distinct (L w)" "set (L w) \<subseteq> {..<cv_pages v}" "w \<noteq> w' \<Longrightarrow> set (L w) \<inter> set (L w') = {}" for w w'
    using pt by (auto simp: parted_def)
  have r: "ring (slabs h) (head_of w (caches h c)) (map (slab_at v) (L w))" for w using rs by (simp add: rings_def)
  have ba: "b \<noteq> a'" using a' ab by auto
  have dis: "apart v ((as @ k # bs) @ L b @ L t)"
    unfolding apart_def La(1) [symmetric] using p(1) p(2) [of a] p(2) [of b] p(2) [of t] p(3) [of a] p(3) [of b] p(3) [of t]
      p(4) [OF ab] p(4) [of a t] p(4) [of b t] t by auto
  have kk: "k < cv_pages v" using p(3) [of a] k by blast
  have frm: "head_of a' (caches h c) = head_of a (caches h c) \<or> as \<noteq> [] \<and> head_of a' (caches h c) \<noteq> slab_at v k"
  proof (cases "a' = a")
    case False
    then have a't: "a' = t" "hd (L a) \<noteq> k" using a' t by auto
    have "head_of t (caches h c) \<noteq> slab_at v k"
    proof
      assume e: "head_of t (caches h c) = slab_at v k"
      have "slab_at v k \<noteq> 0" using at_byte_nonzero [OF view_fitsD(2) [OF p(1)] view_fitsD(8) [OF p(1) kk], of 4032] by simp
      then have "L t \<noteq> []" "slab_at v (hd (L t)) = slab_at v k" using r [of t] e by (auto simp: ring_def hd_map split: if_splits)
      then have "hd (L t) \<in> set (L t)" by simp
      moreover from this have "hd (L t) = k" using slab_at_eq [OF p(1) _ kk] p(3) [of t] \<open>slab_at v (hd (L t)) = slab_at v k\<close> by blast
      ultimately have "hd (L t) = k" "hd (L t) \<in> set (L t)" by simp_all
      then show False using p(4) [OF t(1)] k by blast
    qed
    then show ?thesis using a't La by auto
  qed simp
  have keep: "head_of b (set_head a' x oc) = head_of b oc" for x oc using ba by simp
  have same: "a' = a" if "head_of a' (caches h c) = head_of a (caches h c)"
  proof (rule ccontr)
    assume "a' \<noteq> a"
    have "L a \<noteq> []" using k by auto
    then have "head_of a (caches h c) = slab_at v (hd (L a))" "head_of a (caches h c) \<noteq> 0" using r [of a] by (auto simp: ring_def hd_map)
    moreover from this have "L a' \<noteq> []" "head_of a' (caches h c) = slab_at v (hd (L a'))" using r [of a'] that by (auto simp: ring_def hd_map split: if_splits)
    ultimately have "hd (L a') = hd (L a)" using slab_at_eq [OF p(1)] p(3) that \<open>L a \<noteq> []\<close> by (metis hd_in_set lessThan_iff subsetD)
    then show False using p(4) [OF \<open>a' \<noteq> a\<close>] \<open>L a \<noteq> []\<close> \<open>L a' \<noteq> []\<close> by (metis disjoint_iff hd_in_set)
  qed
  obtain l1 l2 where m: "caches h' = (caches h)(c := set_head b l2 (set_head a' l1 (caches h c)))"
    "if head_of a' (caches h c) = head_of a (caches h c) then ring (slabs h') l1 (map (slab_at v) (as @ bs))
     else l1 = head_of a' (caches h c) \<and> ring (slabs h') (head_of a (caches h c)) (map (slab_at v) (as @ bs))"
    "ring (slabs h') l2 (map (slab_at v) (L b @ [k]))" "ring (slabs h') (head_of t (caches h c)) (map (slab_at v) (L t))"
    "\<forall>a. same_data (slabs h a) (slabs h' a)" "h' = h\<lparr>slabs := slabs h', caches := caches h'\<rparr>"
    "\<forall>a. a \<notin> slab_at v ` {..<cv_pages v} \<longrightarrow> slabs h' a = slabs h a"
    using move_refiled [where fromlist = "head_of a'" and tolist = "head_of b" and set_from = "set_head a'" and set_to = "set_head b"
        and h = h and c = c and v = v and l = "head_of a (caches h c)" and ys = "L b" and zs = "L t" and zl = "head_of t (caches h c)",
        OF _ r r keep dis frm h'] r [of a] La(1) by auto
  have rm: "remove1 k (L a) = as @ bs" using La by (simp add: remove1_append)
  show "rings v (slabs h') (caches h' c) (L(a := remove1 k (L a), b := L b @ [k]))"
    unfolding rings_def
  proof
    fix w
    have hb: "head_of b (caches h' c) = l2" using m(1) by simp
    have ha: "ring (slabs h') (head_of a (caches h' c)) (map (slab_at v) (as @ bs))"
      using m(1,2) same ab by (auto split: if_splits)
    have ht: "head_of t (caches h' c) = head_of t (caches h c)"
      using m(1,2) same t by (cases "a' = a") (auto split: if_splits)
    show "ring (slabs h') (head_of w (caches h' c)) (map (slab_at v) ((L(a := remove1 k (L a), b := L b @ [k])) w))"
      using t(3) [of w] ha hb ht m(3,4) ab t(1,2) rm by auto
  qed
  obtain f p e where 1: "set_head a' l1 (caches h c) = (caches h c)\<lparr>oc_full := f, oc_partial := p, oc_empty := e\<rparr>"
    using set_head_lists by blast
  obtain f' p' e' where "set_head b l2 (set_head a' l1 (caches h c)) = (caches h c)\<lparr>oc_full := f', oc_partial := p', oc_empty := e'\<rparr>"
    using set_head_lists [of b l2 "set_head a' l1 (caches h c)"] unfolding 1 by auto
  then show "refiled v c h h'" unfolding refiled_def using m(1,5,6,7) by metis
qed

section \<open>A slab that has changed is filed again\<close>

lemma slab_in_own: "view_fits v \<Longrightarrow> k < cv_pages v \<Longrightarrow> slab_at v k \<in> view_own v"
  using view_fitsD(8) [of v k] unfolding view_own_def by fastforce

lemma refiled_frame:
  assumes "refiled v c h h'" and "view_fits v"
  shows "changes_only (view_own v) {c} h h'" and "vm h' = vm h"
proof -
  have e: "h' = h\<lparr>slabs := slabs h', caches := caches h'\<rparr>" using assms(1) unfolding refiled_def by blast
  have out: "slabs h' a = slabs h a" if "a \<notin> view_own v" for a
  proof -
    have "a \<notin> slab_at v ` {..<cv_pages v}" using that slab_in_own [OF assms(2)] by auto
    then show ?thesis using assms(1) unfolding refiled_def by blast
  qed
  have ca: "caches h' c' = caches h c'" if "c' \<noteq> c" for c' using assms(1) that unfolding refiled_def by auto
  have f: "bytes h' = bytes h" "obj_nodes h' = obj_nodes h" "mem_nodes h' = mem_nodes h" "hash_nodes h' = hash_nodes h"
    "hash_maps h' = hash_maps h" "vm h' = vm h" by (subst e, simp)+
  show "vm h' = vm h" by (rule f(6))
  show "changes_only (view_own v) {c} h h'" unfolding changes_only_def same_at_def using out ca f by auto
qed

lemma refiled_ok:
  assumes "c \<noteq> Null_Cache" "c \<notin> Cache_At ` view_region v" "view_fits v" "view_head (caches h c) v" "view_slabs h v"
    and "refiled v c h h'" "rings v (slabs h') (caches h' c) (cv_lists v)" "view_lists v"
  shows "cache_ok h' c v"
proof -
  have e: "h' = h\<lparr>slabs := slabs h', caches := caches h'\<rparr>" and d: "same_data (slabs h a) (slabs h' a)" for a
    using assms(6) unfolding refiled_def by blast+
  obtain f p em where ca: "caches h' = (caches h)(c := (caches h c)\<lparr>oc_full := f, oc_partial := p, oc_empty := em\<rparr>)"
    using assms(6) unfolding refiled_def by blast
  have "stride (caches h' c) = stride (caches h c)" by (simp add: stride_def ca)
  then have "view_head (caches h' c) v" using assms(4) unfolding view_head_def by (simp add: ca)
  moreover have "bytes h' = bytes h" by (subst e) simp
  then have "view_slabs h' v"
    using assms(5) slab_ok_same [OF d, of "cv_stride v"] view_fitsD(5) [OF assms(3)] unfolding view_slabs_def by auto
  ultimately show ?thesis using assms by (simp add: cache_ok_def rings_def view_rings_def)
qed

lemma parted_lists: "view_fits v \<Longrightarrow> view_lists v \<Longrightarrow> parted v (cv_lists v)"
  unfolding parted_def view_lists_def by auto

lemma lists_move:
  assumes "view_lists v" and "k < cv_pages v" and "filed_under (cv_stride v) (cv_free v k) = a" "filed_under (cv_stride v) fl = b" "a \<noteq> b"
  shows "view_lists (v\<lparr>cv_free := (cv_free v)(k := fl), cv_lists := (cv_lists v)(a := remove1 k (cv_lists v a), b := cv_lists v b @ [k])\<rparr>)"
proof -
  have l: "distinct (cv_lists v w)" "set (cv_lists v w) = {k. k < cv_pages v \<and> filed_under (cv_stride v) (cv_free v k) = w}" for w
    using assms(1) unfolding view_lists_def by blast+
  have "distinct (L w) \<and> set (L w) = {j. j < cv_pages v \<and> filed_under (cv_stride v) (((cv_free v)(k := fl)) j) = w}"
    if "L = (cv_lists v)(a := remove1 k (cv_lists v a), b := cv_lists v b @ [k])" for L w
    using l assms(2-5) unfolding that by (auto simp: set_remove1_eq)
  then show ?thesis unfolding view_lists_def by simp
qed

lemma lists_stay:
  "view_lists v \<Longrightarrow> filed_under (cv_stride v) (cv_free v k) = filed_under (cv_stride v) fl \<Longrightarrow>
    view_lists (v\<lparr>cv_free := (cv_free v)(k := fl)\<rparr>)"
  unfolding view_lists_def by auto

lemma slab_counts:
  assumes "slab_ok h z s k fl" and "cap z \<le> 255"
  shows "s_allocated (slabs h (at_byte s k 4032)) = 0 \<longleftrightarrow> length fl = cap z"
    and "s_allocated (slabs h (at_byte s k 4032)) = s_object_count (slabs h (at_byte s k 4032)) \<longleftrightarrow> fl = []"
    and "s_object_count (slabs h (at_byte s k 4032)) = slab_capacity z"
proof -
  let ?a = "s_allocated (slabs h (at_byte s k 4032))"
  have a: "unat ?a + length fl = cap z" "s_object_count (slabs h (at_byte s k 4032)) = slab_capacity z"
    using assms(1) by (simp_all add: slab_ok_def Let_def)
  show "?a = 0 \<longleftrightarrow> length fl = cap z" using a(1) by (auto simp: unat_eq_zero [symmetric] simp del: unat_eq_zero)
  show "?a = s_object_count (slabs h (at_byte s k 4032)) \<longleftrightarrow> fl = []" unfolding a(2) using a(1) by (auto simp: word_unat_eq_iff)
  show "s_object_count (slabs h (at_byte s k 4032)) = slab_capacity z" by (rule a(2))
qed

lemma slab_nonzero: "view_fits v \<Longrightarrow> k < cv_pages v \<Longrightarrow> slab_at v k \<noteq> 0"
  using at_byte_nonzero [OF view_fitsD(2) view_fitsD(8), of v k 4032] by simp

lemma list_heads:
  assumes "cache_ok h c v"
  shows "head_of w (caches h c) = (if cv_lists v w = [] then 0 else slab_at v (hd (cv_lists v w)))"
  using assms by (auto simp: cache_ok_def view_rings_def ring_def hd_map)

lemma lists_pages:
  assumes "cache_ok h c v" and "k \<in> set (cv_lists v w)"
  shows "k < cv_pages v" and "filed_under (cv_stride v) (cv_free v k) = w"
  using assms by (auto simp: cache_ok_def view_lists_def)

text \<open>The state between the change of slab \<open>k\<close> and its move to another list.\<close>

lemma refile_changed:
  assumes ok: "cache_ok h c v" and k: "k < cv_pages v" and sl: "slab_ok h1 (cv_stride v) (cv_start v) k fl"
    and links: "\<And>a. same_links (slabs h a) (slabs h1 a)" and fr: "changes_only (view_own v) {} h h1" and vm: "vm h1 = vm h"
    and others: "\<And>k'. k' < cv_pages v \<Longrightarrow> k' \<noteq> k \<Longrightarrow> slab_ok h1 (cv_stride v) (cv_start v) k' (cv_free v k')"
    and a: "filed_under (cv_stride v) (cv_free v k) = a" and b: "filed_under (cv_stride v) fl = b"
    and h': "h' = (if a = b then h1 else move_slab c (head_of a') (set_head a') (head_of b) (set_head b) (slab_at v k) h1)"
    and a': "a' = a \<or> a' \<noteq> b \<and> hd (cv_lists v a) \<noteq> k"
  shows "\<exists>L. cache_ok h' c (v\<lparr>cv_free := (cv_free v)(k := fl), cv_lists := L\<rparr>)" and "changes_only (view_own v) {c} h h'" and "vm h' = vm h"
proof -
  let ?v = "\<lambda>L. v\<lparr>cv_free := (cv_free v)(k := fl), cv_lists := L\<rparr>"
  have v: "c \<noteq> Null_Cache" "c \<notin> Cache_At ` view_region v" "view_fits v" "view_lists v" "view_head (caches h c) v"
    "view_rings (slabs h) (caches h c) v" using ok unfolding cache_ok_def by blast+
  have own: "view_own v \<subseteq> view_region v" unfolding view_own_def view_region_def by blast
  then have c1: "caches h1 c = caches h c" using fr v(2) unfolding changes_only_def by blast
  have r1: "rings v (slabs h1) (caches h1 c) (cv_lists v)"
    using v(6) ring_links [where S = "slabs h" and S' = "slabs h1", OF links] unfolding rings_def view_rings_def c1 by blast
  have mem: "k \<in> set (cv_lists v a)" using v(4) k a unfolding view_lists_def by blast
  have ri: "refiled v c h1 h'"
  proof (cases "a = b")
    case False
    then have "h' = move_slab c (head_of a') (set_head a') (head_of b) (set_head b) (slab_at v k) h1" using h' by simp
    from move_lists(2) [OF r1 parted_lists [OF v(3,4)] mem False a' this] show ?thesis .
  qed (simp add: h')
  have sl1: "view_slabs h1 (?v L)" for L using sl others by (simp add: view_slabs_def)
  have same: "view_region (?v L) = view_region v" "view_fits (?v L) = view_fits v" "view_head oc (?v L) = view_head oc v"
    "refiled (?v L) = refiled v" "rings (?v L) = rings v" for L oc
    unfolding view_region_def view_fits_def view_head_def refiled_def rings_def by (simp_all add: fun_eq_iff)
  have fin: "cache_ok h' c (?v L)" if "rings v (slabs h') (caches h' c) L" "view_lists (?v L)" for L
    using refiled_ok [of c "?v L" h1 h'] v sl1 ri that c1 by (simp add: same)
  show "\<exists>L. cache_ok h' c (?v L)"
  proof (cases "a = b")
    case True
    have "view_lists (?v (cv_lists v))" using lists_stay [OF v(4), of k fl] True a b by simp
    moreover have "rings v (slabs h') (caches h' c) (cv_lists v)" using r1 True h' by simp
    ultimately show ?thesis using fin by blast
  next
    case False
    then have "h' = move_slab c (head_of a') (set_head a') (head_of b) (set_head b) (slab_at v k) h1" using h' by simp
    from move_lists(1) [OF r1 parted_lists [OF v(3,4)] mem False a' this] lists_move [OF v(4) k a b False] show ?thesis using fin by blast
  qed
  show "changes_only (view_own v) {c} h h'"
    using changes_only_mono [OF fr, of "view_own v" "{c}"] refiled_frame(1) [OF ri v(3)] by (blast intro: changes_only_trans)
  show "vm h' = vm h" using refiled_frame(2) [OF ri v(3)] vm by simp
qed

section \<open>Taking an object\<close>

lemma filed_under_cases:
  "filed_under z fl = Full_List \<longleftrightarrow> fl = []" "filed_under z [] = Full_List"
  "filed_under z fl = Empty_List \<longleftrightarrow> fl \<noteq> [] \<and> length fl = cap z" "filed_under z fl = Partial_List \<longleftrightarrow> fl \<noteq> [] \<and> length fl \<noteq> cap z"
  by (auto simp: filed_under_def)

lemma slab_okD: "cache_ok h c v \<Longrightarrow> k < cv_pages v \<Longrightarrow> slab_ok h (cv_stride v) (cv_start v) k (cv_free v k)"
  by (simp add: cache_ok_def view_slabs_def)

lemma free_length: "slab_ok h z s k fl \<Longrightarrow> length fl \<le> cap z"
  by (simp add: slab_ok_def Let_def)

lemma slab_other:
  assumes v: "view_fits v" and k: "k < cv_pages v" "k' < cv_pages v" "k' \<noteq> k"
    and out: "\<And>a. a \<notin> {at_byte (cv_start v) k j |j. j < 4096} \<Longrightarrow> same_at a h h'" and z: "cap z \<le> 255"
  shows "slab_ok h' z (cv_start v) k' fl = slab_ok h z (cv_start v) k' fl"
proof (rule slab_ok_same)
  have ne: "at_byte (cv_start v) k' j \<notin> {at_byte (cv_start v) k j |j. j < 4096}" if "j < 4096" for j
    using at_byte_eq [OF view_fitsD(2) [OF v] view_fitsD(8) [OF v k(2)] that view_fitsD(8) [OF v k(1)]] k(3) by auto
  show "same_data (slabs h (at_byte (cv_start v) k' 4032)) (slabs h' (at_byte (cv_start v) k' 4032))"
    using out [OF ne [of 4032]] by (simp add: same_at_def same_data_def)
  show "bytes h' (at_byte (cv_start v) k' j) = bytes h (at_byte (cv_start v) k' j)" if "4032 - cap z \<le> j" "j < 4032" for j
    using out [OF ne [of j]] that by (simp add: same_at_def)
  show "cap z \<le> 4032" using z by simp
qed

lemma take_object_takes:
  assumes ok: "cache_ok h c v" and w: "alloc_slab_of c h \<noteq> 0"
  shows "\<exists>h' k i is L. take_object c h = Some (h', at_byte (cv_start v) k (i * unat (cv_stride v))) \<and> k < cv_pages v \<and>
    cv_free v k = i # is \<and> cache_ok h' c (v\<lparr>cv_free := (cv_free v)(k := is), cv_lists := L\<rparr>) \<and>
    changes_only (view_own v) {c} h h' \<and> vm h' = vm h"
proof -
  have v: "view_fits v" "view_head (caches h c) v" using ok by (simp_all add: cache_ok_def)
  define a where "a = (if cv_lists v Partial_List \<noteq> [] then Partial_List else Empty_List)"
  define k where "k = hd (cv_lists v a)"
  note hd1 = list_heads [OF ok, of Partial_List, simplified head_of.simps] list_heads [OF ok, of Empty_List, simplified head_of.simps]
  have nonzero: "(if cv_lists v w = [] then 0 else slab_at v (hd (cv_lists v w))) \<noteq> 0 \<longleftrightarrow> cv_lists v w \<noteq> []" for w
    using slab_nonzero [OF v(1)] lists_pages(1) [OF ok, of "hd (cv_lists v w)" w] by simp
  have slab: "alloc_slab_of c h = slab_at v k" and ne: "cv_lists v a \<noteq> []"
    using w nonzero [of Partial_List] nonzero [of Empty_List] unfolding alloc_slab_of_def hd1 a_def k_def by (auto split: if_splits)
  have mem: "k \<in> set (cv_lists v a)" using ne by (simp add: k_def)
  have k: "k < cv_pages v" and fa: "filed_under (cv_stride v) (cv_free v k) = a" using lists_pages [OF ok mem] by blast+
  note so = slab_okD [OF ok k]
  have c255: "cap (cv_stride v) \<le> 255" by (rule view_fitsD(5) [OF v(1)])
  have "a \<noteq> Full_List" by (simp add: a_def)
  then obtain i "is" where fl: "cv_free v k = i # is" using fa filed_under_cases(2) by (cases "cv_free v k") auto
  obtain d where d: "alloc_on_slab (slab_at v k) h = (h\<lparr>slabs := (slabs h)(slab_at v k := d)\<rparr>, at_byte (cv_start v) k (i * unat (cv_stride v)))"
    "slab_ok (h\<lparr>slabs := (slabs h)(slab_at v k := d)\<rparr>) (cv_stride v) (cv_start v) k is" "same_links (slabs h (slab_at v k)) d"
    using alloc_on_slab_pops [OF view_fitsD(1) [OF v(1)] so [unfolded fl]] by blast
  define h1 where "h1 = h\<lparr>slabs := (slabs h)(slab_at v k := d)\<rparr>"
  have same: "same_at x h h1" if "x \<noteq> slab_at v k" for x using that by (simp add: same_at_def h1_def)
  have links: "same_links (slabs h x) (slabs h1 x)" for x using d(3) by (simp add: h1_def same_links_def)
  have fr: "changes_only (view_own v) {} h h1"
    unfolding changes_only_def
  proof (intro conjI allI impI)
    fix x assume "x \<notin> view_own v"
    then have "x \<noteq> slab_at v k" using slab_in_own [OF v(1) k] by blast
    then show "same_at x h h1" by (rule same)
  qed (simp add: h1_def)
  have page: "same_at x h h1" if "x \<notin> {at_byte (cv_start v) k j |j. j < 4096}" for x
  proof (rule same)
    show "x \<noteq> slab_at v k" using that by force
  qed
  have others: "slab_ok h1 (cv_stride v) (cv_start v) k' (cv_free v k')" if "k' < cv_pages v" "k' \<noteq> k" for k'
    using slab_other [OF v(1) k that page c255] slab_okD [OF ok that(1)] by blast
  define b where "b = filed_under (cv_stride v) is"
  note cnt = slab_counts [OF d(2) [folded h1_def] c255]
  have heads: "slab_at v k = oc_empty (caches h1 c) \<longleftrightarrow> a = Empty_List"
  proof
    assume e: "slab_at v k = oc_empty (caches h1 c)"
    then have "cv_lists v Empty_List \<noteq> []" "slab_at v k = slab_at v (hd (cv_lists v Empty_List))"
      using hd1(2) slab_nonzero [OF v(1) k] by (auto simp: h1_def split: if_splits)
    then have "k = hd (cv_lists v Empty_List)" using slab_at_eq [OF v(1) k] lists_pages(1) [OF ok] by (metis hd_in_set)
    then show "a = Empty_List" using \<open>cv_lists v Empty_List \<noteq> []\<close> lists_pages(2) [OF ok, of k Empty_List] fa by auto
  next
    assume "a = Empty_List"
    then show "slab_at v k = oc_empty (caches h1 c)" using ne hd1(2) by (simp add: h1_def k_def)
  qed
  have "length is < cap (cv_stride v)" using free_length [OF so] fl by simp
  then have bne: "b = Full_List \<or> b = Partial_List" by (auto simp: b_def filed_under_def)
  have h': "refile_allocated c (slab_at v k) h1 = (if a = b then h1
      else move_slab c (head_of a) (set_head a) (head_of b) (set_head b) (slab_at v k) h1)"
    using bne cnt(2) heads filed_under_cases(1) [of "cv_stride v" "is"] unfolding refile_allocated_def a_def b_def by (auto split: if_splits)
  note r = refile_changed [OF ok k d(2) [folded h1_def] links fr _ others fa b_def [symmetric] h']
  have "vm h1 = vm h" by (simp add: h1_def)
  note r = r [OF this]
  have ty: "oc_type (caches h c) = ON_SLAB" using v(2) by (simp add: view_head_def)
  have "slab_at v k \<noteq> 0" by (rule slab_nonzero [OF v(1) k])
  then have "take_object c h = Some (refile_allocated c (slab_at v k) h1, at_byte (cv_start v) k (i * unat (cv_stride v)))"
    using d(1) ty by (simp add: take_object_def slab h1_def Let_def)
  then show ?thesis using r k fl by blast
qed

section \<open>Giving an object back\<close>

lemma cache_free_frees:
  assumes ok: "cache_ok h c v" and k: "k < cv_pages v" and i: "i < cap (cv_stride v)" "i \<notin> set (cv_free v k)"
  shows "\<exists>h' L. cache_free c (at_byte (cv_start v) k (i * unat (cv_stride v))) h = Some h' \<and>
    cache_ok h' c (v\<lparr>cv_free := (cv_free v)(k := i # cv_free v k), cv_lists := L\<rparr>) \<and>
    changes_only (view_own v) {c} h h' \<and> vm h' = vm h"
proof -
  have v: "view_fits v" "view_head (caches h c) v" "c \<noteq> Null_Cache" using ok by (simp_all add: cache_ok_def)
  note so = slab_okD [OF ok k]
  have c255: "cap (cv_stride v) \<le> 255" by (rule view_fitsD(5) [OF v(1)])
  let ?o = "at_byte (cv_start v) k (i * unat (cv_stride v))" let ?q = "4032 - cap (cv_stride v) + i"
  obtain d b where d: "free_on_slab (slab_at v k) ?o h = (h\<lparr>slabs := (slabs h)(slab_at v k := d), bytes := (bytes h)(at_byte (cv_start v) k ?q := b)\<rparr>, True)"
    "slab_ok (h\<lparr>slabs := (slabs h)(slab_at v k := d), bytes := (bytes h)(at_byte (cv_start v) k ?q := b)\<rparr>) (cv_stride v) (cv_start v) k (i # cv_free v k)"
    "same_links (slabs h (slab_at v k)) d"
    using free_on_slab_pushes [OF view_fitsD(1) [OF v(1)] view_fitsD(8) [OF v(1) k] so i] by blast
  define h1 where "h1 = h\<lparr>slabs := (slabs h)(slab_at v k := d), bytes := (bytes h)(at_byte (cv_start v) k ?q := b)\<rparr>"
  have q: "?q < 4096" "4032 - cap (cv_stride v) \<le> ?q" using i(1) c255 by linarith+
  have same: "same_at x h h1" if "x \<noteq> slab_at v k" "x \<noteq> at_byte (cv_start v) k ?q" for x using that by (simp add: same_at_def h1_def)
  have links: "same_links (slabs h x) (slabs h1 x)" for x using d(3) by (simp add: h1_def same_links_def)
  have qown: "at_byte (cv_start v) k ?q \<in> view_own v" unfolding view_own_def using q view_fitsD(8) [OF v(1) k] by blast
  have fr: "changes_only (view_own v) {} h h1"
    unfolding changes_only_def
  proof (intro conjI allI impI)
    fix x assume "x \<notin> view_own v"
    then have "x \<noteq> slab_at v k" "x \<noteq> at_byte (cv_start v) k ?q" using slab_in_own [OF v(1) k] qown by blast+
    then show "same_at x h h1" by (rule same)
  qed (simp add: h1_def)
  have page: "same_at x h h1" if "x \<notin> {at_byte (cv_start v) k j |j. j < 4096}" for x
  proof (rule same)
    show "x \<noteq> slab_at v k" using that by force
    show "x \<noteq> at_byte (cv_start v) k ?q" using that q(1) by blast
  qed
  have others: "slab_ok h1 (cv_stride v) (cv_start v) k' (cv_free v k')" if "k' < cv_pages v" "k' \<noteq> k" for k'
    using slab_other [OF v(1) k that page c255] slab_okD [OF ok that(1)] by blast
  let ?fl = "cv_free v k" and ?z = "cv_stride v"
  define a where "a = filed_under ?z ?fl"
  define b where "b = filed_under ?z (i # ?fl)"
  have len: "length (i # ?fl) \<le> cap ?z" using free_length [OF d(2)] .
  note cnt0 = slab_counts [OF so c255] and cnt = slab_counts [OF d(2) [folded h1_def] c255]
  have mem: "k \<in> set (cv_lists v a)" using ok k a_def unfolding cache_ok_def view_lists_def by blast
  define a' where "a' = (if a = Full_List \<and> b = Empty_List \<and> slab_at v k \<noteq> oc_full (caches h c) then Partial_List else a)"
  have full: "oc_full (caches h c) = (if cv_lists v Full_List = [] then 0 else slab_at v (hd (cv_lists v Full_List)))"
    using list_heads [OF ok, of Full_List] by simp
  have a': "a' = a \<or> a' \<noteq> b \<and> hd (cv_lists v a) \<noteq> k" using mem full unfolding a'_def by (auto split: if_splits)
  have notfull: "slab_at v k \<noteq> oc_full (caches h c)" if "a \<noteq> Full_List"
  proof
    assume e: "slab_at v k = oc_full (caches h c)"
    then have "cv_lists v Full_List \<noteq> []" "slab_at v k = slab_at v (hd (cv_lists v Full_List))"
      using full slab_nonzero [OF v(1) k] by (auto split: if_splits)
    moreover from this have "k = hd (cv_lists v Full_List)" using slab_at_eq [OF v(1) k] lists_pages(1) [OF ok] by (metis hd_in_set)
    ultimately show False using lists_pages(2) [OF ok, of k Full_List] that a_def by auto
  qed
  have c1: "caches h1 = caches h" by (simp add: h1_def)
  have h': "refile_freed c (slab_at v k) (s_allocated (slabs h (slab_at v k))) h1 = (if a = b then h1
      else move_slab c (head_of a') (set_head a') (head_of b) (set_head b) (slab_at v k) h1)"
  proof (cases "length (i # ?fl) = cap ?z")
    case True
    then have b: "b = Empty_List" by (simp add: b_def filed_under_def)
    have ab: "a \<noteq> Empty_List" using True unfolding a_def filed_under_cases(3) by auto
    have z: "s_allocated (slabs h1 (slab_at v k)) = 0" using cnt(1) True by simp
    show ?thesis
    proof (cases "a = Full_List")
      case True
      then show ?thesis using z b unfolding refile_freed_def a'_def c1 by simp
    next
      case False
      then have "a = Partial_List" using ab by (cases a) simp_all
      then show ?thesis using z b notfull unfolding refile_freed_def a'_def c1 by simp
    qed
  next
    case False
    then have b: "b = Partial_List" by (simp add: b_def filed_under_def)
    have z: "s_allocated (slabs h1 (slab_at v k)) \<noteq> 0" using cnt(1) False by simp
    have "s_allocated (slabs h (slab_at v k)) = s_object_count (slabs h1 (slab_at v k)) \<longleftrightarrow> a = Full_List"
      using cnt(3) cnt0(2,3) by (simp add: a_def filed_under_cases(1))
    moreover have "a = Full_List \<or> a = Partial_List" using len False by (auto simp: a_def filed_under_def)
    ultimately show ?thesis using z b unfolding refile_freed_def a'_def by auto
  qed
  have "vm h1 = vm h" by (simp add: h1_def)
  note r = refile_changed [OF ok k d(2) [folded h1_def] links fr this others a_def [symmetric] b_def [symmetric] h' a']
  have pg: "page_of ?o + PAGE_SIZE - SLAB_SIZE = slab_at v k" "page_of ?o = at_byte (cv_start v) k 0"
    using page_of_at [OF view_fitsD(2) [OF v(1)] view_fitsD(8) [OF v(1) k], of "i * unat ?z"]
      object_address(3) [OF view_fitsD(1) [OF v(1)] i(1)] slab_address by auto
  have "cache_free c ?o h = Some (refile_freed c (slab_at v k) (s_allocated (slabs h (slab_at v k))) h1)"
    using v(2,3) so d(1) pg unfolding cache_free_def h1_def by (simp add: view_head_def slab_ok_def Let_def)
  then show ?thesis using r by blast
qed

section \<open>Growing\<close>

lemma offset_unat: "unat s + m < 2 ^ 64 \<Longrightarrow> unat (s + of_nat m :: u64) = unat s + m" for s :: u64
proof -
  assume b: "unat s + m < 2 ^ 64"
  then have m: "unat (of_nat m :: u64) = m" unfolding unat_of_nat by simp
  show ?thesis using b m by (subst unat_plus_simple [THEN iffD1]) (simp_all add: word_le_nat_alt unat_word_ariths)
qed

lemma slab_size_page:
  assumes "view_fits v"
  shows "(if memory_is_aligned (cv_stride v) PAGE_SIZE then cv_stride v else memory_align (cv_stride v) PAGE_SIZE True) = PAGE_SIZE"
proof -
  have "cap (cv_stride v) * unat (cv_stride v) \<le> 4032" "0 < cap (cv_stride v)" using view_fitsD(6,7) [OF assms] by linarith+
  then have "unat (cv_stride v) \<le> 4032" by (metis dual_order.trans mult_le_mono1 nat_mult_1 Suc_leI One_nat_def)
  then have z: "cv_stride v < 4096" by (simp add: word_less_nat_alt)
  then have "unat (cv_stride v) div 4096 = 0" "unat (cv_stride v) mod 4096 = unat (cv_stride v)" by (simp_all add: word_less_nat_alt)
  then have "cv_stride v div 4096 = 0" "cv_stride v mod 4096 = cv_stride v"
    by (simp_all add: word_unat_eq_iff unat_div unat_mod)
  then show ?thesis using view_fitsD(3) [OF assms] by (simp add: memory_is_aligned_def memory_align_def PAGE_SIZE_def)
qed

lemma room_left:
  assumes "view_fits v" and "rstart r = cv_start v" "rsize r = room_for v" and "n < cv_room v"
  shows "region_end r \<le> at_byte (cv_start v) n 0 + PAGE_SIZE \<longleftrightarrow> cv_room v = Suc n"
    and "at_byte (cv_start v) n 0 + PAGE_SIZE = at_byte (cv_start v) (Suc n) 0"
    and "at_byte (cv_start v) n 0 < at_byte (cv_start v) n 0 + PAGE_SIZE"
proof -
  have b: "unat (cv_start v) + 4096 * cv_room v < 2 ^ 64" using assms(1) by (simp add: view_fits_def)
  have rm: "unat (room_for v) = 4096 * cv_room v" using offset_unat [of 0 "4096 * cv_room v"] b by simp
  have "unat ((- 1) - room_for v) = 2 ^ 64 - 1 - 4096 * cv_room v" using rm by (subst unat_sub) (simp_all add: unsigned_minus_1_eq_mask mask_eq_exp_minus_1)
  then have "\<not> cv_start v > (- 1) - room_for v" using b by (simp add: word_less_nat_alt)
  then have "region_end r = cv_start v + room_for v" using assms(2,3) by (simp add: region_end_def)
  then have e: "unat (region_end r) = unat (cv_start v) + 4096 * cv_room v" using offset_unat [OF b] by simp
  show s: "at_byte (cv_start v) n 0 + PAGE_SIZE = at_byte (cv_start v) (Suc n) 0" by (simp add: at_byte_def PAGE_SIZE_def algebra_simps)
  have "4096 * Suc n \<le> 4096 * cv_room v" using assms(4) by simp
  then have n1: "unat (cv_start v) + 4096 * Suc n < 2 ^ 64" using b by (simp add: order_le_less_trans)
  have "4096 * n \<le> 4096 * Suc n" by simp
  then have n1: "unat (cv_start v) + 4096 * Suc n < 2 ^ 64" "unat (cv_start v) + 4096 * n < 2 ^ 64"
    using n1 by (simp_all add: order_le_less_trans)
  have u: "unat (at_byte (cv_start v) (Suc n) 0) = unat (cv_start v) + 4096 * Suc n" "unat (at_byte (cv_start v) n 0) = unat (cv_start v) + 4096 * n"
    using offset_unat [OF n1(1)] offset_unat [OF n1(2)] by (simp_all add: at_byte_def)
  show "region_end r \<le> at_byte (cv_start v) n 0 + PAGE_SIZE \<longleftrightarrow> cv_room v = Suc n"
    unfolding s word_le_nat_alt e u(1) using assms(4) by auto
  show "at_byte (cv_start v) n 0 < at_byte (cv_start v) n 0 + PAGE_SIZE" unfolding s word_less_nat_alt u by simp
qed

definition grown :: "cache_view \<Rightarrow> cache_view" where
  "grown v = v\<lparr>cv_pages := Suc (cv_pages v), cv_free := (cv_free v)(cv_pages v := [0..<cap (cv_stride v)]),
     cv_lists := (cv_lists v)(Empty_List := cv_lists v Empty_List @ [cv_pages v])\<rparr>"

lemma grown_lists: "view_fits v \<Longrightarrow> view_lists v \<Longrightarrow> view_lists (grown v)"
proof -
  assume f: "view_fits v" and l: "view_lists v"
  have l: "distinct (cv_lists v w)" "set (cv_lists v w) = {k. k < cv_pages v \<and> filed_under (cv_stride v) (cv_free v k) = w}" for w
    using l unfolding view_lists_def by blast+
  have e: "filed_under (cv_stride v) [0..<cap (cv_stride v)] = Empty_List"
    using view_fitsD(6) [OF f] by (simp add: filed_under_def)
  show "view_lists (grown v)"
    unfolding view_lists_def grown_def using l e by (auto simp: less_Suc_eq)
qed

lemma map_one_page:
  "page < page + PAGE_SIZE \<Longrightarrow> map_pages ops flags page (page + PAGE_SIZE) v =
    (case vm_allocate ops v page flags of None \<Rightarrow> None | Some (v, ok) \<Rightarrow> Some (v, if ok then None else Some page))"
  by (subst map_pages.simps, subst map_pages.simps) (simp split: option.splits)

lemma unmap_no_page: "unmap_pages ops stop page page v = Some v"
  by (subst unmap_pages.simps) simp

lemma grow_run:
  assumes ok: "cache_ok h c v"
  shows "cv_room v = Suc (cv_pages v) \<Longrightarrow> grow ops alloc c h = Some (h, False)"
    and "cv_room v \<noteq> Suc (cv_pages v) \<Longrightarrow> grow ops alloc c h =
      (case vm_allocate ops (vm h) (at_byte (cv_start v) (cv_pages v) 0) (oc_flags (caches h c)) of
         None \<Rightarrow> None
       | Some (m, False) \<Rightarrow> Some (h\<lparr>vm := m\<rparr>, False)
       | Some (m, True) \<Rightarrow>
           (case create_on_slab (cv_stride v) (at_byte (cv_start v) (cv_pages v) 0)
                   (upd_cache c (\<lambda>oc. oc\<lparr>oc_limit := oc_limit oc + PAGE_SIZE\<rparr>) (h\<lparr>vm := m\<rparr>)) of
              None \<Rightarrow> None
            | Some (h, slab) \<Rightarrow>
                let (h, l) = insert_last (oc_empty (caches h c)) slab h
                in Some (upd_cache c (\<lambda>oc. oc\<lparr>oc_empty := l, oc_slab_count := oc_slab_count oc + 1\<rparr>) h, True)))"
proof -
  have v: "view_fits v" "view_head (caches h c) v" using ok by (simp_all add: cache_ok_def)
  have hd: "oc_free_pages (caches h c) = 0" "oc_limit (caches h c) = at_byte (cv_start v) (cv_pages v) 0" "oc_type (caches h c) = ON_SLAB"
    "rstart (oc_managed (caches h c)) = cv_start v" "rsize (oc_managed (caches h c)) = room_for v" "stride (caches h c) = cv_stride v"
    using v(2) by (simp_all add: view_head_def)
  have n: "cv_pages v < cv_room v" using v(1) by (simp add: view_fits_def)
  note room = room_left [OF v(1) hd(4,5) n]
  note st = hd(6) [unfolded stride_def]
  show "cv_room v = Suc (cv_pages v) \<Longrightarrow> grow ops alloc c h = Some (h, False)"
    unfolding grow_def Let_def st hd slab_size_page [OF v(1)] using room(1) by simp
  assume "cv_room v \<noteq> Suc (cv_pages v)"
  then have nr: "\<not> region_end (oc_managed (caches h c)) \<le> at_byte (cv_start v) (cv_pages v) 0 + PAGE_SIZE" using room(1) by simp
  show "grow ops alloc c h =
      (case vm_allocate ops (vm h) (at_byte (cv_start v) (cv_pages v) 0) (oc_flags (caches h c)) of
         None \<Rightarrow> None
       | Some (m, False) \<Rightarrow> Some (h\<lparr>vm := m\<rparr>, False)
       | Some (m, True) \<Rightarrow>
           (case create_on_slab (cv_stride v) (at_byte (cv_start v) (cv_pages v) 0)
                   (upd_cache c (\<lambda>oc. oc\<lparr>oc_limit := oc_limit oc + PAGE_SIZE\<rparr>) (h\<lparr>vm := m\<rparr>)) of
              None \<Rightarrow> None
            | Some (h, slab) \<Rightarrow>
                let (h, l) = insert_last (oc_empty (caches h c)) slab h
                in Some (upd_cache c (\<lambda>oc. oc\<lparr>oc_empty := l, oc_slab_count := oc_slab_count oc + 1\<rparr>) h, True)))"
    unfolding grow_def Let_def st hd slab_size_page [OF v(1)]
    using nr by (auto simp: map_one_page [OF room(3)] unmap_no_page split: option.splits bool.splits prod.splits)
qed

lemma page_bytes_own: "view_fits v \<Longrightarrow> page_bytes (cv_start v) (cv_pages v) \<subseteq> view_own v"
  unfolding page_bytes_def view_own_def view_fits_def by blast

lemma grown_simps [simp]:
  "cv_start (grown v) = cv_start v" "cv_room (grown v) = cv_room v" "cv_stride (grown v) = cv_stride v"
  "cv_pages (grown v) = Suc (cv_pages v)" "view_region (grown v) = view_region v"
  by (simp_all add: grown_def view_region_def)

lemma grow_ok:
  assumes ok: "cache_ok h c v" and more: "cv_room v \<noteq> Suc (cv_pages v)"
    and vm: "vm_allocate ops (vm h) (at_byte (cv_start v) (cv_pages v) 0) (oc_flags (caches h c)) = Some (m, True)"
  shows "\<exists>h'. grow ops alloc c h = Some (h', True) \<and> cache_ok h' c (grown v) \<and> changes_only (view_own v) {c} h h' \<and> vm h' = m"
proof -
  have v: "view_fits v" "view_lists v" "view_head (caches h c) v" "view_rings (slabs h) (caches h c) v" "c \<noteq> Null_Cache"
    "c \<notin> Cache_At ` view_region v" using ok by (simp_all add: cache_ok_def)
  let ?n = "cv_pages v" let ?s = "cv_start v" let ?z = "cv_stride v"
  have n: "?n < cv_room v" "Suc ?n < cv_room v" using v(1) more by (auto simp: view_fits_def)
  have fg: "view_fits (grown v)" using v(1) n(2) by (simp add: view_fits_def)
  have c255: "cap ?z \<le> 255" by (rule view_fitsD(5) [OF v(1)])
  define h0 where "h0 = upd_cache c (\<lambda>oc. oc\<lparr>oc_limit := oc_limit oc + PAGE_SIZE\<rparr>) (h\<lparr>vm := m\<rparr>)"
  obtain h1 where h1: "create_on_slab ?z (at_byte ?s ?n 0) h0 = Some (h1, slab_at v ?n)" "slab_ok h1 ?z ?s ?n [0..<cap ?z]"
    "changes_only (page_bytes ?s ?n) {} h0 h1" "vm h1 = vm h0"
    using create_on_slab_page [OF view_fitsD(1) [OF v(1)] n(1)] by blast
  have h0: "slabs h0 = slabs h" "bytes h0 = bytes h" "vm h0 = m" "caches h0 = (caches h)(c := (caches h c)\<lparr>oc_limit := oc_limit (caches h c) + PAGE_SIZE\<rparr>)"
    by (simp_all add: h0_def upd_cache_def)
  have s0: "same_at a h h0" for a by (simp add: h0_def upd_cache_def same_at_def)
  note own = page_bytes_own [OF v(1)]
  have own_region: "view_own v \<subseteq> view_region v" unfolding view_own_def view_region_def by blast
  have "c \<notin> Cache_At ` page_bytes ?s ?n" using own own_region v(6) by blast
  then have "caches h1 c = caches h0 c" using h1(3) unfolding changes_only_def by blast
  then have c1: "caches h1 c = (caches h c)\<lparr>oc_limit := oc_limit (caches h c) + PAGE_SIZE\<rparr>" by (simp add: h0(4))
  have page: "same_at a h h1" if "a \<notin> {at_byte ?s ?n j |j. j < 4096}" for a
    using h1(3) s0 [of a] that unfolding changes_only_def page_bytes_def same_at_def by auto
  have other: "slab_ok h1 ?z ?s k fl = slab_ok h ?z ?s k fl" if "k < ?n" for k fl
    using slab_other [OF fg, of ?n k h h1 ?z] page c255 that by simp
  have slab_same: "slabs h1 (slab_at v k) = slabs h (slab_at v k)" if "k < ?n" for k
  proof -
    have "slab_at v k \<notin> {at_byte ?s ?n j |j. j < 4096}"
      using at_byte_eq [OF view_fitsD(2) [OF v(1)] _ _ n(1), of k 4032] that n(1) by auto
    then show ?thesis using page by (simp add: same_at_def)
  qed
  have sub: "set (cv_lists v w) \<subseteq> {..<?n}" for w using v(2) unfolding view_lists_def by auto
  have r1: "ring (slabs h1) (head_of w (caches h c)) (map (slab_at v) (cv_lists v w))" for w
    by (rule ring_apart [where S = "slabs h"]) (use v(4) slab_same sub in \<open>auto simp: view_rings_def\<close>)
  have new: "slab_at v ?n \<notin> set (map (slab_at v) (cv_lists v w))" for w
  proof
    assume "slab_at v ?n \<in> set (map (slab_at v) (cv_lists v w))"
    then obtain k where "k \<in> set (cv_lists v w)" "slab_at v ?n = slab_at v k" by auto
    then show False using slab_at_eq [OF fg, of ?n k] sub [of w] by fastforce
  qed
  have nz: "slab_at v ?n \<noteq> 0" using slab_nonzero [OF fg, of ?n] by simp
  let ?E = "map (slab_at v) (cv_lists v Empty_List)" let ?l = "hd (?E @ [slab_at v ?n])"
  obtain h2 where h2: "insert_last (oc_empty (caches h1 c)) (slab_at v ?n) h1 = (h2, ?l)" "ring (slabs h2) ?l (?E @ [slab_at v ?n])"
    "links_only (insert (slab_at v ?n) (set ?E)) h1 h2"
    using insert_last_ring [OF r1 [of Empty_List] new nz] c1 by auto
  note lo = links_only_fields [OF h2(3)]
  define h3 where "h3 = upd_cache c (\<lambda>oc. oc\<lparr>oc_empty := ?l, oc_slab_count := oc_slab_count oc + 1\<rparr>) h2"
  have h3: "slabs h3 = slabs h2" "bytes h3 = bytes h2" "vm h3 = vm h2"
    "caches h3 = (caches h2)(c := (caches h2 c)\<lparr>oc_empty := ?l, oc_slab_count := oc_slab_count (caches h2 c) + 1\<rparr>)"
    by (simp_all add: h3_def upd_cache_def)
  have c3: "caches h3 c = (caches h c)\<lparr>oc_limit := oc_limit (caches h c) + PAGE_SIZE, oc_empty := ?l,
      oc_slab_count := oc_slab_count (caches h c) + 1\<rparr>" using h3(4) lo(8) c1 by simp
  have run: "grow ops alloc c h = Some (h3, True)"
    unfolding grow_run(2) [OF ok more] vm using h1(1) h2(1) by (simp add: h0_def h3_def)
  have so: "slab_ok h3 ?z ?s k fl = slab_ok h1 ?z ?s k fl" for k fl
    using h2(3) lo(7) h3(1,2) c255 by (intro slab_ok_same) (simp_all add: links_only_def)
  have "view_slabs h3 (grown v)"
    using so other h1(2) slab_okD [OF ok] by (auto simp: view_slabs_def grown_def less_Suc_eq)
  moreover have "stride (caches h3 c) = stride (caches h c)" by (simp add: stride_def c3)
  then have "view_head (caches h3 c) (grown v)"
    using v(3) room_left(2) [OF v(1) _ _ n(1), of "oc_managed (caches h c)"] unfolding view_head_def by (simp add: c3)
  moreover have "view_rings (slabs h3) (caches h3 c) (grown v)"
    unfolding view_rings_def
  proof
    fix w
    have dis: "a \<notin> insert (slab_at v ?n) (set ?E)" if aw: "a \<in> set (map (slab_at v) (cv_lists v w))" "w \<noteq> Empty_List" for a
    proof -
      obtain k where k: "k \<in> set (cv_lists v w)" "a = slab_at v k" using aw(1) by auto
      have "k \<notin> set (cv_lists v Empty_List)" using k(1) aw(2) v(2) unfolding view_lists_def by auto
      have kn: "k < ?n" using k(1) sub [of w] by blast
      have "slab_at v k \<noteq> slab_at v j" if "j \<le> ?n" "j \<noteq> k" for j
        using slab_at_eq [OF fg, of k j] kn that by simp
      moreover have "j \<le> ?n \<and> j \<noteq> k" if "j \<in> set (cv_lists v Empty_List)" for j
        using that sub [of Empty_List] \<open>k \<notin> set (cv_lists v Empty_List)\<close> by (metis lessThan_iff less_imp_le subsetD)
      ultimately have "slab_at v k \<noteq> slab_at v ?n" "slab_at v k \<notin> slab_at v ` set (cv_lists v Empty_List)" using kn by auto
      then show ?thesis using k(2) by simp
    qed
    show "ring (slabs h3) (head_of w (caches h3 c)) (map (slab_at (grown v)) (cv_lists (grown v) w))"
    proof (cases "w = Empty_List")
      case True
      then show ?thesis using h2(2) h3(1) c3 by (simp add: grown_def)
    next
      case False
      then have "head_of w (caches h3 c) = head_of w (caches h c)" unfolding c3 by (cases w) simp_all
      moreover have "ring (slabs h3) (head_of w (caches h c)) (map (slab_at v) (cv_lists v w))"
        unfolding h3(1) using dis [OF _ False] by (intro ring_apart [OF r1]) (rule lo(1))
      ultimately show ?thesis using False by (simp add: grown_def)
    qed
  qed
  ultimately have "cache_ok h3 c (grown v)" using v fg grown_lists [OF v(1,2)] by (simp add: cache_ok_def)
  moreover have "changes_only (view_own v) {c} h h3"
    unfolding changes_only_def
  proof (intro conjI allI impI)
    fix a assume a: "a \<notin> view_own v"
    have "slab_at v k \<in> view_own v" if "k \<le> ?n" for k
      using that slab_in_own [OF v(1), of k] own unfolding page_bytes_def by (cases "k = ?n") auto
    then have "a \<notin> insert (slab_at v ?n) (set ?E)" using a sub [of Empty_List] by auto
    then have "slabs h3 a = slabs h1 a" using lo(1) h3(1) by simp
    moreover have "same_at a h h1" using page a own unfolding page_bytes_def by blast
    ultimately show "same_at a h h3" using lo by (simp add: same_at_def h3_def upd_cache_def)
  next
    fix c' assume c': "c' \<notin> {c} \<and> c' \<notin> Cache_At ` view_own v"
    then have "caches h1 c' = caches h0 c'" using h1(3) own unfolding changes_only_def by blast
    then show "caches h3 c' = caches h c'" using c' h0(4) h3(4) lo(8) by simp
  qed
  ultimately show ?thesis using run h3(3) lo(9) h1(4) h0(3) by auto
qed

section \<open>Allocation\<close>

lemma live_grown:
  assumes "view_fits v"
  shows "view_live (grown v) = view_live v"
proof -
  have "view_live (grown v) = {at_byte (cv_start v) k (i * unat (cv_stride v)) |k i. k < Suc (cv_pages v) \<and> i < cap (cv_stride v) \<and>
      i \<notin> set (((cv_free v)(cv_pages v := [0..<cap (cv_stride v)])) k)}"
    unfolding view_live_def grown_simps by (simp add: grown_def)
  also have "\<dots> = view_live v"
    unfolding view_live_def by (intro Collect_cong ex_cong1) (auto simp: less_Suc_eq)
  finally show ?thesis .
qed

lemma own_grown: "view_own (grown v) \<subseteq> view_own v"
  unfolding view_own_def grown_simps using less_SucI by blast

lemma own_fields [simp]: "view_own (v\<lparr>cv_free := f, cv_lists := L\<rparr>) = view_own v" "view_fits (v\<lparr>cv_free := f, cv_lists := L\<rparr>) = view_fits v"
  by (simp_all add: view_own_def view_fits_def)

text \<open>Taking object \<open>i\<close> of page \<open>k\<close>.\<close>

lemma live_taken:
  assumes "view_fits v" and k: "k < cv_pages v" and fl: "cv_free v k = i # is" and i: "i < cap (cv_stride v)" "i \<notin> set is"
  shows "view_live (v\<lparr>cv_free := (cv_free v)(k := is), cv_lists := L\<rparr>) =
      insert (at_byte (cv_start v) k (i * unat (cv_stride v))) (view_live v)"
    and "at_byte (cv_start v) k (i * unat (cv_stride v)) \<notin> view_live v"
proof -
  have "view_live (v\<lparr>cv_free := (cv_free v)(k := is), cv_lists := L\<rparr>) =
      {at_byte (cv_start v) k' (j * unat (cv_stride v)) |k' j. k' < cv_pages v \<and> j < cap (cv_stride v) \<and>
        j \<notin> set (((cv_free v)(k := is)) k')}" unfolding view_live_def by simp
  also have "\<dots> = {at_byte (cv_start v) k' (j * unat (cv_stride v)) |k' j. k' = k \<and> j = i \<or>
      k' < cv_pages v \<and> j < cap (cv_stride v) \<and> j \<notin> set (cv_free v k')}"
    using k fl i by (intro Collect_cong ex_cong1) (auto split: if_splits)
  also have "\<dots> = insert (at_byte (cv_start v) k (i * unat (cv_stride v))) (view_live v)" unfolding view_live_def by auto
  finally show "view_live (v\<lparr>cv_free := (cv_free v)(k := is), cv_lists := L\<rparr>) =
      insert (at_byte (cv_start v) k (i * unat (cv_stride v))) (view_live v)" .
  show "at_byte (cv_start v) k (i * unat (cv_stride v)) \<notin> view_live v"
  proof
    assume "at_byte (cv_start v) k (i * unat (cv_stride v)) \<in> view_live v"
    then obtain k' j where j: "at_byte (cv_start v) k (i * unat (cv_stride v)) = at_byte (cv_start v) k' (j * unat (cv_stride v))"
      "k' < cv_pages v" "j < cap (cv_stride v)" "j \<notin> set (cv_free v k')" unfolding view_live_def by blast
    then have "k = k' \<and> i = j"
      using live_address_eq [OF assms(1) view_fitsD(8) [OF assms(1) k] i(1) view_fitsD(8) [OF assms(1) j(2)] j(3)] by simp
    then show False using j(4) fl by simp
  qed
qed

lemma live_returned:
  assumes "view_fits v" and k: "k < cv_pages v" and i: "i < cap (cv_stride v)" "i \<notin> set (cv_free v k)"
  shows "view_live (v\<lparr>cv_free := (cv_free v)(k := i # cv_free v k), cv_lists := L\<rparr>) =
      view_live v - {at_byte (cv_start v) k (i * unat (cv_stride v))}"
proof -
  let ?v = "v\<lparr>cv_free := (cv_free v)(k := i # cv_free v k), cv_lists := L\<rparr>"
  let ?w = "?v\<lparr>cv_free := (cv_free ?v)(k := cv_free v k), cv_lists := cv_lists v\<rparr>"
  have w: "?w = v" by simp
  show ?thesis
    using live_taken(1) [of ?v k i "cv_free v k" "cv_lists v"] live_taken(2) [of ?v k i "cv_free v k"] assms unfolding w by simp
qed

text \<open>Without a slab to allocate from every object is in use; with one the virtual memory manager is not asked.\<close>

lemma no_slab_full:
  assumes ok: "cache_ok h c v" and none: "alloc_slab_of c h = 0" and k: "k < cv_pages v"
  shows "cv_free v k = []"
proof -
  have v: "view_fits v" using ok by (simp add: cache_ok_def)
  have "(if cv_lists v w = [] then 0 else slab_at v (hd (cv_lists v w))) \<noteq> 0 \<longleftrightarrow> cv_lists v w \<noteq> []" for w
    using slab_nonzero [OF v] lists_pages(1) [OF ok, of "hd (cv_lists v w)" w] by simp
  from this [of Partial_List] this [of Empty_List] have e: "cv_lists v Partial_List = []" "cv_lists v Empty_List = []"
    using none list_heads [OF ok, of Partial_List, simplified head_of.simps] list_heads [OF ok, of Empty_List, simplified head_of.simps]
    unfolding alloc_slab_of_def by (auto split: if_splits)
  have "k \<in> set (cv_lists v (filed_under (cv_stride v) (cv_free v k)))" using ok k by (auto simp: cache_ok_def view_lists_def)
  then have "filed_under (cv_stride v) (cv_free v k) = Full_List" using e by (cases "filed_under (cv_stride v) (cv_free v k)") auto
  then show ?thesis by (simp add: filed_under_cases)
qed

lemma allocates_from_slab:
  assumes ok: "cache_ok h c v" and some: "alloc_slab_of c h \<noteq> 0"
  shows "cache_allocate ops (Suc fuel) c h = take_object c h"
proof -
  have v: "view_fits v" "c \<noteq> Null_Cache" using ok by (simp_all add: cache_ok_def)
  note hd1 = list_heads [OF ok, of Partial_List, simplified head_of.simps] list_heads [OF ok, of Empty_List, simplified head_of.simps]
  have nonzero: "(if cv_lists v w = [] then 0 else slab_at v (hd (cv_lists v w))) \<noteq> 0 \<longleftrightarrow> cv_lists v w \<noteq> []" for w
    using slab_nonzero [OF v(1)] lists_pages(1) [OF ok, of "hd (cv_lists v w)" w] by simp
  define a where "a = (if cv_lists v Partial_List \<noteq> [] then Partial_List else Empty_List)"
  have slab: "alloc_slab_of c h = slab_at v (hd (cv_lists v a))" and ne: "cv_lists v a \<noteq> []"
    using some nonzero [of Partial_List] nonzero [of Empty_List] unfolding alloc_slab_of_def hd1 a_def by (auto split: if_splits)
  have k: "hd (cv_lists v a) < cv_pages v" "filed_under (cv_stride v) (cv_free v (hd (cv_lists v a))) = a"
    using lists_pages [OF ok, of "hd (cv_lists v a)" a] ne by simp_all
  have "a \<noteq> Full_List" by (simp add: a_def)
  then have "cv_free v (hd (cv_lists v a)) \<noteq> []" using k(2) filed_under_cases(2) by metis
  then have "s_allocated (slabs h (alloc_slab_of c h)) \<noteq> s_object_count (slabs h (alloc_slab_of c h))"
    using slab_counts(2) [OF slab_okD [OF ok k(1)] view_fitsD(5) [OF v(1)]] slab by simp
  then show ?thesis using some v(2) by (simp add: Let_def)
qed

lemma allocates_free_object:
  assumes ok: "cache_ok h c v" and k0: "k0 < cv_pages v" "cv_free v k0 \<noteq> []"
  shows "\<exists>h' k i is. cache_allocate ops (Suc fuel) c h = Some (h', at_byte (cv_start v) k (i * unat (cv_stride v))) \<and>
    k < cv_pages v \<and> cv_free v k = i # is \<and> vm h' = vm h \<and> at_byte (cv_start v) k (i * unat (cv_stride v)) \<noteq> 0 \<and>
    at_byte (cv_start v) k (i * unat (cv_stride v)) \<notin> view_live v"
proof -
  have v: "view_fits v" using ok by (simp add: cache_ok_def)
  have some: "alloc_slab_of c h \<noteq> 0" using no_slab_full [OF ok _ k0(1)] k0(2) by blast
  from take_object_takes [OF ok some] obtain h' k i "is"
    where t: "take_object c h = Some (h', at_byte (cv_start v) k (i * unat (cv_stride v)))" "k < cv_pages v"
      "cv_free v k = i # is" "vm h' = vm h" by blast
  have "slab_ok h (cv_stride v) (cv_start v) k (i # is)" using slab_okD [OF ok t(2)] t(3) by simp
  then have i: "i < cap (cv_stride v)" "i \<notin> set is" by (simp_all add: slab_ok_def Let_def)
  have "i * unat (cv_stride v) < 4096" using object_address(3) [OF view_fitsD(1) [OF v] i(1)] by linarith
  then have "at_byte (cv_start v) k (i * unat (cv_stride v)) \<noteq> 0"
    using at_byte_nonzero [OF view_fitsD(2) [OF v] view_fitsD(8) [OF v t(2)]] by blast
  then show ?thesis using t live_taken(2) [OF v t(2,3) i] allocates_from_slab [OF ok some, of ops fuel] by auto
qed

text \<open>
  What an allocation does: it runs out of memory, which is reported as a null pointer, or the virtual memory manager
  fails, or it gives an object that is not in use.
\<close>

lemma cache_allocate_cases:
  assumes ok: "cache_ok h c v"
  shows "cache_allocate ops (Suc fuel) c h = None \<and>
      vm_allocate ops (vm h) (at_byte (cv_start v) (cv_pages v) 0) (oc_flags (caches h c)) = None \<or>
    (\<exists>m. cache_allocate ops (Suc fuel) c h = Some (h\<lparr>vm := m\<rparr>, 0) \<and> (\<forall>k < cv_pages v. cv_free v k = []) \<and>
      (cv_room v = Suc (cv_pages v) \<or>
       vm_allocate ops (vm h) (at_byte (cv_start v) (cv_pages v) 0) (oc_flags (caches h c)) = Some (m, False))) \<or>
    (\<exists>h' obj v'. cache_allocate ops (Suc fuel) c h = Some (h', obj) \<and> obj \<noteq> 0 \<and> cache_ok h' c v' \<and>
      cv_start v' = cv_start v \<and> cv_room v' = cv_room v \<and> cv_stride v' = cv_stride v \<and>
      obj \<notin> view_live v \<and> view_live v' = insert obj (view_live v) \<and> view_own v' \<subseteq> view_own v \<and>
      changes_only (view_own v) {c} h h')"
proof -
  have v: "view_fits v" "c \<noteq> Null_Cache" using ok by (simp_all add: cache_ok_def)
  have take: "\<exists>h' obj v'. take_object c g = Some (h', obj) \<and> obj \<noteq> 0 \<and> cache_ok h' c v' \<and>
      cv_start v' = cv_start w \<and> cv_room v' = cv_room w \<and> cv_stride v' = cv_stride w \<and>
      obj \<notin> view_live w \<and> view_live v' = insert obj (view_live w) \<and> view_own v' \<subseteq> view_own w \<and> changes_only (view_own w) {c} g h'"
    if g: "cache_ok g c w" "alloc_slab_of c g \<noteq> 0" for g w
  proof -
    obtain h' k i "is" L where t: "take_object c g = Some (h', at_byte (cv_start w) k (i * unat (cv_stride w)))" "k < cv_pages w"
      "cv_free w k = i # is" "cache_ok h' c (w\<lparr>cv_free := (cv_free w)(k := is), cv_lists := L\<rparr>)" "changes_only (view_own w) {c} g h'"
      using take_object_takes [OF g] by blast
    have fw: "view_fits w" using g(1) by (simp add: cache_ok_def)
    have "slab_ok g (cv_stride w) (cv_start w) k (i # is)" using slab_okD [OF g(1) t(2)] t(3) by simp
    then have i: "i < cap (cv_stride w)" "i \<notin> set is" by (simp_all add: slab_ok_def Let_def)
    have "i * unat (cv_stride w) < 4096"
      using object_address(3) [OF view_fitsD(1) [OF fw] i(1)] by linarith
    then have "at_byte (cv_start w) k (i * unat (cv_stride w)) \<noteq> 0"
      using at_byte_nonzero [OF view_fitsD(2) [OF fw] view_fitsD(8) [OF fw t(2)]] by blast
    then show ?thesis using t live_taken(1) [OF fw t(2,3) i, of L] live_taken(2) [OF fw t(2,3) i]
      by (intro exI [of _ h'] exI [of _ "at_byte (cv_start w) k (i * unat (cv_stride w))"]
          exI [of _ "w\<lparr>cv_free := (cv_free w)(k := is), cv_lists := L\<rparr>"]) simp
  qed
  show ?thesis
  proof (cases "alloc_slab_of c h = 0")
    case False
    then show ?thesis using take [OF ok False] allocates_from_slab [OF ok False, of ops fuel] by auto
  next
    case True
    note full = no_slab_full [OF ok True]
    have run: "cache_allocate ops (Suc fuel) c h =
        (case grow ops (cache_allocate ops fuel) c h of None \<Rightarrow> None | Some (h, ok) \<Rightarrow> if ok then take_object c h else Some (h, 0))"
      using True v(2) by (simp add: Let_def)
    show ?thesis
    proof (cases "cv_room v = Suc (cv_pages v)")
      case True
      then have "cache_allocate ops (Suc fuel) c h = Some (h\<lparr>vm := vm h\<rparr>, 0)" unfolding run using grow_run(1) [OF ok] by simp
      then show ?thesis using full True by blast
    next
      case more: False
      note g = grow_run(2) [OF ok more, of ops "cache_allocate ops fuel"]
      let ?r = "vm_allocate ops (vm h) (at_byte (cv_start v) (cv_pages v) 0) (oc_flags (caches h c))"
      consider (none) "?r = None" | (refused) m where "?r = Some (m, False)" | (mapped) m where "?r = Some (m, True)"
        by (metis (full_types) option.exhaust surj_pair)
      then show ?thesis
      proof cases
        case none
        then show ?thesis unfolding run g by simp
      next
        case refused
        then have "cache_allocate ops (Suc fuel) c h = Some (h\<lparr>vm := m\<rparr>, 0)" unfolding run g by simp
        then show ?thesis using full refused by blast
      next
        case mapped
        obtain h1 where h1: "grow ops (cache_allocate ops fuel) c h = Some (h1, True)" "cache_ok h1 c (grown v)" "changes_only (view_own v) {c} h h1"
          using grow_ok [OF ok more mapped] by blast
        have "cv_lists (grown v) Empty_List \<noteq> []" by (simp add: grown_def)
        then have "oc_empty (caches h1 c) \<noteq> 0"
          using list_heads [OF h1(2), of Empty_List] lists_pages(1) [OF h1(2), of "hd (cv_lists (grown v) Empty_List)" Empty_List]
            slab_nonzero [of "grown v"] h1(2) by (simp add: cache_ok_def)
        then have "alloc_slab_of c h1 \<noteq> 0" by (simp add: alloc_slab_of_def)
        from take [OF h1(2) this] obtain h' obj v' where t: "take_object c h1 = Some (h', obj)" "obj \<noteq> 0" "cache_ok h' c v'"
          "cv_start v' = cv_start v" "cv_room v' = cv_room v" "cv_stride v' = cv_stride v"
          "obj \<notin> view_live v" "view_live v' = insert obj (view_live v)" "view_own v' \<subseteq> view_own (grown v)" "changes_only (view_own (grown v)) {c} h1 h'"
          using live_grown [OF v(1)] by auto
        have "view_own v' \<subseteq> view_own v" using t(9) own_grown [of v] by blast
        moreover have "changes_only (view_own v) {c} h h'"
          using changes_only_trans [OF h1(3)] changes_only_mono [OF t(10) own_grown [of v] order_refl] by blast
        moreover have "cache_allocate ops (Suc fuel) c h = Some (h', obj)" unfolding run h1(1) using t(1) by simp
        ultimately show ?thesis using t(2-8) by blast
      qed
    qed
  qed
qed

end
