(* ===== verification/Slab_Heap.thy ===== *)
theory Slab_Heap
  imports Slab_Objects
begin

text \<open>
  The contract of an object cache that keeps its data on the slabs, over every sequence of its operations: the
  objects in use are different, disjoint blocks of the managed region, an allocation gives a new one and leaves the
  others alone, and memory runs out only behind the last page but one. The size classes of the allocator follow.
\<close>

section \<open>A new cache\<close>

lemma capacity_positive:
  assumes "z \<noteq> 0" and "unat z < 4032"
  shows "slab_capacity z \<noteq> 0"
proof
  assume c: "slab_capacity z = 0"
  let ?z = "unat z" let ?o = "min (4032 div ?z) 255"
  define w where "w = min_of (4032 div z) MAX_OBJECT_COUNT"
  have d: "unat (4032 div z) = 4032 div ?z" by (simp add: unat_div)
  have w: "unat w = ?o" using d by (auto simp: w_def min_of_def MAX_OBJECT_COUNT_def word_less_nat_alt)
  have z0: "0 < ?z" using assms(1) by (simp add: unat_gt_0)
  have o1: "1 \<le> ?o" using z0 assms(2) by (simp add: div_greater_zero_iff Suc_le_eq)
  have oz: "?o * ?z \<le> 4032" by (meson div_times_less_eq_dividend le_trans min.cobounded1 mult_le_mono1)
  have wz: "unat (w * z) = ?o * ?z" using oz w by (simp add: unat_word_ariths)
  have sub: "unat (4032 - w * z) = 4032 - ?o * ?z" using wz oz by (subst unat_sub) (simp_all add: word_le_nat_alt)
  have sub2: "unat (4032 - w) = 4032 - ?o" using w by (subst unat_sub) (simp_all add: word_le_nat_alt)
  have cap: "slab_capacity z = (if w > 4032 - w * z then (4032 - w) div z else w)"
    by (simp add: slab_capacity_def PAGE_SIZE_def SLAB_SIZE_def w_def Let_def)
  have "4032 - ?o * ?z < ?o" "(4032 - ?o) div ?z = 0"
  proof -
    have "w \<noteq> 0" using w o1 by auto
    then have big: "w > 4032 - w * z" "(4032 - w) div z = 0" using c cap by (auto split: if_splits)
    then show "4032 - ?o * ?z < ?o" using w sub by (simp add: word_less_nat_alt)
    have "unat ((4032 - w) div z) = 0" using big(2) by simp
    then show "(4032 - ?o) div ?z = 0" by (simp add: unat_div sub2)
  qed
  then have lt: "4032 - ?o < ?z" "4032 - ?o * ?z < ?o" using z0 by (simp_all add: div_eq_0_iff)
  show False
  proof (cases "?o = 1")
    case True
    then show ?thesis using lt(2) assms(2) by simp
  next
    case False
    then have "2 * ?z \<le> ?o * ?z" using o1 by (intro mult_le_mono1) linarith
    moreover have "?o \<le> 255" by simp
    ultimately show ?thesis using lt(1) oz by linarith
  qed
qed

lemma stride_bounds:
  assumes "oc_size oc \<noteq> 0" "oc_size oc < 512" "oc_align oc = 0 \<or> oc_align oc < 4032"
  shows "unat (stride oc) < 4032" and "unat (oc_size oc) \<le> unat (stride oc)" and "oc_align oc \<noteq> 0 \<Longrightarrow> unat (oc_align oc) dvd unat (stride oc)"
proof -
  let ?s = "unat (oc_size oc)" let ?a = "unat (oc_align oc)"
  have s: "0 < ?s" "?s < 512" using assms(1,2) by (simp_all add: unat_gt_0 word_less_nat_alt)
  have "unat (stride oc) < 4032 \<and> ?s \<le> unat (stride oc) \<and> (oc_align oc \<noteq> 0 \<longrightarrow> ?a dvd unat (stride oc))"
  proof (cases "oc_align oc = 0")
    case True
    then show ?thesis using s by (simp add: stride_def)
  next
    case False
    then have a: "0 < ?a" "?a < 4032" using assms(3) by (simp_all add: unat_gt_0 word_less_nat_alt)
    let ?q = "(?s - 1) div ?a"
    have s1: "unat (oc_size oc - 1) = ?s - 1" using s by (subst unat_sub) (simp_all add: word_le_nat_alt)
    have "?q \<le> ?s - 1" by simp
    then have "?q < 18446744073709551616" "Suc ?q < 18446744073709551616" using s by linarith+
    then have q: "unat ((oc_size oc - 1) div oc_align oc + 1) = ?q + 1" using s s1 by (simp add: unat_word_ariths unat_div)
    have m: "?a * ?q \<le> ?s - 1" "?s - 1 < ?a * ?q + ?a" 
      using mult_div_mod_eq [of ?a "?s - 1"] mod_less_divisor [OF a(1), of "?s - 1"] by linarith+
    have lt: "?a * (?q + 1) < 4032"
    proof (cases "?a \<le> ?s")
      case True
      have "?a * (?q + 1) = ?a * ?q + ?a" by simp
      then show ?thesis using m(1) s True by linarith
    next
      case False
      then have "?q = 0" by simp
      then show ?thesis using a by simp
    qed
    then have "unat (stride oc) = ?a * (?q + 1)" using False q by (simp add: stride_def unat_word_ariths)
    then show ?thesis using lt m s by (simp add: algebra_simps)
  qed
  then show "unat (stride oc) < 4032" "?s \<le> unat (stride oc)" "oc_align oc \<noteq> 0 \<Longrightarrow> ?a dvd unat (stride oc)" by blast+
qed

text \<open>The bytes of a region, and what a cache needs of the region that it is given.\<close>

definition managed_bytes :: "memory_region \<Rightarrow> u64 set" where
  "managed_bytes r = {a. a - rstart r < rsize r}"

definition usable_region :: "memory_region \<Rightarrow> bool" where
  "usable_region r \<longleftrightarrow> rstart r \<noteq> 0 \<and> rsize r \<noteq> 0 \<and> 4096 dvd unat (rstart r) \<and> 4096 dvd unat (rsize r) \<and>
     unat (rstart r) + unat (rsize r) < 2 ^ 64"

definition no_slabs :: "object_cache \<Rightarrow> bool" where
  "no_slabs oc \<longleftrightarrow> oc_full oc = 0 \<and> oc_partial oc = 0 \<and> oc_empty oc = 0 \<and> oc_free_pages oc = 0"

definition small_object :: "u64 \<Rightarrow> u64 \<Rightarrow> bool" where
  "small_object object_size align \<longleftrightarrow> object_size \<noteq> 0 \<and> object_size < 512 \<and> align AND (align - 1) = 0 \<and> align < 4032"

definition new_view :: "memory_region \<Rightarrow> u64 \<Rightarrow> cache_view" where
  "new_view r z = \<lparr>cv_start = rstart r, cv_room = unat (rsize r) div 4096, cv_stride = z, cv_pages = 0, cv_free = (\<lambda>_. []), cv_lists = (\<lambda>_. [])\<rparr>"

lemma managed_region:
  assumes "usable_region r"
  shows "managed_bytes r = {at_byte (rstart r) k j |k j. k < unat (rsize r) div 4096 \<and> j < 4096}"
proof (intro equalityI subsetI)
  fix a assume "a \<in> managed_bytes r"
  then have "unat (a - rstart r) < unat (rsize r)" by (simp add: managed_bytes_def word_less_nat_alt)
  then have "unat (a - rstart r) div 4096 < unat (rsize r) div 4096"
    using assms by (auto simp: usable_region_def less_mult_imp_div_less elim!: dvdE)
  moreover have "a = at_byte (rstart r) (unat (a - rstart r) div 4096) (unat (a - rstart r) mod 4096)"
    by (simp add: at_byte_def del: of_nat_add of_nat_mult)
  ultimately show "a \<in> {at_byte (rstart r) k j |k j. k < unat (rsize r) div 4096 \<and> j < 4096}" by force
next
  fix a assume "a \<in> {at_byte (rstart r) k j |k j. k < unat (rsize r) div 4096 \<and> j < 4096}"
  then obtain k j where kj: "a = at_byte (rstart r) k j" "k < unat (rsize r) div 4096" "j < 4096" by blast
  have "4096 * k + j < 4096 * (unat (rsize r) div 4096)" using kj(2,3) by simp
  also have "\<dots> \<le> unat (rsize r)" by simp
  finally have b: "4096 * k + j < unat (rsize r)" .
  moreover have "unat (rsize r) < 18446744073709551616" using unsigned_less [of "rsize r"] by simp
  ultimately have "4096 * k + j < 18446744073709551616" by (rule order.strict_trans)
  then have "unat (of_nat (4096 * k + j) :: u64) = 4096 * k + j"
    unfolding unat_of_nat by simp
  then show "a \<in> managed_bytes r" using b kj(1) by (simp add: managed_bytes_def at_byte_def word_less_nat_alt del: of_nat_add of_nat_mult)
qed

lemma view_region_new: "usable_region r \<Longrightarrow> view_region (new_view r z) = managed_bytes r"
  by (simp add: managed_region view_region_def new_view_def)

lemma init_cache_object_run:
  assumes "small_object object_size align"
  shows "init_cache_object c r nc flags onc map_ptr object_size align sc h =
    (upd_cache c (\<lambda>oc. oc\<lparr>oc_node_cache := nc, oc_managed := r, oc_limit := rstart r, oc_flags := flags, oc_obj_nodes := onc,
       oc_map := map_ptr, oc_size := object_size, oc_align := align, oc_slab_cache := sc, oc_type := ON_SLAB\<rparr>) h, 0)"
  using assms by (simp add: init_cache_object_def small_object_def PAGE_SIZE_def)

definition block_size :: "u64 \<Rightarrow> u64 \<Rightarrow> u64" where
  "block_size object_size align = (if align = 0 then object_size else align * ((object_size - 1) div align + 1))"

lemma block_size_bounds:
  assumes "small_object object_size align"
  shows "unat (block_size object_size align) < 4032" and "unat object_size \<le> unat (block_size object_size align)"
    and "block_size object_size align \<noteq> 0" and "align \<noteq> 0 \<Longrightarrow> unat align dvd unat (block_size object_size align)"
    and "slab_capacity (block_size object_size align) \<noteq> 0"
proof -
  let ?oc = "zero_cache\<lparr>oc_size := object_size, oc_align := align\<rparr>"
  have s: "stride ?oc = block_size object_size align" by (simp add: stride_def block_size_def)
  have f: "oc_size ?oc \<noteq> 0" "oc_size ?oc < 512" "oc_align ?oc = 0 \<or> oc_align ?oc < 4032" using assms by (simp_all add: small_object_def)
  note b = stride_bounds [OF f, unfolded s]
  show 1: "unat (block_size object_size align) < 4032" "unat object_size \<le> unat (block_size object_size align)" using b(1,2) by simp_all
  show "align \<noteq> 0 \<Longrightarrow> unat align dvd unat (block_size object_size align)" using b(3) by simp
  show 2: "block_size object_size align \<noteq> 0" using 1(2) assms by (auto simp: small_object_def word_unat_eq_iff)
  show "slab_capacity (block_size object_size align) \<noteq> 0" by (rule capacity_positive [OF 2 1(1)])
qed

lemma new_cache_ok:
  assumes r: "usable_region r" and s: "small_object object_size align" and c: "c \<noteq> Null_Cache" "c \<notin> Cache_At ` managed_bytes r"
    and n: "no_slabs (caches h0 c)" and i: "init_cache_object c r nc flags onc map_ptr object_size align sc h0 = (h, x)"
  shows "cache_ok h c (new_view r (block_size object_size align))" and "x = 0"
proof -
  let ?z = "block_size object_size align" let ?v = "new_view r ?z"
  have h: "x = 0" "h = upd_cache c (\<lambda>oc. oc\<lparr>oc_node_cache := nc, oc_managed := r, oc_limit := rstart r, oc_flags := flags, oc_obj_nodes := onc,
       oc_map := map_ptr, oc_size := object_size, oc_align := align, oc_slab_cache := sc, oc_type := ON_SLAB\<rparr>) h0"
    using init_cache_object_run [OF s, of c r nc flags onc map_ptr sc h0] i by simp_all
  show "x = 0" by (rule h(1))
  obtain q where q: "unat (rsize r) = 4096 * q" using r by (auto simp: usable_region_def)
  have rm: "cv_room ?v = q" "4096 * cv_room ?v = unat (rsize r)" using q by (simp_all add: new_view_def)
  have rf: "room_for ?v = rsize r" unfolding rm(2) by simp
  have "0 < unat (rsize r)" using r by (simp add: usable_region_def unat_gt_0)
  then have q0: "0 < q" using q by simp
  have "heap_region (cv_start ?v) (rsize r) (cv_room ?v)" using r rm(2) by (simp add: heap_region_def usable_region_def new_view_def unat_gt_0)
  then have f: "view_fits ?v"
    unfolding view_fits_def slab_fits_def rf using r rm block_size_bounds(3,5) [OF s] q0 by (simp add: usable_region_def new_view_def)
  have oc: "caches h c = (caches h0 c)\<lparr>oc_node_cache := nc, oc_managed := r, oc_limit := rstart r, oc_flags := flags, oc_obj_nodes := onc,
       oc_map := map_ptr, oc_size := object_size, oc_align := align, oc_slab_cache := sc, oc_type := ON_SLAB\<rparr>"
    by (simp add: h(2) upd_cache_def)
  have st: "stride (caches h c) = ?z" unfolding oc by (simp add: stride_def block_size_def)
  have "view_head (caches h c) ?v"
    unfolding view_head_def st rf using n by (simp add: oc new_view_def no_slabs_def at_byte_def)
  moreover have "view_rings (slabs h) (caches h c) ?v"
    unfolding view_rings_def
  proof
    fix w show "ring (slabs h) (head_of w (caches h c)) (map (slab_at ?v) (cv_lists ?v w))"
      using n unfolding oc by (cases w) (simp_all add: ring_def cyc_def new_view_def no_slabs_def)
  qed
  moreover have "view_lists ?v" "view_slabs h ?v" by (simp_all add: view_lists_def view_slabs_def new_view_def)
  ultimately show "cache_ok h c ?v" unfolding cache_ok_def view_region_new [OF r] using f c by simp
qed

section \<open>Runs\<close>

text \<open>
  Every sequence of steps that starts with \<open>h0\<close>: allocations, failed ones too, releases of objects that are in use,
  and steps of the others, which do not write to the managed region except to the objects in use. The last argument
  is the set of objects in use.
\<close>

inductive cache_run ::
  "'v vm_ops \<Rightarrow> cache_ref \<Rightarrow> u64 set \<Rightarrow> u64 \<Rightarrow> 'v heap_state \<Rightarrow> 'v heap_state \<Rightarrow> u64 set \<Rightarrow> bool" for ops c R z h0 where
  start: "cache_run ops c R z h0 h0 {}"
| alloc: "cache_run ops c R z h0 h L \<Longrightarrow> cache_allocate ops (Suc fuel) c h = Some (h', obj) \<Longrightarrow> obj \<noteq> 0 \<Longrightarrow>
    cache_run ops c R z h0 h' (insert obj L)"
| alloc_fails: "cache_run ops c R z h0 h L \<Longrightarrow> cache_allocate ops (Suc fuel) c h = Some (h', 0) \<Longrightarrow> cache_run ops c R z h0 h' L"
| free: "cache_run ops c R z h0 h L \<Longrightarrow> obj \<in> L \<Longrightarrow> cache_free c obj h = Some h' \<Longrightarrow> cache_run ops c R z h0 h' (L - {obj})"
| other: "cache_run ops c R z h0 h L \<Longrightarrow> (\<And>a. a \<in> R \<Longrightarrow> (\<forall>obj \<in> L. a \<notin> block z obj) \<Longrightarrow> same_at a h h') \<Longrightarrow>
    caches h' c = caches h c \<Longrightarrow> cache_run ops c R z h0 h' L"

lemma cache_ok_elsewhere:
  assumes ok: "cache_ok h c v" and same: "\<And>a. a \<in> view_own v \<Longrightarrow> same_at a h h'" and ca: "caches h' c = caches h c"
  shows "cache_ok h' c v"
proof -
  have v: "view_fits v" using ok by (simp add: cache_ok_def)
  have sl: "slabs h' (slab_at v k) = slabs h (slab_at v k)" if "k < cv_pages v" for k
    using same [OF slab_in_own [OF v that]] by (simp add: same_at_def)
  have "slab_ok h' (cv_stride v) (cv_start v) k (cv_free v k)" if "k < cv_pages v" for k
  proof (subst slab_ok_same [where h = h])
    show "same_data (slabs h (slab_at v k)) (slabs h' (slab_at v k))" using sl [OF that] by (simp add: same_data_def)
    show "cap (cv_stride v) \<le> 4032" using view_fitsD(5) [OF v] by simp
    show "bytes h' (at_byte (cv_start v) k j) = bytes h (at_byte (cv_start v) k j)" if "4032 - cap (cv_stride v) \<le> j" "j < 4032" for j
    proof -
      have "k < cv_room v" "j < 4096" using view_fitsD(8) [OF v \<open>k < cv_pages v\<close>] that by simp_all
      then have "at_byte (cv_start v) k j \<in> view_own v" unfolding view_own_def using that(1) by blast
      then show ?thesis using same by (simp add: same_at_def)
    qed
  qed (rule slab_okD [OF ok that])
  moreover have "view_rings (slabs h') (caches h' c) v"
    unfolding view_rings_def ca
  proof
    fix w
    have "ring (slabs h) (head_of w (caches h c)) (map (slab_at v) (cv_lists v w))" using ok by (simp add: cache_ok_def view_rings_def)
    then show "ring (slabs h') (head_of w (caches h c)) (map (slab_at v) (cv_lists v w))"
      by (rule ring_apart) (use sl lists_pages(1) [OF ok] in auto)
  qed
  ultimately show ?thesis using ok ca by (simp add: cache_ok_def view_slabs_def)
qed

lemma release_view:
  assumes ok: "cache_ok h c v" and live: "obj \<in> view_live v"
  shows "\<exists>h' v'. cache_free c obj h = Some h' \<and> cache_ok h' c v' \<and> cv_start v' = cv_start v \<and> cv_room v' = cv_room v \<and>
    cv_stride v' = cv_stride v \<and> view_live v' = view_live v - {obj} \<and> view_own v' = view_own v \<and> changes_only (view_own v) {c} h h'"
proof -
  have v: "view_fits v" using ok by (simp add: cache_ok_def)
  obtain k i where ki: "obj = at_byte (cv_start v) k (i * unat (cv_stride v))" "k < cv_pages v" "i < cap (cv_stride v)" "i \<notin> set (cv_free v k)"
    using live_block [OF v live] by metis
  from cache_free_frees [OF ok ki(2-4)] obtain h' L where f: "cache_free c obj h = Some h'"
    "cache_ok h' c (v\<lparr>cv_free := (cv_free v)(k := i # cv_free v k), cv_lists := L\<rparr>)" "changes_only (view_own v) {c} h h'"
    unfolding ki(1) by blast
  then show ?thesis using live_returned [OF v ki(2-4)] unfolding ki(1)
    by (intro exI [of _ h'] exI [of _ "v\<lparr>cv_free := (cv_free v)(k := i # cv_free v k), cv_lists := L\<rparr>"]) simp
qed

lemma same_region: "cv_start v = cv_start w \<Longrightarrow> cv_room v = cv_room w \<Longrightarrow> view_region v = view_region w"
  by (simp add: view_region_def)

lemma own_region: "view_own v \<subseteq> view_region v"
  unfolding view_own_def view_region_def by blast

lemma cache_run_view:
  assumes "cache_run ops c R z h0 h L" and "cache_ok h0 c v0" "view_live v0 = {}" "R = view_region v0" "z = cv_stride v0"
  shows "\<exists>v. cache_ok h c v \<and> cv_start v = cv_start v0 \<and> cv_room v = cv_room v0 \<and> cv_stride v = cv_stride v0 \<and> view_live v = L"
  using assms
proof (induction rule: cache_run.induct)
  case start
  then show ?case by blast
next
  case (alloc h L fuel h' obj)
  then obtain v where v: "cache_ok h c v" "cv_start v = cv_start v0" "cv_room v = cv_room v0" "cv_stride v = cv_stride v0" "view_live v = L"
    by blast
  then show ?case using cache_allocate_cases [OF v(1), of ops fuel] alloc.hyps(2,3) by auto
next
  case (alloc_fails h L fuel h')
  then obtain v where v: "cache_ok h c v" "cv_start v = cv_start v0" "cv_room v = cv_room v0" "cv_stride v = cv_stride v0" "view_live v = L"
    by blast
  have "\<exists>m. h' = h\<lparr>vm := m\<rparr>" using cache_allocate_cases [OF v(1), of ops fuel] alloc_fails.hyps(2) by auto
  then have "cache_ok h' c v" using v(1) by (auto intro!: cache_ok_elsewhere [OF v(1)] simp: same_at_def)
  then show ?case using v by blast
next
  case (free h L obj h')
  then obtain v where v: "cache_ok h c v" "cv_start v = cv_start v0" "cv_room v = cv_room v0" "cv_stride v = cv_stride v0" "view_live v = L"
    by blast
  then show ?case using release_view [OF v(1), of obj] free.hyps(2,3) by auto
next
  case (other h L h')
  then obtain v where v: "cache_ok h c v" "cv_start v = cv_start v0" "cv_room v = cv_room v0" "cv_stride v = cv_stride v0" "view_live v = L"
    by blast
  have f: "view_fits v" using v(1) by (simp add: cache_ok_def)
  have "same_at a h h'" if "a \<in> view_own v" for a
  proof (rule other.hyps(2))
    show "a \<in> R" using that own_region [of v] same_region [OF v(2,3)] other.prems(3) by blast
    show "\<forall>obj \<in> L. a \<notin> block z obj" 
    proof
      fix obj assume "obj \<in> L"
      then have "block (cv_stride v) obj \<inter> view_own v = {}" using live_in_region [OF f, of obj] v(5) by blast
      then show "a \<notin> block z obj" using that v(4) other.prems(4) by auto
    qed
  qed
  then have "cache_ok h' c v" using cache_ok_elsewhere [OF v(1)] other.hyps(3) by blast
  then show ?case using v by blast
qed

lemma new_view_live: "view_live (new_view r z) = {}"
  by (simp add: view_live_def new_view_def)

lemma new_cache_run:
  assumes r: "usable_region r" and s: "small_object object_size align" and c: "c \<noteq> Null_Cache" "c \<notin> Cache_At ` managed_bytes r"
    and n: "no_slabs (caches h0 c)" and i: "init_cache_object c r nc flags onc map_ptr object_size align sc h0 = (h, x)"
    and run: "cache_run ops c (managed_bytes r) (block_size object_size align) h h' L"
  obtains v where "cache_ok h' c v" "view_live v = L" "view_region v = managed_bytes r" "cv_stride v = block_size object_size align"
    "cv_room v = unat (rsize r) div 4096" "view_fits v"
proof -
  note ok = new_cache_ok(1) [OF r s c n i]
  obtain v where v: "cache_ok h' c v" "cv_start v = rstart r" "cv_room v = unat (rsize r) div 4096" "cv_stride v = block_size object_size align"
    "view_live v = L"
    using cache_run_view [OF run ok new_view_live] view_region_new [OF r] by (auto simp: new_view_def)
  have "view_region v = managed_bytes r"
    using v(2,3) view_region_new [OF r, of "block_size object_size align"] by (simp add: view_region_def new_view_def)
  moreover have "view_fits v" using v(1) by (simp add: cache_ok_def)
  ultimately show ?thesis using that [OF v(1,5) _ v(4,3)] by blast
qed

lemma untouched_blocks:
  assumes "view_fits v" and "changes_only (view_own v) {c} h h'" and "obj \<in> view_live v" and "a \<in> block (cv_stride v) obj"
  shows "same_at a h h'"
  using live_in_region [OF assms(1,3)] assms(2,4) unfolding changes_only_def by blast

text \<open>
  C4. \<open>ObjectCache::init\<close>, \<open>allocate\<close> and \<open>free\<close> of a cache for small objects: after every sequence of allocations,
  releases and writes of the users to their objects, an allocation gives an object that is not in use, inside the managed
  region, large enough, with a block that no other object in use shares, and it changes nothing in the objects in use.
\<close>

theorem allocated_object_is_new:
  assumes "usable_region r" and "small_object object_size align" and "c \<noteq> Null_Cache" "c \<notin> Cache_At ` managed_bytes r"
    and "no_slabs (caches h0 c)" and "init_cache_object c r nc flags onc map_ptr object_size align sc h0 = (h, 0)"
    and "cache_run ops c (managed_bytes r) (block_size object_size align) h h' L"
    and "cache_allocate ops (Suc fuel) c h' = Some (h'', obj)" and "obj \<noteq> 0"
  shows "obj \<notin> L \<and> block (block_size object_size align) obj \<subseteq> managed_bytes r \<and>
    unat object_size \<le> unat (block_size object_size align) \<and>
    (\<forall>x \<in> L. block (block_size object_size align) x \<inter> block (block_size object_size align) obj = {} \<and>
      (\<forall>a \<in> block (block_size object_size align) x. same_at a h' h''))"
proof -
  obtain v where v: "cache_ok h' c v" "view_live v = L" "view_region v = managed_bytes r" "cv_stride v = block_size object_size align" "view_fits v"
    using new_cache_run [OF assms(1-7)] by metis
  obtain v' where v': "cache_ok h'' c v'" "cv_start v' = cv_start v" "cv_room v' = cv_room v" "cv_stride v' = cv_stride v" "obj \<notin> L"
    "view_live v' = insert obj L" "changes_only (view_own v) {c} h' h''"
    using cache_allocate_cases [OF v(1), of ops fuel] assms(8,9) v(2) by auto
  have f': "view_fits v'" using v'(1) by (simp add: cache_ok_def)
  have "block (cv_stride v') obj \<subseteq> view_region v'" using live_in_region [OF f', of obj] v'(6) by blast
  moreover have "view_region v' = managed_bytes r" using same_region [OF v'(2,3)] v(3) by simp
  moreover have "block (cv_stride v') x \<inter> block (cv_stride v') obj = {}" if "x \<in> L" for x
    using live_disjoint [OF f', of x obj] that v'(5,6) by blast
  moreover have "same_at a h' h''" if "x \<in> L" "a \<in> block (cv_stride v) x" for x a
    using untouched_blocks [OF v(5) v'(7)] that v(2) by blast
  ultimately show ?thesis using v'(4,5) v(4) block_size_bounds(2) [OF assms(2)] by auto
qed

text \<open>
  C5. \<open>ObjectCache::free\<close> takes every object in use back, in any order. It changes nothing in the other objects in use, and
  the object is given out again: whatever the virtual memory manager does, the next allocation finds an object, which is not
  one of the others in use, without asking for a page; and when the cache was exhausted before, it is the freed object itself.
\<close>

theorem free_takes_the_object_back:
  assumes "usable_region r" and "small_object object_size align" and "c \<noteq> Null_Cache" "c \<notin> Cache_At ` managed_bytes r"
    and "no_slabs (caches h0 c)" and "init_cache_object c r nc flags onc map_ptr object_size align sc h0 = (h, 0)"
    and "cache_run ops c (managed_bytes r) (block_size object_size align) h h' L" and "obj \<in> L"
  shows "\<exists>h''. cache_free c obj h' = Some h'' \<and>
    (\<forall>x \<in> L - {obj}. \<forall>a \<in> block (block_size object_size align) x. same_at a h' h'') \<and>
    (\<forall>ops' fuel. \<exists>h3 new. cache_allocate ops' (Suc fuel) c h'' = Some (h3, new) \<and> new \<noteq> 0 \<and> new \<notin> L - {obj} \<and> vm h3 = vm h'' \<and>
       ((\<exists>fuel m. cache_allocate ops (Suc fuel) c h' = Some (m, 0)) \<longrightarrow> new = obj))"
proof -
  obtain v where v: "cache_ok h' c v" "view_live v = L" "cv_stride v = block_size object_size align" "view_fits v"
    using new_cache_run [OF assms(1-7)] by metis
  obtain k i where ki: "obj = at_byte (cv_start v) k (i * unat (cv_stride v))" "k < cv_pages v" "i < cap (cv_stride v)" "i \<notin> set (cv_free v k)"
    using live_block [OF v(4)] assms(8) v(2) by metis
  from cache_free_frees [OF v(1) ki(2-4)] obtain h'' lists where f: "cache_free c obj h' = Some h''"
    "cache_ok h'' c (v\<lparr>cv_free := (cv_free v)(k := i # cv_free v k), cv_lists := lists\<rparr>)" "changes_only (view_own v) {c} h' h''"
    unfolding ki(1) by blast
  let ?v = "v\<lparr>cv_free := (cv_free v)(k := i # cv_free v k), cv_lists := lists\<rparr>"
  have live: "view_live ?v = L - {obj}" using live_returned [OF v(4) ki(2-4), of lists] v(2) unfolding ki(1) by simp
  have "same_at a h' h''" if "x \<in> L - {obj}" "a \<in> block (cv_stride v) x" for x a
    using untouched_blocks [OF v(4) f(3)] that v(2) by blast
  moreover have "\<exists>h3 new. cache_allocate ops' (Suc fuel) c h'' = Some (h3, new) \<and> new \<noteq> 0 \<and> new \<notin> L - {obj} \<and> vm h3 = vm h'' \<and>
      ((\<exists>fuel m. cache_allocate ops (Suc fuel) c h' = Some (m, 0)) \<longrightarrow> new = obj)" for ops' fuel
  proof -
    obtain h3 k' i' "is" where t: "cache_allocate ops' (Suc fuel) c h'' = Some (h3, at_byte (cv_start v) k' (i' * unat (cv_stride v)))"
      "k' < cv_pages v" "cv_free ?v k' = i' # is" "vm h3 = vm h''" "at_byte (cv_start v) k' (i' * unat (cv_stride v)) \<noteq> 0"
      "at_byte (cv_start v) k' (i' * unat (cv_stride v)) \<notin> view_live ?v"
      using allocates_free_object [OF f(2), of k ops' fuel] ki(2) by auto
    have "at_byte (cv_start v) k' (i' * unat (cv_stride v)) = obj" if "cache_allocate ops (Suc fuel') c h' = Some (m, 0)" for fuel' m
    proof -
      have "\<forall>k < cv_pages v. cv_free v k = []" using cache_allocate_cases [OF v(1), of ops fuel'] that by auto
      then show ?thesis using t(2,3) ki(1) by (auto split: if_splits)
    qed
    then show ?thesis using t(1,4-6) live by blast
  qed
  ultimately show ?thesis using f(1) v(3) by auto
qed

lemma live_count:
  assumes "view_fits v"
  shows "finite (view_live v)" and "card (view_live v) \<le> cv_pages v * cap (cv_stride v)"
    and "(\<And>k. k < cv_pages v \<Longrightarrow> cv_free v k = []) \<Longrightarrow> card (view_live v) = cv_pages v * cap (cv_stride v)"
proof -
  let ?f = "\<lambda>(k, i). at_byte (cv_start v) k (i * unat (cv_stride v))"
  let ?A = "{..<cv_pages v} \<times> {..<cap (cv_stride v)}"
  have inj: "inj_on ?f ?A"
    using live_address_eq [OF assms view_fitsD(8) [OF assms] _ view_fitsD(8) [OF assms]] by (auto simp: inj_on_def)
  have sub: "view_live v \<subseteq> ?f ` ?A" unfolding view_live_def by force
  have card: "card (?f ` ?A) = cv_pages v * cap (cv_stride v)" by (simp add: card_image [OF inj])
  show "finite (view_live v)" using sub by (rule finite_subset) simp
  show "card (view_live v) \<le> cv_pages v * cap (cv_stride v)" using card_mono [OF _ sub] card by simp
  assume "\<And>k. k < cv_pages v \<Longrightarrow> cv_free v k = []"
  then have "?f ` ?A \<subseteq> view_live v" unfolding view_live_def by force
  then show "card (view_live v) = cv_pages v * cap (cv_stride v)" using sub card by (metis subset_antisym)
qed

lemma allocates_while_room:
  assumes "cache_ok h c v" and "\<And>m a f. \<exists>m'. vm_allocate ops m a f = Some (m', True)"
    and "card (view_live v) < (cv_room v - 1) * cap (cv_stride v)"
  shows "\<exists>h' obj. cache_allocate ops (Suc fuel) c h = Some (h', obj) \<and> obj \<noteq> 0"
proof -
  have f: "view_fits v" using assms(1) by (simp add: cache_ok_def)
  have vm: "vm_allocate ops m a fl \<noteq> None" "vm_allocate ops m a fl \<noteq> Some (m', False)" for m a fl m'
    using assms(2) [of m a fl] by auto
  have room: "\<not> ((\<forall>k < cv_pages v. cv_free v k = []) \<and> cv_room v = Suc (cv_pages v))"
    using live_count(3) [OF f] assms(3) by auto
  from cache_allocate_cases [OF assms(1), of ops fuel] show ?thesis
  proof (elim disjE)
    assume "\<exists>m. cache_allocate ops (Suc fuel) c h = Some (h\<lparr>vm := m\<rparr>, 0) \<and> (\<forall>k < cv_pages v. cv_free v k = []) \<and>
      (cv_room v = Suc (cv_pages v) \<or>
       vm_allocate ops (vm h) (at_byte (cv_start v) (cv_pages v) 0) (oc_flags (caches h c)) = Some (m, False))"
    then show ?thesis using room vm(2) by metis
  next
    assume "cache_allocate ops (Suc fuel) c h = None \<and>
      vm_allocate ops (vm h) (at_byte (cv_start v) (cv_pages v) 0) (oc_flags (caches h c)) = None"
    then show ?thesis using vm(1) by metis
  qed metis
qed

text \<open>
  C6. A cache for small objects does not run out of memory early: while the virtual memory manager maps every page, an
  allocation fails only when all objects of all pages but the last one of the managed region are in use.
\<close>

theorem cache_serves_its_capacity:
  assumes "usable_region r" and "small_object object_size align" and "c \<noteq> Null_Cache" "c \<notin> Cache_At ` managed_bytes r"
    and "no_slabs (caches h0 c)" and "init_cache_object c r nc flags onc map_ptr object_size align sc h0 = (h, 0)"
    and "cache_run ops c (managed_bytes r) (block_size object_size align) h h' L"
    and "\<And>m a f. \<exists>m'. vm_allocate ops m a f = Some (m', True)"
    and "card L < (unat (rsize r) div 4096 - 1) * unat (slab_capacity (block_size object_size align))"
  shows "\<exists>h'' obj. cache_allocate ops (Suc fuel) c h' = Some (h'', obj) \<and> obj \<noteq> 0"
proof -
  obtain v where v: "cache_ok h' c v" "view_live v = L" "cv_stride v = block_size object_size align" "cv_room v = unat (rsize r) div 4096"
    using new_cache_run [OF assms(1-7)] by metis
  then show ?thesis using allocates_while_room [OF v(1) assms(8)] assms(9) by simp
qed

section \<open>An example\<close>

definition mapping_vm :: "unit vm_ops" where
  "mapping_vm = \<lparr>vm_allocate = (\<lambda>m a f. Some (m, True)), vm_free = (\<lambda>m a. Some (m, True))\<rparr>"

definition blank_heap :: "unit heap_state" where
  "blank_heap = \<lparr>slabs = (\<lambda>_. zero_slab), obj_nodes = (\<lambda>_. \<lparr>on_next = 0, on_object = 0, on_owner = 0\<rparr>),
     mem_nodes = (\<lambda>_. \<lparr>mn_next = 0, mn_addr = 0\<rparr>), hash_nodes = (\<lambda>_. \<lparr>hn_next = 0, hn_key = 0, hn_value = 0\<rparr>),
     hash_maps = (\<lambda>_. \<lparr>map_nodes = replicate 37 0, map_node_cache = Null_Cache\<rparr>), caches = (\<lambda>_. zero_cache), bytes = (\<lambda>_. 0), vm = ()\<rparr>"

definition example_region :: memory_region where
  "example_region = \<lparr>rstart = 0x200000, rsize = CACHE_SIZE, rtype = NONE\<rparr>"

definition example_cache :: "unit heap_state" where
  "example_cache = fst (init_cache_object Object_Cache_Cache example_region Null_Cache 3 Null_Cache 0 OBJECT_CACHE_SIZE 0 Null_Cache blank_heap)"

lemma example_conditions:
  "usable_region example_region" "small_object OBJECT_CACHE_SIZE 0" "Object_Cache_Cache \<noteq> Null_Cache"
  "Object_Cache_Cache \<notin> Cache_At ` managed_bytes example_region" "no_slabs (caches blank_heap Object_Cache_Cache)"
  "init_cache_object Object_Cache_Cache example_region Null_Cache 3 Null_Cache 0 OBJECT_CACHE_SIZE 0 Null_Cache blank_heap = (example_cache, 0)"
proof -
  show s: "small_object OBJECT_CACHE_SIZE 0" by (simp add: small_object_def OBJECT_CACHE_SIZE_def)
  show "usable_region example_region" by (simp add: usable_region_def example_region_def CACHE_SIZE_def)
  show "Object_Cache_Cache \<noteq> Null_Cache" "Object_Cache_Cache \<notin> Cache_At ` managed_bytes example_region" by auto
  show "no_slabs (caches blank_heap Object_Cache_Cache)" by (simp add: no_slabs_def blank_heap_def zero_cache_def)
  show "init_cache_object Object_Cache_Cache example_region Null_Cache 3 Null_Cache 0 OBJECT_CACHE_SIZE 0 Null_Cache blank_heap = (example_cache, 0)"
    unfolding example_cache_def init_cache_object_run [OF s] by simp
qed

lemma mapping_vm_maps: "\<exists>m'. vm_allocate mapping_vm m a f = Some (m', True)"
  by (simp add: mapping_vm_def)

lemma example_capacity: "(unat (rsize example_region) div 4096 - 1) * unat (slab_capacity (block_size OBJECT_CACHE_SIZE 0)) = 511 * 27"
  by (simp add: example_region_def CACHE_SIZE_def block_size_def OBJECT_CACHE_SIZE_def slab_capacity_def PAGE_SIZE_def SLAB_SIZE_def
      MAX_OBJECT_COUNT_def min_of_def Let_def)

abbreviation example_run :: "unit heap_state \<Rightarrow> u64 set \<Rightarrow> bool" where
  "example_run \<equiv> cache_run mapping_vm Object_Cache_Cache (managed_bytes example_region) (block_size OBJECT_CACHE_SIZE 0) example_cache"

lemma example_allocates:
  assumes "example_run h L" and "card L < 511 * 27"
  shows "\<exists>h' obj. cache_allocate mapping_vm ALLOC_DEPTH Object_Cache_Cache h = Some (h', obj) \<and> obj \<noteq> 0 \<and> example_run h' (insert obj L)"
proof -
  obtain v where v: "cache_ok h Object_Cache_Cache v" "view_live v = L" "cv_stride v = block_size OBJECT_CACHE_SIZE 0"
    "cv_room v = unat (rsize example_region) div 4096"
    using new_cache_run [OF example_conditions assms(1)] by metis
  have "ALLOC_DEPTH = Suc 1" by (simp add: ALLOC_DEPTH_def)
  then obtain h' obj where a: "cache_allocate mapping_vm ALLOC_DEPTH Object_Cache_Cache h = Some (h', obj)" "obj \<noteq> 0"
    using allocates_while_room [OF v(1) mapping_vm_maps] assms(2) v(2-4) example_capacity by metis
  then show ?thesis using alloc [OF assms(1), of 1 h' obj] by (auto simp: ALLOC_DEPTH_def numeral_2_eq_2)
qed

lemma example_two:
  obtains h1 o1 where "cache_allocate mapping_vm ALLOC_DEPTH Object_Cache_Cache example_cache = Some (h1, o1)" "o1 \<noteq> 0" "example_run h1 {o1}"
  using example_allocates [OF start] by auto

theorem allocated_object_is_new_witness:
  "\<exists>h1 o1 h2 o2. cache_allocate mapping_vm ALLOC_DEPTH Object_Cache_Cache example_cache = Some (h1, o1) \<and>
    cache_allocate mapping_vm ALLOC_DEPTH Object_Cache_Cache h1 = Some (h2, o2) \<and> o1 \<noteq> 0 \<and> o2 \<noteq> 0 \<and> o2 \<notin> {o1}"
proof -
  obtain h1 o1 where a: "cache_allocate mapping_vm ALLOC_DEPTH Object_Cache_Cache example_cache = Some (h1, o1)" "o1 \<noteq> 0" "example_run h1 {o1}"
    using example_two by blast
  obtain h2 o2 where b: "cache_allocate mapping_vm ALLOC_DEPTH Object_Cache_Cache h1 = Some (h2, o2)" "o2 \<noteq> 0"
    using example_allocates [OF a(3)] by auto
  have "cache_allocate mapping_vm (Suc 1) Object_Cache_Cache h1 = Some (h2, o2)" using b(1) by (simp only: ALLOC_DEPTH_def numeral_2_eq_2 One_nat_def)
  from allocated_object_is_new [OF example_conditions a(3) this b(2)] have "o2 \<notin> {o1}" by blast
  then show ?thesis using a b by blast
qed

theorem free_takes_the_object_back_witness:
  "\<exists>h1 o1 h2 h3 new. cache_allocate mapping_vm ALLOC_DEPTH Object_Cache_Cache example_cache = Some (h1, o1) \<and> o1 \<noteq> 0 \<and>
    cache_free Object_Cache_Cache o1 h1 = Some h2 \<and> cache_allocate mapping_vm (Suc 0) Object_Cache_Cache h2 = Some (h3, new) \<and> new \<noteq> 0"
proof -
  obtain h1 o1 where a: "cache_allocate mapping_vm ALLOC_DEPTH Object_Cache_Cache example_cache = Some (h1, o1)" "o1 \<noteq> 0" "example_run h1 {o1}"
    using example_two by blast
  then show ?thesis using free_takes_the_object_back [OF example_conditions a(3), of o1] by blast
qed

theorem cache_serves_its_capacity_witness:
  "\<exists>h1 o1. cache_allocate mapping_vm (Suc 1) Object_Cache_Cache example_cache = Some (h1, o1) \<and> o1 \<noteq> 0"
proof -
  have "card ({} :: u64 set) < (unat (rsize example_region) div 4096 - 1) * unat (slab_capacity (block_size OBJECT_CACHE_SIZE 0))"
    unfolding example_capacity by simp
  from cache_serves_its_capacity [OF example_conditions start mapping_vm_maps this, of 1] show ?thesis by simp
qed

section \<open>Size classes\<close>

text \<open>Each step of the smearing doubles the distance over which the bits are copied down.\<close>

lemma smear_step:
  fixes a n :: u64
  assumes "\<And>j. bit a j \<longleftrightarrow> (\<exists>d < m. bit n (j + d))"
  shows "bit (a OR drop_bit m a) j \<longleftrightarrow> (\<exists>d < 2 * m. bit n (j + d))"
proof
  assume "bit (a OR drop_bit m a) j"
  then have "(\<exists>d < m. bit n (j + d)) \<or> (\<exists>d < m. bit n (m + j + d))" using assms by (simp add: bit_or_iff bit_drop_bit_eq)
  then show "\<exists>d < 2 * m. bit n (j + d)"
  proof
    assume "\<exists>d < m. bit n (m + j + d)"
    then obtain d where "d < m" "bit n (m + j + d)" by blast
    then have "m + d < 2 * m" "bit n (j + (m + d))" by (simp_all add: ac_simps)
    then show ?thesis by blast
  next
    assume "\<exists>d < m. bit n (j + d)"
    then obtain d where "d < m" "bit n (j + d)" by blast
    moreover from this have "d < 2 * m" by simp
    ultimately show ?thesis by blast
  qed
next
  assume "\<exists>d < 2 * m. bit n (j + d)"
  then obtain d where d: "d < 2 * m" "bit n (j + d)" by blast
  show "bit (a OR drop_bit m a) j"
  proof (cases "d < m")
    case True
    then show ?thesis using d assms [of j] by (auto simp: bit_or_iff)
  next
    case False
    then have "d - m < m" "bit n (m + j + (d - m))" using d by (simp_all add: ac_simps)
    then show ?thesis using assms [of "m + j"] by (auto simp: bit_or_iff bit_drop_bit_eq)
  qed
qed

lemma bit_at_or_above: "(\<exists>d < 64. bit (n :: u64) (j + d)) \<longleftrightarrow> 2 ^ j \<le> unat n"
proof -
  have "(\<exists>d < 64. bit n (j + d)) \<longleftrightarrow> (\<exists>d. bit (drop_bit j n) d)"
  proof
    assume "\<exists>d. bit (drop_bit j n) d"
    then obtain d where d: "bit n (j + d)" by (auto simp: bit_drop_bit_eq)
    then have "j + d < 64" using bit_imp_le_length [of n "j + d"] by simp
    then have "d < 64" by simp
    then show "\<exists>d < 64. bit n (j + d)" using d by blast
  next
    assume "\<exists>d < 64. bit n (j + d)"
    then obtain d where "bit (drop_bit j n) d" by (auto simp: bit_drop_bit_eq)
    then show "\<exists>d. bit (drop_bit j n) d" by blast
  qed
  also have "\<dots> \<longleftrightarrow> drop_bit j n \<noteq> 0" using bit_eqI [of "drop_bit j n" 0] by (metis bit_0_eq bot_apply bot_bool_def)
  also have "\<dots> \<longleftrightarrow> unat n div 2 ^ j \<noteq> 0"
  proof -
    have "unat (drop_bit j n) = unat n div 2 ^ j" unfolding unat_drop_bit_eq by (rule drop_bit_eq_div)
    then show ?thesis by (simp only: word_unat_eq_iff unsigned_0)
  qed
  also have "\<dots> \<longleftrightarrow> 2 ^ j \<le> unat n" by (simp add: div_eq_0_iff not_less)
  finally show ?thesis .
qed

lemma upper_boundary:
  assumes "2 ^ k \<le> unat (s - 1)" and "unat (s - 1) < 2 ^ Suc k" and "k < 64"
  shows "snd (power_of_two_boundaries s) = 2 ^ Suc k"
proof -
  define n where "n = s - 1"
  define a1 where "a1 = n OR drop_bit 1 n"
  define a2 where "a2 = a1 OR drop_bit 2 a1"
  define a3 where "a3 = a2 OR drop_bit 4 a2"
  define a4 where "a4 = a3 OR drop_bit 8 a3"
  define a5 where "a5 = a4 OR drop_bit 16 a4"
  define a6 where "a6 = a5 OR drop_bit 32 a5"
  have "bit n j \<longleftrightarrow> (\<exists>d < 1. bit n (j + d))" for j by simp
  note smear_step [OF this, folded a1_def]
  note smear_step [of a1 "2 * 1" n, OF this, simplified, folded a2_def]
  note smear_step [of a2 4 n, OF this, simplified, folded a3_def]
  note smear_step [of a3 8 n, OF this, simplified, folded a4_def]
  note smear_step [of a4 16 n, OF this, simplified, folded a5_def]
  note smear_step [of a5 32 n, OF this, simplified, folded a6_def]
  then have b: "bit a6 j \<longleftrightarrow> 2 ^ j \<le> unat n" for j using bit_at_or_above [of n j] by simp
  have "2 ^ j \<le> unat n \<longleftrightarrow> j \<le> k" for j
  proof
    assume "2 ^ j \<le> unat n"
    then have "(2 :: nat) ^ j < 2 ^ Suc k" using assms(2) unfolding n_def by (rule order_le_less_trans)
    then have "j < Suc k" by (rule power_less_imp_less_exp [rotated]) simp
    then show "j \<le> k" by simp
  next
    assume "j \<le> k"
    then have "(2 :: nat) ^ j \<le> 2 ^ k" by simp
    then show "2 ^ j \<le> unat n" using assms(1) unfolding n_def by (rule order_trans)
  qed
  then have "a6 = mask (Suc k)" using b assms(3) by (intro bit_eqI) (auto simp: bit_mask_iff less_Suc_eq_le)
  then have "a6 + 1 = 2 ^ Suc k" by (simp add: mask_eq_exp_minus_1)
  then show ?thesis
    by (simp add: power_of_two_boundaries_def Let_def n_def a1_def a2_def a3_def a4_def a5_def a6_def)
qed

text \<open>
  C7. \<open>allocate\<close> and \<open>allocate_dma\<close> compute the cache by bit operations: it is the first one whose objects are large
  enough, and there is none for more than 64 KiB.
\<close>

theorem size_class_is_first_fit:
  "size_class size0 = find (\<lambda>i. unat size0 \<le> 2 ^ (i + MIN_SIZE_POWER)) [0..<STATIC_CACHE_COUNT]"
proof -
  define s where "s = max_of size0 MIN_OBJ_SIZE"
  have s: "unat s = max (unat size0) 16" by (auto simp: s_def max_of_def MIN_OBJ_SIZE_def word_less_nat_alt word_le_nat_alt max_def)
  have n: "unat (s - 1) = unat s - 1" using s by (subst unat_sub) (simp_all add: word_le_nat_alt)
  obtain k where k: "2 ^ k \<le> unat (s - 1)" "unat (s - 1) < 2 ^ Suc k" 
  proof -
    have "1 \<le> unat (s - 1)" using n s by linarith
    then obtain k where "2 ^ k \<le> unat (s - 1)" "unat (s - 1) < 2 ^ (k + 1)" using ex_power_ivl1 [of 2 "unat (s - 1)"] by auto
    then show ?thesis using that [of k] by simp
  qed
  have "k < 64"
  proof (rule ccontr)
    assume "\<not> k < 64"
    then have "(2 :: nat) ^ 64 \<le> 2 ^ k" by (intro power_increasing) simp_all
    then have "2 ^ 64 \<le> unat (s - 1)" using k(1) by (rule order_trans)
    moreover have "unat (s - 1) < 2 ^ 64" using unsigned_less [of "s - 1"] by simp
    ultimately show False by linarith
  qed
  note u = upper_boundary [OF k this]
  have k3: "3 \<le> k"
  proof (rule ccontr)
    assume "\<not> 3 \<le> k"
    then have "(2 :: nat) ^ Suc k \<le> 2 ^ 3" by (intro power_increasing) simp_all
    then show False using k(2) n s by simp
  qed
  have fits: "unat size0 \<le> 2 ^ (i + 4) \<longleftrightarrow> k \<le> i + 3" for i
  proof -
    have "unat size0 \<le> 2 ^ (i + 4) \<longleftrightarrow> unat (s - 1) < 2 ^ (i + 4)"
    proof -
      have "(16 :: nat) \<le> 2 ^ (i + 4)" by (simp add: power_add)
      then show ?thesis unfolding n s by linarith
    qed
    also have "\<dots> \<longleftrightarrow> k < i + 4"
    proof
      assume "unat (s - 1) < 2 ^ (i + 4)"
      then have "(2 :: nat) ^ k < 2 ^ (i + 4)" using k(1) by (rule order_le_less_trans [rotated])
      then show "k < i + 4" by (simp add: power_strict_increasing_iff)
    next
      assume "k < i + 4"
      then have "(2 :: nat) ^ Suc k \<le> 2 ^ (i + 4)" by (intro power_increasing) simp_all
      then show "unat (s - 1) < 2 ^ (i + 4)" using k(2) by linarith
    qed
    finally show ?thesis by linarith
  qed
  show ?thesis
  proof (cases "k \<le> 15")
    case True
    then have "k = 3 \<or> k = 4 \<or> k = 5 \<or> k = 6 \<or> k = 7 \<or> k = 8 \<or> k = 9 \<or> k = 10 \<or> k = 11 \<or> k = 12 \<or> k = 13 \<or> k = 14 \<or> k = 15"
      using k3 by presburger
    then have log: "log2_of (2 ^ Suc k) = Suc k" by (elim disjE) (simp_all add: log2_of_def)
    have "find (\<lambda>i. unat size0 \<le> 2 ^ (i + 4)) [0..<13] = Some (k - 3)"
      unfolding find_Some_iff fits using True k3 by (intro exI [of _ "k - 3"]) auto
    moreover have "size_class size0 = Some (k - 3)"
      unfolding size_class_def s_def [symmetric] u Let_def log using k3 by (simp add: MIN_SIZE_POWER_def)
    ultimately show ?thesis by (simp add: STATIC_CACHE_COUNT_def MIN_SIZE_POWER_def)
  next
    case False
    have "unat (2 ^ Suc k :: u64) = 0 \<or> 65536 < unat (2 ^ Suc k :: u64)"
    proof (cases "Suc k < 64")
      case True
      then have "(2 :: nat) ^ Suc k < 2 ^ 64" by (intro power_strict_increasing) simp_all
      then have "unat (of_nat (2 ^ Suc k) :: u64) = 2 ^ Suc k" unfolding unat_of_nat by simp
      then have "unat (2 ^ Suc k :: u64) = 2 ^ Suc k" by simp
      moreover have "(2 :: nat) ^ 17 \<le> 2 ^ Suc k" using False by (intro power_increasing) simp_all
      ultimately show ?thesis by simp
    next
      case False
      then have "Suc k = 64" using \<open>k < 64\<close> by simp
      then show ?thesis by simp
    qed
    then have "log2_of (2 ^ Suc k) = 0" by (auto simp: log2_of_def)
    then have "size_class size0 = None" unfolding size_class_def s_def [symmetric] u by (simp add: Let_def MIN_SIZE_POWER_def)
    moreover have "find (\<lambda>i. unat size0 \<le> 2 ^ (i + 4)) [0..<13] = None" unfolding find_None_iff fits using False by auto
    ultimately show ?thesis by (simp add: STATIC_CACHE_COUNT_def MIN_SIZE_POWER_def)
  qed
qed

text \<open>A small object with an alignment of a page has a cache of the on-slab type, but no object fits on a slab.\<close>

lemma page_aligned_small_object:
  "create_on_slab (block_size 8 PAGE_SIZE) page h = None" "snd (init_cache_object c r nc flags onc map_ptr 8 PAGE_SIZE sc h) = 0"
  by (simp_all add: create_on_slab_def block_size_def PAGE_SIZE_def SLAB_SIZE_def slab_capacity_def min_of_def MAX_OBJECT_COUNT_def
      init_cache_object_def Let_def)

end
