(* ===== verification/Fat_Volume.thy ===== *)
theory Fat_Volume
  imports Bytes Strings
begin

text \<open>
  The FAT volume layer (\<^verbatim>\<open>Src/VirtualFileSystem/FAT\<close>): the FAT32 engine, the volume manager that reads
  and writes table entries and clusters on a mass storage device, file entries, and the part of the
  file entry manager that changes the volume. The device is a parameter: \<open>msd_read\<close> gives the bytes it
  has read (\<open>None\<close>: request not handled), \<open>msd_write\<close> the number of bytes written. \<open>None\<close> of an
  operation is a loop that does not end.
\<close>

section \<open>On-disk structures\<close>

record bpb =
  bytes_per_sector :: u16
  sectors_per_cluster :: u8
  reserved_sector_count :: u16
  fat_count :: u8
  root_entry_count :: u16
  total_sectors_16 :: u16
  media_descriptor_type :: u8
  fat_size_16 :: u16
  sectors_per_track :: u16
  head_count :: u16
  hidden_sector_count :: u32
  total_sectors_32 :: u32

record boot_record = bpb +
  fat_size_32 :: u32
  bs_flags :: u16
  fat_version :: u16
  root_cluster :: u32
  fs_info :: u16
  backup_bs_sector :: u16
  drive_number :: u8
  bs_signature :: u8
  volume_id :: u32
  volume_label :: string
  system_id :: string
  signature_word :: u16

definition READONLY :: u8 where "READONLY = 0x01"
definition HIDDEN :: u8 where "HIDDEN = 0x02"
definition SYSTEM :: u8 where "SYSTEM = 0x04"
definition VOLUME_ID :: u8 where "VOLUME_ID = 0x08"
definition DIRECTORY :: u8 where "DIRECTORY = 0x10"
definition ARCHIVE :: u8 where "ARCHIVE = 0x20"
definition LONG_FILE_NAME :: u8 where "LONG_FILE_NAME = 0x0F"

text \<open>The 32 bytes of a file entry; \<open>short_name\<close> has 11 of them.\<close>

record file_entry =
  short_name :: "u8 list"
  attributes :: u8
  nt_reserved :: u8
  creation_time_millis :: u8
  creation_time :: u16
  creation_date :: u16
  last_accessed_date :: u16
  first_cluster_high :: u16
  last_modification_time :: u16
  last_modification_date :: u16
  first_cluster_low :: u16
  file_size :: u32

definition new_file_entry :: file_entry where
  "new_file_entry = \<lparr>short_name = replicate 11 0, attributes = 0, nt_reserved = 0, creation_time_millis = 0,
     creation_time = 0, creation_date = 0, last_accessed_date = 0, first_cluster_high = 0,
     last_modification_time = 0, last_modification_date = 0, first_cluster_low = 0, file_size = 0\<rparr>"

definition bytes16 :: "u16 \<Rightarrow> u8 list" where "bytes16 n = le_bytes16 n [0, 0]"
definition bytes32 :: "u32 \<Rightarrow> u8 list" where "bytes32 n = le_bytes32 n [0, 0, 0, 0]"

text \<open>The layout that the reinterpreting casts between bytes and file entries rely on.\<close>

definition entry_bytes :: "file_entry \<Rightarrow> u8 list" where
  "entry_bytes e = short_name e @ [attributes e, nt_reserved e, creation_time_millis e] @ bytes16 (creation_time e) @
     bytes16 (creation_date e) @ bytes16 (last_accessed_date e) @ bytes16 (first_cluster_high e) @
     bytes16 (last_modification_time e) @ bytes16 (last_modification_date e) @ bytes16 (first_cluster_low e) @
     bytes32 (file_size e)"

definition bytes_entry :: "u8 list \<Rightarrow> file_entry" where
  "bytes_entry b = \<lparr>short_name = take 11 b, attributes = b ! 11, nt_reserved = b ! 12, creation_time_millis = b ! 13,
     creation_time = le_to_u16 (drop 14 b), creation_date = le_to_u16 (drop 16 b),
     last_accessed_date = le_to_u16 (drop 18 b), first_cluster_high = le_to_u16 (drop 20 b),
     last_modification_time = le_to_u16 (drop 22 b), last_modification_date = le_to_u16 (drop 24 b),
     first_cluster_low = le_to_u16 (drop 26 b), file_size = le_to_u32 (drop 28 b)\<rparr>"

definition MARK_EMPTY_END :: u8 where "MARK_EMPTY_END = 0x00"
definition MARK_EMPTY_MIDDLE :: u8 where "MARK_EMPTY_MIDDLE = 0xE5"

definition is_empty_end :: "file_entry \<Rightarrow> bool" where "is_empty_end e = (short_name e ! 0 = MARK_EMPTY_END)"
definition is_empty_middle :: "file_entry \<Rightarrow> bool" where "is_empty_middle e = (short_name e ! 0 = MARK_EMPTY_MIDDLE)"

definition cluster_of :: "file_entry \<Rightarrow> u32" where
  "cluster_of e = push_bit 16 (ucast (first_cluster_high e)) OR ucast (first_cluster_low e)"

definition has_attribute :: "file_entry \<Rightarrow> u8 \<Rightarrow> bool" where
  "has_attribute e attr =
     (if attr = READONLY then bit (attributes e) 0 else if attr = HIDDEN then bit (attributes e) 1
      else if attr = SYSTEM then bit (attributes e) 2 else if attr = VOLUME_ID then bit (attributes e) 3
      else if attr = DIRECTORY then bit (attributes e) 4 else if attr = ARCHIVE then bit (attributes e) 5
      else if attr = LONG_FILE_NAME then attributes e AND LONG_FILE_NAME = LONG_FILE_NAME else False)"

definition compute_short_name_checksum :: "file_entry \<Rightarrow> u8" where
  "compute_short_name_checksum e =
     foldl (\<lambda>c i. (if c AND 1 \<noteq> 0 then 0x80 else 0) + drop_bit 1 c + i) 0 (short_name e)"

text \<open>
  Names. \<open>char\<close> is signed in the code, so characters above 127 are negative and in none of the ranges.
  \<open>validate_short_name\<close> reads up to the allowed length; \<open>None\<close> is a read behind the storage of the string,
  24 characters for a short string.
\<close>

definition is_name_char :: "char \<Rightarrow> bool" where
  "is_name_char c = (0x30 \<le> code c \<and> code c \<le> 0x39 \<or> 0x41 \<le> code c \<and> code c \<le> 0x5A \<or> 0x61 \<le> code c \<and> code c \<le> 0x7A \<or>
     c \<in> set ''$%-_@~`!(){}^#&'' \<or> code c = 0x27)"

definition validate_short_name :: "string \<Rightarrow> nat \<Rightarrow> bool option" where
  "validate_short_name nm allowed_length =
     (if allowed_length < length nm then Some False
      else if nm \<noteq> [] \<and> hd nm = CHR '' '' then Some False
      else if \<not> list_all (\<lambda>c. c = CHR 0x00 \<or> is_name_char c) nm then Some False
      else if (if length nm < 24 then 24 else length nm + 1) < allowed_length then None else Some True)"

definition MAX_FILE_NAME_SIZE :: nat where "MAX_FILE_NAME_SIZE = 255"

definition validate_long_name :: "string \<Rightarrow> bool" where
  "validate_long_name nm =
     (if MAX_FILE_NAME_SIZE < length nm then False
      else if nm \<noteq> [] \<and> hd nm = CHR '' '' then False
      else list_all (\<lambda>c. c = CHR 0x00 \<or> is_name_char c \<or> c \<in> set ''.+,;=[]'') nm)"

definition make_short_name :: "file_entry \<Rightarrow> string" where
  "make_short_name e =
     (let nm = replace_char (map (\<lambda>x. char_of (unat x)) (take 8 (short_name e))) (CHR '' '') (CHR 0x00);
          ext = replace_char (map (\<lambda>x. char_of (unat x)) (take 3 (drop 8 (short_name e)))) (CHR '' '') (CHR 0x00)
      in if 0 < length ext then nm @ ''.'' @ ext else nm)"

section \<open>The FAT32 engine\<close>

definition FAT_16_MAX_CLUSTERS :: u32 where "FAT_16_MAX_CLUSTERS = 65525"
definition FAT_EOF :: u32 where "FAT_EOF = 0xFFFFFFFF"
definition RESERVED_BITS_MASK :: u32 where "RESERVED_BITS_MASK = 0xF0000000"
definition ENTRY_MASK :: u32 where "ENTRY_MASK = 0x0FFFFFFF"
definition MAX_CLUSTER_COUNT :: u32 where "MAX_CLUSTER_COUNT = 0x0FFFFFF0"
definition CLUSTER_COUNT_PER_SECTOR :: u16 where "CLUSTER_COUNT_PER_SECTOR = 128"

text \<open>The narrowing assignments to the fields of the boot record are written as casts.\<close>

definition make_new_boot_record :: "u32 \<Rightarrow> u32 \<Rightarrow> boot_record" where
  "make_new_boot_record sector_size sector_count =
     (let non_reserved = sector_count - 32;
          size = div_round_up (non_reserved div 1) (sector_size div 4);
          size = size - div_round_up size sector_size * 1 * 2
      in \<lparr>bytes_per_sector = ucast sector_size, sectors_per_cluster = 1, reserved_sector_count = 32, fat_count = 2,
          root_entry_count = 0, total_sectors_16 = 0, media_descriptor_type = 0xF8, fat_size_16 = 0,
          sectors_per_track = 0, head_count = 0, hidden_sector_count = 0, total_sectors_32 = sector_count,
          fat_size_32 = size, bs_flags = 0, fat_version = 0, root_cluster = 2, fs_info = 0, backup_bs_sector = 6,
          drive_number = 0x80, bs_signature = 0, volume_id = 0, volume_label = ''NO NAME    '',
          system_id = ''FAT32   '', signature_word = 0x55AA\<rparr>)"

definition can_mount :: "u32 \<Rightarrow> bool" where "can_mount total_clusters = (FAT_16_MAX_CLUSTERS \<le> total_clusters)"

definition fat_offset :: "u32 \<Rightarrow> u32" where "fat_offset cluster = cluster * 4"

definition u32_at :: "u8 list \<Rightarrow> nat \<Rightarrow> u32" where "u32_at b p = le_to_u32 (take 4 (drop p b))"

definition put_u32 :: "u8 list \<Rightarrow> nat \<Rightarrow> u32 \<Rightarrow> u8 list" where
  "put_u32 b p v = take p b @ bytes32 v @ drop (p + 4) b"

definition fat_get_entry :: "u8 list \<Rightarrow> u32 \<Rightarrow> u32" where
  "fat_get_entry fat off = u32_at fat (unat off) AND ENTRY_MASK"

definition fat_set_entry :: "u8 list \<Rightarrow> u32 \<Rightarrow> u32 \<Rightarrow> u8 list" where
  "fat_set_entry fat off new_entry =
     put_u32 fat (unat off) ((u32_at fat (unat off) AND RESERVED_BITS_MASK) OR (new_entry AND ENTRY_MASK))"

fun find_zero_entry :: "u8 list \<Rightarrow> u16 list \<Rightarrow> u16 option" where
  "find_zero_entry fat [] = None"
| "find_zero_entry fat (i # is) = (if u32_at fat (4 * unat i) = 0 then Some i else find_zero_entry fat is)"

definition fat_find_free_cluster :: "u8 list \<Rightarrow> u32 \<Rightarrow> u32" where
  "fat_find_free_cluster fat fat_sector_idx =
     (let cluster_count = 2 * CLUSTER_COUNT_PER_SECTOR
      in case find_zero_entry fat (map of_nat [(if fat_sector_idx = 0 then 2 else 0)..<unat cluster_count]) of
           Some i \<Rightarrow> fat_sector_idx * (ucast cluster_count div 2) + ucast i
         | None \<Rightarrow> MAX_CLUSTER_COUNT + 1)"

section \<open>The volume manager\<close>

record 'd msd_ops =
  msd_read :: "'d \<Rightarrow> u32 \<Rightarrow> nat \<Rightarrow> u8 list option"
  msd_write :: "'d \<Rightarrow> u32 \<Rightarrow> u8 list \<Rightarrow> 'd \<times> nat"

definition mass_storage_device_read :: "'d msd_ops \<Rightarrow> 'd \<Rightarrow> nat \<Rightarrow> u32 \<Rightarrow> u8 list" where
  "mass_storage_device_read ms d buf_size lba = (case msd_read ms d lba buf_size of Some b \<Rightarrow> b | None \<Rightarrow> [])"

definition two_sector_size :: "'a bpb_scheme \<Rightarrow> nat" where
  "two_sector_size b = unat (ucast (bytes_per_sector b) * 2 :: u32)"

definition fat_sector_number :: "'a bpb_scheme \<Rightarrow> u32 \<Rightarrow> u32" where
  "fat_sector_number b byte_offset = ucast (reserved_sector_count b) + byte_offset div ucast (bytes_per_sector b)"

definition fat_read :: "'d msd_ops \<Rightarrow> 'd \<Rightarrow> boot_record \<Rightarrow> u32 \<Rightarrow> u32" where
  "fat_read ms d b cluster =
     (let byte_offset = fat_offset cluster;
          fat = mass_storage_device_read ms d (two_sector_size b) (fat_sector_number b byte_offset)
      in if length fat < two_sector_size b then FAT_EOF
         else fat_get_entry fat (byte_offset mod ucast (bytes_per_sector b)))"

definition fat_write :: "'d msd_ops \<Rightarrow> 'd \<Rightarrow> boot_record \<Rightarrow> u32 \<Rightarrow> u32 \<Rightarrow> 'd \<times> bool" where
  "fat_write ms d b cluster fat_value =
     (let sz = two_sector_size b;
          byte_offset = fat_offset cluster;
          off = byte_offset mod ucast (bytes_per_sector b);
          sector = fat_sector_number b byte_offset;
          fat = mass_storage_device_read ms d sz sector
      in if length fat < sz then (d, False)
         else let (d, n) = msd_write ms d sector (fat_set_entry fat off fat_value)
         in if n < sz then (d, False)
            else let backup = sector + fat_size_32 b;
                     fat = mass_storage_device_read ms d sz backup
            in if length fat < sz then (d, False)
               else let (d, n) = msd_write ms d backup (fat_set_entry fat off fat_value)
                    in (d, n = sz))"

definition cluster_size :: "'a bpb_scheme \<Rightarrow> nat" where
  "cluster_size b = unat (bytes_per_sector b) * unat (sectors_per_cluster b)"

partial_function (option) find_free_from :: "'d msd_ops \<Rightarrow> 'd \<Rightarrow> boot_record \<Rightarrow> u32 \<Rightarrow> u32 option" where
  "find_free_from ms d b i =
     (if i < fat_size_32 b then
        let fat = mass_storage_device_read ms d (2 * cluster_size b) (ucast (reserved_sector_count b) + i)
        in if length fat < 2 * cluster_size b then Some 0
           else let c = fat_find_free_cluster fat i
                in if 1 < c \<and> c \<le> MAX_CLUSTER_COUNT then Some c else find_free_from ms d b (i + 2)
      else Some 0)"

declare find_free_from.simps [code]

definition fat_find_next_free_cluster :: "'d msd_ops \<Rightarrow> 'd \<Rightarrow> boot_record \<Rightarrow> u32 option" where
  "fat_find_next_free_cluster ms d b = find_free_from ms d b 0"

definition data_cluster_to_lba :: "boot_record \<Rightarrow> u64 \<Rightarrow> u64" where
  "data_cluster_to_lba b cluster =
     ucast (reserved_sector_count b) + ucast (ucast (fat_count b) * fat_size_32 b) +
     (cluster - 2) * ucast (sectors_per_cluster b)"

definition data_cluster_read :: "'d msd_ops \<Rightarrow> 'd \<Rightarrow> boot_record \<Rightarrow> u32 \<Rightarrow> u8 list option" where
  "data_cluster_read ms d b cluster =
     (let buf = mass_storage_device_read ms d (cluster_size b) (ucast (data_cluster_to_lba b (ucast cluster)))
      in if length buf = cluster_size b then Some buf else None)"

definition data_cluster_write :: "'d msd_ops \<Rightarrow> 'd \<Rightarrow> boot_record \<Rightarrow> u8 list \<Rightarrow> u32 \<Rightarrow> 'd \<times> bool" where
  "data_cluster_write ms d b buf cluster =
     (let (d, n) = msd_write ms d (ucast (data_cluster_to_lba b (ucast cluster))) buf in (d, n = cluster_size b))"

section \<open>File entries on the volume\<close>

record entry_location =
  loc_cluster :: u32
  entry_idx :: u16

record located_entry =
  file_name :: string
  fentry :: file_entry
  location :: entry_location
  first_lfn_entry :: entry_location

definition update_entry :: "'d msd_ops \<Rightarrow> 'd \<Rightarrow> boot_record \<Rightarrow> located_entry \<Rightarrow> 'd \<times> bool" where
  "update_entry ms d b e =
     (case data_cluster_read ms d b (loc_cluster (location e)) of
        None \<Rightarrow> (d, False)
      | Some buf \<Rightarrow>
          let p = 32 * unat (entry_idx (location e))
          in data_cluster_write ms d b (take p buf @ entry_bytes (fentry e) @ drop (p + 32) buf) (loc_cluster (location e)))"

definition set_first_cluster :: "located_entry \<Rightarrow> u32 \<Rightarrow> located_entry" where
  "set_first_cluster e c =
     e\<lparr>fentry := (fentry e)\<lparr>first_cluster_low := ucast (the (word_get c 0)), first_cluster_high := ucast (the (word_get c 1))\<rparr>\<rparr>"

definition allocate_cluster ::
  "'d msd_ops \<Rightarrow> 'd \<Rightarrow> boot_record \<Rightarrow> located_entry \<Rightarrow> u32 \<Rightarrow> ('d \<times> located_entry \<times> u32) option" where
  "allocate_cluster ms d b e last_file_cluster =
     (case fat_find_next_free_cluster ms d b of
        None \<Rightarrow> None
      | Some free_cluster \<Rightarrow> Some (
          if free_cluster = 0 then (d, e, 0)
          else if last_file_cluster = 0 then
            let e = set_first_cluster e free_cluster; (d, ok) = update_entry ms d b e
            in if \<not> ok then (d, e, 0)
               else let (d, ok) = fat_write ms d b free_cluster FAT_EOF
                    in if \<not> ok then let e = set_first_cluster e 0 in (fst (update_entry ms d b e), e, 0)
                       else (d, e, free_cluster)
          else
            let (d, ok) = fat_write ms d b last_file_cluster free_cluster
            in if \<not> ok then (d, e, 0)
               else let (d, ok) = fat_write ms d b free_cluster FAT_EOF
                    in if \<not> ok then (fst (fat_write ms d b last_file_cluster FAT_EOF), e, 0)
                       else (d, e, free_cluster)))"

end
