(* ===== verification/Fat_Table.thy ===== *)
theory Fat_Table
  imports Fat_Volume
begin

text \<open>
  What the FAT volume layer promises: on a device that stores what is written, the file allocation
  table is a map from clusters to entries and the data region a map from clusters to blocks. Proofs
  about files use these maps only (locale \<open>fat_table\<close>).
\<close>

section \<open>The device\<close>

text \<open>
  The documented behaviour of a mass storage device with \<open>n\<close> sectors of \<open>ss\<close> bytes: requests for whole
  sectors inside of the device are served; \<open>disk\<close> is its content.
\<close>

definition block_device :: "'d msd_ops \<Rightarrow> ('d \<Rightarrow> bool) \<Rightarrow> ('d \<Rightarrow> nat \<Rightarrow> u8) \<Rightarrow> nat \<Rightarrow> nat \<Rightarrow> bool" where
  "block_device ms ok disk ss n \<longleftrightarrow>
     (\<forall>d l k. ok d \<and> ss dvd k \<and> unat l * ss + k \<le> n * ss \<longrightarrow>
        msd_read ms d l k = Some (map (disk d) [unat l * ss..<unat l * ss + k])) \<and>
     (\<forall>d l b. ok d \<and> ss dvd length b \<and> unat l * ss + length b \<le> n * ss \<longrightarrow>
        (\<exists>d'. msd_write ms d l b = (d', length b) \<and> ok d' \<and>
          disk d' = (\<lambda>a. if unat l * ss \<le> a \<and> a < unat l * ss + length b then b ! (a - unat l * ss) else disk d a)))"

text \<open>A volume as \<open>make_new_boot_record\<close> lays it out, with a table of an even number of sectors.\<close>

definition fat_volume :: "'d msd_ops \<Rightarrow> ('d \<Rightarrow> bool) \<Rightarrow> ('d \<Rightarrow> nat \<Rightarrow> u8) \<Rightarrow> nat \<Rightarrow> boot_record \<Rightarrow> bool" where
  "fat_volume ms ok disk n b \<longleftrightarrow>
     block_device ms ok disk 512 n \<and> n \<le> 2 ^ 32 \<and> bytes_per_sector b = 512 \<and> fat_count b = 2 \<and>
     0 < unat (sectors_per_cluster b) \<and> even (unat (fat_size_32 b)) \<and> unat (fat_size_32 b) < 2 ^ 21 \<and>
     unat (reserved_sector_count b) + 2 * unat (fat_size_32 b) + 2 * unat (sectors_per_cluster b) < n"

definition entry_ok :: "boot_record \<Rightarrow> u32 \<Rightarrow> bool" where
  "entry_ok b c \<longleftrightarrow> unat c < 128 * unat (fat_size_32 b)"

definition data_ok :: "nat \<Rightarrow> boot_record \<Rightarrow> u32 \<Rightarrow> bool" where
  "data_ok n b c \<longleftrightarrow> 2 \<le> unat c \<and> unat (reserved_sector_count b) + 2 * unat (fat_size_32 b) +
     (unat c - 1) * unat (sectors_per_cluster b) \<le> n"

section \<open>Bytes of the table\<close>

definition raw_entry :: "(nat \<Rightarrow> u8) \<Rightarrow> nat \<Rightarrow> u32" where "raw_entry D q = le_to_u32 (map D [q..<q + 4])"

definition entry_pos :: "boot_record \<Rightarrow> u32 \<Rightarrow> nat" where
  "entry_pos b c = unat (reserved_sector_count b) * 512 + 4 * unat c"

definition put_bytes :: "(nat \<Rightarrow> u8) \<Rightarrow> nat \<Rightarrow> u8 list \<Rightarrow> nat \<Rightarrow> u8" where
  "put_bytes D q bs = (\<lambda>a. if q \<le> a \<and> a < q + length bs then bs ! (a - q) else D a)"

lemma length_bytes32 [simp]: "length (bytes32 v) = 4"
  by (simp add: bytes32_def le_bytes32_def)

lemma le_to_u32_bytes32 [simp]: "le_to_u32 (bytes32 v) = v"
  using byte_order_roundtrip_32 [of "[0, 0, 0, 0]" v] by (simp add: bytes32_def)

lemma u32_at_map: "p + 4 \<le> k \<Longrightarrow> u32_at (map D [a..<a + k]) p = raw_entry D (a + p)"
  by (simp add: u32_at_def raw_entry_def drop_map take_map add.assoc)

lemma length_put_u32: "p + 4 \<le> length b \<Longrightarrow> length (put_u32 b p v) = length b"
  by (simp add: put_u32_def)

lemma put_u32_nth:
  assumes "p + 4 \<le> length b" and "i < length b"
  shows "put_u32 b p v ! i = (if p \<le> i \<and> i < p + 4 then bytes32 v ! (i - p) else b ! i)"
  using assms by (auto simp: put_u32_def nth_append)

text \<open>Writing a buffer back with one entry changed changes the four bytes of the entry.\<close>

lemma put_bytes_buffer:
  assumes "p + 4 \<le> k"
  shows "put_bytes D a (put_u32 (map D [a..<a + k]) p v) = put_bytes D (a + p) (bytes32 v)"
proof
  fix x
  have l: "length (put_u32 (map D [a..<a + k]) p v) = k" using assms by (simp add: length_put_u32)
  show "put_bytes D a (put_u32 (map D [a..<a + k]) p v) x = put_bytes D (a + p) (bytes32 v) x"
  proof (cases "a \<le> x \<and> x < a + k")
    case True
    then have "put_u32 (map D [a..<a + k]) p v ! (x - a) =
        (if p \<le> x - a \<and> x - a < p + 4 then bytes32 v ! (x - a - p) else D x)"
      using assms by (subst put_u32_nth) auto
    then show ?thesis using True assms by (auto simp: put_bytes_def l diff_diff_left)
  next
    case False
    then show ?thesis using assms by (auto simp: put_bytes_def l)
  qed
qed

lemma raw_entry_put:
  assumes "4 dvd q" and "4 dvd q'"
  shows "raw_entry (put_bytes D q (bytes32 v)) q' = (if q' = q then v else raw_entry D q')"
proof (cases "q' = q")
  case True
  have "map (put_bytes D q (bytes32 v)) [q..<q + 4] = bytes32 v"
    by (rule nth_equalityI) (simp_all add: put_bytes_def)
  then show ?thesis using True by (simp add: raw_entry_def)
next
  case False
  obtain i j where "q = 4 * i" "q' = 4 * j" using assms by (auto elim!: dvdE)
  then have "q + 4 \<le> q' \<or> q' + 4 \<le> q" using False by (cases "i < j") auto
  then show ?thesis using False by (auto simp: raw_entry_def put_bytes_def intro!: arg_cong [of _ _ le_to_u32])
qed

lemma raw_entry_put_other:
  "q' + 4 \<le> q \<or> q + length bs \<le> q' \<Longrightarrow> raw_entry (put_bytes D q bs) q' = raw_entry D q'"
  by (auto simp: raw_entry_def put_bytes_def intro!: arg_cong [of _ _ le_to_u32])

lemma map_put_other:
  "a + k \<le> q \<or> q + length bs \<le> a \<Longrightarrow> map (put_bytes D q bs) [a..<a + k] = map D [a..<a + k]"
  by (auto simp: put_bytes_def)

lemma map_put_all: "length bs = k \<Longrightarrow> map (put_bytes D a bs) [a..<a + k] = bs"
  by (rule nth_equalityI) (simp_all add: put_bytes_def)

section \<open>Requests of the volume manager\<close>

lemma device_read:
  assumes "block_device ms ok disk 512 n" "ok d" "512 dvd k" "unat l * 512 + k \<le> n * 512"
  shows "mass_storage_device_read ms d k l = map (disk d) [unat l * 512..<unat l * 512 + k]"
  using assms by (simp add: block_device_def mass_storage_device_read_def)

lemma device_write:
  assumes "block_device ms ok disk 512 n" "ok d" "512 dvd length bs" "unat l * 512 + length bs \<le> n * 512"
  obtains d' where "msd_write ms d l bs = (d', length bs)" "ok d'" "disk d' = put_bytes (disk d) (unat l * 512) bs"
  using assms unfolding block_device_def put_bytes_def by blast

lemma fat_volumeD:
  assumes "fat_volume ms ok disk n b"
  shows "block_device ms ok disk 512 n" "two_sector_size b = 1024" "(ucast (bytes_per_sector b) :: u32) = 512"
    "cluster_size b = 512 * unat (sectors_per_cluster b)"
  using assms by (auto simp: fat_volume_def two_sector_size_def cluster_size_def)

lemma sector_split: "(r + k div 128) * 512 + 4 * (k mod 128) = r * 512 + 4 * (k :: nat)"
proof -
  obtain q m where "k div 128 = q" "k mod 128 = m" "k = q * 128 + m" using div_mult_mod_eq [of k 128] by metis
  then show ?thesis by simp
qed

lemma entry_address:
  assumes "fat_volume ms ok disk n b" and "entry_ok b c"
  shows "unat (fat_sector_number b (fat_offset c)) = unat (reserved_sector_count b) + unat c div 128"
    "unat (fat_offset c mod 512) = 4 * (unat c mod 128)"
    "unat (fat_sector_number b (fat_offset c)) * 512 + unat (fat_offset c mod 512) = entry_pos b c"
    "unat c div 128 < unat (fat_size_32 b)"
proof -
  have F: "unat (fat_size_32 b) < 2 ^ 21" using assms(1) by (simp add: fat_volume_def)
  have c: "unat c < 128 * unat (fat_size_32 b)" using assms(2) by (simp add: entry_ok_def)
  have o: "unat (fat_offset c) = 4 * unat c"
    using c F unfolding fat_offset_def by (subst unat_mult_no_wrap) simp_all
  show d: "unat c div 128 < unat (fat_size_32 b)" using c by (simp add: less_mult_imp_div_less mult.commute)
  have q: "unat (fat_offset c div 512) = unat c div 128"
    by (simp add: unat_div_word o div_mult2_eq [of _ 4 128, simplified])
  have r: "unat (ucast (reserved_sector_count b) :: u32) = unat (reserved_sector_count b)"
    by (simp add: unat_ucast_up)
  have "unat (reserved_sector_count b) < 2 ^ 16" using unsigned_less [of "reserved_sector_count b"] by simp
  then show s: "unat (fat_sector_number b (fat_offset c)) = unat (reserved_sector_count b) + unat c div 128"
    using d F unfolding fat_sector_number_def fat_volumeD(3) [OF assms(1)]
    by (subst unat_plus_no_wrap) (simp_all add: q r)
  show m: "unat (fat_offset c mod 512) = 4 * (unat c mod 128)"
    using mod_mult_mult1 [of 4 "unat c" 128] by (simp add: unat_mod_word o)
  show "unat (fat_sector_number b (fat_offset c)) * 512 + unat (fat_offset c mod 512) = entry_pos b c"
    unfolding s m entry_pos_def by (rule sector_split)
qed

text \<open>The table and the data region as maps.\<close>

definition table_entry :: "('d \<Rightarrow> nat \<Rightarrow> u8) \<Rightarrow> boot_record \<Rightarrow> 'd \<Rightarrow> u32 \<Rightarrow> u32" where
  "table_entry disk b d c = raw_entry (disk d) (entry_pos b c) AND ENTRY_MASK"

definition table_free :: "('d \<Rightarrow> nat \<Rightarrow> u8) \<Rightarrow> boot_record \<Rightarrow> 'd \<Rightarrow> u32 \<Rightarrow> bool" where
  "table_free disk b d c \<longleftrightarrow> raw_entry (disk d) (entry_pos b c) = 0"

definition data_pos :: "boot_record \<Rightarrow> u32 \<Rightarrow> nat" where
  "data_pos b c = (unat (reserved_sector_count b) + 2 * unat (fat_size_32 b) +
     (unat c - 2) * unat (sectors_per_cluster b)) * 512"

definition data_block :: "('d \<Rightarrow> nat \<Rightarrow> u8) \<Rightarrow> boot_record \<Rightarrow> 'd \<Rightarrow> u32 \<Rightarrow> u8 list" where
  "data_block disk b d c = map (disk d) [data_pos b c..<data_pos b c + cluster_size b]"

lemma entry_pos_dvd: "4 dvd entry_pos b c"
  by (simp add: entry_pos_def)

lemma entry_pos_eq_iff: "entry_pos b c = entry_pos b c' \<longleftrightarrow> c = c'"
  by (simp add: entry_pos_def word_unat_eq_iff)

lemma entry_pos_bound:
  "entry_ok b c \<Longrightarrow> entry_pos b c + 4 \<le> (unat (reserved_sector_count b) + unat (fat_size_32 b)) * 512"
  by (simp add: entry_pos_def entry_ok_def)

lemma fat_buffer:
  assumes "fat_volume ms ok disk n b" and "ok d" and "entry_ok b c"
  shows "mass_storage_device_read ms d 1024 (fat_sector_number b (fat_offset c)) =
    map (disk d) [unat (fat_sector_number b (fat_offset c)) * 512..<unat (fat_sector_number b (fat_offset c)) * 512 + 1024]"
    "unat (fat_offset c mod 512) + 4 \<le> 1024"
proof -
  note e = entry_address [OF assms(1,3)]
  show "mass_storage_device_read ms d 1024 (fat_sector_number b (fat_offset c)) =
    map (disk d) [unat (fat_sector_number b (fat_offset c)) * 512..<unat (fat_sector_number b (fat_offset c)) * 512 + 1024]"
    using e(1,4) assms(1) by (intro device_read [OF fat_volumeD(1) [OF assms(1)] assms(2)]) (auto simp: fat_volume_def)
  show "unat (fat_offset c mod 512) + 4 \<le> 1024" using e(2) by simp
qed

lemma fat_read_entry:
  assumes "fat_volume ms ok disk n b" and "ok d" and "entry_ok b c"
  shows "fat_read ms d b c = table_entry disk b d c"
  using fat_buffer [OF assms] entry_address(3) [OF assms(1,3)] fat_volumeD [OF assms(1)]
  by (simp add: fat_read_def Let_def fat_get_entry_def u32_at_map table_entry_def)

text \<open>One of the two writes of \<open>fat_write\<close>, at the sector of the first or the second table.\<close>

lemma set_entry_write:
  assumes bd: "block_device ms ok disk 512 n" and "ok d" and s: "(unat s + 2) * 512 \<le> n * 512"
    and "unat off + 4 \<le> 1024"
  obtains d' where
    "msd_write ms d s (fat_set_entry (map (disk d) [unat s * 512..<unat s * 512 + 1024]) off v) = (d', 1024)" "ok d'"
    "disk d' = put_bytes (disk d) (unat s * 512 + unat off)
      (bytes32 ((raw_entry (disk d) (unat s * 512 + unat off) AND RESERVED_BITS_MASK) OR (v AND ENTRY_MASK)))"
proof -
  let ?b = "map (disk d) [unat s * 512..<unat s * 512 + 1024]"
  let ?v = "(raw_entry (disk d) (unat s * 512 + unat off) AND RESERVED_BITS_MASK) OR (v AND ENTRY_MASK)"
  have set: "fat_set_entry ?b off v = put_u32 ?b (unat off) ?v"
    using assms(4) by (simp add: fat_set_entry_def u32_at_map)
  have len: "length (put_u32 ?b (unat off) ?v) = 1024" using assms(4) by (simp add: length_put_u32)
  obtain d' where "msd_write ms d s (put_u32 ?b (unat off) ?v) = (d', 1024)" "ok d'"
    "disk d' = put_bytes (disk d) (unat s * 512) (put_u32 ?b (unat off) ?v)"
    using device_write [OF bd assms(2), of "put_u32 ?b (unat off) ?v" s] s unfolding len by auto
  then show thesis using that put_bytes_buffer [OF assms(4), of "disk d" "unat s * 512" ?v] set by simp
qed

lemma masked_entry: "((r AND RESERVED_BITS_MASK) OR (v AND ENTRY_MASK)) AND ENTRY_MASK = v AND ENTRY_MASK"
proof -
  have "RESERVED_BITS_MASK AND ENTRY_MASK = 0" by (simp add: RESERVED_BITS_MASK_def ENTRY_MASK_def)
  moreover have "((r AND RESERVED_BITS_MASK) OR (v AND ENTRY_MASK)) AND ENTRY_MASK =
      (r AND (RESERVED_BITS_MASK AND ENTRY_MASK)) OR (v AND (ENTRY_MASK AND ENTRY_MASK))"
    by (simp only: bit.conj_disj_distrib2 and.assoc)
  ultimately show ?thesis by simp
qed

lemma fat_write_entry:
  assumes v: "fat_volume ms ok disk n b" and "ok d" and c: "entry_ok b c"
  shows "\<exists>d'. fat_write ms d b c v = (d', True) \<and> ok d' \<and>
    (\<forall>c'. entry_ok b c' \<longrightarrow> table_entry disk b d' c' = (if c' = c then v AND ENTRY_MASK else table_entry disk b d c')) \<and>
    (\<forall>c'. entry_ok b c' \<and> c' \<noteq> c \<longrightarrow> table_free disk b d' c' = table_free disk b d c') \<and>
    (\<forall>c'. data_ok n b c' \<longrightarrow> data_block disk b d' c' = data_block disk b d c')"
proof -
  let ?R = "unat (reserved_sector_count b)" and ?F = "unat (fat_size_32 b)"
  let ?s = "fat_sector_number b (fat_offset c)" and ?off = "fat_offset c mod 512"
  note e = entry_address [OF v c] and bd = fat_volumeD(1) [OF v] and buf = fat_buffer [OF v _ c]
  have g: "?R + 2 * ?F + 2 \<le> n" "n \<le> 2 ^ 32" using v by (auto simp: fat_volume_def)
  have s2: "unat (?s + fat_size_32 b) = unat ?s + ?F" using e(1,4) g by (intro no_wrap) simp
  obtain d1 where d1: "msd_write ms d ?s (fat_set_entry (map (disk d) [unat ?s * 512..<unat ?s * 512 + 1024]) ?off v) = (d1, 1024)"
    "ok d1" "disk d1 = put_bytes (disk d) (entry_pos b c)
      (bytes32 ((raw_entry (disk d) (entry_pos b c) AND RESERVED_BITS_MASK) OR (v AND ENTRY_MASK)))"
    using set_entry_write [OF bd assms(2) _ buf(2) [OF assms(2)], of ?s v] e(1,3,4) g(1) by auto
  have r2: "mass_storage_device_read ms d1 1024 (?s + fat_size_32 b) =
      map (disk d1) [unat (?s + fat_size_32 b) * 512..<unat (?s + fat_size_32 b) * 512 + 1024]"
    using e(1,4) g(1) s2 by (intro device_read [OF bd d1(2)]) auto
  let ?q = "unat (?s + fat_size_32 b) * 512 + unat ?off"
  have p2: "(unat (?s + fat_size_32 b) + 2) * 512 \<le> n * 512" using e(1,4) g(1) s2 by simp
  obtain d2 v2 where d2: "msd_write ms d1 (?s + fat_size_32 b) (fat_set_entry
      (map (disk d1) [unat (?s + fat_size_32 b) * 512..<unat (?s + fat_size_32 b) * 512 + 1024]) ?off v) = (d2, 1024)"
    "ok d2" "disk d2 = put_bytes (disk d1) ?q (bytes32 v2)"
    using set_entry_write [OF bd d1(2) p2 buf(2) [OF assms(2)], of v] by blast
  have run: "fat_write ms d b c v = (d2, True)"
    using buf(1) [OF assms(2)] d1(1) r2 d2(1) fat_volumeD [OF v] by (simp add: fat_write_def Let_def)
  have q: "?q = entry_pos b c + ?F * 512" using s2 e(3) by simp
  have ent: "table_entry disk b d2 c' = (if c' = c then v AND ENTRY_MASK else table_entry disk b d c')"
    "c' \<noteq> c \<longrightarrow> table_free disk b d2 c' = table_free disk b d c'" if "entry_ok b c'" for c'
  proof -
    have "entry_pos b c' + 4 \<le> ?q" using entry_pos_bound [OF that] by (simp add: q entry_pos_def)
    then have "raw_entry (disk d2) (entry_pos b c') = raw_entry (disk d1) (entry_pos b c')"
      using d2(3) by (simp add: raw_entry_put_other)
    then show "table_entry disk b d2 c' = (if c' = c then v AND ENTRY_MASK else table_entry disk b d c')"
      "c' \<noteq> c \<longrightarrow> table_free disk b d2 c' = table_free disk b d c'"
      unfolding table_entry_def table_free_def d1(3) using raw_entry_put [OF entry_pos_dvd entry_pos_dvd]
      by (simp_all add: entry_pos_eq_iff masked_entry)
  qed
  have "data_block disk b d2 c' = data_block disk b d c'" if "data_ok n b c'" for c'
  proof -
    have p: "?q + 4 \<le> data_pos b c'" "entry_pos b c + 4 \<le> data_pos b c'"
      using entry_pos_bound [OF c] by (simp_all add: q data_pos_def)
    then show ?thesis
      unfolding data_block_def d2(3) d1(3) by (simp add: map_put_other del: map_eq_conv)
  qed
  then show ?thesis using run d2(2) ent by blast
qed

section \<open>The search for a free cluster\<close>

lemma find_zero_entry_spec:
  "case find_zero_entry fat js of
     Some i \<Rightarrow> i \<in> set js \<and> u32_at fat (4 * unat i) = 0
   | None \<Rightarrow> \<forall>i \<in> set js. u32_at fat (4 * unat i) \<noteq> 0"
  by (induction js) (auto split: option.splits)

lemma even_sector_step:
  assumes "unat i + 2 \<le> k" and "k < 2 ^ 21"
  shows "unat (i + 2 :: u32) = unat i + 2"
  using assms by (subst unat_plus_no_wrap) simp_all

lemma free_cluster_number:
  assumes "unat i < 2 ^ 21" and "unat j < 256"
  shows "unat (i * (ucast (2 * CLUSTER_COUNT_PER_SECTOR) div 2) + ucast (j :: u16) :: u32) = 128 * unat i + unat j"
proof -
  have c: "(ucast (2 * CLUSTER_COUNT_PER_SECTOR) div 2 :: u32) = 128" by (simp add: CLUSTER_COUNT_PER_SECTOR_def)
  have m: "unat (i * 128) = unat i * 128" using assms(1) by (subst unat_mult_no_wrap) simp_all
  have j: "unat (ucast j :: u32) = unat j" by (simp add: unat_ucast_up)
  show ?thesis unfolding c using assms by (subst unat_plus_no_wrap) (simp_all add: m j)
qed

lemma fat_find_free_cluster_spec:
  assumes fb: "fat = map D [(r + unat i) * 512..<(r + unat i) * 512 + k]" and k: "1024 \<le> k"
    and i: "unat i < 2 ^ 21 - 1" and r: "r = unat (reserved_sector_count b)"
  shows "fat_find_free_cluster fat i = MAX_CLUSTER_COUNT + 1 \<and>
      (\<forall>c. 128 * unat i \<le> unat c \<and> unat c < 128 * unat i + 256 \<and> 2 \<le> unat c \<longrightarrow> raw_entry D (entry_pos b c) \<noteq> 0) \<or>
    (\<exists>c. fat_find_free_cluster fat i = c \<and> 128 * unat i \<le> unat c \<and> unat c < 128 * unat i + 256 \<and> 2 \<le> unat c \<and>
      raw_entry D (entry_pos b c) = 0)"
proof -
  let ?from = "(if i = 0 then 2 else 0) :: nat"
  let ?is = "map of_nat [?from..<256] :: u16 list"
  have u: "unat (of_nat j :: u16) = j" if "j < 256" for j using that by (simp add: unat_of_nat)
  have cnt: "unat (2 * CLUSTER_COUNT_PER_SECTOR) = 256" by (simp add: CLUSTER_COUNT_PER_SECTOR_def)
  have at: "u32_at fat (4 * j) = raw_entry D (entry_pos b c)" if "j < 256" "unat c = 128 * unat i + j" for j c
    using that k unfolding fb by (subst u32_at_map) (simp_all add: entry_pos_def r algebra_simps)
  show ?thesis
  proof (cases "find_zero_entry fat ?is")
    case None
    then have nz: "u32_at fat (4 * j) \<noteq> 0" if "?from \<le> j" "j < 256" for j
      using find_zero_entry_spec [where fat = fat and js = ?is] that u by auto
    have "raw_entry D (entry_pos b c) \<noteq> 0"
      if c: "128 * unat i \<le> unat c" "unat c < 128 * unat i + 256" "2 \<le> unat c" for c
    proof -
      have "?from \<le> unat c - 128 * unat i" "unat c - 128 * unat i < 256" using c by (auto simp: word_unat_eq_iff)
      then show ?thesis using nz [of "unat c - 128 * unat i"] at [of "unat c - 128 * unat i" c] c by simp
    qed
    then show ?thesis using None by (simp add: fat_find_free_cluster_def cnt)
  next
    case (Some j)
    then have j: "unat j < 256" "?from \<le> unat j" "u32_at fat (4 * unat j) = 0"
      using find_zero_entry_spec [where fat = fat and js = ?is] u by auto
    let ?c = "i * (ucast (2 * CLUSTER_COUNT_PER_SECTOR) div 2) + ucast j :: u32"
    have c: "unat ?c = 128 * unat i + unat j" using i j(1) by (intro free_cluster_number) simp_all
    have "2 \<le> unat ?c" unfolding c using j(2) by (cases "i = 0") (auto simp: word_unat_eq_iff)
    moreover have "fat_find_free_cluster fat i = ?c" using Some by (simp add: fat_find_free_cluster_def cnt)
    ultimately show ?thesis using c j at [of "unat j" ?c] by auto
  qed
qed

lemma find_free_from_spec:
  assumes v: "fat_volume ms ok disk n b" and "ok d"
  shows "even (unat i) \<Longrightarrow> unat i \<le> unat (fat_size_32 b) \<Longrightarrow> \<exists>c. find_free_from ms d b i = Some c \<and>
    (if c = 0 then \<forall>c'. 128 * unat i \<le> unat c' \<and> 2 \<le> unat c' \<and> entry_ok b c' \<longrightarrow> \<not> table_free disk b d c'
     else entry_ok b c \<and> 2 \<le> unat c \<and> table_free disk b d c)"
proof (induction "unat (fat_size_32 b) - unat i" arbitrary: i rule: less_induct)
  case less
  let ?R = "unat (reserved_sector_count b)" and ?F = "unat (fat_size_32 b)" and ?S = "unat (sectors_per_cluster b)"
  have g: "?R + 2 * ?F + 2 * ?S < n" "n \<le> 2 ^ 32" "?F < 2 ^ 21" "even ?F" "0 < ?S" using v by (auto simp: fat_volume_def)
  show ?case
  proof (cases "i < fat_size_32 b")
    case False
    then have "unat i = ?F" using less.prems(2) by (simp add: word_less_nat_alt)
    then show ?thesis using False by (subst find_free_from.simps) (auto simp: entry_ok_def)
  next
    case True
    then have lt: "unat i < ?F" by (simp add: word_less_nat_alt)
    then have le: "unat i + 2 \<le> ?F" using less.prems(1) g(4) by (auto elim!: evenE)
    have cs: "2 * cluster_size b = 1024 * ?S" using fat_volumeD(4) [OF v] by simp
    have s: "unat (ucast (reserved_sector_count b) + i) = ?R + unat i"
      using le g by (subst unat_plus_no_wrap) (simp_all add: unat_ucast_up)
    let ?fat = "map (disk d) [(?R + unat i) * 512..<(?R + unat i) * 512 + 2 * cluster_size b]"
    have rd: "mass_storage_device_read ms d (2 * cluster_size b) (ucast (reserved_sector_count b) + i) = ?fat"
      using device_read [OF fat_volumeD(1) [OF v] assms(2), of "2 * cluster_size b" "ucast (reserved_sector_count b) + i"]
        le g by (simp add: s cs)
    have k: "1024 \<le> 2 * cluster_size b" using cs g(5) by simp
    have big: "MAX_CLUSTER_COUNT = 0x0FFFFFF0" by (simp add: MAX_CLUSTER_COUNT_def)
    consider (no) "fat_find_free_cluster ?fat i = MAX_CLUSTER_COUNT + 1"
        "\<forall>c. 128 * unat i \<le> unat c \<and> unat c < 128 * unat i + 256 \<and> 2 \<le> unat c \<longrightarrow> raw_entry (disk d) (entry_pos b c) \<noteq> 0"
      | (yes) c where "fat_find_free_cluster ?fat i = c" "128 * unat i \<le> unat c" "unat c < 128 * unat i + 256"
        "2 \<le> unat c" "raw_entry (disk d) (entry_pos b c) = 0"
      using fat_find_free_cluster_spec [OF refl k _ refl, of "i" "disk d" b] le g(3) by auto
    then show ?thesis
    proof cases
      case yes
      then have "1 < c" "c \<le> MAX_CLUSTER_COUNT" "entry_ok b c"
        using le g(3) by (simp_all add: word_less_nat_alt word_le_nat_alt big entry_ok_def)
      then show ?thesis using True rd yes by (subst find_free_from.simps) (auto simp: Let_def table_free_def)
    next
      case no
      have up: "unat (i + 2) = unat i + 2" using even_sector_step [OF le g(3)] .
      have run: "find_free_from ms d b i = find_free_from ms d b (i + 2)"
        using True rd no(1) by (subst find_free_from.simps) (simp add: Let_def MAX_CLUSTER_COUNT_def)
      have m: "?F - unat (i + 2) < ?F - unat i" using up le by linarith
      obtain c where c: "find_free_from ms d b (i + 2) = Some c"
        "if c = 0 then \<forall>c'. 128 * unat (i + 2) \<le> unat c' \<and> 2 \<le> unat c' \<and> entry_ok b c' \<longrightarrow> \<not> table_free disk b d c'
         else entry_ok b c \<and> 2 \<le> unat c \<and> table_free disk b d c"
        using less.hyps [OF m] up le less.prems(1) by auto
      have "\<not> table_free disk b d c'"
        if "c = 0" "128 * unat i \<le> unat c'" "2 \<le> unat c'" "entry_ok b c'" for c'
        using that c(2) no(2) up by (cases "unat c' < 128 * unat i + 256") (auto simp: table_free_def)
      then show ?thesis using run c by auto
    qed
  qed
qed

section \<open>The data region\<close>

lemma data_address:
  assumes v: "fat_volume ms ok disk n b" and c: "data_ok n b c"
  shows "unat (ucast (data_cluster_to_lba b (ucast c)) :: u32) * 512 = data_pos b c"
    "data_pos b c + cluster_size b \<le> n * 512"
proof -
  let ?R = "unat (reserved_sector_count b)" and ?F = "unat (fat_size_32 b)" and ?S = "unat (sectors_per_cluster b)"
  have g: "n \<le> 2 ^ 32" "?F < 2 ^ 21" "fat_count b = 2" "cluster_size b = 512 * ?S" "0 < ?S"
    using v fat_volumeD(4) [OF v] by (auto simp: fat_volume_def)
  have c2: "2 \<le> unat c" "?R + 2 * ?F + (unat c - 1) * ?S \<le> n" using c by (auto simp: data_ok_def)
  have e: "(unat c - 1) * ?S = (unat c - 2) * ?S + ?S" using c2(1) by (metis Suc_1 Suc_diff_Suc Suc_le_lessD add.commute diff_Suc_1 diff_Suc_eq_diff_pred mult_Suc)
  show "data_pos b c + cluster_size b \<le> n * 512"
  proof -
    obtain x where x: "(unat c - 2) * ?S = x" by blast
    show ?thesis using c2(2) unfolding e data_pos_def g(4) x by simp
  qed
  have m: "unat ((ucast c - 2 :: u64) * ucast (sectors_per_cluster b)) = (unat c - 2) * ?S"
    using c2(1) c2(2) g(1) unfolding e
    by (subst unat_mult_no_wrap; subst unat_minus_no_wrap) (simp_all add: unat_ucast_up)
  have f: "unat (ucast (ucast (fat_count b) * fat_size_32 b :: u32) :: u64) = 2 * ?F"
    using g(2) by (simp add: unat_ucast_up g(3)) (subst unat_mult_no_wrap, simp_all)
  have r: "unat (ucast (reserved_sector_count b) :: u64) = ?R" by (simp add: unat_ucast_up)
  have lba: "unat (data_cluster_to_lba b (ucast c)) = ?R + 2 * ?F + (unat c - 2) * ?S"
    unfolding data_cluster_to_lba_def using c2(2) g(1) unfolding e
    by (subst unat_plus_no_wrap; subst unat_plus_no_wrap) (simp_all add: m f r)
  have "?R + 2 * ?F + (unat c - 2) * ?S < 2 ^ 32" using c2(2) g(1,5) unfolding e by linarith
  then show "unat (ucast (data_cluster_to_lba b (ucast c)) :: u32) * 512 = data_pos b c"
    by (simp add: unat_ucast_64_32 lba data_pos_def)
qed

lemma data_pos_disjoint:
  assumes "2 \<le> unat c" and "2 \<le> unat c'" and "c \<noteq> c'" and "cluster_size b = 512 * unat (sectors_per_cluster b)"
  shows "data_pos b c + cluster_size b \<le> data_pos b c' \<or> data_pos b c' + cluster_size b \<le> data_pos b c"
proof -
  have le: "(unat x - 2) * unat (sectors_per_cluster b) + unat (sectors_per_cluster b) \<le> (unat y - 2) * unat (sectors_per_cluster b)"
    if "2 \<le> unat x" "unat x < unat y" for x y :: u32
  proof -
    have "unat x - 2 + 1 \<le> unat y - 2" using that by simp
    then have "(unat x - 2 + 1) * unat (sectors_per_cluster b) \<le> (unat y - 2) * unat (sectors_per_cluster b)"
      by (rule mult_le_mono1)
    then show ?thesis by simp
  qed
  have "unat c < unat c' \<or> unat c' < unat c" using assms(3) by (simp add: word_unat_eq_iff nat_neq_iff)
  then show ?thesis using le [of c c'] le [of c' c] assms by (auto simp: data_pos_def)
qed

lemma data_cluster_read_block:
  assumes v: "fat_volume ms ok disk n b" and "ok d" and c: "data_ok n b c"
  shows "data_cluster_read ms d b c = Some (data_block disk b d c)"
proof -
  note a = data_address [OF v c]
  have "mass_storage_device_read ms d (cluster_size b) (ucast (data_cluster_to_lba b (ucast c))) = data_block disk b d c"
    using device_read [OF fat_volumeD(1) [OF v] assms(2), of "cluster_size b" "ucast (data_cluster_to_lba b (ucast c))"]
      a fat_volumeD(4) [OF v] by (simp add: data_block_def)
  then show ?thesis by (simp add: data_cluster_read_def Let_def data_block_def)
qed

lemma data_cluster_write_block:
  assumes v: "fat_volume ms ok disk n b" and "ok d" and c: "data_ok n b c" and len: "length buf = cluster_size b"
  shows "\<exists>d'. data_cluster_write ms d b buf c = (d', True) \<and> ok d' \<and>
    (\<forall>c'. entry_ok b c' \<longrightarrow> raw_entry (disk d') (entry_pos b c') = raw_entry (disk d) (entry_pos b c')) \<and>
    (\<forall>c'. data_ok n b c' \<longrightarrow> data_block disk b d' c' = (if c' = c then buf else data_block disk b d c'))"
proof -
  note a = data_address [OF v c]
  obtain d' where d': "msd_write ms d (ucast (data_cluster_to_lba b (ucast c))) buf = (d', length buf)" "ok d'"
    "disk d' = put_bytes (disk d) (data_pos b c) buf"
    using device_write [OF fat_volumeD(1) [OF v] assms(2), of buf "ucast (data_cluster_to_lba b (ucast c))"]
      a len fat_volumeD(4) [OF v] by (auto simp: a(1))
  have "raw_entry (disk d') (entry_pos b c') = raw_entry (disk d) (entry_pos b c')" if "entry_ok b c'" for c'
    unfolding d'(3) using entry_pos_bound [OF that] by (intro raw_entry_put_other) (simp add: data_pos_def)
  moreover have "data_block disk b d' c' = (if c' = c then buf else data_block disk b d c')" if "data_ok n b c'" for c'
  proof (cases "c' = c")
    case True
    then show ?thesis using map_put_all [OF len] by (simp add: data_block_def d'(3))
  next
    case False
    then have "data_pos b c' + cluster_size b \<le> data_pos b c \<or> data_pos b c + length buf \<le> data_pos b c'"
      using data_pos_disjoint [of c' c b] c that fat_volumeD(4) [OF v] by (auto simp: data_ok_def len)
    then show ?thesis using False by (simp add: data_block_def d'(3) map_put_other del: map_eq_conv)
  qed
  moreover have "data_cluster_write ms d b buf c = (d', True)" using d'(1) len by (simp add: data_cluster_write_def)
  ultimately show ?thesis using d'(2) by blast
qed

section \<open>The interface of the table\<close>

text \<open>
  What the file layer relies on: the state \<open>d\<close> of a device carries a map from clusters to table
  entries, the set of free entries, and a map from clusters to blocks.
\<close>

locale fat_table =
  fixes ms :: "'d msd_ops" and b :: boot_record and fok :: "'d \<Rightarrow> bool"
    and evalid :: "u32 \<Rightarrow> bool" and dvalid :: "u32 \<Rightarrow> bool"
    and entry :: "'d \<Rightarrow> u32 \<Rightarrow> u32" and free :: "'d \<Rightarrow> u32 \<Rightarrow> bool" and block :: "'d \<Rightarrow> u32 \<Rightarrow> u8 list"
  assumes small: "fok d \<Longrightarrow> evalid c \<Longrightarrow> c AND ENTRY_MASK = c"
    and free_entry: "free d c \<Longrightarrow> entry d c = 0"
    and read_entry: "fok d \<Longrightarrow> evalid c \<Longrightarrow> fat_read ms d b c = entry d c"
    and write_entry: "fok d \<Longrightarrow> evalid c \<Longrightarrow> \<exists>d'. fat_write ms d b c v = (d', True) \<and> fok d' \<and>
      (\<forall>c'. evalid c' \<longrightarrow> entry d' c' = (if c' = c then v AND ENTRY_MASK else entry d c')) \<and>
      (\<forall>c'. evalid c' \<and> c' \<noteq> c \<longrightarrow> free d' c' = free d c') \<and>
      (\<forall>c'. dvalid c' \<longrightarrow> block d' c' = block d c')"
    and find_free: "fok d \<Longrightarrow> \<exists>c. fat_find_next_free_cluster ms d b = Some c \<and>
      (if c = 0 then \<forall>c'. evalid c' \<and> 2 \<le> unat c' \<longrightarrow> \<not> free d c' else evalid c \<and> 2 \<le> unat c \<and> free d c)"
    and block_size: "length (block d c) = cluster_size b"
    and read_block: "fok d \<Longrightarrow> dvalid c \<Longrightarrow> data_cluster_read ms d b c = Some (block d c)"
    and write_block: "fok d \<Longrightarrow> dvalid c \<Longrightarrow> length buf = cluster_size b \<Longrightarrow>
      \<exists>d'. data_cluster_write ms d b buf c = (d', True) \<and> fok d' \<and>
        (\<forall>c'. evalid c' \<longrightarrow> entry d' c' = entry d c' \<and> free d' c' = free d c') \<and>
        (\<forall>c'. dvalid c' \<longrightarrow> block d' c' = (if c' = c then buf else block d c'))"

text \<open>A chain of clusters: every entry names the next cluster, the last one marks the end of the file.\<close>

fun chain :: "(u32 \<Rightarrow> u32) \<Rightarrow> u32 list \<Rightarrow> bool" where
  "chain ent [] = False"
| "chain ent [c] = (MAX_CLUSTER_COUNT + 1 \<le> ent c)"
| "chain ent (c # c' # cs) = (ent c = c' \<and> chain ent (c' # cs))"

definition clusters_ok :: "(u32 \<Rightarrow> bool) \<Rightarrow> u32 list \<Rightarrow> bool" where
  "clusters_ok evalid cs \<longleftrightarrow> distinct cs \<and> (\<forall>c \<in> set cs. evalid c \<and> 2 \<le> unat c)"

lemma chain_nonzero:
  "chain ent cs \<Longrightarrow> (\<forall>c \<in> set cs. 2 \<le> unat c) \<Longrightarrow> c \<in> set cs \<Longrightarrow> ent c \<noteq> 0"
  by (induction ent cs rule: chain.induct) (auto simp: MAX_CLUSTER_COUNT_def)

lemma chain_extend:
  assumes "chain ent (cs @ [l])" and "distinct (cs @ [l])" and "\<forall>c \<in> set cs. ent' c = ent c"
    and "ent' l = c" and "MAX_CLUSTER_COUNT + 1 \<le> ent' c"
  shows "chain ent' (cs @ [l, c])"
  using assms(1-3)
proof (induction cs)
  case (Cons a cs)
  then show ?case by (cases cs) (auto simp: assms)
qed (simp add: assms)

context fat_table begin

lemma eof_entry: "MAX_CLUSTER_COUNT + 1 \<le> FAT_EOF AND ENTRY_MASK"
  by (simp add: MAX_CLUSTER_COUNT_def FAT_EOF_def ENTRY_MASK_def)

lemma allocate_cluster_chain:
  assumes ok: "fok d" and ch: "chain (entry d) (cs @ [l])" and cs: "clusters_ok evalid (cs @ [l])"
  shows "\<exists>d' c. allocate_cluster ms d b e l = Some (d', e, c) \<and> fok d' \<and>
    (if c = 0 then d' = d \<and> (\<forall>c'. evalid c' \<and> 2 \<le> unat c' \<longrightarrow> \<not> free d c')
     else free d c \<and> chain (entry d') (cs @ [l, c]) \<and> clusters_ok evalid (cs @ [l, c]) \<and>
       (\<forall>c'. evalid c' \<and> c' \<noteq> l \<and> c' \<noteq> c \<longrightarrow> entry d' c' = entry d c') \<and>
       (\<forall>c'. evalid c' \<and> free d' c' \<longrightarrow> free d c' \<and> c' \<noteq> c)) \<and>
    (\<forall>c'. dvalid c' \<longrightarrow> block d' c' = block d c')"
proof -
  obtain c where c: "fat_find_next_free_cluster ms d b = Some c"
    "if c = 0 then \<forall>c'. evalid c' \<and> 2 \<le> unat c' \<longrightarrow> \<not> free d c' else evalid c \<and> 2 \<le> unat c \<and> free d c"
    using find_free [OF ok] by blast
  have l: "evalid l" "l \<noteq> 0" using cs by (auto simp: clusters_ok_def)
  show ?thesis
  proof (cases "c = 0")
    case True
    then show ?thesis using c ok by (auto simp: allocate_cluster_def)
  next
    case False
    then have cv: "evalid c" "2 \<le> unat c" "free d c" using c(2) by simp_all
    obtain d1 where d1: "fat_write ms d b l c = (d1, True)" "fok d1"
      "\<forall>c'. evalid c' \<longrightarrow> entry d1 c' = (if c' = l then c AND ENTRY_MASK else entry d c')"
      "\<forall>c'. dvalid c' \<longrightarrow> block d1 c' = block d c'"
      "\<forall>c'. evalid c' \<and> c' \<noteq> l \<longrightarrow> free d1 c' = free d c'"
      using write_entry [OF ok l(1)] by blast
    obtain d2 where d2: "fat_write ms d1 b c FAT_EOF = (d2, True)" "fok d2"
      "\<forall>c'. evalid c' \<longrightarrow> entry d2 c' = (if c' = c then FAT_EOF AND ENTRY_MASK else entry d1 c')"
      "\<forall>c'. dvalid c' \<longrightarrow> block d2 c' = block d1 c'"
      "\<forall>c'. evalid c' \<and> c' \<noteq> c \<longrightarrow> free d2 c' = free d1 c'"
      using write_entry [OF d1(2) cv(1)] by blast
    have run: "allocate_cluster ms d b e l = Some (d2, e, c)"
      using c(1) False l(2) d1(1) d2(1) by (simp add: allocate_cluster_def)
    have new: "c \<notin> set (cs @ [l])"
      using chain_nonzero [OF ch, of c] cs free_entry [OF cv(3)] by (auto simp: clusters_ok_def)
    have "chain (entry d2) (cs @ [l, c])"
    proof (rule chain_extend [OF ch])
      show "\<forall>c' \<in> set cs. entry d2 c' = entry d c'" using d1(3) d2(3) cs new by (auto simp: clusters_ok_def)
      show "entry d2 l = c" using d1(3) d2(3) l(1) new small [OF ok cv(1)] by auto
      show "MAX_CLUSTER_COUNT + 1 \<le> entry d2 c" using d2(3) cv(1) eof_entry by simp
    qed (use cs in \<open>simp add: clusters_ok_def\<close>)
    moreover have "clusters_ok evalid (cs @ [l, c])" using cs new cv by (auto simp: clusters_ok_def)
    moreover have "entry d2 c' = entry d c'" if "evalid c'" "c' \<noteq> l" "c' \<noteq> c" for c'
      using that d1(3) d2(3) by simp
    moreover have "free d c' \<and> c' \<noteq> c" if "evalid c'" "free d2 c'" for c'
    proof -
      have nz: "entry d2 c \<noteq> 0" "entry d2 l \<noteq> 0"
        using d1(3) d2(3) cv l(1) new small [OF ok cv(1)] eof_entry by (auto simp: FAT_EOF_def ENTRY_MASK_def)
      then have "c' \<noteq> c" "c' \<noteq> l" using free_entry [OF that(2)] by auto
      then show ?thesis using that d1(5) d2(5) by simp
    qed
    ultimately show ?thesis using run False cv(3) d1(4) d2(2,4) by simp
  qed
qed

end

lemma entry_ok_small:
  assumes "fat_volume ms ok disk n b" and "entry_ok b c"
  shows "c AND ENTRY_MASK = c"
proof -
  have "unat c < 2 ^ 28" using assms by (simp add: fat_volume_def entry_ok_def)
  then have "unat (take_bit 28 c) = unat c" by (simp add: unsigned_take_bit_eq take_bit_nat_eq_self)
  then have "take_bit 28 c = c" by (rule word_unat_eqI)
  then show ?thesis by (simp add: take_bit_eq_mask mask_eq_exp_minus_1 ENTRY_MASK_def)
qed

interpretation fv: fat_table ms b "\<lambda>d. fat_volume ms ok disk n b \<and> ok d" "entry_ok b" "data_ok n b"
  "table_entry disk b" "table_free disk b" "data_block disk b" for ms b ok disk n
proof unfold_locales
  fix d c assume "fat_volume ms ok disk n b \<and> ok d" "entry_ok b c"
  then show "c AND ENTRY_MASK = c" by (blast intro: entry_ok_small)
next
  fix d :: 'a and c assume "fat_volume ms ok disk n b \<and> ok d" "entry_ok b c"
  then show "fat_read ms d b c = table_entry disk b d c" by (blast intro: fat_read_entry)
next
  fix d :: 'a assume "fat_volume ms ok disk n b \<and> ok d"
  then show "\<exists>c. fat_find_next_free_cluster ms d b = Some c \<and>
      (if c = 0 then \<forall>c'. entry_ok b c' \<and> 2 \<le> unat c' \<longrightarrow> \<not> table_free disk b d c'
       else entry_ok b c \<and> 2 \<le> unat c \<and> table_free disk b d c)"
    using find_free_from_spec [of ms ok disk n b d 0] by (auto simp: fat_find_next_free_cluster_def)
next
  fix d :: 'a and c and buf :: "u8 list"
  assume "fat_volume ms ok disk n b \<and> ok d" "data_ok n b c" "length buf = cluster_size b"
  then show "\<exists>d'. data_cluster_write ms d b buf c = (d', True) \<and> (fat_volume ms ok disk n b \<and> ok d') \<and>
      (\<forall>c'. entry_ok b c' \<longrightarrow> table_entry disk b d' c' = table_entry disk b d c' \<and> table_free disk b d' c' = table_free disk b d c') \<and>
      (\<forall>c'. data_ok n b c' \<longrightarrow> data_block disk b d' c' = (if c' = c then buf else data_block disk b d c'))"
    using data_cluster_write_block [of ms ok disk n b d c buf] by (auto simp: table_entry_def table_free_def)
next
  fix d :: 'a and c v assume "fat_volume ms ok disk n b \<and> ok d" "entry_ok b c"
  then show "\<exists>d'. fat_write ms d b c v = (d', True) \<and> (fat_volume ms ok disk n b \<and> ok d') \<and>
      (\<forall>c'. entry_ok b c' \<longrightarrow> table_entry disk b d' c' = (if c' = c then v AND ENTRY_MASK else table_entry disk b d c')) \<and>
      (\<forall>c'. entry_ok b c' \<and> c' \<noteq> c \<longrightarrow> table_free disk b d' c' = table_free disk b d c') \<and>
      (\<forall>c'. data_ok n b c' \<longrightarrow> data_block disk b d' c' = data_block disk b d c')"
    using fat_write_entry [of ms ok disk n b d c v] by blast
next
  fix d :: 'a and c assume "fat_volume ms ok disk n b \<and> ok d" "data_ok n b c"
  then show "data_cluster_read ms d b c = Some (data_block disk b d c)" by (blast intro: data_cluster_read_block)
qed (simp_all add: table_free_def table_entry_def data_block_def)

section \<open>Properties of the volume\<close>

text \<open>
  Correctness of table access: after \<open>fat_write\<close> has set an entry, \<open>fat_read\<close> finds the low 28 bits
  of the value there and the old value of every other entry.
\<close>

theorem fat_read_after_write:
  assumes "fat_volume ms ok disk n b" and "ok d" and "entry_ok b c"
  shows "\<exists>d'. fat_write ms d b c v = (d', True) \<and> ok d' \<and>
    (\<forall>c'. entry_ok b c' \<longrightarrow> fat_read ms d' b c' = (if c' = c then v AND ENTRY_MASK else fat_read ms d b c'))"
proof -
  obtain d' where d': "fat_write ms d b c v = (d', True)" "fat_volume ms ok disk n b \<and> ok d'"
    "\<forall>c'. entry_ok b c' \<longrightarrow> table_entry disk b d' c' = (if c' = c then v AND ENTRY_MASK else table_entry disk b d c')"
    using fv.write_entry [of ms ok disk n b d c v] assms by blast
  then show ?thesis using fv.read_entry [of ms ok disk n b] assms by auto
qed

text \<open>A device that keeps its sectors in memory, and a small volume on it.\<close>

definition ram_ops :: "u8 list msd_ops" where
  "ram_ops = \<lparr>msd_read = (\<lambda>d l k. if unat l * 512 + k \<le> length d then Some (take k (drop (unat l * 512) d)) else None),
     msd_write = (\<lambda>d l bs. if unat l * 512 + length bs \<le> length d
       then (take (unat l * 512) d @ bs @ drop (unat l * 512 + length bs) d, length bs) else (d, 0))\<rparr>"

definition small_volume :: boot_record where
  "small_volume = (make_new_boot_record 512 8)\<lparr>reserved_sector_count := 1, fat_size_32 := 2\<rparr>"

lemma ram_device: "block_device ram_ops (\<lambda>d. length d = n * 512) (!) 512 n"
proof -
  have "map ((!) d) [a..<a + k] = take k (drop a d)" if "a + k \<le> length d" for d :: "u8 list" and a k
    using that by (intro nth_equalityI) simp_all
  moreover have "((!) (take a d @ bs @ drop (a + length bs) d)) i =
      (if a \<le> i \<and> i < a + length bs then bs ! (i - a) else d ! i)" if "a + length bs \<le> length d"
    for d bs :: "u8 list" and a i
    using that by (auto simp: nth_append)
  ultimately show ?thesis by (auto simp: block_device_def ram_ops_def intro!: ext)
qed

lemma small_volume_ok: "fat_volume ram_ops (\<lambda>d. length d = 12 * 512) (!) 12 small_volume"
  using ram_device [of 12] by (simp add: fat_volume_def small_volume_def make_new_boot_record_def Let_def)

lemma fat_read_after_write_witness:
  "\<exists>d. fat_write ram_ops (replicate (12 * 512) 0) small_volume 5 FAT_EOF = (d, True) \<and>
    fat_read ram_ops d small_volume 5 = 0x0FFFFFFF"
proof -
  have "entry_ok small_volume 5" by (simp add: entry_ok_def small_volume_def)
  moreover have "FAT_EOF AND ENTRY_MASK = 0x0FFFFFFF" by (simp add: FAT_EOF_def ENTRY_MASK_def)
  ultimately show ?thesis
    using fat_read_after_write [OF small_volume_ok, of "replicate (12 * 512) 0" 5 FAT_EOF] by force
qed

text \<open>
  Growth of a file: \<open>allocate_cluster\<close> appends a free cluster to the chain of the file if there is
  one, changes no other table entry and no data, and otherwise changes nothing.
\<close>

theorem allocate_cluster_appends:
  assumes "fat_volume ms ok disk n b" and "ok d"
    and "chain (table_entry disk b d) (cs @ [l])" and "clusters_ok (entry_ok b) (cs @ [l])"
  shows "\<exists>d' c. allocate_cluster ms d b e l = Some (d', e, c) \<and> ok d' \<and>
    (if c = 0 then d' = d \<and> (\<forall>c'. entry_ok b c' \<and> 2 \<le> unat c' \<longrightarrow> \<not> table_free disk b d c')
     else table_free disk b d c \<and> chain (table_entry disk b d') (cs @ [l, c]) \<and> clusters_ok (entry_ok b) (cs @ [l, c]) \<and>
       (\<forall>c'. entry_ok b c' \<and> c' \<noteq> l \<and> c' \<noteq> c \<longrightarrow> table_entry disk b d' c' = table_entry disk b d c') \<and>
       (\<forall>c'. entry_ok b c' \<and> table_free disk b d' c' \<longrightarrow> table_free disk b d c' \<and> c' \<noteq> c)) \<and>
    (\<forall>c'. data_ok n b c' \<longrightarrow> data_block disk b d' c' = data_block disk b d c')"
  using fv.allocate_cluster_chain [of ms ok disk n b d cs l e] assms by blast

text \<open>The entry of cluster 2 marks the end of the file, all others are free.\<close>

definition small_disk :: "u8 list" where
  "small_disk = replicate 520 0 @ [0xFF, 0xFF, 0xFF, 0x0F] @ replicate 5620 0"

lemma allocate_cluster_appends_witness:
  "\<exists>d' c. allocate_cluster ram_ops small_disk small_volume e 2 = Some (d', e, c) \<and> c \<noteq> 0 \<and>
    chain (table_entry (!) small_volume d') [2, c]"
proof -
  have d: "length small_disk = 12 * 512" by (simp add: small_disk_def)
  have e2: "table_entry (!) small_volume small_disk 2 = 0x0FFFFFFF" by code_simp
  have "table_free (!) small_volume small_disk 3" by code_simp
  moreover have "entry_ok small_volume 3" "entry_ok small_volume 2" by (simp_all add: entry_ok_def small_volume_def)
  ultimately show ?thesis
    using allocate_cluster_appends [OF small_volume_ok, of small_disk "[]" 2 e] d e2
    by (auto simp: clusters_ok_def MAX_CLUSTER_COUNT_def split: if_splits)
qed

lemma unat_div_round_up:
  fixes a d :: "'a::len word"
  assumes "unat a + unat d < 2 ^ LENGTH('a)" and "0 < unat d"
  shows "unat (div_round_up a d) = (unat a + (unat d - 1)) div unat d"
proof -
  have "unat (a + d - 1) = unat a + unat d - 1"
    using assms by (subst unat_minus_no_wrap; subst unat_plus_no_wrap) simp_all
  then show ?thesis using assms(2) by (simp add: div_round_up_def unat_div_word)
qed

text \<open>
  Size of the table: on a disk with sectors of 512 bytes the table of a new volume has an entry
  for every data cluster (and the two reserved entries).
\<close>

theorem new_table_covers_data:
  assumes "40000 \<le> unat sector_count" and "unat sector_count \<le> 4294967000"
  shows "let b = make_new_boot_record 512 sector_count
    in unat sector_count - 32 - 2 * unat (fat_size_32 b) + 2 \<le> 128 * unat (fat_size_32 b)"
proof -
  let ?m = "unat sector_count - 32" and ?s = "(unat sector_count - 32 + 127) div 128"
  have m: "unat (sector_count - 32) = ?m" using assms by (subst unat_minus_no_wrap) simp_all
  have s: "unat (div_round_up (sector_count - 32) (128 :: u32)) = ?s"
    using assms m unat_div_round_up [of "sector_count - 32" 128] by simp
  let ?c = "(?s + 511) div 512"
  have sb: "?s \<le> 40000000" using assms by simp
  have c: "unat (div_round_up (div_round_up (sector_count - 32) 128) (512 :: u32)) = ?c"
    using sb s unat_div_round_up [of "div_round_up (sector_count - 32) 128" 512] by simp
  have c2: "unat (div_round_up (div_round_up (sector_count - 32) 128) (512 :: u32) * 2) = 2 * ?c"
    using sb c by (subst unat_mult_no_wrap) simp_all
  have b1: "?m \<le> 128 * ?s" "200 \<le> ?s" using assms(1) by linarith+
  have b2: "512 * ?c \<le> ?s + 511" by simp
  have "unat (fat_size_32 (make_new_boot_record 512 sector_count)) = ?s - 2 * ?c"
    using b1(2) b2 s c2 unfolding make_new_boot_record_def Let_def
    by (simp add: mult.commute) (subst unat_minus_no_wrap, simp_all)
  then show ?thesis using b1 b2 unfolding Let_def by linarith
qed

lemma new_table_covers_data_witness:
  "2097152 - 32 - 2 * unat (fat_size_32 (make_new_boot_record 512 2097152)) + 2 \<le>
    128 * unat (fat_size_32 (make_new_boot_record 512 2097152))"
  using new_table_covers_data [of 2097152] by (simp add: Let_def)

text \<open>With sectors of 4096 bytes the table is too small: 64512 entries for 65890 clusters.\<close>

lemma table_too_small_4096:
  "fat_size_32 (make_new_boot_record 4096 66048) = 63" "63 * (4096 div 4) < 66048 - 32 - 2 * (63 :: nat) + 2"
  by code_simp simp

end
