(* ===== verification/Fat_File.thy ===== *)
theory Fat_File
  imports Fat_Table
begin

text \<open>
  Open files on a FAT volume (\<^verbatim>\<open>Src/VirtualFileSystem/FAT/FATNode.cpp\<close>): the cursor, reading, writing and
  seeking. \<open>None\<close> is a loop that does not end (a cycle in the table) or an access outside a buffer.
\<close>

section \<open>State\<close>

datatype io_mode = MODE_READ | MODE_WRITE | MODE_APPEND
datatype seek_mode = SEEK_BEGIN | SEEK_CURSOR | SEEK_END
datatype io_status = IO_OKAY | IO_BAD_ARGS | IO_NOT_ALLOWED | IO_NOT_SUPPORTED | IO_DEV_ERROR | IO_CLOSED

record fat_node =
  closed :: bool
  node_io_mode :: io_mode
  node_entry :: located_entry
  processed_clusters :: u32
  current_cluster :: u32
  cluster_offset :: u32

abbreviation node_size :: "fat_node \<Rightarrow> u32" where "node_size s \<equiv> file_size (fentry (node_entry s))"
abbreviation first_cluster :: "fat_node \<Rightarrow> u32" where "first_cluster s \<equiv> cluster_of (fentry (node_entry s))"

text \<open>The value of a table entry that names another cluster.\<close>

definition in_chain :: "u32 \<Rightarrow> bool" where "in_chain c = (c < MAX_CLUSTER_COUNT + 1)"

definition cluster_bytes :: "boot_record \<Rightarrow> u32" where
  "cluster_bytes b = ucast (bytes_per_sector b) * ucast (sectors_per_cluster b)"

section \<open>The cursor\<close>

text \<open>The walk to the last cluster of a file: its number and the number of clusters.\<close>

partial_function (option) last_cluster_loop ::
  "'d msd_ops \<Rightarrow> 'd \<Rightarrow> boot_record \<Rightarrow> u32 \<Rightarrow> u32 \<Rightarrow> u32 \<Rightarrow> (u32 \<times> u32) option" where
  "last_cluster_loop ms d b cluster last_file_cluster i =
     (if cluster \<noteq> 0 \<and> in_chain cluster
      then last_cluster_loop ms d b (fat_read ms d b cluster) cluster (i + 1)
      else Some (last_file_cluster, i))"

definition init_file_cursor :: "'d msd_ops \<Rightarrow> 'd \<Rightarrow> boot_record \<Rightarrow> fat_node \<Rightarrow> fat_node option" where
  "init_file_cursor ms d b s =
     (case last_cluster_loop ms d b (first_cluster s) (first_cluster s) 0 of
        None \<Rightarrow> None
      | Some (last_file_cluster, i) \<Rightarrow> Some (
          if node_io_mode s = MODE_APPEND then
            let processed = (if node_size s mod cluster_bytes b \<noteq> 0 then i - 1 else i)
            in s\<lparr>processed_clusters := processed, current_cluster := last_file_cluster,
                 cluster_offset := node_size s - processed * cluster_bytes b\<rparr>
          else s\<lparr>processed_clusters := 0, current_cluster := first_cluster s, cluster_offset := 0\<rparr>))"

definition open_fat_node :: "'d msd_ops \<Rightarrow> 'd \<Rightarrow> boot_record \<Rightarrow> io_mode \<Rightarrow> located_entry \<Rightarrow> fat_node option" where
  "open_fat_node ms d b mode e =
     init_file_cursor ms d b \<lparr>closed = False, node_io_mode = mode, node_entry = e,
       processed_clusters = 0, current_cluster = 0, cluster_offset = 0\<rparr>"

definition processed_bytes :: "boot_record \<Rightarrow> fat_node \<Rightarrow> u32" where
  "processed_bytes b s =
     processed_clusters s * ucast (bytes_per_sector b) * ucast (sectors_per_cluster b) + cluster_offset s"

definition NODE_READONLY :: u8 where "NODE_READONLY = 0x01"
definition NODE_HIDDEN :: u8 where "NODE_HIDDEN = 0x02"
definition NODE_SYSTEM :: u8 where "NODE_SYSTEM = 0x04"
definition NODE_DIRECTORY :: u8 where "NODE_DIRECTORY = 0x08"
definition NODE_FILE :: u8 where "NODE_FILE = 0x10"

definition node_has_attribute :: "fat_node \<Rightarrow> u8 \<Rightarrow> bool" where
  "node_has_attribute s f_attr =
     (if closed s then False
      else has_attribute (fentry (node_entry s))
        (if f_attr = NODE_READONLY then READONLY else if f_attr = NODE_HIDDEN then HIDDEN
         else if f_attr = NODE_SYSTEM then SYSTEM else if f_attr = NODE_DIRECTORY then DIRECTORY
         else if f_attr = NODE_FILE then ARCHIVE else 0))"

definition has_more :: "boot_record \<Rightarrow> fat_node \<Rightarrow> bool" where
  "has_more b s =
     (if closed s then False else if \<not> node_has_attribute s NODE_FILE then False
      else processed_bytes b s < node_size s)"

definition node_set_attribute :: "'d msd_ops \<Rightarrow> 'd \<Rightarrow> boot_record \<Rightarrow> fat_node \<Rightarrow> u8 \<Rightarrow> bool \<Rightarrow> 'd \<times> fat_node \<times> bool" where
  "node_set_attribute ms d b s n_attr val =
     (if closed s then (d, s, False)
      else if n_attr = NODE_FILE \<or> n_attr = NODE_DIRECTORY then (d, s, False)
      else let a = attributes (fentry (node_entry s));
               e = (node_entry s)\<lparr>fentry := (fentry (node_entry s))
                     \<lparr>attributes := (if val then a OR n_attr else a AND NOT n_attr)\<rparr>\<rparr>;
               (d, ok) = update_entry ms d b e
           in (d, s\<lparr>node_entry := e\<rparr>, ok))"

definition node_close :: "fat_node \<Rightarrow> fat_node" where "node_close s = s\<lparr>closed := True\<rparr>"

section \<open>Reading\<close>

text \<open>\<open>acc\<close> is what has been copied to the buffer of \<open>buf_size\<close> bytes.\<close>

partial_function (option) read_loop ::
  "'d msd_ops \<Rightarrow> 'd \<Rightarrow> boot_record \<Rightarrow> nat \<Rightarrow> fat_node \<Rightarrow> u8 list \<Rightarrow> (fat_node \<times> io_status \<times> u8 list) option" where
  "read_loop ms d b buf_size s acc =
     (if has_more b s \<and> length acc < buf_size then
        (case data_cluster_read ms d b (current_cluster s) of
           None \<Rightarrow> Some (s, IO_DEV_ERROR, acc)
         | Some tmp \<Rightarrow>
             if cluster_size b < unat (cluster_offset s) then None
             else
               let k = min (min (unat (node_size s) - unat (processed_bytes b s)) (buf_size - length acc))
                         (cluster_size b - unat (cluster_offset s));
                   acc = acc @ take k (drop (unat (cluster_offset s)) tmp);
                   s = s\<lparr>cluster_offset := cluster_offset s + of_nat k\<rparr>
               in if cluster_size b \<le> unat (cluster_offset s) then
                    let next_cluster = fat_read ms d b (current_cluster s)
                    in if \<not> in_chain next_cluster then Some (s, IO_OKAY, acc)
                       else read_loop ms d b buf_size
                              (s\<lparr>processed_clusters := processed_clusters s + 1, current_cluster := next_cluster,
                                 cluster_offset := 0\<rparr>) acc
                  else read_loop ms d b buf_size s acc)
      else Some (s, IO_OKAY, acc))"

text \<open>\<open>has_buf\<close> is false for a null pointer. The result holds the bytes in the buffer.\<close>

definition node_read ::
  "'d msd_ops \<Rightarrow> 'd \<Rightarrow> boot_record \<Rightarrow> fat_node \<Rightarrow> bool \<Rightarrow> nat \<Rightarrow> (fat_node \<times> io_status \<times> u8 list) option" where
  "node_read ms d b s has_buf buf_size =
     (if closed s then Some (s, IO_CLOSED, [])
      else if \<not> node_has_attribute s NODE_FILE then Some (s, IO_NOT_SUPPORTED, [])
      else if node_size s = 0 then Some (s, IO_OKAY, [])
      else if \<not> has_buf then Some (s, IO_BAD_ARGS, [])
      else if buf_size = 0 then Some (s, IO_OKAY, [])
      else read_loop ms d b buf_size s [])"

section \<open>Writing\<close>

text \<open>The loop over the clusters of a write; \<open>Some (status, count)\<close> is an early return.\<close>

partial_function (option) write_loop ::
  "'d msd_ops \<Rightarrow> boot_record \<Rightarrow> bool \<Rightarrow> u8 list \<Rightarrow> 'd \<Rightarrow> fat_node \<Rightarrow> nat \<Rightarrow>
   ('d \<times> fat_node \<times> nat \<times> (io_status \<times> nat) option) option" where
  "write_loop ms b first_write buf d s buf_pos =
     (if buf_pos < length buf then
        (case (if current_cluster s = 0 \<or> div_round_up (node_size s) (of_nat (cluster_size b)) \<le> processed_clusters s
               then allocate_cluster ms d b (node_entry s) (current_cluster s)
               else Some (d, node_entry s, current_cluster s)) of
           None \<Rightarrow> None
         | Some (d, e, c) \<Rightarrow>
             let s = s\<lparr>node_entry := e, current_cluster := c\<rparr>
             in if c = 0 then Some (d, s, buf_pos, Some (IO_DEV_ERROR, 0))
                else case data_cluster_read ms d b c of
                  None \<Rightarrow> Some (d, s, buf_pos, Some (IO_DEV_ERROR, buf_pos))
                | Some w \<Rightarrow>
                    let off = unat (cluster_offset s)
                    in if cluster_size b < off then None
                       else
                         let k = min (length buf - buf_pos) (cluster_size b - off);
                             w = take off w @ take k (drop buf_pos buf) @ drop (off + k) w;
                             w = (if node_io_mode s = MODE_WRITE \<and> first_write
                                  then take k w @ replicate (cluster_size b - k) 0 else w);
                             (d, ok) = data_cluster_write ms d b w c
                         in if \<not> ok then Some (d, s, buf_pos, Some (IO_DEV_ERROR, 0))
                            else
                              let s = s\<lparr>cluster_offset := cluster_offset s + of_nat k\<rparr>
                              in if cluster_size b \<le> unat (cluster_offset s) then
                                   let next_cluster = fat_read ms d b c;
                                       s = s\<lparr>processed_clusters := processed_clusters s + 1, cluster_offset := 0,
                                             current_cluster := (if in_chain next_cluster then next_cluster else c)\<rparr>
                                   in write_loop ms b first_write buf d s (buf_pos + k)
                                 else write_loop ms b first_write buf d s (buf_pos + k))
      else Some (d, s, buf_pos, None))"

text \<open>Freeing the clusters behind the new end of a file; the result is the new last cluster.\<close>

partial_function (option) shrink_loop ::
  "'d msd_ops \<Rightarrow> boot_record \<Rightarrow> u32 \<Rightarrow> 'd \<Rightarrow> u32 \<Rightarrow> u32 \<Rightarrow> u32 \<Rightarrow> ('d \<times> u32) option" where
  "shrink_loop ms b total_clusters d cluster i eof_cluster =
     (if cluster \<noteq> 0 \<and> in_chain cluster then
        let next_cluster = fat_read ms d b cluster
        in if i = total_clusters - 1 then shrink_loop ms b total_clusters d next_cluster (i + 1) cluster
           else if total_clusters - 1 < i
                then shrink_loop ms b total_clusters (fst (fat_write ms d b cluster 0)) next_cluster (i + 1) eof_cluster
                else shrink_loop ms b total_clusters d next_cluster (i + 1) eof_cluster
      else Some (d, eof_cluster))"

definition shrink_file :: "'d msd_ops \<Rightarrow> boot_record \<Rightarrow> 'd \<Rightarrow> fat_node \<Rightarrow> 'd option" where
  "shrink_file ms b d s =
     (case shrink_loop ms b (div_round_up (node_size s) (of_nat (cluster_size b))) d (first_cluster s) 0 0 of
        None \<Rightarrow> None
      | Some (d, eof_cluster) \<Rightarrow> Some (if 0 < eof_cluster then fst (fat_write ms d b eof_cluster FAT_EOF) else d))"

definition set_file_size :: "fat_node \<Rightarrow> u32 \<Rightarrow> fat_node" where
  "set_file_size s n = s\<lparr>node_entry := (node_entry s)\<lparr>fentry := (fentry (node_entry s))\<lparr>file_size := n\<rparr>\<rparr>\<rparr>"

definition node_write ::
  "'d msd_ops \<Rightarrow> 'd \<Rightarrow> boot_record \<Rightarrow> fat_node \<Rightarrow> u8 list option \<Rightarrow> ('d \<times> fat_node \<times> io_status \<times> nat) option" where
  "node_write ms d b s arg =
     (if closed s then Some (d, s, IO_CLOSED, 0)
      else if \<not> node_has_attribute s NODE_FILE then Some (d, s, IO_NOT_SUPPORTED, 0)
      else if node_io_mode s = MODE_READ then Some (d, s, IO_NOT_ALLOWED, 0)
      else case arg of
        None \<Rightarrow> Some (d, s, IO_BAD_ARGS, 0)
      | Some buf \<Rightarrow>
          if buf = [] then Some (d, s, IO_OKAY, 0)
          else
            let first_write = (processed_clusters s = 0 \<and> cluster_offset s = 0)
            in case write_loop ms b first_write buf d s 0 of
                 None \<Rightarrow> None
               | Some (d, s, buf_pos, Some (st, n)) \<Rightarrow> Some (d, s, st, n)
               | Some (d, s, buf_pos, None) \<Rightarrow>
                   let old_size = node_size s;
                       s = set_file_size s (if node_io_mode s = MODE_WRITE \<and> first_write then of_nat buf_pos
                                            else node_size s + of_nat buf_pos)
                   in case (if node_size s < old_size then shrink_file ms b d s else Some d) of
                        None \<Rightarrow> None
                      | Some d \<Rightarrow>
                          let (d, ok) = update_entry ms d b (node_entry s)
                          in Some (d, s, if ok then (IO_OKAY, buf_pos) else (IO_DEV_ERROR, 0)))"

section \<open>Seeking\<close>

text \<open>
  The test of the code for a bad cluster number is a conjunction that never holds, so the loop goes on
  with whatever the table says.
\<close>

partial_function (option) seek_loop :: "'d msd_ops \<Rightarrow> 'd \<Rightarrow> boot_record \<Rightarrow> fat_node \<Rightarrow> u32 \<Rightarrow> u64 \<Rightarrow> fat_node option" where
  "seek_loop ms d b s cluster to_seek =
     (if 0 < to_seek then
        if unat to_seek < cluster_size b then Some (s\<lparr>cluster_offset := ucast to_seek\<rparr>)
        else let cluster = fat_read ms d b cluster
             in seek_loop ms d b
                  (s\<lparr>processed_clusters := processed_clusters s + 1, current_cluster := cluster, cluster_offset := 0\<rparr>)
                  cluster (to_seek - of_nat (cluster_size b))
      else Some s)"

declare last_cluster_loop.simps [code] read_loop.simps [code] write_loop.simps [code] shrink_loop.simps [code]
  seek_loop.simps [code]

definition node_seek ::
  "'d msd_ops \<Rightarrow> 'd \<Rightarrow> boot_record \<Rightarrow> fat_node \<Rightarrow> seek_mode \<Rightarrow> 32 word \<Rightarrow> (fat_node \<times> io_status \<times> u64) option" where
  "node_seek ms d b s mode off =
     (if closed s then Some (s, IO_CLOSED, 0)
      else if \<not> node_has_attribute s NODE_FILE then Some (s, IO_NOT_SUPPORTED, 0)
      else
        let file_cursor = ucast (processed_clusters s) * of_nat (cluster_size b) + ucast (cluster_offset s) :: u64;
            size = ucast (node_size s) :: u64;
            abs_off = (if 0 \<le> sint off then off else - off);
            bad_offset = (case mode of
                SEEK_BEGIN \<Rightarrow> sint off < 0 \<or> node_size s \<le> off
              | SEEK_CURSOR \<Rightarrow> size \<le> file_cursor + scast off
              | SEEK_END \<Rightarrow> 0 < sint off \<or> node_size s < abs_off)
        in if bad_offset then Some (s, IO_BAD_ARGS, 0)
           else
             let to_seek = (case mode of
                   SEEK_BEGIN \<Rightarrow> scast off
                 | SEEK_CURSOR \<Rightarrow> file_cursor + scast off
                 | SEEK_END \<Rightarrow> ucast (node_size s + off));
                 s = s\<lparr>processed_clusters := 0, current_cluster := first_cluster s, cluster_offset := 0\<rparr>
             in case seek_loop ms d b s (first_cluster s) to_seek of
                  None \<Rightarrow> None
                | Some s \<Rightarrow> Some (s, IO_OKAY, scast abs_off))"

end
