(* ===== verification/Fat_Directory.thy ===== *)
theory Fat_Directory
  imports Fat_File
begin

text \<open>
  Directories of a FAT volume: the directory iterator and stream
  (\<^verbatim>\<open>Src/VirtualFileSystem/FAT/FATDirectoryIterator.cpp\<close>) and the searches of the file entry manager
  (\<^verbatim>\<open>FileEntryManager.cpp\<close>). \<open>None\<close> is a loop that does not end, a read or write outside of a buffer or a
  dereferenced null pointer.
\<close>

section \<open>Long file name entries\<close>

record lfn_entry =
  lfn_order :: u8
  file_name_1 :: "u16 list"
  lfn_attributes :: u8
  long_entry_type :: u8
  short_file_name_checksum :: u8
  file_name_2 :: "u16 list"
  lfn_reserved :: u16
  file_name_3 :: "u16 list"

definition LAST_LFN_ENTRY :: u8 where "LAST_LFN_ENTRY = 0x40"
definition MASK_LAST_LFN_ENTRY :: u8 where "MASK_LAST_LFN_ENTRY = 0xF0"
definition MAX_CHAR_PER_ENTRY :: nat where "MAX_CHAR_PER_ENTRY = 13"

text \<open>The packed layout that the casts between the two kinds of entries rely on.\<close>

fun u16s :: "u8 list \<Rightarrow> u16 list" where
  "u16s (x # y # b) = le_to_u16 [x, y] # u16s b"
| "u16s b = []"

definition lfn_bytes :: "lfn_entry \<Rightarrow> u8 list" where
  "lfn_bytes e = lfn_order e # concat (map bytes16 (file_name_1 e)) @
     [lfn_attributes e, long_entry_type e, short_file_name_checksum e] @
     concat (map bytes16 (file_name_2 e)) @ bytes16 (lfn_reserved e) @ concat (map bytes16 (file_name_3 e))"

definition bytes_lfn :: "u8 list \<Rightarrow> lfn_entry" where
  "bytes_lfn b = \<lparr>lfn_order = b ! 0, file_name_1 = u16s (take 10 (drop 1 b)), lfn_attributes = b ! 11,
     long_entry_type = b ! 12, short_file_name_checksum = b ! 13, file_name_2 = u16s (take 12 (drop 14 b)),
     lfn_reserved = le_to_u16 (drop 26 b), file_name_3 = u16s (take 4 (drop 28 b))\<rparr>"

section \<open>The directory iterator\<close>

datatype it_state = ITERATING | END_OF_DIRECTORY | CORRUPT_LFN_ENTRY | IT_DEV_ERROR
datatype it_mode = MODE_NONE | LIST_DIRECTORY | LIST_ALL | ATOMIC

text \<open>
  \<open>dir_started\<close> tells whether the pointer to the current entry is set; it points to the entry with number
  \<open>dir_index\<close> of the cluster in the buffer.
\<close>

record dir_iter =
  dir_mode :: it_mode
  dir_state :: it_state
  dir_cluster :: u32
  cluster_buf :: "u8 list"
  max_entries :: int
  dir_started :: bool
  dir_index :: int
  dir_entry :: located_entry

definition no_location :: entry_location where "no_location = \<lparr>loc_cluster = 0, entry_idx = 0\<rparr>"

definition no_entry :: located_entry where
  "no_entry = \<lparr>file_name = '''', fentry = new_file_entry, location = no_location, first_lfn_entry = no_location\<rparr>"

text \<open>The 32 bytes of the current entry.\<close>

definition current_bytes :: "dir_iter \<Rightarrow> u8 list option" where
  "current_bytes it =
     (if 0 \<le> dir_index it \<and> 32 * (dir_index it + 1) \<le> int (length (cluster_buf it))
      then Some (take 32 (drop (nat (32 * dir_index it)) (cluster_buf it))) else None)"

definition here :: "dir_iter \<Rightarrow> entry_location" where
  "here it = \<lparr>loc_cluster = dir_cluster it, entry_idx = of_int (dir_index it)\<rparr>"

definition get_next_cluster :: "'d msd_ops \<Rightarrow> 'd \<Rightarrow> boot_record \<Rightarrow> dir_iter \<Rightarrow> dir_iter" where
  "get_next_cluster ms d b it =
     (let next_cluster = (if dir_started it then fat_read ms d b (dir_cluster it) else dir_cluster it)
      in if MAX_CLUSTER_COUNT < next_cluster then it\<lparr>dir_state := END_OF_DIRECTORY\<rparr>
         else case data_cluster_read ms d b next_cluster of
           None \<Rightarrow> it\<lparr>dir_state := IT_DEV_ERROR\<rparr>
         | Some buf \<Rightarrow> it\<lparr>dir_cluster := next_cluster, cluster_buf := buf, dir_started := True, dir_index := 0\<rparr>)"

definition advance :: "dir_iter \<Rightarrow> dir_iter option" where
  "advance it =
     (let it = it\<lparr>dir_index := dir_index it + 1\<rparr>
      in case current_bytes it of
           None \<Rightarrow> None
         | Some raw \<Rightarrow> Some (
             if dir_mode it = LIST_DIRECTORY \<and> is_empty_end (bytes_entry raw) then it\<lparr>dir_state := END_OF_DIRECTORY\<rparr>
             else it\<lparr>dir_entry := \<lparr>file_name = '''', fentry = bytes_entry raw, location = here it,
                       first_lfn_entry = no_location\<rparr>\<rparr>))"

text \<open>
  The characters of a long file name entry, the low bytes of its 13 units, and the part of them that belongs
  to the name: of the entry with the highest order the padding is cut off. The loops over the padding and over
  leading spaces do not stop at the ends of the array; a part with leading spaces is copied with its full
  length from behind the spaces.
\<close>

definition lfn_chars :: "lfn_entry \<Rightarrow> string" where
  "lfn_chars e = map (\<lambda>u. char_of (unat (the (byte_get u 0)))) (file_name_1 e @ file_name_2 e @ file_name_3 e)"

definition is_padding :: "char \<Rightarrow> bool" where "is_padding c = (code c = 0xFF \<or> code c = 0)"

definition lfn_part :: "nat \<Rightarrow> nat \<Rightarrow> string \<Rightarrow> string option" where
  "lfn_part lfne_count c_order tmp =
     (if c_order = lfne_count then
        (if list_all is_padding tmp then None else Some (rev (dropWhile is_padding (rev tmp))))
      else if c_order = 1 \<and> hd tmp = CHR '' '' then None
      else Some tmp)"

definition low_nibble :: "u8 \<Rightarrow> nat" where "low_nibble x = unat (the (nibble_get x 0))"

fun lfn_loop ::
  "'d msd_ops \<Rightarrow> 'd \<Rightarrow> boot_record \<Rightarrow> nat \<Rightarrow> nat \<Rightarrow> dir_iter \<Rightarrow> string \<Rightarrow> (dir_iter \<times> string) option" where
  "lfn_loop ms d b lfne_count 0 it nm = Some (it, nm)"
| "lfn_loop ms d b lfne_count (Suc c_order) it nm =
     (case current_bytes it of
        None \<Rightarrow> None
      | Some raw \<Rightarrow>
          let e = bytes_lfn raw
          in if low_nibble (lfn_order e) \<noteq> Suc c_order then Some (it\<lparr>dir_state := CORRUPT_LFN_ENTRY\<rparr>, nm)
             else case lfn_part lfne_count (Suc c_order) (lfn_chars e) of
               None \<Rightarrow> None
             | Some part \<Rightarrow>
                 let nm = part @ nm; it = it\<lparr>dir_index := dir_index it + 1\<rparr>
                 in if max_entries it \<le> dir_index it then
                      let it = get_next_cluster ms d b it
                      in if dir_state it \<noteq> ITERATING then Some (it, nm) else lfn_loop ms d b lfne_count c_order it nm
                    else lfn_loop ms d b lfne_count c_order it nm)"

definition parse_used_file_entry :: "'d msd_ops \<Rightarrow> 'd \<Rightarrow> boot_record \<Rightarrow> dir_iter \<Rightarrow> dir_iter option" where
  "parse_used_file_entry ms d b it =
     (case current_bytes it of
        None \<Rightarrow> None
      | Some raw \<Rightarrow>
          let e = bytes_entry raw
          in if attributes e = LONG_FILE_NAME then
               if short_name e ! 0 AND MASK_LAST_LFN_ENTRY \<noteq> LAST_LFN_ENTRY then Some (it\<lparr>dir_state := CORRUPT_LFN_ENTRY\<rparr>)
               else let lfne_count = low_nibble (short_name e ! 0)
                    in case lfn_loop ms d b lfne_count lfne_count it '''' of
                         None \<Rightarrow> None
                       | Some (it', nm) \<Rightarrow>
                           if dir_state it' \<noteq> ITERATING then Some it'
                           else case current_bytes it' of
                             None \<Rightarrow> None
                           | Some raw' \<Rightarrow> Some (it'\<lparr>dir_entry := \<lparr>file_name = nm, fentry = bytes_entry raw',
                                 location = here it', first_lfn_entry = here it\<rparr>\<rparr>)
             else Some (it\<lparr>dir_entry := \<lparr>file_name = make_short_name e, fentry = e, location = here it,
                            first_lfn_entry = no_location\<rparr>\<rparr>))"

partial_function (option) skip_empty :: "dir_iter \<Rightarrow> dir_iter option" where
  "skip_empty it =
     (case current_bytes it of
        None \<Rightarrow> None
      | Some raw \<Rightarrow>
          if is_empty_middle (bytes_entry raw) then
            (case advance it of
               None \<Rightarrow> None
             | Some it \<Rightarrow> if dir_state it \<noteq> ITERATING then Some it else skip_empty it)
          else Some it)"

declare skip_empty.simps [code]

definition next_entry :: "'d msd_ops \<Rightarrow> 'd \<Rightarrow> boot_record \<Rightarrow> dir_iter \<Rightarrow> dir_iter option" where
  "next_entry ms d b it =
     (if dir_state it \<noteq> ITERATING then Some it
      else case (if max_entries it - 1 \<le> dir_index it then Some (get_next_cluster ms d b it) else advance it) of
        None \<Rightarrow> None
      | Some it \<Rightarrow>
          if dir_state it \<noteq> ITERATING then Some it
          else case dir_mode it of
            LIST_DIRECTORY \<Rightarrow>
              (case skip_empty it of
                 None \<Rightarrow> None
               | Some it \<Rightarrow> if dir_state it \<noteq> ITERATING then Some it else parse_used_file_entry ms d b it)
          | LIST_ALL \<Rightarrow>
              (case current_bytes it of
                 None \<Rightarrow> None
               | Some raw \<Rightarrow>
                   let e = bytes_entry raw
                   in if \<not> is_empty_middle e \<and> \<not> is_empty_end e then parse_used_file_entry ms d b it else Some it)
          | ATOMIC \<Rightarrow> Some it
          | MODE_NONE \<Rightarrow> Some it)"

definition new_iterator :: "'d msd_ops \<Rightarrow> 'd \<Rightarrow> boot_record \<Rightarrow> u32 \<Rightarrow> it_mode \<Rightarrow> dir_iter option" where
  "new_iterator ms d b start_cluster mode =
     (let it = \<lparr>dir_mode = mode, dir_state = ITERATING, dir_cluster = 0, cluster_buf = [], max_entries = 0,
                dir_started = False, dir_index = 0, dir_entry = no_entry\<rparr>
      in if mode = MODE_NONE then Some (it\<lparr>dir_state := END_OF_DIRECTORY\<rparr>)
         else let it = get_next_cluster ms d b (it\<lparr>dir_cluster := start_cluster,
                         max_entries := int (cluster_size b div 32)\<rparr>)
              in if dir_state it \<noteq> IT_DEV_ERROR then next_entry ms d b (it\<lparr>dir_index := - 1\<rparr>) else Some it)"

abbreviation has_next :: "dir_iter \<Rightarrow> bool" where "has_next it \<equiv> dir_state it = ITERATING"

section \<open>Following a path\<close>

text \<open>The source gives \<open>BAD_PATH\<close> and \<open>DEV_ERROR\<close> the same number.\<close>

datatype nav_status = NAV_FOUND | NAV_NOT_FOUND | NAV_BAD_PATH | NAV_DEV_ERROR

text \<open>The loop of \<open>navigate_to\<close> stops at an entry with the wanted name, or where the iterator stops.\<close>

partial_function (option) find_entry :: "'d msd_ops \<Rightarrow> 'd \<Rightarrow> boot_record \<Rightarrow> string \<Rightarrow> dir_iter \<Rightarrow> dir_iter option" where
  "find_entry ms d b wanted it =
     (if has_next it \<and> file_name (dir_entry it) \<noteq> wanted then
        (case next_entry ms d b it of None \<Rightarrow> None | Some it \<Rightarrow> find_entry ms d b wanted it)
      else Some it)"

declare find_entry.simps [code]

fun navigate_to :: "'d msd_ops \<Rightarrow> 'd \<Rightarrow> boot_record \<Rightarrow> u32 \<Rightarrow> string list \<Rightarrow> (nav_status \<times> located_entry) option" where
  "navigate_to ms d b start_cluster [] = None"
| "navigate_to ms d b start_cluster (wanted # names) =
     (case new_iterator ms d b start_cluster LIST_DIRECTORY of
        None \<Rightarrow> None
      | Some it \<Rightarrow>
          (case find_entry ms d b wanted it of
             None \<Rightarrow> None
           | Some it \<Rightarrow>
               if has_next it then
                 let c_entry = dir_entry it
                 in if names = [] then Some (NAV_FOUND, c_entry)
                    else if attributes (fentry c_entry) AND DIRECTORY = DIRECTORY
                         then navigate_to ms d b (cluster_of (fentry c_entry)) names
                         else Some (NAV_BAD_PATH, no_entry)
               else if dir_state it = END_OF_DIRECTORY then Some (NAV_NOT_FOUND, no_entry)
               else Some (NAV_DEV_ERROR, no_entry)))"

section \<open>The directory stream\<close>

record node_info =
  node_path :: string
  info_size :: nat
  info_attributes :: u8

definition node_attributes :: "file_entry \<Rightarrow> u8" where
  "node_attributes e =
     (let a = 0;
          a = (if has_attribute e READONLY then a OR NODE_READONLY else a);
          a = (if has_attribute e HIDDEN then a OR NODE_HIDDEN else a);
          a = (if has_attribute e SYSTEM then a OR NODE_SYSTEM else a);
          a = (if has_attribute e DIRECTORY then a OR NODE_DIRECTORY else a);
          a = (if has_attribute e ARCHIVE then a OR NODE_FILE else a)
      in a)"

definition info_of :: "located_entry \<Rightarrow> node_info" where
  "info_of e = \<lparr>node_path = file_name e, info_size = unat (file_size (fentry e)),
     info_attributes = node_attributes (fentry e)\<rparr>"

datatype stream_status = STREAM_END_OF_DIRECTORY | STREAM_IO_ERROR

definition stream_next ::
  "'d msd_ops \<Rightarrow> 'd \<Rightarrow> boot_record \<Rightarrow> dir_iter \<Rightarrow> (dir_iter \<times> (stream_status + node_info)) option" where
  "stream_next ms d b it =
     (case dir_state it of
        END_OF_DIRECTORY \<Rightarrow> Some (it, Inl STREAM_END_OF_DIRECTORY)
      | CORRUPT_LFN_ENTRY \<Rightarrow> Some (it, Inl STREAM_IO_ERROR)
      | IT_DEV_ERROR \<Rightarrow> Some (it, Inl STREAM_IO_ERROR)
      | ITERATING \<Rightarrow>
          let info = info_of (dir_entry it)
          in case next_entry ms d b it of None \<Rightarrow> None | Some it \<Rightarrow> Some (it, Inr info))"

section \<open>Searching for entries\<close>

datatype volume_status = VA_OKAY | VA_NOT_FOUND | VA_BAD_PATH | VA_DEV_ERROR

definition root_dummy :: "boot_record \<Rightarrow> file_entry" where
  "root_dummy b = new_file_entry\<lparr>attributes := DIRECTORY, first_cluster_low := ucast (the (word_get (root_cluster b) 0)),
     first_cluster_high := ucast (the (word_get (root_cluster b) 1))\<rparr>"

definition root_entry :: "boot_record \<Rightarrow> located_entry" where
  "root_entry b = \<lparr>file_name = '''', fentry = root_dummy b,
     location = \<lparr>loc_cluster = root_cluster b, entry_idx = 0\<rparr>, first_lfn_entry = no_location\<rparr>"

definition search :: "'d msd_ops \<Rightarrow> 'd \<Rightarrow> boot_record \<Rightarrow> string \<Rightarrow> (volume_status \<times> located_entry) option" where
  "search ms d b p =
     (let p_split = split p SEP
      in if p_split = [] \<or> length p_split = 1 \<and> (hd p_split = ''.'' \<or> hd p_split = ''..'') then Some (VA_OKAY, root_entry b)
         else case navigate_to ms d b (cluster_of (root_dummy b)) p_split of
           None \<Rightarrow> None
         | Some (nav, e) \<Rightarrow> Some (
             if nav = NAV_FOUND then (VA_OKAY, e) else if nav = NAV_NOT_FOUND then (VA_NOT_FOUND, e)
             else (VA_DEV_ERROR, e)))"

text \<open>
  The search for \<open>range\<close> empty entries next to each other. \<open>gather_empty\<close> is its first loop, with the number of
  entries found and the entries; \<open>extend_directory\<close> allocates clusters, with the first new cluster; the second
  loop takes what the new clusters hold.
\<close>

partial_function (option) gather_empty ::
  "'d msd_ops \<Rightarrow> 'd \<Rightarrow> boot_record \<Rightarrow> nat \<Rightarrow> dir_iter \<Rightarrow> nat \<Rightarrow> located_entry list \<Rightarrow>
   (dir_iter \<times> nat \<times> located_entry list) option" where
  "gather_empty ms d b rng it range_found out =
     (if has_next it \<and> range_found < rng then
        let c_entry = dir_entry it;
            (range_found, out) =
              (if \<not> is_empty_end (fentry c_entry) \<and> \<not> is_empty_middle (fentry c_entry) then (0, [])
               else (range_found + 1, out @ [c_entry]))
        in case next_entry ms d b it of
             None \<Rightarrow> None
           | Some it \<Rightarrow> gather_empty ms d b rng it range_found out
      else Some (it, range_found, out))"

declare gather_empty.simps [code]

text \<open>\<open>Inl ()\<close> is the device error.\<close>

partial_function (option) extend_directory ::
  "'d msd_ops \<Rightarrow> boot_record \<Rightarrow> 'd \<Rightarrow> located_entry \<Rightarrow> nat \<Rightarrow> u32 \<Rightarrow> u32 \<Rightarrow> ('d \<times> (unit + u32)) option" where
  "extend_directory ms b d dir required_space current first_new_cluster =
     (if 0 < required_space then
        (case allocate_cluster ms d b dir current of
           None \<Rightarrow> None
         | Some (d, dir, next_cluster) \<Rightarrow>
             if MAX_CLUSTER_COUNT \<le> next_cluster then Some (d, Inl ())
             else extend_directory ms b d dir
                    (if required_space < cluster_size b div 32 then 0 else required_space - cluster_size b div 32)
                    next_cluster (if first_new_cluster = 0 then next_cluster else first_new_cluster))
      else Some (d, Inr first_new_cluster))"

declare extend_directory.simps [code]

partial_function (option) gather_new ::
  "'d msd_ops \<Rightarrow> 'd \<Rightarrow> boot_record \<Rightarrow> nat \<Rightarrow> dir_iter \<Rightarrow> nat \<Rightarrow> located_entry list \<Rightarrow> located_entry list option" where
  "gather_new ms d b rng it range_found out =
     (if has_next it \<and> range_found < rng then
        (case next_entry ms d b it of
           None \<Rightarrow> None
         | Some it' \<Rightarrow> gather_new ms d b rng it' (range_found + 1) (out @ [dir_entry it]))
      else Some out)"

declare gather_new.simps [code]

definition find_empty_file_entries ::
  "'d msd_ops \<Rightarrow> 'd \<Rightarrow> boot_record \<Rightarrow> string \<Rightarrow> u16 \<Rightarrow> ('d \<times> volume_status \<times> located_entry list) option" where
  "find_empty_file_entries ms d b p rng =
     (let p_split = split p SEP
      in case (if p_split = [] then Some (NAV_FOUND, root_entry b)
               else navigate_to ms d b (cluster_of (root_dummy b)) p_split) of
           None \<Rightarrow> None
         | Some (nav, dir) \<Rightarrow>
             if nav = NAV_NOT_FOUND then Some (d, VA_NOT_FOUND, [])
             else if nav \<noteq> NAV_FOUND then Some (d, VA_DEV_ERROR, [])
             else case new_iterator ms d b (cluster_of (fentry dir)) LIST_ALL of
               None \<Rightarrow> None
             | Some it \<Rightarrow>
                 (case gather_empty ms d b (unat rng) it 0 [] of
                    None \<Rightarrow> None
                  | Some (it, range_found, out) \<Rightarrow>
                      if range_found < unat rng then
                        (case extend_directory ms b d dir (unat rng - range_found) (dir_cluster it) 0 of
                           None \<Rightarrow> None
                         | Some (d, Inl _) \<Rightarrow> Some (d, VA_DEV_ERROR, out)
                         | Some (d, Inr first_new_cluster) \<Rightarrow>
                             (case new_iterator ms d b first_new_cluster LIST_ALL of
                                None \<Rightarrow> None
                              | Some after_end \<Rightarrow>
                                  (case gather_new ms d b (unat rng) after_end range_found out of
                                     None \<Rightarrow> None
                                   | Some out \<Rightarrow> Some (d, VA_OKAY, out))))
                      else Some (d, VA_OKAY, out)))"

end
