(* ===== verification/Fat_Driver.thy ===== *)
theory Fat_Driver
  imports Fat_Directory
begin

text \<open>
  The FAT driver (\<^verbatim>\<open>Src/VirtualFileSystem/FAT/FATDriver.cpp\<close>): formatting and mounting volumes, creating,
  finding, opening and deleting nodes. Devices are a function of their handle; \<open>None\<close> is a loop that does
  not end, an access outside of a buffer or a division by zero.
\<close>

section \<open>State\<close>

record fat_driver =
  storage_dev_refs :: "(u16 \<times> boot_record) list"

definition find_storage_dev_ref :: "fat_driver \<Rightarrow> u16 \<Rightarrow> boot_record option" where
  "find_storage_dev_ref s h = map_of (storage_dev_refs s) h"

datatype fs_status = FS_NONE | FS_CREATED | FS_OPENED | FS_DELETED | FS_FOUND | FS_NOT_FOUND | FS_BAD_PATH | FS_BAD_NAME
  | FS_BAD_ATTRIBUTE | FS_BAD_NODE_IO_MODE | FS_OUT_OF_HANDLES | FS_DEV_ERROR | FS_DEV_UNKNOWN | FS_DEV_OUT_OF_MEMORY
  | FS_ACCESS_DENIED

datatype format_status = FORMATTED | FORMAT_ERROR | UNKNOWN_DRIVER | FORMAT_DEV_ERROR
datatype mount_status = MOUNTED | UNMOUNTED | NOT_MOUNTED | ALREADY_MOUNTED | MOUNT_NOT_SUPPORTED | MOUNT_ERROR
  | MOUNT_BAD_PATH | MOUNT_DEV_ERROR

definition node_attributes_to_fat_file_attributes :: "u8 \<Rightarrow> u8" where
  "node_attributes_to_fat_file_attributes node_attr =
     (let a = 0;
          a = (if node_attr AND NODE_READONLY \<noteq> 0 then a OR READONLY else a);
          a = (if node_attr AND NODE_HIDDEN \<noteq> 0 then a OR HIDDEN else a);
          a = (if node_attr AND NODE_SYSTEM \<noteq> 0 then a OR SYSTEM else a);
          a = (if node_attr AND NODE_DIRECTORY \<noteq> 0 then a OR DIRECTORY else a);
          a = (if node_attr AND NODE_FILE \<noteq> 0 then a OR ARCHIVE else a)
      in a)"

section \<open>Creating nodes\<close>

text \<open>
  \<open>exists\<close> follows an iterator into the list that \<open>split\<close> returned and that is destroyed at the end of the statement. The
  iterator still points to a node, but the nodes and the buffers of their strings are freed: reading an element is \<open>None\<close>.
\<close>

definition destroyed :: "'a list \<Rightarrow> 'a option list" where "destroyed = map (\<lambda>_. None)"

definition node_exists :: "'d msd_ops \<Rightarrow> 'd \<Rightarrow> boot_record \<Rightarrow> string \<Rightarrow> fs_status option" where
  "node_exists ms d b p = do {
     parts \<leftarrow> those (destroyed (split p SEP));
     (nav, e) \<leftarrow> navigate_to ms d b (root_cluster b) parts;
     Some (if nav = NAV_NOT_FOUND then FS_NOT_FOUND else if nav = NAV_FOUND then FS_FOUND else FS_DEV_ERROR) }"

text \<open>
  The characters of the long name with its terminator and padding, a multiple of 13; a name that leaves no room
  for the terminator is written behind the array, with a wrapped length.
\<close>

definition lfn_buffer :: "string \<Rightarrow> u16 \<Rightarrow> u8 list option" where
  "lfn_buffer nm entry_range =
     (let n = (unat entry_range - 1) * MAX_CHAR_PER_ENTRY
      in if n < length nm + 1 then None
         else Some (map (\<lambda>c. of_nat (code c)) nm @ 0 # replicate (n - (length nm + 1)) 0xFF))"

text \<open>The short name: \<open>upper\<close> stops at the first null character.\<close>

definition short_name_of :: "u8 list \<Rightarrow> u8 list" where
  "short_name_of tmp =
     (let s = upper (map (\<lambda>x. char_of (unat x)) (take 8 tmp)); s = take (get_cstr_size s) s
      in map (\<lambda>c. of_nat (code c)) s @ replicate (8 - length s) 0 @ replicate 3 0x20)"

text \<open>One long file name entry with 13 characters, which are sign extended.\<close>

definition make_lfn_entry :: "u8 list \<Rightarrow> u8 \<Rightarrow> u8 \<Rightarrow> lfn_entry" where
  "make_lfn_entry chars order checksum =
     (let u = map scast chars
      in \<lparr>lfn_order = order, file_name_1 = take 5 u, lfn_attributes = LONG_FILE_NAME, long_entry_type = 0,
          short_file_name_checksum = checksum, file_name_2 = take 6 (drop 5 u), lfn_reserved = 0,
          file_name_3 = take 2 (drop 11 u)\<rparr>)"

fun fill_lfn_entries :: "u8 list \<Rightarrow> u8 \<Rightarrow> nat \<Rightarrow> u8 \<Rightarrow> located_entry list \<Rightarrow> located_entry list option" where
  "fill_lfn_entries tmp checksum 0 ordinal out = Some out"
| "fill_lfn_entries tmp checksum (Suc i) ordinal out =
     (if length out \<le> i then None
      else let e = make_lfn_entry (take 13 tmp) (if i = 0 then LAST_LFN_ENTRY OR ordinal else ordinal) checksum
           in fill_lfn_entries (drop 13 tmp) checksum i (ordinal + 1)
                (out[i := (out ! i)\<lparr>fentry := bytes_entry (lfn_bytes e)\<rparr>]))"

definition make_long_file_name_entries ::
  "'d msd_ops \<Rightarrow> 'd \<Rightarrow> boot_record \<Rightarrow> string \<Rightarrow> ('d \<times> fs_status \<times> located_entry list) option" where
  "make_long_file_name_entries ms d b p =
     (let nm = get_file_name p
      in if \<not> validate_long_name nm then Some (d, FS_BAD_NAME, [])
         else
           let entry_range = of_nat (1 + (length nm + MAX_CHAR_PER_ENTRY - 1) div MAX_CHAR_PER_ENTRY)
           in case find_empty_file_entries ms d b (resolve (get_parent p) '''') entry_range of
                None \<Rightarrow> None
              | Some (d, st, out) \<Rightarrow>
                  if st \<noteq> VA_OKAY then Some (d, FS_DEV_ERROR, out)
                  else case lfn_buffer nm entry_range of
                    None \<Rightarrow> None
                  | Some tmp \<Rightarrow>
                      if out = [] then None
                      else
                        let e_file = (last out)\<lparr>fentry := (fentry (last out))\<lparr>short_name := short_name_of tmp\<rparr>\<rparr>
                        in map_option (\<lambda>out. (d, FS_NONE, out))
                             (fill_lfn_entries tmp (compute_short_name_checksum (fentry e_file)) (unat entry_range - 1) 1
                                (butlast out @ [e_file])))"

fun update_entries :: "'d msd_ops \<Rightarrow> 'd \<Rightarrow> boot_record \<Rightarrow> located_entry list \<Rightarrow> 'd \<times> bool" where
  "update_entries ms d b [] = (d, True)"
| "update_entries ms d b (e # es) =
     (let (d, ok) = update_entry ms d b e in if \<not> ok then (d, False) else update_entries ms d b es)"

text \<open>\<open>e_file\<close> is the last entry of the list.\<close>

definition update_last :: "(file_entry \<Rightarrow> file_entry) \<Rightarrow> located_entry list \<Rightarrow> located_entry list" where
  "update_last f out = butlast out @ [(last out)\<lparr>fentry := f (fentry (last out))\<rparr>]"

definition create_file :: "'d msd_ops \<Rightarrow> 'd \<Rightarrow> boot_record \<Rightarrow> string \<Rightarrow> u8 \<Rightarrow> ('d \<times> fs_status) option" where
  "create_file ms d b p attrs =
     (let dummy = new_file_entry\<lparr>attributes := attrs\<rparr>
      in if has_attribute dummy VOLUME_ID \<or> has_attribute dummy DIRECTORY then Some (d, FS_BAD_ATTRIBUTE)
         else case make_long_file_name_entries ms d b p of
           None \<Rightarrow> None
         | Some (d, st, out) \<Rightarrow>
             if st \<noteq> FS_NONE then Some (d, st)
             else
               let (d, ok) = update_entries ms d b
                     (update_last (\<lambda>f. f\<lparr>first_cluster_low := 0, first_cluster_high := 0, attributes := attrs\<rparr>) out)
               in Some (d, if ok then FS_CREATED else FS_DEV_ERROR))"

text \<open>The first cluster of a directory with its two entries; the rest of the cluster is zero.\<close>

definition dir_dot :: "u32 \<Rightarrow> file_entry" where
  "dir_dot cluster = new_file_entry\<lparr>short_name := 0x2E # replicate 10 0, attributes := DIRECTORY,
     first_cluster_low := ucast (the (word_get cluster 0)), first_cluster_high := ucast (the (word_get cluster 1))\<rparr>"

definition dir_dotdot :: "file_entry \<Rightarrow> file_entry" where
  "dir_dotdot p_dir = new_file_entry\<lparr>short_name := 0x2E # 0x2E # replicate 9 0, attributes := DIRECTORY,
     first_cluster_low := ucast (the (word_get (first_cluster_low p_dir) 0)),
     first_cluster_high := ucast (the (word_get (first_cluster_low p_dir) 1)), file_size := file_size p_dir\<rparr>"

definition dir_content :: "boot_record \<Rightarrow> u32 \<Rightarrow> file_entry \<Rightarrow> u8 list" where
  "dir_content b cluster p_dir =
     entry_bytes (dir_dot cluster) @ entry_bytes (dir_dotdot p_dir) @ replicate (cluster_size b - 64) 0"

definition create_directory :: "'d msd_ops \<Rightarrow> 'd \<Rightarrow> boot_record \<Rightarrow> string \<Rightarrow> u8 \<Rightarrow> ('d \<times> fs_status) option" where
  "create_directory ms d b p attrs =
     (let dummy = new_file_entry\<lparr>attributes := attrs\<rparr>
      in if has_attribute dummy VOLUME_ID \<or> has_attribute dummy ARCHIVE then Some (d, FS_BAD_ATTRIBUTE)
         else case search ms d b (resolve (get_parent p) '''') of
           None \<Rightarrow> None
         | Some (st, p_dir) \<Rightarrow>
             if st \<noteq> VA_OKAY then Some (d, FS_DEV_ERROR)
             else case make_long_file_name_entries ms d b p of
               None \<Rightarrow> None
             | Some (d, st, out) \<Rightarrow>
                 if st \<noteq> FS_NONE then Some (d, st)
                 else case fat_find_next_free_cluster ms d b of
                   None \<Rightarrow> None
                 | Some cluster \<Rightarrow>
                     if cluster = 0 then Some (d, FS_DEV_OUT_OF_MEMORY)
                     else if cluster_size b < 64 then None
                     else
                       let out = update_last (\<lambda>f. f\<lparr>file_size := 0, attributes := attrs,
                                   first_cluster_low := ucast (the (word_get cluster 0)),
                                   first_cluster_high := ucast (the (word_get cluster 1))\<rparr>) out;
                           (d, ok) = data_cluster_write ms d b (dir_content b cluster (fentry p_dir)) cluster
                       in if \<not> ok then Some (d, FS_DEV_ERROR)
                          else let (d, ok) = update_entries ms d b out
                          in if \<not> ok then Some (d, FS_DEV_ERROR)
                             else let (d, ok) = fat_write ms d b cluster FAT_EOF
                             in if \<not> ok then
                                  Some (fst (update_entry ms d b (set_first_cluster (last out) 0)), FS_DEV_ERROR)
                                else Some (d, FS_CREATED))"

section \<open>Deleting nodes\<close>

definition mark_deleted :: "located_entry \<Rightarrow> located_entry" where
  "mark_deleted e = e\<lparr>fentry := (fentry e)\<lparr>short_name := (short_name (fentry e))[0 := MARK_EMPTY_MIDDLE],
     first_cluster_high := 0, first_cluster_low := 0, file_size := 0\<rparr>\<rparr>"

text \<open>The loop over the entries from the first long file name entry to the entry of the file; \<open>False\<close>: device error.\<close>

partial_function (option) delete_entries ::
  "'d msd_ops \<Rightarrow> boot_record \<Rightarrow> located_entry \<Rightarrow> 'd \<Rightarrow> dir_iter \<Rightarrow> ('d \<times> bool) option" where
  "delete_entries ms b f d it =
     (if has_next it then
        let c_entry = dir_entry it
        in if loc_cluster (location c_entry) = loc_cluster (first_lfn_entry f) \<and>
              entry_idx (location c_entry) < entry_idx (first_lfn_entry f)
           then (case next_entry ms d b it of None \<Rightarrow> None | Some it \<Rightarrow> delete_entries ms b f d it)
           else let (d, ok) = update_entry ms d b (mark_deleted c_entry)
                in if \<not> ok then Some (d, False)
                   else if location c_entry = location f then Some (d, True)
                   else (case next_entry ms d b it of None \<Rightarrow> None | Some it \<Rightarrow> delete_entries ms b f d it)
      else Some (d, True))"

declare delete_entries.simps [code]

partial_function (option) free_chain :: "'d msd_ops \<Rightarrow> boot_record \<Rightarrow> 'd \<Rightarrow> u32 \<Rightarrow> 'd option" where
  "free_chain ms b d cluster =
     (if cluster \<noteq> 0 \<and> cluster < MAX_CLUSTER_COUNT then
        let next_cluster = fat_read ms d b cluster
        in free_chain ms b (fst (fat_write ms d b cluster 0)) next_cluster
      else Some d)"

declare free_chain.simps [code]

definition delete_file :: "'d msd_ops \<Rightarrow> 'd \<Rightarrow> boot_record \<Rightarrow> located_entry \<Rightarrow> ('d \<times> fs_status) option" where
  "delete_file ms d b f =
     (case new_iterator ms d b (loc_cluster (first_lfn_entry f)) ATOMIC of
        None \<Rightarrow> None
      | Some it \<Rightarrow>
          (case delete_entries ms b f d it of
             None \<Rightarrow> None
           | Some (d, ok) \<Rightarrow>
               if \<not> ok then Some (d, FS_DEV_ERROR)
               else map_option (\<lambda>d. (d, FS_DELETED)) (free_chain ms b d (cluster_of (fentry f)))))"

definition is_dot_entry :: "file_entry \<Rightarrow> bool" where
  "is_dot_entry e = (make_short_name e = ''.'' \<or> make_short_name e = ''..'')"

definition delete_dot :: "'d msd_ops \<Rightarrow> 'd \<Rightarrow> boot_record \<Rightarrow> located_entry \<Rightarrow> 'd \<times> fs_status" where
  "delete_dot ms d b e = (let (d, ok) = update_entry ms d b (mark_deleted e) in (d, if ok then FS_DELETED else FS_DEV_ERROR))"

text \<open>
  The loop of \<open>delete_directory\<close> over the entries of the directory \<open>dir\<close> and, at its end, the deletion of
  \<open>dir\<close> itself; subdirectories are a recursive call.
\<close>

partial_function (option) delete_directory_loop ::
  "'d msd_ops \<Rightarrow> boot_record \<Rightarrow> located_entry \<Rightarrow> 'd \<Rightarrow> dir_iter \<Rightarrow> ('d \<times> fs_status) option" where
  "delete_directory_loop ms b dir d it =
     (if has_next it then
        let c_entry = dir_entry it
        in do {
             (d, st) \<leftarrow> (if has_attribute (fentry c_entry) DIRECTORY then
                          (if is_dot_entry (fentry c_entry) then Some (delete_dot ms d b c_entry)
                           else do {
                             it' \<leftarrow> new_iterator ms d b (cluster_of (fentry c_entry)) LIST_DIRECTORY;
                             delete_directory_loop ms b c_entry d it' })
                        else delete_file ms d b c_entry);
             it \<leftarrow> next_entry ms d b it;
             delete_directory_loop ms b dir d it }
      else if dir_state it = END_OF_DIRECTORY then delete_file ms d b dir
      else Some (d, FS_DEV_ERROR))"

declare delete_directory_loop.simps [code]

definition delete_directory :: "'d msd_ops \<Rightarrow> 'd \<Rightarrow> boot_record \<Rightarrow> located_entry \<Rightarrow> ('d \<times> fs_status) option" where
  "delete_directory ms d b dir =
     (if is_dot_entry (fentry dir) then Some (delete_dot ms d b dir)
      else case new_iterator ms d b (cluster_of (fentry dir)) LIST_DIRECTORY of
        None \<Rightarrow> None
      | Some it \<Rightarrow> delete_directory_loop ms b dir d it)"

section \<open>Boot records\<close>

text \<open>The packed layout of the boot record in the first sector, with the jump that formatting writes.\<close>

definition boot_bytes :: "boot_record \<Rightarrow> u8 list" where
  "boot_bytes r = [0xEB, 0x5A, 0x90] @ replicate 8 0 @ bytes16 (bytes_per_sector r) @ [sectors_per_cluster r] @
     bytes16 (reserved_sector_count r) @ [fat_count r] @ bytes16 (root_entry_count r) @ bytes16 (total_sectors_16 r) @
     [media_descriptor_type r] @ bytes16 (fat_size_16 r) @ bytes16 (sectors_per_track r) @ bytes16 (head_count r) @
     bytes32 (hidden_sector_count r) @ bytes32 (total_sectors_32 r) @ bytes32 (fat_size_32 r) @ bytes16 (bs_flags r) @
     bytes16 (fat_version r) @ bytes32 (root_cluster r) @ bytes16 (fs_info r) @ bytes16 (backup_bs_sector r) @
     replicate 12 0 @ [drive_number r, 0, bs_signature r] @ bytes32 (volume_id r) @
     map (\<lambda>c. of_nat (code c)) (volume_label r) @ map (\<lambda>c. of_nat (code c)) (system_id r) @
     replicate 420 0 @ bytes16 (signature_word r)"

definition bytes_boot :: "u8 list \<Rightarrow> boot_record" where
  "bytes_boot b = \<lparr>bytes_per_sector = le_to_u16 (drop 11 b), sectors_per_cluster = b ! 13,
     reserved_sector_count = le_to_u16 (drop 14 b), fat_count = b ! 16, root_entry_count = le_to_u16 (drop 17 b),
     total_sectors_16 = le_to_u16 (drop 19 b), media_descriptor_type = b ! 21, fat_size_16 = le_to_u16 (drop 22 b),
     sectors_per_track = le_to_u16 (drop 24 b), head_count = le_to_u16 (drop 26 b),
     hidden_sector_count = le_to_u32 (drop 28 b), total_sectors_32 = le_to_u32 (drop 32 b),
     fat_size_32 = le_to_u32 (drop 36 b), bs_flags = le_to_u16 (drop 40 b), fat_version = le_to_u16 (drop 42 b),
     root_cluster = le_to_u32 (drop 44 b), fs_info = le_to_u16 (drop 48 b), backup_bs_sector = le_to_u16 (drop 50 b),
     drive_number = b ! 64, bs_signature = b ! 66, volume_id = le_to_u32 (drop 67 b),
     volume_label = map (\<lambda>x. char_of (unat x)) (take 11 (drop 71 b)),
     system_id = map (\<lambda>x. char_of (unat x)) (take 8 (drop 82 b)), signature_word = le_to_u16 (drop 510 b)\<rparr>"

text \<open>The number of data clusters; \<open>None\<close> is a division by zero.\<close>

definition count_clusters :: "boot_record \<Rightarrow> u32 option" where
  "count_clusters b =
     (if bytes_per_sector b = 0 \<or> sectors_per_cluster b = 0 then None
      else
        let root_bytes = ucast (ucast (root_entry_count b) * 32 :: u32) :: u16;
            root_dir_sectors = of_nat ((unat root_bytes + unat (bytes_per_sector b) - 1) div unat (bytes_per_sector b)) :: u16;
            total_sectors = (if total_sectors_16 b = 0 then total_sectors_32 b else ucast (total_sectors_16 b));
            data_sectors = total_sectors -
              (ucast (reserved_sector_count b) + ucast (fat_count b) * fat_size_32 b + ucast root_dir_sectors)
        in Some (data_sectors div ucast (sectors_per_cluster b)))"

section \<open>Formatting and mounting\<close>

fun zero_sectors :: "'d msd_ops \<Rightarrow> 'd \<Rightarrow> u8 list \<Rightarrow> nat list \<Rightarrow> 'd \<times> bool" where
  "zero_sectors ms d zeroes [] = (d, True)"
| "zero_sectors ms d zeroes (i # is) =
     (let (d, n) = msd_write ms d (of_nat i) zeroes in if n = 0 then (d, False) else zero_sectors ms d zeroes is)"

text \<open>\<open>sector_size\<close> and \<open>sector_count\<close> are what the device reports.\<close>

definition format_volume :: "'d msd_ops \<Rightarrow> 'd \<Rightarrow> u32 \<Rightarrow> u64 \<Rightarrow> ('d \<times> format_status) option" where
  "format_volume ms d sector_size sector_count =
     (if unat sector_size < 512 then None
      else
        let b = make_new_boot_record sector_size (ucast sector_count);
            buf = boot_bytes b @ replicate (unat sector_size - 512) 0;
            zeroes = replicate (unat sector_size) 0;
            (d, n) = msd_write ms d 0 buf
        in if n < unat sector_size then Some (d, FORMAT_DEV_ERROR)
           else let (d, n) = (if 0 < backup_bs_sector b then msd_write ms d (ucast (backup_bs_sector b)) buf
                              else (d, unat sector_size))
           in if n < unat sector_size then Some (d, FORMAT_DEV_ERROR)
              else let (d, ok) = zero_sectors ms d zeroes
                         [unat (reserved_sector_count b)..<unat (fat_size_32 b * ucast (fat_count b))]
              in if \<not> ok then Some (d, FORMAT_DEV_ERROR)
                 else let (d, ok) = fat_write ms d b 0 (0xFFFFFFFF OR ucast (media_descriptor_type b))
                 in if \<not> ok then Some (d, FORMAT_DEV_ERROR)
                    else case count_clusters b of
                      None \<Rightarrow> None
                    | Some total_clusters \<Rightarrow>
                        let (d, ok) = fat_write ms d b 1 (total_clusters + 1)
                        in if \<not> ok then Some (d, FORMAT_DEV_ERROR)
                           else let (d, ok) = fat_write ms d b (root_cluster b) FAT_EOF
                           in if \<not> ok then Some (d, FORMAT_DEV_ERROR)
                              else let (d, ok) = data_cluster_write ms d b zeroes (root_cluster b)
                              in Some (d, if ok then FORMATTED else FORMAT_DEV_ERROR))"

definition fat_mount :: "(u16 \<Rightarrow> 'd msd_ops) \<Rightarrow> 'd \<Rightarrow> fat_driver \<Rightarrow> u16 \<Rightarrow> u32 \<Rightarrow> (fat_driver \<times> mount_status) option" where
  "fat_mount dev d s h sector_size =
     (if find_storage_dev_ref s h \<noteq> None then Some (s, ALREADY_MOUNTED)
      else
        let buf = mass_storage_device_read (dev h) d (unat sector_size) 0
        in if length buf \<noteq> unat sector_size then Some (s, MOUNT_DEV_ERROR)
           else if length buf < 512 then None
           else map_option (\<lambda>total_clusters.
                  if \<not> can_mount total_clusters then (s, MOUNT_NOT_SUPPORTED)
                  else (s\<lparr>storage_dev_refs := storage_dev_refs s @ [(h, bytes_boot buf)]\<rparr>, MOUNTED))
                (count_clusters (bytes_boot buf)))"

definition fat_unmount :: "fat_driver \<Rightarrow> u16 \<Rightarrow> fat_driver \<times> mount_status" where
  "fat_unmount s h =
     (case find_storage_dev_ref s h of
        None \<Rightarrow> (s, NOT_MOUNTED)
      | Some b \<Rightarrow> (s\<lparr>storage_dev_refs := remove1 (h, b) (storage_dev_refs s)\<rparr>, UNMOUNTED))"

section \<open>Operations on mounted volumes\<close>

definition is_valid_file_path :: "string \<Rightarrow> bool" where
  "is_valid_file_path p = list_all validate_long_name (split p SEP)"

definition fat_create :: "(u16 \<Rightarrow> 'd msd_ops) \<Rightarrow> 'd \<Rightarrow> fat_driver \<Rightarrow> u16 \<Rightarrow> string \<Rightarrow> u8 \<Rightarrow> ('d \<times> fs_status) option" where
  "fat_create dev d s h p attrs =
     (case find_storage_dev_ref s h of
        None \<Rightarrow> Some (d, FS_DEV_UNKNOWN)
      | Some b \<Rightarrow>
          if split p SEP = [] then Some (d, FS_BAD_PATH)
          else case node_exists (dev h) d b p of
            None \<Rightarrow> None
          | Some st \<Rightarrow>
              if st \<noteq> FS_NOT_FOUND then Some (d, st)
              else let a = node_attributes_to_fat_file_attributes attrs
                   in if a AND DIRECTORY \<noteq> 0 then create_directory (dev h) d b p a else create_file (dev h) d b p a)"

definition access_failure :: "volume_status \<Rightarrow> fs_status" where
  "access_failure st = (case st of VA_NOT_FOUND \<Rightarrow> FS_NOT_FOUND | VA_BAD_PATH \<Rightarrow> FS_BAD_PATH | VA_DEV_ERROR \<Rightarrow> FS_DEV_ERROR
     | VA_OKAY \<Rightarrow> FS_NONE)"

definition fat_open ::
  "(u16 \<Rightarrow> 'd msd_ops) \<Rightarrow> 'd \<Rightarrow> fat_driver \<Rightarrow> u16 \<Rightarrow> string \<Rightarrow> io_mode \<Rightarrow> (fs_status + fat_node) option" where
  "fat_open dev d s h p mode =
     (case find_storage_dev_ref s h of
        None \<Rightarrow> Some (Inl FS_DEV_UNKNOWN)
      | Some b \<Rightarrow>
          (case search (dev h) d b p of
             None \<Rightarrow> None
           | Some (st, e) \<Rightarrow>
               if st = VA_OKAY then map_option Inr (open_fat_node (dev h) d b mode e) else Some (Inl (access_failure st))))"

definition fat_find_node :: "(u16 \<Rightarrow> 'd msd_ops) \<Rightarrow> 'd \<Rightarrow> fat_driver \<Rightarrow> u16 \<Rightarrow> string \<Rightarrow> (fs_status + node_info) option" where
  "fat_find_node dev d s h p =
     (case find_storage_dev_ref s h of
        None \<Rightarrow> Some (Inl FS_DEV_UNKNOWN)
      | Some b \<Rightarrow> map_option (\<lambda>(st, e). if st = VA_OKAY then Inr (info_of e) else Inl (access_failure st))
          (search (dev h) d b p))"

definition fat_delete_node :: "(u16 \<Rightarrow> 'd msd_ops) \<Rightarrow> 'd \<Rightarrow> fat_driver \<Rightarrow> u16 \<Rightarrow> string \<Rightarrow> ('d \<times> fs_status) option" where
  "fat_delete_node dev d s h p =
     (case find_storage_dev_ref s h of
        None \<Rightarrow> Some (d, FS_DEV_UNKNOWN)
      | Some b \<Rightarrow>
          if split p SEP = [] then Some (d, FS_BAD_PATH)
          else case search (dev h) d b p of
            None \<Rightarrow> None
          | Some (st, e) \<Rightarrow>
              if st \<noteq> VA_OKAY then Some (d, access_failure st)
              else if has_attribute (fentry e) DIRECTORY then delete_directory (dev h) d b e
              else delete_file (dev h) d b e)"

definition fat_open_directory_stream ::
  "(u16 \<Rightarrow> 'd msd_ops) \<Rightarrow> 'd \<Rightarrow> fat_driver \<Rightarrow> u16 \<Rightarrow> string \<Rightarrow> (fs_status + dir_iter) option" where
  "fat_open_directory_stream dev d s h p =
     (case find_storage_dev_ref s h of
        None \<Rightarrow> Some (Inl FS_DEV_UNKNOWN)
      | Some b \<Rightarrow>
          (case search (dev h) d b p of
             None \<Rightarrow> None
           | Some (st, e) \<Rightarrow>
               if st \<noteq> VA_OKAY then Some (Inl (access_failure st))
               else if \<not> has_attribute (fentry e) DIRECTORY then Some (Inl FS_BAD_PATH)
               else map_option Inr (new_iterator (dev h) d b (cluster_of (fentry e)) LIST_DIRECTORY)))"

end
