(* ===== verification/Vfs.thy ===== *)
theory Vfs
  imports Fat_Driver
begin

text \<open>
  The virtual file system (\<^verbatim>\<open>Src/VirtualFileSystem/VFSModule.cpp\<close>): the table of drivers, mount points, open nodes
  and directory streams, and the operations on absolute paths.

  Drivers are records of their operations on a shared world, which holds their state and the devices. The hash maps
  of the module are lists of entries in the order of their iteration, which a hash map does not fix; \<open>put\<close> does not look for
  an entry of the same key. \<open>None\<close> is a null pointer access, a read of destroyed memory or a loop that does not end.
  The functions that a node and a directory stream call when they are closed are the path and the handle they hold.
\<close>

section \<open>State\<close>

record ('d, 'n, 's) driver =
  drv_format :: "'d \<Rightarrow> u16 \<Rightarrow> ('d \<times> format_status) option"
  drv_mount :: "'d \<Rightarrow> u16 \<Rightarrow> ('d \<times> mount_status) option"
  drv_unmount :: "'d \<Rightarrow> u16 \<Rightarrow> ('d \<times> mount_status) option"
  drv_is_valid_file_path :: "string \<Rightarrow> bool"
  drv_create :: "'d \<Rightarrow> u16 \<Rightarrow> string \<Rightarrow> u8 \<Rightarrow> ('d \<times> fs_status) option"
  drv_open :: "'d \<Rightarrow> u16 \<Rightarrow> string \<Rightarrow> string \<Rightarrow> io_mode \<Rightarrow> ('d \<times> (fs_status + 'n)) option"
  drv_find_node :: "'d \<Rightarrow> u16 \<Rightarrow> string \<Rightarrow> ('d \<times> (fs_status + node_info)) option"
  drv_delete_node :: "'d \<Rightarrow> u16 \<Rightarrow> string \<Rightarrow> ('d \<times> fs_status) option"
  drv_open_directory_stream :: "'d \<Rightarrow> u16 \<Rightarrow> string \<Rightarrow> ('d \<times> (fs_status + 's)) option"

record mount_point_info =
  mp_mount_point :: string
  mp_driver_name :: string
  mp_device :: u16

record node_ref_count =
  nr_node_path :: string
  nr_ref_count :: u16
  nr_delete_this :: bool

record 'n vfs_node =
  vn_handle :: u16
  vn_name :: string
  vn_closed :: bool
  vn_path :: string
  vn_node :: 'n

record 's vfs_stream =
  vs_handle :: u16
  vs_name :: string
  vs_closed :: bool
  vs_stream :: 's

datatype vfs_event = NODE_OPENED u16 | NODE_CLOSED u16 | DIRECTORY_STREAM_OPENED u16 | DIRECTORY_STREAM_CLOSED u16

record ('d, 'n, 's) vfs =
  world :: 'd
  driver_table :: "(string \<times> ('d, 'n, 's) driver) list"
  mount_table :: "(string \<times> mount_point_info) list"
  ref_table :: "(string \<times> node_ref_count) list"
  node_table :: "(u16 \<times> 'n vfs_node) list"
  node_counter :: u16
  stream_table :: "(u16 \<times> 's vfs_stream) list"
  stream_counter :: u16
  events :: "vfs_event list"

fun table_remove :: "'k \<Rightarrow> ('k \<times> 'v) list \<Rightarrow> ('k \<times> 'v) list" where
  "table_remove k [] = []"
| "table_remove k (e # es) = (if fst e = k then es else e # table_remove k es)"

text \<open>A change of the value that an iterator points to.\<close>

fun table_update :: "'k \<Rightarrow> ('v \<Rightarrow> 'v) \<Rightarrow> ('k \<times> 'v) list \<Rightarrow> ('k \<times> 'v) list" where
  "table_update k f [] = []"
| "table_update k f (e # es) = (if fst e = k then (k, f (snd e)) # es else e # table_update k f es)"

definition fire :: "vfs_event \<Rightarrow> ('d, 'n, 's) vfs \<Rightarrow> ('d, 'n, 's) vfs" where
  "fire e v = v\<lparr>events := events v @ [e]\<rparr>"

section \<open>Handles\<close>

text \<open>The comparison is made after the promotion of both sides to \<open>int\<close>.\<close>

definition has_more_handles :: "u16 \<Rightarrow> bool" where "has_more_handles counter \<longleftrightarrow> int (unat counter) < int (unat counter) + 1"

definition acquire :: "u16 \<Rightarrow> u16" where "acquire counter = counter + 1"

definition release_last_acquired :: "u16 \<Rightarrow> u16" where "release_last_acquired counter = (if 0 < counter then counter - 1 else counter)"

section \<open>Mount points\<close>

definition no_mount_point :: mount_point_info where "no_mount_point = \<lparr>mp_mount_point = [], mp_driver_name = [], mp_device = 0\<rparr>"

fun best_fit :: "string \<Rightarrow> (string \<times> mount_point_info) list \<Rightarrow> nat \<Rightarrow> mount_point_info \<Rightarrow> mount_point_info option" where
  "best_fit p [] best_fit_len best = Some best"
| "best_fit p ((mp, info) # table) best_fit_len best =
     (case common_path p mp of
        None \<Rightarrow> None
      | Some c \<Rightarrow>
          let mp_len = length (split mp SEP)
          in if c = mp \<and> best_fit_len \<le> mp_len then best_fit p table mp_len info else best_fit p table best_fit_len best)"

definition resolve_mount :: "('d, 'n, 's) vfs \<Rightarrow> string \<Rightarrow> mount_point_info option" where
  "resolve_mount v p = best_fit p (mount_table v) 0 no_mount_point"

text \<open>The driver of a path: looking up a name that is not in the table gives a null pointer.\<close>

definition driver_of :: "('d, 'n, 's) vfs \<Rightarrow> string \<Rightarrow> (mount_point_info \<times> ('d, 'n, 's) driver) option" where
  "driver_of v p =
     (case resolve_mount v p of
        None \<Rightarrow> None
      | Some mpi \<Rightarrow> map_option (Pair mpi) (map_of (driver_table v) (mp_driver_name mpi)))"

definition install_driver :: "('d, 'n, 's) vfs \<Rightarrow> string \<Rightarrow> ('d, 'n, 's) driver \<Rightarrow> ('d, 'n, 's) vfs \<times> bool" where
  "install_driver v n drv =
     (if map_of (driver_table v) n = None then (v\<lparr>driver_table := (n, drv) # driver_table v\<rparr>, True) else (v, False))"

definition uninstall_driver :: "('d, 'n, 's) vfs \<Rightarrow> string \<Rightarrow> ('d, 'n, 's) vfs \<times> bool" where
  "uninstall_driver v n = (v\<lparr>driver_table := table_remove n (driver_table v)\<rparr>, map_of (driver_table v) n \<noteq> None)"

definition vfs_format :: "('d, 'n, 's) vfs \<Rightarrow> string \<Rightarrow> u16 \<Rightarrow> (('d, 'n, 's) vfs \<times> format_status) option" where
  "vfs_format v n h =
     (case map_of (driver_table v) n of
        None \<Rightarrow> Some (v, UNKNOWN_DRIVER)
      | Some drv \<Rightarrow> map_option (\<lambda>(d, st). (v\<lparr>world := d\<rparr>, st)) (drv_format drv (world v) h))"

text \<open>The loop over the drivers: the first one that serves the device gets the mount point.\<close>

fun mount_with ::
  "(string \<times> ('d, 'n, 's) driver) list \<Rightarrow> string \<Rightarrow> u16 \<Rightarrow> ('d, 'n, 's) vfs \<Rightarrow> (('d, 'n, 's) vfs \<times> mount_status) option" where
  "mount_with [] p h v = Some (v, MOUNT_NOT_SUPPORTED)"
| "mount_with ((n, drv) # drivers) p h v =
     (case drv_mount drv (world v) h of
        None \<Rightarrow> None
      | Some (d, st) \<Rightarrow>
          let v = v\<lparr>world := d\<rparr>; st = (if st = ALREADY_MOUNTED then MOUNTED else st)
          in if st = MOUNTED
             then Some (v\<lparr>mount_table := (p, \<lparr>mp_mount_point = p, mp_driver_name = n, mp_device = h\<rparr>) # mount_table v\<rparr>, st)
             else mount_with drivers p h v)"

definition vfs_mount :: "('d, 'n, 's) vfs \<Rightarrow> string \<Rightarrow> u16 \<Rightarrow> (('d, 'n, 's) vfs \<times> mount_status) option" where
  "vfs_mount v p h =
     (if \<not> is_absolute p then Some (v, MOUNT_BAD_PATH)
      else if mount_table v = [] \<and> \<not> is_root p then Some (v, MOUNT_ERROR)
      else if map_of (mount_table v) p \<noteq> None then Some (v, ALREADY_MOUNTED)
      else do {
        (v, found) \<leftarrow> (if mount_table v = [] then Some (v, True)
                       else do {
                         (mpi, drv) \<leftarrow> driver_of v p;
                         (d, r) \<leftarrow> drv_find_node drv (world v) (mp_device mpi) (relative_to p (mp_mount_point mpi));
                         Some (v\<lparr>world := d\<rparr>, case r of Inr _ \<Rightarrow> True | Inl _ \<Rightarrow> False) });
        if \<not> found then Some (v, MOUNT_ERROR) else mount_with (driver_table v) p h v })"

definition vfs_unmount :: "('d, 'n, 's) vfs \<Rightarrow> string \<Rightarrow> (('d, 'n, 's) vfs \<times> mount_status) option" where
  "vfs_unmount v p =
     (if \<not> is_absolute p then Some (v, MOUNT_BAD_PATH)
      else if is_root p then Some (v, MOUNT_BAD_PATH)
      else if map_of (mount_table v) p = None then Some (v, NOT_MOUNTED)
      else do {
        (mpi, drv) \<leftarrow> driver_of v p;
        (d, st) \<leftarrow> drv_unmount drv (world v) (mp_device mpi);
        if st \<noteq> UNMOUNTED then Some (v\<lparr>world := d\<rparr>, st)
        else Some (v\<lparr>world := d, mount_table := table_remove p (mount_table v)\<rparr>, UNMOUNTED) })"

text \<open>The tables as lists; the table of drivers lists those of the mount points.\<close>

definition get_driver_table :: "('d, 'n, 's) vfs \<Rightarrow> string list" where
  "get_driver_table v = map (\<lambda>(_, mpi). mp_driver_name mpi) (mount_table v)"

definition get_mount_point_table :: "('d, 'n, 's) vfs \<Rightarrow> mount_point_info list" where
  "get_mount_point_table v = map snd (mount_table v)"

definition get_node_table :: "('d, 'n, 's) vfs \<Rightarrow> 'n vfs_node list" where
  "get_node_table v = map snd (node_table v)"

definition get_directory_stream_table :: "('d, 'n, 's) vfs \<Rightarrow> 's vfs_stream list" where
  "get_directory_stream_table v = map snd (stream_table v)"

section \<open>Operations on paths\<close>

partial_function (option) valid_loop :: "('d, 'n, 's) vfs \<Rightarrow> string \<Rightarrow> string \<Rightarrow> bool option" where
  "valid_loop v p remaining =
     (if is_root remaining then Some True
      else case resolve_mount v p of
        None \<Rightarrow> None
      | Some mpi \<Rightarrow>
          (case map_of (driver_table v) (mp_driver_name mpi) of
             None \<Rightarrow> Some False
           | Some drv \<Rightarrow>
               if \<not> drv_is_valid_file_path drv (relative_to remaining (mp_mount_point mpi)) then Some False
               else (case common_path remaining (mp_mount_point mpi) of
                       None \<Rightarrow> None
                     | Some r \<Rightarrow> valid_loop v p r)))"

declare valid_loop.simps [code]

definition vfs_is_valid_file_path :: "('d, 'n, 's) vfs \<Rightarrow> string \<Rightarrow> bool option" where
  "vfs_is_valid_file_path v p = (if \<not> is_absolute p then Some False else valid_loop v p p)"

definition vfs_create :: "('d, 'n, 's) vfs \<Rightarrow> string \<Rightarrow> u8 \<Rightarrow> (('d, 'n, 's) vfs \<times> fs_status) option" where
  "vfs_create v p attrs =
     (if \<not> is_absolute p then Some (v, FS_BAD_PATH)
      else if map_of (mount_table v) p \<noteq> None then Some (v, FS_FOUND)
      else do {
        (mpi, drv) \<leftarrow> driver_of v p;
        (d, st) \<leftarrow> drv_create drv (world v) (mp_device mpi) (relative_to p (mp_mount_point mpi)) attrs;
        Some (v\<lparr>world := d\<rparr>, st) })"

definition vfs_get_node_info :: "('d, 'n, 's) vfs \<Rightarrow> string \<Rightarrow> (('d, 'n, 's) vfs \<times> (fs_status + node_info)) option" where
  "vfs_get_node_info v p =
     (if \<not> is_absolute p then Some (v, Inl FS_BAD_PATH)
      else do {
        (mpi, drv) \<leftarrow> driver_of v p;
        (d, r) \<leftarrow> drv_find_node drv (world v) (mp_device mpi) (relative_to p (mp_mount_point mpi));
        Some (v\<lparr>world := d\<rparr>, r) })"

text \<open>A node is open if it or, for a directory, a node below it is open: then it is marked or kept.\<close>

definition vfs_delete_node :: "('d, 'n, 's) vfs \<Rightarrow> string \<Rightarrow> (('d, 'n, 's) vfs \<times> fs_status) option" where
  "vfs_delete_node v p =
     (if \<not> is_absolute p then Some (v, FS_BAD_PATH)
      else if map_of (mount_table v) p \<noteq> None then Some (v, FS_ACCESS_DENIED)
      else do {
        mpi \<leftarrow> resolve_mount v p;
        let delete_now = (case map_of (ref_table v) p of None \<Rightarrow> True | Some r \<Rightarrow> nr_ref_count r = 0);
        if delete_now then
          if list_ex (\<lambda>(q, r). relative_to q p \<noteq> []) (ref_table v) then Some (v, FS_ACCESS_DENIED)
          else do {
            drv \<leftarrow> map_of (driver_table v) (mp_driver_name mpi);
            (d, st) \<leftarrow> drv_delete_node drv (world v) (mp_device mpi) (relative_to p (mp_mount_point mpi));
            Some (v\<lparr>world := d\<rparr>, st) }
        else Some (v\<lparr>ref_table := table_update p (\<lambda>r. r\<lparr>nr_delete_this := True\<rparr>) (ref_table v)\<rparr>, FS_DELETED) })"

section \<open>Open nodes\<close>

definition vfs_find_node :: "('d, 'n, 's) vfs \<Rightarrow> u16 \<Rightarrow> 'n vfs_node option" where
  "vfs_find_node v h = map_of (node_table v) h"

definition vfs_open :: "('d, 'n, 's) vfs \<Rightarrow> string \<Rightarrow> io_mode \<Rightarrow> (('d, 'n, 's) vfs \<times> (fs_status + 'n vfs_node)) option" where
  "vfs_open v p mode =
     (if \<not> is_absolute p then Some (v, Inl FS_BAD_PATH)
      else if \<not> has_more_handles (node_counter v) then Some (v, Inl FS_OUT_OF_HANDLES)
      else do {
        (mpi, drv) \<leftarrow> driver_of v p;
        let node_handle = acquire (node_counter v);
        let v = v\<lparr>node_counter := node_handle\<rparr>;
        (d, r) \<leftarrow> drv_open drv (world v) (mp_device mpi) (mp_mount_point mpi) (relative_to p (mp_mount_point mpi)) mode;
        let v = v\<lparr>world := d\<rparr>;
        (case r of
           Inl st \<Rightarrow> Some (v\<lparr>node_counter := release_last_acquired (node_counter v)\<rparr>, Inl st)
         | Inr n \<Rightarrow>
             let out = \<lparr>vn_handle = node_handle, vn_name = get_file_name p, vn_closed = False, vn_path = p, vn_node = n\<rparr>;
                 v = fire (NODE_OPENED node_handle) (v\<lparr>node_table := (node_handle, out) # node_table v\<rparr>)
             in Some (v\<lparr>ref_table :=
                  (if map_of (ref_table v) p = None then (p, \<lparr>nr_node_path = p, nr_ref_count = 1, nr_delete_this = False\<rparr>) # ref_table v
                   else table_update p (\<lambda>r. r\<lparr>nr_ref_count := nr_ref_count r + 1\<rparr>) (ref_table v))\<rparr>, Inr out)) })"

text \<open>The function that a node calls when it is closed.\<close>

definition on_close_node :: "string \<Rightarrow> u16 \<Rightarrow> ('d, 'n, 's) vfs \<Rightarrow> ('d, 'n, 's) vfs option" where
  "on_close_node p node_handle v =
     (let v = fire (NODE_CLOSED node_handle) (v\<lparr>node_table := table_remove node_handle (node_table v)\<rparr>)
      in case map_of (ref_table v) p of
           None \<Rightarrow> Some v
         | Some r \<Rightarrow>
             let v = v\<lparr>ref_table := table_update p (\<lambda>r. r\<lparr>nr_ref_count := nr_ref_count r - 1\<rparr>) (ref_table v)\<rparr>
             in if nr_ref_count r - 1 \<noteq> 0 then Some v
                else
                  let v = v\<lparr>ref_table := table_remove p (ref_table v)\<rparr>
                  in if nr_delete_this r then map_option (\<lambda>(v, st). v) (vfs_delete_node v p) else Some v)"

definition close_node :: "'n vfs_node \<Rightarrow> ('d, 'n, 's) vfs \<Rightarrow> (('d, 'n, 's) vfs \<times> 'n vfs_node) option" where
  "close_node n v = map_option (\<lambda>v. (v, n\<lparr>vn_closed := True\<rparr>)) (on_close_node (vn_path n) (vn_handle n) v)"

text \<open>The attributes are those that the node, through its three methods, says it has.\<close>

definition get_node_info_of_handle ::
  "('n \<Rightarrow> string) \<Rightarrow> ('n \<Rightarrow> nat) \<Rightarrow> ('n \<Rightarrow> u8 \<Rightarrow> bool) \<Rightarrow> ('d, 'n, 's) vfs \<Rightarrow> u16 \<Rightarrow> fs_status + node_info" where
  "get_node_info_of_handle get_node_path get_size has_attr v h =
     (case map_of (node_table v) h of
        None \<Rightarrow> Inl FS_NOT_FOUND
      | Some n \<Rightarrow>
          let node = vn_node n;
              node_attr = 0;
              node_attr = (if has_attr node NODE_READONLY then node_attr OR NODE_READONLY else node_attr);
              node_attr = (if has_attr node NODE_HIDDEN then node_attr OR NODE_HIDDEN else node_attr);
              node_attr = (if has_attr node NODE_SYSTEM then node_attr OR NODE_SYSTEM else node_attr);
              node_attr = (if has_attr node NODE_DIRECTORY then node_attr OR NODE_DIRECTORY else node_attr);
              node_attr = (if has_attr node NODE_FILE then node_attr OR NODE_FILE else node_attr)
          in Inr \<lparr>node_path = get_node_path node, info_size = get_size node, info_attributes = node_attr\<rparr>)"

section \<open>Directory streams\<close>

definition vfs_find_directory_stream :: "('d, 'n, 's) vfs \<Rightarrow> u16 \<Rightarrow> 's vfs_stream option" where
  "vfs_find_directory_stream v h = map_of (stream_table v) h"

definition vfs_open_directory_stream ::
  "('d, 'n, 's) vfs \<Rightarrow> string \<Rightarrow> (('d, 'n, 's) vfs \<times> (fs_status + 's vfs_stream)) option" where
  "vfs_open_directory_stream v p =
     (if \<not> is_absolute p then Some (v, Inl FS_BAD_PATH)
      else if \<not> has_more_handles (stream_counter v) then Some (v, Inl FS_OUT_OF_HANDLES)
      else do {
        let h = acquire (stream_counter v);
        let v = v\<lparr>stream_counter := h\<rparr>;
        (mpi, drv) \<leftarrow> driver_of v p;
        (d, r) \<leftarrow> drv_open_directory_stream drv (world v) (mp_device mpi) (relative_to p (mp_mount_point mpi));
        let v = v\<lparr>world := d\<rparr>;
        (case r of
           Inl st \<Rightarrow> Some (v\<lparr>stream_counter := release_last_acquired (stream_counter v)\<rparr>, Inl st)
         | Inr s \<Rightarrow>
             let out = \<lparr>vs_handle = h, vs_name = p, vs_closed = False, vs_stream = s\<rparr>
             in Some (fire (DIRECTORY_STREAM_OPENED h) (v\<lparr>stream_table := (h, out) # stream_table v\<rparr>), Inr out)) })"

definition close_stream :: "'s vfs_stream \<Rightarrow> ('d, 'n, 's) vfs \<Rightarrow> ('d, 'n, 's) vfs \<times> 's vfs_stream" where
  "close_stream s v =
     (fire (DIRECTORY_STREAM_CLOSED (vs_handle s)) (v\<lparr>stream_table := table_remove (vs_handle s) (stream_table v)\<rparr>), s\<lparr>vs_closed := True\<rparr>)"

section \<open>Start\<close>

definition create_system_directory :: "('d, 'n, 's) vfs \<Rightarrow> string \<Rightarrow> (('d, 'n, 's) vfs \<times> bool) option" where
  "create_system_directory v p =
     map_option (\<lambda>(v, st). (v, st = FS_CREATED \<or> st = FS_FOUND)) (vfs_create v p (NODE_DIRECTORY OR NODE_SYSTEM))"

text \<open>The mass storage devices of the device module: their handles, and whether they are partitions.\<close>

definition vfs_load :: "(u16 \<times> bool) list \<Rightarrow> ('d, 'n, 's) vfs \<Rightarrow> (('d, 'n, 's) vfs \<times> bool) option" where
  "vfs_load msd_list v =
     (let h = (case find snd msd_list of None \<Rightarrow> 0 | Some (h, _) \<Rightarrow> h)
      in if h = 0 then Some (v, False)
         else do {
           (v, st) \<leftarrow> vfs_mount v ''/'' h;
           if st \<noteq> MOUNTED then Some (v, False)
           else do {
             let sys_dir = path_append ''/'' ''System'';
             (v, ok) \<leftarrow> create_system_directory v sys_dir;
             if \<not> ok then Some (v, False)
             else do {
               (v, ok) \<leftarrow> create_system_directory v (path_append sys_dir ''Log'');
               if \<not> ok then Some (v, False)
               else Some (v\<lparr>node_counter := acquire (acquire (node_counter v))\<rparr>, True) } } })"

section \<open>The FAT driver\<close>

definition fat_driver_ops ::
  "(u16 \<Rightarrow> 'd msd_ops) \<Rightarrow> (u16 \<Rightarrow> u32) \<Rightarrow> (u16 \<Rightarrow> u64) \<Rightarrow> (fat_driver \<times> 'd, fat_node, dir_iter) driver" where
  "fat_driver_ops dev sector_size sectors = \<lparr>
     drv_format = (\<lambda>(s, d) h. map_option (\<lambda>(d, st). ((s, d), st)) (format_volume (dev h) d (sector_size h) (sectors h))),
     drv_mount = (\<lambda>(s, d) h. map_option (\<lambda>(s, st). ((s, d), st)) (fat_mount dev d s h (sector_size h))),
     drv_unmount = (\<lambda>(s, d) h. let (s, st) = fat_unmount s h in Some ((s, d), st)),
     drv_is_valid_file_path = is_valid_file_path,
     drv_create = (\<lambda>(s, d) h p attrs. map_option (\<lambda>(d, st). ((s, d), st)) (fat_create dev d s h p attrs)),
     drv_open = (\<lambda>(s, d) h mp p mode. map_option (Pair (s, d)) (fat_open dev d s h p mode)),
     drv_find_node = (\<lambda>(s, d) h p. map_option (Pair (s, d)) (fat_find_node dev d s h p)),
     drv_delete_node = (\<lambda>(s, d) h p. map_option (\<lambda>(d, st). ((s, d), st)) (fat_delete_node dev d s h p)),
     drv_open_directory_stream = (\<lambda>(s, d) h p. map_option (Pair (s, d)) (fat_open_directory_stream dev d s h p))\<rparr>"

end
