(* ===== verification/Fat_Content.thy ===== *)
theory Fat_Content
  imports Fat_File
begin

text \<open>
  Open files as byte sequences: what reading, writing and seeking do to the content of a file and its cursor.
\<close>

section \<open>Files as byte sequences\<close>

text \<open>The bytes of a file with the clusters \<open>cs\<close> and the place of its cursor.\<close>

definition file_bytes :: "(u32 \<Rightarrow> u8 list) \<Rightarrow> u32 list \<Rightarrow> nat \<Rightarrow> u8 list" where
  "file_bytes blk cs n = take n (concat (map blk cs))"

definition cursor_pos :: "boot_record \<Rightarrow> fat_node \<Rightarrow> nat" where
  "cursor_pos b s = unat (processed_clusters s) * cluster_size b + unat (cluster_offset s)"

definition same_node :: "fat_node \<Rightarrow> fat_node \<Rightarrow> bool" where
  "same_node s s' \<longleftrightarrow> closed s' = closed s \<and> node_io_mode s' = node_io_mode s \<and> node_entry s' = node_entry s"

text \<open>The cursor stands in a cluster of the chain; behind the last byte of a cluster only in the last one.\<close>

definition cursor_ok :: "boot_record \<Rightarrow> u32 list \<Rightarrow> fat_node \<Rightarrow> bool" where
  "cursor_ok b cs s \<longleftrightarrow>
     unat (processed_clusters s) < length cs \<and> current_cluster s = cs ! unat (processed_clusters s) \<and>
     unat (cluster_offset s) \<le> cluster_size b \<and>
     (unat (cluster_offset s) = cluster_size b \<longrightarrow> Suc (unat (processed_clusters s)) = length cs)"

definition sizes_ok :: "boot_record \<Rightarrow> u32 list \<Rightarrow> fat_node \<Rightarrow> bool" where
  "sizes_ok b cs s \<longleftrightarrow> unat (node_size s) \<le> length cs * cluster_size b \<and> length cs * cluster_size b < 2 ^ 32"

lemma cluster_size_bound: "cluster_size b < 2 ^ 24"
proof -
  have "unat (bytes_per_sector b) < 2 ^ 16" "unat (sectors_per_cluster b) < 2 ^ 8"
    using unsigned_less [of "bytes_per_sector b"] unsigned_less [of "sectors_per_cluster b"] by simp_all
  then have "unat (bytes_per_sector b) * unat (sectors_per_cluster b) < 2 ^ 16 * 2 ^ 8"
    by (intro mult_strict_mono) simp_all
  then show ?thesis by (simp add: cluster_size_def)
qed

lemma processed_bytes_pos:
  assumes "cursor_pos b s < 2 ^ 32"
  shows "unat (processed_bytes b s) = cursor_pos b s"
proof -
  let ?p = "unat (processed_clusters s)"
  have e: "processed_bytes b s = word_of_nat (cursor_pos b s)"
    by (simp add: processed_bytes_def cursor_pos_def cluster_size_def mult.assoc)
  show ?thesis using assms unfolding e by (simp add: unat_of_nat)
qed

lemma concat_blocks_drop:
  assumes "\<forall>x \<in> set bs. length x = k" and "p < length bs" and "i \<le> k"
  shows "drop (p * k + i) (concat bs) = drop i (bs ! p) @ concat (drop (Suc p) bs)"
  using assms
proof (induction bs arbitrary: p)
  case (Cons x bs)
  then show ?case by (cases p) (auto simp: add.assoc)
qed simp

lemma chain_next: "chain ent cs \<Longrightarrow> Suc p < length cs \<Longrightarrow> ent (cs ! p) = cs ! Suc p"
proof (induction ent cs arbitrary: p rule: chain.induct)
  case (3 ent c c' cs)
  then show ?case by (cases p) auto
qed auto

lemma chain_last: "chain ent cs \<Longrightarrow> Suc p = length cs \<Longrightarrow> MAX_CLUSTER_COUNT + 1 \<le> ent (cs ! p)"
proof (induction ent cs arbitrary: p rule: chain.induct)
  case (3 ent c c' cs)
  then show ?case by (cases p) auto
qed auto

lemma node_has_file: "\<not> closed s \<Longrightarrow> node_has_attribute s NODE_FILE = bit (attributes (fentry (node_entry s))) 5"
  by (simp add: node_has_attribute_def has_attribute_def NODE_FILE_def NODE_READONLY_def NODE_HIDDEN_def
      NODE_SYSTEM_def NODE_DIRECTORY_def ARCHIVE_def READONLY_def HIDDEN_def SYSTEM_def VOLUME_ID_def DIRECTORY_def)

lemma same_node_refl [simp]: "same_node s s" by (simp add: same_node_def)

lemma cursor_pos_bound:
  assumes "cursor_ok b cs s" and "sizes_ok b cs s"
  shows "cursor_pos b s \<le> length cs * cluster_size b" and "cursor_pos b s < 2 ^ 32"
proof -
  let ?p = "unat (processed_clusters s)"
  have "cursor_pos b s \<le> Suc ?p * cluster_size b" using assms(1) by (simp add: cursor_pos_def cursor_ok_def)
  also have "\<dots> \<le> length cs * cluster_size b" using assms(1) by (intro mult_le_mono) (simp_all add: cursor_ok_def)
  finally show "cursor_pos b s \<le> length cs * cluster_size b" .
  then show "cursor_pos b s < 2 ^ 32" using assms(2) by (simp add: sizes_ok_def)
qed

lemma has_more_pos:
  assumes "cursor_ok b cs s" and "sizes_ok b cs s" and "\<not> closed s" and "node_has_attribute s NODE_FILE"
  shows "has_more b s \<longleftrightarrow> cursor_pos b s < unat (node_size s)"
  using assms processed_bytes_pos [OF cursor_pos_bound(2) [OF assms(1,2)]]
  by (simp add: has_more_def word_less_nat_alt)


text \<open>A file that is open for \<open>s\<close>: its clusters form a chain of valid clusters that holds all of its bytes.\<close>

definition file_ok :: "(u32 \<Rightarrow> bool) \<Rightarrow> (u32 \<Rightarrow> bool) \<Rightarrow> (u32 \<Rightarrow> u32) \<Rightarrow> boot_record \<Rightarrow> u32 list \<Rightarrow> fat_node \<Rightarrow> bool" where
  "file_ok evalid dvalid ent b cs s \<longleftrightarrow>
     chain ent cs \<and> clusters_ok evalid cs \<and> (\<forall>c \<in> set cs. dvalid c) \<and> sizes_ok b cs s \<and>
     \<not> closed s \<and> node_has_attribute s NODE_FILE"

lemma file_ok_same:
  "same_node s s' \<Longrightarrow> file_ok evalid dvalid ent b cs s \<Longrightarrow> file_ok evalid dvalid ent b cs s'"
  by (simp add: file_ok_def same_node_def sizes_ok_def node_has_attribute_def)

text \<open>The file layer also relies on valid clusters being different from the end marker.\<close>

locale fat_files = fat_table +
  assumes below: "fok d \<Longrightarrow> evalid c \<Longrightarrow> in_chain c"

context fat_files begin

lemma length_bytes: "length (concat (map (block d) cs)) = length cs * cluster_size b"
  by (induction cs) (simp_all add: block_size)

lemma block_piece:
  assumes "p < length cs" and "i + k \<le> cluster_size b" and "p * cluster_size b + i + k \<le> sz"
  shows "take k (drop i (block d (cs ! p))) = take k (drop (p * cluster_size b + i) (file_bytes (block d) cs sz))"
proof -
  let ?X = "concat (map (block d) cs)"
  have "drop (p * cluster_size b + i) ?X = drop i (block d (cs ! p)) @ concat (drop (Suc p) (map (block d) cs))"
    using assms(1,2) concat_blocks_drop [of "map (block d) cs" "cluster_size b" p i] by (simp add: block_size)
  then have "take k (drop (p * cluster_size b + i) ?X) = take k (drop i (block d (cs ! p)))"
    using assms(2) by (simp add: block_size)
  moreover have "take k (drop (p * cluster_size b + i) (take sz ?X)) = take k (drop (p * cluster_size b + i) ?X)"
    using assms(3) by (simp add: drop_take)
  ultimately show ?thesis by (simp add: file_bytes_def)
qed

lemma next_cluster:
  assumes "fok d" and "chain (entry d) cs" and "clusters_ok evalid cs" and "p < length cs"
  shows "in_chain (fat_read ms d b (cs ! p)) \<longleftrightarrow> Suc p < length cs"
    and "Suc p < length cs \<Longrightarrow> fat_read ms d b (cs ! p) = cs ! Suc p"
proof -
  have v: "evalid (cs ! i)" if "i < length cs" for i using that assms(3) by (simp add: clusters_ok_def)
  have r: "fat_read ms d b (cs ! p) = entry d (cs ! p)" using read_entry [OF assms(1) v] assms(4) by simp
  show n: "fat_read ms d b (cs ! p) = cs ! Suc p" if "Suc p < length cs"
    using r chain_next [OF assms(2)] that by simp
  show "in_chain (fat_read ms d b (cs ! p)) \<longleftrightarrow> Suc p < length cs"
  proof (cases "Suc p < length cs")
    case True
    then show ?thesis using n below [OF assms(1) v] by simp
  next
    case False
    then have "Suc p = length cs" using assms(4) by simp
    then show ?thesis using r chain_last [OF assms(2)] by (simp add: in_chain_def linorder_not_less)
  qed
qed


text \<open>One round of the loop copies the next bytes and moves the cursor behind them.\<close>

lemma read_loop_step:
  assumes "fok d" and f: "file_ok evalid dvalid (entry d) b cs s" and c: "cursor_ok b cs s"
    and more: "cursor_pos b s < unat (node_size s)" "length acc < n"
  shows "\<exists>k s1 stop. 0 < k \<and> length acc + k \<le> n \<and> cursor_pos b s + k \<le> unat (node_size s) \<and> same_node s s1 \<and>
    cursor_ok b cs s1 \<and> cursor_pos b s1 = cursor_pos b s + k \<and> (stop \<longrightarrow> cursor_pos b s + k = unat (node_size s)) \<and>
    (let acc1 = acc @ take k (drop (cursor_pos b s) (file_bytes (block d) cs (unat (node_size s))))
     in read_loop ms d b n s acc = (if stop then Some (s1, IO_OKAY, acc1) else read_loop ms d b n s1 acc1))"
proof -
  let ?p = "unat (processed_clusters s)" and ?off = "unat (cluster_offset s)" and ?C = "cluster_size b"
  let ?sz = "unat (node_size s)" and ?pos = "cursor_pos b s"
  obtain k where kd: "k = min (min (?sz - ?pos) (n - length acc)) (?C - ?off)" by blast
  let ?s0 = "s\<lparr>cluster_offset := cluster_offset s + of_nat k\<rparr>"
  let ?acc1 = "acc @ take k (drop ?pos (file_bytes (block d) cs ?sz))"
  have sz: "sizes_ok b cs s" and cl: "\<not> closed s" "node_has_attribute s NODE_FILE" and ch: "chain (entry d) cs"
    and cs: "clusters_ok evalid cs" and dv: "\<forall>c \<in> set cs. dvalid c" using f by (simp_all add: file_ok_def)
  have p: "?p < length cs" and cur: "current_cluster s = cs ! ?p" and off: "?off \<le> ?C"
    using c by (simp_all add: cursor_ok_def)
  have pos: "?pos = ?p * ?C + ?off" by (simp add: cursor_pos_def)
  have lt: "?off < ?C"
  proof (rule ccontr)
    assume "\<not> ?off < ?C"
    then have "?off = ?C" "Suc ?p = length cs" using c off by (auto simp: cursor_ok_def)
    then have "?pos = length cs * ?C" unfolding pos by (metis add.commute mult_Suc)
    then show False using more(1) sz by (simp add: sizes_ok_def)
  qed
  have k: "0 < k" using more lt by (simp add: kd)
  have fit: "?off + k \<le> ?C" and kb: "k \<le> ?sz - ?pos" "k \<le> n - length acc" using off by (simp_all add: kd)
  have o1: "unat (cluster_offset s + of_nat k) = ?off + k"
    using fit cluster_size_bound [of b] by (subst unat_plus_no_wrap) (simp_all add: unat_of_nat)
  have bytes: "take k (drop ?off (block d (cs ! ?p))) = take k (drop ?pos (file_bytes (block d) cs ?sz))"
    using block_piece [OF p fit] more(1) kb(1) unfolding pos by simp
  have hm: "has_more b s" using has_more_pos [OF c sz cl] more(1) by simp
  have rd: "data_cluster_read ms d b (cs ! ?p) = Some (block d (cs ! ?p))" using dv p assms(1) by (simp add: read_block)
  have pb: "unat (processed_bytes b s) = ?pos" by (rule processed_bytes_pos [OF cursor_pos_bound(2) [OF c sz]])
  have run: "read_loop ms d b n s acc =
      (if ?C \<le> ?off + k then
         if \<not> in_chain (fat_read ms d b (cs ! ?p)) then Some (?s0, IO_OKAY, ?acc1)
         else read_loop ms d b n (?s0\<lparr>processed_clusters := processed_clusters s + 1,
                current_cluster := fat_read ms d b (cs ! ?p), cluster_offset := 0\<rparr>) ?acc1
       else read_loop ms d b n ?s0 ?acc1)"
    using o1 by (subst read_loop.simps) (simp add: hm more(2) cur rd pb bytes leD [OF off] kd [symmetric])
  have "length cs * 1 \<le> length cs * ?C" using lt by (intro mult_le_mono2) simp
  then have "length cs < 2 ^ 32" using sz unfolding sizes_ok_def by linarith
  then have p1: "Suc ?p < length cs \<Longrightarrow> unat (processed_clusters s + 1) = Suc ?p"
    by (subst unat_plus_no_wrap) simp_all
  have k2: "length acc + k \<le> n" "?pos + k \<le> ?sz" using kb more by simp_all
  consider (full) "?off + k = ?C" "Suc ?p < length cs" | (eof) "?off + k = ?C" "Suc ?p = length cs" | (part) "?off + k < ?C"
    using fit p by linarith
  then show ?thesis
  proof cases
    case full
    have nx: "in_chain (fat_read ms d b (cs ! ?p))" "fat_read ms d b (cs ! ?p) = cs ! Suc ?p"
      using next_cluster [OF assms(1) ch cs p] full(2) by simp_all
    show ?thesis
      using full k k2 p1 nx unfolding run pos
      by (intro exI [of _ k] exI [of _ "?s0\<lparr>processed_clusters := processed_clusters s + 1,
                current_cluster := fat_read ms d b (cs ! ?p), cluster_offset := 0\<rparr>"] exI [of _ False])
         (simp add: same_node_def cursor_ok_def cursor_pos_def Let_def)
  next
    case eof
    have "length cs * ?C = ?pos + k" unfolding pos eof(2) [symmetric] using eof(1) by simp
    then have "?pos + k = ?sz" using k2(2) sz unfolding sizes_ok_def by linarith
    moreover have "\<not> in_chain (fat_read ms d b (cs ! ?p))" using next_cluster [OF assms(1) ch cs p] eof(2) by simp
    ultimately show ?thesis
      using eof k k2 o1 p cur unfolding run
      by (intro exI [of _ k] exI [of _ ?s0] exI [of _ True])
         (simp add: same_node_def cursor_ok_def pos, simp add: cursor_pos_def)
  next
    case part
    then show ?thesis
      using k k2 o1 p cur unfolding run
      by (intro exI [of _ k] exI [of _ ?s0] exI [of _ False])
         (simp add: same_node_def cursor_ok_def Let_def pos, simp add: cursor_pos_def)
  qed
qed


lemma read_loop_correct:
  assumes "fok d" and "file_ok evalid dvalid (entry d) b cs s" and "cursor_ok b cs s" and "length acc \<le> n"
  shows "\<exists>s'. read_loop ms d b n s acc = Some (s', IO_OKAY,
      acc @ take (n - length acc) (drop (cursor_pos b s) (file_bytes (block d) cs (unat (node_size s))))) \<and>
    same_node s s' \<and> cursor_ok b cs s' \<and>
    cursor_pos b s' = cursor_pos b s + min (n - length acc) (unat (node_size s) - cursor_pos b s)"
  using assms(2-4)
proof (induction "n - length acc" arbitrary: s acc rule: less_induct)
  case less
  let ?B = "file_bytes (block d) cs (unat (node_size s))" and ?pos = "cursor_pos b s"
  have sz: "sizes_ok b cs s" and cl: "\<not> closed s" "node_has_attribute s NODE_FILE"
    using less.prems(1) by (simp_all add: file_ok_def)
  have lB: "length ?B = unat (node_size s)" using sz by (simp add: file_bytes_def length_bytes sizes_ok_def)
  show ?case
  proof (cases "?pos < unat (node_size s) \<and> length acc < n")
    case False
    then have "\<not> (has_more b s \<and> length acc < n)" using has_more_pos [OF less.prems(2) sz cl] by simp
    then have "read_loop ms d b n s acc = Some (s, IO_OKAY, acc)" by (subst read_loop.simps) (simp only: if_False)
    moreover have "take (n - length acc) (drop ?pos ?B) = []" using False lB by auto
    ultimately show ?thesis using False less.prems(2) by auto
  next
    case True
    then obtain k s1 stop where k: "0 < k" "length acc + k \<le> n" "?pos + k \<le> unat (node_size s)"
      and s1: "same_node s s1" "cursor_ok b cs s1" "cursor_pos b s1 = ?pos + k"
      and stop: "stop \<longrightarrow> ?pos + k = unat (node_size s)"
      and run: "read_loop ms d b n s acc = (if stop then Some (s1, IO_OKAY, acc @ take k (drop ?pos ?B))
                  else read_loop ms d b n s1 (acc @ take k (drop ?pos ?B)))"
      using read_loop_step [OF assms(1) less.prems(1,2), of acc n] unfolding Let_def by blast
    let ?acc1 = "acc @ take k (drop ?pos ?B)"
    have l1: "length ?acc1 = length acc + k" using k(3) lB by simp
    have n1: "node_size s1 = node_size s" using s1(1) by (simp add: same_node_def)
    have split: "?acc1 @ take (n - length ?acc1) (drop (?pos + k) ?B) = acc @ take (n - length acc) (drop ?pos ?B)"
      using take_add [of k "n - length ?acc1" "drop ?pos ?B"] k(2) unfolding l1 by (simp add: add.commute)
    show ?thesis
    proof (cases stop)
      case True
      then have "take (n - length ?acc1) (drop (?pos + k) ?B) = []" using stop lB by simp
      then show ?thesis using run True s1 split stop k by auto
    next
      case False
      have lt: "n - length ?acc1 < n - length acc" and le: "length ?acc1 \<le> n" using k(1,2) unfolding l1 by linarith+
      obtain s' where "read_loop ms d b n s1 ?acc1 = Some (s', IO_OKAY, ?acc1 @ take (n - length ?acc1) (drop (?pos + k) ?B))"
        "same_node s1 s'" "cursor_ok b cs s'"
        "cursor_pos b s' = ?pos + k + min (n - length ?acc1) (unat (node_size s) - (?pos + k))"
        using less.hyps [OF lt file_ok_same [OF s1(1) less.prems(1)] s1(2) le] unfolding n1 s1(3) by blast
      then show ?thesis
        using run False split s1(1) unfolding l1 same_node_def by (simp add: min_def) (use k(2,3) in linarith)
    qed
  qed
qed

lemma node_read_correct:
  assumes "fok d" and "file_ok evalid dvalid (entry d) b cs s" and "cursor_ok b cs s"
  shows "\<exists>s'. node_read ms d b s True n = Some (s', IO_OKAY,
      take n (drop (cursor_pos b s) (file_bytes (block d) cs (unat (node_size s))))) \<and>
    same_node s s' \<and> cursor_ok b cs s' \<and>
    cursor_pos b s' = cursor_pos b s + min n (unat (node_size s) - cursor_pos b s)"
proof (cases "node_size s = 0 \<or> n = 0")
  case True
  then show ?thesis using assms(2,3) by (auto simp: node_read_def file_ok_def file_bytes_def)
next
  case False
  then show ?thesis
    using read_loop_correct [OF assms, of "[]" n] assms(2) by (simp add: node_read_def file_ok_def)
qed

end

section \<open>Opening a file\<close>

lemma cluster_bytes_unat: "unat (cluster_bytes b) = cluster_size b"
  using cluster_size_bound [of b] unfolding cluster_bytes_def cluster_size_def
  by (subst unat_mult_no_wrap) (simp_all add: unat_ucast_up)

lemma file_size_bound: "unat (file_size e) < 2 ^ 32"
  using unsigned_less [of "file_size e", where ?'a = nat] by simp

text \<open>An empty file has no clusters; every other file has as many as its bytes need.\<close>

definition file_chain :: "(u32 \<Rightarrow> u32) \<Rightarrow> u32 list \<Rightarrow> u32 \<Rightarrow> bool" where
  "file_chain ent cs c \<longleftrightarrow> (if cs = [] then c = 0 else chain ent cs \<and> c = hd cs)"

definition exact_size :: "boot_record \<Rightarrow> u32 list \<Rightarrow> nat \<Rightarrow> bool" where
  "exact_size b cs sz \<longleftrightarrow> sz \<le> length cs * cluster_size b \<and> length cs * cluster_size b < sz + cluster_size b"

text \<open>The place of the cursor before a write: in a cluster, or behind the last one.\<close>

definition write_pos :: "boot_record \<Rightarrow> u32 list \<Rightarrow> fat_node \<Rightarrow> bool" where
  "write_pos b cs s \<longleftrightarrow>
     (let p = unat (processed_clusters s); off = unat (cluster_offset s)
      in if p < length cs then current_cluster s = cs ! p \<and> off < cluster_size b
         else p = length cs \<and> off = 0 \<and> current_cluster s = (if cs = [] then 0 else last cs))"

lemma write_pos_cursor: "write_pos b cs s \<Longrightarrow> unat (processed_clusters s) < length cs \<Longrightarrow> cursor_ok b cs s"
  by (simp add: write_pos_def cursor_ok_def Let_def)

context fat_files begin

lemma chain_member:
  assumes "fok d" and "clusters_ok evalid cs" and "p < length cs"
  shows "cs ! p \<noteq> 0" and "in_chain (cs ! p)" and "evalid (cs ! p)"
proof -
  have m: "evalid (cs ! p)" "2 \<le> unat (cs ! p)" using assms(2,3) by (simp_all add: clusters_ok_def)
  then show "cs ! p \<noteq> 0" "in_chain (cs ! p)" "evalid (cs ! p)" using below [OF assms(1)] by auto
qed

lemma last_cluster_loop_chain:
  assumes "fok d" and ch: "chain (entry d) cs" and cs: "clusters_ok evalid cs" and "p < length cs"
  shows "last_cluster_loop ms d b (cs ! p) l i = Some (last cs, i + of_nat (length cs - p))"
  using assms(4)
proof (induction "length cs - p" arbitrary: p l i rule: less_induct)
  case less
  note m = chain_member [OF assms(1) cs less.prems]
  have step: "last_cluster_loop ms d b (cs ! p) l i = last_cluster_loop ms d b (fat_read ms d b (cs ! p)) (cs ! p) (i + 1)"
    using m by (subst last_cluster_loop.simps) simp
  show ?case
  proof (cases "Suc p < length cs")
    case True
    have "of_nat (length cs - p) = 1 + (of_nat (length cs - Suc p) :: u32)"
      using True by (metis Suc_diff_Suc less.prems of_nat_Suc)
    then show ?thesis
      using step True next_cluster(2) [OF assms(1) ch cs less.prems] less.hyps [of "Suc p" "cs ! p" "i + 1"] by simp
  next
    case False
    then have e: "Suc p = length cs" using less.prems by simp
    then have "\<not> in_chain (fat_read ms d b (cs ! p))" using next_cluster(1) [OF assms(1) ch cs less.prems] by simp
    then have "last_cluster_loop ms d b (cs ! p) l i = Some (cs ! p, i + 1)"
      unfolding step by (subst last_cluster_loop.simps) simp
    moreover have "cs ! p = last cs" using e less.prems by (metis last_conv_nth diff_Suc_1 length_0_conv not_less_zero)
    moreover have "length cs - p = 1" using e by simp
    ultimately show ?thesis by simp
  qed
qed

text \<open>Opening a file ends for every chain and puts the cursor at its start, in append mode behind its last byte.\<close>

lemma open_fat_node_cursor:
  assumes "fok d" and ch: "file_chain (entry d) cs (cluster_of (fentry e))" and cs: "clusters_ok evalid cs"
    and sz: "exact_size b cs (unat (file_size (fentry e)))"
  shows "\<exists>s. open_fat_node ms d b mode e = Some s \<and> \<not> closed s \<and> node_io_mode s = mode \<and> node_entry s = e \<and>
    write_pos b cs s \<and> cursor_pos b s = (if mode = MODE_APPEND then unat (file_size (fentry e)) else 0)"
proof -
  let ?C = "cluster_size b" and ?sz = "unat (file_size (fentry e))" and ?n = "length cs"
  have C: "0 < ?C" using sz by (simp add: exact_size_def)
  have l: "last_cluster_loop ms d b (cluster_of (fentry e)) (cluster_of (fentry e)) 0 =
      Some (if cs = [] then 0 else last cs, of_nat ?n)"
  proof (cases "cs = []")
    case True
    then show ?thesis using ch by (subst last_cluster_loop.simps) (simp add: file_chain_def)
  next
    case False
    then have "chain (entry d) cs" "cluster_of (fentry e) = cs ! 0" using ch by (simp_all add: file_chain_def hd_conv_nth)
    then show ?thesis using last_cluster_loop_chain [OF assms(1) _ cs, of 0 "cs ! 0" 0] False by simp
  qed
  have run: "open_fat_node ms d b mode e = Some (if mode = MODE_APPEND
      then let processed = (if file_size (fentry e) mod cluster_bytes b \<noteq> 0 then of_nat ?n - 1 else of_nat ?n)
        in \<lparr>closed = False, node_io_mode = mode, node_entry = e, processed_clusters = processed,
          current_cluster = if cs = [] then 0 else last cs, cluster_offset = file_size (fentry e) - processed * cluster_bytes b\<rparr>
      else \<lparr>closed = False, node_io_mode = mode, node_entry = e, processed_clusters = 0,
          current_cluster = cluster_of (fentry e), cluster_offset = 0\<rparr>)"
    by (simp add: open_fat_node_def init_file_cursor_def l Let_def)
  show ?thesis
  proof (cases "mode = MODE_APPEND")
    case False
    then show ?thesis
      using ch C unfolding run by (simp add: cursor_pos_def write_pos_def file_chain_def hd_conv_nth)
  next
    case True
    note app = this
    have "?n \<le> ?n * ?C" using C by simp
    then have n: "?n < 2 ^ 32" if "?n * ?C = ?sz" using that file_size_bound [of "fentry e"] by linarith
    have off: "unat (file_size (fentry e) - of_nat m * cluster_bytes b) = ?sz - m * ?C" if "m * ?C \<le> ?sz" for m
    proof -
      have "m \<le> m * ?C" using C by simp
      then have m: "m < 2 ^ 32" "m * ?C < 2 ^ 32" using that file_size_bound [of "fentry e"] by linarith+
      then have "unat (of_nat m * cluster_bytes b) = m * ?C"
        by (subst unat_mult_no_wrap) (simp_all add: cluster_bytes_unat unat_of_nat)
      then show ?thesis using that by (subst unat_minus_no_wrap) simp_all
    qed
    have z: "file_size (fentry e) mod cluster_bytes b \<noteq> 0 \<longleftrightarrow> ?sz mod ?C \<noteq> 0"
      by (simp add: word_unat_eq_iff unat_mod_distrib cluster_bytes_unat)
    show ?thesis
    proof (cases "?sz mod ?C = 0")
      case True
      then obtain q where q: "?sz = ?C * q" by auto
      then have "?n * ?C < Suc q * ?C" "q * ?C \<le> ?n * ?C" using sz by (simp_all add: exact_size_def mult.commute)
      then have "?n < Suc q" "q \<le> ?n" using C by (simp_all only: mult_less_cancel2 mult_le_cancel2)
      then have e: "?sz = ?n * ?C" using q by (simp add: mult.commute)
      then show ?thesis
        using z True n off [of ?n] app unfolding run by (simp add: cursor_pos_def unat_of_nat write_pos_def Let_def)
    next
      case False
      then have ne: "0 < ?n" using sz by (cases cs) (simp_all add: exact_size_def)
      have "?n * ?C = (?n - 1) * ?C + ?C" using ne by (cases cs) simp_all
      moreover have "?sz \<noteq> ?n * ?C" using False by auto
      ultimately have o: "?sz - (?n - 1) * ?C < ?C" "(?n - 1) * ?C \<le> ?sz" using sz unfolding exact_size_def by linarith+
      have "?n - 1 \<le> (?n - 1) * ?C" using C by simp
      then have n1: "?n - 1 < 2 ^ 32" using o(2) file_size_bound [of "fentry e"] by linarith
      have npred: "(of_nat ?n :: u32) - 1 = of_nat (?n - 1)" using ne by (cases cs) simp_all
      have un: "unat ((of_nat ?n :: u32) - 1) = ?n - 1" unfolding npred using n1 by (simp only: unat_of_nat) simp
      show ?thesis
        using z False n1 o off [OF o(2)] app ne un unfolding run
        by (simp add: cursor_pos_def unat_of_nat write_pos_def last_conv_nth Let_def)
    qed
  qed
qed

end

section \<open>Seeking\<close>

lemma uint_add_scast: "uint (a + scast (off :: 32 word) :: u64) = (uint a + sint off) mod 2 ^ 64"
proof -
  have "a + scast off = word_of_int (uint a + sint off)" by simp
  then show ?thesis by (simp only: uint_word_of_int) simp
qed

lemma uint_add_off: "uint (a + off :: 32 word) = (uint a + sint off) mod 2 ^ 32"
proof -
  have "a + off = word_of_int (uint a + sint off)" by simp
  then show ?thesis by (simp only: uint_word_of_int) simp
qed

lemma sint_range32: "- (2 ^ 31) \<le> sint (off :: 32 word)" "sint (off :: 32 word) < 2 ^ 31"
  using sint_ge [of off] sint_lt [of off] by simp_all

lemma uint_nonneg_sint: "0 \<le> sint (off :: 32 word) \<Longrightarrow> uint off = sint off"
  using uint_add_off [of 0 off] sint_range32(2) [of off] by simp

lemma uint_neg_sint: "sint (off :: 32 word) \<le> 0 \<Longrightarrow> uint (- off) = - sint off"
proof -
  assume a: "sint off \<le> 0"
  have "- off = word_of_int (- sint off)" by simp
  then have "uint (- off) = (- sint off) mod 2 ^ 32" by (simp only: uint_word_of_int) simp
  then show ?thesis using a sint_range32(1) [of off] by simp
qed

lemma file_cursor_pos:
  "unat (ucast (processed_clusters s) * of_nat (cluster_size b) + ucast (cluster_offset s) :: u64) = cursor_pos b s"
proof -
  have b: "unat (processed_clusters s) < 2 ^ 32" "unat (cluster_offset s) < 2 ^ 32"
    using unsigned_less [of "processed_clusters s", where ?'a = nat] unsigned_less [of "cluster_offset s", where ?'a = nat] by simp_all
  have "unat (processed_clusters s) * cluster_size b < 2 ^ 32 * 2 ^ 24"
    using b(1) cluster_size_bound [of b] by (intro mult_strict_mono) simp_all
  then have "cursor_pos b s < 2 ^ 32 * 2 ^ 24 + 2 ^ 32" using b(2) unfolding cursor_pos_def by (rule add_strict_mono)
  then have c: "cursor_pos b s < 2 ^ 64" by simp
  have "ucast (processed_clusters s) * of_nat (cluster_size b) + ucast (cluster_offset s) = (of_nat (cursor_pos b s) :: u64)"
    by (simp add: cursor_pos_def)
  then show ?thesis using c by (simp only: unat_of_nat) simp
qed

text \<open>The checks of the offset, read as integers.\<close>

lemma uint_range32: "0 \<le> uint (z :: 32 word)" "uint (z :: 32 word) < 2 ^ 32"
  using unsigned_less [of z, where ?'a = int] by simp_all

lemma bad_begin: "(sint off < 0 \<or> z \<le> off) \<longleftrightarrow> \<not> (0 \<le> sint off \<and> sint off < uint (z :: 32 word))"
  by (cases "0 \<le> sint off") (auto simp: word_le_def uint_nonneg_sint)

lemma bad_cursor:
  assumes "uint c < 2 ^ 60"
  shows "ucast z \<le> c + scast off \<longleftrightarrow> \<not> (0 \<le> uint c + sint (off :: 32 word) \<and> uint c + sint off < uint (z :: 32 word))"
    and "0 \<le> uint c + sint off \<Longrightarrow> uint (c + scast off :: u64) = uint c + sint off"
proof -
  let ?t = "uint c + sint off"
  have "0 \<le> uint c" by simp
  then have r1: "- (2 ^ 31) \<le> ?t" using sint_range32(1) [of off] by linarith
  have r2: "?t < 2 ^ 61" using assms sint_range32(2) [of off] by simp
  note r = r1 r2
  show e: "0 \<le> ?t \<Longrightarrow> uint (c + scast off :: u64) = ?t"
    unfolding uint_add_scast using r by (intro mod_pos_pos_trivial) simp_all
  have n: "uint (c + scast off :: u64) = ?t + 2 ^ 64" if "?t < 0"
  proof -
    have "?t mod 2 ^ 64 = (?t + 2 ^ 64) mod 2 ^ 64" by simp
    also have "\<dots> = ?t + 2 ^ 64" using r that by (intro mod_pos_pos_trivial) simp_all
    finally show ?thesis unfolding uint_add_scast .
  qed
  have z: "uint (ucast z :: u64) = uint z" using uint_range32 [of z] by (simp add: uint_up_ucast is_up)
  show "ucast z \<le> c + scast off \<longleftrightarrow> \<not> (0 \<le> ?t \<and> ?t < uint z)"
    unfolding word_le_def z using e n r uint_range32 [of z] by (cases "0 \<le> ?t") auto
qed

lemma bad_end:
  "(0 < sint off \<or> z < (if 0 \<le> sint off then off else - off)) \<longleftrightarrow> \<not> (0 \<le> uint z + sint off \<and> sint off \<le> (0 :: int))"
    for off z :: "32 word"
  using uint_nonneg_sint [of off] uint_neg_sint [of off] uint_range32 [of z] by (auto simp: word_less_def)

text \<open>The position that the arguments of a seek ask for.\<close>

definition seek_target :: "boot_record \<Rightarrow> fat_node \<Rightarrow> seek_mode \<Rightarrow> 32 word \<Rightarrow> int" where
  "seek_target b s mode off = sint off +
     (case mode of SEEK_BEGIN \<Rightarrow> 0 | SEEK_CURSOR \<Rightarrow> int (cursor_pos b s) | SEEK_END \<Rightarrow> int (unat (node_size s)))"

context fat_files begin

lemma seek_loop_chain:
  assumes ok: "fok d" and ch: "chain (entry d) cs" and cs: "clusters_ok evalid cs" and len: "length cs < 2 ^ 32"
    and C: "0 < cluster_size b"
    and "unat (processed_clusters s) = p" "current_cluster s = cs ! p" "cluster_offset s = 0"
    and "p < length cs" and "unat q < (length cs - p) * cluster_size b"
  shows "\<exists>s'. seek_loop ms d b s (cs ! p) q = Some s' \<and> same_node s s' \<and> cursor_ok b cs s' \<and>
    cursor_pos b s' = p * cluster_size b + unat q"
  using assms(6-)
proof (induction "unat q" arbitrary: s p q rule: less_induct)
  case less
  let ?C = "cluster_size b"
  consider (zero) "q = 0" | (part) "0 < unat q" "unat q < ?C" | (full) "?C \<le> unat q" "0 < unat q"
    using C by (cases "unat q = 0"; cases "?C \<le> unat q") (auto simp: unat_eq_zero)
  then show ?case
  proof cases
    case zero
    then show ?thesis using less.prems C by (subst seek_loop.simps) (simp add: cursor_ok_def cursor_pos_def)
  next
    case part
    have "unat (ucast q :: u32) = unat q"
      using part(2) cluster_size_bound [of b] by (simp add: take_bit_nat_eq_self unsigned_ucast_eq)
    then show ?thesis
      using part less.prems C by (subst seek_loop.simps) (simp add: cursor_ok_def cursor_pos_def same_node_def word_less_nat_alt)
  next
    case full
    have "?C < (length cs - p) * ?C" using full(1) less.prems(5) by linarith
    then have "1 * ?C < (length cs - p) * ?C" by simp
    then have nx: "Suc p < length cs" by (simp only: mult_less_cancel2) linarith
    let ?n = "cs ! Suc p" and ?q = "q - of_nat ?C"
    let ?s = "s\<lparr>processed_clusters := processed_clusters s + 1, current_cluster := ?n, cluster_offset := 0\<rparr>"
    have C64: "unat (of_nat ?C :: u64) = ?C" using cluster_size_bound [of b] by (simp add: unat_of_nat)
    have uq: "unat ?q = unat q - ?C" using full(1) C64 by (subst unat_minus_no_wrap) simp_all
    have p1: "unat (processed_clusters s + 1) = Suc p" using less.prems(1) nx len by (subst unat_plus_no_wrap) simp_all
    have run: "seek_loop ms d b s (cs ! p) q = seek_loop ms d b ?s ?n ?q"
      using full next_cluster(2) [OF ok ch cs less.prems(4) nx] by (subst seek_loop.simps) (simp add: word_less_nat_alt Let_def)
    have lt: "unat ?q < unat q" using uq full C by linarith
    have b1: "unat ?q < (length cs - Suc p) * ?C"
    proof -
      have "(length cs - p) * ?C = (length cs - Suc p) * ?C + ?C" using nx by (simp flip: mult_Suc add: Suc_diff_Suc add.commute)
      then show ?thesis using uq full(1) less.prems(5) by linarith
    qed
    obtain s' where "seek_loop ms d b ?s ?n ?q = Some s'" "same_node ?s s'" "cursor_ok b cs s'"
      "cursor_pos b s' = Suc p * ?C + unat ?q"
      using less.hyps [OF lt _ _ _ nx b1, of ?s] p1 by auto
    then show ?thesis using run uq full(1) by (intro exI [of _ s']) (simp add: same_node_def)
  qed
qed


lemma node_seek_correct:
  assumes ok: "fok d" and f: "file_ok evalid dvalid (entry d) b cs s" and hd: "first_cluster s = hd cs"
    and C: "0 < cluster_size b"
  shows "if 0 \<le> seek_target b s mode off \<and> seek_target b s mode off < int (unat (node_size s))
    then \<exists>s' n. node_seek ms d b s mode off = Some (s', IO_OKAY, n) \<and> same_node s s' \<and> cursor_ok b cs s' \<and>
      int (cursor_pos b s') = seek_target b s mode off
    else mode = SEEK_END \<and> off = 0 \<or> node_seek ms d b s mode off = Some (s, IO_BAD_ARGS, 0)"
proof -
  let ?C = "cluster_size b" and ?sz = "node_size s" and ?t = "seek_target b s mode off"
  have sz: "unat ?sz \<le> length cs * ?C" "length cs * ?C < 2 ^ 32" and cl: "\<not> closed s" "node_has_attribute s NODE_FILE"
    and ch: "chain (entry d) cs" and cs: "clusters_ok evalid cs" using f by (simp_all add: file_ok_def sizes_ok_def)
  have ne: "cs \<noteq> []" using ch by auto
  have "length cs \<le> length cs * ?C" using C by simp
  then have len: "length cs < 2 ^ 32" using sz(2) by linarith
  let ?cur = "ucast (processed_clusters s) * of_nat ?C + ucast (cluster_offset s) :: u64"
  have cur: "uint ?cur = int (cursor_pos b s)" using file_cursor_pos [of s b] by (simp add: uint_nat)
  let ?bad = "case mode of SEEK_BEGIN \<Rightarrow> sint off < 0 \<or> ?sz \<le> off | SEEK_CURSOR \<Rightarrow> ucast ?sz \<le> ?cur + scast off
    | SEEK_END \<Rightarrow> 0 < sint off \<or> ?sz < (if 0 \<le> sint off then off else - off)"
  let ?to = "case mode of SEEK_BEGIN \<Rightarrow> scast off | SEEK_CURSOR \<Rightarrow> ?cur + scast off | SEEK_END \<Rightarrow> (ucast (?sz + off) :: u64)"
  let ?s = "s\<lparr>processed_clusters := 0, current_cluster := first_cluster s, cluster_offset := 0\<rparr>"
  have run: "node_seek ms d b s mode off = (if ?bad then Some (s, IO_BAD_ARGS, 0)
      else case seek_loop ms d b ?s (first_cluster s) ?to of None \<Rightarrow> None
        | Some s' \<Rightarrow> Some (s', IO_OKAY, scast (if 0 \<le> sint off then off else - off)))"
    using cl by (simp add: node_seek_def Let_def)
  have cb: "uint ?cur < 2 ^ 60"
  proof -
    have "unat (processed_clusters s) * ?C < 2 ^ 32 * 2 ^ 24"
      using unsigned_less [of "processed_clusters s", where ?'a = nat] cluster_size_bound [of b]
      by (intro mult_strict_mono) simp_all
    moreover have "unat (cluster_offset s) < 2 ^ 32"
      using unsigned_less [of "cluster_offset s", where ?'a = nat] by simp
    ultimately have "cursor_pos b s < 2 ^ 32 * 2 ^ 24 + 2 ^ 32" unfolding cursor_pos_def by (rule add_strict_mono)
    then show ?thesis unfolding cur by simp
  qed
  have zz: "int (unat ?sz) = uint ?sz" by simp
  have t: "?t = sint off + (case mode of SEEK_BEGIN \<Rightarrow> 0 | SEEK_CURSOR \<Rightarrow> uint ?cur | SEEK_END \<Rightarrow> uint ?sz)"
    unfolding seek_target_def cur zz ..
  have bad: "?bad \<longleftrightarrow> \<not> (0 \<le> ?t \<and> (if mode = SEEK_END then ?t \<le> uint ?sz else ?t < uint ?sz))"
    using bad_begin [of off ?sz] bad_cursor(1) [OF cb, of ?sz off] bad_end [of off ?sz] unfolding t
    by (cases mode) (auto simp: add.commute)
  show ?thesis
  proof (cases "0 \<le> ?t \<and> ?t < int (unat ?sz)")
    case True
    have to: "uint ?to = ?t"
    proof (cases mode)
      case SEEK_BEGIN
      have z: "uint (0 :: u64) < 2 ^ 60" "0 \<le> uint (0 :: u64) + sint off" using True unfolding t by (simp_all add: SEEK_BEGIN)
      show ?thesis using bad_cursor(2) [OF z] unfolding t by (simp add: SEEK_BEGIN)
    next
      case SEEK_CURSOR
      then show ?thesis using True bad_cursor(2) [OF cb, of off] unfolding t by (simp add: add.commute)
    next
      case SEEK_END
      have "uint (?sz + off) = uint ?sz + sint off"
        unfolding uint_add_off using True SEEK_END uint_range32 [of ?sz] unfolding t zz by (intro mod_pos_pos_trivial) simp_all
      then show ?thesis using SEEK_END unfolding t by (simp add: uint_up_ucast is_up)
    qed
    obtain q where q: "?to = q" by blast
    have ut: "int (unat q) = ?t" using to unfolding q by simp
    then have "int (unat q) < int (unat ?sz)" using True by simp
    then have "unat q < unat ?sz" by (simp only: of_nat_less_iff)
    then have "unat q < (length cs - 0) * ?C" using sz(1) by simp
    then obtain s' where s': "seek_loop ms d b ?s (cs ! 0) q = Some s'" "same_node ?s s'" "cursor_ok b cs s'"
      "cursor_pos b s' = 0 * ?C + unat q"
      using seek_loop_chain [OF ok ch cs len C, of ?s 0 q] ne hd by (auto simp: hd_conv_nth)
    have "\<not> ?bad" using bad True by (auto simp: zz)
    then have "node_seek ms d b s mode off = Some (s', IO_OKAY, scast (if 0 \<le> sint off then off else - off))"
      using s'(1) hd ne unfolding run q by (simp add: hd_conv_nth)
    moreover have "same_node s s'" using s'(2) by (simp add: same_node_def)
    moreover have "int (cursor_pos b s') = ?t" using s'(4) ut by simp
    ultimately show ?thesis unfolding if_P [OF True] using s'(3) by blast
  next
    case False
    have "?bad \<or> mode = SEEK_END \<and> off = 0"
    proof (rule disjCI)
      assume n: "\<not> (mode = SEEK_END \<and> off = 0)"
      show ?bad
      proof (rule ccontr)
        assume "\<not> ?bad"
        then have "mode = SEEK_END" "?t = uint ?sz" using bad False by (auto simp: zz split: if_splits)
        then have "sint off = 0" unfolding t by simp
        then have "uint off = 0" using uint_nonneg_sint [of off] by simp
        then show False using n \<open>mode = SEEK_END\<close> by (simp add: unsigned_eq_0_iff)
      qed
    qed
    then have "mode = SEEK_END \<and> off = 0 \<or> node_seek ms d b s mode off = Some (s, IO_BAD_ARGS, 0)"
      unfolding run by (cases ?bad) (simp_all only: if_True simp_thms)
    then show ?thesis unfolding if_not_P [OF False] .
  qed
qed

end

section \<open>The volumes of the driver\<close>

lemma entry_ok_in_chain:
  assumes "fat_volume ms ok disk n b" and "entry_ok b c"
  shows "in_chain c"
proof -
  have e: "even (unat (fat_size_32 b))" "unat (fat_size_32 b) < 2 ^ 21" using assms(1) by (simp_all add: fat_volume_def)
  have "unat (fat_size_32 b) \<noteq> 2 ^ 21 - 1"
  proof
    assume a: "unat (fat_size_32 b) = 2 ^ 21 - 1"
    show False using e(1) unfolding a by simp
  qed
  then have "unat c < 128 * (2 ^ 21 - 1)" using e(2) assms(2) by (simp add: entry_ok_def)
  moreover have "unat (MAX_CLUSTER_COUNT + 1) = 0x0FFFFFF1" by (simp add: MAX_CLUSTER_COUNT_def)
  ultimately show ?thesis by (simp add: in_chain_def word_less_nat_alt)
qed

interpretation ff: fat_files ms b "\<lambda>d. fat_volume ms ok disk n b \<and> ok d" "entry_ok b" "data_ok n b"
  "table_entry disk b" "table_free disk b" "data_block disk b" for ms b ok disk n
  by unfold_locales (blast intro: entry_ok_in_chain)

text \<open>An open file on a volume, in terms of the bytes of the device: \<open>cs\<close> are its clusters.\<close>

abbreviation file_on :: "nat \<Rightarrow> ('d \<Rightarrow> nat \<Rightarrow> u8) \<Rightarrow> boot_record \<Rightarrow> 'd \<Rightarrow> u32 list \<Rightarrow> fat_node \<Rightarrow> bool" where
  "file_on n disk b d \<equiv> file_ok (entry_ok b) (data_ok n b) (table_entry disk b d) b"

abbreviation content :: "('d \<Rightarrow> nat \<Rightarrow> u8) \<Rightarrow> boot_record \<Rightarrow> 'd \<Rightarrow> u32 list \<Rightarrow> fat_node \<Rightarrow> u8 list" where
  "content disk b d cs s \<equiv> file_bytes (data_block disk b d) cs (unat (node_size s))"

section \<open>Properties of files\<close>

text \<open>
  C32. Opening a file ends on every volume whose table holds a chain of clusters for the file, and puts the
  cursor at the start of the file, in append mode behind its last byte.
\<close>

theorem open_fat_node_places_cursor:
  assumes "fat_volume ms ok disk n b" and "ok d"
    and "file_chain (table_entry disk b d) cs (cluster_of (fentry e))" and "clusters_ok (entry_ok b) cs"
    and "exact_size b cs (unat (file_size (fentry e)))"
  shows "\<exists>s. open_fat_node ms d b mode e = Some s \<and> node_entry s = e \<and> node_io_mode s = mode \<and> \<not> closed s \<and>
    write_pos b cs s \<and> cursor_pos b s = (if mode = MODE_APPEND then unat (file_size (fentry e)) else 0)"
  using ff.open_fat_node_cursor [of ms ok disk n b d cs e mode] assms by blast

text \<open>
  C30. Reading: a read copies the bytes of the file from the cursor on, as many as fit into the buffer and are
  left in the file, and moves the cursor behind them; the device and the entry of the file do not change.
\<close>

theorem node_read_returns_content:
  assumes "fat_volume ms ok disk n b" and "ok d" and "file_on n disk b d cs s" and "cursor_ok b cs s"
  shows "\<exists>s'. node_read ms d b s True k = Some (s', IO_OKAY, take k (drop (cursor_pos b s) (content disk b d cs s))) \<and>
    same_node s s' \<and> cursor_ok b cs s' \<and>
    cursor_pos b s' = cursor_pos b s + min k (unat (node_size s) - cursor_pos b s)"
  using ff.node_read_correct [of ms ok disk n b d cs s k] assms by blast

text \<open>
  Seeking: a position inside of the file is reached from the start, the cursor or the end of the file, and
  any other position except the end of the file itself is refused and leaves the cursor where it was.
\<close>

theorem node_seek_reaches_target:
  assumes "fat_volume ms ok disk n b" and "ok d" and "file_on n disk b d cs s" and "first_cluster s = hd cs"
  shows "if 0 \<le> seek_target b s mode off \<and> seek_target b s mode off < int (unat (node_size s))
    then \<exists>s' k. node_seek ms d b s mode off = Some (s', IO_OKAY, k) \<and> same_node s s' \<and> cursor_ok b cs s' \<and>
      int (cursor_pos b s') = seek_target b s mode off
    else mode = SEEK_END \<and> off = 0 \<or> node_seek ms d b s mode off = Some (s, IO_BAD_ARGS, 0)"
proof -
  have "0 < cluster_size b" using assms(1) by (auto simp: fat_volume_def cluster_size_def)
  then show ?thesis using ff.node_seek_correct [of ms ok disk n b d cs s mode off] assms by blast
qed


section \<open>An example\<close>

text \<open>
  A volume with a directory in cluster 2 and a file of five bytes in cluster 3; clusters 4 to 8 are free, and the
  entries behind the last cluster are marked as used.
\<close>

definition demo_disk :: "u8 list" where
  "demo_disk = replicate 520 0 @ [0xFF, 0xFF, 0xFF, 0x0F] @ [0xFF, 0xFF, 0xFF, 0x0F] @ replicate 20 0 @ replicate 988 0xFF @
     replicate 1536 0 @ [10, 20, 30, 40, 50] @ replicate 3067 0"

definition demo_entry :: located_entry where
  "demo_entry = \<lparr>file_name = ''A'', fentry = new_file_entry\<lparr>attributes := 0x20, first_cluster_low := 3, file_size := 5\<rparr>,
     location = \<lparr>loc_cluster = 2, entry_idx = 0\<rparr>, first_lfn_entry = \<lparr>loc_cluster = 0, entry_idx = 0\<rparr>\<rparr>"

definition demo_node :: "io_mode \<Rightarrow> fat_node" where
  "demo_node mode = \<lparr>closed = False, node_io_mode = mode, node_entry = demo_entry, processed_clusters = 0,
     current_cluster = 3, cluster_offset = (if mode = MODE_APPEND then 5 else 0)\<rparr>"

lemma demo_length: "length demo_disk = 12 * 512"
  by (simp add: demo_disk_def)

lemma demo_entries: "table_entry (!) small_volume demo_disk 2 = 0x0FFFFFFF" "table_entry (!) small_volume demo_disk 3 = 0x0FFFFFFF"
  by code_simp+

lemma demo_free:
  assumes "entry_ok small_volume c" and "2 \<le> unat c" and "table_free (!) small_volume demo_disk c"
  shows "4 \<le> unat c" and "unat c \<le> 8"
proof -
  have m: "x = 2 \<or> x = 3 \<or> 4 \<le> x" if "2 \<le> x" for x :: nat using that by linarith
  have "unat c = 2 \<or> unat c = 3 \<or> 4 \<le> unat c" using m assms(2) by blast
  moreover have "table_entry (!) small_volume demo_disk c = 0"
    using assms(3) by (simp add: table_entry_def table_free_def)
  moreover have "unat c = unat (2 :: u32) \<Longrightarrow> c = 2" "unat c = unat (3 :: u32) \<Longrightarrow> c = 3"
    by (rule word_unat_eqI, simp)+
  ultimately show "4 \<le> unat c" using demo_entries by auto
  show "unat c \<le> 8"
  proof (rule ccontr)
    assume "\<not> unat c \<le> 8"
    then have q: "548 \<le> entry_pos small_volume c" "entry_pos small_volume c + 4 \<le> 1536"
      using assms(1) by (simp_all add: entry_pos_def entry_ok_def small_volume_def)
    let ?q = "entry_pos small_volume c"
    have "demo_disk ! i = 0xFF" if "548 \<le> i" "i < 1536" for i
      using that by (auto simp: demo_disk_def nth_append)
    then have "map ((!) demo_disk) [?q..<?q + 4] = replicate 4 0xFF"
      using q by (intro nth_equalityI) simp_all
    then have "raw_entry ((!) demo_disk) ?q = le_to_u32 (replicate 4 0xFF)" by (simp add: raw_entry_def)
    moreover have "le_to_u32 (replicate 4 0xFF) = 0xFFFFFFFF" by code_simp
    ultimately show False using assms(3) by (simp add: table_free_def)
  qed
qed

lemma demo_sizes: "cluster_size small_volume = 512" "data_ok 12 small_volume c \<longleftrightarrow> 2 \<le> unat c \<and> unat c \<le> 8"
  "entry_ok small_volume c \<longleftrightarrow> unat c < 256"
  by (auto simp: cluster_size_def small_volume_def make_new_boot_record_def Let_def data_ok_def entry_ok_def)

lemma demo_first: "first_cluster (demo_node mode) = 3" "node_size (demo_node mode) = 5"
  by (simp_all add: demo_node_def demo_entry_def cluster_of_def new_file_entry_def)

lemma demo_mode: "node_io_mode (demo_node mode) = mode"
  by (simp add: demo_node_def)

lemma demo_clusters: "clusters_ok (entry_ok small_volume) [3]" "file_chain (table_entry (!) small_volume demo_disk) [3] 3"
  using demo_entries(2) by (simp_all add: clusters_ok_def demo_sizes file_chain_def MAX_CLUSTER_COUNT_def)

lemma demo_file: "node_has_attribute (demo_node mode) NODE_FILE" "\<not> closed (demo_node mode)"
  by (simp_all add: node_has_file demo_node_def demo_entry_def)

lemma demo_file_on: "file_on 12 (!) small_volume demo_disk [3] (demo_node mode)"
  using demo_clusters demo_file by (simp add: file_ok_def file_chain_def demo_sizes sizes_ok_def demo_first)

lemma demo_cursor: "cursor_ok small_volume [3] (demo_node mode)" "write_pos small_volume [3] (demo_node mode)"
  "cursor_pos small_volume (demo_node mode) = (if mode = MODE_APPEND then 5 else 0)"
  by (simp_all add: cursor_ok_def write_pos_def cursor_pos_def demo_node_def demo_sizes)

lemma demo_content: "content (!) small_volume demo_disk [3] (demo_node mode) = [10, 20, 30, 40, 50]"
proof -
  have "data_pos small_volume 3 = 3072" by (simp add: data_pos_def small_volume_def make_new_boot_record_def Let_def)
  then have "file_bytes (data_block (!) small_volume demo_disk) [3] 5 = map ((!) demo_disk) [3072..<3077]"
    by (simp add: file_bytes_def data_block_def demo_sizes take_map del: upt_rec_numeral)
  also have "\<dots> = [10, 20, 30, 40, 50]" by (simp add: upt_rec demo_disk_def nth_append)
  finally show ?thesis by (simp add: demo_first)
qed

lemma open_fat_node_places_cursor_witness:
  "\<exists>s. open_fat_node ram_ops demo_disk small_volume MODE_APPEND demo_entry = Some s \<and> cursor_pos small_volume s = 5"
  using open_fat_node_places_cursor [OF small_volume_ok, of demo_disk "[3]" demo_entry MODE_APPEND] demo_clusters
  by (auto simp: demo_length exact_size_def demo_sizes demo_entry_def cluster_of_def new_file_entry_def)

lemma node_read_returns_content_witness:
  "\<exists>s'. node_read ram_ops demo_disk small_volume (demo_node MODE_READ) True 3 = Some (s', IO_OKAY, [10, 20, 30])"
  using node_read_returns_content [OF small_volume_ok demo_length demo_file_on demo_cursor(1), of MODE_READ 3]
  by (auto simp: demo_cursor demo_content)

lemma node_seek_reaches_target_witness:
  "\<exists>s' k. node_seek ram_ops demo_disk small_volume (demo_node MODE_READ) SEEK_BEGIN 3 = Some (s', IO_OKAY, k) \<and>
    cursor_pos small_volume s' = 3"
  using node_seek_reaches_target [OF small_volume_ok demo_length demo_file_on, of MODE_READ SEEK_BEGIN 3]
  by (auto simp: demo_first seek_target_def)

lemma node_size_set [simp]: "node_size (set_file_size s n) = n"
  by (simp add: set_file_size_def)

text \<open>A seek to the end of a file that fills its clusters leaves the end marker in the cursor as the current cluster.\<close>

lemma seek_to_end_leaves_chain:
  "\<exists>s' k. node_seek ram_ops demo_disk small_volume (set_file_size (demo_node MODE_READ) 512) SEEK_END 0 = Some (s', IO_OKAY, k) \<and>
     current_cluster s' = 0x0FFFFFFF"
proof -
  have "fat_read ram_ops demo_disk small_volume 3 = 0x0FFFFFFF"
    using fat_read_entry [OF small_volume_ok demo_length, of 3] demo_entries(2) by (simp add: demo_sizes)
  moreover have "first_cluster (set_file_size (demo_node MODE_READ) 512) = 3" "node_has_attribute (set_file_size (demo_node MODE_READ) 512) NODE_FILE"
    "\<not> closed (set_file_size (demo_node MODE_READ) 512)"
    by (simp_all add: set_file_size_def demo_node_def demo_entry_def cluster_of_def node_has_file new_file_entry_def)
  ultimately show ?thesis
    by (simp add: node_seek_def demo_sizes seek_loop.simps)
qed

end
