(* ===== verification/Fat_Write.thy ===== *)
theory Fat_Write
  imports Fat_Content
begin

text \<open>
  Writing to open files: a file grows by free clusters or is cut to its new size, its bytes are those before the
  cursor and those of the buffer, and the clusters of other files are left alone.
\<close>

section \<open>Growing a file\<close>

lemma word_get_32: "word_get (c :: u32) 0 = Some (c AND 0xFFFF)" "word_get (c :: u32) (Suc 0) = Some (drop_bit 16 c AND 0xFFFF)"
  by (simp_all add: word_get_def shift_right_def)

lemma cluster_of_set [simp]: "cluster_of (fentry (set_first_cluster e c)) = c"
proof -
  have m: "x AND 0xFFFF = take_bit 16 x" for x :: u32 by (simp add: take_bit_eq_mask mask_eq_exp_minus_1)
  have "cluster_of (fentry (set_first_cluster e c)) =
      push_bit 16 (ucast (ucast (take_bit 16 (drop_bit 16 c)) :: u16)) OR ucast (ucast (take_bit 16 c) :: u16)"
    by (simp add: cluster_of_def set_first_cluster_def word_get_32 m)
  also have "\<dots> = c" by (rule bit_word_eqI) (auto simp: bit_simps)
  finally show ?thesis .
qed

text \<open>Two descriptions of the same file that differ in the first cluster only.\<close>

definition same_file :: "located_entry \<Rightarrow> located_entry \<Rightarrow> bool" where
  "same_file e e' \<longleftrightarrow> location e' = location e \<and> file_size (fentry e') = file_size (fentry e) \<and>
     attributes (fentry e') = attributes (fentry e) \<and> length (short_name (fentry e')) = length (short_name (fentry e))"

lemma same_file_simps [simp]: "same_file e e" "same_file e (set_first_cluster e c)"
  by (simp_all add: same_file_def set_first_cluster_def)

lemma same_file_trans: "same_file e e' \<Longrightarrow> same_file e' e'' \<Longrightarrow> same_file e e''"
  by (simp add: same_file_def)

text \<open>The slot of the directory that holds the entry of the file.\<close>

definition slot_ok :: "(u32 \<Rightarrow> bool) \<Rightarrow> boot_record \<Rightarrow> located_entry \<Rightarrow> bool" where
  "slot_ok dvalid b e \<longleftrightarrow> dvalid (loc_cluster (location e)) \<and> 32 * unat (entry_idx (location e)) + 32 \<le> cluster_size b \<and>
     length (short_name (fentry e)) = 11"

abbreviation slot_cluster :: "located_entry \<Rightarrow> u32" where "slot_cluster e \<equiv> loc_cluster (location e)"

lemma length_entry_bytes: "length (short_name e) = 11 \<Longrightarrow> length (entry_bytes e) = 32"
  by (simp add: entry_bytes_def bytes16_def le_bytes16_def bytes32_def le_bytes32_def)

text \<open>What a write leaves alone: \<open>cs\<close> grows by free clusters, and other clusters keep their entries and data.\<close>

definition grown :: "(u32 \<Rightarrow> bool) \<Rightarrow> (u32 \<Rightarrow> bool) \<Rightarrow> u32 \<Rightarrow> (u32 \<Rightarrow> u32) \<times> (u32 \<Rightarrow> bool) \<times> (u32 \<Rightarrow> u8 list) \<Rightarrow>
    (u32 \<Rightarrow> u32) \<times> (u32 \<Rightarrow> bool) \<times> (u32 \<Rightarrow> u8 list) \<Rightarrow> u32 list \<Rightarrow> u32 list \<Rightarrow> bool" where
  "grown evalid dvalid slot = (\<lambda>(ent, fr, blk) (ent', fr', blk') cs cs'.
     (\<exists>xs. cs' = cs @ xs \<and> (\<forall>c \<in> set xs. fr c)) \<and> (\<forall>c. evalid c \<and> fr' c \<longrightarrow> fr c) \<and>
     (\<forall>c. evalid c \<and> c \<notin> set cs' \<longrightarrow> ent' c = ent c) \<and>
     (\<forall>c. dvalid c \<and> c \<notin> set cs' \<and> c \<noteq> slot \<longrightarrow> blk' c = blk c))"

lemma grown_trans:
  assumes "grown evalid dvalid slot (ent, fr, blk) (ent1, fr1, blk1) cs cs1"
    and "grown evalid dvalid slot (ent1, fr1, blk1) (ent2, fr2, blk2) cs1 cs2" and "\<forall>c \<in> set cs2. evalid c"
  shows "grown evalid dvalid slot (ent, fr, blk) (ent2, fr2, blk2) cs cs2"
proof -
  obtain xs ys where x: "cs1 = cs @ xs" "\<forall>c \<in> set xs. fr c" and y: "cs2 = cs1 @ ys" "\<forall>c \<in> set ys. fr1 c"
    using assms(1,2) by (auto simp: grown_def)
  have "\<forall>c \<in> set (xs @ ys). fr c" using x y assms(1,3) by (auto simp: grown_def)
  then show ?thesis using assms(1,2) x(1) y(1) by (auto simp: grown_def)
qed

context fat_files begin

lemma update_entry_ok:
  assumes "fok d" and "slot_ok dvalid b e"
  shows "\<exists>d'. update_entry ms d b e = (d', True) \<and> fok d' \<and>
    (\<forall>c. evalid c \<longrightarrow> entry d' c = entry d c \<and> free d' c = free d c) \<and>
    (\<forall>c. dvalid c \<and> c \<noteq> slot_cluster e \<longrightarrow> block d' c = block d c) \<and>
    take 32 (drop (32 * unat (entry_idx (location e))) (block d' (slot_cluster e))) = entry_bytes (fentry e)"
proof -
  let ?p = "32 * unat (entry_idx (location e))" and ?blk = "block d (slot_cluster e)"
  let ?new = "take ?p ?blk @ entry_bytes (fentry e) @ drop (?p + 32) ?blk"
  have v: "dvalid (slot_cluster e)" "?p + 32 \<le> cluster_size b" and l: "length (entry_bytes (fentry e)) = 32"
    using assms(2) by (simp_all add: slot_ok_def length_entry_bytes)
  have n: "length ?new = cluster_size b" using v(2) l by (simp add: block_size)
  obtain d' where d': "data_cluster_write ms d b ?new (slot_cluster e) = (d', True)" "fok d'"
    "\<forall>c'. evalid c' \<longrightarrow> entry d' c' = entry d c' \<and> free d' c' = free d c'"
    "\<forall>c'. dvalid c' \<longrightarrow> block d' c' = (if c' = slot_cluster e then ?new else block d c')"
    using write_block [OF assms(1) v(1) n] by blast
  moreover have "take 32 (drop ?p ?new) = entry_bytes (fentry e)" using v(2) l by (simp add: block_size)
  ultimately show ?thesis
    using read_block [OF assms(1) v(1)] v(1) by (intro exI [of _ d']) (simp add: update_entry_def Let_def)
qed

lemma allocate_cluster_grows:
  assumes ok: "fok d" and ch: "file_chain (entry d) cs (cluster_of (fentry e))" and cs: "clusters_ok evalid cs"
    and sl: "slot_ok dvalid b e"
  shows "\<exists>d' e' c. allocate_cluster ms d b e (if cs = [] then 0 else last cs) = Some (d', e', c) \<and> fok d' \<and>
    (if c = 0 then d' = d \<and> e' = e \<and> (\<forall>c'. evalid c' \<and> 2 \<le> unat c' \<longrightarrow> \<not> free d c')
     else free d c \<and> same_file e e' \<and> file_chain (entry d') (cs @ [c]) (cluster_of (fentry e')) \<and>
       clusters_ok evalid (cs @ [c]) \<and> (\<forall>c'. dvalid c' \<and> c' \<noteq> slot_cluster e \<longrightarrow> block d' c' = block d c') \<and>
       grown evalid dvalid (slot_cluster e) (entry d, free d, block d) (entry d', free d', block d') cs (cs @ [c]))"
proof (cases cs rule: rev_cases)
  case (snoc xs l)
  then have "chain (entry d) (xs @ [l])" and hd: "cluster_of (fentry e) = hd (xs @ [l])"
    using ch by (simp_all add: file_chain_def)
  then obtain d' c where a: "allocate_cluster ms d b e l = Some (d', e, c)" "fok d'"
    "if c = 0 then d' = d \<and> (\<forall>c'. evalid c' \<and> 2 \<le> unat c' \<longrightarrow> \<not> free d c')
     else free d c \<and> chain (entry d') (xs @ [l, c]) \<and> clusters_ok evalid (xs @ [l, c]) \<and>
       (\<forall>c'. evalid c' \<and> c' \<noteq> l \<and> c' \<noteq> c \<longrightarrow> entry d' c' = entry d c') \<and>
       (\<forall>c'. evalid c' \<and> free d' c' \<longrightarrow> free d c' \<and> c' \<noteq> c)"
    "\<forall>c'. dvalid c' \<longrightarrow> block d' c' = block d c'"
    using allocate_cluster_chain [OF ok, of xs l e] cs snoc by blast
  have "hd (xs @ [l, c]) = hd (xs @ [l])" by (cases xs) simp_all
  then show ?thesis using a hd snoc by (intro exI [of _ d'] exI [of _ e] exI [of _ c]) (auto simp: file_chain_def grown_def)
next
  case Nil
  obtain c where c: "fat_find_next_free_cluster ms d b = Some c"
    "if c = 0 then \<forall>c'. evalid c' \<and> 2 \<le> unat c' \<longrightarrow> \<not> free d c' else evalid c \<and> 2 \<le> unat c \<and> free d c"
    using find_free [OF ok] by blast
  show ?thesis
  proof (cases "c = 0")
    case True
    then show ?thesis using c ok Nil by (auto simp: allocate_cluster_def)
  next
    case False
    then have cv: "evalid c" "2 \<le> unat c" "free d c" using c(2) by simp_all
    let ?e = "set_first_cluster e c"
    have "slot_ok dvalid b ?e" and se: "slot_cluster ?e = slot_cluster e"
      using sl by (simp_all add: slot_ok_def set_first_cluster_def)
    then obtain d1 where d1: "update_entry ms d b ?e = (d1, True)" "fok d1"
      "\<forall>c. evalid c \<longrightarrow> entry d1 c = entry d c \<and> free d1 c = free d c"
      "\<forall>c. dvalid c \<and> c \<noteq> slot_cluster e \<longrightarrow> block d1 c = block d c"
      using update_entry_ok [OF ok, of ?e] by auto
    obtain d2 where d2: "fat_write ms d1 b c FAT_EOF = (d2, True)" "fok d2"
      "\<forall>c'. evalid c' \<longrightarrow> entry d2 c' = (if c' = c then FAT_EOF AND ENTRY_MASK else entry d1 c')"
      "\<forall>c'. evalid c' \<and> c' \<noteq> c \<longrightarrow> free d2 c' = free d1 c'"
      "\<forall>c'. dvalid c' \<longrightarrow> block d2 c' = block d1 c'"
      using write_entry [OF d1(2) cv(1)] by blast
    have run: "allocate_cluster ms d b e 0 = Some (d2, ?e, c)"
      using c(1) False d1(1) d2(1) by (simp add: allocate_cluster_def Let_def)
    have nf: "\<not> free d2 c" using free_entry [of d2 c] d2(3) cv(1) by (auto simp: FAT_EOF_def ENTRY_MASK_def)
    have "file_chain (entry d2) [c] (cluster_of (fentry ?e))"
      using d2(3) cv(1) eof_entry by (simp add: file_chain_def)
    moreover have "clusters_ok evalid [c]" using cv by (simp add: clusters_ok_def)
    moreover have "grown evalid dvalid (slot_cluster e) (entry d, free d, block d) (entry d2, free d2, block d2) [] [c]"
      using d1(3,4) d2(3,4,5) nf cv by (auto simp: grown_def)
    ultimately show ?thesis
      using run False Nil cv(3) d2(2,5) d1(4) by (intro exI [of _ d2] exI [of _ ?e] exI [of _ c]) auto
  qed
qed

end

section \<open>Writing\<close>

text \<open>A file that is open for writing: its clusters, its slot in the directory and the free clusters are disjoint.\<close>

definition write_ok :: "(u32 \<Rightarrow> bool) \<Rightarrow> (u32 \<Rightarrow> bool) \<Rightarrow> (u32 \<Rightarrow> u32) \<Rightarrow> (u32 \<Rightarrow> bool) \<Rightarrow> boot_record \<Rightarrow> u32 list \<Rightarrow> fat_node \<Rightarrow> bool" where
  "write_ok evalid dvalid ent fr b cs s \<longleftrightarrow>
     file_chain ent cs (first_cluster s) \<and> clusters_ok evalid cs \<and> slot_ok dvalid b (node_entry s) \<and>
     (\<forall>c \<in> set cs. dvalid c \<and> c \<noteq> slot_cluster (node_entry s)) \<and>
     (\<forall>c. evalid c \<and> 2 \<le> unat c \<and> fr c \<longrightarrow> dvalid c \<and> c \<noteq> slot_cluster (node_entry s)) \<and>
     \<not> closed s \<and> node_has_attribute s NODE_FILE"

text \<open>The number of clusters that the size of the file in its entry stands for.\<close>

definition size_clusters :: "boot_record \<Rightarrow> fat_node \<Rightarrow> nat" where
  "size_clusters b s = unat (div_round_up (node_size s) (of_nat (cluster_size b)))"

definition next_fits :: "boot_record \<Rightarrow> u32 list \<Rightarrow> fat_node \<Rightarrow> bool" where
  "next_fits b cs s \<longleftrightarrow> size_clusters b s \<le> length cs \<and>
     (unat (processed_clusters s) < length cs \<longrightarrow> length cs = size_clusters b s)"

definition with_cluster :: "fat_node \<Rightarrow> located_entry \<Rightarrow> u32 \<Rightarrow> fat_node" where
  "with_cluster s e c = s\<lparr>node_entry := e, current_cluster := c\<rparr>"

text \<open>The part of a round after the cluster has been found.\<close>

definition write_rest ::
  "'d msd_ops \<Rightarrow> boot_record \<Rightarrow> bool \<Rightarrow> u8 list \<Rightarrow> 'd \<Rightarrow> fat_node \<Rightarrow> nat \<Rightarrow>
   ('d \<times> fat_node \<times> nat \<times> (io_status \<times> nat) option) option" where
  "write_rest ms b first_write buf d s buf_pos =
     (let c = current_cluster s in
      if c = 0 then Some (d, s, buf_pos, Some (IO_DEV_ERROR, 0))
      else case data_cluster_read ms d b c of
        None \<Rightarrow> Some (d, s, buf_pos, Some (IO_DEV_ERROR, buf_pos))
      | Some w \<Rightarrow>
          let off = unat (cluster_offset s)
          in if cluster_size b < off then None
             else
               let k = min (length buf - buf_pos) (cluster_size b - off);
                   w = take off w @ take k (drop buf_pos buf) @ drop (off + k) w;
                   w = (if node_io_mode s = MODE_WRITE \<and> first_write
                        then take k w @ replicate (cluster_size b - k) 0 else w);
                   (d, ok) = data_cluster_write ms d b w c
               in if \<not> ok then Some (d, s, buf_pos, Some (IO_DEV_ERROR, 0))
                  else
                    let s = s\<lparr>cluster_offset := cluster_offset s + of_nat k\<rparr>
                    in if cluster_size b \<le> unat (cluster_offset s) then
                         let next_cluster = fat_read ms d b c;
                             s = s\<lparr>processed_clusters := processed_clusters s + 1, cluster_offset := 0,
                                   current_cluster := (if in_chain next_cluster then next_cluster else c)\<rparr>
                         in write_loop ms b first_write buf d s (buf_pos + k)
                       else write_loop ms b first_write buf d s (buf_pos + k))"

lemma write_loop_unfold:
  "buf_pos < length buf \<Longrightarrow> write_loop ms b first_write buf d s buf_pos =
     (case (if current_cluster s = 0 \<or> size_clusters b s \<le> unat (processed_clusters s)
            then allocate_cluster ms d b (node_entry s) (current_cluster s)
            else Some (d, node_entry s, current_cluster s)) of
        None \<Rightarrow> None
      | Some (d, e, c) \<Rightarrow> write_rest ms b first_write buf d (with_cluster s e c) buf_pos)"
  unfolding write_rest_def with_cluster_def size_clusters_def
  by (cases s, subst write_loop.simps) (simp only: word_le_nat_alt Let_def fat_node.simps if_True)

lemma write_loop_done: "length buf \<le> buf_pos \<Longrightarrow> write_loop ms b first_write buf d s buf_pos = Some (d, s, buf_pos, None)"
  by (subst write_loop.simps) simp

lemma take_concat:
  assumes "\<forall>x \<in> set bs. length x = k" and "p < length bs" and "i \<le> k"
  shows "take (p * k + i) (concat bs) = concat (take p bs) @ take i (bs ! p)"
  using assms
proof (induction bs arbitrary: p)
  case (Cons x bs)
  then show ?case by (cases p) (auto simp: add.assoc)
qed simp

lemma length_concat_blocks: "\<forall>x \<in> set bs. length x = k \<Longrightarrow> length (concat bs) = length bs * k"
  by (induction bs) simp_all

lemma last_nth: "p < length xs \<Longrightarrow> \<not> Suc p < length xs \<Longrightarrow> xs ! p = last xs"
  by (cases xs rule: rev_cases) (auto simp: nth_append)

lemma chain_cong: "\<forall>c \<in> set cs. ent' c = ent c \<Longrightarrow> chain ent' cs = chain ent cs"
  by (induction ent cs rule: chain.induct) auto

context fat_files begin

text \<open>A round in a cluster of the file writes the next bytes of the buffer behind the bytes before the cursor.\<close>

lemma write_rest_step:
  assumes ok: "fok d" and w: "write_ok evalid dvalid (entry d) (free d) b cs s"
    and p: "unat (processed_clusters s) < length cs" "current_cluster s = cs ! unat (processed_clusters s)"
    and off: "unat (cluster_offset s) < cluster_size b"
    and fst: "node_io_mode s = MODE_WRITE \<and> first_write \<longrightarrow> cluster_offset s = 0"
    and pos: "pos < length buf" and bound: "length cs < 2 ^ 32"
  shows "\<exists>k d1 s1. 0 < k \<and> pos + k \<le> length buf \<and> fok d1 \<and> write_ok evalid dvalid (entry d1) (free d1) b cs s1 \<and>
    same_node s s1 \<and> write_pos b cs s1 \<and> cursor_pos b s1 = cursor_pos b s + k \<and>
    (pos + k < length buf \<longrightarrow> cluster_offset s1 = 0 \<and> unat (processed_clusters s1) = Suc (unat (processed_clusters s))) \<and>
    take (cursor_pos b s1) (concat (map (block d1) cs)) =
      take (cursor_pos b s) (concat (map (block d) cs)) @ take k (drop pos buf) \<and>
    grown evalid dvalid (slot_cluster (node_entry s)) (entry d, free d, block d) (entry d1, free d1, block d1) cs cs \<and>
    write_rest ms b first_write buf d s pos = write_loop ms b first_write buf d1 s1 (pos + k)"
proof -
  let ?p = "unat (processed_clusters s)" and ?off = "unat (cluster_offset s)" and ?C = "cluster_size b"
  let ?c = "cs ! ?p" and ?W = "block d (cs ! ?p)"
  obtain k where kd: "k = min (length buf - pos) (?C - ?off)" by blast
  let ?w = "take ?off ?W @ take k (drop pos buf) @ drop (?off + k) ?W"
  let ?w' = "if node_io_mode s = MODE_WRITE \<and> first_write then take k ?w @ replicate (?C - k) 0 else ?w"
  have fc: "file_chain (entry d) cs (first_cluster s)" and cs: "clusters_ok evalid cs"
    and dv: "\<forall>c \<in> set cs. dvalid c \<and> c \<noteq> slot_cluster (node_entry s)"
    using w by (simp_all add: write_ok_def)
  have ch: "chain (entry d) cs" using fc p by (auto simp: file_chain_def split: if_splits)
  note m = chain_member [OF ok cs p(1)]
  have k: "0 < k" "pos + k \<le> length buf" "?off + k \<le> ?C" using off pos by (simp_all add: kd)
  have lw: "length ?w' = ?C" using k fst by (auto simp: block_size)
  have tw: "take (?off + k) ?w' = take ?off ?W @ take k (drop pos buf)"
    using k fst by (auto simp: block_size)
  have dvc: "dvalid ?c" using dv p(1) by simp
  obtain d1 where d1: "data_cluster_write ms d b ?w' ?c = (d1, True)" "fok d1"
    "\<forall>c'. evalid c' \<longrightarrow> entry d1 c' = entry d c' \<and> free d1 c' = free d c'"
    "\<forall>c'. dvalid c' \<longrightarrow> block d1 c' = (if c' = ?c then ?w' else block d c')"
    using write_block [OF ok dvc lw] by blast
  have o1: "unat (cluster_offset s + of_nat k) = ?off + k"
    using k(3) cluster_size_bound [of b] by (subst unat_plus_no_wrap) (simp_all add: unat_of_nat)
  let ?s0 = "s\<lparr>cluster_offset := cluster_offset s + of_nat k\<rparr>" and ?n = "fat_read ms d1 b ?c"
  have rd: "data_cluster_read ms d b ?c = Some ?W" using dv p(1) ok by (simp add: read_block)
  have run: "write_rest ms b first_write buf d s pos =
      (if ?C \<le> ?off + k
       then write_loop ms b first_write buf d1 (?s0\<lparr>processed_clusters := processed_clusters s + 1, cluster_offset := 0,
              current_cluster := (if in_chain ?n then ?n else ?c)\<rparr>) (pos + k)
       else write_loop ms b first_write buf d1 ?s0 (pos + k))"
    using m(1) off d1(1) unfolding write_rest_def Let_def p(2) kd [symmetric] rd
    by (simp add: o1)
  have ch1: "chain (entry d1) cs" using ch chain_cong [of cs "entry d1" "entry d"] d1(3) cs by (simp add: clusters_ok_def)
  have bl: "\<forall>j < length cs. block d1 (cs ! j) = (if j = ?p then ?w' else block d (cs ! j))"
    using d1(4) dv cs p(1) by (auto simp: clusters_ok_def nth_eq_iff_index_eq)
  have content: "take (?p * ?C + (?off + k)) (concat (map (block d1) cs)) =
      take (?p * ?C + ?off) (concat (map (block d) cs)) @ take k (drop pos buf)"
  proof -
    have "take ?p (map (block d1) cs) = take ?p (map (block d) cs)"
      using bl p(1) by (intro nth_equalityI) simp_all
    then show ?thesis
      using take_concat [of "map (block d1) cs" ?C ?p "?off + k"] take_concat [of "map (block d) cs" ?C ?p ?off]
        p(1) k(3) off tw bl by (simp add: block_size)
  qed
  have w1: "write_ok evalid dvalid (entry d1) (free d1) b cs s'" if "same_node s s'" for s'
    using w that d1(3) ch1 fc ch by (auto simp: write_ok_def same_node_def node_has_attribute_def file_chain_def)
  have g: "grown evalid dvalid (slot_cluster (node_entry s)) (entry d, free d, block d) (entry d1, free d1, block d1) cs cs"
    using d1(3,4) p(1) by (auto simp: grown_def)
  show ?thesis
  proof (cases "?off + k = ?C")
    case True
    let ?s1 = "?s0\<lparr>processed_clusters := processed_clusters s + 1, cluster_offset := 0,
              current_cluster := (if in_chain ?n then ?n else ?c)\<rparr>"
    have p1: "unat (processed_clusters s + 1) = Suc ?p" using p(1) bound by (subst unat_plus_no_wrap) simp_all
    have cur: "current_cluster ?s1 = (if Suc ?p < length cs then cs ! Suc ?p else last cs)"
      using next_cluster [OF d1(2) ch1 cs p(1)] last_nth [OF p(1)] by auto
    have sn: "same_node s ?s1" by (simp add: same_node_def)
    have "cursor_pos b ?s1 = ?p * ?C + (?off + k)" using p1 True by (simp add: cursor_pos_def)
    moreover have "write_pos b cs ?s1" using cur p(1) p1 off by (auto simp: write_pos_def Let_def)
    ultimately show ?thesis
      using k d1(2) w1 [OF sn] sn p1 content g run True
      by (intro exI [of _ k] exI [of _ d1] exI [of _ ?s1]) (simp add: cursor_pos_def add.commute)
  next
    case False
    then have lt: "?off + k < ?C" "pos + k = length buf" using k(3) pos by (auto simp: kd)
    have sn: "same_node s ?s0" by (simp add: same_node_def)
    have "cursor_pos b ?s0 = ?p * ?C + (?off + k)" using o1 by (simp add: cursor_pos_def)
    moreover have "write_pos b cs ?s0" using p lt(1) o1 by (simp add: write_pos_def Let_def)
    ultimately show ?thesis
      using k d1(2) w1 [OF sn] sn content g run lt
      by (intro exI [of _ k] exI [of _ d1] exI [of _ ?s0]) (simp add: cursor_pos_def)
  qed
qed


lemma write_ok_grow:
  assumes w: "write_ok evalid dvalid (entry d) (free d) b cs s" and "fok d" and "free d c" and "same_file (node_entry s) e'"
    and ch: "file_chain (entry d') (cs @ [c]) (cluster_of (fentry e'))" and ok: "clusters_ok evalid (cs @ [c])"
    and fr: "\<forall>c'. evalid c' \<and> free d' c' \<longrightarrow> free d c'"
  shows "write_ok evalid dvalid (entry d') (free d') b (cs @ [c]) (with_cluster s e' c)"
proof -
  have "evalid c" "2 \<le> unat c" using ok by (auto simp: clusters_ok_def)
  moreover have "has_attribute (fentry e') = has_attribute (fentry (node_entry s))"
    using assms(4) by (intro ext) (simp add: same_file_def has_attribute_def)
  ultimately show ?thesis
    using w ch ok fr assms(3,4)
    by (auto simp: write_ok_def with_cluster_def same_file_def slot_ok_def node_has_attribute_def)
qed

lemma grown_bounds:
  "grown evalid dvalid slot (ent, fr, blk) (ent', fr', blk') cs cs' \<Longrightarrow> length cs \<le> length cs'"
  by (auto simp: grown_def)

text \<open>A round of the loop: no cluster is free, or the next bytes are written.\<close>

lemma write_loop_step:
  assumes ok: "fok d" and w: "write_ok evalid dvalid (entry d) (free d) b cs s" and wp: "write_pos b cs s"
    and nf: "next_fits b cs s" and fst: "node_io_mode s = MODE_WRITE \<and> first_write \<longrightarrow> cluster_offset s = 0"
    and pos: "pos < length buf" and bound: "Suc (length cs) < 2 ^ 32"
  shows "(write_loop ms b first_write buf d s pos = Some (d, with_cluster s (node_entry s) 0, pos, Some (IO_DEV_ERROR, 0)) \<and>
      (\<forall>c. evalid c \<and> 2 \<le> unat c \<longrightarrow> \<not> free d c)) \<or>
    (\<exists>k d1 s1 cs1. 0 < k \<and> pos + k \<le> length buf \<and> fok d1 \<and> write_ok evalid dvalid (entry d1) (free d1) b cs1 s1 \<and>
      same_file (node_entry s) (node_entry s1) \<and> node_io_mode s1 = node_io_mode s \<and>
      write_pos b cs1 s1 \<and> cursor_pos b s1 = cursor_pos b s + k \<and>
      (pos + k < length buf \<longrightarrow> cluster_offset s1 = 0 \<and> next_fits b cs1 s1) \<and>
      (cs1 = cs \<or> (length cs1 - 1) * cluster_size b < cursor_pos b s1) \<and>
      take (cursor_pos b s1) (concat (map (block d1) cs1)) =
        take (cursor_pos b s) (concat (map (block d) cs)) @ take k (drop pos buf) \<and>
      grown evalid dvalid (slot_cluster (node_entry s)) (entry d, free d, block d) (entry d1, free d1, block d1) cs cs1 \<and>
      write_loop ms b first_write buf d s pos = write_loop ms b first_write buf d1 s1 (pos + k))"
proof (cases "unat (processed_clusters s) < length cs")
  case True
  then have c: "current_cluster s = cs ! unat (processed_clusters s)" "unat (cluster_offset s) < cluster_size b"
    using wp by (simp_all add: write_pos_def Let_def)
  have "current_cluster s \<noteq> 0" using chain_member(1) [OF ok _ True] w c by (simp add: write_ok_def)
  moreover have "with_cluster s (node_entry s) (current_cluster s) = s" by (simp add: with_cluster_def)
  ultimately have run: "write_loop ms b first_write buf d s pos = write_rest ms b first_write buf d s pos"
    using nf True pos by (simp add: write_loop_unfold next_fits_def)
  obtain k d1 s1 where r: "0 < k" "pos + k \<le> length buf" "fok d1" "write_ok evalid dvalid (entry d1) (free d1) b cs s1"
    "same_node s s1" "write_pos b cs s1" "cursor_pos b s1 = cursor_pos b s + k"
    "pos + k < length buf \<longrightarrow> cluster_offset s1 = 0 \<and> unat (processed_clusters s1) = Suc (unat (processed_clusters s))"
    "take (cursor_pos b s1) (concat (map (block d1) cs)) =
      take (cursor_pos b s) (concat (map (block d) cs)) @ take k (drop pos buf)"
    "grown evalid dvalid (slot_cluster (node_entry s)) (entry d, free d, block d) (entry d1, free d1, block d1) cs cs"
    "write_rest ms b first_write buf d s pos = write_loop ms b first_write buf d1 s1 (pos + k)"
    using write_rest_step [OF ok w True c fst pos] bound by auto
  have "size_clusters b s1 = size_clusters b s" using r(5) by (simp add: size_clusters_def same_node_def)
  then have "next_fits b cs s1" using nf True by (simp add: next_fits_def)
  then show ?thesis using r run by (intro disjI2 exI [of _ k] exI [of _ d1] exI [of _ s1] exI [of _ cs]) (simp add: same_node_def)
next
  case False
  then have e: "unat (processed_clusters s) = length cs" "cluster_offset s = 0"
    "current_cluster s = (if cs = [] then 0 else last cs)"
    using wp by (auto simp: write_pos_def Let_def unat_eq_zero)
  let ?e = "node_entry s"
  have al: "size_clusters b s \<le> unat (processed_clusters s)" using nf e(1) by (simp add: next_fits_def)
  obtain d' e' c where a: "allocate_cluster ms d b ?e (current_cluster s) = Some (d', e', c)" "fok d'"
    "if c = 0 then d' = d \<and> e' = ?e \<and> (\<forall>c'. evalid c' \<and> 2 \<le> unat c' \<longrightarrow> \<not> free d c')
     else free d c \<and> same_file ?e e' \<and> file_chain (entry d') (cs @ [c]) (cluster_of (fentry e')) \<and>
       clusters_ok evalid (cs @ [c]) \<and> (\<forall>c'. dvalid c' \<and> c' \<noteq> slot_cluster ?e \<longrightarrow> block d' c' = block d c') \<and>
       grown evalid dvalid (slot_cluster ?e) (entry d, free d, block d) (entry d', free d', block d') cs (cs @ [c])"
    using allocate_cluster_grows [OF ok, of cs ?e] w unfolding e(3) write_ok_def by blast
  have run: "write_loop ms b first_write buf d s pos = write_rest ms b first_write buf d' (with_cluster s e' c) pos"
    using al a(1) pos by (simp add: write_loop_unfold)
  show ?thesis
  proof (cases "c = 0")
    case True
    then show ?thesis using a(3) run by (simp add: write_rest_def with_cluster_def)
  next
    case False
    then have a3: "free d c" "same_file ?e e'" "file_chain (entry d') (cs @ [c]) (cluster_of (fentry e'))"
      "clusters_ok evalid (cs @ [c])" "\<forall>c'. dvalid c' \<and> c' \<noteq> slot_cluster ?e \<longrightarrow> block d' c' = block d c'"
      "grown evalid dvalid (slot_cluster ?e) (entry d, free d, block d) (entry d', free d', block d') cs (cs @ [c])"
      using a(3) by simp_all
    let ?s = "with_cluster s e' c" and ?cs = "cs @ [c]"
    have w1: "write_ok evalid dvalid (entry d') (free d') b ?cs ?s"
      using write_ok_grow [OF w ok a3(1,2,3,4)] a3(6) by (simp add: grown_def)
    have s: "processed_clusters ?s = processed_clusters s" "cluster_offset ?s = cluster_offset s"
      "current_cluster ?s = c" "node_entry ?s = e'" "node_io_mode ?s = node_io_mode s" "cursor_pos b ?s = cursor_pos b s"
      by (simp_all add: with_cluster_def cursor_pos_def)
    have C: "0 < cluster_size b" using w by (simp add: write_ok_def slot_ok_def)
    obtain k d1 s1 where r: "0 < k" "pos + k \<le> length buf" "fok d1" "write_ok evalid dvalid (entry d1) (free d1) b ?cs s1"
      "same_node ?s s1" "write_pos b ?cs s1" "cursor_pos b s1 = cursor_pos b s + k"
      "pos + k < length buf \<longrightarrow> cluster_offset s1 = 0 \<and> unat (processed_clusters s1) = Suc (length cs)"
      "take (cursor_pos b s1) (concat (map (block d1) ?cs)) =
        take (cursor_pos b s) (concat (map (block d') ?cs)) @ take k (drop pos buf)"
      "grown evalid dvalid (slot_cluster e') (entry d', free d', block d') (entry d1, free d1, block d1) ?cs ?cs"
      "write_rest ms b first_write buf d' ?s pos = write_loop ms b first_write buf d1 s1 (pos + k)"
      using write_rest_step [OF a(2) w1, of first_write pos buf] e pos bound C fst unfolding s by auto
    have T: "cursor_pos b s = length cs * cluster_size b" using e by (simp add: cursor_pos_def)
    have "concat (map (block d') cs) = concat (map (block d) cs)" using w a3(5) by (simp add: write_ok_def cong: map_cong)
    then have content: "take (cursor_pos b s) (concat (map (block d') ?cs)) = take (cursor_pos b s) (concat (map (block d) cs))"
      unfolding T by (simp add: length_bytes)
    have "size_clusters b s1 = size_clusters b s" using r(5) a3(2) by (simp add: size_clusters_def same_node_def s same_file_def)
    then have "pos + k < length buf \<longrightarrow> next_fits b ?cs s1" using nf r(8) by (simp add: next_fits_def)
    moreover have "grown evalid dvalid (slot_cluster ?e) (entry d, free d, block d) (entry d1, free d1, block d1) cs ?cs"
      using grown_trans [OF a3(6)] r(10) a3(2,4) by (simp add: same_file_def clusters_ok_def)
    moreover have "(length ?cs - 1) * cluster_size b < cursor_pos b s1" using r(1,7) T by simp
    moreover have "same_file ?e (node_entry s1)" "node_io_mode s1 = node_io_mode s" using r(5) a3(2) by (simp_all add: same_node_def s)
    ultimately show ?thesis
      using r run content by (intro disjI2 exI [of _ k] exI [of _ d1] exI [of _ s1] exI [of _ ?cs]) simp
  qed
qed

end

context fat_files begin

text \<open>The whole loop: the buffer is behind the bytes before the cursor, or no cluster is free any more.\<close>

lemma write_loop_correct:
  assumes "fok d" and "write_ok evalid dvalid (entry d) (free d) b cs s" and "write_pos b cs s"
    and "pos < length buf \<longrightarrow> next_fits b cs s \<and> (node_io_mode s = MODE_WRITE \<and> first_write \<longrightarrow> cluster_offset s = 0)"
    and "pos \<le> length buf" and "(length cs - 1) * cluster_size b \<le> M" and "cursor_pos b s + (length buf - pos) \<le> M"
    and "M + 2 < 2 ^ 32"
  shows "\<exists>d' s' cs' n r. write_loop ms b first_write buf d s pos = Some (d', s', n, r) \<and> fok d' \<and>
    write_ok evalid dvalid (entry d') (free d') b cs' s' \<and> same_file (node_entry s) (node_entry s') \<and>
    node_io_mode s' = node_io_mode s \<and>
    grown evalid dvalid (slot_cluster (node_entry s)) (entry d, free d, block d) (entry d', free d', block d') cs cs' \<and>
    (case r of
       None \<Rightarrow> n = length buf \<and> cursor_pos b s' = cursor_pos b s + (length buf - pos) \<and> write_pos b cs' s' \<and>
         (cs' = cs \<or> (length cs' - 1) * cluster_size b < cursor_pos b s') \<and>
         take (cursor_pos b s') (concat (map (block d') cs')) = take (cursor_pos b s) (concat (map (block d) cs)) @ drop pos buf
     | Some (st, m) \<Rightarrow> st = IO_DEV_ERROR \<and> m = 0 \<and> (\<forall>c. evalid c \<and> 2 \<le> unat c \<longrightarrow> \<not> free d' c))"
  using assms(1-7)
proof (induction "length buf - pos" arbitrary: d s cs pos rule: less_induct)
  case less
  have refl: "grown evalid dvalid sl (entry d, free d, block d) (entry d, free d, block d) cs cs" for d :: 'a and sl cs
    by (simp add: grown_def)
  show ?case
  proof (cases "pos < length buf")
    case False
    then show ?thesis
      using less.prems refl
      by (intro exI [of _ d] exI [of _ s] exI [of _ cs] exI [of _ pos] exI [of _ None]) (simp add: write_loop_done)
  next
    case True
    have C: "0 < cluster_size b" using less.prems(2) by (simp add: write_ok_def slot_ok_def)
    have "length cs - 1 \<le> (length cs - 1) * cluster_size b" using C by simp
    then have bound: "Suc (length cs) < 2 ^ 32" using less.prems(6) assms(8) by linarith
    from write_loop_step [OF less.prems(1-3) _ _ True bound, of first_write] less.prems(4) True
    consider (full) "write_loop ms b first_write buf d s pos = Some (d, with_cluster s (node_entry s) 0, pos, Some (IO_DEV_ERROR, 0))"
        "\<forall>c. evalid c \<and> 2 \<le> unat c \<longrightarrow> \<not> free d c"
      | (step) k d1 s1 cs1 where "0 < k" "pos + k \<le> length buf" "fok d1"
        "write_ok evalid dvalid (entry d1) (free d1) b cs1 s1"
        "same_file (node_entry s) (node_entry s1)" "node_io_mode s1 = node_io_mode s"
        "write_pos b cs1 s1" "cursor_pos b s1 = cursor_pos b s + k"
        "pos + k < length buf \<longrightarrow> cluster_offset s1 = 0 \<and> next_fits b cs1 s1"
        "cs1 = cs \<or> (length cs1 - 1) * cluster_size b < cursor_pos b s1"
        "take (cursor_pos b s1) (concat (map (block d1) cs1)) =
          take (cursor_pos b s) (concat (map (block d) cs)) @ take k (drop pos buf)"
        "grown evalid dvalid (slot_cluster (node_entry s)) (entry d, free d, block d) (entry d1, free d1, block d1) cs cs1"
        "write_loop ms b first_write buf d s pos = write_loop ms b first_write buf d1 s1 (pos + k)"
      by blast
    then show ?thesis
    proof cases
      case full
      have "write_ok evalid dvalid (entry d) (free d) b cs (with_cluster s (node_entry s) 0)"
        using less.prems(2) by (simp add: write_ok_def with_cluster_def node_has_attribute_def)
      then show ?thesis
        using full less.prems(1) refl
        by (intro exI [of _ d] exI [of _ "with_cluster s (node_entry s) 0"] exI [of _ cs] exI [of _ pos]
            exI [of _ "Some (IO_DEV_ERROR, 0)"]) (simp add: with_cluster_def)
    next
      case step
      have lt: "length buf - (pos + k) < length buf - pos" using step(1) True by linarith
      have m: "(length cs1 - 1) * cluster_size b \<le> M" "cursor_pos b s1 + (length buf - (pos + k)) \<le> M"
        using step(2,8,10) less.prems(6,7) by auto
      obtain d' s' cs' n r where ih: "write_loop ms b first_write buf d1 s1 (pos + k) = Some (d', s', n, r)" "fok d'"
        "write_ok evalid dvalid (entry d') (free d') b cs' s'" "same_file (node_entry s1) (node_entry s')"
        "node_io_mode s' = node_io_mode s1"
        "grown evalid dvalid (slot_cluster (node_entry s1)) (entry d1, free d1, block d1) (entry d', free d', block d') cs1 cs'"
        "case r of
           None \<Rightarrow> n = length buf \<and> cursor_pos b s' = cursor_pos b s1 + (length buf - (pos + k)) \<and> write_pos b cs' s' \<and>
             (cs' = cs1 \<or> (length cs' - 1) * cluster_size b < cursor_pos b s') \<and>
             take (cursor_pos b s') (concat (map (block d') cs')) =
               take (cursor_pos b s1) (concat (map (block d1) cs1)) @ drop (pos + k) buf
         | Some (st, m) \<Rightarrow> st = IO_DEV_ERROR \<and> m = 0 \<and> (\<forall>c. evalid c \<and> 2 \<le> unat c \<longrightarrow> \<not> free d' c)"
        using less.hyps [OF lt step(3,4,7) _ step(2) m] step(9) by blast
      have v: "\<forall>c \<in> set cs'. evalid c" using ih(3) by (simp add: write_ok_def clusters_ok_def)
      have g: "grown evalid dvalid (slot_cluster (node_entry s)) (entry d, free d, block d) (entry d', free d', block d') cs cs'"
        using grown_trans [OF step(12) _ v] ih(6) step(5) by (simp add: same_file_def)
      have buf: "take k (drop pos buf) @ drop (pos + k) buf = drop pos buf"
        by (metis add.commute append_take_drop_id drop_drop)
      have "case r of
           None \<Rightarrow> n = length buf \<and> cursor_pos b s' = cursor_pos b s + (length buf - pos) \<and> write_pos b cs' s' \<and>
             (cs' = cs \<or> (length cs' - 1) * cluster_size b < cursor_pos b s') \<and>
             take (cursor_pos b s') (concat (map (block d') cs')) =
               take (cursor_pos b s) (concat (map (block d) cs)) @ drop pos buf
         | Some (st, m) \<Rightarrow> st = IO_DEV_ERROR \<and> m = 0 \<and> (\<forall>c. evalid c \<and> 2 \<le> unat c \<longrightarrow> \<not> free d' c)"
      proof (cases r)
        case None
        then have r: "n = length buf" "cursor_pos b s' = cursor_pos b s1 + (length buf - (pos + k))" "write_pos b cs' s'"
          "cs' = cs1 \<or> (length cs' - 1) * cluster_size b < cursor_pos b s'"
          "take (cursor_pos b s') (concat (map (block d') cs')) =
             take (cursor_pos b s1) (concat (map (block d1) cs1)) @ drop (pos + k) buf"
          using ih(7) unfolding None option.case by blast+
        have "cursor_pos b s' = cursor_pos b s + (length buf - pos)" using r(2) step(2,8) by linarith
        moreover have "cs' = cs \<or> (length cs' - 1) * cluster_size b < cursor_pos b s'" using r(2,4) step(10) by auto
        ultimately show ?thesis using None r(1,3,5) buf unfolding step(11) append_assoc by simp
      next
        case (Some a)
        then show ?thesis using ih(7) by (cases a) simp
      qed
      then show ?thesis
        using ih(1-5) g step(13) same_file_trans [OF step(5) ih(4)] step(6)
        by (intro exI [of _ d'] exI [of _ s'] exI [of _ cs'] exI [of _ n] exI [of _ r]) simp
    qed
  qed
qed

end

lemma exact_size_clusters:
  assumes "exact_size b cs (unat (node_size s))" and "unat (node_size s) + cluster_size b < 2 ^ 32"
  shows "size_clusters b s = length cs"
proof -
  let ?C = "cluster_size b" and ?sz = "unat (node_size s)"
  have C: "0 < ?C" using assms(1) by (simp add: exact_size_def)
  have c: "unat (of_nat ?C :: u32) = ?C" using assms(2) by (simp add: unat_of_nat)
  have "size_clusters b s = (?sz + (?C - 1)) div ?C"
    unfolding size_clusters_def using assms(2) C c by (subst unat_div_round_up) simp_all
  also have "\<dots> = length cs"
  proof (rule div_nat_eqI)
    show "?C * length cs \<le> ?sz + (?C - 1)" using assms(1) C unfolding exact_size_def mult.commute [of ?C] by linarith
    show "?sz + (?C - 1) < ?C * Suc (length cs)"
      using assms(1) C unfolding exact_size_def mult.commute [of ?C] mult_Suc by linarith
  qed
  finally show ?thesis .
qed

text \<open>What a write that succeeds leaves behind.\<close>

definition written :: "(u32 \<Rightarrow> bool) \<Rightarrow> (u32 \<Rightarrow> bool) \<Rightarrow> boot_record \<Rightarrow> fat_node \<Rightarrow> u32 list \<Rightarrow>
    (u32 \<Rightarrow> u32) \<times> (u32 \<Rightarrow> bool) \<times> (u32 \<Rightarrow> u8 list) \<Rightarrow> (u32 \<Rightarrow> u32) \<times> (u32 \<Rightarrow> bool) \<times> (u32 \<Rightarrow> u8 list) \<Rightarrow>
    fat_node \<Rightarrow> u32 list \<Rightarrow> u8 list \<Rightarrow> bool" where
  "written evalid dvalid b s cs = (\<lambda>(ent, fr, blk) (ent', fr', blk') s' cs' content.
     write_ok evalid dvalid ent' fr' b cs' s' \<and> exact_size b cs' (unat (node_size s')) \<and>
     unat (node_size s') = length content \<and> file_bytes blk' cs' (length content) = content \<and>
     (\<forall>c. evalid c \<and> c \<notin> set cs \<and> \<not> fr c \<longrightarrow> ent' c = ent c) \<and>
     (\<forall>c. dvalid c \<and> evalid c \<and> c \<notin> set cs \<and> \<not> fr c \<and> c \<noteq> slot_cluster (node_entry s) \<longrightarrow> blk' c = blk c))"

context fat_files begin

lemma file_bytes_cong: "\<forall>c \<in> set cs. blk' c = blk c \<Longrightarrow> file_bytes blk' cs n = file_bytes blk cs n"
  unfolding file_bytes_def by (metis map_cong)

text \<open>The last step of a write: the new size goes to the entry in the directory.\<close>

lemma update_written:
  assumes "fok d1" and w: "write_ok evalid dvalid (entry d1) (free d1) b cs1 s1"
  shows "\<exists>d2. update_entry ms d1 b (node_entry (set_file_size s1 n)) = (d2, True) \<and> fok d2 \<and>
    write_ok evalid dvalid (entry d2) (free d2) b cs1 (set_file_size s1 n) \<and>
    (\<forall>c. evalid c \<longrightarrow> entry d2 c = entry d1 c \<and> free d2 c = free d1 c) \<and>
    (\<forall>c. dvalid c \<and> c \<noteq> slot_cluster (node_entry s1) \<longrightarrow> block d2 c = block d1 c)"
proof -
  let ?s = "set_file_size s1 n"
  have sl: "slot_ok dvalid b (node_entry ?s)" and loc: "location (node_entry ?s) = location (node_entry s1)"
    and cl: "first_cluster ?s = first_cluster s1"
    using w by (simp_all add: write_ok_def slot_ok_def set_file_size_def cluster_of_def)
  have at: "has_attribute (fentry (node_entry ?s)) = has_attribute (fentry (node_entry s1))"
    by (intro ext) (simp add: set_file_size_def has_attribute_def)
  obtain d2 where d2: "update_entry ms d1 b (node_entry ?s) = (d2, True)" "fok d2"
    "\<forall>c. evalid c \<longrightarrow> entry d2 c = entry d1 c \<and> free d2 c = free d1 c"
    "\<forall>c. dvalid c \<and> c \<noteq> slot_cluster (node_entry s1) \<longrightarrow> block d2 c = block d1 c"
    using update_entry_ok [OF assms(1) sl] unfolding loc by blast
  have "\<forall>c \<in> set cs1. evalid c" using w by (simp add: write_ok_def clusters_ok_def)
  then have "chain (entry d2) cs1 = chain (entry d1) cs1" using d2(3) by (intro chain_cong) simp
  then have "write_ok evalid dvalid (entry d2) (free d2) b cs1 ?s"
    using w sl d2(3) unfolding write_ok_def loc cl file_chain_def node_has_attribute_def at
    by (auto simp: set_file_size_def)
  then show ?thesis using d2 by blast
qed

text \<open>A write behind the last byte appends the buffer to the file.\<close>

lemma node_write_append:
  assumes ok: "fok d" and w: "write_ok evalid dvalid (entry d) (free d) b cs s" and wp: "write_pos b cs s"
    and ex: "exact_size b cs (unat (node_size s))" and T: "cursor_pos b s = unat (node_size s)"
    and mode: "node_io_mode s = MODE_APPEND" and buf: "buf \<noteq> []"
    and bound: "unat (node_size s) + length buf + cluster_size b + 2 < 2 ^ 32"
  shows "\<exists>d' s' st n. node_write ms d b s (Some buf) = Some (d', s', st, n) \<and> fok d' \<and>
    (if st = IO_OKAY
     then n = length buf \<and> cursor_pos b s' = unat (node_size s') \<and>
       (\<exists>cs'. write_pos b cs' s' \<and> written evalid dvalid b s cs (entry d, free d, block d) (entry d', free d', block d') s' cs'
          (file_bytes (block d) cs (unat (node_size s)) @ buf))
     else st = IO_DEV_ERROR \<and> n = 0 \<and> (\<forall>c. evalid c \<and> 2 \<le> unat c \<longrightarrow> \<not> free d' c))"
proof -
  let ?C = "cluster_size b" and ?sz = "unat (node_size s)"
  have nf: "next_fits b cs s" using exact_size_clusters [OF ex] bound by (simp add: next_fits_def)
  have C: "0 < ?C" using ex by (simp add: exact_size_def)
  have l: "(length cs - 1) * ?C \<le> ?sz + length buf" using ex by (cases cs) (simp_all add: exact_size_def)
  let ?first = "processed_clusters s = 0 \<and> cluster_offset s = 0"
  obtain d1 s1 cs1 n r where lp: "write_loop ms b ?first buf d s 0 = Some (d1, s1, n, r)" "fok d1"
    "write_ok evalid dvalid (entry d1) (free d1) b cs1 s1" "same_file (node_entry s) (node_entry s1)"
    "node_io_mode s1 = node_io_mode s"
    "grown evalid dvalid (slot_cluster (node_entry s)) (entry d, free d, block d) (entry d1, free d1, block d1) cs cs1"
    "case r of
       None \<Rightarrow> n = length buf \<and> cursor_pos b s1 = cursor_pos b s + (length buf - 0) \<and> write_pos b cs1 s1 \<and>
         (cs1 = cs \<or> (length cs1 - 1) * ?C < cursor_pos b s1) \<and>
         take (cursor_pos b s1) (concat (map (block d1) cs1)) = take (cursor_pos b s) (concat (map (block d) cs)) @ drop 0 buf
     | Some (st, m) \<Rightarrow> st = IO_DEV_ERROR \<and> m = 0 \<and> (\<forall>c. evalid c \<and> 2 \<le> unat c \<longrightarrow> \<not> free d1 c)"
    using write_loop_correct [OF ok w wp, of 0 buf ?first "?sz + length buf"] nf l bound T mode by auto
  have en: "\<not> closed s" "node_has_attribute s NODE_FILE" using w by (simp_all add: write_ok_def)
  show ?thesis
  proof (cases r)
    case (Some a)
    then obtain st m where "r = Some (st, m)" by (cases a) simp
    then show ?thesis using lp(1,2,7) en mode buf by (simp add: node_write_def Let_def)
  next
    case None
    have r: "n = length buf" "cursor_pos b s1 = ?sz + length buf" "write_pos b cs1 s1"
      "cs1 = cs \<or> (length cs1 - 1) * ?C < cursor_pos b s1"
      "take (cursor_pos b s1) (concat (map (block d1) cs1)) = file_bytes (block d) cs ?sz @ buf"
      using lp(7) unfolding None option.case T diff_zero drop_0 file_bytes_def by blast+
    let ?n = "node_size s + of_nat (length buf)"
    have sz1: "node_size s1 = node_size s" using lp(4) by (simp add: same_file_def)
    have un: "unat ?n = ?sz + length buf" using bound by (subst unat_plus_no_wrap) (simp_all add: unat_of_nat)
    obtain d2 where d2: "update_entry ms d1 b (node_entry (set_file_size s1 ?n)) = (d2, True)" "fok d2"
      "write_ok evalid dvalid (entry d2) (free d2) b cs1 (set_file_size s1 ?n)"
      "\<forall>c. evalid c \<longrightarrow> entry d2 c = entry d1 c \<and> free d2 c = free d1 c"
      "\<forall>c. dvalid c \<and> c \<noteq> slot_cluster (node_entry s1) \<longrightarrow> block d2 c = block d1 c"
      using update_written [OF lp(2,3)] by blast
    have run: "node_write ms d b s (Some buf) = Some (d2, set_file_size s1 ?n, IO_OKAY, length buf)"
      using lp(1,5) en mode buf r(1) None d2(1) un sz1
      by (simp add: node_write_def Let_def word_less_nat_alt)
    have cont: "file_bytes (block d2) cs1 (?sz + length buf) = file_bytes (block d) cs ?sz @ buf"
    proof -
      have "file_bytes (block d2) cs1 (?sz + length buf) = file_bytes (block d1) cs1 (?sz + length buf)"
        using d2(5) lp(3) by (intro file_bytes_cong) (simp add: write_ok_def)
      then show ?thesis using r(2,5) by (simp add: file_bytes_def)
    qed
    have lB: "length (file_bytes (block d) cs ?sz) = ?sz" using ex by (simp add: file_bytes_def length_bytes exact_size_def)
    have "?sz + length buf \<le> length cs1 * ?C"
      using arg_cong [OF r(5), of length] lB r(2) by (simp add: length_bytes)
    moreover have "length cs1 * ?C < ?sz + length buf + ?C"
      using r(2,4) ex C by (cases cs1) (auto simp: exact_size_def)
    ultimately have ex1: "exact_size b cs1 (?sz + length buf)" by (simp add: exact_size_def)
    have fr: "entry d2 c = entry d c" if "evalid c" "c \<notin> set cs" "\<not> free d c" for c
      using that lp(6) d2(4) by (auto simp: grown_def)
    have fb: "block d2 c = block d c" if "dvalid c" "c \<notin> set cs" "\<not> free d c" "c \<noteq> slot_cluster (node_entry s)" for c
      using that lp(4,6) d2(5) by (auto simp: grown_def same_file_def)
    have pos: "write_pos b cs1 (set_file_size s1 ?n)" "cursor_pos b (set_file_size s1 ?n) = ?sz + length buf"
      using r(2,3) by (simp_all add: set_file_size_def write_pos_def cursor_pos_def Let_def)
    show ?thesis
      using run d2(2,3) pos un ex1 cont lB fr fb
      by (intro exI [of _ d2] exI [of _ "set_file_size s1 ?n"] exI [of _ IO_OKAY] exI [of _ "length buf"])
         (auto simp: written_def)
  qed
qed

end

context fat_files begin

text \<open>Shrinking a file keeps its first \<open>t\<close> clusters and frees the others.\<close>

lemma shrink_loop_chain:
  assumes "fok d" and ch: "chain ent cs" and cs: "clusters_ok evalid cs" and t: "0 < t" "t \<le> length cs" "length cs < 2 ^ 32"
    and "i < length cs" and "\<forall>j. i \<le> j \<and> j < length cs \<longrightarrow> entry d (cs ! j) = ent (cs ! j)"
  shows "\<exists>d'. shrink_loop ms b (of_nat t) d (cs ! i) (of_nat i) eof = Some (d', if i < t then cs ! (t - 1) else eof) \<and> fok d' \<and>
    (\<forall>c. evalid c \<longrightarrow> entry d' c = (if c \<in> set (drop (max i t) cs) then 0 else entry d c)) \<and>
    (\<forall>c. evalid c \<and> c \<notin> set cs \<longrightarrow> free d' c = free d c) \<and> (\<forall>c. dvalid c \<longrightarrow> block d' c = block d c)"
  using assms(1,7,8)
proof (induction "length cs - i" arbitrary: d i eof rule: less_induct)
  case less
  let ?c = "cs ! i" and ?n = "fat_read ms d b (cs ! i)"
  note m = chain_member [OF less.prems(1) cs less.prems(2)]
  have "fat_read ms d b ?c = ent ?c" using read_entry [OF less.prems(1) m(3)] less.prems(2,3) by simp
  then have n: "?n = (if Suc i < length cs then cs ! Suc i else ?n)" "Suc i = length cs \<Longrightarrow> \<not> in_chain ?n"
    using chain_next [OF ch] chain_last [OF ch, of i] by (simp_all add: in_chain_def linorder_not_less)
  have tm: "unat ((of_nat t :: u32) - 1) = t - 1"
  proof -
    have e: "(of_nat t :: u32) - 1 = of_nat (t - 1)" using t(1) by simp
    show ?thesis unfolding e using t by (simp only: unat_of_nat) simp
  qed
  have im: "unat (of_nat i :: u32) = i" using less.prems(2) t(3) by (simp add: unat_of_nat)
  have e1: "(of_nat i :: u32) = of_nat t - 1 \<longleftrightarrow> Suc i = t" using t(1) by (auto simp: word_unat_eq_iff tm im)
  have e2: "of_nat t - 1 < (of_nat i :: u32) \<longleftrightarrow> t \<le> i" using t(1) by (auto simp: word_less_nat_alt tm im)
  let ?d = "if t \<le> i then fst (fat_write ms d b ?c 0) else d" and ?e = "if Suc i = t then ?c else eof"
  have step: "shrink_loop ms b (of_nat t) d ?c (of_nat i) eof = shrink_loop ms b (of_nat t) ?d ?n (of_nat (Suc i)) ?e"
    using m e1 e2 by (subst shrink_loop.simps) (simp add: Let_def add.commute)
  have d1: "fok ?d \<and> (\<forall>c. evalid c \<longrightarrow> entry ?d c = (if t \<le> i \<and> c = ?c then 0 else entry d c)) \<and>
      (\<forall>c. evalid c \<and> c \<notin> set cs \<longrightarrow> free ?d c = free d c) \<and> (\<forall>c. dvalid c \<longrightarrow> block ?d c = block d c)"
    using write_entry [OF less.prems(1) m(3), of 0] less.prems(1,2) by (auto split: if_splits)
  have dr: "t \<le> i \<Longrightarrow> set (drop i cs) = insert ?c (set (drop (Suc i) cs))"
    using less.prems(2) by (metis Cons_nth_drop_Suc list.simps(15))
  show ?case
  proof (cases "Suc i < length cs")
    case True
    have dist: "cs ! j \<noteq> ?c \<and> evalid (cs ! j)" if "Suc i \<le> j" "j < length cs" for j
      using that less.prems(2) cs by (auto simp: clusters_ok_def nth_eq_iff_index_eq)
    then have en: "\<forall>j. Suc i \<le> j \<and> j < length cs \<longrightarrow> entry ?d (cs ! j) = ent (cs ! j)" using d1 less.prems(3) by auto
    have lt: "length cs - Suc i < length cs - i" using True by simp
    obtain d' where d': "shrink_loop ms b (of_nat t) ?d (cs ! Suc i) (of_nat (Suc i)) ?e =
        Some (d', if Suc i < t then cs ! (t - 1) else ?e)" "fok d'"
      "\<forall>c. evalid c \<longrightarrow> entry d' c = (if c \<in> set (drop (max (Suc i) t) cs) then 0 else entry ?d c)"
      "\<forall>c. evalid c \<and> c \<notin> set cs \<longrightarrow> free d' c = free ?d c" "\<forall>c. dvalid c \<longrightarrow> block d' c = block ?d c"
      using less.hyps [OF lt conjunct1 [OF d1] True en, of ?e] by blast
    have "(if Suc i < t then cs ! (t - 1) else ?e) = (if i < t then cs ! (t - 1) else eof)" by (cases "Suc i = t") auto
    moreover have "\<forall>c. evalid c \<longrightarrow> entry d' c = (if c \<in> set (drop (max i t) cs) then 0 else entry d c)"
      using d'(3) d1 dr by (cases "t \<le> i") (auto simp: max_def not_le le_Suc_eq)
    ultimately show ?thesis using d' d1 step n(1) True by (intro exI [of _ d']) simp
  next
    case False
    then have l: "Suc i = length cs" using less.prems(2) by simp
    then have "shrink_loop ms b (of_nat t) ?d ?n (of_nat (Suc i)) ?e = Some (?d, ?e)"
      using n(2) by (subst shrink_loop.simps) simp
    moreover have "?e = (if i < t then cs ! (t - 1) else eof)"
    proof (cases "Suc i = t")
      case True
      then have "t - 1 = i" by simp
      then show ?thesis using True by simp
    qed (use t(2) l in simp)
    moreover have "\<forall>c. evalid c \<longrightarrow> entry ?d c = (if c \<in> set (drop (max i t) cs) then 0 else entry d c)"
      using d1 dr l t(2) by (cases "t \<le> i") (auto simp: max_def)
    ultimately show ?thesis using d1 step by (intro exI [of _ ?d]) simp
  qed
qed

end

lemma chain_take:
  assumes "chain ent cs" and "Suc t \<le> length cs" and "\<forall>j < t. ent' (cs ! j) = ent (cs ! j)"
    and "MAX_CLUSTER_COUNT + 1 \<le> ent' (cs ! t)"
  shows "chain ent' (take (Suc t) cs)"
  using assms
proof (induction ent cs arbitrary: t rule: chain.induct)
  case (3 ent c c' cs)
  show ?case
  proof (cases t)
    case (Suc k)
    have e: "ent' ((c # c' # cs) ! Suc j) = ent ((c # c' # cs) ! Suc j)" if "j < k" for j using 3(4) Suc that by blast
    have "chain ent' (take (Suc k) (c' # cs))"
      using 3(2,3,5) Suc e by (intro 3(1)) simp_all
    then show ?thesis using 3(2,4) Suc by auto
  qed (use 3(5) in simp)
qed simp_all

context fat_files begin

lemma shrink_file_chain:
  assumes ok: "fok d" and w: "write_ok evalid dvalid (entry d) (free d) b cs s" and n: "0 < unat (node_size s)"
    and t: "size_clusters b s = t" "0 < t" "t \<le> length cs" "length cs < 2 ^ 32"
  shows "\<exists>d'. shrink_file ms b d s = Some d' \<and> fok d' \<and>
    write_ok evalid dvalid (entry d') (free d') b (take t cs) s \<and>
    (\<forall>c. evalid c \<and> c \<notin> set cs \<longrightarrow> entry d' c = entry d c \<and> free d' c = free d c) \<and>
    (\<forall>c. dvalid c \<longrightarrow> block d' c = block d c)"
proof -
  have cs: "clusters_ok evalid cs" and ne: "cs \<noteq> []" using w t by (auto simp: write_ok_def)
  then have ch: "chain (entry d) cs" "first_cluster s = cs ! 0" using w by (simp_all add: write_ok_def file_chain_def hd_conv_nth)
  have tw: "div_round_up (node_size s) (of_nat (cluster_size b)) = of_nat t"
    using t by (intro word_unat_eqI) (simp add: size_clusters_def unat_of_nat)
  obtain d1 where d1: "shrink_loop ms b (of_nat t) d (cs ! 0) 0 0 = Some (d1, cs ! (t - 1))" "fok d1"
    "\<forall>c. evalid c \<longrightarrow> entry d1 c = (if c \<in> set (drop t cs) then 0 else entry d c)"
    "\<forall>c. evalid c \<and> c \<notin> set cs \<longrightarrow> free d1 c = free d c" "\<forall>c. dvalid c \<longrightarrow> block d1 c = block d c"
    using shrink_loop_chain [OF ok ch(1) cs t(2-4), of 0 0] ne t(2) by auto
  let ?l = "cs ! (t - 1)"
  have l: "evalid ?l" "2 \<le> unat ?l" "?l \<in> set cs" using cs t by (simp_all add: clusters_ok_def)
  obtain d2 where d2: "fat_write ms d1 b ?l FAT_EOF = (d2, True)" "fok d2"
    "\<forall>c'. evalid c' \<longrightarrow> entry d2 c' = (if c' = ?l then FAT_EOF AND ENTRY_MASK else entry d1 c')"
    "\<forall>c'. evalid c' \<and> c' \<noteq> ?l \<longrightarrow> free d2 c' = free d1 c'"
    "\<forall>c'. dvalid c' \<longrightarrow> block d2 c' = block d1 c'"
    using write_entry [OF d1(2) l(1)] by blast
  have run: "shrink_file ms b d s = Some d2"
    using d1(1) d2(1) l(2) by (auto simp: shrink_file_def tw ch(2) word_gt_0)
  have dis: "cs ! j \<notin> set (drop t cs)" "cs ! j = ?l \<longleftrightarrow> j = t - 1" if "j < t" for j
  proof -
    have "distinct cs" using cs by (simp add: clusters_ok_def)
    then show "cs ! j = ?l \<longleftrightarrow> j = t - 1" using that t by (simp add: nth_eq_iff_index_eq)
    have "cs ! j \<in> set (take t cs)" using that t by (auto simp: in_set_conv_nth intro!: exI [of _ j])
    then show "cs ! j \<notin> set (drop t cs)" using set_take_disj_set_drop_if_distinct [OF \<open>distinct cs\<close>, of t t] by auto
  qed
  have ev: "evalid (cs ! j)" if "j < t" for j using that cs t by (simp add: clusters_ok_def)
  have "chain (entry d2) (take (Suc (t - 1)) cs)"
  proof (rule chain_take [OF ch(1)])
    show "\<forall>j < t - 1. entry d2 (cs ! j) = entry d (cs ! j)" using d1(3) d2(3) dis ev by auto
    show "MAX_CLUSTER_COUNT + 1 \<le> entry d2 (cs ! (t - 1))" using d2(3) l(1) eof_entry by simp
  qed (use t in simp)
  then have c2: "file_chain (entry d2) (take t cs) (first_cluster s)"
    using t ne ch(2) by (simp add: file_chain_def hd_take hd_conv_nth)
  have out: "entry d2 c = entry d c \<and> free d2 c = free d c" if "evalid c" "c \<notin> set cs" for c
    using that d1(3,4) d2(3,4) l(3) in_set_dropD [of c t cs] by auto
  have "write_ok evalid dvalid (entry d2) (free d2) b (take t cs) s"
    using w c2 out unfolding write_ok_def clusters_ok_def by (auto dest: in_set_takeD intro: distinct_take)
  then show ?thesis using run d2(2,5) d1(5) out by auto
qed

end

context fat_files begin

text \<open>A write at the start of a file in write mode replaces the content of the file, which grows or shrinks.\<close>

lemma node_write_replace:
  assumes ok: "fok d" and w: "write_ok evalid dvalid (entry d) (free d) b cs s" and wp: "write_pos b cs s"
    and ex: "exact_size b cs (unat (node_size s))" and T: "cursor_pos b s = 0"
    and mode: "node_io_mode s = MODE_WRITE" and buf: "buf \<noteq> []"
    and bound: "unat (node_size s) + length buf + 2 * cluster_size b + 2 < 2 ^ 32"
  shows "\<exists>d' s' st n. node_write ms d b s (Some buf) = Some (d', s', st, n) \<and> fok d' \<and>
    (if st = IO_OKAY
     then n = length buf \<and> cursor_pos b s' = length buf \<and>
       (\<exists>cs'. written evalid dvalid b s cs (entry d, free d, block d) (entry d', free d', block d') s' cs' buf)
     else st = IO_DEV_ERROR \<and> n = 0 \<and> (\<forall>c. evalid c \<and> 2 \<le> unat c \<longrightarrow> \<not> free d' c))"
proof -
  let ?C = "cluster_size b" and ?sz = "unat (node_size s)" and ?N = "length buf"
  have C: "0 < ?C" using ex by (simp add: exact_size_def)
  have nf: "next_fits b cs s" using exact_size_clusters [OF ex] bound by (simp add: next_fits_def)
  have l: "(length cs - 1) * ?C \<le> ?sz + ?N" using ex by (cases cs) (simp_all add: exact_size_def)
  have start: "processed_clusters s = 0" "cluster_offset s = 0"
    using T C by (simp_all add: cursor_pos_def unat_eq_zero)
  obtain d1 s1 cs1 n r where lp: "write_loop ms b True buf d s 0 = Some (d1, s1, n, r)" "fok d1"
    "write_ok evalid dvalid (entry d1) (free d1) b cs1 s1" "same_file (node_entry s) (node_entry s1)"
    "node_io_mode s1 = node_io_mode s"
    "grown evalid dvalid (slot_cluster (node_entry s)) (entry d, free d, block d) (entry d1, free d1, block d1) cs cs1"
    "case r of
       None \<Rightarrow> n = ?N \<and> cursor_pos b s1 = cursor_pos b s + (?N - 0) \<and> write_pos b cs1 s1 \<and>
         (cs1 = cs \<or> (length cs1 - 1) * ?C < cursor_pos b s1) \<and>
         take (cursor_pos b s1) (concat (map (block d1) cs1)) = take (cursor_pos b s) (concat (map (block d) cs)) @ drop 0 buf
     | Some (st, m) \<Rightarrow> st = IO_DEV_ERROR \<and> m = 0 \<and> (\<forall>c. evalid c \<and> 2 \<le> unat c \<longrightarrow> \<not> free d1 c)"
    using write_loop_correct [OF ok w wp, of 0 buf True "?sz + ?N"] nf l bound T mode start by auto
  have en: "\<not> closed s" "node_has_attribute s NODE_FILE" using w by (simp_all add: write_ok_def)
  show ?thesis
  proof (cases r)
    case (Some a)
    then obtain st m where "r = Some (st, m)" by (cases a) simp
    then show ?thesis using lp(1,2,7) en mode buf start by (simp add: node_write_def Let_def)
  next
    case None
    have r: "n = ?N" "cursor_pos b s1 = ?N" "write_pos b cs1 s1" "cs1 = cs \<or> (length cs1 - 1) * ?C < ?N"
      "take ?N (concat (map (block d1) cs1)) = buf"
    proof -
      have c: "cursor_pos b s1 = ?N" using lp(7) T unfolding None by simp
      then show "n = ?N" "cursor_pos b s1 = ?N" "write_pos b cs1 s1" "cs1 = cs \<or> (length cs1 - 1) * ?C < ?N"
        "take ?N (concat (map (block d1) cs1)) = buf"
        using lp(7) unfolding None option.case T drop_0 c by simp_all
    qed
    let ?n = "of_nat ?N :: u32"
    have un: "unat ?n = ?N" using bound by (simp add: unat_of_nat)
    let ?s = "set_file_size s1 ?n"
    have sz1: "node_size s1 = node_size s" using lp(4) by (simp add: same_file_def)
    have len: "?N \<le> length cs1 * ?C" using arg_cong [OF r(5), of length] by (simp add: length_bytes)
    have ws: "write_ok evalid dvalid (entry d1) (free d1) b cs1 ?s"
    proof -
      have "has_attribute (fentry (node_entry ?s)) = has_attribute (fentry (node_entry s1))"
        by (intro ext) (simp add: set_file_size_def has_attribute_def)
      then show ?thesis
        using lp(3) by (auto simp: write_ok_def slot_ok_def set_file_size_def cluster_of_def node_has_attribute_def)
    qed
    \<comment> \<open>the clusters after the file has been cut to its new size\<close>
    have shrink: "\<exists>d2 cs2. (if ?N < ?sz then shrink_file ms b d1 ?s else Some d1) = Some d2 \<and> fok d2 \<and>
        write_ok evalid dvalid (entry d2) (free d2) b cs2 ?s \<and> exact_size b cs2 ?N \<and>
        (\<exists>k. cs2 = take k cs1) \<and> (\<forall>c. evalid c \<and> c \<notin> set cs1 \<longrightarrow> entry d2 c = entry d1 c) \<and>
        (\<forall>c. dvalid c \<longrightarrow> block d2 c = block d1 c)"
    proof (cases "?N < ?sz")
      case False
      have "length cs1 * ?C < ?N + ?C" using r(4) ex C False by (cases cs1) (auto simp: exact_size_def)
      then show ?thesis using False lp(2) ws len
        by (intro exI [of _ d1] exI [of _ cs1]) (auto simp: exact_size_def intro!: exI [of _ "length cs1"])
    next
      case True
      let ?t = "size_clusters b ?s"
      have tv: "?t = (?N + (?C - 1)) div ?C"
      proof -
        have c: "unat (of_nat ?C :: u32) = ?C" using bound by (simp add: unat_of_nat)
        show ?thesis unfolding size_clusters_def node_size_set using bound C c un by (subst unat_div_round_up) simp_all
      qed
      have up: "?N \<le> ?t * ?C" "?t * ?C < ?N + ?C"
        using C div_mult_mod_eq [of "?N + (?C - 1)" ?C] mod_less_divisor [OF C, of "?N + (?C - 1)"] unfolding tv by linarith+
      have t0: "0 < ?t" using up(1) buf by (cases ?t) simp_all
      have "?t * ?C < Suc (length cs1) * ?C" using up(2) len by simp
      then have tl: "?t \<le> length cs1" by (simp only: mult_less_cancel2) simp
      have "length cs1 * ?C < ?sz + ?N + ?C" using r(4) ex True C by (cases cs1) (auto simp: exact_size_def)
      moreover have "length cs1 \<le> length cs1 * ?C" using C by simp
      ultimately have l1: "length cs1 < 2 ^ 32" using bound by linarith
      have nz: "0 < unat (node_size ?s)" using un buf by simp
      obtain d2 where "shrink_file ms b d1 ?s = Some d2" "fok d2"
        "write_ok evalid dvalid (entry d2) (free d2) b (take ?t cs1) ?s"
        "\<forall>c. evalid c \<and> c \<notin> set cs1 \<longrightarrow> entry d2 c = entry d1 c \<and> free d2 c = free d1 c"
        "\<forall>c. dvalid c \<longrightarrow> block d2 c = block d1 c"
        using shrink_file_chain [OF lp(2) ws nz refl t0 tl l1] by blast
      then show ?thesis
        using True up tl by (intro exI [of _ d2] exI [of _ "take ?t cs1"]) (auto simp: exact_size_def min_absorb2)
    qed
    then obtain d2 cs2 k where d2: "(if ?N < ?sz then shrink_file ms b d1 ?s else Some d1) = Some d2" "fok d2"
      "write_ok evalid dvalid (entry d2) (free d2) b cs2 ?s" "exact_size b cs2 ?N" "cs2 = take k cs1"
      "\<forall>c. evalid c \<and> c \<notin> set cs1 \<longrightarrow> entry d2 c = entry d1 c" "\<forall>c. dvalid c \<longrightarrow> block d2 c = block d1 c"
      by blast
    have idem: "set_file_size ?s ?n = ?s" by (simp add: set_file_size_def)
    obtain d3 where d3: "update_entry ms d2 b (node_entry ?s) = (d3, True)" "fok d3"
      "write_ok evalid dvalid (entry d3) (free d3) b cs2 ?s"
      "\<forall>c. evalid c \<longrightarrow> entry d3 c = entry d2 c \<and> free d3 c = free d2 c"
      "\<forall>c. dvalid c \<and> c \<noteq> slot_cluster (node_entry ?s) \<longrightarrow> block d3 c = block d2 c"
      using update_written [OF d2(2,3), of ?n] unfolding idem by blast
    have sl: "slot_cluster (node_entry ?s) = slot_cluster (node_entry s)"
      using lp(4) by (simp add: set_file_size_def same_file_def)
    have run: "node_write ms d b s (Some buf) = Some (d3, ?s, IO_OKAY, ?N)"
      using lp(1,5) en mode buf r(1) None d2(1) d3(1) un sz1 start
      by (cases "?N < ?sz") (simp_all add: node_write_def Let_def word_less_nat_alt)
    have cont: "file_bytes (block d3) cs2 ?N = buf"
    proof -
      have "\<forall>c \<in> set cs2. dvalid c \<and> c \<noteq> slot_cluster (node_entry ?s)" using d3(3) by (simp add: write_ok_def)
      then have "file_bytes (block d3) cs2 ?N = file_bytes (block d1) cs2 ?N"
        using d3(5) d2(7) by (intro file_bytes_cong) auto
      also have "\<dots> = file_bytes (block d1) cs1 ?N"
      proof -
        have "concat (map (block d1) cs1) = concat (map (block d1) cs2) @ concat (map (block d1) (drop k cs1))"
          unfolding d2(5) by (metis append_take_drop_id concat_append map_append)
        moreover have "?N \<le> length (concat (map (block d1) cs2))" using d2(4) by (simp add: exact_size_def length_bytes)
        ultimately show ?thesis by (simp add: file_bytes_def)
      qed
      finally show ?thesis using r(5) by (simp add: file_bytes_def)
    qed
    have fr: "entry d3 c = entry d c" if "evalid c" "c \<notin> set cs" "\<not> free d c" for c
      using that lp(6) d2(6) d3(4) by (auto simp: grown_def)
    have fb: "block d3 c = block d c" if "dvalid c" "c \<notin> set cs" "\<not> free d c" "c \<noteq> slot_cluster (node_entry s)" for c
      using that lp(6) d2(7) d3(5) unfolding sl by (auto simp: grown_def)
    have "cursor_pos b ?s = ?N" using r(2) by (simp add: set_file_size_def cursor_pos_def)
    then show ?thesis
      using run d3(2,3) un d2(4) cont fr fb
      by (intro exI [of _ d3] exI [of _ ?s] exI [of _ IO_OKAY] exI [of _ ?N]) (auto simp: written_def)
  qed
qed

end

section \<open>Properties of writing\<close>

abbreviation writable_on :: "nat \<Rightarrow> ('d \<Rightarrow> nat \<Rightarrow> u8) \<Rightarrow> boot_record \<Rightarrow> 'd \<Rightarrow> u32 list \<Rightarrow> fat_node \<Rightarrow> bool" where
  "writable_on n disk b d \<equiv> write_ok (entry_ok b) (data_ok n b) (table_entry disk b d) (table_free disk b d) b"

abbreviation written_on :: "nat \<Rightarrow> ('d \<Rightarrow> nat \<Rightarrow> u8) \<Rightarrow> boot_record \<Rightarrow> 'd \<Rightarrow> fat_node \<Rightarrow> u32 list \<Rightarrow> 'd \<Rightarrow> fat_node \<Rightarrow> u32 list \<Rightarrow> u8 list \<Rightarrow> bool" where
  "written_on n disk b d s cs d' \<equiv> written (entry_ok b) (data_ok n b) b s cs
     (table_entry disk b d, table_free disk b d, data_block disk b d) (table_entry disk b d', table_free disk b d', data_block disk b d')"

abbreviation disk_full :: "('d \<Rightarrow> nat \<Rightarrow> u8) \<Rightarrow> boot_record \<Rightarrow> 'd \<Rightarrow> bool" where
  "disk_full disk b d \<equiv> \<forall>c. entry_ok b c \<and> 2 \<le> unat c \<longrightarrow> \<not> table_free disk b d c"

text \<open>
  C29. Appending: a write in append mode with the cursor at the end of the file, where opening places it, adds the buffer
  behind the last byte of the file, in new clusters if it needs any, and leaves the clusters of all other files alone; it fails
  only when no cluster is free any more. After a seek the cursor is elsewhere, and the write overwrites the bytes it finds there.
  The file stays below 4 GiB and has as many clusters as its size needs.
\<close>

theorem node_write_appends:
  assumes "fat_volume ms ok disk n b" and "ok d" and "writable_on n disk b d cs s" and "write_pos b cs s"
    and "exact_size b cs (unat (node_size s))" and "cursor_pos b s = unat (node_size s)"
    and "node_io_mode s = MODE_APPEND" and "buf \<noteq> []" and "unat (node_size s) + length buf + cluster_size b + 2 < 2 ^ 32"
  shows "\<exists>d' s' st k. node_write ms d b s (Some buf) = Some (d', s', st, k) \<and> ok d' \<and>
    (if st = IO_OKAY
     then k = length buf \<and> cursor_pos b s' = unat (node_size s') \<and>
       (\<exists>cs'. write_pos b cs' s' \<and> written_on n disk b d s cs d' s' cs' (content disk b d cs s @ buf))
     else st = IO_DEV_ERROR \<and> k = 0 \<and> disk_full disk b d')"
  using ff.node_write_append [of ms ok disk n b d cs s buf] assms by blast

text \<open>
  C31. Replacing: a write at the start of a file in write mode makes the buffer the content of the file: clusters
  are added, or those behind the new end are freed. The clusters of all other files keep their entries and bytes.
\<close>

theorem node_write_replaces:
  assumes "fat_volume ms ok disk n b" and "ok d" and "writable_on n disk b d cs s" and "write_pos b cs s"
    and "exact_size b cs (unat (node_size s))" and "cursor_pos b s = 0"
    and "node_io_mode s = MODE_WRITE" and "buf \<noteq> []" and "unat (node_size s) + length buf + 2 * cluster_size b + 2 < 2 ^ 32"
  shows "\<exists>d' s' st k. node_write ms d b s (Some buf) = Some (d', s', st, k) \<and> ok d' \<and>
    (if st = IO_OKAY
     then k = length buf \<and> cursor_pos b s' = length buf \<and> (\<exists>cs'. written_on n disk b d s cs d' s' cs' buf)
     else st = IO_DEV_ERROR \<and> k = 0 \<and> disk_full disk b d')"
  using ff.node_write_replace [of ms ok disk n b d cs s buf] assms by blast

lemma demo_writable: "writable_on 12 (!) small_volume demo_disk [3] (demo_node mode)"
proof -
  have "data_ok 12 small_volume c \<and> c \<noteq> 2" if "entry_ok small_volume c" "2 \<le> unat c" "table_free (!) small_volume demo_disk c" for c
    using demo_free [OF that] by (auto simp: demo_sizes)
  moreover have "slot_cluster (node_entry (demo_node mode)) = 2" "slot_ok (data_ok 12 small_volume) small_volume (node_entry (demo_node mode))"
    by (simp_all add: demo_node_def demo_entry_def slot_ok_def demo_sizes new_file_entry_def)
  ultimately show ?thesis
    using demo_clusters demo_file by (simp add: write_ok_def demo_first demo_sizes)
qed

lemma node_write_appends_witness:
  "\<exists>d' s' st k. node_write ram_ops demo_disk small_volume (demo_node MODE_APPEND) (Some [60, 70]) = Some (d', s', st, k) \<and>
    length d' = 12 * 512"
proof -
  let ?s = "demo_node MODE_APPEND"
  have "exact_size small_volume [3] (unat (node_size ?s))" "cursor_pos small_volume ?s = unat (node_size ?s)"
    "unat (node_size ?s) + length [60, 70 :: u8] + cluster_size small_volume + 2 < 2 ^ 32"
    by (simp_all add: exact_size_def demo_first demo_sizes demo_cursor)
  then show ?thesis
    using node_write_appends [OF small_volume_ok demo_length demo_writable demo_cursor(2) _ _ demo_mode, of "[60, 70]"] by blast
qed

lemma node_write_replaces_witness:
  "\<exists>d' s' st k. node_write ram_ops demo_disk small_volume (demo_node MODE_WRITE) (Some [60, 70]) = Some (d', s', st, k) \<and>
    length d' = 12 * 512"
proof -
  let ?s = "demo_node MODE_WRITE"
  have "exact_size small_volume [3] (unat (node_size ?s))" "cursor_pos small_volume ?s = 0"
    "unat (node_size ?s) + length [60, 70 :: u8] + 2 * cluster_size small_volume + 2 < 2 ^ 32"
    by (simp_all add: exact_size_def demo_first demo_sizes demo_cursor)
  then show ?thesis
    using node_write_replaces [OF small_volume_ok demo_length demo_writable demo_cursor(2) _ _ demo_mode, of "[60, 70]"] by blast
qed

text \<open>
  A write in write mode that does not start at the beginning adds the number of its bytes to the size of the file
  even where it overwrites bytes of the file.
\<close>

lemma overwriting_grows_file:
  assumes v: "fat_volume ms ok disk n b" and d: "ok d" and w: "writable_on n disk b d cs s" and wp: "write_pos b cs s"
    and ex: "exact_size b cs (unat (node_size s))" and c: "cursor_pos b s + length buf \<le> unat (node_size s)"
    and m: "node_io_mode s = MODE_WRITE" "cluster_offset s \<noteq> 0" and buf: "buf \<noteq> []"
    and bound: "unat (node_size s) + length buf + cluster_size b + 2 < 2 ^ 32"
  shows "\<exists>d' s' st k. node_write ms d b s (Some buf) = Some (d', s', st, k) \<and>
    (st = IO_OKAY \<longrightarrow> node_size s' = node_size s + of_nat (length buf))"
proof -
  have nf: "next_fits b cs s" using exact_size_clusters [OF ex] bound by (simp add: next_fits_def)
  have l: "(length cs - 1) * cluster_size b \<le> unat (node_size s) + length buf"
    using ex by (cases cs) (simp_all add: exact_size_def)
  obtain d1 s1 k r where lp: "write_loop ms b False buf d s 0 = Some (d1, s1, k, r)" "same_file (node_entry s) (node_entry s1)"
    "node_io_mode s1 = node_io_mode s" "case r of None \<Rightarrow> k = length buf | Some (st, m) \<Rightarrow> st = IO_DEV_ERROR"
  proof -
    have p: "0 < length buf \<longrightarrow> next_fits b cs s \<and> (node_io_mode s = MODE_WRITE \<and> False \<longrightarrow> cluster_offset s = 0)"
      "cursor_pos b s + (length buf - 0) \<le> unat (node_size s) + length buf"
      "unat (node_size s) + length buf + 2 < 2 ^ 32" "0 \<le> length buf"
      using nf c bound by simp_all
    have q: "fat_volume ms ok disk n b \<and> ok d" using v d by simp
    show thesis
      using ff.write_loop_correct [OF q w wp p(1,4) l p(2,3)] that by (fastforce split: option.splits)
  qed
  have en: "\<not> closed s" "node_has_attribute s NODE_FILE" using w by (simp_all add: write_ok_def)
  have f: "(processed_clusters s = 0 \<and> cluster_offset s = 0) = False" using m(2) by simp
  show ?thesis
  proof (cases r)
    case (Some a)
    then show ?thesis using lp en m buf f by (cases a) (auto simp: node_write_def Let_def)
  next
    case None
    have sz: "node_size s1 = node_size s" using lp(2) by (simp add: same_file_def)
    have "unat (node_size s + of_nat (length buf)) = unat (node_size s) + length buf"
      using bound by (subst unat_plus_no_wrap) (simp_all add: unat_of_nat)
    then have "\<not> node_size s + of_nat (length buf) < node_size s" by (simp add: word_less_nat_alt)
    then show ?thesis
      using lp en m buf f None sz
      by (cases "update_entry ms d1 b (node_entry (set_file_size s1 (node_size s + of_nat (length buf))))")
         (auto simp: node_write_def Let_def)
  qed
qed

end
