(* ===== verification/Fat_Listing.thy ===== *)
theory Fat_Listing
  imports Fat_Directory Fat_Write
begin

text \<open>
  What the directory iterator promises: it lists the entries of a directory in their order, with their long
  names, and following a path is a lookup in the tree of these lists.
\<close>

section \<open>Directories as lists of entries\<close>

abbreviation entries_per_cluster :: "boot_record \<Rightarrow> nat" where "entries_per_cluster b \<equiv> cluster_size b div 32"

definition dir_slot :: "boot_record \<Rightarrow> (u32 \<Rightarrow> u8 list) \<Rightarrow> u32 list \<Rightarrow> nat \<Rightarrow> u8 list" where
  "dir_slot b blk cs i =
     take 32 (drop (32 * (i mod entries_per_cluster b)) (blk (cs ! (i div entries_per_cluster b))))"

definition dir_slots :: "boot_record \<Rightarrow> (u32 \<Rightarrow> u8 list) \<Rightarrow> u32 list \<Rightarrow> u8 list list" where
  "dir_slots b blk cs = map (dir_slot b blk cs) [0..<entries_per_cluster b * length cs]"

definition slot_location :: "boot_record \<Rightarrow> u32 list \<Rightarrow> nat \<Rightarrow> entry_location" where
  "slot_location b cs i =
     \<lparr>loc_cluster = cs ! (i div entries_per_cluster b), entry_idx = of_nat (i mod entries_per_cluster b)\<rparr>"

text \<open>The name in a run of \<open>k\<close> long file name entries, stored from its end to its start.\<close>

definition part_of :: "nat \<Rightarrow> nat \<Rightarrow> u8 list \<Rightarrow> string option" where
  "part_of n k r = lfn_part n k (lfn_chars (bytes_lfn r))"

fun lfn_name :: "nat \<Rightarrow> nat \<Rightarrow> u8 list list \<Rightarrow> string" where
  "lfn_name n (Suc k) (r # rs) = lfn_name n k rs @ the (part_of n (Suc k) r)"
| "lfn_name n _ _ = ''''"

fun lfn_run :: "nat \<Rightarrow> nat \<Rightarrow> u8 list list \<Rightarrow> bool" where
  "lfn_run n 0 rs = True"
| "lfn_run n (Suc k) [] = False"
| "lfn_run n (Suc k) (r # rs) = (low_nibble (r ! 0) = Suc k \<and> part_of n (Suc k) r \<noteq> None \<and> lfn_run n k rs)"

abbreviation lfn_count :: "u8 list \<Rightarrow> nat" where "lfn_count r \<equiv> low_nibble (r ! 0)"

text \<open>The listing of the entries from number \<open>i\<close> on: deleted entries are skipped, the first unused one ends it.\<close>

function listing :: "(nat \<Rightarrow> entry_location) \<Rightarrow> nat \<Rightarrow> u8 list list \<Rightarrow> located_entry list" where
  "listing loc i [] = []"
| "listing loc i (r # rs) =
     (let e = bytes_entry r
      in if is_empty_end e then []
         else if is_empty_middle e then listing loc (Suc i) rs
         else if attributes e = LONG_FILE_NAME then
           let n = lfn_count r
           in case drop n (r # rs) of
                [] \<Rightarrow> []
              | f # rest \<Rightarrow> \<lparr>file_name = lfn_name n n (r # rs), fentry = bytes_entry f, location = loc (i + n),
                    first_lfn_entry = loc i\<rparr> # listing loc (Suc (i + n)) rest
         else \<lparr>file_name = make_short_name e, fentry = e, location = loc i, first_lfn_entry = no_location\<rparr>
                # listing loc (Suc i) rs)"
  by pat_completeness auto

termination listing
proof (relation "measure (\<lambda>(loc, i, rs). length rs)")
  fix r :: "u8 list" and rs f rest and n :: nat
  assume "drop n (r # rs) = f # rest"
  then have "length (f # rest) = length (r # rs) - n" by (metis length_drop)
  then show "((loc, Suc (i + n), rest), loc, i, r # rs) \<in> measure (\<lambda>(loc, i, rs). length rs)" for loc i by simp
qed auto

text \<open>
  Directories that the iterator reads as intended: a deleted entry is not the last one of a cluster, the first
  unused entry not the first one of a further cluster, and the runs of long file name entries are complete.
\<close>

function dir_wf :: "nat \<Rightarrow> nat \<Rightarrow> u8 list list \<Rightarrow> bool" where
  "dir_wf m i [] = True"
| "dir_wf m i (r # rs) =
     (let e = bytes_entry r
      in if is_empty_end e then i = 0 \<or> i mod m \<noteq> 0
         else if is_empty_middle e then Suc i mod m \<noteq> 0 \<and> dir_wf m (Suc i) rs
         else if attributes e = LONG_FILE_NAME then
           let n = lfn_count r
           in (r ! 0) AND MASK_LAST_LFN_ENTRY = LAST_LFN_ENTRY \<and> n \<le> length rs \<and> lfn_run n n (r # rs) \<and>
              dir_wf m (Suc (i + n)) (drop n rs)
         else dir_wf m (Suc i) rs)"
  by pat_completeness auto

termination dir_wf
  by (relation "measure (\<lambda>(m, i, rs). length rs)") auto

text \<open>A used entry with the long file name entries before it: their number and the entry that is read.\<close>

definition run_length :: "u8 list \<Rightarrow> nat" where
  "run_length r = (if attributes (bytes_entry r) = LONG_FILE_NAME then lfn_count r else 0)"

definition run_ok :: "u8 list list \<Rightarrow> bool" where
  "run_ok rs \<longleftrightarrow> (attributes (bytes_entry (hd rs)) = LONG_FILE_NAME \<longrightarrow>
     hd rs ! 0 AND MASK_LAST_LFN_ENTRY = LAST_LFN_ENTRY \<and> lfn_count (hd rs) < length rs \<and>
     lfn_run (lfn_count (hd rs)) (lfn_count (hd rs)) rs)"

definition parsed_entry :: "(nat \<Rightarrow> entry_location) \<Rightarrow> nat \<Rightarrow> u8 list list \<Rightarrow> located_entry" where
  "parsed_entry loc i rs =
     (let n = lfn_count (hd rs); e = bytes_entry (hd rs)
      in if attributes e = LONG_FILE_NAME
         then \<lparr>file_name = lfn_name n n rs, fentry = bytes_entry (rs ! n), location = loc (i + n), first_lfn_entry = loc i\<rparr>
         else \<lparr>file_name = make_short_name e, fentry = e, location = loc i, first_lfn_entry = no_location\<rparr>)"

lemma dir_wf_Cons:
  assumes "\<not> is_empty_end (bytes_entry r)" and "\<not> is_empty_middle (bytes_entry r)"
  shows "dir_wf m i (r # rs) \<longleftrightarrow> run_ok (r # rs) \<and> dir_wf m (Suc (i + run_length r)) (drop (run_length r) rs)"
  using assms by (auto simp: run_ok_def run_length_def Let_def less_Suc_eq_le)

lemma listing_Cons:
  assumes "\<not> is_empty_end (bytes_entry r)" and "\<not> is_empty_middle (bytes_entry r)" and "run_ok (r # rs)"
  shows "listing loc i (r # rs) = parsed_entry loc i (r # rs) # listing loc (Suc (i + run_length r)) (drop (run_length r) rs)"
proof (cases "attributes (bytes_entry r) = LONG_FILE_NAME")
  case True
  let ?n = "lfn_count r"
  have "?n < length (r # rs)" using assms(3) True by (simp add: run_ok_def)
  then have d: "drop ?n (r # rs) = (r # rs) ! ?n # drop ?n rs" using Cons_nth_drop_Suc [of ?n "r # rs"] by simp
  show ?thesis
    using assms(1,2) True unfolding listing.simps parsed_entry_def run_length_def Let_def d by simp
next
  case False
  then show ?thesis using assms(1,2) by (simp add: parsed_entry_def run_length_def Let_def)
qed

lemma dir_wf_used:
  assumes "drop i S = r # drop (Suc i) S" and "\<not> is_empty_end (bytes_entry r)" and "\<not> is_empty_middle (bytes_entry r)"
    and "dir_wf m i (drop i S)"
  shows "run_ok (drop i S)" and "dir_wf m (Suc (i + run_length r)) (drop (Suc (i + run_length r)) S)"
  using assms(4) dir_wf_Cons [OF assms(2,3), of m i "drop (Suc i) S"] unfolding assms(1) by (simp_all add: add.commute)

lemma listing_used:
  assumes "drop i S = r # drop (Suc i) S" and "\<not> is_empty_end (bytes_entry r)" and "\<not> is_empty_middle (bytes_entry r)"
    and "run_ok (drop i S)"
  shows "listing loc i (drop i S) =
    parsed_entry loc i (drop i S) # listing loc (Suc (i + run_length r)) (drop (Suc (i + run_length r)) S)"
  using listing_Cons [OF assms(2,3), of "drop (Suc i) S" loc i] assms(4) unfolding assms(1) by (simp add: add.commute)

section \<open>The iterator\<close>

text \<open>The iterator stands at entry \<open>i\<close>.\<close>

definition at_slot :: "boot_record \<Rightarrow> (u32 \<Rightarrow> u8 list) \<Rightarrow> u32 list \<Rightarrow> nat \<Rightarrow> dir_iter \<Rightarrow> bool" where
  "at_slot b blk cs i it \<longleftrightarrow>
     i < entries_per_cluster b * length cs \<and> dir_state it = ITERATING \<and> dir_started it \<and>
     max_entries it = int (entries_per_cluster b) \<and> dir_index it = int (i mod entries_per_cluster b) \<and>
     dir_cluster it = cs ! (i div entries_per_cluster b) \<and> cluster_buf it = blk (cs ! (i div entries_per_cluster b))"

text \<open>The iterator still has to return \<open>es\<close>.\<close>

definition yields :: "boot_record \<Rightarrow> (u32 \<Rightarrow> u8 list) \<Rightarrow> u32 list \<Rightarrow> dir_iter \<Rightarrow> located_entry list \<Rightarrow> bool" where
  "yields b blk cs it es \<longleftrightarrow> dir_mode it = LIST_DIRECTORY \<and>
     (es = [] \<and> dir_state it = END_OF_DIRECTORY \<or>
      (\<exists>p. at_slot b blk cs p it \<and>
         es = dir_entry it # listing (slot_location b cs) (Suc p) (drop (Suc p) (dir_slots b blk cs)) \<and>
         dir_wf (entries_per_cluster b) (Suc p) (drop (Suc p) (dir_slots b blk cs))))"

text \<open>A directory on the volume with the clusters \<open>cs\<close>, starting at \<open>c\<close>.\<close>

definition dir_ok :: "(u32 \<Rightarrow> bool) \<Rightarrow> (u32 \<Rightarrow> bool) \<Rightarrow> (u32 \<Rightarrow> u32) \<Rightarrow> u32 list \<Rightarrow> u32 \<Rightarrow> bool" where
  "dir_ok evalid dvalid ent cs c \<longleftrightarrow>
     chain ent cs \<and> clusters_ok evalid cs \<and> (\<forall>c \<in> set cs. dvalid c) \<and> c = hd cs"

lemma slots_length [simp]: "length (dir_slots b blk cs) = entries_per_cluster b * length cs"
  by (simp add: dir_slots_def)

lemma slots_nth [simp]: "i < entries_per_cluster b * length cs \<Longrightarrow> dir_slots b blk cs ! i = dir_slot b blk cs i"
  by (simp add: dir_slots_def)

lemma slots_drop: "i < entries_per_cluster b * length cs \<Longrightarrow>
    drop i (dir_slots b blk cs) = dir_slot b blk cs i # drop (Suc i) (dir_slots b blk cs)"
  by (simp add: Cons_nth_drop_Suc [symmetric])

lemma lfn_order_byte: "lfn_order (bytes_lfn r) = r ! 0" by (simp add: bytes_lfn_def)

lemma entry_first_byte: "short_name (bytes_entry r) ! 0 = r ! 0" by (simp add: bytes_entry_def)

lemma here_at: "at_slot b blk cs i it \<Longrightarrow> here it = slot_location b cs i"
  by (simp add: here_def slot_location_def at_slot_def)

text \<open>A directory needs clusters that hold at least one entry, and not more than an entry location can name.\<close>

locale fat_dirs = fat_files +
  assumes room: "fok d \<Longrightarrow> 32 \<le> cluster_size b"
    and small_clusters: "fok d \<Longrightarrow> cluster_size b \<le> 2 ^ 20"

context fat_dirs begin

lemma per_cluster: "at_slot b blk cs i it \<Longrightarrow> 0 < entries_per_cluster b"
  by (cases "entries_per_cluster b = 0") (simp_all add: at_slot_def)

lemma cluster_index: "i < entries_per_cluster b * length cs \<Longrightarrow> i div entries_per_cluster b < length cs"
  by (cases "entries_per_cluster b = 0") (simp_all add: less_mult_imp_div_less mult.commute)

lemma current_at:
  assumes "at_slot b (block d) cs i it"
  shows "current_bytes it = Some (dir_slot b (block d) cs i)"
proof -
  let ?m = "entries_per_cluster b"
  have "i mod ?m + 1 \<le> ?m" using mod_less_divisor [OF per_cluster [OF assms], of i] by linarith
  then have "32 * (i mod ?m + 1) \<le> 32 * ?m" by (intro mult_le_mono2)
  also have "\<dots> \<le> cluster_size b" by simp
  finally have "int (32 * (i mod ?m + 1)) \<le> int (cluster_size b)" by (simp only: of_nat_le_iff)
  then have "32 * (int (i mod ?m) + 1) \<le> int (cluster_size b)" by (simp only: of_nat_mult of_nat_add) simp
  then show ?thesis using assms by (simp add: current_bytes_def at_slot_def dir_slot_def block_size nat_mult_distrib)
qed

lemma slot_cluster: "at_slot b blk cs i it \<Longrightarrow> i div entries_per_cluster b < length cs"
  by (simp add: at_slot_def cluster_index)

text \<open>Reading on at the end of a cluster; the index of the iterator does not matter there.\<close>

lemma next_cluster_slot:
  assumes "fok d" and dir: "dir_ok evalid dvalid (entry d) cs c" and a: "at_slot b (block d) cs i it"
    and e: "Suc i mod entries_per_cluster b = 0" and it': "it' = it\<lparr>dir_index := j\<rparr>"
  shows "if Suc i < entries_per_cluster b * length cs
         then at_slot b (block d) cs (Suc i) (get_next_cluster ms d b it') \<and>
              dir_mode (get_next_cluster ms d b it') = dir_mode it
         else get_next_cluster ms d b it' = it'\<lparr>dir_state := END_OF_DIRECTORY\<rparr>"
proof -
  let ?m = "entries_per_cluster b" and ?p = "i div entries_per_cluster b"
  have p: "?p < length cs" using slot_cluster [OF a] .
  have ch: "chain (entry d) cs" "clusters_ok evalid cs" "\<forall>c \<in> set cs. dvalid c" using dir by (simp_all add: dir_ok_def)
  note nx = next_cluster [OF assms(1) ch(1,2) p]
  have d: "Suc i div ?m = Suc ?p" using e by (simp add: div_Suc)
  have i: "Suc i = ?m * Suc ?p" using e d by (metis add.right_neutral mult_div_mod_eq)
  have iff: "Suc i < ?m * length cs \<longleftrightarrow> Suc ?p < length cs" unfolding i using per_cluster [OF a] by (simp only: mult_less_cancel1) simp
  have st: "dir_started it" "dir_cluster it = cs ! ?p" "max_entries it = int ?m" "dir_state it = ITERATING"
    using a by (simp_all add: at_slot_def)
  show ?thesis
  proof (cases "Suc ?p < length cs")
    case True
    have "\<not> MAX_CLUSTER_COUNT < cs ! Suc ?p"
      using nx True by (simp add: in_chain_def MAX_CLUSTER_COUNT_def word_less_nat_alt)
    moreover have "data_cluster_read ms d b (cs ! Suc ?p) = Some (block d (cs ! Suc ?p))"
      using True ch(3) by (simp add: read_block [OF assms(1)])
    ultimately show ?thesis
      using True nx(2) iff st d e by (simp add: get_next_cluster_def it' at_slot_def Let_def)
  next
    case False
    then have "MAX_CLUSTER_COUNT < fat_read ms d b (cs ! ?p)"
      using nx(1) by (simp add: in_chain_def MAX_CLUSTER_COUNT_def word_less_nat_alt)
    then show ?thesis using False iff st by (simp add: get_next_cluster_def it' Let_def)
  qed
qed

lemma same_cluster:
  assumes "at_slot b (block d) cs i it" and "Suc i mod entries_per_cluster b \<noteq> 0"
  shows "Suc i < entries_per_cluster b * length cs"
proof -
  have "Suc i div entries_per_cluster b = i div entries_per_cluster b" using assms(2) by (simp add: div_Suc split: if_splits)
  then show ?thesis
    using slot_cluster [OF assms(1)] div_less_iff_less_mult [OF per_cluster [OF assms(1)], of "Suc i" "length cs"] by (simp add: mult.commute)
qed

lemma advance_slot:
  assumes a: "at_slot b (block d) cs i it" and e: "Suc i mod entries_per_cluster b \<noteq> 0"
  shows "\<exists>it'. advance it = Some it' \<and> dir_mode it' = dir_mode it \<and>
    (if dir_mode it = LIST_DIRECTORY \<and> is_empty_end (bytes_entry (dir_slot b (block d) cs (Suc i)))
     then dir_state it' = END_OF_DIRECTORY
     else at_slot b (block d) cs (Suc i) it' \<and> dir_entry it' = \<lparr>file_name = '''',
       fentry = bytes_entry (dir_slot b (block d) cs (Suc i)), location = slot_location b cs (Suc i),
       first_lfn_entry = no_location\<rparr>)"
proof -
  let ?m = "entries_per_cluster b" and ?it = "it\<lparr>dir_index := dir_index it + 1\<rparr>"
  have q: "Suc i div ?m = i div ?m" "Suc i mod ?m = Suc (i mod ?m)" using e by (simp_all add: div_Suc mod_Suc split: if_splits)
  have a': "at_slot b (block d) cs (Suc i) ?it" using a q same_cluster [OF a e] by (simp add: at_slot_def)
  show ?thesis using a' current_at [OF a'] here_at [OF a'] by (simp add: advance_def Let_def here_def at_slot_def)
qed

text \<open>The loop over the long file name entries stops at the entry of the file.\<close>

lemma lfn_loop_name:
  assumes "fok d" and dir: "dir_ok evalid dvalid (entry d) cs c"
  shows "at_slot b (block d) cs i it \<Longrightarrow> lfn_run n k (drop i (dir_slots b (block d) cs)) \<Longrightarrow>
    i + k < entries_per_cluster b * length cs \<Longrightarrow>
    \<exists>it'. lfn_loop ms d b n k it nm = Some (it', lfn_name n k (drop i (dir_slots b (block d) cs)) @ nm) \<and>
      at_slot b (block d) cs (i + k) it' \<and> dir_mode it' = dir_mode it"
proof (induction k arbitrary: i it nm)
  case (Suc k)
  let ?m = "entries_per_cluster b" and ?r = "dir_slot b (block d) cs i" and ?it = "it\<lparr>dir_index := dir_index it + 1\<rparr>"
  have i: "i < ?m * length cs" "Suc i < ?m * length cs" "Suc i + k < ?m * length cs" using Suc.prems(3) by simp_all
  have run: "low_nibble (?r ! 0) = Suc k" "lfn_run n k (drop (Suc i) (dir_slots b (block d) cs))"
    using Suc.prems(2) i(1) by (simp_all add: slots_drop)
  obtain part where part: "lfn_part n (Suc k) (lfn_chars (bytes_lfn ?r)) = Some part"
    using Suc.prems(2) i(1) by (auto simp: slots_drop part_of_def)
  have nm: "lfn_name n (Suc k) (drop i (dir_slots b (block d) cs)) =
      lfn_name n k (drop (Suc i) (dir_slots b (block d) cs)) @ part"
    using i(1) part by (simp add: slots_drop part_of_def)
  have idx: "dir_index it = int (i mod ?m)" "max_entries it = int ?m" "dir_state it = ITERATING"
    using Suc.prems(1) by (simp_all add: at_slot_def)
  obtain it1 where it1: "at_slot b (block d) cs (Suc i) it1" "dir_mode it1 = dir_mode it"
    "lfn_loop ms d b n (Suc k) it nm = lfn_loop ms d b n k it1 (part @ nm)"
  proof (cases "Suc i mod ?m = 0")
    case True
    then have "max_entries it \<le> dir_index ?it" using idx mod_Suc [of i ?m] by (simp split: if_splits)
    moreover note next_cluster_slot [OF assms Suc.prems(1) True refl, of "dir_index it + 1"]
    ultimately show ?thesis
      using that [of "get_next_cluster ms d b ?it"] i(2) part run(1) idx(3)
      by (simp add: current_at [OF Suc.prems(1)] lfn_order_byte Let_def at_slot_def)
  next
    case False
    then have "\<not> max_entries it \<le> dir_index ?it"
      using idx mod_Suc [of i ?m] mod_less_divisor [OF per_cluster [OF Suc.prems(1)], of i] by (simp split: if_splits)
    moreover have "at_slot b (block d) cs (Suc i) ?it"
      using Suc.prems(1) False i(2) by (simp add: at_slot_def div_Suc mod_Suc split: if_splits)
    ultimately show ?thesis
      using that [of ?it] part run(1) by (simp add: current_at [OF Suc.prems(1)] lfn_order_byte Let_def)
  qed
  show ?case using Suc.IH [OF it1(1) run(2) i(3), of "part @ nm"] it1(2,3) nm by auto
qed simp

text \<open>The entry that the iterator parses.\<close>

lemma parse_used:
  assumes "fok d" and dir: "dir_ok evalid dvalid (entry d) cs c" and a: "at_slot b (block d) cs i it"
    and wf: "run_ok (drop i (dir_slots b (block d) cs))"
  shows "\<exists>it'. parse_used_file_entry ms d b it = Some it' \<and> dir_mode it' = dir_mode it \<and>
    at_slot b (block d) cs (i + run_length (dir_slot b (block d) cs i)) it' \<and>
    dir_entry it' = parsed_entry (slot_location b cs) i (drop i (dir_slots b (block d) cs))"
proof -
  let ?m = "entries_per_cluster b" and ?S = "dir_slots b (block d) cs" and ?r = "dir_slot b (block d) cs i"
  have i: "i < ?m * length cs" using a by (simp add: at_slot_def)
  note sl = slots_drop [OF i, of "block d"]
  show ?thesis
  proof (cases "attributes (bytes_entry ?r) = LONG_FILE_NAME")
    case False
    let ?it = "it\<lparr>dir_entry := \<lparr>file_name = make_short_name (bytes_entry ?r), fentry = bytes_entry ?r,
      location = here it, first_lfn_entry = no_location\<rparr>\<rparr>"
    have "at_slot b (block d) cs i ?it" using a by (simp add: at_slot_def)
    then show ?thesis using False here_at [OF a]
      by (simp add: parse_used_file_entry_def current_at [OF a] Let_def sl parsed_entry_def run_length_def)
  next
    case True
    let ?n = "lfn_count ?r"
    have w: "?r ! 0 AND MASK_LAST_LFN_ENTRY = LAST_LFN_ENTRY" "?n < length (drop i ?S)" "lfn_run ?n ?n (drop i ?S)"
      using wf True by (simp_all add: sl run_ok_def)
    have n: "i + ?n < ?m * length cs" using w(2) i by simp
    obtain it' where it': "lfn_loop ms d b ?n ?n it '''' = Some (it', lfn_name ?n ?n (drop i ?S))"
      "at_slot b (block d) cs (i + ?n) it'" "dir_mode it' = dir_mode it"
      using lfn_loop_name [OF assms(1) dir a w(3) n, of "''''"] by auto
    let ?it = "it'\<lparr>dir_entry := \<lparr>file_name = lfn_name ?n ?n (drop i ?S), fentry = bytes_entry (dir_slot b (block d) cs (i + ?n)),
      location = here it', first_lfn_entry = here it\<rparr>\<rparr>"
    have run: "parse_used_file_entry ms d b it = Some ?it"
      using True w(1) it' current_at [OF it'(2)]
      by (simp add: parse_used_file_entry_def current_at [OF a] Let_def entry_first_byte at_slot_def)
    have at: "at_slot b (block d) cs (i + ?n) ?it" using it'(2) by (simp add: at_slot_def)
    have nth: "drop i ?S ! ?n = dir_slot b (block d) cs (i + ?n)" using n by simp
    have hd: "hd (drop i ?S) = ?r" by (simp add: sl)
    have "dir_entry ?it = parsed_entry (slot_location b cs) i (drop i ?S)"
      using True here_at [OF a] here_at [OF it'(2)] by (simp add: parsed_entry_def hd nth Let_def)
    then show ?thesis using run at it'(3) True by (auto simp: run_length_def)
  qed
qed

lemma parse_entry:
  assumes "fok d" and dir: "dir_ok evalid dvalid (entry d) cs c" and a: "at_slot b (block d) cs i it"
    and mode: "dir_mode it = LIST_DIRECTORY"
    and used: "\<not> is_empty_end (bytes_entry (dir_slot b (block d) cs i))"
      "\<not> is_empty_middle (bytes_entry (dir_slot b (block d) cs i))"
    and wf: "dir_wf (entries_per_cluster b) i (drop i (dir_slots b (block d) cs))"
  shows "\<exists>it'. parse_used_file_entry ms d b it = Some it' \<and>
    yields b (block d) cs it' (listing (slot_location b cs) i (drop i (dir_slots b (block d) cs)))"
proof -
  let ?S = "dir_slots b (block d) cs" and ?r = "dir_slot b (block d) cs i"
  have i: "i < entries_per_cluster b * length cs" using a by (simp add: at_slot_def)
  note w = dir_wf_used [OF slots_drop [OF i] used wf]
  show ?thesis
    using parse_used [OF assms(1) dir a w(1)] mode listing_used [OF slots_drop [OF i] used w(1), of "slot_location b cs"] w(2)
    unfolding yields_def by auto
qed

text \<open>The rest of a step, from the entry that the iterator has moved to.\<close>

abbreviation settle where
  "settle d it \<equiv> case skip_empty it of None \<Rightarrow> None
     | Some it \<Rightarrow> if dir_state it \<noteq> ITERATING then Some it else parse_used_file_entry ms d b it"

lemma settle_entry:
  assumes "fok d" and dir: "dir_ok evalid dvalid (entry d) cs c"
  shows "at_slot b (block d) cs i it \<Longrightarrow> dir_mode it = LIST_DIRECTORY \<Longrightarrow>
    \<not> is_empty_end (bytes_entry (dir_slot b (block d) cs i)) \<Longrightarrow>
    dir_wf (entries_per_cluster b) i (drop i (dir_slots b (block d) cs)) \<Longrightarrow>
    \<exists>it'. settle d it = Some it' \<and>
      yields b (block d) cs it' (listing (slot_location b cs) i (drop i (dir_slots b (block d) cs)))"
proof (induction "entries_per_cluster b * length cs - i" arbitrary: i it)
  case 0
  then show ?case by (simp add: at_slot_def)
next
  case (Suc k)
  let ?m = "entries_per_cluster b" and ?S = "dir_slots b (block d) cs" and ?e = "bytes_entry (dir_slot b (block d) cs i)"
  note a = Suc.prems(1) and mode = Suc.prems(2) and ne = Suc.prems(3) and wf = Suc.prems(4)
  have i: "i < ?m * length cs" using a by (simp add: at_slot_def)
  show ?case
  proof (cases "is_empty_middle ?e")
    case False
    then have "skip_empty it = Some it" by (subst skip_empty.simps) (simp add: current_at [OF a])
    then show ?thesis
      using parse_entry [OF assms a mode ne False wf] a by (simp add: at_slot_def)
  next
    case True
    have w: "Suc i mod ?m \<noteq> 0" "dir_wf ?m (Suc i) (drop (Suc i) ?S)"
      using wf ne True by (simp_all add: slots_drop [OF i] Let_def)
    have li: "listing (slot_location b cs) i (drop i ?S) = listing (slot_location b cs) (Suc i) (drop (Suc i) ?S)"
      using ne True by (simp add: slots_drop [OF i] Let_def)
    obtain it' where it': "advance it = Some it'" "dir_mode it' = dir_mode it"
      "if is_empty_end (bytes_entry (dir_slot b (block d) cs (Suc i))) then dir_state it' = END_OF_DIRECTORY
       else at_slot b (block d) cs (Suc i) it'"
      using advance_slot [OF a w(1)] mode by (auto split: if_splits)
    have i1: "Suc i < ?m * length cs" using same_cluster [OF a w(1)] .
    have sk: "skip_empty it = (if dir_state it' \<noteq> ITERATING then Some it' else skip_empty it')"
      using True it'(1) by (subst skip_empty.simps) (simp add: current_at [OF a])
    show ?thesis
    proof (cases "is_empty_end (bytes_entry (dir_slot b (block d) cs (Suc i)))")
      case True
      then have "listing (slot_location b cs) i (drop i ?S) = []" by (simp add: li slots_drop [OF i1] Let_def)
      then show ?thesis using True it' mode by (simp add: sk yields_def)
    next
      case False
      then have at: "at_slot b (block d) cs (Suc i) it'" using it'(3) by simp
      have k: "k = ?m * length cs - Suc i" using Suc.hyps(2) by simp
      have "settle d it = settle d it'" using at by (simp add: sk at_slot_def)
      then show ?thesis using Suc.hyps(1) [OF k at _ False w(2)] it'(2) mode li by simp
    qed
  qed
qed

lemma next_entry_slot:
  assumes "fok d" and dir: "dir_ok evalid dvalid (entry d) cs c" and a: "at_slot b (block d) cs p it"
    and mode: "dir_mode it = LIST_DIRECTORY" and wf: "dir_wf (entries_per_cluster b) (Suc p) (drop (Suc p) (dir_slots b (block d) cs))"
  shows "\<exists>it'. next_entry ms d b it = Some it' \<and>
    yields b (block d) cs it' (listing (slot_location b cs) (Suc p) (drop (Suc p) (dir_slots b (block d) cs)))"
proof -
  let ?m = "entries_per_cluster b" and ?S = "dir_slots b (block d) cs"
  have it: "dir_state it = ITERATING" "max_entries it = int ?m" "dir_index it = int (p mod ?m)" "p < ?m * length cs"
    using a by (simp_all add: at_slot_def)
  have last: "max_entries it - 1 \<le> dir_index it \<longleftrightarrow> Suc p mod ?m = 0"
    using it(2,3) mod_less_divisor [OF per_cluster [OF a], of p] by (auto simp: mod_Suc split: if_splits)
  show ?thesis
  proof (cases "Suc p mod ?m = 0")
    case True
    let ?g = "get_next_cluster ms d b it"
    note g = next_cluster_slot [OF assms(1) dir a True, of it "dir_index it"]
    show ?thesis
    proof (cases "Suc p < ?m * length cs")
      case False
      then have "?g = it\<lparr>dir_state := END_OF_DIRECTORY\<rparr>" using g by simp
      then show ?thesis using False True last it mode by (simp add: next_entry_def yields_def)
    next
      case inside: True
      then have at: "at_slot b (block d) cs (Suc p) ?g" "dir_mode ?g = LIST_DIRECTORY" using g mode by simp_all
      have ne: "\<not> is_empty_end (bytes_entry (dir_slot b (block d) cs (Suc p)))"
        using wf True by (simp add: slots_drop [OF inside] Let_def split: if_splits)
      have "next_entry ms d b it = settle d ?g"
        using True last it at by (simp add: next_entry_def at_slot_def)
      then show ?thesis using settle_entry [OF assms(1) dir at ne wf] by simp
    qed
  next
    case False
    have i1: "Suc p < ?m * length cs" using same_cluster [OF a False] .
    obtain it' where it': "advance it = Some it'" "dir_mode it' = LIST_DIRECTORY"
      "if is_empty_end (bytes_entry (dir_slot b (block d) cs (Suc p))) then dir_state it' = END_OF_DIRECTORY
       else at_slot b (block d) cs (Suc p) it'"
      using advance_slot [OF a False] mode by (auto split: if_splits)
    show ?thesis
    proof (cases "is_empty_end (bytes_entry (dir_slot b (block d) cs (Suc p)))")
      case True
      then have "listing (slot_location b cs) (Suc p) (drop (Suc p) ?S) = []" by (simp add: slots_drop [OF i1] Let_def)
      then show ?thesis using False last it it' True by (simp add: next_entry_def yields_def)
    next
      case ne: False
      then have at: "at_slot b (block d) cs (Suc p) it'" using it'(3) by simp
      have "next_entry ms d b it = settle d it'"
        using False last it it'(1,2) at by (simp add: next_entry_def at_slot_def)
      then show ?thesis using settle_entry [OF assms(1) dir at it'(2) ne wf] by simp
    qed
  qed
qed

text \<open>The contract of the iterator.\<close>

lemma yields_next:
  assumes "fok d" and "dir_ok evalid dvalid (entry d) cs c" and "yields b (block d) cs it (e # es)"
  shows "has_next it" and "dir_entry it = e"
    and "\<exists>it'. next_entry ms d b it = Some it' \<and> yields b (block d) cs it' es"
  using assms(3) next_entry_slot [OF assms(1,2)] unfolding yields_def at_slot_def by auto

lemma yields_end: "yields b blk cs it [] \<Longrightarrow> dir_state it = END_OF_DIRECTORY"
  by (simp add: yields_def)

lemma new_iterator_yields:
  assumes "fok d" and dir: "dir_ok evalid dvalid (entry d) cs c"
    and wf: "dir_wf (entries_per_cluster b) 0 (dir_slots b (block d) cs)"
  shows "\<exists>it. new_iterator ms d b c LIST_DIRECTORY = Some it \<and>
    yields b (block d) cs it (listing (slot_location b cs) 0 (dir_slots b (block d) cs))"
proof -
  let ?m = "entries_per_cluster b" and ?S = "dir_slots b (block d) cs"
  have ch: "chain (entry d) cs" "clusters_ok evalid cs" "\<forall>c \<in> set cs. dvalid c" and c: "c = hd cs"
    using dir by (simp_all add: dir_ok_def)
  have ne: "cs \<noteq> []" using ch(1) by auto
  then have c0: "c = cs ! 0" "c \<in> set cs" using c by (simp_all add: hd_conv_nth)
  have "in_chain c" using below [OF assms(1)] ch(2) c0(2) by (simp add: clusters_ok_def)
  then have nm: "\<not> MAX_CLUSTER_COUNT < c" by (simp add: in_chain_def MAX_CLUSTER_COUNT_def word_less_nat_alt)
  have rd: "data_cluster_read ms d b c = Some (block d c)" using ch(3) c0(2) by (simp add: read_block [OF assms(1)])
  let ?it = "\<lparr>dir_mode = LIST_DIRECTORY, dir_state = ITERATING, dir_cluster = c, cluster_buf = block d c, max_entries = int ?m,
      dir_started = True, dir_index = - 1, dir_entry = no_entry\<rparr>"
  have new: "new_iterator ms d b c LIST_DIRECTORY = next_entry ms d b ?it"
    using nm rd by (simp add: new_iterator_def get_next_cluster_def Let_def)
  have m0: "0 < ?m * length cs" using room [OF assms(1)] ne by simp
  let ?zero = "?it\<lparr>dir_index := 0\<rparr>" and ?r = "dir_slot b (block d) cs 0"
  have a0: "at_slot b (block d) cs 0 ?zero" using m0 c0(1) by (simp add: at_slot_def)
  let ?one = "if is_empty_end (bytes_entry ?r) then ?zero\<lparr>dir_state := END_OF_DIRECTORY\<rparr>
    else ?zero\<lparr>dir_entry := \<lparr>file_name = '''', fentry = bytes_entry ?r, location = here ?zero, first_lfn_entry = no_location\<rparr>\<rparr>"
  have adv: "advance ?it = Some ?one" using current_at [OF a0] by (simp add: advance_def Let_def)
  have more: "\<not> max_entries ?it - 1 \<le> dir_index ?it" using room [OF assms(1)] by simp
  show ?thesis
  proof (cases "is_empty_end (bytes_entry ?r)")
    case True
    have "?S = ?r # drop (Suc 0) ?S" using slots_drop [OF m0, of "block d"] by simp
    then have "listing (slot_location b cs) 0 ?S = listing (slot_location b cs) 0 (?r # drop (Suc 0) ?S)" by (rule arg_cong)
    also have "\<dots> = []" using True by (simp add: Let_def)
    finally have "listing (slot_location b cs) 0 ?S = []" .
    moreover have "next_entry ms d b ?it = Some ?one" using True more adv by (simp add: next_entry_def)
    ultimately show ?thesis using True by (simp add: new yields_def)
  next
    case False
    then have at: "at_slot b (block d) cs 0 ?one" using a0 by (simp add: at_slot_def)
    have "next_entry ms d b ?it = settle d ?one" using False more adv by (simp add: next_entry_def)
    then show ?thesis using settle_entry [OF assms(1) dir at _ False] wf False by (simp add: new)
  qed
qed

lemma find_entry_lookup:
  assumes "fok d" and "dir_ok evalid dvalid (entry d) cs c"
  shows "yields b (block d) cs it es \<Longrightarrow> \<exists>it'. find_entry ms d b w it = Some it' \<and>
    (case find (\<lambda>e. file_name e = w) es of None \<Rightarrow> dir_state it' = END_OF_DIRECTORY
     | Some e \<Rightarrow> has_next it' \<and> dir_entry it' = e)"
proof (induction es arbitrary: it)
  case Nil
  then show ?case using yields_end by (subst find_entry.simps) fastforce
next
  case (Cons e es)
  note y = yields_next [OF assms Cons.prems]
  obtain it' where it': "next_entry ms d b it = Some it'" "yields b (block d) cs it' es" using y(3) by blast
  show ?case
  proof (cases "file_name e = w")
    case True
    then show ?thesis using y(1,2) by (subst find_entry.simps) simp
  next
    case False
    then have "find_entry ms d b w it = find_entry ms d b w it'" using y(1,2) it'(1) by (subst find_entry.simps) simp
    then show ?thesis using Cons.IH [OF it'(2)] False by simp
  qed
qed

end

section \<open>Paths\<close>

text \<open>The tree of directories: \<open>dir c\<close> lists the directory that starts at cluster \<open>c\<close>.\<close>

fun lookup :: "(u32 \<Rightarrow> located_entry list) \<Rightarrow> u32 \<Rightarrow> string list \<Rightarrow> nav_status \<times> located_entry" where
  "lookup dir c [] = (NAV_NOT_FOUND, no_entry)"
| "lookup dir c (w # ws) =
     (case find (\<lambda>e. file_name e = w) (dir c) of
        None \<Rightarrow> (NAV_NOT_FOUND, no_entry)
      | Some e \<Rightarrow>
          if ws = [] then (NAV_FOUND, e)
          else if attributes (fentry e) AND DIRECTORY = DIRECTORY then lookup dir (cluster_of (fentry e)) ws
          else (NAV_BAD_PATH, no_entry))"

text \<open>The directories that a lookup visits.\<close>

fun visited :: "(u32 \<Rightarrow> located_entry list) \<Rightarrow> u32 \<Rightarrow> string list \<Rightarrow> u32 list" where
  "visited dir c [] = []"
| "visited dir c (w # ws) = c #
     (case find (\<lambda>e. file_name e = w) (dir c) of
        None \<Rightarrow> []
      | Some e \<Rightarrow>
          if ws \<noteq> [] \<and> attributes (fentry e) AND DIRECTORY = DIRECTORY then visited dir (cluster_of (fentry e)) ws else [])"

text \<open>A directory with the clusters \<open>cs\<close> that the iterator reads as intended, and its listing.\<close>

definition good_dir ::
  "(u32 \<Rightarrow> bool) \<Rightarrow> (u32 \<Rightarrow> bool) \<Rightarrow> (u32 \<Rightarrow> u32) \<Rightarrow> (u32 \<Rightarrow> u8 list) \<Rightarrow> boot_record \<Rightarrow> u32 list \<Rightarrow> u32 \<Rightarrow> bool" where
  "good_dir evalid dvalid ent blk b cs c \<longleftrightarrow>
     dir_ok evalid dvalid ent cs c \<and> dir_wf (entries_per_cluster b) 0 (dir_slots b blk cs)"

definition entries_of :: "boot_record \<Rightarrow> (u32 \<Rightarrow> u8 list) \<Rightarrow> u32 list \<Rightarrow> located_entry list" where
  "entries_of b blk cs = listing (slot_location b cs) 0 (dir_slots b blk cs)"

text \<open>Reading a directory stream until it ends.\<close>

partial_function (option) read_stream ::
  "'d msd_ops \<Rightarrow> 'd \<Rightarrow> boot_record \<Rightarrow> dir_iter \<Rightarrow> (node_info list \<times> stream_status) option" where
  "read_stream ms d b it =
     do { (it, r) \<leftarrow> stream_next ms d b it;
          (case r of
             Inl st \<Rightarrow> Some ([], st)
           | Inr info \<Rightarrow> do { (infos, st) \<leftarrow> read_stream ms d b it; Some (info # infos, st) }) }"

declare read_stream.simps [code]

context fat_dirs begin

lemma navigate_to_lookup:
  assumes "fok d"
  shows "names \<noteq> [] \<Longrightarrow>
    \<forall>x \<in> set (visited (\<lambda>x. entries_of b (block d) (cls x)) c names). good_dir evalid dvalid (entry d) (block d) b (cls x) x \<Longrightarrow>
    navigate_to ms d b c names = Some (lookup (\<lambda>x. entries_of b (block d) (cls x)) c names)"
proof (induction names arbitrary: c)
  case (Cons w ws)
  let ?dir = "\<lambda>x. entries_of b (block d) (cls x)"
  have g: "dir_ok evalid dvalid (entry d) (cls c) c" "dir_wf (entries_per_cluster b) 0 (dir_slots b (block d) (cls c))"
    using Cons.prems(2) by (simp_all add: good_dir_def)
  obtain it where it: "new_iterator ms d b c LIST_DIRECTORY = Some it" "yields b (block d) (cls c) it (?dir c)"
    using new_iterator_yields [OF assms g] by (auto simp: entries_of_def)
  obtain it' where it': "find_entry ms d b w it = Some it'"
    "case find (\<lambda>e. file_name e = w) (?dir c) of None \<Rightarrow> dir_state it' = END_OF_DIRECTORY
     | Some e \<Rightarrow> has_next it' \<and> dir_entry it' = e"
    using find_entry_lookup [OF assms g(1) it(2)] by blast
  show ?case
  proof (cases "find (\<lambda>e. file_name e = w) (?dir c)")
    case None
    then show ?thesis using it(1) it' by simp
  next
    case (Some e)
    show ?thesis
    proof (cases "ws \<noteq> [] \<and> attributes (fentry e) AND DIRECTORY = DIRECTORY")
      case True
      then have "navigate_to ms d b (cluster_of (fentry e)) ws = Some (lookup ?dir (cluster_of (fentry e)) ws)"
        using Cons.prems(2) Some by (intro Cons.IH) simp_all
      then show ?thesis using True Some it(1) it' by simp
    next
      case False
      then show ?thesis using Some it(1) it' by auto
    qed
  qed
qed simp

lemma read_stream_lists:
  assumes "fok d" and "dir_ok evalid dvalid (entry d) cs c"
  shows "yields b (block d) cs it es \<Longrightarrow>
    read_stream ms d b it = Some (map info_of es, STREAM_END_OF_DIRECTORY)"
proof (induction es arbitrary: it)
  case Nil
  then show ?case using yields_end [OF Nil] by (subst read_stream.simps) (simp add: stream_next_def)
next
  case (Cons e es)
  note y = yields_next [OF assms Cons.prems]
  obtain it' where it': "next_entry ms d b it = Some it'" "yields b (block d) cs it' es" using y(3) by blast
  show ?case using y(1,2) it'(1) Cons.IH [OF it'(2)] by (subst read_stream.simps) (simp add: stream_next_def)
qed

end

interpretation fd: fat_dirs ms b "\<lambda>d. fat_volume ms ok disk n b \<and> ok d" "entry_ok b" "data_ok n b"
  "table_entry disk b" "table_free disk b" "data_block disk b" for ms b ok disk n
proof unfold_locales
  fix d :: 'a assume "fat_volume ms ok disk n b \<and> ok d"
  then have "cluster_size b = 512 * unat (sectors_per_cluster b)" "0 < unat (sectors_per_cluster b)"
    using fat_volumeD(4) [of ms ok disk n b] by (simp_all add: fat_volume_def)
  moreover have "unat (sectors_per_cluster b) < 2 ^ 8" using unsigned_less [of "sectors_per_cluster b"] by simp
  ultimately show "32 \<le> cluster_size b" "cluster_size b \<le> 2 ^ 20" by simp_all
qed

text \<open>A directory on the volume, in terms of the bytes of the device, and its listing.\<close>

definition directory_on :: "nat \<Rightarrow> ('d \<Rightarrow> nat \<Rightarrow> u8) \<Rightarrow> boot_record \<Rightarrow> 'd \<Rightarrow> u32 list \<Rightarrow> u32 \<Rightarrow> bool" where
  "directory_on n disk b d cs c \<longleftrightarrow>
     good_dir (entry_ok b) (data_ok n b) (table_entry disk b d) (data_block disk b d) b cs c"

definition list_dir :: "('d \<Rightarrow> nat \<Rightarrow> u8) \<Rightarrow> boot_record \<Rightarrow> 'd \<Rightarrow> u32 list \<Rightarrow> located_entry list" where
  "list_dir disk b d cs = entries_of b (data_block disk b d) cs"

lemma root_cluster_of: "cluster_of (root_dummy b) = root_cluster b"
  using cluster_of_set [of no_entry "root_cluster b"]
  by (simp add: cluster_of_def root_dummy_def set_first_cluster_def)

end
