(* ===== verification/Fat_Names.thy ===== *)
theory Fat_Names
  imports Fat_Driver Fat_Listing
begin

text \<open>
  Long file names: the entries that the driver writes for a name are read back as the name.
\<close>

section \<open>Bytes of entries\<close>

lemma byte_at_mask: "byte_at n off = ucast (take_bit 8 (drop_bit off n))"
proof -
  have "x AND 0xFF = take_bit 8 x" for x :: "'a::len word" by (simp add: take_bit_eq_mask mask_eq_exp_minus_1)
  then show ?thesis by (simp add: byte_at_def)
qed

lemma byte_at_word16:
  "byte_at (push_bit 8 (ucast y) OR ucast x :: u16) 0 = x" "byte_at (push_bit 8 (ucast y) OR ucast x :: u16) 8 = y"
  unfolding byte_at_mask by (rule bit_word_eqI, auto simp: bit_simps dest: bit_imp_le_length)+

lemma byte_at_word32:
  fixes w x y z :: u8
  defines "v \<equiv> push_bit 24 (ucast z) OR push_bit 16 (ucast y) OR push_bit 8 (ucast x) OR ucast w :: u32"
  shows "byte_at v 0 = w" "byte_at v 8 = x" "byte_at v 16 = y" "byte_at v 24 = z"
  unfolding byte_at_mask v_def by (rule bit_word_eqI, auto simp: bit_simps dest: bit_imp_le_length)+

lemma bytes16_join: "bytes16 (le_to_u16 (x # y # b)) = [x, y]"
  by (simp add: bytes16_def le_bytes16_def le_to_u16_def byte_at_word16)

lemma bytes32_join: "bytes32 (le_to_u32 (w # x # y # z # b)) = [w, x, y, z]"
  by (simp add: bytes32_def le_bytes32_def le_to_u32_def byte_at_word32)

lemma le_to_u16_bytes16 [simp]: "le_to_u16 (bytes16 v) = v"
  using byte_order_roundtrip_16 [of "[0, 0]" v] by (simp add: bytes16_def)

lemma le_to_u_append [simp]: "le_to_u16 (bytes16 v @ b) = v" "le_to_u32 (bytes32 k @ b) = k"
  using le_to_u16_bytes16 [of v] le_to_u32_bytes32 [of k]
  by (simp_all add: le_to_u16_def le_to_u32_def nth_append bytes16_def le_bytes16_def bytes32_def le_bytes32_def)

lemma length_bytes16 [simp]: "length (bytes16 v) = 2"
  by (simp add: bytes16_def le_bytes16_def)

text \<open>The casts between bytes and entries lose nothing.\<close>

lemma drop_pair: "k + 2 \<le> length r \<Longrightarrow> drop k r = r ! k # r ! Suc k # drop (k + 2) r"
  by (simp add: Cons_nth_drop_Suc)

lemma entry_bytes_entry: "length r = 32 \<Longrightarrow> entry_bytes (bytes_entry r) = r"
proof -
  assume l: "length r = 32"
  have p: "bytes16 (le_to_u16 (drop k r)) = [r ! k, r ! Suc k]" if "k + 2 \<le> 32" for k
    using drop_pair [of k r] that l by (simp add: bytes16_join)
  have q: "bytes32 (le_to_u32 (drop 28 r)) = [r ! 28, r ! 29, r ! 30, r ! 31]"
    using drop_pair [of 28 r] drop_pair [of 30 r] l by (simp add: bytes32_join)
  have "r = take 11 r @ map ((!) r) [11..<32]"
    by (rule nth_equalityI) (auto simp: l nth_append simp del: upt_rec_numeral)
  also have "map ((!) r) [11..<32] = [r ! 11, r ! 12, r ! 13, r ! 14, r ! 15, r ! 16, r ! 17, r ! 18, r ! 19, r ! 20, r ! 21,
      r ! 22, r ! 23, r ! 24, r ! 25, r ! 26, r ! 27, r ! 28, r ! 29, r ! 30, r ! 31]"
    by (simp add: upt_rec)
  finally have "take 11 r @ [r ! 11, r ! 12, r ! 13, r ! 14, r ! 15, r ! 16, r ! 17, r ! 18, r ! 19, r ! 20, r ! 21,
      r ! 22, r ! 23, r ! 24, r ! 25, r ! 26, r ! 27, r ! 28, r ! 29, r ! 30, r ! 31] = r" by (rule sym)
  then show ?thesis by (simp add: entry_bytes_def bytes_entry_def p q)
qed

lemma bytes_entry_bytes: "length (short_name e) = 11 \<Longrightarrow> bytes_entry (entry_bytes e) = e"
  by (auto simp: bytes_entry_def entry_bytes_def nth_append)

section \<open>Names in long file name entries\<close>

lemma u16s_bytes: "u16s (concat (map bytes16 us)) = us"
proof (induction us)
  case (Cons u us)
  have "bytes16 u = [bytes16 u ! 0, bytes16 u ! 1]" by (rule nth_equalityI) (auto simp: less_2_cases_iff)
  then have "u16s (bytes16 u @ b) = le_to_u16 (bytes16 u) # u16s b" for b by (metis append_Cons append_Nil u16s.simps(1))
  then show ?case using Cons by simp
qed simp

lemma length_units: "length (concat (map bytes16 us)) = 2 * length us"
  by (induction us) simp_all

lemma lfn_length:
  "length (file_name_1 e) = 5 \<Longrightarrow> length (file_name_2 e) = 6 \<Longrightarrow> length (file_name_3 e) = 2 \<Longrightarrow> length (lfn_bytes e) = 32"
  by (simp add: lfn_bytes_def length_units)

lemma bytes_lfn_bytes:
  "length (file_name_1 e) = 5 \<Longrightarrow> length (file_name_2 e) = 6 \<Longrightarrow> length (file_name_3 e) = 2 \<Longrightarrow> bytes_lfn (lfn_bytes e) = e"
  by (auto simp: bytes_lfn_def lfn_bytes_def nth_append length_units u16s_bytes)

lemma sizes_lfn:
  assumes "length chars = 13"
  shows "length (file_name_1 (make_lfn_entry chars order cks)) = 5" "length (file_name_2 (make_lfn_entry chars order cks)) = 6"
    "length (file_name_3 (make_lfn_entry chars order cks)) = 2"
  using assms by (simp_all add: make_lfn_entry_def Let_def)

text \<open>The entry with 13 characters, as bytes.\<close>

definition lfn_raw :: "u8 list \<Rightarrow> u8 \<Rightarrow> u8 \<Rightarrow> u8 list" where
  "lfn_raw chars order cks = lfn_bytes (make_lfn_entry chars order cks)"

lemma lfn_raw_facts:
  assumes "length chars = 13"
  shows "length (lfn_raw chars order cks) = 32" and "lfn_raw chars order cks ! 0 = order"
    and "attributes (bytes_entry (lfn_raw chars order cks)) = LONG_FILE_NAME"
    and "lfn_chars (bytes_lfn (lfn_raw chars order cks)) = map (\<lambda>x. char_of (unat x)) chars"
proof -
  note sz = sizes_lfn [OF assms, of order cks]
  show "length (lfn_raw chars order cks) = 32" unfolding lfn_raw_def by (rule lfn_length [OF sz])
  show "lfn_raw chars order cks ! 0 = order" by (simp add: lfn_raw_def lfn_bytes_def make_lfn_entry_def Let_def)
  show "attributes (bytes_entry (lfn_raw chars order cks)) = LONG_FILE_NAME"
    using sz(1) by (simp add: bytes_entry_def lfn_raw_def lfn_bytes_def nth_append length_units)
       (simp add: make_lfn_entry_def Let_def)
  have low: "unat (the (byte_get (scast x :: u16) 0)) = unat x" for x :: u8
  proof -
    have "(scast x :: u16) AND 0xFF = take_bit 8 (scast x)" by (simp add: take_bit_eq_mask mask_eq_exp_minus_1)
    also have "\<dots> = ucast x"
    proof (rule bit_word_eqI)
      fix k assume "k < LENGTH(16)"
      then show "bit (take_bit 8 (scast x :: u16)) k = bit (ucast x :: u16) k"
        using bit_imp_le_length [of x k] by (cases "k < 7"; cases "k = 7") (auto simp: bit_simps)
    qed
    finally have "(scast x :: u16) AND 0xFF = ucast x" .
    then show ?thesis by (simp add: byte_get_def shift_right_def unat_ucast_up)
  qed
  have parts: "take 5 us @ take 6 (drop 5 us) @ drop 11 us = us" for us :: "u16 list"
    using append_take_drop_id [of 6 "drop 5 us"] append_take_drop_id [of 5 us] by simp
  show "lfn_chars (bytes_lfn (lfn_raw chars order cks)) = map (\<lambda>x. char_of (unat x)) chars"
    unfolding lfn_raw_def bytes_lfn_bytes [OF sz] lfn_chars_def
    using assms by (simp add: make_lfn_entry_def Let_def parts low del: take_map drop_map map_append)
qed

text \<open>
  The raw entries for a name in a buffer \<open>tmp\<close> with \<open>n\<close> pieces of 13 characters: from order \<open>k\<close> down to 1.
\<close>

definition lfn_piece :: "u8 list \<Rightarrow> nat \<Rightarrow> u8 list" where
  "lfn_piece tmp k = take 13 (drop (13 * (k - 1)) tmp)"

definition lfn_ordinal :: "nat \<Rightarrow> nat \<Rightarrow> u8" where
  "lfn_ordinal n k = (if k = n then LAST_LFN_ENTRY OR of_nat k else of_nat k)"

fun lfn_raws :: "u8 list \<Rightarrow> u8 \<Rightarrow> nat \<Rightarrow> nat \<Rightarrow> u8 list list" where
  "lfn_raws tmp cks n 0 = []"
| "lfn_raws tmp cks n (Suc k) = lfn_raw (lfn_piece tmp (Suc k)) (lfn_ordinal n (Suc k)) cks # lfn_raws tmp cks n k"

lemma length_lfn_raws [simp]: "length (lfn_raws tmp cks n k) = k"
  by (induction k) simp_all

lemma lfn_raws_nth: "i < k \<Longrightarrow> lfn_raws tmp cks n k ! i = lfn_raw (lfn_piece tmp (k - i)) (lfn_ordinal n (k - i)) cks"
proof (induction k arbitrary: i)
  case (Suc k)
  then show ?case by (cases i) auto
qed simp

lemma length_piece: "13 * n \<le> length tmp \<Longrightarrow> 0 < k \<Longrightarrow> k \<le> n \<Longrightarrow> length (lfn_piece tmp k) = 13"
proof -
  assume a: "13 * n \<le> length tmp" "0 < k" "k \<le> n"
  then have "13 * (k - 1) + 13 = 13 * k" by (cases k) auto
  moreover have "13 * k \<le> 13 * n" using a(3) by (rule mult_le_mono2)
  ultimately show ?thesis using a(1) by (simp add: lfn_piece_def)
qed

text \<open>What the loop of the driver writes into the first \<open>i\<close> entries of the list.\<close>

lemma fill_lfn_entries_raws:
  "13 * i \<le> length tmp \<Longrightarrow> i \<le> length out \<Longrightarrow> \<exists>out'. fill_lfn_entries tmp cks i ordinal out = Some out' \<and>
    length out' = length out \<and> (\<forall>j. i \<le> j \<and> j < length out \<longrightarrow> out' ! j = out ! j) \<and>
    (\<forall>j<i. out' ! j = (out ! j)\<lparr>fentry := bytes_entry (lfn_raw (lfn_piece tmp (i - j))
      (if j = 0 then LAST_LFN_ENTRY OR (ordinal + of_nat (i - 1)) else ordinal + of_nat (i - 1 - j)) cks)\<rparr>)"
proof (induction i arbitrary: tmp ordinal out)
  case (Suc i)
  let ?e = "lfn_raw (take 13 tmp) (if i = 0 then LAST_LFN_ENTRY OR ordinal else ordinal) cks"
  let ?out = "out[i := (out ! i)\<lparr>fentry := bytes_entry ?e\<rparr>]"
  have il: "i < length out" using Suc.prems(2) by simp
  obtain out' where out': "fill_lfn_entries (drop 13 tmp) cks i (ordinal + 1) ?out = Some out'" "length out' = length ?out"
    "\<forall>j. i \<le> j \<and> j < length ?out \<longrightarrow> out' ! j = ?out ! j"
    "\<forall>j<i. out' ! j = (?out ! j)\<lparr>fentry := bytes_entry (lfn_raw (lfn_piece (drop 13 tmp) (i - j))
      (if j = 0 then LAST_LFN_ENTRY OR (ordinal + 1 + of_nat (i - 1)) else ordinal + 1 + of_nat (i - 1 - j)) cks)\<rparr>"
  proof -
    have "13 * i \<le> length (drop 13 tmp)" "i \<le> length ?out" using Suc.prems by simp_all
    then show ?thesis using that Suc.IH [of "drop 13 tmp" ?out "ordinal + 1"] by blast
  qed
  have run: "fill_lfn_entries tmp cks (Suc i) ordinal out = Some out'"
    using out'(1) il by (simp add: lfn_raw_def Let_def)
  have piece: "lfn_piece (drop 13 tmp) (i - j) = lfn_piece tmp (Suc i - j)" if "j < i" for j
  proof -
    have "13 * (i - j - 1) + 13 = 13 * (Suc i - j - 1)" using that by (cases "i - j") (auto simp: Suc_diff_le)
    then show ?thesis by (simp add: lfn_piece_def drop_drop add.commute)
  qed
  have cnt: "ordinal + 1 + of_nat (i - 1 - j) = ordinal + of_nat (Suc i - 1 - j)" if "j < i" for j
  proof -
    have "Suc i - 1 - j = Suc (i - 1 - j)" using that by simp
    then show ?thesis by simp
  qed
  have "out' ! j = (out ! j)\<lparr>fentry := bytes_entry (lfn_raw (lfn_piece tmp (Suc i - j))
      (if j = 0 then LAST_LFN_ENTRY OR (ordinal + of_nat (Suc i - 1)) else ordinal + of_nat (Suc i - 1 - j)) cks)\<rparr>"
    if "j < Suc i" for j
  proof (cases "j = i")
    case True
    then show ?thesis using out'(3) il by (simp add: lfn_piece_def)
  next
    case False
    then have j: "j < i" using that by simp
    then show ?thesis using out'(4) cnt [OF j] cnt [of 0] piece [OF j] by simp
  qed
  then show ?case using run out'(2,3) by auto
qed auto

text \<open>Reading the entries back. \<open>n\<close> is at most 15 because the order of an entry is read from four bits.\<close>

lemma ordinal_facts:
  assumes "k < 16"
  shows "low_nibble (LAST_LFN_ENTRY OR of_nat k) = k" "low_nibble (of_nat k) = k"
    "(LAST_LFN_ENTRY OR of_nat k) AND MASK_LAST_LFN_ENTRY = LAST_LFN_ENTRY"
    "LAST_LFN_ENTRY OR of_nat k \<noteq> MARK_EMPTY_END" "LAST_LFN_ENTRY OR of_nat k \<noteq> MARK_EMPTY_MIDDLE"
proof -
  have "\<forall>k<16. low_nibble (LAST_LFN_ENTRY OR of_nat k) = k \<and> low_nibble (of_nat k) = k \<and>
    (LAST_LFN_ENTRY OR of_nat k) AND MASK_LAST_LFN_ENTRY = LAST_LFN_ENTRY \<and>
    LAST_LFN_ENTRY OR of_nat k \<noteq> MARK_EMPTY_END \<and> LAST_LFN_ENTRY OR of_nat k \<noteq> MARK_EMPTY_MIDDLE"
    by code_simp
  then show "low_nibble (LAST_LFN_ENTRY OR of_nat k) = k" "low_nibble (of_nat k) = k"
    "(LAST_LFN_ENTRY OR of_nat k) AND MASK_LAST_LFN_ENTRY = LAST_LFN_ENTRY"
    "LAST_LFN_ENTRY OR of_nat k \<noteq> MARK_EMPTY_END" "LAST_LFN_ENTRY OR of_nat k \<noteq> MARK_EMPTY_MIDDLE"
    using assms by blast+
qed

text \<open>Names that can be read back: at most 15 pieces, the last of which is not full.\<close>

definition storable_name :: "string \<Rightarrow> bool" where
  "storable_name nm \<longleftrightarrow> validate_long_name nm \<and> \<not> 13 dvd length nm \<and> length nm \<le> 195 \<and> CHR 0x00 \<notin> set nm"

definition piece_count :: "string \<Rightarrow> nat" where
  "piece_count nm = (length nm + MAX_CHAR_PER_ENTRY - 1) div MAX_CHAR_PER_ENTRY"

definition name_bytes :: "string \<Rightarrow> u8 list" where "name_bytes nm = map (\<lambda>c. of_nat (code c)) nm"

definition lfn_text :: "string \<Rightarrow> u8 list" where
  "lfn_text nm = name_bytes nm @ 0 # replicate (13 * piece_count nm - (length nm + 1)) 0xFF"


lemma char_of_bytes: "(char_of (0 :: nat) :: char) = CHR 0x00" "(char_of (255 :: nat) :: char) = CHR 0xFF"
  by code_simp+

lemma text_of_name: "map (\<lambda>x. char_of (unat x)) (name_bytes nm) = nm"
proof -
  have "unat (of_nat (code c) :: u8) = code c" for c :: char
    using nat_of_char_less_256 [of c] by (simp add: unat_of_nat)
  then show ?thesis by (simp add: name_bytes_def comp_def)
qed

lemma pieces_fit:
  assumes "storable_name nm"
  shows "13 * (piece_count nm - 1) < length nm" "length nm < 13 * piece_count nm" "piece_count nm < 16" "0 < piece_count nm"
proof -
  have p: "piece_count nm = (length nm + 12) div 13" by (simp add: piece_count_def MAX_CHAR_PER_ENTRY_def)
  have n: "0 < length nm" "length nm \<le> 195" "length nm mod 13 \<noteq> 0"
    using assms by (auto simp: storable_name_def dvd_eq_mod_eq_0 intro: ccontr)
  show "13 * (piece_count nm - 1) < length nm" "length nm < 13 * piece_count nm" "piece_count nm < 16" "0 < piece_count nm"
    using n unfolding p by presburger+
qed

lemma length_lfn_text: "storable_name nm \<Longrightarrow> length (lfn_text nm) = 13 * piece_count nm"
  using pieces_fit(2) [of nm] by (simp add: lfn_text_def name_bytes_def)

lemma name_char_facts:
  assumes "storable_name nm" and "c \<in> set nm"
  shows "\<not> is_padding c" and "code c < 128"
proof -
  have c: "c \<noteq> CHR 0x00" "c = CHR 0x00 \<or> is_name_char c \<or> c \<in> set ''.+,;=[]''"
    using assms by (auto simp: storable_name_def validate_long_name_def list_all_iff split: if_splits)
  then have "is_name_char c \<or> c \<in> set ''.+,;=[]''" by blast
  then show "code c < 128" by (auto simp: is_name_char_def)
  moreover have "code c \<noteq> 0" using c(1) char_of_bytes(1) by (metis char_of_char)
  ultimately show "\<not> is_padding c" by (simp add: is_padding_def)
qed

lemma piece_text:
  assumes s: "storable_name nm" and k: "0 < k" "k \<le> piece_count nm"
  shows "part_of (piece_count nm) k (lfn_raw (lfn_piece (lfn_text nm) k) order cks) =
    Some (take 13 (drop (13 * (k - 1)) nm))"
proof -
  let ?n = "piece_count nm" and ?ch = "map (\<lambda>x :: u8. char_of (unat x) :: char)"
  let ?p = "lfn_piece (lfn_text nm) k"
  have len: "length ?p = 13" using length_piece [of ?n "lfn_text nm" k] k length_lfn_text [OF s] by simp
  have part: "part_of ?n k (lfn_raw ?p order cks) = lfn_part ?n k (?ch ?p)"
    by (simp add: part_of_def lfn_raw_facts(4) [OF len])
  have ch: "?ch ?p = take 13 (drop (13 * (k - 1)) (nm @ CHR 0x00 # replicate (13 * ?n - (length nm + 1)) (CHR 0xFF)))"
    unfolding lfn_piece_def lfn_text_def take_map [symmetric] drop_map [symmetric] map_append text_of_name
    by (simp add: map_replicate_const char_of_bytes)
  show ?thesis
  proof (cases "k = ?n")
    case True
    let ?l = "drop (13 * (?n - 1)) nm"
    have l: "?l \<noteq> []" using pieces_fit(1) [OF s] by simp
    have short: "length ?l < 13" using pieces_fit(2) [OF s] pieces_fit(4) [OF s] by (cases ?n) auto
    obtain pad where pad: "?ch ?p = ?l @ pad" "list_all is_padding pad"
    proof -
      have "?ch ?p = ?l @ take (13 - length ?l) (CHR 0x00 # replicate (13 * ?n - (length nm + 1)) (CHR 0xFF))"
        unfolding True ch [unfolded True] using pieces_fit(1) [OF s] short by simp
      moreover have "list_all is_padding (CHR 0x00 # replicate (13 * ?n - (length nm + 1)) (CHR 0xFF))"
        by (simp add: list_all_iff is_padding_def)
      ultimately show ?thesis using that by (metis list_all_iff in_set_takeD)
    qed
    have last: "\<not> is_padding (last ?l)" using name_char_facts(1) [OF s] l last_in_set [OF l] by (meson in_set_dropD)
    have "dropWhile is_padding (rev (?l @ pad)) = dropWhile is_padding (rev ?l)"
      unfolding rev_append by (rule dropWhile_append2) (use pad(2) in \<open>simp add: list_all_iff\<close>)
    also have "\<dots> = rev ?l" using last l by (cases "rev ?l") (auto simp: last_rev hd_rev [symmetric])
    finally have "rev (dropWhile is_padding (rev (?ch ?p))) = ?l" unfolding pad(1) by simp
    moreover have "\<not> list_all is_padding (?ch ?p)" unfolding pad(1) using last last_in_set [OF l] by (auto simp: list_all_iff)
    ultimately show ?thesis unfolding part lfn_part_def using True short by simp
  next
    case False
    then have "13 * k \<le> 13 * (?n - 1)" using k by (intro mult_le_mono2) simp
    then have fit: "13 * (k - 1) + 13 \<le> length nm" using pieces_fit(1) [OF s] k(1) by (cases k) auto
    then have "?ch ?p = take 13 (drop (13 * (k - 1)) nm)" unfolding ch by simp
    moreover have "hd (take 13 (drop 0 nm)) \<noteq> CHR '' ''" if "k = 1"
    proof -
      have "nm \<noteq> []" using fit by auto
      moreover have "hd nm \<noteq> CHR '' ''" using s by (auto simp: storable_name_def validate_long_name_def split: if_splits)
      ultimately show ?thesis by (cases nm) auto
    qed
    ultimately show ?thesis unfolding part lfn_part_def using False by auto
  qed
qed

lemma lfn_read_back:
  assumes s: "storable_name nm"
  shows "k \<le> piece_count nm \<Longrightarrow>
    lfn_run (piece_count nm) k (lfn_raws (lfn_text nm) cks (piece_count nm) k @ rest) \<and>
    lfn_name (piece_count nm) k (lfn_raws (lfn_text nm) cks (piece_count nm) k @ rest) = take (13 * k) nm"
proof (induction k)
  case (Suc k)
  let ?n = "piece_count nm"
  have len: "length (lfn_piece (lfn_text nm) (Suc k)) = 13"
    using length_piece [of ?n "lfn_text nm" "Suc k"] Suc.prems length_lfn_text [OF s] by simp
  have k: "Suc k < 16" using Suc.prems pieces_fit(3) [OF s] by simp
  have "low_nibble (lfn_ordinal ?n (Suc k)) = Suc k"
    using ordinal_facts(1,2) [OF k] unfolding lfn_ordinal_def by (cases "Suc k = ?n") (simp_all only: if_True if_False simp_thms)
  moreover have "take (13 * Suc k) nm = take (13 * k) nm @ take 13 (drop (13 * k) nm)"
    using take_add [of "13 * k" 13 nm] by (simp add: add.commute)
  ultimately show ?case
    using Suc piece_text [OF s, of "Suc k"] by (simp add: lfn_raw_facts(2) [OF len] del: of_nat_Suc)
qed simp

lemma raws_facts:
  assumes s: "storable_name nm"
  defines "n \<equiv> piece_count nm"
  shows "lfn_raws (lfn_text nm) cks n n ! 0 ! 0 = LAST_LFN_ENTRY OR of_nat n"
    and "attributes (bytes_entry (lfn_raws (lfn_text nm) cks n n ! 0)) = LONG_FILE_NAME"
    and "\<forall>r \<in> set (lfn_raws (lfn_text nm) cks n n). length r = 32"
proof -
  have n: "0 < n" "13 * n \<le> length (lfn_text nm)" using pieces_fit(4) [OF s] length_lfn_text [OF s] by (simp_all add: n_def)
  have len: "length (lfn_piece (lfn_text nm) (n - i)) = 13" if "i < n" for i using length_piece [OF n(2), of "n - i"] that by simp
  show "lfn_raws (lfn_text nm) cks n n ! 0 ! 0 = LAST_LFN_ENTRY OR of_nat n"
    "attributes (bytes_entry (lfn_raws (lfn_text nm) cks n n ! 0)) = LONG_FILE_NAME"
    using lfn_raw_facts(2,3) [OF len [OF n(1)]] n(1) by (simp_all add: lfn_raws_nth lfn_ordinal_def)
  show "\<forall>r \<in> set (lfn_raws (lfn_text nm) cks n n). length r = 32"
    using lfn_raw_facts(1) [OF len] by (auto simp: in_set_conv_nth lfn_raws_nth)
qed

text \<open>The run of entries for a name, followed by the entry of the file, is one entry of a listing.\<close>

lemma name_entry:
  assumes s: "storable_name nm" and raws_def: "raws = lfn_raws (lfn_text nm) cks (piece_count nm) (piece_count nm)"
  shows "run_length (hd raws) = piece_count nm" and "run_ok (raws @ f # rest)"
    and "\<not> is_empty_end (bytes_entry (hd raws))" and "\<not> is_empty_middle (bytes_entry (hd raws))"
    and "parsed_entry loc i (raws @ f # rest) = \<lparr>file_name = nm, fentry = bytes_entry f, location = loc (i + piece_count nm),
      first_lfn_entry = loc i\<rparr>"
proof -
  let ?n = "piece_count nm"
  note n = pieces_fit [OF s] and o = ordinal_facts [OF pieces_fit(3) [OF s]]
  have l: "length raws = ?n" by (simp add: raws_def)
  then have hd: "hd raws = raws ! 0" "hd (raws @ xs) = raws ! 0" for xs
    using n(4) by (simp_all add: hd_conv_nth hd_append nth_append)
      (metis hd_conv_nth length_0_conv less_irrefl)+
  have b: "raws ! 0 ! 0 = LAST_LFN_ENTRY OR of_nat ?n" "attributes (bytes_entry (raws ! 0)) = LONG_FILE_NAME"
    using raws_facts(1,2) [OF s] by (simp_all add: raws_def)
  have cnt: "lfn_count (raws ! 0) = ?n" using b(1) o(1) by simp
  note r = lfn_read_back [OF s order.refl, of cks "f # rest", folded raws_def]
  show "run_length (hd raws) = ?n" using b(2) cnt by (simp add: run_length_def hd)
  show "run_ok (raws @ f # rest)" using b cnt r o(3) by (simp add: run_ok_def hd l)
  show "\<not> is_empty_end (bytes_entry (hd raws))" "\<not> is_empty_middle (bytes_entry (hd raws))"
    using o(4,5) by (simp_all add: is_empty_end_def is_empty_middle_def entry_first_byte hd b(1))
  have "(raws @ f # rest) ! ?n = f" by (simp add: nth_append l)
  moreover have "take (13 * ?n) nm = nm" using n(2) by simp
  ultimately show "parsed_entry loc i (raws @ f # rest) = \<lparr>file_name = nm, fentry = bytes_entry f,
      location = loc (i + ?n), first_lfn_entry = loc i\<rparr>"
    using b(2) cnt r by (simp add: parsed_entry_def hd Let_def)
qed

lemma fill_name_entries:
  assumes s: "storable_name nm" and out: "length out = Suc (piece_count nm)"
  shows "\<exists>out'. fill_lfn_entries (lfn_text nm) cks (piece_count nm) 1 out = Some out' \<and> length out' = Suc (piece_count nm) \<and>
    out' ! piece_count nm = last out \<and>
    (\<forall>j<piece_count nm. out' ! j = (out ! j)\<lparr>fentry := bytes_entry (lfn_raws (lfn_text nm) cks (piece_count nm) (piece_count nm) ! j)\<rparr>)"
proof -
  let ?n = "piece_count nm" and ?raws = "lfn_raws (lfn_text nm) cks (piece_count nm) (piece_count nm)"
  have len: "13 * ?n \<le> length (lfn_text nm)" "?n \<le> length out" using length_lfn_text [OF s] out by simp_all
  have "1 + of_nat (?n - 1) = (of_nat ?n :: u8)" using pieces_fit(4) [OF s] by (cases ?n) auto
  moreover have "1 + of_nat (?n - 1 - j) = (of_nat (?n - j) :: u8)" if "j < ?n" for j
  proof -
    have "?n - j = Suc (?n - 1 - j)" using that by simp
    then show ?thesis by (simp only: of_nat_Suc)
  qed
  ultimately have "\<exists>out'. fill_lfn_entries (lfn_text nm) cks ?n 1 out = Some out' \<and> length out' = length out \<and>
      (\<forall>j. ?n \<le> j \<and> j < length out \<longrightarrow> out' ! j = out ! j) \<and> (\<forall>j<?n. out' ! j = (out ! j)\<lparr>fentry := bytes_entry (?raws ! j)\<rparr>)"
    using fill_lfn_entries_raws [OF len, of cks 1] by (fastforce simp: lfn_raws_nth lfn_ordinal_def)
  moreover have "last out = out ! ?n" using out by (metis last_conv_nth diff_Suc_1 length_0_conv nat.distinct(1))
  ultimately show ?thesis using out by auto
qed

lemma lfn_buffer_text:
  assumes "storable_name nm"
  shows "lfn_buffer nm (of_nat (Suc (piece_count nm))) = Some (lfn_text nm)"
proof -
  have u: "unat (of_nat (Suc (piece_count nm)) :: u16) = Suc (piece_count nm)"
    using pieces_fit(3) [OF assms] by (simp only: unat_of_nat) simp
  show ?thesis
    using pieces_fit(2) [OF assms] unfolding lfn_buffer_def u
    by (simp add: lfn_text_def name_bytes_def MAX_CHAR_PER_ENTRY_def mult.commute)
qed

text \<open>
  C28. Long names survive the directory: the entries that the driver fills in for a name, written to the
  directory and read by the iterator, give one entry with that name. This holds for valid names of at most 195
  characters whose number is not a multiple of 13.
\<close>

theorem long_name_roundtrip:
  assumes "storable_name nm" and "length out = Suc (piece_count nm)" and "length (short_name (fentry (last out))) = 11"
  shows "\<exists>tmp out'. lfn_buffer nm (of_nat (Suc (piece_count nm))) = Some tmp \<and>
    fill_lfn_entries tmp cks (piece_count nm) 1 out = Some out' \<and>
    map file_name (listing loc 0 (map (\<lambda>e. entry_bytes (fentry e)) out')) = [nm]"
proof -
  let ?n = "piece_count nm" and ?raws = "lfn_raws (lfn_text nm) cks (piece_count nm) (piece_count nm)"
  obtain out' where out': "fill_lfn_entries (lfn_text nm) cks ?n 1 out = Some out'" "length out' = Suc ?n"
    "out' ! ?n = last out" "\<forall>j<?n. out' ! j = (out ! j)\<lparr>fentry := bytes_entry (?raws ! j)\<rparr>"
    using fill_name_entries [OF assms(1,2)] by blast
  have "map (\<lambda>e. entry_bytes (fentry e)) out' = ?raws @ [entry_bytes (fentry (last out))]"
  proof (rule nth_equalityI)
    fix j assume "j < length (map (\<lambda>e. entry_bytes (fentry e)) out')"
    then consider "j < ?n" | "j = ?n" using out'(2) by fastforce
    then show "map (\<lambda>e. entry_bytes (fentry e)) out' ! j = (?raws @ [entry_bytes (fentry (last out))]) ! j"
      using out' raws_facts(3) [OF assms(1), of cks] by cases (auto simp: nth_append entry_bytes_entry)
  qed (simp add: out'(2))
  moreover have "listing loc 0 (?raws @ [f]) = [parsed_entry loc 0 (?raws @ [f])]" for f
  proof -
    have "?raws \<noteq> []" using pieces_fit(4) [OF assms(1)] by (metis length_lfn_raws less_irrefl list.size(3))
    then have "drop 0 (?raws @ [f]) = hd ?raws # drop (Suc 0) (?raws @ [f])" by (cases ?raws) auto
    then show ?thesis
      using listing_used [of 0 "?raws @ [f]" "hd ?raws" loc]
        name_entry(1,3,4) [OF assms(1) refl, of cks] name_entry(2) [OF assms(1) refl, of cks f "[]"] by simp
  qed
  ultimately show ?thesis using lfn_buffer_text [OF assms(1)] out'(1) name_entry(5) [OF assms(1) refl, of loc 0 cks _ "[]"] by simp
qed

lemma long_name_roundtrip_witness:
  "\<exists>tmp out'. lfn_buffer ''kernelsettings.cfg'' 3 = Some tmp \<and> fill_lfn_entries tmp 0x7A 2 1 (replicate 3 no_entry) = Some out' \<and>
    map file_name (listing (\<lambda>_. no_location) 0 (map (\<lambda>e. entry_bytes (fentry e)) out')) = [''kernelsettings.cfg'']"
proof -
  have "storable_name ''kernelsettings.cfg''" "piece_count ''kernelsettings.cfg'' = 2"
    by (code_simp, simp add: piece_count_def MAX_CHAR_PER_ENTRY_def)
  moreover have "length (short_name (fentry no_entry)) = 11" by (simp add: no_entry_def new_file_entry_def)
  ultimately show ?thesis
    using long_name_roundtrip [of "''kernelsettings.cfg''" "replicate 3 no_entry" "0x7A" "\<lambda>_. no_location"] by simp
qed

end
