(* ===== verification/Fat_Create.thy ===== *)
theory Fat_Create
  imports Fat_Names
begin

text \<open>
  Creating files in a directory with one cluster: the search for empty entries takes the first gap that is large
  enough, and the entries written there add one entry to the listing of the directory.
\<close>

section \<open>Gaps in a directory\<close>

definition empty_slot :: "u8 list \<Rightarrow> bool" where
  "empty_slot r \<longleftrightarrow> is_empty_end (bytes_entry r) \<or> is_empty_middle (bytes_entry r)"

text \<open>A directory as the driver leaves it: complete runs of entries, and nothing behind the first unused entry.\<close>

function tidy :: "u8 list list \<Rightarrow> bool" where
  "tidy [] = True"
| "tidy (r # rs) =
     (if is_empty_end (bytes_entry r) then \<forall>x \<in> set rs. is_empty_end (bytes_entry x)
      else if is_empty_middle (bytes_entry r) then tidy rs
      else run_ok (r # rs) \<and> \<not> empty_slot ((r # rs) ! run_length r) \<and> tidy (drop (run_length r) rs))"
  by pat_completeness auto

termination tidy
  by (relation "measure length") auto

text \<open>The first place where \<open>rng\<close> empty entries follow each other.\<close>

function first_gap :: "nat \<Rightarrow> u8 list list \<Rightarrow> nat option" where
  "first_gap rng [] = None"
| "first_gap rng (r # rs) =
     (if rng \<le> Suc (length rs) \<and> list_all empty_slot (take rng (r # rs)) then Some 0
      else if empty_slot r then map_option Suc (first_gap rng rs)
      else map_option ((+) (Suc (run_length r))) (first_gap rng (drop (run_length r) rs)))"
  by pat_completeness auto

termination first_gap
  by (relation "measure (\<lambda>(rng, rs). length rs)") auto

text \<open>What the iterator returns in the mode that includes empty entries.\<close>

definition slot_entry :: "(nat \<Rightarrow> entry_location) \<Rightarrow> nat \<Rightarrow> u8 list \<Rightarrow> located_entry" where
  "slot_entry loc i r = \<lparr>file_name = '''', fentry = bytes_entry r, location = loc i, first_lfn_entry = no_location\<rparr>"

function all_entries :: "(nat \<Rightarrow> entry_location) \<Rightarrow> nat \<Rightarrow> u8 list list \<Rightarrow> located_entry list" where
  "all_entries loc i [] = []"
| "all_entries loc i (r # rs) =
     (if empty_slot r then slot_entry loc i r # all_entries loc (Suc i) rs
      else parsed_entry loc i (r # rs) # all_entries loc (Suc (i + run_length r)) (drop (run_length r) rs))"
  by pat_completeness auto

termination all_entries
  by (relation "measure (\<lambda>(loc, i, rs). length rs)") auto

lemma tidy_empty: "tidy (r # rs) \<Longrightarrow> empty_slot r \<Longrightarrow> tidy rs"
proof -
  have "\<forall>x \<in> set xs. is_empty_end (bytes_entry x) \<Longrightarrow> tidy xs" for xs by (cases xs) auto
  then show "tidy (r # rs) \<Longrightarrow> empty_slot r \<Longrightarrow> tidy rs" by (auto simp: empty_slot_def split: if_splits)
qed

lemma tidy_used:
  assumes "tidy (r # rs)" and "\<not> empty_slot r"
  shows "run_ok (r # rs)" and "tidy (drop (run_length r) rs)" and "\<not> empty_slot ((r # rs) ! run_length r)"
    and "run_length r \<le> length rs"
proof -
  show "run_ok (r # rs)" "tidy (drop (run_length r) rs)" "\<not> empty_slot ((r # rs) ! run_length r)"
    using assms by (auto simp: empty_slot_def)
  then show "run_length r \<le> length rs" by (simp add: run_ok_def run_length_def less_Suc_eq_le)
qed

lemma parsed_used:
  assumes "tidy (r # rs)" and "\<not> empty_slot r"
  shows "\<not> is_empty_end (fentry (parsed_entry loc i (r # rs)))" and "\<not> is_empty_middle (fentry (parsed_entry loc i (r # rs)))"
  using tidy_used(3) [OF assms] assms(2)
  by (auto simp: parsed_entry_def run_length_def empty_slot_def Let_def)

text \<open>The first loop of the search as a function on the entries.\<close>

fun gather_list :: "nat \<Rightarrow> nat \<Rightarrow> located_entry list \<Rightarrow> located_entry list \<Rightarrow> nat \<times> located_entry list" where
  "gather_list rng f out [] = (f, out)"
| "gather_list rng f out (e # es) =
     (if f < rng then
        (if \<not> is_empty_end (fentry e) \<and> \<not> is_empty_middle (fentry e) then gather_list rng 0 [] es
         else gather_list rng (Suc f) (out @ [e]) es)
      else (f, out))"

lemma gather_full: "gather_list rng rng out es = (rng, out)"
  by (cases es) simp_all

lemma gather_slot:
  "empty_slot r \<Longrightarrow> f < rng \<Longrightarrow>
    gather_list rng f out (slot_entry loc i r # es) = gather_list rng (Suc f) (out @ [slot_entry loc i r]) es"
  by (auto simp: slot_entry_def empty_slot_def)

lemma gather_gap:
  "tidy rs \<Longrightarrow> f \<le> rng \<Longrightarrow> rng - f \<le> length rs \<Longrightarrow> list_all empty_slot (take (rng - f) rs) \<Longrightarrow>
    gather_list rng f out (all_entries loc i rs) =
      (rng, out @ map (\<lambda>j. slot_entry loc (i + j) (rs ! j)) [0..<rng - f])"
proof (induction "rng - f" arbitrary: f rs i out)
  case 0
  then show ?case by (simp add: gather_full)
next
  case (Suc k)
  obtain r rs' where rs: "rs = r # rs'" using Suc.hyps(2) Suc.prems(3) by (cases rs) auto
  have f: "rng - f = Suc k" "f < rng" "rng - Suc f = k" using Suc.hyps(2) by simp_all
  have r: "empty_slot r" "list_all empty_slot (take k rs')" using Suc.prems(4) by (simp_all add: rs f(1))
  have t: "tidy rs'" using tidy_empty r(1) Suc.prems(1) unfolding rs by blast
  have "gather_list rng (Suc f) (out @ [slot_entry loc i r]) (all_entries loc (Suc i) rs') =
      (rng, (out @ [slot_entry loc i r]) @ map (\<lambda>j. slot_entry loc (Suc i + j) (rs' ! j)) [0..<k])"
    using Suc.hyps(1) [of "Suc f" rs' "out @ [slot_entry loc i r]" "Suc i"] t Suc.prems(3) r f by (simp add: rs)
  moreover have "map (\<lambda>j. slot_entry loc (i + j) (rs ! j)) [0..<Suc k] =
      slot_entry loc i r # map (\<lambda>j. slot_entry loc (Suc i + j) (rs' ! j)) [0..<k]"
    unfolding upt_conv_Cons [OF zero_less_Suc] map_Suc_upt [symmetric] by (simp add: rs)
  ultimately show ?case using r(1) f by (simp add: rs gather_slot del: upt_Suc gather_list.simps)
qed

lemma gather_first_gap:
  "tidy rs \<Longrightarrow> f < rng \<Longrightarrow> \<not> (rng - f \<le> length rs \<and> list_all empty_slot (take (rng - f) rs)) \<Longrightarrow> first_gap rng rs = Some g \<Longrightarrow>
    gather_list rng f out (all_entries loc i rs) = (rng, map (\<lambda>j. slot_entry loc (i + g + j) (rs ! (g + j))) [0..<rng])"
proof (induction rng rs arbitrary: f out i g rule: first_gap.induct)
  case (2 rng r rs)
  note t = "2.prems"(1) and f = "2.prems"(2) and no = "2.prems"(3) and gap = "2.prems"(4)
  have no0: "\<not> (rng \<le> Suc (length rs) \<and> list_all empty_slot (take rng (r # rs)))"
  proof
    assume "rng \<le> Suc (length rs) \<and> list_all empty_slot (take rng (r # rs))"
    moreover have "list_all empty_slot (take (rng - f) (r # rs))" if "list_all empty_slot (take rng (r # rs))"
      using that set_take_subset_set_take [of "rng - f" rng "r # rs"] by (auto simp: list_all_iff)
    moreover have "rng - f \<le> rng" by simp
    ultimately show False using no le_trans [of "rng - f" rng "length (r # rs)"] by auto
  qed
  show ?case
  proof (cases "empty_slot r")
    case True
    then obtain g' where g': "first_gap rng rs = Some g'" "g = Suc g'" using gap no0 by auto
    have e: "all_entries loc i (r # rs) = slot_entry loc i r # all_entries loc (Suc i) rs" using True by simp
    have lt: "Suc f < rng"
    proof (rule ccontr)
      assume "\<not> Suc f < rng"
      then have "rng - f = 1" using f by simp
      then show False using no True by simp
    qed
    have k: "rng - f = Suc (rng - Suc f)" using f by simp
    have no': "\<not> (rng - Suc f \<le> length rs \<and> list_all empty_slot (take (rng - Suc f) rs))"
      using no True unfolding k by simp
    have "gather_list rng (Suc f) (out @ [slot_entry loc i r]) (all_entries loc (Suc i) rs) =
        (rng, map (\<lambda>j. slot_entry loc (Suc i + g' + j) (rs ! (g' + j))) [0..<rng])"
      using "2.IH"(1) [OF no0 True tidy_empty [OF t True] lt no' g'(1)] .
    then show ?thesis using True f by (simp add: g'(2) gather_slot del: gather_list.simps)
  next
    case False
    let ?rs = "drop (run_length r) rs"
    obtain g' where g': "first_gap rng ?rs = Some g'" "g = Suc (run_length r) + g'" using gap no0 False by auto
    have e: "all_entries loc i (r # rs) = parsed_entry loc i (r # rs) # all_entries loc (Suc (i + run_length r)) ?rs"
      using False by simp
    have step: "gather_list rng f out (all_entries loc i (r # rs)) =
        gather_list rng 0 [] (all_entries loc (Suc (i + run_length r)) ?rs)"
      using parsed_used [OF t False] f unfolding e by simp
    have nth: "(r # rs) ! (g + j) = ?rs ! (g' + j)" for j
      using tidy_used(4) [OF t False] by (simp add: g'(2) add.assoc)
    have i: "i + g + j = Suc (i + run_length r) + g' + j" for j by (simp add: g'(2))
    show ?thesis
    proof (cases "rng \<le> length ?rs \<and> list_all empty_slot (take rng ?rs)")
      case True
      then have "g' = 0" using g'(1) f by (cases ?rs) auto
      then show ?thesis
        using gather_gap [OF tidy_used(2) [OF t False], of 0 rng "[]" loc "Suc (i + run_length r)"] True
        unfolding step nth i by simp
    next
      case no2: False
      then have n: "\<not> (rng - 0 \<le> length ?rs \<and> list_all empty_slot (take (rng - 0) ?rs))" "0 < rng" using f by simp_all
      show ?thesis
        using "2.IH"(2) [OF no0 False tidy_used(2) [OF t False] n(2,1) g'(1), of "[]" "Suc (i + run_length r)"]
        unfolding step nth i by simp
    qed
  qed
qed simp

section \<open>Filling a gap\<close>

lemma lfn_prefix: "take k xs = take k ys \<Longrightarrow> lfn_run n k xs = lfn_run n k ys \<and> lfn_name n k xs = lfn_name n k ys"
proof (induction k arbitrary: xs ys)
  case (Suc k)
  show ?case using Suc.IH [of "tl xs" "tl ys"] Suc.prems by (cases xs; cases ys) simp_all
qed simp

lemma used_prefix:
  assumes "run_length r \<le> length rs"
  shows "parsed_entry loc i (r # take (run_length r) rs @ zs) = parsed_entry loc i (r # rs)"
    and "run_ok (r # rs) \<Longrightarrow> run_ok (r # take (run_length r) rs @ zs)"
    and "(r # take (run_length r) rs @ zs) ! run_length r = (r # rs) ! run_length r"
proof -
  have nth: "(r # take k rs @ zs) ! k = (r # rs) ! k" if "k \<le> length rs" for k
    using that by (cases k) (auto simp: nth_append)
  have "take k (r # take k rs @ zs) = take k (r # rs)" if "k \<le> length rs" for k using that by (cases k) auto
  note p = lfn_prefix [OF this]
  show "(r # take (run_length r) rs @ zs) ! run_length r = (r # rs) ! run_length r" using nth assms .
  show "parsed_entry loc i (r # take (run_length r) rs @ zs) = parsed_entry loc i (r # rs)"
    using p [OF assms] nth [OF assms]
    by (cases "attributes (bytes_entry r) = LONG_FILE_NAME") (simp_all add: parsed_entry_def run_length_def Let_def)
  show "run_ok (r # rs) \<Longrightarrow> run_ok (r # take (run_length r) rs @ zs)"
    using p [OF assms] assms
    by (cases "attributes (bytes_entry r) = LONG_FILE_NAME") (simp_all add: run_ok_def run_length_def)
qed

lemma all_ends: "\<forall>x \<in> set rs. is_empty_end (bytes_entry x) \<Longrightarrow> listing loc i rs = [] \<and> tidy rs"
  by (cases rs) auto

lemma skip_gap:
  "tidy rs \<Longrightarrow> k \<le> length rs \<Longrightarrow> list_all empty_slot (take k rs) \<Longrightarrow>
    listing loc i rs = listing loc (i + k) (drop k rs) \<and> tidy (drop k rs) \<and>
    (dir_wf m i rs \<and> i + length rs \<le> m \<longrightarrow> dir_wf m (i + k) (drop k rs))"
proof (induction k arbitrary: rs i)
  case (Suc k)
  obtain r rs' where rs: "rs = r # rs'" using Suc.prems(2) by (cases rs) auto
  have r: "empty_slot r" using Suc.prems(3) by (simp add: rs)
  have t: "tidy rs'" using tidy_empty r Suc.prems(1) unfolding rs by blast
  show ?case
  proof (cases "is_empty_end (bytes_entry r)")
    case False
    then have "is_empty_middle (bytes_entry r)" using r by (simp add: empty_slot_def)
    then show ?thesis using Suc.IH [OF t, of "Suc i"] Suc.prems False by (simp add: rs Let_def)
  next
    case True
    then have "\<forall>x \<in> set rs'. is_empty_end (bytes_entry x)" using Suc.prems(1) by (simp add: rs)
    then have e: "\<forall>x \<in> set (drop k rs'). is_empty_end (bytes_entry x)" by (meson in_set_dropD)
    have "dir_wf m (Suc (i + k)) (drop k rs')" if "i + length rs \<le> m"
    proof (cases "drop k rs'")
      case (Cons z zs)
      then have "k < length rs'" by (metis drop_all leI list.distinct(1))
      then show ?thesis using that Cons e by (simp add: rs)
    qed simp
    then show ?thesis using True all_ends [OF e] by (simp add: rs Let_def)
  qed
qed simp

lemma first_gap_short: "length rs < rng \<Longrightarrow> first_gap rng rs = None"
  by (induction rng rs rule: first_gap.induct) auto

lemma first_gap_bound: "first_gap rng rs = Some g \<Longrightarrow> g + rng \<le> length rs"
proof (induction rng rs arbitrary: g rule: first_gap.induct)
  case (2 rng r rs)
  show ?case
  proof (cases "rng \<le> Suc (length rs) \<and> list_all empty_slot (take rng (r # rs))")
    case True
    then show ?thesis using "2.prems" by simp
  next
    case no: False
    show ?thesis
    proof (cases "empty_slot r")
      case True
      then show ?thesis using no "2.prems" "2.IH"(1) [OF no True] by auto
    next
      case False
      then obtain g' where g': "first_gap rng (drop (run_length r) rs) = Some g'" "g = Suc (run_length r) + g'"
        using no "2.prems" by auto
      have "g' + rng \<le> length (drop (run_length r) rs)" using "2.IH"(2) [OF no False g'(1)] .
      moreover have "run_length r \<le> length rs"
      proof (rule ccontr)
        assume "\<not> run_length r \<le> length rs"
        then show False using g'(1) by simp
      qed
      ultimately show ?thesis using g'(2) by simp
    qed
  qed
qed simp

text \<open>The entries of a name in the first gap add one entry to the listing.\<close>

lemma fill_gap:
  assumes s: "storable_name nm" and raws_def: "raws = lfn_raws (lfn_text nm) cks (piece_count nm) (piece_count nm)"
    and f: "\<not> empty_slot f"
  defines "new \<equiv> raws @ [f]"
  shows "tidy rs \<Longrightarrow> first_gap (Suc (piece_count nm)) rs = Some g \<Longrightarrow> i + length rs \<le> m \<Longrightarrow> dir_wf m i rs \<Longrightarrow>
    \<exists>xs ys. listing loc i rs = xs @ ys \<and>
      listing loc i (take g rs @ new @ drop (g + Suc (piece_count nm)) rs) =
        xs @ \<lparr>file_name = nm, fentry = bytes_entry f, location = loc (i + g + piece_count nm), first_lfn_entry = loc (i + g)\<rparr> # ys \<and>
      dir_wf m i (take g rs @ new @ drop (g + Suc (piece_count nm)) rs) \<and>
      tidy (take g rs @ new @ drop (g + Suc (piece_count nm)) rs)"
proof (induction "Suc (piece_count nm)" rs arbitrary: g i rule: first_gap.induct)
  case (2 r rs)
  let ?n = "piece_count nm" and ?rng = "Suc (piece_count nm)"
  have ln: "length raws = ?n" by (simp add: raws_def)
  obtain r0 raws' where r0: "raws = r0 # raws'" using ln pieces_fit(4) [OF s] by (cases raws) auto
  have nm: "run_length r0 = ?n" "run_ok (raws @ f # rest)" "\<not> is_empty_end (bytes_entry r0)" "\<not> is_empty_middle (bytes_entry r0)"
    "parsed_entry loc i (raws @ f # rest) = \<lparr>file_name = nm, fentry = bytes_entry f, location = loc (i + ?n),
      first_lfn_entry = loc i\<rparr>" for i rest
    using name_entry(1,3,4) [OF s raws_def] name_entry(2) [OF s raws_def, of f rest] name_entry(5) [OF s raws_def, of loc i f rest]
    by (simp_all add: r0)
  have lr: "length raws' = ?n - 1" using ln by (simp add: r0)
  have dr: "drop ?n (raws' @ f # rest) = rest" for rest using lr pieces_fit(4) [OF s] by simp
  have fl: "(raws @ f # rest) ! ?n = f" for rest using ln by (simp add: nth_append)
  note t = "2.prems"(1) and gap = "2.prems"(2) and lim = "2.prems"(3) and wf = "2.prems"(4)
  show ?case
  proof (cases "?rng \<le> Suc (length rs) \<and> list_all empty_slot (take ?rng (r # rs))")
    case True
    then have g: "g = 0" using gap by simp
    have sk: "listing loc i (r # rs) = listing loc (i + ?rng) (drop ?rng (r # rs))" "tidy (drop ?rng (r # rs))"
      "dir_wf m (i + ?rng) (drop ?rng (r # rs))"
      using skip_gap [OF t, of ?rng loc i m] True lim wf by simp_all
    let ?rest = "drop ?rng (r # rs)"
    have new: "take g (r # rs) @ new @ drop (g + ?rng) (r # rs) = r0 # raws' @ f # ?rest"
      by (simp add: g new_def r0)
    have ok: "run_ok (r0 # raws' @ f # ?rest)" using nm(2) by (simp add: r0)
    have li: "listing loc i (r0 # raws' @ f # ?rest) =
        \<lparr>file_name = nm, fentry = bytes_entry f, location = loc (i + ?n), first_lfn_entry = loc i\<rparr> #
        listing loc (i + ?rng) ?rest"
      using listing_Cons [OF nm(3,4) ok, of loc i] nm(5) [of i ?rest] unfolding nm(1) dr r0 append_Cons by simp
    have "dir_wf m i (r0 # raws' @ f # ?rest)"
      using dir_wf_Cons [OF nm(3,4), of m i "raws' @ f # ?rest"] ok sk(3) unfolding nm(1) dr by simp
    moreover have "tidy (r0 # raws' @ f # ?rest)"
      using nm(3,4) ok sk(2) f fl [of ?rest] unfolding tidy.simps nm(1) dr r0 append_Cons by simp
    ultimately show ?thesis
      unfolding new li sk(1) by (intro exI [of _ "[]"] exI [of _ "listing loc (i + ?rng) ?rest"]) (simp add: g del: listing.simps dir_wf.simps tidy.simps)
  next
    case no: False
    show ?thesis
    proof (cases "empty_slot r")
      case True
      then obtain g' where g': "first_gap ?rng rs = Some g'" "g = Suc g'" using gap no by auto
      have b: "?rng \<le> Suc (length rs)" using first_gap_bound [OF g'(1)] by simp
      have ne: "\<not> is_empty_end (bytes_entry r)"
      proof
        assume e: "is_empty_end (bytes_entry r)"
        then have "\<forall>x \<in> set (r # rs). empty_slot x" using t by (simp add: empty_slot_def)
        then have "list_all empty_slot (take ?rng (r # rs))" by (metis in_set_takeD list_all_iff)
        then show False using no b by simp
      qed
      then have mid: "is_empty_middle (bytes_entry r)" using True by (simp add: empty_slot_def)
      have w: "Suc i mod m \<noteq> 0" "dir_wf m (Suc i) rs" "tidy rs" "Suc i + length rs \<le> m"
        using wf t lim ne mid by (simp_all add: Let_def)
      show ?thesis
        using "2.hyps"(1) [OF no True w(3) g'(1) w(4,2)] ne mid w(1) by (simp add: g'(2) Let_def)
    next
      case False
      let ?k = "run_length r" let ?rs = "drop ?k rs"
      have ne: "\<not> is_empty_end (bytes_entry r)" "\<not> is_empty_middle (bytes_entry r)" using False by (simp_all add: empty_slot_def)
      obtain g' where g': "first_gap ?rng ?rs = Some g'" "g = Suc ?k + g'" using gap no False by auto
      note u = tidy_used [OF t False]
      have w: "dir_wf m (Suc (i + ?k)) ?rs" "Suc (i + ?k) + length ?rs \<le> m"
        using wf lim u(4) dir_wf_Cons [OF ne, of m i rs] by simp_all
      let ?zs = "take g' ?rs @ new @ drop (g' + ?rng) ?rs"
      obtain xs ys where ih: "listing loc (Suc (i + ?k)) ?rs = xs @ ys"
        "listing loc (Suc (i + ?k)) ?zs = xs @ \<lparr>file_name = nm, fentry = bytes_entry f,
            location = loc (Suc (i + ?k) + g' + ?n), first_lfn_entry = loc (Suc (i + ?k) + g')\<rparr> # ys"
        "dir_wf m (Suc (i + ?k)) ?zs" "tidy ?zs"
        using "2.hyps"(2) [OF no False u(2) g'(1) w(2,1)] by blast
      have new: "take g (r # rs) @ new @ drop (g + ?rng) (r # rs) = r # take ?k rs @ ?zs"
        using take_add [of ?k g' rs] by (simp add: g'(2) add.commute add.left_commute drop_drop)
      have dz: "drop ?k (take ?k rs @ ?zs) = ?zs" using u(4) by simp
      note p = used_prefix [OF u(4)]
      have ok: "run_ok (r # take ?k rs @ ?zs)" using p(2) u(1) by blast
      have "listing loc i (r # rs) = (parsed_entry loc i (r # rs) # xs) @ ys"
        using listing_Cons [OF ne u(1), of loc i] ih(1) by simp
      moreover have "listing loc i (r # take ?k rs @ ?zs) = (parsed_entry loc i (r # rs) # xs) @ \<lparr>file_name = nm,
          fentry = bytes_entry f, location = loc (i + g + ?n), first_lfn_entry = loc (i + g)\<rparr> # ys"
        using listing_Cons [OF ne ok, of loc i] ih(2) unfolding dz p(1) by (simp add: g'(2) add.assoc)
      moreover have "dir_wf m i (r # take ?k rs @ ?zs)" using dir_wf_Cons [OF ne, of m i "take ?k rs @ ?zs"] ok ih(3) dz by simp
      moreover have "tidy (r # take ?k rs @ ?zs)" using ne ok ih(4) u(3) p(3) unfolding tidy.simps dz by simp
      ultimately show ?thesis unfolding new by blast
    qed
  qed
qed simp

section \<open>Entries on the volume\<close>

lemma slots_put:
  assumes "length (blk c) = cluster_size b" and i: "i < entries_per_cluster b" and e: "length e = 32"
    and blk': "blk' c = take (32 * i) (blk c) @ e @ drop (32 * i + 32) (blk c)"
  shows "dir_slots b blk' [c] = (dir_slots b blk [c])[i := e]"
proof (rule nth_equalityI)
  let ?m = "entries_per_cluster b" and ?B = "blk c"
  show "length (dir_slots b blk' [c]) = length ((dir_slots b blk [c])[i := e])" by simp
  fix j assume "j < length (dir_slots b blk' [c])"
  then have j: "j < ?m" by simp
  have L: "32 * ?m \<le> length ?B" using assms(1) by simp
  have il: "32 * i + 32 \<le> length ?B" using i L by simp
  have s: "dir_slots b B [c] ! j = take 32 (drop (32 * j) (B c))" for B using j by (simp add: dir_slot_def)
  consider "j < i" | "j = i" | "i < j" by linarith
  then show "dir_slots b blk' [c] ! j = (dir_slots b blk [c])[i := e] ! j"
  proof cases
    case 1
    then obtain q where q: "32 * i = 32 * j + (32 + q)" using le_Suc_ex [of "32 * j + 32" "32 * i"] by auto
    then show ?thesis using 1 il by (simp add: s blk' nth_list_update drop_take)
  next
    case 2
    have "take 32 (drop (32 * i) (blk' c)) = e" using il e by (simp add: blk')
    then show ?thesis using s [of blk'] 2 j by simp
  next
    case 3
    then obtain q where q: "32 * j = 32 * i + 32 + q" using le_Suc_ex [of "32 * i + 32" "32 * j"] by auto
    then show ?thesis using 3 il e by (simp add: s blk' nth_list_update drop_drop add.commute)
  qed
qed

lemma bytes_entry_short: "length r = 32 \<Longrightarrow> length (short_name (bytes_entry r)) = 11"
  by (simp add: bytes_entry_def)

context fat_dirs begin

lemma single_slots: "length (dir_slots b (block d) [c]) = entries_per_cluster b"
  by simp

lemma slot_size: "r \<in> set (dir_slots b (block d) [c]) \<Longrightarrow> length r = 32"
proof -
  assume "r \<in> set (dir_slots b (block d) [c])"
  then obtain i where i: "i < entries_per_cluster b" "r = dir_slot b (block d) [c] i" by (auto simp: dir_slots_def)
  then have "32 * Suc i \<le> 32 * entries_per_cluster b" by (intro mult_le_mono2) simp
  then have "32 * i + 32 \<le> cluster_size b" by simp
  then show ?thesis using i by (simp add: dir_slot_def block_size)
qed

lemma index_word: "fok d \<Longrightarrow> i < entries_per_cluster b \<Longrightarrow> unat (of_nat i :: u16) = i"
  using small_clusters [of d] by (simp add: unat_of_nat)

text \<open>Updating an entry replaces its slot and leaves everything else on the volume alone.\<close>

lemma update_slot:
  assumes "fok d" and c: "dvalid c" and i: "i < entries_per_cluster b"
    and e: "location e = slot_location b [c] i" "length (short_name (fentry e)) = 11"
  shows "\<exists>d'. update_entry ms d b e = (d', True) \<and> fok d' \<and>
    dir_slots b (block d') [c] = (dir_slots b (block d) [c])[i := entry_bytes (fentry e)] \<and>
    (\<forall>c'. evalid c' \<longrightarrow> entry d' c' = entry d c' \<and> free d' c' = free d c') \<and>
    (\<forall>c'. dvalid c' \<and> c' \<noteq> c \<longrightarrow> block d' c' = block d c')"
proof -
  have l: "loc_cluster (location e) = c" "unat (entry_idx (location e)) = i"
    using i index_word [OF assms(1) i] by (simp_all add: e(1) slot_location_def)
  let ?B = "take (32 * i) (block d c) @ entry_bytes (fentry e) @ drop (32 * i + 32) (block d c)"
  have "32 * Suc i \<le> 32 * entries_per_cluster b" using i by (intro mult_le_mono2) simp
  then have le: "32 * i + 32 \<le> cluster_size b" by simp
  have len: "length ?B = cluster_size b"
    using le length_entry_bytes [OF e(2)] by (simp add: block_size)
  obtain d' where d': "data_cluster_write ms d b ?B c = (d', True)" "fok d'"
    "\<forall>c'. evalid c' \<longrightarrow> entry d' c' = entry d c' \<and> free d' c' = free d c'"
    "\<forall>c'. dvalid c' \<longrightarrow> block d' c' = (if c' = c then ?B else block d c')"
    using write_block [OF assms(1) c len] by blast
  have run: "update_entry ms d b e = (d', True)"
    using d'(1) by (simp add: update_entry_def l read_block [OF assms(1) c] Let_def)
  have sl: "dir_slots b (block d') [c] = (dir_slots b (block d) [c])[i := entry_bytes (fentry e)]"
    using d'(4) c by (intro slots_put [OF block_size i length_entry_bytes [OF e(2)]]) simp
  have "\<forall>c'. dvalid c' \<and> c' \<noteq> c \<longrightarrow> block d' c' = block d c'" using d'(4) by auto
  with run sl d'(2,3) show ?thesis by blast
qed

lemma update_slots:
  assumes c: "dvalid c"
  shows "fok d \<Longrightarrow> g + length es \<le> entries_per_cluster b \<Longrightarrow>
    \<forall>j<length es. location (es ! j) = slot_location b [c] (g + j) \<and> length (short_name (fentry (es ! j))) = 11 \<Longrightarrow>
    \<exists>d'. update_entries ms d b es = (d', True) \<and> fok d' \<and>
      dir_slots b (block d') [c] = take g (dir_slots b (block d) [c]) @ map (\<lambda>e. entry_bytes (fentry e)) es @
        drop (g + length es) (dir_slots b (block d) [c]) \<and>
      (\<forall>c'. evalid c' \<longrightarrow> entry d' c' = entry d c' \<and> free d' c' = free d c') \<and>
      (\<forall>c'. dvalid c' \<and> c' \<noteq> c \<longrightarrow> block d' c' = block d c')"
proof (induction es arbitrary: d g)
  case Nil
  then show ?case by auto
next
  case (Cons e es)
  have g: "g < entries_per_cluster b" using Cons.prems(2) by simp
  have e: "location e = slot_location b [c] g" "length (short_name (fentry e)) = 11" using Cons.prems(3) by fastforce+
  let ?S = "dir_slots b (block d) [c]"
  obtain d1 where d1: "update_entry ms d b e = (d1, True)" "fok d1" "dir_slots b (block d1) [c] = ?S[g := entry_bytes (fentry e)]"
    "\<forall>c'. evalid c' \<longrightarrow> entry d1 c' = entry d c' \<and> free d1 c' = free d c'"
    "\<forall>c'. dvalid c' \<and> c' \<noteq> c \<longrightarrow> block d1 c' = block d c'"
    using update_slot [OF Cons.prems(1) c g e] by blast
  have p: "Suc g + length es \<le> entries_per_cluster b" "\<forall>j<length es. location (es ! j) = slot_location b [c] (Suc g + j) \<and>
      length (short_name (fentry (es ! j))) = 11"
    using Cons.prems(2,3) by fastforce+
  obtain d' where d': "update_entries ms d1 b es = (d', True)" "fok d'"
    "dir_slots b (block d') [c] = take (Suc g) (dir_slots b (block d1) [c]) @ map (\<lambda>e. entry_bytes (fentry e)) es @
        drop (Suc g + length es) (dir_slots b (block d1) [c])"
    "\<forall>c'. evalid c' \<longrightarrow> entry d' c' = entry d1 c' \<and> free d' c' = free d1 c'"
    "\<forall>c'. dvalid c' \<and> c' \<noteq> c \<longrightarrow> block d' c' = block d1 c'"
    using Cons.IH [OF d1(2) p] by blast
  have "take (Suc g) (?S[g := x]) = take g ?S @ [x]" "drop (Suc g + k) (?S[g := x]) = drop (Suc g + k) ?S" for x k
    using g by (simp_all add: take_Suc_conv_app_nth)
  then have "dir_slots b (block d') [c] = take g ?S @ map (\<lambda>e. entry_bytes (fentry e)) (e # es) @ drop (g + length (e # es)) ?S"
    using d'(3) d1(3) by simp
  then show ?case using d1 d' by simp
qed

text \<open>The iterator in the mode that includes empty entries, in a directory with one cluster.\<close>

definition yields_all :: "'a \<Rightarrow> u32 \<Rightarrow> dir_iter \<Rightarrow> located_entry list \<Rightarrow> bool" where
  "yields_all d c it es \<longleftrightarrow> dir_mode it = LIST_ALL \<and> dir_cluster it = c \<and>
     (es = [] \<and> dir_state it = END_OF_DIRECTORY \<or>
      (\<exists>p. at_slot b (block d) [c] p it \<and> tidy (drop (Suc p) (dir_slots b (block d) [c])) \<and>
         es = dir_entry it # all_entries (slot_location b [c]) (Suc p) (drop (Suc p) (dir_slots b (block d) [c]))))"

lemma index_lt: "p < entries_per_cluster b \<Longrightarrow> Suc p mod entries_per_cluster b = 0 \<longleftrightarrow> Suc p = entries_per_cluster b"
  by (metis Suc_lessI dvd_imp_le mod_0_imp_dvd mod_less mod_self nat.distinct(1))

text \<open>What the step does once it has moved to entry \<open>i\<close>.\<close>

lemma arrive_all:
  assumes "fok d" and dir: "dir_ok evalid dvalid (entry d) [c] c" and a: "at_slot b (block d) [c] i it"
    and mode: "dir_mode it = LIST_ALL" and ent: "dir_entry it = slot_entry (slot_location b [c]) i (dir_slot b (block d) [c] i)"
    and t: "tidy (drop i (dir_slots b (block d) [c]))"
  shows "\<exists>it'. (if empty_slot (dir_slot b (block d) [c] i) then Some it else parse_used_file_entry ms d b it) = Some it' \<and>
    yields_all d c it' (all_entries (slot_location b [c]) i (drop i (dir_slots b (block d) [c])))"
proof -
  let ?S = "dir_slots b (block d) [c]" and ?r = "dir_slot b (block d) [c] i"
  have i: "i < entries_per_cluster b" using a by (simp add: at_slot_def)
  have sl: "drop i ?S = ?r # drop (Suc i) ?S" using slots_drop [of i b "[c]" "block d"] i by simp
  have cl: "dir_cluster it' = c" if "at_slot b (block d) [c] p it'" for p it' using that by (simp add: at_slot_def)
  show ?thesis
  proof (cases "empty_slot ?r")
    case True
    then have "tidy (drop (Suc i) ?S)" using t tidy_empty unfolding sl by blast
    then show ?thesis using True a mode ent cl [OF a] unfolding yields_all_def sl by auto
  next
    case False
    let ?k = "run_length ?r"
    note u = tidy_used [OF t [unfolded sl] False]
    have dd: "drop ?k (drop (Suc i) ?S) = drop (Suc (i + ?k)) ?S" by (simp add: add.commute)
    obtain it' where it': "parse_used_file_entry ms d b it = Some it'" "dir_mode it' = LIST_ALL"
      "at_slot b (block d) [c] (i + ?k) it'" "dir_entry it' = parsed_entry (slot_location b [c]) i (drop i ?S)"
      using parse_used [OF assms(1) dir a] u(1) mode unfolding sl by auto
    have "all_entries (slot_location b [c]) i (drop i ?S) =
        dir_entry it' # all_entries (slot_location b [c]) (Suc (i + ?k)) (drop (Suc (i + ?k)) ?S)"
      using False it'(4) unfolding sl by (simp add: add.commute [of i])
    then have "yields_all d c it' (all_entries (slot_location b [c]) i (drop i ?S))"
      using it'(2,3) u(2) cl [OF it'(3)] unfolding yields_all_def dd by blast
    then show ?thesis using False it'(1) by auto
  qed
qed

lemma advance_all:
  assumes "fok d" and dir: "dir_ok evalid dvalid (entry d) [c] c"
    and adv: "advance it = Some it1" and a: "at_slot b (block d) [c] i it1"
    and mode: "dir_mode it1 = LIST_ALL" "dir_mode it = LIST_ALL"
    and ent: "dir_entry it1 = slot_entry (slot_location b [c]) i (dir_slot b (block d) [c] i)"
    and t: "tidy (drop i (dir_slots b (block d) [c]))"
    and it: "dir_state it = ITERATING" "\<not> max_entries it - 1 \<le> dir_index it"
  shows "\<exists>it'. next_entry ms d b it = Some it' \<and>
    yields_all d c it' (all_entries (slot_location b [c]) i (drop i (dir_slots b (block d) [c])))"
proof -
  have st: "dir_state it1 = ITERATING" using a by (simp add: at_slot_def)
  have "next_entry ms d b it = (if empty_slot (dir_slot b (block d) [c] i) then Some it1 else parse_used_file_entry ms d b it1)"
    using it adv mode(1) st current_at [OF a] by (simp add: next_entry_def Let_def empty_slot_def)
  then show ?thesis using arrive_all [OF assms(1) dir a mode(1) ent t] by simp
qed

lemma yields_all_next:
  assumes "fok d" and dir: "dir_ok evalid dvalid (entry d) [c] c" and y: "yields_all d c it (e # es)"
  shows "has_next it" and "dir_entry it = e" and "\<exists>it'. next_entry ms d b it = Some it' \<and> yields_all d c it' es"
proof -
  let ?S = "dir_slots b (block d) [c]" and ?m = "entries_per_cluster b"
  obtain p where p: "at_slot b (block d) [c] p it" "tidy (drop (Suc p) ?S)" "dir_entry it = e"
    "es = all_entries (slot_location b [c]) (Suc p) (drop (Suc p) ?S)" and mode: "dir_mode it = LIST_ALL" and cl: "dir_cluster it = c"
    using y unfolding yields_all_def by auto
  have pm: "p < ?m" using p(1) by (simp add: at_slot_def)
  show st: "has_next it" and "dir_entry it = e" using p by (simp_all add: at_slot_def)
  have idx: "dir_index it = int p" "max_entries it = int ?m" using p(1) pm by (simp_all add: at_slot_def)
  show "\<exists>it'. next_entry ms d b it = Some it' \<and> yields_all d c it' es"
  proof (cases "Suc p = ?m")
    case True
    then have z: "Suc p mod ?m = 0" by (metis mod_self)
    have "get_next_cluster ms d b it = it\<lparr>dir_state := END_OF_DIRECTORY\<rparr>"
      using next_cluster_slot [OF assms(1) dir p(1) z, of it "dir_index it"] True by simp
    moreover have "es = []" using p(4) True by simp
    ultimately show ?thesis using idx True st mode cl by (simp add: next_entry_def yields_all_def)
  next
    case False
    then have nz: "Suc p mod ?m \<noteq> 0" using index_lt [OF pm] by simp
    obtain it1 where it1: "advance it = Some it1" "dir_mode it1 = LIST_ALL" "at_slot b (block d) [c] (Suc p) it1"
      "dir_entry it1 = slot_entry (slot_location b [c]) (Suc p) (dir_slot b (block d) [c] (Suc p))"
      using advance_slot [OF p(1) nz] mode by (auto simp: slot_entry_def)
    have more: "\<not> max_entries it - 1 \<le> dir_index it" using idx False pm by simp
    show ?thesis using advance_all [OF assms(1) dir it1(1,3,2) mode it1(4) p(2) st more] p(4) by simp
  qed
qed

lemma yields_all_end: "yields_all d c it [] \<Longrightarrow> dir_state it = END_OF_DIRECTORY"
  by (simp add: yields_all_def)

lemma new_iterator_all:
  assumes "fok d" and dir: "dir_ok evalid dvalid (entry d) [c] c" and t: "tidy (dir_slots b (block d) [c])"
  shows "\<exists>it. new_iterator ms d b c LIST_ALL = Some it \<and>
    yields_all d c it (all_entries (slot_location b [c]) 0 (dir_slots b (block d) [c]))"
proof -
  let ?m = "entries_per_cluster b" and ?S = "dir_slots b (block d) [c]"
  have ch: "clusters_ok evalid [c]" "dvalid c" using dir by (simp_all add: dir_ok_def)
  have "in_chain c" using below [OF assms(1)] ch(1) by (simp add: clusters_ok_def)
  then have nm: "\<not> MAX_CLUSTER_COUNT < c" by (simp add: in_chain_def MAX_CLUSTER_COUNT_def word_less_nat_alt)
  have rd: "data_cluster_read ms d b c = Some (block d c)" using ch(2) by (simp add: read_block [OF assms(1)])
  let ?it = "\<lparr>dir_mode = LIST_ALL, dir_state = ITERATING, dir_cluster = c, cluster_buf = block d c, max_entries = int ?m,
      dir_started = True, dir_index = - 1, dir_entry = no_entry\<rparr>"
  have new: "new_iterator ms d b c LIST_ALL = next_entry ms d b ?it"
    using nm rd by (simp add: new_iterator_def get_next_cluster_def Let_def)
  let ?zero = "?it\<lparr>dir_index := 0\<rparr>"
  let ?one = "?zero\<lparr>dir_entry := slot_entry (slot_location b [c]) 0 (dir_slot b (block d) [c] 0)\<rparr>"
  have a0: "at_slot b (block d) [c] 0 ?zero" using room [OF assms(1)] by (simp add: at_slot_def)
  have adv: "advance ?it = Some ?one"
    using current_at [OF a0] here_at [OF a0] by (simp add: advance_def Let_def slot_entry_def)
  have at: "at_slot b (block d) [c] 0 ?one" using a0 by (simp add: at_slot_def)
  have more: "\<not> max_entries ?it - 1 \<le> dir_index ?it" using room [OF assms(1)] by simp
  show ?thesis using advance_all [OF assms(1) dir adv at _ _ _ _ _ more] t by (simp add: new)
qed

lemma gather_empty_list:
  assumes "fok d" and dir: "dir_ok evalid dvalid (entry d) [c] c"
  shows "yields_all d c it es \<Longrightarrow> \<exists>it'. gather_empty ms d b rng it f out =
    Some (it', gather_list rng f out es)"
proof (induction es arbitrary: it f out)
  case Nil
  then show ?case using yields_all_end [OF Nil] by (subst gather_empty.simps) simp
next
  case (Cons e es)
  note y = yields_all_next [OF assms Cons.prems]
  obtain it' where it': "next_entry ms d b it = Some it'" "yields_all d c it' es" using y(3) by blast
  show ?case
  proof (cases "f < rng")
    case True
    then show ?thesis using y(1,2) it'(1) Cons.IH [OF it'(2)] by (subst gather_empty.simps) simp
  next
    case False
    then show ?thesis by (subst gather_empty.simps) simp
  qed
qed

end

section \<open>Creating a file\<close>

lemma gather_start:
  assumes "tidy rs" and "0 < rng" and "first_gap rng rs = Some g"
  shows "gather_list rng 0 [] (all_entries loc 0 rs) = (rng, map (\<lambda>j. slot_entry loc (g + j) (rs ! (g + j))) [0..<rng])"
proof (cases "rng \<le> length rs \<and> list_all empty_slot (take rng rs)")
  case True
  then have "g = 0" using assms(2,3) by (cases rs) auto
  then show ?thesis using gather_gap [OF assms(1), of 0 rng "[]" loc 0] True by simp
next
  case False
  then show ?thesis using gather_first_gap [OF assms(1,2) _ assms(3), of "[]" loc 0] by simp
qed

lemma upper_not_empty:
  assumes "storable_name nm" and "c \<in> set nm"
  shows "code (upper_char c) \<noteq> 0" and "code (upper_char c) < 128"
  using name_char_facts [OF assms] by (auto simp: upper_char_def is_padding_def)

lemma short_name_facts:
  assumes s: "storable_name nm"
  shows "length (short_name_of (lfn_text nm)) = 11" and "short_name_of (lfn_text nm) ! 0 \<noteq> MARK_EMPTY_END"
    and "short_name_of (lfn_text nm) ! 0 \<noteq> MARK_EMPTY_MIDDLE"
proof -
  let ?u = "upper (map (\<lambda>x. char_of (unat x)) (take 8 (lfn_text nm)))"
  let ?s = "take (get_cstr_size ?u) ?u"
  have def: "short_name_of (lfn_text nm) = map (\<lambda>c. of_nat (code c)) ?s @ replicate (8 - length ?s) 0 @ replicate 3 0x20"
    by (simp add: short_name_of_def Let_def)
  have "length ?s \<le> 8" by (simp add: upper_def)
  then show "length (short_name_of (lfn_text nm)) = 11" unfolding def by simp
  obtain c nm' where nm: "nm = c # nm'" using pieces_fit(1) [OF s] by (cases nm) auto
  have "name_bytes nm = of_nat (code c) # name_bytes nm'" by (simp add: name_bytes_def nm)
  then obtain t where "take 8 (lfn_text nm) = of_nat (code c) # t" by (simp add: lfn_text_def)
  moreover have "char_of (unat (of_nat (code c) :: u8)) = c"
    using nat_of_char_less_256 [of c] by (simp add: unat_of_nat)
  ultimately obtain t' where u: "?u = upper_char c # t'" by (simp add: upper_def)
  have z: "code (upper_char c) \<noteq> 0" "code (upper_char c) < 128" using upper_not_empty [OF s, of c] by (simp_all add: nm)
  have "?s = upper_char c # take (get_cstr_size t') t'" using z(1) unfolding u by simp
  then have first: "short_name_of (lfn_text nm) ! 0 = of_nat (code (upper_char c))" unfolding def by simp
  have "unat (of_nat (code (upper_char c)) :: u8) = code (upper_char c)" by (simp add: unat_of_nat)
  then show "short_name_of (lfn_text nm) ! 0 \<noteq> MARK_EMPTY_END" "short_name_of (lfn_text nm) ! 0 \<noteq> MARK_EMPTY_MIDDLE"
    using z unfolding first by (auto simp: MARK_EMPTY_END_def MARK_EMPTY_MIDDLE_def)
qed

text \<open>The directory with the name \<open>c\<close> is where the driver looks for the parent of a path.\<close>

definition parent_at :: "'d msd_ops \<Rightarrow> 'd \<Rightarrow> boot_record \<Rightarrow> string \<Rightarrow> u32 \<Rightarrow> bool" where
  "parent_at ms d b p c \<longleftrightarrow>
     (let names = split (resolve (get_parent p) '''') SEP
      in if names = [] then c = root_cluster b
         else \<exists>e. navigate_to ms d b (root_cluster b) names = Some (NAV_FOUND, e) \<and> cluster_of (fentry e) = c)"

context fat_dirs begin

lemma find_empty_gap:
  assumes "fok d" and dir: "dir_ok evalid dvalid (entry d) [c] c" and t: "tidy (dir_slots b (block d) [c])"
    and par: "parent_at ms d b p c" and gap: "first_gap (unat rng) (dir_slots b (block d) [c]) = Some g" "0 < unat rng"
  shows "find_empty_file_entries ms d b (resolve (get_parent p) '''') rng = Some (d, VA_OKAY,
    map (\<lambda>j. slot_entry (slot_location b [c]) (g + j) (dir_slots b (block d) [c] ! (g + j))) [0..<unat rng])"
proof -
  obtain it where it: "new_iterator ms d b c LIST_ALL = Some it"
    "yields_all d c it (all_entries (slot_location b [c]) 0 (dir_slots b (block d) [c]))"
    using new_iterator_all [OF assms(1-3)] by blast
  obtain it' where it': "gather_empty ms d b (unat rng) it 0 [] =
      Some (it', unat rng, map (\<lambda>j. slot_entry (slot_location b [c]) (g + j) (dir_slots b (block d) [c] ! (g + j))) [0..<unat rng])"
    using gather_empty_list [OF assms(1,2) it(2), of "unat rng" 0 "[]"] gather_start [OF t gap(2,1)] by auto
  have "\<exists>e. (if split (resolve (get_parent p) '''') SEP = [] then Some (NAV_FOUND, root_entry b)
      else navigate_to ms d b (cluster_of (root_dummy b)) (split (resolve (get_parent p) '''') SEP)) = Some (NAV_FOUND, e) \<and>
      cluster_of (fentry e) = c"
    using par by (auto simp: parent_at_def Let_def root_cluster_of root_entry_def)
  then show ?thesis using it(1) it' by (auto simp: find_empty_file_entries_def Let_def)
qed

lemma make_entries_gap:
  assumes "fok d" and dir: "dir_ok evalid dvalid (entry d) [c] c" and t: "tidy (dir_slots b (block d) [c])"
    and par: "parent_at ms d b p c" and s: "storable_name (get_file_name p)"
    and gap: "first_gap (Suc (piece_count (get_file_name p))) (dir_slots b (block d) [c]) = Some g"
  defines "n \<equiv> piece_count (get_file_name p)" and "tmp \<equiv> lfn_text (get_file_name p)"
  shows "\<exists>out cks. make_long_file_name_entries ms d b p = Some (d, FS_NONE, out) \<and> length out = Suc n \<and>
    (\<forall>j\<le>n. location (out ! j) = slot_location b [c] (g + j)) \<and>
    (\<forall>j<n. fentry (out ! j) = bytes_entry (lfn_raws tmp cks n n ! j)) \<and> short_name (fentry (out ! n)) = short_name_of tmp"
proof -
  let ?S = "dir_slots b (block d) [c]" and ?loc = "slot_location b [c]"
  let ?out = "map (\<lambda>j. slot_entry ?loc (g + j) (?S ! (g + j))) [0..<Suc n]"
  let ?rng = "of_nat (Suc n) :: u16"
  have u: "unat ?rng = Suc n" using pieces_fit(3) [OF s] by (simp only: unat_of_nat n_def) simp
  have find: "find_empty_file_entries ms d b (resolve (get_parent p) '''') ?rng = Some (d, VA_OKAY, ?out)"
    using find_empty_gap [OF assms(1-4), of ?rng g, unfolded u, OF gap [folded n_def] zero_less_Suc] .
  let ?e = "(last ?out)\<lparr>fentry := (fentry (last ?out))\<lparr>short_name := short_name_of tmp\<rparr>\<rparr>"
  let ?cks = "compute_short_name_checksum (fentry ?e)"
  have lo: "length (butlast ?out @ [?e]) = Suc n" by simp
  obtain out where out: "fill_lfn_entries tmp ?cks n 1 (butlast ?out @ [?e]) = Some out" "length out = Suc n"
    "out ! n = ?e" "\<forall>j<n. out ! j = ((butlast ?out @ [?e]) ! j)\<lparr>fentry := bytes_entry (lfn_raws tmp ?cks n n ! j)\<rparr>"
    using fill_name_entries [OF s, of "butlast ?out @ [?e]" ?cks] lo unfolding n_def tmp_def by auto
  have v: "validate_long_name (get_file_name p)" using s by (simp add: storable_name_def)
  have rng: "of_nat (1 + (length (get_file_name p) + MAX_CHAR_PER_ENTRY - 1) div MAX_CHAR_PER_ENTRY) = ?rng"
    by (simp only: n_def piece_count_def plus_1_eq_Suc)
  have run: "make_long_file_name_entries ms d b p = Some (d, FS_NONE, out)"
    using v find lfn_buffer_text [OF s] out(1) u
    unfolding make_long_file_name_entries_def Let_def rng by (simp add: n_def tmp_def del: upt_Suc of_nat_Suc)
  have "location (out ! j) = ?loc (g + j)" if "j \<le> n" for j
  proof (cases "j = n")
    case True
    then show ?thesis using out(3) by (simp add: slot_entry_def)
  next
    case False
    then show ?thesis using out(4) that by (simp add: nth_append nth_butlast slot_entry_def del: upt_Suc)
  qed
  then show ?thesis using run out by auto
qed

lemma create_file_adds_entry:
  assumes "fok d" and dir: "dir_ok evalid dvalid (entry d) [c] c" and t: "tidy (dir_slots b (block d) [c])"
    and wf: "dir_wf (entries_per_cluster b) 0 (dir_slots b (block d) [c])"
    and par: "parent_at ms d b p c" and s: "storable_name (get_file_name p)"
    and gap: "first_gap (Suc (piece_count (get_file_name p))) (dir_slots b (block d) [c]) = Some g"
    and attrs: "\<not> bit attrs 3" "\<not> bit attrs 4"
  shows "\<exists>d' e xs ys. create_file ms d b p attrs = Some (d', FS_CREATED) \<and> fok d' \<and>
    entries_of b (block d) [c] = xs @ ys \<and> entries_of b (block d') [c] = xs @ e # ys \<and>
    file_name e = get_file_name p \<and> attributes (fentry e) = attrs \<and> cluster_of (fentry e) = 0 \<and>
    first_lfn_entry e = slot_location b [c] g \<and> location e = slot_location b [c] (g + piece_count (get_file_name p)) \<and>
    dir_wf (entries_per_cluster b) 0 (dir_slots b (block d') [c]) \<and> tidy (dir_slots b (block d') [c]) \<and>
    (\<forall>c'. evalid c' \<longrightarrow> entry d' c' = entry d c' \<and> free d' c' = free d c') \<and>
    (\<forall>c'. dvalid c' \<and> c' \<noteq> c \<longrightarrow> block d' c' = block d c')"
proof -
  let ?nm = "get_file_name p" let ?n = "piece_count ?nm" let ?tmp = "lfn_text ?nm"
  let ?S = "dir_slots b (block d) [c]" and ?loc = "slot_location b [c]" and ?m = "entries_per_cluster b"
  obtain out cks where out: "make_long_file_name_entries ms d b p = Some (d, FS_NONE, out)" "length out = Suc ?n"
    "\<forall>j\<le>?n. location (out ! j) = ?loc (g + j)" "\<forall>j<?n. fentry (out ! j) = bytes_entry (lfn_raws ?tmp cks ?n ?n ! j)"
    "short_name (fentry (out ! ?n)) = short_name_of ?tmp"
    using make_entries_gap [OF assms(1-3) par s gap] by blast
  have last: "last out = out ! ?n" using out(2) by (metis last_conv_nth diff_Suc_1 length_0_conv nat.distinct(1))
  let ?F = "\<lambda>f. f\<lparr>first_cluster_low := 0, first_cluster_high := 0, attributes := attrs\<rparr>"
  let ?out = "update_last ?F out"
  have lo: "length ?out = Suc ?n" using out(2) by (simp add: update_last_def)
  have nth: "?out ! j = (if j = ?n then (out ! ?n)\<lparr>fentry := ?F (fentry (out ! ?n))\<rparr> else out ! j)" if "j \<le> ?n" for j
    using that out(2) by (simp add: update_last_def nth_append nth_butlast last)
  let ?raws = "lfn_raws ?tmp cks ?n ?n"
  have r32: "length (?raws ! j) = 32" if "j < ?n" for j using raws_facts(3) [OF s, of cks] that by simp
  note sn = short_name_facts [OF s]
  have fit: "g + length ?out \<le> ?m" using first_gap_bound [OF gap] lo by simp
  have ents: "\<forall>j<length ?out. location (?out ! j) = ?loc (g + j) \<and> length (short_name (fentry (?out ! j))) = 11"
    using out(3-5) sn(1) nth lo by (auto simp: less_Suc_eq_le bytes_entry_short r32)
  have dv: "dvalid c" using dir by (simp add: dir_ok_def)
  obtain d' where d': "update_entries ms d b ?out = (d', True)" "fok d'"
    "dir_slots b (block d') [c] = take g ?S @ map (\<lambda>e. entry_bytes (fentry e)) ?out @ drop (g + Suc ?n) ?S"
    "\<forall>c'. evalid c' \<longrightarrow> entry d' c' = entry d c' \<and> free d' c' = free d c'"
    "\<forall>c'. dvalid c' \<and> c' \<noteq> c \<longrightarrow> block d' c' = block d c'"
    using update_slots [OF dv assms(1) fit ents] unfolding lo by blast
  let ?fe = "?F (fentry (out ! ?n))"
  have bytes: "map (\<lambda>e. entry_bytes (fentry e)) ?out = ?raws @ [entry_bytes ?fe]"
  proof (rule nth_equalityI)
    fix j assume "j < length (map (\<lambda>e. entry_bytes (fentry e)) ?out)"
    then have "j \<le> ?n" using lo by simp
    then show "map (\<lambda>e. entry_bytes (fentry e)) ?out ! j = (?raws @ [entry_bytes ?fe]) ! j"
      using lo out(4) nth [of j] by (cases "j = ?n") (auto simp: nth_append entry_bytes_entry r32)
  qed (simp add: lo)
  have be: "bytes_entry (entry_bytes ?fe) = ?fe" using sn(1) out(5) by (intro bytes_entry_bytes) simp
  have ne: "\<not> empty_slot (entry_bytes ?fe)"
    using sn(2,3) out(5) unfolding empty_slot_def be by (simp add: is_empty_end_def is_empty_middle_def)
  obtain xs ys where li: "listing ?loc 0 ?S = xs @ ys"
    "listing ?loc 0 (take g ?S @ (?raws @ [entry_bytes ?fe]) @ drop (g + Suc ?n) ?S) = xs @ \<lparr>file_name = ?nm,
       fentry = bytes_entry (entry_bytes ?fe), location = ?loc (0 + g + ?n), first_lfn_entry = ?loc (0 + g)\<rparr> # ys"
    "dir_wf ?m 0 (take g ?S @ (?raws @ [entry_bytes ?fe]) @ drop (g + Suc ?n) ?S)"
    "tidy (take g ?S @ (?raws @ [entry_bytes ?fe]) @ drop (g + Suc ?n) ?S)"
    using fill_gap [OF s refl ne t gap, of 0 ?m ?loc cks] wf by auto
  have run: "create_file ms d b p attrs = Some (d', FS_CREATED)"
    using attrs out(1) d'(1)
    by (simp add: create_file_def has_attribute_def READONLY_def HIDDEN_def SYSTEM_def VOLUME_ID_def DIRECTORY_def Let_def)
  let ?e = "\<lparr>file_name = ?nm, fentry = ?fe, location = ?loc (0 + g + ?n), first_lfn_entry = ?loc (0 + g)\<rparr>"
  have "file_name ?e = ?nm" "attributes (fentry ?e) = attrs" "cluster_of (fentry ?e) = 0" "first_lfn_entry ?e = ?loc g"
    "location ?e = ?loc (g + ?n)" by (simp_all add: cluster_of_def)
  moreover have "entries_of b (block d) [c] = xs @ ys" "entries_of b (block d') [c] = xs @ ?e # ys"
    "dir_wf ?m 0 (dir_slots b (block d') [c])" "tidy (dir_slots b (block d') [c])"
    using li unfolding entries_of_def d'(3) bytes be by auto
  ultimately show ?thesis using run d'(2,4,5) by blast
qed

end

end
