(* ===== verification/Fat_Delete.thy ===== *)
theory Fat_Delete
  imports Fat_Create
begin

text \<open>
  Deleting files in a directory with one cluster: the entries of the file are marked as deleted, which removes it
  from the listing, and its clusters are freed.
\<close>

section \<open>Marking entries\<close>

definition deleted_slot :: "u8 list \<Rightarrow> u8 list" where
  "deleted_slot r = entry_bytes (fentry (mark_deleted (slot_entry (\<lambda>_. no_location) 0 r)))"

lemma mark_slot: "entry_bytes (fentry (mark_deleted (slot_entry loc i r))) = deleted_slot r"
  by (simp add: deleted_slot_def mark_deleted_def slot_entry_def)

lemma deleted_slot_middle:
  assumes "length r = 32"
  shows "is_empty_middle (bytes_entry (deleted_slot r))" and "\<not> is_empty_end (bytes_entry (deleted_slot r))"
proof -
  have l: "length (short_name (bytes_entry r)) = 11" using bytes_entry_short [OF assms] .
  have "bytes_entry (deleted_slot r) = fentry (mark_deleted (slot_entry (\<lambda>_. no_location) 0 r))"
    unfolding deleted_slot_def using l by (intro bytes_entry_bytes) (simp add: mark_deleted_def slot_entry_def)
  moreover have "0 < length (short_name (bytes_entry r))" using l by simp
  ultimately show "is_empty_middle (bytes_entry (deleted_slot r))" "\<not> is_empty_end (bytes_entry (deleted_slot r))"
    by (simp_all add: mark_deleted_def slot_entry_def is_empty_middle_def is_empty_end_def MARK_EMPTY_END_def MARK_EMPTY_MIDDLE_def)
qed

lemma skip_deleted:
  "\<forall>x \<in> set del. is_empty_middle (bytes_entry x) \<and> \<not> is_empty_end (bytes_entry x) \<Longrightarrow>
    listing loc i (del @ rs) = listing loc (i + length del) rs \<and> (tidy rs \<longrightarrow> tidy (del @ rs)) \<and>
    (dir_wf m (i + length del) rs \<and> i + length del < m \<longrightarrow> dir_wf m i (del @ rs))"
proof (induction del arbitrary: i)
  case (Cons x del)
  then show ?case by (simp add: Let_def)
qed simp

definition removable :: "(nat \<Rightarrow> entry_location) \<Rightarrow> nat \<Rightarrow> u8 list list \<Rightarrow> nat \<Rightarrow> nat \<Rightarrow> located_entry \<Rightarrow> bool" where
  "removable loc i rs k n e \<longleftrightarrow>
    (\<forall>del m. length del = Suc n \<and> (\<forall>x \<in> set del. is_empty_middle (bytes_entry x) \<and> \<not> is_empty_end (bytes_entry x)) \<longrightarrow>
      (\<exists>xs ys. listing loc i rs = xs @ e # ys \<and> listing loc i (take k rs @ del @ drop (Suc (k + n)) rs) = xs @ ys \<and>
        tidy (take k rs @ del @ drop (Suc (k + n)) rs) \<and>
        (dir_wf m i rs \<and> i + Suc (k + n) < m \<longrightarrow> dir_wf m i (take k rs @ del @ drop (Suc (k + n)) rs))))"

text \<open>A run of slots in front of the others, that gives the entries \<open>es\<close>, does not matter.\<close>

lemma removable_prefix:
  assumes "removable loc (i + length pre) rs k n e"
    and l: "\<And>zs. tidy zs \<Longrightarrow> listing loc i (pre @ zs) = es @ listing loc (i + length pre) zs"
    and t: "\<And>zs. tidy zs \<Longrightarrow> tidy (pre @ zs)" and rs: "tidy rs"
    and w: "\<And>m zs. tidy zs \<Longrightarrow> dir_wf m i (pre @ zs) \<longleftrightarrow> W m \<and> dir_wf m (i + length pre) zs"
  shows "removable loc i (pre @ rs) (length pre + k) n e"
  unfolding removable_def
proof (intro allI impI)
  fix del and m :: nat
  assume d: "length del = Suc n \<and> (\<forall>x \<in> set del. is_empty_middle (bytes_entry x) \<and> \<not> is_empty_end (bytes_entry x))"
  let ?zs = "take k rs @ del @ drop (Suc (k + n)) rs" and ?i = "i + length pre"
  obtain xs ys where ih: "listing loc ?i rs = xs @ e # ys" "listing loc ?i ?zs = xs @ ys" "tidy ?zs"
    "dir_wf m ?i rs \<and> ?i + Suc (k + n) < m \<longrightarrow> dir_wf m ?i ?zs"
    using assms(1) d unfolding removable_def by blast
  have new: "take (length pre + k) (pre @ rs) @ del @ drop (Suc (length pre + k + n)) (pre @ rs) = pre @ ?zs" by simp
  have "listing loc i (pre @ rs) = (es @ xs) @ e # ys" "listing loc i (pre @ ?zs) = (es @ xs) @ ys"
    using l [OF rs] l [OF ih(3)] ih(1,2) by simp_all
  moreover have "dir_wf m i (pre @ rs) \<and> i + Suc (length pre + k + n) < m \<longrightarrow> dir_wf m i (pre @ ?zs)"
    using w [OF rs, of m] w [OF ih(3), of m] ih(4) by (simp add: add.assoc)
  ultimately show "\<exists>xs ys. listing loc i (pre @ rs) = xs @ e # ys \<and>
      listing loc i (take (length pre + k) (pre @ rs) @ del @ drop (Suc (length pre + k + n)) (pre @ rs)) = xs @ ys \<and>
      tidy (take (length pre + k) (pre @ rs) @ del @ drop (Suc (length pre + k + n)) (pre @ rs)) \<and>
      (dir_wf m i (pre @ rs) \<and> i + Suc (length pre + k + n) < m \<longrightarrow>
        dir_wf m i (take (length pre + k) (pre @ rs) @ del @ drop (Suc (length pre + k + n)) (pre @ rs)))"
    unfolding new using t [OF ih(3)] by blast
qed

text \<open>
  An entry of a listing comes from a run of slots; marking them removes exactly this entry. The first lines say
  where the run is.
\<close>

lemma listing_entry_slots:
  "tidy rs \<Longrightarrow> e \<in> set (listing loc i rs) \<Longrightarrow> \<exists>k n. k + n < length rs \<and> n = run_length (rs ! k) \<and>
    location e = loc (i + k + n) \<and> (if attributes (bytes_entry (rs ! k)) = LONG_FILE_NAME then first_lfn_entry e = loc (i + k)
      else first_lfn_entry e = no_location) \<and>
    removable loc i rs k n e"
proof (induction "length rs" arbitrary: rs i rule: less_induct)
  case less
  obtain r rs' where rs: "rs = r # rs'" using less.prems(2) by (cases rs) auto
  show ?case
  proof (cases "is_empty_end (bytes_entry r)")
    case True
    then show ?thesis using less.prems(2) by (simp add: rs Let_def)
  next
    case ne: False
    show ?thesis
    proof (cases "is_empty_middle (bytes_entry r)")
      case True
      have l: "listing loc i ([r] @ xs) = [] @ listing loc (i + length [r]) xs" "tidy ([r] @ xs) = tidy xs"
        "dir_wf m i ([r] @ xs) = (Suc i mod m \<noteq> 0 \<and> dir_wf m (i + length [r]) xs)" for xs m
        using ne True by (simp_all add: Let_def)
      have t: "tidy rs'" using less.prems(1) l(2) [of rs'] by (simp add: rs del: tidy.simps)
      have mem: "e \<in> set (listing loc (Suc i) rs')" using less.prems(2) l(1) [of rs'] by (simp add: rs del: listing.simps)
      obtain k n where kn: "k + n < length rs'" "n = run_length (rs' ! k)" "location e = loc (Suc i + k + n)"
        "if attributes (bytes_entry (rs' ! k)) = LONG_FILE_NAME then first_lfn_entry e = loc (Suc i + k) else first_lfn_entry e = no_location"
        "removable loc (Suc i) rs' k n e"
        using less.hyps [of rs' "Suc i", OF _ t mem] unfolding rs by auto
      have "removable loc i ([r] @ rs') (length [r] + k) n e"
        by (rule removable_prefix [where es = "[]" and W = "\<lambda>m. Suc i mod m \<noteq> 0"]) (use kn(5) l t in simp_all)
      then have "removable loc i rs (Suc k) n e" by (simp add: rs)
      moreover have "rs ! Suc k = rs' ! k" "i + Suc k = Suc i + k" "Suc k + n < length rs" using kn(1) by (simp_all add: rs)
      ultimately show ?thesis using kn(2-4) by metis
    next
      case nm: False
      have nes: "\<not> empty_slot r" using ne nm by (simp add: empty_slot_def)
      let ?n = "run_length r"
      note u = tidy_used [OF less.prems(1) [unfolded rs] nes]
      have li: "listing loc i rs = parsed_entry loc i rs # listing loc (Suc (i + ?n)) (drop ?n rs')"
        using listing_Cons [OF ne nm u(1)] by (simp only: rs)
      show ?thesis
      proof (cases "e = parsed_entry loc i rs")
        case True
        have "location e = loc (i + ?n)" "if attributes (bytes_entry r) = LONG_FILE_NAME then first_lfn_entry e = loc i
            else first_lfn_entry e = no_location"
          unfolding True by (simp_all add: rs parsed_entry_def run_length_def Let_def)
        moreover have "removable loc i rs 0 ?n e"
          unfolding removable_def
        proof (intro allI impI)
          fix del and m :: nat
          assume "length del = Suc ?n \<and> (\<forall>x \<in> set del. is_empty_middle (bytes_entry x) \<and> \<not> is_empty_end (bytes_entry x))"
          then have d: "length del = Suc ?n" "\<forall>x \<in> set del. is_empty_middle (bytes_entry x) \<and> \<not> is_empty_end (bytes_entry x)"
            by simp_all
          have new: "take 0 rs @ del @ drop (Suc (0 + ?n)) rs = del @ drop ?n rs'" by (simp add: rs)
          note sk = skip_deleted [OF d(2), of loc i "drop ?n rs'" m]
          have "dir_wf m i rs \<longrightarrow> dir_wf m (Suc (i + ?n)) (drop ?n rs')" using dir_wf_Cons [OF ne nm, of m i rs'] unfolding rs by blast
          then have "listing loc i (del @ drop ?n rs') = [] @ listing loc (Suc (i + ?n)) (drop ?n rs')" "tidy (del @ drop ?n rs')"
            "dir_wf m i rs \<and> i + Suc (0 + ?n) < m \<longrightarrow> dir_wf m i (del @ drop ?n rs')"
            using sk u(2) d(1) by simp_all
          moreover have "listing loc i rs = [] @ e # listing loc (Suc (i + ?n)) (drop ?n rs')" using li True by simp
          ultimately show "\<exists>xs ys. listing loc i rs = xs @ e # ys \<and> listing loc i (take 0 rs @ del @ drop (Suc (0 + ?n)) rs) = xs @ ys \<and>
              tidy (take 0 rs @ del @ drop (Suc (0 + ?n)) rs) \<and>
              (dir_wf m i rs \<and> i + Suc (0 + ?n) < m \<longrightarrow> dir_wf m i (take 0 rs @ del @ drop (Suc (0 + ?n)) rs))"
            unfolding new by blast
        qed
        moreover have "rs ! 0 = r" "0 + ?n < length rs" using u(4) by (simp_all add: rs)
        ultimately show ?thesis by (metis add.right_neutral)
      next
        case False
        let ?rs = "drop ?n rs'" let ?i = "Suc (i + ?n)"
        have lt: "length ?rs < length rs" by (simp add: rs)
        have mem: "e \<in> set (listing loc ?i ?rs)" using False less.prems(2) li by auto
        obtain k n where kn: "k + n < length ?rs" "n = run_length (?rs ! k)" "location e = loc (?i + k + n)"
          "if attributes (bytes_entry (?rs ! k)) = LONG_FILE_NAME then first_lfn_entry e = loc (?i + k) else first_lfn_entry e = no_location"
          "removable loc ?i ?rs k n e"
          using less.hyps [OF lt u(2) mem] by blast
        let ?k = "Suc ?n + k"
        have nth: "rs ! ?k = ?rs ! k" using u(4) by (simp add: rs add.commute)
        have at: "i + ?k = ?i + k" by simp
        let ?pre = "r # take ?n rs'"
        have pre: "rs = ?pre @ ?rs" "length ?pre = Suc ?n" "i + length ?pre = ?i" using u(4) by (simp_all add: rs)
        note p = used_prefix [OF u(4)]
        have ok: "run_ok (?pre @ zs)" "drop ?n (take ?n rs' @ zs) = zs" for zs using p(2) u(1,4) by simp_all
        have "removable loc i (?pre @ ?rs) (length ?pre + k) n e"
        proof (rule removable_prefix [where es = "[parsed_entry loc i rs]" and W = "\<lambda>_. True"])
          show "removable loc (i + length ?pre) ?rs k n e" using kn(5) unfolding pre(3) .
          show "tidy ?rs" using u(2) .
          fix zs :: "u8 list list" and m :: nat assume t: "tidy zs"
          show "listing loc i (?pre @ zs) = [parsed_entry loc i rs] @ listing loc (i + length ?pre) zs"
            using listing_Cons [OF ne nm ok(1) [of zs, unfolded append_Cons], of loc i] unfolding ok(2) p(1) pre(3) append_Cons rs by simp
          show "tidy (?pre @ zs)" using ne nm ok(1) [of zs] t u(3) p(3) unfolding append_Cons tidy.simps ok(2) by simp
          show "dir_wf m i (?pre @ zs) \<longleftrightarrow> True \<and> dir_wf m (i + length ?pre) zs"
            using dir_wf_Cons [OF ne nm, of m i "take ?n rs' @ zs"] ok(1) [of zs] unfolding append_Cons ok(2) pre(3) by simp
        qed
        then have "removable loc i rs ?k n e" unfolding pre(1) [symmetric] pre(2) .
        moreover have "?k + n < length rs" using kn(1) u(4) by (simp add: rs)
        ultimately show ?thesis using kn(2-4) unfolding nth [symmetric] at [symmetric] by blast
      qed
    qed
  qed
qed

section \<open>Deleting a file\<close>

text \<open>Every cluster number of the table is below the largest one, so the loop that frees a chain stops at its end only.\<close>

locale fat_deletes = fat_dirs +
  assumes below_max: "fok d \<Longrightarrow> evalid c \<Longrightarrow> c < MAX_CLUSTER_COUNT"

context fat_deletes begin

lemma free_chain_frees:
  "fok d \<Longrightarrow> chain (entry d) cs \<Longrightarrow> clusters_ok evalid cs \<Longrightarrow> \<exists>d'. free_chain ms b d (hd cs) = Some d' \<and> fok d' \<and>
    (\<forall>c. evalid c \<longrightarrow> entry d' c = (if c \<in> set cs then 0 else entry d c)) \<and>
    (\<forall>c. evalid c \<and> c \<notin> set cs \<longrightarrow> free d' c = free d c) \<and> (\<forall>c. dvalid c \<longrightarrow> block d' c = block d c)"
proof (induction cs arbitrary: d)
  case (Cons c cs)
  have c: "evalid c" "c \<noteq> 0" using Cons.prems(3) by (auto simp: clusters_ok_def)
  have cm: "c < MAX_CLUSTER_COUNT" using below_max [OF Cons.prems(1) c(1)] .
  have rd: "fat_read ms d b c = entry d c" using read_entry [OF Cons.prems(1) c(1)] .
  obtain d1 where d1: "fat_write ms d b c 0 = (d1, True)" "fok d1"
    "\<forall>c'. evalid c' \<longrightarrow> entry d1 c' = (if c' = c then 0 else entry d c')"
    "\<forall>c'. evalid c' \<and> c' \<noteq> c \<longrightarrow> free d1 c' = free d c'" "\<forall>c'. dvalid c' \<longrightarrow> block d1 c' = block d c'"
    using write_entry [OF Cons.prems(1) c(1), of 0] by auto
  have step: "free_chain ms b d c = free_chain ms b d1 (entry d c)"
    using c(2) cm rd d1(1) by (subst free_chain.simps) simp
  show ?case
  proof (cases cs)
    case Nil
    then have "MAX_CLUSTER_COUNT + 1 \<le> entry d c" using Cons.prems(2) by simp
    then have "\<not> entry d c < MAX_CLUSTER_COUNT" by (simp add: MAX_CLUSTER_COUNT_def word_less_nat_alt word_le_nat_alt)
    then have "free_chain ms b d1 (entry d c) = Some d1" by (subst free_chain.simps) simp
    then show ?thesis using step d1 Nil by simp
  next
    case (Cons c' cs')
    have ok: "clusters_ok evalid cs" "c \<notin> set cs" "\<forall>x \<in> set cs. evalid x" using Cons.prems(3) by (simp_all add: clusters_ok_def)
    have "chain (entry d) cs" and hd: "entry d c = hd cs" using Cons.prems(2) unfolding Cons by simp_all
    moreover have "chain ent xs \<Longrightarrow> \<forall>x \<in> set xs. ent' x = ent x \<Longrightarrow> chain ent' xs" for ent ent' xs
      by (induction ent xs rule: chain.induct) auto
    ultimately have "chain (entry d1) cs" using d1(3) ok(2,3) by fastforce
    then obtain d' where "free_chain ms b d1 (hd cs) = Some d'" "fok d'"
      "\<forall>c. evalid c \<longrightarrow> entry d' c = (if c \<in> set cs then 0 else entry d1 c)"
      "\<forall>c. evalid c \<and> c \<notin> set cs \<longrightarrow> free d' c = free d1 c" "\<forall>c. dvalid c \<longrightarrow> block d' c = block d1 c"
      using Cons.IH [OF d1(2) _ ok(1)] by blast
    then show ?thesis using step hd d1(3-5) by auto
  qed
qed simp

text \<open>The iterator of the deletion stands at slot \<open>p\<close> of the directory as it was before.\<close>

definition atomic_at :: "u8 list \<Rightarrow> u32 \<Rightarrow> nat \<Rightarrow> dir_iter \<Rightarrow> bool" where
  "atomic_at B c p it \<longleftrightarrow> dir_mode it = ATOMIC \<and> at_slot b (\<lambda>_. B) [c] p it \<and>
     dir_entry it = slot_entry (slot_location b [c]) p (dir_slot b (\<lambda>_. B) [c] p)"

lemma at_slot_block: "at_slot b (\<lambda>_. block d0 c) [c] p it \<longleftrightarrow> at_slot b (block d0) [c] p it"
  by (auto simp: at_slot_def)

lemma dir_slot_block: "p < entries_per_cluster b \<Longrightarrow> dir_slot b (\<lambda>_. block d0 c) [c] p = dir_slot b (block d0) [c] p"
  by (simp add: dir_slot_def)

lemma atomic_next:
  assumes "atomic_at (block d0 c) c p it" and "Suc p < entries_per_cluster b"
  shows "\<exists>it'. next_entry ms d b it = Some it' \<and> atomic_at (block d0 c) c (Suc p) it'"
proof -
  have a: "at_slot b (block d0) [c] p it" and m: "dir_mode it = ATOMIC"
    using assms(1) at_slot_block by (simp_all add: atomic_at_def)
  have st: "dir_state it = ITERATING" "dir_index it = int p" "max_entries it = int (entries_per_cluster b)"
    using a assms(2) by (simp_all add: at_slot_def)
  have nz: "Suc p mod entries_per_cluster b \<noteq> 0" using assms(2) by simp
  obtain it' where it': "advance it = Some it'" "dir_mode it' = ATOMIC" "at_slot b (block d0) [c] (Suc p) it'"
    "dir_entry it' = slot_entry (slot_location b [c]) (Suc p) (dir_slot b (block d0) [c] (Suc p))"
    using advance_slot [OF a nz] m by (auto simp: slot_entry_def)
  have "dir_state it' = ITERATING" using it'(3) by (simp add: at_slot_def)
  then have "next_entry ms d b it = Some it'" using st assms(2) it'(1,2) by (simp add: next_entry_def)
  moreover have "atomic_at (block d0 c) c (Suc p) it'"
    unfolding atomic_at_def at_slot_block dir_slot_block [OF assms(2)] using it'(2-4) by blast
  ultimately show ?thesis by blast
qed

lemma new_iterator_atomic:
  assumes "fok d" and dir: "dir_ok evalid dvalid (entry d) [c] c"
  shows "\<exists>it. new_iterator ms d b c ATOMIC = Some it \<and> atomic_at (block d c) c 0 it"
proof -
  let ?m = "entries_per_cluster b"
  have ch: "clusters_ok evalid [c]" "dvalid c" using dir by (simp_all add: dir_ok_def)
  have "in_chain c" using below [OF assms(1)] ch(1) by (simp add: clusters_ok_def)
  then have nm: "\<not> MAX_CLUSTER_COUNT < c" by (simp add: in_chain_def MAX_CLUSTER_COUNT_def word_less_nat_alt)
  have rd: "data_cluster_read ms d b c = Some (block d c)" using ch(2) by (simp add: read_block [OF assms(1)])
  have m0: "0 < ?m" using room [OF assms(1)] by simp
  let ?it = "\<lparr>dir_mode = ATOMIC, dir_state = ITERATING, dir_cluster = c, cluster_buf = block d c, max_entries = int ?m,
      dir_started = True, dir_index = - 1, dir_entry = no_entry\<rparr>"
  let ?zero = "?it\<lparr>dir_index := 0\<rparr>"
  let ?one = "?zero\<lparr>dir_entry := slot_entry (slot_location b [c]) 0 (dir_slot b (block d) [c] 0)\<rparr>"
  have a0: "at_slot b (block d) [c] 0 ?zero" using m0 by (simp add: at_slot_def)
  have adv: "advance ?it = Some ?one"
    using current_at [OF a0] here_at [OF a0] by (simp add: advance_def Let_def slot_entry_def)
  have "\<not> max_entries ?it - 1 \<le> dir_index ?it" using m0 by simp
  then have "next_entry ms d b ?it = Some ?one" using adv by (simp add: next_entry_def)
  then have "new_iterator ms d b c ATOMIC = Some ?one"
    using nm rd by (simp add: new_iterator_def get_next_cluster_def Let_def)
  moreover have "atomic_at (block d c) c 0 ?one"
    unfolding atomic_at_def at_slot_block dir_slot_block [OF m0] using a0 by (simp add: at_slot_def)
  ultimately show ?thesis by blast
qed

lemma location_inj:
  assumes "fok d" and "i < entries_per_cluster b" and "j < entries_per_cluster b"
  shows "slot_location b [c] i = slot_location b [c] j \<longleftrightarrow> i = j"
    and "entry_idx (slot_location b [c] i) < entry_idx (slot_location b [c] j) \<longleftrightarrow> i < j"
  using assms(2,3) index_word [OF assms(1)] by (auto simp: slot_location_def word_unat_eq_iff word_less_nat_alt)

lemma delete_entries_marks:
  assumes c: "dvalid c" and f: "first_lfn_entry f = slot_location b [c] k" "location f = slot_location b [c] q"
    and kq: "k \<le> q" "q < entries_per_cluster b"
  shows "fok d \<Longrightarrow> atomic_at (block d0 c) c p it \<Longrightarrow> p \<le> q \<Longrightarrow>
    \<exists>d'. delete_entries ms b f d it = Some (d', True) \<and> fok d' \<and>
      dir_slots b (block d') [c] = take (max k p) (dir_slots b (block d) [c]) @
        map (\<lambda>j. deleted_slot (dir_slot b (block d0) [c] j)) [max k p..<Suc q] @ drop (Suc q) (dir_slots b (block d) [c]) \<and>
      (\<forall>c'. evalid c' \<longrightarrow> entry d' c' = entry d c' \<and> free d' c' = free d c') \<and>
      (\<forall>c'. dvalid c' \<and> c' \<noteq> c \<longrightarrow> block d' c' = block d c')"
proof (induction "q - p" arbitrary: d p it)
  case 0
  then have pq: "p = q" by simp
  let ?e = "dir_entry it" and ?r = "dir_slot b (block d0) [c] q"
  have e: "?e = slot_entry (slot_location b [c]) q ?r" "has_next it"
    using "0.prems"(2) dir_slot_block [OF kq(2)] by (simp_all add: atomic_at_def pq at_slot_def)
  have r: "length ?r = 32" using slot_size [of ?r d0 c] kq(2) by (simp add: dir_slots_def)
  have loc: "location (mark_deleted ?e) = slot_location b [c] q" "length (short_name (fentry (mark_deleted ?e))) = 11"
    using bytes_entry_short [OF r] by (simp_all add: e(1) mark_deleted_def slot_entry_def)
  obtain d' where d': "update_entry ms d b (mark_deleted ?e) = (d', True)" "fok d'"
    "dir_slots b (block d') [c] = (dir_slots b (block d) [c])[q := entry_bytes (fentry (mark_deleted ?e))]"
    "\<forall>c'. evalid c' \<longrightarrow> entry d' c' = entry d c' \<and> free d' c' = free d c'"
    "\<forall>c'. dvalid c' \<and> c' \<noteq> c \<longrightarrow> block d' c' = block d c'"
    using update_slot [OF "0.prems"(1) c kq(2) loc] by blast
  have eloc: "location ?e = slot_location b [c] q" by (simp add: e(1) slot_entry_def)
  have "\<not> entry_idx (location ?e) < entry_idx (first_lfn_entry f)"
    unfolding eloc f using location_inj(2) [OF "0.prems"(1) kq(2), of k] kq by simp
  then have "delete_entries ms b f d it = Some (d', True)"
    using e(2) d'(1) eloc f(2) by (subst delete_entries.simps) (simp add: Let_def)
  moreover have "dir_slots b (block d') [c] = take q (dir_slots b (block d) [c]) @ [deleted_slot ?r] @ drop (Suc q) (dir_slots b (block d) [c])"
    unfolding d'(3) e(1) mark_slot using kq(2) by (simp add: upd_conv_take_nth_drop)
  ultimately show ?case using d'(2,4,5) kq(1) by (simp add: pq max_def)
next
  case (Suc x)
  have lt: "p < q" and x: "x = q - Suc p" and pm: "p < entries_per_cluster b" "Suc p < entries_per_cluster b"
    using Suc.hyps(2) kq(2) by simp_all
  let ?e = "dir_entry it" and ?r = "dir_slot b (block d0) [c] p" and ?S = "dir_slots b (block d) [c]"
  have e: "?e = slot_entry (slot_location b [c]) p ?r" "has_next it"
    using Suc.prems(2) dir_slot_block [OF pm(1)] by (simp_all add: atomic_at_def at_slot_def)
  have eloc: "location ?e = slot_location b [c] p" by (simp add: e(1) slot_entry_def)
  have cl: "loc_cluster (slot_location b [c] p) = loc_cluster (slot_location b [c] k)" using pm kq by (simp add: slot_location_def)
  show ?case
  proof (cases "p < k")
    case True
    obtain it' where it': "next_entry ms d b it = Some it'" "atomic_at (block d0 c) c (Suc p) it'"
      using atomic_next [OF Suc.prems(2) pm(2)] by blast
    have "entry_idx (location ?e) < entry_idx (first_lfn_entry f)"
      unfolding eloc f using location_inj(2) [OF Suc.prems(1) pm(1), of k] kq True by simp
    then have "delete_entries ms b f d it = delete_entries ms b f d it'"
      using e(2) it'(1) cl eloc f(1) by (subst delete_entries.simps) (simp add: Let_def)
    moreover have "max k (Suc p) = max k p" using True by simp
    ultimately show ?thesis using Suc.hyps(1) [OF x Suc.prems(1) it'(2)] lt by simp
  next
    case False
    have r: "length ?r = 32" using slot_size [of ?r d0 c] pm(1) by (simp add: dir_slots_def)
    have loc: "location (mark_deleted ?e) = slot_location b [c] p" "length (short_name (fentry (mark_deleted ?e))) = 11"
      using bytes_entry_short [OF r] by (simp_all add: e(1) mark_deleted_def slot_entry_def)
    obtain d1 where d1: "update_entry ms d b (mark_deleted ?e) = (d1, True)" "fok d1"
      "dir_slots b (block d1) [c] = ?S[p := entry_bytes (fentry (mark_deleted ?e))]"
      "\<forall>c'. evalid c' \<longrightarrow> entry d1 c' = entry d c' \<and> free d1 c' = free d c'"
      "\<forall>c'. dvalid c' \<and> c' \<noteq> c \<longrightarrow> block d1 c' = block d c'"
      using update_slot [OF Suc.prems(1) c pm(1) loc] by blast
    obtain it' where it': "next_entry ms d1 b it = Some it'" "atomic_at (block d0 c) c (Suc p) it'"
      using atomic_next [OF Suc.prems(2) pm(2)] by blast
    have "\<not> entry_idx (location ?e) < entry_idx (first_lfn_entry f)"
      unfolding eloc f using location_inj(2) [OF Suc.prems(1) pm(1), of k] kq False by simp
    moreover have "location ?e \<noteq> location f"
      unfolding eloc f using location_inj(1) [OF Suc.prems(1) pm(1) kq(2)] lt by simp
    ultimately have run: "delete_entries ms b f d it = delete_entries ms b f d1 it'"
      using e(2) it'(1) d1(1) by (subst delete_entries.simps) (simp add: Let_def)
    obtain d' where d': "delete_entries ms b f d1 it' = Some (d', True)" "fok d'"
      "dir_slots b (block d') [c] = take (max k (Suc p)) (dir_slots b (block d1) [c]) @
        map (\<lambda>j. deleted_slot (dir_slot b (block d0) [c] j)) [max k (Suc p)..<Suc q] @ drop (Suc q) (dir_slots b (block d1) [c])"
      "\<forall>c'. evalid c' \<longrightarrow> entry d' c' = entry d1 c' \<and> free d' c' = free d1 c'"
      "\<forall>c'. dvalid c' \<and> c' \<noteq> c \<longrightarrow> block d' c' = block d1 c'"
      using Suc.hyps(1) [OF x d1(2) it'(2)] lt by auto
    have m: "max k (Suc p) = Suc p" "max k p = p" using False by simp_all
    have "take (Suc p) (?S[p := y]) = take p ?S @ [y]" "drop (Suc q) (?S[p := y]) = drop (Suc q) ?S" for y
      using pm(1) lt by (simp_all add: take_Suc_conv_app_nth)
    moreover have "[p..<Suc q] = p # [Suc p..<Suc q]" using lt by (simp add: upt_conv_Cons)
    ultimately have "dir_slots b (block d') [c] = take p ?S @
        map (\<lambda>j. deleted_slot (dir_slot b (block d0) [c] j)) [p..<Suc q] @ drop (Suc q) ?S"
      using d'(3) unfolding m d1(3) e(1) mark_slot by simp
    then show ?thesis using run d' d1(4,5) unfolding m by auto
  qed
qed

lemma delete_file_removes_entry:
  assumes "fok d" and dir: "dir_ok evalid dvalid (entry d) [c] c" and t: "tidy (dir_slots b (block d) [c])"
    and f: "f \<in> set (entries_of b (block d) [c])" and long: "first_lfn_entry f \<noteq> no_location"
    and fc: "file_chain (entry d) cs (cluster_of (fentry f))" and cs: "clusters_ok evalid cs" "c \<notin> set cs"
  shows "\<exists>d' xs ys. delete_file ms d b f = Some (d', FS_DELETED) \<and> fok d' \<and>
    entries_of b (block d) [c] = xs @ f # ys \<and> entries_of b (block d') [c] = xs @ ys \<and> tidy (dir_slots b (block d') [c]) \<and>
    (dir_wf (entries_per_cluster b) 0 (dir_slots b (block d) [c]) \<and> Suc (unat (entry_idx (location f))) < entries_per_cluster b \<longrightarrow>
      dir_wf (entries_per_cluster b) 0 (dir_slots b (block d') [c])) \<and>
    (\<forall>c'. evalid c' \<longrightarrow> entry d' c' = (if c' \<in> set cs then 0 else entry d c')) \<and>
    (\<forall>c'. evalid c' \<and> c' \<notin> set cs \<longrightarrow> free d' c' = free d c') \<and>
    (\<forall>c'. dvalid c' \<and> c' \<noteq> c \<longrightarrow> block d' c' = block d c')"
proof -
  let ?S = "dir_slots b (block d) [c]" and ?loc = "slot_location b [c]" and ?m = "entries_per_cluster b"
  obtain k n where kn: "k + n < length ?S" "location f = ?loc (0 + k + n)"
    "if attributes (bytes_entry (?S ! k)) = LONG_FILE_NAME then first_lfn_entry f = ?loc (0 + k) else first_lfn_entry f = no_location"
    "removable ?loc 0 ?S k n f"
    using listing_entry_slots [OF t f [unfolded entries_of_def]] by blast
  have q: "k + n < ?m" using kn(1) by simp
  have loc: "first_lfn_entry f = ?loc k" "location f = ?loc (k + n)" using kn(2,3) long by (simp_all split: if_splits)
  have dv: "dvalid c" using dir by (simp add: dir_ok_def)
  have k: "k < ?m" using q by simp
  have first: "loc_cluster (first_lfn_entry f) = c" using k by (simp add: loc(1) slot_location_def)
  obtain it where it: "new_iterator ms d b c ATOMIC = Some it" "atomic_at (block d c) c 0 it"
    using new_iterator_atomic [OF assms(1) dir] by blast
  let ?del = "map (\<lambda>j. deleted_slot (dir_slot b (block d) [c] j)) [k..<Suc (k + n)]"
  obtain d1 where d1: "delete_entries ms b f d it = Some (d1, True)" "fok d1"
    "dir_slots b (block d1) [c] = take k ?S @ ?del @ drop (Suc (k + n)) ?S"
    "\<forall>c'. evalid c' \<longrightarrow> entry d1 c' = entry d c' \<and> free d1 c' = free d c'"
    "\<forall>c'. dvalid c' \<and> c' \<noteq> c \<longrightarrow> block d1 c' = block d c'"
    using delete_entries_marks [OF dv loc le_add1 q assms(1) it(2)] by (auto simp del: upt_Suc)
  have mid: "is_empty_middle (bytes_entry x) \<and> \<not> is_empty_end (bytes_entry x)" if mx: "x \<in> set ?del" for x
  proof -
    obtain j where jx: "j \<in> set [k..<Suc (k + n)]" "x = deleted_slot (dir_slot b (block d) [c] j)"
      using mx unfolding set_map by blast
    then have "k \<le> j \<and> j < Suc (k + n)" by (simp only: set_upt atLeastLessThan_iff)
    then have j: "j < ?m" "x = deleted_slot (dir_slot b (block d) [c] j)" using q jx(2) by simp_all
    have "length (dir_slot b (block d) [c] j) = 32" using slot_size [of "dir_slot b (block d) [c] j" d c] j(1) by (simp add: dir_slots_def)
    then show ?thesis using deleted_slot_middle j(2) by blast
  qed
  have len: "length ?del = Suc n" by simp
  obtain xs ys where li: "listing ?loc 0 ?S = xs @ f # ys" "listing ?loc 0 (dir_slots b (block d1) [c]) = xs @ ys"
    "tidy (dir_slots b (block d1) [c])" "dir_wf ?m 0 ?S \<and> 0 + Suc (k + n) < ?m \<longrightarrow> dir_wf ?m 0 (dir_slots b (block d1) [c])"
    using kn(4) [unfolded removable_def] len mid unfolding d1(3) by blast
  obtain d' where d': "free_chain ms b d1 (cluster_of (fentry f)) = Some d'" "fok d'"
    "\<forall>c. evalid c \<longrightarrow> entry d' c = (if c \<in> set cs then 0 else entry d1 c)"
    "\<forall>c. evalid c \<and> c \<notin> set cs \<longrightarrow> free d' c = free d1 c" "\<forall>c. dvalid c \<longrightarrow> block d' c = block d1 c"
  proof (cases "cs = []")
    case True
    then have "free_chain ms b d1 (cluster_of (fentry f)) = Some d1"
      using fc by (subst free_chain.simps) (simp add: file_chain_def)
    then show ?thesis using that [of d1] d1(2) True by simp
  next
    case False
    have "chain (entry d) cs" "cluster_of (fentry f) = hd cs" using fc False by (simp_all add: file_chain_def)
    moreover have "chain ent xs \<Longrightarrow> \<forall>x \<in> set xs. ent' x = ent x \<Longrightarrow> chain ent' xs" for ent ent' xs
      by (induction ent xs rule: chain.induct) auto
    ultimately have "chain (entry d1) cs" using d1(4) cs(1) by (simp add: clusters_ok_def)
    then show ?thesis using that free_chain_frees [OF d1(2) _ cs(1)] \<open>cluster_of (fentry f) = hd cs\<close> by metis
  qed
  have run: "delete_file ms d b f = Some (d', FS_DELETED)" using first it(1) d1(1) d'(1) by (simp add: delete_file_def)
  have bl: "block d' c = block d1 c" using d'(5) dv by blast
  then have sl: "dir_slots b (block d') [c] = dir_slots b (block d1) [c]"
    by (intro nth_equalityI) (simp_all add: dir_slot_def)
  have "unat (entry_idx (location f)) = k + n" using q index_word [OF assms(1) q] by (simp add: loc(2) slot_location_def)
  then have wf: "dir_wf ?m 0 ?S \<and> Suc (unat (entry_idx (location f))) < ?m \<longrightarrow> dir_wf ?m 0 (dir_slots b (block d') [c])"
    using li(4) unfolding sl by simp
  have ents: "entries_of b (block d) [c] = xs @ f # ys" "entries_of b (block d') [c] = xs @ ys" "tidy (dir_slots b (block d') [c])"
    unfolding entries_of_def sl by (fact li)+
  have "\<forall>c'. evalid c' \<longrightarrow> entry d' c' = (if c' \<in> set cs then 0 else entry d c')"
    "\<forall>c'. evalid c' \<and> c' \<notin> set cs \<longrightarrow> free d' c' = free d c'" "\<forall>c'. dvalid c' \<and> c' \<noteq> c \<longrightarrow> block d' c' = block d c'"
    using d'(3-5) d1(4,5) by simp_all
  then show ?thesis using run d'(2) ents wf by blast
qed

end

end
