(* ===== verification/Fat_Paths.thy ===== *)
theory Fat_Paths
  imports Fat_Driver Fat_Delete
begin

text \<open>
  What the FAT driver promises to the virtual file system: directories are read as lists of entries, paths are
  looked up in the tree of these lists, and creating and deleting a file adds and removes one entry, when the
  directories are well formed. The test for existence with which \<open>create\<close> begins reads a destroyed list
  (\<open>create_reads_destroyed_list\<close>), so creation is stated of \<open>create_file\<close>.
\<close>

section \<open>Reading\<close>



section \<open>Writing\<close>

interpretation fx: fat_deletes ms b "\<lambda>d. fat_volume ms ok disk n b \<and> ok d" "entry_ok b" "data_ok n b"
  "table_entry disk b" "table_free disk b" "data_block disk b" for ms b ok disk n
proof unfold_locales
  fix d :: 'a and c assume a: "fat_volume ms ok disk n b \<and> ok d" "entry_ok b c"
  have e: "even (unat (fat_size_32 b))" "unat (fat_size_32 b) < 2 ^ 21" using a(1) by (simp_all add: fat_volume_def)
  have "unat (fat_size_32 b) \<noteq> 2 ^ 21 - 1"
  proof
    assume x: "unat (fat_size_32 b) = 2 ^ 21 - 1"
    show False using e(1) unfolding x by simp
  qed
  then have "unat c < 128 * (2 ^ 21 - 1)" using e(2) a(2) by (simp add: entry_ok_def)
  moreover have "unat MAX_CLUSTER_COUNT = 0x0FFFFFF0" by (simp add: MAX_CLUSTER_COUNT_def)
  ultimately show "c < MAX_CLUSTER_COUNT" by (simp add: word_less_nat_alt)
qed

text \<open>
  A directory with one cluster that the driver can change: it is read as intended, its runs of entries are
  complete and nothing is stored behind its first unused entry.
\<close>

definition single_dir :: "nat \<Rightarrow> ('d \<Rightarrow> nat \<Rightarrow> u8) \<Rightarrow> boot_record \<Rightarrow> 'd \<Rightarrow> u32 \<Rightarrow> bool" where
  "single_dir n disk b d c \<longleftrightarrow> directory_on n disk b d [c] c \<and> tidy (dir_slots b (data_block disk b d) [c])"

text \<open>The directory has a gap for the entries of a name.\<close>

definition has_room :: "('d \<Rightarrow> nat \<Rightarrow> u8) \<Rightarrow> boot_record \<Rightarrow> 'd \<Rightarrow> u32 \<Rightarrow> string \<Rightarrow> bool" where
  "has_room disk b d c nm \<longleftrightarrow> first_gap (Suc (piece_count nm)) (dir_slots b (data_block disk b d) [c]) \<noteq> None"

lemma single_dirD:
  assumes "single_dir n disk b d c"
  shows "dir_ok (entry_ok b) (data_ok n b) (table_entry disk b d) [c] c"
    and "dir_wf (entries_per_cluster b) 0 (dir_slots b (data_block disk b d) [c])"
    and "tidy (dir_slots b (data_block disk b d) [c])"
  using assms by (simp_all add: single_dir_def directory_on_def good_dir_def)

lemma single_dirI:
  assumes "dir_ok (entry_ok b) (data_ok n b) (table_entry disk b d) [c] c" and "table_entry disk b d' c = table_entry disk b d c"
    and "dir_wf (entries_per_cluster b) 0 (dir_slots b (data_block disk b d') [c])" and "tidy (dir_slots b (data_block disk b d') [c])"
  shows "single_dir n disk b d' c"
  using assms by (simp add: single_dir_def directory_on_def good_dir_def dir_ok_def)

lemma file_attributes:
  assumes "attrs AND NODE_DIRECTORY = 0"
  shows "\<not> bit (node_attributes_to_fat_file_attributes attrs) 3" and "\<not> bit (node_attributes_to_fat_file_attributes attrs) 4"
    and "node_attributes_to_fat_file_attributes attrs AND DIRECTORY = 0"
  using assms
  by (simp_all add: node_attributes_to_fat_file_attributes_def Let_def READONLY_def HIDDEN_def SYSTEM_def DIRECTORY_def ARCHIVE_def)

text \<open>
  Before it creates a node, the driver looks for one with the path: it reads the parts of the path out of a destroyed list,
  so the behaviour of \<open>create\<close> on a mounted volume is not defined. What follows is about the step behind this test.
\<close>

lemma create_reads_destroyed_list:
  "node_exists ms d b p = None"
  "find_storage_dev_ref s h = Some b \<Longrightarrow> split p SEP \<noteq> [] \<Longrightarrow> fat_create dev d s h p attrs = None"
proof -
  show exists: "node_exists ms d b p = None" for ms :: "'d msd_ops" and d b p
    by (cases "split p SEP") (simp_all add: node_exists_def destroyed_def)
  show "find_storage_dev_ref s h = Some b \<Longrightarrow> split p SEP \<noteq> [] \<Longrightarrow> fat_create dev d s h p attrs = None"
    by (simp add: fat_create_def exists [of "dev h" d b p])
qed

lemma file_listed:
  assumes "fat_volume ms ok disk n b" and "ok d" and "single_dir n disk b d c" and "attrs AND NODE_DIRECTORY = 0"
    and "parent_at ms d b p c" and "storable_name (get_file_name p)" and "has_room disk b d c (get_file_name p)"
  shows "\<exists>d' e xs ys. create_file ms d b p (node_attributes_to_fat_file_attributes attrs) = Some (d', FS_CREATED) \<and>
    ok d' \<and> single_dir n disk b d' c \<and>
    list_dir disk b d [c] = xs @ ys \<and> list_dir disk b d' [c] = xs @ e # ys \<and> file_name e = get_file_name p \<and>
    attributes (fentry e) = node_attributes_to_fat_file_attributes attrs \<and> cluster_of (fentry e) = 0 \<and>
    (\<forall>c'. entry_ok b c' \<longrightarrow> table_entry disk b d' c' = table_entry disk b d c') \<and>
    (\<forall>c'. data_ok n b c' \<and> c' \<noteq> c \<longrightarrow> data_block disk b d' c' = data_block disk b d c')"
proof -
  note dir = single_dirD [OF assms(3)] and a = file_attributes [OF assms(4)]
  obtain g where g: "first_gap (Suc (piece_count (get_file_name p))) (dir_slots b (data_block disk b d) [c]) = Some g"
    using assms(7) by (auto simp: has_room_def)
  obtain d' e xs ys where e: "create_file ms d b p (node_attributes_to_fat_file_attributes attrs) = Some (d', FS_CREATED)"
    "ok d'" "entries_of b (data_block disk b d) [c] = xs @ ys" "entries_of b (data_block disk b d') [c] = xs @ e # ys"
    "file_name e = get_file_name p" "attributes (fentry e) = node_attributes_to_fat_file_attributes attrs" "cluster_of (fentry e) = 0"
    "dir_wf (entries_per_cluster b) 0 (dir_slots b (data_block disk b d') [c])" "tidy (dir_slots b (data_block disk b d') [c])"
    "\<forall>c'. entry_ok b c' \<longrightarrow> table_entry disk b d' c' = table_entry disk b d c'"
    "\<forall>c'. data_ok n b c' \<and> c' \<noteq> c \<longrightarrow> data_block disk b d' c' = data_block disk b d c'"
    using fd.create_file_adds_entry [OF conjI [OF assms(1,2)] dir(1,3,2) assms(5,6) g a(1,2)] by blast
  have "entry_ok b c" using dir(1) by (simp add: dir_ok_def clusters_ok_def)
  then have "single_dir n disk b d' c" using single_dirI [OF dir(1) _ e(8,9)] e(10) by blast
  then show ?thesis using e unfolding list_dir_def by blast
qed


text \<open>The driver deletes a file.\<close>

lemma fat_delete_file:
  assumes "fat_volume (dev h) ok disk n b" and "ok d" and "find_storage_dev_ref s h = Some b" and "single_dir n disk b d c"
    and "split p SEP \<noteq> []" and "search (dev h) d b p = Some (VA_OKAY, f)" and "f \<in> set (list_dir disk b d [c])"
    and "\<not> has_attribute (fentry f) DIRECTORY" and "first_lfn_entry f \<noteq> no_location"
    and "file_chain (table_entry disk b d) cs (cluster_of (fentry f))" and "clusters_ok (entry_ok b) cs" and "c \<notin> set cs"
  shows "\<exists>d' xs ys. fat_delete_node dev d s h p = Some (d', FS_DELETED) \<and> ok d' \<and>
    list_dir disk b d [c] = xs @ f # ys \<and> list_dir disk b d' [c] = xs @ ys \<and>
    (Suc (unat (entry_idx (location f))) < entries_per_cluster b \<longrightarrow> single_dir n disk b d' c) \<and>
    (\<forall>c'. entry_ok b c' \<longrightarrow> table_entry disk b d' c' = (if c' \<in> set cs then 0 else table_entry disk b d c')) \<and>
    (\<forall>c'. data_ok n b c' \<and> c' \<noteq> c \<longrightarrow> data_block disk b d' c' = data_block disk b d c')"
proof -
  note dir = single_dirD [OF assms(4)]
  obtain d' xs ys where d': "delete_file (dev h) d b f = Some (d', FS_DELETED)" "ok d'"
    "entries_of b (data_block disk b d) [c] = xs @ f # ys" "entries_of b (data_block disk b d') [c] = xs @ ys"
    "tidy (dir_slots b (data_block disk b d') [c])"
    "Suc (unat (entry_idx (location f))) < entries_per_cluster b \<longrightarrow> dir_wf (entries_per_cluster b) 0 (dir_slots b (data_block disk b d') [c])"
    "\<forall>c'. entry_ok b c' \<longrightarrow> table_entry disk b d' c' = (if c' \<in> set cs then 0 else table_entry disk b d c')"
    "\<forall>c'. data_ok n b c' \<and> c' \<noteq> c \<longrightarrow> data_block disk b d' c' = data_block disk b d c'"
    using fx.delete_file_removes_entry [OF conjI [OF assms(1,2)] dir(1,3) assms(7) [unfolded list_dir_def] assms(9-12)] dir(2) by blast
  have "entry_ok b c" using dir(1) by (simp add: dir_ok_def clusters_ok_def)
  then have "table_entry disk b d' c = table_entry disk b d c" using d'(7) assms(12) by simp
  then have "Suc (unat (entry_idx (location f))) < entries_per_cluster b \<longrightarrow> single_dir n disk b d' c"
    using single_dirI [OF dir(1) _ _ d'(5)] d'(6) by blast
  moreover have "fat_delete_node dev d s h p = Some (d', FS_DELETED)"
    using assms(3,5,6,8) d'(1) by (simp add: fat_delete_node_def)
  ultimately show ?thesis using d' unfolding list_dir_def by blast
qed

text \<open>
  C25. Deleting a file with a long name in a directory of one cluster that is read as intended: \<open>delete\<close> removes the entry of
  the file, and no other entry, from the listing of its directory and frees the clusters of the file, a chain that ends, and no
  others. The directory can be read as before unless the entry is the last one of the cluster. Files with a short name only are
  excluded: for them entries are marked at the wrong place.
\<close>

theorem deleted_file_is_gone:
  assumes "fat_volume (dev h) ok disk n b" and "ok d" and "find_storage_dev_ref s h = Some b" and "single_dir n disk b d c"
    and "split p SEP \<noteq> []" and "search (dev h) d b p = Some (VA_OKAY, f)" and "f \<in> set (list_dir disk b d [c])"
    and "\<not> has_attribute (fentry f) DIRECTORY" and "first_lfn_entry f \<noteq> no_location"
    and "file_chain (table_entry disk b d) cs (cluster_of (fentry f))" and "clusters_ok (entry_ok b) cs" and "c \<notin> set cs"
  shows "\<exists>d' xs ys. fat_delete_node dev d s h p = Some (d', FS_DELETED) \<and> ok d' \<and>
    list_dir disk b d [c] = xs @ f # ys \<and> list_dir disk b d' [c] = xs @ ys \<and>
    (Suc (unat (entry_idx (location f))) < entries_per_cluster b \<longrightarrow> single_dir n disk b d' c) \<and>
    (\<forall>c'. entry_ok b c' \<longrightarrow> table_entry disk b d' c' = (if c' \<in> set cs then 0 else table_entry disk b d c')) \<and>
    (\<forall>c'. data_ok n b c' \<and> c' \<noteq> c \<longrightarrow> data_block disk b d' c' = data_block disk b d c')"
  by (rule fat_delete_file [where dev = dev and h = h, OF assms])

section \<open>Creating and finding a file\<close>

lemma single_bit: "x AND push_bit k 1 = (if bit x k then push_bit k 1 else 0)" for x :: u8
  by (rule bit_word_eqI) (auto simp: bit_simps)

lemma attribute_bits:
  fixes x :: u8
  shows "x AND 1 = 0 \<or> x AND 1 = 1" "x AND 2 = 0 \<or> x AND 2 = 2" "x AND 4 = 0 \<or> x AND 4 = 4" "x AND 8 = 0 \<or> x AND 8 = 8"
    "x AND 16 = 0 \<or> x AND 16 = 16"
  using single_bit [of x 0] single_bit [of x 1] single_bit [of x 2] single_bit [of x 3] single_bit [of x 4]
  by (simp_all add: push_bit_eq_mult split: if_splits)

text \<open>The attributes of a node survive the way to the directory entry and back.\<close>

lemma node_attributes_roundtrip:
  assumes "attributes e = node_attributes_to_fat_file_attributes attrs"
  shows "node_attributes e = attrs AND 0x1F"
proof -
  have bits: "attrs AND 0x1F = (attrs AND 1) OR (attrs AND 2) OR (attrs AND 4) OR (attrs AND 8) OR (attrs AND 16)"
    unfolding bit.conj_disj_distrib [symmetric] by simp
  note defs = node_attributes_to_fat_file_attributes_def NODE_READONLY_def NODE_HIDDEN_def NODE_SYSTEM_def NODE_DIRECTORY_def
    NODE_FILE_def READONLY_def HIDDEN_def SYSTEM_def VOLUME_ID_def DIRECTORY_def ARCHIVE_def Let_def
  have fat: "attributes e = (if attrs AND 1 = 0 then 0 else 1) OR (if attrs AND 2 = 0 then 0 else 2) OR
      (if attrs AND 4 = 0 then 0 else 4) OR (if attrs AND 8 = 0 then 0 else 0x10) OR (if attrs AND 16 = 0 then 0 else 0x20)"
    unfolding assms by (simp add: defs)
  have "has_attribute e READONLY \<longleftrightarrow> attrs AND 1 \<noteq> 0" "has_attribute e HIDDEN \<longleftrightarrow> attrs AND 2 \<noteq> 0"
    "has_attribute e SYSTEM \<longleftrightarrow> attrs AND 4 \<noteq> 0" "has_attribute e DIRECTORY \<longleftrightarrow> attrs AND 8 \<noteq> 0"
    "has_attribute e ARCHIVE \<longleftrightarrow> attrs AND 16 \<noteq> 0"
    unfolding has_attribute_def fat by (simp_all add: defs)
  then show ?thesis
    unfolding bits node_attributes_def using attribute_bits [of attrs] by (auto simp: defs)
qed

lemma find_behind: "find P xs = None \<Longrightarrow> find P (xs @ ys) = find P ys"
  by (induction xs) (auto split: if_splits)

lemma root_path:
  assumes "SEP \<notin> set p" and "p \<noteq> []" and "p \<noteq> ''.''" and "p \<noteq> ''..''"
  shows "split p SEP = [p]" and "get_file_name p = p" and "resolve (get_parent p) '''' = ''''"
proof -
  have l: "last_index_of p SEP = - 1" using assms(1) using last_index_loop_none [of "length p" p 0 SEP] by (auto simp: last_index_of_def in_set_conv_nth)
  show "split p SEP = [p]" using assms(1,2) by (simp add: split_tokens tokens_no_sep)
  show "get_file_name p = p" by (simp add: get_file_name_def l substring_def)
  have "get_parent p = ''.''" using assms l by (auto simp: get_parent_def SEP_def)
  moreover have "split ''.'' SEP = [''.'']" by (simp add: split_tokens tokens_no_sep SEP_def)
  ultimately show "resolve (get_parent p) '''' = ''''" by (simp add: resolve_def)
qed

lemma navigate_root:
  assumes "fat_volume ms ok disk n b" and "ok d" and "single_dir n disk b d (root_cluster b)"
  shows "navigate_to ms d b (root_cluster b) [w] = Some
    (case find (\<lambda>e. file_name e = w) (list_dir disk b d [root_cluster b]) of
       None \<Rightarrow> (NAV_NOT_FOUND, no_entry) | Some e \<Rightarrow> (NAV_FOUND, e))"
proof -
  have "good_dir (entry_ok b) (data_ok n b) (table_entry disk b d) (data_block disk b d) b [root_cluster b] (root_cluster b)"
    using assms(3) by (simp add: single_dir_def directory_on_def)
  then have "navigate_to ms d b (root_cluster b) [w] =
      Some (lookup (\<lambda>x. entries_of b (data_block disk b d) [x]) (root_cluster b) [w])"
    by (intro fd.navigate_to_lookup [OF conjI [OF assms(1,2)], where cls = "\<lambda>x. [x]"]) (simp_all split: option.splits)
  then show ?thesis by (simp add: list_dir_def split: option.splits)
qed


section \<open>An example\<close>

text \<open>The root directory of the example volume is empty; a file is created in it.\<close>

definition demo_driver :: fat_driver where "demo_driver = \<lparr>storage_dev_refs = [(7, small_volume)]\<rparr>"

abbreviation demo_dev :: "u16 \<Rightarrow> u8 list msd_ops" where "demo_dev \<equiv> (\<lambda>_. ram_ops)"

lemma demo_mounted: "find_storage_dev_ref demo_driver 7 = Some small_volume"
  by (simp add: demo_driver_def find_storage_dev_ref_def)

lemma demo_root: "root_cluster small_volume = 2"
  by (simp add: small_volume_def make_new_boot_record_def Let_def)

lemma map_const: "(\<And>i. i < k \<Longrightarrow> f (a + i) = v) \<Longrightarrow> map f [a..<a + k] = replicate k v"
  by (intro nth_equalityI) simp_all

lemma demo_root_block: "data_block (!) small_volume demo_disk 2 = replicate 512 0"
proof -
  have "data_pos small_volume 2 = 2560" by (simp add: data_pos_def small_volume_def make_new_boot_record_def Let_def)
  moreover have "demo_disk ! i = 0" if "1536 \<le> i" "i < 3072" for i
    using that by (auto simp: demo_disk_def nth_append)
  ultimately show ?thesis unfolding data_block_def demo_sizes(1) by (intro map_const) simp
qed

lemma demo_slots: "dir_slots small_volume (data_block (!) small_volume demo_disk) [2] = replicate 16 (replicate 32 0)"
  by (intro nth_equalityI) (simp_all add: dir_slot_def demo_sizes demo_root_block)

lemma zero_slot: "is_empty_end (bytes_entry (replicate 32 0))" "empty_slot (replicate 32 0)"
  by (simp_all add: is_empty_end_def empty_slot_def entry_first_byte MARK_EMPTY_END_def)

lemma demo_dir: "single_dir 12 (!) small_volume demo_disk 2" "list_dir (!) small_volume demo_disk [2] = []"
proof -
  have r: "replicate 16 (replicate 32 (0 :: u8)) = replicate 32 0 # replicate 15 (replicate 32 0)" by (simp add: eval_nat_numeral)
  have "dir_ok (entry_ok small_volume) (data_ok 12 small_volume) (table_entry (!) small_volume demo_disk) [2] 2"
    by (simp add: dir_ok_def clusters_ok_def demo_sizes demo_entries MAX_CLUSTER_COUNT_def)
  then show "single_dir 12 (!) small_volume demo_disk 2"
    unfolding single_dir_def directory_on_def good_dir_def demo_slots r by (simp add: zero_slot Let_def)
  show "list_dir (!) small_volume demo_disk [2] = []"
    unfolding list_dir_def entries_of_def demo_slots r by (simp add: zero_slot Let_def)
qed

lemma demo_name: "storable_name ''notes.txt''" "piece_count ''notes.txt'' = 1" "SEP \<notin> set ''notes.txt''"
  by code_simp+

lemma demo_gap: "first_gap 2 (dir_slots small_volume (data_block (!) small_volume demo_disk) [2]) = Some 0"
proof -
  have "replicate 16 (replicate 32 (0 :: u8)) = replicate 32 0 # replicate 15 (replicate 32 0)" by (simp add: eval_nat_numeral)
  then show ?thesis unfolding demo_slots by (simp add: zero_slot take_Cons')
qed

lemma demo_room: "has_room (!) small_volume demo_disk 2 ''notes.txt''"
  using demo_gap by (simp add: has_room_def demo_name numeral_2_eq_2 [symmetric])

text \<open>The volume with the file.\<close>

lemma demo_with_file:
  "\<exists>d e. create_file ram_ops demo_disk small_volume ''notes.txt'' 0x20 = Some (d, FS_CREATED) \<and> length d = 12 * 512 \<and>
     single_dir 12 (!) small_volume d 2 \<and> list_dir (!) small_volume d [2] = [e] \<and> file_name e = ''notes.txt'' \<and>
     attributes (fentry e) = 0x20 \<and> cluster_of (fentry e) = 0 \<and> entry_idx (location e) = 1 \<and> first_lfn_entry e \<noteq> no_location"
proof -
  note dir = single_dirD [OF demo_dir(1)]
  have p: "get_file_name ''notes.txt'' = ''notes.txt''" "resolve (get_parent ''notes.txt'') '''' = ''''"
    using root_path(2,3) [OF demo_name(3)] by simp_all
  have par: "parent_at ram_ops demo_disk small_volume ''notes.txt'' 2"
    by (simp add: parent_at_def p(2) split_tokens tokens_no_sep demo_root)
  obtain d e xs ys where e: "create_file ram_ops demo_disk small_volume ''notes.txt'' 0x20 = Some (d, FS_CREATED)"
    "length d = 12 * 512"
    "entries_of small_volume (data_block (!) small_volume demo_disk) [2] = xs @ ys"
    "entries_of small_volume (data_block (!) small_volume d) [2] = xs @ e # ys" "file_name e = ''notes.txt''"
    "attributes (fentry e) = 0x20" "cluster_of (fentry e) = 0" "first_lfn_entry e = slot_location small_volume [2] 0"
    "location e = slot_location small_volume [2] (0 + 1)"
    "dir_wf (entries_per_cluster small_volume) 0 (dir_slots small_volume (data_block (!) small_volume d) [2])"
    "tidy (dir_slots small_volume (data_block (!) small_volume d) [2])"
    "\<forall>c'. entry_ok small_volume c' \<longrightarrow> table_entry (!) small_volume d c' = table_entry (!) small_volume demo_disk c'"
    using fd.create_file_adds_entry [where attrs = "0x20" and g = 0, OF conjI [OF small_volume_ok demo_length] dir(1,3,2) par,
        unfolded p(1) demo_name(2)] demo_name(1) demo_gap by (auto simp: numeral_2_eq_2)
  have "single_dir 12 (!) small_volume d 2" using single_dirI [OF dir(1) _ e(10,11)] e(12) demo_sizes(3) by simp
  moreover have "xs = []" "ys = []" using e(3) demo_dir(2) by (simp_all add: list_dir_def)
  moreover have "entry_idx (location e) = 1" "first_lfn_entry e \<noteq> no_location"
    using e(8,9) by (simp_all add: slot_location_def demo_sizes no_location_def)
  ultimately show ?thesis using e by (auto simp: list_dir_def)
qed



text \<open>A directory of two clusters, 2 and 4: sixteen entries fill the first one, and one stands in the second.\<close>

definition short_entry :: "u8 \<Rightarrow> u8 list" where "short_entry c = c # replicate 10 0x20 @ 0x20 # replicate 20 0"

definition wide_disk :: "u8 list" where
  "wide_disk = replicate 520 0 @ [4, 0, 0, 0] @ [0xFF, 0xFF, 0xFF, 0x0F] @ [0xFF, 0xFF, 0xFF, 0x0F] @ replicate 16 0 @ replicate 988 0xFF @
     replicate 1024 0 @ concat (replicate 16 (short_entry 65)) @ replicate 512 0 @ short_entry 66 @ replicate 2528 0"

lemma short_entry:
  "length (short_entry c) = 32"
  "\<not> is_empty_end (bytes_entry (short_entry 65))" "\<not> is_empty_middle (bytes_entry (short_entry 65))"
  "attributes (bytes_entry (short_entry 65)) \<noteq> LONG_FILE_NAME" "make_short_name (bytes_entry (short_entry 65)) = ''A''"
  "\<not> is_empty_end (bytes_entry (short_entry 66))" "\<not> is_empty_middle (bytes_entry (short_entry 66))"
  "attributes (bytes_entry (short_entry 66)) \<noteq> LONG_FILE_NAME" "make_short_name (bytes_entry (short_entry 66)) = ''B''"
  by (simp add: short_entry_def, code_simp, code_simp, code_simp, code_simp, code_simp, code_simp, code_simp, code_simp)

lemma short_run:
  assumes "\<not> is_empty_end (bytes_entry r)" "\<not> is_empty_middle (bytes_entry r)" "attributes (bytes_entry r) \<noteq> LONG_FILE_NAME"
  shows "dir_wf m i (replicate k r @ rs) = dir_wf m (i + k) rs"
    and "map file_name (listing loc i (replicate k r @ rs)) = replicate k (make_short_name (bytes_entry r)) @ map file_name (listing loc (i + k) rs)"
  using assms by (induction k arbitrary: i) (simp_all add: Let_def)

lemma wide_length: "length wide_disk = 12 * 512"
  by (simp add: wide_disk_def short_entry(1) length_concat sum_list_replicate)

lemma wide_chain: "dir_ok (entry_ok small_volume) (data_ok 12 small_volume) (table_entry (!) small_volume wide_disk) [2, 4] 2"
proof -
  have "table_entry (!) small_volume wide_disk 2 = 4" "table_entry (!) small_volume wide_disk 4 = 0x0FFFFFFF" by code_simp+
  then show ?thesis by (simp add: dir_ok_def clusters_ok_def demo_sizes MAX_CLUSTER_COUNT_def)
qed

lemma map_nth_middle: "map ((!) (xs @ ys @ zs)) [length xs..<length xs + length ys] = ys"
  by (intro nth_equalityI) (simp_all add: nth_append)

lemma wide_blocks:
  "data_block (!) small_volume wide_disk 2 = concat (replicate 16 (short_entry 65))"
  "data_block (!) small_volume wide_disk 4 = short_entry 66 @ replicate 480 0"
proof -
  define xs where "xs = replicate 520 0 @ [4, 0, 0, 0] @ [0xFF, 0xFF, 0xFF, 0x0F] @ [0xFF, 0xFF, 0xFF, 0x0F] @ replicate 16 0 @
    replicate 988 0xFF @ replicate 1024 (0 :: u8)"
  define as where "as = concat (replicate 16 (short_entry 65))"
  have len: "length xs = 2560" "length as = 512" by (simp_all add: xs_def as_def short_entry(1) length_concat sum_list_replicate)
  have d: "wide_disk = xs @ as @ replicate 512 0 @ short_entry 66 @ replicate 2528 0" by (simp only: wide_disk_def xs_def as_def append_assoc)
  have "wide_disk = (xs @ as @ replicate 512 0) @ (short_entry 66 @ replicate 480 0) @ replicate 2048 0"
    unfolding d by (simp add: replicate_add [symmetric])
  moreover have p: "data_pos small_volume 2 = length xs" "data_pos small_volume 4 = length (xs @ as @ replicate 512 (0 :: u8))"
    by (simp_all only: length_append len length_replicate) (simp_all add: data_pos_def small_volume_def make_new_boot_record_def Let_def)
  moreover have c: "512 = length as" "512 = length (short_entry 66 @ replicate 480 0)" by (simp_all add: len short_entry(1))
  ultimately show "data_block (!) small_volume wide_disk 4 = short_entry 66 @ replicate 480 0"
    unfolding data_block_def demo_sizes(1) by (metis map_nth_middle)
  show "data_block (!) small_volume wide_disk 2 = concat (replicate 16 (short_entry 65))"
    unfolding data_block_def demo_sizes(1) p d as_def [symmetric] by (metis c(1) map_nth_middle)
qed

lemma slice_of_copies: "length r = m \<Longrightarrow> i < k \<Longrightarrow> take m (drop (m * i) (concat (replicate k r))) = r"
proof (induction k arbitrary: i)
  case (Suc k)
  then show ?case by (cases i) simp_all
qed simp

lemma wide_slots:
  "dir_slots small_volume (data_block (!) small_volume wide_disk) [2, 4] =
     replicate 16 (short_entry 65) @ short_entry 66 # replicate 15 (replicate 32 0)"
proof (rule nth_equalityI)
  fix i assume "i < length (dir_slots small_volume (data_block (!) small_volume wide_disk) [2, 4])"
  then have i: "i < 32" by (simp add: demo_sizes)
  have slot: "dir_slots small_volume (data_block (!) small_volume wide_disk) [2, 4] ! i =
      take 32 (drop (32 * (i mod 16)) (data_block (!) small_volume wide_disk ([2, 4] ! (i div 16))))"
    using i by (simp add: demo_sizes dir_slot_def)
  show "dir_slots small_volume (data_block (!) small_volume wide_disk) [2, 4] ! i =
      (replicate 16 (short_entry 65) @ short_entry 66 # replicate 15 (replicate 32 0)) ! i"
  proof (cases "i < 16")
    case True
    then show ?thesis using slice_of_copies [OF short_entry(1), of i 16 65] unfolding slot by (simp add: wide_blocks nth_append)
  next
    case False
    define k where "k = i - 16"
    have k: "i = 16 + k" "k < 16" using False i by (simp_all add: k_def)
    then have "i mod 16 = k" "i div 16 = 1" by simp_all
    then show ?thesis using k unfolding slot by (cases k) (simp_all add: wide_blocks short_entry(1) nth_append)
  qed
qed (simp add: demo_sizes)



lemma deleted_file_is_gone_witness:
  "\<exists>d d'. create_file ram_ops demo_disk small_volume ''notes.txt'' 0x20 = Some (d, FS_CREATED) \<and>
    fat_delete_node demo_dev d demo_driver 7 ''notes.txt'' = Some (d', FS_DELETED) \<and>
    single_dir 12 (!) small_volume d' 2 \<and> list_dir (!) small_volume d' [2] = []"
proof -
  obtain d e where d: "create_file ram_ops demo_disk small_volume ''notes.txt'' 0x20 = Some (d, FS_CREATED)" "length d = 12 * 512"
    "single_dir 12 (!) small_volume d 2" "list_dir (!) small_volume d [2] = [e]" "file_name e = ''notes.txt''"
    "attributes (fentry e) = 0x20" "cluster_of (fentry e) = 0" "entry_idx (location e) = 1" "first_lfn_entry e \<noteq> no_location"
    using demo_with_file by blast
  have p: "split ''notes.txt'' SEP = [''notes.txt'']" using root_path(1) [OF demo_name(3)] by simp
  have "search ram_ops d small_volume ''notes.txt'' = Some (VA_OKAY, e)"
    using navigate_root [OF small_volume_ok d(2), unfolded demo_root, OF d(3)] d(4,5)
    by (simp add: search_def p root_cluster_of demo_root)
  moreover have "\<not> has_attribute (fentry e) DIRECTORY"
    by (simp add: has_attribute_def d(6) READONLY_def HIDDEN_def SYSTEM_def VOLUME_ID_def DIRECTORY_def)
  moreover have "file_chain (table_entry (!) small_volume d) [] (cluster_of (fentry e))" "clusters_ok (entry_ok small_volume) []"
    using d(7) by (simp_all add: file_chain_def clusters_ok_def)
  ultimately obtain d' xs ys where d': "fat_delete_node demo_dev d demo_driver 7 ''notes.txt'' = Some (d', FS_DELETED)"
    "list_dir (!) small_volume d [2] = xs @ e # ys" "list_dir (!) small_volume d' [2] = xs @ ys"
    "Suc (unat (entry_idx (location e))) < entries_per_cluster small_volume \<longrightarrow> single_dir 12 (!) small_volume d' 2"
    using deleted_file_is_gone [where dev = demo_dev and h = 7 and p = "''notes.txt''",
        OF small_volume_ok d(2) demo_mounted d(3), of e "[]"] d(4,9) by (auto simp: p)
  have "Suc (unat (entry_idx (location e))) < entries_per_cluster small_volume" by (simp add: d(8) demo_sizes)
  moreover have "xs = []" "ys = []" using d(4) d'(2) by (cases xs; simp)+
  ultimately show ?thesis using d(1) d' by auto
qed

end
