(* ===== verification/Vfs_References.thy ===== *)
theory Vfs_References
  imports Vfs Fat_Paths
begin

text \<open>
  What the virtual file system promises about open nodes: the reference counts are the numbers of open nodes of each
  path, a node that is open is never deleted, and one that was marked for deletion is deleted with its last handle,
  on a FAT volume as on any other. With a second mount point the search for the driver of a path is not defined.
\<close>

section \<open>Tables\<close>

lemma map_of_table_update: "map_of (table_update k f t) k' = (if k' = k then map_option f (map_of t k) else map_of t k')"
  by (induction t) auto

lemma keys_table_update [simp]: "map fst (table_update k f t) = map fst t"
  by (induction t) auto

lemma keys_table_remove: "map fst (table_remove k t) = remove1 k (map fst t)"
  by (induction t) auto

lemma map_of_table_remove:
  "distinct (map fst t) \<Longrightarrow> map_of (table_remove k t) k' = (if k' = k then None else map_of t k')"
  by (induction t) (auto simp: map_of_eq_None_iff [THEN iffD2])

lemma set_table_remove: "distinct (map fst t) \<Longrightarrow> set (table_remove k t) = {e \<in> set t. fst e \<noteq> k}"
  by (induction t) (auto simp: image_iff)

lemma set_table_update: "e \<in> set (table_update k f t) \<Longrightarrow> e \<in> set t \<or> (\<exists>x. (k, x) \<in> set t \<and> e = (k, f x))"
  by (induction t) (auto split: if_splits)

lemma filter_table_remove:
  "distinct (map fst t) \<Longrightarrow> map_of t k = Some x \<Longrightarrow>
    length (filter P t) = length (filter P (table_remove k t)) + (if P (k, x) then 1 else 0)"
  by (induction t) (auto split: if_splits)

lemma filter_table_update:
  assumes "\<And>x. P (k, f x) = P (k, x)"
  shows "length (filter P (table_update k f t)) = length (filter P t)"
proof (induction t)
  case (Cons e t)
  then show ?case using assms [of "snd e"] by (cases e) simp
qed simp

section \<open>References\<close>

definition open_count :: "('d, 'n, 's) vfs \<Rightarrow> string \<Rightarrow> nat" where
  "open_count v p = length (filter (\<lambda>e. vn_path (snd e) = p) (node_table v))"

definition refs_of :: "('d, 'n, 's) vfs \<Rightarrow> string \<Rightarrow> nat" where
  "refs_of v p = (case map_of (ref_table v) p of None \<Rightarrow> 0 | Some r \<Rightarrow> unat (nr_ref_count r))"

definition refs_ok :: "('d, 'n, 's) vfs \<Rightarrow> bool" where
  "refs_ok v \<longleftrightarrow> distinct (map fst (node_table v)) \<and> distinct (map fst (ref_table v)) \<and>
     (\<forall>(h, n) \<in> set (node_table v). vn_handle n = h \<and> h \<noteq> 0 \<and> h \<le> node_counter v \<and> is_absolute (vn_path n)) \<and>
     (\<forall>p. refs_of v p = open_count v p) \<and> (\<forall>(p, r) \<in> set (ref_table v). nr_ref_count r \<noteq> 0)"

lemma refs_okD:
  assumes "refs_ok v"
  shows "distinct (map fst (node_table v))" "distinct (map fst (ref_table v))" "refs_of v p = open_count v p"
    "map_of (node_table v) h = Some n \<Longrightarrow> vn_handle n = h \<and> h \<noteq> 0 \<and> h \<le> node_counter v \<and> is_absolute (vn_path n)"
    "map_of (ref_table v) q = Some r \<Longrightarrow> nr_ref_count r \<noteq> 0"
  using assms by (auto simp: refs_ok_def dest!: map_of_SomeD)

lemma nodes_bounded:
  assumes "refs_ok v"
  shows "length (node_table v) < 2 ^ 16"
proof -
  have "0 \<notin> fst ` set (node_table v)" using assms by (auto simp: refs_ok_def)
  then have "card (insert 0 (fst ` set (node_table v))) = Suc (length (node_table v))"
    using distinct_card [OF refs_okD(1) [OF assms]] by simp
  moreover have "card (insert 0 (fst ` set (node_table v))) \<le> card (UNIV :: u16 set)" by (intro card_mono) auto
  ultimately show ?thesis by (simp add: card_word)
qed

lemma open_count_less: "refs_ok v \<Longrightarrow> open_count v p < 2 ^ 16"
  unfolding open_count_def by (rule order_le_less_trans [OF length_filter_le nodes_bounded])

text \<open>Steps that leave the tables of nodes and references alone.\<close>

definition same_nodes :: "('d, 'n, 's) vfs \<Rightarrow> ('d, 'n, 's) vfs \<Rightarrow> bool" where
  "same_nodes v v' \<longleftrightarrow> node_table v' = node_table v \<and> ref_table v' = ref_table v \<and> node_counter v' = node_counter v"

lemma same_nodes_ok: "refs_ok v \<Longrightarrow> same_nodes v v' \<Longrightarrow> refs_ok v'"
  by (simp add: same_nodes_def refs_ok_def refs_of_def open_count_def)

lemma same_nodes_intros [simp]:
  "same_nodes v v" "same_nodes v (v\<lparr>world := d\<rparr>)" "same_nodes v (v\<lparr>world := d, mount_table := m\<rparr>)"
  by (simp_all add: same_nodes_def)

lemma mount_with_nodes: "mount_with drivers p h v = Some (v', st) \<Longrightarrow> same_nodes v v'"
proof (induction drivers p h v rule: mount_with.induct)
  case (2 n drv drivers p h v)
  then obtain d st0 where m: "drv_mount drv (world v) h = Some (d, st0)" by (auto split: option.splits)
  show ?case
  proof (cases "st0 = MOUNTED \<or> st0 = ALREADY_MOUNTED")
    case True
    then show ?thesis using 2(2) m by (auto simp: Let_def same_nodes_def)
  next
    case False
    then have "mount_with drivers p h (v\<lparr>world := d\<rparr>) = Some (v', st)" using 2(2) m by (simp add: Let_def)
    then have "same_nodes (v\<lparr>world := d\<rparr>) v'" using 2(1) m False by simp
    then show ?thesis by (simp add: same_nodes_def)
  qed
qed simp

lemma vfs_mount_nodes: "vfs_mount v p h = Some (v', st) \<Longrightarrow> same_nodes v v'"
proof -
  assume m: "vfs_mount v p h = Some (v', st)"
  have trans: "mount_with drivers p h (v\<lparr>world := d\<rparr>) = Some (v', st) \<Longrightarrow> same_nodes v v'" for drivers d
    using mount_with_nodes [of drivers p h "v\<lparr>world := d\<rparr>"] by (simp add: same_nodes_def)
  show ?thesis
    using m mount_with_nodes [of "driver_table v" p h v]
    by (auto simp: vfs_mount_def split: if_splits bind_splits intro: trans)
qed

lemma vfs_unmount_nodes: "vfs_unmount v p = Some (v', st) \<Longrightarrow> same_nodes v v'"
  by (auto simp: vfs_unmount_def split: if_splits bind_splits)

lemma vfs_create_nodes: "vfs_create v p attrs = Some (v', st) \<Longrightarrow> same_nodes v v'"
  by (auto simp: vfs_create_def split: if_splits bind_splits)

lemma vfs_info_nodes: "vfs_get_node_info v p = Some (v', r) \<Longrightarrow> same_nodes v v'"
  by (auto simp: vfs_get_node_info_def split: if_splits bind_splits)

lemma vfs_format_nodes: "vfs_format v n h = Some (v', st) \<Longrightarrow> same_nodes v v'"
  by (auto simp: vfs_format_def split: option.splits)

lemma vfs_stream_nodes: "vfs_open_directory_stream v p = Some (v', r) \<Longrightarrow> same_nodes v v'"
  by (auto simp: vfs_open_directory_stream_def fire_def same_nodes_def Let_def split: if_splits bind_splits sum.splits)

text \<open>Deleting changes the marks of the references at most.\<close>

lemma vfs_delete_cases:
  assumes "vfs_delete_node v p = Some (v', st)"
  shows "same_nodes v v' \<or> v' = v\<lparr>ref_table := table_update p (\<lambda>r. r\<lparr>nr_delete_this := True\<rparr>) (ref_table v)\<rparr>"
  using assms by (auto simp: vfs_delete_node_def Let_def split: if_splits bind_splits option.splits)

lemma refs_ok_mark:
  assumes "refs_ok v"
  shows "refs_ok (v\<lparr>ref_table := table_update p (\<lambda>r. r\<lparr>nr_delete_this := True\<rparr>) (ref_table v)\<rparr>)" (is "refs_ok ?v")
proof -
  have "refs_of ?v q = refs_of v q" for q by (simp add: refs_of_def map_of_table_update split: option.splits)
  moreover have "open_count ?v q = open_count v q" for q by (simp add: open_count_def)
  ultimately show ?thesis using assms set_table_update by (fastforce simp: refs_ok_def)
qed

lemma vfs_delete_ok: "refs_ok v \<Longrightarrow> vfs_delete_node v p = Some (v', st) \<Longrightarrow> refs_ok v' \<and> node_table v' = node_table v"
  using vfs_delete_cases [of v p v' st] refs_ok_mark [of v p] same_nodes_ok [of v v'] by (auto simp: same_nodes_def)

lemma vfs_open_cases:
  assumes "vfs_open v p mode = Some (v', r)" and "node_counter v < 65535"
  shows "same_nodes v v' \<or> is_absolute p \<and> (\<exists>n. r = Inr n \<and> vn_handle n = node_counter v + 1 \<and> vn_path n = p \<and>
    node_table v' = (node_counter v + 1, n) # node_table v \<and> node_counter v' = node_counter v + 1 \<and>
    ref_table v' = (if map_of (ref_table v) p = None then (p, \<lparr>nr_node_path = p, nr_ref_count = 1, nr_delete_this = False\<rparr>) # ref_table v
      else table_update p (\<lambda>r. r\<lparr>nr_ref_count := nr_ref_count r + 1\<rparr>) (ref_table v)))"
proof -
  have "node_counter v + 1 \<noteq> 0"
  proof
    assume "node_counter v + 1 = 0"
    then have "node_counter v = - 1" by (simp only: eq_neg_iff_add_eq_0)
    then show False using assms(2) by simp
  qed
  then have "release_last_acquired (acquire (node_counter v)) = node_counter v"
    by (simp add: release_last_acquired_def acquire_def word_gt_0)
  then show ?thesis
    using assms(1) by (auto simp: vfs_open_def Let_def fire_def same_nodes_def acquire_def split: if_splits bind_splits sum.splits)
qed

lemma vfs_open_ok:
  assumes ok: "refs_ok v" and c: "node_counter v < 65535" and o: "vfs_open v p mode = Some (v', r)"
  shows "refs_ok v'"
  using vfs_open_cases [OF o c]
proof
  assume "same_nodes v v'"
  then show ?thesis by (rule same_nodes_ok [OF ok])
next
  let ?h = "node_counter v + 1"
  let ?inc = "\<lambda>r. r\<lparr>nr_ref_count := nr_ref_count r + 1\<rparr>"
  assume "is_absolute p \<and> (\<exists>n. r = Inr n \<and> vn_handle n = node_counter v + 1 \<and> vn_path n = p \<and>
    node_table v' = (node_counter v + 1, n) # node_table v \<and> node_counter v' = node_counter v + 1 \<and>
    ref_table v' = (if map_of (ref_table v) p = None then (p, \<lparr>nr_node_path = p, nr_ref_count = 1, nr_delete_this = False\<rparr>) # ref_table v
      else table_update p (\<lambda>r. r\<lparr>nr_ref_count := nr_ref_count r + 1\<rparr>) (ref_table v)))"
  then obtain n where n: "is_absolute p" "vn_handle n = ?h" "vn_path n = p" "node_table v' = (?h, n) # node_table v" "node_counter v' = ?h"
    "ref_table v' = (if map_of (ref_table v) p = None then (p, \<lparr>nr_node_path = p, nr_ref_count = 1, nr_delete_this = False\<rparr>) # ref_table v
      else table_update p ?inc (ref_table v))" by blast
  have u: "unat ?h = unat (node_counter v) + 1" using c by (simp add: word_less_nat_alt unat_word_ariths)
  have le: "h \<le> node_counter v \<Longrightarrow> h < ?h" for h using u by (simp add: word_less_nat_alt word_le_nat_alt)
  have nt: "\<forall>(h, n) \<in> set (node_table v). vn_handle n = h \<and> h \<noteq> 0 \<and> h \<le> node_counter v \<and> is_absolute (vn_path n)"
    using ok by (simp add: refs_ok_def)
  have "?h \<notin> fst ` set (node_table v)" using nt le by fastforce
  then have dn: "distinct (map fst (node_table v'))" using refs_okD(1) [OF ok] n(4) by simp
  have nt': "\<forall>(h, n) \<in> set (node_table v'). vn_handle n = h \<and> h \<noteq> 0 \<and> h \<le> node_counter v' \<and> is_absolute (vn_path n)"
  proof -
    have "?h \<noteq> 0" using u by auto
    then show ?thesis using nt n le by (auto simp: less_imp_le)
  qed
  have oc: "open_count v' q = (if q = p then Suc (open_count v q) else open_count v q)" for q
    using n(3,4) by (simp add: open_count_def)
  have "length (node_table v') < 2 ^ 16"
  proof -
    have "0 \<notin> fst ` set (node_table v')" using nt' by fastforce
    then have "card (insert 0 (fst ` set (node_table v'))) = Suc (length (node_table v'))" using distinct_card [OF dn] by simp
    moreover have "card (insert 0 (fst ` set (node_table v'))) \<le> card (UNIV :: u16 set)" by (intro card_mono) auto
    ultimately show ?thesis by (simp add: card_word)
  qed
  then have "open_count v' p < 2 ^ 16" unfolding open_count_def by (rule order_le_less_trans [OF length_filter_le])
  then have room: "Suc (open_count v p) < 2 ^ 16" using oc [of p] by simp
  have refs: "refs_of v' q = (if q = p then Suc (refs_of v q) else refs_of v q)" for q
  proof (cases "map_of (ref_table v) p")
    case None
    then show ?thesis using n(6) by (simp add: refs_of_def)
  next
    case (Some r)
    have "unat (nr_ref_count r) = open_count v p" using refs_okD(3) [OF ok, of p] Some by (simp add: refs_of_def)
    then have "unat (nr_ref_count r + 1) = Suc (unat (nr_ref_count r))" using room by (simp add: unat_word_ariths)
    then show ?thesis using n(6) Some by (simp add: refs_of_def map_of_table_update)
  qed
  have dr: "distinct (map fst (ref_table v'))"
    using n(6) refs_okD(2) [OF ok] by (auto simp: map_of_eq_None_iff split: if_splits)
  moreover have "nr_ref_count r' \<noteq> 0" if "(q, r') \<in> set (ref_table v')" for q r'
  proof -
    have m: "map_of (ref_table v') q = Some r'" using dr that by simp
    show ?thesis
    proof (cases "q = p")
      case True
      then have "unat (nr_ref_count r') = Suc (refs_of v p)" using m refs [of p] by (simp add: refs_of_def)
      then show ?thesis by auto
    next
      case False
      then have "map_of (ref_table v) q = Some r'" using m n(6) by (auto simp: map_of_table_update split: if_splits)
      then show ?thesis using refs_okD(5) [OF ok] by blast
    qed
  qed
  moreover have "refs_of v' q = open_count v' q" for q using refs oc refs_okD(3) [OF ok] by simp
  ultimately show ?thesis unfolding refs_ok_def using dn nt' by blast
qed

text \<open>The state behind the change of the tables, before a node that is marked is deleted.\<close>

lemma close_tables:
  assumes ok: "refs_ok v" and n: "map_of (node_table v) h = Some n"
  obtains r where "map_of (ref_table v) (vn_path n) = Some r" "unat (nr_ref_count r) = open_count v (vn_path n)" "0 < open_count v (vn_path n)"
proof -
  have "filter (\<lambda>e. vn_path (snd e) = vn_path n) (node_table v) \<noteq> []" using map_of_SomeD [OF n] unfolding filter_empty_conv by force
  then have "0 < open_count v (vn_path n)" by (simp add: open_count_def)
  then show ?thesis using that refs_okD(3) [OF ok, of "vn_path n"] by (auto simp: refs_of_def split: option.splits)
qed

definition released :: "'n vfs_node \<Rightarrow> ('d, 'n, 's) vfs \<Rightarrow> ('d, 'n, 's) vfs" where
  "released n v = (fire (NODE_CLOSED (vn_handle n)) (v\<lparr>node_table := table_remove (vn_handle n) (node_table v)\<rparr>))
     \<lparr>ref_table := (if open_count v (vn_path n) = 1 then table_remove (vn_path n) (ref_table v)
                   else table_update (vn_path n) (\<lambda>r. r\<lparr>nr_ref_count := nr_ref_count r - 1\<rparr>) (ref_table v))\<rparr>"

lemma table_remove_update: "table_remove k (table_update k f t) = table_remove k t"
  by (induction t) auto

lemma close_node_run:
  assumes ok: "refs_ok v" and n: "map_of (node_table v) h = Some n" and r: "map_of (ref_table v) (vn_path n) = Some r"
  shows "close_node n v = map_option (\<lambda>v. (v, n\<lparr>vn_closed := True\<rparr>))
    (if open_count v (vn_path n) = 1 \<and> nr_delete_this r then map_option fst (vfs_delete_node (released n v) (vn_path n)) else Some (released n v))"
proof -
  obtain r' where r': "map_of (ref_table v) (vn_path n) = Some r'" "unat (nr_ref_count r') = open_count v (vn_path n)"
    using close_tables [OF ok n] by metis
  then have rc: "unat (nr_ref_count r) = open_count v (vn_path n)" using r by simp
  have z: "nr_ref_count r - 1 = 0 \<longleftrightarrow> open_count v (vn_path n) = 1"
  proof
    assume "nr_ref_count r - 1 = 0"
    then have "nr_ref_count r = 1" by simp
    then show "open_count v (vn_path n) = 1" using rc by simp
  next
    assume "open_count v (vn_path n) = 1"
    then have "nr_ref_count r = 1" using rc by (simp add: word_unat_eq_iff)
    then show "nr_ref_count r - 1 = 0" by simp
  qed
  have f: "(\<lambda>(v, st). v) = fst" by auto
  have "on_close_node (vn_path n) (vn_handle n) v =
    (if open_count v (vn_path n) = 1 \<and> nr_delete_this r then map_option fst (vfs_delete_node (released n v) (vn_path n)) else Some (released n v))"
  proof (cases "open_count v (vn_path n) = 1")
    case True
    then have "nr_ref_count r = 1" using z by simp
    then show ?thesis using r True
      by (simp add: on_close_node_def released_def fire_def Let_def table_remove_update f)
  next
    case False
    then have "nr_ref_count r - 1 \<noteq> 0" using z by simp
    then show ?thesis using r False by (simp add: on_close_node_def released_def fire_def Let_def)
  qed
  then show ?thesis by (simp add: close_node_def)
qed

lemma released_ok:
  assumes ok: "refs_ok v" and n: "map_of (node_table v) h = Some n"
  shows "refs_ok (released n v)" and "open_count (released n v) q = open_count v q - (if q = vn_path n then 1 else 0)"
    and "world (released n v) = world v" and "mount_table (released n v) = mount_table v" and "driver_table (released n v) = driver_table v"
    and "map_of (node_table (released n v)) h' = (if h' = h then None else map_of (node_table v) h')"
proof -
  let ?p = "vn_path n" let ?dec = "\<lambda>r. r\<lparr>nr_ref_count := nr_ref_count r - 1\<rparr>"
  have h: "vn_handle n = h" using refs_okD(4) [OF ok n] by blast
  show "world (released n v) = world v" "mount_table (released n v) = mount_table v" "driver_table (released n v) = driver_table v"
    by (simp_all add: released_def fire_def)
  have nt: "node_table (released n v) = table_remove h (node_table v)" by (simp add: released_def fire_def h)
  show "map_of (node_table (released n v)) h' = (if h' = h then None else map_of (node_table v) h')"
    unfolding nt by (rule map_of_table_remove [OF refs_okD(1) [OF ok]])
  have oc: "open_count (released n v) q = open_count v q - (if q = ?p then 1 else 0)" for q
    unfolding open_count_def nt using filter_table_remove [OF refs_okD(1) [OF ok] n, of "\<lambda>e. vn_path (snd e) = q"] by auto
  then show "open_count (released n v) q = open_count v q - (if q = ?p then 1 else 0)" .
  have rt: "ref_table (released n v) = (if open_count v ?p = 1 then table_remove ?p (ref_table v) else table_update ?p ?dec (ref_table v))"
    by (simp add: released_def fire_def)
  obtain r where r: "map_of (ref_table v) ?p = Some r" "unat (nr_ref_count r) = open_count v ?p" "0 < open_count v ?p"
    using close_tables [OF ok n] by metis
  have dec: "unat (nr_ref_count r - 1) = open_count v ?p - 1"
    using r(2,3) by (subst unat_sub) (simp_all add: word_le_nat_alt)
  have dr: "distinct (map fst (ref_table (released n v)))"
    unfolding rt using refs_okD(2) [OF ok] by (simp add: keys_table_remove distinct_remove1)
  have m: "map_of (ref_table (released n v)) q =
      (if q = ?p then if open_count v ?p = 1 then None else Some (?dec r) else map_of (ref_table v) q)" for q
    unfolding rt using r(1) map_of_table_remove [OF refs_okD(2) [OF ok]] by (simp add: map_of_table_update)
  have "refs_of (released n v) q = open_count (released n v) q" for q
    using m [of q] dec oc [of q] refs_okD(3) [OF ok, of q] by (auto simp: refs_of_def)
  moreover have "nr_ref_count x \<noteq> 0" if "(q, x) \<in> set (ref_table (released n v))" for q x
  proof -
    have "map_of (ref_table (released n v)) q = Some x" using dr that by simp
    then have "x = ?dec r \<and> open_count v ?p \<noteq> 1 \<or> map_of (ref_table v) q = Some x" using m [of q] by (auto split: if_splits)
    then show ?thesis
    proof
      assume "x = ?dec r \<and> open_count v ?p \<noteq> 1"
      then have "unat (nr_ref_count x) \<noteq> 0" using dec r(3) by simp
      then show ?thesis by auto
    qed (rule refs_okD(5) [OF ok])
  qed
  moreover have "distinct (map fst (node_table (released n v)))"
    unfolding nt using refs_okD(1) [OF ok] by (simp add: keys_table_remove distinct_remove1)
  moreover have "\<forall>(x, m) \<in> set (node_table (released n v)). vn_handle m = x \<and> x \<noteq> 0 \<and> x \<le> node_counter (released n v) \<and> is_absolute (vn_path m)"
  proof -
    have c: "node_counter (released n v) = node_counter v" by (simp add: released_def fire_def)
    have all: "\<forall>e \<in> set (node_table v). case e of (h, n) \<Rightarrow> vn_handle n = h \<and> h \<noteq> 0 \<and> h \<le> node_counter v \<and> is_absolute (vn_path n)"
      using ok by (simp add: refs_ok_def)
    show ?thesis unfolding nt c set_table_remove [OF refs_okD(1) [OF ok]]
      by (rule ballI, drule CollectD, drule conjunct1) (rule bspec [OF all])
  qed
  ultimately show "refs_ok (released n v)" unfolding refs_ok_def using dr by blast
qed

text \<open>The table of drivers is not changed by operations on nodes.\<close>

lemma same_drivers:
  "vfs_open v p mode = Some (v', r) \<Longrightarrow> driver_table v' = driver_table v"
  "vfs_delete_node v p = Some (v', st) \<Longrightarrow> driver_table v' = driver_table v"
  by (auto simp: vfs_open_def vfs_delete_node_def Let_def fire_def split: if_splits bind_splits sum.splits)

lemma close_node_drivers: "close_node n v = Some (v', n') \<Longrightarrow> driver_table v' = driver_table v"
  by (auto simp: close_node_def on_close_node_def Let_def fire_def dest!: same_drivers(2) split: if_splits option.splits)

section \<open>Runs\<close>

text \<open>
  Every sequence of operations of the module, of reads and writes to open nodes, which change the world and the node, and
  of other activity in the world; handles are not used up.
\<close>

inductive vfs_run :: "('d, 'n, 's) vfs \<Rightarrow> ('d, 'n, 's) vfs \<Rightarrow> bool" for v0 where
  start: "vfs_run v0 v0"
| open_node: "vfs_run v0 v \<Longrightarrow> node_counter v < 65535 \<Longrightarrow> vfs_open v p mode = Some (v', r) \<Longrightarrow> vfs_run v0 v'"
| close_node: "vfs_run v0 v \<Longrightarrow> vfs_find_node v h = Some n \<Longrightarrow> close_node n v = Some (v', n') \<Longrightarrow> vfs_run v0 v'"
| node_io: "vfs_run v0 v \<Longrightarrow> vfs_run v0 (v\<lparr>world := d, node_table := table_update h (\<lambda>n. n\<lparr>vn_node := x\<rparr>) (node_table v)\<rparr>)"
| delete: "vfs_run v0 v \<Longrightarrow> vfs_delete_node v p = Some (v', st) \<Longrightarrow> vfs_run v0 v'"
| create: "vfs_run v0 v \<Longrightarrow> vfs_create v p attrs = Some (v', st) \<Longrightarrow> vfs_run v0 v'"
| info: "vfs_run v0 v \<Longrightarrow> vfs_get_node_info v p = Some (v', i) \<Longrightarrow> vfs_run v0 v'"
| mount: "vfs_run v0 v \<Longrightarrow> vfs_mount v p dev = Some (v', ms) \<Longrightarrow> vfs_run v0 v'"
| unmount: "vfs_run v0 v \<Longrightarrow> vfs_unmount v p = Some (v', ms) \<Longrightarrow> vfs_run v0 v'"
| format: "vfs_run v0 v \<Longrightarrow> vfs_format v name dev = Some (v', fs) \<Longrightarrow> vfs_run v0 v'"
| open_stream: "vfs_run v0 v \<Longrightarrow> vfs_open_directory_stream v p = Some (v', sr) \<Longrightarrow> vfs_run v0 v'"
| close_stream: "vfs_run v0 v \<Longrightarrow> vfs_find_directory_stream v h = Some s \<Longrightarrow> vfs_run v0 (fst (close_stream s v))"
| install: "vfs_run v0 v \<Longrightarrow> vfs_run v0 (fst (install_driver v name drv))"
| uninstall: "vfs_run v0 v \<Longrightarrow> vfs_run v0 (fst (uninstall_driver v name))"

lemma close_node_ok:
  assumes ok: "refs_ok v" and n: "vfs_find_node v h = Some n" and c: "close_node n v = Some (v', n')"
  shows "refs_ok v'" and "node_table v' = node_table (released n v)"
proof -
  have m: "map_of (node_table v) h = Some n" using n by (simp add: vfs_find_node_def)
  obtain r where r: "map_of (ref_table v) (vn_path n) = Some r" using close_tables [OF ok m] by metis
  have "v' = released n v \<or> (\<exists>st. vfs_delete_node (released n v) (vn_path n) = Some (v', st))"
    using c close_node_run [OF ok m r] by (auto split: if_splits)
  then have "refs_ok v' \<and> node_table v' = node_table (released n v)"
    using released_ok(1) [OF ok m] vfs_delete_ok [OF released_ok(1) [OF ok m]] by blast
  then show "refs_ok v'" "node_table v' = node_table (released n v)" by simp_all
qed

lemma node_io_ok:
  assumes ok: "refs_ok v"
  shows "refs_ok (v\<lparr>world := d, node_table := table_update h (\<lambda>n. n\<lparr>vn_node := x\<rparr>) (node_table v)\<rparr>)" (is "refs_ok ?v")
proof -
  have "open_count ?v p = open_count v p" for p
    unfolding open_count_def by (simp add: filter_table_update)
  moreover have "refs_of ?v p = refs_of v p" for p by (simp add: refs_of_def)
  ultimately show ?thesis using ok set_table_update [of _ h "\<lambda>n. n\<lparr>vn_node := x\<rparr>" "node_table v"] by (fastforce simp: refs_ok_def)
qed

lemma vfs_run_ok:
  assumes "vfs_run v0 v" and "refs_ok v0"
  shows "refs_ok v"
  using assms
proof (induction rule: vfs_run.induct)
  case (open_node v p mode v' r)
  then show ?case using vfs_open_ok by blast
next
  case (close_node v h n v' n')
  then show ?case using close_node_ok(1) by blast
next
  case (delete v p v' st)
  then show ?case using vfs_delete_ok by blast
next
  case (close_stream v h s)
  then show ?case by (auto intro!: same_nodes_ok [of v] simp: close_stream_def fire_def same_nodes_def)
next
  case (install v name drv)
  then show ?case by (auto intro!: same_nodes_ok [of v] simp: install_driver_def same_nodes_def)
next
  case (uninstall v name)
  then show ?case by (auto intro!: same_nodes_ok [of v] simp: uninstall_driver_def same_nodes_def)
qed (blast intro: node_io_ok same_nodes_ok vfs_create_nodes vfs_info_nodes vfs_mount_nodes vfs_unmount_nodes vfs_format_nodes vfs_stream_nodes)+

definition nothing_open :: "('d, 'n, 's) vfs \<Rightarrow> bool" where
  "nothing_open v \<longleftrightarrow> node_table v = [] \<and> ref_table v = []"

lemma nothing_open_ok: "nothing_open v \<Longrightarrow> refs_ok v"
  by (simp add: nothing_open_def refs_ok_def refs_of_def open_count_def)

text \<open>
  C17. In every run in which the handles are not used up (fewer than 65535 have been given out at every opening) and a node
  is closed while it is in the node table, so once (\<open>vfs_run\<close>): open nodes have different handles that are not 0, every node is
  found under its own handle, and the reference count of every path, as a text, is the number of its open nodes; a path without
  open nodes has no entry.
\<close>

theorem references_count_open_nodes:
  assumes "nothing_open v0" and "vfs_run v0 v"
  shows "distinct (map fst (node_table v)) \<and>
    (case vfs_find_node v h of None \<Rightarrow> True | Some n \<Rightarrow> vn_handle n = h \<and> h \<noteq> 0) \<and>
    (case map_of (ref_table v) p of
       None \<Rightarrow> open_count v p = 0
     | Some r \<Rightarrow> unat (nr_ref_count r) = open_count v p \<and> 0 < open_count v p)"
proof -
  have ok: "refs_ok v" by (rule vfs_run_ok [OF assms(2) nothing_open_ok [OF assms(1)]])
  have "0 < unat (nr_ref_count r)" if "map_of (ref_table v) p = Some r" for r
    using refs_okD(5) [OF ok that] by (simp add: unat_gt_0)
  then show ?thesis
    using refs_okD(1) [OF ok] refs_okD(3) [OF ok, of p] refs_okD(4) [OF ok, of h]
    by (auto simp: refs_of_def vfs_find_node_def split: option.splits)
qed

lemma open_spares:
  assumes ok: "refs_ok v" and n: "map_of (node_table v) h = Some n" and p: "vn_path n = p \<or> relative_to (vn_path n) p \<noteq> []"
    and d: "vfs_delete_node v p = Some (v', st)"
  shows "world v' = world v"
proof -
  obtain r where r: "map_of (ref_table v) (vn_path n) = Some r" "unat (nr_ref_count r) = open_count v (vn_path n)" "0 < open_count v (vn_path n)"
    using close_tables [OF ok n] by metis
  show ?thesis
  proof (cases "vn_path n = p")
    case True
    then have "nr_ref_count r \<noteq> 0" "map_of (ref_table v) p = Some r" using r by auto
    then show ?thesis using d by (auto simp: vfs_delete_node_def Let_def split: if_splits bind_splits)
  next
    case False
    then have "list_ex (\<lambda>(q, r). relative_to q p \<noteq> []) (ref_table v)" using p map_of_SomeD [OF r(1)] by (auto simp: list_ex_iff)
    then show ?thesis using d by (auto simp: vfs_delete_node_def Let_def split: if_splits bind_splits)
  qed
qed

text \<open>
  C16. While a node is open, no driver is asked to delete it or a directory that contains it: a delete operation and the
  closing of another node leave the world as it is, and the node stays open. This is about the runs \<open>vfs_run\<close>, in which the
  handles are not used up (fewer than 65535 have been given out at every opening) and a node is closed while it is in the
  node table, so once; and about paths as texts: \<open>/a\<close> and \<open>/a/\<close> are different paths. The lemmas
  \<open>closing_twice_deletes_open_node\<close> and \<open>handles_never_run_out\<close> show what happens otherwise.
\<close>

theorem open_node_is_never_deleted:
  assumes "nothing_open v0" and "vfs_run v0 v" and "vfs_find_node v h = Some n"
    and "vn_path n = p \<or> relative_to (vn_path n) p \<noteq> []"
  shows "(\<forall>v' st. vfs_delete_node v p = Some (v', st) \<longrightarrow> world v' = world v \<and> vfs_find_node v' h = Some n) \<and>
    (\<forall>h' m v' m'. vfs_find_node v h' = Some m \<and> h' \<noteq> h \<and> vn_path m = p \<and> close_node m v = Some (v', m') \<longrightarrow>
       world v' = world v \<and> vfs_find_node v' h = Some n)"
proof (intro conjI allI impI)
  have ok: "refs_ok v" by (rule vfs_run_ok [OF assms(2) nothing_open_ok [OF assms(1)]])
  have n: "map_of (node_table v) h = Some n" using assms(3) by (simp add: vfs_find_node_def)
  fix v' st assume d: "vfs_delete_node v p = Some (v', st)"
  show "world v' = world v" by (rule open_spares [OF ok n assms(4) d])
  show "vfs_find_node v' h = Some n" using vfs_delete_ok [OF ok d] n by (simp add: vfs_find_node_def)
next
  have ok: "refs_ok v" by (rule vfs_run_ok [OF assms(2) nothing_open_ok [OF assms(1)]])
  have n: "map_of (node_table v) h = Some n" using assms(3) by (simp add: vfs_find_node_def)
  fix h' m v' m' assume a: "vfs_find_node v h' = Some m \<and> h' \<noteq> h \<and> vn_path m = p \<and> close_node m v = Some (v', m')"
  then have m: "map_of (node_table v) h' = Some m" by (simp add: vfs_find_node_def)
  obtain r where r: "map_of (ref_table v) (vn_path m) = Some r" using close_tables [OF ok m] by metis
  note rel = released_ok [OF ok m]
  have n': "map_of (node_table (released m v)) h = Some n" using rel(6) [of h] n a by auto
  have "v' = released m v \<or> (\<exists>st. vfs_delete_node (released m v) p = Some (v', st))"
    using a close_node_run [OF ok m r] by (auto split: if_splits)
  then have "world v' = world (released m v)"
    using open_spares [OF rel(1) n' assms(4)] by blast
  then show "world v' = world v" using rel(3) by simp
  show "vfs_find_node v' h = Some n" using close_node_ok(2) [OF ok, of h' m v' m'] a n' by (simp add: vfs_find_node_def)
qed

text \<open>Closing a node, in a state where the references are right.\<close>

lemma last_close:
  assumes "refs_ok v" and "vfs_find_node v h = Some n" and "map_of (ref_table v) (vn_path n) = Some r"
    and "map_of (mount_table v) (vn_path n) = None" and "driver_of v (vn_path n) = Some (mpi, drv)"
    and "drv_delete_node drv (world v) (mp_device mpi) (relative_to (vn_path n) (mp_mount_point mpi)) = Some (d, st)"
  shows "\<exists>v'. close_node n v = Some (v', n\<lparr>vn_closed := True\<rparr>) \<and> vfs_find_node v' h = None \<and>
    world v' = (if open_count v (vn_path n) = 1 \<and> nr_delete_this r \<and>
      \<not> list_ex (\<lambda>(q, r). q \<noteq> vn_path n \<and> relative_to q (vn_path n) \<noteq> []) (ref_table v) then d else world v)"
proof -
  let ?p = "vn_path n" let ?v = "released n v"
  note ok = assms(1)
  have n: "map_of (node_table v) h = Some n" using assms(2) by (simp add: vfs_find_node_def)
  have abs: "is_absolute ?p" using refs_okD(4) [OF ok n] by blast
  note rel = released_ok [OF ok n] and run = close_node_run [OF ok n assms(3)]
  have find: "vfs_find_node v' h = None" if "close_node n v = Some (v', n')" for v' n'
    using close_node_ok(2) [OF ok assms(2) that] rel(6) by (simp add: vfs_find_node_def)
  show ?thesis
  proof (cases "open_count v ?p = 1 \<and> nr_delete_this r")
    case False
    then have "close_node n v = Some (?v, n\<lparr>vn_closed := True\<rparr>)" using run by auto
    then show ?thesis using find rel(3) False by auto
  next
    case True
    have rt: "ref_table ?v = table_remove ?p (ref_table v)" using True by (simp add: released_def fire_def)
    have none: "map_of (ref_table ?v) ?p = None" unfolding rt using map_of_table_remove [OF refs_okD(2) [OF ok]] by simp
    have below: "list_ex (\<lambda>(q, r). relative_to q ?p \<noteq> []) (ref_table ?v) \<longleftrightarrow>
        list_ex (\<lambda>(q, r). q \<noteq> ?p \<and> relative_to q ?p \<noteq> []) (ref_table v)"
      unfolding rt list_ex_iff set_table_remove [OF refs_okD(2) [OF ok]] by auto
    have res: "resolve_mount ?v ?p = Some mpi" "map_of (driver_table ?v) (mp_driver_name mpi) = Some drv"
      using assms(5) rel(4,5) by (auto simp: driver_of_def resolve_mount_def split: option.splits)
    have del: "vfs_delete_node ?v ?p =
        (if list_ex (\<lambda>(q, r). q \<noteq> ?p \<and> relative_to q ?p \<noteq> []) (ref_table v) then Some (?v, FS_ACCESS_DENIED) else Some (?v\<lparr>world := d\<rparr>, st))"
      unfolding vfs_delete_node_def using abs assms(4,6) rel(3,4) none res below by (simp add: Let_def)
    then have "close_node n v = Some (if list_ex (\<lambda>(q, r). q \<noteq> ?p \<and> relative_to q ?p \<noteq> []) (ref_table v) then ?v else ?v\<lparr>world := d\<rparr>,
        n\<lparr>vn_closed := True\<rparr>)" using run True by auto
    then show ?thesis using find True rel(3) by auto
  qed
qed

text \<open>
  C18. Closing a node: while others of the same path are open, and for a path that is not marked, nothing is deleted; the last
  one of a path that was marked for deletion has the driver delete it, unless a node below it is open.
\<close>

theorem last_close_deletes_marked_node:
  assumes "nothing_open v0" and "vfs_run v0 v" and "vfs_find_node v h = Some n" and "map_of (ref_table v) (vn_path n) = Some r"
    and "map_of (mount_table v) (vn_path n) = None" and "driver_of v (vn_path n) = Some (mpi, drv)"
    and "drv_delete_node drv (world v) (mp_device mpi) (relative_to (vn_path n) (mp_mount_point mpi)) = Some (d, st)"
  shows "\<exists>v'. close_node n v = Some (v', n\<lparr>vn_closed := True\<rparr>) \<and> vfs_find_node v' h = None \<and>
    world v' = (if open_count v (vn_path n) = 1 \<and> nr_delete_this r \<and>
      \<not> list_ex (\<lambda>(q, r). q \<noteq> vn_path n \<and> relative_to q (vn_path n) \<noteq> []) (ref_table v) then d else world v)"
  using vfs_run_ok [OF assms(2) nothing_open_ok [OF assms(1)]] by (rule last_close [OF _ assms(3-7)])

section \<open>A run\<close>

text \<open>
  A driver whose world is the list of the paths it was asked to delete, mounted at the root; \<open>/a\<close> is opened twice, marked
  for deletion and closed once.
\<close>

definition log_driver :: "(string list, unit, unit) driver" where
  "log_driver = \<lparr>drv_format = (\<lambda>d h. Some (d, FORMATTED)), drv_mount = (\<lambda>d h. Some (d, MOUNTED)), drv_unmount = (\<lambda>d h. Some (d, UNMOUNTED)),
     drv_is_valid_file_path = (\<lambda>p. True), drv_create = (\<lambda>d h p attrs. Some (d, FS_CREATED)),
     drv_open = (\<lambda>d h mp p mode. Some (d, Inr ())), drv_find_node = (\<lambda>d h p. Some (d, Inl FS_NOT_FOUND)),
     drv_delete_node = (\<lambda>d h p. Some (d @ [p], FS_DELETED)), drv_open_directory_stream = (\<lambda>d h p. Some (d, Inr ()))\<rparr>"

definition run0 :: "(string list, unit, unit) vfs" where
  "run0 = \<lparr>world = [], driver_table = [(''Log'', log_driver)],
     mount_table = [(''/'', \<lparr>mp_mount_point = ''/'', mp_driver_name = ''Log'', mp_device = 1\<rparr>)],
     ref_table = [], node_table = [], node_counter = 2, stream_table = [], stream_counter = 0, events = []\<rparr>"

definition run1 :: "(string list, unit, unit) vfs" where "run1 = fst (the (vfs_open run0 ''/a'' MODE_READ))"
definition run2 :: "(string list, unit, unit) vfs" where "run2 = fst (the (vfs_open run1 ''/a'' MODE_READ))"
definition run3 :: "(string list, unit, unit) vfs" where "run3 = fst (the (vfs_delete_node run2 ''/a''))"
definition run4 :: "(string list, unit, unit) vfs" where "run4 = fst (the (close_node (the (vfs_find_node run3 4)) run3))"

lemma some_pair: "(case x of None \<Rightarrow> False | Some _ \<Rightarrow> True) \<Longrightarrow> x = Some (fst (the x), snd (the x))"
  by (cases x) auto

lemma run_state:
  "node_counter run0 < 65535" "node_counter run1 < 65535"
  "case vfs_open run0 ''/a'' MODE_READ of None \<Rightarrow> False | Some _ \<Rightarrow> True"
  "case vfs_open run1 ''/a'' MODE_READ of None \<Rightarrow> False | Some _ \<Rightarrow> True"
  "case vfs_delete_node run2 ''/a'' of None \<Rightarrow> False | Some _ \<Rightarrow> True"
  "case vfs_find_node run3 4 of None \<Rightarrow> False | Some _ \<Rightarrow> True"
  "case close_node (the (vfs_find_node run3 4)) run3 of None \<Rightarrow> False | Some _ \<Rightarrow> True"
  by code_simp+

lemma run_steps: "nothing_open run0" "vfs_run run0 run0" "vfs_run run0 run3" "vfs_run run0 run4"
proof -
  show n: "nothing_open run0" by (simp add: nothing_open_def run0_def)
  show s: "vfs_run run0 run0" by (rule vfs_run.start)
  have "vfs_run run0 run1"
    unfolding run1_def by (rule open_node [OF s run_state(1) some_pair [OF run_state(3)]])
  then have "vfs_run run0 run2"
    unfolding run2_def by (rule open_node [OF _ run_state(2) some_pair [OF run_state(4)]])
  then show r: "vfs_run run0 run3"
    unfolding run3_def by (rule vfs_run.delete [OF _ some_pair [OF run_state(5)]])
  have "vfs_find_node run3 4 = Some (the (vfs_find_node run3 4))" using run_state(6) by (auto split: option.splits)
  then show "vfs_run run0 run4"
    unfolding run4_def by (rule close_node [OF r _ some_pair [OF run_state(7)]])
qed

theorem references_count_open_nodes_witness:
  "unat (nr_ref_count (the (map_of (ref_table run3) ''/a''))) = 2 \<and> unat (nr_ref_count (the (map_of (ref_table run4) ''/a''))) = 1 \<and>
    (case map_of (ref_table run4) ''/a'' of None \<Rightarrow> open_count run4 ''/a'' = 0
     | Some r \<Rightarrow> unat (nr_ref_count r) = open_count run4 ''/a'' \<and> 0 < open_count run4 ''/a'')"
proof (intro conjI)
  show "unat (nr_ref_count (the (map_of (ref_table run3) ''/a''))) = 2" by code_simp
  show "unat (nr_ref_count (the (map_of (ref_table run4) ''/a''))) = 1" by code_simp
qed (use references_count_open_nodes [OF run_steps(1,4), of 3 "''/a''"] in blast)

definition node3 :: "unit vfs_node" where
  "node3 = \<lparr>vn_handle = 3, vn_name = ''a'', vn_closed = False, vn_path = ''/a'', vn_node = ()\<rparr>"

lemma run4_node: "vfs_find_node run4 3 = Some node3" "vn_path node3 = ''/a''"
  by code_simp+

theorem open_node_is_never_deleted_witness:
  "\<exists>v'. vfs_delete_node run4 ''/a'' = Some (v', FS_DELETED) \<and> world v' = world run4 \<and> vfs_find_node v' 3 = Some node3"
proof -
  have "case vfs_delete_node run4 ''/a'' of None \<Rightarrow> False | Some (_, st) \<Rightarrow> st = FS_DELETED" by code_simp
  then obtain v' where d: "vfs_delete_node run4 ''/a'' = Some (v', FS_DELETED)" by (auto split: option.splits)
  have "world v' = world run4 \<and> vfs_find_node v' 3 = Some node3"
    using open_node_is_never_deleted [OF run_steps(1,4) run4_node(1), of "''/a''"] run4_node(2) d by blast
  then show ?thesis using d by blast
qed

theorem last_close_deletes_marked_node_witness:
  "\<exists>v'. close_node node3 run4 = Some (v', node3\<lparr>vn_closed := True\<rparr>) \<and> vfs_find_node v' 3 = None \<and> world run4 = [] \<and> world v' = [''a'']"
proof -
  define mpi where "mpi = \<lparr>mp_mount_point = ''/'', mp_driver_name = ''Log'', mp_device = (1 :: u16)\<rparr>"
  define r where "r = \<lparr>nr_node_path = ''/a'', nr_ref_count = 1, nr_delete_this = True\<rparr>"
  have ref: "map_of (ref_table run4) (vn_path node3) = Some r" unfolding r_def by code_simp
  have mt: "map_of (mount_table run4) (vn_path node3) = None" by code_simp
  have res: "resolve_mount run4 (vn_path node3) = Some mpi" unfolding mpi_def by code_simp
  have dt: "driver_table run4 = driver_table run0"
    unfolding run4_def close_node_drivers [OF some_pair [OF run_state(7)]]
    unfolding run3_def same_drivers(2) [OF some_pair [OF run_state(5)]]
    unfolding run2_def same_drivers(1) [OF some_pair [OF run_state(4)]]
    unfolding run1_def same_drivers(1) [OF some_pair [OF run_state(3)]] by (rule refl)
  have drv: "driver_of run4 (vn_path node3) = Some (mpi, log_driver)"
    using res dt by (simp add: driver_of_def mpi_def run0_def)
  have del: "drv_delete_node log_driver (world run4) (mp_device mpi) (relative_to (vn_path node3) (mp_mount_point mpi)) = Some ([''a''], FS_DELETED)"
    unfolding mpi_def by code_simp
  have "open_count run4 (vn_path node3) = 1" by code_simp
  moreover have "\<not> list_ex (\<lambda>(q, r). q \<noteq> vn_path node3 \<and> relative_to q (vn_path node3) \<noteq> []) (ref_table run4)" by code_simp
  moreover have "nr_delete_this r" by (simp add: r_def)
  moreover have "world run4 = []" by code_simp
  ultimately show ?thesis
    using last_close_deletes_marked_node [OF run_steps(1,4) run4_node(1) ref mt drv del] by simp
qed

section \<open>On a FAT volume\<close>

lemma resolve_root:
  assumes "mount_table v = [(''/'', mpi)]" and "is_absolute p"
  shows "resolve_mount v p = Some mpi"
proof -
  have s: "split ''/'' SEP = []" by code_simp
  have "is_absolute ''/''" by code_simp
  then have "common_path p ''/'' = Some ''/''" using assms(2) s by (simp add: common_path_def SEP_def)
  then show ?thesis using assms(1) s by (simp add: resolve_mount_def)
qed

text \<open>
  C19. A file with a long name, in a directory of one cluster of a FAT volume that is mounted at the root, was deleted while
  it was open: closing the last node of it removes the entry of the file, and no other entry, from the listing of its directory.
  A node below its path is not open, and its chain of clusters ends and does not meet the directory. Files with a short name only
  are excluded: for them entries are marked at the wrong place.
\<close>

theorem marked_file_leaves_volume:
  assumes "fat_volume (dev dh) ok disk n b" and "ok d" and "find_storage_dev_ref s dh = Some b" and "single_dir n disk b d c"
    and "split p SEP \<noteq> []" and "search (dev dh) d b p = Some (VA_OKAY, f)" and "f \<in> set (list_dir disk b d [c])"
    and "\<not> has_attribute (fentry f) DIRECTORY" and "first_lfn_entry f \<noteq> no_location"
    and "file_chain (table_entry disk b d) cs (cluster_of (fentry f))" and "clusters_ok (entry_ok b) cs" and "c \<notin> set cs"
    and "refs_ok v" and "world v = (s, d)" and "mount_table v = [(''/'', \<lparr>mp_mount_point = ''/'', mp_driver_name = name, mp_device = dh\<rparr>)]"
    and "map_of (driver_table v) name = Some (fat_driver_ops dev sector_size sectors)"
    and "vfs_find_node v h = Some m" and "vn_path m \<noteq> ''/''" and "relative_to (vn_path m) ''/'' = p"
    and "open_count v (vn_path m) = 1" and "map_of (ref_table v) (vn_path m) = Some r" and "nr_delete_this r"
    and "\<not> list_ex (\<lambda>(q, r). q \<noteq> vn_path m \<and> relative_to q (vn_path m) \<noteq> []) (ref_table v)"
  shows "\<exists>v' d' xs ys. close_node m v = Some (v', m\<lparr>vn_closed := True\<rparr>) \<and> vfs_find_node v' h = None \<and> world v' = (s, d') \<and> ok d' \<and>
    list_dir disk b d [c] = xs @ f # ys \<and> list_dir disk b d' [c] = xs @ ys"
proof -
  let ?mpi = "\<lparr>mp_mount_point = ''/'', mp_driver_name = name, mp_device = dh\<rparr>" and ?drv = "fat_driver_ops dev sector_size sectors"
  obtain d' xs ys where d': "fat_delete_node dev d s dh p = Some (d', FS_DELETED)" "ok d'"
    "list_dir disk b d [c] = xs @ f # ys" "list_dir disk b d' [c] = xs @ ys"
    using fat_delete_file [where dev = dev and h = dh, OF assms(1-12)] by blast
  have "map_of (node_table v) h = Some m" using assms(17) by (simp add: vfs_find_node_def)
  then have abs: "is_absolute (vn_path m)" using refs_okD(4) [OF assms(13)] by blast
  have mt: "map_of (mount_table v) (vn_path m) = None" using assms(15,18) by simp
  have drv: "driver_of v (vn_path m) = Some (?mpi, ?drv)"
    using resolve_root [OF assms(15) abs] assms(16) by (simp add: driver_of_def)
  have del: "drv_delete_node ?drv (world v) (mp_device ?mpi) (relative_to (vn_path m) (mp_mount_point ?mpi)) = Some ((s, d'), FS_DELETED)"
    using d'(1) assms(14,19) by (simp add: fat_driver_ops_def)
  show ?thesis using last_close [OF assms(13,17,21) mt drv del] assms(20,22,23) d' by auto
qed

theorem marked_file_leaves_volume_witness:
  "\<exists>d (v :: (fat_driver \<times> u8 list, fat_node, dir_iter) vfs) v' n. create_file ram_ops demo_disk small_volume ''notes.txt'' 0x20 = Some (d, FS_CREATED) \<and> world v = (demo_driver, d) \<and>
    close_node n v = Some (v', n\<lparr>vn_closed := True\<rparr>) \<and> list_dir (!) small_volume (snd (world v')) [2] = []"
proof -
  obtain d e where d: "create_file ram_ops demo_disk small_volume ''notes.txt'' 0x20 = Some (d, FS_CREATED)" "length d = 12 * 512"
    "single_dir 12 (!) small_volume d 2" "list_dir (!) small_volume d [2] = [e]" "file_name e = ''notes.txt''"
    "attributes (fentry e) = 0x20" "cluster_of (fentry e) = 0" "first_lfn_entry e \<noteq> no_location"
    using demo_with_file by blast
  have p: "split ''notes.txt'' SEP = [''notes.txt'']" using root_path(1) [OF demo_name(3)] by simp
  have f: "search ram_ops d small_volume ''notes.txt'' = Some (VA_OKAY, e)"
    using navigate_root [OF small_volume_ok d(2), unfolded demo_root, OF d(3)] d(4,5)
    by (simp add: search_def p root_cluster_of demo_root)
  have nd: "\<not> has_attribute (fentry e) DIRECTORY"
    by (simp add: has_attribute_def d(6) READONLY_def HIDDEN_def SYSTEM_def VOLUME_ID_def DIRECTORY_def)
  have cs: "file_chain (table_entry (!) small_volume d) [] (cluster_of (fentry e))" "clusters_ok (entry_ok small_volume) []"
    using d(7) by (simp_all add: file_chain_def clusters_ok_def)
  let ?path = "''/notes.txt''" and ?drv = "fat_driver_ops demo_dev (\<lambda>h. 512) (\<lambda>h. 12)"
  define m :: "fat_node vfs_node" where
    "m = \<lparr>vn_handle = 3, vn_name = ''notes.txt'', vn_closed = False, vn_path = ?path, vn_node = demo_node MODE_READ\<rparr>"
  define r where "r = \<lparr>nr_node_path = ?path, nr_ref_count = 1, nr_delete_this = True\<rparr>"
  define v :: "(fat_driver \<times> u8 list, fat_node, dir_iter) vfs" where
    "v = \<lparr>world = (demo_driver, d), driver_table = [(''FAT'', ?drv)],
       mount_table = [(''/'', \<lparr>mp_mount_point = ''/'', mp_driver_name = ''FAT'', mp_device = 7\<rparr>)],
       ref_table = [(?path, r)], node_table = [(3, m)], node_counter = 3, stream_table = [], stream_counter = 0, events = []\<rparr>"
  have abs: "is_absolute ?path" by code_simp
  have ok: "refs_ok v" using abs by (auto simp: refs_ok_def refs_of_def open_count_def v_def m_def r_def)
  have rel: "relative_to (vn_path m) ''/'' = ''notes.txt''" unfolding m_def by code_simp
  obtain v' d' xs ys where v': "close_node m v = Some (v', m\<lparr>vn_closed := True\<rparr>)" "world v' = (demo_driver, d')"
    "list_dir (!) small_volume d [2] = xs @ e # ys" "list_dir (!) small_volume d' [2] = xs @ ys"
    using marked_file_leaves_volume [where dev = demo_dev and dh = 7 and p = "''notes.txt''" and m = m and v = v and r = r and h = 3
        and f = e and cs = "[]" and name = "''FAT''" and sector_size = "\<lambda>h. 512" and sectors = "\<lambda>h. 12",
        OF small_volume_ok d(2) demo_mounted d(3) _ f _ nd d(8) cs _ ok] p d(4) rel
    by (auto simp: v_def m_def r_def vfs_find_node_def open_count_def)
  moreover have "xs = []" "ys = []" using d(4) v'(3) by (cases xs; simp)+
  ultimately show ?thesis
    by (intro exI [of _ d] exI [of _ v] exI [of _ v'] exI [of _ m] conjI) (simp_all add: d(1), simp add: v_def)
qed

section \<open>Limits\<close>

text \<open>Handles do not run out, but wrap around: 0 follows 65535.\<close>

lemma handles_never_run_out: "has_more_handles c" "acquire 65535 = 0"
  by (simp_all add: has_more_handles_def acquire_def)

text \<open>With a mount point below the root there is no driver for any other path that is not the root.\<close>

lemma second_mount_point_undefined:
  assumes "(mp, info) \<in> set (mount_table v)" and "is_absolute p" and "is_absolute mp" and "p \<noteq> mp"
    and "split p SEP \<noteq> []" and "split mp SEP \<noteq> []"
  shows "resolve_mount v p = None"
proof -
  have none: "common_path p mp = None" using assms by (auto simp: common_path_def is_absolute_def)
  have "(mp, info) \<in> set t \<Longrightarrow> best_fit p t k b = None" for t k b
  proof (induction t arbitrary: k b)
    case (Cons e t)
    then show ?case by (cases e) (auto simp: none Let_def split: option.splits)
  qed simp
  then show ?thesis using assms(1) by (simp add: resolve_mount_def)
qed

text \<open>Asking whether the path of such a mount point is valid never returns.\<close>

lemma mount_point_validation_loops:
  assumes "is_absolute mp" and "\<not> is_root mp" and "resolve_mount v mp = Some mpi" and "mp_mount_point mpi = mp"
    and "map_of (driver_table v) (mp_driver_name mpi) = Some drv" and "drv_is_valid_file_path drv []"
  shows "vfs_is_valid_file_path v mp = None"
proof -
  have c: "common_path mp mp = Some mp" "relative_to mp mp = []"
    using assms(1) by (simp_all add: common_path_def relative_to_def is_absolute_def)
  have "\<not> (x = v \<and> p = mp \<and> r = mp)" if "valid_loop x p r = Some y" for x p r y
    using that
  proof (rule valid_loop.raw_induct [rotated])
    fix loop :: "('a, 'b, 'c) vfs \<Rightarrow> string \<Rightarrow> string \<Rightarrow> bool option" and x p r y
    assume ih: "\<And>x p r y. loop x p r = Some y \<Longrightarrow> \<not> (x = v \<and> p = mp \<and> r = mp)"
      and run: "(if is_root r then Some True
       else case resolve_mount x p of None \<Rightarrow> None
            | Some mpi \<Rightarrow>
                (case map_of (driver_table x) (mp_driver_name mpi) of None \<Rightarrow> Some False
                 | Some drv \<Rightarrow>
                     if \<not> drv_is_valid_file_path drv (relative_to r (mp_mount_point mpi)) then Some False
                     else (case common_path r (mp_mount_point mpi) of None \<Rightarrow> None | Some r \<Rightarrow> loop x p r))) = Some y"
    show "\<not> (x = v \<and> p = mp \<and> r = mp)"
    proof
      assume a: "x = v \<and> p = mp \<and> r = mp"
      then have "loop v mp mp = Some y" using run assms c by simp
      then show False using ih by blast
    qed
  qed
  then have "valid_loop v mp mp = None" by (cases "valid_loop v mp mp") auto
  then show ?thesis using assms(1) by (simp add: vfs_is_valid_file_path_def)
qed

text \<open>
  A node does not check whether it is closed already: closing the second node of \<open>/a\<close> again takes the reference of the first
  one, which is still open, and the file is deleted.
\<close>

lemma closing_twice_deletes_open_node:
  "vfs_find_node run4 3 = Some node3 \<and> (\<exists>n. vfs_find_node run3 4 = Some n \<and>
    (case close_node n run4 of None \<Rightarrow> False | Some (v, _) \<Rightarrow> world v = [''a''] \<and> vfs_find_node v 3 = Some node3))"
proof (intro conjI exI)
  show "vfs_find_node run4 3 = Some node3" by (rule run4_node(1))
  show "vfs_find_node run3 4 = Some (the (vfs_find_node run3 4))" using run_state(6) by (auto split: option.splits)
  show "case close_node (the (vfs_find_node run3 4)) run4 of None \<Rightarrow> False | Some (v, _) \<Rightarrow> world v = [''a''] \<and> vfs_find_node v 3 = Some node3"
    by code_simp
qed

end
