(* ===== verification/Elf.thy ===== *)
theory Elf
  imports Vfs Virtual_Memory
begin

text \<open>
  The loader of executables (\<^verbatim>\<open>Src/App/ELFLoader.cpp\<close>, \<^verbatim>\<open>Include/App/ELF.h\<close>): the buffered reader, the checks of
  the ELF header and of the program headers, the vendor note, the segments and the area with the arguments of the new app.

  The open file is known through the two methods of its node that the loader calls. The memory is the contents of the
  address space that is loaded; local buffers are byte lists. \<open>None\<close> is a loop that does not end or an access outside a
  buffer.
\<close>

section \<open>Data\<close>

text \<open>Of the identification at the start of the header only a member that is never set is used; it is left out.\<close>

record elf64_header =
  eh_type :: u16
  eh_machine :: u16
  eh_version :: u32
  eh_entry :: u64
  ph_offset :: u64
  sh_offset :: u64
  eh_flags :: u32
  elf_header_size :: u16
  ph_entry_size :: u16
  ph_count :: u16
  sh_entry_size :: u16
  sh_count :: u16
  sh_string_table_index :: u16

record elf64_program_header =
  ph_type :: u32
  ph_flags :: u32
  ph_file_offset :: u64
  ph_virtual_address :: u64
  ph_physical_address :: u64
  ph_file_size :: u64
  ph_memory_size :: u64
  ph_align :: u64

record elf64_file =
  elf_header :: elf64_header
  program_headers :: "elf64_program_header list"
  elf_vendor :: string
  elf_major :: u16
  elf_minor :: u16
  elf_patch :: u16

datatype load_status = LOADED | RUNNING | IO_ERROR | BAD_HEADER | BAD_SEGMENT | MEMORY_ERROR | LOAD_ERROR | BAD_VENDOR_INFO | BAD_STDIO

definition SEGMENT_LOAD :: u32 where "SEGMENT_LOAD = 1"
definition SEGMENT_NOTE :: u32 where "SEGMENT_NOTE = 4"
definition SEGMENT_WRITE :: u32 where "SEGMENT_WRITE = 2"
definition OBJECT_EXEC :: u16 where "OBJECT_EXEC = 2"
definition CLASS_NONE :: u8 where "CLASS_NONE = 0"
definition CLASS_ELF32 :: u8 where "CLASS_ELF32 = 1"
definition ORDER_LITTLE_ENDIAN :: u8 where "ORDER_LITTLE_ENDIAN = 1"
definition ELF_MAGIC :: "u8 list" where "ELF_MAGIC = [0x7F, 0x45, 0x4C, 0x46]"

text \<open>The structures lie in memory as in the file; \<open>ident_size\<close> and \<open>header_size\<close> are their sizes.\<close>

definition ident_size :: nat where "ident_size = 16"
definition header_size :: nat where "header_size = 64"
definition program_header_size :: nat where "program_header_size = 56"

definition bytes_elf_header :: "u8 list \<Rightarrow> elf64_header" where
  "bytes_elf_header b = \<lparr>eh_type = le_to_u16 (drop 16 b), eh_machine = le_to_u16 (drop 18 b), eh_version = le_to_u32 (drop 20 b),
     eh_entry = le_to_u64 (drop 24 b), ph_offset = le_to_u64 (drop 32 b), sh_offset = le_to_u64 (drop 40 b),
     eh_flags = le_to_u32 (drop 48 b), elf_header_size = le_to_u16 (drop 52 b), ph_entry_size = le_to_u16 (drop 54 b),
     ph_count = le_to_u16 (drop 56 b), sh_entry_size = le_to_u16 (drop 58 b), sh_count = le_to_u16 (drop 60 b),
     sh_string_table_index = le_to_u16 (drop 62 b)\<rparr>"

definition bytes_program_header :: "u8 list \<Rightarrow> elf64_program_header" where
  "bytes_program_header b = \<lparr>ph_type = le_to_u32 b, ph_flags = le_to_u32 (drop 4 b), ph_file_offset = le_to_u64 (drop 8 b),
     ph_virtual_address = le_to_u64 (drop 16 b), ph_physical_address = le_to_u64 (drop 24 b), ph_file_size = le_to_u64 (drop 32 b),
     ph_memory_size = le_to_u64 (drop 40 b), ph_align = le_to_u64 (drop 48 b)\<rparr>"

definition u32_bytes :: "u32 \<Rightarrow> u8 list" where "u32_bytes x = le_bytes32 x (replicate 4 0)"
definition u64_bytes :: "u64 \<Rightarrow> u8 list" where "u64_bytes x = le_bytes64 x (replicate 8 0)"

definition program_header_bytes :: "elf64_program_header \<Rightarrow> u8 list" where
  "program_header_bytes h = u32_bytes (ph_type h) @ u32_bytes (ph_flags h) @ u64_bytes (ph_file_offset h) @
     u64_bytes (ph_virtual_address h) @ u64_bytes (ph_physical_address h) @ u64_bytes (ph_file_size h) @
     u64_bytes (ph_memory_size h) @ u64_bytes (ph_align h)"

definition no_program_header :: elf64_program_header where
  "no_program_header = \<lparr>ph_type = 0, ph_flags = 0, ph_file_offset = 0, ph_virtual_address = 0, ph_physical_address = 0,
     ph_file_size = 0, ph_memory_size = 0, ph_align = 0\<rparr>"

section \<open>The buffered reader\<close>

record 'f node_ops =
  nd_read :: "'f \<Rightarrow> nat \<Rightarrow> ('f \<times> io_status \<times> u8 list) option"
  nd_seek_begin :: "'f \<Rightarrow> 32 word \<Rightarrow> ('f \<times> io_status \<times> u64) option"

record 'f elf_reader =
  buf_pos :: u16
  buf_limit :: u16
  file_buf :: "u8 list"
  elf_node :: 'f

definition BUF_SIZE :: u16 where "BUF_SIZE = 8192"

definition new_reader :: "'f \<Rightarrow> 'f elf_reader" where
  "new_reader f = \<lparr>buf_pos = 0, buf_limit = 0, file_buf = replicate (unat BUF_SIZE) 0, elf_node = f\<rparr>"

definition get_next_buffer :: "'f node_ops \<Rightarrow> 'f elf_reader \<Rightarrow> ('f elf_reader \<times> bool) option" where
  "get_next_buffer ops l = do {
     (f, st, bs) \<leftarrow> nd_read ops (elf_node l) (unat BUF_SIZE);
     let l = l\<lparr>elf_node := f, file_buf := bs @ drop (length bs) (file_buf l)\<rparr>;
     if st = IO_OKAY \<and> 0 < length bs then Some (l\<lparr>buf_pos := 0, buf_limit := of_nat (length bs)\<rparr>, True)
     else Some (l, False) }"

text \<open>\<open>acc\<close> holds the bytes that have been copied; the result is the buffer up to the count that is returned.\<close>

partial_function (option) read_bytes_loop :: "'f node_ops \<Rightarrow> u16 \<Rightarrow> 'f elf_reader \<Rightarrow> u8 list \<Rightarrow> ('f elf_reader \<times> u8 list) option" where
  "read_bytes_loop ops buf_size l acc =
     (if length acc < unat buf_size then
        do {
          (l, more) \<leftarrow> (if buf_limit l \<le> buf_pos l then get_next_buffer ops l else Some (l, True));
          if \<not> more then Some (l, acc)
          else
            let k = min (unat buf_size - length acc) (unat (buf_limit l - buf_pos l))
            in read_bytes_loop ops buf_size (l\<lparr>buf_pos := buf_pos l + of_nat k\<rparr>) (acc @ take k (drop (unat (buf_pos l)) (file_buf l))) }
      else Some (l, acc))"

declare read_bytes_loop.simps [code]

definition read_bytes :: "'f node_ops \<Rightarrow> 'f elf_reader \<Rightarrow> u16 \<Rightarrow> ('f elf_reader \<times> u8 list) option" where
  "read_bytes ops l buf_size = do {
     (l, good) \<leftarrow> (if buf_limit l = 0 then get_next_buffer ops l else Some (l, True));
     if \<not> good then Some (l, []) else read_bytes_loop ops buf_size l [] }"

definition elf_seek :: "'f node_ops \<Rightarrow> 'f elf_reader \<Rightarrow> u64 \<Rightarrow> ('f elf_reader \<times> bool) option" where
  "elf_seek ops l byte_count = do {
     (f, st, n) \<leftarrow> nd_seek_begin ops (elf_node l) (ucast byte_count);
     let l = l\<lparr>elf_node := f\<rparr>;
     if st = IO_OKAY then get_next_buffer ops l else Some (l, False) }"

section \<open>Headers\<close>

definition to_u32 :: "u8 \<Rightarrow> u8 list \<Rightarrow> u32" where
  "to_u32 byte_order b = (if byte_order = ORDER_LITTLE_ENDIAN then le_to_u32 b else be_to_u32 b)"

text \<open>A version number: four bytes of the buffer, which must be there, cut to 16 bits.\<close>

definition version_part :: "u8 \<Rightarrow> u8 list \<Rightarrow> nat \<Rightarrow> u16 option" where
  "version_part byte_order b i = (if i + 4 \<le> length b then Some (ucast (to_u32 byte_order (drop i b))) else None)"

definition vendor_string :: "u8 list \<Rightarrow> string option" where
  "vendor_string b = (if 0 \<in> set b then Some (map (\<lambda>x. char_of (unat x)) (takeWhile (\<lambda>x. x \<noteq> 0) b)) else None)"

definition parse_vendor_information ::
  "'f node_ops \<Rightarrow> 'f elf_reader \<Rightarrow> elf64_file \<Rightarrow> elf64_program_header \<Rightarrow> u8 \<Rightarrow> ('f elf_reader \<times> elf64_file \<times> load_status) option" where
  "parse_vendor_information ops l file note_ph byte_order = do {
     (l, ok) \<leftarrow> elf_seek ops l (ph_file_offset note_ph);
     if \<not> ok then Some (l, file, BAD_VENDOR_INFO)
     else do {
       (l, bs) \<leftarrow> read_bytes ops l 12;
       if bs = [] then Some (l, file, BAD_VENDOR_INFO)
       else
         let note_header = bs @ replicate (12 - length bs) 0
         in if to_u32 byte_order (drop 8 note_header) \<noteq> 1 then Some (l, file, BAD_VENDOR_INFO)
            else do {
              let name_size = to_u32 byte_order note_header;
              let desc_size = to_u32 byte_order (drop 4 note_header);
              let name_desc_size = ucast (memory_align (ucast name_size) 4 True + memory_align (ucast desc_size) 4 True);
              (l, b) \<leftarrow> read_bytes ops l name_desc_size;
              if b = [] then Some (l, file, BAD_VENDOR_INFO)
              else do {
                vendor \<leftarrow> vendor_string b;
                major \<leftarrow> version_part byte_order b (unat name_size);
                minor \<leftarrow> version_part byte_order b (unat (name_size + 2));
                patch \<leftarrow> version_part byte_order b (unat (name_size + 4));
                Some (l, file\<lparr>elf_vendor := vendor, elf_major := major, elf_minor := minor, elf_patch := patch\<rparr>, LOADED) } } } }"

definition intersects_kernel :: "u64 \<Rightarrow> elf64_program_header \<Rightarrow> bool" where
  "intersects_kernel userspace_end h \<longleftrightarrow>
     userspace_end < ph_virtual_address h + ph_memory_size h \<or> userspace_end < ph_virtual_address h"

text \<open>
  The loop over the program headers, \<open>n\<close> of them left. A header is read into a structure of 56 bytes, whatever the size of an
  entry is. \<open>Inl\<close> is the early return.
\<close>

fun read_program_headers ::
  "'f node_ops \<Rightarrow> u64 \<Rightarrow> u16 \<Rightarrow> nat \<Rightarrow> 'f elf_reader \<Rightarrow> elf64_program_header list \<Rightarrow> elf64_program_header \<Rightarrow>
   ('f elf_reader \<times> (load_status + elf64_program_header list \<times> elf64_program_header)) option" where
  "read_program_headers ops userspace_end entry_size 0 l phs note_ph = Some (l, Inr (phs, note_ph))"
| "read_program_headers ops userspace_end entry_size (Suc n) l phs note_ph = do {
     (l, bs) \<leftarrow> read_bytes ops l entry_size;
     if program_header_size < length bs then None
     else if length bs < unat entry_size then Some (l, Inl BAD_SEGMENT)
     else
       let h = bytes_program_header (bs @ replicate (program_header_size - length bs) 0)
       in if intersects_kernel userspace_end h then Some (l, Inl BAD_SEGMENT)
          else read_program_headers ops userspace_end entry_size n l (phs @ [h]) (if ph_type h = SEGMENT_NOTE then h else note_ph) }"

text \<open>
  The identification is read into a variable of its own: the one inside the header, with the byte order of the file, keeps its
  initial value 0.
\<close>

definition load_elf_file ::
  "'f node_ops \<Rightarrow> u64 \<Rightarrow> 'f elf_reader \<Rightarrow> ('f elf_reader \<times> (load_status + elf64_file)) option" where
  "load_elf_file ops userspace_end l = do {
     (l, ident) \<leftarrow> read_bytes ops l (of_nat ident_size);
     if length ident < ident_size then Some (l, Inl BAD_HEADER)
     else if take 4 ident \<noteq> ELF_MAGIC then Some (l, Inl BAD_HEADER)
     else if ident ! 4 = CLASS_NONE then Some (l, Inl BAD_HEADER)
     else if ident ! 4 = CLASS_ELF32 then Some (l, Inl BAD_HEADER)
     else do {
       (l, bs) \<leftarrow> read_bytes ops l (of_nat (header_size - ident_size));
       if length bs < header_size - ident_size then Some (l, Inl BAD_HEADER)
       else
         let ident_data = 0;
             header = bytes_elf_header (replicate ident_size 0 @ bs)
         in if eh_type header \<noteq> OBJECT_EXEC then Some (l, Inl BAD_HEADER)
            else if userspace_end < eh_entry header then Some (l, Inl BAD_HEADER)
            else do {
              (l, ok) \<leftarrow> elf_seek ops l (ph_offset header);
              if \<not> ok then Some (l, Inl BAD_SEGMENT)
              else do {
                (l, r) \<leftarrow> read_program_headers ops userspace_end (ph_entry_size header) (unat (ph_count header)) l [] no_program_header;
                (case r of
                   Inl st \<Rightarrow> Some (l, Inl st)
                 | Inr (phs, note_ph) \<Rightarrow>
                     if phs = [] then Some (l, Inl BAD_SEGMENT)
                     else
                       let file = \<lparr>elf_header = header, program_headers = phs, elf_vendor = ''Unknown'', elf_major = 0, elf_minor = 0, elf_patch = 0\<rparr>
                       in if ph_type note_ph = SEGMENT_NOTE then do {
                            (l, file, st) \<leftarrow> parse_vendor_information ops l file note_ph ident_data;
                            Some (l, if st \<noteq> LOADED then Inl st else Inr file) }
                          else Some (l, Inr file)) } } } }"

section \<open>Segments\<close>

definition write_bytes :: "memory \<Rightarrow> u64 \<Rightarrow> u8 list \<Rightarrow> memory" where
  "write_bytes m a bs = foldl (\<lambda>m i. m(a + of_nat i := bs ! i)) m [0..<length bs]"

definition segment_start :: "elf64_program_header \<Rightarrow> virtual_addr" where
  "segment_start h = memory_align (ph_virtual_address h) PAGE_SIZE False"

definition segment_end :: "elf64_program_header \<Rightarrow> virtual_addr" where
  "segment_end h = memory_align (ph_virtual_address h + ph_memory_size h) PAGE_SIZE True"

text \<open>The clean-up: the number of pages is computed from the size only.\<close>

fun free_segments :: "'s pmm_ops \<Rightarrow> elf64_program_header list \<Rightarrow> 's vmm \<Rightarrow> 's vmm option" where
  "free_segments ops [] v = Some v"
| "free_segments ops (h # phs) v =
     (if ph_type h \<noteq> SEGMENT_LOAD then free_segments ops phs v
      else do {
        (s, _) \<leftarrow> vmm_free_pages ops (space v) (loaded_base v) (loaded_base v) (segment_start h) (div_round_up (ph_memory_size h) PAGE_SIZE);
        free_segments ops phs (v\<lparr>space := s\<rparr>) })"

fun allocate_segments_loop ::
  "'s pmm_ops \<Rightarrow> elf64_program_header list \<Rightarrow> elf64_program_header list \<Rightarrow> 's vmm \<Rightarrow> virtual_addr \<Rightarrow> ('s vmm \<times> virtual_addr \<times> bool) option" where
  "allocate_segments_loop ops prior [] v heap = Some (v, heap, True)"
| "allocate_segments_loop ops prior (h # phs) v heap =
     (if ph_type h \<noteq> SEGMENT_LOAD then allocate_segments_loop ops (prior @ [h]) phs v heap
      else do {
        let heap = max_of (segment_end h) heap;
        (s, ok) \<leftarrow> vmm_allocate_pages ops (space v) (loaded_base v) (loaded_base v) (segment_start h)
                    (PRESENT OR WRITE_ALLOWED OR USER_MODE_ACCESS) ((segment_end h - segment_start h) div PAGE_SIZE);
        let v = v\<lparr>space := s\<rparr>;
        if ok then allocate_segments_loop ops (prior @ [h]) phs v heap
        else do { v \<leftarrow> free_segments ops prior v; Some (v, heap, False) } })"

definition allocate_segments :: "'s pmm_ops \<Rightarrow> elf64_file \<Rightarrow> 's vmm \<Rightarrow> virtual_addr \<Rightarrow> ('s vmm \<times> virtual_addr \<times> bool) option" where
  "allocate_segments ops file v heap = allocate_segments_loop ops [] (program_headers file) v heap"

text \<open>A read that returns nothing does not end the loop.\<close>

partial_function (option) copy_segment ::
  "'f node_ops \<Rightarrow> u64 \<Rightarrow> 'f elf_reader \<Rightarrow> memory \<Rightarrow> u64 \<Rightarrow> u64 \<Rightarrow> ('f elf_reader \<times> memory \<times> u64) option" where
  "copy_segment ops dest l m off to_copy =
     (if 0 < to_copy then do {
        (l, b) \<leftarrow> read_bytes ops l BUF_SIZE;
        let max_copy = min (of_nat (length b)) to_copy;
        copy_segment ops dest l (write_bytes m (dest + off) (take (unat max_copy) b)) (off + max_copy) (to_copy - max_copy) }
      else Some (l, m, off))"

partial_function (option) flag_loop :: "'s paging \<Rightarrow> page_table \<Rightarrow> virtual_addr \<Rightarrow> virtual_addr \<Rightarrow> u16 \<Rightarrow> 's paging option" where
  "flag_loop s base v v_end flags =
     (if v < v_end then flag_loop (fst (modify_page_flags s base v flags True)) base (v + PAGE_SIZE) v_end flags else Some s)"

declare copy_segment.simps [code] flag_loop.simps [code]

definition segment_flags :: "elf64_program_header \<Rightarrow> u16" where
  "segment_flags h = (if ph_flags h AND SEGMENT_WRITE \<noteq> 0 then PRESENT OR USER_MODE_ACCESS OR WRITE_ALLOWED else PRESENT OR USER_MODE_ACCESS)"

definition load_segment ::
  "'f node_ops \<Rightarrow> page_table \<Rightarrow> elf64_program_header \<Rightarrow> 'f elf_reader \<Rightarrow> 's paging \<Rightarrow> memory \<Rightarrow> ('f elf_reader \<times> 's paging \<times> memory \<times> bool) option" where
  "load_segment ops base h l s m =
     (if ph_type h \<noteq> SEGMENT_LOAD then Some (l, s, m, True)
      else do {
        (l, ok) \<leftarrow> elf_seek ops l (ph_file_offset h);
        if \<not> ok then Some (l, s, m, False)
        else do {
          (l, m, off) \<leftarrow> copy_segment ops (ph_virtual_address h) l m 0 (ph_file_size h);
          let m = (if ph_file_size h < ph_memory_size h
                   then memset m (ph_virtual_address h + off) 0 (ph_memory_size h - ph_file_size h) else m);
          s \<leftarrow> flag_loop s base (segment_start h) (segment_end h) (segment_flags h);
          Some (l, s, m, True) } })"

fun load_segments ::
  "'f node_ops \<Rightarrow> page_table \<Rightarrow> elf64_program_header list \<Rightarrow> 'f elf_reader \<Rightarrow> 's paging \<Rightarrow> memory \<Rightarrow> ('f elf_reader \<times> 's paging \<times> memory \<times> bool) option" where
  "load_segments ops base [] l s m = Some (l, s, m, True)"
| "load_segments ops base (h # phs) l s m = do {
     (l, s, m, ok) \<leftarrow> load_segment ops base h l s m;
     if ok then load_segments ops base phs l s m else Some (l, s, m, False) }"

section \<open>The bootstrap area\<close>

text \<open>The members of \<open>StartInfo\<close>: their offsets, with the four bytes that fill up \<open>argc\<close>, and its size.\<close>

definition START_INFO_SIZE :: u64 where "START_INFO_SIZE = 72"

definition write_u64 :: "memory \<Rightarrow> u64 \<Rightarrow> u64 \<Rightarrow> memory" where "write_u64 m a x = write_bytes m a (u64_bytes x)"

definition c_string :: "string \<Rightarrow> u8 list" where "c_string s = map of_char s @ [0]"

text \<open>The loop over the arguments: each is copied, and its address stored in \<open>argv\<close>.\<close>

fun write_args :: "u64 \<Rightarrow> u64 \<Rightarrow> nat \<Rightarrow> u64 \<Rightarrow> string list \<Rightarrow> memory \<Rightarrow> memory" where
  "write_args argv_area cla_area i offset [] m = write_u64 m (argv_area + of_nat i * 8) 0"
| "write_args argv_area cla_area i offset (s # args) m =
     (let m = write_bytes m (cla_area + offset) (c_string s);
          m = write_u64 m (argv_area + of_nat i * 8) (cla_area + offset)
      in write_args argv_area cla_area (Suc i) (offset + of_nat (length s) + 1) args m)"

definition write_start_info :: "u64 \<Rightarrow> u32 \<Rightarrow> u64 \<Rightarrow> u64 \<Rightarrow> u64 \<Rightarrow> u64 \<Rightarrow> memory \<Rightarrow> memory" where
  "write_start_info a argc argv ph_area phs entry m =
     (let m = write_bytes m a (u32_bytes argc);
          m = write_u64 m (a + 8) argv;
          m = write_u64 m (a + 16) 1;
          m = write_u64 m (a + 24) 0;
          m = write_u64 m (a + 32) ph_area;
          m = write_u64 m (a + 40) (of_nat program_header_size);
          m = write_u64 m (a + 48) phs;
          m = write_u64 m (a + 56) entry
      in write_u64 m (a + 64) (a + 16))"

text \<open>The result is the address of the start info, \<open>None\<close> inside for the null pointer.\<close>

definition setup_bootstrap_area ::
  "'s pmm_ops \<Rightarrow> elf64_file \<Rightarrow> string list \<Rightarrow> u64 \<Rightarrow> 's vmm \<Rightarrow> memory \<Rightarrow> ('s vmm \<times> memory \<times> u64 option) option" where
  "setup_bootstrap_area ops file args stack_size v m =
     (let ph_area_size = of_nat (length (program_headers file) * program_header_size);
          cla_area_size = of_nat (sum_list (map (\<lambda>s. length s + 1) args));
          argc = length args;
          argv_size = of_nat ((argc + 1) * 8);
          bootstrap_area_size = memory_align (START_INFO_SIZE + argv_size + cla_area_size + ph_area_size) PAGE_SIZE True;
          area_size = stack_size + bootstrap_area_size;
          area_begin = to_canonical_form (user_space_end v - area_size)
      in do {
        (s, ok) \<leftarrow> vmm_allocate_pages ops (space v) (loaded_base v) (loaded_base v) area_begin
                    (PRESENT OR WRITE_ALLOWED OR USER_MODE_ACCESS) (area_size div PAGE_SIZE);
        let v = v\<lparr>space := s\<rparr>;
        if \<not> ok then Some (v, m, None)
        else
          let bootstrap = area_begin + stack_size;
              argv_area = bootstrap + START_INFO_SIZE;
              cla_area = argv_area + argv_size;
              ph_area = cla_area + cla_area_size;
              m = write_args argv_area cla_area 0 0 args m;
              m = write_bytes m ph_area (concat (map program_header_bytes (program_headers file)));
              m = write_start_info bootstrap (of_nat argc) argv_area ph_area (of_nat (length (program_headers file))) (eh_entry (elf_header file)) m
          in Some (v, m, Some bootstrap) })"

section \<open>Loading\<close>

record app_info =
  app_location :: string
  app_name :: string
  app_vendor :: string
  app_version :: "u16 \<times> u16 \<times> u16"
  app_base_page_table :: physical_addr
  app_entry :: u64
  app_heap_start :: virtual_addr
  app_heap_limit :: virtual_addr

record user_stack =
  us_bottom :: u64
  us_top :: u64
  us_size :: u64

text \<open>
  \<open>mem_of\<close> are the contents of the address spaces, by the addresses of their base page tables. The state of the node, which is
  closed in the end, is kept by the reader. An early return leaves the file open and the new address space loaded.
\<close>

record ('d, 'n, 'x, 's) elf_ctx =
  elf_vfs :: "('d, 'n, 'x) vfs"
  elf_vmm :: "'s vmm"
  mem_of :: "physical_addr \<Rightarrow> memory"

definition STACK_SIZE :: u64 where "STACK_SIZE = 16 * 1024"

definition setup_empty_stack :: "memory \<Rightarrow> u64 \<Rightarrow> memory \<times> u64" where
  "setup_empty_stack m stack_top = (write_u64 m (stack_top - 8) 0, stack_top - 8)"

definition elf_load ::
  "('d \<Rightarrow> 'n node_ops) \<Rightarrow> 's pmm_ops \<Rightarrow> string \<Rightarrow> string list \<Rightarrow> bool \<Rightarrow> ('d, 'n, 'x, 's) elf_ctx \<Rightarrow>
   (('d, 'n, 'x, 's) elf_ctx \<times> (load_status + app_info \<times> user_stack \<times> u64)) option" where
  "elf_load nops ops executable args keep_vas c = do {
     (fs, r) \<leftarrow> vfs_open (elf_vfs c) executable MODE_READ;
     let c = c\<lparr>elf_vfs := fs\<rparr>;
     (case r of
        Inl _ \<Rightarrow> Some (c, Inl IO_ERROR)
      | Inr node \<Rightarrow> do {
          let nd = nops (world fs);
          (l, r) \<leftarrow> load_elf_file nd (user_space_end (elf_vmm c)) (new_reader (vn_node node));
          (case r of
             Inl st \<Rightarrow> Some (c, Inl st)
           | Inr file \<Rightarrow> do {
               let curr_app_vas = base_addr (elf_vmm c);
               (v, vas) \<leftarrow> (if keep_vas then Some (elf_vmm c, Some curr_app_vas)
                          else do {
                            (s, p) \<leftarrow> allocate_virtual_address_space ops (space (elf_vmm c)) (loaded_base (elf_vmm c));
                            let v = (elf_vmm c)\<lparr>space := s\<rparr>;
                            Some (case p of None \<Rightarrow> (v, None) | Some p \<Rightarrow> (load_virtual_address_space v p, Some p)) });
               let c = c\<lparr>elf_vmm := v\<rparr>;
               (case vas of
                  None \<Rightarrow> Some (c, Inl MEMORY_ERROR)
                | Some base_pt_addr \<Rightarrow> do {
                    (v, heap_start, ok) \<leftarrow> allocate_segments ops file v 0;
                    let c = c\<lparr>elf_vmm := v\<rparr>;
                    if \<not> ok then Some (c, Inl MEMORY_ERROR)
                    else do {
                      (l, s, m, ok) \<leftarrow> load_segments nd (loaded_base v) (program_headers file) l (space v) (mem_of c (base_addr v));
                      let v = v\<lparr>space := s\<rparr>;
                      let c = c\<lparr>elf_vmm := v, mem_of := (mem_of c)(base_addr v := m)\<rparr>;
                      if \<not> ok then Some (c, Inl LOAD_ERROR)
                      else do {
                        (v, m, start_info) \<leftarrow> setup_bootstrap_area ops file args STACK_SIZE v m;
                        let c = c\<lparr>elf_vmm := v, mem_of := (mem_of c)(base_addr v := m)\<rparr>;
                        (case start_info of
                           None \<Rightarrow> Some (c, Inl MEMORY_ERROR)
                         | Some start_info_addr \<Rightarrow> do {
                             let app = \<lparr>app_location = executable, app_name = get_file_name_without_extension executable,
                                        app_vendor = elf_vendor file, app_version = (elf_major file, elf_minor file, elf_patch file),
                                        app_base_page_table = base_pt_addr, app_entry = eh_entry (elf_header file),
                                        app_heap_start = heap_start, app_heap_limit = heap_start\<rparr>;
                             let (m, top) = setup_empty_stack m start_info_addr;
                             let stack = \<lparr>us_bottom = start_info_addr - STACK_SIZE, us_top = top, us_size = STACK_SIZE\<rparr>;
                             (fs, _) \<leftarrow> close_node (node\<lparr>vn_node := elf_node l\<rparr>) (elf_vfs c);
                             let v = (if keep_vas then v else v\<lparr>base_addr := curr_app_vas\<rparr>);
                             Some (c\<lparr>elf_vfs := fs, elf_vmm := v, mem_of := (mem_of c)(base_pt_addr := m)\<rparr>, Inr (app, stack, start_info_addr)) }) } } }) }) }) }"

text \<open>The methods of a file of a FAT volume.\<close>

definition fat_node_ops :: "'d msd_ops \<Rightarrow> boot_record \<Rightarrow> 'd \<Rightarrow> fat_node node_ops" where
  "fat_node_ops ms b d = \<lparr>nd_read = (\<lambda>s k. node_read ms d b s True k), nd_seek_begin = (\<lambda>s off. node_seek ms d b s SEEK_BEGIN off)\<rparr>"

end
