(* ===== verification/Elf_Loading.thy ===== *)
theory Elf_Loading
  imports Elf Fat_Paths
begin

text \<open>
  What the loader of executables promises: over a file that is a sequence of bytes (locale \<open>byte_node\<close>, interpreted on files
  of a FAT volume) the buffered reader returns consecutive bytes, the headers are those of the file, accepted
  segments hold no canonical kernel address unless their end wraps around, and loaded segments hold the bytes of the file and zeroes.
\<close>

section \<open>The headers of a file\<close>

text \<open>An offset is cut to 32 bits with a sign; the end of the file cannot be reached.\<close>

definition seek_target32 :: "u64 \<Rightarrow> nat" where "seek_target32 off = nat (sint (ucast off :: 32 word))"

definition seekable :: "u8 list \<Rightarrow> u64 \<Rightarrow> bool" where
  "seekable b off \<longleftrightarrow> 0 \<le> sint (ucast off :: 32 word) \<and> sint (ucast off :: 32 word) < int (length b)"

lemma seek_inside:
  assumes "unat off < length b" and "length b < 2 ^ 31"
  shows "seekable b off" and "seek_target32 off = unat off"
proof -
  have u: "uint (ucast off :: 32 word) = int (unat off)"
  proof -
    have "unat off < 2 ^ 32" using assms by simp
    then have "int (unat off) < int (2 ^ 32)" by (simp only: of_nat_less_iff)
    then have "int (unat off) mod 2 ^ 32 = int (unat off)" by (intro mod_pos_pos_trivial) (simp_all only: of_nat_0_le_iff of_nat_power of_nat_numeral)
    then show ?thesis by (simp add: unsigned_ucast_eq take_bit_eq_mod)
  qed
  have "sint (ucast off :: 32 word) = signed_take_bit 31 (uint (ucast off :: 32 word))" by (simp add: sint_uint)
  also have "\<dots> = int (unat off)"
  proof -
    have "unat off < 2 ^ 31" using assms by simp
    then have "int (unat off) < int (2 ^ 31)" by (simp only: of_nat_less_iff)
    moreover have "- (2 ^ 31) \<le> int (unat off)" by (rule order_trans [of _ 0]) simp_all
    ultimately show ?thesis unfolding u by (intro signed_take_bit_int_eq_self) (simp_all only: of_nat_power of_nat_numeral)
  qed
  finally have s: "sint (ucast off :: 32 word) = int (unat off)" .
  then show "seekable b off" "seek_target32 off = unat off"
    unfolding seekable_def seek_target32_def s using assms(1) by (simp_all only: of_nat_0_le_iff of_nat_less_iff simp_thms nat_int)
qed

text \<open>The program header number \<open>i\<close> of a table at \<open>p\<close> with entries of \<open>sz\<close> bytes.\<close>

definition header_at :: "u8 list \<Rightarrow> nat \<Rightarrow> nat \<Rightarrow> nat \<Rightarrow> elf64_program_header" where
  "header_at b p sz i = (let e = take sz (drop (p + i * sz) b) in bytes_program_header (e @ replicate (program_header_size - length e) 0))"

definition last_note :: "elf64_program_header \<Rightarrow> elf64_program_header \<Rightarrow> elf64_program_header" where
  "last_note note h = (if ph_type h = SEGMENT_NOTE then h else note)"

definition vendor_verdict ::
  "u8 list \<Rightarrow> elf64_file \<Rightarrow> elf64_program_header \<Rightarrow> u8 \<Rightarrow> (elf64_file \<times> load_status) option" where
  "vendor_verdict b file note order =
     (let p = seek_target32 (ph_file_offset note);
          e = take 12 (drop p b);
          nh = e @ replicate (12 - length e) 0;
          name_size = to_u32 order nh;
          k = ucast (memory_align (ucast name_size) 4 True + memory_align (ucast (to_u32 order (drop 4 nh))) 4 True) :: u16;
          v = take (unat k) (drop (p + 12) b)
      in if \<not> seekable b (ph_file_offset note) \<or> e = [] \<or> to_u32 order (drop 8 nh) \<noteq> 1 \<or> v = [] then Some (file, BAD_VENDOR_INFO)
         else do {
           vendor \<leftarrow> vendor_string v;
           major \<leftarrow> version_part order v (unat name_size);
           minor \<leftarrow> version_part order v (unat (name_size + 2));
           patch \<leftarrow> version_part order v (unat (name_size + 4));
           Some (file\<lparr>elf_vendor := vendor, elf_major := major, elf_minor := minor, elf_patch := patch\<rparr>, LOADED) })"

definition elf_header_of :: "u8 list \<Rightarrow> elf64_header" where
  "elf_header_of b = bytes_elf_header (replicate ident_size 0 @ take (header_size - ident_size) (drop ident_size b))"

definition segments_of :: "u8 list \<Rightarrow> elf64_program_header list" where
  "segments_of b = (let h = elf_header_of b
     in map (header_at b (seek_target32 (ph_offset h)) (unat (ph_entry_size h))) [0..<unat (ph_count h)])"

text \<open>
  A program header is read with the size of an entry that the file gives into a structure of 56 bytes: a larger header
  overwrites the stack.
\<close>

definition headers_overflow :: "u8 list \<Rightarrow> elf64_header \<Rightarrow> bool" where
  "headers_overflow b h \<longleftrightarrow> 0 < unat (ph_count h) \<and> program_header_size < unat (ph_entry_size h) \<and>
     program_header_size < length b - seek_target32 (ph_offset h)"

text \<open>
  What a file is for the loader; \<open>None\<close> where the headers overwrite the stack or a note is read outside the buffer. The byte
  order of the vendor note is taken from a member that is 0, so notes are read in big endian order.
\<close>

definition elf_verdict :: "u64 \<Rightarrow> u8 list \<Rightarrow> (load_status + elf64_file) option" where
  "elf_verdict limit b =
     (let h = elf_header_of b; phs = segments_of b; nt = foldl last_note no_program_header phs;
          file = \<lparr>elf_header = h, program_headers = phs, elf_vendor = ''Unknown'', elf_major = 0, elf_minor = 0, elf_patch = 0\<rparr>
      in if length b < header_size \<or> take 4 b \<noteq> ELF_MAGIC \<or> b ! 4 = CLASS_NONE \<or> b ! 4 = CLASS_ELF32 \<or>
            eh_type h \<noteq> OBJECT_EXEC \<or> limit < eh_entry h
         then Some (Inl BAD_HEADER)
         else if seekable b (ph_offset h) \<and> headers_overflow b h then None
         else if \<not> seekable b (ph_offset h) \<or> length b < seek_target32 (ph_offset h) + unat (ph_count h) * unat (ph_entry_size h) \<or>
            list_ex (intersects_kernel limit) phs \<or> phs = []
         then Some (Inl BAD_SEGMENT)
         else if ph_type nt = SEGMENT_NOTE
         then map_option (\<lambda>(file, st). if st \<noteq> LOADED then Inl st else Inr file) (vendor_verdict b file nt 0)
         else Some (Inr file))"

section \<open>Memory\<close>

lemma write_bytes_at:
  assumes "length bs \<le> 2 ^ 64"
  shows "write_bytes m a bs x = (if unat (x - a) < length bs then bs ! unat (x - a) else m x)"
proof -
  have "foldl (\<lambda>m i. m(a + of_nat i := bs ! i)) m [0..<n] x = (if unat (x - a) < n then bs ! unat (x - a) else m x)"
    if "n \<le> 2 ^ 64" for n
    using that
  proof (induction n)
    case (Suc n)
    then have "x = a + of_nat n \<longleftrightarrow> unat (x - a) = n" by (intro offset_eq) simp
    then show ?case using Suc by (auto simp: less_Suc_eq)
  qed simp
  then show ?thesis using assms by (simp add: write_bytes_def)
qed

lemma write_bytes_append: "write_bytes (write_bytes m a xs) (a + of_nat (length xs)) ys = write_bytes m a (xs @ ys)"
proof -
  let ?n = "length xs"
  have "foldl (\<lambda>m i. m(a + of_nat i := (xs @ ys) ! i)) m' [?n..<?n + k] = foldl (\<lambda>m i. m(a + of_nat ?n + of_nat i := ys ! i)) m' [0..<k]" for m' k
    by (induction k) (simp_all add: nth_append ac_simps cong: if_cong)
  moreover have "foldl (\<lambda>m i. m(a + of_nat i := (xs @ ys) ! i)) m [0..<?n] = foldl (\<lambda>m i. m(a + of_nat i := xs ! i)) m [0..<?n]"
    by (intro foldl_cong) (simp_all add: nth_append)
  ultimately show ?thesis by (simp add: write_bytes_def upt_add_eq_append [of 0, simplified])
qed

lemma write_bytes_empty [simp]: "write_bytes m a [] = m"
  by (simp add: write_bytes_def)

lemma memset_write: "memset m a v n = write_bytes m a (replicate (unat n) v)"
  unfolding memset_def write_bytes_def by (intro foldl_cong) simp_all

lemma flag_loop_returns:
  assumes "4096 dvd unat v" and "4096 dvd unat v_end"
  shows "\<exists>s'. flag_loop s base v v_end flags = Some s'"
  using assms
proof (induction "unat v_end - unat v" arbitrary: s v rule: less_induct)
  case less
  show ?case
  proof (cases "v < v_end")
    case True
    obtain i j where ij: "unat v = 4096 * i" "unat v_end = 4096 * j" using less.prems by (auto elim!: dvdE)
    then have "i < j" using True by (simp add: word_less_nat_alt)
    then have "4096 * i + 4096 \<le> 4096 * j" by simp
    then have le: "unat v + 4096 \<le> unat v_end" using ij by simp
    then have "unat v + 4096 < 18446744073709551616" using unat_lt_2p64 [of v_end] by linarith
    then have u: "unat (v + PAGE_SIZE) = unat v + 4096" by (simp add: PAGE_SIZE_def unat_word_ariths)
    have "\<exists>s'. flag_loop (fst (modify_page_flags s base v flags True)) base (v + PAGE_SIZE) v_end flags = Some s'"
      using less.hyps [of "v + PAGE_SIZE"] u le less.prems by simp
    then show ?thesis using True by (subst flag_loop.simps) simp
  next
    case False
    then show ?thesis by (subst flag_loop.simps) simp
  qed
qed

lemma page_multiples: "4096 dvd unat (memory_align x PAGE_SIZE up)"
proof -
  have "4096 dvd unat (y * PAGE_SIZE)" for y :: u64
  proof -
    have "unat (y * PAGE_SIZE) = unat y * 4096 mod 2 ^ 64" by (simp add: PAGE_SIZE_def unat_word_ariths)
    also have "\<dots> = 4096 * (unat y mod 2 ^ 52)" using mult_mod_right [of 4096 "unat y" "2 ^ 52"] by (simp add: mult.commute)
    finally show ?thesis by simp
  qed
  then show ?thesis by (simp add: memory_align_def Let_def)
qed

text \<open>A loaded segment: the bytes of the file, zeroes behind them, and the rest of the memory as it was.\<close>

definition segment_image :: "u8 list \<Rightarrow> elf64_program_header \<Rightarrow> memory \<Rightarrow> memory" where
  "segment_image b h m = (\<lambda>a.
     let i = unat (a - ph_virtual_address h)
     in if i < unat (ph_file_size h) then b ! (unat (ph_file_offset h) + i)
        else if i < unat (ph_memory_size h) then 0 else m a)"

definition loaded_image :: "u8 list \<Rightarrow> elf64_program_header list \<Rightarrow> memory \<Rightarrow> memory" where
  "loaded_image b phs m = foldl (\<lambda>m h. if ph_type h = SEGMENT_LOAD then segment_image b h m else m) m phs"

lemma segment_image_write:
  assumes "unat (ph_file_offset h) + unat (ph_file_size h) \<le> length b"
  shows "segment_image b h m = write_bytes m (ph_virtual_address h)
    (take (unat (ph_file_size h)) (drop (unat (ph_file_offset h)) b) @ replicate (unat (ph_memory_size h) - unat (ph_file_size h)) 0)"
    (is "_ = write_bytes _ _ (?xs @ ?ys)")
proof
  fix a
  have n: "length ?xs = unat (ph_file_size h)" using assms by simp
  have "unat (ph_file_size h) + (unat (ph_memory_size h) - unat (ph_file_size h)) \<le> 18446744073709551616"
    using unat_lt_2p64 [of "ph_file_size h"] unat_lt_2p64 [of "ph_memory_size h"] by linarith
  then have "length (?xs @ ?ys) \<le> 2 ^ 64" unfolding length_append n by simp
  then show "segment_image b h m a = write_bytes m (ph_virtual_address h) (?xs @ ?ys) a"
    using n assms by (auto simp: write_bytes_at segment_image_def Let_def nth_append)
qed

section \<open>Files as byte sequences\<close>

locale byte_node =
  fixes ops :: "'f node_ops" and node_ok :: "'f \<Rightarrow> bool" and node_pos :: "'f \<Rightarrow> nat" and bytes :: "u8 list"
  assumes pos_inside: "node_ok f \<Longrightarrow> node_pos f \<le> length bytes"
    and reads: "node_ok f \<Longrightarrow> \<exists>f'. nd_read ops f k = Some (f', IO_OKAY, take k (drop (node_pos f) bytes)) \<and> node_ok f' \<and>
      node_pos f' = min (node_pos f + k) (length bytes)"
    and seeks: "node_ok f \<Longrightarrow> 0 \<le> sint off \<Longrightarrow> sint off < int (length bytes) \<Longrightarrow>
      \<exists>f' n. nd_seek_begin ops f off = Some (f', IO_OKAY, n) \<and> node_ok f' \<and> node_pos f' = nat (sint off)"
    and refuses: "node_ok f \<Longrightarrow> \<not> (0 \<le> sint off \<and> sint off < int (length bytes)) \<Longrightarrow>
      \<exists>f' st n. nd_seek_begin ops f off = Some (f', st, n) \<and> st \<noteq> IO_OKAY \<and> node_ok f'"

context byte_node begin

text \<open>The reader is at position \<open>p\<close>: what is left in its buffer are the bytes from there to the position of the node.\<close>

definition at :: "nat \<Rightarrow> 'f elf_reader \<Rightarrow> bool" where
  "at p l \<longleftrightarrow> node_ok (elf_node l) \<and> length (file_buf l) = 8192 \<and> buf_pos l \<le> buf_limit l \<and> unat (buf_limit l) \<le> 8192 \<and>
     p + (unat (buf_limit l) - unat (buf_pos l)) = node_pos (elf_node l) \<and>
     take (unat (buf_limit l) - unat (buf_pos l)) (drop (unat (buf_pos l)) (file_buf l)) =
       take (unat (buf_limit l) - unat (buf_pos l)) (drop p bytes)"

lemma at_start: "node_ok f \<Longrightarrow> node_pos f = 0 \<Longrightarrow> at 0 (new_reader f)"
  by (simp add: at_def new_reader_def BUF_SIZE_def)

lemma at_inside: "at p l \<Longrightarrow> p \<le> length bytes"
  using pos_inside [of "elf_node l"] by (auto simp: at_def)

lemma next_buffer:
  assumes ok: "node_ok (elf_node l)" and len: "length (file_buf l) = 8192"
  shows "\<exists>l'. get_next_buffer ops l = Some (l', node_pos (elf_node l) < length bytes) \<and> node_ok (elf_node l') \<and> length (file_buf l') = 8192 \<and>
    (if node_pos (elf_node l) < length bytes then at (node_pos (elf_node l)) l' \<and> buf_pos l' = 0 \<and> 0 < buf_limit l'
     else buf_pos l' = buf_pos l \<and> buf_limit l' = buf_limit l \<and> file_buf l' = file_buf l \<and> node_pos (elf_node l') = node_pos (elf_node l))"
proof -
  let ?p = "node_pos (elf_node l)"
  obtain f' where f: "nd_read ops (elf_node l) 8192 = Some (f', IO_OKAY, take 8192 (drop ?p bytes))" "node_ok f'"
    "node_pos f' = min (?p + 8192) (length bytes)" using reads [OF ok, of 8192] by blast
  let ?bs = "take 8192 (drop ?p bytes)"
  have in_p: "?p \<le> length bytes" by (rule pos_inside [OF ok])
  have n: "length ?bs = min 8192 (length bytes - ?p)" by simp
  have u: "unat (of_nat (length ?bs) :: u16) = length ?bs" by (simp add: unat_of_nat)
  show ?thesis
  proof (cases "?p < length bytes")
    case True
    let ?l = "l\<lparr>elf_node := f', file_buf := ?bs @ drop (length ?bs) (file_buf l), buf_pos := 0, buf_limit := of_nat (length ?bs)\<rparr>"
    have "get_next_buffer ops l = Some (?l, True)"
      using True f(1) by (simp add: get_next_buffer_def BUF_SIZE_def)
    moreover have "at ?p ?l"
      unfolding at_def using f(2,3) len True u by (simp add: min_def) arith
    moreover have "0 < (of_nat (length ?bs) :: u16)"
    proof -
      have "0 < length ?bs" using True by simp
      then show ?thesis using u by (simp only: word_less_nat_alt unsigned_0)
    qed
    ultimately show ?thesis using True f(2) len by simp
  next
    case False
    then have "?bs = []" "?p = length bytes" using in_p by simp_all
    then show ?thesis using False f len by (auto simp: get_next_buffer_def BUF_SIZE_def)
  qed
qed

lemma at_advance:
  assumes "at p l" and "k \<le> unat (buf_limit l) - unat (buf_pos l)"
  shows "at (p + k) (l\<lparr>buf_pos := buf_pos l + of_nat k\<rparr>)"
    and "take k (drop (unat (buf_pos l)) (file_buf l)) = take k (drop p bytes)"
proof -
  let ?i = "unat (buf_pos l)" and ?j = "unat (buf_limit l)"
  have le: "?i \<le> ?j" "?j \<le> 8192" using assms(1) by (simp_all add: at_def word_le_nat_alt)
  have k: "unat (of_nat k :: u16) = k" using assms(2) le by (simp add: unat_of_nat)
  have u: "unat (buf_pos l + of_nat k) = ?i + k" using assms(2) le k by (simp add: unat_word_ariths)
  have eq: "take (?j - ?i) (drop ?i (file_buf l)) = take (?j - ?i) (drop p bytes)" using assms(1) by (simp add: at_def)
  have "take (?j - ?i - k) (drop k (drop ?i (file_buf l))) = drop k (take (?j - ?i) (drop ?i (file_buf l)))" by (simp add: drop_take)
  also have "\<dots> = take (?j - ?i - k) (drop k (drop p bytes))" unfolding eq by (simp add: drop_take)
  finally have "take (?j - ?i - k) (drop (?i + k) (file_buf l)) = take (?j - ?i - k) (drop (p + k) bytes)" by (simp add: add.commute)
  then show "at (p + k) (l\<lparr>buf_pos := buf_pos l + of_nat k\<rparr>)"
    using assms le u by (simp add: at_def word_le_nat_alt)
  have "take k (take (?j - ?i) (drop ?i (file_buf l))) = take k (take (?j - ?i) (drop p bytes))" unfolding eq by (rule refl)
  then show "take k (drop ?i (file_buf l)) = take k (drop p bytes)" using assms(2) by simp
qed

text \<open>After the test whether the buffer is used up, it is not empty or the end of the file is reached.\<close>

lemma refilled:
  assumes "at p l" and used: "buf_limit l \<le> buf_pos l"
  shows "\<exists>l'. get_next_buffer ops l = Some (l', p < length bytes) \<and> at p l' \<and> (p < length bytes \<longrightarrow> buf_pos l' < buf_limit l')"
proof -
  have eq: "buf_pos l = buf_limit l" and p: "p = node_pos (elf_node l)" and ok: "node_ok (elf_node l)" and len: "length (file_buf l) = 8192"
    using assms by (auto simp: at_def)
  obtain l' where "get_next_buffer ops l = Some (l', p < length bytes)" "node_ok (elf_node l')" "length (file_buf l') = 8192"
    "if p < length bytes then at p l' \<and> buf_pos l' = 0 \<and> 0 < buf_limit l'
     else buf_pos l' = buf_pos l \<and> buf_limit l' = buf_limit l \<and> file_buf l' = file_buf l \<and> node_pos (elf_node l') = node_pos (elf_node l)"
    using next_buffer [OF ok len] unfolding p by blast
  moreover from this have "at p l'" using assms(1) eq by (cases "p < length bytes") (auto simp: at_def)
  ultimately show ?thesis by (metis (full_types))
qed

lemma read_bytes_loop_reads:
  assumes "at p l" and "length acc \<le> unat n"
  shows "\<exists>l'. read_bytes_loop ops n l acc = Some (l', acc @ take (unat n - length acc) (drop p bytes)) \<and>
    at (min (p + (unat n - length acc)) (length bytes)) l'"
  using assms
proof (induction "unat n - length acc" arbitrary: l acc p rule: less_induct)
  case less
  show ?case
  proof (cases "length acc < unat n")
    case False
    then have "read_bytes_loop ops n l acc = Some (l, acc)" by (subst read_bytes_loop.simps) simp
    then show ?thesis using False less.prems at_inside [OF less.prems(1)] by (simp add: min_def)
  next
    case True
    have step: "\<exists>l'. (let k = min (unat n - length acc) (unat (buf_limit l1 - buf_pos l1))
        in read_bytes_loop ops n (l1\<lparr>buf_pos := buf_pos l1 + of_nat k\<rparr>) (acc @ take k (drop (unat (buf_pos l1)) (file_buf l1)))) =
        Some (l', acc @ take (unat n - length acc) (drop p bytes)) \<and> at (min (p + (unat n - length acc)) (length bytes)) l'"
      if l1: "at p l1" "buf_pos l1 < buf_limit l1" for l1
    proof -
      let ?d = "unat (buf_limit l1) - unat (buf_pos l1)"
      have d: "unat (buf_limit l1 - buf_pos l1) = ?d" using l1(2) by (simp add: unat_sub less_imp_le)
      define k where "k = min (unat n - length acc) ?d"
      have k: "0 < k" "k \<le> ?d" "k \<le> unat n - length acc" using True l1(2) by (simp_all add: k_def word_less_nat_alt)
      note adv = at_advance [OF l1(1) k(2)]
      have kb: "p + k \<le> length bytes" using at_inside [OF adv(1)] .
      then have lk: "length (take k (drop p bytes)) = k" by simp
      obtain l' where l': "read_bytes_loop ops n (l1\<lparr>buf_pos := buf_pos l1 + of_nat k\<rparr>) (acc @ take k (drop p bytes)) =
          Some (l', (acc @ take k (drop p bytes)) @ take (unat n - length (acc @ take k (drop p bytes))) (drop (p + k) bytes))"
        "at (min (p + k + (unat n - length (acc @ take k (drop p bytes)))) (length bytes)) l'"
        using less.hyps [OF _ adv(1), of "acc @ take k (drop p bytes)"] lk k True by fastforce
      have "take k (drop p bytes) @ take (unat n - length acc - k) (drop (p + k) bytes) = take (unat n - length acc) (drop p bytes)"
      proof -
        have "take (unat n - length acc) (drop p bytes) = take (k + (unat n - length acc - k)) (drop p bytes)"
          using le_add_diff_inverse [OF k(3)] by simp
        also have "\<dots> = take k (drop p bytes) @ take (unat n - length acc - k) (drop k (drop p bytes))" by (rule take_add)
        finally show ?thesis by (simp add: add.commute)
      qed
      moreover have e: "p + k + (unat n - length (acc @ take k (drop p bytes))) = p + (unat n - length acc)" unfolding length_append lk using k(3) by arith
      moreover have "unat n - length (acc @ take k (drop p bytes)) = unat n - length acc - k" unfolding length_append lk by simp
      ultimately have "read_bytes_loop ops n (l1\<lparr>buf_pos := buf_pos l1 + of_nat k\<rparr>) (acc @ take k (drop p bytes)) =
          Some (l', acc @ take (unat n - length acc) (drop p bytes))" using l'(1) by (simp only: append_assoc)
      moreover note l'(2) [unfolded e]
      ultimately show ?thesis unfolding Let_def d k_def [symmetric] adv(2) by blast
    qed
    show ?thesis
    proof (cases "buf_limit l \<le> buf_pos l")
      case used: True
      obtain l1 where l1: "get_next_buffer ops l = Some (l1, p < length bytes)" "at p l1" "p < length bytes \<longrightarrow> buf_pos l1 < buf_limit l1"
        using refilled [OF less.prems(1) used] by blast
      show ?thesis
      proof (cases "p < length bytes")
        case more: True
        show ?thesis using step [OF l1(2)] l1(1,3) True used more by (subst read_bytes_loop.simps) (simp add: Let_def)
      next
        case False
        then have "p = length bytes" using at_inside [OF less.prems(1)] by simp
        then show ?thesis using l1 False True used by (subst read_bytes_loop.simps) simp
      qed
    next
      case False
      then show ?thesis using step [OF less.prems(1)] True by (subst read_bytes_loop.simps) (simp add: Let_def)
    qed
  qed
qed

lemma read_bytes_reads:
  assumes "at p l"
  shows "\<exists>l'. read_bytes ops l n = Some (l', take (unat n) (drop p bytes)) \<and> at (min (p + unat n) (length bytes)) l'"
proof (cases "buf_limit l = 0")
  case True
  then have "buf_limit l \<le> buf_pos l" by simp
  then obtain l1 where l1: "get_next_buffer ops l = Some (l1, p < length bytes)" "at p l1"
    using refilled [OF assms] by blast
  show ?thesis
  proof (cases "p < length bytes")
    case more: True
    then show ?thesis using read_bytes_loop_reads [OF l1(2), of "[]" n] l1(1) True by (simp add: read_bytes_def)
  next
    case False
    then have "p = length bytes" using at_inside [OF assms] by simp
    then show ?thesis using l1 True by (simp add: read_bytes_def)
  qed
next
  case False
  then show ?thesis using read_bytes_loop_reads [OF assms, of "[]" n] by (simp add: read_bytes_def)
qed

text \<open>To seek, the node and the size of the buffer have to be right.\<close>

definition ready :: "'f elf_reader \<Rightarrow> bool" where "ready l \<longleftrightarrow> node_ok (elf_node l) \<and> length (file_buf l) = 8192"

lemma at_ready: "at p l \<Longrightarrow> ready l"
  by (simp add: at_def ready_def)

lemma elf_seek_seeks:
  assumes "ready l"
  shows "\<exists>l'. elf_seek ops l off = Some (l', seekable bytes off) \<and> ready l' \<and> (seekable bytes off \<longrightarrow> at (seek_target32 off) l')"
proof -
  have ok: "node_ok (elf_node l)" "length (file_buf l) = 8192" using assms by (simp_all add: ready_def)
  show ?thesis
  proof (cases "seekable bytes off")
    case True
    then obtain f n where f: "nd_seek_begin ops (elf_node l) (ucast off) = Some (f, IO_OKAY, n)" "node_ok f"
      "node_pos f = seek_target32 off" using seeks [OF ok(1)] unfolding seekable_def seek_target32_def by blast
    have "node_pos f < length bytes" using True f(3) by (simp add: seekable_def seek_target32_def nat_less_iff)
    then show ?thesis using next_buffer [of "l\<lparr>elf_node := f\<rparr>"] f ok(2) True by (auto simp: elf_seek_def intro: at_ready)
  next
    case False
    then obtain f st n where "nd_seek_begin ops (elf_node l) (ucast off) = Some (f, st, n)" "st \<noteq> IO_OKAY" "node_ok f"
      using refuses [OF ok(1)] unfolding seekable_def by blast
    then show ?thesis using False ok(2) by (simp add: elf_seek_def ready_def)
  qed
qed

lemma program_headers_read:
  assumes "at p l" and "unat sz \<le> program_header_size"
  shows "\<exists>l'. read_program_headers ops limit sz n l phs nt = Some (l',
    if p + n * unat sz \<le> length bytes \<and> (\<forall>i < n. \<not> intersects_kernel limit (header_at bytes p (unat sz) i))
    then Inr (phs @ map (header_at bytes p (unat sz)) [0..<n], foldl last_note nt (map (header_at bytes p (unat sz)) [0..<n]))
    else Inl BAD_SEGMENT) \<and> ready l'"
  using assms(1)
proof (induction n arbitrary: p l phs nt)
  case 0
  then show ?case using at_inside at_ready by simp
next
  case (Suc n)
  let ?sz = "unat sz" and ?e = "take (unat sz) (drop p bytes)"
  obtain l1 where l1: "read_bytes ops l sz = Some (l1, ?e)" "at (min (p + ?sz) (length bytes)) l1"
    using read_bytes_reads [OF Suc.prems] by blast
  have small: "\<not> program_header_size < length ?e" using assms(2) by (simp add: min_def)
  have h0: "header_at bytes p ?sz 0 = bytes_program_header (?e @ replicate (program_header_size - length ?e) 0)"
    by (simp add: header_at_def Let_def)
  have hs: "header_at bytes p ?sz (Suc i) = header_at bytes (p + ?sz) ?sz i" for i by (simp add: header_at_def ac_simps)
  have maps: "map (header_at bytes p ?sz) [0..<Suc n] = header_at bytes p ?sz 0 # map (header_at bytes (p + ?sz) ?sz) [0..<n]"
    using hs by (simp add: upt_conv_Cons map_Suc_upt [symmetric] del: upt_Suc)
  show ?case
  proof (cases "length ?e < ?sz")
    case True
    then have "\<not> p + Suc n * ?sz \<le> length bytes" by auto
    then show ?thesis using l1 True small at_ready by auto
  next
    case False
    then have len: "p + ?sz \<le> length bytes" using at_inside [OF Suc.prems] by (auto simp: min_def split: if_splits)
    show ?thesis
    proof (cases "intersects_kernel limit (header_at bytes p ?sz 0)")
      case True
      then have "\<not> (\<forall>i < Suc n. \<not> intersects_kernel limit (header_at bytes p ?sz i))" by blast
      then show ?thesis using l1 True small False at_ready unfolding h0 by auto
    next
      case no: False
      have "at (p + ?sz) l1" using l1(2) len by (simp add: min_def)
      from Suc.IH [OF this, of "phs @ [header_at bytes p ?sz 0]" "last_note nt (header_at bytes p ?sz 0)"]
      obtain l' where l': "read_program_headers ops limit sz n l1 (phs @ [header_at bytes p ?sz 0]) (last_note nt (header_at bytes p ?sz 0)) =
        Some (l', if p + ?sz + n * ?sz \<le> length bytes \<and> (\<forall>i < n. \<not> intersects_kernel limit (header_at bytes (p + ?sz) ?sz i))
          then Inr ((phs @ [header_at bytes p ?sz 0]) @ map (header_at bytes (p + ?sz) ?sz) [0..<n],
            foldl last_note (last_note nt (header_at bytes p ?sz 0)) (map (header_at bytes (p + ?sz) ?sz) [0..<n]))
          else Inl BAD_SEGMENT)" "ready l'" by blast
      have run: "read_program_headers ops limit sz (Suc n) l phs nt =
          read_program_headers ops limit sz n l1 (phs @ [header_at bytes p ?sz 0]) (last_note nt (header_at bytes p ?sz 0))"
        using l1(1) small False no assms(2) unfolding h0 by (simp add: last_note_def Let_def)
      have all: "(\<forall>i < Suc n. \<not> intersects_kernel limit (header_at bytes p ?sz i)) \<longleftrightarrow>
          (\<forall>i < n. \<not> intersects_kernel limit (header_at bytes (p + ?sz) ?sz i))"
        using no hs by (auto simp: less_Suc_eq_0_disj)
      have size: "p + Suc n * ?sz = p + ?sz + n * ?sz" by simp
      show ?thesis
        by (intro exI [of _ l'] conjI l'(2)) (simp only: run l'(1) maps all size foldl_Cons append_assoc append.simps)
    qed
  qed
qed

lemma vendor_read:
  assumes "ready l"
  shows "case vendor_verdict bytes file note order of
      None \<Rightarrow> parse_vendor_information ops l file note order = None
    | Some (file', st) \<Rightarrow> \<exists>l'. parse_vendor_information ops l file note order = Some (l', file', st) \<and> ready l'"
proof -
  obtain l1 where l1: "elf_seek ops l (ph_file_offset note) = Some (l1, seekable bytes (ph_file_offset note))" "ready l1"
    "seekable bytes (ph_file_offset note) \<longrightarrow> at (seek_target32 (ph_file_offset note)) l1"
    using elf_seek_seeks [OF assms] by blast
  show ?thesis
  proof (cases "seekable bytes (ph_file_offset note)")
    case False
    then show ?thesis using l1 by (simp add: vendor_verdict_def parse_vendor_information_def)
  next
    case True
    let ?p = "seek_target32 (ph_file_offset note)"
    obtain l2 where l2: "read_bytes ops l1 12 = Some (l2, take 12 (drop ?p bytes))" "at (min (?p + 12) (length bytes)) l2"
      using read_bytes_reads [of ?p l1 12] l1(3) True by auto
    have d: "drop (min (?p + 12) (length bytes)) bytes = drop (?p + 12) bytes" by (simp add: min_def)
    have rb: "\<exists>l3. read_bytes ops l2 k = Some (l3, take (unat k) (drop (?p + 12) bytes)) \<and> ready l3" for k
      using read_bytes_reads [OF l2(2), of k] at_ready unfolding d by blast
    define e where "e = take 12 (drop ?p bytes)"
    define nh where "nh = e @ replicate (12 - length e) 0"
    define k :: u16 where "k = ucast (memory_align (ucast (to_u32 order nh)) 4 True + memory_align (ucast (to_u32 order (drop 4 nh))) 4 True)"
    define v where "v = take (unat k) (drop (?p + 12) bytes)"
    obtain l3 where l3: "read_bytes ops l2 k = Some (l3, v)" "ready l3" using rb unfolding v_def by blast
    define rest where "rest = do {
        vendor \<leftarrow> vendor_string v;
        major \<leftarrow> version_part order v (unat (to_u32 order nh));
        minor \<leftarrow> version_part order v (unat (to_u32 order nh + 2));
        patch \<leftarrow> version_part order v (unat (to_u32 order nh + 4));
        Some (file\<lparr>elf_vendor := vendor, elf_major := major, elf_minor := minor, elf_patch := patch\<rparr>, LOADED) }"
    have spec: "vendor_verdict bytes file note order =
        (if e = [] \<or> to_u32 order (drop 8 nh) \<noteq> 1 \<or> v = [] then Some (file, BAD_VENDOR_INFO) else rest)"
      using True by (simp only: vendor_verdict_def Let_def rest_def v_def k_def nh_def e_def simp_thms)
    have run: "parse_vendor_information ops l file note order =
        (if e = [] \<or> to_u32 order (drop 8 nh) \<noteq> 1 then Some (l2, file, BAD_VENDOR_INFO)
         else if v = [] then Some (l3, file, BAD_VENDOR_INFO) else map_option (Pair l3) rest)"
      using l1(1) True l2(1) l3(1)
      by (simp add: parse_vendor_information_def Let_def e_def [symmetric] nh_def [symmetric] k_def [symmetric] rest_def
          map_option_bind comp_def)
    show ?thesis unfolding spec run using at_ready [OF l2(2)] l3(2) by (auto split: option.splits)
  qed
qed

lemma program_headers_overflow:
  assumes "at p l" and "program_header_size < unat sz"
  shows "if program_header_size < length bytes - p then read_program_headers ops limit sz (Suc n) l phs nt = None
    else \<exists>l'. read_program_headers ops limit sz (Suc n) l phs nt = Some (l', Inl BAD_SEGMENT) \<and> ready l'"
proof -
  let ?e = "take (unat sz) (drop p bytes)"
  obtain l1 where l1: "read_bytes ops l sz = Some (l1, ?e)" "ready l1"
    using read_bytes_reads [OF assms(1)] at_ready by blast
  have "program_header_size < length ?e \<longleftrightarrow> program_header_size < length bytes - p" using assms(2) by auto
  then show ?thesis using l1 assms(2) by auto
qed

lemma segments_read:
  assumes "ready l" and "h = elf_header_of bytes"
  shows "\<exists>l1. elf_seek ops l (ph_offset h) = Some (l1, seekable bytes (ph_offset h)) \<and> ready l1 \<and> (seekable bytes (ph_offset h) \<longrightarrow>
    (if headers_overflow bytes h
     then read_program_headers ops limit (ph_entry_size h) (unat (ph_count h)) l1 [] no_program_header = None
     else \<exists>l2. read_program_headers ops limit (ph_entry_size h) (unat (ph_count h)) l1 [] no_program_header = Some (l2,
       if length bytes < seek_target32 (ph_offset h) + unat (ph_count h) * unat (ph_entry_size h) \<or>
          list_ex (intersects_kernel limit) (segments_of bytes)
       then Inl BAD_SEGMENT else Inr (segments_of bytes, foldl last_note no_program_header (segments_of bytes))) \<and> ready l2))"
proof -
  let ?off = "seek_target32 (ph_offset h)" and ?sz = "unat (ph_entry_size h)" and ?n = "unat (ph_count h)"
  let ?read = "\<lambda>l. read_program_headers ops limit (ph_entry_size h) ?n l [] no_program_header"
  let ?r = "if length bytes < ?off + ?n * ?sz \<or> list_ex (intersects_kernel limit) (segments_of bytes)
      then Inl BAD_SEGMENT else Inr (segments_of bytes, foldl last_note no_program_header (segments_of bytes))"
  obtain l1 where l1: "elf_seek ops l (ph_offset h) = Some (l1, seekable bytes (ph_offset h))" "ready l1"
    "seekable bytes (ph_offset h) \<longrightarrow> at ?off l1" using elf_seek_seeks [OF assms(1)] by blast
  have segs: "segments_of bytes = map (header_at bytes ?off ?sz) [0..<?n]" by (simp add: segments_of_def assms(2) Let_def)
  have all: "list_ex (intersects_kernel limit) (segments_of bytes) \<longleftrightarrow> \<not> (\<forall>i < ?n. \<not> intersects_kernel limit (header_at bytes ?off ?sz i))"
    unfolding segs list_ex_iff by auto
  have "if headers_overflow bytes h then ?read l1 = None else \<exists>l2. ?read l1 = Some (l2, ?r) \<and> ready l2"
    if at: "at ?off l1"
  proof (cases "?sz \<le> program_header_size")
    case True
    have cond: "(?off + ?n * ?sz \<le> length bytes \<and> (\<forall>i < ?n. \<not> intersects_kernel limit (header_at bytes ?off ?sz i))) \<longleftrightarrow>
        \<not> (length bytes < ?off + ?n * ?sz \<or> list_ex (intersects_kernel limit) (segments_of bytes))"
      unfolding all using not_less [of "length bytes" "?off + ?n * ?sz"] by blast
    obtain l2 where "?read l1 = Some (l2,
      if ?off + ?n * ?sz \<le> length bytes \<and> (\<forall>i < ?n. \<not> intersects_kernel limit (header_at bytes ?off ?sz i))
      then Inr ([] @ segments_of bytes, foldl last_note no_program_header (segments_of bytes))
      else Inl BAD_SEGMENT)" and l2: "ready l2"
      using program_headers_read [OF at True] unfolding segs by blast
    then have "?read l1 = Some (l2, ?r)" unfolding cond by (simp only: append.simps split: if_split) blast
    then show ?thesis using l2 True by (auto simp: headers_overflow_def)
  next
    case False
    show ?thesis
    proof (cases "?n")
      case 0
      then show ?thesis using l1(2) at_inside [OF at] by (simp add: headers_overflow_def segs)
    next
      case (Suc k)
      have short: "length bytes < ?off + ?n * ?sz" if "\<not> headers_overflow bytes h"
      proof -
        have "length bytes - ?off \<le> program_header_size" using that False Suc by (simp add: headers_overflow_def not_less)
        moreover have "?sz \<le> ?n * ?sz" using Suc by simp
        ultimately show ?thesis using False at_inside [OF at] by linarith
      qed
      then show ?thesis using program_headers_overflow [OF at, of "ph_entry_size h" limit k] False Suc
        by (auto simp: headers_overflow_def)
    qed
  qed
  then show ?thesis using l1 by blast
qed

lemma elf_file_read:
  assumes f: "node_ok f" "node_pos f = 0" and l_def: "l = new_reader f"
  shows "case elf_verdict limit bytes of None \<Rightarrow> load_elf_file ops limit l = None
    | Some r \<Rightarrow> \<exists>l'. load_elf_file ops limit l = Some (l', r) \<and> ready l'"
proof -
  let ?h = "elf_header_of bytes"
  have l: "at 0 l" unfolding l_def by (rule at_start [OF f])
  obtain l1 where l1: "read_bytes ops l 16 = Some (l1, take 16 bytes)" "at (min 16 (length bytes)) l1"
    using read_bytes_reads [OF l, of 16] by auto
  have i: "(of_nat ident_size :: u16) = 16" "(of_nat (header_size - ident_size) :: u16) = 48" "ident_size = 16" "header_size = 64"
    by (simp_all add: ident_size_def header_size_def)
  show ?thesis
  proof (cases "length bytes < 16 \<or> take 4 bytes \<noteq> ELF_MAGIC \<or> bytes ! 4 = CLASS_NONE \<or> bytes ! 4 = CLASS_ELF32")
    case True
    then have "elf_verdict limit bytes = Some (Inl BAD_HEADER)" by (auto simp: elf_verdict_def Let_def i)
    moreover have "load_elf_file ops limit l = Some (l1, Inl BAD_HEADER)"
      using True l1(1) by (auto simp: load_elf_file_def i min_def split: if_splits)
    ultimately show ?thesis using at_ready [OF l1(2)] by simp
  next
    case ident: False
    then have at: "at 16 l1" using l1(2) by (simp add: min_def)
    obtain l2 where l2: "read_bytes ops l1 48 = Some (l2, take 48 (drop 16 bytes))" "ready l2"
      using read_bytes_reads [OF at, of 48] at_ready by auto
    have len: "length (take 48 (drop 16 bytes)) < 48 \<longleftrightarrow> length bytes < 64" using ident by auto
    have hdr: "bytes_elf_header (replicate 16 0 @ take 48 (drop 16 bytes)) = ?h" by (simp add: elf_header_of_def i)
    have run: "load_elf_file ops limit l =
        (if length bytes < 64 \<or> eh_type ?h \<noteq> OBJECT_EXEC \<or> limit < eh_entry ?h then Some (l2, Inl BAD_HEADER)
         else do {
           (l, ok) \<leftarrow> elf_seek ops l2 (ph_offset ?h);
           if \<not> ok then Some (l, Inl BAD_SEGMENT)
           else do {
             (l, r) \<leftarrow> read_program_headers ops limit (ph_entry_size ?h) (unat (ph_count ?h)) l [] no_program_header;
             (case r of
                Inl st \<Rightarrow> Some (l, Inl st)
              | Inr (phs, note_ph) \<Rightarrow>
                  if phs = [] then Some (l, Inl BAD_SEGMENT)
                  else
                    let file = \<lparr>elf_header = ?h, program_headers = phs, elf_vendor = ''Unknown'', elf_major = 0, elf_minor = 0, elf_patch = 0\<rparr>
                    in if ph_type note_ph = SEGMENT_NOTE then do {
                         (l, file, st) \<leftarrow> parse_vendor_information ops l file note_ph 0;
                         Some (l, if st \<noteq> LOADED then Inl st else Inr file) }
                       else Some (l, Inr file)) } })"
      using ident l1(1) l2(1) len unfolding load_elf_file_def i by (simp add: hdr Let_def)
    show ?thesis
    proof (cases "length bytes < 64 \<or> eh_type ?h \<noteq> OBJECT_EXEC \<or> limit < eh_entry ?h")
      case True
      then have "elf_verdict limit bytes = Some (Inl BAD_HEADER)" by (auto simp: elf_verdict_def Let_def i)
      then show ?thesis using run True l2(2) by simp
    next
      case False
      define phs where "phs = segments_of bytes"
      define nt where "nt = foldl last_note no_program_header phs"
      define elf where "elf = \<lparr>elf_header = ?h, program_headers = phs, elf_vendor = ''Unknown'', elf_major = 0, elf_minor = 0, elf_patch = 0\<rparr>"
      define bad where "bad \<longleftrightarrow> length bytes < seek_target32 (ph_offset ?h) + unat (ph_count ?h) * unat (ph_entry_size ?h) \<or> list_ex (intersects_kernel limit) phs"
      obtain l3 where r3: "elf_seek ops l2 (ph_offset ?h) = Some (l3, seekable bytes (ph_offset ?h))" "ready l3"
        "seekable bytes (ph_offset ?h) \<longrightarrow> (if headers_overflow bytes ?h
          then read_program_headers ops limit (ph_entry_size ?h) (unat (ph_count ?h)) l3 [] no_program_header = None
          else \<exists>l4. read_program_headers ops limit (ph_entry_size ?h) (unat (ph_count ?h)) l3 [] no_program_header =
            Some (l4, if bad then Inl BAD_SEGMENT else Inr (phs, nt)) \<and> ready l4)"
        using segments_read [OF l2(2) refl, of limit] unfolding bad_def nt_def phs_def by blast
      have v: "elf_verdict limit bytes = (if seekable bytes (ph_offset ?h) \<and> headers_overflow bytes ?h then None
         else if \<not> seekable bytes (ph_offset ?h) \<or> bad \<or> phs = [] then Some (Inl BAD_SEGMENT)
         else if ph_type nt = SEGMENT_NOTE
         then map_option (\<lambda>(file, st). if st \<noteq> LOADED then Inl st else Inr file) (vendor_verdict bytes elf nt 0)
         else Some (Inr elf))"
        using ident False by (simp add: elf_verdict_def Let_def i bad_def nt_def phs_def elf_def)
      show ?thesis
      proof (cases "seekable bytes (ph_offset ?h) \<and> headers_overflow bytes ?h")
        case True
        then show ?thesis using run False r3 v by simp
      next
        case fits: False
        then obtain l4 where r: "elf_seek ops l2 (ph_offset ?h) = Some (l3, seekable bytes (ph_offset ?h))" "ready l3"
          "seekable bytes (ph_offset ?h) \<longrightarrow>
            read_program_headers ops limit (ph_entry_size ?h) (unat (ph_count ?h)) l3 [] no_program_header =
              Some (l4, if bad then Inl BAD_SEGMENT else Inr (phs, nt)) \<and> ready l4"
          using r3 by (auto split: if_splits)
        note v = v [unfolded if_not_P [OF fits]]
      show ?thesis
      proof (cases "\<not> seekable bytes (ph_offset ?h) \<or> bad \<or> phs = []")
        case True
        then show ?thesis using run False r v by (cases "seekable bytes (ph_offset ?h)") auto
      next
        case good: False
        then have run': "load_elf_file ops limit l = (if ph_type nt = SEGMENT_NOTE then do {
              (l, file, st) \<leftarrow> parse_vendor_information ops l4 elf nt 0;
              Some (l, if st \<noteq> LOADED then Inl st else Inr file) } else Some (l4, Inr elf))" and l4: "ready l4"
          using run False r by (simp_all add: elf_def)
        show ?thesis using vendor_read [OF l4, of elf nt 0] good run' l4 unfolding v by (auto split: option.splits)
      qed
      qed
    qed
  qed
qed

lemma copy_segment_copies:
  assumes "at p l" and "unat c \<le> length bytes - p"
  shows "\<exists>l'. copy_segment ops dest l m off c = Some (l', write_bytes m (dest + off) (take (unat c) (drop p bytes)), off + c) \<and> ready l'"
  using assms
proof (induction "unat c" arbitrary: p l m off c rule: less_induct)
  case less
  show ?case
  proof (cases "0 < c")
    case False
    then have "c = 0" by (simp add: word_gt_0)
    then show ?thesis using less.prems at_ready by (subst copy_segment.simps) simp
  next
    case True
    then have c: "0 < unat c" by (simp add: word_less_nat_alt)
    define bs where "bs = take 8192 (drop p bytes)"
    obtain l1 where l1: "read_bytes ops l BUF_SIZE = Some (l1, bs)" "at (min (p + 8192) (length bytes)) l1"
      using read_bytes_reads [OF less.prems(1), of BUF_SIZE] by (auto simp: BUF_SIZE_def bs_def)
    define k where "k = min (length bs) (unat c)"
    have len: "length bs \<le> 8192" by (simp add: bs_def)
    then have b: "unat (of_nat (length bs) :: u64) = length bs" by (intro unat_of_nat_u64) simp
    have uk: "unat (min (of_nat (length bs)) c) = k" using b by (simp add: k_def min_def word_le_nat_alt)
    have k: "0 < k" "k \<le> unat c" "k \<le> length bs" using c less.prems(2) by (auto simp: k_def bs_def)
    have nk: "unat (of_nat k :: u64) = k" using k(3) len by (intro unat_of_nat_u64) simp
    have ck: "min (of_nat (length bs)) c = of_nat k" by (rule word_unat_eqI) (simp only: uk nk)
    have rest: "unat (c - of_nat k) = unat c - k" using nk k(2) by (subst unat_sub) (simp_all add: word_le_nat_alt)
    have tk: "take k bs = take k (drop p bytes)" "length (take k (drop p bytes)) = k" using k(3) by (simp_all add: bs_def)
    have run: "copy_segment ops dest l m off c =
        copy_segment ops dest l1 (write_bytes m (dest + off) (take k (drop p bytes))) (off + of_nat k) (c - of_nat k)"
      using True l1(1) by (subst copy_segment.simps) (simp add: Let_def ck nk tk(1))
    have join: "write_bytes (write_bytes m (dest + off) (take k (drop p bytes))) (dest + (off + of_nat k)) (take (unat c - k) (drop (p + k) bytes)) =
        write_bytes m (dest + off) (take (unat c) (drop p bytes))"
      using write_bytes_append [of m "dest + off" "take k (drop p bytes)" "take (unat c - k) (drop (p + k) bytes)"]
        take_add [of k "unat c - k" "drop p bytes"] k(2) unfolding tk(2) by (simp add: ac_simps)
    show ?thesis
    proof (cases "unat c - k = 0")
      case True
      then have "c - of_nat k = 0" using rest by (simp add: unat_eq_0)
      then have "copy_segment ops dest l1 m' o' (c - of_nat k) = Some (l1, m', o')" for m' o' by (subst copy_segment.simps) simp
      moreover have "off + of_nat k = off + c" using \<open>c - of_nat k = 0\<close> by simp
      moreover have "write_bytes m (dest + off) (take k (drop p bytes)) = write_bytes m (dest + off) (take (unat c) (drop p bytes))"
        using True k(2) by simp
      ultimately show ?thesis unfolding run using at_ready [OF l1(2)] by simp
    next
      case False
      then have k8: "k = 8192" "p + 8192 \<le> length bytes" using less.prems(2) by (auto simp: k_def bs_def min_def split: if_splits)
      then have "at (p + k) l1" using l1(2) by (simp add: min_def)
      moreover have "unat (c - of_nat k) < unat c" "unat (c - of_nat k) \<le> length bytes - (p + k)" using rest k less.prems(2) by simp_all
      ultimately obtain l' where l': "copy_segment ops dest l1 m' o' (c - of_nat k) =
          Some (l', write_bytes m' (dest + o') (take (unat (c - of_nat k)) (drop (p + k) bytes)), o' + (c - of_nat k))" "ready l'"
        if "m' = write_bytes m (dest + off) (take k (drop p bytes))" "o' = off + of_nat k" for m' o'
        using less.hyps by metis
      have "off + of_nat k + (c - of_nat k) = off + c" by simp
      then show ?thesis unfolding run using l'(1) [OF refl refl] l'(2) [OF refl refl] join unfolding rest by auto
    qed
  qed
qed

text \<open>A segment that is not complete in the file keeps the loop running for ever.\<close>

lemma copy_segment_incomplete:
  assumes "copy_segment ops dest l m off c = Some r" and "at p l"
  shows "unat c \<le> length bytes - p"
proof -
  have "o' = ops \<longrightarrow> (\<forall>p. at p x \<longrightarrow> unat y \<le> length bytes - p)" if "copy_segment o' d x mm i y = Some r" for o' d x mm i y r
    using that
  proof (rule copy_segment.raw_induct [rotated])
    fix loop :: "'f node_ops \<Rightarrow> u64 \<Rightarrow> 'f elf_reader \<Rightarrow> memory \<Rightarrow> u64 \<Rightarrow> u64 \<Rightarrow> ('f elf_reader \<times> memory \<times> u64) option"
      and o' d x mm i y r
    assume ih: "\<And>o' d x mm i y r. loop o' d x mm i y = Some r \<Longrightarrow> o' = ops \<longrightarrow> (\<forall>p. at p x \<longrightarrow> unat y \<le> length bytes - p)"
      and run: "(if 0 < y then do {
          (x, b) \<leftarrow> read_bytes o' x BUF_SIZE;
          let max_copy = min (of_nat (length b)) y;
          loop o' d x (write_bytes mm (d + i) (take (unat max_copy) b)) (i + max_copy) (y - max_copy) } else Some (x, mm, i)) = Some r"
    show "o' = ops \<longrightarrow> (\<forall>p. at p x \<longrightarrow> unat y \<le> length bytes - p)"
    proof (intro impI allI, rule ccontr)
      fix p assume o: "o' = ops" and at: "at p x" and more: "\<not> unat y \<le> length bytes - p"
      define bs where "bs = take 8192 (drop p bytes)"
      obtain x1 where x1: "read_bytes ops x BUF_SIZE = Some (x1, bs)" "at (min (p + 8192) (length bytes)) x1"
        using read_bytes_reads [OF at, of BUF_SIZE] by (auto simp: BUF_SIZE_def bs_def)
      have len: "length bs = min (length bytes - p) 8192" by (simp add: bs_def)
      then have b: "unat (of_nat (length bs) :: u64) = length bs" by (intro unat_of_nat_u64) simp
      have lt: "length bs \<le> unat y" using more len by simp
      then have k: "min (of_nat (length bs)) y = of_nat (length bs)" using b by (simp add: min_def word_le_nat_alt)
      have "0 < y" using more by (simp add: word_gt_0) auto
      then have "loop ops d x1 (write_bytes mm (d + i) (take (unat (of_nat (length bs) :: u64)) bs)) (i + of_nat (length bs)) (y - of_nat (length bs)) = Some r"
        using run x1(1) unfolding o by (simp add: Let_def k)
      then have "unat (y - of_nat (length bs)) \<le> length bytes - min (p + 8192) (length bytes)" using ih x1(2) by blast
      moreover have "unat (y - of_nat (length bs)) = unat y - length bs" using lt b by (subst unat_sub) (simp_all add: word_le_nat_alt)
      ultimately show False using more len lt at_inside [OF at] by linarith
    qed
  qed
  then show ?thesis using assms by blast
qed

lemma segment_loads:
  assumes l: "ready l" and inside: "ph_type h = SEGMENT_LOAD \<Longrightarrow>
      unat (ph_file_offset h) < length bytes \<and> unat (ph_file_offset h) + unat (ph_file_size h) \<le> length bytes"
    and small: "length bytes < 2 ^ 31"
  shows "\<exists>l' s'. load_segment ops base h l s m =
    Some (l', s', if ph_type h = SEGMENT_LOAD then segment_image bytes h m else m, True) \<and> ready l'"
proof (cases "ph_type h = SEGMENT_LOAD")
  case False
  then show ?thesis using l by (simp add: load_segment_def)
next
  case True
  then have seg: "unat (ph_file_offset h) < length bytes" "unat (ph_file_offset h) + unat (ph_file_size h) \<le> length bytes"
    using inside by simp_all
  let ?off = "unat (ph_file_offset h)" and ?n = "unat (ph_file_size h)" and ?va = "ph_virtual_address h"
  obtain l1 where l1: "elf_seek ops l (ph_file_offset h) = Some (l1, True)" "at ?off l1"
    using elf_seek_seeks [OF l, of "ph_file_offset h"] seek_inside [OF seg(1) small] by auto
  have n: "?n \<le> length bytes - ?off" using seg(2) by linarith
  let ?xs = "take ?n (drop ?off bytes)"
  obtain l2 where l2: "copy_segment ops ?va l1 m 0 (ph_file_size h) = Some (l2, write_bytes m ?va ?xs, ph_file_size h)" "ready l2"
    using copy_segment_copies [OF l1(2) n, of ?va m 0] by auto
  have len: "length ?xs = ?n" using seg(2) by simp
  have tail: "write_bytes (write_bytes m ?va ?xs) (?va + ph_file_size h) (replicate k 0) = write_bytes m ?va (?xs @ replicate k 0)" for k
    using write_bytes_append [of m ?va ?xs "replicate k 0"] unfolding len by simp
  let ?m = "if ph_file_size h < ph_memory_size h
    then memset (write_bytes m ?va ?xs) (?va + ph_file_size h) 0 (ph_memory_size h - ph_file_size h) else write_bytes m ?va ?xs"
  have "?m = segment_image bytes h m"
  proof (cases "ph_file_size h < ph_memory_size h")
    case True
    then have "unat (ph_memory_size h - ph_file_size h) = unat (ph_memory_size h) - ?n" by (simp add: unat_sub less_imp_le)
    then show ?thesis using True by (simp only: if_True memset_write tail segment_image_write [OF seg(2)])
  next
    case False
    then have "unat (ph_memory_size h) - ?n = 0" by (simp add: word_less_nat_alt)
    then show ?thesis using False by (simp only: if_False segment_image_write [OF seg(2)] replicate_0 append_Nil2)
  qed
  moreover obtain s' where "flag_loop s base (segment_start h) (segment_end h) (segment_flags h) = Some s'"
    using flag_loop_returns page_multiples unfolding segment_start_def segment_end_def by metis
  ultimately show ?thesis using True l1(1) l2 by (simp add: load_segment_def Let_def)
qed

lemma segments_load_ready:
  assumes "ready l" and "\<And>h. h \<in> set phs \<Longrightarrow> ph_type h = SEGMENT_LOAD \<Longrightarrow>
      unat (ph_file_offset h) < length bytes \<and> unat (ph_file_offset h) + unat (ph_file_size h) \<le> length bytes"
    and "length bytes < 2 ^ 31"
  shows "\<exists>l' s'. load_segments ops base phs l s m = Some (l', s', loaded_image bytes phs m, True) \<and> ready l'"
  using assms(1,2)
proof (induction phs arbitrary: l s m)
  case Nil
  then show ?case by (simp add: loaded_image_def)
next
  case (Cons h phs)
  let ?m = "if ph_type h = SEGMENT_LOAD then segment_image bytes h m else m"
  obtain l1 s1 where h: "load_segment ops base h l s m = Some (l1, s1, ?m, True)" "ready l1"
    using segment_loads [OF Cons.prems(1) Cons.prems(2) assms(3), of h] by fastforce
  obtain l2 s2 where "load_segments ops base phs l1 s1 ?m = Some (l2, s2, loaded_image bytes phs ?m, True)" "ready l2"
    using Cons.IH [OF h(2)] Cons.prems(2) by fastforce
  then show ?case using h(1) by (simp add: loaded_image_def)
qed

lemma segments_load:
  assumes "node_ok (elf_node l)" and "length (file_buf l) = 8192" and "length bytes < 2 ^ 31"
    and "\<And>h. h \<in> set phs \<Longrightarrow> ph_type h = SEGMENT_LOAD \<Longrightarrow>
      unat (ph_file_offset h) < length bytes \<and> unat (ph_file_offset h) + unat (ph_file_size h) \<le> length bytes"
  shows "\<exists>l' s'. load_segments ops base phs l s m = Some (l', s', loaded_image bytes phs m, True)"
  using segments_load_ready [of l phs base s m] assms by (auto simp: ready_def)

end

section \<open>Accepted files\<close>

lemma accepted_headers:
  assumes "read_program_headers ops limit sz n l phs nt = Some (l', Inr (phs', nt'))" and "\<And>h. h \<in> set phs \<Longrightarrow> \<not> intersects_kernel limit h"
    and "h \<in> set phs'"
  shows "\<not> intersects_kernel limit h"
  using assms
proof (induction ops limit sz n l phs nt rule: read_program_headers.induct)
  case (2 ops limit sz n l phs nt)
  from 2(2) obtain l1 bs where r: "read_bytes ops l sz = Some (l1, bs)" by (auto split: bind_splits)
  let ?h = "bytes_program_header (bs @ replicate (program_header_size - length bs) 0)"
  have ok: "\<not> program_header_size < length bs" "\<not> length bs < unat sz" "\<not> intersects_kernel limit ?h"
    and rest: "read_program_headers ops limit sz n l1 (phs @ [?h]) (if ph_type ?h = SEGMENT_NOTE then ?h else nt) = Some (l', Inr (phs', nt'))"
    using 2(2) r by (auto simp: Let_def split: if_splits)
  show ?case using 2(1) [OF r refl ok(1,2) refl ok(3)] rest 2(3,4) ok(3) by auto
qed auto

lemma all_accepted:
  "read_program_headers ops limit sz n l [] nt = Some (l', Inr (phs, nt')) \<Longrightarrow> \<forall>h \<in> set phs. \<not> intersects_kernel limit h"
  by (auto dest: accepted_headers)

lemma vendor_keeps_headers:
  assumes "parse_vendor_information ops l elf nt order = Some (l', elf', st)"
  shows "elf_header elf' = elf_header elf \<and> program_headers elf' = program_headers elf"
  using assms by (auto simp: parse_vendor_information_def Let_def split: if_splits bind_splits)

lemma accepted_file:
  assumes "load_elf_file ops limit l = Some (l', Inr elf)"
  shows "eh_type (elf_header elf) = OBJECT_EXEC" and "eh_entry (elf_header elf) \<le> limit"
    and "\<And>h. h \<in> set (program_headers elf) \<Longrightarrow> \<not> intersects_kernel limit h"
  using assms
  by (auto simp: load_elf_file_def Let_def not_less dest!: vendor_keeps_headers all_accepted split: if_splits bind_splits sum.splits)

section \<open>Files of a FAT volume\<close>

definition fat_source ::
  "'d msd_ops \<Rightarrow> ('d \<Rightarrow> bool) \<Rightarrow> ('d \<Rightarrow> nat \<Rightarrow> u8) \<Rightarrow> nat \<Rightarrow> boot_record \<Rightarrow> 'd \<Rightarrow> u32 list \<Rightarrow> u8 list \<Rightarrow> fat_node \<Rightarrow> bool" where
  "fat_source ms ok disk n b d cs bytes s \<longleftrightarrow> fat_volume ms ok disk n b \<and> ok d \<and> file_on n disk b d cs s \<and> cursor_ok b cs s \<and>
     first_cluster s = hd cs \<and> content disk b d cs s = bytes \<and> cursor_pos b s \<le> length bytes"

lemma fat_source_same:
  assumes "fat_source ms ok disk n b d cs bytes s" and "same_node s s'" and "cursor_ok b cs s'" and "cursor_pos b s' \<le> length bytes"
  shows "fat_source ms ok disk n b d cs bytes s'"
  using assms file_ok_same [OF assms(2)] by (auto simp: fat_source_def same_node_def)

interpretation fat_elf: byte_node "fat_node_ops ms b d" "fat_source ms ok disk n b d cs bytes" "cursor_pos b" bytes
  for ms ok disk n b d cs bytes
proof
  fix f k and off :: "32 word" assume f: "fat_source ms ok disk n b d cs bytes f"
  then have len: "unat (node_size f) = length bytes"
    by (auto simp: fat_source_def file_ok_def sizes_ok_def file_bytes_def ff.length_bytes)
  show "cursor_pos b f \<le> length bytes" using f by (simp add: fat_source_def)
  have c: "file_bytes (data_block disk b d) cs (length bytes) = bytes" using f len by (simp add: fat_source_def)
  have v: "fat_volume ms ok disk n b \<and> ok d" "file_on n disk b d cs f" "cursor_ok b cs f" "first_cluster f = hd cs"
    using f by (simp_all add: fat_source_def)
  obtain f' where f': "node_read ms d b f True k = Some (f', IO_OKAY, take k (drop (cursor_pos b f) bytes))" "same_node f f'"
    "cursor_ok b cs f'" "cursor_pos b f' = cursor_pos b f + min k (length bytes - cursor_pos b f)"
    using ff.node_read_correct [OF v(1-3), of k] unfolding len c by blast
  moreover have "cursor_pos b f' = min (cursor_pos b f + k) (length bytes)" 
  proof -
    have "cursor_pos b f \<le> length bytes" using f by (simp add: fat_source_def)
    then show ?thesis unfolding f'(4) by arith
  qed
  ultimately show "\<exists>f'. nd_read (fat_node_ops ms b d) f k = Some (f', IO_OKAY, take k (drop (cursor_pos b f) bytes)) \<and>
      fat_source ms ok disk n b d cs bytes f' \<and> cursor_pos b f' = min (cursor_pos b f + k) (length bytes)"
    using fat_source_same [OF f, of f'] by (auto simp: fat_node_ops_def)
  have C: "0 < cluster_size b" using f by (auto simp: fat_source_def fat_volume_def cluster_size_def)
  have t: "seek_target b f SEEK_BEGIN off = sint off" by (simp add: seek_target_def)
  have seek: "if 0 \<le> sint off \<and> sint off < int (length bytes)
    then \<exists>s' j. node_seek ms d b f SEEK_BEGIN off = Some (s', IO_OKAY, j) \<and> same_node f s' \<and> cursor_ok b cs s' \<and>
      int (cursor_pos b s') = sint off
    else node_seek ms d b f SEEK_BEGIN off = Some (f, IO_BAD_ARGS, 0)"
    using ff.node_seek_correct [OF v(1,2,4) C, of SEEK_BEGIN off] unfolding t len
    by (cases "0 \<le> sint off \<and> sint off < int (length bytes)") (simp_all only: if_True if_False seek_mode.distinct simp_thms)
  show "\<exists>f' j. nd_seek_begin (fat_node_ops ms b d) f off = Some (f', IO_OKAY, j) \<and>
      fat_source ms ok disk n b d cs bytes f' \<and> cursor_pos b f' = nat (sint off)"
    if inside: "0 \<le> sint off" "sint off < int (length bytes)"
  proof -
    obtain s' j where s': "node_seek ms d b f SEEK_BEGIN off = Some (s', IO_OKAY, j)" "same_node f s'" "cursor_ok b cs s'"
      "int (cursor_pos b s') = sint off" using seek inside by auto
    then have "cursor_pos b s' = nat (sint off)" by linarith
    moreover have "cursor_pos b s' \<le> length bytes" using s'(4) inside(2) by linarith
    ultimately show ?thesis using s' fat_source_same [OF f s'(2,3)] by (auto simp: fat_node_ops_def)
  qed
  show "\<exists>f' st j. nd_seek_begin (fat_node_ops ms b d) f off = Some (f', st, j) \<and> st \<noteq> IO_OKAY \<and> fat_source ms ok disk n b d cs bytes f'"
    if "\<not> (0 \<le> sint off \<and> sint off < int (length bytes))"
    using seek that f by (auto simp: fat_node_ops_def)
qed

section \<open>Properties of the loader\<close>

text \<open>Below the limit a canonical address has bit 47 and all bits above it clear.\<close>

lemma canonical_user_address:
  assumes "to_canonical_form x = x" and "x < kernel_memory_start"
  shows "x < USER_SPACE_END"
proof -
  have test: "drop_bit 47 x AND 1 = 1 \<longleftrightarrow> bit x 47"
    by (simp add: bit_iff_odd_drop_bit and_one_eq odd_iff_mod_2_eq_one)
  show ?thesis
  proof (cases "bit x 47")
    case True
    then have c: "x = push_bit 48 (drop_bit 48 (- 1)) OR x" using assms(1) test by (simp add: to_canonical_form_def)
    have high: "bit x i" if "47 \<le> i" "i < 64" for i
    proof (cases "i = 47")
      case False
      have "i - 48 < 64 \<and> i - 48 < 16" using that by linarith
      then have "bit (push_bit 48 (drop_bit 48 (- 1)) OR x) i" using that False by (simp add: bit_simps)
      then show ?thesis using c by simp
    qed (use True in simp)
    have "push_bit 47 (- 1) AND x = push_bit 47 (- 1)"
      by (rule bit_eqI) (use high in \<open>auto simp: bit_simps\<close>)
    moreover have "push_bit 47 (- 1) = kernel_memory_start" by code_simp
    ultimately have "kernel_memory_start \<le> x" by (metis word_and_le1)
    then show ?thesis using assms(2) by simp
  next
    case False
    then have "x AND MASK_ADDRESS = x" using assms(1) test by (simp add: to_canonical_form_def)
    moreover have "MASK_ADDRESS = mask 48" by code_simp
    ultimately have "take_bit 48 x = x" by (simp add: take_bit_eq_mask)
    then have low: "i < 48" if "bit x i" for i using that by (metis bit_take_bit_iff)
    have "take_bit 47 x = x"
    proof (rule bit_eqI)
      fix i show "bit (take_bit 47 x) i = bit x i" using low [of i] False by (cases "i = 47") (auto simp: bit_take_bit_iff)
    qed
    then have "unat x = take_bit 47 (unat x)" by (metis unsigned_take_bit_eq)
    also have "\<dots> < 2 ^ 47" by (rule take_bit_nat_less_exp)
    finally show ?thesis by (simp add: USER_SPACE_END_def word_less_nat_alt)
  qed
qed

text \<open>
  C22. The verdict on a file (\<open>elf_verdict\<close>): over every open file of a FAT volume, from its start, the loader returns the
  header and the program headers that stand in the file and the vendor note as it reads in big endian order, or the error
  that belongs to the file, however its buffer is filled. The verdict has no result where the entry size of the file is
  larger than a program header and one is read over the end of its structure on the stack, or a note out of its buffer.
\<close>

theorem loader_reads_headers:
  assumes "fat_volume ms ok disk n b" and "ok d" and "file_on n disk b d cs s" and "cursor_ok b cs s" and "first_cluster s = hd cs"
    and "cursor_pos b s = 0" and "content disk b d cs s = bytes"
  shows "case elf_verdict limit bytes of
      None \<Rightarrow> load_elf_file (fat_node_ops ms b d) limit (new_reader s) = None
    | Some r \<Rightarrow> \<exists>l. load_elf_file (fat_node_ops ms b d) limit (new_reader s) = Some (l, r)"
proof -
  have "fat_source ms ok disk n b d cs bytes s" using assms(1-7) by (simp add: fat_source_def)
  then show ?thesis
    using fat_elf.elf_file_read [OF _ assms(6) refl, of ms ok disk n d cs bytes limit] by (auto split: option.splits)
qed

text \<open>
  C20. What is accepted: with the limit that the start-up of the kernel computes, an executable that the loader accepts has
  no kernel address in a segment, as far as the end of the segment does not wrap around: each address of the segment is in
  user space or is not canonical. Its entry point is in user space, is not canonical, or is the first address of the
  kernel. Both exceptions occur (\<open>aliasing_segment_accepted\<close> and the comparison with \<open>>\<close>).
\<close>

theorem accepted_segments_in_user_space:
  assumes "load_elf_file ops kernel_memory_start l = Some (l', Inr elf)"
  shows "eh_type (elf_header elf) = OBJECT_EXEC \<and>
    (to_canonical_form (eh_entry (elf_header elf)) = eh_entry (elf_header elf) \<longrightarrow>
       eh_entry (elf_header elf) < USER_SPACE_END \<or> eh_entry (elf_header elf) = kernel_memory_start) \<and>
    (\<forall>h \<in> set (program_headers elf). unat (ph_virtual_address h) + unat (ph_memory_size h) < 2 ^ 64 \<longrightarrow>
       (\<forall>a. ph_virtual_address h \<le> a \<and> a < ph_virtual_address h + ph_memory_size h \<and> to_canonical_form a = a \<longrightarrow> a < USER_SPACE_END))"
proof -
  note a = accepted_file [OF assms]
  have "x < USER_SPACE_END" if "ph_virtual_address h \<le> x" "x < ph_virtual_address h + ph_memory_size h" "to_canonical_form x = x"
    "h \<in> set (program_headers elf)" for h x
  proof (rule canonical_user_address [OF that(3)])
    have "\<not> intersects_kernel kernel_memory_start h" using a(3) that(4) by blast
    then have "ph_virtual_address h + ph_memory_size h \<le> kernel_memory_start" by (simp add: intersects_kernel_def not_less)
    with that(2) show "x < kernel_memory_start" by (rule order.strict_trans2)
  qed
  then show ?thesis using a(1,2) canonical_user_address [of "eh_entry (elf_header elf)"] by (auto simp: order.order_iff_strict)
qed

text \<open>
  C21. Loading: if every segment to load starts inside a file of less than 2 GiB on a FAT volume and is complete in it,
  the segments are loaded to the end, and then the memory holds the bytes of the file at the addresses of the segments,
  zeroes up to their sizes in memory, and what it held before everywhere else. Of a segment that is not complete the copy does
  not end (\<open>copy_segment_incomplete\<close>).
\<close>

theorem segments_hold_file:
  assumes "fat_volume ms ok disk n b" and "ok d" and "file_on n disk b d cs (elf_node l)" and "cursor_ok b cs (elf_node l)"
    and "first_cluster (elf_node l) = hd cs" and "content disk b d cs (elf_node l) = bytes" and "cursor_pos b (elf_node l) \<le> length bytes"
    and "length (file_buf l) = 8192" and "length bytes < 2 ^ 31"
    and "\<And>h. h \<in> set phs \<Longrightarrow> ph_type h = SEGMENT_LOAD \<Longrightarrow>
      unat (ph_file_offset h) < length bytes \<and> unat (ph_file_offset h) + unat (ph_file_size h) \<le> length bytes"
  shows "\<exists>l' pt'. load_segments (fat_node_ops ms b d) base phs l pt m = Some (l', pt', loaded_image bytes phs m, True)"
proof -
  have "fat_source ms ok disk n b d cs bytes (elf_node l)" using assms(1-7) by (simp add: fat_source_def)
  then show ?thesis by (rule fat_elf.segments_load [OF _ assms(8-10)])
qed

section \<open>An executable\<close>

text \<open>
  A file of 128 bytes in cluster 3 of the volume of the examples: a header, the header of one writable segment of 16 bytes at
  \<open>0x401000\<close>, and the 8 bytes of the segment that are in the file.
\<close>

definition elf_image :: "u8 list" where
  "elf_image = [0x7F, 0x45, 0x4C, 0x46, 2, 1, 1, 0] @ replicate 8 0 @ [2, 0, 0x3E, 0, 1, 0, 0, 0] @ [0, 0x10, 0x40, 0, 0, 0, 0, 0] @
     [64, 0, 0, 0, 0, 0, 0, 0] @ replicate 12 0 @ [64, 0, 56, 0, 1, 0, 0, 0, 0, 0, 0, 0] @
     [1, 0, 0, 0, 7, 0, 0, 0] @ [120, 0, 0, 0, 0, 0, 0, 0] @ [0, 0x10, 0x40, 0, 0, 0, 0, 0] @ replicate 8 0 @
     [8, 0, 0, 0, 0, 0, 0, 0] @ [16, 0, 0, 0, 0, 0, 0, 0] @ [0, 0x10, 0, 0, 0, 0, 0, 0] @ [1, 2, 3, 4, 5, 6, 7, 8]"

definition elf_segment :: elf64_program_header where
  "elf_segment = \<lparr>ph_type = 1, ph_flags = 7, ph_file_offset = 120, ph_virtual_address = 0x401000, ph_physical_address = 0,
     ph_file_size = 8, ph_memory_size = 16, ph_align = 0x1000\<rparr>"

definition elf_disk :: "u8 list" where "elf_disk = take 3072 demo_disk @ elf_image @ drop 3200 demo_disk"

definition elf_node0 :: fat_node where
  "elf_node0 = (demo_node MODE_READ)\<lparr>node_entry := demo_entry\<lparr>fentry := (fentry demo_entry)\<lparr>file_size := 128\<rparr>\<rparr>\<rparr>"

lemma elf_lengths: "length elf_image = 128" "length elf_disk = 12 * 512"
  by (simp_all add: elf_disk_def elf_image_def demo_length)

lemma elf_node0: "first_cluster elf_node0 = 3" "node_size elf_node0 = 128" "\<not> closed elf_node0" "node_has_attribute elf_node0 NODE_FILE"
  "cursor_ok small_volume [3] elf_node0" "cursor_pos small_volume elf_node0 = 0"
  by (simp_all add: node_has_file elf_node0_def demo_node_def demo_entry_def cluster_of_def new_file_entry_def cursor_ok_def cursor_pos_def)

lemma elf_file_on: "file_on 12 (!) small_volume elf_disk [3] elf_node0"
proof -
  have q: "entry_pos small_volume 3 = 524" by (simp add: entry_pos_def small_volume_def make_new_boot_record_def Let_def)
  have "elf_disk ! i = demo_disk ! i" if "i < 3072" for i using that by (simp add: elf_disk_def nth_append demo_length)
  then have "map ((!) elf_disk) [524..<528] = map ((!) demo_disk) [524..<528]" by simp
  then have "table_entry (!) small_volume elf_disk 3 = table_entry (!) small_volume demo_disk 3"
    by (simp add: table_entry_def raw_entry_def q)
  then have "table_entry (!) small_volume elf_disk 3 = 0x0FFFFFFF" using demo_entries(2) by simp
  then have "file_chain (table_entry (!) small_volume elf_disk) [3] 3" by (simp add: file_chain_def MAX_CLUSTER_COUNT_def)
  then show ?thesis using demo_clusters(1) elf_node0 by (simp add: file_ok_def file_chain_def demo_sizes sizes_ok_def)
qed

lemma elf_content: "content (!) small_volume elf_disk [3] elf_node0 = elf_image"
proof -
  have p: "data_pos small_volume 3 = 3072" by (simp add: data_pos_def small_volume_def make_new_boot_record_def Let_def)
  have "file_bytes (data_block (!) small_volume elf_disk) [3] 128 = map ((!) elf_disk) [3072..<3072 + 128]"
    by (simp add: file_bytes_def data_block_def demo_sizes take_map p del: upt_rec_numeral)
  also have "\<dots> = elf_image"
    using map_nth_middle [of "take 3072 demo_disk" elf_image "drop 3200 demo_disk"] unfolding elf_disk_def elf_lengths(1) by (simp add: demo_length del: upt_rec_numeral)
  finally show ?thesis by (simp add: elf_node0(2))
qed

lemma elf_image_verdict:
  "elf_verdict kernel_memory_start elf_image = Some (Inr \<lparr>elf_header = elf_header_of elf_image, program_headers = [elf_segment],
     elf_vendor = ''Unknown'', elf_major = 0, elf_minor = 0, elf_patch = 0\<rparr>)"
  by code_simp

theorem loader_reads_headers_witness:
  "\<exists>l elf. load_elf_file (fat_node_ops ram_ops small_volume elf_disk) kernel_memory_start (new_reader elf_node0) = Some (l, Inr elf) \<and>
    program_headers elf = [elf_segment]"
  using loader_reads_headers [OF small_volume_ok elf_lengths(2) elf_file_on elf_node0(5) _ elf_node0(6) elf_content, of "kernel_memory_start"]
    elf_image_verdict by (auto simp: elf_node0(1))

theorem accepted_segments_in_user_space_witness:
  "\<exists>l elf. load_elf_file (fat_node_ops ram_ops small_volume elf_disk) kernel_memory_start (new_reader elf_node0) = Some (l, Inr elf) \<and>
    program_headers elf = [elf_segment] \<and> eh_type (elf_header elf) = OBJECT_EXEC \<and> ph_virtual_address elf_segment < USER_SPACE_END"
proof -
  have src: "fat_source ram_ops (\<lambda>d. length d = 12 * 512) (!) 12 small_volume elf_disk [3] elf_image elf_node0"
    using small_volume_ok elf_lengths(2) elf_file_on elf_node0 elf_content by (simp add: fat_source_def)
  obtain l elf where l: "load_elf_file (fat_node_ops ram_ops small_volume elf_disk) kernel_memory_start (new_reader elf_node0) = Some (l, Inr elf)"
    "program_headers elf = [elf_segment]"
    using fat_elf.elf_file_read [OF src elf_node0(6) refl, of "kernel_memory_start"] elf_image_verdict by auto
  have s: "unat (ph_virtual_address elf_segment) + unat (ph_memory_size elf_segment) < 2 ^ 64"
    "ph_virtual_address elf_segment < ph_virtual_address elf_segment + ph_memory_size elf_segment" by (simp_all add: elf_segment_def)
  have c: "to_canonical_form (ph_virtual_address elf_segment) = ph_virtual_address elf_segment" by code_simp
  show ?thesis using l s c accepted_segments_in_user_space [OF l(1)] by auto
qed

theorem segments_hold_file_witness:
  "\<exists>l pt m. load_segments (fat_node_ops ram_ops small_volume elf_disk) (interp_as_base_page_table 0) [elf_segment] (new_reader elf_node0)
      sample_space (\<lambda>a. 0xFF) = Some (l, pt, m, True) \<and> m 0x401003 = 4 \<and> m 0x40100C = 0 \<and> m 0x401010 = 0xFF"
proof -
  have seg: "unat (ph_file_offset h) < length elf_image \<and> unat (ph_file_offset h) + unat (ph_file_size h) \<le> length elf_image"
    if "h \<in> set [elf_segment]" "ph_type h = SEGMENT_LOAD" for h using that by (simp add: elf_segment_def elf_lengths)
  have m: "loaded_image elf_image [elf_segment] (\<lambda>a. 0xFF) 0x401003 = 4" "loaded_image elf_image [elf_segment] (\<lambda>a. 0xFF) 0x40100C = 0"
    "loaded_image elf_image [elf_segment] (\<lambda>a. 0xFF) 0x401010 = 0xFF" by code_simp+
  have r: "elf_node (new_reader elf_node0) = elf_node0" "length (file_buf (new_reader elf_node0)) = 8192"
    by (simp_all only: new_reader_def elf_reader.simps length_replicate BUF_SIZE_def) simp
  have n: "file_on 12 (!) small_volume elf_disk [3] (elf_node (new_reader elf_node0))"
    "cursor_ok small_volume [3] (elf_node (new_reader elf_node0))" "first_cluster (elf_node (new_reader elf_node0)) = hd [3]"
    "content (!) small_volume elf_disk [3] (elf_node (new_reader elf_node0)) = elf_image"
    "cursor_pos small_volume (elf_node (new_reader elf_node0)) \<le> length elf_image" "length elf_image < 2 ^ 31"
    unfolding r by (simp_all add: elf_file_on elf_content elf_node0 elf_lengths(1) del: elf_node0(2))
  show ?thesis
    using segments_hold_file [OF small_volume_ok elf_lengths(2) n(1-5) r(2) n(6) seg, where base = "interp_as_base_page_table 0"
      and pt = sample_space and m = "\<lambda>a. 0xFF"] m by blast
qed

section \<open>Limits\<close>

text \<open>The end of a segment may wrap around: a segment of almost the whole address space is accepted.\<close>

lemma huge_segment_accepted:
  assumes "0x1000 \<le> limit"
  shows "\<not> intersects_kernel limit (elf_segment\<lparr>ph_virtual_address := 0x1000, ph_memory_size := - 0x1000\<rparr>)"
  using assms by (simp add: intersects_kernel_def not_less)

text \<open>
  Addresses between user space and kernel memory pass too, although the page tables take them for the kernel addresses with
  the same lower 48 bits.
\<close>

lemma aliasing_segment_accepted:
  "\<not> intersects_kernel kernel_memory_start (elf_segment\<lparr>ph_virtual_address := 0x0000FFFF80000000, ph_memory_size := 0x1000\<rparr>)"
  "page_path 0x0000FFFF80000000 = page_path 0xFFFFFFFF80000000"
  by code_simp+

text \<open>A vendor note of type 1 in little endian order is refused, as the byte order of the file is never read.\<close>

lemma little_endian_note_refused:
  assumes "take 4 (drop (seek_target32 (ph_file_offset nt) + 8) b) = [1, 0, 0, 0]"
  shows "vendor_verdict b elf nt 0 = Some (elf, BAD_VENDOR_INFO)"
proof -
  let ?p = "seek_target32 (ph_file_offset nt)" and ?e = "take 12 (drop (seek_target32 (ph_file_offset nt)) b)"
  have len: "?p + 12 \<le> length b" using arg_cong [OF assms, of length] by (simp add: min_def split: if_splits)
  then have "drop 8 ?e = [1, 0, 0, 0]" using assms by (simp add: drop_take add.commute)
  then have "drop 8 (?e @ replicate (12 - length ?e) 0) = [1, 0, 0, 0]" using len by simp
  then have "to_u32 0 (drop 8 (?e @ replicate (12 - length ?e) 0)) \<noteq> 1" by (simp add: to_u32_def ORDER_LITTLE_ENDIAN_def be_to_u32_def)
  then show ?thesis by (simp add: vendor_verdict_def Let_def)
qed

end
