(* ===== verification/Spec2Isabelle.thy ===== *)
theory Spec2Isabelle
  imports Memory_Regions Linked_List Hash_Map Page_Frames Timer Mutex Memory_Calls Text_Format Slab_Heap Vfs_References Elf_Loading
begin

text \<open>
  A verification development for the kernel of runeOS (C++, \<^verbatim>\<open>src/Kernel\<close>).

  \<^bold>\<open>The program.\<close> The kernel runs on one x86-64 processor. Its memory subsystem stacks a bitmap of page frames, page
  tables, address spaces and a slab heap; a scheduler with a multi-level queue, a timer and mutexes run the threads; the
  virtual file system maps paths to drivers, of which FAT32 is the only one, over a mass storage device; apps reach all
  of this through system calls, whose arguments the kernel guardian tests. The kernel runtime (KRE) supplies lists, hash maps,
  strings, formatting and byte access to every part.

  \<^bold>\<open>Theories and code.\<close> Paths are below \<^verbatim>\<open>src/Kernel\<close>.

  Runtime:
  \<^item> \<open>Prelude\<close>: names of the machine integers, the collections of facts, lemmas on words and lists.
  \<^item> \<open>Sorting_Arrays\<close>: \<^verbatim>\<open>partition\<close>, \<^verbatim>\<open>quick_sort\<close>, \<^verbatim>\<open>array_delete\<close> of \<^verbatim>\<open>Include/KRE/Utility.h\<close>.
  \<^item> \<open>Memory_Regions\<close>: \<^verbatim>\<open>MemoryMap\<close> with \<^verbatim>\<open>claim\<close> and \<^verbatim>\<open>merge\<close> (\<^verbatim>\<open>Src/KRE/Memory.cpp\<close>).
  \<^item> \<open>Linked_List\<close>: \<^verbatim>\<open>LinkedList.h\<close> over an explicit heap of nodes; the locale of queues is interpreted on it.
  \<^item> \<open>Hash_Map\<close>: \<^verbatim>\<open>HashMap.h\<close>, with null and dangling bucket arrays as states.
  \<^item> \<open>Strings\<close>, \<open>Text_Format\<close>: \<^verbatim>\<open>String.cpp\<close>, \<^verbatim>\<open>String.h\<close>, \<^verbatim>\<open>Path.cpp\<close>; \<open>interpolate\<close> is the state machine of format strings.
  \<^item> \<open>Bytes\<close>: \<^verbatim>\<open>CRL.cpp\<close> (memset to memcmp), \<^verbatim>\<open>BitsAndBytes.h\<close>, the byte order functions of \<^verbatim>\<open>Utility.cpp\<close>.

  Memory:
  \<^item> \<open>Page_Frames\<close>: \<^verbatim>\<open>PhysicalMemoryManager.cpp\<close>, \<^verbatim>\<open>BitMapAllocator.cpp\<close>.
  \<^item> \<open>Paging\<close>, \<open>Address_Spaces\<close>: \<^verbatim>\<open>Src/Arch/x86_64/Memory\<close>; the first has the code, the second reads the tables as
    a partial function from pages to frames and shows what each operation does to it.
  \<^item> \<open>Virtual_Memory\<close>: \<^verbatim>\<open>VirtualMemoryManager.cpp\<close> over both.
  \<^item> \<open>Slab_Allocator\<close>, \<open>Slab_Cache\<close>, \<open>Slab_Objects\<close>, \<open>Slab_Heap\<close>: \<^verbatim>\<open>SlabAllocator.cpp\<close>; the first has the code, the others
    the contract of the caches of small objects.
  \<^item> \<open>Kernel_Guardian\<close>, \<open>Memory_Calls\<close>: \<^verbatim>\<open>Src/SystemCall/KernelGuardian.cpp\<close> and \<^verbatim>\<open>MemoryBundle.cpp\<close>.

  Threads:
  \<^item> \<open>Scheduler\<close>: \<^verbatim>\<open>MultiLevelQueue.cpp\<close>, \<^verbatim>\<open>Scheduler.cpp\<close>; \<open>Timer\<close>: \<^verbatim>\<open>DeltaQueue.cpp\<close>, \<^verbatim>\<open>PIT.cpp\<close>, \<^verbatim>\<open>Timer.cpp\<close>;
    \<open>Mutex\<close>: \<^verbatim>\<open>Mutex.cpp\<close> as threads whose atomic steps interleave.

  Files:
  \<^item> \<open>Fat_Volume\<close>, \<open>Fat_Table\<close>: \<^verbatim>\<open>FAT32Engine.cpp\<close>, \<^verbatim>\<open>VolumeManager.cpp\<close>, \<^verbatim>\<open>FileEntryManager.cpp\<close>.
  \<^item> \<open>Fat_File\<close>, \<open>Fat_Content\<close>, \<open>Fat_Write\<close>: \<^verbatim>\<open>FATNode.cpp\<close>, and files as sequences of bytes with a cursor.
  \<^item> \<open>Fat_Directory\<close>, \<open>Fat_Listing\<close>, \<open>Fat_Names\<close>: \<^verbatim>\<open>FATDirectoryIterator.cpp\<close>, and directories as lists of entries.
  \<^item> \<open>Fat_Driver\<close>, \<open>Fat_Create\<close>, \<open>Fat_Delete\<close>, \<open>Fat_Paths\<close>: \<^verbatim>\<open>FATDriver.cpp\<close> and its promises.
  \<^item> \<open>Vfs\<close>, \<open>Vfs_References\<close>: \<^verbatim>\<open>VFSModule.cpp\<close>, \<^verbatim>\<open>Node.cpp\<close>, \<^verbatim>\<open>DirectoryStream.cpp\<close>, the handle counter of
    \<^verbatim>\<open>Resource.h\<close>; the FAT driver is plugged in as \<open>fat_driver_ops\<close>.

  Apps:
  \<^item> \<open>Elf\<close>, \<open>Elf_Loading\<close>: \<^verbatim>\<open>Src/App/ELFLoader.cpp\<close> over the virtual file system and the virtual memory manager; the second
    theory shows what the loader makes of the bytes of a file, on any node that is a sequence of bytes and so on files of FAT volumes.

  \<^bold>\<open>State.\<close> A class is a record of its members, an object reached through a pointer is an entry of a map or a list, an
  operation is a function that returns the changed record. Integers keep their width and wrap around. Enumerations are datatypes,
  error codes are results. The physical memory manager below paging, the storage device below FAT and the driver below
  the virtual file system are records of operations: the models use them as the code uses its virtual methods, and they are
  instantiated with \<open>bitmap_ops\<close>, with devices in memory and with the FAT driver.

  \<^bold>\<open>None, bounds and fuel.\<close> An operation that may touch a null pointer, read outside an array, use freed memory or loop for ever
  has an option as its result, and \<open>None\<close> is that failure; properties that promise a result say \<open>Some\<close>. Loops whose
  end depends on data (chains of clusters, searches, wrapping counters) are \<open>partial_function (option)\<close>; all other loops are
  structural. The only fuel is \<open>ALLOC_DEPTH = 2\<close> of the slab allocator: a cache with its data off the slab asks
  caches with their data on the slab for it, and these ask nobody.

  \<^bold>\<open>What the lemmas show.\<close>
  \<^item> Memory: a claim retypes exactly the addresses asked for; frames of protected memory are not freed by requests within the managed
    memory, allocation is first fit and is undone by freeing; mapping and unmapping change one page of the abstract address space and return all intermediate tables;
    objects in use of a slab cache are disjoint, allocation gives new ones until the region is full, and a freed object is given out
    again; with the limit between user and kernel memory that the start-up computes (\<open>kernel_memory_start\<close>, 0xFFFF800000000000), the
    system call that frees pages unmaps the pages of a user range only, unless the end of the range wraps around or is not canonical.
  \<^item> Threads: one running thread, no thread in two queues, round robin under preemption; a timer interrupt wakes the
    threads that are due; a mutex has one owner in every interleaving. Its unlock by a thread that does not
    own it, and its trace output, test the owner and use it in two steps, between which another thread can reset it: \<open>unlock_can_crash\<close>
    and \<open>try_lock_can_crash\<close> are such runs.
  \<^item> Files: the table and the data clusters are maps, files are byte sequences (read, append, replace, seek), well-formed directories are
    lists of named entries (list, look up, create, delete), long names survive being stored; creation is stated of \<open>create_file\<close>, the step
    of \<open>create\<close> behind its test for existence, as that test reads a list that is already destroyed; reference counts are numbers of
    open nodes, open nodes are not deleted, and a marked one is deleted with its last handle, down to its entry on a FAT volume.
  \<^item> Apps: the loader reads the headers that stand in the file, accepts no segment with a canonical kernel address
    unless its end wraps around (addresses that are not canonical are accepted, although the page tables take them for kernel addresses),
    and after loading the memory holds the segments of the file, with zeroes behind them.
  \<^item> Runtime: list and hash map refine the mathematical ones, path resolution and formatting follow their specifications.

  The locales state the interfaces: ordered arrays, queues, key-value maps, the allocator below paging, tables of clusters,
  files, directories and nodes. Each is interpreted on the model of the component that provides it.

  Where the code departs from what it means to do, a lemma shows the departure on the model and the property has the
  condition that excludes it: addresses that wrap around or are not canonical, page frames behind the managed memory, keys
  that are put twice, clusters of more than one sector, names of files of more than 195 characters or of a multiple of 13, files with a
  short name only, directories with a deleted last entry or with a further cluster that starts unused, new and deleted entries in
  directories of several clusters, writes after a seek, mount points below the root, handles behind 65535, nodes that are closed
  twice, segments that are not complete in their file, arguments that formatting cannot write.

  \<^bold>\<open>Not modelled.\<close>
  \<^item> Assembly, descriptor tables, port and register access, boot, the AHCI and PCI drivers and the keyboard: they act on
    hardware. ACPICA and yaml-cpp are third-party code.
  \<^item> Logging, tables for debugging and the frame buffer: output.
  \<^item> The table of apps and the terminal, semaphores and thread tables, the other bundles of system calls, and the
    user programs Crucible and Freya: they sit on top of what is modelled and are left for later work.
  \<^item> The storage of characters behind strings, \<^verbatim>\<open>remove_thread\<close> of the mutex and the walk of its trace output over the waiting threads, the copy constructor of the hash map.
  \<^item> The tables of the virtual file system are lists of entries rather than the hash map of \<open>Hash_Map\<close>, and kernel objects
    behind shared pointers are values: freeing them is not modelled.
\<close>

end
